(* ===== verification/LuaPrelude.thy ===== *)
theory LuaPrelude
  imports Main "HOL-Library.Word" "HOL-Library.Multiset"
begin

text \<open>
  The prelude of the development: machine integers, C strings and the character
  classes of the C locale, the error values of the interpreter with the sequencing of
  fallible steps, and the generic lemmas the component theories share.
\<close>

unbundle bit_operations_syntax

named_theorems lua_defs \<open>definitions that are unfolded by the component proofs\<close>
named_theorems lua_split \<open>case rules for the sequencing of fallible steps\<close>

section \<open>Machine types\<close>

type_synonym u8 = "8 word"
type_synonym u32 = "32 word"
type_synonym u64 = "64 word"

text \<open>An address: the identity of a collectable object or a light userdata.\<close>

type_synonym addr = nat

abbreviation INT_MIN :: int where "INT_MIN \<equiv> - 2147483648"
abbreviation INT_MAX :: int where "INT_MAX \<equiv> 2147483647"

text \<open>\<open>MAX_INT\<close> of llimits.h: \<open>INT_MAX-2\<close>, and \<open>MAX_SIZET\<close> with a 64-bit \<open>size_t\<close>.\<close>

definition MAX_INT :: int where "MAX_INT = 2147483645"
definition MAX_SIZET :: int where "MAX_SIZET = 18446744073709551613"

text \<open>The conversions \<open>(int)\<close> and \<open>(unsigned int)\<close> of a wider integer.\<close>

definition int32 :: "int \<Rightarrow> int" where
  "int32 n = (n + 2147483648) mod 4294967296 - 2147483648"

definition uint32 :: "int \<Rightarrow> int" where
  "uint32 n = n mod 4294967296"

definition uint64 :: "int \<Rightarrow> int" where
  "uint64 n = n mod 18446744073709551616"

lemma int32_id: "INT_MIN \<le> n \<Longrightarrow> n \<le> INT_MAX \<Longrightarrow> int32 n = n"
  by (simp add: int32_def mod_pos_pos_trivial)

lemma int32_range: "INT_MIN \<le> int32 n" "int32 n \<le> INT_MAX"
  using pos_mod_bound [of 4294967296 "n + 2147483648"] by (simp_all add: int32_def)

section \<open>Errors\<close>

text \<open>
  \<open>NO_FUEL\<close> is no error of the program: a bounded recursion of the model was cut off. The
  theories that bound a recursion prove that it does not occur. \<open>UNDEFINED\<close> is none either: the
  program reads or writes outside its memory, and C leaves open what happens.

  The others are the status codes of lua.h that \<open>luaD_throw\<close> is called with; the message, where there
  is one, is the string the C code leaves on the top of the stack.
\<close>

datatype lua_error =
    LUA_ERRRUN string
  | LUA_ERRSYNTAX string
  | LUA_ERRMEM
  | LUA_ERRERR
  | UNDEFINED
  | NO_FUEL

type_synonym 'a res = "lua_error + 'a"

text \<open>Sequencing: the rest of a function runs only if the call before it did not throw.\<close>

definition bindE :: "'a res \<Rightarrow> ('a \<Rightarrow> 'b res) \<Rightarrow> 'b res" where
  "bindE m f = (case m of Inl e \<Rightarrow> Inl e | Inr x \<Rightarrow> f x)"

lemma bindE_simps [simp]:
  "bindE (Inl e) f = Inl e"
  "bindE (Inr x) f = f x"
  by (simp_all add: bindE_def)

lemma bindE_cong [fundef_cong]:
  assumes "m = m'" and "\<And>x. m' = Inr x \<Longrightarrow> f x = f' x"
  shows "bindE m f = bindE m' f'"
  using assms by (cases m') auto

lemma bindE_Inr_iff [lua_split]:
  "bindE m f = Inr y \<longleftrightarrow> (\<exists>x. m = Inr x \<and> f x = Inr y)"
  by (cases m) auto

lemma bindE_Inl_iff [lua_split]:
  "bindE m f = Inl e \<longleftrightarrow> m = Inl e \<or> (\<exists>x. m = Inr x \<and> f x = Inl e)"
  by (cases m) auto

text \<open>\<open>LUA_QL\<close>: how messages quote program elements.\<close>

definition LUA_QL :: "string \<Rightarrow> string" where
  "LUA_QL x = CHR 0x27 # x @ [CHR 0x27]"

section \<open>C strings and the C locale\<close>

text \<open>
  A Lua string is a list of bytes (\<open>char\<close>). The byte after the last one is the
  terminating \<open>NUL\<close>, which the C code reads freely: \<open>chat s i\<close> is \<open>s[i]\<close>.
  A C function that stops at the first \<open>NUL\<close> sees \<open>cstr s\<close>.
\<close>

abbreviation NUL :: char where "NUL \<equiv> CHR 0x00"

definition chat :: "string \<Rightarrow> nat \<Rightarrow> char" where
  "chat s i = (if i < length s then s ! i else NUL)"

definition cstr :: "string \<Rightarrow> string" where
  "cstr s = takeWhile (\<lambda>c. c \<noteq> NUL) s"

definition uchar :: "char \<Rightarrow> int" where
  "uchar c = of_char c"

text \<open>\<open>strchr(set, c) != NULL\<close>: the terminator belongs to every C string.\<close>

definition strchr :: "string \<Rightarrow> char \<Rightarrow> bool" where
  "strchr cs c = (c \<in> set (cstr cs) \<or> c = NUL)"

definition isdigit :: "int \<Rightarrow> bool" where "isdigit c = (48 \<le> c \<and> c \<le> 57)"
definition isupper :: "int \<Rightarrow> bool" where "isupper c = (65 \<le> c \<and> c \<le> 90)"
definition islower :: "int \<Rightarrow> bool" where "islower c = (97 \<le> c \<and> c \<le> 122)"
definition isalpha :: "int \<Rightarrow> bool" where "isalpha c = (isupper c \<or> islower c)"
definition isalnum :: "int \<Rightarrow> bool" where "isalnum c = (isalpha c \<or> isdigit c)"
definition isspace :: "int \<Rightarrow> bool" where "isspace c = (c = 32 \<or> 9 \<le> c \<and> c \<le> 13)"
definition iscntrl :: "int \<Rightarrow> bool" where "iscntrl c = (0 \<le> c \<and> c \<le> 31 \<or> c = 127)"
definition isxdigit :: "int \<Rightarrow> bool" where
  "isxdigit c = (isdigit c \<or> 65 \<le> c \<and> c \<le> 70 \<or> 97 \<le> c \<and> c \<le> 102)"
definition ispunct :: "int \<Rightarrow> bool" where
  "ispunct c = (33 \<le> c \<and> c \<le> 126 \<and> \<not> isalnum c)"
definition tolower :: "int \<Rightarrow> int" where "tolower c = (if isupper c then c + 32 else c)"
definition toupper :: "int \<Rightarrow> int" where "toupper c = (if islower c then c - 32 else c)"

lemmas ctype_defs = isdigit_def isupper_def islower_def isalpha_def isalnum_def
  isspace_def iscntrl_def isxdigit_def ispunct_def tolower_def toupper_def

lemma chat_end [simp]: "length s \<le> i \<Longrightarrow> chat s i = NUL"
  by (simp add: chat_def)

lemma chat_nth [simp]: "i < length s \<Longrightarrow> chat s i = s ! i"
  by (simp add: chat_def)

lemma chat_not_NUL: "chat s i \<noteq> NUL \<Longrightarrow> i < length s"
  by (auto simp: chat_def split: if_splits)

lemma cstr_id: "NUL \<notin> set s \<Longrightarrow> cstr s = s"
  unfolding cstr_def by (rule takeWhile_eq_all_conv[THEN iffD2]) auto

lemma uchar_range: "0 \<le> uchar c" "uchar c < 256"
proof -
  have "uchar c = int (of_char c)" by (simp only: uchar_def of_nat_of_char)
  moreover have "(of_char c :: nat) < 256" by (metis of_char_mod_256 mod_less_divisor zero_less_numeral)
  ultimately show "0 \<le> uchar c" and "uchar c < 256" by simp_all
qed

section \<open>Lists\<close>

text \<open>A loop over a list whose body can throw.\<close>

fun foldE :: "('s \<Rightarrow> 'a \<Rightarrow> 's res) \<Rightarrow> 's \<Rightarrow> 'a list \<Rightarrow> 's res" where
  "foldE f s [] = Inr s"
| "foldE f s (x # xs) = bindE (f s x) (\<lambda>s'. foldE f s' xs)"

lemma foldE_cong [fundef_cong]:
  assumes "s = s'" "xs = xs'" "\<And>t x. x \<in> set xs' \<Longrightarrow> f t x = g t x"
  shows "foldE f s xs = foldE g s' xs'"
proof -
  have "(\<And>t x. x \<in> set xs' \<Longrightarrow> f t x = g t x) \<Longrightarrow> foldE f s' xs' = foldE g s' xs'"
    by (induction xs' arbitrary: s') (auto intro: bindE_cong)
  with assms show ?thesis by simp
qed

text \<open>
  The rule for such a loop: an invariant that holds of the state and the elements still to
  come, kept by every step that does not throw.
\<close>

lemma foldE_invariant:
  assumes "foldE f s xs = Inr t" "I s xs"
    and "\<And>s x xs s'. I s (x # xs) \<Longrightarrow> f s x = Inr s' \<Longrightarrow> I s' xs"
  shows "I t []"
  using assms(1,2)
  by (induction xs arbitrary: s) (auto simp: bindE_Inr_iff dest: assms(3))

lemma foldE_total:
  assumes "I s xs"
    and "\<And>s x xs. I s (x # xs) \<Longrightarrow> \<exists>s'. f s x = Inr s' \<and> I s' xs"
  shows "\<exists>t. foldE f s xs = Inr t \<and> I t []"
  using assms(1)
proof (induction xs arbitrary: s)
  case (Cons x xs)
  from assms(2) [OF Cons.prems] obtain s' where "f s x = Inr s'" "I s' xs" by blast
  with Cons.IH [of s'] show ?case by simp
qed simp

end
