(* ===== verification/LuaNumber.thy ===== *)
theory LuaNumber
  imports LuaPrelude
begin

text \<open>
  \<open>lua_Number\<close> is \<open>double\<close> (luaconf.h): an IEEE 754 binary64 value, kept as its 64 bits.
  The arithmetic macros \<open>luai_num*\<close> are the C operators, so their meaning is the one of
  the standard: exact arithmetic on the decoded operands, rounded to nearest, ties to even.
  Everything computes on \<open>int\<close>, so closed terms are evaluated by \<open>code_simp\<close>.
  A NaN produced by an operation is the default quiet NaN.
\<close>

type_synonym lua_Number = "64 word"

section \<open>Decoding and encoding\<close>

definition num_sign :: "lua_Number \<Rightarrow> bool" where
  "num_sign n = (9223372036854775808 \<le> uint n)"

definition num_mag :: "lua_Number \<Rightarrow> int" where
  "num_mag n = uint n mod 9223372036854775808"

definition num_make :: "bool \<Rightarrow> int \<Rightarrow> lua_Number" where
  "num_make s m = word_of_int ((if s then 9223372036854775808 else 0) + m)"

text \<open>The magnitude bits of infinity: exponent field 2047, fraction 0.\<close>

definition inf_mag :: int where "inf_mag = 9218868437227405312"

definition is_nan :: "lua_Number \<Rightarrow> bool" where "is_nan n = (inf_mag < num_mag n)"
definition is_inf :: "lua_Number \<Rightarrow> bool" where "is_inf n = (num_mag n = inf_mag)"

definition num_nan :: lua_Number where "num_nan = 9221120237041090560"

definition num_mant :: "lua_Number \<Rightarrow> int" where
  "num_mant n =
     (let e = num_mag n div 4503599627370496; f = num_mag n mod 4503599627370496
      in if e = 0 then f else f + 4503599627370496)"

definition num_expo :: "lua_Number \<Rightarrow> int" where
  "num_expo n = max (num_mag n div 4503599627370496) 1 - 1075"

text \<open>A finite number is \<open>num_smant n * 2 ^ num_expo n\<close>.\<close>

definition num_smant :: "lua_Number \<Rightarrow> int" where
  "num_smant n = (if num_sign n then - num_mant n else num_mant n)"

text \<open>The number of bits of a natural number.\<close>

fun nbits :: "int \<Rightarrow> int" where
  "nbits n = (if n \<le> 0 then 0 else nbits (n div 2) + 1)"

declare nbits.simps [simp del]

text \<open>
  The double nearest to \<open>p / q * 2 ^ e\<close>. The result's exponent \<open>E\<close> leaves 53 bits of
  quotient, or is the least one, where the result is subnormal. A carry out of the 53 bits
  moves into the exponent field by itself.
\<close>

definition num_round :: "bool \<Rightarrow> int \<Rightarrow> int \<Rightarrow> int \<Rightarrow> lua_Number" where
  "num_round s p q e =
     (let E = max (-1074) (e + nbits (p div q) - 53);
          p' = p * 2 ^ nat (e - E); d = q * 2 ^ nat (E - e);
          m = p' div d; r = p' mod d;
          m' = (if d < 2 * r \<or> (2 * r = d \<and> m mod 2 = 1) then m + 1 else m)
      in num_make s (min (m' + (E + 1074) * 4503599627370496) inf_mag))"

section \<open>The operations of luaconf.h\<close>

definition cast_num :: "int \<Rightarrow> lua_Number" where
  "cast_num k = (if k = 0 then 0 else num_round (k < 0) \<bar>k\<bar> 1 0)"

definition luai_numunm :: "lua_Number \<Rightarrow> lua_Number" where
  "luai_numunm a = num_make (\<not> num_sign a) (num_mag a)"

definition luai_numadd :: "lua_Number \<Rightarrow> lua_Number \<Rightarrow> lua_Number" where
  "luai_numadd a b =
     (if is_nan a \<or> is_nan b then num_nan
      else if is_inf a then (if is_inf b \<and> num_sign a \<noteq> num_sign b then num_nan else a)
      else if is_inf b then b
      else let e = (if num_mag a = 0 then num_expo b else if num_mag b = 0 then num_expo a
                    else min (num_expo a) (num_expo b));
               s = num_smant a * 2 ^ nat (num_expo a - e) + num_smant b * 2 ^ nat (num_expo b - e)
           in if s = 0 then num_make (num_sign a \<and> num_sign b) 0
              else num_round (s < 0) \<bar>s\<bar> 1 e)"

definition luai_numsub :: "lua_Number \<Rightarrow> lua_Number \<Rightarrow> lua_Number" where
  "luai_numsub a b = luai_numadd a (luai_numunm b)"

definition luai_nummul :: "lua_Number \<Rightarrow> lua_Number \<Rightarrow> lua_Number" where
  "luai_nummul a b =
     (let s = (num_sign a \<noteq> num_sign b)
      in if is_nan a \<or> is_nan b then num_nan
         else if is_inf a then (if num_mag b = 0 then num_nan else num_make s inf_mag)
         else if is_inf b then (if num_mag a = 0 then num_nan else num_make s inf_mag)
         else if num_mag a = 0 \<or> num_mag b = 0 then num_make s 0
         else num_round s (num_mant a * num_mant b) 1 (num_expo a + num_expo b))"

definition luai_numdiv :: "lua_Number \<Rightarrow> lua_Number \<Rightarrow> lua_Number" where
  "luai_numdiv a b =
     (let s = (num_sign a \<noteq> num_sign b)
      in if is_nan a \<or> is_nan b then num_nan
         else if is_inf a then (if is_inf b then num_nan else num_make s inf_mag)
         else if is_inf b then num_make s 0
         else if num_mag b = 0 then (if num_mag a = 0 then num_nan else num_make s inf_mag)
         else if num_mag a = 0 then num_make s 0
         else let j = nbits (num_mant b) + 54
              in num_round s (num_mant a * 2 ^ nat j) (num_mant b)
                   (num_expo a - num_expo b - j))"

text \<open>\<open>floor\<close> of math.h.\<close>

definition num_floor :: "lua_Number \<Rightarrow> lua_Number" where
  "num_floor a =
     (if is_nan a \<or> is_inf a \<or> 0 \<le> num_expo a then a
      else let k = num_smant a div 2 ^ nat (- num_expo a)
           in if k = 0 then num_make (num_sign a) 0 else num_round (k < 0) \<bar>k\<bar> 1 0)"

definition luai_nummod :: "lua_Number \<Rightarrow> lua_Number \<Rightarrow> lua_Number" where
  "luai_nummod a b = luai_numsub a (luai_nummul (num_floor (luai_numdiv a b)) b)"

text \<open>
  Comparison. The numbers other than NaN are ordered like their magnitudes, with the sign
  in front; the two zeros are equal.
\<close>

definition num_key :: "lua_Number \<Rightarrow> int" where
  "num_key n = (if num_sign n then - num_mag n else num_mag n)"

definition luai_numeq :: "lua_Number \<Rightarrow> lua_Number \<Rightarrow> bool" where
  "luai_numeq a b = (\<not> is_nan a \<and> \<not> is_nan b \<and> num_key a = num_key b)"

definition luai_numlt :: "lua_Number \<Rightarrow> lua_Number \<Rightarrow> bool" where
  "luai_numlt a b = (\<not> is_nan a \<and> \<not> is_nan b \<and> num_key a < num_key b)"

definition luai_numle :: "lua_Number \<Rightarrow> lua_Number \<Rightarrow> bool" where
  "luai_numle a b = (\<not> is_nan a \<and> \<not> is_nan b \<and> num_key a \<le> num_key b)"

definition luai_numisnan :: "lua_Number \<Rightarrow> bool" where
  "luai_numisnan a = (\<not> luai_numeq a a)"

text \<open>
  The truncating cast to an integer type. C leaves a value outside of the type undefined;
  the model returns the least value of the type, which is what the conversion instruction
  of the 64-bit platforms returns.
\<close>

definition num_trunc :: "lua_Number \<Rightarrow> int option" where
  "num_trunc a =
     (if is_nan a \<or> is_inf a then None
      else let k = (if 0 \<le> num_expo a then num_mant a * 2 ^ nat (num_expo a)
                    else num_mant a div 2 ^ nat (- num_expo a))
           in Some (if num_sign a then - k else k))"

definition lua_number2int :: "lua_Number \<Rightarrow> int" where
  "lua_number2int a =
     (case num_trunc a of None \<Rightarrow> INT_MIN
      | Some k \<Rightarrow> if INT_MIN \<le> k \<and> k \<le> INT_MAX then k else INT_MIN)"

definition lua_number2integer :: "lua_Number \<Rightarrow> int" where
  "lua_number2integer a =
     (case num_trunc a of None \<Rightarrow> - 9223372036854775808
      | Some k \<Rightarrow> if - 9223372036854775808 \<le> k \<and> k \<le> 9223372036854775807 then k
                 else - 9223372036854775808)"

section \<open>Decoding an encoded value\<close>

lemma uint_num_make:
  assumes "0 \<le> m" "m < 9223372036854775808"
  shows "uint (num_make s m) = (if s then 9223372036854775808 else 0) + m"
proof -
  have "uint (word_of_int t :: 64 word) = t" if "0 \<le> t" "t < 18446744073709551616" for t
    using that by (simp add: uint_word_of_int take_bit_eq_mod)
  then show ?thesis using assms by (cases s) (simp_all add: num_make_def del: of_int_add)
qed

lemma num_sign_make [simp]:
  "0 \<le> m \<Longrightarrow> m < 9223372036854775808 \<Longrightarrow> num_sign (num_make s m) = s"
  by (simp add: num_sign_def uint_num_make)

lemma num_mag_make [simp]:
  "0 \<le> m \<Longrightarrow> m < 9223372036854775808 \<Longrightarrow> num_mag (num_make s m) = m"
  by (simp add: num_mag_def uint_num_make)

lemma num_mag_range: "0 \<le> num_mag n" "num_mag n < 9223372036854775808"
  by (simp_all add: num_mag_def)

lemma num_make_decode: "num_make (num_sign n) (num_mag n) = n"
proof -
  obtain x where x: "uint n = x" "0 \<le> x" "x < 18446744073709551616"
    using uint_ge_0 [of n] uint_lt2p [of n] by simp
  have "(if num_sign n then 9223372036854775808 else 0) + num_mag n = x"
  proof (cases "9223372036854775808 \<le> x")
    case True
    have "x mod 9223372036854775808 = (x - 9223372036854775808) mod 9223372036854775808" by simp
    also have "\<dots> = x - 9223372036854775808" using True x by (intro mod_pos_pos_trivial) simp_all
    finally show ?thesis using True x by (simp add: num_sign_def num_mag_def)
  next
    case False
    then show ?thesis using x by (simp add: num_sign_def num_mag_def)
  qed
  then have "num_make (num_sign n) (num_mag n) = word_of_int (uint n)"
    by (simp only: num_make_def x)
  then show ?thesis by (simp only: word_of_int_uint)
qed

lemma num_eqI:
  assumes "num_sign a = num_sign b" "num_mag a = num_mag b"
  shows "a = b"
proof -
  have "num_make (num_sign a) (num_mag a) = num_make (num_sign b) (num_mag b)"
    by (simp only: assms)
  then show ?thesis by (simp only: num_make_decode)
qed

lemma luai_numeq_sym: "luai_numeq a b = luai_numeq b a"
  by (auto simp: luai_numeq_def)

lemma luai_numeq_trans: "luai_numeq a b \<Longrightarrow> luai_numeq b c \<Longrightarrow> luai_numeq a c"
  by (simp add: luai_numeq_def)

lemma luai_numeq_refl: "luai_numeq a a = (\<not> is_nan a)"
  by (simp add: luai_numeq_def)

lemma luai_numisnan_iff: "luai_numisnan a = is_nan a"
  by (simp add: luai_numisnan_def luai_numeq_refl)

lemma num_key_eqD: "num_key a = num_key b \<Longrightarrow> a = b \<or> num_mag a = 0 \<and> num_mag b = 0"
  using num_mag_range [of a] num_mag_range [of b]
  by (auto simp: num_key_def intro: num_eqI split: if_splits)

lemma num_zero_cases: "num_mag a = 0 \<Longrightarrow> a = 0 \<or> a = 9223372036854775808"
  using num_make_decode [of a] by (cases "num_sign a") (auto simp: num_make_def)

section \<open>Integers as numbers\<close>

lemma nbits_pos: "0 < n \<Longrightarrow> 0 < nbits n"
proof (induction n rule: nbits.induct)
  case (1 n)
  have "0 \<le> nbits (n div 2)"
    using "1" by (cases "0 < n div 2") (auto simp: nbits.simps [of "n div 2"] nbits.simps [of 0])
  then show ?case using "1.prems" by (simp add: nbits.simps [of n])
qed

lemma nbits_bounds: "0 < n \<Longrightarrow> 2 ^ nat (nbits n - 1) \<le> n \<and> n < 2 ^ nat (nbits n)"
proof (induction n rule: nbits.induct)
  case (1 n)
  show ?case
  proof (cases "n = 1")
    case True
    then show ?thesis by (simp add: nbits.simps [of 1] nbits.simps [of 0])
  next
    case False
    let ?h = "nbits (n div 2)"
    from False "1.prems" have h: "0 < n div 2" by simp
    then have p: "0 < ?h" by (rule nbits_pos)
    from "1.IH" h "1.prems" have ih: "2 ^ nat (?h - 1) \<le> n div 2" "n div 2 < 2 ^ nat ?h"
      by simp_all
    have n: "nbits n = ?h + 1" using "1.prems" by (simp add: nbits.simps [of n])
    have pw: "(2::int) ^ nat ?h = 2 * 2 ^ nat (?h - 1)"
      using p by (simp add: nat_diff_distrib flip: power_Suc)
    have pw': "(2::int) ^ nat (?h + 1) = 2 * 2 ^ nat ?h"
      using p by (simp add: nat_add_distrib)
    have dbl: "2 * x \<le> n \<and> n < 2 * y" if "x \<le> n div 2" "n div 2 < y" for x y :: int
      using that by linarith
    from dbl [OF ih] have "2 * 2 ^ nat (?h - 1) \<le> n" "n < 2 * 2 ^ nat ?h" by simp_all
    with n pw pw' show ?thesis by simp
  qed
qed

lemma nbits_unique:
  assumes "2 ^ k \<le> n" "n < 2 ^ Suc k"
  shows "nbits n = int k + 1"
proof -
  have "0 < n" by (rule less_le_trans [OF _ assms(1)]) simp
  then have b: "2 ^ nat (nbits n - 1) \<le> n" "n < 2 ^ nat (nbits n)" "0 < nbits n"
    using nbits_bounds nbits_pos by auto
  have "(2::int) ^ nat (nbits n - 1) < 2 ^ Suc k" using b(1) assms(2) by linarith
  then have "nat (nbits n - 1) < Suc k" by (rule power_less_imp_less_exp [rotated]) simp
  moreover have "(2::int) ^ k < 2 ^ nat (nbits n)" using b(2) assms(1) by linarith
  then have "k < nat (nbits n)" by (rule power_less_imp_less_exp [rotated]) simp
  ultimately show ?thesis using b(3) by simp
qed

lemma nbits_shift: "0 < n \<Longrightarrow> nbits (n * 2 ^ j) = nbits n + int j"
proof -
  assume n: "0 < n"
  define k where "k = nat (nbits n - 1)"
  have p: "0 < nbits n" using n by (rule nbits_pos)
  have b: "2 ^ k \<le> n" "n < 2 ^ Suc k"
  proof -
    have "nat (nbits n) = Suc k" using p by (simp add: k_def)
    then show "2 ^ k \<le> n" "n < 2 ^ Suc k"
      using nbits_bounds [OF n] by (simp_all add: k_def)
  qed
  have "nbits (n * 2 ^ j) = int (k + j) + 1"
    using b by (intro nbits_unique) (simp_all add: power_add)
  then show ?thesis using p by (simp add: k_def)
qed

lemma nbits_le:
  assumes "0 < n" "n < 2 ^ k"
  shows "nbits n \<le> int k"
proof -
  have "(2::int) ^ nat (nbits n - 1) < 2 ^ k" using nbits_bounds [OF assms(1)] assms(2) by linarith
  then have "nat (nbits n - 1) < k" by (rule power_less_imp_less_exp [rotated]) simp
  then show ?thesis by simp
qed

text \<open>The bits of an integer of at most 53 bits: the conversion is exact.\<close>

definition int_mag :: "int \<Rightarrow> int" where
  "int_mag k = k * 2 ^ nat (53 - nbits k) + (nbits k + 1021) * 4503599627370496"

lemma scaled_bounds:
  assumes "0 < k" "k < 9007199254740992"
  shows "nbits k \<le> 53"
    and "4503599627370496 \<le> k * 2 ^ nat (53 - nbits k)"
    and "k * 2 ^ nat (53 - nbits k) < 9007199254740992"
proof -
  show L: "nbits k \<le> 53" using nbits_le [of k 53] assms by simp
  let ?L = "nbits k"
  have p: "0 < ?L" using assms(1) by (rule nbits_pos)
  have b: "2 ^ nat (?L - 1) \<le> k" "k < 2 ^ nat ?L" using nbits_bounds [OF assms(1)] by simp_all
  have "(2::int) ^ nat (?L - 1) * 2 ^ nat (53 - ?L) = 2 ^ (nat (?L - 1) + nat (53 - ?L))"
    by (simp add: power_add)
  also have "nat (?L - 1) + nat (53 - ?L) = 52" using p L by simp
  finally have "(2::int) ^ nat (?L - 1) * 2 ^ nat (53 - ?L) = 4503599627370496" by simp
  then show "4503599627370496 \<le> k * 2 ^ nat (53 - ?L)"
    using mult_right_mono [OF b(1), of "2 ^ nat (53 - ?L)"] by simp
  have "(2::int) ^ nat ?L * 2 ^ nat (53 - ?L) = 2 ^ (nat ?L + nat (53 - ?L))"
    by (simp add: power_add)
  also have "nat ?L + nat (53 - ?L) = 53" using p L by simp
  finally have "(2::int) ^ nat ?L * 2 ^ nat (53 - ?L) = 9007199254740992" by simp
  then show "k * 2 ^ nat (53 - ?L) < 9007199254740992"
    using mult_strict_right_mono [OF b(2), of "2 ^ nat (53 - ?L)"] by simp
qed

text \<open>Rounding \<open>k * 2 ^ j\<close> taken with exponent \<open>-j\<close> is exact, whatever \<open>j\<close>.\<close>

lemma num_round_exact:
  assumes "0 < k" "k < 9007199254740992"
  shows "num_round s (k * 2 ^ j) 1 (- int j) = num_make s (int_mag k)"
proof -
  let ?L = "nbits k"
  have L: "?L \<le> 53" "0 < ?L" using scaled_bounds(1) [OF assms(1,2)] nbits_pos [OF assms(1)] by auto
  have E: "max (-1074) (- int j + nbits (k * 2 ^ j) - 53) = ?L - 53"
    using L nbits_shift [OF assms(1), of j] by simp
  define p where "p = k * 2 ^ j * 2 ^ nat (- int j - (?L - 53))"
  define d where "d = (1::int) * 2 ^ nat (?L - 53 - - int j)"
  have pd: "p = k * 2 ^ nat (53 - ?L) * d"
  proof (cases "int j \<le> 53 - ?L")
    case True
    then have "nat (53 - ?L) = j + nat (- int j - (?L - 53))" by simp
    moreover have "d = 1" using True by (simp add: d_def)
    ultimately show ?thesis by (simp add: p_def power_add)
  next
    case False
    with L have "j = nat (53 - ?L) + nat (?L - 53 - - int j)" by simp
    then have "(2::int) ^ j = 2 ^ nat (53 - ?L) * d"
      unfolding d_def mult_1 power_add [symmetric] by (rule arg_cong)
    then show ?thesis using False by (simp add: p_def)
  qed
  have d0: "0 < d" by (simp add: d_def)
  have q: "p div d = k * 2 ^ nat (53 - ?L)" "p mod d = 0" using d0 by (simp_all add: pd)
  have up: "int_mag k < inf_mag"
    using scaled_bounds [OF assms(1,2)] L by (simp add: int_mag_def inf_mag_def)
  have "num_round s (k * 2 ^ j) 1 (- int j)
        = num_make s (min (p div d + (?L - 53 + 1074) * 4503599627370496) inf_mag)"
    unfolding num_round_def Let_def div_by_1 E p_def [symmetric] d_def [symmetric]
    using d0 q(2) by simp
  also have "p div d + (?L - 53 + 1074) * 4503599627370496 = int_mag k"
    by (simp add: q(1) int_mag_def)
  finally show ?thesis using up by simp
qed

lemma cast_num_eq:
  assumes "\<bar>k\<bar> < 9007199254740992"
  shows "cast_num k = (if k = 0 then 0 else num_make (k < 0) (int_mag \<bar>k\<bar>))"
  using num_round_exact [of "\<bar>k\<bar>" "k < 0" 0] assms by (simp add: cast_num_def)

lemma int_mag_range:
  assumes "0 < k" "k < 9007199254740992"
  shows "0 < int_mag k" "int_mag k < inf_mag"
  using scaled_bounds [OF assms] nbits_pos [OF assms(1)] by (simp_all add: int_mag_def inf_mag_def)

lemma int_mag_split:
  assumes "0 < k" "k < 9007199254740992"
  shows "int_mag k div 4503599627370496 = nbits k + 1022"
    and "int_mag k mod 4503599627370496 = k * 2 ^ nat (53 - nbits k) - 4503599627370496"
proof -
  let ?m = "k * 2 ^ nat (53 - nbits k)"
  have m: "0 \<le> ?m - 4503599627370496" "?m - 4503599627370496 < 4503599627370496"
    using scaled_bounds [OF assms] by simp_all
  have e: "int_mag k = (?m - 4503599627370496) + (nbits k + 1022) * 4503599627370496"
    by (simp add: int_mag_def algebra_simps)
  have "(a + b * 4503599627370496) div 4503599627370496 = b \<and>
        (a + b * 4503599627370496) mod 4503599627370496 = a"
    if "0 \<le> a" "a < 4503599627370496" for a b :: int
    using that by simp
  from this [OF m] show "int_mag k div 4503599627370496 = nbits k + 1022"
    and "int_mag k mod 4503599627370496 = ?m - 4503599627370496"
    unfolding e by blast+
qed

lemma cast_num_0: "cast_num 0 = 0"
  by (simp add: cast_num_def)

lemma num_zero_decode [simp]: "num_sign 0 = False" "num_mag 0 = 0"
  by (simp_all add: num_sign_def num_mag_def)

lemma cast_num_decode:
  assumes "\<bar>k\<bar> < 9007199254740992"
  shows "num_sign (cast_num k) = (k < 0)"
    and "num_mag (cast_num k) = (if k = 0 then 0 else int_mag \<bar>k\<bar>)"
    and "\<not> is_nan (cast_num k)" and "\<not> is_inf (cast_num k)"
proof -
  have r: "0 \<le> int_mag \<bar>k\<bar>" "int_mag \<bar>k\<bar> < 9218868437227405312" if "k \<noteq> 0"
    using int_mag_range [of "\<bar>k\<bar>"] assms that by (simp_all add: inf_mag_def)
  show "num_sign (cast_num k) = (k < 0)"
    and m: "num_mag (cast_num k) = (if k = 0 then 0 else int_mag \<bar>k\<bar>)"
    using r by (auto simp: cast_num_eq [OF assms])
  show "\<not> is_nan (cast_num k)" and "\<not> is_inf (cast_num k)"
    using r unfolding is_nan_def is_inf_def m inf_mag_def by (auto split: if_split)
qed

lemma cast_num_value:
  assumes "k \<noteq> 0" "\<bar>k\<bar> < 9007199254740992"
  shows "num_mant (cast_num k) = \<bar>k\<bar> * 2 ^ nat (53 - nbits \<bar>k\<bar>)"
    and "num_expo (cast_num k) = nbits \<bar>k\<bar> - 53"
  using int_mag_split [of "\<bar>k\<bar>"] nbits_pos [of "\<bar>k\<bar>"] assms
  by (simp_all add: num_mant_def num_expo_def cast_num_decode Let_def)

lemma num_trunc_cast_num:
  assumes "\<bar>k\<bar> < 9007199254740992"
  shows "num_trunc (cast_num k) = Some k"
proof (cases "k = 0")
  case True
  then show ?thesis
    by (simp add: num_trunc_def cast_num_0 is_nan_def is_inf_def inf_mag_def num_mant_def num_expo_def)
next
  case False
  let ?L = "nbits \<bar>k\<bar>"
  have L: "?L \<le> 53" "0 < ?L" using scaled_bounds(1) [of "\<bar>k\<bar>"] nbits_pos [of "\<bar>k\<bar>"] False assms by auto
  have "(if 0 \<le> num_expo (cast_num k) then num_mant (cast_num k) * 2 ^ nat (num_expo (cast_num k))
         else num_mant (cast_num k) div 2 ^ nat (- num_expo (cast_num k))) = \<bar>k\<bar>"
    using L by (simp add: cast_num_value [OF False assms])
  then show ?thesis
    by (simp add: num_trunc_def cast_num_decode [OF assms] Let_def)
qed

text \<open>\<open>lua_number2int\<close> undoes \<open>cast_num\<close> on every \<open>int\<close>.\<close>

lemma lua_number2int_cast_num:
  "INT_MIN \<le> k \<Longrightarrow> k \<le> INT_MAX \<Longrightarrow> lua_number2int (cast_num k) = k"
  by (simp add: lua_number2int_def num_trunc_cast_num)

lemma lua_number2integer_cast_num:
  "\<bar>k\<bar> < 9007199254740992 \<Longrightarrow> lua_number2integer (cast_num k) = k"
proof -
  assume k: "\<bar>k\<bar> < 9007199254740992"
  then have "- 9223372036854775808 \<le> k" "k \<le> 9223372036854775807" by linarith+
  with k show ?thesis by (simp add: lua_number2integer_def num_trunc_cast_num)
qed

text \<open>The conversion keeps the order, so it is injective.\<close>

lemma int_mag_mono:
  assumes "0 < a" "a < b" "b < 9007199254740992"
  shows "int_mag a < int_mag b"
proof (cases "nbits a = nbits b")
  case True
  then show ?thesis using assms(2) by (simp add: int_mag_def)
next
  case False
  have a: "0 < a" "a < 9007199254740992" and b: "0 < b" "b < 9007199254740992" using assms by simp_all
  have "2 ^ nat (nbits a - 1) < (2::int) ^ nat (nbits b)"
    using nbits_bounds [OF a(1)] nbits_bounds [OF b(1)] assms(2) by linarith
  then have "nat (nbits a - 1) < nat (nbits b)" by (rule power_less_imp_less_exp [rotated]) simp
  with False nbits_pos [OF a(1)] have "nbits a + 1 \<le> nbits b" by linarith
  then have "(nbits a + 1) * 4503599627370496 \<le> nbits b * 4503599627370496"
    by (rule mult_right_mono) simp
  then show ?thesis using scaled_bounds [OF a] scaled_bounds [OF b] by (simp add: int_mag_def)
qed

lemma num_key_cast_num:
  assumes "\<bar>k\<bar> < 9007199254740992"
  shows "num_key (cast_num k) = (if k = 0 then 0 else if k < 0 then - int_mag (- k) else int_mag k)"
  using assms by (simp add: num_key_def cast_num_decode)

lemma num_key_cast_num_mono:
  assumes "\<bar>a\<bar> < 9007199254740992" "\<bar>b\<bar> < 9007199254740992" "a < b"
  shows "num_key (cast_num a) < num_key (cast_num b)"
  using assms int_mag_range(1) [of "- a"] int_mag_range(1) [of b]
    int_mag_mono [of a b] int_mag_mono [of "- b" "- a"]
  by (auto simp: num_key_cast_num)

lemma luai_num_cast_num:
  assumes "\<bar>a\<bar> < 9007199254740992" "\<bar>b\<bar> < 9007199254740992"
  shows "luai_numlt (cast_num a) (cast_num b) = (a < b)"
    and "luai_numle (cast_num a) (cast_num b) = (a \<le> b)"
    and "luai_numeq (cast_num a) (cast_num b) = (a = b)"
proof -
  note m = num_key_cast_num_mono [OF assms] num_key_cast_num_mono [OF assms(2,1)]
  show "luai_numlt (cast_num a) (cast_num b) = (a < b)"
    and "luai_numle (cast_num a) (cast_num b) = (a \<le> b)"
    and "luai_numeq (cast_num a) (cast_num b) = (a = b)"
    using m assms by (cases a b rule: linorder_cases;
      simp add: luai_numlt_def luai_numle_def luai_numeq_def cast_num_decode)+
qed

lemma num_mag_cast_num_0: "\<bar>k\<bar> < 9007199254740992 \<Longrightarrow> num_mag (cast_num k) = 0 \<longleftrightarrow> k = 0"
  using int_mag_range(1) [of "\<bar>k\<bar>"] by (auto simp: cast_num_decode)

text \<open>Addition of integers is exact while the result has at most 53 bits.\<close>

lemma num_smant_cast_num:
  assumes "\<bar>k\<bar> < 9007199254740992" "k \<noteq> 0 \<Longrightarrow> e \<le> num_expo (cast_num k)" "e \<le> 0"
  shows "num_smant (cast_num k) * 2 ^ nat (num_expo (cast_num k) - e) = k * 2 ^ nat (- e)"
proof (cases "k = 0")
  case True
  then show ?thesis by (simp add: cast_num_0 num_smant_def num_mant_def)
next
  case False
  have L: "nbits \<bar>k\<bar> \<le> 53" using scaled_bounds(1) [of "\<bar>k\<bar>"] False assms by auto
  have "nat (53 - nbits \<bar>k\<bar>) + nat (num_expo (cast_num k) - e) = nat (- e)"
    using assms(2) [OF False] assms(3) L by (simp add: cast_num_value [OF False assms(1)])
  then have "\<bar>k\<bar> * 2 ^ nat (53 - nbits \<bar>k\<bar>) * 2 ^ nat (num_expo (cast_num k) - e) = \<bar>k\<bar> * 2 ^ nat (- e)"
    by (metis mult.assoc power_add)
  then show ?thesis
    using False cast_num_value(1) [OF False assms(1)] cast_num_decode(1) [OF assms(1)]
    by (cases "k < 0") (simp_all add: num_smant_def)
qed

lemma luai_numadd_cast_num:
  assumes "\<bar>a\<bar> < 9007199254740992" "\<bar>b\<bar> < 9007199254740992" "\<bar>a + b\<bar> < 9007199254740992"
  shows "luai_numadd (cast_num a) (cast_num b) = cast_num (a + b)"
proof -
  let ?a = "cast_num a" and ?b = "cast_num b"
  define e where "e = (if num_mag ?a = 0 then num_expo ?b else if num_mag ?b = 0 then num_expo ?a
                       else min (num_expo ?a) (num_expo ?b))"
  have "num_expo (cast_num k) \<le> 0" if "\<bar>k\<bar> < 9007199254740992" for k
    using that scaled_bounds(1) [of "\<bar>k\<bar>"]
    by (cases "k = 0") (simp_all add: cast_num_value, simp add: cast_num_0 num_expo_def)
  then have e: "e \<le> 0" "a \<noteq> 0 \<Longrightarrow> e \<le> num_expo ?a" "b \<noteq> 0 \<Longrightarrow> e \<le> num_expo ?b"
    using assms(1,2) by (auto simp: e_def min_def num_mag_cast_num_0 cast_num_0 split: if_splits)
  define s where "s = num_smant ?a * 2 ^ nat (num_expo ?a - e) + num_smant ?b * 2 ^ nat (num_expo ?b - e)"
  have s: "s = (a + b) * 2 ^ nat (- e)"
    using num_smant_cast_num [OF assms(1) e(2,1)] num_smant_cast_num [OF assms(2) e(3,1)]
    by (simp add: s_def algebra_simps)
  have "luai_numadd ?a ?b = (if s = 0 then num_make (num_sign ?a \<and> num_sign ?b) 0
        else num_round (s < 0) \<bar>s\<bar> 1 e)"
    unfolding luai_numadd_def e_def [symmetric] s_def [symmetric] Let_def
    by (simp add: cast_num_decode assms)
  also have "\<dots> = cast_num (a + b)"
  proof (cases "a + b = 0")
    case True
    then have "\<not> (a < 0 \<and> b < 0)" by linarith
    then show ?thesis using True
      by (simp add: s cast_num_decode(1) [OF assms(1)] cast_num_decode(1) [OF assms(2)] cast_num_0 num_make_def)
  next
    case False
    have "\<bar>s\<bar> = \<bar>a + b\<bar> * 2 ^ nat (- e)" "(s < 0) = (a + b < 0)"
      by (simp_all add: s abs_mult mult_less_0_iff)
    then show ?thesis using False num_round_exact [of "\<bar>a + b\<bar>" "s < 0" "nat (- e)"] assms(3) e(1)
      by (simp add: s cast_num_eq [OF assms(3)])
  qed
  finally show ?thesis .
qed

text \<open>
  \<open>hashnum\<close> hashes \<open>n + 1\<close>: equal numbers are then the same bits, the two zeros included.
\<close>

lemma num_add_zeros_one:
  "luai_numadd 0 (cast_num 1) = cast_num 1"
  "luai_numadd 9223372036854775808 (cast_num 1) = cast_num 1"
  by code_simp+

lemma luai_numeq_add_one:
  assumes "luai_numeq a b"
  shows "luai_numadd a (cast_num 1) = luai_numadd b (cast_num 1)"
proof -
  have "a = b \<or> num_mag a = 0 \<and> num_mag b = 0"
    using assms num_key_eqD by (simp add: luai_numeq_def)
  then show ?thesis by (auto dest!: num_zero_cases simp: num_add_zeros_one)
qed

end
