(* ===== verification/LuaObject.thy ===== *)
theory LuaObject
  imports LuaNumber
begin

text \<open>
  lobject.h and lobject.c: tagged values, raw equality, the "floating point byte" and the
  integer logarithm, conversion between numbers and strings, message formatting and the
  printable name of a chunk.

  A string value carries its bytes: strings are interned (LuaString proves that two string
  objects are the same pointer exactly when they have the same bytes), so comparing the
  bytes is comparing the pointers. Every other collectable value is an address.
\<close>

section \<open>Tagged values\<close>

text \<open>What \<open>value.gc\<close> points to, for the values a table key can hold.\<close>

datatype gcref =
    GCString string
  | GCTable addr
  | GCClosure addr
  | GCUdata addr
  | GCThread addr

text \<open>\<open>bvalue\<close> is an \<open>int\<close>: the C code stores 0 or 1, but does not enforce it.\<close>

datatype tvalue =
    TNil
  | TBoolean int
  | TLightUserData addr
  | TNumber lua_Number
  | TString string
  | TTable addr
  | TFunction addr
  | TUserData addr
  | TThread addr
  | TDeadKey gcref

fun ttype :: "tvalue \<Rightarrow> int" where
  "ttype TNil = 0"
| "ttype (TBoolean _) = 1"
| "ttype (TLightUserData _) = 2"
| "ttype (TNumber _) = 3"
| "ttype (TString _) = 4"
| "ttype (TTable _) = 5"
| "ttype (TFunction _) = 6"
| "ttype (TUserData _) = 7"
| "ttype (TThread _) = 8"
| "ttype (TDeadKey _) = 11"

definition iscollectable :: "tvalue \<Rightarrow> bool" where
  "iscollectable o' = (4 \<le> ttype o')"

fun gcvalue :: "tvalue \<Rightarrow> gcref option" where
  "gcvalue (TString s) = Some (GCString s)"
| "gcvalue (TTable a) = Some (GCTable a)"
| "gcvalue (TFunction a) = Some (GCClosure a)"
| "gcvalue (TUserData a) = Some (GCUdata a)"
| "gcvalue (TThread a) = Some (GCThread a)"
| "gcvalue (TDeadKey g) = Some g"
| "gcvalue _ = None"

definition ttisnil :: "tvalue \<Rightarrow> bool" where
  "ttisnil v = (v = TNil)"

fun l_isfalse :: "tvalue \<Rightarrow> bool" where
  "l_isfalse TNil = True"
| "l_isfalse (TBoolean b) = (b = 0)"
| "l_isfalse _ = False"

definition luaO_rawequalObj :: "tvalue \<Rightarrow> tvalue \<Rightarrow> bool" where
  "luaO_rawequalObj t1 t2 =
     (if ttype t1 \<noteq> ttype t2 then False
      else case t1 of
        TNil \<Rightarrow> True
      | TNumber n \<Rightarrow> (case t2 of TNumber m \<Rightarrow> luai_numeq n m | _ \<Rightarrow> False)
      | TBoolean b \<Rightarrow> (case t2 of TBoolean c \<Rightarrow> b = c | _ \<Rightarrow> False)
      | TLightUserData p \<Rightarrow> (case t2 of TLightUserData q \<Rightarrow> p = q | _ \<Rightarrow> False)
      | _ \<Rightarrow> gcvalue t1 = gcvalue t2)"

lemma rawequal_cases:
  "luaO_rawequalObj a b \<longleftrightarrow>
     (case a of TNumber n \<Rightarrow> (case b of TNumber m \<Rightarrow> luai_numeq n m | _ \<Rightarrow> False) | _ \<Rightarrow> a = b)"
  by (cases a; cases b) (auto simp: luaO_rawequalObj_def)

lemma rawequal_sym: "luaO_rawequalObj a b = luaO_rawequalObj b a"
  by (cases a; cases b) (auto simp: rawequal_cases luai_numeq_sym)

lemma rawequal_trans:
  "luaO_rawequalObj a b \<Longrightarrow> luaO_rawequalObj b c \<Longrightarrow> luaO_rawequalObj a c"
  by (cases a; cases b; cases c) (auto simp: rawequal_cases intro: luai_numeq_trans)

lemma rawequal_refl: "luaO_rawequalObj a a = (\<forall>n. a = TNumber n \<longrightarrow> \<not> is_nan n)"
  by (cases a) (auto simp: rawequal_cases luai_numeq_refl)

section \<open>Floating point bytes and logarithms\<close>

text \<open>The loop of \<open>luaO_int2fb\<close>; \<open>x+1\<close> is an \<open>unsigned int\<close> and wraps.\<close>

function int2fb_loop :: "int \<Rightarrow> int \<Rightarrow> int \<times> int" where
  "int2fb_loop x e =
     (if 16 \<le> x then int2fb_loop (((x + 1) mod 4294967296) div 2) (e + 1) else (x, e))"
  by pat_completeness auto
termination
proof (relation "measure (\<lambda>(x, e). nat x)")
  fix x e :: int
  assume x: "16 \<le> x"
  have "(x + 1) mod 4294967296 \<le> x + 1" using x by (intro zmod_le_nonneg_dividend) simp
  then have "((x + 1) mod 4294967296) div 2 < x" using x by linarith
  then show "((((x + 1) mod 4294967296) div 2, e + 1), x, e) \<in> measure (\<lambda>(x, e). nat x)"
    using x by simp
qed simp

declare int2fb_loop.simps [simp del]

definition luaO_int2fb :: "int \<Rightarrow> int" where
  "luaO_int2fb x0 =
     (let (x, e) = int2fb_loop x0 0
      in if x < 8 then x else ((e + 1) * 8) OR (x - 8))"

definition luaO_fb2int :: "int \<Rightarrow> int" where
  "luaO_fb2int x =
     (let e = (x div 8) AND 31
      in if e = 0 then x else push_bit (nat (e - 1)) ((x AND 7) + 8))"

definition log_2 :: "int list" where
  "log_2 = concat (map (\<lambda>(n, v). replicate n v)
     [(1, 0), (1, 1), (2, 2), (4, 3), (8, 4), (16, 5), (32, 6), (64, 7), (128, 8)])"

function log2_loop :: "int \<Rightarrow> int \<Rightarrow> int \<times> int" where
  "log2_loop x l = (if 256 \<le> x then log2_loop (x div 256) (l + 8) else (x, l))"
  by pat_completeness auto
termination
  by (relation "measure (\<lambda>(x, l). nat x)") auto

declare log2_loop.simps [simp del]

definition luaO_log2 :: "int \<Rightarrow> int" where
  "luaO_log2 x0 = (let (x, l) = log2_loop x0 (-1) in l + log_2 ! nat x)"

definition ceillog2 :: "int \<Rightarrow> int" where
  "ceillog2 x = luaO_log2 (x - 1) + 1"

section \<open>Numbers and strings\<close>

subsection \<open>strtod and strtoul, C89, in the C locale\<close>

definition is_dig :: "char \<Rightarrow> bool" where "is_dig c = isdigit (uchar c)"

definition skip_space :: "string \<Rightarrow> string" where
  "skip_space s = dropWhile (\<lambda>c. isspace (uchar c)) s"

definition scan_sign :: "string \<Rightarrow> bool \<times> string" where
  "scan_sign s = (case s of [] \<Rightarrow> (False, s)
     | c # t \<Rightarrow> if c = CHR ''-'' then (True, t) else if c = CHR ''+'' then (False, t) else (False, s))"

definition dec_value :: "string \<Rightarrow> int" where
  "dec_value ds = foldl (\<lambda>v c. v * 10 + (uchar c - 48)) 0 ds"

definition dec2num :: "bool \<Rightarrow> int \<Rightarrow> int \<Rightarrow> lua_Number" where
  "dec2num neg m ex =
     (if m = 0 then num_make neg 0
      else if 0 \<le> ex then num_round neg (m * 10 ^ nat ex) 1 0
      else let d = 10 ^ nat (- ex); j = nbits d + 54 in num_round neg (m * 2 ^ nat j) d (- j))"

definition scan_exponent :: "string \<Rightarrow> int \<times> string" where
  "scan_exponent s =
     (case s of [] \<Rightarrow> (0, s)
      | c # t \<Rightarrow> if c = CHR ''e'' \<or> c = CHR ''E'' then
           (let (neg, u) = scan_sign t; es = takeWhile is_dig u
            in if es = [] then (0, s)
               else (if neg then - dec_value es else dec_value es, dropWhile is_dig u))
         else (0, s))"

definition strtod :: "string \<Rightarrow> (lua_Number \<times> string) option" where
  "strtod s =
     (let (neg, s2) = scan_sign (skip_space s);
          ds = takeWhile is_dig s2; s3 = dropWhile is_dig s2;
          (fs, s4) = (case s3 of [] \<Rightarrow> ([], s3)
                      | c # t \<Rightarrow> if c = CHR ''.'' then (takeWhile is_dig t, dropWhile is_dig t)
                                 else ([], s3))
      in if ds = [] \<and> fs = [] then None
         else let (ex, s5) = scan_exponent s4
              in Some (dec2num neg (dec_value (ds @ fs)) (ex - int (length fs)), s5))"

definition hex_digit :: "char \<Rightarrow> int" where
  "hex_digit c = (let u = tolower (uchar c) in if isdigit u then u - 48 else u - 87)"

definition is_hex :: "char \<Rightarrow> bool" where "is_hex c = isxdigit (uchar c)"

text \<open>\<open>strtoul(s, &endptr, 16)\<close> with a 64-bit \<open>unsigned long\<close>.\<close>

definition strtoul16 :: "string \<Rightarrow> (int \<times> string) option" where
  "strtoul16 s =
     (let (neg, s2) = scan_sign (skip_space s);
          s3 = (case s2 of c # x # d # t \<Rightarrow>
                  if c = CHR ''0'' \<and> (x = CHR ''x'' \<or> x = CHR ''X'') \<and> is_hex d then d # t else s2
                | _ \<Rightarrow> s2);
          hs = takeWhile is_hex s3;
          v = foldl (\<lambda>v c. v * 16 + hex_digit c) 0 hs
      in if hs = [] then None
         else Some (if 18446744073709551616 \<le> v then 18446744073709551615
                    else if neg then (- v) mod 18446744073709551616 else v,
                    dropWhile is_hex s3))"

definition luaO_str2d :: "string \<Rightarrow> lua_Number option" where
  "luaO_str2d str =
     (let s = cstr str
      in case strtod s of
           None \<Rightarrow> None
         | Some (r, endptr) \<Rightarrow>
             let (result, endptr') =
                   (if chat endptr 0 = CHR ''x'' \<or> chat endptr 0 = CHR ''X'' then
                      (case strtoul16 s of None \<Rightarrow> (cast_num 0, s) | Some (v, e) \<Rightarrow> (cast_num v, e))
                    else (r, endptr))
             in if endptr' = [] then Some result
                else if skip_space endptr' \<noteq> [] then None
                else Some result)"

subsection \<open>sprintf with the format of \<open>LUA_NUMBER_FMT\<close>\<close>

fun dec_digits :: "int \<Rightarrow> string" where
  "dec_digits n = (if n < 10 then [char_of (48 + n)] else dec_digits (n div 10) @ [char_of (48 + n mod 10)])"

declare dec_digits.simps [simp del]

definition int2str :: "int \<Rightarrow> string" where
  "int2str k = (if k < 0 then CHR ''-'' # dec_digits (- k) else dec_digits k)"

text \<open>The decimal exponent of \<open>p / q\<close>: the \<open>x\<close> with \<open>10^x \<le> p/q < 10^(x+1)\<close>.\<close>

function neg_exp10 :: "int \<Rightarrow> int \<Rightarrow> int" where
  "neg_exp10 p q = (if p \<le> 0 \<or> q \<le> p then 0 else neg_exp10 (10 * p) q - 1)"
  by pat_completeness auto
termination
  by (relation "measure (\<lambda>(p, q). nat (q - p))") auto

declare neg_exp10.simps [simp del]

definition exp10 :: "int \<Rightarrow> int \<Rightarrow> int" where
  "exp10 p q = (if q \<le> p then int (length (dec_digits (p div q))) - 1 else neg_exp10 p q)"

definition round_div :: "int \<Rightarrow> int \<Rightarrow> int" where
  "round_div p q =
     (let m = p div q; r = p mod q in if q < 2 * r \<or> (2 * r = q \<and> m mod 2 = 1) then m + 1 else m)"

definition strip_zeros :: "string \<Rightarrow> string" where
  "strip_zeros s = rev (dropWhile (\<lambda>c. c = CHR ''0'') (rev s))"

definition with_point :: "string \<Rightarrow> string \<Rightarrow> string" where
  "with_point ip fp = (let f = strip_zeros fp in if f = [] then ip else ip @ CHR ''.'' # f)"

text \<open>\<open>%.14g\<close> of the positive number \<open>p / q\<close>.\<close>

definition fmt_14g :: "int \<Rightarrow> int \<Rightarrow> string" where
  "fmt_14g p q =
     (let x0 = exp10 p q;
          d0 = round_div (p * 10 ^ nat (13 - x0)) (q * 10 ^ nat (x0 - 13));
          (d, x) = (if d0 = 100000000000000 then (10000000000000, x0 + 1) else (d0, x0));
          ds = dec_digits d
      in if x < -4 \<or> 14 \<le> x then
           with_point (take 1 ds) (drop 1 ds) @ CHR ''e'' # (if x < 0 then CHR ''-'' else CHR ''+'')
             # (if \<bar>x\<bar> < 10 then CHR ''0'' # dec_digits \<bar>x\<bar> else dec_digits \<bar>x\<bar>)
         else if x < 0 then with_point ''0'' (replicate (nat (- x - 1)) (CHR ''0'') @ ds)
         else with_point (take (nat (x + 1)) ds) (drop (nat (x + 1)) ds))"

definition lua_number2str :: "lua_Number \<Rightarrow> string" where
  "lua_number2str n =
     (let sg = (if num_sign n then ''-'' else '''')
      in if is_nan n then sg @ ''nan''
         else if is_inf n then sg @ ''inf''
         else if num_mag n = 0 then sg @ ''0''
         else sg @ fmt_14g (num_mant n * 2 ^ nat (num_expo n)) (2 ^ nat (- num_expo n)))"

section \<open>Messages\<close>

datatype farg = FStr "string option" | FInt int | FNum lua_Number | FPtr string

text \<open>
  \<open>luaO_pushvfstring\<close>: the pieces it pushes, concatenated. \<open>%p\<close> takes the text that
  \<open>sprintf\<close> makes of the pointer. A missing argument does not occur in the callers.
\<close>

fun luaO_pushvfstring :: "string \<Rightarrow> farg list \<Rightarrow> string" where
  "luaO_pushvfstring [] args = []"
| "luaO_pushvfstring (c # fmt) args =
     (if c \<noteq> CHR ''%'' then c # luaO_pushvfstring fmt args
      else case fmt of
        [] \<Rightarrow> ''%''
      | f # fmt' \<Rightarrow>
          if f = CHR ''s'' then
            (case args of FStr (Some s) # as \<Rightarrow> cstr s @ luaO_pushvfstring fmt' as
                        | FStr None # as \<Rightarrow> ''(null)'' @ luaO_pushvfstring fmt' as
                        | _ \<Rightarrow> luaO_pushvfstring fmt' args)
          else if f = CHR ''c'' then
            (case args of FInt i # as \<Rightarrow> cstr [char_of (i mod 256)] @ luaO_pushvfstring fmt' as
                        | _ \<Rightarrow> luaO_pushvfstring fmt' args)
          else if f = CHR ''d'' then
            (case args of FInt i # as \<Rightarrow> lua_number2str (cast_num i) @ luaO_pushvfstring fmt' as
                        | _ \<Rightarrow> luaO_pushvfstring fmt' args)
          else if f = CHR ''f'' then
            (case args of FNum n # as \<Rightarrow> lua_number2str n @ luaO_pushvfstring fmt' as
                        | _ \<Rightarrow> luaO_pushvfstring fmt' args)
          else if f = CHR ''p'' then
            (case args of FPtr s # as \<Rightarrow> cstr s @ luaO_pushvfstring fmt' as
                        | _ \<Rightarrow> luaO_pushvfstring fmt' args)
          else if f = CHR ''%'' then CHR ''%'' # luaO_pushvfstring fmt' args
          else CHR ''%'' # f # luaO_pushvfstring fmt' args)"

text \<open>
  \<open>luaO_chunkid\<close>: the contents it leaves in \<open>out\<close>. \<open>bufflen\<close> is a \<open>size_t\<close>, so the
  subtractions wrap; \<open>sizeof(" '...' ")\<close> is 8 and \<open>sizeof(" [string \"...\"] ")\<close> is 17.
\<close>

definition luaO_chunkid :: "string \<Rightarrow> int \<Rightarrow> string" where
  "luaO_chunkid src bufflen =
     (let source = cstr src
      in if chat source 0 = CHR ''='' then take (nat (bufflen - 1)) (drop 1 source)
         else if chat source 0 = CHR ''@'' then
           (let source' = drop 1 source; b = (bufflen - 8) mod 18446744073709551616;
                l = int (length source')
            in if b < l then ''...'' @ drop (nat (l - b)) source' else source')
         else
           (let len0 = int (length (takeWhile (\<lambda>c. c \<noteq> CHR 0x0A \<and> c \<noteq> CHR 0x0D) source));
                b = (bufflen - 17) mod 18446744073709551616;
                len = (if b < len0 then b else len0)
            in ''[string '' @ [CHR 0x22]
               @ (if chat source (nat len) \<noteq> NUL then take (nat len) source @ ''...'' else source)
               @ [CHR 0x22] @ '']''))"

section \<open>Properties\<close>

lemma or_low_bits: "0 \<le> (b::int) \<Longrightarrow> b < 8 \<Longrightarrow> (a * 8) OR b = a * 8 + b"
proof -
  assume "0 \<le> b" "b < 8"
  then have b: "take_bit 3 b = b" by (simp add: take_bit_eq_mod)
  have "take_bit 3 b OR push_bit 3 a = take_bit 3 b + push_bit 3 a"
    unfolding concat_bit_def [symmetric] by (rule concat_bit_eq)
  then show ?thesis by (simp add: b push_bit_eq_mult or.commute [of b])
qed

lemma and_31: "(x::int) AND 31 = x mod 32"
  using take_bit_eq_mask [of 5 x] by (simp add: take_bit_eq_mod mask_eq_exp_minus_1)

lemma and_7: "(x::int) AND 7 = x mod 8"
  using take_bit_eq_mask [of 3 x] by (simp add: take_bit_eq_mod mask_eq_exp_minus_1)

lemma int2fb_loop_spec:
  assumes "int2fb_loop x e = (y, f)" "0 \<le> x" "x < 4294967295"
  shows "e \<le> f \<and> y < 16 \<and> 0 \<le> y \<and> x \<le> y * 2 ^ nat (f - e) \<and> (0 < x \<longrightarrow> (y - 1) * 2 ^ nat (f - e) < x)
         \<and> (e < f \<longrightarrow> 8 \<le> y)"
  using assms
proof (induction x e rule: int2fb_loop.induct)
  case (1 x e)
  show ?case
  proof (cases "16 \<le> x")
    case False
    with "1.prems" show ?thesis by (simp add: int2fb_loop.simps [of x e])
  next
    case True
    let ?x = "(x + 1) div 2"
    have m: "(x + 1) mod 4294967296 = x + 1" using "1.prems" True by simp
    have x': "8 \<le> ?x" "?x < x" "x \<le> 2 * ?x" "2 * ?x \<le> x + 1" using True by linarith+
    have eq: "int2fb_loop ?x (e + 1) = (y, f)"
      using "1.prems"(1) True by (simp add: int2fb_loop.simps [of x e] m)
    note ih = "1.IH" [OF True, unfolded m, OF eq]
    from ih x' "1.prems" have r: "e + 1 \<le> f" "y < 16" "0 \<le> y" "?x \<le> y * 2 ^ nat (f - (e + 1))"
        "(y - 1) * 2 ^ nat (f - (e + 1)) < ?x" "e + 1 < f \<Longrightarrow> 8 \<le> y" by auto
    have k: "nat (f - e) = Suc (nat (f - (e + 1)))" using r(1) by simp
    have y8: "8 \<le> y"
    proof (cases "e + 1 < f")
      case False
      with r(1) have "f = e + 1" by simp
      with r(4) x'(1) show ?thesis by simp
    qed (rule r(6))
    have "x \<le> y * 2 ^ nat (f - e)" "(y - 1) * 2 ^ nat (f - e) < x"
      using r(4,5) x'(3,4) by (simp_all add: k mult.left_commute)
    with r y8 show ?thesis by simp
  qed
qed

text \<open>
  Encoding a size as a floating point byte and back never loses room: the result is at
  least the size, and at most a seventh larger.
\<close>

lemma fb2int_int2fb:
  assumes "0 \<le> x" "x \<le> 2013265920"
  shows "x \<le> luaO_fb2int (luaO_int2fb x)"
    and "7 * (luaO_fb2int (luaO_int2fb x) - x) \<le> x"
proof -
  obtain y f where l: "int2fb_loop x 0 = (y, f)" by fastforce
  have small: "x < 16 \<Longrightarrow> y = x \<and> f = 0" using l by (simp add: int2fb_loop.simps [of x 0])
  from int2fb_loop_spec [OF l] assms
  have s: "0 \<le> f" "y < 16" "0 \<le> y" "x \<le> y * 2 ^ nat f" "0 < x \<Longrightarrow> (y - 1) * 2 ^ nat f < x" "0 < f \<Longrightarrow> 8 \<le> y"
    by simp_all
  have "luaO_fb2int (luaO_int2fb x) = y * 2 ^ nat f"
  proof (cases "y < 8")
    case True
    with s have "f = 0" by fastforce
    with True s show ?thesis
      by (simp add: luaO_int2fb_def l luaO_fb2int_def div_pos_pos_trivial)
  next
    case False
    have "7 * (2::int) ^ nat f \<le> (y - 1) * 2 ^ nat f" using False by (intro mult_right_mono) simp_all
    moreover have "0 < x" using small False by (cases "x < 16") auto
    ultimately have "(2::int) ^ nat f < 536870912" using s(5) assms by linarith
    then have "(2::int) ^ nat f < 2 ^ 29" by simp
    then have "nat f < 29" by (rule power_less_imp_less_exp [rotated]) simp
    then have f: "f < 29" by simp
    have n: "luaO_int2fb x = (f + 1) * 8 + (y - 8)"
      using False s or_low_bits [of "y - 8" "f + 1"] by (simp add: luaO_int2fb_def l)
    have h: "(a * 8 + b) div 8 = a" "(a * 8 + b) mod 8 = b" if "0 \<le> b" "b < 8" for a b :: int
      using that by simp_all
    have "0 \<le> y - 8" "y - 8 < 8" using False s by simp_all
    note h [OF this, of "f + 1"]
    then show ?thesis
      unfolding n luaO_fb2int_def and_31 and_7 Let_def using f s
      by (simp add: push_bit_eq_mult)
  qed
  moreover have "7 * (y * 2 ^ nat f - x) \<le> x"
  proof (cases "f = 0")
    case True
    with s assms small show ?thesis by (cases "x = 0") auto
  next
    case False
    define A B C where "A = (2::int) ^ nat f" "B = (y - 1) * 2 ^ nat f" "C = y * 2 ^ nat f"
    have a: "7 * A \<le> B" unfolding A_B_C_def using False s by (intro mult_right_mono) simp_all
    have b: "C = B + A" unfolding A_B_C_def by (simp add: algebra_simps)
    have "0 < x" using s small False assms by (cases "x = 0") auto
    then have "B < x" using s(5) by (simp add: A_B_C_def)
    with a b have "7 * (C - x) \<le> x" by (simp add: algebra_simps)
    then show ?thesis by (simp add: A_B_C_def)
  qed
  ultimately show "x \<le> luaO_fb2int (luaO_int2fb x)" "7 * (luaO_fb2int (luaO_int2fb x) - x) \<le> x"
    using s(4) by simp_all
qed

lemma log_2_table: "\<forall>x \<in> {0..255}. log_2 ! nat x = nbits x"
  by code_simp

lemma nbits_div_256:
  assumes "256 \<le> x"
  shows "nbits x = nbits (x div 256) + 8"
proof -
  obtain q r where qr: "x = q * 2 ^ 8 + r" "0 \<le> r" "r < 256"
    by (rule that [of "x div 256" "x mod 256"]) simp_all
  then have q: "0 < q" "x div 256 = q" using assms by simp_all
  define k where "k = nat (nbits q - 1)"
  have p: "0 < nbits q" using q(1) by (rule nbits_pos)
  then have "nat (nbits q) = Suc k" by (simp add: k_def)
  then have b: "2 ^ k \<le> q" "q + 1 \<le> 2 ^ Suc k" using nbits_bounds [OF q(1)] by (simp_all add: k_def)
  have "2 ^ (k + 8) \<le> q * 2 ^ 8" "(q + 1) * 2 ^ 8 \<le> 2 ^ (Suc k + 8)"
    unfolding power_add using b by (intro mult_right_mono; simp)+
  then have "nbits x = int (k + 8) + 1" using qr by (intro nbits_unique) simp_all
  then show ?thesis using p q by (simp add: k_def)
qed

lemma log2_loop_spec:
  "0 \<le> x \<Longrightarrow> log2_loop x l = (y, m) \<Longrightarrow> 0 \<le> y \<and> y < 256 \<and> nbits x + l = nbits y + m"
proof (induction x l rule: log2_loop.induct)
  case (1 x l)
  show ?case
  proof (cases "256 \<le> x")
    case True
    then have "log2_loop (x div 256) (l + 8) = (y, m)"
      using "1.prems" by (simp add: log2_loop.simps [of x l])
    moreover have "0 \<le> x div 256" using True by simp
    ultimately have "0 \<le> y \<and> y < 256 \<and> nbits (x div 256) + (l + 8) = nbits y + m"
      using "1.IH" [OF True] by blast
    then show ?thesis using nbits_div_256 [OF True] by linarith
  next
    case False
    with "1.prems" show ?thesis by (simp add: log2_loop.simps [of x l])
  qed
qed

text \<open>\<open>luaO_log2\<close> is the integer logarithm, and -1 of 0.\<close>

lemma luaO_log2_eq:
  assumes "0 \<le> x"
  shows "luaO_log2 x = nbits x - 1"
proof -
  obtain y m where l: "log2_loop x (-1) = (y, m)" by fastforce
  from log2_loop_spec [OF assms l] have "0 \<le> y" "y \<le> 255" "nbits x - 1 = nbits y + m" by auto
  then show ?thesis using bspec [OF log_2_table, of y] by (simp add: luaO_log2_def l)
qed

lemma ceillog2_bounds:
  assumes "1 \<le> x"
  shows "0 \<le> ceillog2 x" and "x \<le> 2 ^ nat (ceillog2 x)" and "1 < x \<Longrightarrow> 2 ^ nat (ceillog2 x) < 2 * x"
proof -
  have c: "ceillog2 x = nbits (x - 1)" using assms by (simp add: ceillog2_def luaO_log2_eq)
  show "0 \<le> ceillog2 x" unfolding c using nbits_pos [of "x - 1"] assms by (cases "x = 1") (auto simp: nbits.simps [of 0] c)
  show "x \<le> 2 ^ nat (ceillog2 x)" unfolding c
    using nbits_bounds [of "x - 1"] assms by (cases "x = 1") (auto simp: c nbits.simps [of 0])
  assume x: "1 < x"
  then have "2 ^ nat (nbits (x - 1) - 1) \<le> x - 1" using nbits_bounds [of "x - 1"] by simp
  moreover have "(2::int) ^ nat (nbits (x - 1)) = 2 * 2 ^ nat (nbits (x - 1) - 1)"
    using nbits_pos [of "x - 1"] x by (simp add: nat_diff_distrib flip: power_Suc)
  ultimately show "2 ^ nat (ceillog2 x) < 2 * x" by (simp add: c)
qed

text \<open>The printable chunk name fits its buffer, with the terminator.\<close>

lemma chunkid_fits:
  assumes "17 \<le> n" "n < 18446744073709551616"
  shows "int (length (luaO_chunkid src n)) < n"
proof -
  have m: "(n - 8) mod 18446744073709551616 = n - 8" "(n - 17) mod 18446744073709551616 = n - 17"
    using assms by simp_all
  let ?s = "cstr src"
  let ?l = "length (takeWhile (\<lambda>c. c \<noteq> CHR 0x0A \<and> c \<noteq> CHR 0x0D) ?s)"
  have l: "?l \<le> length ?s" by (rule length_takeWhile_le)
  have nn: "NUL \<notin> set ?s" by (auto simp: cstr_def dest: set_takeWhileD)
  have e: "chat ?s j = NUL \<Longrightarrow> length ?s \<le> j" for j
    using nn by (auto simp: chat_def split: if_splits dest: nth_mem)
  consider (eq) "chat ?s 0 = CHR ''=''" | (at) "chat ?s 0 \<noteq> CHR ''=''" "chat ?s 0 = CHR ''@''"
    | (str) "chat ?s 0 \<noteq> CHR ''=''" "chat ?s 0 \<noteq> CHR ''@''" by blast
  then show ?thesis
  proof cases
    case str
    define len where "len = (if n - 17 < int ?l then n - 17 else int ?l)"
    have len: "0 \<le> len" "len \<le> n - 17" using assms by (auto simp: len_def)
    have "luaO_chunkid src n = ''[string '' @ [CHR 0x22]
            @ (if chat ?s (nat len) \<noteq> NUL then take (nat len) ?s @ ''...'' else ?s) @ [CHR 0x22] @ '']''"
      using str by (simp only: luaO_chunkid_def Let_def m len_def if_False)
    moreover have "length (if chat ?s (nat len) \<noteq> NUL then take (nat len) ?s @ ''...'' else ?s) \<le> nat len + 3"
      using e [of "nat len"] by auto
    ultimately show ?thesis using len by simp
  qed (use assms in \<open>auto simp: luaO_chunkid_def Let_def m\<close>)
qed

subsection \<open>Decimal digits\<close>

lemma of_char_digit: "0 \<le> d \<Longrightarrow> d \<le> (9::int) \<Longrightarrow> uchar (char_of (48 + d)) = 48 + d"
  by (simp add: uchar_def of_char_mod_256)

lemma is_dig_digit: "0 \<le> d \<Longrightarrow> d \<le> (9::int) \<Longrightarrow> is_dig (char_of (48 + d))"
  by (simp add: is_dig_def isdigit_def of_char_digit)

lemma dec_value_snoc: "dec_value (ds @ [c]) = dec_value ds * 10 + (uchar c - 48)"
  by (simp add: dec_value_def)

lemma dec_digits_spec:
  "0 \<le> n \<Longrightarrow> dec_value (dec_digits n) = n \<and> (\<forall>c \<in> set (dec_digits n). is_dig c) \<and> dec_digits n \<noteq> []"
proof (induction n rule: dec_digits.induct)
  case (1 n)
  show ?case
  proof (cases "n < 10")
    case True
    with "1.prems" show ?thesis
      by (simp add: dec_digits.simps [of n] dec_value_def of_char_digit is_dig_digit)
  next
    case False
    with "1" show ?thesis
      by (auto simp: dec_digits.simps [of n] dec_value_snoc of_char_digit is_dig_digit)
  qed
qed

lemma dec_digits_length:
  "0 < n \<Longrightarrow> 10 ^ (length (dec_digits n) - 1) \<le> n \<and> n < 10 ^ length (dec_digits n)"
proof (induction n rule: dec_digits.induct)
  case (1 n)
  show ?case
  proof (cases "n < 10")
    case True
    with "1.prems" show ?thesis by (simp add: dec_digits.simps [of n])
  next
    case False
    let ?l = "length (dec_digits (n div 10))"
    from False "1" have ih: "10 ^ (?l - 1) \<le> n div 10" "n div 10 < 10 ^ ?l" by auto
    have "?l \<noteq> 0" using dec_digits_spec [of "n div 10"] False by simp
    then have "(10::int) ^ ?l = 10 * 10 ^ (?l - 1)" by (simp flip: power_Suc)
    moreover have "10 * x \<le> n \<and> n < 10 * y" if "x \<le> n div 10" "n div 10 < y" for x y :: int
      using that by linarith
    note this [OF ih]
    ultimately show ?thesis using False by (simp add: dec_digits.simps [of n])
  qed
qed

lemma dec_digits_times_10: "0 < n \<Longrightarrow> dec_digits (n * 10 ^ j) = dec_digits n @ replicate j (CHR ''0'')"
proof (induction j)
  case (Suc j)
  let ?m = "n * 10 ^ j"
  have m: "1 \<le> ?m" using Suc.prems mult_mono [of 1 n 1 "10 ^ j"] by simp
  have "dec_digits (?m * 10) = dec_digits ?m @ [CHR ''0'']"
    using m by (subst dec_digits.simps) (simp add: char_of_def)
  then show ?case using Suc by (simp add: replicate_append_same mult_ac)
qed simp

lemma dec_digits_not_minus:
  "0 \<le> n \<Longrightarrow> c \<in> set (dec_digits n) \<Longrightarrow> isdigit (uchar c)"
  using dec_digits_spec [of n] by (auto simp: is_dig_def)

lemma exp10_int:
  assumes "0 < k" "0 < q"
  shows "exp10 (k * q) q = int (length (dec_digits k)) - 1"
  using assms by (simp add: exp10_def)

lemma fmt_14g_int:
  assumes "0 < k" "k < 100000000000000" "0 < q"
  shows "fmt_14g (k * q) q = dec_digits k"
proof -
  let ?l = "length (dec_digits k)"
  have l: "10 ^ (?l - 1) \<le> k" "k < 10 ^ ?l" using dec_digits_length [OF assms(1)] by simp_all
  have "(10::int) ^ (?l - 1) < 10 ^ 14" using l(1) assms(2) by simp
  then have "?l - 1 < 14" by (rule power_less_imp_less_exp [rotated]) simp
  moreover have ne: "dec_digits k \<noteq> []" using dec_digits_spec [of k] assms(1) by simp
  then have "0 < ?l" by simp
  ultimately have l14: "1 \<le> ?l" "?l \<le> 14" by linarith+
  let ?j = "14 - ?l"
  have x0: "exp10 (k * q) q = int ?l - 1" using assms by (rule_tac exp10_int)
  have j: "nat (13 - (int ?l - 1)) = ?j" "nat (int ?l - 1 - 13) = 0" "nat (int ?l - 1 + 1) = ?l"
    using l14 by auto
  have d0: "round_div (k * q * 10 ^ ?j) q = k * 10 ^ ?j"
    using assms(3) by (simp add: round_div_def Let_def mult.assoc mult.left_commute [of k])
  have "k * 10 ^ ?j < 10 ^ ?l * 10 ^ ?j" using l(2) by simp
  also have "\<dots> = (10::int) ^ 14" using l14 by (simp flip: power_add)
  finally have b: "k * 10 ^ ?j < 100000000000000" by simp
  have z: "strip_zeros (replicate n (CHR ''0'')) = []" for n
    by (simp add: strip_zeros_def)
  have "fmt_14g (k * q) q = with_point (take ?l (dec_digits (k * 10 ^ ?j))) (drop ?l (dec_digits (k * 10 ^ ?j)))"
    using l14 b ne unfolding fmt_14g_def x0 Let_def j power_0 mult_1_right d0 by simp
  then show ?thesis
    using assms(1) by (simp add: dec_digits_times_10 with_point_def z)
qed

text \<open>
  An integer of at most 14 digits is printed in full, and reading back what is printed
  gives the same number: \<open>tonumber\<close> undoes \<open>tostring\<close> on them.
\<close>

lemma lua_number2str_int:
  assumes "\<bar>k\<bar> < 100000000000000"
  shows "lua_number2str (cast_num k) = int2str k"
proof (cases "k = 0")
  case True
  then show ?thesis by (simp add: cast_num_0) code_simp
next
  case False
  have k: "\<bar>k\<bar> < 9007199254740992" using assms by simp
  let ?L = "nbits \<bar>k\<bar>"
  have L: "?L \<le> 53" using scaled_bounds(1) [of "\<bar>k\<bar>"] False k by simp
  have "num_mant (cast_num k) * 2 ^ nat (num_expo (cast_num k)) = \<bar>k\<bar> * 2 ^ nat (53 - ?L)"
    and "nat (- num_expo (cast_num k)) = nat (53 - ?L)"
    using L by (simp_all add: cast_num_value [OF False k])
  then show ?thesis
    using False assms fmt_14g_int [of "\<bar>k\<bar>" "2 ^ nat (53 - ?L)"] num_mag_cast_num_0 [OF k]
    by (simp add: lua_number2str_def cast_num_decode [OF k] int2str_def)
qed

lemma str2d_int2str:
  assumes "\<bar>k\<bar> < 9007199254740992"
  shows "luaO_str2d (int2str k) = Some (cast_num k)"
proof -
  let ?n = "\<bar>k\<bar>" and ?ds = "dec_digits \<bar>k\<bar>"
  have ds: "dec_value ?ds = ?n" "\<forall>c \<in> set ?ds. is_dig c" "?ds \<noteq> []"
    using dec_digits_spec [of ?n] by simp_all
  then obtain c cs where c: "?ds = c # cs" "is_dig c" by (cases ?ds) auto
  have "c \<noteq> CHR ''-''" "c \<noteq> CHR ''+''" "\<not> isspace (uchar c)" "NUL \<notin> set ?ds"
    using c ds(2) by (auto simp: is_dig_def isdigit_def isspace_def uchar_def)
  then have s: "cstr ?ds = ?ds" "skip_space ?ds = ?ds" "scan_sign ?ds = (False, ?ds)"
    using c by (simp_all add: cstr_id skip_space_def scan_sign_def)
  have tw: "takeWhile is_dig ?ds = ?ds" "dropWhile is_dig ?ds = []"
    using ds(2) by (simp_all add: takeWhile_eq_all_conv dropWhile_eq_Nil_conv)
  have m: "cstr (CHR ''-'' # ?ds) = CHR ''-'' # ?ds" "skip_space (CHR ''-'' # ?ds) = CHR ''-'' # ?ds"
    "scan_sign (CHR ''-'' # ?ds) = (True, ?ds)"
    using s(1) by (simp_all add: cstr_def skip_space_def scan_sign_def isspace_def uchar_def)
  have num: "dec2num (k < 0) ?n 0 = cast_num k"
    by (simp add: dec2num_def cast_num_def num_make_def)
  have "strtod ?ds = Some (dec2num False ?n 0, [])" "strtod (CHR ''-'' # ?ds) = Some (dec2num True ?n 0, [])"
    using ds(1,3) by (simp_all add: strtod_def m s tw scan_exponent_def)
  then show ?thesis
    using s(1) m(1) num by (cases "k < 0") (simp_all add: luaO_str2d_def int2str_def)
qed

end
