(* ===== verification/LuaString.thy ===== *)
theory LuaString
  imports LuaObject
begin

text \<open>
  lstring.c: the string table. A string object keeps its bytes and their hash; the table
  chains the objects by hash, and \<open>luaS_newlstr\<close> returns the object that has the bytes it
  is given, creating it only when there is none.

  Objects live in a store from addresses to string objects; a chain of the table is the
  list of the addresses along the \<open>next\<close> fields. New objects get the address
  \<open>next_addr\<close>.
\<close>

section \<open>Colours (lgc.h)\<close>

abbreviation WHITEBITS :: int where "WHITEBITS \<equiv> 3"
abbreviation GCSsweepstring :: int where "GCSsweepstring \<equiv> 2"

definition otherwhite :: "int \<Rightarrow> int" where
  "otherwhite currentwhite = currentwhite XOR WHITEBITS"

definition isdead :: "int \<Rightarrow> int \<Rightarrow> bool" where
  "isdead currentwhite marked = (((marked AND otherwhite currentwhite) AND WHITEBITS) \<noteq> 0)"

definition changewhite :: "int \<Rightarrow> int" where
  "changewhite marked = marked XOR WHITEBITS"

definition luaC_white :: "int \<Rightarrow> int" where
  "luaC_white currentwhite = currentwhite AND WHITEBITS"

section \<open>The hash of a string\<close>

text \<open>\<open>lmod\<close> of lobject.h; the size is a power of 2.\<close>

definition lmod :: "int \<Rightarrow> int \<Rightarrow> int" where
  "lmod s n = s AND (n - 1)"

fun hash_loop :: "string \<Rightarrow> nat \<Rightarrow> nat \<Rightarrow> int \<Rightarrow> int" where
  "hash_loop str step l1 h =
     (if 0 < step \<and> step \<le> l1 then
        hash_loop str step (l1 - step)
          (h XOR ((h * 32 + h div 4 + uchar (chat str (l1 - 1))) mod 4294967296))
      else h)"

declare hash_loop.simps [simp del]

definition luaS_hash :: "string \<Rightarrow> int" where
  "luaS_hash str =
     (let l = length str; step = l div 32 + 1
      in hash_loop str step l (int l mod 4294967296))"

section \<open>The table\<close>

record tstring =
  ts_marked :: int
  ts_reserved :: int
  ts_hash :: int
  ts_len :: int
  ts_chars :: string

record stringtable =
  strt_hash :: "addr list list"
  strt_nuse :: int
  strt_size :: int
  strs :: "addr \<Rightarrow> tstring option"
  next_addr :: addr
  currentwhite :: int
  gcstate :: int

text \<open>The loop body of \<open>luaS_resize\<close>: chain a node in front of its new chain.\<close>

definition rechain :: "(addr \<Rightarrow> tstring option) \<Rightarrow> int \<Rightarrow> addr list list \<Rightarrow> addr \<Rightarrow> addr list list" where
  "rechain st newsize newhash p =
     (let h = (case st p of Some ts \<Rightarrow> ts_hash ts | None \<Rightarrow> 0); h1 = nat (lmod h newsize)
      in newhash[h1 := p # newhash ! h1])"

definition luaS_resize :: "stringtable \<Rightarrow> int \<Rightarrow> stringtable" where
  "luaS_resize tb newsize =
     (if gcstate tb = GCSsweepstring then tb
      else tb\<lparr>strt_size := newsize,
              strt_hash := foldl (foldl (rechain (strs tb) newsize))
                 (replicate (nat newsize) []) (strt_hash tb)\<rparr>)"

abbreviation sizeof_TString :: int where "sizeof_TString \<equiv> 24"

definition newlstr :: "stringtable \<Rightarrow> string \<Rightarrow> int \<Rightarrow> (stringtable \<times> addr) res" where
  "newlstr tb str h =
     (let l = int (length str)
      in if MAX_SIZET - sizeof_TString < l + 1
         then Inl (LUA_ERRRUN ''memory allocation error: block too big'')
         else let a = next_addr tb;
                  ts = \<lparr>ts_marked = luaC_white (currentwhite tb), ts_reserved = 0, ts_hash = h,
                        ts_len = l, ts_chars = str\<rparr>;
                  i = nat (lmod h (strt_size tb));
                  tb1 = tb\<lparr>strs := (strs tb)(a \<mapsto> ts), next_addr := Suc a,
                           strt_hash := (strt_hash tb)[i := a # strt_hash tb ! i],
                           strt_nuse := strt_nuse tb + 1\<rparr>
              in Inr (if strt_size tb1 < strt_nuse tb1 \<and> strt_size tb1 \<le> MAX_INT div 2
                      then luaS_resize tb1 (strt_size tb1 * 2) else tb1, a))"

text \<open>The search of \<open>luaS_newlstr\<close> along a chain.\<close>

definition same_string :: "stringtable \<Rightarrow> string \<Rightarrow> addr \<Rightarrow> bool" where
  "same_string tb str o' =
     (case strs tb o' of None \<Rightarrow> False
      | Some ts \<Rightarrow> ts_len ts = int (length str) \<and> ts_chars ts = str)"

definition luaS_newlstr :: "stringtable \<Rightarrow> string \<Rightarrow> (stringtable \<times> addr) res" where
  "luaS_newlstr tb str =
     (let h = luaS_hash str
      in case List.find (same_string tb str) (strt_hash tb ! nat (lmod h (strt_size tb))) of
           Some o' \<Rightarrow>
             (case strs tb o' of
                Some ts \<Rightarrow>
                  Inr (if isdead (currentwhite tb) (ts_marked ts)
                       then tb\<lparr>strs := (strs tb)(o' \<mapsto> ts\<lparr>ts_marked := changewhite (ts_marked ts)\<rparr>)\<rparr>
                       else tb, o')
              | None \<Rightarrow> Inr (tb, o'))
         | None \<Rightarrow> newlstr tb str h)"

section \<open>Invariant\<close>

definition pow2_size :: "int \<Rightarrow> bool" where
  "pow2_size n \<longleftrightarrow> n = 2 ^ nat (nbits n - 1) \<and> 0 < n"

text \<open>
  Every object of a chain exists, carries the hash of its bytes and hangs in the chain of
  its hash; no object is chained twice; no two objects have the same bytes; \<open>nuse\<close>
  counts the objects.
\<close>

definition obj_ok :: "stringtable \<Rightarrow> nat \<Rightarrow> addr \<Rightarrow> bool" where
  "obj_ok tb h a \<longleftrightarrow>
     (\<exists>ts. strs tb a = Some ts \<and> ts_hash ts = luaS_hash (ts_chars ts)
       \<and> ts_len ts = int (length (ts_chars ts)) \<and> lmod (ts_hash ts) (strt_size tb) = int h
       \<and> a < next_addr tb)"

definition chars_of :: "stringtable \<Rightarrow> addr \<Rightarrow> string option" where
  "chars_of tb a = map_option ts_chars (strs tb a)"

definition wf_strt :: "stringtable \<Rightarrow> bool" where
  "wf_strt tb \<longleftrightarrow>
     pow2_size (strt_size tb) \<and> length (strt_hash tb) = nat (strt_size tb)
     \<and> (\<forall>h < length (strt_hash tb). \<forall>a \<in> set (strt_hash tb ! h). obj_ok tb h a)
     \<and> distinct (concat (strt_hash tb))
     \<and> inj_on (chars_of tb) (set (concat (strt_hash tb)))
     \<and> strt_nuse tb = int (length (concat (strt_hash tb)))"

section \<open>Sizes that are powers of two\<close>

lemma pow2_sizeE:
  assumes "pow2_size n"
  obtains k where "n = 2 ^ k"
  using assms unfolding pow2_size_def by blast

lemma pow2_sizeI: "pow2_size (2 ^ k)"
proof -
  have "nbits (2 ^ k) = int k + 1" by (rule nbits_unique) simp_all
  then show ?thesis by (simp add: pow2_size_def)
qed

lemma pow2_size_double: "pow2_size n \<Longrightarrow> pow2_size (n * 2)"
  by (erule pow2_sizeE) (metis power_Suc2 pow2_sizeI)

lemma lmod_mod: "pow2_size n \<Longrightarrow> lmod s n = s mod n"
  by (erule pow2_sizeE) (simp add: lmod_def take_bit_eq_mask mask_eq_exp_minus_1 flip: take_bit_eq_mod)

lemma lmod_range: "pow2_size n \<Longrightarrow> 0 \<le> lmod s n \<and> lmod s n < n"
  using lmod_mod [of n s] by (simp add: pow2_size_def)

lemma set_concat_nth: "a \<in> set (concat xs) \<longleftrightarrow> (\<exists>h < length xs. a \<in> set (xs ! h))"
proof
  assume "a \<in> set (concat xs)"
  then obtain x where "x \<in> set xs" "a \<in> set x" by auto
  then show "\<exists>h < length xs. a \<in> set (xs ! h)" by (metis in_set_conv_nth)
qed (auto simp: nth_mem)

section \<open>Resizing\<close>

lemma mset_concat_push:
  "i < length xs \<Longrightarrow> mset (concat (xs[i := p # xs ! i])) = add_mset p (mset (concat xs))"
  by (induction xs arbitrary: i) (auto split: nat.splits)

definition hash_of :: "(addr \<Rightarrow> tstring option) \<Rightarrow> addr \<Rightarrow> int" where
  "hash_of st p = (case st p of Some ts \<Rightarrow> ts_hash ts | None \<Rightarrow> 0)"

definition chained :: "(addr \<Rightarrow> tstring option) \<Rightarrow> int \<Rightarrow> addr list list \<Rightarrow> bool" where
  "chained st n nh \<longleftrightarrow>
     length nh = nat n \<and> (\<forall>h < length nh. \<forall>a \<in> set (nh ! h). lmod (hash_of st a) n = int h)"

lemma rechain_step:
  assumes "pow2_size n" "chained st n nh"
  shows "chained st n (rechain st n nh p)"
    and "mset (concat (rechain st n nh p)) = add_mset p (mset (concat nh))"
proof -
  let ?i = "nat (lmod (hash_of st p) n)"
  have r: "rechain st n nh p = nh[?i := p # nh ! ?i]"
    by (simp add: rechain_def hash_of_def Let_def)
  have i: "?i < length nh" "int ?i = lmod (hash_of st p) n"
    using assms lmod_range [OF assms(1), of "hash_of st p"] by (auto simp: chained_def nat_less_iff)
  show "mset (concat (rechain st n nh p)) = add_mset p (mset (concat nh))"
    unfolding r by (rule mset_concat_push) (rule i(1))
  show "chained st n (rechain st n nh p)"
    using assms i unfolding r chained_def by (auto simp: nth_list_update)
qed

lemma rechain_chain:
  assumes "pow2_size n" "chained st n nh"
  shows "chained st n (foldl (rechain st n) nh ps)
    \<and> mset (concat (foldl (rechain st n) nh ps)) = mset ps + mset (concat nh)"
  using assms(2)
  by (induction ps arbitrary: nh) (simp_all add: rechain_step [OF assms(1)])

lemma rechain_table:
  assumes "pow2_size n" "chained st n nh"
  shows "chained st n (foldl (foldl (rechain st n)) nh pss)
    \<and> mset (concat (foldl (foldl (rechain st n)) nh pss)) = mset (concat pss) + mset (concat nh)"
  using assms(2)
  by (induction pss arbitrary: nh) (simp_all add: rechain_chain [OF assms(1)])

lemma concat_replicate_Nil: "concat (replicate n []) = []"
  by (induction n) simp_all

lemma luaS_resize_spec:
  assumes "pow2_size n" "gcstate tb \<noteq> GCSsweepstring"
  shows "chained (strs tb) n (strt_hash (luaS_resize tb n))"
    and "mset (concat (strt_hash (luaS_resize tb n))) = mset (concat (strt_hash tb))"
proof -
  have "chained (strs tb) n (replicate (nat n) [])" by (simp add: chained_def)
  from rechain_table [OF assms(1) this, of "strt_hash tb"] assms(2)
  show "chained (strs tb) n (strt_hash (luaS_resize tb n))"
    and "mset (concat (strt_hash (luaS_resize tb n))) = mset (concat (strt_hash tb))"
    by (simp_all add: luaS_resize_def concat_replicate_Nil)
qed

section \<open>The table keeps its invariant\<close>

definition members :: "stringtable \<Rightarrow> addr set" where
  "members tb = set (concat (strt_hash tb))"

lemma obj_ok_iff:
  "obj_ok tb h a \<longleftrightarrow> (\<exists>ts. strs tb a = Some ts \<and> ts_hash ts = luaS_hash (ts_chars ts)
     \<and> ts_len ts = int (length (ts_chars ts)) \<and> a < next_addr tb) \<and> lmod (hash_of (strs tb) a) (strt_size tb) = int h"
  by (auto simp: obj_ok_def hash_of_def)

definition obj_good :: "stringtable \<Rightarrow> addr \<Rightarrow> bool" where
  "obj_good tb a \<longleftrightarrow> (\<exists>ts. strs tb a = Some ts \<and> ts_hash ts = luaS_hash (ts_chars ts)
     \<and> ts_len ts = int (length (ts_chars ts)) \<and> a < next_addr tb)"

lemma wf_strt_iff:
  "wf_strt tb \<longleftrightarrow>
     pow2_size (strt_size tb) \<and> chained (strs tb) (strt_size tb) (strt_hash tb)
     \<and> (\<forall>a \<in> members tb. obj_good tb a) \<and> distinct (concat (strt_hash tb))
     \<and> inj_on (chars_of tb) (members tb) \<and> strt_nuse tb = int (length (concat (strt_hash tb)))"
  unfolding wf_strt_def chained_def members_def obj_good_def obj_ok_iff set_concat_nth Ball_def
  by blast

lemma wf_strt_resize:
  assumes "wf_strt tb" "pow2_size n"
  shows "wf_strt (luaS_resize tb n)"
    and "members (luaS_resize tb n) = members tb"
    and "strs (luaS_resize tb n) = strs tb"
proof -
  show s: "strs (luaS_resize tb n) = strs tb" by (simp add: luaS_resize_def)
  have "mset (concat (strt_hash (luaS_resize tb n))) = mset (concat (strt_hash tb))"
    using luaS_resize_spec(2) [OF assms(2)] by (cases "gcstate tb = GCSsweepstring") (simp_all add: luaS_resize_def)
  note m = this mset_eq_setD [OF this] mset_eq_length [OF this] mset_eq_imp_distinct_iff [OF this]
  show mem: "members (luaS_resize tb n) = members tb" using m(2) by (simp add: members_def)
  show "wf_strt (luaS_resize tb n)"
  proof (cases "gcstate tb = GCSsweepstring")
    case True
    with assms(1) show ?thesis by (simp add: luaS_resize_def)
  next
    case False
    have "strt_size (luaS_resize tb n) = n" "strt_nuse (luaS_resize tb n) = strt_nuse tb"
      "next_addr (luaS_resize tb n) = next_addr tb"
      using False by (simp_all add: luaS_resize_def)
    with assms luaS_resize_spec(1) [OF assms(2) False] show ?thesis
      unfolding wf_strt_iff mem by (simp add: s m obj_good_def chars_of_def cong: inj_on_cong)
  qed
qed

lemma newlstr_spec:
  assumes wf: "wf_strt tb" and h: "h = luaS_hash str" and new: "Some str \<notin> chars_of tb ` members tb"
    and r: "newlstr tb str h = Inr (tb', a)"
  shows "wf_strt tb' \<and> members tb' = insert a (members tb) \<and> chars_of tb' a = Some str
     \<and> (\<forall>b \<in> members tb. chars_of tb' b = chars_of tb b) \<and> a \<notin> members tb"
proof -
  define ts where "ts = \<lparr>ts_marked = luaC_white (currentwhite tb), ts_reserved = 0, ts_hash = h,
      ts_len = int (length str), ts_chars = str\<rparr>"
  define i where "i = nat (lmod h (strt_size tb))"
  define tb1 where "tb1 = tb\<lparr>strs := (strs tb)(next_addr tb \<mapsto> ts), next_addr := Suc (next_addr tb),
      strt_hash := (strt_hash tb)[i := next_addr tb # strt_hash tb ! i], strt_nuse := strt_nuse tb + 1\<rparr>"
  from r have a: "a = next_addr tb" and tb': "tb' = (if strt_size tb1 < strt_nuse tb1 \<and> strt_size tb1 \<le> MAX_INT div 2
      then luaS_resize tb1 (strt_size tb1 * 2) else tb1)"
    unfolding newlstr_def Let_def ts_def [symmetric] i_def [symmetric] tb1_def [symmetric]
    by (auto split: if_splits)
  note w = wf [unfolded wf_strt_iff]
  have i: "i < length (strt_hash tb)" "int i = lmod h (strt_size tb)"
    using w lmod_range [of "strt_size tb" h] by (auto simp: chained_def i_def nat_less_iff)
  have fresh: "a \<notin> members tb" using w by (auto simp: obj_good_def a)
  have ms: "mset (concat (strt_hash tb1)) = add_mset a (mset (concat (strt_hash tb)))"
    using mset_concat_push [OF i(1), of a] by (simp add: tb1_def a)
  have mem: "members tb1 = insert a (members tb)"
    using arg_cong [OF ms, of set_mset] by (simp add: members_def)
  have same: "strs tb1 b = strs tb b" if "b \<in> members tb" for b
    using that fresh by (auto simp: tb1_def a)
  have new1: "strs tb1 a = Some ts" by (simp add: tb1_def a)
  have "distinct (concat (strt_hash tb1))"
    using ms w fresh by (metis distinct.simps(2) members_def mset.simps(2) mset_eq_imp_distinct_iff)
  moreover have "strt_nuse tb1 = int (length (concat (strt_hash tb1)))"
    using arg_cong [OF ms, of size] w by (simp add: tb1_def)
  moreover have "chained (strs tb1) (strt_size tb1) (strt_hash tb1)"
  proof -
    have "lmod (hash_of (strs tb1) b) (strt_size tb) = int k"
      if "k < length (strt_hash tb)" "b \<in> set (strt_hash tb ! k)" for k b
    proof -
      have "b \<in> members tb" using that unfolding members_def set_concat_nth by blast
      then show ?thesis using w that by (simp add: chained_def hash_of_def same)
    qed
    moreover have "hash_of (strs tb1) a = h" by (simp add: hash_of_def new1 ts_def)
    ultimately show ?thesis
      using i w by (auto simp: chained_def tb1_def a nth_list_update)
  qed
  moreover have "\<forall>b \<in> members tb1. obj_good tb1 b"
  proof
    fix b assume "b \<in> members tb1"
    then consider "b = a" | "b \<in> members tb" by (auto simp: mem)
    then show "obj_good tb1 b"
    proof cases
      case 1 then show ?thesis by (simp add: obj_good_def new1 ts_def h) (simp add: tb1_def a)
    next
      case 2
      then have "obj_good tb b" using w by blast
      then show ?thesis using same [OF 2] by (auto simp: obj_good_def tb1_def)
    qed
  qed
  moreover have ch: "chars_of tb1 a = Some str" "\<forall>b \<in> members tb. chars_of tb1 b = chars_of tb b"
    using same by (simp_all add: chars_of_def new1 ts_def)
  moreover have "inj_on (chars_of tb1) (members tb1)"
  proof -
    have "inj_on (chars_of tb1) (members tb)"
      using w ch(2) by (simp cong: inj_on_cong)
    moreover have "chars_of tb1 a \<notin> chars_of tb1 ` members tb"
      using new ch by (simp cong: image_cong)
    ultimately show ?thesis using fresh by (auto simp: mem)
  qed
  moreover have "pow2_size (strt_size tb1)" using w by (simp add: tb1_def)
  ultimately have wf1: "wf_strt tb1" by (simp add: wf_strt_iff)
  have "pow2_size (strt_size tb1 * 2)" using w by (simp add: tb1_def pow2_size_double)
  note rs = wf_strt_resize [OF wf1 this]
  show ?thesis
    using wf1 rs mem ch fresh by (auto simp: tb' chars_of_def)
qed

text \<open>
  \<open>luaS_newlstr\<close> keeps the table well formed, returns an object with the bytes asked for,
  and leaves the bytes of every other object alone.
\<close>

lemma luaS_newlstr_spec:
  assumes wf: "wf_strt tb" and r: "luaS_newlstr tb str = Inr (tb', a)"
  shows "wf_strt tb' \<and> a \<in> members tb' \<and> chars_of tb' a = Some str
     \<and> (\<forall>b \<in> members tb. b \<in> members tb' \<and> chars_of tb' b = chars_of tb b)"
proof (cases "List.find (same_string tb str) (strt_hash tb ! nat (lmod (luaS_hash str) (strt_size tb)))")
  case None
  note w = wf [unfolded wf_strt_iff]
  have "chars_of tb b \<noteq> Some str" if b: "b \<in> members tb" for b
  proof
    assume c: "chars_of tb b = Some str"
    from b w obtain ts where ts: "strs tb b = Some ts" "ts_hash ts = luaS_hash (ts_chars ts)"
      "ts_len ts = int (length (ts_chars ts))" by (auto simp: obj_good_def)
    with c have chars: "ts_chars ts = str" by (simp add: chars_of_def)
    from b obtain k where k: "k < length (strt_hash tb)" "b \<in> set (strt_hash tb ! k)"
      unfolding members_def set_concat_nth by blast
    then have "k = nat (lmod (luaS_hash str) (strt_size tb))"
      using w ts chars by (force simp: chained_def hash_of_def)
    with None k have "\<not> same_string tb str b" by (auto simp: find_None_iff)
    with ts chars show False by (simp add: same_string_def)
  qed
  then have new: "Some str \<notin> chars_of tb ` members tb" by (metis imageE)
  have "newlstr tb str (luaS_hash str) = Inr (tb', a)"
    using r None by (simp add: luaS_newlstr_def Let_def)
  from newlstr_spec [OF wf refl new this] show ?thesis by blast
next
  case (Some o')
  note w = wf [unfolded wf_strt_iff]
  let ?i = "nat (lmod (luaS_hash str) (strt_size tb))"
  have i: "?i < length (strt_hash tb)"
    using w lmod_range [of "strt_size tb" "luaS_hash str"] by (auto simp: chained_def nat_less_iff)
  from Some have o': "o' \<in> set (strt_hash tb ! ?i)" "same_string tb str o'"
    by (auto simp: find_Some_iff)
  then obtain ts where ts: "strs tb o' = Some ts" "ts_chars ts = str"
    by (auto simp: same_string_def split: option.splits)
  have mem: "o' \<in> members tb" using o'(1) i unfolding members_def set_concat_nth by blast
  define tb2 where "tb2 = (if isdead (currentwhite tb) (ts_marked ts)
      then tb\<lparr>strs := (strs tb)(o' \<mapsto> ts\<lparr>ts_marked := changewhite (ts_marked ts)\<rparr>)\<rparr> else tb)"
  have tb': "tb' = tb2" "a = o'" using r Some ts by (simp_all add: luaS_newlstr_def tb2_def)
  have m: "members tb2 = members tb" by (simp add: tb2_def members_def)
  have c: "chars_of tb2 = chars_of tb" using ts by (auto simp: tb2_def chars_of_def fun_eq_iff)
  have ho: "hash_of (strs tb2) = hash_of (strs tb)" using ts by (auto simp: tb2_def hash_of_def fun_eq_iff)
  have "obj_good tb2 b" if "obj_good tb b" for b
    using that ts by (auto simp: obj_good_def tb2_def)
  then have "wf_strt tb2"
    using w unfolding wf_strt_iff m c chained_def ho by (simp add: tb2_def)
  then show ?thesis using mem ts by (simp add: tb' m c chars_of_def [of tb])
qed

text \<open>
  Interning: after two requests the pointers are the same exactly when the bytes are.
\<close>

lemma luaS_newlstr_interns:
  assumes wf: "wf_strt tb" and r1: "luaS_newlstr tb s1 = Inr (tb1, a1)" and r2: "luaS_newlstr tb1 s2 = Inr (tb2, a2)"
  shows "a1 = a2 \<longleftrightarrow> s1 = s2"
proof -
  note p1 = luaS_newlstr_spec [OF wf r1]
  note p2 = luaS_newlstr_spec [OF conjunct1 [OF p1] r2]
  have "inj_on (chars_of tb2) (members tb2)" using p2 by (simp add: wf_strt_iff)
  moreover have "a1 \<in> members tb2" "chars_of tb2 a1 = Some s1" using p1 p2 by auto
  moreover have "a2 \<in> members tb2" "chars_of tb2 a2 = Some s2" using p2 by auto
  ultimately show ?thesis by (metis inj_onD option.inject)
qed

text \<open>The only failure is a string as long as the address space.\<close>

lemma luaS_newlstr_total:
  "int (length str) < MAX_SIZET - sizeof_TString \<Longrightarrow> \<exists>tb' a. luaS_newlstr tb str = Inr (tb', a)"
  by (auto simp: luaS_newlstr_def newlstr_def Let_def split: option.splits)

end
