(* ===== verification/LuaTable.thy ===== *)
theory LuaTable
  imports LuaString
begin

text \<open>
  ltable.c: tables with an array part and a hash part. The hash part is a chained scatter
  table with Brent's variation: \<open>node\<close> is the vector of nodes, a pointer to a node is its
  index in the vector, \<open>lastfree\<close> counts down through the free positions.

  \<open>luaH_get\<close> and \<open>luaH_set\<close> of the source return a pointer to a value. In the model it is a
  \<open>slot\<close>: a position of the array or of the node vector; \<open>None\<close> is \<open>luaO_nilobject\<close>.
\<close>

abbreviation MAXBITS :: nat where "MAXBITS \<equiv> 26"
abbreviation MAXASIZE :: int where "MAXASIZE \<equiv> 67108864"

record Node =
  i_val :: tvalue
  i_key :: tvalue
  gnext :: "nat option"

record lua_table =
  flags :: int
  lsizenode :: nat
  metatable :: "addr option"
  array :: "tvalue list"
  node :: "Node list"
  is_dummy :: bool
  lastfree :: int
  sizearray :: nat

datatype slot = SArray nat | SNode nat

definition sizenode :: "lua_table \<Rightarrow> nat" where
  "sizenode t = 2 ^ lsizenode t"

text \<open>\<open>dummynode_\<close>, shared by all tables without a hash part.\<close>

definition empty_node :: Node where
  "empty_node = \<lparr>i_val = TNil, i_key = TNil, gnext = None\<rparr>"

section \<open>Hashing\<close>

definition hashpow2 :: "nat \<Rightarrow> int \<Rightarrow> nat" where
  "hashpow2 sz n = nat (lmod n (int sz))"

definition hashmod :: "nat \<Rightarrow> int \<Rightarrow> nat" where
  "hashmod sz n = nat (n mod ((int sz - 1) OR 1))"

definition hashnum :: "nat \<Rightarrow> lua_Number \<Rightarrow> nat" where
  "hashnum sz n =
     (let w = uint (luai_numadd n (cast_num 1)); a0 = w mod 4294967296; a1 = w div 4294967296
      in hashmod sz ((a0 + a1) mod 4294967296))"

definition IntPoint :: "addr \<Rightarrow> int" where
  "IntPoint p = int p mod 4294967296"

text \<open>
  The main position of a key in a hash part of \<open>sz\<close> nodes. The code asks it only for the
  keys of nodes with a value, and for keys that are looked up: never for nil and for
  dead keys, whose case is arbitrary here.
\<close>

definition main_pos :: "nat \<Rightarrow> tvalue \<Rightarrow> nat" where
  "main_pos sz key =
     (case key of
        TNumber n \<Rightarrow> hashnum sz n
      | TString s \<Rightarrow> hashpow2 sz (luaS_hash s)
      | TBoolean b \<Rightarrow> hashpow2 sz b
      | TLightUserData p \<Rightarrow> hashmod sz (IntPoint p)
      | TTable p \<Rightarrow> hashmod sz (IntPoint p)
      | TFunction p \<Rightarrow> hashmod sz (IntPoint p)
      | TUserData p \<Rightarrow> hashmod sz (IntPoint p)
      | TThread p \<Rightarrow> hashmod sz (IntPoint p)
      | _ \<Rightarrow> 0)"

definition mainposition :: "lua_table \<Rightarrow> tvalue \<Rightarrow> nat" where
  "mainposition t key = main_pos (sizenode t) key"

definition arrayindex :: "tvalue \<Rightarrow> int" where
  "arrayindex key =
     (case key of
        TNumber n \<Rightarrow> (let k = lua_number2int n in if luai_numeq (cast_num k) n then k else -1)
      | _ \<Rightarrow> -1)"

section \<open>Search\<close>

text \<open>
  The loop \<open>do { if (p(n)) return n; else n = gnext(n); } while (n)\<close>. A chain has at most
  as many nodes as the vector, so the length of the vector bounds the walk.
\<close>

fun chain_find :: "(Node \<Rightarrow> bool) \<Rightarrow> Node list \<Rightarrow> nat \<Rightarrow> nat \<Rightarrow> nat option" where
  "chain_find P ns 0 n = None"
| "chain_find P ns (Suc fuel) n =
     (if P (ns ! n) then Some n
      else case gnext (ns ! n) of None \<Rightarrow> None | Some m \<Rightarrow> chain_find P ns fuel m)"

definition search :: "(Node \<Rightarrow> bool) \<Rightarrow> lua_table \<Rightarrow> nat \<Rightarrow> slot option" where
  "search P t n = map_option SNode (chain_find P (node t) (Suc (length (node t))) n)"

definition luaH_getnum :: "lua_table \<Rightarrow> int \<Rightarrow> slot option" where
  "luaH_getnum t key =
     (if (key - 1) mod 4294967296 < int (sizearray t) then Some (SArray (nat (key - 1)))
      else let nk = cast_num key
           in search (\<lambda>n. case i_key n of TNumber m \<Rightarrow> luai_numeq m nk | _ \<Rightarrow> False) t
                (hashnum (sizenode t) nk))"

definition luaH_getstr :: "lua_table \<Rightarrow> string \<Rightarrow> slot option" where
  "luaH_getstr t key =
     search (\<lambda>n. case i_key n of TString s \<Rightarrow> s = key | _ \<Rightarrow> False) t
       (hashpow2 (sizenode t) (luaS_hash key))"

definition luaH_getany :: "lua_table \<Rightarrow> tvalue \<Rightarrow> slot option" where
  "luaH_getany t key = search (\<lambda>n. luaO_rawequalObj (i_key n) key) t (mainposition t key)"

definition luaH_get :: "lua_table \<Rightarrow> tvalue \<Rightarrow> slot option" where
  "luaH_get t key =
     (case key of
        TNil \<Rightarrow> None
      | TString s \<Rightarrow> luaH_getstr t s
      | TNumber n \<Rightarrow>
          (let k = lua_number2int n
           in if luai_numeq (cast_num k) n then luaH_getnum t k else luaH_getany t key)
      | _ \<Rightarrow> luaH_getany t key)"

text \<open>Reading and writing through the pointer.\<close>

definition slot_val :: "lua_table \<Rightarrow> slot \<Rightarrow> tvalue" where
  "slot_val t s = (case s of SArray i \<Rightarrow> array t ! i | SNode i \<Rightarrow> i_val (node t ! i))"

definition slot_set :: "lua_table \<Rightarrow> slot \<Rightarrow> tvalue \<Rightarrow> lua_table" where
  "slot_set t s v =
     (case s of SArray i \<Rightarrow> t\<lparr>array := (array t)[i := v]\<rparr>
      | SNode i \<Rightarrow> t\<lparr>node := (node t)[i := (node t ! i)\<lparr>i_val := v\<rparr>]\<rparr>)"

definition read_slot :: "lua_table \<Rightarrow> slot option \<Rightarrow> tvalue" where
  "read_slot t p = (case p of None \<Rightarrow> TNil | Some s \<Rightarrow> slot_val t s)"

section \<open>Insertion\<close>

function getfree_loop :: "Node list \<Rightarrow> int \<Rightarrow> int \<times> nat option" where
  "getfree_loop ns lf =
     (if 0 < lf then
        (if i_key (ns ! nat (lf - 1)) = TNil then (lf - 1, Some (nat (lf - 1)))
         else getfree_loop ns (lf - 1))
      else (lf - 1, None))"
  by pat_completeness auto
termination
  by (relation "measure (\<lambda>(ns, lf). nat lf)") auto

declare getfree_loop.simps [simp del]

definition getfreepos :: "lua_table \<Rightarrow> lua_table \<times> nat option" where
  "getfreepos t = (let (lf, r) = getfree_loop (node t) (lastfree t) in (t\<lparr>lastfree := lf\<rparr>, r))"

text \<open>\<open>while (gnext(othern) != mp) othern = gnext(othern)\<close>\<close>

fun find_prev :: "Node list \<Rightarrow> nat \<Rightarrow> nat \<Rightarrow> nat \<Rightarrow> nat option" where
  "find_prev ns 0 mp o' = None"
| "find_prev ns (Suc fuel) mp o' =
     (case gnext (ns ! o') of None \<Rightarrow> None
      | Some m \<Rightarrow> if m = mp then Some o' else find_prev ns fuel mp m)"

text \<open>
  The three ways of \<open>newkey\<close> to make room for a key whose main position is taken or free;
  each returns the nodes and the place of the key.
\<close>

definition move_colliding :: "Node list \<Rightarrow> nat \<Rightarrow> nat \<Rightarrow> nat \<Rightarrow> Node list option" where
  "move_colliding ns mp othern n =
     (case find_prev ns (Suc (length ns)) mp othern of
        None \<Rightarrow> None
      | Some p \<Rightarrow>
          let ns1 = ns[p := (ns ! p)\<lparr>gnext := Some n\<rparr>];
              ns2 = ns1[n := ns1 ! mp]
          in Some (ns2[mp := (ns2 ! mp)\<lparr>gnext := None, i_val := TNil\<rparr>]))"

definition chain_free :: "Node list \<Rightarrow> nat \<Rightarrow> nat \<Rightarrow> Node list" where
  "chain_free ns mp n =
     (let ns1 = ns[n := (ns ! n)\<lparr>gnext := gnext (ns ! mp)\<rparr>]
      in ns1[mp := (ns1 ! mp)\<lparr>gnext := Some n\<rparr>])"

definition set_key :: "lua_table \<Rightarrow> Node list \<Rightarrow> nat \<Rightarrow> tvalue \<Rightarrow> lua_table \<times> slot" where
  "set_key t ns mp key = (t\<lparr>node := ns[mp := (ns ! mp)\<lparr>i_key := key\<rparr>]\<rparr>, SNode mp)"

subsection \<open>Rehash\<close>

text \<open>
  \<open>luaH_set\<close>, \<open>luaH_setnum\<close>, \<open>resize\<close> and \<open>rehash\<close> call \<open>newkey\<close>, which calls \<open>rehash\<close>
  when the table is full. Here they take the \<open>newkey\<close> they call as a parameter \<open>nk\<close>, and
  \<open>newkey\<close> below ties the knot with a bound on the depth.
\<close>

type_synonym inserter = "lua_table \<Rightarrow> tvalue \<Rightarrow> (lua_table \<times> slot) res"

definition luaH_set_with :: "inserter \<Rightarrow> lua_table \<Rightarrow> tvalue \<Rightarrow> (lua_table \<times> slot) res" where
  "luaH_set_with nk t key =
     (let p = luaH_get t key; t1 = t\<lparr>flags := 0\<rparr>
      in case p of
           Some s \<Rightarrow> Inr (t1, s)
         | None \<Rightarrow>
             if ttisnil key then Inl (LUA_ERRRUN ''table index is nil'')
             else case key of
               TNumber n \<Rightarrow>
                 if luai_numisnan n then Inl (LUA_ERRRUN ''table index is NaN'') else nk t1 key
             | _ \<Rightarrow> nk t1 key)"

definition luaH_setnum_with :: "inserter \<Rightarrow> lua_table \<Rightarrow> int \<Rightarrow> (lua_table \<times> slot) res" where
  "luaH_setnum_with nk t key =
     (case luaH_getnum t key of Some s \<Rightarrow> Inr (t, s) | None \<Rightarrow> nk t (TNumber (cast_num key)))"

definition luaH_setstr_with :: "inserter \<Rightarrow> lua_table \<Rightarrow> string \<Rightarrow> (lua_table \<times> slot) res" where
  "luaH_setstr_with nk t key =
     (case luaH_getstr t key of Some s \<Rightarrow> Inr (t, s) | None \<Rightarrow> nk t (TString key))"

function computesizes_loop :: "nat list \<Rightarrow> nat \<Rightarrow> nat \<Rightarrow> nat \<Rightarrow> nat \<Rightarrow> nat \<Rightarrow> nat \<times> nat" where
  "computesizes_loop nums narray i a na n =
     (if (2 ^ i) div 2 < narray then
        let a' = a + nums ! i;
            (na', n') = (if 0 < nums ! i \<and> (2 ^ i) div 2 < a' then (a', 2 ^ i) else (na, n))
        in if a' = narray then (na', n') else computesizes_loop nums narray (Suc i) a' na' n'
      else (na, n))"
  by pat_completeness auto
termination
proof (relation "measure (\<lambda>(nums, narray, i, a, na, n). narray - (2 ^ i) div 2)", goal_cases)
  case (2 nums narray i a na n)
  have "(2::nat) ^ i div 2 < 2 ^ i" by simp
  with 2(1) show ?case by (simp add: diff_less_mono2)
qed simp

declare computesizes_loop.simps [simp del]

text \<open>Returns the number of elements that go to the array part, and the size of that part.\<close>

definition computesizes :: "nat list \<Rightarrow> nat \<Rightarrow> nat \<times> nat" where
  "computesizes nums narray = computesizes_loop nums narray 0 0 0 0"

definition countint :: "tvalue \<Rightarrow> nat list \<Rightarrow> nat list \<times> nat" where
  "countint key nums =
     (let k = arrayindex key
      in if 0 < k \<and> k \<le> MAXASIZE then
           (let i = nat (ceillog2 k) in (nums[i := Suc (nums ! i)], 1))
         else (nums, 0))"

text \<open>The slices of \<open>numusearray\<close>, from \<open>lg\<close> on; \<open>i\<close> is the next array key to visit.\<close>

function numusearray_loop :: "lua_table \<Rightarrow> nat \<Rightarrow> nat \<Rightarrow> nat list \<Rightarrow> nat \<Rightarrow> nat list \<times> nat" where
  "numusearray_loop t lg i nums ause =
     (if lg \<le> MAXBITS then
        let ttlg = 2 ^ lg; lim = (if sizearray t < ttlg then sizearray t else ttlg)
        in if sizearray t < ttlg \<and> lim < i then (nums, ause)
           else let lc = length (filter (\<lambda>v. \<not> ttisnil v) (drop (i - 1) (take lim (array t))))
                in numusearray_loop t (Suc lg) (max i (Suc lim)) (nums[lg := nums ! lg + lc]) (ause + lc)
      else (nums, ause))"
  by pat_completeness auto
termination
  by (relation "measure (\<lambda>(t, lg, i, nums, ause). Suc MAXBITS - lg)") auto

declare numusearray_loop.simps [simp del]

definition numusearray :: "lua_table \<Rightarrow> nat list \<Rightarrow> nat list \<times> nat" where
  "numusearray t nums = numusearray_loop t 0 1 nums 0"

text \<open>Counts and the number of nodes in use; the loop runs from the last node down.\<close>

fun numusehash_loop :: "Node list \<Rightarrow> nat list \<Rightarrow> nat \<Rightarrow> nat \<Rightarrow> nat list \<times> nat \<times> nat" where
  "numusehash_loop [] nums ause totaluse = (nums, ause, totaluse)"
| "numusehash_loop (n # ns) nums ause totaluse =
     (if \<not> ttisnil (i_val n) then
        (let (nums', c) = countint (i_key n) nums
         in numusehash_loop ns nums' (ause + c) (Suc totaluse))
      else numusehash_loop ns nums ause totaluse)"

definition numusehash :: "lua_table \<Rightarrow> nat list \<Rightarrow> nat \<Rightarrow> nat list \<times> nat \<times> nat" where
  "numusehash t nums pnasize =
     (let (nums', ause, totaluse) = numusehash_loop (rev (node t)) nums 0 0
      in (nums', pnasize + ause, totaluse))"

definition setarrayvector :: "lua_table \<Rightarrow> nat \<Rightarrow> lua_table" where
  "setarrayvector t sz =
     t\<lparr>array := take sz (array t) @ replicate (sz - sizearray t) TNil, sizearray := sz\<rparr>"

definition setnodevector :: "lua_table \<Rightarrow> nat \<Rightarrow> lua_table res" where
  "setnodevector t sz =
     (if sz = 0 then
        Inr (t\<lparr>node := [empty_node], is_dummy := True, lsizenode := 0, lastfree := 0\<rparr>)
      else let lsize = nat (ceillog2 (int sz))
           in if MAXBITS < lsize then Inl (LUA_ERRRUN ''table overflow'')
              else Inr (t\<lparr>node := replicate (2 ^ lsize) empty_node, is_dummy := False,
                          lsizenode := lsize, lastfree := 2 ^ lsize\<rparr>))"

text \<open>\<open>setobjt2t(L, luaH_setnum(L, t, i+1), &t->array[i])\<close>\<close>

definition reinsert_array :: "inserter \<Rightarrow> lua_table \<Rightarrow> nat \<Rightarrow> lua_table res" where
  "reinsert_array nk t i =
     (if ttisnil (array t ! i) then Inr t
      else bindE (luaH_setnum_with nk t (int i + 1)) (\<lambda>(t', s). Inr (slot_set t' s (array t' ! i))))"

text \<open>\<open>setobjt2t(L, luaH_set(L, t, key2tval(old)), gval(old))\<close>\<close>

definition reinsert_node :: "inserter \<Rightarrow> lua_table \<Rightarrow> Node \<Rightarrow> lua_table res" where
  "reinsert_node nk t old =
     (if ttisnil (i_val old) then Inr t
      else bindE (luaH_set_with nk t (i_key old)) (\<lambda>(t', s). Inr (slot_set t' s (i_val old))))"

definition resize :: "inserter \<Rightarrow> lua_table \<Rightarrow> nat \<Rightarrow> nat \<Rightarrow> lua_table res" where
  "resize nk t nasize nhsize =
     (let oldasize = sizearray t; nold = node t;
          t1 = (if oldasize < nasize then setarrayvector t nasize else t)
      in bindE (setnodevector t1 nhsize) (\<lambda>t2.
         bindE (if nasize < oldasize then
                  bindE (foldE (reinsert_array nk) (t2\<lparr>sizearray := nasize\<rparr>) [nasize..<oldasize])
                    (\<lambda>t3. Inr (t3\<lparr>array := take nasize (array t3)\<rparr>))
                else Inr t2) (\<lambda>t4.
         foldE (reinsert_node nk) t4 (rev nold))))"

definition rehash :: "inserter \<Rightarrow> lua_table \<Rightarrow> tvalue \<Rightarrow> lua_table res" where
  "rehash nk t ek =
     (let nums0 = replicate (Suc MAXBITS) 0;
          (nums1, nasize1) = numusearray t nums0;
          (nums2, nasize2, hashuse) = numusehash t nums1 nasize1;
          (nums3, c) = countint ek nums2;
          totaluse = nasize1 + hashuse + 1;
          (na, nasize) = computesizes nums3 (nasize2 + c)
      in resize nk t nasize (totaluse - na))"

subsection \<open>newkey\<close>

definition insert_key ::
  "(lua_table \<Rightarrow> (lua_table \<times> slot) res) \<Rightarrow> lua_table \<Rightarrow> tvalue \<Rightarrow> (lua_table \<times> slot) res" where
  "insert_key grow t key =
     (let mp = mainposition t key
      in if \<not> ttisnil (i_val (node t ! mp)) \<or> is_dummy t then
           (let (t1, n) = getfreepos t
            in case n of
                 None \<Rightarrow> grow t1
               | Some n \<Rightarrow>
                   let othern = mainposition t1 (i_key (node t1 ! mp))
                   in if othern \<noteq> mp then
                        (case move_colliding (node t1) mp othern n of
                           None \<Rightarrow> Inl NO_FUEL
                         | Some ns \<Rightarrow> Inr (set_key t1 ns mp key))
                      else Inr (set_key t1 (chain_free (node t1) mp n) n key))
         else Inr (set_key t (node t) mp key))"

text \<open>
  A full table is rehashed and the key inserted in the new vector. The depth \<open>d\<close> bounds
  how often the rehash itself may need to rehash: \<open>rehash\<close> makes a vector with room
  for every key of the table and the new one, and the theorems below show that one level
  is enough.
\<close>

primrec newkey :: "nat \<Rightarrow> inserter" where
  "newkey 0 = (\<lambda>t key. insert_key (\<lambda>t'. Inl NO_FUEL) t key)"
| "newkey (Suc d) = (\<lambda>t key.
     insert_key (\<lambda>t'. bindE (rehash (newkey d) t' key) (\<lambda>t''. luaH_set_with (newkey d) t'' key)) t key)"

definition luaH_set :: "lua_table \<Rightarrow> tvalue \<Rightarrow> (lua_table \<times> slot) res" where
  "luaH_set = luaH_set_with (newkey 1)"

definition luaH_setnum :: "lua_table \<Rightarrow> int \<Rightarrow> (lua_table \<times> slot) res" where
  "luaH_setnum = luaH_setnum_with (newkey 1)"

definition luaH_setstr :: "lua_table \<Rightarrow> string \<Rightarrow> (lua_table \<times> slot) res" where
  "luaH_setstr = luaH_setstr_with (newkey 1)"

definition luaH_resizearray :: "lua_table \<Rightarrow> nat \<Rightarrow> lua_table res" where
  "luaH_resizearray t nasize =
     resize (newkey 1) t nasize (if is_dummy t then 0 else sizenode t)"

definition luaH_new :: "nat \<Rightarrow> nat \<Rightarrow> lua_table res" where
  "luaH_new narray nhash =
     (let t = \<lparr>flags = 255, lsizenode = 0, metatable = None, array = [], node = [empty_node],
              is_dummy = True, lastfree = 0, sizearray = 0\<rparr>
      in setnodevector (setarrayvector t narray) nhash)"

section \<open>Traversal\<close>

definition dead_match :: "tvalue \<Rightarrow> tvalue \<Rightarrow> bool" where
  "dead_match k key =
     (case k of TDeadKey g \<Rightarrow> iscollectable key \<and> gcvalue key = Some g | _ \<Rightarrow> False)"

definition findindex :: "lua_table \<Rightarrow> tvalue \<Rightarrow> int res" where
  "findindex t key =
     (if ttisnil key then Inr (- 1)
      else let i = arrayindex key
           in if 0 < i \<and> i \<le> int (sizearray t) then Inr (i - 1)
              else case chain_find
                     (\<lambda>n. luaO_rawequalObj (i_key n) key \<or> dead_match (i_key n) key)
                     (node t) (Suc (length (node t))) (mainposition t key) of
                     Some i \<Rightarrow> Inr (int i + int (sizearray t))
                   | None \<Rightarrow> Inl (LUA_ERRRUN (''invalid key to '' @ LUA_QL ''next'')))"

text \<open>The two loops over the array part and the hash part, from index \<open>i\<close> on.\<close>

function next_array :: "lua_table \<Rightarrow> nat \<Rightarrow> nat + (tvalue \<times> tvalue)" where
  "next_array t i =
     (if i < sizearray t then
        (if \<not> ttisnil (array t ! i) then Inr (TNumber (cast_num (int i + 1)), array t ! i)
         else next_array t (Suc i))
      else Inl i)"
  by pat_completeness auto
termination by (relation "measure (\<lambda>(t, i). sizearray t - i)") auto

function next_node :: "lua_table \<Rightarrow> nat \<Rightarrow> (tvalue \<times> tvalue) option" where
  "next_node t i =
     (if i < sizenode t then
        (if \<not> ttisnil (i_val (node t ! i)) then Some (i_key (node t ! i), i_val (node t ! i))
         else next_node t (Suc i))
      else None)"
  by pat_completeness auto
termination by (relation "measure (\<lambda>(t, i). sizenode t - i)") auto

declare next_array.simps [simp del] next_node.simps [simp del]

definition luaH_next :: "lua_table \<Rightarrow> tvalue \<Rightarrow> (tvalue \<times> tvalue) option res" where
  "luaH_next t key =
     bindE (findindex t key) (\<lambda>i.
       case next_array t (nat (i + 1)) of
         Inr kv \<Rightarrow> Inr (Some kv)
       | Inl i' \<Rightarrow> Inr (next_node t (i' - sizearray t)))"

section \<open>Length\<close>

definition nil_at :: "lua_table \<Rightarrow> int \<Rightarrow> bool" where
  "nil_at t j = ttisnil (read_slot t (luaH_getnum t j))"

text \<open>The binary search for a boundary of \<open>nil\<close> between \<open>i\<close> and \<open>j\<close>, shared by both callers.\<close>

function boundary :: "(int \<Rightarrow> bool) \<Rightarrow> int \<Rightarrow> int \<Rightarrow> int" where
  "boundary isnil i j =
     (if 1 < j - i then
        let m = (i + j) div 2
        in if isnil m then boundary isnil i m else boundary isnil m j
      else i)"
  by pat_completeness auto
termination by (relation "measure (\<lambda>(p, i, j). nat (j - i))") auto

declare boundary.simps [simp del]

text \<open>
  The linear search of a table "built with bad purposes"; a table with \<open>k\<close> values has a
  nil among its first \<open>k + 1\<close> indices, so the fuel below is never used up.
\<close>

fun linear_search :: "lua_table \<Rightarrow> nat \<Rightarrow> int \<Rightarrow> int option" where
  "linear_search t 0 i = None"
| "linear_search t (Suc fuel) i = (if nil_at t i then Some (i - 1) else linear_search t fuel (i + 1))"

text \<open>
  The doubling loop: \<open>i\<close> is zero or present. \<open>j\<close> is at most \<open>MAX_INT\<close> when it is doubled,
  so the \<open>unsigned int\<close> does not wrap.
\<close>

function unbound_loop :: "lua_table \<Rightarrow> int \<Rightarrow> int \<Rightarrow> int option" where
  "unbound_loop t i j =
     (if j \<le> 0 then None
      else if \<not> nil_at t j then
        (if MAX_INT < j * 2 then linear_search t (sizearray t + length (node t) + 1) 1
         else unbound_loop t j (j * 2))
      else Some (boundary (nil_at t) i j))"
  by pat_completeness auto
termination by (relation "measure (\<lambda>(t, i, j). nat (MAX_INT + 1 - j))") (auto simp: MAX_INT_def)

declare unbound_loop.simps [simp del]

definition unbound_search :: "lua_table \<Rightarrow> int \<Rightarrow> int option" where
  "unbound_search t j = unbound_loop t j (j + 1)"

definition luaH_getn :: "lua_table \<Rightarrow> int option" where
  "luaH_getn t =
     (let j = int (sizearray t)
      in if 0 < j \<and> ttisnil (array t ! nat (j - 1)) then
           Some (boundary (\<lambda>m. ttisnil (array t ! nat (m - 1))) 0 j)
         else if is_dummy t then Some j
         else unbound_search t j)"

end
