(* ===== verification/LuaTableInv.thy ===== *)
theory LuaTableInv
  imports LuaTable
begin

text \<open>
  The invariant of the node vector of ltable.c, and how searching and the three ways to
  insert a key act on it.
\<close>

section \<open>Keys\<close>

text \<open>A key that can be stored: not nil, not NaN, not dead.\<close>

fun valid_key :: "tvalue \<Rightarrow> bool" where
  "valid_key TNil = False"
| "valid_key (TDeadKey _) = False"
| "valid_key (TNumber n) = (\<not> is_nan n)"
| "valid_key _ = True"

fun is_dead :: "tvalue \<Rightarrow> bool" where
  "is_dead (TDeadKey _) = True"
| "is_dead _ = False"

text \<open>The key a dead key was, before the collector marked it.\<close>

fun unkey :: "tvalue \<Rightarrow> tvalue" where
  "unkey (TDeadKey (GCString s)) = TString s"
| "unkey (TDeadKey (GCTable a)) = TTable a"
| "unkey (TDeadKey (GCClosure a)) = TFunction a"
| "unkey (TDeadKey (GCUdata a)) = TUserData a"
| "unkey (TDeadKey (GCThread a)) = TThread a"
| "unkey k = k"

lemma unkey_live [simp]: "\<not> is_dead k \<Longrightarrow> unkey k = k"
  by (cases k) auto

lemma valid_not_dead: "valid_key k \<Longrightarrow> \<not> is_dead k"
  by (cases k) auto

lemma valid_rawequal_refl: "valid_key k \<Longrightarrow> luaO_rawequalObj k k"
  by (cases k) (auto simp: rawequal_cases luai_numeq_refl)

lemma rawequal_valid: "luaO_rawequalObj a b \<Longrightarrow> valid_key b \<Longrightarrow> valid_key a"
  by (cases a; cases b) (auto simp: rawequal_cases luai_numeq_def luai_numisnan_iff)

lemma nan_not_rawequal: "is_nan n \<Longrightarrow> \<not> luaO_rawequalObj k (TNumber n)"
  by (cases k) (auto simp: rawequal_cases luai_numeq_def)

section \<open>Main positions\<close>

lemma hashmod_less: "hashmod (2 ^ l) n < 2 ^ l"
proof -
  let ?m = "(2 ^ l - 1 :: int) OR 1"
  have m: "0 < ?m \<and> ?m \<le> 2 ^ l"
  proof (cases l)
    case (Suc k)
    have "odd (2 ^ Suc k - 1 :: int)" by simp
    then have "?m = 2 ^ Suc k - 1"
      by (simp add: Suc or_one_eq)
    moreover have "(1::int) \<le> 2 ^ k" by simp
    then have "(1::int) < 2 ^ Suc k" unfolding power_Suc by linarith
    ultimately show ?thesis using Suc by simp
  qed simp
  then have "n mod ?m < 2 ^ l" using pos_mod_bound [of ?m n] by linarith
  moreover have "0 \<le> n mod ?m" using m by simp
  ultimately show ?thesis by (simp add: hashmod_def nat_less_iff)
qed

lemma hashpow2_less: "hashpow2 (2 ^ l) n < 2 ^ l"
  using lmod_range [OF pow2_sizeI, of n l] by (simp add: hashpow2_def nat_less_iff)

lemma main_pos_less: "main_pos (2 ^ l) k < 2 ^ l"
  by (simp add: main_pos_def hashnum_def Let_def hashmod_less hashpow2_less split: tvalue.split)

lemma main_pos_rawequal: "luaO_rawequalObj a b \<Longrightarrow> main_pos s a = main_pos s b"
  by (cases a; cases b)
    (auto simp: rawequal_cases main_pos_def hashnum_def dest: luai_numeq_add_one)

section \<open>The invariant of the nodes\<close>

definition used :: "Node list \<Rightarrow> nat \<Rightarrow> bool" where
  "used ns i \<longleftrightarrow> i < length ns \<and> i_key (ns ! i) \<noteq> TNil"

definition edges :: "Node list \<Rightarrow> (nat \<times> nat) set" where
  "edges ns = {(i, j). i < length ns \<and> gnext (ns ! i) = Some j}"

definition mpos :: "Node list \<Rightarrow> nat \<Rightarrow> nat" where
  "mpos ns i = main_pos (length ns) (unkey (i_key (ns ! i)))"

text \<open>
  Chains run through used nodes, do not merge and have an end; every used node can be
  reached from the main position of its key, which holds a key that belongs there.
\<close>

definition wf_chains :: "Node list \<Rightarrow> bool" where
  "wf_chains ns \<longleftrightarrow>
     (\<exists>l. length ns = 2 ^ l)
     \<and> (\<forall>(i, j) \<in> edges ns. used ns i \<and> used ns j)
     \<and> (\<forall>i i' j. (i, j) \<in> edges ns \<longrightarrow> (i', j) \<in> edges ns \<longrightarrow> i = i')
     \<and> (\<exists>r :: nat \<Rightarrow> nat. \<forall>(i, j) \<in> edges ns. r j < r i)
     \<and> (\<forall>j. used ns j \<longrightarrow>
          used ns (mpos ns j) \<and> mpos ns (mpos ns j) = mpos ns j \<and> (mpos ns j, j) \<in> (edges ns)\<^sup>*)"

text \<open>
  Free nodes and nodes with a dead key have no value; the keys are pairwise different and
  none is NaN.
\<close>

definition wf_keys :: "Node list \<Rightarrow> bool" where
  "wf_keys ns \<longleftrightarrow>
     (\<forall>i < length ns. i_key (ns ! i) = TNil \<or> is_dead (i_key (ns ! i)) \<longrightarrow> i_val (ns ! i) = TNil)
     \<and> (\<forall>i < length ns. \<forall>n. i_key (ns ! i) = TNumber n \<longrightarrow> \<not> is_nan n)
     \<and> (\<forall>i < length ns. \<forall>j < length ns. valid_key (i_key (ns ! i)) \<longrightarrow>
          luaO_rawequalObj (i_key (ns ! i)) (i_key (ns ! j)) \<longrightarrow> i = j)"

text \<open>The associations the nodes hold.\<close>

definition live :: "Node list \<Rightarrow> (tvalue \<times> tvalue) set" where
  "live ns = {(i_key n, i_val n) | n. n \<in> set ns \<and> i_val n \<noteq> TNil}"

subsection \<open>Walking a chain\<close>

lemma edges_finite: "finite (edges ns)" "card (edges ns) \<le> length ns"
proof -
  have "edges ns \<subseteq> (\<lambda>i. (i, the (gnext (ns ! i)))) ` {..<length ns}"
    by (auto simp: edges_def image_iff)
  then show "finite (edges ns)" and "card (edges ns) \<le> length ns"
    using surj_card_le [of "{..<length ns}" "edges ns"] finite_subset by (auto, fastforce)
qed

lemma chain_find_Some:
  assumes "chain_find P ns fuel n = Some m" "n < length ns"
    and "\<forall>(i, j) \<in> edges ns. j < length ns"
  shows "P (ns ! m) \<and> (n, m) \<in> (edges ns)\<^sup>* \<and> m < length ns"
  using assms(1,2)
proof (induction fuel arbitrary: n)
  case (Suc fuel)
  show ?case
  proof (cases "P (ns ! n)")
    case False
    with Suc.prems obtain k where k: "gnext (ns ! n) = Some k" "chain_find P ns fuel k = Some m"
      by (auto split: option.splits)
    then have "(n, k) \<in> edges ns" using Suc.prems by (simp add: edges_def)
    with assms(3) Suc.IH [OF k(2)] show ?thesis
      by (auto intro: converse_rtrancl_into_rtrancl)
  qed (use Suc.prems in auto)
qed simp

lemma chain_find_None:
  assumes "chain_find P ns fuel n = None" "k < fuel" "(n, m) \<in> edges ns ^^ k"
  shows "\<not> P (ns ! m)"
  using assms
proof (induction fuel arbitrary: n k)
  case (Suc fuel)
  show ?case
  proof (cases k)
    case 0
    with Suc.prems show ?thesis by (auto split: if_splits)
  next
    case (Suc k')
    then obtain j where "(n, j) \<in> edges ns" "(j, m) \<in> edges ns ^^ k'"
      using Suc.prems(3) relpow_Suc_D2 by metis
    moreover from this have "gnext (ns ! n) = Some j" by (simp add: edges_def)
    moreover have "chain_find P ns fuel j = None \<Longrightarrow> \<not> P (ns ! m)"
      using Suc.IH [of j k'] Suc Suc.prems(2) calculation(2) by auto
    ultimately show ?thesis using Suc.prems(1) by (auto split: if_splits)
  qed
qed simp

text \<open>So the walk finds exactly the nodes of the chain that fit.\<close>

lemma chain_find_complete:
  assumes "(n, m) \<in> (edges ns)\<^sup>*" "P (ns ! m)"
  shows "chain_find P ns (Suc (length ns)) n \<noteq> None"
proof
  assume none: "chain_find P ns (Suc (length ns)) n = None"
  from assms(1) obtain k where "k \<le> card (edges ns)" "(n, m) \<in> edges ns ^^ k"
    using rtrancl_finite_eq_relpow [OF edges_finite(1)] by auto
  with chain_find_None [OF none, of k] edges_finite(2) [of ns] assms(2) show False by force
qed

lemma find_prev_complete:
  assumes "(x, mp) \<in> edges ns ^^ Suc k" "k < fuel"
  shows "\<exists>p. find_prev ns fuel mp x = Some p \<and> (p, mp) \<in> edges ns"
  using assms
proof (induction fuel arbitrary: x k)
  case (Suc fuel)
  from Suc.prems(1) obtain j where j: "(x, j) \<in> edges ns" "(j, mp) \<in> edges ns ^^ k"
    using relpow_Suc_D2 by metis
  show ?case
  proof (cases "j = mp")
    case True
    with j(1) show ?thesis by (simp add: edges_def)
  next
    case False
    with j(2) obtain k' where "k = Suc k'" by (cases k) auto
    with Suc.IH [of j k'] Suc.prems(2) j False show ?thesis by (auto simp: edges_def)
  qed
qed simp

lemma find_prev_reach:
  assumes "(x, mp) \<in> (edges ns)\<^sup>*" "x \<noteq> mp"
  shows "\<exists>p. find_prev ns (Suc (length ns)) mp x = Some p \<and> (p, mp) \<in> edges ns"
proof -
  from assms(1) obtain k where k: "k \<le> card (edges ns)" "(x, mp) \<in> edges ns ^^ k"
    using rtrancl_finite_eq_relpow [OF edges_finite(1)] by auto
  with assms(2) obtain k' where "k = Suc k'" by (cases k) auto
  with k edges_finite(2) [of ns] show ?thesis
    by (intro find_prev_complete [where k = k']) auto
qed

subsection \<open>Lookup\<close>

lemma wf_chainsD:
  assumes "wf_chains ns"
  shows "(i, j) \<in> edges ns \<Longrightarrow> used ns i"
    and "(i, j) \<in> edges ns \<Longrightarrow> used ns j"
    and "(i, j) \<in> edges ns \<Longrightarrow> (i', j) \<in> edges ns \<Longrightarrow> i = i'"
    and "(i, i) \<notin> edges ns"
    and "used ns j \<Longrightarrow> used ns (mpos ns j)"
    and "used ns j \<Longrightarrow> mpos ns (mpos ns j) = mpos ns j"
    and "used ns j \<Longrightarrow> (mpos ns j, j) \<in> (edges ns)\<^sup>*"
  using assms unfolding wf_chains_def by (blast, blast, blast, force, blast, blast, blast)

lemma wf_chains_length: "wf_chains ns \<Longrightarrow> main_pos (length ns) k < length ns"
  unfolding wf_chains_def using main_pos_less by metis

text \<open>
  A search from the main position of a valid key finds the node with that key, wherever it
  is in the chain.
\<close>

lemma chain_find_iff:
  assumes w: "wf_chains ns" "wf_keys ns" and k: "valid_key k"
    and P: "\<And>n. n \<in> set ns \<Longrightarrow> P n \<longleftrightarrow> luaO_rawequalObj (i_key n) k"
    and m: "m = main_pos (length ns) k"
  shows "chain_find P ns (Suc (length ns)) m = Some i
    \<longleftrightarrow> i < length ns \<and> luaO_rawequalObj (i_key (ns ! i)) k"
proof
  assume "chain_find P ns (Suc (length ns)) m = Some i"
  moreover have "m < length ns" using w m by (simp add: wf_chains_length)
  moreover have "\<forall>(i, j) \<in> edges ns. j < length ns"
    using wf_chainsD(2) [OF w(1)] by (auto simp: used_def)
  ultimately show "i < length ns \<and> luaO_rawequalObj (i_key (ns ! i)) k"
    using chain_find_Some P by (metis nth_mem)
next
  assume i: "i < length ns \<and> luaO_rawequalObj (i_key (ns ! i)) k"
  then have vi: "valid_key (i_key (ns ! i))" using k rawequal_valid by blast
  then have "used ns i" using i by (auto simp: used_def)
  moreover have "mpos ns i = m"
    using i vi m by (simp add: mpos_def valid_not_dead main_pos_rawequal)
  ultimately have r: "(m, i) \<in> (edges ns)\<^sup>*" using wf_chainsD(7) [OF w(1)] by metis
  from i P have "P (ns ! i)" by simp
  with r chain_find_complete obtain j
    where j: "chain_find P ns (Suc (length ns)) m = Some j" by blast
  moreover have "m < length ns" using w m by (simp add: wf_chains_length)
  moreover have "\<forall>(i, j) \<in> edges ns. j < length ns"
    using wf_chainsD(2) [OF w(1)] by (auto simp: used_def)
  ultimately have "j < length ns" "luaO_rawequalObj (i_key (ns ! j)) k"
    using chain_find_Some P by (metis nth_mem)+
  moreover from this i have "luaO_rawequalObj (i_key (ns ! i)) (i_key (ns ! j))"
    by (metis rawequal_sym rawequal_trans)
  ultimately have "i = j" using w(2) i vi unfolding wf_keys_def by blast
  with j show "chain_find P ns (Suc (length ns)) m = Some i" by simp
qed

subsection \<open>Insertion\<close>

text \<open>The key is in no node yet.\<close>

definition absent :: "Node list \<Rightarrow> tvalue \<Rightarrow> bool" where
  "absent ns k \<longleftrightarrow> (\<forall>i < length ns. \<not> luaO_rawequalObj (i_key (ns ! i)) k)"

lemma wf_keysD:
  assumes "wf_keys ns" "i < length ns"
  shows "i_key (ns ! i) = TNil \<Longrightarrow> i_val (ns ! i) = TNil"
    and "is_dead (i_key (ns ! i)) \<Longrightarrow> i_val (ns ! i) = TNil"
  using assms by (auto simp: wf_keys_def)

text \<open>
  All three ways to insert end with a vector that agrees with the old one on the keys and
  values of a permutation of the nodes, but for the node that gets the key.
\<close>

lemma wf_keys_insert:
  assumes w: "wf_keys ns" and k: "valid_key k" "absent ns k"
    and len: "length ns' = length ns" and p: "p < length ns"
    and new: "i_key (ns' ! p) = k" "i_val (ns' ! p) = TNil"
    and old: "\<And>i. i < length ns \<Longrightarrow> i \<noteq> p \<Longrightarrow> f i < length ns \<and>
      i_key (ns' ! i) = i_key (ns ! f i) \<and> i_val (ns' ! i) = i_val (ns ! f i)"
    and inj: "inj_on f ({..<length ns} - {p})"
  shows "wf_keys ns'"
proof -
  have ne: "\<not> luaO_rawequalObj (i_key (ns' ! i)) k" "\<not> luaO_rawequalObj k (i_key (ns' ! i))"
    if "i < length ns" "i \<noteq> p" for i
    using k(2) old [OF that] rawequal_sym unfolding absent_def by metis+
  have kn: "k \<noteq> TNil" "\<not> is_dead k" "\<And>n. k = TNumber n \<Longrightarrow> \<not> is_nan n"
    using k(1) by (cases k; auto)+
  show ?thesis
    unfolding wf_keys_def len
  proof (intro conjI allI impI)
    fix i assume "i < length ns" "i_key (ns' ! i) = TNil \<or> is_dead (i_key (ns' ! i))"
    then show "i_val (ns' ! i) = TNil"
      using w old [of i] new kn by (cases "i = p") (auto simp: wf_keys_def)
  next
    fix i n assume "i < length ns" "i_key (ns' ! i) = TNumber n"
    then show "\<not> is_nan n"
      using w old [of i] new kn by (cases "i = p") (auto simp: wf_keys_def)
  next
    fix i j assume ij: "i < length ns" "j < length ns" and v: "valid_key (i_key (ns' ! i))"
      and e: "luaO_rawequalObj (i_key (ns' ! i)) (i_key (ns' ! j))"
    show "i = j"
    proof (cases "i = p \<or> j = p")
      case True
      with e ne ij new show ?thesis by metis
    next
      case False
      with ij old [of i] old [of j] v e w have "f i = f j" by (auto simp: wf_keys_def)
      with inj ij False show ?thesis by (auto dest: inj_onD)
    qed
  qed
qed

lemma live_alt: "live ns = {(i_key (ns ! i), i_val (ns ! i)) | i. i < length ns \<and> i_val (ns ! i) \<noteq> TNil}"
  unfolding live_def by (force simp: in_set_conv_nth)

text \<open>The key takes over its main position, free or with a key that has no value.\<close>

lemma insert_at_main:
  assumes w: "wf_chains ns" "wf_keys ns" and k: "valid_key k" "absent ns k"
    and m: "m = main_pos (length ns) k" and nil: "i_val (ns ! m) = TNil"
    and ns': "ns' = ns[m := (ns ! m)\<lparr>i_key := k\<rparr>]"
  shows "wf_chains ns'" and "wf_keys ns'" and "live ns' = live ns"
    and "used ns' i \<longleftrightarrow> used ns i \<or> i = m"
proof -
  have ml: "m < length ns" using w m by (simp add: wf_chains_length)
  have kn: "k \<noteq> TNil" "unkey k = k" using k(1) by (auto simp: valid_not_dead)
  have nth: "ns' ! i = (if i = m then (ns ! m)\<lparr>i_key := k\<rparr> else ns ! i)" if "i < length ns" for i
    using that ml by (simp add: ns')
  have len [simp]: "length ns' = length ns" by (simp add: ns')
  have E: "edges ns' = edges ns" using nth ml by (auto simp: edges_def split: if_splits)
  show U: "used ns' i \<longleftrightarrow> used ns i \<or> i = m" for i
    using nth [of i] ml kn by (auto simp: used_def split: if_splits)
  have M: "mpos ns' i = (if i = m then m else mpos ns i)" if "i < length ns" for i
    using that kn m by (simp add: mpos_def nth)
  have u: "used ns i \<Longrightarrow> i < length ns" for i by (simp add: used_def)
  show "wf_chains ns'"
    unfolding wf_chains_def E
  proof (intro conjI allI impI)
    fix j assume "used ns' j"
    with U have j: "j = m \<or> used ns j" by blast
    show "used ns' (mpos ns' j)"
      using j M [OF ml] M [OF u] wf_chainsD(5) [OF w(1)] U by metis
    show "mpos ns' (mpos ns' j) = mpos ns' j"
      using j M [OF ml] M [OF u] wf_chainsD(5,6) [OF w(1)] by metis
    show "(mpos ns' j, j) \<in> (edges ns)\<^sup>*"
      using j M [OF ml] M [OF u] wf_chainsD(7) [OF w(1)] by (metis rtrancl.rtrancl_refl)
  qed (use w(1) U in \<open>auto simp: wf_chains_def\<close>)
  show "wf_keys ns'"
    by (rule wf_keys_insert [where f = id and p = m, OF w(2) k len ml])
       (simp_all add: nth ml nil)
  show "live ns' = live ns"
    unfolding live_alt len
    by (rule Collect_cong, rule ex_cong1) (auto simp: nth nil split: if_splits)
qed

text \<open>The key goes to a free node, chained behind the node in its main position.\<close>

lemma insert_chained:
  assumes w: "wf_chains ns" "wf_keys ns" and k: "valid_key k" "absent ns k"
    and m: "m = main_pos (length ns) k" and um: "used ns m" "mpos ns m = m"
    and n: "n < length ns" "\<not> used ns n"
    and ns': "ns' = (chain_free ns m n)[n := (chain_free ns m n ! n)\<lparr>i_key := k\<rparr>]"
  shows "wf_chains ns'" and "wf_keys ns'" and "live ns' = live ns"
    and "used ns' i \<longleftrightarrow> used ns i \<or> i = n"
    and "i_val (ns' ! n) = TNil" and "length ns' = length ns"
proof -
  have ml: "m < length ns" and nm: "n \<noteq> m" using um n by (auto simp: used_def)
  have kn: "k \<noteq> TNil" "unkey k = k" using k(1) by (auto simp: valid_not_dead)
  have nk: "i_key (ns ! n) = TNil" using n by (simp add: used_def)
  then have nv: "i_val (ns ! n) = TNil" using wf_keysD(1) [OF w(2) n(1)] by simp
  have len: "length ns' = length ns" by (simp add: ns' chain_free_def Let_def)
  have nth: "ns' ! i = (if i = n then \<lparr>i_val = TNil, i_key = k, gnext = gnext (ns ! m)\<rparr>
      else if i = m then (ns ! m)\<lparr>gnext := Some n\<rparr> else ns ! i)" if "i < length ns" for i
    using that ml n nm nv by (auto simp: ns' chain_free_def Let_def nth_list_update)
  have no: "(i, n) \<notin> edges ns" "(n, i) \<notin> edges ns" for i
    using wf_chainsD(1,2) [OF w(1)] n by blast+
  have nn: "gnext (ns ! n) = None" using no(2) n by (cases "gnext (ns ! n)") (auto simp: edges_def)
  have E: "edges ns' = {(i, j) \<in> edges ns. i \<noteq> m} \<union> {(m, n)} \<union> {(n, j) | j. (m, j) \<in> edges ns}"
    using nn n ml nm by (auto simp: edges_def len nth split: if_splits)
  have U: "used ns' i \<longleftrightarrow> used ns i \<or> i = n" for i
    using ml n kn um nth [of i] by (auto simp: used_def len split: if_splits)
  have M: "mpos ns' i = (if i = n then m else mpos ns i)" if "i < length ns" for i
    using that kn m by (simp add: mpos_def nth len)
  have u: "used ns i \<Longrightarrow> i < length ns" for i by (simp add: used_def)
  have sub: "edges ns \<subseteq> (edges ns')\<^sup>*"
  proof (clarify)
    fix i j assume ij: "(i, j) \<in> edges ns"
    show "(i, j) \<in> (edges ns')\<^sup>*"
    proof (cases "i = m")
      case True
      with ij have "(m, n) \<in> edges ns'" "(n, j) \<in> edges ns'" by (auto simp: E)
      with True show ?thesis by (metis r_into_rtrancl rtrancl_into_rtrancl)
    qed (use ij in \<open>auto simp: E\<close>)
  qed
  have R: "(i, j) \<in> (edges ns)\<^sup>* \<Longrightarrow> (i, j) \<in> (edges ns')\<^sup>*" for i j
    using rtrancl_mono [OF sub] by auto
  obtain r :: "nat \<Rightarrow> nat" where r: "\<And>i j. (i, j) \<in> edges ns \<Longrightarrow> r j < r i"
    using w(1) unfolding wf_chains_def by blast
  show "wf_chains ns'"
    unfolding wf_chains_def
  proof (intro conjI allI impI)
    show "\<exists>l. length ns' = 2 ^ l" using w(1) len by (simp add: wf_chains_def)
    show "\<forall>(i, j) \<in> edges ns'. used ns' i \<and> used ns' j"
      using wf_chainsD(1,2) [OF w(1)] um by (auto simp: E U)
    show "i = i'" if "(i, j) \<in> edges ns'" "(i', j) \<in> edges ns'" for i i' j
      using that no wf_chainsD(3) [OF w(1)] by (auto simp: E)
    define r' where "r' i = (if i = n then 3 * r m + 1 else if i = m then 3 * r m + 2 else 3 * r i)" for i
    have old: "r' j < r' i" if "(i, j) \<in> edges ns" "i \<noteq> m" for i j
      using r [OF that(1)] that no by (auto simp: r'_def)
    have new: "r' j < r' n" if "(m, j) \<in> edges ns" for j
      using r [OF that] that no wf_chainsD(4) [OF w(1)] by (auto simp: r'_def)
    have "r' n < r' m" using nm by (simp add: r'_def)
    with old new have "\<forall>(i, j) \<in> edges ns'. r' j < r' i" by (auto simp: E)
    then show "\<exists>r :: nat \<Rightarrow> nat. \<forall>(i, j) \<in> edges ns'. r j < r i" by blast
  next
    fix j assume "used ns' j"
    with U have j: "j = n \<or> used ns j" by blast
    show "used ns' (mpos ns' j)"
      using j M [OF n(1)] M [OF u] wf_chainsD(5) [OF w(1)] U um by metis
    show "mpos ns' (mpos ns' j) = mpos ns' j"
      using j M [OF n(1)] M [OF u] wf_chainsD(5,6) [OF w(1)] um n by metis
    have "(m, n) \<in> edges ns'" by (simp add: E)
    then show "(mpos ns' j, j) \<in> (edges ns')\<^sup>*"
      using j M [OF n(1)] M [OF u] R [OF wf_chainsD(7) [OF w(1)]] n by (metis r_into_rtrancl)
  qed
  show "used ns' i \<longleftrightarrow> used ns i \<or> i = n" by (rule U)
  show "i_val (ns' ! n) = TNil" using n by (simp add: nth)
  show "length ns' = length ns" by (rule len)
  show "wf_keys ns'"
    by (rule wf_keys_insert [where f = id and p = n, OF w(2) k len n(1)])
       (auto simp: nth n)
  show "live ns' = live ns"
    unfolding live_alt len
    by (rule Collect_cong, rule ex_cong1) (auto simp: nth nv split: if_splits)
qed

text \<open>
  The node in the main position belongs elsewhere: it moves to a free node, the chain is
  redone, and the key gets its main position.
\<close>

lemma rtrancl_image:
  "(i, j) \<in> E\<^sup>* \<Longrightarrow> (f i, f j) \<in> {(f x, f y) | x y. (x, y) \<in> E}\<^sup>*"
  by (induction rule: rtrancl_induct) (auto intro: rtrancl_into_rtrancl)

definition moved :: "Node list \<Rightarrow> nat \<Rightarrow> nat \<Rightarrow> tvalue \<Rightarrow> Node list \<Rightarrow> bool" where
  "moved ns m n k ns' \<longleftrightarrow>
     length ns' = length ns
     \<and> (\<forall>i < length ns. ns' ! i =
          (if i = m then \<lparr>i_val = TNil, i_key = k, gnext = None\<rparr>
           else if i = n then ns ! m
           else if gnext (ns ! i) = Some m then (ns ! i)\<lparr>gnext := Some n\<rparr> else ns ! i))"

definition ren :: "nat \<Rightarrow> nat \<Rightarrow> nat \<Rightarrow> nat" where
  "ren m n i = (if i = m then n else i)"

lemma move_colliding_moved:
  assumes w: "wf_chains ns" and um: "used ns m" "mpos ns m \<noteq> m"
    and n: "n < length ns" "\<not> used ns n"
  obtains ns1 where "move_colliding ns m (mpos ns m) n = Some ns1"
    and "moved ns m n k (ns1[m := (ns1 ! m)\<lparr>i_key := k\<rparr>])"
    and "i_val (ns1 ! m) = TNil" and "length ns1 = length ns"
proof -
  obtain p where p: "find_prev ns (Suc (length ns)) m (mpos ns m) = Some p" "(p, m) \<in> edges ns"
    using find_prev_reach [OF wf_chainsD(7) [OF w um(1)] um(2)] by blast
  define ns1 where "ns1 = (let ns1 = ns[p := (ns ! p)\<lparr>gnext := Some n\<rparr>]; ns2 = ns1[n := ns1 ! m]
    in ns2[m := (ns2 ! m)\<lparr>gnext := None, i_val := TNil\<rparr>])"
  have mv: "move_colliding ns m (mpos ns m) n = Some ns1"
    unfolding move_colliding_def p(1) ns1_def Let_def by simp
  have ml: "m < length ns" "n \<noteq> m" using um n by (auto simp: used_def)
  have pl: "p < length ns" "p \<noteq> m" "p \<noteq> n" "gnext (ns ! p) = Some m"
    using p(2) wf_chainsD(1,4) [OF w] n by (auto simp: edges_def)
  have only: "gnext (ns ! i) = Some m \<longleftrightarrow> i = p" if "i < length ns" for i
    using wf_chainsD(3) [OF w _ p(2), of i] that pl by (auto simp: edges_def)
  have len: "length ns1 = length ns" by (simp add: ns1_def Let_def)
  moreover have "moved ns m n k (ns1[m := (ns1 ! m)\<lparr>i_key := k\<rparr>])"
    unfolding moved_def using ml pl n
    by (simp add: len only, simp add: ns1_def Let_def nth_list_update)
  moreover have "i_val (ns1 ! m) = TNil" using ml by (simp add: ns1_def Let_def nth_list_update)
  ultimately show ?thesis using that mv by blast
qed

lemma unused_no_edges:
  assumes "wf_chains ns" "\<not> used ns n" "n < length ns"
  shows "(i, n) \<notin> edges ns" "(n, i) \<notin> edges ns" "gnext (ns ! n) = None"
  using wf_chainsD(1,2) [OF assms(1)] assms(2,3) by (blast, blast, cases "gnext (ns ! n)") (auto simp: edges_def)

lemma moved_edges:
  assumes w: "wf_chains ns" and m: "used ns m" and n: "n < length ns" "\<not> used ns n"
    and mv: "moved ns m n k ns'"
  shows "edges ns' = {(ren m n x, ren m n y) | x y. (x, y) \<in> edges ns}"
proof -
  have nth: "i < length ns \<Longrightarrow> ns' ! i =
      (if i = m then \<lparr>i_val = TNil, i_key = k, gnext = None\<rparr> else if i = n then ns ! m
       else if gnext (ns ! i) = Some m then (ns ! i)\<lparr>gnext := Some n\<rparr> else ns ! i)" for i
    using mv by (auto simp: moved_def)
  have len: "length ns' = length ns" using mv by (simp add: moved_def)
  have ml: "m < length ns" "n \<noteq> m" using m n by (auto simp: used_def)
  have nn: "gnext (ns ! n) = None" by (rule unused_no_edges(3) [OF w n(2,1)])
  have to_n: "gnext (ns ! x) \<noteq> Some n" if "x < length ns" for x
    using unused_no_edges(1) [OF w n(2,1), of x] that by (simp add: edges_def)
  have sl: "gnext (ns ! m) \<noteq> Some m" using wf_chainsD(4) [OF w, of m] ml by (simp add: edges_def)
  have "(\<exists>x y. a = ren m n x \<and> b = ren m n y \<and> x < length ns \<and> gnext (ns ! x) = Some y)
      \<longleftrightarrow> a < length ns \<and> gnext (ns' ! a) = Some b" for a b
  proof
    assume "\<exists>x y. a = ren m n x \<and> b = ren m n y \<and> x < length ns \<and> gnext (ns ! x) = Some y"
    then obtain x y where x: "a = ren m n x" "b = ren m n y" "x < length ns" "gnext (ns ! x) = Some y"
      by blast
    with nn sl n ml show "a < length ns \<and> gnext (ns' ! a) = Some b"
      by (cases "x = m"; cases "x = n"; cases "y = m") (auto simp: nth ren_def)
  next
    assume ab: "a < length ns \<and> gnext (ns' ! a) = Some b"
    define x where "x = (if a = n then m else a)"
    define y where "y = (if b = n then (if gnext (ns ! x) = Some m then m else b) else b)"
    have "x < length ns" using ab ml by (simp add: x_def)
    with ab sl ml to_n [of x] have "a = ren m n x \<and> b = ren m n y \<and> gnext (ns ! x) = Some y"
      by (auto simp: nth x_def y_def ren_def split: if_splits)
    with \<open>x < length ns\<close>
    show "\<exists>x y. a = ren m n x \<and> b = ren m n y \<and> x < length ns \<and> gnext (ns ! x) = Some y" by blast
  qed
  then show ?thesis unfolding edges_def len by auto
qed

lemma moved_used:
  assumes "moved ns m n k ns'" "used ns m" "n < length ns" "k \<noteq> TNil"
  shows "used ns' i \<longleftrightarrow> used ns i \<or> i = n"
  using assms by (cases "i < length ns") (auto simp: moved_def used_def split: if_splits)

lemma moved_chains:
  assumes w: "wf_chains ns" and k: "valid_key k" and m: "m = main_pos (length ns) k"
    and um: "used ns m" "mpos ns m \<noteq> m" and n: "n < length ns" "\<not> used ns n"
    and mv: "moved ns m n k ns'"
  shows "wf_chains ns'"
  unfolding wf_chains_def
proof (intro conjI allI impI)
  have kn: "k \<noteq> TNil" "unkey k = k" using k by (auto simp: valid_not_dead)
  note E = moved_edges [OF w um(1) n mv] and U = moved_used [OF mv um(1) n(1) kn(1)]
  have len: "length ns' = length ns" using mv by (simp add: moved_def)
  have M: "mpos ns' i = (if i = m then m else if i = n then mpos ns m else mpos ns i)" if "i < length ns" for i
    using that kn m mv by (simp add: mpos_def moved_def)
  have u: "used ns i \<Longrightarrow> i < length ns" for i by (simp add: used_def)
  have rinj: "ren m n x = ren m n y \<Longrightarrow> used ns x \<Longrightarrow> used ns y \<Longrightarrow> x = y" for x y
    using n by (auto simp: ren_def split: if_splits)
  have mm: "mpos ns j \<noteq> m" if "used ns j" for j
    using wf_chainsD(6) [OF w that] um(2) by metis
  show "\<exists>l. length ns' = 2 ^ l" using w len by (simp add: wf_chains_def)
  show "\<forall>(i, j) \<in> edges ns'. used ns' i \<and> used ns' j"
    using wf_chainsD(1,2) [OF w] U by (auto simp: E ren_def)
  show "i = i'" if ii: "(i, j) \<in> edges ns'" "(i', j) \<in> edges ns'" for i i' j
  proof -
    from ii obtain x y x' y' where x: "i = ren m n x" "j = ren m n y" "(x, y) \<in> edges ns"
      "i' = ren m n x'" "j = ren m n y'" "(x', y') \<in> edges ns" unfolding E by blast
    with rinj wf_chainsD(2) [OF w] have "y = y'" by metis
    with x wf_chainsD(3) [OF w] show ?thesis by metis
  qed
  obtain r :: "nat \<Rightarrow> nat" where r: "\<And>i j. (i, j) \<in> edges ns \<Longrightarrow> r j < r i"
    using w unfolding wf_chains_def by blast
  have "\<forall>(i, j) \<in> edges ns'. r (if j = n then m else j) < r (if i = n then m else i)"
    unfolding E using r unused_no_edges [OF w n(2,1)] by (auto simp: ren_def)
  then show "\<exists>r :: nat \<Rightarrow> nat. \<forall>(i, j) \<in> edges ns'. r j < r i"
    by (intro exI [of _ "\<lambda>i. r (if i = n then m else i)"]) simp
  fix j assume "used ns' j"
  with U have j: "j = n \<or> used ns j" by blast
  show "used ns' (mpos ns' j)"
    using j M [OF n(1)] M [OF u] wf_chainsD(5) [OF w] U um by metis
  show "mpos ns' (mpos ns' j) = mpos ns' j"
    using j M [OF n(1)] M [OF u] wf_chainsD(5,6) [OF w] um n mm by metis
  show "(mpos ns' j, j) \<in> (edges ns')\<^sup>*"
  proof (cases "j = m")
    case True
    with M [OF u, OF um(1)] show ?thesis by simp
  next
    case jm: False
    define j0 where "j0 = (if j = n then m else j)"
    have "used ns j0" "ren m n j0 = j" using j jm um by (auto simp: j0_def ren_def)
    moreover have "mpos ns' j = mpos ns j0" using j jm M [OF u] M [OF n(1)] n um by (auto simp: j0_def)
    moreover have "ren m n (mpos ns j0) = mpos ns j0" using mm [OF calculation(1)] by (simp add: ren_def)
    ultimately show ?thesis
      using rtrancl_image [OF wf_chainsD(7) [OF w], of j0 "ren m n"] E by metis
  qed
qed

lemma moved_live:
  assumes w: "wf_keys ns" and m: "used ns m" and n: "n < length ns" "\<not> used ns n"
    and mv: "moved ns m n k ns'"
  shows "live ns' = live ns"
proof (rule set_eqI)
  have ml: "m < length ns" "n \<noteq> m" using m n by (auto simp: used_def)
  have nv: "i_val (ns ! n) = TNil" using wf_keysD(1) [OF w n(1)] n by (simp add: used_def)
  have len: "length ns' = length ns" using mv by (simp add: moved_def)
  have at: "i < length ns \<Longrightarrow> i \<noteq> m \<Longrightarrow> i_val (ns' ! i) = i_val (ns ! (if i = n then m else i))
      \<and> i_key (ns' ! i) = i_key (ns ! (if i = n then m else i))" for i
    using mv by (auto simp: moved_def)
  have nm: "i_val (ns' ! m) = TNil" using ml mv by (simp add: moved_def)
  fix kv
  show "kv \<in> live ns' \<longleftrightarrow> kv \<in> live ns"
  proof
    assume "kv \<in> live ns'"
    then obtain i where i: "i < length ns" "i_val (ns' ! i) \<noteq> TNil" "kv = (i_key (ns' ! i), i_val (ns' ! i))"
      unfolding live_alt len by auto
    with nm at [of i] ml show "kv \<in> live ns"
      unfolding live_alt by (cases "i = m") (auto intro: exI [of _ "if i = n then m else i"])
  next
    assume "kv \<in> live ns"
    then obtain i where i: "i < length ns" "i_val (ns ! i) \<noteq> TNil" "kv = (i_key (ns ! i), i_val (ns ! i))"
      unfolding live_alt by auto
    have "i \<noteq> n" using nv i(2) by auto
    with i at [of "ren m n i"] ml n have "ren m n i < length ns \<and> i_val (ns' ! ren m n i) = i_val (ns ! i)
        \<and> i_key (ns' ! ren m n i) = i_key (ns ! i)" by (auto simp: ren_def)
    with i show "kv \<in> live ns'" unfolding live_alt len by force
  qed
qed

lemma insert_moving:
  assumes w: "wf_chains ns" "wf_keys ns" and k: "valid_key k" "absent ns k"
    and m: "m = main_pos (length ns) k" and um: "used ns m" "mpos ns m \<noteq> m"
    and n: "n < length ns" "\<not> used ns n"
  obtains ns1 where "move_colliding ns m (mpos ns m) n = Some ns1"
    and "wf_chains (ns1[m := (ns1 ! m)\<lparr>i_key := k\<rparr>])"
    and "wf_keys (ns1[m := (ns1 ! m)\<lparr>i_key := k\<rparr>])"
    and "live (ns1[m := (ns1 ! m)\<lparr>i_key := k\<rparr>]) = live ns"
    and "\<And>i. used (ns1[m := (ns1 ! m)\<lparr>i_key := k\<rparr>]) i \<longleftrightarrow> used ns i \<or> i = n"
    and "i_val (ns1 ! m) = TNil" and "length ns1 = length ns"
proof -
  obtain ns1 where 1: "move_colliding ns m (mpos ns m) n = Some ns1"
    and mv: "moved ns m n k (ns1[m := (ns1 ! m)\<lparr>i_key := k\<rparr>])" (is "moved _ _ _ _ ?ns'")
    and v: "i_val (ns1 ! m) = TNil" "length ns1 = length ns"
    using move_colliding_moved [OF w(1) um n] by blast
  have ml: "m < length ns" "n \<noteq> m" using um n by (auto simp: used_def)
  have "wf_keys ?ns'"
    by (rule wf_keys_insert [where f = "\<lambda>i. if i = n then m else i" and p = m, OF w(2) k])
       (use mv ml v in \<open>auto simp: moved_def inj_on_def\<close>)
  moreover have "k \<noteq> TNil" using k(1) by auto
  ultimately show ?thesis
    using that [OF 1] moved_chains [OF w(1) k(1) m um n mv] moved_live [OF w(2) um(1) n mv]
      moved_used [OF mv um(1) n(1)] v by blast
qed

end
