(* ===== verification/LuaTableMap.thy ===== *)
theory LuaTableMap
  imports LuaTableInv
begin

text \<open>
  The table as a map: the invariant of the whole table, \<open>tget\<close> as its abstraction, and the
  theorems that \<open>luaH_set\<close> and \<open>rehash\<close> keep the invariant and change only the value stored.
\<close>

section \<open>The invariant of a table\<close>

definition in_array :: "lua_table \<Rightarrow> tvalue \<Rightarrow> bool" where
  "in_array t k \<longleftrightarrow> 0 < arrayindex k \<and> arrayindex k \<le> int (sizearray t)"

definition wf_table :: "lua_table \<Rightarrow> bool" where
  "wf_table t \<longleftrightarrow>
     length (node t) = 2 ^ lsizenode t \<and> lsizenode t \<le> MAXBITS
     \<and> sizearray t \<le> length (array t) \<and> sizearray t \<le> 2 ^ MAXBITS
     \<and> wf_chains (node t) \<and> wf_keys (node t)
     \<and> (\<forall>i. used (node t) i \<longrightarrow> \<not> in_array t (i_key (node t ! i)))
     \<and> (if is_dummy t then node t = [empty_node] \<and> lastfree t \<le> 0
        else lastfree t \<le> int (length (node t))
          \<and> (\<forall>i < length (node t). lastfree t \<le> int i \<longrightarrow> used (node t) i))"

text \<open>The value of a key.\<close>

definition tget :: "lua_table \<Rightarrow> tvalue \<Rightarrow> tvalue" where
  "tget t k = read_slot t (luaH_get t k)"

lemma wf_tableD:
  assumes "wf_table t"
  shows "wf_chains (node t)" "wf_keys (node t)" "sizenode t = length (node t)"
    "sizearray t \<le> length (array t)" "sizearray t \<le> 67108864"
    "used (node t) i \<Longrightarrow> \<not> in_array t (i_key (node t ! i))"
    "is_dummy t \<Longrightarrow> node t = [empty_node]"
  using assms by (auto simp: wf_table_def sizenode_def split: if_splits)

section \<open>Lookup\<close>

lemma arrayindex_range: "arrayindex k \<le> INT_MAX" "INT_MIN \<le> arrayindex k"
  by (auto simp: arrayindex_def lua_number2int_def Let_def split: tvalue.split option.split)

lemma arrayindex_rawequal:
  assumes "luaO_rawequalObj a b"
  shows "arrayindex a = arrayindex b"
proof (cases a)
  case (TNumber n)
  with assms obtain m where b: "b = TNumber m" "luai_numeq n m"
    by (cases b) (auto simp: rawequal_cases)
  have "n = m \<or> num_mag n = 0 \<and> num_mag m = 0"
    using b(2) num_key_eqD by (simp add: luai_numeq_def)
  moreover have "arrayindex (TNumber 0) = arrayindex (TNumber 9223372036854775808)" by code_simp
  ultimately show ?thesis using TNumber b(1) by (metis num_zero_cases)
qed (use assms in \<open>cases b; auto simp: rawequal_cases\<close>)+

lemma luaH_getnum_eq:
  assumes "sizearray t \<le> 67108864" "INT_MIN \<le> k" "k \<le> INT_MAX"
  shows "luaH_getnum t k =
    (if 0 < k \<and> k \<le> int (sizearray t) then Some (SArray (nat (k - 1)))
     else search (\<lambda>n. case i_key n of TNumber m \<Rightarrow> luai_numeq m (cast_num k) | _ \<Rightarrow> False) t
            (hashnum (sizenode t) (cast_num k)))"
proof -
  have "(k - 1) mod 4294967296 = (if 1 \<le> k then k - 1 else k + 4294967295)"
  proof (cases "1 \<le> k")
    case False
    have "(k - 1) mod 4294967296 = (k - 1 + 4294967296) mod 4294967296" by (rule mod_add_self2 [symmetric])
    also have "\<dots> = k - 1 + 4294967296" by (rule mod_pos_pos_trivial) (use False assms in linarith)+
    finally show ?thesis using False by simp
  qed (use assms in \<open>simp add: mod_pos_pos_trivial\<close>)
  then show ?thesis using assms by (auto simp: luaH_getnum_def Let_def)
qed

text \<open>The generic search and the ones specialised to a type of keys agree.\<close>

lemma luaH_get_eq:
  assumes "wf_table t" "valid_key k"
  shows "luaH_get t k =
    (if in_array t k then Some (SArray (nat (arrayindex k - 1)))
     else map_option SNode (chain_find (\<lambda>n. luaO_rawequalObj (i_key n) k) (node t)
            (Suc (length (node t))) (main_pos (length (node t)) k)))"
proof (cases k)
  case (TNumber n)
  let ?k = "lua_number2int n"
  have eqf: "(case a of TNumber m \<Rightarrow> luai_numeq m x | _ \<Rightarrow> False) = luaO_rawequalObj a (TNumber x)" for a x
    by (cases a) (auto simp: rawequal_cases)
  show ?thesis
  proof (cases "luai_numeq (cast_num ?k) n")
    case True
    then have "luaO_rawequalObj (TNumber (cast_num ?k)) k" using TNumber by (simp add: rawequal_cases)
    then have "luaO_rawequalObj a (TNumber (cast_num ?k)) = luaO_rawequalObj a k"
      "main_pos s (TNumber (cast_num ?k)) = main_pos s k" for a s
      using rawequal_trans rawequal_sym main_pos_rawequal by metis+
    moreover have "INT_MIN \<le> ?k" "?k \<le> INT_MAX"
      by (auto simp: lua_number2int_def split: option.split)
    moreover have "arrayindex k = ?k" using True TNumber by (simp add: arrayindex_def)
    moreover have "main_pos s (TNumber x) = hashnum s x" for s x by (simp add: main_pos_def)
    ultimately show ?thesis
      using True TNumber wf_tableD(3,5) [OF assms(1)]
      by (simp add: luaH_get_def luaH_getnum_eq in_array_def search_def eqf Let_def del: chain_find.simps)
  next
    case False
    then show ?thesis using TNumber wf_tableD [OF assms(1)]
      by (simp add: luaH_get_def luaH_getany_def search_def in_array_def arrayindex_def mainposition_def)
  qed
next
  case (TString s)
  have "(case a of TString x \<Rightarrow> x = s | _ \<Rightarrow> False) = luaO_rawequalObj a k" for a
    by (cases a) (auto simp: rawequal_cases TString)
  then show ?thesis using TString wf_tableD [OF assms(1)]
    by (simp add: luaH_get_def luaH_getstr_def search_def in_array_def arrayindex_def main_pos_def)
qed (use assms wf_tableD [OF assms(1)] in
  \<open>simp_all add: luaH_get_def luaH_getany_def search_def in_array_def arrayindex_def mainposition_def\<close>)

lemma luaH_get_node:
  assumes "wf_table t" "valid_key k" "\<not> in_array t k"
  shows "luaH_get t k = Some (SNode i) \<longleftrightarrow>
    i < length (node t) \<and> luaO_rawequalObj (i_key (node t ! i)) k"
  using chain_find_iff [OF wf_tableD(1,2) [OF assms(1)] assms(2) refl refl] assms
  by (simp add: luaH_get_eq)

lemma luaH_get_not_array:
  assumes "wf_table t" "valid_key k" "\<not> in_array t k"
  shows "luaH_get t k \<noteq> Some (SArray i)"
  using assms by (auto simp: luaH_get_eq)

lemma luaH_get_None:
  assumes "wf_table t" "valid_key k"
  shows "luaH_get t k = None \<longleftrightarrow> \<not> in_array t k \<and> absent (node t) k"
proof (cases "in_array t k")
  case False
  then have "luaH_get t k = None \<longleftrightarrow> (\<forall>i. luaH_get t k \<noteq> Some (SNode i))"
    using luaH_get_not_array [OF assms False] by (metis slot.exhaust not_None_eq)
  with False show ?thesis using luaH_get_node [OF assms False] by (simp add: absent_def)
qed (use assms in \<open>simp add: luaH_get_eq\<close>)

lemma tget_array:
  assumes "wf_table t" "valid_key k" "in_array t k"
  shows "tget t k = array t ! nat (arrayindex k - 1)"
  using assms by (simp add: tget_def luaH_get_eq read_slot_def slot_val_def)

lemma tget_node:
  assumes "wf_table t" "valid_key k" "\<not> in_array t k" "v \<noteq> TNil"
  shows "tget t k = v \<longleftrightarrow> (\<exists>k'. (k', v) \<in> live (node t) \<and> luaO_rawequalObj k' k)"
proof
  assume v: "tget t k = v"
  with assms(4) obtain s where s: "luaH_get t k = Some s"
    by (cases "luaH_get t k") (auto simp: tget_def read_slot_def)
  then obtain i where i: "s = SNode i" using luaH_get_not_array [OF assms(1-3)] by (cases s) auto
  with s have "i < length (node t)" "luaO_rawequalObj (i_key (node t ! i)) k"
    using luaH_get_node [OF assms(1-3)] by auto
  moreover have "i_val (node t ! i) = v" using v s i by (simp add: tget_def read_slot_def slot_val_def)
  ultimately show "\<exists>k'. (k', v) \<in> live (node t) \<and> luaO_rawequalObj k' k"
    using assms(4) unfolding live_alt by blast
next
  assume "\<exists>k'. (k', v) \<in> live (node t) \<and> luaO_rawequalObj k' k"
  then obtain i where i: "i < length (node t)" "i_val (node t ! i) = v" "luaO_rawequalObj (i_key (node t ! i)) k"
    unfolding live_alt by auto
  then have "luaH_get t k = Some (SNode i)" using luaH_get_node [OF assms(1-3)] by simp
  with i show "tget t k = v" by (simp add: tget_def read_slot_def slot_val_def)
qed

text \<open>The map of a table is its array part and the associations of its nodes.\<close>

lemma tget_cong:
  assumes "wf_table t" "wf_table t'" "valid_key k"
    and "sizearray t' = sizearray t" "in_array t k \<Longrightarrow> array t' = array t" "live (node t') = live (node t)"
  shows "tget t' k = tget t k"
proof (cases "in_array t k")
  case True
  then have "in_array t' k" using assms(4) by (simp add: in_array_def)
  with True assms show ?thesis by (simp add: tget_array)
next
  case False
  then have "\<not> in_array t' k" using assms(4) by (simp add: in_array_def)
  with False assms tget_node show ?thesis by metis
qed

section \<open>Storing through a slot\<close>

text \<open>The slot of a key, and what a store through it does.\<close>

definition slot_of :: "lua_table \<Rightarrow> tvalue \<Rightarrow> slot \<Rightarrow> bool" where
  "slot_of t k s \<longleftrightarrow> wf_table t \<and> valid_key k \<and> luaH_get t k = Some s"

lemma slot_set_fields [simp]:
  "lsizenode (slot_set t s v) = lsizenode t" "sizearray (slot_set t s v) = sizearray t"
  "is_dummy (slot_set t s v) = is_dummy t" "lastfree (slot_set t s v) = lastfree t"
  "length (node (slot_set t s v)) = length (node t)" "length (array (slot_set t s v)) = length (array t)"
  by (simp_all add: slot_set_def split: slot.split)

lemma slot_set_node_nth:
  "i < length (node t) \<Longrightarrow> node (slot_set t s v) ! i =
     (if s = SNode i then (node t ! i)\<lparr>i_val := v\<rparr> else node t ! i)"
  by (cases s) (auto simp: slot_set_def nth_list_update)

lemma slot_set_same:
  assumes "\<And>i. i < length ns' \<Longrightarrow> i_key (ns' ! i) = i_key (ns ! i) \<and> gnext (ns' ! i) = gnext (ns ! i)"
    and "length ns' = length ns"
  shows "used ns' = used ns" "wf_chains ns' = wf_chains ns" "absent ns' k = absent ns k"
proof -
  show u: "used ns' = used ns" using assms by (auto simp: used_def fun_eq_iff)
  have m: "used ns j \<Longrightarrow> mpos ns' j = mpos ns j" for j using assms by (simp add: mpos_def used_def)
  have e: "edges ns' = edges ns" using assms by (auto simp: edges_def)
  have "(used ns j \<longrightarrow> used ns (mpos ns' j) \<and> mpos ns' (mpos ns' j) = mpos ns' j \<and> (mpos ns' j, j) \<in> (edges ns)\<^sup>*)
      \<longleftrightarrow> (used ns j \<longrightarrow> used ns (mpos ns j) \<and> mpos ns (mpos ns j) = mpos ns j \<and> (mpos ns j, j) \<in> (edges ns)\<^sup>*)" for j
    using m [of j] m [of "mpos ns j"] by auto
  then show "wf_chains ns' = wf_chains ns" by (simp only: wf_chains_def u e assms(2))
  show "absent ns' k = absent ns k" using assms by (auto simp: absent_def)
qed

lemma slot_in_node:
  assumes "slot_of t k (SNode i)"
  shows "i < length (node t)" "luaO_rawequalObj (i_key (node t ! i)) k" "\<not> in_array t k"
proof -
  show a: "\<not> in_array t k" using assms by (auto simp: slot_of_def luaH_get_eq)
  show "i < length (node t)" "luaO_rawequalObj (i_key (node t ! i)) k"
    using assms luaH_get_node [OF _ _ a] by (auto simp: slot_of_def)
qed

lemma slot_set_wf:
  assumes "slot_of t k s"
  shows "wf_table (slot_set t s v)"
proof -
  have w: "wf_table t" and k: "valid_key k" using assms by (auto simp: slot_of_def)
  have keys: "i < length (node t) \<Longrightarrow> i_key (node (slot_set t s v) ! i) = i_key (node t ! i)
      \<and> gnext (node (slot_set t s v) ! i) = gnext (node t ! i)" for i
    by (simp add: slot_set_node_nth)
  note same = slot_set_same [of "node (slot_set t s v)" "node t"]
  have "wf_keys (node (slot_set t s v))"
    unfolding wf_keys_def
  proof (intro conjI allI impI)
    fix i assume i: "i < length (node (slot_set t s v))"
      "i_key (node (slot_set t s v) ! i) = TNil \<or> is_dead (i_key (node (slot_set t s v) ! i))"
    have "s \<noteq> SNode i"
    proof
      assume "s = SNode i"
      with slot_in_node assms k rawequal_valid have "valid_key (i_key (node t ! i))" by blast
      with i keys show False by (auto dest: valid_not_dead)
    qed
    with i keys wf_tableD(2) [OF w] show "i_val (node (slot_set t s v) ! i) = TNil"
      by (auto simp: slot_set_node_nth wf_keys_def)
  qed (use wf_tableD(2) [OF w] keys in \<open>auto simp: wf_keys_def\<close>)
  moreover have "is_dummy t \<Longrightarrow> s \<noteq> SNode i" for i
  proof
    assume d: "is_dummy t" "s = SNode i"
    with assms slot_in_node have "i < length (node t)" "luaO_rawequalObj (i_key (node t ! i)) k" by auto
    with wf_tableD(7) [OF w d(1)] k show False
      by (cases k) (auto simp: empty_node_def rawequal_cases)
  qed
  then have "is_dummy t \<Longrightarrow> node (slot_set t s v) = node t"
    by (cases s) (auto simp: slot_set_def)
  ultimately show ?thesis
    using w keys same unfolding wf_table_def by (auto simp: in_array_def used_def)
qed

lemma array_index_eqD:
  assumes "0 < arrayindex a" "arrayindex a = arrayindex b"
  shows "luaO_rawequalObj a b"
proof -
  have *: "0 < arrayindex c \<Longrightarrow> luaO_rawequalObj (TNumber (cast_num (arrayindex c))) c" for c
    by (cases c) (auto simp: arrayindex_def rawequal_cases Let_def split: if_splits)
  with assms show ?thesis by (metis rawequal_sym rawequal_trans)
qed

text \<open>Equal keys have the same slot, different keys have different slots.\<close>

lemma luaH_get_rawequal:
  assumes "wf_table t" "valid_key k" "luaO_rawequalObj k k'"
  shows "luaH_get t k' = luaH_get t k"
proof -
  have "luaO_rawequalObj a k' = luaO_rawequalObj a k" for a
    using assms(3) rawequal_trans rawequal_sym by metis
  moreover have "valid_key k'" using assms rawequal_valid rawequal_sym by metis
  ultimately show ?thesis
    using assms main_pos_rawequal [OF assms(3)] arrayindex_rawequal [OF assms(3)]
    by (simp add: luaH_get_eq in_array_def del: chain_find.simps)
qed

lemma slot_rawequal:
  assumes "slot_of t k s" "slot_of t k' s"
  shows "luaO_rawequalObj k k'"
proof (cases s)
  case (SArray i)
  have "in_array t k" "in_array t k'" "nat (arrayindex k - 1) = i" "nat (arrayindex k' - 1) = i"
    using assms SArray by (auto simp: slot_of_def luaH_get_eq split: if_splits)
  then show ?thesis by (intro array_index_eqD) (auto simp: in_array_def)
next
  case (SNode i)
  with assms slot_in_node(2) show ?thesis using rawequal_trans rawequal_sym by metis
qed

lemma slot_option_eqI:
  assumes "\<And>i. a = Some (SArray i) \<longleftrightarrow> b = Some (SArray i)" "\<And>i. a = Some (SNode i) \<longleftrightarrow> b = Some (SNode i)"
  shows "a = b"
proof (cases a)
  case (Some s)
  with assms(1) [of i for i] assms(2) [of i for i] show ?thesis by (cases s) metis+
next
  case None
  then show ?thesis
  proof (cases b)
    case (Some s)
    with None assms show ?thesis by (cases s) auto
  qed simp
qed

lemma slot_set_lookup:
  assumes s: "slot_of t k s" and k': "valid_key k'"
  shows "luaH_get (slot_set t s v) k' = luaH_get t k'"
proof -
  have w: "wf_table t" using s by (simp add: slot_of_def)
  note w' = slot_set_wf [OF s, of v]
  have ia: "in_array (slot_set t s v) k' = in_array t k'" by (simp add: in_array_def)
  show ?thesis
  proof (cases "in_array t k'")
    case True
    with ia show ?thesis by (simp add: luaH_get_eq w w' k')
  next
    case False
    then have False': "\<not> in_array (slot_set t s v) k'" using ia by simp
    show ?thesis
    proof (rule slot_option_eqI)
      fix j
      show "luaH_get (slot_set t s v) k' = Some (SArray j) \<longleftrightarrow> luaH_get t k' = Some (SArray j)"
        using luaH_get_not_array [OF w' k' False'] luaH_get_not_array [OF w k' False] by simp
      have "i_key (node (slot_set t s v) ! j) = i_key (node t ! j)" if "j < length (node t)"
        using that by (simp add: slot_set_node_nth)
      then show "luaH_get (slot_set t s v) k' = Some (SNode j) \<longleftrightarrow> luaH_get t k' = Some (SNode j)"
        unfolding luaH_get_node [OF w' k' False'] luaH_get_node [OF w k' False] by auto
    qed
  qed
qed

text \<open>A slot that a key has is inside the vectors.\<close>

lemma slot_in_range:
  assumes "slot_of t k s"
  shows "case s of SArray i \<Rightarrow> i < length (array t) | SNode i \<Rightarrow> i < length (node t)"
proof (cases s)
  case (SArray i)
  with assms wf_tableD(4) [of t] have "in_array t k" "i = nat (arrayindex k - 1)" "sizearray t \<le> length (array t)"
    by (auto simp: slot_of_def luaH_get_eq split: if_splits)
  with SArray show ?thesis by (auto simp: in_array_def)
qed (use assms slot_in_node in auto)

lemma slot_val_set:
  assumes "slot_of t k s" "slot_of t k' s'"
  shows "slot_val (slot_set t s v) s' = (if s' = s then v else slot_val t s')"
  using slot_in_range [OF assms(1)] slot_in_range [OF assms(2)]
  by (cases s; cases s') (auto simp: slot_val_def slot_set_def nth_list_update)

text \<open>Storing changes the value of the key and of no other.\<close>

lemma slot_set_get:
  assumes s: "slot_of t k s" and k': "valid_key k'"
  shows "tget (slot_set t s v) k' = (if luaO_rawequalObj k k' then v else tget t k')"
proof -
  have w: "wf_table t" and k: "valid_key k" "luaH_get t k = Some s" using s by (auto simp: slot_of_def)
  note look = slot_set_lookup [OF s k', of v]
  show ?thesis
  proof (cases "luaH_get t k'")
    case None
    with luaH_get_rawequal [OF w k(1)] k(2) have "\<not> luaO_rawequalObj k k'" by auto
    with None look show ?thesis by (simp add: tget_def read_slot_def)
  next
    case (Some s')
    then have s': "slot_of t k' s'" using w k' by (simp add: slot_of_def)
    have "luaO_rawequalObj k k' \<longleftrightarrow> s' = s"
      using luaH_get_rawequal [OF w k(1), of k'] k(2) Some slot_rawequal [OF s] s' by auto
    with Some look slot_val_set [OF s s'] show ?thesis by (simp add: tget_def read_slot_def)
  qed
qed

section \<open>Insertion without growth\<close>

lemma getfree_loop_spec:
  assumes "lf \<le> int (length ns)" "\<And>i. i < length ns \<Longrightarrow> lf \<le> int i \<Longrightarrow> used ns i"
  shows "case getfree_loop ns lf of
      (lf', Some n) \<Rightarrow> lf' = int n \<and> n < length ns \<and> \<not> used ns n \<and> (\<forall>i < length ns. n < i \<longrightarrow> used ns i)
    | (lf', None) \<Rightarrow> lf' < 0 \<and> (\<forall>i < length ns. used ns i)"
  using assms
proof (induction ns lf rule: getfree_loop.induct)
  case (1 ns lf)
  show ?case
  proof (cases "0 < lf")
    case lf: True
    show ?thesis
    proof (cases "i_key (ns ! nat (lf - 1)) = TNil")
      case True
      have "used ns i" if "i < length ns" "nat (lf - 1) < i" for i
        using 1(3) [of i] that lf by linarith
      moreover have "\<not> used ns (nat (lf - 1))" using True by (simp add: used_def)
      ultimately show ?thesis
        using lf True 1(2) by (subst getfree_loop.simps) (simp add: nat_less_iff)
    next
      case False
      have "used ns i" if "i < length ns" "lf - 1 \<le> int i" for i
      proof (cases "lf \<le> int i")
        case h: False
        with that have "i = nat (lf - 1)" by linarith
        with False that show ?thesis by (simp add: used_def)
      qed (use 1(3) that in simp)
      with 1 lf False show ?thesis by (subst getfree_loop.simps) simp
    qed
  next
    case False
    with 1 show ?thesis by (subst getfree_loop.simps) simp
  qed
qed

definition nused :: "lua_table \<Rightarrow> nat" where
  "nused t = card {i. used (node t) i}"

lemma used_finite: "finite {i. used ns i}" "card {i. used ns i} \<le> length ns"
proof -
  have s: "{i. used ns i} \<subseteq> {..<length ns}" by (auto simp: used_def)
  then show "finite {i. used ns i}" by (rule finite_subset) simp
  from s show "card {i. used ns i} \<le> length ns" using card_mono [OF _ s] by simp
qed

lemma nused_Suc:
  assumes "\<And>i. used (node t') i \<longleftrightarrow> used (node t) i \<or> i = n"
  shows "nused t \<le> nused t'" "nused t' \<le> Suc (nused t)"
proof -
  have "{i. used (node t') i} = insert n {i. used (node t) i}" using assms by auto
  then show "nused t \<le> nused t'" "nused t' \<le> Suc (nused t)"
    unfolding nused_def using used_finite card_insert_le card_insert_le_m1
    by (auto simp: card_insert_if)
qed

lemma all_used: "(\<forall>i < length (node t). used (node t) i) \<longleftrightarrow> nused t = length (node t)"
proof
  assume "\<forall>i < length (node t). used (node t) i"
  then have "{i. used (node t) i} = {..<length (node t)}" by (auto simp: used_def)
  then show "nused t = length (node t)" by (simp add: nused_def)
next
  have s: "{i. used (node t) i} \<subseteq> {..<length (node t)}" by (auto simp: used_def)
  assume "nused t = length (node t)"
  then have "{i. used (node t) i} = {..<length (node t)}"
    using card_subset_eq [OF _ s] by (simp add: nused_def)
  then show "\<forall>i < length (node t). used (node t) i" by auto
qed

text \<open>
  What a table keeps while keys are added to its free nodes: the associations, the array
  part and the sizes.
\<close>

definition grown :: "lua_table \<Rightarrow> lua_table \<Rightarrow> bool" where
  "grown t t' \<longleftrightarrow> wf_table t' \<and> live (node t') = live (node t) \<and> array t' = array t
     \<and> sizearray t' = sizearray t \<and> lsizenode t' = lsizenode t \<and> is_dummy t' = is_dummy t
     \<and> nused t \<le> nused t' \<and> nused t' \<le> Suc (nused t)"

lemma grown_tget:
  assumes "wf_table t" "grown t t'" "valid_key k"
  shows "tget t' k = tget t k"
  using assms(2) unfolding grown_def by (intro tget_cong [OF assms(1) _ assms(3)]) simp_all

text \<open>
  Putting the three ways together: if a new vector \<open>ns\<close> keeps the invariant of the
  nodes and gets the key in node \<open>i\<close>, the table gets it.
\<close>

definition inserted :: "lua_table \<Rightarrow> tvalue \<Rightarrow> lua_table \<times> slot \<Rightarrow> bool" where
  "inserted t k r \<longleftrightarrow> grown t (fst r) \<and> slot_of (fst r) k (snd r) \<and> slot_val (fst r) (snd r) = TNil"

lemma set_key_inserted:
  assumes w: "wf_table t" and k: "valid_key k" "\<not> in_array t k" and d: "\<not> is_dummy t"
    and ns: "ns' = ns[p := (ns ! p)\<lparr>i_key := k\<rparr>]"
    and wf: "wf_chains ns'" "wf_keys ns'" "live ns' = live (node t)" "length ns' = length (node t)"
    and u: "\<And>i. used ns' i \<longleftrightarrow> used (node t) i \<or> i = n"
    and lf: "lf \<le> int (length (node t))" "\<And>i. i < length (node t) \<Longrightarrow> lf \<le> int i \<Longrightarrow> used (node t) i \<or> i = n"
    and p: "p < length (node t)" "i_val (ns ! p) = TNil"
    and keys: "\<And>i. i < length (node t) \<Longrightarrow> i_key (ns' ! i) \<in> insert k (i_key ` set (node t))"
  shows "inserted t k (set_key (t\<lparr>lastfree := lf\<rparr>) ns p k)"
proof -
  let ?t' = "t\<lparr>lastfree := lf, node := ns'\<rparr>"
  have ia: "in_array ?t' a = in_array t a" for a by (simp add: in_array_def)
  have arr: "\<not> in_array ?t' (i_key (ns' ! i))" if i: "used ns' i" for i
  proof (cases "i_key (ns' ! i) = k")
    case True
    with k(2) ia show ?thesis by simp
  next
    case False
    with keys [of i] i wf(4) obtain j where "j < length (node t)" "i_key (node t ! j) = i_key (ns' ! i)"
      by (auto simp: used_def in_set_conv_nth)
    moreover from this i have "used (node t) j" by (simp add: used_def)
    ultimately show ?thesis using wf_tableD(6) [OF w, of j] ia by metis
  qed
  have lf': "used ns' i" if "i < length ns'" "lf \<le> int i" for i
    using lf(2) [of i] u [of i] that wf(4) by auto
  have base: "length (node t) = 2 ^ lsizenode t" "lsizenode t \<le> MAXBITS" "sizearray t \<le> length (array t)"
    "sizearray t \<le> 2 ^ MAXBITS" using w by (simp_all add: wf_table_def)
  have w': "wf_table ?t'"
    unfolding wf_table_def using wf(1,2,4) base arr lf' lf(1) d by simp
  then have "grown t ?t'"
    using wf(3) nused_Suc [of ?t' t n] u by (simp add: grown_def)
  moreover have "slot_of ?t' k (SNode p)"
  proof -
    have "\<not> in_array ?t' k" using k(2) ia by simp
    then have "luaH_get ?t' k = Some (SNode p)"
      unfolding luaH_get_node [OF w' k(1)  \<open>\<not> in_array ?t' k\<close>]
      using p(1) wf(4) ns valid_rawequal_refl [OF k(1)] by simp
    with w' k(1) show ?thesis by (simp only: slot_of_def simp_thms)
  qed
  ultimately show ?thesis using p ns wf(4) by (simp add: set_key_def slot_val_def inserted_def)
qed

lemma insert_main_inserted:
  assumes w: "wf_table t" and k: "valid_key k" "\<not> in_array t k" "absent (node t) k" and d: "\<not> is_dummy t"
    and m: "m = main_pos (length (node t)) k" and nil: "i_val (node t ! m) = TNil"
  shows "inserted t k (set_key t (node t) m k)"
proof -
  have ml: "m < length (node t)" using m wf_chains_length [OF wf_tableD(1) [OF w]] by simp
  note ins = insert_at_main [OF wf_tableD(1,2) [OF w] k(1,3) m nil refl]
  have lf: "lastfree t \<le> int (length (node t))"
    "\<And>i. i < length (node t) \<Longrightarrow> lastfree t \<le> int i \<Longrightarrow> used (node t) i"
    using w d by (auto simp: wf_table_def)
  have "inserted t k (set_key (t\<lparr>lastfree := lastfree t\<rparr>) (node t) m k)"
  proof (rule set_key_inserted [OF w k(1,2) d refl ins(1-3) _ ins(4) lf(1) _ ml nil])
    show "i_key ((node t)[m := (node t ! m)\<lparr>i_key := k\<rparr>] ! i) \<in> insert k (i_key ` set (node t))"
      if "i < length (node t)" for i
      using that ml by (cases "i = m") auto
  qed (use lf in auto)
  then show ?thesis by simp
qed

text \<open>What \<open>getfreepos\<close> leaves of the table.\<close>

lemma insert_chained_inserted:
  assumes w: "wf_table t" and k: "valid_key k" "\<not> in_array t k" "absent (node t) k" and d: "\<not> is_dummy t"
    and m: "m = main_pos (length (node t)) k" and um: "used (node t) m" "mpos (node t) m = m"
    and n: "n < length (node t)" "\<not> used (node t) n" "\<And>i. i < length (node t) \<Longrightarrow> n < i \<Longrightarrow> used (node t) i"
  shows "inserted t k (set_key (t\<lparr>lastfree := int n\<rparr>) (chain_free (node t) m n) n k)"
proof -
  let ?c = "chain_free (node t) m n"
  have nm: "n \<noteq> m" "m < length (node t)" using um n(2) by (auto simp: used_def)
  note ins = insert_chained [OF wf_tableD(1,2) [OF w] k(1,3) m um n(1,2) refl]
  show ?thesis
  proof (rule set_key_inserted [OF w k(1,2) d refl ins(1-3,6,4) _ _ n(1)])
    show "used (node t) i \<or> i = n" if "i < length (node t)" "int n \<le> int i" for i
      using n(3) [of i] that by linarith
    show "i_val (?c ! n) = TNil"
      using ins(5) n(1) by (simp add: chain_free_def Let_def nth_list_update)
    show "i_key (?c[n := (?c ! n)\<lparr>i_key := k\<rparr>] ! i) \<in> insert k (i_key ` set (node t))"
      if "i < length (node t)" for i
      using that nm by (cases "i = n"; cases "i = m") (simp_all add: chain_free_def Let_def nth_list_update)
  qed (use n in simp)
qed

lemma insert_moving_inserted:
  assumes w: "wf_table t" and k: "valid_key k" "\<not> in_array t k" "absent (node t) k" and d: "\<not> is_dummy t"
    and m: "m = main_pos (length (node t)) k" and um: "used (node t) m" "mpos (node t) m \<noteq> m"
    and n: "n < length (node t)" "\<not> used (node t) n" "\<And>i. i < length (node t) \<Longrightarrow> n < i \<Longrightarrow> used (node t) i"
  obtains ns1 where "move_colliding (node t) m (mpos (node t) m) n = Some ns1"
    and "inserted t k (set_key (t\<lparr>lastfree := int n\<rparr>) ns1 m k)"
proof -
  have ml: "m < length (node t)" using um by (simp add: used_def)
  obtain ns1 where 1: "move_colliding (node t) m (mpos (node t) m) n = Some ns1"
    and 2: "wf_chains (ns1[m := (ns1 ! m)\<lparr>i_key := k\<rparr>])"
      "wf_keys (ns1[m := (ns1 ! m)\<lparr>i_key := k\<rparr>])"
      "live (ns1[m := (ns1 ! m)\<lparr>i_key := k\<rparr>]) = live (node t)"
      "\<And>i. used (ns1[m := (ns1 ! m)\<lparr>i_key := k\<rparr>]) i \<longleftrightarrow> used (node t) i \<or> i = n"
      "i_val (ns1 ! m) = TNil" "length ns1 = length (node t)"
    using insert_moving [OF wf_tableD(1,2) [OF w] k(1,3) m um n(1,2)] by blast
  have mv: "moved (node t) m n k (ns1[m := (ns1 ! m)\<lparr>i_key := k\<rparr>])"
    using move_colliding_moved [OF wf_tableD(1) [OF w] um n(1,2), of k] 1 by (metis option.inject)
  have "inserted t k (set_key (t\<lparr>lastfree := int n\<rparr>) ns1 m k)"
  proof (rule set_key_inserted [OF w k(1,2) d refl 2(1-3) _ 2(4) _ _ ml 2(5)])
    show "used (node t) i \<or> i = n" if "i < length (node t)" "int n \<le> int i" for i
      using n(3) [of i] that by linarith
    show "i_key (ns1[m := (ns1 ! m)\<lparr>i_key := k\<rparr>] ! i) \<in> insert k (i_key ` set (node t))"
      if i: "i < length (node t)" for i
      using mv i ml unfolding moved_def by auto
  qed (use n 2 in simp_all)
  with 1 that show ?thesis by blast
qed

lemma insert_key_spec:
  assumes w: "wf_table t" and k: "valid_key k" "luaH_get t k = None"
  obtains
    (full) t1 where "insert_key grow t k = grow t1" "grown t t1" "nused t1 = nused t"
      "is_dummy t \<or> nused t = length (node t)"
  | (ins) r where "insert_key grow t k = Inr r" "inserted t k r"
proof -
  let ?ns = "node t" and ?m = "main_pos (length (node t)) k"
  have na: "\<not> in_array t k" and ab: "absent ?ns k" using luaH_get_None [OF w k(1)] k(2) by auto
  have mp: "mainposition t k = ?m" by (simp add: mainposition_def wf_tableD(3) [OF w])
  have ml: "?m < length ?ns" using wf_tableD(1) [OF w] by (rule wf_chains_length)
  show ?thesis
  proof (cases "i_val (?ns ! ?m) \<noteq> TNil \<or> is_dummy t")
    case False
    then show ?thesis
      using ins insert_main_inserted [OF w k(1) na ab _ refl] by (simp add: insert_key_def mp ttisnil_def)
  next
    case need: True
    obtain lf r where g: "getfree_loop ?ns (lastfree t) = (lf, r)" by fastforce
    let ?t1 = "t\<lparr>lastfree := lf\<rparr>"
    have ik: "insert_key grow t k = (case r of None \<Rightarrow> grow ?t1
        | Some n \<Rightarrow> if mainposition ?t1 (i_key (?ns ! ?m)) \<noteq> ?m
            then (case move_colliding ?ns ?m (mainposition ?t1 (i_key (?ns ! ?m))) n of None \<Rightarrow> Inl NO_FUEL
                  | Some ns \<Rightarrow> Inr (set_key ?t1 ns ?m k))
            else Inr (set_key ?t1 (chain_free ?ns ?m n) n k))"
      using need g by (cases r) (simp_all add: insert_key_def mp ttisnil_def getfreepos_def Let_def)
    have grown1: "grown t ?t1" "nused ?t1 = nused t" if "lf \<le> 0" "is_dummy t \<or> (\<forall>i < length ?ns. used ?ns i)"
    proof -
      have "lf \<le> int (length ?ns)" using that(1) by linarith
      with w that have "wf_table ?t1" by (auto simp: wf_table_def in_array_def)
      then show "grown t ?t1" "nused ?t1 = nused t" by (auto simp: grown_def nused_def)
    qed
    show ?thesis
    proof (cases "is_dummy t")
      case True
      then have "lastfree t \<le> 0" using w by (simp add: wf_table_def)
      then have "r = None" "lf \<le> 0" using g by (auto simp: getfree_loop.simps)
      with full ik grown1 True show ?thesis by simp
    next
      case nd: False
      then have lf: "lastfree t \<le> int (length ?ns)" "\<And>i. i < length ?ns \<Longrightarrow> lastfree t \<le> int i \<Longrightarrow> used ?ns i"
        using w by (auto simp: wf_table_def)
      note gs = getfree_loop_spec [OF lf, unfolded g, simplified]
      show ?thesis
      proof (cases r)
        case None
        with full ik gs grown1 all_used [of t] show ?thesis by simp
      next
        case (Some n)
        with gs have n: "n < length ?ns" "\<not> used ?ns n" "lf = int n"
          "\<And>i. i < length ?ns \<Longrightarrow> n < i \<Longrightarrow> used ?ns i" by auto
        have v: "i_val (?ns ! ?m) \<noteq> TNil" using need nd by simp
        then have um: "used ?ns ?m" and nde: "\<not> is_dead (i_key (?ns ! ?m))"
          using wf_keysD [OF wf_tableD(2) [OF w] ml] ml by (auto simp: used_def)
        have ot: "mainposition ?t1 (i_key (?ns ! ?m)) = mpos ?ns ?m"
          using nde wf_tableD(3) [OF w] by (simp add: mpos_def mainposition_def sizenode_def)
        show ?thesis
        proof (cases "mpos ?ns ?m = ?m")
          case True
          with ins ik Some ot insert_chained_inserted [OF w k(1) na ab nd refl um True n(1,2,4)] n(3)
          show ?thesis by simp
        next
          case False
          obtain ns1 where "move_colliding ?ns ?m (mpos ?ns ?m) n = Some ns1"
            "inserted t k (set_key (t\<lparr>lastfree := int n\<rparr>) ns1 ?m k)"
            using insert_moving_inserted [OF w k(1) na ab nd refl um False n(1,2,4)] by blast
          with ins ik Some ot n(3) False show ?thesis by simp
        qed
      qed
    qed
  qed
qed

end
