(* ===== verification/LuaTableSet.thy ===== *)
theory LuaTableSet
  imports LuaTableMap
begin

text \<open>
  \<open>luaH_set\<close> on a table with room, re-insertion by \<open>resize\<close>, the counting of
  \<open>rehash\<close>, and the theorems on tables of any fill.
\<close>

section \<open>Storing a key in a table with room\<close>

text \<open>How many keys the hash part can hold.\<close>

definition cap :: "lua_table \<Rightarrow> nat" where
  "cap t = (if is_dummy t then 0 else length (node t))"

text \<open>\<open>t'\<close> is \<open>t\<close> with the value of \<open>k\<close> replaced by \<open>v\<close>.\<close>

definition stored :: "lua_table \<Rightarrow> tvalue \<Rightarrow> tvalue \<Rightarrow> lua_table \<Rightarrow> bool" where
  "stored t k v t' \<longleftrightarrow> wf_table t'
     \<and> (\<forall>k'. valid_key k' \<longrightarrow> tget t' k' = (if luaO_rawequalObj k k' then v else tget t k'))
     \<and> sizearray t' = sizearray t \<and> length (array t') = length (array t)
     \<and> (\<not> in_array t k \<longrightarrow> array t' = array t)
     \<and> lsizenode t' = lsizenode t \<and> is_dummy t' = is_dummy t
     \<and> nused t' \<le> nused t + of_bool (\<not> in_array t k)"

lemma flags_irrelevant [simp]:
  "wf_table (t\<lparr>flags := f\<rparr>) = wf_table t" "in_array (t\<lparr>flags := f\<rparr>) k = in_array t k"
  "luaH_get (t\<lparr>flags := f\<rparr>) k = luaH_get t k" "tget (t\<lparr>flags := f\<rparr>) k = tget t k"
  "nused (t\<lparr>flags := f\<rparr>) = nused t" "cap (t\<lparr>flags := f\<rparr>) = cap t"
  "slot_of (t\<lparr>flags := f\<rparr>) k s = slot_of t k s"
proof -
  show get: "luaH_get (t\<lparr>flags := f\<rparr>) k = luaH_get t k" for k
    by (simp add: luaH_get_def luaH_getstr_def luaH_getnum_def luaH_getany_def search_def
        sizenode_def mainposition_def Let_def split: tvalue.split del: chain_find.simps)
  show ia: "in_array (t\<lparr>flags := f\<rparr>) k = in_array t k" for k by (simp add: in_array_def)
  show w: "wf_table (t\<lparr>flags := f\<rparr>) = wf_table t" by (simp add: wf_table_def ia)
  show "tget (t\<lparr>flags := f\<rparr>) k = tget t k"
    by (simp add: tget_def read_slot_def get slot_val_def split: option.split slot.split)
  show "slot_of (t\<lparr>flags := f\<rparr>) k s = slot_of t k s" by (simp add: slot_of_def get w)
qed (simp_all add: nused_def cap_def)

lemma slot_set_stored:
  assumes "slot_of t k s"
  shows "stored t k v (slot_set t s v)"
proof -
  have "used (node (slot_set t s v)) = used (node t)"
    by (rule slot_set_same(1)) (simp_all add: slot_set_node_nth)
  then have "nused (slot_set t s v) = nused t" by (simp add: nused_def)
  moreover have "array (slot_set t s v) = array t" if "\<not> in_array t k"
  proof (cases s)
    case (SArray i)
    with assms luaH_get_not_array [OF _ _ that] show ?thesis by (auto simp: slot_of_def)
  qed (simp add: slot_set_def)
  ultimately show ?thesis
    using slot_set_wf [OF assms] slot_set_get [OF assms] by (simp add: stored_def)
qed

lemma grown_in_array: "grown t t' \<Longrightarrow> in_array t' k = in_array t k"
  by (simp add: grown_def in_array_def)

lemma grown_stored:
  assumes "wf_table t" "grown t t'" "\<not> in_array t k" "stored t' k v t''" "nused t'' \<le> nused t'"
  shows "stored t k v t''"
  using assms grown_in_array [OF assms(2)] grown_tget [OF assms(1,2)]
  by (simp add: stored_def grown_def)

text \<open>The contract of the \<open>newkey\<close> that a rehash calls: it succeeds when there is room.\<close>

definition nk_ok :: "inserter \<Rightarrow> bool" where
  "nk_ok nk \<longleftrightarrow>
     (\<forall>t k. wf_table t \<longrightarrow> valid_key k \<longrightarrow> luaH_get t k = None \<longrightarrow> nused t < cap t \<longrightarrow>
       (\<exists>r. nk t k = Inr r \<and> inserted t k r))"

lemma nk_ok_newkey: "nk_ok (newkey d)"
  unfolding nk_ok_def
proof (intro allI impI)
  fix t k assume w: "wf_table t" and k: "valid_key k" "luaH_get t k = None" and r: "nused t < cap t"
  have nd: "\<not> (is_dummy t \<or> nused t = length (node t))" using r by (auto simp: cap_def split: if_splits)
  have "\<exists>r. insert_key grow t k = Inr r \<and> inserted t k r" for grow
    by (rule insert_key_spec [OF w k, where grow = grow]) (use nd in auto)
  then show "\<exists>r. newkey d t k = Inr r \<and> inserted t k r" by (cases d) simp_all
qed

text \<open>A slot for the key and a table that differs from \<open>t\<close> in the value stored through it.\<close>

definition slotted :: "lua_table \<Rightarrow> tvalue \<Rightarrow> lua_table \<times> slot \<Rightarrow> bool" where
  "slotted t k r \<longleftrightarrow> slot_of (fst r) k (snd r)
     \<and> (\<forall>v. stored t k v (slot_set (fst r) (snd r) v))
     \<and> (\<forall>k'. valid_key k' \<longrightarrow> tget (fst r) k' = tget t k')
     \<and> (\<not> in_array t k \<longrightarrow> array (fst r) = array t)"

lemma inserted_slotted:
  assumes "wf_table t" "\<not> in_array t k" "inserted t k r"
  shows "slotted t k r"
proof -
  have g: "grown t (fst r)" and s: "slot_of (fst r) k (snd r)" using assms(3) by (auto simp: inserted_def)
  have "stored t k v (slot_set (fst r) (snd r) v)" for v
  proof (rule grown_stored [OF assms(1) g assms(2) slot_set_stored [OF s]])
    have "used (node (slot_set (fst r) (snd r) v)) = used (node (fst r))"
      by (rule slot_set_same(1)) (simp_all add: slot_set_node_nth)
    then show "nused (slot_set (fst r) (snd r) v) \<le> nused (fst r)" by (simp add: nused_def)
  qed
  then show ?thesis using s grown_tget [OF assms(1) g] g by (simp add: slotted_def grown_def)
qed

lemma found_slotted:
  assumes "slot_of t k s"
  shows "slotted t k (t, s)"
  using assms slot_set_stored [OF assms] by (simp add: slotted_def)

lemma slotted_flags: "slotted (t\<lparr>flags := f\<rparr>) k r = slotted t k r"
  by (simp add: slotted_def stored_def)

lemma luaH_set_with_eq:
  assumes "valid_key k"
  shows "luaH_set_with nk t k =
    (case luaH_get t k of Some s \<Rightarrow> Inr (t\<lparr>flags := 0\<rparr>, s) | None \<Rightarrow> nk (t\<lparr>flags := 0\<rparr>) k)"
  using assms
  by (cases k) (auto simp: luaH_set_with_def Let_def ttisnil_def luai_numisnan_iff split: option.split)

lemma luaH_set_with_room:
  assumes "nk_ok nk" "wf_table t" "valid_key k" "in_array t k \<or> nused t < cap t"
  shows "\<exists>r. luaH_set_with nk t k = Inr r \<and> slotted t k r"
proof (cases "luaH_get t k")
  case None
  let ?t = "t\<lparr>flags := 0\<rparr>"
  have "\<not> in_array t k" using None luaH_get_None [OF assms(2,3)] by simp
  with None assms obtain r where "nk ?t k = Inr r" "inserted ?t k r"
    unfolding nk_ok_def by (metis flags_irrelevant(1,3,5,6))
  with \<open>\<not> in_array t k\<close> None assms show ?thesis
    using inserted_slotted [of ?t k r] by (simp add: luaH_set_with_eq slotted_flags)
next
  case (Some s)
  with assms have "slot_of (t\<lparr>flags := 0\<rparr>) k s" by (simp add: slot_of_def)
  from found_slotted [OF this] Some assms show ?thesis by (simp add: luaH_set_with_eq slotted_flags)
qed

text \<open>Integer keys.\<close>

lemma luai_numeq_cast: "luai_numeq (cast_num k) (cast_num k)" if "\<bar>k\<bar> < 9007199254740992"
  using that by (simp add: luai_num_cast_num)

lemma cast_num_key:
  assumes "INT_MIN \<le> k" "k \<le> INT_MAX"
  shows "arrayindex (TNumber (cast_num k)) = k" "valid_key (TNumber (cast_num k))"
    "luaH_get t (TNumber (cast_num k)) = luaH_getnum t k"
proof -
  have e: "luai_numeq (cast_num k) (cast_num k)" "lua_number2int (cast_num k) = k"
    using assms luai_numeq_cast lua_number2int_cast_num by auto
  then show "arrayindex (TNumber (cast_num k)) = k" "luaH_get t (TNumber (cast_num k)) = luaH_getnum t k"
    by (simp_all add: arrayindex_def luaH_get_def)
  show "valid_key (TNumber (cast_num k))" using e by (simp add: luai_numeq_refl)
qed

lemma luaH_setnum_with_room:
  assumes "nk_ok nk" "wf_table t" "INT_MIN \<le> k" "k \<le> INT_MAX"
    "in_array t (TNumber (cast_num k)) \<or> nused t < cap t"
  shows "\<exists>r. luaH_setnum_with nk t k = Inr r \<and> slotted t (TNumber (cast_num k)) r"
proof (cases "luaH_getnum t k")
  case None
  note c = cast_num_key [OF assms(3,4)]
  have n: "luaH_get t (TNumber (cast_num k)) = None" using c None by simp
  then have "\<not> in_array t (TNumber (cast_num k))" using luaH_get_None [OF assms(2) c(2)] by simp
  with n assms c obtain r where "nk t (TNumber (cast_num k)) = Inr r" "inserted t (TNumber (cast_num k)) r"
    unfolding nk_ok_def by metis
  with \<open>\<not> in_array t (TNumber (cast_num k))\<close> None assms show ?thesis
    using inserted_slotted by (simp add: luaH_setnum_with_def)
next
  case (Some s)
  with assms cast_num_key [OF assms(3,4)] have "slot_of t (TNumber (cast_num k)) s"
    by (simp add: slot_of_def)
  from found_slotted [OF this] Some show ?thesis by (simp add: luaH_setnum_with_def)
qed

section \<open>Re-insertion\<close>

text \<open>
  The state of a re-insertion: the associations \<open>ps\<close> are still to come and their keys have no
  value yet; every other key already has its value in \<open>target\<close>; the keys still to come and \<open>e\<close>
  more have room.
\<close>

definition outside :: "lua_table \<Rightarrow> (tvalue \<times> tvalue) list \<Rightarrow> nat" where
  "outside t ps = length (filter (\<lambda>p. \<not> in_array t (fst p)) ps)"

definition todo :: "(tvalue \<Rightarrow> tvalue) \<Rightarrow> nat \<Rightarrow> lua_table \<Rightarrow> (tvalue \<times> tvalue) list \<Rightarrow> bool" where
  "todo target e t ps \<longleftrightarrow> wf_table t
     \<and> (\<forall>k. valid_key k \<longrightarrow>
          tget t k = (if \<exists>p \<in> set ps. luaO_rawequalObj (fst p) k then TNil else target k))
     \<and> (\<forall>p \<in> set ps. valid_key (fst p) \<and> (\<forall>k. luaO_rawequalObj (fst p) k \<longrightarrow> target k = snd p))
     \<and> sorted_wrt (\<lambda>p q. \<not> luaO_rawequalObj (fst p) (fst q)) ps
     \<and> nused t + outside t ps + e \<le> cap t"

lemma outside_Cons: "outside t (p # ps) = of_bool (\<not> in_array t (fst p)) + outside t ps"
  by (simp add: outside_def)

lemma stored_frame:
  assumes "stored t k v t'" "wf_table t"
  shows "in_array t' = in_array t" "outside t' = outside t" "cap t' = cap t"
proof -
  show ia: "in_array t' = in_array t" using assms by (auto simp: in_array_def stored_def fun_eq_iff)
  then show "outside t' = outside t" by (simp add: outside_def fun_eq_iff)
  show "cap t' = cap t" using assms by (auto simp: stored_def wf_table_def cap_def)
qed

lemma todo_step:
  assumes "todo target e t ((k, v) # ps)" "stored t k v t'"
  shows "todo target e t' ps"
proof -
  have w: "wf_table t" "valid_key k" using assms(1) by (auto simp: todo_def)
  note fr = stored_frame [OF assms(2) w(1)]
  have w': "wf_table t'" and u: "nused t' \<le> nused t + of_bool (\<not> in_array t k)"
    and get: "\<And>k'. valid_key k' \<Longrightarrow> tget t' k' = (if luaO_rawequalObj k k' then v else tget t k')"
    using assms(2) by (auto simp: stored_def)
  have "tget t' k' = (if \<exists>p \<in> set ps. luaO_rawequalObj (fst p) k' then TNil else target k')"
    if k': "valid_key k'" for k'
  proof (cases "luaO_rawequalObj k k'")
    case True
    have "\<not> luaO_rawequalObj (fst p) k'" if "p \<in> set ps" for p
    proof
      assume "luaO_rawequalObj (fst p) k'"
      with True have "luaO_rawequalObj k (fst p)" using rawequal_trans rawequal_sym by metis
      with that assms(1) show False by (auto simp: todo_def)
    qed
    moreover have "target k' = v" using assms(1) True by (simp add: todo_def)
    ultimately show ?thesis using get [OF k'] True by auto
  next
    case False
    with assms(1) get [OF k'] k' show ?thesis by (simp add: todo_def)
  qed
  then show ?thesis
    using assms(1) w' u fr unfolding todo_def by (auto simp: outside_Cons)
qed

lemma todo_room:
  assumes "todo target e t ((k, v) # ps)"
  shows "in_array t k \<or> nused t < cap t"
  using assms unfolding todo_def outside_Cons by (cases "in_array t k") simp_all

text \<open>The two loops of \<open>resize\<close>.\<close>

definition node_pairs :: "Node list \<Rightarrow> (tvalue \<times> tvalue) list" where
  "node_pairs ns = map (\<lambda>n. (i_key n, i_val n)) (filter (\<lambda>n. i_val n \<noteq> TNil) ns)"

definition array_pairs :: "tvalue list \<Rightarrow> nat list \<Rightarrow> (tvalue \<times> tvalue) list" where
  "array_pairs arr is = map (\<lambda>i. (TNumber (cast_num (int i + 1)), arr ! i)) (filter (\<lambda>i. arr ! i \<noteq> TNil) is)"

lemma reinsert_nodes:
  assumes "nk_ok nk" "todo target e t (node_pairs ns)"
  shows "\<exists>t'. foldE (reinsert_node nk) t ns = Inr t' \<and> todo target e t' []
    \<and> sizearray t' = sizearray t \<and> length (array t') = length (array t)"
proof -
  let ?I = "\<lambda>s ns. todo target e s (node_pairs ns) \<and> sizearray s = sizearray t
    \<and> length (array s) = length (array t)"
  have "\<exists>t'. foldE (reinsert_node nk) t ns = Inr t' \<and> ?I t' []"
  proof (rule foldE_total [where I = ?I])
    fix s x xs assume I: "?I s (x # xs)"
    show "\<exists>s'. reinsert_node nk s x = Inr s' \<and> ?I s' xs"
    proof (cases "i_val x = TNil")
      case False
      then have t: "todo target e s ((i_key x, i_val x) # node_pairs xs)" using I by (simp add: node_pairs_def)
      then have "wf_table s" "valid_key (i_key x)" by (auto simp: todo_def)
      with luaH_set_with_room [OF assms(1)] todo_room [OF t] obtain r
        where r: "luaH_set_with nk s (i_key x) = Inr r" "slotted s (i_key x) r" by blast
      then have st: "stored s (i_key x) (i_val x) (slot_set (fst r) (snd r) (i_val x))"
        by (simp add: slotted_def)
      with False r todo_step [OF t st] I show ?thesis
        by (auto simp: reinsert_node_def ttisnil_def split_beta stored_def)
    qed (use I in \<open>simp add: reinsert_node_def ttisnil_def node_pairs_def\<close>)
  qed (use assms in simp)
  then show ?thesis by (simp add: node_pairs_def)
qed

lemma reinsert_arrays:
  assumes "nk_ok nk" "todo target e t (array_pairs (array t) is @ ps)"
    and "\<forall>i \<in> set is. sizearray t \<le> i \<and> i < length (array t) \<and> int i < INT_MAX"
  shows "\<exists>t'. foldE (reinsert_array nk) t is = Inr t' \<and> todo target e t' ps
    \<and> array t' = array t \<and> sizearray t' = sizearray t"
proof -
  let ?I = "\<lambda>s is. todo target e s (array_pairs (array t) is @ ps) \<and> array s = array t
    \<and> sizearray s = sizearray t \<and> (\<forall>i \<in> set is. sizearray t \<le> i \<and> i < length (array t) \<and> int i < INT_MAX)"
  have "\<exists>t'. foldE (reinsert_array nk) t is = Inr t' \<and> ?I t' []"
  proof (rule foldE_total [where I = ?I])
    fix s i "is" assume I: "?I s (i # is)"
    show "\<exists>s'. reinsert_array nk s i = Inr s' \<and> ?I s' is"
    proof (cases "array t ! i = TNil")
      case False
      let ?k = "TNumber (cast_num (int i + 1))"
      have t: "todo target e s ((?k, array t ! i) # array_pairs (array t) is @ ps)"
        using I False by (simp add: array_pairs_def)
      have ir: "INT_MIN \<le> int i + 1" "int i + 1 \<le> INT_MAX" using I by auto
      note c = cast_num_key [OF ir]
      have na: "\<not> in_array s ?k" using c(1) I by (auto simp: in_array_def)
      have w: "wf_table s" using t by (simp add: todo_def)
      from luaH_setnum_with_room [OF assms(1) w ir] todo_room [OF t]
      obtain r where r: "luaH_setnum_with nk s (int i + 1) = Inr r" "slotted s ?k r" by blast
      then have st: "stored s ?k (array t ! i) (slot_set (fst r) (snd r) (array t ! i))"
        and ar: "array (fst r) = array s" using na by (auto simp: slotted_def)
      with False r todo_step [OF t st] I na show ?thesis
        by (auto simp: reinsert_array_def ttisnil_def split_beta stored_def)
    qed (use I in \<open>simp add: reinsert_array_def ttisnil_def array_pairs_def\<close>)
  qed (use assms in simp)
  then show ?thesis by (simp add: array_pairs_def)
qed

section \<open>resize\<close>

lemma fresh_nodes:
  "wf_chains (replicate (2 ^ l) empty_node)" "wf_keys (replicate (2 ^ l) empty_node)"
  "\<not> used (replicate n empty_node) i" "live (replicate n empty_node) = {}"
  by (auto simp: wf_chains_def wf_keys_def used_def edges_def live_def empty_node_def in_set_replicate)

text \<open>\<open>setnodevector\<close> succeeds on sizes up to \<open>2^MAXBITS\<close> and leaves empty nodes.\<close>

definition fresh :: "lua_table \<Rightarrow> nat \<Rightarrow> lua_table \<Rightarrow> bool" where
  "fresh t nh t' \<longleftrightarrow> (\<exists>l. node t' = replicate (2 ^ l) empty_node \<and> lsizenode t' = l \<and> l \<le> MAXBITS)
     \<and> nh \<le> cap t' \<and> array t' = array t \<and> sizearray t' = sizearray t
     \<and> (if is_dummy t' then node t' = [empty_node] \<and> lastfree t' = 0
        else lastfree t' = int (length (node t')))"

lemma setnodevector_fresh:
  assumes "nh \<le> 67108864"
  shows "\<exists>t'. setnodevector t nh = Inr t' \<and> fresh t nh t'"
proof (cases "nh = 0")
  case False
  define c where "c = nat (ceillog2 (int nh))"
  have b: "int nh \<le> 2 ^ c" using ceillog2_bounds [of "int nh"] False by (simp add: c_def)
  have "c \<le> MAXBITS"
  proof (rule ccontr)
    assume c27: "\<not> c \<le> MAXBITS"
    then have "(2::int) ^ 27 \<le> 2 ^ c" by (intro power_increasing) auto
    moreover have "nh \<noteq> 1" using c27 by (auto simp: c_def ceillog2_def luaO_log2_eq nbits.simps [of 0])
    then have "2 ^ c < 2 * int nh" using ceillog2_bounds [of "int nh"] False by (simp add: c_def)
    ultimately show False using assms by simp
  qed
  moreover have "nh \<le> 2 ^ c" using b by (metis of_nat_le_iff of_nat_numeral of_nat_power)
  ultimately show ?thesis
    using False unfolding setnodevector_def fresh_def by (simp add: c_def [symmetric] Let_def cap_def)
qed (auto simp: setnodevector_def fresh_def cap_def intro: exI [of _ 0])

lemma fresh_wf:
  assumes "fresh t nh t'" "sizearray t \<le> length (array t)" "sizearray t \<le> 2 ^ MAXBITS"
  shows "wf_table t'" "nused t' = 0"
    "valid_key k \<Longrightarrow> \<not> in_array t' k \<Longrightarrow> tget t' k = TNil"
proof -
  from assms(1) obtain l where n: "node t' = replicate (2 ^ l) empty_node" "lsizenode t' = l" "l \<le> MAXBITS"
    by (auto simp: fresh_def)
  show w: "wf_table t'"
    using assms fresh_nodes n unfolding wf_table_def fresh_def by auto
  show "nused t' = 0" using fresh_nodes(3) n by (simp add: nused_def)
  show "tget t' k = TNil" if k: "valid_key k" "\<not> in_array t' k"
    using tget_node [OF w k, of "tget t' k"] n fresh_nodes(4) by auto
qed

text \<open>A table outside of a \<open>resize\<close>: the array vector has the size the table says.\<close>

definition table_ok :: "lua_table \<Rightarrow> bool" where
  "table_ok t \<longleftrightarrow> wf_table t \<and> length (array t) = sizearray t"

definition pairs_from :: "lua_table \<Rightarrow> nat \<Rightarrow> (tvalue \<times> tvalue) list" where
  "pairs_from t n = array_pairs (array t) [n..<sizearray t] @ node_pairs (rev (node t))"

lemma node_pairs_live: "set (node_pairs ns) = live ns"
  by (auto simp: node_pairs_def live_def)

lemma live_valid:
  assumes "wf_keys ns" "(k, v) \<in> live ns"
  shows "valid_key k" "v \<noteq> TNil" "\<exists>i. used ns i \<and> i_key (ns ! i) = k"
proof -
  from assms(2) obtain i where i: "i < length ns" "k = i_key (ns ! i)" "v = i_val (ns ! i)" "v \<noteq> TNil"
    unfolding live_alt by auto
  with assms(1) have k: "k \<noteq> TNil" "\<not> is_dead k" "\<And>n. k = TNumber n \<Longrightarrow> \<not> is_nan n"
    by (auto simp: wf_keys_def)
  then show "valid_key k" by (cases k) auto
  show "v \<noteq> TNil" by (rule i(4))
  show "\<exists>i. used ns i \<and> i_key (ns ! i) = k" using i k by (auto simp: used_def)
qed

lemma pairs_from_cases:
  assumes t: "table_ok t" and p: "(k, v) \<in> set (pairs_from t n)"
  shows "valid_key k" "v \<noteq> TNil" "tget t k = v"
    and "(int n < arrayindex k \<and> in_array t k) \<or> (\<not> in_array t k \<and> (k, v) \<in> live (node t))"
proof -
  have w: "wf_table t" "length (array t) = sizearray t" using t by (auto simp: table_ok_def)
  have sz: "sizearray t \<le> 67108864" by (rule wf_tableD(5) [OF w(1)])
  have "valid_key k \<and> v \<noteq> TNil \<and> tget t k = v
    \<and> ((int n < arrayindex k \<and> in_array t k) \<or> (\<not> in_array t k \<and> (k, v) \<in> live (node t)))"
  proof (cases "(k, v) \<in> live (node t)")
    case True
    note lv = live_valid [OF wf_tableD(2) [OF w(1)] True]
    then have "\<not> in_array t k" using wf_tableD(6) [OF w(1)] by blast
    with lv True tget_node [OF w(1) lv(1) _ lv(2)] valid_rawequal_refl [OF lv(1)]
    show ?thesis by blast
  next
    case False
    with p obtain i where i: "n \<le> i" "i < sizearray t" "array t ! i \<noteq> TNil"
      "k = TNumber (cast_num (int i + 1))" "v = array t ! i"
      by (auto simp: pairs_from_def node_pairs_live array_pairs_def live_def node_pairs_def)
    have ir: "INT_MIN \<le> int i + 1" "int i + 1 \<le> INT_MAX" using i(2) sz by auto
    from cast_num_key [OF ir] i tget_array [OF w(1)] show ?thesis
      by (auto simp: in_array_def)
  qed
  then show "valid_key k" "v \<noteq> TNil" "tget t k = v"
    "(int n < arrayindex k \<and> in_array t k) \<or> (\<not> in_array t k \<and> (k, v) \<in> live (node t))" by blast+
qed

lemma pairs_from_complete:
  assumes t: "table_ok t" and k: "valid_key k" "\<not> (\<exists>p \<in> set (pairs_from t n). luaO_rawequalObj (fst p) k)"
  shows "tget t k = (if in_array t k \<and> arrayindex k \<le> int n then array t ! nat (arrayindex k - 1) else TNil)"
proof -
  have w: "wf_table t" "length (array t) = sizearray t" using t by (auto simp: table_ok_def)
  show ?thesis
  proof (cases "in_array t k")
    case True
    define i where "i = nat (arrayindex k - 1)"
    have i: "arrayindex k = int i + 1" "i < sizearray t" using True by (auto simp: i_def in_array_def)
    have "array t ! i = TNil" if "\<not> arrayindex k \<le> int n"
    proof (rule ccontr)
      assume "array t ! i \<noteq> TNil"
      with i that have "(TNumber (cast_num (int i + 1)), array t ! i) \<in> set (pairs_from t n)"
        by (auto simp: pairs_from_def array_pairs_def)
      moreover have "luaO_rawequalObj (TNumber (cast_num (int i + 1))) k"
      proof (rule array_index_eqD)
        have "arrayindex (TNumber (cast_num (int i + 1))) = int i + 1"
          by (rule cast_num_key(1)) (use i(2) wf_tableD(5) [OF w(1)] in auto)
        then show "0 < arrayindex (TNumber (cast_num (int i + 1)))"
          "arrayindex (TNumber (cast_num (int i + 1))) = arrayindex k" using i by auto
      qed
      ultimately show False using k(2) by force
    qed
    with True tget_array [OF w(1) k(1) True] show ?thesis by (simp add: i_def)
  next
    case False
    have "tget t k = TNil"
    proof (rule ccontr)
      assume v: "tget t k \<noteq> TNil"
      with tget_node [OF w(1) k(1) False v] obtain k' where "(k', tget t k) \<in> live (node t)" "luaO_rawequalObj k' k"
        by blast
      then have "(k', tget t k) \<in> set (pairs_from t n)" by (auto simp: pairs_from_def node_pairs_def live_def)
      with \<open>luaO_rawequalObj k' k\<close> k(2) show False by force
    qed
    with False show ?thesis by simp
  qed
qed

lemma sorted_wrt_mapI:
  assumes "\<And>i j. i < j \<Longrightarrow> j < length xs \<Longrightarrow> R (f (xs ! i)) (f (xs ! j))"
  shows "sorted_wrt R (map f xs)"
  using assms by (simp add: sorted_wrt_iff_nth_less)

lemma pairs_from_distinct:
  assumes t: "table_ok t"
  shows "sorted_wrt (\<lambda>p q. \<not> luaO_rawequalObj (fst p) (fst q)) (pairs_from t n)"
proof -
  have w: "wf_table t" "length (array t) = sizearray t" using t by (auto simp: table_ok_def)
  let ?R = "\<lambda>p q. \<not> luaO_rawequalObj (fst p) (fst (q :: tvalue \<times> tvalue))"
  have ai: "arrayindex (TNumber (cast_num (int i + 1))) = int i + 1" if "i < sizearray t" for i
    by (rule cast_num_key(1)) (use that wf_tableD(5) [OF w(1)] in auto)
  have "sorted_wrt ?R (array_pairs (array t) [n..<sizearray t])"
    unfolding array_pairs_def sorted_wrt_map
  proof (rule sorted_wrt_mono_rel [rotated])
    show "sorted_wrt (<) (filter (\<lambda>i. array t ! i \<noteq> TNil) [n..<sizearray t])"
      by (intro sorted_wrt_filter) simp
    show "\<not> luaO_rawequalObj (fst (TNumber (cast_num (int i + 1)), array t ! i))
        (fst (TNumber (cast_num (int j + 1)), array t ! j))"
      if "i \<in> set (filter (\<lambda>i. array t ! i \<noteq> TNil) [n..<sizearray t])"
        "j \<in> set (filter (\<lambda>i. array t ! i \<noteq> TNil) [n..<sizearray t])" "i < j" for i j
      using arrayindex_rawequal ai [of i] ai [of j] that by auto
  qed
  moreover have "sorted_wrt ?R (node_pairs (rev (node t)))"
    unfolding node_pairs_def sorted_wrt_map
  proof (rule sorted_wrt_mono_rel [rotated], rule sorted_wrt_filter)
    show "sorted_wrt (\<lambda>a b. valid_key (i_key a) \<longrightarrow> \<not> luaO_rawequalObj (i_key a) (i_key b)) (rev (node t))"
      unfolding sorted_wrt_rev unfolding sorted_wrt_iff_nth_less
    proof (intro allI impI)
      fix i j assume "i < j" "j < length (node t)" "valid_key (i_key (node t ! j))"
      then show "\<not> luaO_rawequalObj (i_key (node t ! j)) (i_key (node t ! i))"
        using wf_tableD(2) [OF w(1)] unfolding wf_keys_def by (metis less_irrefl less_trans)
    qed
    fix a b assume "a \<in> set (filter (\<lambda>n. i_val n \<noteq> TNil) (rev (node t)))"
    then have "(i_key a, i_val a) \<in> live (node t)" by (auto simp: live_def)
    then have "valid_key (i_key a)" using live_valid [OF wf_tableD(2) [OF w(1)]] by blast
    moreover assume "valid_key (i_key a) \<longrightarrow> \<not> luaO_rawequalObj (i_key a) (i_key b)"
    ultimately show "\<not> luaO_rawequalObj (fst (i_key a, i_val a)) (fst (i_key b, i_val b))" by simp
  qed
  moreover have "?R p q" if p: "p \<in> set (array_pairs (array t) [n..<sizearray t])"
    and q: "q \<in> set (node_pairs (rev (node t)))" for p q
  proof
    assume e: "luaO_rawequalObj (fst p) (fst q)"
    from p obtain i where i: "i < sizearray t" "fst p = TNumber (cast_num (int i + 1))" by (auto simp: array_pairs_def)
    then have "in_array t (fst p)" using ai by (simp add: in_array_def)
    then have "in_array t (fst q)" using arrayindex_rawequal [OF e] by (simp add: in_array_def)
    moreover have "(fst q, snd q) \<in> live (node t)" using q by (auto simp: node_pairs_def live_def)
    ultimately show False
      using live_valid(3) [OF wf_tableD(2) [OF w(1)]] wf_tableD(6) [OF w(1)] by metis
  qed
  ultimately show ?thesis by (simp add: pairs_from_def sorted_wrt_append)
qed

text \<open>How many keys of a table lie outside an array part of size \<open>n\<close>.\<close>

definition keys_outside :: "lua_table \<Rightarrow> nat \<Rightarrow> nat" where
  "keys_outside t n =
     length (filter (\<lambda>p. \<not> (0 < arrayindex (fst p) \<and> arrayindex (fst p) \<le> int n)) (pairs_from t n))"

lemma pairs_from_grow:
  "sizearray t \<le> n \<Longrightarrow> pairs_from t n = node_pairs (rev (node t))"
  by (simp add: pairs_from_def array_pairs_def)

text \<open>
  The state in which \<open>resize\<close> starts to re-insert: the new node vector is empty, the array part
  has its new size, every association outside of the common part is still to come.
\<close>

lemma resize_start:
  assumes t: "table_ok t" and n: "n \<le> 67108864"
    and f: "fresh t1 nh t2" "array t1 = array t @ replicate (n - sizearray t) TNil"
    and t3: "t3 = t2\<lparr>sizearray := n\<rparr>" and sz: "sizearray t1 = max n (sizearray t)"
    and room: "keys_outside t n + e \<le> nh"
  shows "todo (tget t) e t3 (pairs_from t n)"
proof -
  have w: "wf_table t" "length (array t) = sizearray t" using t by (auto simp: table_ok_def)
  have ar3: "array t3 = array t @ replicate (n - sizearray t) TNil" "sizearray t3 = n"
    using f t3 by (auto simp: fresh_def)
  have f3: "fresh t3 nh t3" using f(1) t3 by (auto simp: fresh_def cap_def)
  have len3: "sizearray t3 \<le> length (array t3)" using ar3 w(2) by simp
  note w3 = fresh_wf [OF f3 len3]
  have wt3: "wf_table t3" and nu: "nused t3 = 0" using w3(1,2) n ar3(2) by simp_all
  have ia3: "in_array t3 k \<longleftrightarrow> 0 < arrayindex k \<and> arrayindex k \<le> int n" for k
    using ar3 by (simp add: in_array_def)
  have out: "outside t3 ps = length (filter (\<lambda>p. \<not> (0 < arrayindex (fst p) \<and> arrayindex (fst p) \<le> int n)) ps)" for ps
    by (simp add: outside_def ia3)
  have get3: "tget t3 k = (if in_array t k \<and> arrayindex k \<le> int n then array t ! nat (arrayindex k - 1) else TNil)"
    if k: "valid_key k" for k
  proof (cases "in_array t3 k")
    case True
    have "nat (arrayindex k - 1) < sizearray t \<longleftrightarrow> in_array t k"
      using True by (auto simp: in_array_def)
    moreover have "nat (arrayindex k - 1) < n" using True ia3 by auto
    ultimately show ?thesis
      using True tget_array [OF wt3 k True] ar3 w(2) ia3 by (auto simp: nth_append)
  next
    case False
    then show ?thesis using w3(3) [OF _ k False] n ar3(2) ia3 by (auto simp: in_array_def)
  qed
  show ?thesis
    unfolding todo_def
  proof (intro conjI allI impI ballI)
    show "wf_table t3" by (rule wt3)
    show "tget t3 k = (if \<exists>p \<in> set (pairs_from t n). luaO_rawequalObj (fst p) k then TNil else tget t k)"
      if k: "valid_key k" for k
    proof (cases "\<exists>p \<in> set (pairs_from t n). luaO_rawequalObj (fst p) k")
      case True
      then obtain k0 v where p: "(k0, v) \<in> set (pairs_from t n)" "luaO_rawequalObj k0 k" by auto
      have "\<not> (in_array t k \<and> arrayindex k \<le> int n)"
        using pairs_from_cases(4) [OF t p(1)] arrayindex_rawequal [OF p(2)] by (auto simp: in_array_def)
      with True get3 [OF k] show ?thesis by simp
    next
      case False
      with pairs_from_complete [OF t k] get3 [OF k] show ?thesis by simp
    qed
    show "nused t3 + outside t3 (pairs_from t n) + e \<le> cap t3"
      using nu room out f3 by (simp add: keys_outside_def fresh_def)
    show "sorted_wrt (\<lambda>p q. \<not> luaO_rawequalObj (fst p) (fst q)) (pairs_from t n)"
      by (rule pairs_from_distinct [OF t])
  next
    fix p assume p: "p \<in> set (pairs_from t n)"
    note c = pairs_from_cases [OF t, of "fst p" "snd p" n]
    show v: "valid_key (fst p)" using c p by simp
    fix k assume "luaO_rawequalObj (fst p) k"
    then have "tget t k = tget t (fst p)"
      using luaH_get_rawequal [OF w(1) v] by (simp add: tget_def)
    then show "tget t k = snd p" using c p by simp
  qed
qed

text \<open>
  \<open>resize\<close> with room for every key outside of the new array part: no error, the same map, the
  sizes asked for, and room for \<open>e\<close> more keys.
\<close>

definition resized :: "lua_table \<Rightarrow> nat \<Rightarrow> nat \<Rightarrow> lua_table \<Rightarrow> bool" where
  "resized t n e t' \<longleftrightarrow> table_ok t' \<and> sizearray t' = n \<and> nused t' + e \<le> cap t'
     \<and> (\<forall>k. valid_key k \<longrightarrow> tget t' k = tget t k)"

lemma cut_array:
  assumes "todo target e t ps"
  shows "todo target e (t\<lparr>array := take (sizearray t) (array t)\<rparr>) ps"
proof -
  let ?t = "t\<lparr>array := take (sizearray t) (array t)\<rparr>"
  have ia: "in_array ?t k = in_array t k" for k by (simp add: in_array_def)
  have w: "wf_table t" "wf_table ?t" using assms by (auto simp: todo_def wf_table_def ia)
  have "tget ?t k = tget t k" if k: "valid_key k" for k
  proof (cases "in_array t k")
    case True
    then have "nat (arrayindex k - 1) < sizearray t" by (auto simp: in_array_def)
    with True ia show ?thesis by (simp add: tget_array [OF w(1) k] tget_array [OF w(2) k])
  next
    case False
    then show ?thesis by (intro tget_cong [OF w k]) simp_all
  qed
  moreover have "nused ?t = nused t" "cap ?t = cap t" "outside ?t ps = outside t ps"
    by (simp_all add: nused_def cap_def outside_def ia)
  ultimately show ?thesis using assms w by (simp add: todo_def)
qed

lemma todo_resized:
  assumes "todo (tget t) e t' []" "length (array t') = sizearray t'"
  shows "resized t (sizearray t') e t'"
  using assms by (simp add: todo_def resized_def table_ok_def outside_def)

lemma resize_ok:
  assumes nk: "nk_ok nk" and t: "table_ok t" and n: "n \<le> 67108864" and nh: "nh \<le> 67108864"
    and room: "keys_outside t n + e \<le> nh"
  shows "\<exists>t'. resize nk t n nh = Inr t' \<and> resized t n e t'"
proof -
  have w: "wf_table t" "length (array t) = sizearray t" using t by (auto simp: table_ok_def)
  define t1 where "t1 = (if sizearray t < n then setarrayvector t n else t)"
  have t1: "array t1 = array t @ replicate (n - sizearray t) TNil" "sizearray t1 = max n (sizearray t)"
    using w(2) by (auto simp: t1_def setarrayvector_def)
  obtain t2 where t2: "setnodevector t1 nh = Inr t2" "fresh t1 nh t2" using setnodevector_fresh [OF nh] by blast
  let ?t3 = "t2\<lparr>sizearray := n\<rparr>"
  note start = resize_start [OF t n t2(2) t1(1) refl t1(2) room]
  have "\<exists>t4. (if n < sizearray t
      then bindE (foldE (reinsert_array nk) ?t3 [n..<sizearray t]) (\<lambda>t3. Inr (t3\<lparr>array := take n (array t3)\<rparr>))
      else Inr t2) = Inr t4 \<and> todo (tget t) e t4 (node_pairs (rev (node t)))
      \<and> sizearray t4 = n \<and> length (array t4) = n"
  proof (cases "n < sizearray t")
    case True
    have ar: "array t2 = array t" using t1 t2 True by (simp add: fresh_def)
    have rng: "\<forall>i \<in> set [n..<sizearray t]. sizearray ?t3 \<le> i \<and> i < length (array ?t3) \<and> int i < INT_MAX"
      using wf_tableD(5) [OF w(1)] w(2) ar by auto
    obtain t4 where t4: "foldE (reinsert_array nk) ?t3 [n..<sizearray t] = Inr t4"
      "todo (tget t) e t4 (node_pairs (rev (node t)))" "array t4 = array t" "sizearray t4 = n"
      using reinsert_arrays [OF nk _ rng, of "tget t" e "node_pairs (rev (node t))"] start ar
      by (auto simp: pairs_from_def)
    with cut_array [OF t4(2)] True w(2) show ?thesis by simp
  next
    case False
    then have "n = max n (sizearray t)" by simp
    then have "?t3 = t2" using t1 t2(2) by (simp add: fresh_def)
    moreover have "length (array t2) = n" using t1 t2(2) False w(2) by (simp add: fresh_def)
    ultimately show ?thesis using start False pairs_from_grow [of t n] t1 t2(2) by (simp add: fresh_def)
  qed
  then obtain t4 where t4: "(if n < sizearray t
      then bindE (foldE (reinsert_array nk) ?t3 [n..<sizearray t]) (\<lambda>t3. Inr (t3\<lparr>array := take n (array t3)\<rparr>))
      else Inr t2) = Inr t4" "todo (tget t) e t4 (node_pairs (rev (node t)))"
    "sizearray t4 = n" "length (array t4) = n" by blast
  obtain t' where t': "foldE (reinsert_node nk) t4 (rev (node t)) = Inr t'" "todo (tget t) e t' []"
    "sizearray t' = n" "length (array t') = n"
    using reinsert_nodes [OF nk t4(2)] t4(3,4) by auto
  have "resize nk t n nh = Inr t'"
    unfolding resize_def Let_def t1_def [symmetric] t2(1) bindE_simps t4(1) t'(1) ..
  with t' todo_resized show ?thesis by metis
qed

end
