(* ===== verification/LuaTableRehash.thy ===== *)
theory LuaTableRehash
  imports LuaTableSet
begin

text \<open>
  The counting of \<open>rehash\<close>: the slices of \<open>nums\<close>, the size \<open>computesizes\<close> chooses, and the
  room \<open>rehash\<close> makes.
\<close>

section \<open>Slices\<close>

lemma ceillog2_slice:
  assumes "1 \<le> k"
  shows "nat (ceillog2 k) = j \<longleftrightarrow> 2 ^ j div 2 < k \<and> k \<le> 2 ^ j"
proof -
  note b = ceillog2_bounds [OF assms]
  have low: "2 ^ nat (ceillog2 k) div 2 < k"
    using b(3) assms by (cases "k = 1") (auto simp: ceillog2_def luaO_log2_eq nbits.simps [of 0])
  show ?thesis
  proof
    assume "2 ^ j div 2 < k \<and> k \<le> 2 ^ j"
    moreover have "\<not> nat (ceillog2 k) < j"
    proof
      assume "nat (ceillog2 k) < j"
      then obtain j' where j: "j = Suc j'" "nat (ceillog2 k) \<le> j'" by (cases j) auto
      then have "(2::int) ^ nat (ceillog2 k) \<le> 2 ^ j'" by (intro power_increasing) auto
      with calculation b(2) j show False by simp
    qed
    moreover have "\<not> j < nat (ceillog2 k)"
    proof
      assume "j < nat (ceillog2 k)"
      then obtain c where c: "nat (ceillog2 k) = Suc c" "j \<le> c" by (cases "nat (ceillog2 k)") auto
      then have "(2::int) ^ j \<le> 2 ^ c" by (intro power_increasing) auto
      with calculation low c show False by simp
    qed
    ultimately show "nat (ceillog2 k) = j" by simp
  qed (use low b in auto)
qed

text \<open>
  The number of keys whose array index fits \<open>P\<close>, in the array part and in the hash part.
\<close>

definition in_arr :: "lua_table \<Rightarrow> (int \<Rightarrow> bool) \<Rightarrow> nat" where
  "in_arr t P = card {i. i < sizearray t \<and> array t ! i \<noteq> TNil \<and> P (int i + 1)}"

definition in_hash :: "Node list \<Rightarrow> (int \<Rightarrow> bool) \<Rightarrow> nat" where
  "in_hash ns P = length (filter (\<lambda>n. i_val n \<noteq> TNil \<and> P (arrayindex (i_key n))) ns)"

lemma in_arr_add:
  assumes "\<And>k. \<not> (P k \<and> Q k)"
  shows "in_arr t P + in_arr t Q = in_arr t (\<lambda>k. P k \<or> Q k)"
proof -
  have "{i. i < sizearray t \<and> array t ! i \<noteq> TNil \<and> (P (int i + 1) \<or> Q (int i + 1))}
      = {i. i < sizearray t \<and> array t ! i \<noteq> TNil \<and> P (int i + 1)} \<union> {i. i < sizearray t \<and> array t ! i \<noteq> TNil \<and> Q (int i + 1)}"
    by auto
  then show ?thesis unfolding in_arr_def using assms by (subst card_Un_disjoint [symmetric]) auto
qed

lemma in_hash_add:
  assumes "\<And>k. \<not> (P k \<and> Q k)"
  shows "in_hash ns P + in_hash ns Q = in_hash ns (\<lambda>k. P k \<or> Q k)"
  using assms by (induction ns) (auto simp: in_hash_def)

lemma in_arr_cong:
  "(\<And>k. 1 \<le> k \<Longrightarrow> k \<le> int (sizearray t) \<Longrightarrow> P k = Q k) \<Longrightarrow> in_arr t P = in_arr t Q"
  unfolding in_arr_def by (rule arg_cong [where f = card]) auto

lemma in_hash_rev [simp]: "in_hash (rev ns) P = in_hash ns P"
  by (simp add: in_hash_def flip: rev_filter)

section \<open>Counting\<close>

definition in_slice :: "nat \<Rightarrow> int \<Rightarrow> bool" where
  "in_slice j k \<longleftrightarrow> 2 ^ j div 2 < k \<and> k \<le> 2 ^ j"

lemma slice_count:
  assumes "lim = min (sizearray t) (2 ^ lg)" "lim \<le> length (array t)" "i = Suc (2 ^ lg div 2)"
  shows "length (filter (\<lambda>v. \<not> ttisnil v) (drop (i - 1) (take lim (array t)))) = in_arr t (in_slice lg)"
proof -
  let ?a = "2 ^ lg div 2 :: nat"
  have bound: "sizearray t \<le> length (array t) \<or> lim = 2 ^ lg" using assms by auto
  have "length (filter (\<lambda>v. \<not> ttisnil v) (drop ?a (take lim (array t))))
      = card {j. j < lim - ?a \<and> array t ! (?a + j) \<noteq> TNil}"
    unfolding length_filter_conv_card using assms(2) by (intro arg_cong [where f = card]) (auto simp: ttisnil_def)
  also have "\<dots> = card ((\<lambda>j. ?a + j) ` {j. j < lim - ?a \<and> array t ! (?a + j) \<noteq> TNil})"
    by (rule card_image [symmetric]) simp
  also have "(\<lambda>j. ?a + j) ` {j. j < lim - ?a \<and> array t ! (?a + j) \<noteq> TNil}
      = {i. i < sizearray t \<and> array t ! i \<noteq> TNil \<and> in_slice lg (int i + 1)}"
  proof (rule set_eqI)
    fix x
    have "in_slice lg (int x + 1) \<longleftrightarrow> ?a \<le> x \<and> x < 2 ^ lg"
    proof -
      have "(2 ^ lg div 2 :: int) = int ?a" by (simp add: zdiv_int)
      moreover have "(2 ^ lg :: int) = int (2 ^ lg)" by simp
      ultimately show ?thesis unfolding in_slice_def by linarith
    qed
    then show "x \<in> (\<lambda>j. ?a + j) ` {j. j < lim - ?a \<and> array t ! (?a + j) \<noteq> TNil} \<longleftrightarrow>
        x \<in> {i. i < sizearray t \<and> array t ! i \<noteq> TNil \<and> in_slice lg (int i + 1)}"
      using assms(1) by (auto simp: image_iff intro!: exI [of _ "x - ?a"])
  qed
  finally show ?thesis using assms(3) by (simp add: in_arr_def)
qed

definition upto_slice :: "nat \<Rightarrow> int \<Rightarrow> bool" where
  "upto_slice lg k \<longleftrightarrow> 2 ^ lg div 2 < k"

lemma numusearray_loop_spec:
  assumes "sizearray t \<le> length (array t)" "sizearray t \<le> 2 ^ MAXBITS" "length nums = Suc MAXBITS"
    and "i = Suc (2 ^ lg div 2) \<or> sizearray t < i \<and> sizearray t < 2 ^ lg \<and> sizearray t \<le> 2 ^ lg div 2"
    and "lg \<le> Suc MAXBITS"
  shows "numusearray_loop t lg i nums ause =
    (map (\<lambda>j. nums ! j + (if lg \<le> j then in_arr t (in_slice j) else 0)) [0..<Suc MAXBITS],
     ause + in_arr t (upto_slice lg))"
  using assms
proof (induction t lg i nums ause rule: numusearray_loop.induct)
  case (1 t lg i nums ause)
  have id: "map (\<lambda>j. nums ! j + (if lg \<le> j then in_arr t (in_slice j) else 0)) [0..<Suc MAXBITS] = nums"
    if "\<And>j. lg \<le> j \<Longrightarrow> j \<le> MAXBITS \<Longrightarrow> in_arr t (in_slice j) = 0"
    using that 1(4) by (intro nth_equalityI) (auto simp del: upt_Suc)
  have zero: "in_arr t P = 0" if "\<And>k. 1 \<le> k \<Longrightarrow> k \<le> int (sizearray t) \<Longrightarrow> \<not> P k" for P
    using in_arr_cong [of t P "\<lambda>_. False"] that by (simp add: in_arr_def)
  show ?case
  proof (cases "lg \<le> MAXBITS")
    case False
    with 1(6) have lg: "lg = Suc MAXBITS" by simp
    have "in_arr t (upto_slice lg) = 0"
      using 1(3) lg by (intro zero) (auto simp: upto_slice_def)
    with id False show ?thesis by (subst numusearray_loop.simps) simp
  next
    case lgle: True
    show ?thesis
    proof (cases "sizearray t < 2 ^ lg \<and> (if sizearray t < 2 ^ lg then sizearray t else 2 ^ lg) < i")
      case True
      have small: "sizearray t \<le> 2 ^ lg div 2" using 1(5) True by auto
      have big: "int (sizearray t) \<le> 2 ^ j div 2" if "lg \<le> j" for j
      proof -
        have "(2::nat) ^ lg div 2 \<le> 2 ^ j div 2" using that by (intro div_le_mono power_increasing) auto
        with small have "sizearray t \<le> 2 ^ j div 2" by linarith
        then have "int (sizearray t) \<le> int (2 ^ j div 2)" by (simp only: of_nat_le_iff)
        then show ?thesis by (simp add: zdiv_int)
      qed
      have "in_arr t (in_slice j) = 0" if "lg \<le> j" for j
        using big [OF that] by (intro zero) (auto simp: in_slice_def)
      moreover have "in_arr t (upto_slice lg) = 0"
        using big [of lg] by (intro zero) (auto simp: upto_slice_def)
      ultimately show ?thesis using id True lgle by (subst numusearray_loop.simps) (auto simp: Let_def simp del: upt_Suc)
    next
      case False
      let ?lim = "if sizearray t < 2 ^ lg then sizearray t else 2 ^ lg"
      have i: "i = Suc (2 ^ lg div 2)" using 1(5) False by auto
      have lim: "?lim = min (sizearray t) (2 ^ lg)" by auto
      define lc where "lc = length (filter (\<lambda>v. \<not> ttisnil v) (drop (i - 1) (take ?lim (array t))))"
      have lc: "lc = in_arr t (in_slice lg)"
        unfolding lc_def by (rule slice_count [OF lim _ i]) (use 1(2) in auto)
      have step: "numusearray_loop t lg i nums ause
          = numusearray_loop t (Suc lg) (max i (Suc ?lim)) (nums[lg := nums ! lg + lc]) (ause + lc)"
        using False lgle by (subst numusearray_loop.simps) (simp add: lc_def Let_def)
      have "max i (Suc ?lim) = Suc (2 ^ Suc lg div 2)
        \<or> sizearray t < max i (Suc ?lim) \<and> sizearray t < 2 ^ Suc lg \<and> sizearray t \<le> 2 ^ Suc lg div 2"
        using i by (cases "sizearray t < 2 ^ lg") (auto simp: max_def)
      with 1(2-4) lgle have "numusearray_loop t (Suc lg) (max i (Suc ?lim)) (nums[lg := nums ! lg + lc]) (ause + lc)
        = (map (\<lambda>j. nums[lg := nums ! lg + lc] ! j + (if Suc lg \<le> j then in_arr t (in_slice j) else 0)) [0..<Suc MAXBITS],
           ause + lc + in_arr t (upto_slice (Suc lg)))"
        by (intro 1(1) [OF lgle refl refl False lc_def]) auto
      also have "map (\<lambda>j. nums[lg := nums ! lg + lc] ! j + (if Suc lg \<le> j then in_arr t (in_slice j) else 0)) [0..<Suc MAXBITS]
        = map (\<lambda>j. nums ! j + (if lg \<le> j then in_arr t (in_slice j) else 0)) [0..<Suc MAXBITS]"
        using 1(4) lgle lc by (intro map_cong refl) (auto simp: nth_list_update Suc_le_eq le_less)
      also have "ause + lc + in_arr t (upto_slice (Suc lg)) = ause + in_arr t (upto_slice lg)"
      proof -
        have "(1::int) \<le> 2 ^ lg" by simp
        then have "(2::int) ^ lg div 2 \<le> 2 ^ lg" by linarith
        then have "in_arr t (\<lambda>k. in_slice lg k \<or> upto_slice (Suc lg) k) = in_arr t (upto_slice lg)"
          by (intro in_arr_cong) (auto simp: in_slice_def upto_slice_def)
        moreover have "in_arr t (in_slice lg) + in_arr t (upto_slice (Suc lg))
            = in_arr t (\<lambda>k. in_slice lg k \<or> upto_slice (Suc lg) k)"
          by (rule in_arr_add) (simp add: in_slice_def upto_slice_def)
        ultimately show ?thesis using lc by simp
      qed
      finally show ?thesis using step by simp
    qed
  qed
qed

definition counted :: "int \<Rightarrow> bool" where
  "counted k \<longleftrightarrow> 0 < k \<and> k \<le> MAXASIZE"

text \<open>\<open>countint\<close> counts an index that fits the array part in its slice.\<close>

lemma countint_spec:
  assumes "length nums = Suc MAXBITS"
  shows "countint key nums =
    (map (\<lambda>j. nums ! j + of_bool (counted (arrayindex key) \<and> in_slice j (arrayindex key))) [0..<Suc MAXBITS],
     of_bool (counted (arrayindex key)))"
proof (cases "counted (arrayindex key)")
  case True
  define k where "k = arrayindex key"
  have k: "1 \<le> k" "k \<le> 67108864" using True by (auto simp: counted_def k_def)
  have sl: "in_slice j k \<longleftrightarrow> nat (ceillog2 k) = j" for j
    using ceillog2_slice [OF k(1)] by (auto simp: in_slice_def)
  have c: "nat (ceillog2 k) < Suc MAXBITS"
  proof (rule ccontr)
    assume "\<not> ?thesis"
    then obtain c where "nat (ceillog2 k) = Suc c" "26 \<le> c" by (cases "nat (ceillog2 k)") auto
    moreover from this have "(2::int) ^ 26 \<le> 2 ^ c" by (intro power_increasing) auto
    moreover have "in_slice (nat (ceillog2 k)) k" using sl by simp
    ultimately show False using k by (simp add: in_slice_def)
  qed
  have "nums[nat (ceillog2 k) := Suc (nums ! nat (ceillog2 k))]
      = map (\<lambda>j. nums ! j + of_bool (nat (ceillog2 k) = j)) [0..<Suc MAXBITS]"
    using assms c by (intro nth_equalityI) (auto simp: nth_list_update simp del: upt_Suc)
  then show ?thesis
    using k unfolding countint_def k_def [symmetric] sl counted_def by (simp del: upt_Suc)
next
  case False
  have "map (\<lambda>j. nums ! j) [0..<Suc MAXBITS] = nums"
    using assms by (metis map_nth)
  with False show ?thesis by (auto simp: countint_def counted_def Let_def simp del: upt_Suc)
qed

lemma numusehash_loop_spec:
  assumes "length nums = Suc MAXBITS"
  shows "numusehash_loop ns nums ause tot =
    (map (\<lambda>j. nums ! j + in_hash ns (\<lambda>k. counted k \<and> in_slice j k)) [0..<Suc MAXBITS],
     ause + in_hash ns counted, tot + in_hash ns (\<lambda>_. True))"
  using assms
proof (induction ns arbitrary: nums ause tot)
  case Nil
  then have "map (\<lambda>j. nums ! j) [0..<Suc MAXBITS] = nums" by (metis map_nth)
  then show ?case by (simp add: in_hash_def del: upt_Suc)
next
  case (Cons n ns)
  show ?case
  proof (cases "ttisnil (i_val n)")
    case True
    then show ?thesis using Cons by (simp add: in_hash_def ttisnil_def del: upt_Suc)
  next
    case False
    let ?nums = "map (\<lambda>j. nums ! j + of_bool (counted (arrayindex (i_key n)) \<and> in_slice j (arrayindex (i_key n)))) [0..<Suc MAXBITS]"
    have "numusehash_loop (n # ns) nums ause tot
        = numusehash_loop ns ?nums (ause + of_bool (counted (arrayindex (i_key n)))) (Suc tot)"
      using False by (simp only: numusehash_loop.simps countint_spec [OF Cons.prems] Let_def prod.case if_True not_False_eq_True)
    also have "\<dots> = (map (\<lambda>j. ?nums ! j + in_hash ns (\<lambda>k. counted k \<and> in_slice j k)) [0..<Suc MAXBITS],
        ause + of_bool (counted (arrayindex (i_key n))) + in_hash ns counted, Suc tot + in_hash ns (\<lambda>_. True))"
      by (rule Cons.IH) simp
    also have "map (\<lambda>j. ?nums ! j + in_hash ns (\<lambda>k. counted k \<and> in_slice j k)) [0..<Suc MAXBITS]
        = map (\<lambda>j. nums ! j + in_hash (n # ns) (\<lambda>k. counted k \<and> in_slice j k)) [0..<Suc MAXBITS]"
      using False by (intro map_cong refl) (simp add: in_hash_def ttisnil_def del: upt_Suc)
    also have "ause + of_bool (counted (arrayindex (i_key n))) + in_hash ns counted = ause + in_hash (n # ns) counted"
      using False by (simp add: in_hash_def ttisnil_def)
    also have "Suc tot + in_hash ns (\<lambda>_. True) = tot + in_hash (n # ns) (\<lambda>_. True)"
      using False by (simp add: in_hash_def ttisnil_def)
    finally show ?thesis .
  qed
qed

text \<open>What \<open>rehash\<close> knows before it chooses the sizes.\<close>

definition count_of :: "lua_table \<Rightarrow> tvalue \<Rightarrow> (int \<Rightarrow> bool) \<Rightarrow> nat" where
  "count_of t ek P = in_arr t P + in_hash (node t) P + of_bool (P (arrayindex ek))"

lemma in_arr_counted:
  assumes "sizearray t \<le> 67108864"
  shows "in_arr t (\<lambda>k. counted k \<and> P k) = in_arr t P"
  using assms by (intro in_arr_cong) (auto simp: counted_def)

lemma count_of_add:
  assumes "\<And>k. \<not> (P k \<and> Q k)"
  shows "count_of t ek P + count_of t ek Q = count_of t ek (\<lambda>k. P k \<or> Q k)"
  using in_arr_add [of P Q t, OF assms] in_hash_add [of P Q "node t", OF assms] assms [of "arrayindex ek"]
  by (auto simp: count_of_def)

lemma rehash_counts:
  assumes "sizearray t \<le> length (array t)" "sizearray t \<le> 67108864"
  obtains nums1 nasize1 nums2 nasize2 hashuse nums3 c where
    "numusearray t (replicate (Suc MAXBITS) 0) = (nums1, nasize1)"
    "numusehash t nums1 nasize1 = (nums2, nasize2, hashuse)"
    "countint ek nums2 = (nums3, c)"
    "length nums3 = Suc MAXBITS"
    "\<And>j. j \<le> MAXBITS \<Longrightarrow> nums3 ! j = count_of t ek (\<lambda>k. counted k \<and> in_slice j k)"
    "nasize2 + c = count_of t ek counted"
    "nasize1 + hashuse + 1 = count_of t ek (\<lambda>_. True)"
proof -
  let ?nums1 = "map (\<lambda>j. replicate (Suc MAXBITS) 0 ! j + (if 0 \<le> j then in_arr t (in_slice j) else 0)) [0..<Suc MAXBITS]"
  have 1: "numusearray t (replicate (Suc MAXBITS) 0) = (?nums1, 0 + in_arr t (upto_slice 0))"
    unfolding numusearray_def by (rule numusearray_loop_spec) (use assms in auto)
  have l1: "length ?nums1 = Suc MAXBITS" by simp
  let ?nums2 = "map (\<lambda>j. ?nums1 ! j + in_hash (node t) (\<lambda>k. counted k \<and> in_slice j k)) [0..<Suc MAXBITS]"
  have 2: "numusehash t ?nums1 n = (?nums2, n + in_hash (node t) counted, in_hash (node t) (\<lambda>_. True))" for n
    unfolding numusehash_def numusehash_loop_spec [OF l1] by simp
  have l2: "length ?nums2 = Suc MAXBITS" by simp
  let ?nums3 = "map (\<lambda>j. ?nums2 ! j + of_bool (counted (arrayindex ek) \<and> in_slice j (arrayindex ek))) [0..<Suc MAXBITS]"
  note 3 = countint_spec [OF l2, of ek]
  have all: "in_arr t (upto_slice 0) = in_arr t (\<lambda>_. True)" "in_arr t counted = in_arr t (\<lambda>_. True)"
    using assms(2) by (auto intro!: in_arr_cong simp: upto_slice_def counted_def)
  have "?nums3 ! j = count_of t ek (\<lambda>k. counted k \<and> in_slice j k)" if "j \<le> MAXBITS" for j
    using that in_arr_counted [OF assms(2), of "in_slice j"] by (simp add: count_of_def del: upt_Suc)
  moreover have "0 + in_arr t (upto_slice 0) + in_hash (node t) counted + of_bool (counted (arrayindex ek)) = count_of t ek counted"
    by (simp add: count_of_def all)
  moreover have "0 + in_arr t (upto_slice 0) + in_hash (node t) (\<lambda>_. True) + 1 = count_of t ek (\<lambda>_. True)"
    by (simp add: count_of_def all)
  moreover have "length ?nums3 = Suc MAXBITS" by simp
  ultimately show ?thesis using that [OF 1 2 3] by blast
qed

section \<open>computesizes\<close>

text \<open>
  The result is empty or a power of two more than half full. If the slices hold no more keys
  than fit (as distinct keys do), no greater power of two up to \<open>2^MAXBITS\<close> is more than half full.
\<close>

definition sizes_ok :: "nat list \<Rightarrow> nat \<Rightarrow> nat \<Rightarrow> nat \<Rightarrow> bool" where
  "sizes_ok nums i na n \<longleftrightarrow>
     na = 0 \<and> n = 0 \<or> (\<exists>m < i. n = 2 ^ m \<and> na = sum_list (take (Suc m) nums) \<and> n div 2 < na)"

definition sizes_best :: "nat list \<Rightarrow> nat \<Rightarrow> nat \<Rightarrow> bool" where
  "sizes_best nums i n \<longleftrightarrow> (\<forall>m < i. 2 ^ m div 2 < sum_list (take (Suc m) nums) \<longrightarrow> 2 ^ m \<le> n)"

definition slices_fit :: "nat list \<Rightarrow> bool" where
  "slices_fit nums \<longleftrightarrow> (\<forall>m < length nums. sum_list (take (Suc m) nums) \<le> 2 ^ m)"

lemma sum_take_le: "sum_list (take m nums) \<le> (sum_list nums :: nat)"
  using sum_list_append [of "take m nums" "drop m nums"] by simp

lemma sizes_step:
  assumes "i < length nums" "a = sum_list (take i nums)" "sizes_ok nums i na n"
    and "(na', n') = (if 0 < nums ! i \<and> 2 ^ i div 2 < a + nums ! i then (a + nums ! i, 2 ^ i) else (na, n))"
  shows "sizes_ok nums (Suc i) na' n'" "a + nums ! i = sum_list (take (Suc i) nums)"
    "slices_fit nums \<Longrightarrow> sizes_best nums i n \<Longrightarrow> sizes_best nums (Suc i) n'"
proof -
  show a': "a + nums ! i = sum_list (take (Suc i) nums)"
    using assms(1,2) by (simp add: take_Suc_conv_app_nth)
  show "sizes_ok nums (Suc i) na' n'"
    using assms(3,4) a' by (auto simp: sizes_ok_def split: if_splits intro: less_SucI)
  assume fit: "slices_fit nums" and best: "sizes_best nums i n"
  show "sizes_best nums (Suc i) n'"
  proof (cases "0 < nums ! i \<and> 2 ^ i div 2 < a + nums ! i")
    case True
    then have "n' = 2 ^ i" using assms(4) by simp
    then show ?thesis by (auto simp: sizes_best_def less_Suc_eq_le intro: power_increasing)
  next
    case False
    then have n: "n' = n" using assms(4) by auto
    have "\<not> 2 ^ i div 2 < a + nums ! i" if "nums ! i = 0"
    proof (cases i)
      case (Suc j)
      then have "a \<le> 2 ^ j" using fit assms(1,2) by (simp add: slices_fit_def)
      with Suc that show ?thesis by simp
    qed (use assms(2) that in simp)
    with False n best a' show ?thesis by (auto simp: sizes_best_def less_Suc_eq)
  qed
qed

lemma sizes_stop:
  assumes "sum_list nums \<le> 2 ^ i div 2 \<or> sum_list (take i nums) = sum_list nums \<and> 0 < i \<and> slices_fit nums"
    "sizes_best nums i n" "length nums = Suc MAXBITS"
  shows "sizes_best nums (Suc MAXBITS) n"
  unfolding sizes_best_def
proof (intro allI impI)
  fix m assume m: "m < Suc MAXBITS" "2 ^ m div 2 < sum_list (take (Suc m) nums)"
  show "2 ^ m \<le> n"
  proof (cases "m < i")
    case False
    then have "(2::nat) ^ i div 2 \<le> 2 ^ m div 2" by (intro div_le_mono power_increasing) auto
    then have s: "2 ^ i div 2 < sum_list nums" using m(2) sum_take_le [of "Suc m" nums] by linarith
    then have "\<not> sum_list nums \<le> 2 ^ i div 2" by linarith
    with assms(1) have "0 < i" "sum_list (take i nums) = sum_list nums" "slices_fit nums" by blast+
    then obtain j where j: "i = Suc j" "sum_list (take i nums) = sum_list nums" "slices_fit nums"
      by (cases i) blast+
    moreover have "j < length nums" using j(1) False m(1) assms(3) by simp
    ultimately have "sum_list (take (Suc j) nums) \<le> 2 ^ j" unfolding slices_fit_def by blast
    with j have "sum_list nums \<le> 2 ^ j" by simp
    with s j show ?thesis by simp
  qed (use assms(2) m in \<open>simp add: sizes_best_def\<close>)
qed

lemma computesizes_loop_spec:
  assumes "length nums = Suc MAXBITS" "narray = sum_list nums" "a = sum_list (take i nums)"
    and "i \<le> Suc MAXBITS" "sizes_ok nums i na n" "i = 0 \<or> a \<noteq> narray"
    and "slices_fit nums \<Longrightarrow> sizes_best nums i n"
    and "computesizes_loop nums narray i a na n = (na', n')"
  shows "sizes_ok nums (Suc MAXBITS) na' n' \<and> (slices_fit nums \<longrightarrow> sizes_best nums (Suc MAXBITS) n')"
  using assms
proof (induction nums narray i a na n rule: computesizes_loop.induct)
  case (1 nums narray i a na n)
  have mono: "i \<le> Suc MAXBITS \<Longrightarrow> sizes_ok nums i x y \<Longrightarrow> sizes_ok nums (Suc MAXBITS) x y" for i x y
    by (auto simp: sizes_ok_def intro: less_le_trans)
  show ?case
  proof (cases "2 ^ i div 2 < narray")
    case False
    then have "na' = na" "n' = n" using 1(9) by (auto simp: computesizes_loop.simps)
    with mono [OF 1(5,6)] sizes_stop [of nums i n] False 1(2,3,8) show ?thesis by auto
  next
    case True
    have "i \<noteq> Suc MAXBITS" using 1(2-4,7) by (metis nat.simps(3) order_refl take_all)
    then have i: "i < length nums" using 1(2,5) by simp
    obtain na1 n1 where r: "(na1, n1) =
        (if 0 < nums ! i \<and> 2 ^ i div 2 < a + nums ! i then (a + nums ! i, 2 ^ i) else (na, n))"
      by (metis surj_pair)
    note st = sizes_step [OF i 1(4,6) r]
    show ?thesis
    proof (cases "a + nums ! i = narray")
      case eq: True
      then have "na' = na1" "n' = n1" using 1(9) True r by (subst (asm) computesizes_loop.simps; auto simp: Let_def split: if_splits)+
      with mono [of "Suc i"] st i 1(2,3,8) eq sizes_stop [of nums "Suc i" n1] show ?thesis by auto
    next
      case False
      have e: "computesizes_loop nums narray (Suc i) (a + nums ! i) na1 n1 = (na', n')"
        using 1(9) True False r by (subst (asm) computesizes_loop.simps) (auto simp: Let_def split: if_splits)
      show ?thesis
        by (rule 1(1) [OF True refl r refl False _ _ _ _ _ _ _ e])
           (use 1(2,3,8) st i False in auto)
    qed
  qed
qed

lemma computesizes_spec:
  assumes "length nums = Suc MAXBITS" "computesizes nums (sum_list nums) = (na, n)"
  shows "sizes_ok nums (Suc MAXBITS) na n" "slices_fit nums \<Longrightarrow> sizes_best nums (Suc MAXBITS) n"
  using computesizes_loop_spec [OF assms(1) refl _ _ _ _ _ assms(2) [unfolded computesizes_def]]
  by (auto simp: sizes_ok_def sizes_best_def)

section \<open>rehash\<close>

lemma in_arr_mono: "(\<And>k. P k \<Longrightarrow> Q k) \<Longrightarrow> in_arr t P \<le> in_arr t Q"
  unfolding in_arr_def by (rule card_mono) auto

lemma count_of_cong:
  assumes "\<And>k. P k = Q k"
  shows "count_of t ek P = count_of t ek Q"
proof -
  have "P = Q" using assms by blast
  then show ?thesis by simp
qed

lemma upto_count:
  assumes "\<And>j. j \<le> MAXBITS \<Longrightarrow> nums ! j = count_of t ek (\<lambda>k. counted k \<and> in_slice j k)"
    "length nums = Suc MAXBITS" "m \<le> Suc MAXBITS"
  shows "sum_list (take m nums) = count_of t ek (\<lambda>k. counted k \<and> 0 < m \<and> k \<le> 2 ^ m div 2)"
  using assms(3)
proof (induction m)
  case 0
  then show ?case by (simp add: count_of_def in_arr_def in_hash_def)
next
  case (Suc m)
  then have "sum_list (take (Suc m) nums)
      = count_of t ek (\<lambda>k. counted k \<and> 0 < m \<and> k \<le> 2 ^ m div 2) + count_of t ek (\<lambda>k. counted k \<and> in_slice m k)"
    using assms(1,2) by (simp add: take_Suc_conv_app_nth)
  also have "\<dots> = count_of t ek (\<lambda>k. (counted k \<and> 0 < m \<and> k \<le> 2 ^ m div 2) \<or> (counted k \<and> in_slice m k))"
    by (rule count_of_add) (auto simp: in_slice_def)
  also have "\<dots> = count_of t ek (\<lambda>k. counted k \<and> 0 < Suc m \<and> k \<le> 2 ^ Suc m div 2)"
  proof (rule count_of_cong)
    fix k
    have "(1::int) \<le> 2 ^ m" by simp
    then have "(2::int) ^ m div 2 \<le> 2 ^ m" by linarith
    then show "(counted k \<and> 0 < m \<and> k \<le> 2 ^ m div 2) \<or> (counted k \<and> in_slice m k)
        \<longleftrightarrow> counted k \<and> 0 < Suc m \<and> k \<le> 2 ^ Suc m div 2"
      by (cases m) (auto simp: in_slice_def counted_def)
  qed
  finally show ?case .
qed

lemma length_array_pairs:
  "length (filter P (array_pairs arr is)) = length (filter (\<lambda>i. arr ! i \<noteq> TNil \<and> P (TNumber (cast_num (int i + 1)), arr ! i)) is)"
  by (induction "is") (auto simp: array_pairs_def)

lemma length_node_pairs:
  "length (filter P (node_pairs ns)) = length (filter (\<lambda>n. i_val n \<noteq> TNil \<and> P (i_key n, i_val n)) ns)"
  by (induction ns) (auto simp: node_pairs_def)

lemma keys_outside_eq:
  assumes "table_ok t"
  shows "keys_outside t n = in_arr t (\<lambda>k. int n < k) + in_hash (node t) (\<lambda>k. \<not> (0 < k \<and> k \<le> int n))"
proof -
  have sz: "sizearray t \<le> 67108864" using assms wf_tableD(5) by (auto simp: table_ok_def)
  let ?P = "\<lambda>p. \<not> (0 < arrayindex (fst p) \<and> arrayindex (fst p) \<le> int n)"
  have ai: "arrayindex (TNumber (cast_num (int i + 1))) = int i + 1" if "i < sizearray t" for i
    by (rule cast_num_key(1)) (use that sz in auto)
  have "filter (\<lambda>i. array t ! i \<noteq> TNil \<and> ?P (TNumber (cast_num (int i + 1)), array t ! i)) [n..<sizearray t]
      = filter (\<lambda>i. array t ! i \<noteq> TNil) [n..<sizearray t]"
    by (rule filter_cong) (auto simp: ai)
  moreover have "length (filter (\<lambda>i. array t ! i \<noteq> TNil) [n..<sizearray t]) = in_arr t (\<lambda>k. int n < k)"
  proof -
    have "length (filter (\<lambda>i. array t ! i \<noteq> TNil) [n..<sizearray t])
        = card (set (filter (\<lambda>i. array t ! i \<noteq> TNil) [n..<sizearray t]))"
      by (rule distinct_card [symmetric]) simp
    also have "set (filter (\<lambda>i. array t ! i \<noteq> TNil) [n..<sizearray t])
        = {i. i < sizearray t \<and> array t ! i \<noteq> TNil \<and> int n < int i + 1}" by auto
    finally show ?thesis by (simp add: in_arr_def)
  qed
  moreover have "length (filter ?P (node_pairs (rev (node t)))) = in_hash (node t) (\<lambda>k. \<not> (0 < k \<and> k \<le> int n))"
    using in_hash_rev [of "node t"] unfolding length_node_pairs in_hash_def by simp
  ultimately show ?thesis
    unfolding keys_outside_def pairs_from_def by (simp add: length_array_pairs)
qed

text \<open>The number of keys with a value.\<close>

definition num_keys :: "lua_table \<Rightarrow> nat" where
  "num_keys t = keys_outside t 0"

lemma in_hash_mono: "(\<And>k. P k \<Longrightarrow> Q k) \<Longrightarrow> in_hash ns P \<le> in_hash ns Q"
  unfolding in_hash_def by (induction ns) auto

lemma keys_outside_le: "table_ok t \<Longrightarrow> keys_outside t n \<le> keys_outside t 0"
  unfolding keys_outside_eq by (intro add_mono in_arr_mono in_hash_mono) auto

lemma setnodevector_overflow:
  assumes "67108864 < nh"
  shows "setnodevector t nh = Inl (LUA_ERRRUN ''table overflow'')"
proof -
  define c where "c = nat (ceillog2 (int nh))"
  have "int nh \<le> 2 ^ c" using ceillog2_bounds [of "int nh"] assms by (simp add: c_def)
  moreover have "(2::int) ^ c \<le> 67108864" if "c \<le> MAXBITS"
    using power_increasing [OF that, of "2::int"] by simp
  moreover have "67108864 < int nh" using assms by simp
  ultimately have "MAXBITS < c" by linarith
  then show ?thesis using assms by (simp add: setnodevector_def c_def)
qed

text \<open>
  \<open>rehash\<close> either finds that the hash part cannot be made large enough, or rebuilds the table
  with the same associations and room for the new key.
\<close>

lemma rehash_spec:
  assumes nk: "nk_ok nk" and t: "table_ok t"
  shows "rehash nk t ek = Inl (LUA_ERRRUN ''table overflow'') \<and> 67108864 \<le> num_keys t
    \<or> (\<exists>t'. rehash nk t ek = Inr t' \<and> table_ok t' \<and> (\<forall>k. valid_key k \<longrightarrow> tget t' k = tget t k)
         \<and> (in_array t' ek \<or> nused t' < cap t'))"
proof -
  have sz: "sizearray t \<le> length (array t)" "sizearray t \<le> 67108864"
    using t wf_tableD(4,5) by (auto simp: table_ok_def)
  obtain nums1 nasize1 nums2 nasize2 hashuse nums3 c where r:
    "numusearray t (replicate (Suc MAXBITS) 0) = (nums1, nasize1)"
    "numusehash t nums1 nasize1 = (nums2, nasize2, hashuse)"
    "countint ek nums2 = (nums3, c)" "length nums3 = Suc MAXBITS"
    and cnt: "\<And>j. j \<le> MAXBITS \<Longrightarrow> nums3 ! j = count_of t ek (\<lambda>k. counted k \<and> in_slice j k)"
    and tot: "nasize2 + c = count_of t ek counted" "nasize1 + hashuse + 1 = count_of t ek (\<lambda>_. True)"
    by (rule rehash_counts [OF sz, where ek = ek]) (rule that, assumption+)
  obtain na n where cs: "computesizes nums3 (nasize2 + c) = (na, n)" by fastforce
  have upto: "sum_list (take m nums3) = count_of t ek (\<lambda>k. counted k \<and> 0 < m \<and> k \<le> 2 ^ m div 2)"
    if "m \<le> Suc MAXBITS" for m by (rule upto_count [OF cnt r(4) that])
  have sum: "sum_list nums3 = nasize2 + c"
  proof -
    have "sum_list nums3 = count_of t ek (\<lambda>k. counted k \<and> 0 < Suc MAXBITS \<and> k \<le> 2 ^ Suc MAXBITS div 2)"
      using upto [of "Suc MAXBITS"] r(4) by simp
    also have "\<dots> = count_of t ek counted" by (rule count_of_cong) (auto simp: counted_def)
    finally show ?thesis using tot(1) by simp
  qed
  have ok: "sizes_ok nums3 (Suc MAXBITS) na n" by (rule computesizes_spec [OF r(4) cs [folded sum]])
  have na: "na = count_of t ek (\<lambda>k. 0 < k \<and> k \<le> int n)" and n: "n \<le> 67108864"
  proof -
    consider "na = 0" "n = 0" | m where "m \<le> MAXBITS" "n = 2 ^ m" "na = sum_list (take (Suc m) nums3)"
      using ok by (auto simp: sizes_ok_def less_Suc_eq_le)
    then have "na = count_of t ek (\<lambda>k. 0 < k \<and> k \<le> int n) \<and> n \<le> 67108864"
    proof cases
      case 1
      then show ?thesis by (auto simp: count_of_def in_arr_def in_hash_def intro!: arg_cong [where f = length])
    next
      case (2 m)
      have le: "(2::int) ^ m \<le> 2 ^ MAXBITS" "(2::nat) ^ m \<le> 2 ^ MAXBITS" using 2(1) by (intro power_increasing; simp)+
      have "na = count_of t ek (\<lambda>k. counted k \<and> 0 < Suc m \<and> k \<le> 2 ^ Suc m div 2)"
        using 2 upto [of "Suc m"] by simp
      also have "\<dots> = count_of t ek (\<lambda>k. 0 < k \<and> k \<le> int n)"
        by (rule count_of_cong) (use 2 le in \<open>auto simp: counted_def\<close>)
      finally show ?thesis using le 2 by simp
    qed
    then show "na = count_of t ek (\<lambda>k. 0 < k \<and> k \<le> int n)" "n \<le> 67108864" by auto
  qed
  define nh where "nh = nasize1 + hashuse + 1 - na"
  have reh: "rehash nk t ek = resize nk t n nh"
    unfolding rehash_def Let_def r(1) prod.case r(2,3) cs nh_def ..
  have "na + count_of t ek (\<lambda>k. \<not> (0 < k \<and> k \<le> int n)) = nasize1 + hashuse + 1"
    unfolding na tot(2) by (subst count_of_add) auto
  then have nh: "nh = keys_outside t n + of_bool (\<not> (0 < arrayindex ek \<and> arrayindex ek \<le> int n))"
  proof -
    have "in_arr t (\<lambda>k. \<not> (0 < k \<and> k \<le> int n)) = in_arr t (\<lambda>k. int n < k)" by (rule in_arr_cong) auto
    with \<open>na + _ = _\<close> show ?thesis
      unfolding nh_def keys_outside_eq [OF t] count_of_def by simp
  qed
  show ?thesis
  proof (cases "nh \<le> 67108864")
    case True
    from resize_ok [OF nk t n True eq_refl [OF nh [symmetric]]] obtain t' where
      t': "resize nk t n nh = Inr t'" "resized t n (of_bool (\<not> (0 < arrayindex ek \<and> arrayindex ek \<le> int n))) t'"
      by blast
    then have "in_array t' ek \<or> nused t' < cap t'"
      by (cases "in_array t' ek") (auto simp: resized_def in_array_def)
    with t' reh show ?thesis by (auto simp: resized_def)
  next
    case False
    then have "setnodevector x nh = Inl (LUA_ERRRUN ''table overflow'')" for x
      by (intro setnodevector_overflow) simp
    moreover have "67108864 \<le> num_keys t"
    proof -
      have "nh \<le> keys_outside t n + 1" unfolding nh by simp
      with False keys_outside_le [OF t, of n] show ?thesis unfolding num_keys_def by linarith
    qed
    ultimately show ?thesis unfolding reh resize_def Let_def by simp
  qed
qed

section \<open>luaH_set\<close>

lemma stored_ok: "stored t k v t' \<Longrightarrow> table_ok t \<Longrightarrow> table_ok t'"
  by (simp add: stored_def table_ok_def)

lemma grown_ok: "grown t t' \<Longrightarrow> table_ok t \<Longrightarrow> table_ok t'"
  by (simp add: grown_def table_ok_def)

text \<open>
  \<open>r\<close> is a slot of the key \<open>k\<close> in a table with the map of \<open>t\<close>, and storing \<open>v\<close> through it
  updates the map.
\<close>

definition set_ok :: "lua_table \<Rightarrow> tvalue \<Rightarrow> lua_table \<times> slot \<Rightarrow> bool" where
  "set_ok t k r \<longleftrightarrow> slot_of (fst r) k (snd r)
     \<and> (\<forall>k'. valid_key k' \<longrightarrow> tget (fst r) k' = tget t k')
     \<and> (\<forall>v. table_ok (slot_set (fst r) (snd r) v)
          \<and> (\<forall>k'. valid_key k' \<longrightarrow> tget (slot_set (fst r) (snd r) v) k' = (if luaO_rawequalObj k k' then v else tget t k')))"

lemma slotted_set_ok:
  assumes "table_ok t" "slotted t k r"
  shows "set_ok t k r"
  unfolding set_ok_def
proof (intro conjI allI impI)
  fix v
  have st: "stored t k v (slot_set (fst r) (snd r) v)" using assms(2) by (simp add: slotted_def)
  then show "table_ok (slot_set (fst r) (snd r) v)" using assms(1) by (rule stored_ok)
  fix k' assume "valid_key k'"
  then show "tget (slot_set (fst r) (snd r) v) k' = (if luaO_rawequalObj k k' then v else tget t k')"
    using st by (simp add: stored_def)
qed (use assms(2) in \<open>auto simp: slotted_def\<close>)

lemma set_ok_cong:
  assumes "set_ok t k r" "\<And>k'. valid_key k' \<Longrightarrow> tget t k' = tget t' k'"
  shows "set_ok t' k r"
  using assms by (auto simp: set_ok_def)

definition overflow :: "lua_table \<Rightarrow> (lua_table \<times> slot) res \<Rightarrow> bool" where
  "overflow t r \<longleftrightarrow> r = Inl (LUA_ERRRUN ''table overflow'') \<and> 67108864 \<le> num_keys t"

lemma num_keys_grown:
  assumes "table_ok t" "grown t t'"
  shows "num_keys t' = num_keys t"
proof -
  have ok': "table_ok t'" by (rule grown_ok [OF assms(2,1)])
  have w: "wf_table t" "wf_table t'" using assms by (auto simp: table_ok_def grown_def)
  have "length (node_pairs (rev (node x))) = card (live (node x))" if "table_ok x" for x
  proof -
    have "sorted_wrt (\<lambda>p q. \<not> luaO_rawequalObj (fst p) (fst q)) (node_pairs (rev (node x)))"
      using pairs_from_distinct [OF that, of "sizearray x"] pairs_from_grow [of x "sizearray x"] by simp
    moreover have "luaO_rawequalObj (fst p) (fst p)" if "p \<in> set (node_pairs (rev (node x)))" for p
    proof -
      have "(fst p, snd p) \<in> live (node x)" using that by (auto simp: node_pairs_def live_def)
      with \<open>table_ok x\<close> show ?thesis
        using live_valid(1) [OF wf_tableD(2)] valid_rawequal_refl unfolding table_ok_def by blast
    qed
    ultimately have "distinct (node_pairs (rev (node x)))"
      unfolding distinct_conv_nth sorted_wrt_iff_nth_less by (metis linorder_neqE_nat nth_mem)
    then have "length (node_pairs (rev (node x))) = card (set (node_pairs (rev (node x))))"
      by (simp add: distinct_card)
    also have "set (node_pairs (rev (node x))) = live (node x)" by (auto simp: node_pairs_def live_def)
    finally show ?thesis .
  qed
  note cnt = this
  have "num_keys x = in_arr x (\<lambda>k. 0 < k) + card (live (node x))" if "table_ok x" for x
    unfolding num_keys_def keys_outside_eq [OF that] cnt [OF that, symmetric]
    by (simp add: in_hash_def node_pairs_def rev_filter [symmetric])
  then show ?thesis using assms ok' by (simp add: grown_def in_arr_def)
qed

lemma newkey_spec:
  assumes t: "table_ok t" and k: "valid_key k" "luaH_get t k = None"
  shows "overflow t (newkey (Suc d) t k) \<or> (\<exists>r. newkey (Suc d) t k = Inr r \<and> set_ok t k r)"
proof -
  have w: "wf_table t" using t by (simp add: table_ok_def)
  have na: "\<not> in_array t k" using luaH_get_None [OF w k(1)] k(2) by simp
  let ?grow = "\<lambda>t'. bindE (rehash (newkey d) t' k) (\<lambda>t''. luaH_set_with (newkey d) t'' k)"
  show ?thesis
  proof (rule insert_key_spec [OF w k, where grow = ?grow])
    fix r assume "insert_key ?grow t k = Inr r" "inserted t k r"
    then show ?thesis using inserted_slotted [OF w na] slotted_set_ok [OF t] by auto
  next
    fix t1 assume r: "insert_key ?grow t k = ?grow t1" and g: "grown t t1"
    have t1: "table_ok t1" by (rule grown_ok [OF g t])
    from rehash_spec [OF nk_ok_newkey t1, of d k] show ?thesis
    proof (rule disjE)
      assume "rehash (newkey d) t1 k = Inl (LUA_ERRRUN ''table overflow'') \<and> 67108864 \<le> num_keys t1"
      with r num_keys_grown [OF t g] show ?thesis by (simp add: overflow_def)
    next
      assume "\<exists>t'. rehash (newkey d) t1 k = Inr t' \<and> table_ok t'
        \<and> (\<forall>k. valid_key k \<longrightarrow> tget t' k = tget t1 k) \<and> (in_array t' k \<or> nused t' < cap t')"
      then obtain t2 where t2: "rehash (newkey d) t1 k = Inr t2" "table_ok t2"
        "\<forall>k. valid_key k \<longrightarrow> tget t2 k = tget t1 k" "in_array t2 k \<or> nused t2 < cap t2" by blast
      have "wf_table t2" using t2(2) by (simp add: table_ok_def)
      then obtain r2 where r2: "luaH_set_with (newkey d) t2 k = Inr r2" "slotted t2 k r2"
        using luaH_set_with_room [OF nk_ok_newkey _ k(1) t2(4)] by blast
      have "set_ok t k r2"
        by (rule set_ok_cong [OF slotted_set_ok [OF t2(2) r2(2)]]) (use t2(3) grown_tget [OF w g] in auto)
      with r t2 r2 show ?thesis by simp
    qed
  qed
qed

lemma luaH_set_with_spec:
  assumes t: "table_ok t" and k: "valid_key k"
  shows "overflow t (luaH_set_with (newkey (Suc d)) t k)
    \<or> (\<exists>r. luaH_set_with (newkey (Suc d)) t k = Inr r \<and> set_ok t k r)"
proof (cases "luaH_get t k")
  case (Some s)
  then have "slot_of (t\<lparr>flags := 0\<rparr>) k s" using t k by (simp add: slot_of_def table_ok_def)
  from found_slotted [OF this] have "slotted t k (t\<lparr>flags := 0\<rparr>, s)" by (simp add: slotted_flags)
  then show ?thesis using Some k slotted_set_ok [OF t] by (auto simp: luaH_set_with_eq)
next
  case None
  have t0: "table_ok (t\<lparr>flags := 0\<rparr>)" using t by (simp add: table_ok_def)
  have "pairs_from (t\<lparr>flags := 0\<rparr>) n = pairs_from t n" for n by (simp add: pairs_from_def)
  then have nk: "num_keys (t\<lparr>flags := 0\<rparr>) = num_keys t" by (simp add: num_keys_def keys_outside_def)
  have e: "luaH_set_with (newkey (Suc d)) t k = newkey (Suc d) (t\<lparr>flags := 0\<rparr>) k"
    using None k by (simp add: luaH_set_with_eq)
  from newkey_spec [OF t0 k, of d] None show ?thesis
    unfolding e by (simp del: newkey.simps add: overflow_def nk) (auto simp del: newkey.simps dest: set_ok_cong)
qed

end
