(* ===== verification/LuaTableApi.thy ===== *)
theory LuaTableApi
  imports LuaTableRehash
begin

text \<open>
  What the rest of the interpreter relies on: a table is a map. The contract is a locale,
  interpreted on the functions of ltable.c; the theorems on \<open>luaH_next\<close> and
  \<open>luaH_getn\<close> complete it.
\<close>

section \<open>The contract of a map\<close>

locale lua_map =
  fixes inv :: "'t \<Rightarrow> bool" and okk :: "'k \<Rightarrow> bool" and eqk :: "'k \<Rightarrow> 'k \<Rightarrow> bool"
    and lookup :: "'t \<Rightarrow> 'k \<Rightarrow> 'v" and store :: "'t \<Rightarrow> 'k \<Rightarrow> 'v \<Rightarrow> 't res"
  assumes eqk_refl: "okk k \<Longrightarrow> eqk k k"
    and eqk_sym: "eqk k k' \<Longrightarrow> eqk k' k"
    and eqk_trans: "eqk k k' \<Longrightarrow> eqk k' k'' \<Longrightarrow> eqk k k''"
    and store_inv: "inv t \<Longrightarrow> okk k \<Longrightarrow> store t k v = Inr t' \<Longrightarrow> inv t'"
    and lookup_store: "inv t \<Longrightarrow> okk k \<Longrightarrow> okk k' \<Longrightarrow> store t k v = Inr t' \<Longrightarrow>
      lookup t' k' = (if eqk k k' then v else lookup t k')"
begin

lemma lookup_same: "inv t \<Longrightarrow> okk k \<Longrightarrow> store t k v = Inr t' \<Longrightarrow> lookup t' k = v"
  using lookup_store eqk_refl by simp

lemma lookup_eqk:
  assumes "inv t" "okk k" "okk k'" "store t k v = Inr t'" "eqk k k'"
  shows "lookup t' k' = lookup t' k"
  using assms lookup_store lookup_same by simp

text \<open>Stores to different keys commute, a second store to a key wins.\<close>

lemma store_commute:
  assumes "inv t" "okk k1" "okk k2" "okk k" "\<not> eqk k1 k2"
    and "store t k1 v1 = Inr a" "store a k2 v2 = Inr b"
    and "store t k2 v2 = Inr c" "store c k1 v1 = Inr d"
  shows "lookup b k = lookup d k"
proof -
  have i: "inv a" "inv c" using assms store_inv by blast+
  have "\<not> (eqk k1 k \<and> eqk k2 k)" using assms(5) eqk_sym eqk_trans by blast
  then show ?thesis
    using lookup_store [OF assms(1,2,4,6)] lookup_store [OF i(1) assms(3,4,7)]
      lookup_store [OF assms(1,3,4,8)] lookup_store [OF i(2) assms(2,4,9)] by auto
qed

lemma store_twice:
  assumes "inv t" "okk k" "okk k'" "store t k v1 = Inr a" "store a k v2 = Inr b" "store t k v2 = Inr c"
  shows "lookup b k' = lookup c k'"
proof -
  have "inv a" using assms store_inv by blast
  then show ?thesis
    using lookup_store [OF assms(1,2,3,4)] lookup_store [OF _ assms(2,3,5)] lookup_store [OF assms(1,2,3,6)]
    by simp
qed

text \<open>A sequence of stores: the last one to a key equal to \<open>k\<close> gives its value.\<close>

fun stores :: "'t \<Rightarrow> ('k \<times> 'v) list \<Rightarrow> 't res" where
  "stores t [] = Inr t"
| "stores t ((k, v) # kvs) = bindE (store t k v) (\<lambda>t'. stores t' kvs)"

lemma stores_lookup:
  assumes "inv t" "\<forall>kv \<in> set kvs. okk (fst kv)" "okk k" "stores t kvs = Inr t'"
  shows "inv t' \<and> lookup t' k =
    (case find (\<lambda>kv. eqk (fst kv) k) (rev kvs) of None \<Rightarrow> lookup t k | Some kv \<Rightarrow> snd kv)"
  using assms(1,2,4)
proof (induction kvs arbitrary: t)
  case (Cons kv kvs)
  obtain k1 v1 where kv: "kv = (k1, v1)" by fastforce
  from Cons.prems kv obtain a where a: "store t k1 v1 = Inr a" "stores a kvs = Inr t'"
    by (auto simp: bindE_Inr_iff)
  have fa: "find P (xs @ [x]) = (case find P xs of None \<Rightarrow> if P x then Some x else None | Some y \<Rightarrow> Some y)" for P xs and x :: "'k \<times> 'v"
    by (induction xs) auto
  have k1: "okk k1" "\<forall>kv \<in> set kvs. okk (fst kv)" using Cons.prems(2) kv by auto
  note ih = Cons.IH [OF store_inv [OF Cons.prems(1) k1(1) a(1)] k1(2) a(2)]
  from ih lookup_store [OF Cons.prems(1) k1(1) assms(3) a(1)] show ?case
    by (auto simp: fa kv split: option.splits)
qed simp

end

section \<open>Tables are maps\<close>

text \<open>\<open>luaH_set\<close> and the assignment through the pointer it returns.\<close>

definition luaH_store :: "lua_table \<Rightarrow> tvalue \<Rightarrow> tvalue \<Rightarrow> lua_table res" where
  "luaH_store t k v = bindE (luaH_set t k) (\<lambda>(t', s). Inr (slot_set t' s v))"

lemma luaH_set_cases:
  assumes "table_ok t" "valid_key k"
  shows "overflow t (luaH_set t k) \<or> (\<exists>r. luaH_set t k = Inr r \<and> set_ok t k r)"
  using luaH_set_with_spec [OF assms, of 0] by (simp add: luaH_set_def)

lemma luaH_set_Inr:
  assumes "table_ok t" "valid_key k" "luaH_set t k = Inr r"
  shows "set_ok t k r"
  using luaH_set_cases [OF assms(1,2)] assms(3) by (auto simp: overflow_def)

lemma luaH_store_Inr:
  assumes "table_ok t" "valid_key k" "luaH_store t k v = Inr t'"
  shows "table_ok t'" "valid_key k' \<Longrightarrow> tget t' k' = (if luaO_rawequalObj k k' then v else tget t k')"
proof -
  from assms(3) obtain r where r: "luaH_set t k = Inr r" "t' = slot_set (fst r) (snd r) v"
    by (auto simp: luaH_store_def bindE_Inr_iff)
  from luaH_set_Inr [OF assms(1,2) r(1)] r(2)
  show "table_ok t'" "valid_key k' \<Longrightarrow> tget t' k' = (if luaO_rawequalObj k k' then v else tget t k')"
    by (simp_all add: set_ok_def)
qed

interpretation tab: lua_map table_ok valid_key luaO_rawequalObj tget luaH_store
proof
  show "valid_key k \<Longrightarrow> luaO_rawequalObj k k" for k by (rule valid_rawequal_refl)
  show "luaO_rawequalObj k k' \<Longrightarrow> luaO_rawequalObj k' k" for k k' by (simp add: rawequal_sym)
  show "luaO_rawequalObj k k' \<Longrightarrow> luaO_rawequalObj k' k'' \<Longrightarrow> luaO_rawequalObj k k''" for k k' k''
    by (rule rawequal_trans)
qed (use luaH_store_Inr in blast)+

lemma luaH_new_ok:
  assumes "narray \<le> 67108864" "nhash \<le> 67108864"
  obtains t where "luaH_new narray nhash = Inr t" "table_ok t" "\<And>k. valid_key k \<Longrightarrow> tget t k = TNil"
proof -
  define t0 where "t0 = setarrayvector \<lparr>flags = 255, lsizenode = 0, metatable = None, array = [],
    node = [empty_node], is_dummy = True, lastfree = 0, sizearray = 0\<rparr> narray"
  obtain t where t: "setnodevector t0 nhash = Inr t" "fresh t0 nhash t"
    using setnodevector_fresh [OF assms(2)] by blast
  have a: "array t0 = replicate narray TNil" "sizearray t0 = narray" by (simp_all add: t0_def setarrayvector_def)
  note w = fresh_wf [OF t(2), unfolded a, simplified, OF assms(1)]
  have "tget t k = TNil" if k: "valid_key k" for k
  proof (cases "in_array t k")
    case True
    then show ?thesis using tget_array [OF w(1) k True] a t(2) by (auto simp: fresh_def in_array_def)
  qed (use w(3) k in blast)
  moreover have "table_ok t" using w(1) t(2) a by (simp add: table_ok_def fresh_def)
  moreover have "luaH_new narray nhash = Inr t" using t(1) by (simp add: luaH_new_def t0_def Let_def)
  ultimately show ?thesis using that by blast
qed

section \<open>luaH_getn\<close>

lemma nil_at_tget:
  assumes "INT_MIN \<le> j" "j \<le> INT_MAX"
  shows "nil_at t j \<longleftrightarrow> tget t (TNumber (cast_num j)) = TNil"
  using cast_num_key(3) [OF assms] by (simp add: nil_at_def ttisnil_def tget_def)

text \<open>A boundary of \<open>isnil\<close>: the last index before a nil.\<close>

definition is_boundary :: "(int \<Rightarrow> bool) \<Rightarrow> int \<Rightarrow> bool" where
  "is_boundary isnil j \<longleftrightarrow> 0 \<le> j \<and> (j = 0 \<or> \<not> isnil j) \<and> isnil (j + 1)"

lemma boundary_spec:
  assumes "0 \<le> i" "i < j" "i = 0 \<or> \<not> isnil i" "isnil j"
  shows "is_boundary isnil (boundary isnil i j) \<and> boundary isnil i j < j"
  using assms
proof (induction isnil i j rule: boundary.induct)
  case (1 isnil i j)
  show ?case
  proof (cases "1 < j - i")
    case True
    let ?m = "(i + j) div 2"
    have m: "i < ?m" "?m < j" using True by linarith+
    show ?thesis
    proof (cases "isnil ?m")
      case t: True
      with 1(1) [OF True refl t] 1(3-) m True show ?thesis
        by (subst (1 2) boundary.simps) (auto simp: Let_def)
    next
      case f: False
      with 1(2) [OF True refl f] 1(3-) m True show ?thesis
        by (subst (1 2) boundary.simps) (auto simp: Let_def)
    qed
  next
    case False
    then have "j = i + 1" using 1(4) by simp
    with 1 False show ?thesis by (subst (1 2) boundary.simps) (simp add: is_boundary_def)
  qed
qed

text \<open>
  A table has more integer keys within reach than values, so the linear search meets a nil.
\<close>

lemma nil_exists:
  assumes t: "table_ok t" and n: "n = sizearray t + length (node t) + 1"
  shows "\<exists>j. 1 \<le> j \<and> j \<le> int n \<and> nil_at t j"
proof (rule ccontr)
  have w: "wf_table t" using t by (simp add: table_ok_def)
  have len: "length (node t) \<le> 67108864"
  proof -
    have "length (node t) = 2 ^ lsizenode t" "lsizenode t \<le> 26" using w by (auto simp: wf_table_def)
    then show ?thesis using power_increasing [of "lsizenode t" 26 "2::nat"] by simp
  qed
  have nb: "int n \<le> INT_MAX" using n len wf_tableD(5) [OF w] by simp
  assume none: "\<not> ?thesis"
  have slot: "\<exists>s. slot_of t (TNumber (cast_num j)) s \<and> s \<in> SArray ` {..<sizearray t} \<union> SNode ` {..<length (node t)}"
    if j: "1 \<le> j" "j \<le> int n" for j
  proof -
    have jr: "INT_MIN \<le> j" "j \<le> INT_MAX" using j nb by auto
    from none j have "tget t (TNumber (cast_num j)) \<noteq> TNil" using nil_at_tget [OF jr] by blast
    then obtain s where s: "luaH_get t (TNumber (cast_num j)) = Some s"
      by (cases "luaH_get t (TNumber (cast_num j))") (auto simp: tget_def read_slot_def)
    then have so: "slot_of t (TNumber (cast_num j)) s" using w cast_num_key(2) [OF jr] by (simp add: slot_of_def)
    from slot_in_range [OF so] t have "s \<in> SArray ` {..<sizearray t} \<union> SNode ` {..<length (node t)}"
      by (cases s) (auto simp: table_ok_def)
    with so show ?thesis by blast
  qed
  define f where "f j = (SOME s. slot_of t (TNumber (cast_num j)) s \<and> s \<in> SArray ` {..<sizearray t} \<union> SNode ` {..<length (node t)})" for j
  have f: "slot_of t (TNumber (cast_num j)) (f j)" "f j \<in> SArray ` {..<sizearray t} \<union> SNode ` {..<length (node t)}"
    if "1 \<le> j" "j \<le> int n" for j
    using someI_ex [OF slot [OF that]] by (auto simp: f_def)
  have "inj_on f {1..int n}"
  proof (rule inj_onI)
    fix a b assume ab: "a \<in> {1..int n}" "b \<in> {1..int n}" "f a = f b"
    then have "luaO_rawequalObj (TNumber (cast_num a)) (TNumber (cast_num b))"
      using slot_rawequal [OF f(1) [of a]] f(1) [of b] by simp
    then have "arrayindex (TNumber (cast_num a)) = arrayindex (TNumber (cast_num b))"
      by (rule arrayindex_rawequal)
    moreover have "arrayindex (TNumber (cast_num a)) = a" "arrayindex (TNumber (cast_num b)) = b"
      by (rule cast_num_key(1); use ab nb in auto)+
    ultimately show "a = b" by simp
  qed
  moreover have "f ` {1..int n} \<subseteq> SArray ` {..<sizearray t} \<union> SNode ` {..<length (node t)}"
    using f(2) by (intro image_subsetI) (simp only: atLeastAtMost_iff)
  ultimately have "card {1..int n} \<le> card (SArray ` {..<sizearray t} \<union> SNode ` {..<length (node t)})"
    by (intro card_inj_on_le) auto
  also have "\<dots> \<le> card (SArray ` {..<sizearray t}) + card (SNode ` {..<length (node t)})"
    by (rule card_Un_le)
  also have "\<dots> \<le> sizearray t + length (node t)"
    using card_image_le [of "{..<sizearray t}" SArray] card_image_le [of "{..<length (node t)}" SNode]
    by simp
  finally show False using n by simp
qed

lemma linear_search_spec:
  assumes "1 \<le> i" "i = 1 \<or> \<not> nil_at t (i - 1)" "\<exists>j. i \<le> j \<and> j < i + int fuel \<and> nil_at t j"
  shows "\<exists>r. linear_search t fuel i = Some r \<and> is_boundary (nil_at t) r \<and> r < i + int fuel"
  using assms
proof (induction t fuel i rule: linear_search.induct)
  case (2 t fuel i)
  show ?case
  proof (cases "nil_at t i")
    case True
    with 2 show ?thesis by (auto simp: is_boundary_def)
  next
    case False
    from 2(4) obtain j where "i \<le> j" "j < i + int (Suc fuel)" "nil_at t j" by blast
    with False have "i + 1 \<le> j" "j < (i + 1) + int fuel" by (cases "i = j"; simp)+
    with \<open>nil_at t j\<close> have "\<exists>j. i + 1 \<le> j \<and> j < (i + 1) + int fuel \<and> nil_at t j" by blast
    with 2(1) [OF False] 2(2) False obtain r where
      "linear_search t fuel (i + 1) = Some r" "is_boundary (nil_at t) r" "r < (i + 1) + int fuel" by auto
    with False show ?thesis by simp
  qed
qed auto

lemma unbound_loop_spec:
  assumes "table_ok t" "0 \<le> i" "i < j" "i = 0 \<or> \<not> nil_at t i" "j \<le> MAX_INT"
  shows "\<exists>r. unbound_loop t i j = Some r \<and> is_boundary (nil_at t) r \<and> r \<le> MAX_INT"
  using assms
proof (induction t i j rule: unbound_loop.induct)
  case (1 t i j)
  show ?case
  proof (cases "nil_at t j")
    case True
    with boundary_spec [of i j "nil_at t"] 1 show ?thesis by (auto simp: unbound_loop.simps [of t i j])
  next
    case nn: False
    show ?thesis
    proof (cases "MAX_INT < j * 2")
      case True
      let ?n = "sizearray t + length (node t) + 1"
      obtain k where "1 \<le> k" "k \<le> int ?n" "nil_at t k" using nil_exists [OF 1(2) refl] by blast
      then have "\<exists>k. 1 \<le> k \<and> k < 1 + int ?n \<and> nil_at t k" by (intro exI [of _ k]) simp
      from linear_search_spec [OF _ _ this] obtain r where
        r: "linear_search t ?n 1 = Some r" "is_boundary (nil_at t) r" "r < 1 + int ?n" by auto
      have "length (node t) \<le> 67108864" "sizearray t \<le> 67108864"
        using 1(2) power_increasing [of "lsizenode t" 26 "2::nat"] by (auto simp: table_ok_def wf_table_def)
      with r nn True 1 show ?thesis by (auto simp: unbound_loop.simps [of t i j] MAX_INT_def)
    next
      case False
      with 1(1) [OF _ nn False] nn 1(2-) show ?thesis by (auto simp: unbound_loop.simps [of t i j])
    qed
  qed
qed

lemma luaH_getn_spec:
  assumes t: "table_ok t"
  shows "\<exists>n. luaH_getn t = Some n \<and> n \<le> MAX_INT \<and> is_boundary (nil_at t) n"
proof -
  have w: "wf_table t" and len: "length (array t) = sizearray t" using t by (auto simp: table_ok_def)
  have sz: "int (sizearray t) \<le> 67108864" using wf_tableD(5) [OF w] by simp
  have arr: "nil_at t j \<longleftrightarrow> ttisnil (array t ! nat (j - 1))" if "1 \<le> j" "j \<le> int (sizearray t)" for j
  proof -
    have jr: "INT_MIN \<le> j" "j \<le> INT_MAX" using that sz by auto
    have "in_array t (TNumber (cast_num j))" using that cast_num_key(1) [OF jr] by (simp add: in_array_def)
    then show ?thesis using nil_at_tget [OF jr] tget_array [OF w cast_num_key(2) [OF jr]] cast_num_key(1) [OF jr]
      by (simp add: ttisnil_def)
  qed
  let ?j = "int (sizearray t)" and ?P = "\<lambda>m. ttisnil (array t ! nat (m - 1))"
  show ?thesis
  proof (cases "0 < ?j \<and> ?P ?j")
    case True
    from boundary_spec [of 0 ?j ?P] True
    have b: "is_boundary ?P (boundary ?P 0 ?j)" "boundary ?P 0 ?j < ?j" by auto
    then have "is_boundary (nil_at t) (boundary ?P 0 ?j)"
      using arr [of "boundary ?P 0 ?j"] arr [of "boundary ?P 0 ?j + 1"] by (auto simp: is_boundary_def)
    with b True sz show ?thesis by (simp add: luaH_getn_def Let_def MAX_INT_def)
  next
    case False
    have present: "?j = 0 \<or> \<not> nil_at t ?j" using False arr [of ?j] by auto
    show ?thesis
    proof (cases "is_dummy t")
      case d: True
      have jr: "INT_MIN \<le> ?j + 1" "?j + 1 \<le> INT_MAX" using sz by auto
      have "\<not> in_array t (TNumber (cast_num (?j + 1)))" using cast_num_key(1) [OF jr] by (simp add: in_array_def)
      moreover have "live (node t) = {}" using wf_tableD(7) [OF w d] by (simp add: live_def empty_node_def)
      ultimately have "tget t (TNumber (cast_num (?j + 1))) = TNil"
        using tget_node [OF w cast_num_key(2) [OF jr], of "tget t (TNumber (cast_num (?j + 1)))"] by auto
      then have "is_boundary (nil_at t) ?j"
        using present nil_at_tget [OF jr] by (simp add: is_boundary_def)
      moreover have "luaH_getn t = Some ?j" unfolding luaH_getn_def Let_def using d False by auto
      ultimately show ?thesis using sz by (simp add: MAX_INT_def)
    next
      case nd: False
      have "luaH_getn t = unbound_loop t ?j (?j + 1)"
        using False nd by (auto simp: luaH_getn_def unbound_search_def Let_def)
      with unbound_loop_spec [OF t, of ?j "?j + 1"] present sz show ?thesis by (auto simp: MAX_INT_def)
    qed
  qed
qed

section \<open>luaH_next\<close>

text \<open>The associations in the order of a traversal: the array part, then the nodes.\<close>

definition array_entries :: "lua_table \<Rightarrow> nat \<Rightarrow> (tvalue \<times> tvalue) list" where
  "array_entries t i = array_pairs (array t) [i..<sizearray t]"

definition node_entries :: "lua_table \<Rightarrow> nat \<Rightarrow> (tvalue \<times> tvalue) list" where
  "node_entries t i = node_pairs (drop i (node t))"

definition entries :: "lua_table \<Rightarrow> (tvalue \<times> tvalue) list" where
  "entries t = array_entries t 0 @ node_entries t 0"

fun hd_opt :: "'a list \<Rightarrow> 'a option" where
  "hd_opt [] = None"
| "hd_opt (x # xs) = Some x"

lemma next_array_eq:
  "next_array t i = (case array_entries t i of [] \<Rightarrow> Inl (max i (sizearray t)) | kv # _ \<Rightarrow> Inr kv)"
proof (induction t i rule: next_array.induct)
  case (1 t i)
  show ?case
  proof (cases "i < sizearray t")
    case True
    then have "array_entries t i = (if array t ! i \<noteq> TNil then [(TNumber (cast_num (int i + 1)), array t ! i)] else [])
        @ array_entries t (Suc i)"
      by (simp add: array_entries_def array_pairs_def upt_conv_Cons)
    with True 1 show ?thesis by (subst next_array.simps) (auto simp: ttisnil_def split: list.splits)
  next
    case False
    then show ?thesis by (subst next_array.simps) (simp add: array_entries_def array_pairs_def)
  qed
qed

lemma next_node_eq:
  assumes "length (node t) = sizenode t"
  shows "next_node t i = hd_opt (node_entries t i)"
  using assms
proof (induction t i rule: next_node.induct)
  case (1 t i)
  show ?case
  proof (cases "i < sizenode t")
    case True
    then have "node_entries t i = (if i_val (node t ! i) \<noteq> TNil then [(i_key (node t ! i), i_val (node t ! i))] else [])
        @ node_entries t (Suc i)"
      using 1(2) by (simp add: node_entries_def node_pairs_def Cons_nth_drop_Suc [symmetric])
    with True 1 show ?thesis by (subst next_node.simps) (auto simp: ttisnil_def)
  next
    case False
    then show ?thesis using 1(2) by (subst next_node.simps) (simp add: node_entries_def node_pairs_def)
  qed
qed

text \<open>The associations from index \<open>i\<close> of the traversal on, where nodes are numbered after the array.\<close>

definition entries_from :: "lua_table \<Rightarrow> nat \<Rightarrow> (tvalue \<times> tvalue) list" where
  "entries_from t i = array_entries t i @ node_entries t (i - sizearray t)"

lemma luaH_next_from:
  assumes "wf_table t" "findindex t key = Inr i" "-1 \<le> i"
  shows "luaH_next t key = Inr (hd_opt (entries_from t (nat (i + 1))))"
proof -
  have l: "length (node t) = sizenode t" using assms(1) by (simp add: wf_tableD(3))
  let ?i = "nat (i + 1)"
  show ?thesis
  proof (cases "array_entries t ?i")
    case Nil
    have "max ?i (sizearray t) - sizearray t = ?i - sizearray t" by simp
    with Nil show ?thesis
      using assms(2) by (simp add: luaH_next_def next_array_eq next_node_eq [OF l] entries_from_def)
  next
    case (Cons kv kvs)
    then show ?thesis using assms(2) by (simp add: luaH_next_def next_array_eq entries_from_def)
  qed
qed

lemma entries_from_0: "entries_from t 0 = entries t"
  by (simp add: entries_from_def entries_def)

lemma split_at_filter:
  assumes "n < length (filter P xs)"
  obtains i where "i < length xs" "P (xs ! i)" "filter P xs ! n = xs ! i"
    "filter P (drop (Suc i) xs) = drop (Suc n) (filter P xs)"
  using assms
proof (induction xs arbitrary: n thesis)
  case (Cons x xs)
  show ?case
  proof (cases "P x")
    case True
    show ?thesis
    proof (cases n)
      case 0
      with True show ?thesis by (intro Cons.prems(1) [of 0]) auto
    next
      case (Suc m)
      with True Cons.prems(2) have "m < length (filter P xs)" by simp
      then obtain i where "i < length xs" "P (xs ! i)" "filter P xs ! m = xs ! i"
        "filter P (drop (Suc i) xs) = drop (Suc m) (filter P xs)" using Cons.IH by blast
      with True Suc show ?thesis by (intro Cons.prems(1) [of "Suc i"]) auto
    qed
  next
    case False
    with Cons.prems(2) have "n < length (filter P xs)" by simp
    then obtain i where "i < length xs" "P (xs ! i)" "filter P xs ! n = xs ! i"
      "filter P (drop (Suc i) xs) = drop (Suc n) (filter P xs)" using Cons.IH by blast
    with False show ?thesis by (intro Cons.prems(1) [of "Suc i"]) auto
  qed
qed simp

text \<open>Every association has an index, and the associations after it are those from the next index.\<close>

lemma entry_index:
  assumes "table_ok t" "n < length (entries t)"
  obtains (arr) i where "i < sizearray t" "fst (entries t ! n) = TNumber (cast_num (int i + 1))"
      "entries_from t (Suc i) = drop (Suc n) (entries t)"
  | (nod) i where "i < length (node t)" "i_val (node t ! i) \<noteq> TNil" "fst (entries t ! n) = i_key (node t ! i)"
      "entries_from t (Suc (i + sizearray t)) = drop (Suc n) (entries t)"
proof (cases "n < length (array_entries t 0)")
  case True
  then have "n < length (filter (\<lambda>i. array t ! i \<noteq> TNil) [0..<sizearray t])"
    by (simp add: array_entries_def array_pairs_def)
  then obtain i where i: "i < length [0..<sizearray t]" "filter (\<lambda>i. array t ! i \<noteq> TNil) [0..<sizearray t] ! n = [0..<sizearray t] ! i"
    "filter (\<lambda>i. array t ! i \<noteq> TNil) (drop (Suc i) [0..<sizearray t]) = drop (Suc n) (filter (\<lambda>i. array t ! i \<noteq> TNil) [0..<sizearray t])"
    using split_at_filter by blast
  have "array_entries t (Suc i) = drop (Suc n) (array_entries t 0)"
    using i(3) by (simp add: array_entries_def array_pairs_def drop_map del: upt_Suc)
  moreover have "entries t ! n = (TNumber (cast_num (int i + 1)), array t ! i)"
    using True i(1,2) by (simp add: entries_def nth_append array_entries_def array_pairs_def)
  ultimately show ?thesis
    using i(1) True by (intro arr [of i]) (auto simp: entries_from_def entries_def)
next
  case False
  define m where "m = n - length (array_entries t 0)"
  have "m < length (filter (\<lambda>n. i_val n \<noteq> TNil) (node t))"
    using assms(2) False by (simp add: m_def entries_def node_entries_def node_pairs_def)
  then obtain i where i: "i < length (node t)" "i_val (node t ! i) \<noteq> TNil"
    "filter (\<lambda>n. i_val n \<noteq> TNil) (node t) ! m = node t ! i"
    "filter (\<lambda>n. i_val n \<noteq> TNil) (drop (Suc i) (node t)) = drop (Suc m) (filter (\<lambda>n. i_val n \<noteq> TNil) (node t))"
    using split_at_filter by blast
  have "node_entries t (Suc i) = drop (Suc m) (node_entries t 0)"
    using i(4) by (simp add: node_entries_def node_pairs_def drop_map)
  moreover have "array_entries t (Suc (i + sizearray t)) = []" by (simp add: array_entries_def array_pairs_def)
  moreover have "fst (entries t ! n) = i_key (node t ! i)"
    using False i(3) \<open>m < _\<close> by (simp add: entries_def nth_append m_def node_entries_def node_pairs_def)
  moreover have "Suc n - length (array_entries t 0) = Suc m" using False by (simp add: m_def Suc_diff_le)
  ultimately show ?thesis
    using i(1,2) False by (intro nod [of i]) (auto simp: entries_from_def entries_def)
qed

text \<open>
  The collector turns the key of an emptied node into a dead key, which \<open>next\<close> still takes for
  the key it was. \<open>dead_apart\<close>: no dead key was the key of another association.
\<close>

definition dead_apart :: "lua_table \<Rightarrow> bool" where
  "dead_apart t \<longleftrightarrow> (\<forall>n \<in> set (node t). \<forall>kv \<in> live (node t). \<not> dead_match (i_key n) (fst kv))"

lemma findindex_node:
  assumes t: "table_ok t" and d: "dead_apart t" and i: "i < length (node t)" "i_val (node t ! i) \<noteq> TNil"
  shows "findindex t (i_key (node t ! i)) = Inr (int i + int (sizearray t))"
proof -
  have w: "wf_table t" using t by (simp add: table_ok_def)
  let ?k = "i_key (node t ! i)"
  have lv: "(?k, i_val (node t ! i)) \<in> live (node t)" using i by (auto simp: live_alt)
  have k: "valid_key ?k" using live_valid(1) [OF wf_tableD(2) [OF w] lv] .
  have "?k \<noteq> TNil" using k by auto
  then have na: "\<not> in_array t ?k" using wf_tableD(6) [OF w, of i] i by (simp add: used_def)
  have P: "luaO_rawequalObj (i_key n) ?k \<or> dead_match (i_key n) ?k \<longleftrightarrow> luaO_rawequalObj (i_key n) ?k"
    if "n \<in> set (node t)" for n
    using d lv that by (force simp: dead_apart_def)
  have "chain_find (\<lambda>n. luaO_rawequalObj (i_key n) ?k \<or> dead_match (i_key n) ?k) (node t) (Suc (length (node t)))
      (mainposition t ?k) = Some i"
    using chain_find_iff [OF wf_tableD(1,2) [OF w] k P] i valid_rawequal_refl [OF k]
    by (simp add: mainposition_def wf_tableD(3) [OF w])
  moreover have "?k \<noteq> TNil" using k by auto
  ultimately show ?thesis
    using na unfolding findindex_def in_array_def Let_def ttisnil_def by simp
qed

text \<open>The key before position \<open>n\<close> of the traversal; nil starts it.\<close>

definition key_before :: "lua_table \<Rightarrow> nat \<Rightarrow> tvalue" where
  "key_before t n = (case n of 0 \<Rightarrow> TNil | Suc m \<Rightarrow> fst (entries t ! m))"

lemma luaH_next_spec:
  assumes t: "table_ok t" and d: "dead_apart t" and n: "n \<le> length (entries t)"
  shows "luaH_next t (key_before t n) = Inr (if n < length (entries t) then Some (entries t ! n) else None)"
proof -
  have w: "wf_table t" using t by (simp add: table_ok_def)
  have hd: "hd_opt (drop n xs) = (if n < length xs then Some (xs ! n) else None)" for xs :: "(tvalue \<times> tvalue) list"
    by (cases "n < length xs") (simp_all add: Cons_nth_drop_Suc [symmetric])
  show ?thesis
  proof (cases n)
    case 0
    have "findindex t TNil = Inr (- 1)" by (simp add: findindex_def ttisnil_def)
    with luaH_next_from [OF w this] 0 hd [of "entries t"] show ?thesis
      by (simp add: key_before_def entries_from_0)
  next
    case (Suc m)
    then have "m < length (entries t)" using n by simp
    with t have "\<exists>i. findindex t (fst (entries t ! m)) = Inr i \<and> -1 \<le> i \<and> entries_from t (nat (i + 1)) = drop n (entries t)"
    proof (cases rule: entry_index)
      case (arr i)
      have ir: "INT_MIN \<le> int i + 1" "int i + 1 \<le> INT_MAX" using arr(1) wf_tableD(5) [OF w] by auto
      have "findindex t (TNumber (cast_num (int i + 1))) = Inr (int i)"
        using arr(1) cast_num_key(1) [OF ir] unfolding findindex_def ttisnil_def Let_def by simp
      with arr Suc show ?thesis by (simp add: nat_add_distrib)
    next
      case (nod i)
      with findindex_node [OF t d nod(1,2)] Suc show ?thesis
        by (intro exI [of _ "int i + int (sizearray t)"]) (simp add: nat_add_distrib nat_int_add)
    qed
    with luaH_next_from [OF w] hd [of "entries t"] Suc show ?thesis by (auto simp: key_before_def)
  qed
qed

lemma entries_complete:
  assumes t: "table_ok t" and k: "valid_key k"
  shows "(\<exists>k'. (k', v) \<in> set (entries t) \<and> luaO_rawequalObj k' k) \<longleftrightarrow> v \<noteq> TNil \<and> tget t k = v"
proof -
  have w: "wf_table t" using t by (simp add: table_ok_def)
  have e: "set (entries t) = set (pairs_from t 0)"
    by (auto simp: entries_def pairs_from_def array_entries_def node_entries_def node_pairs_def)
  show ?thesis
  proof
    assume "\<exists>k'. (k', v) \<in> set (entries t) \<and> luaO_rawequalObj k' k"
    then obtain k' where k': "(k', v) \<in> set (pairs_from t 0)" "luaO_rawequalObj k' k" unfolding e by blast
    from pairs_from_cases [OF t k'(1)] luaH_get_rawequal [OF w _ k'(2)] show "v \<noteq> TNil \<and> tget t k = v"
      by (simp add: tget_def)
  next
    assume v: "v \<noteq> TNil \<and> tget t k = v"
    show "\<exists>k'. (k', v) \<in> set (entries t) \<and> luaO_rawequalObj k' k"
    proof (rule ccontr)
      assume none: "\<not> ?thesis"
      have no: "\<not> luaO_rawequalObj (fst p) k" if p: "p \<in> set (pairs_from t 0)" for p
      proof
        assume "luaO_rawequalObj (fst p) k"
        moreover from this pairs_from_cases [OF t, of "fst p" "snd p" 0] p luaH_get_rawequal [OF w]
        have "snd p = tget t k" by (simp add: tget_def)
        ultimately show False using none p v unfolding e by (metis prod.collapse)
      qed
      then have "tget t k = TNil" using pairs_from_complete [OF t k, of 0] by (auto simp: in_array_def)
      with v show False by blast
    qed
  qed
qed

lemma sorted_wrt_append_rev:
  assumes "\<And>x y. R x y = R y x"
  shows "sorted_wrt R (xs @ rev ys) = sorted_wrt R (xs @ ys)"
proof -
  have "(\<lambda>x y. R y x) = R" using assms by blast
  then show ?thesis by (simp add: sorted_wrt_append sorted_wrt_rev)
qed

lemma entries_once:
  assumes t: "table_ok t" and nm: "n < length (entries t)" "m < length (entries t)"
    and e: "luaO_rawequalObj (fst (entries t ! n)) (fst (entries t ! m))"
  shows "n = m"
proof -
  let ?R = "\<lambda>p q. \<not> luaO_rawequalObj (fst p) (fst (q :: tvalue \<times> tvalue))"
  have "pairs_from t 0 = array_entries t 0 @ rev (node_entries t 0)"
    by (simp add: pairs_from_def array_entries_def node_entries_def node_pairs_def rev_map rev_filter)
  then have "sorted_wrt ?R (array_entries t 0 @ rev (node_entries t 0))"
    using pairs_from_distinct [OF t, of 0] by simp
  then have "sorted_wrt ?R (entries t)"
    unfolding entries_def by (subst (asm) sorted_wrt_append_rev) (simp_all add: rawequal_sym)
  then show ?thesis
    using nm e rawequal_sym unfolding sorted_wrt_iff_nth_less by (metis linorder_neqE_nat)
qed

section \<open>The properties of the table\<close>

text \<open>A table with one boolean key, for the examples.\<close>

definition sample :: lua_table where
  "sample = \<lparr>flags = 255, lsizenode = 0, metatable = None, array = [TBoolean 1],
    node = [\<lparr>i_val = TBoolean 0, i_key = TBoolean 1, gnext = None\<rparr>],
    is_dummy = False, lastfree = 1, sizearray = 1\<rparr>"

lemma sample_ok: "table_ok sample"
proof -
  have e: "edges (node sample) = {}" by (auto simp: edges_def sample_def nth_Cons')
  have u: "used (node sample) i \<longleftrightarrow> i = 0" for i by (auto simp: used_def sample_def)
  have m: "mpos (node sample) 0 = 0"
    by (simp add: mpos_def sample_def main_pos_def hashpow2_def lmod_def)
  have "\<exists>l. length (node sample) = 2 ^ l" by (rule exI [of _ 0]) (simp add: sample_def)
  then have "wf_chains (node sample)" unfolding wf_chains_def e u using m by auto
  moreover have "wf_keys (node sample)" by (simp add: wf_keys_def sample_def)
  ultimately show ?thesis
    by (simp add: table_ok_def wf_table_def u in_array_def) (simp add: sample_def arrayindex_def)
qed

lemma sample_apart: "dead_apart sample"
  by (simp add: dead_apart_def sample_def dead_match_def)

text \<open>C12: \<open>luaH_set\<close> and a store through its result is the update of a map: the table keeps its
  invariant, the key gets the value, and no other key changes.\<close>

theorem luaH_set_updates:
  assumes "table_ok t" "valid_key k" "valid_key k'" "luaH_set t k = Inr (t', s)"
  shows "table_ok (slot_set t' s v)
    \<and> tget (slot_set t' s v) k' = (if luaO_rawequalObj k k' then v else tget t k')"
  using luaH_set_Inr [OF assms(1,2,4)] assms(3) by (simp add: set_ok_def)

theorem luaH_set_updates_witness:
  "\<exists>t' s. luaH_set sample (TBoolean 0) = Inr (t', s)
     \<and> tget (slot_set t' s TNil) (TBoolean 0) = TNil
     \<and> tget (slot_set t' s TNil) (TBoolean 1) = tget sample (TBoolean 1)"
proof -
  have "case luaH_set sample (TBoolean 0) of Inl _ \<Rightarrow> False | Inr r \<Rightarrow> True" by code_simp
  then obtain t' s where s: "luaH_set sample (TBoolean 0) = Inr (t', s)"
    by (auto split: sum.splits)
  from luaH_set_updates [OF sample_ok _ _ s, of "TBoolean 0"] luaH_set_updates [OF sample_ok _ _ s, of "TBoolean 1"]
  show ?thesis using s by (auto simp: rawequal_cases)
qed

lemma entries_num_keys: "length (entries t) = num_keys t"
proof -
  have "filter (\<lambda>p. \<not> (0 < arrayindex (fst p) \<and> arrayindex (fst p) \<le> int 0)) ps = ps" for ps :: "(tvalue \<times> tvalue) list"
    by (simp add: filter_True)
  then show ?thesis
    by (simp add: entries_def array_entries_def node_entries_def num_keys_def keys_outside_def pairs_from_def
        node_pairs_def flip: rev_filter)
qed

text \<open>C29: \<open>luaH_set\<close> succeeds on every valid key as long as the table has fewer than 2^26 associations: a
  full table is rehashed once, with room for the key, and the recursion goes no deeper.\<close>

theorem luaH_set_total:
  assumes "table_ok t" "valid_key k" "length (entries t) < 67108864"
  shows "\<exists>r. luaH_set t k = Inr r"
  using luaH_set_cases [OF assms(1,2)] assms(3) by (auto simp: overflow_def entries_num_keys)

theorem luaH_set_total_witness: "\<exists>r. luaH_set sample (TString ''x'') = Inr r"
  by (rule luaH_set_total [OF sample_ok])
     (simp_all add: entries_def array_entries_def node_entries_def array_pairs_def node_pairs_def sample_def)

text \<open>Nil and NaN are not keys: \<open>luaH_set\<close> raises the two errors, whatever the table holds.\<close>

theorem luaH_set_bad_key:
  "luaH_set t TNil = Inl (LUA_ERRRUN ''table index is nil'')
   \<and> (table_ok t \<longrightarrow> is_nan n \<longrightarrow> luaH_set t (TNumber n) = Inl (LUA_ERRRUN ''table index is NaN''))"
proof (intro conjI impI)
  show "luaH_set t TNil = Inl (LUA_ERRRUN ''table index is nil'')"
    by (simp add: luaH_set_def luaH_set_with_def luaH_get_def ttisnil_def)
  assume t: "table_ok t" and n: "is_nan n"
  have w: "wf_table t" using t by (simp add: table_ok_def)
  have ne: "\<not> luai_numeq (cast_num k) n" "\<not> luaO_rawequalObj a (TNumber n)" for k a
    using n nan_not_rawequal by (auto simp: luai_numeq_def luai_numisnan_iff)
  have none: "chain_find (\<lambda>x. luaO_rawequalObj (i_key x) (TNumber n)) ns fuel i = None" for ns fuel i
    by (induction fuel arbitrary: i) (auto simp: ne split: option.splits)
  have "luaH_get t (TNumber n) = None"
    unfolding luaH_get_def luaH_getany_def search_def by (simp only: ne(1) none Let_def tvalue.case if_False option.map)
  then show "luaH_set t (TNumber n) = Inl (LUA_ERRRUN ''table index is NaN'')"
    using n by (simp add: luaH_set_def luaH_set_with_def ttisnil_def luai_numisnan_iff)
qed

theorem luaH_set_bad_key_witness:
  "luaH_set sample (TNumber 9221120237041090560) = Inl (LUA_ERRRUN ''table index is NaN'')"
proof -
  have "is_nan 9221120237041090560" by code_simp
  with luaH_set_bad_key sample_ok show ?thesis by blast
qed

text \<open>C28: \<open>luaH_getn\<close> always finds a boundary: an index that is 0 or holds a value, with nil after it.\<close>

theorem luaH_getn_boundary:
  assumes "table_ok t"
  shows "\<exists>n. luaH_getn t = Some n \<and> 0 \<le> n
    \<and> (n = 0 \<or> tget t (TNumber (cast_num n)) \<noteq> TNil) \<and> tget t (TNumber (cast_num (n + 1))) = TNil"
proof -
  from luaH_getn_spec [OF assms] obtain n where
    n: "luaH_getn t = Some n" "n \<le> MAX_INT" "is_boundary (nil_at t) n" by blast
  then show ?thesis
    using nil_at_tget [of n t] nil_at_tget [of "n + 1" t] by (auto simp: is_boundary_def MAX_INT_def)
qed

theorem luaH_getn_boundary_witness:
  "\<exists>n. luaH_getn sample = Some n \<and> 0 \<le> n
    \<and> (n = 0 \<or> tget sample (TNumber (cast_num n)) \<noteq> TNil) \<and> tget sample (TNumber (cast_num (n + 1))) = TNil"
  by (rule luaH_getn_boundary [OF sample_ok])

text \<open>C27: a traversal by \<open>luaH_next\<close> from nil returns each association of the table once and ends.\<close>

theorem luaH_next_traverses:
  assumes "table_ok t" "dead_apart t"
  shows "(\<forall>n \<le> length (entries t). luaH_next t (key_before t n)
        = Inr (if n < length (entries t) then Some (entries t ! n) else None))
    \<and> (\<forall>k v. valid_key k \<longrightarrow> v \<noteq> TNil \<longrightarrow>
        (tget t k = v \<longleftrightarrow> (\<exists>n < length (entries t). luaO_rawequalObj (fst (entries t ! n)) k \<and> snd (entries t ! n) = v)))
    \<and> (\<forall>n < length (entries t). \<forall>m < length (entries t).
        luaO_rawequalObj (fst (entries t ! n)) (fst (entries t ! m)) \<longrightarrow> n = m)"
proof (intro conjI allI impI)
  fix k v assume k: "valid_key k" "v \<noteq> TNil"
  have "(\<exists>n < length (entries t). luaO_rawequalObj (fst (entries t ! n)) k \<and> snd (entries t ! n) = v)
      \<longleftrightarrow> (\<exists>k'. (k', v) \<in> set (entries t) \<and> luaO_rawequalObj k' k)"
    by (force simp: in_set_conv_nth)
  with entries_complete [OF assms(1) k(1)] k(2)
  show "tget t k = v \<longleftrightarrow> (\<exists>n < length (entries t). luaO_rawequalObj (fst (entries t ! n)) k \<and> snd (entries t ! n) = v)"
    by simp
qed (use luaH_next_spec [OF assms] entries_once [OF assms(1)] in blast)+

theorem luaH_next_traverses_witness:
  "luaH_next sample TNil = Inr (Some (TNumber (cast_num 1), TBoolean 1))"
proof -
  have e: "entries sample = [(TNumber (cast_num 1), TBoolean 1), (TBoolean 1, TBoolean 0)]"
    by (simp add: entries_def array_entries_def node_entries_def array_pairs_def node_pairs_def sample_def)
  from luaH_next_traverses [OF sample_ok sample_apart]
  have "luaH_next sample (key_before sample 0) = Inr (Some (entries sample ! 0))" using e by auto
  then show ?thesis by (simp add: e key_before_def)
qed

end
