(* ===== verification/LuaOpcodes.thy ===== *)
theory LuaOpcodes
  imports LuaPrelude
begin

text \<open>
  lopcodes.h and lopcodes.c: the instruction word, its fields and masks, the operations
  that read and write a field, and the table of instruction modes.
\<close>

type_synonym Instruction = "32 word"

datatype OpMode = iABC | iABx | iAsBx

text \<open>Size and position of the arguments.\<close>

abbreviation SIZE_C :: nat where "SIZE_C \<equiv> 9"
abbreviation SIZE_B :: nat where "SIZE_B \<equiv> 9"
abbreviation SIZE_Bx :: nat where "SIZE_Bx \<equiv> 18"
abbreviation SIZE_A :: nat where "SIZE_A \<equiv> 8"
abbreviation SIZE_OP :: nat where "SIZE_OP \<equiv> 6"
abbreviation POS_OP :: nat where "POS_OP \<equiv> 0"
abbreviation POS_A :: nat where "POS_A \<equiv> 6"
abbreviation POS_C :: nat where "POS_C \<equiv> 14"
abbreviation POS_B :: nat where "POS_B \<equiv> 23"
abbreviation POS_Bx :: nat where "POS_Bx \<equiv> 14"

abbreviation MAXARG_Bx :: int where "MAXARG_Bx \<equiv> 262143"
abbreviation MAXARG_sBx :: int where "MAXARG_sBx \<equiv> 131071"
abbreviation MAXARG_A :: int where "MAXARG_A \<equiv> 255"
abbreviation MAXARG_B :: int where "MAXARG_B \<equiv> 511"
abbreviation MAXARG_C :: int where "MAXARG_C \<equiv> 511"

definition MASK1 :: "nat \<Rightarrow> nat \<Rightarrow> Instruction" where
  "MASK1 n p = push_bit p (NOT (push_bit n (NOT 0)))"

definition MASK0 :: "nat \<Rightarrow> nat \<Rightarrow> Instruction" where
  "MASK0 n p = NOT (MASK1 n p)"

text \<open>
  The \<open>GET\<close> and \<open>SET\<close> macros differ in the field only: reading shifts down and masks,
  writing clears the field and puts the shifted and masked value there.
\<close>

definition get_field :: "nat \<Rightarrow> nat \<Rightarrow> Instruction \<Rightarrow> int" where
  "get_field sz pos i = uint ((drop_bit pos i) AND MASK1 sz 0)"

definition set_field :: "nat \<Rightarrow> nat \<Rightarrow> Instruction \<Rightarrow> int \<Rightarrow> Instruction" where
  "set_field sz pos i v =
     ((i AND MASK0 sz pos) OR ((push_bit pos (word_of_int v)) AND MASK1 sz pos))"

text \<open>The opcodes, in the order of the source; the number of an opcode is its position.\<close>

datatype OpCode =
    OP_MOVE | OP_LOADK | OP_LOADBOOL | OP_LOADNIL | OP_GETUPVAL
  | OP_GETGLOBAL | OP_GETTABLE | OP_SETGLOBAL | OP_SETUPVAL | OP_SETTABLE
  | OP_NEWTABLE | OP_SELF
  | OP_ADD | OP_SUB | OP_MUL | OP_DIV | OP_MOD | OP_POW | OP_UNM | OP_NOT | OP_LEN
  | OP_CONCAT | OP_JMP | OP_EQ | OP_LT | OP_LE | OP_TEST | OP_TESTSET
  | OP_CALL | OP_TAILCALL | OP_RETURN | OP_FORLOOP | OP_FORPREP | OP_TFORLOOP
  | OP_SETLIST | OP_CLOSE | OP_CLOSURE | OP_VARARG

definition opcodes :: "OpCode list" where
  "opcodes =
     [OP_MOVE, OP_LOADK, OP_LOADBOOL, OP_LOADNIL, OP_GETUPVAL,
      OP_GETGLOBAL, OP_GETTABLE, OP_SETGLOBAL, OP_SETUPVAL, OP_SETTABLE,
      OP_NEWTABLE, OP_SELF,
      OP_ADD, OP_SUB, OP_MUL, OP_DIV, OP_MOD, OP_POW, OP_UNM, OP_NOT, OP_LEN,
      OP_CONCAT, OP_JMP, OP_EQ, OP_LT, OP_LE, OP_TEST, OP_TESTSET,
      OP_CALL, OP_TAILCALL, OP_RETURN, OP_FORLOOP, OP_FORPREP, OP_TFORLOOP,
      OP_SETLIST, OP_CLOSE, OP_CLOSURE, OP_VARARG]"

abbreviation NUM_OPCODES :: int where "NUM_OPCODES \<equiv> 38"

fun op_index :: "OpCode list \<Rightarrow> OpCode \<Rightarrow> int" where
  "op_index [] o' = 0"
| "op_index (p # ps) o' = (if p = o' then 0 else op_index ps o' + 1)"

definition op_num :: "OpCode \<Rightarrow> int" where
  "op_num o' = op_index opcodes o'"

text \<open>The cast of a number to \<open>OpCode\<close>: \<open>None\<close> for a number that is no opcode.\<close>

definition op_of_num :: "int \<Rightarrow> OpCode option" where
  "op_of_num n = (if 0 \<le> n \<and> n < NUM_OPCODES then Some (opcodes ! nat n) else None)"

definition GET_OPCODE :: "Instruction \<Rightarrow> int" where
  "GET_OPCODE i = get_field SIZE_OP POS_OP i"
definition SET_OPCODE :: "Instruction \<Rightarrow> OpCode \<Rightarrow> Instruction" where
  "SET_OPCODE i o' = set_field SIZE_OP POS_OP i (op_num o')"
definition GETARG_A :: "Instruction \<Rightarrow> int" where
  "GETARG_A i = get_field SIZE_A POS_A i"
definition SETARG_A :: "Instruction \<Rightarrow> int \<Rightarrow> Instruction" where
  "SETARG_A i u = set_field SIZE_A POS_A i u"
definition GETARG_B :: "Instruction \<Rightarrow> int" where
  "GETARG_B i = get_field SIZE_B POS_B i"
definition SETARG_B :: "Instruction \<Rightarrow> int \<Rightarrow> Instruction" where
  "SETARG_B i b = set_field SIZE_B POS_B i b"
definition GETARG_C :: "Instruction \<Rightarrow> int" where
  "GETARG_C i = get_field SIZE_C POS_C i"
definition SETARG_C :: "Instruction \<Rightarrow> int \<Rightarrow> Instruction" where
  "SETARG_C i b = set_field SIZE_C POS_C i b"
definition GETARG_Bx :: "Instruction \<Rightarrow> int" where
  "GETARG_Bx i = get_field SIZE_Bx POS_Bx i"
definition SETARG_Bx :: "Instruction \<Rightarrow> int \<Rightarrow> Instruction" where
  "SETARG_Bx i b = set_field SIZE_Bx POS_Bx i b"
definition GETARG_sBx :: "Instruction \<Rightarrow> int" where
  "GETARG_sBx i = GETARG_Bx i - MAXARG_sBx"
definition SETARG_sBx :: "Instruction \<Rightarrow> int \<Rightarrow> Instruction" where
  "SETARG_sBx i b = SETARG_Bx i ((b + MAXARG_sBx) mod 4294967296)"

definition CREATE_ABC :: "OpCode \<Rightarrow> int \<Rightarrow> int \<Rightarrow> int \<Rightarrow> Instruction" where
  "CREATE_ABC o' a b c =
     ((push_bit POS_OP (word_of_int (op_num o')) OR push_bit POS_A (word_of_int a))
       OR push_bit POS_B (word_of_int b)) OR push_bit POS_C (word_of_int c)"

definition CREATE_ABx :: "OpCode \<Rightarrow> int \<Rightarrow> int \<Rightarrow> Instruction" where
  "CREATE_ABx o' a bc =
     (push_bit POS_OP (word_of_int (op_num o')) OR push_bit POS_A (word_of_int a))
       OR push_bit POS_Bx (word_of_int bc)"

text \<open>RK operands: bit 8 tells a constant from a register.\<close>

abbreviation BITRK :: int where "BITRK \<equiv> 256"
abbreviation MAXINDEXRK :: int where "MAXINDEXRK \<equiv> 255"
abbreviation NO_REG :: int where "NO_REG \<equiv> MAXARG_A"

definition ISK :: "int \<Rightarrow> bool" where "ISK x = (x AND BITRK \<noteq> 0)"
definition INDEXK :: "int \<Rightarrow> int" where "INDEXK r = r AND NOT BITRK"
definition RKASK :: "int \<Rightarrow> int" where "RKASK x = x OR BITRK"

section \<open>Names and modes\<close>

definition luaP_opnames :: "string list" where
  "luaP_opnames =
     [''MOVE'', ''LOADK'', ''LOADBOOL'', ''LOADNIL'', ''GETUPVAL'', ''GETGLOBAL'', ''GETTABLE'',
      ''SETGLOBAL'', ''SETUPVAL'', ''SETTABLE'', ''NEWTABLE'', ''SELF'', ''ADD'', ''SUB'', ''MUL'',
      ''DIV'', ''MOD'', ''POW'', ''UNM'', ''NOT'', ''LEN'', ''CONCAT'', ''JMP'', ''EQ'', ''LT'',
      ''LE'', ''TEST'', ''TESTSET'', ''CALL'', ''TAILCALL'', ''RETURN'', ''FORLOOP'', ''FORPREP'',
      ''TFORLOOP'', ''SETLIST'', ''CLOSE'', ''CLOSURE'', ''VARARG'']"

datatype OpArgMask = OpArgN | OpArgU | OpArgR | OpArgK

text \<open>The numbers of the enumerations.\<close>

fun mode_num :: "OpMode \<Rightarrow> int" where
  "mode_num iABC = 0"
| "mode_num iABx = 1"
| "mode_num iAsBx = 2"

fun mask_num :: "OpArgMask \<Rightarrow> int" where
  "mask_num OpArgN = 0"
| "mask_num OpArgU = 1"
| "mask_num OpArgR = 2"
| "mask_num OpArgK = 3"

definition opmode :: "int \<Rightarrow> int \<Rightarrow> OpArgMask \<Rightarrow> OpArgMask \<Rightarrow> OpMode \<Rightarrow> int" where
  "opmode t a b c m =
     (((push_bit 7 t OR push_bit 6 a) OR push_bit 4 (mask_num b)) OR push_bit 2 (mask_num c))
       OR mode_num m"

definition luaP_opmodes :: "int list" where
  "luaP_opmodes =
     [opmode 0 1 OpArgR OpArgN iABC,
      opmode 0 1 OpArgK OpArgN iABx,
      opmode 0 1 OpArgU OpArgU iABC,
      opmode 0 1 OpArgR OpArgN iABC,
      opmode 0 1 OpArgU OpArgN iABC,
      opmode 0 1 OpArgK OpArgN iABx,
      opmode 0 1 OpArgR OpArgK iABC,
      opmode 0 0 OpArgK OpArgN iABx,
      opmode 0 0 OpArgU OpArgN iABC,
      opmode 0 0 OpArgK OpArgK iABC,
      opmode 0 1 OpArgU OpArgU iABC,
      opmode 0 1 OpArgR OpArgK iABC,
      opmode 0 1 OpArgK OpArgK iABC,
      opmode 0 1 OpArgK OpArgK iABC,
      opmode 0 1 OpArgK OpArgK iABC,
      opmode 0 1 OpArgK OpArgK iABC,
      opmode 0 1 OpArgK OpArgK iABC,
      opmode 0 1 OpArgK OpArgK iABC,
      opmode 0 1 OpArgR OpArgN iABC,
      opmode 0 1 OpArgR OpArgN iABC,
      opmode 0 1 OpArgR OpArgN iABC,
      opmode 0 1 OpArgR OpArgR iABC,
      opmode 0 0 OpArgR OpArgN iAsBx,
      opmode 1 0 OpArgK OpArgK iABC,
      opmode 1 0 OpArgK OpArgK iABC,
      opmode 1 0 OpArgK OpArgK iABC,
      opmode 1 1 OpArgR OpArgU iABC,
      opmode 1 1 OpArgR OpArgU iABC,
      opmode 0 1 OpArgU OpArgU iABC,
      opmode 0 1 OpArgU OpArgU iABC,
      opmode 0 0 OpArgU OpArgN iABC,
      opmode 0 1 OpArgR OpArgN iAsBx,
      opmode 0 1 OpArgR OpArgN iAsBx,
      opmode 1 0 OpArgN OpArgU iABC,
      opmode 0 0 OpArgU OpArgU iABC,
      opmode 0 0 OpArgN OpArgN iABC,
      opmode 0 1 OpArgU OpArgN iABx,
      opmode 0 1 OpArgU OpArgN iABC]"

definition mode_byte :: "OpCode \<Rightarrow> int" where
  "mode_byte o' = luaP_opmodes ! nat (op_num o')"

definition getOpMode :: "OpCode \<Rightarrow> OpMode" where
  "getOpMode o' = (let m = mode_byte o' AND 3 in if m = 0 then iABC else if m = 1 then iABx else iAsBx)"

definition mask_of_num :: "int \<Rightarrow> OpArgMask" where
  "mask_of_num m = (if m = 0 then OpArgN else if m = 1 then OpArgU else if m = 2 then OpArgR else OpArgK)"

definition getBMode :: "OpCode \<Rightarrow> OpArgMask" where
  "getBMode o' = mask_of_num (drop_bit 4 (mode_byte o') AND 3)"

definition getCMode :: "OpCode \<Rightarrow> OpArgMask" where
  "getCMode o' = mask_of_num (drop_bit 2 (mode_byte o') AND 3)"

definition testAMode :: "OpCode \<Rightarrow> bool" where
  "testAMode o' = (mode_byte o' AND 64 \<noteq> 0)"

definition testTMode :: "OpCode \<Rightarrow> bool" where
  "testTMode o' = (mode_byte o' AND 128 \<noteq> 0)"

abbreviation LFIELDS_PER_FLUSH :: int where "LFIELDS_PER_FLUSH \<equiv> 50"

section \<open>The fields of an instruction\<close>

lemma bit_MASK1: "bit (MASK1 sz pos) n \<longleftrightarrow> n < 32 \<and> pos \<le> n \<and> n < pos + sz"
  by (auto simp: MASK1_def bit_simps)

lemma bit_set_field:
  "bit (set_field sz pos i v) n \<longleftrightarrow>
     n < 32 \<and> (if pos \<le> n \<and> n < pos + sz then bit v (n - pos) else bit i n)"
  by (auto simp: set_field_def MASK0_def bit_MASK1 bit_simps)

lemma get_field_bits: "get_field sz pos i = take_bit sz (drop_bit pos (uint i))"
  if "pos + sz \<le> 32"
proof (rule bit_eqI)
  fix n
  show "bit (get_field sz pos i) n \<longleftrightarrow> bit (take_bit sz (drop_bit pos (uint i))) n"
    using that by (auto simp: get_field_def bit_MASK1 bit_simps)
qed

lemma get_field_range:
  assumes "pos + sz \<le> 32"
  shows "0 \<le> get_field sz pos i" "get_field sz pos i < 2 ^ sz"
  unfolding get_field_bits [OF assms] by simp_all

lemma get_set_field:
  assumes "pos + sz \<le> 32" "0 \<le> v" "v < 2 ^ sz"
  shows "get_field sz pos (set_field sz pos i v) = v"
proof (rule bit_eqI)
  fix n
  have "take_bit sz v = v" using assms by (simp add: take_bit_int_eq_self)
  then have v: "bit v n \<longleftrightarrow> n < sz \<and> bit v n" by (metis bit_take_bit_iff)
  show "bit (get_field sz pos (set_field sz pos i v)) n \<longleftrightarrow> bit v n"
    unfolding get_field_bits [OF assms(1)] using v assms(1)
    by (auto simp: bit_simps bit_set_field)
qed

lemma get_set_field_other:
  assumes "pos + sz \<le> 32" "pos + sz \<le> pos' \<or> pos' + sz' \<le> pos"
  shows "get_field sz pos (set_field sz' pos' i v) = get_field sz pos i"
  by (rule bit_eqI) (use assms in \<open>auto simp: get_field_bits bit_simps bit_set_field\<close>)

lemma set_get_field:
  assumes "pos + sz \<le> 32"
  shows "set_field sz pos i (get_field sz pos i) = i"
  by (rule bit_eqI) (use assms in \<open>auto simp: get_field_bits bit_simps bit_set_field\<close>)

text \<open>
  The contract of a pair of \<open>GET\<close> and \<open>SET\<close> macros, and of two pairs that do not
  overlap.
\<close>

locale instr_field =
  fixes getf :: "Instruction \<Rightarrow> int" and setf :: "Instruction \<Rightarrow> int \<Rightarrow> Instruction" and maxarg :: int
  assumes get_range: "0 \<le> getf i \<and> getf i \<le> maxarg"
    and get_set: "0 \<le> v \<Longrightarrow> v \<le> maxarg \<Longrightarrow> getf (setf i v) = v"
    and set_get: "setf i (getf i) = i"
begin

lemma set_surj: "\<exists>i. getf i = v" if "0 \<le> v" "v \<le> maxarg"
  using get_set [OF that] by blast

lemma set_inj: "setf i v = setf i w \<Longrightarrow> 0 \<le> v \<Longrightarrow> v \<le> maxarg \<Longrightarrow> 0 \<le> w \<Longrightarrow> w \<le> maxarg \<Longrightarrow> v = w"
  by (metis get_set)

end

locale instr_fields =
  f: instr_field getf setf maxf + g: instr_field getg setg maxg
  for getf setf maxf getg setg maxg +
  assumes get_other: "getf (setg i v) = getf i" and get_other': "getg (setf i v) = getg i"
begin

lemma get_both:
  "0 \<le> v \<Longrightarrow> v \<le> maxf \<Longrightarrow> 0 \<le> w \<Longrightarrow> w \<le> maxg \<Longrightarrow>
   getf (setg (setf i v) w) = v \<and> getg (setg (setf i v) w) = w"
  by (simp add: get_other f.get_set g.get_set)

end

lemmas arg_defs = GETARG_A_def SETARG_A_def GETARG_B_def SETARG_B_def GETARG_C_def SETARG_C_def
  GETARG_Bx_def SETARG_Bx_def GET_OPCODE_def SET_OPCODE_def

lemma get_field_le:
  assumes "pos + sz \<le> 32" "m = 2 ^ sz - 1"
  shows "0 \<le> get_field sz pos i \<and> get_field sz pos i \<le> m"
  using get_field_range [OF assms(1)] assms(2) by (smt (verit, best))

lemma instr_field_get_set:
  assumes "pos + sz \<le> 32" "m = 2 ^ sz - 1"
  shows "instr_field (get_field sz pos) (set_field sz pos) m"
  using assms get_field_le [OF assms] by unfold_locales (auto simp: get_set_field set_get_field)

lemmas field_eqs = arg_defs [abs_def]

interpretation AB: instr_fields GETARG_A SETARG_A MAXARG_A GETARG_B SETARG_B MAXARG_B
  unfolding field_eqs
  by (intro instr_fields.intro instr_field_get_set instr_fields_axioms.intro) (simp_all add: get_set_field_other)

interpretation AC: instr_fields GETARG_A SETARG_A MAXARG_A GETARG_C SETARG_C MAXARG_C
  unfolding field_eqs
  by (intro instr_fields.intro instr_field_get_set instr_fields_axioms.intro) (simp_all add: get_set_field_other)

interpretation BC: instr_fields GETARG_B SETARG_B MAXARG_B GETARG_C SETARG_C MAXARG_C
  unfolding field_eqs
  by (intro instr_fields.intro instr_field_get_set instr_fields_axioms.intro) (simp_all add: get_set_field_other)

interpretation ABx: instr_fields GETARG_A SETARG_A MAXARG_A GETARG_Bx SETARG_Bx MAXARG_Bx
  unfolding field_eqs
  by (intro instr_fields.intro instr_field_get_set instr_fields_axioms.intro) (simp_all add: get_set_field_other)

text \<open>The signed argument is the unsigned one in excess \<open>MAXARG_sBx\<close>.\<close>

lemma GETARG_sBx_set:
  assumes "- MAXARG_sBx \<le> b" "b \<le> MAXARG_sBx + 1"
  shows "GETARG_sBx (SETARG_sBx i b) = b"
  using assms ABx.g.get_set [of "b + MAXARG_sBx" i] by (simp add: GETARG_sBx_def SETARG_sBx_def)

lemma GETARG_sBx_range: "- MAXARG_sBx \<le> GETARG_sBx i" "GETARG_sBx i \<le> MAXARG_sBx + 1"
  using ABx.g.get_range [of i] by (simp_all add: GETARG_sBx_def)

lemma sBx_other:
  "GETARG_A (SETARG_sBx i b) = GETARG_A i" "GET_OPCODE (SETARG_sBx i b) = GET_OPCODE i"
  by (simp_all add: SETARG_sBx_def ABx.get_other arg_defs get_set_field_other)

lemma opcode_other:
  "GET_OPCODE (SETARG_A i a) = GET_OPCODE i" "GET_OPCODE (SETARG_B i a) = GET_OPCODE i"
  "GET_OPCODE (SETARG_C i a) = GET_OPCODE i" "GET_OPCODE (SETARG_Bx i a) = GET_OPCODE i"
  by (simp_all add: arg_defs get_set_field_other)

section \<open>Opcodes\<close>

lemma op_num_range: "0 \<le> op_num o' \<and> op_num o' < NUM_OPCODES"
  by (cases o') (simp_all add: op_num_def opcodes_def)

lemma op_of_num_op_num [simp]: "op_of_num (op_num o') = Some o'"
  by (cases o') (simp_all add: op_num_def op_of_num_def opcodes_def)

lemma op_num_inj: "op_num a = op_num b \<Longrightarrow> a = b"
  by (metis op_of_num_op_num option.inject)

lemma op_of_num_Some: "op_of_num n = Some o' \<Longrightarrow> op_num o' = n"
proof -
  assume a: "op_of_num n = Some o'"
  then have n: "0 \<le> n" "n < 38" "opcodes ! nat n = o'" by (auto simp: op_of_num_def split: if_splits)
  have "\<forall>k \<in> set [0..<38]. op_num (opcodes ! k) = int k" by (simp add: op_num_def opcodes_def upt_rec)
  then show ?thesis using n by force
qed

lemma bit_small: "0 \<le> v \<Longrightarrow> v < 2 ^ n \<Longrightarrow> bit (v::int) k \<Longrightarrow> k < n"
  by (metis bit_take_bit_iff take_bit_int_eq_self)

lemma create_field:
  assumes "0 \<le> v" "v < 2 ^ sz" "pos + sz \<le> 32"
  shows "bit (push_bit pos (word_of_int v :: Instruction)) n \<longleftrightarrow> pos \<le> n \<and> bit v (n - pos)"
  using assms bit_small [of v sz "n - pos"] by (auto simp: bit_simps)

lemma CREATE_ABC_fields:
  assumes "0 \<le> a" "a \<le> MAXARG_A" "0 \<le> b" "b \<le> MAXARG_B" "0 \<le> c" "c \<le> MAXARG_C"
  shows "GET_OPCODE (CREATE_ABC o' a b c) = op_num o'" "GETARG_A (CREATE_ABC o' a b c) = a"
    "GETARG_B (CREATE_ABC o' a b c) = b" "GETARG_C (CREATE_ABC o' a b c) = c"
proof -
  have o': "0 \<le> op_num o'" "op_num o' < 2 ^ 6" using op_num_range [of o'] by simp_all
  have r: "a < 2 ^ 8" "b < 2 ^ 9" "c < 2 ^ 9" using assms by simp_all
  note cf = create_field [OF o', of 0] create_field [OF assms(1) r(1), of 6]
    create_field [OF assms(3) r(2), of 23] create_field [OF assms(5) r(3), of 14]
  note sm = bit_small [OF o'] bit_small [OF assms(1) r(1)] bit_small [OF assms(3) r(2)]
    bit_small [OF assms(5) r(3)]
  have bits: "bit (CREATE_ABC o' a b c) n \<longleftrightarrow>
      bit (op_num o') n \<or> 6 \<le> n \<and> bit a (n - 6) \<or> 23 \<le> n \<and> bit b (n - 23) \<or> 14 \<le> n \<and> bit c (n - 14)" for n
    unfolding CREATE_ABC_def bit_or_iff using cf by simp
  show "GET_OPCODE (CREATE_ABC o' a b c) = op_num o'"
    by (rule bit_eqI) (auto simp: GET_OPCODE_def get_field_bits bit_simps bits dest: sm)
  show "GETARG_A (CREATE_ABC o' a b c) = a"
    by (rule bit_eqI) (auto simp: GETARG_A_def get_field_bits bit_simps bits dest: sm)
  show "GETARG_B (CREATE_ABC o' a b c) = b"
    by (rule bit_eqI) (auto simp: GETARG_B_def get_field_bits bit_simps bits dest: sm)
  show "GETARG_C (CREATE_ABC o' a b c) = c"
    by (rule bit_eqI) (auto simp: GETARG_C_def get_field_bits bit_simps bits dest: sm)
qed

lemma CREATE_ABx_fields:
  assumes "0 \<le> a" "a \<le> MAXARG_A" "0 \<le> bx" "bx \<le> MAXARG_Bx"
  shows "GET_OPCODE (CREATE_ABx o' a bx) = op_num o'" "GETARG_A (CREATE_ABx o' a bx) = a"
    "GETARG_Bx (CREATE_ABx o' a bx) = bx"
proof -
  have o': "0 \<le> op_num o'" "op_num o' < 2 ^ 6" using op_num_range [of o'] by simp_all
  have r: "a < 2 ^ 8" "bx < 2 ^ 18" using assms by simp_all
  note cf = create_field [OF o', of 0] create_field [OF assms(1) r(1), of 6]
    create_field [OF assms(3) r(2), of 14]
  note sm = bit_small [OF o'] bit_small [OF assms(1) r(1)] bit_small [OF assms(3) r(2)]
  have bits: "bit (CREATE_ABx o' a bx) n \<longleftrightarrow>
      bit (op_num o') n \<or> 6 \<le> n \<and> bit a (n - 6) \<or> 14 \<le> n \<and> bit bx (n - 14)" for n
    unfolding CREATE_ABx_def bit_or_iff using cf by simp
  show "GET_OPCODE (CREATE_ABx o' a bx) = op_num o'"
    by (rule bit_eqI) (auto simp: GET_OPCODE_def get_field_bits bit_simps bits dest: sm)
  show "GETARG_A (CREATE_ABx o' a bx) = a"
    by (rule bit_eqI) (auto simp: GETARG_A_def get_field_bits bit_simps bits dest: sm)
  show "GETARG_Bx (CREATE_ABx o' a bx) = bx"
    by (rule bit_eqI) (auto simp: GETARG_Bx_def get_field_bits bit_simps bits dest: sm)
qed

text \<open>An RK operand is a constant exactly when it was coded as one, and the index survives.\<close>

lemma bit_BITRK: "bit BITRK n \<longleftrightarrow> n = 8"
proof -
  have "bit ((2::int) ^ 8) n \<longleftrightarrow> n = 8" by (simp only: bit_exp_iff) auto
  then show ?thesis by simp
qed

lemma ISK_iff: "ISK x \<longleftrightarrow> bit x 8"
  using and_exp_eq_0_iff_not_bit [of x 8] by (simp add: ISK_def)

lemma rk_constant:
  assumes "0 \<le> x" "x \<le> MAXINDEXRK"
  shows "ISK (RKASK x)" "INDEXK (RKASK x) = x" "\<not> ISK x" "RKASK x = x + BITRK"
proof -
  have n: "bit x n \<Longrightarrow> n < 8" for n using bit_small [of x 8 n] assms by simp
  show "ISK (RKASK x)" by (simp add: ISK_iff RKASK_def bit_simps bit_BITRK)
  show "INDEXK (RKASK x) = x"
    by (rule bit_eqI) (use n in \<open>auto simp: INDEXK_def RKASK_def bit_simps bit_BITRK\<close>)
  show "\<not> ISK x" using n [of 8] by (auto simp: ISK_iff)
  have "x AND BITRK = 0" by (rule bit_eqI) (use n [of 8] in \<open>auto simp: bit_simps bit_BITRK\<close>)
  then show "RKASK x = x + BITRK" by (simp add: RKASK_def disjunctive_add_eq_or)
qed

section \<open>Instruction modes\<close>

text \<open>
  What the generator and the bytecode checker rely on: a test never is the last word on
  control, so every test instruction writes its mode; comparisons set no register; the jump
  formats belong to the three jumping opcodes only.
\<close>

lemma opcodes_all: "o' \<in> set opcodes"
  by (cases o') (simp_all add: opcodes_def)

lemma mode_table:
  "list_all (\<lambda>o'. testTMode o' = (o' \<in> set [OP_EQ, OP_LT, OP_LE, OP_TEST, OP_TESTSET, OP_TFORLOOP])
     \<and> (getOpMode o' = iAsBx) = (o' \<in> set [OP_JMP, OP_FORLOOP, OP_FORPREP])
     \<and> (getOpMode o' = iABx) = (o' \<in> set [OP_LOADK, OP_GETGLOBAL, OP_SETGLOBAL, OP_CLOSURE])
     \<and> testAMode o' = (o' \<notin> set [OP_SETGLOBAL, OP_SETUPVAL, OP_SETTABLE, OP_JMP, OP_EQ, OP_LT,
          OP_LE, OP_RETURN, OP_TFORLOOP, OP_SETLIST, OP_CLOSE])) opcodes"
  by code_simp

lemma modes_of_opcodes:
  "testTMode o' = (o' \<in> {OP_EQ, OP_LT, OP_LE, OP_TEST, OP_TESTSET, OP_TFORLOOP})"
  "(getOpMode o' = iAsBx) = (o' \<in> {OP_JMP, OP_FORLOOP, OP_FORPREP})"
  "(getOpMode o' = iABx) = (o' \<in> {OP_LOADK, OP_GETGLOBAL, OP_SETGLOBAL, OP_CLOSURE})"
  "testAMode o' = (o' \<notin> {OP_SETGLOBAL, OP_SETUPVAL, OP_SETTABLE, OP_JMP, OP_EQ, OP_LT,
          OP_LE, OP_RETURN, OP_TFORLOOP, OP_SETLIST, OP_CLOSE})"
  using mode_table opcodes_all [of o'] by (simp_all add: list_all_iff)

end
