(* ===== verification/LuaAux.thy ===== *)
theory LuaAux
  imports LuaObject
begin

text \<open>
  The arguments of a C function: the access functions of lapi.c, the conversions of lvm.c
  and the checks of lauxlib.c. A C function of a library takes the list of its arguments
  and returns the list of its results. What \<open>lua_getinfo\<close> finds out about the running
  function, for the messages, is the record \<open>lua_Debug\<close>.

  \<open>luaL_error\<close> puts the position of the caller before its message; that prefix is left out.
\<close>

record lua_Debug =
  has_frame :: bool
  ar_name :: "string option"
  namewhat :: string

section \<open>Types and conversions\<close>

definition luaT_typenames :: "string list" where
  "luaT_typenames = [''nil'', ''boolean'', ''userdata'', ''number'', ''string'', ''table'',
     ''function'', ''userdata'', ''thread'', ''proto'', ''upval'']"

text \<open>\<open>index2adr\<close> of a positive index: \<open>None\<close> is \<open>luaO_nilobject\<close>.\<close>

definition index2adr :: "tvalue list \<Rightarrow> nat \<Rightarrow> tvalue option" where
  "index2adr args n = (if 0 < n \<and> n \<le> length args then Some (args ! (n - 1)) else None)"

definition arg_value :: "tvalue list \<Rightarrow> nat \<Rightarrow> tvalue" where
  "arg_value args n = (case index2adr args n of None \<Rightarrow> TNil | Some v \<Rightarrow> v)"

definition lua_type :: "tvalue list \<Rightarrow> nat \<Rightarrow> int" where
  "lua_type args n = (case index2adr args n of None \<Rightarrow> - 1 | Some v \<Rightarrow> ttype v)"

definition lua_typename :: "int \<Rightarrow> string" where
  "lua_typename t = (if t = - 1 then ''no value'' else luaT_typenames ! nat t)"

definition luaV_tonumber :: "tvalue \<Rightarrow> lua_Number option" where
  "luaV_tonumber v =
     (case v of TNumber n \<Rightarrow> Some n | TString s \<Rightarrow> luaO_str2d s | _ \<Rightarrow> None)"

definition luaV_tostring :: "tvalue \<Rightarrow> string option" where
  "luaV_tostring v = (case v of TNumber n \<Rightarrow> Some (lua_number2str n) | _ \<Rightarrow> None)"

definition lua_isnoneornil :: "tvalue list \<Rightarrow> nat \<Rightarrow> bool" where
  "lua_isnoneornil args n = (lua_type args n \<le> 0)"

definition lua_isnumber :: "tvalue list \<Rightarrow> nat \<Rightarrow> bool" where
  "lua_isnumber args n = (luaV_tonumber (arg_value args n) \<noteq> None)"

definition lua_isstring :: "tvalue list \<Rightarrow> nat \<Rightarrow> bool" where
  "lua_isstring args n = (let t = lua_type args n in t = 4 \<or> t = 3)"

definition lua_rawequal :: "tvalue list \<Rightarrow> nat \<Rightarrow> nat \<Rightarrow> bool" where
  "lua_rawequal args i j =
     (case (index2adr args i, index2adr args j) of
        (Some o1, Some o2) \<Rightarrow> luaO_rawequalObj o1 o2
      | _ \<Rightarrow> False)"

definition lua_tonumber :: "tvalue list \<Rightarrow> nat \<Rightarrow> lua_Number" where
  "lua_tonumber args n = (case luaV_tonumber (arg_value args n) of Some d \<Rightarrow> d | None \<Rightarrow> 0)"

definition lua_tointeger :: "tvalue list \<Rightarrow> nat \<Rightarrow> int" where
  "lua_tointeger args n =
     (case luaV_tonumber (arg_value args n) of Some d \<Rightarrow> lua_number2integer d | None \<Rightarrow> 0)"

definition lua_toboolean :: "tvalue list \<Rightarrow> nat \<Rightarrow> bool" where
  "lua_toboolean args n = (\<not> l_isfalse (arg_value args n))"

definition tolstring :: "tvalue \<Rightarrow> string option" where
  "tolstring v = (case v of TString s \<Rightarrow> Some s | _ \<Rightarrow> luaV_tostring v)"

definition lua_tolstring :: "tvalue list \<Rightarrow> nat \<Rightarrow> string option" where
  "lua_tolstring args n = tolstring (arg_value args n)"

text \<open>\<open>lua_objlen\<close>; the lengths of a table and of a userdata come from their objects.\<close>

definition lua_objlen :: "(addr \<Rightarrow> int) \<Rightarrow> (addr \<Rightarrow> int) \<Rightarrow> tvalue \<Rightarrow> int" where
  "lua_objlen getn ulen v =
     (case v of
        TString s \<Rightarrow> int (length s)
      | TUserData u \<Rightarrow> ulen u
      | TTable t \<Rightarrow> getn t
      | TNumber n \<Rightarrow> (case luaV_tostring v of Some s \<Rightarrow> int (length s) | None \<Rightarrow> 0)
      | _ \<Rightarrow> 0)"

definition pushinteger :: "int \<Rightarrow> tvalue" where
  "pushinteger n = TNumber (cast_num n)"

definition pushboolean :: "bool \<Rightarrow> tvalue" where
  "pushboolean b = TBoolean (if b then 1 else 0)"

section \<open>Checks\<close>

definition luaL_error :: "string \<Rightarrow> 'a res" where
  "luaL_error msg = Inl (LUA_ERRRUN msg)"

definition luaL_argerror :: "lua_Debug \<Rightarrow> nat \<Rightarrow> string \<Rightarrow> 'a res" where
  "luaL_argerror ar narg extramsg =
     (if \<not> has_frame ar then
        luaL_error (''bad argument #'' @ int2str (int narg) @ '' ('' @ extramsg @ '')'')
      else if namewhat ar = ''method'' \<and> narg = 1 then
        luaL_error (''calling '' @ LUA_QL (case ar_name ar of None \<Rightarrow> ''(null)'' | Some s \<Rightarrow> s)
          @ '' on bad self ('' @ extramsg @ '')'')
      else
        (let narg' = (if namewhat ar = ''method'' then int narg - 1 else int narg)
         in luaL_error (''bad argument #'' @ int2str narg' @ '' to ''
              @ LUA_QL (case ar_name ar of None \<Rightarrow> ''?'' | Some s \<Rightarrow> s) @ '' ('' @ extramsg @ '')'')))"

definition luaL_argcheck :: "lua_Debug \<Rightarrow> bool \<Rightarrow> nat \<Rightarrow> string \<Rightarrow> unit res" where
  "luaL_argcheck ar c narg extramsg = (if c then Inr () else luaL_argerror ar narg extramsg)"

definition luaL_typerror :: "lua_Debug \<Rightarrow> tvalue list \<Rightarrow> nat \<Rightarrow> string \<Rightarrow> 'a res" where
  "luaL_typerror ar args narg tname =
     luaL_argerror ar narg (tname @ '' expected, got '' @ lua_typename (lua_type args narg))"

definition tag_error :: "lua_Debug \<Rightarrow> tvalue list \<Rightarrow> nat \<Rightarrow> int \<Rightarrow> 'a res" where
  "tag_error ar args narg tag = luaL_typerror ar args narg (lua_typename tag)"

definition luaL_checktype :: "lua_Debug \<Rightarrow> tvalue list \<Rightarrow> nat \<Rightarrow> int \<Rightarrow> unit res" where
  "luaL_checktype ar args narg t = (if lua_type args narg \<noteq> t then tag_error ar args narg t else Inr ())"

definition luaL_checkany :: "lua_Debug \<Rightarrow> tvalue list \<Rightarrow> nat \<Rightarrow> unit res" where
  "luaL_checkany ar args narg =
     (if lua_type args narg = - 1 then luaL_argerror ar narg ''value expected'' else Inr ())"

definition luaL_checklstring :: "lua_Debug \<Rightarrow> tvalue list \<Rightarrow> nat \<Rightarrow> string res" where
  "luaL_checklstring ar args narg =
     (case lua_tolstring args narg of Some s \<Rightarrow> Inr s | None \<Rightarrow> tag_error ar args narg 4)"

definition luaL_optlstring :: "lua_Debug \<Rightarrow> tvalue list \<Rightarrow> nat \<Rightarrow> string \<Rightarrow> string res" where
  "luaL_optlstring ar args narg def =
     (if lua_isnoneornil args narg then Inr def else luaL_checklstring ar args narg)"

definition luaL_checknumber :: "lua_Debug \<Rightarrow> tvalue list \<Rightarrow> nat \<Rightarrow> lua_Number res" where
  "luaL_checknumber ar args narg =
     (let d = lua_tonumber args narg
      in if luai_numeq d (cast_num 0) \<and> \<not> lua_isnumber args narg then tag_error ar args narg 3 else Inr d)"

definition luaL_optnumber :: "lua_Debug \<Rightarrow> tvalue list \<Rightarrow> nat \<Rightarrow> lua_Number \<Rightarrow> lua_Number res" where
  "luaL_optnumber ar args narg def =
     (if lua_isnoneornil args narg then Inr def else luaL_checknumber ar args narg)"

definition luaL_checkinteger :: "lua_Debug \<Rightarrow> tvalue list \<Rightarrow> nat \<Rightarrow> int res" where
  "luaL_checkinteger ar args narg =
     (let d = lua_tointeger args narg
      in if d = 0 \<and> \<not> lua_isnumber args narg then tag_error ar args narg 3 else Inr d)"

definition luaL_optinteger :: "lua_Debug \<Rightarrow> tvalue list \<Rightarrow> nat \<Rightarrow> int \<Rightarrow> int res" where
  "luaL_optinteger ar args narg def =
     (if lua_isnoneornil args narg then Inr def else luaL_checkinteger ar args narg)"

definition luaL_checkint :: "lua_Debug \<Rightarrow> tvalue list \<Rightarrow> nat \<Rightarrow> int res" where
  "luaL_checkint ar args narg = bindE (luaL_checkinteger ar args narg) (\<lambda>d. Inr (int32 d))"

definition luaL_optint :: "lua_Debug \<Rightarrow> tvalue list \<Rightarrow> nat \<Rightarrow> int \<Rightarrow> int res" where
  "luaL_optint ar args narg def = bindE (luaL_optinteger ar args narg def) (\<lambda>d. Inr (int32 d))"

text \<open>\<open>luaL_checkstack\<close> in a function with \<open>ntop\<close> values on its stack.\<close>

abbreviation LUAI_MAXCSTACK :: int where "LUAI_MAXCSTACK \<equiv> 2048"

definition luaL_checkstack :: "int \<Rightarrow> int \<Rightarrow> string \<Rightarrow> unit res" where
  "luaL_checkstack ntop space mes =
     (if LUAI_MAXCSTACK < ntop + space then luaL_error (''stack overflow ('' @ mes @ '')'') else Inr ())"

section \<open>What the checks accept\<close>

lemmas arg_defs = index2adr_def arg_value_def lua_type_def lua_isnoneornil_def lua_isnumber_def
  lua_tonumber_def lua_tointeger_def lua_toboolean_def lua_tolstring_def tolstring_def
  luaV_tonumber_def luaV_tostring_def

lemma checklstring_string [simp]:
  "0 < n \<Longrightarrow> n \<le> length args \<Longrightarrow> args ! (n - 1) = TString s \<Longrightarrow> luaL_checklstring ar args n = Inr s"
  by (simp add: luaL_checklstring_def arg_defs)

lemma checklstring_Inr:
  "luaL_checklstring ar args n = Inr s \<longleftrightarrow>
     (\<exists>v. index2adr args n = Some v \<and> (v = TString s \<or> (\<exists>d. v = TNumber d \<and> s = lua_number2str d)))"
  by (auto simp: luaL_checklstring_def lua_tolstring_def arg_value_def tolstring_def luaV_tostring_def
      tag_error_def luaL_typerror_def luaL_argerror_def luaL_error_def Let_def
      split: option.splits tvalue.splits)

lemma checkinteger_int:
  assumes "0 < n" "n \<le> length args" "args ! (n - 1) = TNumber (cast_num k)" "\<bar>k\<bar> < 9007199254740992"
  shows "luaL_checkinteger ar args n = Inr k"
  using assms lua_number2integer_cast_num [OF assms(4)] by (simp add: luaL_checkinteger_def arg_defs Let_def)

lemma checkint_int:
  assumes "0 < n" "n \<le> length args" "args ! (n - 1) = TNumber (cast_num k)" "INT_MIN \<le> k" "k \<le> INT_MAX"
  shows "luaL_checkint ar args n = Inr k"
  using checkinteger_int [OF assms(1-3)] assms(4,5) by (simp add: luaL_checkint_def int32_id)

lemma optinteger_int:
  assumes "0 < n" "n \<le> length args" "args ! (n - 1) = TNumber (cast_num k)" "\<bar>k\<bar> < 9007199254740992"
  shows "luaL_optinteger ar args n d = Inr k"
  using checkinteger_int [OF assms] assms by (simp add: luaL_optinteger_def arg_defs)

lemma optinteger_none:
  "length args < n \<Longrightarrow> luaL_optinteger ar args n d = Inr d"
  by (simp add: luaL_optinteger_def arg_defs)

end
