(* ===== verification/LuaPattern.thy ===== *)
theory LuaPattern
  imports LuaAux
begin

text \<open>
  The pattern matcher of lstrlib.c. Source and pattern are strings, pointers into them are
  indices; reading at the length of a string gives its terminating NUL (\<open>chat\<close>). The
  theorems show that the backtracking search decides the meaning of a pattern, that it
  stays inside the source and that a failed attempt leaves no trace in the captures.
\<close>

section \<open>Pattern matching\<close>

abbreviation L_ESC :: char where "L_ESC \<equiv> CHR 0x25"
abbreviation LUA_MAXCAPTURES :: nat where "LUA_MAXCAPTURES \<equiv> 32"

definition SPECIALS :: string where "SPECIALS = ''^$*+?.([%-''"

definition CAP_UNFINISHED :: int where "CAP_UNFINISHED = - 1"
definition CAP_POSITION :: int where "CAP_POSITION = - 2"

text \<open>
  \<open>MatchState\<close>: the first \<open>level\<close> captures, each with its start and its length. The entries
  above \<open>level\<close> are never read; the list has length \<open>level\<close>.
\<close>

type_synonym captures = "(nat \<times> int) list"

definition check_capture :: "captures \<Rightarrow> char \<Rightarrow> nat res" where
  "check_capture ms l =
     (let i = uchar l - 49
      in if i < 0 \<or> int (length ms) \<le> i \<or> snd (ms ! nat i) = CAP_UNFINISHED
         then luaL_error ''invalid capture index'' else Inr (nat i))"

fun last_unfinished :: "captures \<Rightarrow> nat \<Rightarrow> nat res" where
  "last_unfinished ms 0 = luaL_error ''invalid pattern capture''"
| "last_unfinished ms (Suc level) =
     (if snd (ms ! level) = CAP_UNFINISHED then Inr level else last_unfinished ms level)"

definition capture_to_close :: "captures \<Rightarrow> nat res" where
  "capture_to_close ms = last_unfinished ms (length ms)"

text \<open>The loop that looks for the \<open>]\<close> of a set.\<close>

function class_loop :: "string \<Rightarrow> nat \<Rightarrow> nat res" where
  "class_loop pat p =
     (if chat pat p = NUL then luaL_error (''malformed pattern (missing '' @ LUA_QL '']'' @ '')'')
      else let p' = (if chat pat p = L_ESC \<and> chat pat (Suc p) \<noteq> NUL then p + 2 else p + 1)
           in if chat pat p' = CHR '']'' then Inr (p' + 1) else class_loop pat p')"
  by pat_completeness auto
termination
  by (relation "measure (\<lambda>(pat, p). length pat - p)") (auto dest!: chat_not_NUL split: if_splits)

declare class_loop.simps [simp del]

definition classend :: "string \<Rightarrow> nat \<Rightarrow> nat res" where
  "classend pat p =
     (if chat pat p = L_ESC then
        (if chat pat (p + 1) = NUL
         then luaL_error (''malformed pattern (ends with '' @ LUA_QL ''%'' @ '')'') else Inr (p + 2))
      else if chat pat p = CHR ''['' then
        class_loop pat (if chat pat (p + 1) = CHR ''^'' then p + 2 else p + 1)
      else Inr (p + 1))"

definition match_class :: "int \<Rightarrow> int \<Rightarrow> bool" where
  "match_class c cl =
     (let k = tolower cl;
          r = (if k = 97 then Some (isalpha c)
               else if k = 99 then Some (iscntrl c)
               else if k = 100 then Some (isdigit c)
               else if k = 108 then Some (islower c)
               else if k = 112 then Some (ispunct c)
               else if k = 115 then Some (isspace c)
               else if k = 117 then Some (isupper c)
               else if k = 119 then Some (isalnum c)
               else if k = 120 then Some (isxdigit c)
               else if k = 122 then Some (c = 0)
               else None)
      in case r of None \<Rightarrow> cl = c | Some res \<Rightarrow> if islower cl then res else \<not> res)"

text \<open>The loop \<open>while (++p < ec)\<close>; \<open>p\<close> is already incremented.\<close>

function bracket_loop :: "int \<Rightarrow> string \<Rightarrow> nat \<Rightarrow> nat \<Rightarrow> bool" where
  "bracket_loop c pat p ec =
     (if p < ec then
        if chat pat p = L_ESC then
          (if match_class c (uchar (chat pat (p + 1))) then True else bracket_loop c pat (p + 2) ec)
        else if chat pat (p + 1) = CHR ''-'' \<and> p + 2 < ec then
          (if uchar (chat pat p) \<le> c \<and> c \<le> uchar (chat pat (p + 2)) then True
           else bracket_loop c pat (p + 3) ec)
        else if uchar (chat pat p) = c then True
        else bracket_loop c pat (p + 1) ec
      else False)"
  by pat_completeness auto
termination by (relation "measure (\<lambda>(c, pat, p, ec). ec - p)") auto

declare bracket_loop.simps [simp del]

definition matchbracketclass :: "int \<Rightarrow> string \<Rightarrow> nat \<Rightarrow> nat \<Rightarrow> bool" where
  "matchbracketclass c pat p ec =
     (if chat pat (p + 1) = CHR ''^'' then \<not> bracket_loop c pat (p + 2) ec
      else bracket_loop c pat (p + 1) ec)"

definition singlematch :: "int \<Rightarrow> string \<Rightarrow> nat \<Rightarrow> nat \<Rightarrow> bool" where
  "singlematch c pat p ep =
     (if chat pat p = CHR ''.'' then True
      else if chat pat p = L_ESC then match_class c (uchar (chat pat (p + 1)))
      else if chat pat p = CHR ''['' then matchbracketclass c pat p (ep - 1)
      else uchar (chat pat p) = c)"

text \<open>The loop of \<open>matchbalance\<close> over \<open>s\<close>, already incremented.\<close>

function balance_loop :: "string \<Rightarrow> char \<Rightarrow> char \<Rightarrow> nat \<Rightarrow> int \<Rightarrow> nat option" where
  "balance_loop src b e s cont =
     (if s < length src then
        if src ! s = e then (if cont = 1 then Some (s + 1) else balance_loop src b e (s + 1) (cont - 1))
        else if src ! s = b then balance_loop src b e (s + 1) (cont + 1)
        else balance_loop src b e (s + 1) cont
      else None)"
  by pat_completeness auto
termination by (relation "measure (\<lambda>(src, b, e, s, cont). length src - s)") auto

declare balance_loop.simps [simp del]

definition matchbalance :: "string \<Rightarrow> string \<Rightarrow> nat \<Rightarrow> nat \<Rightarrow> nat option res" where
  "matchbalance src pat s p =
     (if chat pat p = NUL \<or> chat pat (p + 1) = NUL then luaL_error ''unbalanced pattern''
      else if chat src s \<noteq> chat pat p then Inr None
      else Inr (balance_loop src (chat pat p) (chat pat (p + 1)) (s + 1) 1))"

text \<open>The first loop of \<open>max_expand\<close>: how often the item matches.\<close>

function max_count :: "string \<Rightarrow> string \<Rightarrow> nat \<Rightarrow> nat \<Rightarrow> nat \<Rightarrow> nat" where
  "max_count src pat s p ep =
     (if s < length src \<and> singlematch (uchar (chat src s)) pat p ep
      then Suc (max_count src pat (Suc s) p ep) else 0)"
  by pat_completeness auto
termination by (relation "measure (\<lambda>(src, pat, s, p, ep). length src - s)") auto

declare max_count.simps [simp del]

text \<open>\<open>start_capture\<close> and \<open>end_capture\<close> up to their call of \<open>match\<close>, and what they do after it.\<close>

definition open_capture :: "captures \<Rightarrow> nat \<Rightarrow> int \<Rightarrow> captures res" where
  "open_capture ms s what =
     (if LUA_MAXCAPTURES \<le> length ms then luaL_error ''too many captures'' else Inr (ms @ [(s, what)]))"

definition undo_open :: "captures \<times> nat option \<Rightarrow> captures \<times> nat option" where
  "undo_open r = (case r of (ms, None) \<Rightarrow> (butlast ms, None) | _ \<Rightarrow> r)"

definition close_capture :: "captures \<Rightarrow> nat \<Rightarrow> nat \<Rightarrow> captures" where
  "close_capture ms l s = ms[l := (fst (ms ! l), int s - int (fst (ms ! l)))]"

definition undo_close :: "nat \<Rightarrow> captures \<times> nat option \<Rightarrow> captures \<times> nat option" where
  "undo_close l r = (case r of (ms, None) \<Rightarrow> (ms[l := (fst (ms ! l), CAP_UNFINISHED)], None) | _ \<Rightarrow> r)"

definition match_capture :: "string \<Rightarrow> captures \<Rightarrow> nat \<Rightarrow> char \<Rightarrow> nat option res" where
  "match_capture src ms s l =
     bindE (check_capture ms l) (\<lambda>i.
       let init = fst (ms ! i); len = uint64 (snd (ms ! i))
       in if len \<le> int (length src) - int s
             \<and> take (nat len) (drop init src) = take (nat len) (drop s src)
          then Inr (Some (s + nat len)) else Inr None)"

lemma class_loop_gt: "class_loop pat p = Inr ep \<Longrightarrow> p < ep \<and> ep \<le> Suc (length pat)"
proof (induction pat p rule: class_loop.induct)
  case (1 pat p)
  show ?case
  proof (cases "chat pat p = NUL")
    case False
    with chat_not_NUL have pl: "p < length pat" by blast
    let ?q = "if chat pat p = L_ESC \<and> chat pat (Suc p) \<noteq> NUL then p + 2 else p + 1"
    have q: "p < ?q" "?q \<le> length pat" using pl chat_not_NUL [of pat "Suc p"] by auto
    show ?thesis
    proof (cases "chat pat ?q = CHR '']''")
      case True
      then have "class_loop pat p = Inr (?q + 1)" using False by (simp add: class_loop.simps [of pat p] Let_def)
      with 1(2) have "ep = ?q + 1" by simp
      with q show ?thesis by linarith
    next
      case f: False
      then have "class_loop pat p = class_loop pat ?q" using False by (simp add: class_loop.simps [of pat p] Let_def)
      with 1(1) [OF False refl f] 1(2) have "?q < ep \<and> ep \<le> Suc (length pat)" by simp
      with q show ?thesis by linarith
    qed
  qed (use 1(2) in \<open>simp add: class_loop.simps luaL_error_def\<close>)
qed

lemma classend_gt: "classend pat p = Inr ep \<Longrightarrow> p < ep"
  using class_loop_gt [of pat _ ep] by (auto simp: classend_def luaL_error_def split: if_splits) force+

text \<open>
  \<open>match\<close>. The result is the captures it leaves and the end of the match, or \<open>None\<close> for NULL.
  \<open>max_try\<close> and \<open>min_try\<close> are the loops of \<open>max_expand\<close> and \<open>min_expand\<close> that call \<open>match\<close>.
\<close>

function do_match :: "string \<Rightarrow> string \<Rightarrow> captures \<Rightarrow> nat \<Rightarrow> nat \<Rightarrow> (captures \<times> nat option) res"
  and max_try :: "string \<Rightarrow> string \<Rightarrow> captures \<Rightarrow> nat \<Rightarrow> nat \<Rightarrow> nat \<Rightarrow> (captures \<times> nat option) res"
  and min_try :: "string \<Rightarrow> string \<Rightarrow> captures \<Rightarrow> nat \<Rightarrow> nat \<Rightarrow> nat \<Rightarrow> (captures \<times> nat option) res"
where
  "do_match src pat ms s p =
     (let c = chat pat p; c1 = chat pat (p + 1)
      in if c = NUL then Inr (ms, Some s)
         else if c = CHR ''('' then
           (if c1 = CHR '')'' then
              bindE (open_capture ms s CAP_POSITION) (\<lambda>ms1.
              bindE (do_match src pat ms1 s (p + 2)) (\<lambda>r. Inr (undo_open r)))
            else
              bindE (open_capture ms s CAP_UNFINISHED) (\<lambda>ms1.
              bindE (do_match src pat ms1 s (p + 1)) (\<lambda>r. Inr (undo_open r))))
         else if c = CHR '')'' then
           bindE (capture_to_close ms) (\<lambda>l.
           bindE (do_match src pat (close_capture ms l s) s (p + 1)) (\<lambda>r. Inr (undo_close l r)))
         else if c = L_ESC \<and> c1 = CHR ''b'' then
           bindE (matchbalance src pat s (p + 2)) (\<lambda>r.
             case r of None \<Rightarrow> Inr (ms, None) | Some s' \<Rightarrow> do_match src pat ms s' (p + 4))
         else if c = L_ESC \<and> c1 = CHR ''f'' then
           (if chat pat (p + 2) \<noteq> CHR ''['' then
              luaL_error (''missing '' @ LUA_QL ''['' @ '' after '' @ LUA_QL ''%f'' @ '' in pattern'')
            else
              bindE (classend pat (p + 2)) (\<lambda>ep.
                let previous = (if s = 0 then NUL else chat src (s - 1))
                in if matchbracketclass (uchar previous) pat (p + 2) (ep - 1)
                      \<or> \<not> matchbracketclass (uchar (chat src s)) pat (p + 2) (ep - 1)
                   then Inr (ms, None) else do_match src pat ms s ep))
         else if c = L_ESC \<and> isdigit (uchar c1) then
           bindE (match_capture src ms s c1) (\<lambda>r.
             case r of None \<Rightarrow> Inr (ms, None) | Some s' \<Rightarrow> do_match src pat ms s' (p + 2))
         else if c = CHR ''$'' \<and> c1 = NUL then
           Inr (ms, if s = length src then Some s else None)
         else
           bindE (classend pat p) (\<lambda>ep.
             let m = (s < length src \<and> singlematch (uchar (chat src s)) pat p ep); e = chat pat ep
             in if e = CHR ''?'' then
                  (if m then
                     bindE (do_match src pat ms (s + 1) (ep + 1)) (\<lambda>(ms1, r).
                       case r of Some x \<Rightarrow> Inr (ms1, Some x) | None \<Rightarrow> do_match src pat ms1 s (ep + 1))
                   else do_match src pat ms s (ep + 1))
                else if e = CHR ''*'' then max_try src pat ms s ep (max_count src pat s p ep)
                else if e = CHR ''+'' then
                  (if m then max_try src pat ms (s + 1) ep (max_count src pat (s + 1) p ep)
                   else Inr (ms, None))
                else if e = CHR ''-'' then min_try src pat ms s p ep
                else if \<not> m then Inr (ms, None)
                else do_match src pat ms (s + 1) ep))"
| "max_try src pat ms s ep i =
     bindE (do_match src pat ms (s + i) (ep + 1)) (\<lambda>(ms1, r).
       case r of
         Some x \<Rightarrow> Inr (ms1, Some x)
       | None \<Rightarrow> if i = 0 then Inr (ms1, None) else max_try src pat ms1 s ep (i - 1))"
| "min_try src pat ms s p ep =
     bindE (do_match src pat ms s (ep + 1)) (\<lambda>(ms1, r).
       case r of
         Some x \<Rightarrow> Inr (ms1, Some x)
       | None \<Rightarrow> if s < length src \<and> singlematch (uchar (chat src s)) pat p ep
                 then min_try src pat ms1 (s + 1) p ep else Inr (ms1, None))"
  by pat_completeness auto
termination
proof (relation "inv_image (less_than <*lex*> less_than) (\<lambda>x. case x of
      Inl (src, pat, ms, s, p) \<Rightarrow> (length pat - p, 0)
    | Inr (Inl (src, pat, ms, s, ep, i)) \<Rightarrow> (length pat - ep, Suc i)
    | Inr (Inr (src, pat, ms, s, p, ep)) \<Rightarrow> (length pat - ep, Suc (length src - s)))", goal_cases)
  case 1
  show ?case by (intro wf_inv_image wf_lex_prod wf_less_than)
qed (auto dest!: classend_gt simp: chat_def split: if_splits)

declare do_match.simps [simp del] max_try.simps [simp del] min_try.simps [simp del]

text \<open>
  A match ends where it begins or later, and not after the end of the source.
\<close>

definition within :: "string \<Rightarrow> nat \<Rightarrow> (captures \<times> nat option) res \<Rightarrow> bool" where
  "within src s r \<longleftrightarrow> (\<forall>ms e. r = Inr (ms, Some e) \<longrightarrow> s \<le> e \<and> e \<le> max s (length src))"

lemma within_simps [simp]:
  "within src s (Inl x)" "within src s (Inr (ms, None))" "within src s (luaL_error m)"
  "within src s (Inr (ms, Some e)) \<longleftrightarrow> s \<le> e \<and> e \<le> max s (length src)"
  by (auto simp: within_def luaL_error_def)

lemma within_bindE:
  "(\<And>x. m = Inr x \<Longrightarrow> within src s (f x)) \<Longrightarrow> within src s (bindE m f)"
  by (cases m) auto

lemma within_undo:
  "within src s m \<Longrightarrow> within src s (bindE m (\<lambda>r. Inr (undo_open r)))"
  "within src s m \<Longrightarrow> within src s (bindE m (\<lambda>r. Inr (undo_close l r)))"
  by (cases m; auto simp: within_def undo_open_def undo_close_def split: option.splits prod.splits)+

lemma within_later:
  "within src s' r \<Longrightarrow> s \<le> s' \<Longrightarrow> s' \<le> max s (length src) \<Longrightarrow> within src s r"
  by (force simp: within_def)

lemma balance_loop_range: "balance_loop src b e s cont = Some s' \<Longrightarrow> s < s' \<and> s' \<le> length src"
  by (induction src b e s cont rule: balance_loop.induct)
     (subst (asm) balance_loop.simps, auto split: if_splits)

lemma matchbalance_range: "matchbalance src pat s p = Inr (Some s') \<Longrightarrow> s < s' \<and> s' \<le> length src"
  by (auto simp: matchbalance_def luaL_error_def dest!: balance_loop_range split: if_splits)

lemma match_capture_range: "match_capture src ms s l = Inr (Some s') \<Longrightarrow> s \<le> s' \<and> s' \<le> length src"
  by (auto simp: match_capture_def bindE_Inr_iff uint64_def Let_def split: if_splits)

lemma max_count_range: "s \<le> length src \<Longrightarrow> s + max_count src pat s p ep \<le> length src"
  by (induction src pat s p ep rule: max_count.induct) (subst max_count.simps, auto)

subsection \<open>The cases of \<open>match\<close>\<close>

text \<open>\<open>p\<close> is at a pattern item: a class with an optional suffix.\<close>

definition item_at :: "string \<Rightarrow> nat \<Rightarrow> bool" where
  "item_at pat p \<longleftrightarrow> (let c = chat pat p; c1 = chat pat (p + 1)
     in c \<noteq> NUL \<and> c \<noteq> CHR ''('' \<and> c \<noteq> CHR '')'' \<and> \<not> (c = CHR ''$'' \<and> c1 = NUL)
        \<and> \<not> (c = L_ESC \<and> (c1 = CHR ''b'' \<or> c1 = CHR ''f'' \<or> isdigit (uchar c1))))"

definition item_matches :: "string \<Rightarrow> string \<Rightarrow> nat \<Rightarrow> nat \<Rightarrow> nat \<Rightarrow> bool" where
  "item_matches src pat s p ep \<longleftrightarrow> s < length src \<and> singlematch (uchar (chat src s)) pat p ep"

definition frontier :: "string \<Rightarrow> string \<Rightarrow> nat \<Rightarrow> nat \<Rightarrow> nat \<Rightarrow> bool" where
  "frontier src pat s p ep \<longleftrightarrow>
     \<not> matchbracketclass (uchar (if s = 0 then NUL else chat src (s - 1))) pat p (ep - 1)
     \<and> matchbracketclass (uchar (chat src s)) pat p (ep - 1)"

definition or_else :: "(captures \<times> nat option) res \<Rightarrow> (captures \<Rightarrow> (captures \<times> nat option) res)
    \<Rightarrow> (captures \<times> nat option) res" where
  "or_else r f = bindE r (\<lambda>(ms1, r). case r of Some x \<Rightarrow> Inr (ms1, Some x) | None \<Rightarrow> f ms1)"

lemma match_kinds:
  obtains (End) "chat pat p = NUL"
  | (Pos) "chat pat p = CHR ''(''" "chat pat (p + 1) = CHR '')''"
  | (Open) "chat pat p = CHR ''(''" "chat pat (p + 1) \<noteq> CHR '')''"
  | (Close) "chat pat p = CHR '')''"
  | (Balance) "chat pat p = L_ESC" "chat pat (p + 1) = CHR ''b''"
  | (Frontier) "chat pat p = L_ESC" "chat pat (p + 1) = CHR ''f''"
  | (Back) "chat pat p = L_ESC" "isdigit (uchar (chat pat (p + 1)))"
  | (Anchor) "chat pat p = CHR ''$''" "chat pat (p + 1) = NUL"
  | (Item) "item_at pat p"
  unfolding item_at_def Let_def by blast

lemma digit_not_bf: "isdigit (uchar c) \<Longrightarrow> c \<noteq> CHR ''b'' \<and> c \<noteq> CHR ''f''"
  by (auto simp: isdigit_def uchar_def)

lemma do_match_End: "chat pat p = NUL \<Longrightarrow> do_match src pat ms s p = Inr (ms, Some s)"
  by (simp add: do_match.simps Let_def)

lemma do_match_Pos: "chat pat p = CHR ''('' \<Longrightarrow> chat pat (p + 1) = CHR '')'' \<Longrightarrow>
  do_match src pat ms s p = bindE (open_capture ms s CAP_POSITION) (\<lambda>ms1.
    bindE (do_match src pat ms1 s (p + 2)) (\<lambda>r. Inr (undo_open r)))"
  by (simp add: do_match.simps [of src pat ms s p] Let_def)

lemma do_match_Open: "chat pat p = CHR ''('' \<Longrightarrow> chat pat (p + 1) \<noteq> CHR '')'' \<Longrightarrow>
  do_match src pat ms s p = bindE (open_capture ms s CAP_UNFINISHED) (\<lambda>ms1.
    bindE (do_match src pat ms1 s (p + 1)) (\<lambda>r. Inr (undo_open r)))"
  by (simp add: do_match.simps [of src pat ms s p] Let_def)

lemma do_match_Close: "chat pat p = CHR '')'' \<Longrightarrow>
  do_match src pat ms s p = bindE (capture_to_close ms) (\<lambda>l.
    bindE (do_match src pat (close_capture ms l s) s (p + 1)) (\<lambda>r. Inr (undo_close l r)))"
  by (simp add: do_match.simps [of src pat ms s p] Let_def)

lemma do_match_Balance: "chat pat p = L_ESC \<Longrightarrow> chat pat (p + 1) = CHR ''b'' \<Longrightarrow>
  do_match src pat ms s p = bindE (matchbalance src pat s (p + 2)) (\<lambda>r.
    case r of None \<Rightarrow> Inr (ms, None) | Some s' \<Rightarrow> do_match src pat ms s' (p + 4))"
  by (simp add: do_match.simps [of src pat ms s p] Let_def)

lemma do_match_Frontier: "chat pat p = L_ESC \<Longrightarrow> chat pat (p + 1) = CHR ''f'' \<Longrightarrow>
  do_match src pat ms s p =
    (if chat pat (p + 2) \<noteq> CHR ''['' then
       luaL_error (''missing '' @ LUA_QL ''['' @ '' after '' @ LUA_QL ''%f'' @ '' in pattern'')
     else bindE (classend pat (p + 2)) (\<lambda>ep.
       if frontier src pat s (p + 2) ep then do_match src pat ms s ep else Inr (ms, None)))"
  by (auto simp: do_match.simps [of src pat ms s p] Let_def frontier_def intro!: bindE_cong)

lemma do_match_Back: "chat pat p = L_ESC \<Longrightarrow> isdigit (uchar (chat pat (p + 1))) \<Longrightarrow>
  do_match src pat ms s p = bindE (match_capture src ms s (chat pat (p + 1))) (\<lambda>r.
    case r of None \<Rightarrow> Inr (ms, None) | Some s' \<Rightarrow> do_match src pat ms s' (p + 2))"
  using digit_not_bf [of "chat pat (p + 1)"]
  by (simp add: do_match.simps [of src pat ms s p] Let_def cong: option.case_cong)

lemma do_match_Anchor: "chat pat p = CHR ''$'' \<Longrightarrow> chat pat (p + 1) = NUL \<Longrightarrow>
  do_match src pat ms s p = Inr (ms, if s = length src then Some s else None)"
  by (simp add: do_match.simps [of src pat ms s p] Let_def)

lemma do_match_Item:
  assumes i: "item_at pat p"
  shows "do_match src pat ms s p = bindE (classend pat p) (\<lambda>ep.
    if chat pat ep = CHR ''?'' then
      (if item_matches src pat s p ep
       then or_else (do_match src pat ms (s + 1) (ep + 1)) (\<lambda>ms1. do_match src pat ms1 s (ep + 1))
       else do_match src pat ms s (ep + 1))
    else if chat pat ep = CHR ''*'' then max_try src pat ms s ep (max_count src pat s p ep)
    else if chat pat ep = CHR ''+'' then
      (if item_matches src pat s p ep
       then max_try src pat ms (s + 1) ep (max_count src pat (s + 1) p ep) else Inr (ms, None))
    else if chat pat ep = CHR ''-'' then min_try src pat ms s p ep
    else if item_matches src pat s p ep then do_match src pat ms (s + 1) ep else Inr (ms, None))"
proof -
  have n: "chat pat p \<noteq> NUL" "chat pat p \<noteq> CHR ''(''" "chat pat p \<noteq> CHR '')''"
    "\<not> (chat pat p = L_ESC \<and> chat pat (p + 1) = CHR ''b'')"
    "\<not> (chat pat p = L_ESC \<and> chat pat (p + 1) = CHR ''f'')"
    "\<not> (chat pat p = L_ESC \<and> isdigit (uchar (chat pat (p + 1))))"
    "\<not> (chat pat p = CHR ''$'' \<and> chat pat (p + 1) = NUL)"
    using i by (auto simp: item_at_def Let_def)
  show ?thesis
    by (subst do_match.simps)
       (simp only: Let_def n if_False item_matches_def or_else_def, rule bindE_cong, rule refl, auto)
qed

lemma max_try_eq: "max_try src pat ms s ep i =
  or_else (do_match src pat ms (s + i) (ep + 1)) (\<lambda>ms1.
    if i = 0 then Inr (ms1, None) else max_try src pat ms1 s ep (i - 1))"
  by (subst max_try.simps) (simp add: or_else_def)

lemma min_try_eq: "min_try src pat ms s p ep =
  or_else (do_match src pat ms s (ep + 1)) (\<lambda>ms1.
    if item_matches src pat s p ep then min_try src pat ms1 (s + 1) p ep else Inr (ms1, None))"
  by (subst min_try.simps) (simp add: or_else_def item_matches_def)

text \<open>Every recursive call is further on in the pattern.\<close>

lemma pattern_induct:
  fixes P :: "nat \<Rightarrow> bool"
  assumes "\<And>p. (\<And>p'. p < length pat \<Longrightarrow> p < p' \<Longrightarrow> P p') \<Longrightarrow> P p"
  shows "P p"
proof (induction "length pat - p" arbitrary: p rule: less_induct)
  case less
  show ?case by (rule assms) (rule less, simp)
qed

lemma within_or_else:
  "within src s r \<Longrightarrow> (\<And>ms. within src s (f ms)) \<Longrightarrow> within src s (or_else r f)"
  unfolding or_else_def
proof (rule within_bindE)
  fix x assume r: "within src s r" "\<And>ms. within src s (f ms)" "r = Inr x"
  obtain ms1 o1 where x: "x = (ms1, o1)" by fastforce
  with r show "within src s (case x of (ms1, Some y) \<Rightarrow> Inr (ms1, Some y) | (ms1, None) \<Rightarrow> f ms1)"
    by (cases o1) auto
qed

lemma do_match_within: "within src s (do_match src pat ms s p)"
proof (induction p arbitrary: ms s rule: pattern_induct [where pat = pat])
  case (1 p)
  show ?case
  proof (cases "p < length pat")
    case pl: True
    have later: "within src s (do_match src pat ms' s' p')"
      if "p < p'" "s \<le> s'" "s' \<le> max s (length src)" for ms' s' p'
      by (rule within_later [OF 1 [OF pl that(1)] that(2,3)])
    have mx: "within src s (max_try src pat ms' s' ep i)"
      if "p < ep" "s \<le> s'" "s' + i \<le> max s (length src)" for ms' s' ep i
      using that(3)
      by (induction i arbitrary: ms') (subst max_try_eq, rule within_or_else, use that(1,2) in \<open>auto intro!: later\<close>)+
    have mn: "within src s (min_try src pat ms' s' q ep)"
      if "p < ep" "s \<le> s'" "s' \<le> max s (length src)" for ms' s' q ep
      using that(2,3)
    proof (induction "length src - s'" arbitrary: ms' s' rule: less_induct)
      case less
      show ?case
        by (subst min_try_eq, rule within_or_else)
           (use that(1) less(2,3) in \<open>auto intro!: later less(1) simp: item_matches_def\<close>)
    qed
    show ?thesis
    proof (cases pat p rule: match_kinds)
      case End then show ?thesis by (simp add: do_match_End)
    next
      case Pos
      show ?thesis unfolding do_match_Pos [OF Pos] by (intro within_bindE within_undo later) auto
    next
      case Open
      show ?thesis unfolding do_match_Open [OF Open] by (intro within_bindE within_undo later) auto
    next
      case Close
      show ?thesis unfolding do_match_Close [OF Close] by (intro within_bindE within_undo later) auto
    next
      case Balance
      show ?thesis unfolding do_match_Balance [OF Balance]
        by (intro within_bindE) (auto intro!: later dest!: matchbalance_range split: option.split)
    next
      case Frontier
      show ?thesis unfolding do_match_Frontier [OF Frontier]
        by (auto intro!: within_bindE later dest!: classend_gt)
    next
      case Back
      show ?thesis unfolding do_match_Back [OF Back]
        by (intro within_bindE) (auto intro!: later dest!: match_capture_range split: option.split)
    next
      case Anchor then show ?thesis by (simp add: do_match_Anchor)
    next
      case Item
      show ?thesis unfolding do_match_Item [OF Item]
      proof (rule within_bindE)
        fix ep assume ep: "classend pat p = Inr ep"
        note g = classend_gt [OF ep]
        have "s + max_count src pat s p ep \<le> max s (length src)" for s
          using max_count_range [of s src pat p ep] max_count.simps [of src pat s p ep]
          by (cases "s \<le> length src") auto
        note c = this [of s] this [of "Suc s"]
        show "within src s (if chat pat ep = CHR ''?'' then
            (if item_matches src pat s p ep
             then or_else (do_match src pat ms (s + 1) (ep + 1)) (\<lambda>ms1. do_match src pat ms1 s (ep + 1))
             else do_match src pat ms s (ep + 1))
          else if chat pat ep = CHR ''*'' then max_try src pat ms s ep (max_count src pat s p ep)
          else if chat pat ep = CHR ''+'' then
            (if item_matches src pat s p ep
             then max_try src pat ms (s + 1) ep (max_count src pat (s + 1) p ep) else Inr (ms, None))
          else if chat pat ep = CHR ''-'' then min_try src pat ms s p ep
          else if item_matches src pat s p ep then do_match src pat ms (s + 1) ep else Inr (ms, None))"
          using g c by (auto intro!: later mx mn within_or_else simp: item_matches_def)
      qed
    qed
  qed (simp add: do_match_End)
qed

subsection \<open>A failed match undoes its captures\<close>

definition restores :: "captures \<Rightarrow> (captures \<times> nat option) res \<Rightarrow> bool" where
  "restores ms r \<longleftrightarrow> (\<forall>ms'. r = Inr (ms', None) \<longrightarrow> ms' = ms)"

lemma restores_simps [simp]:
  "restores ms (Inl x)" "restores ms (Inr (ms', Some e))" "restores ms (luaL_error m)"
  "restores ms (Inr (ms', None)) \<longleftrightarrow> ms' = ms"
  by (auto simp: restores_def luaL_error_def)

lemma restores_bindE: "(\<And>x. m = Inr x \<Longrightarrow> restores ms (f x)) \<Longrightarrow> restores ms (bindE m f)"
  by (cases m) auto

lemma restores_or_else:
  assumes "restores ms r" "restores ms (f ms)"
  shows "restores ms (or_else r f)"
  unfolding or_else_def
proof (rule restores_bindE)
  fix x assume r: "r = Inr x"
  obtain ms1 o1 where x: "x = (ms1, o1)" by fastforce
  with r assms show "restores ms (case x of (ms1, Some y) \<Rightarrow> Inr (ms1, Some y) | (ms1, None) \<Rightarrow> f ms1)"
    by (cases o1) auto
qed

lemma restores_open:
  assumes "open_capture ms s what = Inr ms1" "restores ms1 r"
  shows "restores ms (bindE r (\<lambda>r. Inr (undo_open r)))"
  using assms
  by (cases r) (auto simp: open_capture_def luaL_error_def undo_open_def restores_def split: if_splits option.splits prod.splits)

lemma last_unfinished_Inr: "last_unfinished ms n = Inr l \<Longrightarrow> l < n \<and> snd (ms ! l) = CAP_UNFINISHED"
  by (induction n) (auto simp: luaL_error_def less_Suc_eq split: if_splits)

lemma restores_close:
  assumes "capture_to_close ms = Inr l" "restores (close_capture ms l s) r"
  shows "restores ms (bindE r (\<lambda>r. Inr (undo_close l r)))"
proof -
  have l: "l < length ms" "snd (ms ! l) = CAP_UNFINISHED"
    using assms(1) last_unfinished_Inr by (auto simp: capture_to_close_def)
  have "(close_capture ms l s)[l := (fst (close_capture ms l s ! l), CAP_UNFINISHED)] = ms"
    using l by (auto simp: close_capture_def list_update_id simp flip: l(2))
  with assms(2) show ?thesis
    by (cases r) (auto simp: undo_close_def restores_def split: option.splits prod.splits)
qed

lemma do_match_restores: "restores ms (do_match src pat ms s p)"
proof (induction p arbitrary: ms s rule: pattern_induct [where pat = pat])
  case (1 p)
  show ?case
  proof (cases "p < length pat")
    case pl: True
    note ih = 1 [OF pl]
    have mx: "restores ms' (max_try src pat ms' s' ep i)" if "p < ep" for ms' s' ep i
      by (induction i arbitrary: ms') (subst max_try_eq, rule restores_or_else, use ih that in auto)+
    have mn: "restores ms' (min_try src pat ms' s' q ep)" if "p < ep" for ms' s' q ep
    proof (induction "length src - s'" arbitrary: ms' s' rule: less_induct)
      case less
      show ?case
        by (subst min_try_eq, rule restores_or_else) (use that ih less in \<open>auto simp: item_matches_def\<close>)
    qed
    show ?thesis
    proof (cases pat p rule: match_kinds)
      case Item
      show ?thesis unfolding do_match_Item [OF Item]
        by (rule restores_bindE) (use ih mx mn in \<open>auto intro!: restores_or_else dest!: classend_gt\<close>)
    next
      case Pos
      show ?thesis unfolding do_match_Pos [OF Pos]
        by (rule restores_bindE, erule restores_open) (simp add: ih)
    next
      case Open
      show ?thesis unfolding do_match_Open [OF Open]
        by (rule restores_bindE, erule restores_open) (simp add: ih)
    next
      case Close
      show ?thesis unfolding do_match_Close [OF Close]
        by (rule restores_bindE, erule restores_close [where s = s]) (simp add: ih)
    next
      case Balance
      show ?thesis unfolding do_match_Balance [OF Balance] by (intro restores_bindE) (auto simp: ih split: option.split)
    next
      case Frontier
      show ?thesis unfolding do_match_Frontier [OF Frontier]
        by (auto intro!: restores_bindE ih dest!: classend_gt)
    next
      case Back
      show ?thesis unfolding do_match_Back [OF Back] by (intro restores_bindE) (auto simp: ih split: option.split)
    qed (simp_all add: do_match_End do_match_Anchor)
  qed (simp add: do_match_End)
qed

subsection \<open>What a pattern means\<close>

text \<open>
  The meaning of a pattern without a strategy: \<open>pm ms s p ms' e\<close> if the pattern from \<open>p\<close> on can
  match the source from \<open>s\<close> to \<open>e\<close>. A repeated item may match any number of times.
\<close>

inductive pm :: "string \<Rightarrow> string \<Rightarrow> captures \<Rightarrow> nat \<Rightarrow> nat \<Rightarrow> captures \<Rightarrow> nat \<Rightarrow> bool" for src pat where
  End: "chat pat p = NUL \<Longrightarrow> pm src pat ms s p ms s"
| Pos: "chat pat p = CHR ''('' \<Longrightarrow> chat pat (p + 1) = CHR '')'' \<Longrightarrow> open_capture ms s CAP_POSITION = Inr ms1 \<Longrightarrow>
    pm src pat ms1 s (p + 2) ms' e \<Longrightarrow> pm src pat ms s p ms' e"
| Open: "chat pat p = CHR ''('' \<Longrightarrow> chat pat (p + 1) \<noteq> CHR '')'' \<Longrightarrow> open_capture ms s CAP_UNFINISHED = Inr ms1 \<Longrightarrow>
    pm src pat ms1 s (p + 1) ms' e \<Longrightarrow> pm src pat ms s p ms' e"
| Close: "chat pat p = CHR '')'' \<Longrightarrow> capture_to_close ms = Inr l \<Longrightarrow>
    pm src pat (close_capture ms l s) s (p + 1) ms' e \<Longrightarrow> pm src pat ms s p ms' e"
| Balance: "chat pat p = L_ESC \<Longrightarrow> chat pat (p + 1) = CHR ''b'' \<Longrightarrow> matchbalance src pat s (p + 2) = Inr (Some s') \<Longrightarrow>
    pm src pat ms s' (p + 4) ms' e \<Longrightarrow> pm src pat ms s p ms' e"
| Frontier: "chat pat p = L_ESC \<Longrightarrow> chat pat (p + 1) = CHR ''f'' \<Longrightarrow> chat pat (p + 2) = CHR ''['' \<Longrightarrow>
    classend pat (p + 2) = Inr ep \<Longrightarrow> frontier src pat s (p + 2) ep \<Longrightarrow>
    pm src pat ms s ep ms' e \<Longrightarrow> pm src pat ms s p ms' e"
| Back: "chat pat p = L_ESC \<Longrightarrow> isdigit (uchar (chat pat (p + 1))) \<Longrightarrow>
    match_capture src ms s (chat pat (p + 1)) = Inr (Some s') \<Longrightarrow>
    pm src pat ms s' (p + 2) ms' e \<Longrightarrow> pm src pat ms s p ms' e"
| Anchor: "chat pat p = CHR ''$'' \<Longrightarrow> chat pat (p + 1) = NUL \<Longrightarrow> s = length src \<Longrightarrow> pm src pat ms s p ms s"
| Once: "item_at pat p \<Longrightarrow> classend pat p = Inr ep \<Longrightarrow> chat pat ep \<notin> set ''?*+-'' \<Longrightarrow>
    item_matches src pat s p ep \<Longrightarrow> pm src pat ms (s + 1) ep ms' e \<Longrightarrow> pm src pat ms s p ms' e"
| Repeat: "item_at pat p \<Longrightarrow> classend pat p = Inr ep \<Longrightarrow>
    \<forall>k < n. item_matches src pat (s + k) p ep \<Longrightarrow>
    chat pat ep = CHR ''*'' \<or> chat pat ep = CHR ''-'' \<or> chat pat ep = CHR ''+'' \<and> 1 \<le> n
      \<or> chat pat ep = CHR ''?'' \<and> n \<le> 1 \<Longrightarrow>
    pm src pat ms (s + n) (ep + 1) ms' e \<Longrightarrow> pm src pat ms s p ms' e"

text \<open>\<open>r\<close> tells whether a match exists and gives one, unless it is an error.\<close>

definition decides :: "(captures \<Rightarrow> nat \<Rightarrow> bool) \<Rightarrow> (captures \<times> nat option) res \<Rightarrow> bool" where
  "decides Q r \<longleftrightarrow> (\<forall>ms' e. r = Inr (ms', Some e) \<longrightarrow> Q ms' e) \<and> (\<forall>ms'. r = Inr (ms', None) \<longrightarrow> (\<forall>ms'' e. \<not> Q ms'' e))"

lemma decides_simps [simp]:
  "decides Q (Inl x)" "decides Q (luaL_error m)"
  "decides Q (Inr (ms', Some e)) \<longleftrightarrow> Q ms' e" "decides Q (Inr (ms', None)) \<longleftrightarrow> (\<forall>ms'' e. \<not> Q ms'' e)"
  by (auto simp: decides_def luaL_error_def)

lemma decides_bindE: "(\<And>x. m = Inr x \<Longrightarrow> decides Q (f x)) \<Longrightarrow> decides Q (bindE m f)"
  by (cases m) auto

lemma decides_cong: "(\<And>ms e. Q ms e \<longleftrightarrow> Q' ms e) \<Longrightarrow> decides Q' r \<Longrightarrow> decides Q r"
  by (simp add: decides_def)

lemma decides_undo:
  "decides Q r \<Longrightarrow> decides Q (bindE r (\<lambda>r. Inr (undo_open r)))"
  "decides Q r \<Longrightarrow> decides Q (bindE r (\<lambda>r. Inr (undo_close l r)))"
  by (cases r; auto simp: decides_def undo_open_def undo_close_def split: option.splits prod.splits)+

lemma decides_or_else:
  assumes "decides Qa r" "restores ms r" "decides Qb (f ms)"
  shows "decides (\<lambda>m e. Qa m e \<or> Qb m e) (or_else r f)"
proof (cases r)
  case (Inr x)
  obtain ms1 o1 where x: "x = (ms1, o1)" by fastforce
  show ?thesis
  proof (cases o1)
    case None
    then have "ms1 = ms" using assms(2) Inr x by simp
    moreover have "\<And>m e. \<not> Qa m e" using assms(1) Inr x None by auto
    ultimately show ?thesis using Inr x None assms(3) by (auto simp: or_else_def intro: decides_cong)
  qed (use Inr x assms(1) in \<open>simp add: or_else_def\<close>)
qed (simp add: or_else_def)

text \<open>The rules of \<open>pm\<close> backwards, by the kind of the pattern.\<close>

lemma item_not:
  assumes "item_at pat p"
  shows "chat pat p \<noteq> NUL" "chat pat p \<noteq> CHR ''(''" "chat pat p \<noteq> CHR '')''"
    "chat pat p = L_ESC \<Longrightarrow> chat pat (Suc p) \<noteq> CHR ''b''" "chat pat p = L_ESC \<Longrightarrow> chat pat (Suc p) \<noteq> CHR ''f''"
    "chat pat p = L_ESC \<Longrightarrow> \<not> isdigit (uchar (chat pat (Suc p)))"
    "chat pat p = CHR ''$'' \<Longrightarrow> chat pat (Suc p) \<noteq> NUL"
  using assms by (auto simp: item_at_def Let_def)

lemma digit_b: "\<not> isdigit (uchar (CHR ''b''))" "\<not> isdigit (uchar (CHR ''f''))"
  by (simp_all add: isdigit_def uchar_def)

lemma pm_End: "chat pat p = NUL \<Longrightarrow> pm src pat ms s p ms' e \<longleftrightarrow> ms' = ms \<and> e = s"
  by (auto elim: pm.cases intro: pm.End dest: item_not)

lemma pm_Pos: "chat pat p = CHR ''('' \<Longrightarrow> chat pat (p + 1) = CHR '')'' \<Longrightarrow>
  pm src pat ms s p ms' e \<longleftrightarrow> (\<exists>ms1. open_capture ms s CAP_POSITION = Inr ms1 \<and> pm src pat ms1 s (p + 2) ms' e)"
  by (rule iffI, erule pm.cases) (auto intro: pm.Pos dest: item_not)

lemma pm_Open: "chat pat p = CHR ''('' \<Longrightarrow> chat pat (p + 1) \<noteq> CHR '')'' \<Longrightarrow>
  pm src pat ms s p ms' e \<longleftrightarrow> (\<exists>ms1. open_capture ms s CAP_UNFINISHED = Inr ms1 \<and> pm src pat ms1 s (p + 1) ms' e)"
  by (rule iffI, erule pm.cases) (auto intro: pm.Open dest: item_not)

lemma pm_Close: "chat pat p = CHR '')'' \<Longrightarrow>
  pm src pat ms s p ms' e \<longleftrightarrow> (\<exists>l. capture_to_close ms = Inr l \<and> pm src pat (close_capture ms l s) s (p + 1) ms' e)"
  by (rule iffI, erule pm.cases) (auto intro: pm.Close dest: item_not)

lemma pm_Balance: "chat pat p = L_ESC \<Longrightarrow> chat pat (p + 1) = CHR ''b'' \<Longrightarrow>
  pm src pat ms s p ms' e \<longleftrightarrow> (\<exists>s'. matchbalance src pat s (p + 2) = Inr (Some s') \<and> pm src pat ms s' (p + 4) ms' e)"
  by (rule iffI, erule pm.cases) (auto intro: pm.Balance dest: item_not simp: digit_b)

lemma pm_Frontier: "chat pat p = L_ESC \<Longrightarrow> chat pat (p + 1) = CHR ''f'' \<Longrightarrow>
  pm src pat ms s p ms' e \<longleftrightarrow> (\<exists>ep. chat pat (p + 2) = CHR ''['' \<and> classend pat (p + 2) = Inr ep
    \<and> frontier src pat s (p + 2) ep \<and> pm src pat ms s ep ms' e)"
  by (rule iffI, erule pm.cases) (auto intro: pm.Frontier dest: item_not simp: digit_b)

lemma pm_Back: "chat pat p = L_ESC \<Longrightarrow> isdigit (uchar (chat pat (p + 1))) \<Longrightarrow>
  pm src pat ms s p ms' e \<longleftrightarrow> (\<exists>s'. match_capture src ms s (chat pat (p + 1)) = Inr (Some s') \<and> pm src pat ms s' (p + 2) ms' e)"
  by (rule iffI, erule pm.cases) (auto intro: pm.Back dest: item_not simp: digit_b)

lemma pm_Anchor: "chat pat p = CHR ''$'' \<Longrightarrow> chat pat (p + 1) = NUL \<Longrightarrow>
  pm src pat ms s p ms' e \<longleftrightarrow> s = length src \<and> ms' = ms \<and> e = s"
  by (rule iffI, erule pm.cases) (auto intro: pm.Anchor dest: item_not)

lemma pm_Item: "item_at pat p \<Longrightarrow> classend pat p = Inr ep \<Longrightarrow>
  pm src pat ms s p ms' e \<longleftrightarrow>
    (chat pat ep \<notin> set ''?*+-'' \<and> item_matches src pat s p ep \<and> pm src pat ms (s + 1) ep ms' e)
    \<or> (\<exists>n. (\<forall>k < n. item_matches src pat (s + k) p ep)
        \<and> (chat pat ep = CHR ''*'' \<or> chat pat ep = CHR ''-'' \<or> chat pat ep = CHR ''+'' \<and> 1 \<le> n
           \<or> chat pat ep = CHR ''?'' \<and> n \<le> 1)
        \<and> pm src pat ms (s + n) (ep + 1) ms' e)"
  (is "_ \<Longrightarrow> _ \<Longrightarrow> _ \<longleftrightarrow> ?R")
proof
  assume i: "item_at pat p" "classend pat p = Inr ep"
  note n = item_not [OF i(1)]
  assume "pm src pat ms s p ms' e"
  then show ?R using i n by cases auto
next
  assume "item_at pat p" "classend pat p = Inr ep" ?R
  then show "pm src pat ms s p ms' e" by (auto intro: pm.Once pm.Repeat)
qed

text \<open>The number of repetitions that \<open>max_expand\<close> counts is the greatest possible one.\<close>

lemma max_count_eq:
  "(\<forall>k < n. item_matches src pat (s + k) p ep) \<longleftrightarrow> n \<le> max_count src pat s p ep"
proof (induction src pat s p ep arbitrary: n rule: max_count.induct)
  case (1 src pat s p ep)
  have all: "(\<forall>k < Suc m. item_matches src pat (s + k) p ep)
      \<longleftrightarrow> item_matches src pat s p ep \<and> (\<forall>k < m. item_matches src pat (Suc s + k) p ep)" for m
    by (auto simp: less_Suc_eq_0_disj)
  show ?case
  proof (cases "item_matches src pat s p ep")
    case True
    then have "max_count src pat s p ep = Suc (max_count src pat (Suc s) p ep)"
      by (subst max_count.simps) (simp add: item_matches_def del: chat_nth)
    moreover have "s < length src \<and> singlematch (uchar (chat src s)) pat p ep"
      using True by (simp only: item_matches_def)
    note ih = 1 [OF this]
    ultimately show ?thesis using True all ih by (cases n) auto
  next
    case False
    then have "max_count src pat s p ep = 0"
      by (subst max_count.simps) (simp add: item_matches_def del: chat_nth)
    with False all show ?thesis by (cases n) auto
  qed
qed

lemma max_try_decides:
  assumes ih: "\<And>ms s. decides (pm src pat ms s (ep + 1)) (do_match src pat ms s (ep + 1))"
  shows "decides (\<lambda>ms' e. \<exists>n \<le> i. pm src pat ms (s + n) (ep + 1) ms' e) (max_try src pat ms s ep i)"
proof (induction i)
  case 0
  show ?case
    by (subst max_try_eq, rule decides_cong [OF _ decides_or_else [where ms = ms and Qb = "\<lambda>_ _. False"]])
       (use ih in \<open>auto intro: do_match_restores\<close>)
next
  case (Suc i)
  show ?case
    by (subst max_try_eq, rule decides_cong [OF _ decides_or_else [OF ih do_match_restores]])
       (use Suc in \<open>auto simp: le_Suc_eq\<close>)
qed

lemma min_try_decides:
  assumes ih: "\<And>ms s. decides (pm src pat ms s (ep + 1)) (do_match src pat ms s (ep + 1))"
  shows "decides (\<lambda>ms' e. \<exists>n. (\<forall>k < n. item_matches src pat (s + k) q ep) \<and> pm src pat ms (s + n) (ep + 1) ms' e)
    (min_try src pat ms s q ep)"
proof (induction "length src - s" arbitrary: s rule: less_induct)
  case less
  let ?Q = "\<lambda>ms' e. item_matches src pat s q ep \<and>
    (\<exists>n. (\<forall>k < n. item_matches src pat (s + 1 + k) q ep) \<and> pm src pat ms (s + 1 + n) (ep + 1) ms' e)"
  have eq: "(\<exists>n. (\<forall>k < n. item_matches src pat (s + k) q ep) \<and> pm src pat ms (s + n) (ep + 1) ms' e)
      \<longleftrightarrow> pm src pat ms s (ep + 1) ms' e \<or> ?Q ms' e" (is "?L = ?R") for ms' e
  proof
    assume ?L
    then obtain n where n: "\<forall>k < n. item_matches src pat (s + k) q ep" "pm src pat ms (s + n) (ep + 1) ms' e" by blast
    show ?R
    proof (cases n)
      case (Suc m)
      with n(1) have "item_matches src pat s q ep" by force
      moreover have "item_matches src pat (s + 1 + k) q ep" if "k < m" for k
        using n(1) [rule_format, of "Suc k"] Suc that by simp
      ultimately show ?thesis using n(2) Suc by (intro disjI2 conjI exI [of _ m]) auto
    qed (use n in simp)
  next
    assume ?R
    then show ?L
    proof
      assume "?Q ms' e"
      then obtain n where n: "item_matches src pat s q ep" "\<forall>k < n. item_matches src pat (s + 1 + k) q ep"
        "pm src pat ms (s + 1 + n) (ep + 1) ms' e" by blast
      have "item_matches src pat (s + k) q ep" if "k < Suc n" for k
        using n(1) n(2) [rule_format, of "k - 1"] that by (cases k) auto
      with n(3) show ?L by (intro exI [of _ "Suc n"]) simp
    qed (intro exI [of _ 0], simp)
  qed
  show ?case
  proof (subst min_try_eq, rule decides_cong [OF eq decides_or_else [OF ih do_match_restores]])
    show "decides ?Q (if item_matches src pat s q ep then min_try src pat ms (s + 1) q ep else Inr (ms, None))"
    proof (cases "item_matches src pat s q ep")
      case True
      then have "s < length src" by (simp add: item_matches_def)
      with less [of "s + 1"] True show ?thesis by simp
    qed simp
  qed
qed

lemma item_decides:
  assumes Item: "item_at pat p"
    and ih: "\<And>p' ms s. p < p' \<Longrightarrow> decides (pm src pat ms s p') (do_match src pat ms s p')"
  shows "decides (pm src pat ms s p) (do_match src pat ms s p)"
proof -
  show ?thesis unfolding do_match_Item [OF Item]
  proof (rule decides_bindE)
    fix ep assume ep: "classend pat p = Inr ep"
    have g: "p < ep" using classend_gt [OF ep] .
    note pi = pm_Item [OF Item ep]
    have ih': "decides (pm src pat ms s (ep + 1)) (do_match src pat ms s (ep + 1))" for ms s
      by (rule ih) (use g in simp)
    note mx = max_try_decides [OF ih'] and mn = min_try_decides [OF ih']
    let ?im = "item_matches src pat s p ep"
    have plus: "(\<exists>n \<ge> 1. n \<le> max_count src pat s p ep \<and> P (s + n))
        \<longleftrightarrow> ?im \<and> (\<exists>n \<le> max_count src pat (s + 1) p ep. P (s + 1 + n))" for P
    proof -
      have "max_count src pat s p ep = (if ?im then Suc (max_count src pat (s + 1) p ep) else 0)"
        by (subst max_count.simps) (simp add: item_matches_def del: chat_nth)
      then show ?thesis
        by (auto intro: exI [of _ "Suc n" for n]) (metis Suc_le_D Suc_le_mono add_Suc add_Suc_right plus_1_eq_Suc)
    qed
    consider "chat pat ep = CHR ''?''" | "chat pat ep = CHR ''*''" | "chat pat ep = CHR ''+''"
      | "chat pat ep = CHR ''-''" | "chat pat ep \<notin> set ''?*+-''" by auto
    then show "decides (pm src pat ms s p) (if chat pat ep = CHR ''?'' then
        (if ?im then or_else (do_match src pat ms (s + 1) (ep + 1)) (\<lambda>ms1. do_match src pat ms1 s (ep + 1))
         else do_match src pat ms s (ep + 1))
      else if chat pat ep = CHR ''*'' then max_try src pat ms s ep (max_count src pat s p ep)
      else if chat pat ep = CHR ''+'' then
        (if ?im then max_try src pat ms (s + 1) ep (max_count src pat (s + 1) p ep) else Inr (ms, None))
      else if chat pat ep = CHR ''-'' then min_try src pat ms s p ep
      else if ?im then do_match src pat ms (s + 1) ep else Inr (ms, None))"
    proof cases
      case 1
      have opt: "(\<exists>n. (\<forall>k < n. item_matches src pat (s + k) p ep) \<and> n \<le> 1 \<and> P (s + n)) \<longleftrightarrow> ?im \<and> P (s + 1) \<or> P s" for P
        by (auto simp: le_Suc_eq intro: exI [of _ 0] exI [of _ 1])
      have eq: "pm src pat ms s p m e \<longleftrightarrow> ?im \<and> pm src pat ms (s + 1) (ep + 1) m e \<or> pm src pat ms s (ep + 1) m e" for m e
        using opt [of "\<lambda>x. pm src pat ms x (ep + 1) m e"] 1 by (auto simp: pi)
      show ?thesis
      proof (cases ?im)
        case True
        have "decides (\<lambda>m e. pm src pat ms (s + 1) (ep + 1) m e \<or> pm src pat ms s (ep + 1) m e)
            (or_else (do_match src pat ms (s + 1) (ep + 1)) (\<lambda>ms1. do_match src pat ms1 s (ep + 1)))"
          by (rule decides_or_else [OF ih do_match_restores ih]) (use g in auto)
        from decides_cong [OF _ this, of "pm src pat ms s p"] True eq 1 show ?thesis by simp
      next
        case False
        have "decides (pm src pat ms s (ep + 1)) (do_match src pat ms s (ep + 1))" by (rule ih) (use g in simp)
        from decides_cong [OF _ this, of "pm src pat ms s p"] False eq 1 show ?thesis by simp
      qed
    next
      case 2
      show ?thesis using 2 by (simp add: decides_cong [OF _ mx] pi max_count_eq)
    next
      case 3
      have eq: "pm src pat ms s p m e \<longleftrightarrow>
          ?im \<and> (\<exists>n \<le> max_count src pat (s + 1) p ep. pm src pat ms (s + 1 + n) (ep + 1) m e)" for m e
        using plus [of "\<lambda>x. pm src pat ms x (ep + 1) m e"] 3 by (auto simp: pi max_count_eq)
      show ?thesis
      proof (cases ?im)
        case True
        from decides_cong [OF _ mx, of "pm src pat ms s p" "max_count src pat (s + 1) p ep" ms "s + 1"] True eq 3
        show ?thesis by simp
      qed (use eq 3 in simp)
    next
      case 4
      show ?thesis using 4 by (simp add: decides_cong [OF _ mn] pi)
    next
      case 5
      then show ?thesis by (auto simp: pi intro!: decides_cong [OF _ ih [OF g]])
    qed
  qed
qed

lemma do_match_decides: "decides (pm src pat ms s p) (do_match src pat ms s p)"
proof (induction p arbitrary: ms s rule: pattern_induct [where pat = pat])
  case (1 p)
  show ?case
  proof (cases "p < length pat")
    case pl: True
    note ih = 1 [OF pl]
    show ?thesis
    proof (cases pat p rule: match_kinds)
      case End then show ?thesis by (simp add: do_match_End pm_End)
    next
      case Pos
      show ?thesis unfolding do_match_Pos [OF Pos]
        by (intro decides_bindE decides_undo decides_cong [OF _ ih]) (auto simp: pm_Pos [OF Pos])
    next
      case Open
      show ?thesis unfolding do_match_Open [OF Open]
        by (intro decides_bindE decides_undo decides_cong [OF _ ih]) (auto simp: pm_Open [OF Open])
    next
      case Close
      show ?thesis unfolding do_match_Close [OF Close]
        by (intro decides_bindE decides_undo decides_cong [OF _ ih]) (auto simp: pm_Close [OF Close])
    next
      case Balance
      show ?thesis unfolding do_match_Balance [OF Balance]
        by (rule decides_bindE)
           (auto split: option.split simp: pm_Balance [OF Balance] intro!: decides_cong [OF _ ih])
    next
      case Frontier
      show ?thesis
      proof (cases "chat pat (p + 2) = CHR ''[''")
        case True
        have "decides (pm src pat ms s p) (bindE (classend pat (p + 2)) (\<lambda>ep.
            if frontier src pat s (p + 2) ep then do_match src pat ms s ep else Inr (ms, None)))"
        proof (rule decides_bindE)
          fix ep assume ep: "classend pat (p + 2) = Inr ep"
          then have "p < ep" using classend_gt by fastforce
          note ih' = ih [OF this, of ms s]
          show "decides (pm src pat ms s p) (if frontier src pat s (p + 2) ep then do_match src pat ms s ep else Inr (ms, None))"
            using ep True by (auto simp: pm_Frontier [OF Frontier] intro!: decides_cong [OF _ ih'])
        qed
        with True show ?thesis unfolding do_match_Frontier [OF Frontier] by simp
      qed (simp add: do_match_Frontier [OF Frontier])
    next
      case Back
      show ?thesis unfolding do_match_Back [OF Back]
        by (rule decides_bindE)
           (auto split: option.split simp: pm_Back [OF Back] intro!: decides_cong [OF _ ih])
    next
      case Anchor then show ?thesis by (simp add: do_match_Anchor pm_Anchor)
    next
      case Item
      show ?thesis by (rule item_decides [OF Item ih])
    qed
  qed (simp add: do_match_End pm_End)
qed

subsection \<open>Where the captures are\<close>

text \<open>Every capture lies before \<open>s\<close>; an unfinished one or a position only has a start.\<close>

definition cap_ok :: "nat \<Rightarrow> nat \<times> int \<Rightarrow> bool" where
  "cap_ok s c \<longleftrightarrow> (if snd c = CAP_UNFINISHED \<or> snd c = CAP_POSITION then fst c \<le> s
                   else 0 \<le> snd c \<and> int (fst c) + snd c \<le> int s)"

definition caps_ok :: "nat \<Rightarrow> captures \<Rightarrow> bool" where
  "caps_ok s ms \<longleftrightarrow> (\<forall>c \<in> set ms. cap_ok s c)"

lemma cap_ok_mono: "cap_ok s c \<Longrightarrow> s \<le> s' \<Longrightarrow> cap_ok s' c"
  by (auto simp: cap_ok_def split: if_splits)

lemma caps_ok_mono: "caps_ok s ms \<Longrightarrow> s \<le> s' \<Longrightarrow> caps_ok s' ms"
  unfolding caps_ok_def using cap_ok_mono by blast

lemma caps_ok_open: "caps_ok s ms \<Longrightarrow> open_capture ms s what = Inr ms1 \<Longrightarrow>
    what = CAP_UNFINISHED \<or> what = CAP_POSITION \<Longrightarrow> caps_ok s ms1"
  by (auto simp: open_capture_def caps_ok_def cap_ok_def luaL_error_def split: if_splits)

lemma caps_ok_close:
  assumes "caps_ok s ms" "capture_to_close ms = Inr l"
  shows "caps_ok s (close_capture ms l s)"
proof -
  have l: "l < length ms" "snd (ms ! l) = CAP_UNFINISHED"
    using assms(2) last_unfinished_Inr by (auto simp: capture_to_close_def)
  have "cap_ok s (ms ! l)" using assms(1) nth_mem [OF l(1)] by (simp add: caps_ok_def)
  with l(2) have f: "fst (ms ! l) \<le> s" by (simp add: cap_ok_def)
  then have "cap_ok s (fst (ms ! l), int s - int (fst (ms ! l)))"
    by (simp add: cap_ok_def CAP_UNFINISHED_def CAP_POSITION_def)
  with assms(1) show ?thesis
    unfolding caps_ok_def close_capture_def using set_update_subset_insert by fastforce
qed

lemma pm_captures:
  assumes "pm src pat ms s p ms' e" "caps_ok s ms"
  shows "caps_ok e ms' \<and> s \<le> e"
  using assms
proof (induction rule: pm.induct)
  case (Pos p ms s ms1 ms' e)
  then show ?case using caps_ok_open by blast
next
  case (Open p ms s ms1 ms' e)
  then show ?case using caps_ok_open by blast
next
  case (Close p ms l s ms' e)
  then show ?case using caps_ok_close by blast
next
  case (Balance p s s' ms ms' e)
  then have "s \<le> s'" using matchbalance_range less_imp_le by blast
  with Balance.IH Balance.prems caps_ok_mono show ?case by (meson le_trans)
next
  case (Back p ms s s' ms' e)
  then have "s \<le> s'" using match_capture_range by blast
  with Back.IH Back.prems caps_ok_mono show ?case by (meson le_trans)
next
  case (Once p ep s ms ms' e)
  have "caps_ok (s + 1) ms" using Once.prems by (rule caps_ok_mono) simp
  with Once.IH show ?case by simp
next
  case (Repeat p ep n s ms ms' e)
  have "caps_ok (s + n) ms" using Repeat.prems by (rule caps_ok_mono) simp
  with Repeat.IH show ?case by simp
qed auto

end
