(* ===== verification/LuaStrlib.thy ===== *)
theory LuaStrlib
  imports LuaPattern
begin

text \<open>
  The functions of lstrlib.c, except \<open>string.format\<close>. Each takes the list of its arguments and
  returns the list of its results. A \<open>luaL_Buffer\<close> is the string collected so far; its pieces
  on the stack are not counted by \<open>luaL_checkstack\<close>.
\<close>

section \<open>Simple functions\<close>

definition str_len :: "lua_Debug \<Rightarrow> tvalue list \<Rightarrow> tvalue list res" where
  "str_len ar args = bindE (luaL_checklstring ar args 1) (\<lambda>s. Inr [pushinteger (int (length s))])"

definition posrelat :: "int \<Rightarrow> int \<Rightarrow> int" where
  "posrelat pos len = (if 0 \<le> pos then pos else len + pos + 1)"

text \<open>\<open>lua_pushlstring(L, s+start-1, end-start+1)\<close>\<close>

definition substring :: "string \<Rightarrow> int \<Rightarrow> int \<Rightarrow> string" where
  "substring s from len = take (nat len) (drop (nat from) s)"

definition str_sub :: "lua_Debug \<Rightarrow> tvalue list \<Rightarrow> tvalue list res" where
  "str_sub ar args =
     bindE (luaL_checklstring ar args 1) (\<lambda>s.
     bindE (luaL_checkinteger ar args 2) (\<lambda>i.
     bindE (luaL_optinteger ar args 3 (- 1)) (\<lambda>j.
       let l = int (length s); start = posrelat i l; stop = posrelat j l;
           start' = (if start < 1 then 1 else start);
           stop' = (if l < stop then l else stop)
       in Inr [TString (if start' \<le> stop' then substring s (start' - 1) (stop' - start' + 1) else [])])))"

definition str_reverse :: "lua_Debug \<Rightarrow> tvalue list \<Rightarrow> tvalue list res" where
  "str_reverse ar args =
     bindE (luaL_checklstring ar args 1) (\<lambda>s.
       Inr [TString (map (\<lambda>l. s ! l) (rev [0..<length s]))])"

definition str_lower :: "lua_Debug \<Rightarrow> tvalue list \<Rightarrow> tvalue list res" where
  "str_lower ar args =
     bindE (luaL_checklstring ar args 1) (\<lambda>s. Inr [TString (map (\<lambda>c. char_of (tolower (uchar c))) s)])"

definition str_upper :: "lua_Debug \<Rightarrow> tvalue list \<Rightarrow> tvalue list res" where
  "str_upper ar args =
     bindE (luaL_checklstring ar args 1) (\<lambda>s. Inr [TString (map (\<lambda>c. char_of (toupper (uchar c))) s)])"

definition str_rep :: "lua_Debug \<Rightarrow> tvalue list \<Rightarrow> tvalue list res" where
  "str_rep ar args =
     bindE (luaL_checklstring ar args 1) (\<lambda>s.
     bindE (luaL_checkint ar args 2) (\<lambda>n. Inr [TString (concat (replicate (nat n) s))]))"

text \<open>\<open>(size_t)pose > l\<close> compares without sign; \<open>n\<close> is an \<open>int\<close>.\<close>

definition str_byte :: "lua_Debug \<Rightarrow> tvalue list \<Rightarrow> tvalue list res" where
  "str_byte ar args =
     bindE (luaL_checklstring ar args 1) (\<lambda>s.
     let l = int (length s) in
     bindE (luaL_optinteger ar args 2 1) (\<lambda>i. let posi0 = posrelat i l in
     bindE (luaL_optinteger ar args 3 posi0) (\<lambda>j.
       let pose0 = posrelat j l;
           posi = (if posi0 \<le> 0 then 1 else posi0);
           pose = (if l < uint64 pose0 then l else pose0)
       in if pose < posi then Inr []
          else let n = int32 (pose - posi + 1)
               in if posi + n \<le> pose then luaL_error ''string slice too long''
                  else bindE (luaL_checkstack (int (length args)) n ''string slice too long'') (\<lambda>_.
                    Inr (map (\<lambda>k. pushinteger (uchar (chat s (nat (posi + k - 1))))) [0..n - 1])))))"

text \<open>The loop over the arguments, from number \<open>i\<close> on.\<close>

fun str_char_loop :: "lua_Debug \<Rightarrow> tvalue list \<Rightarrow> nat list \<Rightarrow> string res" where
  "str_char_loop ar args [] = Inr []"
| "str_char_loop ar args (i # is) =
     bindE (luaL_checkint ar args i) (\<lambda>c.
     bindE (luaL_argcheck ar (c mod 256 = c) i ''invalid value'') (\<lambda>_.
     bindE (str_char_loop ar args is) (\<lambda>b. Inr (char_of (c mod 256) # b))))"

definition str_char :: "lua_Debug \<Rightarrow> tvalue list \<Rightarrow> tvalue list res" where
  "str_char ar args =
     bindE (str_char_loop ar args [1..<Suc (length args)]) (\<lambda>b. Inr [TString b])"


section \<open>Searching\<close>

text \<open>\<open>memchr\<close> from position \<open>i\<close> on, over \<open>n\<close> bytes.\<close>

fun memchr :: "string \<Rightarrow> nat \<Rightarrow> char \<Rightarrow> nat \<Rightarrow> nat option" where
  "memchr s i c 0 = None"
| "memchr s i c (Suc n) = (if s ! i = c then Some i else memchr s (Suc i) c n)"

lemma memchr_range: "memchr s i c n = Some j \<Longrightarrow> i \<le> j \<and> j < i + n \<and> s ! j = c \<and> (\<forall>k. i \<le> k \<and> k < j \<longrightarrow> s ! k \<noteq> c)"
proof (induction n arbitrary: i)
  case (Suc n)
  show ?case
  proof (cases "s ! i = c")
    case False
    with Suc.IH [of "Suc i"] Suc.prems
    have ih: "Suc i \<le> j" "j < Suc i + n" "s ! j = c" "\<And>k. Suc i \<le> k \<Longrightarrow> k < j \<Longrightarrow> s ! k \<noteq> c" by simp_all
    have "s ! k \<noteq> c" if "i \<le> k" "k < j" for k using ih(4) [of k] False that by (cases "k = i") auto
    with ih(1-3) show ?thesis by auto
  qed (use Suc.prems in auto)
qed simp

lemma memchr_None: "memchr s i c n = None \<Longrightarrow> i \<le> k \<Longrightarrow> k < i + n \<Longrightarrow> s ! k \<noteq> c"
proof (induction n arbitrary: i)
  case (Suc n)
  then show ?case by (cases "k = i") (auto split: if_splits)
qed simp

text \<open>The loop of \<open>lmemfind\<close>: \<open>s1\<close> starts at position \<open>pos\<close> of the source, \<open>l1\<close> first characters are left.\<close>

function memfind_loop :: "string \<Rightarrow> string \<Rightarrow> nat \<Rightarrow> nat \<Rightarrow> nat option" where
  "memfind_loop s s2 pos l1 =
     (if l1 = 0 then None
      else case memchr s pos (hd s2) l1 of
        None \<Rightarrow> None
      | Some i \<Rightarrow>
          let init = i + 1
          in if take (length s2 - 1) (drop init s) = tl s2 then Some (init - 1)
             else memfind_loop s s2 init (l1 - (init - pos)))"
  by pat_completeness auto
termination
  by (relation "measure (\<lambda>(s, s2, pos, l1). l1)") (auto dest!: memchr_range)

declare memfind_loop.simps [simp del]

definition lmemfind :: "string \<Rightarrow> string \<Rightarrow> nat option" where
  "lmemfind s1 s2 =
     (if length s2 = 0 then Some 0
      else if length s1 < length s2 then None
      else memfind_loop s1 s2 0 (length s1 - (length s2 - 1)))"

section \<open>Captures\<close>

text \<open>\<open>whole\<close> are the pointers \<open>s\<close> and \<open>e\<close> of the whole match, \<open>None\<close> if they are NULL.\<close>

definition push_onecapture :: "string \<Rightarrow> captures \<Rightarrow> nat \<Rightarrow> (nat \<times> nat) option \<Rightarrow> tvalue res" where
  "push_onecapture src ms i whole =
     (if length ms \<le> i then
        if i = 0 then
          Inr (TString (case whole of None \<Rightarrow> [] | Some (s, e) \<Rightarrow> take (e - s) (drop s src)))
        else luaL_error ''invalid capture index''
      else
        let (init, l) = ms ! i
        in if l = CAP_UNFINISHED then luaL_error ''unfinished capture''
           else if l = CAP_POSITION then Inr (pushinteger (int init + 1))
           else Inr (TString (take (nat l) (drop init src))))"

fun push_loop :: "string \<Rightarrow> captures \<Rightarrow> (nat \<times> nat) option \<Rightarrow> nat list \<Rightarrow> tvalue list res" where
  "push_loop src ms whole [] = Inr []"
| "push_loop src ms whole (i # is) =
     bindE (push_onecapture src ms i whole) (\<lambda>v.
     bindE (push_loop src ms whole is) (\<lambda>vs. Inr (v # vs)))"

text \<open>\<open>ntop\<close> values are on the stack already.\<close>

definition push_captures :: "int \<Rightarrow> string \<Rightarrow> captures \<Rightarrow> (nat \<times> nat) option \<Rightarrow> tvalue list res" where
  "push_captures ntop src ms whole =
     (let nlevels = (if length ms = 0 \<and> whole \<noteq> None then 1 else length ms)
      in bindE (luaL_checkstack ntop (int nlevels) ''too many captures'') (\<lambda>_.
           push_loop src ms whole [0..<nlevels]))"

section \<open>find and match\<close>

text \<open>The loop over the starting points: the first one that matches, with the match.\<close>

function find_loop :: "string \<Rightarrow> string \<Rightarrow> nat \<Rightarrow> bool \<Rightarrow> nat \<Rightarrow> (nat \<times> captures \<times> nat) option res" where
  "find_loop src pat p anchor s1 =
     bindE (do_match src pat [] s1 p) (\<lambda>(ms, res).
       case res of
         Some e \<Rightarrow> Inr (Some (s1, ms, e))
       | None \<Rightarrow> if s1 < length src \<and> \<not> anchor then find_loop src pat p anchor (s1 + 1) else Inr None)"
  by pat_completeness auto
termination by (relation "measure (\<lambda>(src, pat, p, anchor, s1). length src - s1)") auto

declare find_loop.simps [simp del]

definition str_find_aux :: "lua_Debug \<Rightarrow> tvalue list \<Rightarrow> bool \<Rightarrow> tvalue list res" where
  "str_find_aux ar args fnd =
     bindE (luaL_checklstring ar args 1) (\<lambda>s.
     bindE (luaL_checklstring ar args 2) (\<lambda>p.
     bindE (luaL_optinteger ar args 3 1) (\<lambda>i.
       let l1 = int (length s); i0 = posrelat i l1 - 1;
           init = nat (if i0 < 0 then 0 else if l1 < uint64 i0 then l1 else i0);
           ntop = int (length args)
       in if fnd \<and> (lua_toboolean args 4 \<or> (\<forall>c \<in> set (cstr p). c \<notin> set SPECIALS)) then
            case lmemfind (drop init s) p of
              Some k \<Rightarrow> Inr [pushinteger (int (init + k) + 1), pushinteger (int (init + k + length p))]
            | None \<Rightarrow> Inr [TNil]
          else
            let anchor = (chat p 0 = CHR ''^'')
            in bindE (find_loop s p (if anchor then 1 else 0) anchor init) (\<lambda>r.
                 case r of
                   None \<Rightarrow> Inr [TNil]
                 | Some (s1, ms, e) \<Rightarrow>
                     if fnd then
                       bindE (push_captures (ntop + 2) s ms None) (\<lambda>vs.
                         Inr ([pushinteger (int s1 + 1), pushinteger (int e)] @ vs))
                     else push_captures ntop s ms (Some (s1, e))))))"

definition str_find :: "lua_Debug \<Rightarrow> tvalue list \<Rightarrow> tvalue list res" where
  "str_find ar args = str_find_aux ar args True"

definition str_match :: "lua_Debug \<Rightarrow> tvalue list \<Rightarrow> tvalue list res" where
  "str_match ar args = str_find_aux ar args False"

section \<open>gmatch\<close>

text \<open>The upvalues of the iterator.\<close>

record gmatch_upvals =
  gm_src :: tvalue
  gm_pat :: tvalue
  gm_pos :: tvalue

function gmatch_loop :: "string \<Rightarrow> string \<Rightarrow> nat \<Rightarrow> (nat \<times> captures \<times> nat) option res" where
  "gmatch_loop s p src =
     (if src \<le> length s then
        bindE (do_match s p [] src 0) (\<lambda>(ms, res).
          case res of Some e \<Rightarrow> Inr (Some (src, ms, e)) | None \<Rightarrow> gmatch_loop s p (src + 1))
      else Inr None)"
  by pat_completeness auto
termination by (relation "measure (\<lambda>(s, p, src). Suc (length s) - src)") auto

declare gmatch_loop.simps [simp del]

text \<open>
  \<open>gmatch_aux\<close>, called with \<open>ntop\<close> arguments, which it ignores. The upvalues 1 and 2 were
  checked to be strings or numbers.
\<close>

definition gmatch_aux :: "int \<Rightarrow> gmatch_upvals \<Rightarrow> (gmatch_upvals \<times> tvalue list) res" where
  "gmatch_aux ntop uv =
     (case (tolstring (gm_src uv), tolstring (gm_pat uv)) of
        (Some s, Some p) \<Rightarrow>
          let start = nat (lua_tointeger [gm_pos uv] 1)
          in bindE (gmatch_loop s p start) (\<lambda>r.
               case r of
                 None \<Rightarrow> Inr (uv, [])
               | Some (src, ms, e) \<Rightarrow>
                   let newstart = (if e = src then e + 1 else e)
                   in bindE (push_captures ntop s ms (Some (src, e))) (\<lambda>vs.
                        Inr (uv\<lparr>gm_pos := pushinteger (int newstart)\<rparr>, vs)))
      | _ \<Rightarrow> Inl UNDEFINED)"

definition gmatch :: "lua_Debug \<Rightarrow> tvalue list \<Rightarrow> gmatch_upvals res" where
  "gmatch ar args =
     bindE (luaL_checklstring ar args 1) (\<lambda>s.
     bindE (luaL_checklstring ar args 2) (\<lambda>p.
       Inr \<lparr>gm_src = TString s, gm_pat = TString p, gm_pos = pushinteger 0\<rparr>))"

definition gfind_nodef :: "tvalue list res" where
  "gfind_nodef = luaL_error (LUA_QL ''string.gfind'' @ '' was renamed to '' @ LUA_QL ''string.gmatch'')"

section \<open>gsub\<close>

text \<open>\<open>luaL_addvalue\<close> of a string or a number.\<close>

definition addvalue :: "tvalue \<Rightarrow> string" where
  "addvalue v = (case tolstring v of Some s \<Rightarrow> s | None \<Rightarrow> [])"

text \<open>The replacement string from its position on. After a final escape the terminator is added.\<close>

fun add_s :: "string \<Rightarrow> captures \<Rightarrow> nat \<Rightarrow> nat \<Rightarrow> string \<Rightarrow> string res" where
  "add_s src ms s e [] = Inr []"
| "add_s src ms s e (c # news) =
     (if c \<noteq> L_ESC then bindE (add_s src ms s e news) (\<lambda>b. Inr (c # b))
      else case news of
        [] \<Rightarrow> Inr [NUL]
      | d # news' \<Rightarrow>
          bindE (if \<not> isdigit (uchar d) then Inr [d]
                 else if d = CHR ''0'' then Inr (take (e - s) (drop s src))
                 else bindE (push_onecapture src ms (nat (uchar d - 49)) (Some (s, e))) (\<lambda>v. Inr (addvalue v)))
            (\<lambda>x. bindE (add_s src ms s e news') (\<lambda>b. Inr (x @ b))))"

text \<open>
  \<open>call\<close> is \<open>lua_call\<close> of a function with one result and \<open>gettable\<close> is \<open>lua_gettable\<close>; both run
  the interpreter, whose state is \<open>w\<close>.
\<close>

definition add_value ::
    "('w \<Rightarrow> tvalue \<Rightarrow> tvalue list \<Rightarrow> ('w \<times> tvalue) res) \<Rightarrow> ('w \<Rightarrow> tvalue \<Rightarrow> tvalue \<Rightarrow> ('w \<times> tvalue) res)
      \<Rightarrow> lua_Debug \<Rightarrow> tvalue list \<Rightarrow> string \<Rightarrow> captures \<Rightarrow> nat \<Rightarrow> nat \<Rightarrow> 'w \<Rightarrow> ('w \<times> string) res" where
  "add_value call gettable ar args src ms s e w =
     (let t = lua_type args 3; repl = arg_value args 3; keep = take (e - s) (drop s src);
          finish = (\<lambda>(w', v).
            if l_isfalse v then Inr (w', keep)
            else if lua_isstring [v] 1 then Inr (w', addvalue v)
            else luaL_error (''invalid replacement value (a '' @ lua_typename (ttype v) @ '')''))
      in if t = 3 \<or> t = 4 then
           bindE (add_s src ms s e (case tolstring repl of Some n \<Rightarrow> n | None \<Rightarrow> [])) (\<lambda>x. Inr (w, x))
         else if t = 6 then
           bindE (push_captures (int (length args) + 1) src ms (Some (s, e))) (\<lambda>vs.
           bindE (call w repl vs) finish)
         else if t = 5 then
           bindE (push_onecapture src ms 0 (Some (s, e))) (\<lambda>k.
           bindE (gettable w repl k) finish)
         else luaL_argerror ar 3 ''string/function/table expected'')"

text \<open>Where the scan goes on after an attempt at \<open>s\<close>, and what it copies; \<open>None\<close> at the end.\<close>

definition gsub_advance :: "string \<Rightarrow> nat \<Rightarrow> nat option \<Rightarrow> (nat \<times> string) option" where
  "gsub_advance src s res =
     (if (case res of Some e \<Rightarrow> s < e | None \<Rightarrow> False) then Some (the res, [])
      else if s < length src then Some (s + 1, [src ! s]) else None)"

lemma gsub_advance_gt:
  "gsub_advance src s res = Some (s', y) \<Longrightarrow> do_match src pat ms0 s p = Inr (ms, res) \<Longrightarrow> s < s' \<and> s' \<le> length src"
  using do_match_within [of src s pat ms0 p] by (auto simp: gsub_advance_def split: option.splits if_splits)

text \<open>The loop; \<open>b\<close> is the buffer and \<open>s\<close> the position in the source.\<close>

function gsub_loop ::
    "('w \<Rightarrow> tvalue \<Rightarrow> tvalue list \<Rightarrow> ('w \<times> tvalue) res) \<Rightarrow> ('w \<Rightarrow> tvalue \<Rightarrow> tvalue \<Rightarrow> ('w \<times> tvalue) res)
      \<Rightarrow> lua_Debug \<Rightarrow> tvalue list \<Rightarrow> string \<Rightarrow> string \<Rightarrow> nat \<Rightarrow> bool \<Rightarrow> int
      \<Rightarrow> int \<Rightarrow> nat \<Rightarrow> string \<Rightarrow> 'w \<Rightarrow> ('w \<times> string \<times> nat \<times> int) res" where
  "gsub_loop call gettable ar args src pat p anchor max_s n s b w =
     (if max_s \<le> n then Inr (w, b, s, n)
      else bindE (do_match src pat [] s p) (\<lambda>(ms, res).
        bindE (case res of
                 None \<Rightarrow> Inr (w, [])
               | Some e \<Rightarrow> add_value call gettable ar args src ms s e w) (\<lambda>(w', x).
          let n' = (if res = None then n else n + 1)
          in case gsub_advance src s res of
               None \<Rightarrow> Inr (w', b @ x, s, n')
             | Some (s', y) \<Rightarrow>
                 if anchor then Inr (w', b @ x @ y, s', n')
                 else gsub_loop call gettable ar args src pat p anchor max_s n' s' (b @ x @ y) w')))"
  by pat_completeness auto
termination
proof (relation "measure (\<lambda>(call, gettable, ar, args, src, pat, p, anchor, max_s, n, s, b, w). length src - s)", goal_cases)
  case (2 call gettable ar args src pat p anchor max_s n s b w z ms res z' w' x n' z'' s' y)
  then have "s < s' \<and> s' \<le> length src" using gsub_advance_gt by blast
  then show ?case by auto
qed auto

declare gsub_loop.simps [simp del]

definition str_gsub ::
    "('w \<Rightarrow> tvalue \<Rightarrow> tvalue list \<Rightarrow> ('w \<times> tvalue) res) \<Rightarrow> ('w \<Rightarrow> tvalue \<Rightarrow> tvalue \<Rightarrow> ('w \<times> tvalue) res)
      \<Rightarrow> lua_Debug \<Rightarrow> tvalue list \<Rightarrow> 'w \<Rightarrow> ('w \<times> tvalue list) res" where
  "str_gsub call gettable ar args w =
     bindE (luaL_checklstring ar args 1) (\<lambda>src.
     bindE (luaL_checklstring ar args 2) (\<lambda>p.
     bindE (luaL_optint ar args 4 (int (length src) + 1)) (\<lambda>max_s.
       let anchor = (chat p 0 = CHR ''^'')
       in bindE (gsub_loop call gettable ar args src p (if anchor then 1 else 0) anchor max_s 0 0 [] w)
            (\<lambda>(w', b, s, n). Inr (w', [TString (b @ drop s src), pushinteger n])))))"

section \<open>Correctness\<close>

subsection \<open>Plain search\<close>

definition occurs :: "string \<Rightarrow> string \<Rightarrow> nat \<Rightarrow> bool" where
  "occurs s s2 i \<longleftrightarrow> i + length s2 \<le> length s \<and> take (length s2) (drop i s) = s2"

lemma occurs_Cons:
  "occurs s (c # cs) i \<longleftrightarrow> i + length cs < length s \<and> s ! i = c \<and> take (length cs) (drop (i + 1) s) = cs"
  by (cases "i < length s") (auto simp: occurs_def Cons_nth_drop_Suc [symmetric])

lemma memfind_loop_spec:
  assumes "pos + l1 + length cs = length s"
  shows "case memfind_loop s (c # cs) pos l1 of
      None \<Rightarrow> \<forall>k \<ge> pos. \<not> occurs s (c # cs) k
    | Some i \<Rightarrow> pos \<le> i \<and> occurs s (c # cs) i \<and> (\<forall>k. pos \<le> k \<and> k < i \<longrightarrow> \<not> occurs s (c # cs) k)"
  using assms
proof (induction s "c # cs" pos l1 rule: memfind_loop.induct)
  case (1 s pos l1)
  show ?case
  proof (cases "l1 = 0")
    case True
    with 1 show ?thesis by (simp add: memfind_loop.simps occurs_Cons)
  next
    case l: False
    show ?thesis
    proof (cases "memchr s pos c l1")
      case None
      have "\<not> occurs s (c # cs) k" if "pos \<le> k" for k
        using memchr_None [OF None that] 1(2) by (fastforce simp: occurs_Cons)
      with None l show ?thesis by (simp add: memfind_loop.simps)
    next
      case (Some i)
      note r = memchr_range [OF Some]
      have no: "\<not> occurs s (c # cs) k" if "pos \<le> k" "k < i" for k using r that by (simp add: occurs_Cons)
      show ?thesis
      proof (cases "take (length cs) (drop (i + 1) s) = cs")
        case True
        then have "memfind_loop s (c # cs) pos l1 = Some i" using Some l by (simp add: memfind_loop.simps)
        moreover have "occurs s (c # cs) i" using True r 1(2) by (simp add: occurs_Cons)
        ultimately show ?thesis using r no by simp
      next
        case False
        then have eq: "memfind_loop s (c # cs) pos l1 = memfind_loop s (c # cs) (i + 1) (l1 - (i + 1 - pos))"
          using Some l by (subst memfind_loop.simps) simp
        have ni: "\<not> occurs s (c # cs) i" using False by (simp add: occurs_Cons)
        have no': "\<not> occurs s (c # cs) k" if "pos \<le> k" "k < i + 1" for k
          using no [of k] ni that by (cases "k = i") auto
        have "i + 1 + (l1 - (i + 1 - pos)) + length cs = length s" using r 1(2) by auto
        with 1(1) [OF l] Some False
        have ih: "case memfind_loop s (c # cs) (i + 1) (l1 - (i + 1 - pos)) of
            None \<Rightarrow> \<forall>k \<ge> i + 1. \<not> occurs s (c # cs) k
          | Some j \<Rightarrow> i + 1 \<le> j \<and> occurs s (c # cs) j \<and> (\<forall>k. i + 1 \<le> k \<and> k < j \<longrightarrow> \<not> occurs s (c # cs) k)"
          by simp
        show ?thesis unfolding eq using ih no' r
          by (auto split: option.splits) (meson not_less)+
      qed
    qed
  qed
qed

lemma lmemfind_spec:
  "case lmemfind s s2 of
     None \<Rightarrow> \<forall>k. \<not> occurs s s2 k
   | Some i \<Rightarrow> occurs s s2 i \<and> (\<forall>k < i. \<not> occurs s s2 k)"
proof (cases s2)
  case (Cons c cs)
  show ?thesis
  proof (cases "length s < length s2")
    case True
    then show ?thesis by (simp add: lmemfind_def occurs_def)
  next
    case False
    then have "0 + (length s - length cs) + length cs = length s" using Cons by simp
    from memfind_loop_spec [OF this, of c] show ?thesis using Cons False by (simp add: lmemfind_def split: option.splits)
  qed
qed (simp add: lmemfind_def occurs_def)

subsection \<open>The leftmost match\<close>

lemma find_loop_spec:
  assumes "find_loop src pat p anchor s1 = Inr r"
  shows "case r of
      None \<Rightarrow> \<forall>k ms e. k = s1 \<or> \<not> anchor \<and> s1 \<le> k \<and> k \<le> length src \<longrightarrow> \<not> pm src pat [] k p ms e
    | Some (k, ms, e) \<Rightarrow> s1 \<le> k \<and> (anchor \<longrightarrow> k = s1) \<and> pm src pat [] k p ms e
        \<and> (\<forall>j. s1 \<le> j \<and> j < k \<longrightarrow> (\<forall>ms e. \<not> pm src pat [] j p ms e))"
  using assms
proof (induction src pat p anchor s1 rule: find_loop.induct)
  case (1 src pat p anchor s1)
  note d = do_match_decides [of src pat "[]" s1 p]
  from 1(2) obtain ms res where m: "do_match src pat [] s1 p = Inr (ms, res)"
    by (subst (asm) find_loop.simps) (auto simp: bindE_Inr_iff)
  show ?case
  proof (cases res)
    case (Some e)
    with 1(2) m have "r = Some (s1, ms, e)" by (simp add: find_loop.simps)
    with d m Some show ?thesis by (simp add: decides_def) auto
  next
    case None
    then have n: "\<not> pm src pat [] s1 p ms' e'" for ms' e' using d m by (simp add: decides_def)
    show ?thesis
    proof (cases "s1 < length src \<and> \<not> anchor")
      case True
      then have "find_loop src pat p anchor (s1 + 1) = Inr r" using 1(2) m None by (subst (asm) find_loop.simps) simp
      from 1(1) [OF m refl None True this] n True show ?thesis
        by (auto split: option.splits simp: Suc_le_eq) (metis le_neq_implies_less)+
    next
      case False
      with 1(2) m None have "r = None" by (subst (asm) find_loop.simps) auto
      moreover have "k = s1" if "s1 \<le> k" "k \<le> length src" "\<not> anchor" for k using False that by auto
      ultimately show ?thesis using n by auto
    qed
  qed
qed

subsection \<open>gsub\<close>

lemma gsub_loop_step:
  assumes "gsub_loop call gettable ar args src pat p anchor max_s n s b w = Inr r" "n < max_s"
  obtains (Step) ms res w' x where
    "do_match src pat [] s p = Inr (ms, res)"
    "(case res of None \<Rightarrow> Inr (w, []) | Some e \<Rightarrow> add_value call gettable ar args src ms s e w) = Inr (w', x)"
    "case gsub_advance src s res of
       None \<Rightarrow> r = (w', b @ x, s, if res = None then n else n + 1)
     | Some (s', y) \<Rightarrow> if anchor then r = (w', b @ x @ y, s', if res = None then n else n + 1)
         else gsub_loop call gettable ar args src pat p anchor max_s (if res = None then n else n + 1) s' (b @ x @ y) w' = Inr r"
proof -
  from assms(2) have ns: "\<not> max_s \<le> n" by simp
  from assms(1) obtain ms res w' x where *: "do_match src pat [] s p = Inr (ms, res)"
    "(case res of None \<Rightarrow> Inr (w, []) | Some e \<Rightarrow> add_value call gettable ar args src ms s e w) = Inr (w', x)"
    by (subst (asm) gsub_loop.simps) (fastforce simp: ns bindE_Inr_iff)
  show thesis
    by (rule Step [OF *])
       (use assms(1) * in \<open>subst (asm) gsub_loop.simps, auto simp: ns Let_def split: option.splits if_splits\<close>)
qed

lemma gsub_loop_count:
  assumes "gsub_loop call gettable ar args src pat p anchor max_s n s b w = Inr (w1, b1, s1, n1)" "n \<le> max_s" "s \<le> length src"
  shows "n \<le> n1 \<and> n1 \<le> max_s \<and> n1 \<le> n + int (length src - s) + 1 \<and> s1 \<le> length src"
  using assms
proof (induction "length src - s" arbitrary: n s b w rule: less_induct)
  case less
  show ?case
  proof (cases "n < max_s")
    case True
    from less(2) True show ?thesis
    proof (cases rule: gsub_loop_step)
      case (Step ms res w' x)
      show ?thesis
      proof (cases "gsub_advance src s res")
        case (Some a)
        then obtain s' y where a: "gsub_advance src s res = Some (s', y)" by (cases a) auto
        note g = gsub_advance_gt [OF a Step(1)]
        let ?n = "if res = None then n else n + 1"
        show ?thesis
        proof (cases anchor)
          case f: False
          have "?n \<le> n1 \<and> n1 \<le> max_s \<and> n1 \<le> ?n + int (length src - s') + 1 \<and> s1 \<le> length src"
            by (rule less(1)) (use g Step(3) a f True in auto)
          then show ?thesis using g by (auto split: if_splits)
        qed (use Step(3) a g True in \<open>auto split: if_splits\<close>)
      qed (use Step(3) less(4) True in \<open>auto split: if_splits\<close>)
    qed
  qed (use less(2-4) in \<open>simp add: gsub_loop.simps\<close>)
qed

text \<open>With the replacement \<open>%0\<close> every match is replaced by itself.\<close>

lemma gsub_loop_identity:
  assumes "gsub_loop call gettable ar args src pat p anchor max_s n s b w = Inr (w1, b1, s1, n1)" "s \<le> length src"
    and repl: "index2adr args 3 = Some (TString ''%0'')"
  shows "b1 @ drop s1 src = b @ drop s src"
  using assms(1,2)
proof (induction "length src - s" arbitrary: n s b w rule: less_induct)
  case less
  show ?case
  proof (cases "n < max_s")
    case True
    from less(2) True show ?thesis
    proof (cases rule: gsub_loop_step)
      case (Step ms res w' x)
      have val: "add_value call gettable ar args src ms s e w = Inr (w, take (e - s) (drop s src))" for e
        using repl by (simp add: add_value_def arg_defs isdigit_def uchar_def)
      have within: "within src s (Inr (ms, res))" using do_match_within [of src s pat "[]" p] Step(1) by simp
      have td: "take (e - s) (drop s src) @ drop e src = drop s src" if "s \<le> e" for e
        using that append_take_drop_id [of "e - s" "drop s src"] by simp
      have x: "x @ (case gsub_advance src s res of None \<Rightarrow> drop s src | Some (s', y) \<Rightarrow> y @ drop s' src) = drop s src"
        using Step(2) within less(3)
        by (auto simp: val gsub_advance_def Cons_nth_drop_Suc td split: option.splits if_splits)
      show ?thesis
      proof (cases "gsub_advance src s res")
        case (Some a)
        then obtain s' y where a: "gsub_advance src s res = Some (s', y)" by (cases a) auto
        note g = gsub_advance_gt [OF a Step(1)]
        show ?thesis
        proof (cases anchor)
          case f: False
          have "b1 @ drop s1 src = (b @ x @ y) @ drop s' src"
            by (rule less(1)) (use g Step(3) a f in auto)
          then show ?thesis using x a by simp
        qed (use Step(3) a x in auto)
      qed (use Step(3) x in auto)
    qed
  qed (use less(2,3) in \<open>simp add: gsub_loop.simps\<close>)
qed

subsection \<open>Substrings and bytes\<close>

lemma nths_interval: "nths xs {k. m \<le> k \<and> k < n} = take (n - m) (drop m xs)"
proof (induction xs arbitrary: m n)
  case (Cons x xs)
  have e: "{j. m \<le> Suc j \<and> Suc j < n} = {k. m - 1 \<le> k \<and> k < n - 1}" by auto
  show ?case
    unfolding nths_Cons
    by (cases m; cases n) (use Cons [of "m - 1" "n - 1"] e in auto)
qed simp

text \<open>\<open>string.sub\<close> returns the characters whose positions lie between its two arguments, where a
negative argument counts from the end; positions outside of the string are ignored.\<close>

theorem str_sub_positions:
  assumes "\<bar>i\<bar> < 9007199254740992" "\<bar>j\<bar> < 9007199254740992"
  shows "str_sub ar [TString s, pushinteger i, pushinteger j] =
    Inr [TString (nths s {k. posrelat i (int (length s)) \<le> int k + 1 \<and> int k + 1 \<le> posrelat j (int (length s))})]"
proof -
  let ?l = "int (length s)"
  define a where "a = posrelat i ?l"
  define b where "b = posrelat j ?l"
  define a' where "a' = (if a < 1 then 1 else a)"
  define b' where "b' = (if ?l < b then ?l else b)"
  have args: "luaL_checklstring ar [TString s, pushinteger i, pushinteger j] 1 = Inr s"
    "luaL_checkinteger ar [TString s, pushinteger i, pushinteger j] 2 = Inr i"
    "luaL_optinteger ar [TString s, pushinteger i, pushinteger j] 3 (- 1) = Inr j"
    by (simp_all add: checkinteger_int optinteger_int pushinteger_def assms)
  have "nths s {k. a \<le> int k + 1 \<and> int k + 1 \<le> b} = nths s {k. nat (a' - 1) \<le> k \<and> k < nat b'}"
    unfolding nths_def
    by (rule arg_cong [where f = "map fst"], rule filter_cong)
       (auto simp: a'_def b'_def in_set_zip)
  also have "\<dots> = take (nat b' - nat (a' - 1)) (drop (nat (a' - 1)) s)" by (rule nths_interval)
  also have "\<dots> = (if a' \<le> b' then substring s (a' - 1) (b' - a' + 1) else [])"
    by (auto simp: substring_def nat_diff_distrib a'_def intro: arg_cong)
  finally show ?thesis
    by (simp add: str_sub_def args Let_def a_def b_def a'_def b'_def cong: if_cong)
qed

lemma str_sub_positions_witness:
  "str_sub \<lparr>has_frame = True, ar_name = None, namewhat = []\<rparr> [TString ''hello'', pushinteger 2, pushinteger (- 2)]
     = Inr [TString ''ell'']"
proof -
  have "nths ''hello'' {k. posrelat 2 (int (length ''hello'')) \<le> int k + 1 \<and> int k + 1 \<le> posrelat (- 2) (int (length ''hello''))} = ''ell''"
    by (simp add: posrelat_def nths_Cons)
  then show ?thesis
    using str_sub_positions [of 2 "- 2" "\<lparr>has_frame = True, ar_name = None, namewhat = []\<rparr>" "''hello''"] by simp
qed

definition bytes_of :: "string \<Rightarrow> tvalue list" where
  "bytes_of s = map (\<lambda>c. pushinteger (uchar c)) s"

lemma uint64_id: "0 \<le> n \<Longrightarrow> n < 18446744073709551616 \<Longrightarrow> uint64 n = n"
  by (simp add: uint64_def)

lemma uint64_neg: "- 9223372036854775808 \<le> n \<Longrightarrow> n < 0 \<Longrightarrow> uint64 n = n + 18446744073709551616"
  unfolding uint64_def by (subst mod_add_self2 [symmetric], subst mod_pos_pos_trivial) auto

lemma str_byte_range:
  assumes "length s \<le> 2045" "\<bar>i\<bar> < 9007199254740992" "\<bar>j\<bar> < 9007199254740992"
    and "posrelat i (int (length s)) = 1" "uint64 (posrelat j (int (length s))) \<ge> int (length s)"
    and "s = [] \<Longrightarrow> posrelat j 0 \<le> 0"
  shows "str_byte ar [TString s, pushinteger i, pushinteger j] = Inr (bytes_of s)"
proof -
  let ?l = "int (length s)"
  have args: "luaL_checklstring ar [TString s, pushinteger i, pushinteger j] 1 = Inr s"
    "luaL_optinteger ar [TString s, pushinteger i, pushinteger j] 2 1 = Inr i"
    "luaL_optinteger ar [TString s, pushinteger i, pushinteger j] 3 d = Inr j" for d
    by (simp_all add: optinteger_int pushinteger_def assms)
  have pose: "(if ?l < uint64 (posrelat j ?l) then ?l else posrelat j ?l) = ?l"
  proof (cases "?l < uint64 (posrelat j ?l)")
    case False
    with assms(5) have e: "uint64 (posrelat j ?l) = ?l" by simp
    have r: "\<bar>posrelat j ?l\<bar> < 9223372036854775808" using assms(1-3) by (auto simp: posrelat_def)
    have "posrelat j ?l = ?l"
      using e r assms(1) uint64_id [of "posrelat j ?l"] uint64_neg [of "posrelat j ?l"]
      by (cases "posrelat j ?l < 0") auto
    with False show ?thesis by simp
  qed simp
  have n: "int32 ?l = ?l" using assms(1) by (simp add: int32_id)
  have m: "map (\<lambda>k. pushinteger (uchar (chat s (nat (1 + k - 1))))) [0..?l - 1] = bytes_of s"
    by (rule nth_equalityI) (auto simp: bytes_of_def)
  show ?thesis
    using assms(1) m by (auto simp: str_byte_def args Let_def assms(4) pose n luaL_checkstack_def bytes_of_def)
qed

lemma str_char_loop_bytes:
  "\<forall>i \<in> set is. 0 < i \<and> i \<le> length s \<Longrightarrow> str_char_loop ar (bytes_of s) is = Inr (map (\<lambda>i. s ! (i - 1)) is)"
proof (induction "is")
  case (Cons i "is")
  then have i: "0 < i" "i \<le> length s" by simp_all
  then have "bytes_of s ! (i - 1) = TNumber (cast_num (uchar (s ! (i - 1))))" by (simp add: bytes_of_def pushinteger_def)
  moreover have r: "0 \<le> uchar (s ! (i - 1))" "uchar (s ! (i - 1)) < 256" by (rule uchar_range)+
  ultimately have "luaL_checkint ar (bytes_of s) i = Inr (uchar (s ! (i - 1)))"
    using i by (intro checkint_int) (auto simp: bytes_of_def)
  with Cons r show ?case by (simp add: luaL_argcheck_def uchar_def)
qed simp

lemma str_char_bytes: "str_char ar (bytes_of s) = Inr [TString s]"
proof -
  have "str_char_loop ar (bytes_of s) [1..<Suc (length s)] = Inr (map (\<lambda>i. s ! (i - 1)) [1..<Suc (length s)])"
    by (rule str_char_loop_bytes) auto
  moreover have "map (\<lambda>i. s ! (i - 1)) [1..<Suc (length s)] = s"
    by (simp add: map_nth comp_def map_Suc_upt [symmetric] del: upt_Suc)
  ultimately show ?thesis by (simp add: str_char_def bytes_of_def del: upt_Suc)
qed

text \<open>\<open>string.char\<close> undoes \<open>string.byte\<close>: the codes of all characters, from 1 to -1, make the same
string again. The stack takes at most 2048 values, the three arguments included.\<close>

theorem byte_char_roundtrip:
  assumes "length s \<le> 2045"
  shows "bindE (str_byte ar [TString s, pushinteger 1, pushinteger (- 1)]) (str_char ar) = Inr [TString s]"
proof -
  have "str_byte ar [TString s, pushinteger 1, pushinteger (- 1)] = Inr (bytes_of s)"
    by (rule str_byte_range) (use assms in \<open>auto simp: posrelat_def uint64_id\<close>)
  then show ?thesis by (simp add: str_char_bytes)
qed

lemma byte_char_roundtrip_witness:
  "bindE (str_byte \<lparr>has_frame = True, ar_name = None, namewhat = []\<rparr> [TString ''Lua'', pushinteger 1, pushinteger (- 1)])
     (str_char \<lparr>has_frame = True, ar_name = None, namewhat = []\<rparr>) = Inr [TString ''Lua'']"
  by (rule byte_char_roundtrip) simp

text \<open>An end position before the start of the string is taken for a position after its end,
because it is compared as an unsigned number: \<open>string.byte(s, 1, j)\<close> returns all bytes of \<open>s\<close>,
although \<open>string.sub(s, 1, j)\<close> is empty.\<close>

theorem str_byte_negative_end:
  assumes "s \<noteq> []" "length s \<le> 2045" "j < - int (length s) - 1" "- 9007199254740992 < j"
  shows "str_byte ar [TString s, pushinteger 1, pushinteger j] = Inr (bytes_of s)
    \<and> str_sub ar [TString s, pushinteger 1, pushinteger j] = Inr [TString []]"
proof -
  have n: "posrelat j (int (length s)) < 0" "- 9223372036854775808 \<le> posrelat j (int (length s))"
    using assms by (auto simp: posrelat_def)
  have b: "str_byte ar [TString s, pushinteger 1, pushinteger j] = Inr (bytes_of s)"
    by (rule str_byte_range) (use assms n in \<open>auto simp: uint64_neg, auto simp: posrelat_def\<close>)
  have args: "luaL_checklstring ar [TString s, pushinteger 1, pushinteger j] 1 = Inr s"
    "luaL_checkinteger ar [TString s, pushinteger 1, pushinteger j] 2 = Inr 1"
    "luaL_optinteger ar [TString s, pushinteger 1, pushinteger j] 3 (- 1) = Inr j"
    using assms by (simp_all add: checkinteger_int optinteger_int pushinteger_def)
  have "str_sub ar [TString s, pushinteger 1, pushinteger j] = Inr [TString []]"
    using n by (simp add: str_sub_def args Let_def posrelat_def)
  with b show ?thesis ..
qed

lemma str_byte_negative_end_witness:
  "str_byte \<lparr>has_frame = True, ar_name = None, namewhat = []\<rparr> [TString ''abc'', pushinteger 1, pushinteger (- 10)]
     = Inr (bytes_of ''abc'')"
  by (rule str_byte_negative_end [THEN conjunct1]) simp_all

subsection \<open>The library functions\<close>

text \<open>A plain \<open>string.find\<close> returns the first position at which the second string occurs in the
first one, at \<open>init\<close> or later, with the end of that occurrence, and nil if there is none.\<close>

theorem str_find_plain:
  assumes "1 \<le> init" "init \<le> int (length s) + 1" "init < 9007199254740992"
  shows "case str_find ar [TString s, TString p, pushinteger init, pushboolean True] of
      Inl _ \<Rightarrow> False
    | Inr r \<Rightarrow>
        r = [TNil] \<and> (\<forall>k. int k + 1 \<ge> init \<longrightarrow> \<not> occurs s p k)
        \<or> (\<exists>k. r = [pushinteger (int k + 1), pushinteger (int k + int (length p))] \<and> init \<le> int k + 1
             \<and> occurs s p k \<and> (\<forall>j < k. init \<le> int j + 1 \<longrightarrow> \<not> occurs s p j))"
proof -
  define m where "m = nat (init - 1)"
  have m: "m \<le> length s" "init = int m + 1" using assms by (auto simp: m_def)
  have oc: "occurs (drop m s) p k \<longleftrightarrow> occurs s p (m + k)" for k
    using m(1) by (auto simp: occurs_def add_ac)
  have eq: "str_find ar [TString s, TString p, pushinteger init, pushboolean True] =
      (case lmemfind (drop m s) p of
         Some k \<Rightarrow> Inr [pushinteger (int (m + k) + 1), pushinteger (int (m + k + length p))]
       | None \<Rightarrow> Inr [TNil])"
  proof -
    have args: "luaL_checklstring ar [TString s, TString p, pushinteger init, pushboolean True] 1 = Inr s"
      "luaL_checklstring ar [TString s, TString p, pushinteger init, pushboolean True] 2 = Inr p"
      "luaL_optinteger ar [TString s, TString p, pushinteger init, pushboolean True] 3 1 = Inr init"
      "lua_toboolean [TString s, TString p, pushinteger init, pushboolean True] 4"
      using assms by (simp_all add: optinteger_int pushinteger_def arg_defs pushboolean_def)
    have "uint64 (int m) = int m" using assms(3) m(2) by (simp add: uint64_id)
    moreover have "nat (int m + 1 - 1) = m" by simp
    ultimately show ?thesis using m(1)
      by (simp only: str_find_def str_find_aux_def args [unfolded m(2)] m(2) Let_def posrelat_def) (simp split: option.split)
  qed
  have sh: "\<exists>d. k = m + d" if "init \<le> int k + 1" for k using that m(2) by (intro exI [of _ "k - m"]) simp
  show ?thesis
  proof (cases "lmemfind (drop m s) p")
    case None
    with lmemfind_spec [of "drop m s" p] have "\<not> occurs s p k" if "init \<le> int k + 1" for k
      using sh [OF that] by (auto simp: oc)
    with None show ?thesis by (simp add: eq)
  next
    case (Some k)
    with lmemfind_spec [of "drop m s" p] have k: "occurs s p (m + k)" "\<And>j. j < k \<Longrightarrow> \<not> occurs s p (m + j)"
      by (auto simp: oc)
    have "\<not> occurs s p j" if "j < m + k" "init \<le> int j + 1" for j using sh [OF that(2)] k(2) that(1) by auto
    then have "init \<le> int (m + k) + 1 \<and> occurs s p (m + k) \<and> (\<forall>j < m + k. init \<le> int j + 1 \<longrightarrow> \<not> occurs s p j)"
      using k m by simp
    then show ?thesis unfolding eq Some option.case sum.case by (intro disjI2 exI [of _ "m + k"]) simp
  qed
qed

lemma str_find_plain_witness:
  "case str_find \<lparr>has_frame = True, ar_name = None, namewhat = []\<rparr>
     [TString ''a.b.c'', TString ''.'', pushinteger 3, pushboolean True] of
     Inl _ \<Rightarrow> False
   | Inr r \<Rightarrow> r = [TNil] \<and> (\<forall>k. int k + 1 \<ge> 3 \<longrightarrow> \<not> occurs ''a.b.c'' ''.'' k)
        \<or> (\<exists>k. r = [pushinteger (int k + 1), pushinteger (int k + int (length ''.''))] \<and> 3 \<le> int k + 1
             \<and> occurs ''a.b.c'' ''.'' k \<and> (\<forall>j < k. 3 \<le> int j + 1 \<longrightarrow> \<not> occurs ''a.b.c'' ''.'' j))"
  by (rule str_find_plain) simp_all

lemma find_match_captures:
  assumes "find_loop src pat p anchor s1 = Inr (Some (k, ms, e))" "s1 \<le> length src"
  shows "k \<le> e \<and> e \<le> length src \<and> caps_ok e ms"
proof -
  from find_loop_spec [OF assms(1)] have pm: "pm src pat [] k p ms e" by simp
  have "k \<le> length src \<and> within src k (Inr (ms, Some e))" using assms
  proof (induction src pat p anchor s1 rule: find_loop.induct)
    case (1 src pat p anchor s1)
    from 1(2) obtain ms' res where m: "do_match src pat [] s1 p = Inr (ms', res)"
      and r: "(case res of Some e \<Rightarrow> Inr (Some (s1, ms', e))
        | None \<Rightarrow> if s1 < length src \<and> \<not> anchor then find_loop src pat p anchor (s1 + 1) else Inr None) = Inr (Some (k, ms, e))"
      by (subst (asm) find_loop.simps) (auto simp: bindE_Inr_iff)
    show ?case
    proof (cases res)
      case None
      with r have c: "s1 < length src \<and> \<not> anchor" "find_loop src pat p anchor (s1 + 1) = Inr (Some (k, ms, e))"
        by (auto split: if_splits)
      from c(1) show ?thesis by (intro 1(1) [OF m refl None c]) simp
    next
      case (Some x)
      with r m do_match_within [of src s1 pat "[]" p] 1(3) show ?thesis by simp
    qed
  qed
  with pm_captures [OF pm] show ?thesis by (auto simp: caps_ok_def)
qed

text \<open>C13: \<open>string.find\<close> and \<open>string.match\<close> with a pattern use the leftmost match that the meaning of the
pattern admits: nothing matches between the start of the search and the match that is found, and
nothing at all when none is found. All captures lie inside the match's source.\<close>

theorem find_leftmost:
  assumes "find_loop src pat p anchor init = Inr r" "init \<le> length src"
  shows "case r of
      None \<Rightarrow> \<not> (\<exists>k ms e. (k = init \<or> \<not> anchor \<and> init \<le> k \<and> k \<le> length src) \<and> pm src pat [] k p ms e)
    | Some (k, ms, e) \<Rightarrow> pm src pat [] k p ms e \<and> \<not> (\<exists>j ms e. init \<le> j \<and> j < k \<and> pm src pat [] j p ms e)
        \<and> init \<le> k \<and> k \<le> e \<and> e \<le> length src \<and> caps_ok e ms"
proof (cases r)
  case None
  with find_loop_spec [OF assms(1)] show ?thesis by auto
next
  case (Some x)
  then obtain k ms e where x: "r = Some (k, ms, e)" by (cases x) auto
  with find_loop_spec [OF assms(1)] find_match_captures [of src pat p anchor init k ms e] assms show ?thesis by auto
qed

lemma find_leftmost_witness:
  "pm ''hello'' ''l+'' [] 2 0 [] 4 \<and> \<not> (\<exists>j ms e. 0 \<le> j \<and> j < 2 \<and> pm ''hello'' ''l+'' [] j 0 ms e)"
proof -
  have "find_loop ''hello'' ''l+'' 0 False 0 = Inr (Some (2, [], 4))" by code_simp
  from find_leftmost [OF this] show ?thesis by simp
qed

text \<open>C35: Replacing every match by itself changes nothing: \<open>string.gsub(s, p, "%0")\<close> returns \<open>s\<close> for every
pattern that does not raise an error, whether the pattern is anchored, matches the empty string or
not at all; and it counts at most one replacement for each position.\<close>

theorem gsub_identity:
  assumes "str_gsub call gettable ar [TString s, TString p, TString ''%0''] w = Inr (w', r)"
  shows "\<exists>n. r = [TString s, pushinteger n] \<and> 0 \<le> n \<and> n \<le> int (length s) + 1"
proof -
  let ?args = "[TString s, TString p, TString ''%0'']"
  let ?a = "chat p 0 = CHR ''^''"
  have args: "luaL_checklstring ar ?args 1 = Inr s" "luaL_checklstring ar ?args 2 = Inr p"
    "luaL_optint ar ?args 4 d = Inr (int32 d)" "index2adr ?args 3 = Some (TString ''%0'')" for d
    by (simp_all add: optinteger_none luaL_optint_def index2adr_def)
  from assms obtain b pos n where l:
      "gsub_loop call gettable ar ?args s p (if ?a then 1 else 0) ?a (int32 (int (length s) + 1)) 0 0 [] w = Inr (w', b, pos, n)"
    and r: "r = [TString (b @ drop pos s), pushinteger n]"
    by (auto simp: str_gsub_def args Let_def bindE_Inr_iff)
  have "b @ drop pos s = s" using gsub_loop_identity [OF l _ args(4)] by simp
  moreover have "0 \<le> n \<and> n \<le> int (length s) + 1"
  proof (cases "0 \<le> int32 (int (length s) + 1)")
    case True
    from gsub_loop_count [OF l True] show ?thesis by simp
  next
    case False
    with l have "n = 0" by (subst (asm) gsub_loop.simps) simp
    then show ?thesis by simp
  qed
  ultimately show ?thesis using r by auto
qed

lemma gsub_identity_witness:
  "case str_gsub (\<lambda>w _ _. Inr (w, TNil)) (\<lambda>w _ _. Inr (w, TNil)) \<lparr>has_frame = True, ar_name = None, namewhat = []\<rparr>
     [TString ''hello world'', TString ''(o)'', TString ''%0''] () of
     Inl _ \<Rightarrow> False
   | Inr (_, r) \<Rightarrow> hd r = TString ''hello world''"
proof -
  let ?g = "str_gsub (\<lambda>w _ _. Inr (w, TNil)) (\<lambda>w _ _. Inr (w, TNil)) \<lparr>has_frame = True, ar_name = None, namewhat = []\<rparr>
     [TString ''hello world'', TString ''(o)'', TString ''%0''] ()"
  have "case ?g of Inl _ \<Rightarrow> False | Inr _ \<Rightarrow> True" by code_simp
  then obtain w' r where "?g = Inr (w', r)" by (auto split: sum.splits)
  with gsub_identity [OF this] show ?thesis by auto
qed

lemma gmatch_loop_later: "gmatch_loop s p k = Inr (Some (src, ms, e)) \<Longrightarrow> k \<le> src \<and> src \<le> e \<and> e \<le> length s"
proof (induction s p k rule: gmatch_loop.induct)
  case (1 s p k)
  from 1(2) obtain ms' res where m: "k \<le> length s" "do_match s p [] k 0 = Inr (ms', res)"
    and r: "(case res of Some e \<Rightarrow> Inr (Some (k, ms', e)) | None \<Rightarrow> gmatch_loop s p (Suc k)) = Inr (Some (src, ms, e))"
    by (auto simp: gmatch_loop.simps [of s p k] bindE_Inr_iff split: if_splits)
  show ?case
  proof (cases res)
    case None
    with r 1(1) [OF m refl None] show ?thesis by simp
  next
    case (Some x)
    with r m do_match_within [of s k p "[]" 0] show ?thesis by simp
  qed
qed

lemma push_captures_length:
  assumes "push_captures ntop src ms whole = Inr vs"
  shows "length vs = (if ms = [] \<and> whole \<noteq> None then 1 else length ms)"
proof -
  have "push_loop src ms whole is = Inr vs \<Longrightarrow> length vs = length is" for "is" vs
    by (induction "is" arbitrary: vs) (auto simp: bindE_Inr_iff)
  with assms show ?thesis by (auto simp: push_captures_def bindE_Inr_iff Let_def split: if_splits)
qed

text \<open>An iteration of \<open>string.gmatch\<close> ends: every call of the iterator that returns values moves
its position forward, by at least one even after an empty match, and never further than one past
the end of the string, where every later call returns no values.\<close>

theorem gmatch_progress:
  assumes "gm_src uv = TString s" "gm_pat uv = TString p" "gm_pos uv = pushinteger (int k)"
    and "int (length s) < 9007199254740990" "k \<le> length s + 1" "gmatch_aux ntop uv = Inr (uv', vs)"
  shows "if vs = [] then uv' = uv
    else k \<le> length s \<and> (\<exists>k'. uv' = uv\<lparr>gm_pos := pushinteger (int k')\<rparr> \<and> k < k' \<and> k' \<le> length s + 1)"
proof -
  have "lua_tointeger [gm_pos uv] 1 = int k"
    using assms lua_number2integer_cast_num [of "int k"] by (simp add: arg_defs pushinteger_def)
  with assms obtain r where r: "gmatch_loop s p k = Inr r"
    and u: "(case r of None \<Rightarrow> Inr (uv, [])
       | Some (src, ms, e) \<Rightarrow> bindE (push_captures ntop s ms (Some (src, e))) (\<lambda>vs.
           Inr (uv\<lparr>gm_pos := pushinteger (int (if e = src then e + 1 else e))\<rparr>, vs))) = Inr (uv', vs)"
    by (auto simp: gmatch_aux_def tolstring_def bindE_Inr_iff Let_def)
  show ?thesis
  proof (cases r)
    case None
    with u show ?thesis by simp
  next
    case (Some x)
    then obtain src ms e where x: "r = Some (src, ms, e)" by (cases x) auto
    with u obtain vs' where v: "push_captures ntop s ms (Some (src, e)) = Inr vs'" "vs = vs'"
      "uv' = uv\<lparr>gm_pos := pushinteger (int (if e = src then e + 1 else e))\<rparr>" by (auto simp: bindE_Inr_iff)
    have "vs \<noteq> []" using push_captures_length [OF v(1)] v(2) by (auto split: if_splits)
    moreover have "k \<le> src \<and> src \<le> e \<and> e \<le> length s" using gmatch_loop_later r x by blast
    ultimately show ?thesis using v(3) by (auto intro!: exI [of _ "if e = src then e + 1 else e"])
  qed
qed

lemma gmatch_progress_witness:
  "case gmatch_aux 2 \<lparr>gm_src = TString ''ab'', gm_pat = TString ''x*'', gm_pos = pushinteger 1\<rparr> of
     Inl _ \<Rightarrow> False
   | Inr (uv', vs) \<Rightarrow> vs = [] \<or> (\<exists>k'. gm_pos uv' = pushinteger (int k') \<and> 1 < k' \<and> k' \<le> 3)"
proof -
  let ?uv = "\<lparr>gm_src = TString ''ab'', gm_pat = TString ''x*'', gm_pos = pushinteger (int 1)\<rparr>"
  have "case gmatch_aux 2 \<lparr>gm_src = TString ''ab'', gm_pat = TString ''x*'', gm_pos = pushinteger 1\<rparr> of
      Inl _ \<Rightarrow> False | Inr _ \<Rightarrow> True" by code_simp
  then obtain uv' vs where g: "gmatch_aux 2 ?uv = Inr (uv', vs)" by (auto split: sum.splits)
  from gmatch_progress [OF _ _ _ _ _ g, of "''ab''" "''x*''" 1] g show ?thesis by (auto split: if_splits)
qed

end
