(* ===== verification/LuaFormat.thy ===== *)
theory LuaFormat
  imports LuaPattern
begin

text \<open>
  \<open>string.format\<close> of lstrlib.c, with the part of \<open>sprintf\<close> that it uses. The theorems show that
  the two fixed buffers of an item are never overrun, what the common conversions print, and
  what happens with a format that ends in an escape.
\<close>

section \<open>sprintf\<close>

text \<open>
  One conversion with the flags, the width and the precision of C89. The flags \<open>#\<close> and \<open>0\<close> do
  nothing where C leaves them undefined; a null precision of a string conversion prints nothing.
\<close>

record fmt_spec =
  f_minus :: bool
  f_plus :: bool
  f_space :: bool
  f_alt :: bool
  f_zero :: bool
  f_width :: nat
  f_prec :: "nat option"
  f_conv :: char

datatype sprintf_arg = PInt int | PNum lua_Number | PStr string

text \<open>The specification \<open>%[flags][width][.precision][l]conversion\<close>; \<open>None\<close> for anything else.\<close>

definition is_flag :: "char \<Rightarrow> bool" where "is_flag c = (c \<in> set ''-+ #0'')"

definition parse_prec :: "string \<Rightarrow> nat option \<times> string" where
  "parse_prec s =
     (if s \<noteq> [] \<and> hd s = CHR ''.'' then (Some (nat (dec_value (takeWhile is_dig (tl s)))), dropWhile is_dig (tl s))
      else (None, s))"

definition parse_spec :: "string \<Rightarrow> fmt_spec option" where
  "parse_spec form =
     (if form = [] \<or> hd form \<noteq> L_ESC then None
      else let fl = takeWhile is_flag (tl form); s1 = dropWhile is_flag (tl form);
               w = takeWhile is_dig s1; (p, s3) = parse_prec (dropWhile is_dig s1);
               s4 = (if s3 \<noteq> [] \<and> hd s3 = CHR ''l'' then tl s3 else s3)
           in if length s4 = 1 then
                Some \<lparr>f_minus = CHR ''-'' \<in> set fl, f_plus = CHR ''+'' \<in> set fl,
                   f_space = CHR '' '' \<in> set fl, f_alt = CHR ''#'' \<in> set fl, f_zero = CHR ''0'' \<in> set fl,
                   f_width = nat (dec_value w), f_prec = p, f_conv = hd s4\<rparr>
              else None)"

text \<open>Padding of \<open>prefix @ body\<close> to the width; \<open>z\<close> if zeros go between the two.\<close>

definition pad_field :: "fmt_spec \<Rightarrow> bool \<Rightarrow> string \<Rightarrow> string \<Rightarrow> string" where
  "pad_field f z prefix body =
     (let k = f_width f - length (prefix @ body)
      in if f_minus f then prefix @ body @ replicate k (CHR '' '')
         else if z \<and> f_zero f then prefix @ replicate k (CHR ''0'') @ body
         else replicate k (CHR '' '') @ prefix @ body)"

definition sign_prefix :: "fmt_spec \<Rightarrow> bool \<Rightarrow> string" where
  "sign_prefix f neg = (if neg then ''-'' else if f_plus f then ''+'' else if f_space f then '' '' else [])"

definition digit_char :: "bool \<Rightarrow> int \<Rightarrow> char" where
  "digit_char up d = char_of (if d < 10 then 48 + d else if up then 55 + d else 87 + d)"

function base_digits :: "int \<Rightarrow> bool \<Rightarrow> int \<Rightarrow> string" where
  "base_digits b up n =
     (if b < 2 \<or> n < b then [digit_char up n] else base_digits b up (n div b) @ [digit_char up (n mod b)])"
  by pat_completeness auto
termination
  by (relation "measure (\<lambda>(b, up, n). nat n)") (auto simp: int_div_less_self)

declare base_digits.simps [simp del]

text \<open>The precision of an integer conversion is the least number of digits.\<close>

definition int_digits :: "fmt_spec \<Rightarrow> int \<Rightarrow> bool \<Rightarrow> int \<Rightarrow> string" where
  "int_digits f b up n =
     (let ds = (if n = 0 \<and> f_prec f = Some 0 then [] else base_digits b up n)
      in replicate ((case f_prec f of None \<Rightarrow> 0 | Some p \<Rightarrow> p) - length ds) (CHR ''0'') @ ds)"

definition fmt_int :: "fmt_spec \<Rightarrow> int \<Rightarrow> string" where
  "fmt_int f n = pad_field f (f_prec f = None) (sign_prefix f (n < 0)) (int_digits f 10 False \<bar>n\<bar>)"

definition fmt_unsigned :: "fmt_spec \<Rightarrow> int \<Rightarrow> string" where
  "fmt_unsigned f n =
     (let k = f_conv f; up = (k = CHR ''X'');
          ds = int_digits f (if k = CHR ''o'' then 8 else if k = CHR ''u'' then 10 else 16) up n;
          ds' = (if k = CHR ''o'' \<and> f_alt f \<and> chat ds 0 \<noteq> CHR ''0'' then CHR ''0'' # ds else ds)
      in pad_field f (f_prec f = None)
           (if f_alt f \<and> n \<noteq> 0 \<and> (k = CHR ''x'' \<or> k = CHR ''X'') then [CHR ''0'', k] else []) ds')"

text \<open>
  \<open>p / q\<close> rounded to \<open>P + 1\<close> decimal digits: the digits as a number, and the decimal exponent.
\<close>

definition sci_digits :: "nat \<Rightarrow> int \<Rightarrow> int \<Rightarrow> int \<times> int" where
  "sci_digits P p q =
     (if p = 0 then (0, 0)
      else let x0 = exp10 p q;
               d0 = round_div (p * 10 ^ nat (int P - x0)) (q * 10 ^ nat (x0 - int P))
           in if d0 = 10 ^ (P + 1) then (10 ^ P, x0 + 1) else (d0, x0))"

text \<open>At least \<open>n\<close> digits.\<close>

definition digits_of :: "nat \<Rightarrow> int \<Rightarrow> string" where
  "digits_of n d = (let ds = dec_digits d in replicate (n - length ds) (CHR ''0'') @ ds)"

definition point :: "bool \<Rightarrow> string \<Rightarrow> string \<Rightarrow> string" where
  "point alt ip fp = (if fp = [] \<and> \<not> alt then ip else ip @ CHR ''.'' # fp)"

definition exponent_part :: "bool \<Rightarrow> int \<Rightarrow> string" where
  "exponent_part up x =
     (if up then CHR ''E'' else CHR ''e'') # (if x < 0 then CHR ''-'' else CHR ''+'') # digits_of 2 \<bar>x\<bar>"

definition body_f :: "bool \<Rightarrow> nat \<Rightarrow> int \<Rightarrow> int \<Rightarrow> string" where
  "body_f alt P p q =
     (let ds = digits_of (P + 1) (round_div (p * 10 ^ P) q); k = length ds - P
      in point alt (take k ds) (drop k ds))"

definition body_e :: "bool \<Rightarrow> bool \<Rightarrow> nat \<Rightarrow> int \<Rightarrow> int \<Rightarrow> string" where
  "body_e up alt P p q =
     (let (d, x) = sci_digits P p q; ds = digits_of (P + 1) d
      in point alt (take 1 ds) (drop 1 ds) @ exponent_part up x)"

definition body_g :: "bool \<Rightarrow> bool \<Rightarrow> nat \<Rightarrow> int \<Rightarrow> int \<Rightarrow> string" where
  "body_g up alt P0 p q =
     (let P = (if P0 = 0 then 1 else P0);
          (d, x) = sci_digits (P - 1) p q;
          ds = digits_of P d;
          strip = (\<lambda>fp. if alt then fp else strip_zeros fp)
      in if x < -4 \<or> int P \<le> x then point alt (take 1 ds) (strip (drop 1 ds)) @ exponent_part up x
         else if x < 0 then point alt ''0'' (strip (replicate (nat (- x - 1)) (CHR ''0'') @ ds))
         else point alt (take (nat (x + 1)) ds) (strip (drop (nat (x + 1)) ds)))"

definition fmt_float :: "fmt_spec \<Rightarrow> lua_Number \<Rightarrow> string" where
  "fmt_float f n =
     (let k = f_conv f; up = (k = CHR ''E'' \<or> k = CHR ''G''); sg = sign_prefix f (num_sign n)
      in if is_nan n then pad_field f False sg (if up then ''NAN'' else ''nan'')
         else if is_inf n then pad_field f False sg (if up then ''INF'' else ''inf'')
         else let p = num_mant n * 2 ^ nat (num_expo n); q = 2 ^ nat (- num_expo n);
                  P = (case f_prec f of None \<Rightarrow> 6 | Some P \<Rightarrow> P)
              in pad_field f True sg
                   (if k = CHR ''f'' then body_f (f_alt f) P p q
                    else if k = CHR ''e'' \<or> k = CHR ''E'' then body_e up (f_alt f) P p q
                    else body_g up (f_alt f) P p q))"

text \<open>What \<open>sprintf\<close> writes before the terminator, which may come after a first \<open>NUL\<close>.\<close>

definition sprintf :: "string \<Rightarrow> sprintf_arg \<Rightarrow> string res" where
  "sprintf form arg =
     (case parse_spec form of
        None \<Rightarrow> Inl UNDEFINED
      | Some f \<Rightarrow>
          (case arg of
             PInt n \<Rightarrow>
               if f_conv f = CHR ''c'' then Inr (pad_field f False [] [char_of (n mod 256)])
               else if f_conv f \<in> set ''di'' then Inr (fmt_int f n)
               else if f_conv f \<in> set ''ouxX'' then Inr (fmt_unsigned f n)
               else Inl UNDEFINED
           | PNum n \<Rightarrow> if f_conv f \<in> set ''eEfgG'' then Inr (fmt_float f n) else Inl UNDEFINED
           | PStr s \<Rightarrow>
               if f_conv f = CHR ''s''
               then Inr (pad_field f False [] (case f_prec f of None \<Rightarrow> cstr s | Some P \<Rightarrow> take P (cstr s)))
               else Inl UNDEFINED))"

section \<open>string.format\<close>

abbreviation MAX_ITEM :: nat where "MAX_ITEM \<equiv> 512"
definition FLAGS :: string where "FLAGS = ''-+ #0''"
abbreviation LUA_INTFRMLEN :: string where "LUA_INTFRMLEN \<equiv> ''l''"

text \<open>\<open>(sizeof(FLAGS) + sizeof(LUA_INTFRMLEN) + 10)\<close>\<close>

definition MAX_FORMAT :: nat where "MAX_FORMAT = 6 + 2 + 10"

definition quote_char :: "char \<Rightarrow> string" where
  "quote_char c =
     (if c = CHR 0x22 \<or> c = CHR 0x5C \<or> c = CHR 0x0A then [CHR 0x5C, c]
      else if c = NUL then CHR 0x5C # ''000'' else [c])"

definition addquoted :: "lua_Debug \<Rightarrow> tvalue list \<Rightarrow> nat \<Rightarrow> string res" where
  "addquoted ar args arg =
     bindE (luaL_checklstring ar args arg) (\<lambda>s.
       Inr (CHR 0x22 # concat (map quote_char s) @ [CHR 0x22]))"

text \<open>The loop that skips the flags. The terminator is a character of \<open>FLAGS\<close> for \<open>strchr\<close>, so at
the end of the string the loop reads on behind it.\<close>

function scan_flags :: "string \<Rightarrow> nat \<Rightarrow> nat res" where
  "scan_flags s p =
     (if length s < p then Inl UNDEFINED
      else if strchr FLAGS (chat s p) then scan_flags s (p + 1) else Inr p)"
  by pat_completeness auto
termination by (relation "measure (\<lambda>(s, p). Suc (length s) - p)") auto

declare scan_flags.simps [simp del]

definition skip_digit :: "string \<Rightarrow> nat \<Rightarrow> nat" where
  "skip_digit s p = (if isdigit (uchar (chat s p)) then p + 1 else p)"

text \<open>The position of the conversion character, and the contents of \<open>form\<close> as a C string.\<close>

definition scanformat :: "string \<Rightarrow> nat \<Rightarrow> (nat \<times> string) res" where
  "scanformat s strfrmt =
     bindE (scan_flags s strfrmt) (\<lambda>p1.
       if 6 \<le> p1 - strfrmt then luaL_error ''invalid format (repeated flags)''
       else let p3 = skip_digit s (skip_digit s p1);
                p = (if chat s p3 = CHR ''.'' then skip_digit s (skip_digit s (p3 + 1)) else p3)
            in if isdigit (uchar (chat s p)) then luaL_error ''invalid format (width or precision too long)''
               else Inr (p, CHR ''%'' # cstr (take (p - strfrmt + 1) (drop strfrmt s))))"

definition addintlen :: "string \<Rightarrow> string" where
  "addintlen form = butlast form @ LUA_INTFRMLEN @ [last form]"

text \<open>
  The casts of an argument. \<open>unsigned long\<close> outside of its range follows the conversion
  instructions of the 64-bit platforms, like the signed ones.
\<close>

definition number2ulong :: "lua_Number \<Rightarrow> int" where
  "number2ulong a =
     (case num_trunc a of
        None \<Rightarrow> if is_nan a \<or> num_sign a then 9223372036854775808 else 0
      | Some k \<Rightarrow> if - 9223372036854775808 \<le> k \<and> k < 18446744073709551616 then uint64 k
                 else if k < 0 then 9223372036854775808 else 0)"

text \<open>
  One item: the conversion character is \<open>k\<close>. \<open>item_sprintf\<close> is what \<open>sprintf\<close> writes into
  \<open>buff\<close>, \<open>None\<close> for an item that does not use it; \<open>format_item\<close> is what is added to the result.
\<close>

definition item_sprintf :: "lua_Debug \<Rightarrow> tvalue list \<Rightarrow> nat \<Rightarrow> string \<Rightarrow> char \<Rightarrow> string option res" where
  "item_sprintf ar args arg form k =
     (let put = (\<lambda>r. bindE r (\<lambda>buff. Inr (Some buff)))
      in if k = CHR ''c'' then
           bindE (luaL_checknumber ar args arg) (\<lambda>n. put (sprintf form (PInt (lua_number2int n))))
         else if k = CHR ''d'' \<or> k = CHR ''i'' then
           bindE (luaL_checknumber ar args arg) (\<lambda>n. put (sprintf (addintlen form) (PInt (lua_number2integer n))))
         else if k = CHR ''o'' \<or> k = CHR ''u'' \<or> k = CHR ''x'' \<or> k = CHR ''X'' then
           bindE (luaL_checknumber ar args arg) (\<lambda>n. put (sprintf (addintlen form) (PInt (number2ulong n))))
         else if k = CHR ''e'' \<or> k = CHR ''E'' \<or> k = CHR ''f'' \<or> k = CHR ''g'' \<or> k = CHR ''G'' then
           bindE (luaL_checknumber ar args arg) (\<lambda>n. put (sprintf form (PNum n)))
         else if k = CHR ''q'' then Inr None
         else if k = CHR ''s'' then
           bindE (luaL_checklstring ar args arg) (\<lambda>s.
             if \<not> strchr form (CHR ''.'') \<and> 100 \<le> length s then Inr None else put (sprintf form (PStr s)))
         else luaL_error (''invalid option to '' @ LUA_QL ''format''))"

definition format_item :: "lua_Debug \<Rightarrow> tvalue list \<Rightarrow> nat \<Rightarrow> string \<Rightarrow> char \<Rightarrow> string res" where
  "format_item ar args arg form k =
     bindE (item_sprintf ar args arg form k) (\<lambda>r.
       case r of
         Some buff \<Rightarrow> Inr (cstr buff)
       | None \<Rightarrow> if k = CHR ''q'' then addquoted ar args arg else luaL_checklstring ar args arg)"

lemma scan_flags_range: "scan_flags s q = Inr p \<Longrightarrow> q \<le> p \<and> p < length s \<and> \<not> strchr FLAGS (chat s p)"
proof (induction s q rule: scan_flags.induct)
  case (1 s q)
  show ?case
  proof (cases "strchr FLAGS (chat s q)")
    case True
    with 1(2) have r: "\<not> length s < q" "scan_flags s (q + 1) = Inr p"
      by (simp_all add: scan_flags.simps [of s q] split: if_splits)
    from 1(1) [OF r(1) True r(2)] show ?thesis by (simp del: chat_nth)
  next
    case False
    with 1(2) have "p = q" "\<not> length s < q" by (auto simp: scan_flags.simps [of s q] split: if_splits)
    moreover have "chat s q \<noteq> NUL" using False by (auto simp: strchr_def)
    ultimately show ?thesis using False chat_not_NUL by auto
  qed
qed

lemma skip_digit_ge: "p \<le> skip_digit s p \<and> skip_digit s p \<le> p + 1"
  by (simp add: skip_digit_def)

lemma skip_digit2_ge: "p \<le> skip_digit s (skip_digit s p) \<and> skip_digit s (skip_digit s p) \<le> p + 2"
  using skip_digit_ge [where s = s and p = p] skip_digit_ge [where s = s and p = "skip_digit s p"] by simp

definition after_prec :: "string \<Rightarrow> nat \<Rightarrow> nat" where
  "after_prec s p3 = (if chat s p3 = CHR ''.'' then skip_digit s (skip_digit s (p3 + 1)) else p3)"

lemma after_prec_ge: "p \<le> after_prec s p \<and> after_prec s p \<le> p + 3"
  using skip_digit2_ge [where s = s and p = "p + 1"] by (auto simp: after_prec_def simp del: chat_nth)

lemma scanformat_cases:
  assumes "scanformat s q = Inr (p, form)"
  obtains p1 where "scan_flags s q = Inr p1" "p1 < q + 6" "p = after_prec s (skip_digit s (skip_digit s p1))"
    "\<not> isdigit (uchar (chat s p))" "form = CHR ''%'' # cstr (take (p - q + 1) (drop q s))"
  using assms
  by (auto simp: scanformat_def after_prec_def bindE_Inr_iff Let_def luaL_error_def simp del: chat_nth split: if_splits)

lemma scanformat_ge: "scanformat s q = Inr (p, form) \<Longrightarrow> q \<le> p"
  by (erule scanformat_cases)
     (use skip_digit2_ge after_prec_ge scan_flags_range in \<open>meson le_trans\<close>)

text \<open>The loop: \<open>q\<close> is the position in the format and \<open>arg\<close> the last argument that was used.\<close>

function format_loop :: "lua_Debug \<Rightarrow> tvalue list \<Rightarrow> string \<Rightarrow> nat \<Rightarrow> nat \<Rightarrow> string res" where
  "format_loop ar args s q arg =
     (if length s \<le> q then Inr []
      else if chat s q \<noteq> L_ESC then bindE (format_loop ar args s (q + 1) arg) (\<lambda>b. Inr (chat s q # b))
      else if chat s (q + 1) = L_ESC then bindE (format_loop ar args s (q + 2) arg) (\<lambda>b. Inr (L_ESC # b))
      else bindE (scanformat s (q + 1)) (\<lambda>(p, form).
             bindE (format_item ar args (arg + 1) form (chat s p)) (\<lambda>x.
             bindE (format_loop ar args s (p + 1) (arg + 1)) (\<lambda>b. Inr (x @ b)))))"
  by pat_completeness auto
termination
  by (relation "measure (\<lambda>(ar, args, s, q, arg). length s - q)") (auto dest!: scanformat_ge)

declare format_loop.simps [simp del]

definition str_format :: "lua_Debug \<Rightarrow> tvalue list \<Rightarrow> tvalue list res" where
  "str_format ar args =
     bindE (luaL_checklstring ar args 1) (\<lambda>s.
     bindE (format_loop ar args s 0 1) (\<lambda>b. Inr [TString b]))"

section \<open>The buffers of an item are large enough\<close>

subsection \<open>What is in \<open>form\<close>\<close>

lemma is_flag_strchr: "strchr FLAGS c \<longleftrightarrow> is_flag c \<or> c = NUL"
  by (auto simp: strchr_def FLAGS_def is_flag_def cstr_def)

lemma scan_flags_all: "scan_flags s q = Inr p \<Longrightarrow> \<forall>c \<in> set (take (p - q) (drop q s)). is_flag c \<or> c = NUL"
proof (induction s q rule: scan_flags.induct)
  case (1 s q)
  show ?case
  proof (cases "strchr FLAGS (chat s q)")
    case True
    with 1(2) have r: "\<not> length s < q" "scan_flags s (q + 1) = Inr p"
      by (simp_all add: scan_flags.simps [of s q] split: if_splits)
    from scan_flags_range [OF r(2)] have q: "q < p" "p < length s" by simp_all
    then have "take (p - q) (drop q s) = s ! q # take (p - (q + 1)) (drop (q + 1) s)"
      by (simp add: Cons_nth_drop_Suc [symmetric] take_Cons')
    with 1(1) [OF r(1) True r(2)] True q show ?thesis by (auto simp: is_flag_strchr)
  next
    case False
    with 1(2) have "p = q" by (auto simp: scan_flags.simps [of s q] split: if_splits)
    then show ?thesis by simp
  qed
qed

lemma scan_flags_stop: "scan_flags s q = Inr p \<Longrightarrow> \<not> is_flag (chat s p) \<and> chat s p \<noteq> NUL"
  using scan_flags_range [of s q p] by (simp add: is_flag_strchr del: chat_nth)

lemma isdigit_NUL [simp]: "\<not> isdigit (uchar NUL)"
  by (simp add: isdigit_def uchar_def)

lemma span_append:
  assumes "\<forall>c \<in> set xs. P c" "ys = [] \<or> \<not> P (hd ys)"
  shows "takeWhile P (xs @ ys) = xs" and "dropWhile P (xs @ ys) = ys"
  using assms by (cases ys; simp add: takeWhile_append dropWhile_append)+

text \<open>\<open>skip_digit\<close> twice: at most two digits, and a stop unless a third one follows.\<close>

definition digits_between :: "string \<Rightarrow> nat \<Rightarrow> nat \<Rightarrow> bool" where
  "digits_between s a b \<longleftrightarrow> a \<le> b \<and> b \<le> a + 2 \<and> (\<forall>c \<in> set (take (b - a) (drop a s)). is_dig c)"

lemma skip_digit2: "digits_between s a (skip_digit s (skip_digit s a))"
proof -
  have one: "take (Suc 0) (drop a s) = (if a < length s then [s ! a] else [])" for a
    by (simp add: take_Suc_conv_app_nth)
  have two: "take (Suc (Suc 0)) (drop a s) = (if a < length s then s ! a # (if Suc a < length s then [s ! Suc a] else []) else [])"
    by (cases "a < length s") (simp_all add: Cons_nth_drop_Suc [symmetric] one)
  show ?thesis
    by (auto simp: digits_between_def skip_digit_def one two is_dig_def chat_def numeral_2_eq_2 split: if_splits)
qed

definition spec_ok :: "fmt_spec \<Rightarrow> bool" where
  "spec_ok f \<longleftrightarrow> f_width f \<le> 99 \<and> (case f_prec f of None \<Rightarrow> True | Some P \<Rightarrow> P \<le> 99)"

lemma dec_value_two:
  assumes "length ds \<le> 2" "\<forall>c \<in> set ds. is_dig c"
  shows "0 \<le> dec_value ds \<and> dec_value ds \<le> 99"
proof -
  consider "ds = []" | a where "ds = [a]" | a b where "ds = [a, b]"
    using assms(1) by (cases ds rule: list.exhaust; cases "tl ds" rule: list.exhaust) auto
  then show ?thesis using assms(2) by cases (auto simp: dec_value_def is_dig_def isdigit_def)
qed

text \<open>The shape of a specification, and how it is read back.\<close>

lemma parse_shape:
  assumes fl: "\<forall>c \<in> set fl. is_flag c"
    and ws: "length ws \<le> 2" "\<forall>c \<in> set ws. is_dig c"
    and ps: "length ps \<le> 2" "\<forall>c \<in> set ps. is_dig c"
    and rest: "ws @ tl1 = [] \<or> \<not> is_flag (hd (ws @ tl1))" "tl1 = [] \<or> \<not> is_dig (hd tl1)"
    and tl1: "tl1 = tl2 \<and> (tl2 = [] \<or> hd tl2 \<noteq> CHR ''.'') \<or> tl1 = CHR ''.'' # ps @ tl2"
    and tl2: "tl2 = [] \<or> \<not> is_dig (hd tl2)"
    and p: "parse_spec (CHR ''%'' # fl @ ws @ tl1) = Some f"
  shows "spec_ok f"
proof -
  note fl' = span_append [OF fl rest(1)] and ws' = span_append [OF ws(2) rest(2)] and ps' = span_append [OF ps(2) tl2]
  have w: "nat (dec_value ws) \<le> 99" "nat (dec_value ps) \<le> 99"
    using dec_value_two [OF ws] dec_value_two [OF ps] by auto
  obtain P s3 where P: "parse_prec tl1 = (P, s3)" by fastforce
  with tl1 have "P = None \<or> P = Some (nat (dec_value ps))" by (auto simp: parse_prec_def ps' split: if_splits)
  moreover have "f_width f = nat (dec_value ws) \<and> f_prec f = P"
    using p by (auto simp: parse_spec_def fl' ws' P Let_def split: if_splits)
  ultimately show ?thesis using w by (auto simp: spec_ok_def)
qed

lemma cstr_append: "cstr (xs @ ys) = (if NUL \<in> set xs then cstr xs else xs @ cstr ys)"
  by (induction xs) (auto simp: cstr_def)

lemma split_at: "a \<le> b \<Longrightarrow> b \<le> c \<Longrightarrow> take (c - a) (drop a s) = take (b - a) (drop a s) @ take (c - b) (drop b s)"
  using take_add [of "b - a" "c - b" "drop a s"] by simp

lemma take_one: "take (Suc 0) (drop p s) = (if p < length s then [s ! p] else [])"
  by (simp add: take_Suc_conv_app_nth)

text \<open>What \<open>scanformat\<close> leaves in \<open>form\<close>: only flags if there was a \<open>NUL\<close> among them, and
otherwise a whole specification with its conversion character.\<close>

lemma scanformat_form:
  assumes "scanformat s q = Inr (p, form)"
  obtains (Flags) fl where "form = CHR ''%'' # fl" "\<forall>c \<in> set fl. is_flag c"
  | (Spec) fl ws dot ps tl2 where "form = CHR ''%'' # fl @ ws @ dot @ ps @ tl2" "\<forall>c \<in> set fl. is_flag c"
      "length ws \<le> 2" "\<forall>c \<in> set ws. is_dig c" "length ps \<le> 2" "\<forall>c \<in> set ps. is_dig c"
      "dot = ''.'' \<or> dot = [] \<and> ps = [] \<and> chat s p \<noteq> CHR ''.''" "\<not> is_dig (chat s p)"
      "ws = [] \<and> dot = [] \<longrightarrow> \<not> is_flag (chat s p)" "ws = [] \<or> \<not> is_flag (hd ws)"
      "tl2 = (if chat s p = NUL then [] else [chat s p])"
proof -
  from assms obtain p1 where p1: "scan_flags s q = Inr p1" "p = after_prec s (skip_digit s (skip_digit s p1))"
    and nd: "\<not> isdigit (uchar (chat s p))" and form: "form = CHR ''%'' # cstr (take (p - q + 1) (drop q s))"
    by (rule scanformat_cases)
  define p3 where "p3 = skip_digit s (skip_digit s p1)"
  define fl where "fl = take (p1 - q) (drop q s)"
  define ws where "ws = take (p3 - p1) (drop p1 s)"
  define d where "d = take (p - p3) (drop p3 s)"
  have le: "q \<le> p1" "p1 \<le> p3" "p3 \<le> p" "p1 < length s"
    using scan_flags_range [OF p1(1)] skip_digit2_ge [where s = s and p = p1] after_prec_ge [where s = s and p = p3]
    by (auto simp: p3_def p1(2) simp del: chat_nth)
  have u: "take (p - q + 1) (drop q s) = fl @ ws @ d @ (if p < length s then [s ! p] else [])"
    using split_at [of q p1 "Suc p" s] split_at [of p1 p3 "Suc p" s] split_at [of p3 p "Suc p" s] le
    by (simp add: fl_def ws_def d_def Suc_diff_le take_one)
  have fl: "\<forall>c \<in> set fl. is_flag c \<or> c = NUL" using scan_flags_all [OF p1(1)] by (simp add: fl_def)
  show thesis
  proof (cases "NUL \<in> set fl")
    case True
    have "\<forall>c \<in> set (cstr fl). is_flag c" using fl by (auto simp: cstr_def dest: set_takeWhileD)
    moreover have "form = CHR ''%'' # cstr fl" unfolding form u by (simp add: cstr_append True)
    ultimately show ?thesis by (rule Flags [rotated])
  next
    case False
    have ws: "length ws \<le> 2" "\<forall>c \<in> set ws. is_dig c"
      using skip_digit2 [of s p1] by (auto simp: digits_between_def ws_def p3_def)
    have stop: "ws = [] \<or> \<not> is_flag (hd ws)"
      using scan_flags_stop [OF p1(1)] le(4) by (auto simp: ws_def hd_drop_conv_nth neq_Nil_conv hd_conv_nth nth_take)
    define dot where "dot = (if p = p3 then [] else ''.'')"
    define ps where "ps = tl d"
    have d: "d = dot @ ps \<and> length ps \<le> 2 \<and> (\<forall>c \<in> set ps. is_dig c) \<and> (dot = ''.'' \<or> dot = [] \<and> ps = [] \<and> chat s p \<noteq> CHR ''.'')"
    proof (cases "chat s p3 = CHR ''.''")
      case dt: True
      then have l3: "p3 < length s" "s ! p3 = CHR ''.''" by (auto simp: chat_def split: if_splits)
      have pp: "p = skip_digit s (skip_digit s (p3 + 1))" using dt by (simp add: p1(2) after_prec_def flip: p3_def del: chat_nth)
      then have "p3 < p" using skip_digit2_ge [where s = s and p = "p3 + 1"] by simp
      moreover from this have "d = CHR ''.'' # take (p - (p3 + 1)) (drop (p3 + 1) s)"
        using l3 by (simp add: d_def Cons_nth_drop_Suc [symmetric] take_Cons')
      ultimately show ?thesis
        using skip_digit2 [of s "p3 + 1"] by (auto simp: digits_between_def dot_def ps_def pp)
    next
      case dt: False
      then have "p = p3" by (simp add: p1(2) after_prec_def flip: p3_def del: chat_nth)
      with dt show ?thesis by (simp add: d_def dot_def ps_def del: chat_nth)
    qed
    have dn: "is_dig c \<Longrightarrow> c \<noteq> NUL" for c by (auto simp: is_dig_def)
    have nul: "NUL \<notin> set (ws @ d)" using ws(2) d dn by auto
    have t2: "cstr (if p < length s then [s ! p] else []) = (if chat s p = NUL then [] else [chat s p])"
      by (auto simp: cstr_def chat_def)
    let ?t = "if chat s p = NUL then [] else [chat s p]"
    have "cstr (fl @ ws @ d @ (if p < length s then [s ! p] else [])) = fl @ ws @ dot @ ps @ ?t"
      using False nul d by (simp add: cstr_append t2 del: chat_nth)
    then have fo: "form = CHR ''%'' # fl @ ws @ dot @ ps @ ?t" unfolding form u by simp
    have fl': "\<forall>c \<in> set fl. is_flag c" using fl False by auto
    have nf: "ws = [] \<and> dot = [] \<longrightarrow> \<not> is_flag (chat s p)"
    proof
      assume "ws = [] \<and> dot = []"
      with le have "p = p1" by (auto simp: ws_def dot_def split: if_splits)
      with scan_flags_stop [OF p1(1)] show "\<not> is_flag (chat s p)" by simp
    qed
    have nd': "\<not> is_dig (chat s p)" using nd by (simp add: is_dig_def)
    show ?thesis by (rule Spec [OF fo fl' ws _ _ _ nd' nf stop refl]) (use d in blast)+
  qed
qed

lemma addintlen_Cons: "addintlen (c # xs @ [d]) = c # xs @ [CHR ''l'', d]"
  by (simp add: addintlen_def butlast_append)

lemma flags_not: "is_flag c \<Longrightarrow> c \<noteq> CHR ''l'' \<and> c \<noteq> CHR ''.'' \<and> c \<noteq> NUL"
  by (auto simp: is_flag_def)

lemma not_flag_dig: "\<not> is_flag (CHR ''l'')" "\<not> is_flag (CHR ''.'')" "\<not> is_dig (CHR ''l'')" "\<not> is_dig (CHR ''.'')"
  by (simp_all add: is_flag_def is_dig_def isdigit_def uchar_def)

text \<open>A specification that \<open>sprintf\<close> accepts has a width and a precision of two digits at most.\<close>

lemma scanformat_spec:
  assumes s: "scanformat s q = Inr (p, form)" and f: "parse_spec form = Some f"
  shows "spec_ok f"
  using s
proof (cases rule: scanformat_form)
  case (Flags fl)
  with f show ?thesis using parse_shape [of fl "[]" "[]" "[]" "[]" f] by simp
next
  case (Spec fl ws dot ps tl2)
  have d: "dot @ ps @ tl2 = [] \<or> \<not> is_dig (hd (dot @ ps @ tl2))" using Spec(7,8,11) not_flag_dig by auto
  have "ws @ dot @ ps @ tl2 = [] \<or> \<not> is_flag (hd (ws @ dot @ ps @ tl2))"
    using Spec(7,9,10,11) not_flag_dig by (cases ws) auto
  then show ?thesis
    by (rule parse_shape [OF Spec(2-6) _ d, of tl2 f]) (use Spec f not_flag_dig in auto)
qed

lemma scanformat_spec_int:
  assumes s: "scanformat s q = Inr (p, form)" and f: "parse_spec (addintlen form) = Some f"
    and k: "chat s p \<noteq> NUL"
  shows "spec_ok f"
  using s
proof (cases rule: scanformat_form)
  case (Flags fl)
  show ?thesis
  proof (cases fl rule: rev_cases)
    case Nil
    with Flags(1) f show ?thesis by (simp add: addintlen_def parse_spec_def)
  next
    case (snoc xs x)
    with Flags have "parse_spec (CHR ''%'' # xs @ [] @ [CHR ''l'', x]) = Some f" "\<forall>c \<in> set xs. is_flag c"
      using f by (simp_all add: addintlen_Cons)
    then show ?thesis by (intro parse_shape [of xs "[]" "[]" "[CHR ''l'', x]" "[CHR ''l'', x]" f]) (auto simp: not_flag_dig)
  qed
next
  case (Spec fl ws dot ps tl2)
  let ?t = "[CHR ''l'', chat s p]"
  have "addintlen form = CHR ''%'' # fl @ ws @ dot @ ps @ ?t"
    using Spec(1,11) k addintlen_Cons [of "CHR ''%''" "fl @ ws @ dot @ ps" "chat s p"] by simp
  with f have p: "parse_spec (CHR ''%'' # fl @ ws @ dot @ ps @ ?t) = Some f" by simp
  have d: "dot @ ps @ ?t = [] \<or> \<not> is_dig (hd (dot @ ps @ ?t))" using Spec(7,8) not_flag_dig by auto
  have "ws @ dot @ ps @ ?t = [] \<or> \<not> is_flag (hd (ws @ dot @ ps @ ?t))"
    using Spec(7,10) not_flag_dig by (cases ws) auto
  then show ?thesis
    by (rule parse_shape [OF Spec(2-6) _ d, of ?t f]) (use Spec p not_flag_dig in auto)
qed

lemma scanformat_length:
  assumes "scanformat s q = Inr (p, form)"
  shows "length form + 1 < MAX_FORMAT" "length (addintlen form) < MAX_FORMAT"
proof -
  from assms obtain p1 where p1: "scan_flags s q = Inr p1" "p1 < q + 6" "p = after_prec s (skip_digit s (skip_digit s p1))"
    "form = CHR ''%'' # cstr (take (p - q + 1) (drop q s))" by (rule scanformat_cases)
  have "p \<le> p1 + 5"
    using skip_digit2_ge [where s = s and p = p1] after_prec_ge [where s = s and p = "skip_digit s (skip_digit s p1)"]
    unfolding p1(3) by linarith
  moreover have "length (cstr (take (p - q + 1) (drop q s))) \<le> p - q + 1"
    unfolding cstr_def by (rule order_trans [OF length_takeWhile_le]) simp
  ultimately have "length form \<le> 12" using p1(2,4) scan_flags_range [OF p1(1)] by (simp del: chat_nth)
  moreover have "form \<noteq> []" using p1(4) by simp
  ultimately show "length form + 1 < MAX_FORMAT" "length (addintlen form) < MAX_FORMAT"
    by (simp_all add: MAX_FORMAT_def addintlen_def)
qed

lemma no_precision:
  assumes s: "scanformat s q = Inr (p, form)" and f: "parse_spec form = Some f"
    and k: "chat s p = CHR ''s''" "CHR ''.'' \<in> set form"
  shows "f_prec f \<noteq> None"
  using s
proof (cases rule: scanformat_form)
  case (Flags fl)
  then have "CHR ''.'' \<notin> set form" using flags_not by auto
  with k show ?thesis by simp
next
  case (Spec fl ws dot ps tl2)
  have "\<not> is_dig (CHR ''.'')" by (rule not_flag_dig)
  with Spec k flags_not have d: "dot = ''.''" by auto
  have "parse_spec (CHR ''%'' # fl @ ws @ CHR ''.'' # ps @ tl2) = Some f" using f Spec(1) d by simp
  moreover have "takeWhile is_flag (fl @ ws @ CHR ''.'' # ps @ tl2) = fl" "dropWhile is_flag (fl @ ws @ CHR ''.'' # ps @ tl2) = ws @ CHR ''.'' # ps @ tl2"
    using Spec(2,10) not_flag_dig by (intro span_append; cases ws; auto)+
  moreover have "dropWhile is_dig (ws @ CHR ''.'' # ps @ tl2) = CHR ''.'' # ps @ tl2"
    using Spec(4) not_flag_dig by (intro span_append) auto
  ultimately show ?thesis by (auto simp: parse_spec_def parse_prec_def Let_def split: if_splits)
qed

subsection \<open>What is in \<open>buff\<close>\<close>

lemma div_less_int: "0 < b \<Longrightarrow> a < c * b \<Longrightarrow> a div b < (c::int)"
proof (rule ccontr)
  assume a: "0 < b" "a < c * b" "\<not> a div b < c"
  then have "c * b \<le> a div b * b" by (intro mult_right_mono) auto
  also have "\<dots> \<le> a" using a(1) pos_mod_sign [of b a] by (simp flip: minus_mod_eq_div_mult)
  finally show False using a(2) by simp
qed

lemma pad_field_length: "length (pad_field f z pre body) = max (f_width f) (length pre + length body)"
  by (auto simp: pad_field_def Let_def)

lemma sign_prefix_length: "length (sign_prefix f neg) \<le> 1"
  by (simp add: sign_prefix_def)

lemma base_digits_length: "2 \<le> b \<Longrightarrow> n < b ^ Suc k \<Longrightarrow> length (base_digits b up n) \<le> Suc k"
proof (induction k arbitrary: n)
  case 0
  then show ?case by (simp add: base_digits.simps)
next
  case (Suc k)
  show ?case
  proof (cases "n < b")
    case False
    have "n < b ^ Suc k * b" using Suc.prems by (simp add: mult_ac)
    then have "n div b < b ^ Suc k" using Suc.prems(1) by (intro div_less_int) auto
    with Suc False show ?thesis by (subst base_digits.simps) simp
  qed (simp add: base_digits.simps)
qed

lemma int_digits_length:
  assumes "spec_ok f" "2 \<le> b" "n < 18446744073709551616"
  shows "length (int_digits f b up n) \<le> 99"
proof -
  have "(2::int) ^ Suc 63 \<le> b ^ Suc 63" using assms(2) by (intro power_mono) auto
  then have "n < b ^ Suc 63" using assms(3) by simp
  from base_digits_length [OF assms(2) this] have "length (base_digits b up n) \<le> 64" by simp
  with assms(1) show ?thesis by (auto simp: int_digits_def spec_ok_def Let_def split: option.splits)
qed

lemma fmt_int_length: "spec_ok f \<Longrightarrow> \<bar>n\<bar> < 18446744073709551616 \<Longrightarrow> length (fmt_int f n) \<le> 100"
  using int_digits_length [of f 10 "\<bar>n\<bar>" False] sign_prefix_length [of f "n < 0"]
  by (auto simp: fmt_int_def pad_field_length spec_ok_def)

lemma fmt_unsigned_length:
  assumes "spec_ok f" "n < 18446744073709551616"
  shows "length (fmt_unsigned f n) \<le> 102"
proof -
  let ?k = "f_conv f"
  have l: "length (int_digits f (if ?k = CHR ''o'' then 8 else if ?k = CHR ''u'' then 10 else 16) (?k = CHR ''X'') n) \<le> 99"
    by (rule int_digits_length) (use assms in auto)
  have "length (if c then a else b) \<le> m" if "length a \<le> m" "length b \<le> m" for c m and a b :: string using that by simp
  note this [of "[CHR ''0'', ?k]" 2 "[]"] this [of "CHR ''0'' # ds" 100 ds for ds]
  then show ?thesis using l assms(1)
    unfolding fmt_unsigned_def Let_def pad_field_length by (auto simp: spec_ok_def le_SucI)
qed

lemma dec_digits_le: "0 \<le> n \<Longrightarrow> n < 10 ^ Suc k \<Longrightarrow> length (dec_digits n) \<le> Suc k"
proof (cases "n = 0")
  case False
  assume n: "0 \<le> n" "n < 10 ^ Suc k"
  with False have "10 ^ (length (dec_digits n) - 1) \<le> n" using dec_digits_length [of n] by simp
  with n(2) have "(10::int) ^ (length (dec_digits n) - 1) < 10 ^ Suc k" by linarith
  then have "length (dec_digits n) - 1 < Suc k" by (rule power_less_imp_less_exp [rotated]) simp
  then show ?thesis by simp
qed (simp add: dec_digits.simps)

lemma digits_of_length: "0 \<le> n \<Longrightarrow> n < 10 ^ Suc k \<Longrightarrow> length (digits_of m n) \<le> max m (Suc k)"
  using dec_digits_le [of n k] by (auto simp: digits_of_def Let_def)

lemma round_div_le: "0 < b \<Longrightarrow> 0 \<le> a \<Longrightarrow> a < b * c \<Longrightarrow> 0 \<le> round_div a b \<and> round_div a b \<le> c"
proof -
  assume a: "0 < b" "0 \<le> a" "a < b * c"
  then have "a div b < c" by (intro div_less_int) (auto simp: mult.commute)
  moreover have "0 \<le> a div b" using a by (simp add: pos_imp_zdiv_nonneg_iff)
  ultimately show ?thesis by (auto simp: round_div_def Let_def)
qed

lemma neg_exp10_spec: "0 < p \<Longrightarrow> p < q \<Longrightarrow> neg_exp10 p q < 0 \<and> p * 10 ^ nat (- neg_exp10 p q) < 10 * q"
proof (induction p q rule: neg_exp10.induct)
  case (1 p q)
  then have eq: "neg_exp10 p q = neg_exp10 (10 * p) q - 1" by (simp add: neg_exp10.simps [of p q])
  show ?case
  proof (cases "10 * p < q")
    case True
    with 1 have ih: "neg_exp10 (10 * p) q < 0" "10 * p * 10 ^ nat (- neg_exp10 (10 * p) q) < 10 * q" by simp_all
    then have "nat (- neg_exp10 p q) = Suc (nat (- neg_exp10 (10 * p) q))" by (simp add: eq)
    with ih show ?thesis by (simp add: eq mult_ac)
  next
    case False
    then have "neg_exp10 p q = - 1" by (simp add: eq neg_exp10.simps [of "10 * p" q])
    with 1 show ?thesis by simp
  qed
qed

lemma neg_exp10_ge: "0 < p \<Longrightarrow> q \<le> p * 10 ^ k \<Longrightarrow> - int k \<le> neg_exp10 p q"
proof (induction k arbitrary: p)
  case 0
  then show ?case by (simp add: neg_exp10.simps)
next
  case (Suc k)
  then have "- int k \<le> neg_exp10 (10 * p) q" by (simp add: mult_ac)
  then show ?case using Suc.prems by (simp add: neg_exp10.simps [of p q])
qed

lemma exp10_upper:
  assumes "0 < p" "0 < q"
  shows "p * 10 ^ nat (- exp10 p q) < q * 10 ^ nat (exp10 p q + 1) * (if exp10 p q < 0 then 10 else 1)"
proof (cases "q \<le> p")
  case True
  let ?l = "length (dec_digits (p div q))"
  have d: "0 < p div q" using True assms by (simp add: pos_imp_zdiv_pos_iff)
  then have l: "p div q < 10 ^ ?l" "dec_digits (p div q) \<noteq> []" using dec_digits_length dec_digits_spec [of "p div q"] by auto
  from l(1) have "p div q + 1 \<le> 10 ^ ?l" by simp
  then have "q * (p div q + 1) \<le> q * 10 ^ ?l" using assms by (intro mult_left_mono) auto
  moreover have "p < q * (p div q + 1)" using assms pos_mod_bound [of q p] by (simp add: distrib_left flip: minus_mod_eq_mult_div)
  ultimately have "p < q * 10 ^ ?l" by simp
  moreover have "exp10 p q = int ?l - 1" using True by (simp add: exp10_def)
  moreover have "0 < ?l" using l(2) by simp
  moreover have "nat (1 - int ?l) = 0" using l(2) by (cases "dec_digits (p div q)") auto
  ultimately show ?thesis by simp
next
  case False
  with neg_exp10_spec [of p q] assms show ?thesis by (auto simp: exp10_def)
qed

lemma sci_digits_range:
  assumes "0 \<le> p" "0 < q"
  shows "0 \<le> fst (sci_digits P p q) \<and> fst (sci_digits P p q) < 10 ^ (P + 1)"
proof (cases "p = 0")
  case False
  with assms have p: "0 < p" by simp
  define x where "x = exp10 p q"
  define a where "a = p * 10 ^ nat (int P - x)"
  define b where "b = q * 10 ^ nat (x - int P)"
  have "a < b * 10 ^ (P + 1)"
  proof (cases "x < 0")
    case True
    have "nat (int P - x) = P + nat (- x)" using True by simp
    then have "a = p * 10 ^ nat (- x) * 10 ^ P" by (simp add: a_def power_add mult_ac)
    moreover have "p * 10 ^ nat (- x) < q * 10" using exp10_upper [OF p assms(2)] True by (simp add: x_def)
    moreover have "b = q" using True by (simp add: b_def)
    ultimately show ?thesis by (simp add: mult_ac)
  next
    case False
    then have u: "p < q * 10 ^ nat (x + 1)" using exp10_upper [OF p assms(2)] by (simp add: x_def)
    have e: "nat (x + 1) + nat (int P - x) = nat (x - int P) + (P + 1)" using False by (cases "int P \<le> x") auto
    have "a < q * 10 ^ nat (x + 1) * 10 ^ nat (int P - x)" unfolding a_def using u by simp
    also have "\<dots> = q * 10 ^ (nat (x + 1) + nat (int P - x))" by (simp add: power_add)
    also have "\<dots> = b * 10 ^ (P + 1)" unfolding e b_def by (simp only: power_add mult.assoc)
    finally show ?thesis .
  qed
  then have "0 \<le> round_div a b \<and> round_div a b \<le> 10 ^ (P + 1)"
    using assms p by (intro round_div_le) (auto simp: a_def b_def)
  then show ?thesis
    using False by (auto simp: sci_digits_def Let_def x_def a_def b_def)
qed (simp add: sci_digits_def)

lemma finite_bounds:
  assumes "\<not> is_nan n" "\<not> is_inf n"
  shows "0 \<le> num_mant n" "num_mant n < 2 ^ 53" "num_expo n \<le> 971" "- 1074 \<le> num_expo n"
proof -
  have m: "0 \<le> num_mag n" "num_mag n < 9218868437227405312"
    using assms num_mag_range [of n] by (auto simp: is_nan_def is_inf_def inf_mag_def)
  then have "num_mag n div 4503599627370496 < 2047" by (intro div_less_int) auto
  moreover have "0 \<le> num_mag n mod 4503599627370496" "num_mag n mod 4503599627370496 < 4503599627370496" by simp_all
  ultimately show "0 \<le> num_mant n" "num_mant n < 2 ^ 53" "num_expo n \<le> 971" "- 1074 \<le> num_expo n"
    by (auto simp: num_mant_def num_expo_def Let_def)
qed

text \<open>The powers stay symbolic: \<open>n10\<close> and \<open>m10\<close> are the numbers of decimal digits.\<close>

definition n10 :: nat where "n10 = 309"
definition m10 :: nat where "m10 = 324"

lemma power_2_10: "(2::int) ^ 1024 \<le> 10 ^ n10" "(2::int) ^ 1074 \<le> 10 ^ m10"
  by (simp_all add: n10_def m10_def)

lemma finite_num_less:
  assumes "\<not> is_nan n" "\<not> is_inf n"
  shows "num_mant n * 2 ^ nat (num_expo n) < 10 ^ n10"
proof -
  note b = finite_bounds [OF assms]
  have "nat (num_expo n) \<le> 971" using b by simp
  then have "(2::int) ^ 53 * 2 ^ nat (num_expo n) \<le> 2 ^ 53 * 2 ^ 971" by (intro mult_left_mono power_increasing) simp_all
  also have "\<dots> = (2::int) ^ 1024" unfolding power_add [symmetric] by (rule arg_cong) simp
  finally have "(2::int) ^ 53 * 2 ^ nat (num_expo n) \<le> 10 ^ n10" by (rule order_trans [OF _ power_2_10(1)])
  moreover have "num_mant n * 2 ^ nat (num_expo n) < 2 ^ 53 * 2 ^ nat (num_expo n)" by (rule mult_strict_right_mono [OF b(2)]) simp
  ultimately show ?thesis by (rule order_less_le_trans [rotated])
qed

lemma sci_exponent_range:
  assumes "\<not> is_nan n" "\<not> is_inf n"
  shows "\<bar>snd (sci_digits P (num_mant n * 2 ^ nat (num_expo n)) (2 ^ nat (- num_expo n)))\<bar> \<le> 400"
proof (cases "num_mant n = 0")
  case False
  note b = finite_bounds [OF assms]
  define p where "p = num_mant n * 2 ^ nat (num_expo n)"
  define q where "q = (2::int) ^ nat (- num_expo n)"
  have pq: "0 < p" "0 < q" using b(1) False by (simp_all add: p_def q_def)
  have p: "p < 10 ^ n10" unfolding p_def by (rule finite_num_less [OF assms])
  have "q \<le> 2 ^ 1074" unfolding q_def using b(4) by (intro power_increasing) simp_all
  then have q: "q \<le> 10 ^ m10" by (rule order_trans [OF _ power_2_10(2)])
  have "- int m10 \<le> exp10 p q \<and> exp10 p q \<le> int n10"
  proof (cases "q \<le> p")
    case True
    have "p div q \<le> p div 1" by (rule zdiv_mono2) (use pq in auto)
    then have "p div q \<le> p" by simp
    moreover have "(10::int) ^ n10 < 10 ^ Suc n10" by simp
    ultimately have "p div q < 10 ^ Suc n10" using p by linarith
    moreover have "0 < p div q" using True pq by (simp add: pos_imp_zdiv_pos_iff)
    ultimately have "length (dec_digits (p div q)) \<le> Suc n10" "dec_digits (p div q) \<noteq> []"
      using dec_digits_le [of "p div q" n10] dec_digits_spec [of "p div q"] by auto
    with True show ?thesis by (cases "dec_digits (p div q)") (auto simp: exp10_def)
  next
    case False
    have "(10::int) ^ m10 \<le> p * 10 ^ m10" using pq(1) by simp
    with q have "q \<le> p * 10 ^ m10" by linarith
    from neg_exp10_ge [OF pq(1) this] neg_exp10_spec [of p q] False pq show ?thesis by (simp add: exp10_def)
  qed
  then have "\<bar>exp10 p q\<bar> \<le> 324" by (auto simp: n10_def m10_def abs_le_iff)
  then show ?thesis unfolding p_def [symmetric] q_def [symmetric] using pq
    by (auto simp: sci_digits_def Let_def)
qed (simp add: sci_digits_def)

lemma point_length: "length (point alt ip fp) \<le> Suc (length ip + length fp)"
  by (simp add: point_def)

lemma exponent_part_length: "\<bar>x\<bar> \<le> 400 \<Longrightarrow> length (exponent_part up x) \<le> 5"
  using digits_of_length [of "\<bar>x\<bar>" 2 2] by (auto simp: exponent_part_def)

lemma digits_of_exact: "0 \<le> d \<Longrightarrow> d < 10 ^ (P + 1) \<Longrightarrow> length (digits_of (P + 1) d) \<le> P + 1"
  using digits_of_length [of d P "P + 1"] by simp

lemma body_e_length:
  assumes "\<not> is_nan n" "\<not> is_inf n"
  shows "length (body_e up alt P (num_mant n * 2 ^ nat (num_expo n)) (2 ^ nat (- num_expo n))) \<le> P + 8"
proof -
  let ?p = "num_mant n * 2 ^ nat (num_expo n)" and ?q = "(2::int) ^ nat (- num_expo n)"
  obtain d x where dx: "sci_digits P ?p ?q = (d, x)" by fastforce
  have "length (digits_of (P + 1) d) \<le> P + 1"
    by (rule digits_of_exact) (use sci_digits_range [of ?p ?q P] finite_bounds [OF assms] dx in auto)
  moreover have "length (exponent_part up x) \<le> 5"
    by (rule exponent_part_length) (use sci_exponent_range [OF assms, of P] dx in simp)
  ultimately show ?thesis
    using point_length [of alt "take 1 (digits_of (P + 1) d)" "drop 1 (digits_of (P + 1) d)"]
    by (simp add: body_e_def dx Let_def)
qed

lemma strip_zeros_length: "length (strip_zeros s) \<le> length s"
  unfolding strip_zeros_def using length_dropWhile_le [of "\<lambda>c. c = CHR ''0''" "rev s"] by simp

lemma body_g_length:
  assumes "\<not> is_nan n" "\<not> is_inf n"
  shows "length (body_g up alt P0 (num_mant n * 2 ^ nat (num_expo n)) (2 ^ nat (- num_expo n))) \<le> P0 + 9"
proof -
  let ?p = "num_mant n * 2 ^ nat (num_expo n)" and ?q = "(2::int) ^ nat (- num_expo n)"
  define P where "P = (if P0 = 0 then 1 else P0)"
  obtain d x where dx: "sci_digits (P - 1) ?p ?q = (d, x)" by fastforce
  define strip where "strip = (\<lambda>fp. if alt then fp else strip_zeros fp)"
  have strip: "length (strip fp) \<le> length fp" for fp by (simp add: strip_def strip_zeros_length)
  have P: "P - 1 + 1 = P" by (simp add: P_def)
  have ds: "length (digits_of P d) \<le> P"
    using digits_of_exact [of d "P - 1"] sci_digits_range [of ?p ?q "P - 1"] finite_bounds [OF assms] dx P by auto
  have ex: "length (exponent_part up x) \<le> 5"
    by (rule exponent_part_length) (use sci_exponent_range [OF assms, of "P - 1"] dx in simp)
  let ?ds = "digits_of P d"
  have "length (point alt (take 1 ?ds) (strip (drop 1 ?ds)) @ exponent_part up x) \<le> P + 7"
    using point_length [of alt "take 1 ?ds" "strip (drop 1 ?ds)"] strip [of "drop 1 ?ds"] ds ex by simp
  moreover have "length (point alt ''0'' (strip (replicate (nat (- x - 1)) (CHR ''0'') @ ?ds))) \<le> P + 5" if "\<not> x < - 4"
    using point_length [of alt "''0''" "strip (replicate (nat (- x - 1)) (CHR ''0'') @ ?ds)"]
      strip [of "replicate (nat (- x - 1)) (CHR ''0'') @ ?ds"] ds that by simp
  moreover have "length (point alt (take k ?ds) (strip (drop k ?ds))) \<le> P + 1" for k
    using point_length [of alt "take k ?ds" "strip (drop k ?ds)"] strip [of "drop k ?ds"] ds
    by (cases "length ?ds \<le> k") auto
  note this [of "nat (x + 1)"]
  ultimately have "length (body_g up alt P0 ?p ?q) \<le> P + 8"
    unfolding body_g_def Let_def P_def [symmetric] dx prod.case strip_def [symmetric]
    by (auto simp: not_less)
  then show ?thesis by (simp add: P_def split: if_splits)
qed

lemma body_f_length:
  assumes "\<not> is_nan n" "\<not> is_inf n"
  shows "length (body_f alt P (num_mant n * 2 ^ nat (num_expo n)) (2 ^ nat (- num_expo n))) \<le> P + 311"
proof -
  define p where "p = num_mant n * 2 ^ nat (num_expo n)"
  define q where "q = (2::int) ^ nat (- num_expo n)"
  have pq: "0 \<le> p" "0 < q" "p < 10 ^ n10"
    using finite_bounds(1) [OF assms] finite_num_less [OF assms] by (simp_all add: p_def q_def)
  have "p * 10 ^ P < 10 ^ n10 * 10 ^ P" using pq(3) by simp
  also have "\<dots> = 1 * (10 ^ n10 * 10 ^ P)" by simp
  also have "\<dots> \<le> q * (10 ^ n10 * 10 ^ P)" using pq(2) by (intro mult_right_mono) auto
  finally have "0 \<le> round_div (p * 10 ^ P) q \<and> round_div (p * 10 ^ P) q \<le> 10 ^ n10 * 10 ^ P"
    using pq by (intro round_div_le) auto
  moreover have "(10::int) ^ n10 * 10 ^ P < 10 ^ Suc (n10 + P)" by (simp add: power_add)
  ultimately have "length (digits_of (P + 1) (round_div (p * 10 ^ P) q)) \<le> max (P + 1) (Suc (n10 + P))"
    by (intro digits_of_length) auto
  then have l: "length (digits_of (P + 1) (round_div (p * 10 ^ P) q)) \<le> P + 310" by (simp add: n10_def)
  have "length (point alt (take k ds) (drop k ds)) \<le> Suc (length ds)" for k ds
    using point_length [of alt "take k ds" "drop k ds"] by simp
  from this [of "length (digits_of (P + 1) (round_div (p * 10 ^ P) q)) - P" "digits_of (P + 1) (round_div (p * 10 ^ P) q)"] l
  show ?thesis unfolding p_def [symmetric] q_def [symmetric] by (simp add: body_f_def Let_def)
qed

lemma fmt_float_length:
  assumes "spec_ok f"
  shows "length (fmt_float f n) \<le> 411"
proof -
  have sp: "length (pad_field f z (sign_prefix f neg) body) \<le> 411" if "length body \<le> 410" for z neg body
    using that assms sign_prefix_length [of f neg] by (simp add: pad_field_length spec_ok_def)
  define P where "P = (case f_prec f of None \<Rightarrow> 6 | Some P \<Rightarrow> P)"
  have P: "P \<le> 99" using assms by (auto simp: P_def spec_ok_def split: option.splits)
  show ?thesis
  proof (cases "is_nan n \<or> is_inf n")
    case True
    then show ?thesis by (auto simp: fmt_float_def Let_def intro!: sp)
  next
    case False
    note fin = False [simplified]
    show ?thesis
      using False P body_f_length [of n "f_alt f" P] body_e_length [of n "f_conv f = CHR ''E'' \<or> f_conv f = CHR ''G''" "f_alt f" P]
        body_g_length [of n "f_conv f = CHR ''E'' \<or> f_conv f = CHR ''G''" "f_alt f" P]
      unfolding fmt_float_def Let_def P_def [symmetric] by (auto intro!: sp)
  qed
qed

subsection \<open>No overrun\<close>

lemma number2ulong_range: "0 \<le> number2ulong a \<and> number2ulong a < 18446744073709551616"
  using pos_mod_bound [of 18446744073709551616] by (auto simp: number2ulong_def uint64_def split: option.split)

lemma number2integer_range: "\<bar>lua_number2integer a\<bar> < 18446744073709551616"
  by (auto simp: lua_number2integer_def split: option.split)

lemma sprintf_int_length:
  assumes "\<And>f. parse_spec form = Some f \<Longrightarrow> spec_ok f" "\<bar>n\<bar> < 18446744073709551616" "sprintf form (PInt n) = Inr buff"
  shows "length buff \<le> 102"
proof -
  from assms(3) obtain f where f: "parse_spec form = Some f" by (auto simp: sprintf_def split: option.splits)
  note ok = assms(1) [OF f]
  from ok have w: "length (pad_field f False [] [c]) \<le> 102" for c by (simp add: pad_field_length spec_ok_def)
  from f assms(3) consider "\<exists>c. buff = pad_field f False [] [c]" | "buff = fmt_int f n" | "buff = fmt_unsigned f n"
    by (auto simp: sprintf_def split: if_splits)
  then show ?thesis
    using w fmt_int_length [OF ok assms(2)] fmt_unsigned_length [OF ok] assms(2) by cases auto
qed

text \<open>C36: The two fixed arrays of \<open>str_format\<close> are large enough. Whatever the format string is, \<open>form\<close>
holds the specification that \<open>scanformat\<close> copies and the length modifier that \<open>addintlen\<close> inserts,
and \<open>buff\<close> holds what \<open>sprintf\<close> writes for the item, with its terminator: a width and a precision
have at most two digits, a double has at most 309 digits before the point, and a string of 100
or more characters without a precision is not formatted.\<close>

theorem format_buffers_fit:
  assumes "scanformat s q = Inr (p, form)"
  shows "length form < MAX_FORMAT \<and> length (addintlen form) < MAX_FORMAT \<and>
    (case item_sprintf ar args arg form (chat s p) of Inr (Some buff) \<Rightarrow> length buff < MAX_ITEM | _ \<Rightarrow> True)"
proof (cases "item_sprintf ar args arg form (chat s p)")
  case (Inr r)
  have "length buff < MAX_ITEM" if r: "r = Some buff" for buff
  proof -
    let ?k = "chat s p"
    have spec: "spec_ok f" if "parse_spec form = Some f" for f by (rule scanformat_spec [OF assms that])
    have ispec: "spec_ok f" if "parse_spec (addintlen form) = Some f" "?k \<noteq> NUL" for f
      by (rule scanformat_spec_int [OF assms that])
    from Inr r consider n where "sprintf form (PInt (lua_number2int n)) = Inr buff" "?k = CHR ''c''"
      | n where "sprintf (addintlen form) (PInt (lua_number2integer n)) = Inr buff" "?k \<noteq> NUL"
      | n where "sprintf (addintlen form) (PInt (number2ulong n)) = Inr buff" "?k \<noteq> NUL"
      | n where "sprintf form (PNum n) = Inr buff"
      | str where "sprintf form (PStr str) = Inr buff" "?k = CHR ''s''" "strchr form (CHR ''.'') \<or> length str < 100"
      by (auto simp: item_sprintf_def Let_def bindE_Inr_iff luaL_error_def simp del: chat_nth split: if_splits)
    then show ?thesis
    proof cases
      case 1
      have "\<bar>lua_number2int n\<bar> < 18446744073709551616" by (auto simp: lua_number2int_def split: option.split)
      from sprintf_int_length [OF spec this 1(1)] show ?thesis by simp
    next
      case 2
      from sprintf_int_length [OF ispec number2integer_range 2(1)] 2(2) show ?thesis by simp
    next
      case 3
      have "\<bar>number2ulong n\<bar> < 18446744073709551616" using number2ulong_range [of n] by simp
      from sprintf_int_length [OF ispec this 3(1)] 3(2) show ?thesis by simp
    next
      case 4
      then obtain f where "parse_spec form = Some f" "buff = fmt_float f n" by (auto simp: sprintf_def split: option.splits if_splits)
      with fmt_float_length [OF spec, of f n] show ?thesis by simp
    next
      case 5
      then obtain f where f: "parse_spec form = Some f"
        and buff: "buff = pad_field f False [] (case f_prec f of None \<Rightarrow> cstr str | Some P \<Rightarrow> take P (cstr str))"
        by (auto simp: sprintf_def split: option.splits if_splits)
      have "CHR ''.'' \<in> set form \<Longrightarrow> f_prec f \<noteq> None" by (rule no_precision [OF assms f 5(2)])
      then have "f_prec f = None \<Longrightarrow> length str < 100"
        using 5(3) by (auto simp: strchr_def cstr_def dest: set_takeWhileD)
      moreover have "length (cstr str) \<le> length str" unfolding cstr_def by (rule length_takeWhile_le)
      ultimately show ?thesis
        using spec [OF f] buff by (auto simp: pad_field_length spec_ok_def split: option.splits)
    qed
  qed
  with Inr show ?thesis using scanformat_length [OF assms] by (auto split: option.split)
qed (use scanformat_length [OF assms] in simp)

lemma format_buffers_fit_witness:
  "case item_sprintf \<lparr>has_frame = True, ar_name = None, namewhat = []\<rparr> [TString ''%-99.99f|'', TNumber 18442240474082181119] 2
      ''%-99.99f'' (CHR ''f'') of Inr (Some buff) \<Rightarrow> length buff < MAX_ITEM | _ \<Rightarrow> True"
proof -
  have "scanformat ''%-99.99f|'' 1 = Inr (7, ''%-99.99f'')" by code_simp
  from format_buffers_fit [OF this, of "\<lparr>has_frame = True, ar_name = None, namewhat = []\<rparr>"
      "[TString ''%-99.99f|'', TNumber 18442240474082181119]" 2]
  show ?thesis by (simp add: chat_def)
qed

section \<open>What the conversions print\<close>

lemma neg_exp10_lower: "0 < p \<Longrightarrow> p < q \<Longrightarrow> q \<le> p * 10 ^ nat (- neg_exp10 p q)"
proof (induction p q rule: neg_exp10.induct)
  case (1 p q)
  then have eq: "neg_exp10 p q = neg_exp10 (10 * p) q - 1" by (simp add: neg_exp10.simps [of p q])
  show ?case
  proof (cases "10 * p < q")
    case True
    with 1 have "neg_exp10 (10 * p) q < 0" "q \<le> 10 * p * 10 ^ nat (- neg_exp10 (10 * p) q)"
      using neg_exp10_spec [of "10 * p" q] by simp_all
    moreover from this have "nat (- neg_exp10 p q) = Suc (nat (- neg_exp10 (10 * p) q))" by (simp add: eq)
    ultimately show ?thesis by (simp add: mult_ac)
  next
    case False
    then have "neg_exp10 p q = - 1" by (simp add: eq neg_exp10.simps [of "10 * p" q])
    with False show ?thesis by simp
  qed
qed

lemma exp10_lower:
  assumes "0 < p" "0 < q"
  shows "q * 10 ^ nat (exp10 p q) \<le> p * 10 ^ nat (- exp10 p q)"
proof (cases "q \<le> p")
  case True
  let ?l = "length (dec_digits (p div q))"
  have d: "0 < p div q" using True assms by (simp add: pos_imp_zdiv_pos_iff)
  then have l: "10 ^ (?l - 1) \<le> p div q" "dec_digits (p div q) \<noteq> []"
    using dec_digits_length dec_digits_spec [of "p div q"] by auto
  have "q * 10 ^ (?l - 1) \<le> q * (p div q)" using l(1) assms by (intro mult_left_mono) auto
  also have "\<dots> \<le> p" using pos_mod_sign [of q p] assms by (simp flip: minus_mod_eq_mult_div)
  finally have "q * 10 ^ (?l - 1) \<le> p" .
  moreover have "nat (int ?l - 1) = ?l - 1" "nat (1 - int ?l) = 0" using l(2) by (cases "dec_digits (p div q)"; simp)+
  ultimately show ?thesis using True by (simp add: exp10_def)
next
  case False
  with neg_exp10_lower [of p q] neg_exp10_spec [of p q] assms show ?thesis by (auto simp: exp10_def)
qed

lemma round_div_ge: "0 < b \<Longrightarrow> b * c \<le> a \<Longrightarrow> c \<le> round_div a b"
proof -
  assume "0 < b" "b * c \<le> a"
  then have "c \<le> a div b" using zdiv_mono1 [of "b * c" a b] by simp
  then show ?thesis by (auto simp: round_div_def Let_def)
qed

lemma sci_digits_lower:
  assumes "0 < p" "0 < q"
  shows "10 ^ P \<le> fst (sci_digits P p q)"
proof -
  define x where "x = exp10 p q"
  have l: "q * 10 ^ nat x \<le> p * 10 ^ nat (- x)" using exp10_lower [OF assms] by (simp add: x_def)
  have "q * 10 ^ nat (x - int P) * 10 ^ P \<le> p * 10 ^ nat (int P - x)"
  proof (cases "0 \<le> x")
    case True
    then have e: "nat (x - int P) + P = nat x + nat (int P - x)" by (cases "int P \<le> x") auto
    have "q * 10 ^ nat (x - int P) * 10 ^ P = q * 10 ^ (nat (x - int P) + P)" by (simp add: power_add)
    also have "\<dots> = q * 10 ^ nat x * 10 ^ nat (int P - x)" by (simp only: e power_add mult.assoc)
    also have "\<dots> \<le> p * 10 ^ nat (int P - x)" using l True by (intro mult_right_mono) auto
    finally show ?thesis .
  next
    case False
    then have "nat (int P - x) = nat (- x) + P" by simp
    then have "p * 10 ^ nat (int P - x) = p * 10 ^ nat (- x) * 10 ^ P" by (simp add: power_add)
    moreover have "q * 10 ^ P \<le> p * 10 ^ nat (- x) * 10 ^ P" using l False by (intro mult_right_mono) auto
    moreover have "nat (x - int P) = 0" using False by simp
    ultimately show ?thesis by (simp only: power_0 mult_1_right)
  qed
  then have "10 ^ P \<le> round_div (p * 10 ^ nat (int P - x)) (q * 10 ^ nat (x - int P))"
    using assms by (intro round_div_ge) auto
  then show ?thesis using assms by (auto simp: sci_digits_def Let_def x_def)
qed

lemma digits_of_2: "0 \<le> x \<Longrightarrow> digits_of 2 x = (if x < 10 then CHR ''0'' # dec_digits x else dec_digits x)"
proof (cases "x < 10")
  case False
  then have "dec_digits x = dec_digits (x div 10) @ [char_of (48 + x mod 10)]" by (simp add: dec_digits.simps [of x])
  moreover have "dec_digits (x div 10) \<noteq> []" using dec_digits_spec [of "x div 10"] False by simp
  ultimately show ?thesis using False by (cases "dec_digits (x div 10)") (auto simp: digits_of_def)
qed (simp add: digits_of_def dec_digits.simps)

lemma body_g_14:
  assumes "0 < p" "0 < q"
  shows "body_g False False 14 p q = fmt_14g p q"
proof -
  obtain d x where dx: "sci_digits 13 p q = (d, x)" by fastforce
  have "10 ^ 13 \<le> d" "d < 10 ^ 14" using sci_digits_lower [OF assms, of 13] sci_digits_range [of p q 13] assms dx by simp_all
  then have d: "0 < d" "(10::int) ^ 13 < 10 ^ length (dec_digits d)" using dec_digits_length [of d] by auto
  from d(2) have "13 < length (dec_digits d)" by (rule power_less_imp_less_exp [rotated]) simp
  then have ds: "digits_of 14 d = dec_digits d" by (simp add: digits_of_def)
  have wp: "point False ip (strip_zeros fp) = with_point ip fp" for ip fp by (simp add: point_def with_point_def Let_def)
  have dx': "(let d0 = round_div (p * 10 ^ nat (13 - exp10 p q)) (q * 10 ^ nat (exp10 p q - 13))
      in if d0 = 100000000000000 then (10000000000000, exp10 p q + 1) else (d0, exp10 p q)) = (d, x)"
    using dx assms by (auto simp: sci_digits_def Let_def split: if_splits)
  have "fmt_14g p q = (if x < -4 \<or> 14 \<le> x then
           with_point (take 1 (dec_digits d)) (drop 1 (dec_digits d)) @ CHR ''e'' # (if x < 0 then CHR ''-'' else CHR ''+'')
             # (if \<bar>x\<bar> < 10 then CHR ''0'' # dec_digits \<bar>x\<bar> else dec_digits \<bar>x\<bar>)
         else if x < 0 then with_point ''0'' (replicate (nat (- x - 1)) (CHR ''0'') @ dec_digits d)
         else with_point (take (nat (x + 1)) (dec_digits d)) (drop (nat (x + 1)) (dec_digits d)))"
    using dx' unfolding fmt_14g_def Let_def by (auto simp: split_beta)
  then show ?thesis
    by (simp add: body_g_def dx ds Let_def wp exponent_part_def digits_of_2)
qed

lemma dec_digits_no_NUL: "0 \<le> d \<Longrightarrow> NUL \<notin> set (dec_digits d)"
  using dec_digits_not_minus [of d NUL] by auto

lemma digits_of_no_NUL: "0 \<le> d \<Longrightarrow> NUL \<notin> set (digits_of m d)"
  using dec_digits_no_NUL [of d] by (auto simp: digits_of_def Let_def)

lemma fmt_14g_no_NUL:
  assumes "0 < p" "0 < q"
  shows "NUL \<notin> set (fmt_14g p q)"
proof -
  obtain d x where dx: "sci_digits 13 p q = (d, x)" by fastforce
  then have "0 \<le> d" using sci_digits_range [of p q 13] assms by simp
  then have ds: "NUL \<notin> set (digits_of 14 d)" by (rule digits_of_no_NUL)
  have st: "set (strip_zeros s) \<subseteq> set s" for s by (auto simp: strip_zeros_def dest: set_dropWhileD)
  have pt: "NUL \<notin> set (point a (take k (digits_of 14 d)) (strip_zeros (drop k (digits_of 14 d))))"
    "NUL \<notin> set (point a ''0'' (strip_zeros (replicate k (CHR ''0'') @ digits_of 14 d)))" for a k
    using ds st [of "drop k (digits_of 14 d)"] st [of "replicate k (CHR ''0'') @ digits_of 14 d"]
    by (auto simp: point_def dest: in_set_takeD in_set_dropD)
  have "NUL \<notin> set (exponent_part False x)" using digits_of_no_NUL [of "\<bar>x\<bar>" 2] by (simp add: exponent_part_def)
  with pt have "NUL \<notin> set (body_g False False 14 p q)" by (simp add: body_g_def dx Let_def)
  then show ?thesis by (simp add: body_g_14 assms)
qed

lemma base_digits_10: "0 \<le> n \<Longrightarrow> base_digits 10 up n = dec_digits n"
proof (induction n rule: dec_digits.induct)
  case (1 n)
  have "n mod 10 < 10" by simp
  with 1 show ?case
    by (cases "n < 10") (simp_all add: base_digits.simps [of 10 up n] dec_digits.simps [of n] digit_char_def)
qed

lemma format_single:
  assumes "scanformat s 1 = Inr (p, form)" "length s = p + 1" "chat s 0 = L_ESC" "chat s 1 \<noteq> L_ESC"
  shows "str_format ar [TString s, v] = bindE (format_item ar [TString s, v] 2 form (chat s p)) (\<lambda>x. Inr [TString x])"
proof -
  have "format_loop ar [TString s, v] s (p + 1) 2 = Inr []" using assms(2) by (simp add: format_loop.simps)
  then have "format_loop ar [TString s, v] s 0 1 = bindE (format_item ar [TString s, v] 2 form (chat s p)) (\<lambda>x. Inr x)"
    using assms by (subst format_loop.simps) (simp add: numeral_2_eq_2 del: chat_nth)
  then show ?thesis
    by (cases "format_item ar [TString s, v] 2 form (chat s p)") (simp_all add: str_format_def del: chat_nth)
qed

text \<open>\<open>string.format("%.14g", x)\<close> prints a number as \<open>tostring\<close> does, for every double: infinities,
NaN, zeros of both signs and subnormal numbers included.\<close>

theorem format_14g_tostring:
  "str_format ar [TString ''%.14g'', TNumber n] = Inr [TString (lua_number2str n)]"
proof -
  have sf: "scanformat ''%.14g'' 1 = Inr (4, ''%.14g'')" by code_simp
  have ps: "parse_spec ''%.14g'' = Some \<lparr>f_minus = False, f_plus = False, f_space = False, f_alt = False, f_zero = False,
      f_width = 0, f_prec = Some 14, f_conv = CHR ''g''\<rparr>" (is "_ = Some ?f") by code_simp
  have pad: "pad_field ?f z a b = a @ b" for z a b by (simp add: pad_field_def)
  have zs: "digits_of 14 0 = replicate 14 (CHR ''0'')" by (simp add: digits_of_def dec_digits.simps char_of_def replicate_append_same) (simp add: eval_nat_numeral)
  have "strip_zeros (drop 1 (replicate 14 (CHR ''0''))) = []" by (simp add: strip_zeros_def)
  then have zero: "body_g False False 14 0 q = ''0''" for q
    by (simp add: body_g_def sci_digits_def zs point_def)
  have mant: "num_mag n = 0 \<Longrightarrow> num_mant n = 0" by (simp add: num_mant_def)
  have pos: "0 < num_mant n" if "num_mag n \<noteq> 0"
    using that num_mag_range [of n] pos_mod_sign [of 4503599627370496 "num_mag n"] div_mult_mod_eq [of "num_mag n" 4503599627370496]
    by (auto simp: num_mant_def Let_def)
  have fl: "fmt_float ?f n = lua_number2str n"
    using pos mant
    by (auto simp: fmt_float_def lua_number2str_def Let_def pad sign_prefix_def zero body_g_14)
  have "0 < num_mant n * 2 ^ nat (num_expo n)" if "num_mag n \<noteq> 0" using pos [OF that] by simp
  then have nn: "NUL \<notin> set (lua_number2str n)"
    using fmt_14g_no_NUL by (auto simp: lua_number2str_def Let_def)
  show ?thesis
    using format_single [OF sf, of ar "TNumber n"]
    by (simp add: chat_def format_item_def item_sprintf_def luaL_checknumber_def arg_defs sprintf_def ps fl cstr_id nn)
qed

text \<open>\<open>string.format("%d", k)\<close> prints the decimal digits of an integer, with its sign.\<close>

theorem format_d_int:
  assumes "\<bar>k\<bar> < 9007199254740992"
  shows "str_format ar [TString ''%d'', pushinteger k] = Inr [TString (int2str k)]"
proof -
  have sf: "scanformat ''%d'' 1 = Inr (1, ''%d'')" by code_simp
  have ps: "parse_spec ''%ld'' = Some \<lparr>f_minus = False, f_plus = False, f_space = False, f_alt = False, f_zero = False,
      f_width = 0, f_prec = None, f_conv = CHR ''d''\<rparr>" (is "_ = Some ?f") by code_simp
  have ai: "addintlen ''%d'' = ''%ld''" by (simp add: addintlen_def)
  have "NUL \<notin> set (dec_digits \<bar>k\<bar>)" using dec_digits_not_minus [of "\<bar>k\<bar>" NUL] by auto
  then have c: "cstr (int2str k) = int2str k" by (intro cstr_id) (auto simp: int2str_def split: if_splits)
  have fi: "fmt_int ?f k = int2str k"
    by (simp add: fmt_int_def pad_field_def sign_prefix_def int_digits_def base_digits_10 int2str_def)
  show ?thesis
    using format_single [OF sf, of ar "pushinteger k"] assms lua_number2integer_cast_num [of k]
    by (simp add: chat_def format_item_def item_sprintf_def luaL_checknumber_def arg_defs sprintf_def ps fi ai c pushinteger_def)
qed

lemma format_d_int_witness:
  "str_format \<lparr>has_frame = True, ar_name = None, namewhat = []\<rparr> [TString ''%d'', pushinteger (- 42)] = Inr [TString (int2str (- 42))]"
  by (rule format_d_int) simp

text \<open>A format string that ends in a single escape makes the scan of the flags run past the end
of the string: the terminator is a member of every string for \<open>strchr\<close>.\<close>

theorem format_trailing_escape:
  "str_format ar (TString ''%'' # args) = Inl UNDEFINED"
proof -
  have "scan_flags ''%'' 1 = Inl UNDEFINED" by code_simp
  then show ?thesis by (simp add: str_format_def format_loop.simps chat_def scanformat_def)
qed

end
