(* ===== verification/LuaTablib.thy ===== *)
theory LuaTablib
  imports LuaTableApi LuaAux
begin

text \<open>
  The table library, ltablib.c. Its functions work on the table that is their first argument:
  the state is that table and the rest \<open>w\<close> of the interpreter, and calls of Lua functions may
  change both. The theorems give the arrays that insert, remove and concat leave, and show that
  sort sorts and ends when the comparison is an order.
\<close>

type_synonym 'w tstate = "lua_table \<times> 'w"

text \<open>\<open>lua_call\<close> with one result.\<close>

type_synonym 'w caller = "'w tstate \<Rightarrow> tvalue \<Rightarrow> tvalue list \<Rightarrow> ('w tstate \<times> tvalue) res"

section \<open>Access to the array\<close>

definition lua_rawgeti :: "'w tstate \<Rightarrow> int \<Rightarrow> tvalue" where
  "lua_rawgeti st n = read_slot (fst st) (luaH_getnum (fst st) n)"

definition lua_rawseti :: "'w tstate \<Rightarrow> int \<Rightarrow> tvalue \<Rightarrow> 'w tstate res" where
  "lua_rawseti st n v = bindE (luaH_setnum (fst st) n) (\<lambda>(t, s). Inr (slot_set t s v, snd st))"

text \<open>\<open>luaL_getn\<close> is \<open>lua_objlen\<close>, and \<open>luaL_setn\<close> does nothing.\<close>

definition aux_getn :: "lua_Debug \<Rightarrow> tvalue list \<Rightarrow> 'w tstate \<Rightarrow> int res" where
  "aux_getn ar args st =
     bindE (luaL_checktype ar args 1 5) (\<lambda>_.
       case luaH_getn (fst st) of Some n \<Rightarrow> Inr n | None \<Rightarrow> Inl NO_FUEL)"

section \<open>Traversals\<close>

fun foreachi_loop :: "'w caller \<Rightarrow> tvalue \<Rightarrow> 'w tstate \<Rightarrow> int list \<Rightarrow> ('w tstate \<times> tvalue list) res" where
  "foreachi_loop call f st [] = Inr (st, [])"
| "foreachi_loop call f st (i # is) =
     bindE (call st f [pushinteger i, lua_rawgeti st i]) (\<lambda>(st', r).
       if r \<noteq> TNil then Inr (st', [r]) else foreachi_loop call f st' is)"

definition foreachi :: "'w caller \<Rightarrow> lua_Debug \<Rightarrow> tvalue list \<Rightarrow> 'w tstate \<Rightarrow> ('w tstate \<times> tvalue list) res" where
  "foreachi call ar args st =
     bindE (aux_getn ar args st) (\<lambda>n.
     bindE (luaL_checktype ar args 2 6) (\<lambda>_.
       foreachi_loop call (arg_value args 2) st [1..n]))"

text \<open>A function that adds keys may make the traversal endless, so it is bounded by fuel.\<close>

fun foreach_loop :: "'w caller \<Rightarrow> tvalue \<Rightarrow> nat \<Rightarrow> 'w tstate \<Rightarrow> tvalue \<Rightarrow> ('w tstate \<times> tvalue list) res" where
  "foreach_loop call f 0 st k = Inl NO_FUEL"
| "foreach_loop call f (Suc fuel) st k =
     bindE (luaH_next (fst st) k) (\<lambda>r.
       case r of
         None \<Rightarrow> Inr (st, [])
       | Some (key, val) \<Rightarrow>
           bindE (call st f [key, val]) (\<lambda>(st', r).
             if r \<noteq> TNil then Inr (st', [r]) else foreach_loop call f fuel st' key))"

definition foreach :: "'w caller \<Rightarrow> nat \<Rightarrow> lua_Debug \<Rightarrow> tvalue list \<Rightarrow> 'w tstate \<Rightarrow> ('w tstate \<times> tvalue list) res" where
  "foreach call fuel ar args st =
     bindE (luaL_checktype ar args 1 5) (\<lambda>_.
     bindE (luaL_checktype ar args 2 6) (\<lambda>_.
       foreach_loop call (arg_value args 2) fuel st TNil))"

fun maxn_loop :: "nat \<Rightarrow> lua_table \<Rightarrow> tvalue \<Rightarrow> lua_Number \<Rightarrow> lua_Number res" where
  "maxn_loop 0 t k mx = Inl NO_FUEL"
| "maxn_loop (Suc fuel) t k mx =
     bindE (luaH_next t k) (\<lambda>r.
       case r of
         None \<Rightarrow> Inr mx
       | Some (key, val) \<Rightarrow>
           maxn_loop fuel t key (case key of TNumber v \<Rightarrow> if luai_numlt mx v then v else mx | _ \<Rightarrow> mx))"

text \<open>A traversal returns each entry once: one step more than there are places is enough.\<close>

definition maxn :: "lua_Debug \<Rightarrow> tvalue list \<Rightarrow> lua_table \<Rightarrow> tvalue list res" where
  "maxn ar args t =
     bindE (luaL_checktype ar args 1 5) (\<lambda>_.
     bindE (maxn_loop (Suc (length (array t) + length (node t))) t TNil (cast_num 0)) (\<lambda>m. Inr [TNumber m]))"

definition getn :: "lua_Debug \<Rightarrow> tvalue list \<Rightarrow> 'w tstate \<Rightarrow> tvalue list res" where
  "getn ar args st = bindE (aux_getn ar args st) (\<lambda>n. Inr [pushinteger n])"

definition setn :: "lua_Debug \<Rightarrow> tvalue list \<Rightarrow> tvalue list res" where
  "setn ar args =
     bindE (luaL_checktype ar args 1 5) (\<lambda>_. luaL_error (LUA_QL ''setn'' @ '' is obsolete''))"

section \<open>Insertion, removal, concatenation\<close>

text \<open>\<open>t[i] = t[i-1]\<close> and \<open>t[pos] = t[pos+1]\<close>\<close>

definition move_up :: "'w tstate \<Rightarrow> int \<Rightarrow> 'w tstate res" where
  "move_up st i = lua_rawseti st i (lua_rawgeti st (i - 1))"

definition move_down :: "'w tstate \<Rightarrow> int \<Rightarrow> 'w tstate res" where
  "move_down st pos = lua_rawseti st pos (lua_rawgeti st (pos + 1))"

definition tinsert :: "lua_Debug \<Rightarrow> tvalue list \<Rightarrow> 'w tstate \<Rightarrow> 'w tstate res" where
  "tinsert ar args st =
     bindE (aux_getn ar args st) (\<lambda>n.
       let e = n + 1
       in if length args = 2 then lua_rawseti st e (arg_value args 2)
          else if length args = 3 then
            bindE (luaL_checkint ar args 2) (\<lambda>pos.
              let e' = (if e < pos then pos else e)
              in bindE (foldE move_up st (rev [pos + 1..e'])) (\<lambda>st'.
                   lua_rawseti st' pos (arg_value args 3)))
          else luaL_error (''wrong number of arguments to '' @ LUA_QL ''insert''))"

definition tremove :: "lua_Debug \<Rightarrow> tvalue list \<Rightarrow> 'w tstate \<Rightarrow> ('w tstate \<times> tvalue list) res" where
  "tremove ar args st =
     bindE (aux_getn ar args st) (\<lambda>e.
     bindE (luaL_optint ar args 2 e) (\<lambda>pos.
       if e = 0 then Inr (st, [])
       else bindE (foldE move_down st [pos..e - 1]) (\<lambda>st'.
            bindE (lua_rawseti st' e TNil) (\<lambda>st''. Inr (st'', [lua_rawgeti st pos])))))"

fun concat_loop :: "lua_Debug \<Rightarrow> string \<Rightarrow> int \<Rightarrow> 'w tstate \<Rightarrow> int list \<Rightarrow> string res" where
  "concat_loop ar sep lst st [] = Inr []"
| "concat_loop ar sep lst st (i # is) =
     (let v = lua_rawgeti st i
      in bindE (luaL_argcheck ar (lua_isstring [v] 1) 1 ''table contains non-strings'') (\<lambda>_.
         bindE (concat_loop ar sep lst st is) (\<lambda>b.
           Inr ((case tolstring v of Some s \<Rightarrow> s | None \<Rightarrow> []) @ (if i \<noteq> lst then sep else []) @ b))))"

definition tconcat :: "lua_Debug \<Rightarrow> tvalue list \<Rightarrow> 'w tstate \<Rightarrow> tvalue list res" where
  "tconcat ar args st =
     bindE (luaL_optlstring ar args 2 []) (\<lambda>sep.
     bindE (luaL_checktype ar args 1 5) (\<lambda>_.
     bindE (luaL_optint ar args 3 1) (\<lambda>i.
     bindE (if lua_isnoneornil args 4 then aux_getn ar args st else luaL_checkint ar args 4) (\<lambda>lst.
     bindE (concat_loop ar sep lst st [i..lst]) (\<lambda>b. Inr [TString b])))))"

section \<open>Sorting\<close>

text \<open>\<open>set2\<close>: \<open>v\<close> is on the top of the stack and \<open>v'\<close> below it.\<close>

definition set2 :: "'w tstate \<Rightarrow> int \<Rightarrow> int \<Rightarrow> tvalue \<Rightarrow> tvalue \<Rightarrow> 'w tstate res" where
  "set2 st i j v v' = bindE (lua_rawseti st i v) (\<lambda>st'. lua_rawseti st' j v')"

text \<open>The comparison of two values, which may call a Lua function or a metamethod.\<close>

type_synonym 'w comparer = "'w tstate \<Rightarrow> tvalue \<Rightarrow> tvalue \<Rightarrow> ('w tstate \<times> bool) res"

definition sort_comp :: "'w caller \<Rightarrow> 'w comparer \<Rightarrow> tvalue \<Rightarrow> 'w comparer" where
  "sort_comp call lessthan f st a b =
     (if f \<noteq> TNil then bindE (call st f [a, b]) (\<lambda>(st', r). Inr (st', \<not> l_isfalse r))
      else lessthan st a b)"

text \<open>The statements before the partition: \<open>a[l]\<close> and \<open>a[u]\<close>, then \<open>a[i]\<close> between them.\<close>

definition order_ends :: "'w comparer \<Rightarrow> 'w tstate \<Rightarrow> int \<Rightarrow> int \<Rightarrow> 'w tstate res" where
  "order_ends cmp st l u =
     (let al = lua_rawgeti st l; au = lua_rawgeti st u
      in bindE (cmp st au al) (\<lambda>(st', b). if b then set2 st' l u au al else Inr st'))"

definition order_middle :: "'w comparer \<Rightarrow> 'w tstate \<Rightarrow> int \<Rightarrow> int \<Rightarrow> int \<Rightarrow> 'w tstate res" where
  "order_middle cmp st l i u =
     (let ai = lua_rawgeti st i; al = lua_rawgeti st l
      in bindE (cmp st ai al) (\<lambda>(st', b).
           if b then set2 st' i l al ai
           else let au = lua_rawgeti st' u
                in bindE (cmp st' au ai) (\<lambda>(st'', b'). if b' then set2 st'' i u au ai else Inr st'')))"

function scan_up :: "'w comparer \<Rightarrow> 'w tstate \<Rightarrow> tvalue \<Rightarrow> int \<Rightarrow> int \<Rightarrow> ('w tstate \<times> int \<times> tvalue) res" where
  "scan_up cmp st P i u =
     (let ai = lua_rawgeti st i
      in bindE (cmp st ai P) (\<lambda>(st', b).
           if b then (if u < i then luaL_error ''invalid order function for sorting''
                      else scan_up cmp st' P (i + 1) u)
           else Inr (st', i, ai)))"
  by pat_completeness auto
termination by (relation "measure (\<lambda>(cmp, st, P, i, u). nat (u + 1 - i))") auto

function scan_down :: "'w comparer \<Rightarrow> 'w tstate \<Rightarrow> tvalue \<Rightarrow> int \<Rightarrow> int \<Rightarrow> ('w tstate \<times> int \<times> tvalue) res" where
  "scan_down cmp st P j l =
     (let aj = lua_rawgeti st j
      in bindE (cmp st P aj) (\<lambda>(st', b).
           if b then (if j < l then luaL_error ''invalid order function for sorting''
                      else scan_down cmp st' P (j - 1) l)
           else Inr (st', j, aj)))"
  by pat_completeness auto
termination by (relation "measure (\<lambda>(cmp, st, P, j, l). nat (j + 1 - l))") auto

declare scan_up.simps [simp del] scan_down.simps [simp del]

lemma scan_up_ge: "scan_up cmp st P i u = Inr (st', i', v) \<Longrightarrow> i \<le> i'"
proof (induction cmp st P i u rule: scan_up.induct)
  case (1 cmp st P i u)
  from 1(2) obtain st1 b where c: "cmp st (lua_rawgeti st i) P = Inr (st1, b)"
    by (subst (asm) scan_up.simps) (auto simp: Let_def bindE_Inr_iff)
  show ?case
  proof (cases b)
    case True
    with 1(2) c have r: "\<not> u < i" "scan_up cmp st1 P (i + 1) u = Inr (st', i', v)"
      by (simp_all add: scan_up.simps [of cmp st P i u] luaL_error_def split: if_splits)
    from 1(1) [OF refl c refl True r] show ?thesis by simp
  next
    case False
    with 1(2) c show ?thesis by (simp add: scan_up.simps [of cmp st P i u])
  qed
qed

lemma scan_down_le: "scan_down cmp st P j l = Inr (st', j', v) \<Longrightarrow> j' \<le> j"
proof (induction cmp st P j l rule: scan_down.induct)
  case (1 cmp st P j l)
  from 1(2) obtain st1 b where c: "cmp st P (lua_rawgeti st j) = Inr (st1, b)"
    by (subst (asm) scan_down.simps) (auto simp: Let_def bindE_Inr_iff)
  show ?case
  proof (cases b)
    case True
    with 1(2) c have r: "\<not> j < l" "scan_down cmp st1 P (j - 1) l = Inr (st', j', v)"
      by (simp_all add: scan_down.simps [of cmp st P j l] luaL_error_def split: if_splits)
    from 1(1) [OF refl c refl True r] show ?thesis by simp
  next
    case False
    with 1(2) c show ?thesis by (simp add: scan_down.simps [of cmp st P j l])
  qed
qed

text \<open>The loop \<open>for (;;)\<close>; it returns the final \<open>i\<close>.\<close>

function partition_loop :: "'w comparer \<Rightarrow> 'w tstate \<Rightarrow> tvalue \<Rightarrow> int \<Rightarrow> int \<Rightarrow> int \<Rightarrow> int \<Rightarrow> ('w tstate \<times> int) res" where
  "partition_loop cmp st P l u i j =
     bindE (scan_up cmp st P (i + 1) u) (\<lambda>(st1, i', ai).
     bindE (scan_down cmp st1 P (j - 1) l) (\<lambda>(st2, j', aj).
       if j' < i' then Inr (st2, i')
       else bindE (set2 st2 i' j' aj ai) (\<lambda>st3. partition_loop cmp st3 P l u i' j')))"
  by pat_completeness auto
termination
  by (relation "measure (\<lambda>(cmp, st, P, l, u, i, j). nat (j - i + 1))")
     (auto dest!: scan_up_ge scan_down_le)

declare partition_loop.simps [simp del]

text \<open>
  \<open>auxsort\<close>, the smaller half by a recursive call and the larger one by the next turn of the
  loop. A comparison that is no order can make it run forever, so it is bounded by fuel.
\<close>

fun auxsort :: "'w comparer \<Rightarrow> nat \<Rightarrow> 'w tstate \<Rightarrow> int \<Rightarrow> int \<Rightarrow> 'w tstate res" where
  "auxsort cmp 0 st l u = Inl NO_FUEL"
| "auxsort cmp (Suc fuel) st l u =
     (if l < u then
        bindE (order_ends cmp st l u) (\<lambda>st1.
          if u - l = 1 then Inr st1
          else let i = (l + u) div 2
               in bindE (order_middle cmp st1 l i u) (\<lambda>st2.
                    if u - l = 2 then Inr st2
                    else let P = lua_rawgeti st2 i
                         in bindE (set2 st2 i (u - 1) (lua_rawgeti st2 (u - 1)) P) (\<lambda>st3.
                            bindE (partition_loop cmp st3 P l u l (u - 1)) (\<lambda>(st4, i).
                            bindE (set2 st4 (u - 1) i (lua_rawgeti st4 i) (lua_rawgeti st4 (u - 1))) (\<lambda>st5.
                              if i - l < u - i then
                                bindE (auxsort cmp fuel st5 l (i - 1)) (\<lambda>st6. auxsort cmp fuel st6 (i + 1) u)
                              else
                                bindE (auxsort cmp fuel st5 (i + 1) u) (\<lambda>st6. auxsort cmp fuel st6 l (i - 1)))))))
      else Inr st)"

definition sort_tab :: "'w caller \<Rightarrow> 'w comparer \<Rightarrow> nat \<Rightarrow> lua_Debug \<Rightarrow> tvalue list \<Rightarrow> 'w tstate \<Rightarrow> 'w tstate res" where
  "sort_tab call lessthan fuel ar args st =
     bindE (aux_getn ar args st) (\<lambda>n.
     bindE (luaL_checkstack (int (length args)) 40 []) (\<lambda>_.
     bindE (if lua_isnoneornil args 2 then Inr () else luaL_checktype ar args 2 6) (\<lambda>_.
       auxsort (sort_comp call lessthan (arg_value args 2)) fuel st 1 n)))"

section \<open>The contract of an array\<close>

text \<open>
  What the library needs of the access functions: an assignment changes one integer index and
  leaves the rest, and it does not fail where there is a value already.
\<close>

definition int_key :: "int \<Rightarrow> bool" where "int_key i \<longleftrightarrow> INT_MIN \<le> i \<and> i \<le> INT_MAX"

locale lua_array =
  fixes ok :: "'s \<Rightarrow> bool" and get :: "'s \<Rightarrow> int \<Rightarrow> tvalue" and put :: "'s \<Rightarrow> int \<Rightarrow> tvalue \<Rightarrow> 's res"
    and rest :: "'s \<Rightarrow> 'r"
  assumes put_get: "ok st \<Longrightarrow> int_key i \<Longrightarrow> put st i v = Inr st' \<Longrightarrow>
      ok st' \<and> rest st' = rest st \<and> (\<forall>j. int_key j \<longrightarrow> get st' j = (if j = i then v else get st j))"
    and put_total: "ok st \<Longrightarrow> int_key i \<Longrightarrow> get st i \<noteq> TNil \<Longrightarrow> \<exists>st'. put st i v = Inr st'"
begin

text \<open>The state holds the values of \<open>f\<close>.\<close>

definition holds :: "'r \<Rightarrow> (int \<Rightarrow> tvalue) \<Rightarrow> 's \<Rightarrow> bool" where
  "holds r f st \<longleftrightarrow> ok st \<and> rest st = r \<and> (\<forall>j. int_key j \<longrightarrow> get st j = f j)"

lemma holds_get: "holds r f st \<Longrightarrow> int_key j \<Longrightarrow> get st j = f j"
  by (simp add: holds_def)

lemma holds_put: "holds r f st \<Longrightarrow> int_key i \<Longrightarrow> put st i v = Inr st' \<Longrightarrow> holds r (f(i := v)) st'"
  using put_get by (auto simp: holds_def)

lemma holds_put_total:
  assumes "holds r f st" "int_key i" "f i \<noteq> TNil"
  obtains st' where "put st i v = Inr st'" "holds r (f(i := v)) st'"
  using put_total [of st i v] holds_put [OF assms(1,2)] assms by (auto simp: holds_def)

lemma holds_put2:
  assumes "holds r f st" "int_key i" "int_key j" "f i \<noteq> TNil" "f j \<noteq> TNil" "v \<noteq> TNil"
  obtains st' where "bindE (put st i v) (\<lambda>st'. put st' j v') = Inr st'" "holds r (f(i := v, j := v')) st'"
proof -
  obtain st1 where s1: "put st i v = Inr st1" "holds r (f(i := v)) st1"
    by (rule holds_put_total [OF assms(1,2,4)])
  have "(f(i := v)) j \<noteq> TNil" using assms by simp
  from holds_put_total [OF s1(2) assms(3) this] obtain st2 where "put st1 j v' = Inr st2" "holds r (f(i := v, j := v')) st2" by blast
  with s1(1) that show thesis by simp
qed

text \<open>The loops that shift the elements by one.\<close>

lemma shift_up:
  assumes "holds r f st" "foldE (\<lambda>st i. put st i (get st (i - 1))) st (rev [pos + 1..e]) = Inr st'"
    and "int_key pos" "int_key e"
  shows "holds r (\<lambda>j. if pos < j \<and> j \<le> e then f (j - 1) else f j) st'"
  using assms(1,2,4)
proof (induction "nat (e - pos)" arbitrary: e f st)
  case 0
  then have "(\<lambda>j. if pos < j \<and> j \<le> e then f (j - 1) else f j) = f" "[pos + 1..e] = []" by (auto simp: fun_eq_iff)
  with 0 show ?case by simp
next
  case (Suc n)
  then have e: "pos < e" "[pos + 1..e] = [pos + 1..e - 1] @ [e]" using upto_rec2 [of "pos + 1" e] by simp_all
  from Suc(4) obtain st1 where s: "put st e (get st (e - 1)) = Inr st1"
    "foldE (\<lambda>st i. put st i (get st (i - 1))) st1 (rev [pos + 1..e - 1]) = Inr st'"
    by (auto simp: e(2) bindE_Inr_iff)
  have k: "int_key (e - 1)" using Suc(5) assms(3) e(1) by (simp add: int_key_def)
  have h: "holds r (f(e := f (e - 1))) st1"
    using holds_put [OF Suc(3) Suc(5) s(1)] holds_get [OF Suc(3) k] by simp
  have "n = nat (e - 1 - pos)" using Suc(2) by simp
  from Suc(1) [OF this h s(2) k]
  show ?case by (rule back_subst [where P = "\<lambda>g. holds r g st'"]) (use e(1) in \<open>auto simp: fun_eq_iff\<close>)
qed

lemma shift_down:
  assumes "holds r f st" "foldE (\<lambda>st i. put st i (get st (i + 1))) st [pos..e - 1] = Inr st'"
    and "int_key pos" "int_key e"
  shows "holds r (\<lambda>j. if pos \<le> j \<and> j < e then f (j + 1) else f j) st'"
  using assms(1,2,3)
proof (induction "nat (e - pos)" arbitrary: pos f st)
  case 0
  then have "(\<lambda>j. if pos \<le> j \<and> j < e then f (j + 1) else f j) = f" "[pos..e - 1] = []" by (auto simp: fun_eq_iff)
  with 0 show ?case by simp
next
  case (Suc n)
  then have e: "pos < e" "[pos..e - 1] = pos # [pos + 1..e - 1]" using upto_rec1 [of pos "e - 1"] by simp_all
  from Suc(4) obtain st1 where s: "put st pos (get st (pos + 1)) = Inr st1"
    "foldE (\<lambda>st i. put st i (get st (i + 1))) st1 [pos + 1..e - 1] = Inr st'"
    by (auto simp: e(2) bindE_Inr_iff)
  have k: "int_key (pos + 1)" using Suc(5) assms(4) e(1) by (simp add: int_key_def)
  have h: "holds r (f(pos := f (pos + 1))) st1"
    using holds_put [OF Suc(3) Suc(5) s(1)] holds_get [OF Suc(3) k] by simp
  have "n = nat (e - (pos + 1))" using Suc(2) by simp
  from Suc(1) [OF this h s(2) k]
  show ?case by (rule back_subst [where P = "\<lambda>g. holds r g st'"]) (use e(1) in \<open>auto simp: fun_eq_iff\<close>)
qed

lemma shift_down_total:
  assumes "holds r f st" "int_key pos" "int_key e" "\<And>j. pos \<le> j \<Longrightarrow> j < e \<Longrightarrow> f j \<noteq> TNil"
  shows "\<exists>st'. foldE (\<lambda>st i. put st i (get st (i + 1))) st [pos..e - 1] = Inr st'"
  using assms(1,2,4)
proof (induction "nat (e - pos)" arbitrary: pos f st)
  case (Suc n)
  then have e: "pos < e" "[pos..e - 1] = pos # [pos + 1..e - 1]" using upto_rec1 [of pos "e - 1"] by simp_all
  obtain st1 where s: "put st pos (get st (pos + 1)) = Inr st1" "holds r (f(pos := get st (pos + 1))) st1"
    by (rule holds_put_total [OF Suc(3,4) Suc(5) [OF order_refl e(1)]])
  have k: "int_key (pos + 1)" using Suc(4) assms(3) e(1) by (simp add: int_key_def)
  have "n = nat (e - (pos + 1))" using Suc(2) by simp
  from Suc(1) [OF this s(2) k] Suc(5) e(1) s(1) show ?case by (simp add: e(2))
qed simp

end

text \<open>The keys of a table that are no \<open>int\<close>.\<close>

definition other_keys :: "lua_table \<Rightarrow> tvalue \<Rightarrow> tvalue" where
  "other_keys t k = (if valid_key k \<and> (\<forall>i. int_key i \<longrightarrow> \<not> luaO_rawequalObj (TNumber (cast_num i)) k) then tget t k else TNil)"

lemma int_key_eq:
  "int_key i \<Longrightarrow> int_key j \<Longrightarrow> luaO_rawequalObj (TNumber (cast_num i)) (TNumber (cast_num j)) \<longleftrightarrow> i = j"
  using luai_num_cast_num [of i j] by (auto simp: int_key_def rawequal_cases)

lemma rawgeti_tget: "int_key i \<Longrightarrow> lua_rawgeti st i = tget (fst st) (TNumber (cast_num i))"
  by (simp add: lua_rawgeti_def tget_def cast_num_key int_key_def)

lemma luaH_setnum_cases:
  assumes "table_ok t" "int_key i"
  shows "overflow t (luaH_setnum t i) \<or> (\<exists>r. luaH_setnum t i = Inr r \<and> set_ok t (TNumber (cast_num i)) r)"
proof -
  note k = cast_num_key [of i, folded int_key_def]
  have v: "valid_key (TNumber (cast_num i))" and g: "luaH_get t (TNumber (cast_num i)) = luaH_getnum t i"
    using assms(2) cast_num_key by (simp_all add: int_key_def)
  show ?thesis
  proof (cases "luaH_getnum t i")
    case (Some s)
    then have "slot_of t (TNumber (cast_num i)) s" using assms v g by (simp add: slot_of_def table_ok_def)
    from slotted_set_ok [OF assms(1) found_slotted [OF this]] Some
    show ?thesis by (simp add: luaH_setnum_def luaH_setnum_with_def)
  next
    case None
    with newkey_spec [OF assms(1) v, of 0] g show ?thesis by (simp add: luaH_setnum_def luaH_setnum_with_def)
  qed
qed

lemma tget_not_nil: "tget t k \<noteq> TNil \<Longrightarrow> \<exists>s. luaH_get t k = Some s"
  by (cases "luaH_get t k") (auto simp: tget_def read_slot_def)

interpretation arr: lua_array "\<lambda>st. table_ok (fst st)" lua_rawgeti lua_rawseti "\<lambda>st. (snd st, other_keys (fst st))"
proof
  fix st st' :: "lua_table \<times> 'a" and i v
  assume t: "table_ok (fst st)" and i: "int_key i"
  have vk: "int_key j \<Longrightarrow> valid_key (TNumber (cast_num j))" for j using cast_num_key(2) by (simp add: int_key_def)
  {
    assume "lua_rawseti st i v = Inr st'"
    then obtain r where r: "luaH_setnum (fst st) i = Inr r" "st' = (slot_set (fst r) (snd r) v, snd st)"
      by (auto simp: lua_rawseti_def bindE_Inr_iff)
    with luaH_setnum_cases [OF t i] have "set_ok (fst st) (TNumber (cast_num i)) r" by (auto simp: overflow_def)
    then show "table_ok (fst st') \<and> (snd st', other_keys (fst st')) = (snd st, other_keys (fst st)) \<and>
        (\<forall>j. int_key j \<longrightarrow> lua_rawgeti st' j = (if j = i then v else lua_rawgeti st j))"
      using r(2) i vk int_key_eq [OF i] by (auto simp: set_ok_def rawgeti_tget other_keys_def fun_eq_iff)
  next
    assume "lua_rawgeti st i \<noteq> TNil"
    then obtain s where "luaH_getnum (fst st) i = Some s" by (auto simp: lua_rawgeti_def read_slot_def split: option.splits)
    then show "\<exists>st'. lua_rawseti st i v = Inr st'" by (simp add: lua_rawseti_def luaH_setnum_def luaH_setnum_with_def)
  }
qed

section \<open>insert, remove and concat\<close>

lemma arr_holds: "table_ok (fst st) \<Longrightarrow> arr.holds (snd st, other_keys (fst st)) (lua_rawgeti st) st"
  by (simp add: arr.holds_def)

lemma aux_getn_eq:
  assumes "table_ok t" "lua_type args 1 = 5"
  obtains n where "aux_getn ar args (t, w) = Inr n" "0 \<le> n" "n \<le> MAX_INT"
    "n = 0 \<or> lua_rawgeti (t, w) n \<noteq> TNil" "lua_rawgeti (t, w) (n + 1) = TNil"
proof -
  from luaH_getn_spec [OF assms(1)] obtain n where
    n: "luaH_getn t = Some n" "n \<le> MAX_INT" "is_boundary (nil_at t) n" by blast
  then have "0 \<le> n" "n = 0 \<or> lua_rawgeti (t, w) n \<noteq> TNil" "lua_rawgeti (t, w) (n + 1) = TNil"
    by (auto simp: is_boundary_def nil_at_def ttisnil_def lua_rawgeti_def)
  with n assms(2) show thesis by (intro that [of n]) (simp_all add: aux_getn_def luaL_checktype_def)
qed

lemma call_insert:
  assumes "int_key pos"
  shows "luaL_checkint ar [TTable a, pushinteger pos, v] 2 = Inr pos" "lua_type [TTable a, pushinteger pos, v] 1 = 5"
    "arg_value [TTable a, pushinteger pos, v] 3 = v"
  using assms by (simp_all add: checkint_int pushinteger_def int_key_def lua_type_def index2adr_def arg_value_def)

text \<open>\<open>table.insert(t, pos, v)\<close> moves the elements from \<open>pos\<close> on up by one, stores \<open>v\<close> at \<open>pos\<close>, and
leaves every other key of the table and the rest of the state as they were.\<close>

theorem tinsert_shifts:
  assumes "table_ok t" "int_key pos"
    and "tinsert ar [TTable a, pushinteger pos, v] (t, w) = Inr (t', w')"
  shows "table_ok t' \<and> w' = w \<and> other_keys t' = other_keys t \<and>
    (\<exists>n. luaH_getn t = Some n \<and> (\<forall>j. int_key j \<longrightarrow> lua_rawgeti (t', w') j =
      (if j = pos then v else if pos < j \<and> j \<le> n + 1 then lua_rawgeti (t, w) (j - 1) else lua_rawgeti (t, w) j)))"
proof -
  obtain n where n: "aux_getn ar [TTable a, pushinteger pos, v] (t, w) = Inr n" "0 \<le> n" "n \<le> MAX_INT"
    by (rule aux_getn_eq [OF assms(1) call_insert(2) [OF assms(2)]])
  then have g: "luaH_getn t = Some n" using call_insert(2) [OF assms(2)]
    by (simp add: aux_getn_def luaL_checktype_def split: option.splits)
  define e where "e = (if n + 1 < pos then pos else n + 1)"
  have e: "int_key e" using n assms(2) by (simp add: e_def int_key_def MAX_INT_def)
  from assms(3) obtain st1 where s: "foldE move_up (t, w) (rev [pos + 1..e]) = Inr st1" "lua_rawseti st1 pos v = Inr (t', w')"
    by (auto simp: tinsert_def n call_insert [OF assms(2)] e_def [symmetric] bindE_Inr_iff Let_def)
  have h0: "arr.holds (w, other_keys t) (lua_rawgeti (t, w)) (t, w)" using arr_holds [of "(t, w)"] assms(1) by simp
  have "foldE (\<lambda>st i. lua_rawseti st i (lua_rawgeti st (i - 1))) (t, w) (rev [pos + 1..e]) = Inr st1"
    using s(1) by (simp add: move_up_def [abs_def])
  from arr.shift_up [OF h0 this assms(2) e]
  have "arr.holds (w, other_keys t) (\<lambda>j. if pos < j \<and> j \<le> e then lua_rawgeti (t, w) (j - 1) else lua_rawgeti (t, w) j) st1" .
  from arr.holds_put [OF this assms(2) s(2)]
  have "arr.holds (w, other_keys t) ((\<lambda>j. if pos < j \<and> j \<le> e then lua_rawgeti (t, w) (j - 1) else lua_rawgeti (t, w) j)(pos := v)) (t', w')" .
  then show ?thesis using g by (auto simp: arr.holds_def e_def)
qed

text \<open>The array of a table is a sequence of length \<open>n\<close>.\<close>

definition is_seq :: "'w tstate \<Rightarrow> int \<Rightarrow> bool" where
  "is_seq st n \<longleftrightarrow> 0 \<le> n \<and> n \<le> MAX_INT \<and> (\<forall>j. int_key j \<longrightarrow> 1 \<le> j \<longrightarrow> (lua_rawgeti st j \<noteq> TNil \<longleftrightarrow> j \<le> n))"

lemma aux_getn_seq:
  assumes "table_ok t" "lua_type args 1 = 5" "is_seq (t, w) n"
  shows "aux_getn ar args (t, w) = Inr n" "luaH_getn t = Some n"
proof -
  from aux_getn_eq [OF assms(1,2), of ar w] obtain m where
    m: "aux_getn ar args (t, w) = Inr m" "0 \<le> m" "m \<le> MAX_INT"
      "m = 0 \<or> lua_rawgeti (t, w) m \<noteq> TNil" "lua_rawgeti (t, w) (m + 1) = TNil" by blast
  have k: "int_key (m + 1)" "int_key m" using m(2,3) by (simp_all add: int_key_def MAX_INT_def)
  have sq: "int_key j \<Longrightarrow> 1 \<le> j \<Longrightarrow> lua_rawgeti (t, w) j \<noteq> TNil \<longleftrightarrow> j \<le> n" for j using assms(3) by (simp add: is_seq_def)
  have "\<not> m + 1 \<le> n" "m \<noteq> 0 \<Longrightarrow> m \<le> n" using m sq [OF k(1)] sq [OF k(2)] by auto
  then have "m = n" using assms(3) m(2) by (cases "m = 0") (auto simp: is_seq_def)
  with m(1) assms(2) show "aux_getn ar args (t, w) = Inr n" "luaH_getn t = Some n"
    by (auto simp: aux_getn_def luaL_checktype_def split: option.splits)
qed

lemma call_remove:
  assumes "int_key pos"
  shows "luaL_optint ar [TTable a, pushinteger pos] 2 d = Inr pos" "lua_type [TTable a, pushinteger pos] 1 = 5"
proof -
  have "luaL_optinteger ar [TTable a, pushinteger pos] 2 d = Inr pos"
    by (rule optinteger_int) (use assms in \<open>auto simp: pushinteger_def int_key_def\<close>)
  then show "luaL_optint ar [TTable a, pushinteger pos] 2 d = Inr pos"
    using assms by (simp add: luaL_optint_def int32_id int_key_def)
qed (simp add: lua_type_def index2adr_def)

lemma tremove_spec:
  assumes "table_ok t" "int_key pos" "is_seq (t, w) n" "0 < n" "1 \<le> pos"
  obtains st' where "tremove ar [TTable a, pushinteger pos] (t, w) = Inr (st', [lua_rawgeti (t, w) pos])"
    "arr.holds (w, other_keys t)
       ((\<lambda>j. if pos \<le> j \<and> j < n then lua_rawgeti (t, w) (j + 1) else lua_rawgeti (t, w) j)(n := TNil)) st'"
proof -
  note g = aux_getn_seq(1) [OF assms(1) call_remove(2) [OF assms(2)] assms(3)]
  have n: "int_key n" using assms(3,4) by (simp add: is_seq_def int_key_def MAX_INT_def)
  have h0: "arr.holds (w, other_keys t) (lua_rawgeti (t, w)) (t, w)" using arr_holds [of "(t, w)"] assms(1) by simp
  have nn: "lua_rawgeti (t, w) j \<noteq> TNil" if "1 \<le> j" "j \<le> n" for j
    using that assms(3) n by (auto simp: is_seq_def int_key_def)
  obtain st1 where s1: "foldE (\<lambda>st i. lua_rawseti st i (lua_rawgeti st (i + 1))) (t, w) [pos..n - 1] = Inr st1"
    using arr.shift_down_total [OF h0 assms(2) n] nn assms(5) by fastforce
  note h1 = arr.shift_down [OF h0 s1 assms(2) n]
  obtain st2 where s2: "lua_rawseti st1 n TNil = Inr st2"
    "arr.holds (w, other_keys t) ((\<lambda>j. if pos \<le> j \<and> j < n then lua_rawgeti (t, w) (j + 1) else lua_rawgeti (t, w) j)(n := TNil)) st2"
    using nn [of n] assms(4) by (auto intro: arr.holds_put_total [OF h1 n, where v = TNil])
  show thesis
    by (rule that [OF _ s2(2)])
       (use s1 s2(1) assms(4) in \<open>simp add: tremove_def g call_remove [OF assms(2)] move_down_def [abs_def]\<close>)
qed

text \<open>The map of a table is made of its \<open>int\<close> keys and the others.\<close>

lemma tget_parts:
  assumes ok: "table_ok t" "table_ok t'" and k: "valid_key k"
    and same: "other_keys t' = other_keys t" "\<And>j. int_key j \<Longrightarrow> lua_rawgeti (t', w) j = lua_rawgeti (t, w) j"
  shows "tget t' k = tget t k"
proof (cases "\<exists>i. int_key i \<and> luaO_rawequalObj (TNumber (cast_num i)) k")
  case True
  then obtain i where i: "int_key i" "luaO_rawequalObj (TNumber (cast_num i)) k" by blast
  have v: "valid_key (TNumber (cast_num i))" using i(1) cast_num_key(2) by (simp add: int_key_def)
  have "tget u k = tget u (TNumber (cast_num i))" if "table_ok u" for u
    using luaH_get_rawequal [of u "TNumber (cast_num i)" k] that v i(2) by (simp add: tget_def table_ok_def)
  then show ?thesis using ok same(2) [OF i(1)] rawgeti_tget [OF i(1), of "(t, w)"] rawgeti_tget [OF i(1), of "(t', w)"] by simp
next
  case False
  then show ?thesis using fun_cong [OF same(1), of k] k by (auto simp: other_keys_def)
qed

text \<open>C34: \<open>table.remove\<close> undoes \<open>table.insert\<close>: after the insertion of a value that is not nil at a position from 1 to
\<open>n + 1\<close> of a sequence with \<open>n\<close> elements, which did not fail, the removal at this position succeeds, returns the
value, and the table has for every key, integer or not, what it had before the insertion.\<close>

theorem insert_remove_roundtrip:
  assumes "table_ok t" "is_seq (t, w) n" "n < MAX_INT" "1 \<le> pos" "pos \<le> n + 1" "v \<noteq> TNil"
    and "tinsert ar [TTable a, pushinteger pos, v] (t, w) = Inr st1"
  shows "\<exists>st2. tremove ar [TTable a, pushinteger pos] st1 = Inr (st2, [v])
    \<and> snd st2 = w \<and> table_ok (fst st2) \<and> (\<forall>k. valid_key k \<longrightarrow> tget (fst st2) k = tget t k)"
proof -
  have pos: "int_key pos" using assms(3-5) by (simp add: int_key_def MAX_INT_def)
  obtain t1 w1 where st1: "st1 = (t1, w1)" by fastforce
  note g = aux_getn_seq(2) [OF assms(1) call_insert(2) [OF pos] assms(2)]
  from tinsert_shifts [OF assms(1) pos assms(7) [unfolded st1]] g
  have i: "table_ok t1" "w1 = w" "other_keys t1 = other_keys t" "\<And>j. int_key j \<Longrightarrow> lua_rawgeti (t1, w1) j =
      (if j = pos then v else if pos < j \<and> j \<le> n + 1 then lua_rawgeti (t, w) (j - 1) else lua_rawgeti (t, w) j)"
    by auto
  have sq: "lua_rawgeti (t, w) j \<noteq> TNil \<longleftrightarrow> j \<le> n" if "int_key j" "1 \<le> j" for j using that assms(2) by (simp add: is_seq_def)
  have "lua_rawgeti (t1, w1) j \<noteq> TNil \<longleftrightarrow> j \<le> n + 1" if "int_key j" "1 \<le> j" for j
    using sq [OF that] sq [of "j - 1"] that assms(4-6) i(4) [OF that(1)] by (auto simp: int_key_def)
  then have seq1: "is_seq (t1, w1) (n + 1)" using assms(2,3) by (simp add: is_seq_def)
  have "0 < n + 1" using assms(2) by (simp add: is_seq_def)
  from tremove_spec [OF i(1) pos seq1 this assms(4)] obtain st2 where
    r: "tremove ar [TTable a, pushinteger pos] (t1, w1) = Inr (st2, [lua_rawgeti (t1, w1) pos])"
      "arr.holds (w1, other_keys t1) ((\<lambda>j. if pos \<le> j \<and> j < n + 1 then lua_rawgeti (t1, w1) (j + 1)
         else lua_rawgeti (t1, w1) j)(n + 1 := TNil)) st2" by blast
  have ints: "lua_rawgeti st2 j = lua_rawgeti (t, w) j" if j: "int_key j" for j
  proof -
    have k: "int_key (n + 1)" "j < n + 1 \<Longrightarrow> int_key (j + 1)" using j assms(2,3) by (auto simp: int_key_def is_seq_def MAX_INT_def)
    have "lua_rawgeti (t, w) (n + 1) = TNil" using sq [OF k(1)] assms(2) by (auto simp: is_seq_def)
    then show ?thesis
      using arr.holds_get [OF r(2) j] i(4) [OF j] i(4) [OF k(2)] assms(4,5) by auto
  qed
  obtain t2 where st2: "st2 = (t2, w)" "table_ok t2" "other_keys t2 = other_keys t" using r(2) i(2,3) by (cases st2) (simp add: arr.holds_def)
  have "tget t2 k = tget t k" if "valid_key k" for k
    by (rule tget_parts [OF assms(1) st2(2) that st2(3)]) (rule ints [unfolded st2(1)])
  moreover have "lua_rawgeti (t1, w1) pos = v" using i(4) [OF pos] by simp
  ultimately show ?thesis using r(1) st2(1,2) unfolding st1 by (intro exI [of _ st2]) simp
qed

text \<open>\<open>table.remove\<close> does not check its position: given one past the end of a sequence, it still erases
the last element, and returns nil instead of that element.\<close>

theorem tremove_past_end:
  assumes "table_ok t" "is_seq (t, w) n" "0 < n" "n < pos" "pos \<le> INT_MAX"
  shows "\<exists>st'. tremove ar [TTable a, pushinteger pos] (t, w) = Inr (st', [TNil]) \<and> is_seq st' (n - 1)"
proof -
  have pos: "int_key pos" "1 \<le> pos" using assms by (simp_all add: int_key_def)
  from tremove_spec [OF assms(1) pos(1) assms(2,3) pos(2)] obtain st' where
    r: "tremove ar [TTable a, pushinteger pos] (t, w) = Inr (st', [lua_rawgeti (t, w) pos])"
      "arr.holds (w, other_keys t) ((\<lambda>j. if pos \<le> j \<and> j < n then lua_rawgeti (t, w) (j + 1)
         else lua_rawgeti (t, w) j)(n := TNil)) st'" by blast
  have "lua_rawgeti (t, w) pos = TNil" using assms(2,4) pos by (auto simp: is_seq_def)
  moreover have "is_seq st' (n - 1)"
    using r(2) assms(2-4) by (auto simp: is_seq_def arr.holds_def)
  ultimately show ?thesis using r(1) by auto
qed

section \<open>sort sorts\<close>

text \<open>A comparison that computes an order on the values \<open>V\<close> and does nothing else.\<close>

definition strict_weak :: "tvalue set \<Rightarrow> (tvalue \<Rightarrow> tvalue \<Rightarrow> bool) \<Rightarrow> bool" where
  "strict_weak V lt \<longleftrightarrow> (\<forall>a \<in> V. \<not> lt a a)
     \<and> (\<forall>a \<in> V. \<forall>b \<in> V. lt a b \<longrightarrow> \<not> lt b a)
     \<and> (\<forall>a \<in> V. \<forall>b \<in> V. \<forall>c \<in> V. \<not> lt a b \<longrightarrow> \<not> lt b c \<longrightarrow> \<not> lt a c)"

lemma strict_weak_irrefl: "strict_weak V lt \<Longrightarrow> a \<in> V \<Longrightarrow> \<not> lt a a"
  by (simp add: strict_weak_def)

lemma strict_weak_asym: "strict_weak V lt \<Longrightarrow> a \<in> V \<Longrightarrow> b \<in> V \<Longrightarrow> lt a b \<Longrightarrow> \<not> lt b a"
proof -
  assume a: "strict_weak V lt" "a \<in> V" "b \<in> V" "lt a b"
  from a(1) have "\<forall>a \<in> V. \<forall>b \<in> V. lt a b \<longrightarrow> \<not> lt b a" unfolding strict_weak_def by (elim conjE)
  from bspec [OF bspec [OF this a(2)] a(3)] a(4) show ?thesis by simp
qed

lemma strict_weak_trans: "strict_weak V lt \<Longrightarrow> a \<in> V \<Longrightarrow> b \<in> V \<Longrightarrow> c \<in> V \<Longrightarrow> \<not> lt a b \<Longrightarrow> \<not> lt b c \<Longrightarrow> \<not> lt a c"
proof -
  assume a: "strict_weak V lt" "a \<in> V" "b \<in> V" "c \<in> V" "\<not> lt a b" "\<not> lt b c"
  from a(1) have "\<forall>a \<in> V. \<forall>b \<in> V. \<forall>c \<in> V. \<not> lt a b \<longrightarrow> \<not> lt b c \<longrightarrow> \<not> lt a c" unfolding strict_weak_def by (elim conjE)
  from bspec [OF bspec [OF bspec [OF this a(2)] a(3)] a(4)] a(5,6) show ?thesis by simp
qed

definition computes :: "'w comparer \<Rightarrow> tvalue set \<Rightarrow> (tvalue \<Rightarrow> tvalue \<Rightarrow> bool) \<Rightarrow> bool" where
  "computes cmp V lt \<longleftrightarrow> TNil \<notin> V \<and> (\<forall>st. \<forall>a \<in> V. \<forall>b \<in> V. cmp st a b = Inr (st, lt a b))"

lemma computes_eq: "computes cmp V lt \<Longrightarrow> a \<in> V \<Longrightarrow> b \<in> V \<Longrightarrow> cmp st a b = Inr (st, lt a b)"
  unfolding computes_def by blast

text \<open>\<open>f'\<close> rearranges the values of \<open>f\<close> between \<open>l\<close> and \<open>u\<close>.\<close>

definition rearr :: "int \<Rightarrow> int \<Rightarrow> (int \<Rightarrow> tvalue) \<Rightarrow> (int \<Rightarrow> tvalue) \<Rightarrow> bool" where
  "rearr l u f f' \<longleftrightarrow> (\<forall>k. k < l \<or> u < k \<longrightarrow> f' k = f k) \<and> image_mset f' (mset_set {l..u}) = image_mset f (mset_set {l..u})"

lemma rearr_refl [simp]: "rearr l u f f"
  by (simp add: rearr_def)

lemma rearr_trans: "rearr l u f g \<Longrightarrow> rearr l u g h \<Longrightarrow> rearr l u f h"
  by (simp add: rearr_def)

lemma rearr_image: "rearr l u f f' \<Longrightarrow> f' ` {l..u} = f ` {l..u}"
proof -
  assume "rearr l u f f'"
  then have "set_mset (image_mset f' (mset_set {l..u})) = set_mset (image_mset f (mset_set {l..u}))" by (simp add: rearr_def)
  then show ?thesis by simp
qed

lemma rearr_swap:
  assumes "l \<le> i" "i \<le> u" "l \<le> j" "j \<le> u"
  shows "rearr l u f (f(i := f j, j := f i))"
proof (cases "i = j")
  case False
  define A where "A = {l..u} - {i, j}"
  have "{l..u} = insert i (insert j A)" "finite A" "i \<notin> insert j A" "j \<notin> A" using assms False by (auto simp: A_def)
  then have m: "mset_set {l..u} = add_mset i (add_mset j (mset_set A))" by simp
  have "image_mset (f(i := f j, j := f i)) (mset_set A) = image_mset f (mset_set A)"
    by (rule image_mset_cong) (auto simp: A_def)
  with m False assms show ?thesis by (auto simp: rearr_def)
qed simp

lemma rearr_mono:
  assumes "rearr a b f f'" "l \<le> a" "b \<le> u"
  shows "rearr l u f f'"
proof -
  define B where "B = {l..u} - {a..b}"
  have "{l..u} = {a..b} \<union> B \<or> b < a" "finite B" "{a..b} \<inter> B = {}" using assms(2,3) by (auto simp: B_def)
  moreover have "image_mset f' (mset_set C) = image_mset f (mset_set C)" if "finite C" "C \<inter> {a..b} = {}" for C
    by (rule image_mset_cong) (use assms(1) that in \<open>force simp: rearr_def disjoint_iff\<close>)
  ultimately show ?thesis
    using assms by (auto simp: rearr_def mset_set_Union Int_commute)
qed

context lua_array
begin

lemma holds_set2:
  assumes "holds r f st" "int_key i" "int_key j" "f i \<noteq> TNil" "f j \<noteq> TNil"
  obtains st' where "bindE (put st i (f j)) (\<lambda>st'. put st' j (f i)) = Inr st'" "holds r (f(i := f j, j := f i)) st'"
  by (rule holds_put2 [OF assms assms(5)])

end

lemma set2_swap:
  assumes "arr.holds r f st" "int_key i" "int_key j" "f i \<noteq> TNil" "f j \<noteq> TNil"
  obtains st' where "set2 st i j (f j) (f i) = Inr st'" "arr.holds r (f(i := f j, j := f i)) st'"
  unfolding set2_def by (rule arr.holds_set2 [OF assms])

text \<open>The setting of the lemmas on sorting: the values between \<open>l\<close> and \<open>u\<close> are in \<open>V\<close>.\<close>

definition sortable :: "tvalue set \<Rightarrow> int \<Rightarrow> int \<Rightarrow> (int \<Rightarrow> tvalue) \<Rightarrow> bool" where
  "sortable V l u f \<longleftrightarrow> int_key l \<and> int_key u \<and> (\<forall>k. l \<le> k \<and> k \<le> u \<longrightarrow> f k \<in> V)"

lemma sortable_key: "sortable V l u f \<Longrightarrow> l \<le> k \<Longrightarrow> k \<le> u \<Longrightarrow> int_key k"
  by (simp add: sortable_def int_key_def)

lemma sortable_rearr:
  assumes "sortable V l u f" "rearr l u f f'"
  shows "sortable V l u f'"
  using rearr_image [OF assms(2)] assms(1) unfolding sortable_def by (metis atLeastAtMost_iff imageE imageI)

lemma sortable_sub: "sortable V l u f \<Longrightarrow> l \<le> a \<Longrightarrow> b \<le> u \<Longrightarrow> a \<le> u + 1 \<Longrightarrow> u < INT_MAX \<Longrightarrow> INT_MIN < l \<Longrightarrow> l - 1 \<le> b \<Longrightarrow> sortable V a b f"
  by (auto simp: sortable_def int_key_def)

lemma order_ends_spec:
  assumes c: "computes cmp V lt" and h: "arr.holds r f st" and s: "sortable V l u f" "l < u" and o: "strict_weak V lt"
  obtains st' f' where "order_ends cmp st l u = Inr st'" "arr.holds r f' st'" "rearr l u f f'" "\<not> lt (f' u) (f' l)"
    "\<And>k. l < k \<Longrightarrow> k < u \<Longrightarrow> f' k = f k"
proof -
  have k: "int_key l" "int_key u" and v: "f l \<in> V" "f u \<in> V" using s by (simp_all add: sortable_def)
  have nn: "f l \<noteq> TNil" "f u \<noteq> TNil" using c v by (auto simp: computes_def)
  have eq: "order_ends cmp st l u = (if lt (f u) (f l) then set2 st l u (f u) (f l) else Inr st)"
    using v by (simp add: order_ends_def Let_def arr.holds_get [OF h] k computes_eq [OF c])
  show thesis
  proof (cases "lt (f u) (f l)")
    case True
    obtain st' where st': "set2 st l u (f u) (f l) = Inr st'" "arr.holds r (f(l := f u, u := f l)) st'"
      by (rule set2_swap [OF h k nn])
    have "\<not> lt (f l) (f u)" using strict_weak_asym [OF o] v True by blast
    then show thesis
      using eq True st'(1) s(2) by (intro that [OF _ st'(2) rearr_swap]) simp_all
  next
    case False
    then show thesis using eq h by (intro that [of st f]) auto
  qed
qed

lemma order_middle_spec:
  assumes c: "computes cmp V lt" and h: "arr.holds r f st" and s: "sortable V l u f" "l < i" "i < u" and o: "strict_weak V lt"
    and lu: "\<not> lt (f u) (f l)"
  obtains st' f' where "order_middle cmp st l i u = Inr st'" "arr.holds r f' st'" "rearr l u f f'"
    "\<not> lt (f' i) (f' l)" "\<not> lt (f' u) (f' i)"
proof -
  have k: "int_key l" "int_key i" "int_key u" using s sortable_key [OF s(1)] by simp_all
  have v: "f l \<in> V" "f i \<in> V" "f u \<in> V" using s by (simp_all add: sortable_def)
  have nn: "f l \<noteq> TNil" "f i \<noteq> TNil" "f u \<noteq> TNil" using c v by (auto simp: computes_def)
  have eq: "order_middle cmp st l i u = (if lt (f i) (f l) then set2 st i l (f l) (f i)
      else if lt (f u) (f i) then set2 st i u (f u) (f i) else Inr st)"
    using v by (simp add: order_middle_def Let_def arr.holds_get [OF h] k computes_eq [OF c])
  consider "lt (f i) (f l)" | "\<not> lt (f i) (f l)" "lt (f u) (f i)" | "\<not> lt (f i) (f l)" "\<not> lt (f u) (f i)" by blast
  then show thesis
  proof cases
    case 1
    obtain st' where st': "set2 st i l (f l) (f i) = Inr st'" "arr.holds r (f(i := f l, l := f i)) st'"
      by (rule set2_swap [OF h k(2,1) nn(2,1)])
    have "\<not> lt (f l) (f i)" using strict_weak_asym [OF o] v 1 by blast
    then show thesis using eq 1 st'(1) s lu by (intro that [OF _ st'(2) rearr_swap]) simp_all
  next
    case 2
    obtain st' where st': "set2 st i u (f u) (f i) = Inr st'" "arr.holds r (f(i := f u, u := f i)) st'"
      by (rule set2_swap [OF h k(2,3) nn(2,3)])
    have "\<not> lt (f i) (f u)" using strict_weak_asym [OF o] v 2(2) by blast
    then show thesis using eq 2 st'(1) s lu by (intro that [OF _ st'(2) rearr_swap]) simp_all
  next
    case 3
    then show thesis using eq h by (intro that [of st f]) auto
  qed
qed

text \<open>The scans stop, at the latest at a sentinel.\<close>

lemma scan_up_spec:
  assumes c: "computes cmp V lt" and h: "arr.holds r f st" and P: "P \<in> V"
    and s: "i \<le> m" "m \<le> u" "int_key i" "int_key u" "\<And>k. i \<le> k \<Longrightarrow> k \<le> m \<Longrightarrow> f k \<in> V" "\<not> lt (f m) P"
  obtains i' where "scan_up cmp st P i u = Inr (st, i', f i')" "i \<le> i'" "i' \<le> m" "\<not> lt (f i') P"
    "\<And>k. i \<le> k \<Longrightarrow> k < i' \<Longrightarrow> lt (f k) P"
proof -
  have "\<exists>i'. scan_up cmp st P i u = Inr (st, i', f i') \<and> i \<le> i' \<and> i' \<le> m \<and> \<not> lt (f i') P
      \<and> (\<forall>k. i \<le> k \<and> k < i' \<longrightarrow> lt (f k) P)"
    using s
  proof (induction "nat (m - i)" arbitrary: i rule: less_induct)
    case less
    have c: "cmp st (lua_rawgeti st i) P = Inr (st, lt (f i) P)"
      using less(2,6) P by (simp add: arr.holds_get [OF h less(4)] computes_eq [OF c])
    show ?case
    proof (cases "lt (f i) P")
      case True
      with less(2,7) have im: "i < m" by (cases "i = m") auto
      have k: "int_key (i + 1)" using less(3,4,5) im by (simp add: int_key_def)
      have eq: "scan_up cmp st P i u = scan_up cmp st P (i + 1) u"
        using c True im less(3) by (simp add: scan_up.simps [of cmp st P i u])
      have "\<exists>i'. scan_up cmp st P (i + 1) u = Inr (st, i', f i') \<and> i + 1 \<le> i' \<and> i' \<le> m \<and> \<not> lt (f i') P
          \<and> (\<forall>k. i + 1 \<le> k \<and> k < i' \<longrightarrow> lt (f k) P)"
        by (rule less(1)) (use im less(2-7) k in auto)
      then obtain i' where
        i': "scan_up cmp st P (i + 1) u = Inr (st, i', f i')" "i + 1 \<le> i'" "i' \<le> m" "\<not> lt (f i') P"
          "\<forall>k. i + 1 \<le> k \<and> k < i' \<longrightarrow> lt (f k) P" by blast
      have "lt (f k) P" if "i \<le> k" "k < i'" for k using i'(5) True that by (cases "k = i") auto
      then show ?thesis using i' eq by (intro exI [of _ i']) auto
    next
      case False
      then show ?thesis using c less(2,4) by (intro exI [of _ i]) (auto simp: scan_up.simps arr.holds_get [OF h])
    qed
  qed
  then show thesis using that by blast
qed

lemma scan_down_spec:
  assumes c: "computes cmp V lt" and h: "arr.holds r f st" and P: "P \<in> V"
    and s: "m \<le> j" "l \<le> m" "int_key j" "int_key l" "\<And>k. m \<le> k \<Longrightarrow> k \<le> j \<Longrightarrow> f k \<in> V" "\<not> lt P (f m)"
  obtains j' where "scan_down cmp st P j l = Inr (st, j', f j')" "j' \<le> j" "m \<le> j'" "\<not> lt P (f j')"
    "\<And>k. j' < k \<Longrightarrow> k \<le> j \<Longrightarrow> lt P (f k)"
proof -
  have "\<exists>j'. scan_down cmp st P j l = Inr (st, j', f j') \<and> j' \<le> j \<and> m \<le> j' \<and> \<not> lt P (f j')
      \<and> (\<forall>k. j' < k \<and> k \<le> j \<longrightarrow> lt P (f k))"
    using s
  proof (induction "nat (j - m)" arbitrary: j rule: less_induct)
    case less
    have c: "cmp st P (lua_rawgeti st j) = Inr (st, lt P (f j))"
      using less(2,6) P by (simp add: arr.holds_get [OF h less(4)] computes_eq [OF c])
    show ?case
    proof (cases "lt P (f j)")
      case True
      with less(2,7) have im: "m < j" by (cases "j = m") auto
      have k: "int_key (j - 1)" using less(3,4,5) im by (simp add: int_key_def)
      have eq: "scan_down cmp st P j l = scan_down cmp st P (j - 1) l"
        using c True im less(3) by (simp add: scan_down.simps [of cmp st P j l])
      have "\<exists>j'. scan_down cmp st P (j - 1) l = Inr (st, j', f j') \<and> j' \<le> j - 1 \<and> m \<le> j' \<and> \<not> lt P (f j')
          \<and> (\<forall>k. j' < k \<and> k \<le> j - 1 \<longrightarrow> lt P (f k))"
        by (rule less(1)) (use im less(2-7) k in auto)
      then obtain j' where
        j': "scan_down cmp st P (j - 1) l = Inr (st, j', f j')" "j' \<le> j - 1" "m \<le> j'" "\<not> lt P (f j')"
          "\<forall>k. j' < k \<and> k \<le> j - 1 \<longrightarrow> lt P (f k)" by blast
      have "lt P (f k)" if "j' < k" "k \<le> j" for k using j'(5) True that by (cases "k = j") auto
      then show ?thesis using j' eq by (intro exI [of _ j']) auto
    next
      case False
      then show ?thesis using c less(2,4) by (intro exI [of _ j]) (auto simp: scan_down.simps arr.holds_get [OF h])
    qed
  qed
  then show thesis using that by blast
qed

text \<open>The invariant of the partition: \<open>a[l..i] \<le> P \<le> a[j..u]\<close>, and the pivot waits at \<open>u - 1\<close>.\<close>

definition parts :: "(tvalue \<Rightarrow> tvalue \<Rightarrow> bool) \<Rightarrow> tvalue \<Rightarrow> int \<Rightarrow> int \<Rightarrow> (int \<Rightarrow> tvalue) \<Rightarrow> int \<Rightarrow> int \<Rightarrow> bool" where
  "parts lt P l u f i j \<longleftrightarrow> l \<le> i \<and> i \<le> j \<and> j \<le> u - 1 \<and> (i = j \<longrightarrow> l < i \<and> j < u - 1) \<and> f (u - 1) = P
     \<and> (\<forall>k. l \<le> k \<and> k \<le> i \<longrightarrow> \<not> lt P (f k)) \<and> (\<forall>k. j \<le> k \<and> k \<le> u \<longrightarrow> \<not> lt (f k) P)"

lemma partition_spec:
  assumes c: "computes cmp V lt" and o: "strict_weak V lt"
    and "arr.holds r f st" "sortable V l u f" "parts lt P l u f i j" "P \<in> V"
  shows "\<exists>st' f' i'. partition_loop cmp st P l u i j = Inr (st', i') \<and> arr.holds r f' st' \<and> rearr l u f f'
    \<and> l < i' \<and> i' \<le> u - 1 \<and> f' (u - 1) = P
    \<and> (\<forall>k. l \<le> k \<and> k < i' \<longrightarrow> \<not> lt P (f' k)) \<and> (\<forall>k. i' \<le> k \<and> k \<le> u \<longrightarrow> \<not> lt (f' k) P)"
  using assms(3-5)
proof (induction "nat (j - i + 1)" arbitrary: f st i j rule: less_induct)
  case less
  note h = less(2) and s = less(3)
  have p: "l \<le> i" "i \<le> j" "j \<le> u - 1" "i = j \<Longrightarrow> l < i \<and> j < u - 1" "f (u - 1) = P"
    "\<And>k. l \<le> k \<Longrightarrow> k \<le> i \<Longrightarrow> \<not> lt P (f k)" "\<And>k. j \<le> k \<Longrightarrow> k \<le> u \<Longrightarrow> \<not> lt (f k) P"
    using less(4) by (auto simp: parts_def)
  have v: "f k \<in> V" if "l \<le> k" "k \<le> u" for k using s that by (simp add: sortable_def)
  have ik: "int_key k" if "l \<le> k" "k \<le> u" for k using sortable_key [OF s that] .
  define m where "m = (if i < j then j else j + 1)"
  have m: "i + 1 \<le> m" "m \<le> u" "\<not> lt (f m) P" "m \<le> u - 1" using p by (auto simp: m_def)
  obtain i' where i': "scan_up cmp st P (i + 1) u = Inr (st, i', f i')" "i + 1 \<le> i'" "i' \<le> m" "\<not> lt (f i') P"
      "\<And>k. i + 1 \<le> k \<Longrightarrow> k < i' \<Longrightarrow> lt (f k) P"
    by (rule scan_up_spec [OF c h assms(6) m(1,2) _ _ _ m(3)]) (use v ik p m in auto)
  define m' where "m' = (if i < j then i else i - 1)"
  have m': "m' \<le> j - 1" "l \<le> m'" "\<not> lt P (f m')" using p by (auto simp: m'_def)
  obtain j' where j': "scan_down cmp st P (j - 1) l = Inr (st, j', f j')" "j' \<le> j - 1" "m' \<le> j'" "\<not> lt P (f j')"
      "\<And>k. j' < k \<Longrightarrow> k \<le> j - 1 \<Longrightarrow> lt P (f k)"
    by (rule scan_down_spec [OF c h assms(6) m'(1,2) _ _ _ m'(3)]) (use v ik p m' in auto)
  have up: "\<not> lt P (f k)" if "l \<le> k" "k < i'" for k
    using p(6) [of k] i'(5) [of k] strict_weak_asym [OF o v assms(6), of k] that i'(3) m(2) by (cases "k \<le> i") auto
  have down: "\<not> lt (f k) P" if "j' < k" "k \<le> u" for k
    using p(7) [of k] j'(5) [of k] strict_weak_asym [OF o assms(6) v, of k] that j'(3) m'(2) by (cases "j \<le> k") auto
  have b: "l < i'" "i' \<le> u - 1" "l \<le> j'" "j' \<le> u - 2" using p i' j' m m' by auto
  show ?case
  proof (cases "j' < i'")
    case True
    then have eq: "partition_loop cmp st P l u i j = Inr (st, i')" using i'(1) j'(1) by (simp add: partition_loop.simps [of cmp st])
    have "\<not> lt (f k) P" if "i' \<le> k" "k \<le> u" for k using down that True by simp
    then show ?thesis using eq h b up p(5) by (intro exI [of _ st] exI [of _ f] exI [of _ i']) auto
  next
    case False
    have k: "int_key i'" "int_key j'" "f i' \<in> V" "f j' \<in> V" using b ik v by auto
    then have nn: "f i' \<noteq> TNil" "f j' \<noteq> TNil" using c by (auto simp: computes_def)
    obtain st3 where st3: "set2 st i' j' (f j') (f i') = Inr st3" "arr.holds r (f(i' := f j', j' := f i')) st3"
      by (rule set2_swap [OF h k(1,2) nn])
    define g where "g = f(i' := f j', j' := f i')"
    have re: "rearr l u f g" unfolding g_def by (rule rearr_swap) (use b False in auto)
    have g: "g i' = f j'" "g j' = f i'" "\<And>k. k \<noteq> i' \<Longrightarrow> k \<noteq> j' \<Longrightarrow> g k = f k" by (auto simp: g_def)
    have pg: "parts lt P l u g i' j'"
      unfolding parts_def
    proof (intro conjI allI impI)
      fix k assume "l \<le> k \<and> k \<le> i'"
      then show "\<not> lt P (g k)" using up j'(4) g False i'(4) by (cases "k = i'") auto
    next
      fix k assume "j' \<le> k \<and> k \<le> u"
      then show "\<not> lt (g k) P" using down i'(4) g False by (cases "k = j'") auto
    qed (use b False p(5) g in auto)
    have eq: "partition_loop cmp st P l u i j = partition_loop cmp st3 P l u i' j'"
      using i'(1) j'(1) st3(1) False by (simp add: partition_loop.simps [of cmp st])
    have "nat (j' - i' + 1) < nat (j - i + 1)" using i'(2) j'(2) False by simp
    from less(1) [OF this st3(2) [folded g_def] sortable_rearr [OF s re] pg]
    show ?thesis unfolding eq using re rearr_trans by blast
  qed
qed

definition sorted_on :: "(tvalue \<Rightarrow> tvalue \<Rightarrow> bool) \<Rightarrow> int \<Rightarrow> int \<Rightarrow> (int \<Rightarrow> tvalue) \<Rightarrow> bool" where
  "sorted_on lt l u f \<longleftrightarrow> (\<forall>i j. l \<le> i \<and> i < j \<and> j \<le> u \<longrightarrow> \<not> lt (f j) (f i))"

lemma rearr_all:
  assumes "rearr l u f f'" "\<And>k. l \<le> k \<Longrightarrow> k \<le> u \<Longrightarrow> Q (f k)" "l \<le> k" "k \<le> u"
  shows "Q (f' k)"
proof -
  have "f' k \<in> f ` {l..u}" using rearr_image [OF assms(1)] assms(3,4) by (metis atLeastAtMost_iff imageI)
  then show ?thesis using assms(2) by auto
qed

lemma rearr_outside: "rearr l u f f' \<Longrightarrow> k < l \<or> u < k \<Longrightarrow> f' k = f k"
  by (auto simp: rearr_def)

text \<open>Two sorted halves around a pivot make a sorted whole.\<close>

lemma sorted_halves:
  assumes o: "strict_weak V lt" and v: "\<And>k. l \<le> k \<Longrightarrow> k \<le> u \<Longrightarrow> g k \<in> V" and i: "l < i" "i < u"
    and lo: "sorted_on lt l (i - 1) g" "\<And>k. l \<le> k \<Longrightarrow> k \<le> i - 1 \<Longrightarrow> \<not> lt (g i) (g k)"
    and hi: "sorted_on lt (i + 1) u g" "\<And>k. i + 1 \<le> k \<Longrightarrow> k \<le> u \<Longrightarrow> \<not> lt (g k) (g i)"
  shows "sorted_on lt l u g"
  unfolding sorted_on_def
proof (intro allI impI)
  fix a b assume ab: "l \<le> a \<and> a < b \<and> b \<le> u"
  consider "b \<le> i - 1" | "i + 1 \<le> a" | "a = i" | "b = i" | "a \<le> i - 1" "i + 1 \<le> b" by linarith
  then show "\<not> lt (g b) (g a)"
  proof cases
    case 5
    have "\<not> lt (g b) (g i)" "\<not> lt (g i) (g a)" using lo(2) hi(2) ab 5 by simp_all
    then show ?thesis using strict_weak_trans [OF o, of "g b" "g i" "g a"] v ab i by simp
  qed (use ab lo hi in \<open>auto simp: sorted_on_def\<close>)
qed

definition sorts_to :: "(tvalue \<Rightarrow> tvalue \<Rightarrow> bool) \<Rightarrow> 'w \<times> (tvalue \<Rightarrow> tvalue) \<Rightarrow> int \<Rightarrow> int \<Rightarrow> (int \<Rightarrow> tvalue) \<Rightarrow> 'w tstate res \<Rightarrow> bool" where
  "sorts_to lt r l u f res \<longleftrightarrow> (\<exists>st' f'. res = Inr st' \<and> arr.holds r f' st' \<and> rearr l u f f' \<and> sorted_on lt l u f')"

text \<open>The two calls that sort the halves, in either order.\<close>

lemma sort_halves:
  assumes o: "strict_weak V lt" and s: "sortable V l u f" and i: "l < i" "i < u"
    and lo: "\<And>k. l \<le> k \<Longrightarrow> k < i \<Longrightarrow> \<not> lt (f i) (f k)" and hi: "\<And>k. i < k \<Longrightarrow> k \<le> u \<Longrightarrow> \<not> lt (f k) (f i)"
    and h: "arr.holds r f st"
    and S: "\<And>st f a b. arr.holds r f st \<Longrightarrow> sortable V a b f \<Longrightarrow> l \<le> a \<Longrightarrow> b \<le> u \<Longrightarrow> b - a < u - l \<Longrightarrow> sorts_to lt r a b f (S st a b)"
  shows "sorts_to lt r l u f (bindE (S st l (i - 1)) (\<lambda>st'. S st' (i + 1) u))"
    and "sorts_to lt r l u f (bindE (S st (i + 1) u) (\<lambda>st'. S st' l (i - 1)))"
proof -
  have sl: "sortable V l (i - 1) f" "sortable V (i + 1) u f" using s i by (auto simp: sortable_def int_key_def)
  have fin: "rearr l u f g \<and> sorted_on lt l u g"
    if a: "rearr l (i - 1) f f1" "rearr (i + 1) u f1 g \<or> False" "sorted_on lt l (i - 1) f1" "sorted_on lt (i + 1) u g" for f1 g
  proof -
    have re: "rearr (i + 1) u f1 g" using a(2) by simp
    have r: "rearr l u f g"
      by (rule rearr_trans [OF rearr_mono [OF a(1)] rearr_mono [OF re]]) (use i in auto)
    have gi: "g i = f i" "f1 i = f i" using rearr_outside [OF re] rearr_outside [OF a(1)] by simp_all
    have eq: "g k = f1 k" if "k \<le> i" for k using rearr_outside [OF re] that by simp
    have eq1: "f1 k = f k" if "i \<le> k" for k using rearr_outside [OF a(1)] that by simp
    have "sorted_on lt l (i - 1) g" using a(3) eq by (auto simp: sorted_on_def)
    moreover have "\<not> lt (g i) (g k)" if "l \<le> k" "k \<le> i - 1" for k
      unfolding gi eq [of k, OF order_trans [OF that(2)], simplified] using rearr_all [OF a(1), of "\<lambda>x. \<not> lt (f i) x"] lo that by simp
    moreover have "\<not> lt (g k) (g i)" if "i + 1 \<le> k" "k \<le> u" for k
      unfolding gi using rearr_all [OF re, of "\<lambda>x. \<not> lt x (f i)"] hi eq1 that by simp
    moreover have "g k \<in> V" if "l \<le> k" "k \<le> u" for k using sortable_rearr [OF s r] that by (simp add: sortable_def)
    ultimately show ?thesis using sorted_halves [OF o _ i, of g] a(4) r by blast
  qed
  have fin2: "rearr l u f g \<and> sorted_on lt l u g"
    if a: "rearr (i + 1) u f f1" "rearr l (i - 1) f1 g" "sorted_on lt (i + 1) u f1" "sorted_on lt l (i - 1) g" for f1 g
  proof -
    have r: "rearr l u f g"
      by (rule rearr_trans [OF rearr_mono [OF a(1)] rearr_mono [OF a(2)]]) (use i in auto)
    have gi: "g i = f i" using rearr_outside [OF a(2)] rearr_outside [OF a(1)] by simp
    have eq: "g k = f1 k" if "i \<le> k" for k using rearr_outside [OF a(2)] that by simp
    have eq1: "f1 k = f k" if "k \<le> i" for k using rearr_outside [OF a(1)] that by simp
    have "sorted_on lt (i + 1) u g" using a(3) eq by (auto simp: sorted_on_def)
    moreover have "\<not> lt (g k) (g i)" if "i + 1 \<le> k" "k \<le> u" for k
      using rearr_all [OF a(1), of "\<lambda>x. \<not> lt x (f i)"] hi eq [of k] gi that by simp
    moreover have "\<not> lt (g i) (g k)" if "l \<le> k" "k \<le> i - 1" for k
      unfolding gi using rearr_all [OF a(2), of "\<lambda>x. \<not> lt (f i) x"] lo eq1 that by simp
    moreover have "g k \<in> V" if "l \<le> k" "k \<le> u" for k using sortable_rearr [OF s r] that by (simp add: sortable_def)
    ultimately show ?thesis using sorted_halves [OF o _ i, of g] a(4) r by blast
  qed
  have "sorts_to lt r l (i - 1) f (S st l (i - 1))" by (rule S [OF h sl(1)]) (use i in auto)
  then obtain st1 f1 where 1: "S st l (i - 1) = Inr st1" "arr.holds r f1 st1" "rearr l (i - 1) f f1" "sorted_on lt l (i - 1) f1"
    by (auto simp: sorts_to_def)
  have sl1: "sortable V (i + 1) u f1" using sl(2) rearr_outside [OF 1(3)] by (simp add: sortable_def)
  have "sorts_to lt r (i + 1) u f1 (S st1 (i + 1) u)" by (rule S [OF 1(2) sl1]) (use i in auto)
  then show "sorts_to lt r l u f (bindE (S st l (i - 1)) (\<lambda>st'. S st' (i + 1) u))"
    using 1 fin [OF 1(3) _ 1(4)] by (auto simp: sorts_to_def)
  have "sorts_to lt r (i + 1) u f (S st (i + 1) u)" by (rule S [OF h sl(2)]) (use i in auto)
  then obtain st2 f2 where 2: "S st (i + 1) u = Inr st2" "arr.holds r f2 st2" "rearr (i + 1) u f f2" "sorted_on lt (i + 1) u f2"
    by (auto simp: sorts_to_def)
  have sl2: "sortable V l (i - 1) f2" using sl(1) rearr_outside [OF 2(3)] by (simp add: sortable_def)
  have "sorts_to lt r l (i - 1) f2 (S st2 l (i - 1))" by (rule S [OF 2(2) sl2]) (use i in auto)
  then show "sorts_to lt r l u f (bindE (S st (i + 1) u) (\<lambda>st'. S st' l (i - 1)))"
    using 2 fin2 [OF 2(3) _ 2(4)] by (auto simp: sorts_to_def)
qed

lemma auxsort_spec:
  assumes c: "computes cmp V lt" and o: "strict_weak V lt"
  shows "arr.holds r f st \<Longrightarrow> sortable V l u f \<Longrightarrow> nat (u - l + 1) < fuel \<Longrightarrow> sorts_to lt r l u f (auxsort cmp fuel st l u)"
proof (induction fuel arbitrary: f st l u)
  case (Suc fuel)
  note h = Suc.prems(1) and s = Suc.prems(2)
  show ?case
  proof (cases "l < u")
    case False
    then show ?thesis using h by (auto simp: sorts_to_def sorted_on_def)
  next
    case lu: True
    obtain st1 f1 where 1: "order_ends cmp st l u = Inr st1" "arr.holds r f1 st1" "rearr l u f f1" "\<not> lt (f1 u) (f1 l)"
      by (rule order_ends_spec [OF c h s lu o])
    show ?thesis
    proof (cases "u - l = 1")
      case True
      have "sorted_on lt l u f1"
        unfolding sorted_on_def
      proof (intro allI impI)
        fix i j assume "l \<le> i \<and> i < j \<and> j \<le> u"
        with True have "i = l" "j = u" by simp_all
        with 1(4) show "\<not> lt (f1 j) (f1 i)" by simp
      qed
      then show ?thesis using 1 lu True by (auto simp: sorts_to_def)
    next
      case n1: False
      define i where "i = (l + u) div 2"
      have i: "l < i" "i < u" using lu n1 by (simp_all add: i_def)
      note s1 = sortable_rearr [OF s 1(3)]
      obtain st2 f2 where 2: "order_middle cmp st1 l i u = Inr st2" "arr.holds r f2 st2" "rearr l u f1 f2"
          "\<not> lt (f2 i) (f2 l)" "\<not> lt (f2 u) (f2 i)"
        by (rule order_middle_spec [OF c 1(2) s1 i o 1(4)])
      note s2 = sortable_rearr [OF s1 2(3)] and r2 = rearr_trans [OF 1(3) 2(3)]
      have v2: "f2 k \<in> V" if "l \<le> k" "k \<le> u" for k using s2 that by (simp add: sortable_def)
      show ?thesis
      proof (cases "u - l = 2")
        case True
        then have il: "i = l + 1" "u = l + 2" by (simp_all add: i_def)
        have "sorted_on lt l u f2"
        proof (rule sorted_halves [OF o v2 i])
          fix k assume "l \<le> k" "k \<le> i - 1"
          with il have "k = l" by simp
          with 2(4) show "\<not> lt (f2 i) (f2 k)" by simp
        next
          fix k assume "i + 1 \<le> k" "k \<le> u"
          with il have "k = u" by simp
          with 2(5) show "\<not> lt (f2 k) (f2 i)" by simp
        qed (use il in \<open>auto simp: sorted_on_def\<close>)
        then show ?thesis using 1(1) 2 r2 lu n1 True by (auto simp: sorts_to_def i_def [symmetric])
      next
        case n2: False
        have i2: "i < u - 1" using lu n1 n2 by (simp add: i_def)
        have k: "int_key i" "int_key (u - 1)" using sortable_key [OF s2] i i2 by simp_all
        have nn: "f2 i \<noteq> TNil" "f2 (u - 1) \<noteq> TNil" using c v2 [of i] v2 [of "u - 1"] i i2 by (auto simp: computes_def)
        define P where "P = f2 i"
        obtain st3 where 3: "set2 st2 i (u - 1) (f2 (u - 1)) P = Inr st3"
            "arr.holds r (f2(i := f2 (u - 1), u - 1 := f2 i)) st3"
          unfolding P_def by (rule set2_swap [OF 2(2) k nn])
        define f3 where "f3 = f2(i := f2 (u - 1), u - 1 := f2 i)"
        have r3: "rearr l u f2 f3" unfolding f3_def by (rule rearr_swap) (use i i2 in auto)
        note s3 = sortable_rearr [OF s2 r3]
        have PV: "P \<in> V" using v2 i by (simp add: P_def)
        have "parts lt P l u f3 l (u - 1)"
          unfolding parts_def
        proof (intro conjI allI impI)
          fix k assume "l \<le> k \<and> k \<le> l"
          then have "k = l" by simp
          then show "\<not> lt P (f3 k)" using 2(4) i i2 by (simp add: f3_def P_def)
        next
          fix k assume "u - 1 \<le> k \<and> k \<le> u"
          then have "k = u - 1 \<or> k = u" by auto
          then show "\<not> lt (f3 k) P" using 2(5) i i2 strict_weak_irrefl [OF o PV] by (auto simp: f3_def P_def)
        qed (use i i2 in \<open>auto simp: f3_def P_def\<close>)
        from partition_spec [OF c o 3(2) [folded f3_def] s3 this PV] obtain st4 f4 p where
          4: "partition_loop cmp st3 P l u l (u - 1) = Inr (st4, p)" "arr.holds r f4 st4" "rearr l u f3 f4"
            "l < p" "p \<le> u - 1" "f4 (u - 1) = P"
            "\<And>k. l \<le> k \<Longrightarrow> k < p \<Longrightarrow> \<not> lt P (f4 k)" "\<And>k. p \<le> k \<Longrightarrow> k \<le> u \<Longrightarrow> \<not> lt (f4 k) P" by blast
        note s4 = sortable_rearr [OF s3 4(3)]
        have v4: "f4 k \<in> V" if "l \<le> k" "k \<le> u" for k using s4 that by (simp add: sortable_def)
        have k4: "int_key p" using sortable_key [OF s4] 4(4,5) by simp
        have nn4: "f4 (u - 1) \<noteq> TNil" "f4 p \<noteq> TNil" using c v4 [of p] v4 [of "u - 1"] 4(4,5) i i2 by (auto simp: computes_def)
        obtain st5 where 5: "set2 st4 (u - 1) p (f4 p) (f4 (u - 1)) = Inr st5"
            "arr.holds r (f4(u - 1 := f4 p, p := f4 (u - 1))) st5"
          by (rule set2_swap [OF 4(2) k(2) k4 nn4])
        define f5 where "f5 = f4(u - 1 := f4 p, p := f4 (u - 1))"
        have r5: "rearr l u f4 f5" unfolding f5_def by (rule rearr_swap) (use 4(4,5) i i2 in auto)
        note s5 = sortable_rearr [OF s4 r5]
        have r05: "rearr l u f f5" using r2 r3 4(3) r5 rearr_trans by blast
        have lo: "\<not> lt (f5 p) (f5 k)" if "l \<le> k" "k < p" for k using 4(5,6) 4(7) [of k] that by (simp add: f5_def)
        have hi: "\<not> lt (f5 k) (f5 p)" if "p < k" "k \<le> u" for k using 4(4,6) 4(8) [of k] 4(8) [of p] that by (auto simp: f5_def)
        have pu: "p < u" using 4(5) by simp
        have IH: "sorts_to lt r a b g (auxsort cmp fuel st' a b)"
          if "arr.holds r g st'" "sortable V a b g" "l \<le> a" "b \<le> u" "b - a < u - l" for g st' a b
          by (rule Suc.IH [OF that(1,2)]) (use that Suc.prems(3) lu in auto)
        have halves: "sorts_to lt r l u f5 (bindE (auxsort cmp fuel st5 l (p - 1)) (\<lambda>st'. auxsort cmp fuel st' (p + 1) u))"
          "sorts_to lt r l u f5 (bindE (auxsort cmp fuel st5 (p + 1) u) (\<lambda>st'. auxsort cmp fuel st' l (p - 1)))"
          using sort_halves [OF o s5 4(4) pu _ _ 5(2) [folded f5_def], of "auxsort cmp fuel"] lo hi IH by auto
        have eq: "auxsort cmp (Suc fuel) st l u =
            (if p - l < u - p then bindE (auxsort cmp fuel st5 l (p - 1)) (\<lambda>st6. auxsort cmp fuel st6 (p + 1) u)
             else bindE (auxsort cmp fuel st5 (p + 1) u) (\<lambda>st6. auxsort cmp fuel st6 l (p - 1)))"
          using lu n1 n2 1(1) 2(1) 3(1) 4(1) 5(1)
          by (simp add: i_def [symmetric] arr.holds_get [OF 2(2) k(1)] arr.holds_get [OF 2(2) k(2)] P_def [symmetric]
              arr.holds_get [OF 4(2) k4] arr.holds_get [OF 4(2) k(2)])
        have "sorts_to lt r l u f5 (auxsort cmp (Suc fuel) st l u)" unfolding eq using halves by simp
        then show ?thesis using r05 rearr_trans unfolding sorts_to_def by blast
      qed
    qed
  qed
qed simp

text \<open>C14: \<open>table.sort\<close> sorts: when the comparison computes a strict weak order on the elements of a sequence
of length \<open>n\<close>, it ends without an error, the elements from 1 to \<open>n\<close> are a rearrangement of what they
were, no element is less than an earlier one, and nothing else in the table has changed. Fuel
\<open>n + 2\<close> bounds the depth of its recursion.\<close>

theorem sort_sorts:
  assumes "table_ok t" "is_seq (t, w) n" "lua_type args 1 = 5" "lua_isnoneornil args 2 \<or> lua_type args 2 = 6"
    and "int (length args) \<le> 2008" "nat n + 2 \<le> fuel"
    and "computes (sort_comp call lessthan (arg_value args 2)) (lua_rawgeti (t, w) ` {1..n}) lt"
    and "strict_weak (lua_rawgeti (t, w) ` {1..n}) lt"
  shows "\<exists>t'. sort_tab call lessthan fuel ar args (t, w) = Inr (t', w) \<and> table_ok t' \<and> other_keys t' = other_keys t
    \<and> image_mset (lua_rawgeti (t', w)) (mset_set {1..n}) = image_mset (lua_rawgeti (t, w)) (mset_set {1..n})
    \<and> (\<forall>i j. 1 \<le> i \<and> i < j \<and> j \<le> n \<longrightarrow> \<not> lt (lua_rawgeti (t', w) j) (lua_rawgeti (t', w) i))
    \<and> (\<forall>k. int_key k \<and> (k < 1 \<or> n < k) \<longrightarrow> lua_rawgeti (t', w) k = lua_rawgeti (t, w) k)"
proof -
  have h: "arr.holds (w, other_keys t) (lua_rawgeti (t, w)) (t, w)" using arr_holds [of "(t, w)"] assms(1) by simp
  have n: "0 \<le> n" "n \<le> MAX_INT" using assms(2) by (simp_all add: is_seq_def)
  then have s: "sortable (lua_rawgeti (t, w) ` {1..n}) 1 n (lua_rawgeti (t, w))"
    by (auto simp: sortable_def int_key_def MAX_INT_def)
  have "nat (n - 1 + 1) < fuel" using assms(6) by simp
  from auxsort_spec [OF assms(7,8) h s this] obtain st' f' where
    r: "auxsort (sort_comp call lessthan (arg_value args 2)) fuel (t, w) 1 n = Inr st'"
      "arr.holds (w, other_keys t) f' st'" "rearr 1 n (lua_rawgeti (t, w)) f'" "sorted_on lt 1 n f'"
    by (auto simp: sorts_to_def)
  obtain t' where st': "st' = (t', w)" "table_ok t'" "other_keys t' = other_keys t"
    using r(2) by (cases st') (auto simp: arr.holds_def)
  have f': "lua_rawgeti (t', w) k = f' k" if "int_key k" for k using arr.holds_get [OF r(2) that] st' by simp
  then have k: "lua_rawgeti (t', w) k = f' k" if "1 \<le> k" "k \<le> n" for k using n that by (simp add: int_key_def MAX_INT_def)
  have "image_mset (lua_rawgeti (t', w)) (mset_set {1..n}) = image_mset f' (mset_set {1..n})"
    by (rule image_mset_cong) (use k in simp)
  also have "\<dots> = image_mset (lua_rawgeti (t, w)) (mset_set {1..n})" using r(3) by (simp add: rearr_def)
  finally have m: "image_mset (lua_rawgeti (t', w)) (mset_set {1..n}) = image_mset (lua_rawgeti (t, w)) (mset_set {1..n})" .
  have so: "\<forall>i j. 1 \<le> i \<and> i < j \<and> j \<le> n \<longrightarrow> \<not> lt (lua_rawgeti (t', w) j) (lua_rawgeti (t', w) i)"
    using r(4) k by (simp add: sorted_on_def)
  have ou: "\<forall>k. int_key k \<and> (k < 1 \<or> n < k) \<longrightarrow> lua_rawgeti (t', w) k = lua_rawgeti (t, w) k"
    using rearr_outside [OF r(3)] f' by auto
  have "sort_tab call lessthan fuel ar args (t, w) = Inr (t', w)"
    using r(1) st'(1) assms(4,5) aux_getn_seq(1) [OF assms(1,3,2)]
    by (auto simp: sort_tab_def luaL_checkstack_def luaL_checktype_def)
  with st' m so ou show ?thesis by blast
qed

subsection \<open>Examples\<close>

text \<open>A table with an array part only.\<close>

definition array_table :: "tvalue list \<Rightarrow> lua_table" where
  "array_table vs = \<lparr>flags = 255, lsizenode = 0, metatable = None, array = vs, node = [empty_node],
     is_dummy = True, lastfree = 0, sizearray = length vs\<rparr>"

lemma array_table_ok:
  assumes "length vs \<le> 67108864"
  shows "table_ok (array_table vs)"
proof -
  have u: "\<not> used [empty_node] i" for i by (cases i) (auto simp: used_def empty_node_def)
  have e: "edges [empty_node] = {}" by (auto simp: edges_def empty_node_def nth_Cons')
  have "\<exists>l. length [empty_node] = 2 ^ l" by (rule exI [of _ 0]) simp
  then have "wf_chains [empty_node]" unfolding wf_chains_def e using u by auto
  moreover have "wf_keys [empty_node]" by (simp add: wf_keys_def empty_node_def)
  ultimately show ?thesis using assms u by (simp add: table_ok_def wf_table_def array_table_def)
qed

lemma array_table_get:
  assumes "1 \<le> i" "i \<le> int (length vs)" "length vs \<le> 67108864"
  shows "lua_rawgeti (array_table vs, w) i = vs ! nat (i - 1)"
  using assms
  by (simp add: lua_rawgeti_def luaH_getnum_def array_table_def read_slot_def slot_val_def mod_pos_pos_trivial)

lemma array_table_out:
  assumes "int (length vs) < i" "int_key i" "length vs \<le> 67108864"
  shows "lua_rawgeti (array_table vs, w) i = TNil"
proof -
  let ?t = "array_table vs"
  have "\<not> (i - 1) mod 4294967296 < int (sizearray ?t)"
    using assms by (simp add: array_table_def mod_pos_pos_trivial int_key_def)
  moreover have "node ?t ! k = empty_node" if "k < Suc 0" for k using that by (simp add: array_table_def)
  moreover have h: "hashnum (sizenode ?t) n < 1" for n
    by (simp add: hashnum_def hashmod_def array_table_def sizenode_def)
  ultimately show ?thesis
    by (auto simp: lua_rawgeti_def luaH_getnum_def search_def Let_def read_slot_def array_table_def empty_node_def
        sizenode_def slot_val_def split: option.splits)
qed

lemma array_table_seq:
  assumes "length vs \<le> 67108864" "TNil \<notin> set vs"
  shows "is_seq (array_table vs, w) (int (length vs))"
  unfolding is_seq_def
proof (intro conjI allI impI iffI)
  fix j assume j: "int_key j" "1 \<le> j"
  show "j \<le> int (length vs)" if "lua_rawgeti (array_table vs, w) j \<noteq> TNil"
    using array_table_out [of vs j w] j assms(1) that by fastforce
  show "lua_rawgeti (array_table vs, w) j \<noteq> TNil" if "j \<le> int (length vs)"
  proof -
    have "vs ! nat (j - 1) \<in> set vs" using that j by (intro nth_mem) simp
    then show ?thesis using array_table_get [OF j(2) that assms(1), of w] assms(2) by auto
  qed
qed (use assms in \<open>simp_all add: MAX_INT_def\<close>)

definition abc :: lua_table where "abc = array_table [TString ''c'', TString ''a'', TString ''b'']"
definition noar :: lua_Debug where "noar = \<lparr>has_frame = True, ar_name = None, namewhat = []\<rparr>"

lemma abc_ok: "table_ok abc" "is_seq (abc, w) 3"
  using array_table_ok [of "[TString ''c'', TString ''a'', TString ''b'']"]
    array_table_seq [of "[TString ''c'', TString ''a'', TString ''b'']" w] by (simp_all add: abc_def)

lemma abc_get: "1 \<le> i \<Longrightarrow> i \<le> 3 \<Longrightarrow> lua_rawgeti (abc, w) i = [TString ''c'', TString ''a'', TString ''b''] ! nat (i - 1)"
  using array_table_get [of i "[TString ''c'', TString ''a'', TString ''b'']" w] by (simp add: abc_def)

lemma abc_insert: "case tinsert noar [TTable 0, pushinteger 2, TBoolean 1] (abc, ()) of Inl _ \<Rightarrow> False | Inr _ \<Rightarrow> True"
  by code_simp

lemma tinsert_shifts_witness:
  "case tinsert noar [TTable 0, pushinteger 2, TBoolean 1] (abc, ()) of
     Inl _ \<Rightarrow> False
   | Inr (t', w') \<Rightarrow> table_ok t' \<and> lua_rawgeti (t', w') 2 = TBoolean 1 \<and> lua_rawgeti (t', w') 3 = TString ''a''"
proof -
  have k: "int_key 2" "int_key 3" by (simp_all add: int_key_def)
  obtain t' w' where i: "tinsert noar [TTable 0, pushinteger 2, TBoolean 1] (abc, ()) = Inr (t', w')"
    using abc_insert by (auto split: sum.splits)
  have "luaH_getn abc = Some 3"
    using aux_getn_seq(2) [OF abc_ok(1) call_insert(2) [OF k(1)] abc_ok(2)] .
  with tinsert_shifts [OF abc_ok(1) k(1) i] k abc_get [of 2] i show ?thesis by simp
qed

lemma insert_remove_roundtrip_witness:
  "case tinsert noar [TTable 0, pushinteger 2, TBoolean 1] (abc, ()) of
     Inl _ \<Rightarrow> False
   | Inr st1 \<Rightarrow> (case tremove noar [TTable 0, pushinteger 2] st1 of
       Inl _ \<Rightarrow> False
     | Inr (st2, r) \<Rightarrow> r = [TBoolean 1] \<and> lua_rawgeti st2 2 = TString ''a'')"
proof -
  obtain st1 where i: "tinsert noar [TTable 0, pushinteger 2, TBoolean 1] (abc, ()) = Inr st1"
    using abc_insert by (auto split: sum.splits)
  have k: "int_key 2" "valid_key (TNumber (cast_num 2))" using cast_num_key(2) [of 2] by (simp_all add: int_key_def)
  have "1 \<le> (2::int)" "(2::int) \<le> 3 + 1" "(3::int) < MAX_INT" "TBoolean 1 \<noteq> TNil" by (simp_all add: MAX_INT_def)
  from insert_remove_roundtrip [OF abc_ok(1) abc_ok(2) this(3,1,2,4) i] obtain st2 where
    r: "tremove noar [TTable 0, pushinteger 2] st1 = Inr (st2, [TBoolean 1])"
      "tget (fst st2) (TNumber (cast_num 2)) = tget abc (TNumber (cast_num 2))" using k(2) by blast
  have "lua_rawgeti st2 2 = lua_rawgeti (abc, ()) 2"
    unfolding rawgeti_tget [OF k(1)] r(2) by simp
  then show ?thesis using r(1) i abc_get [of 2] by simp
qed

lemma tremove_past_end_witness:
  "\<exists>st'. tremove noar [TTable 0, pushinteger 9] (abc, ()) = Inr (st', [TNil]) \<and> is_seq st' 2"
  using tremove_past_end [OF abc_ok(1) abc_ok(2) [of "()"], of 9 noar 0] by simp

definition abc_lt :: "tvalue \<Rightarrow> tvalue \<Rightarrow> bool" where
  "abc_lt a b \<longleftrightarrow> a = TString ''a'' \<and> b \<noteq> TString ''a'' \<or> a = TString ''b'' \<and> b = TString ''c''"

lemma sort_sorts_witness:
  "\<exists>t'. sort_tab (\<lambda>st _ _. Inr (st, TNil)) (\<lambda>st a b. Inr (st, abc_lt a b)) 5 noar [TTable 0] (abc, ()) = Inr (t', ())
     \<and> (\<forall>i j. 1 \<le> i \<and> i < j \<and> j \<le> 3 \<longrightarrow> \<not> abc_lt (lua_rawgeti (t', ()) j) (lua_rawgeti (t', ()) i))"
proof -
  have "{1..3} = {1, 2, 3 :: int}" by auto
  then have V: "lua_rawgeti (abc, ()) ` {1..3} = {TString ''c'', TString ''a'', TString ''b''}"
    by (simp add: abc_get)
  have c: "computes (sort_comp (\<lambda>st _ _. Inr (st, TNil)) (\<lambda>st a b. Inr (st, abc_lt a b)) (arg_value [TTable 0] 2))
      (lua_rawgeti (abc, ()) ` {1..3}) abc_lt"
    by (simp add: computes_def sort_comp_def arg_value_def index2adr_def V)
  have o: "strict_weak (lua_rawgeti (abc, ()) ` {1..3}) abc_lt" unfolding V by (simp add: strict_weak_def abc_lt_def)
  have "lua_type [TTable 0] 1 = 5" "lua_isnoneornil [TTable 0] 2"
    by (simp_all add: lua_type_def index2adr_def lua_isnoneornil_def)
  from sort_sorts [OF abc_ok(1) abc_ok(2) this(1) disjI1 [OF this(2)] _ _ c o, of 5 noar]
  show ?thesis by auto
qed

definition max_key :: "tvalue \<times> tvalue \<Rightarrow> lua_Number \<Rightarrow> lua_Number" where
  "max_key e mx = (case fst e of TNumber v \<Rightarrow> if luai_numlt mx v then v else mx | _ \<Rightarrow> mx)"

lemma maxn_loop_entries:
  assumes "table_ok t" "dead_apart t"
  shows "n \<le> length (entries t) \<Longrightarrow> length (entries t) - n < fuel \<Longrightarrow>
    maxn_loop fuel t (key_before t n) mx = Inr (fold max_key (drop n (entries t)) mx)"
proof (induction fuel arbitrary: n mx)
  case (Suc fuel)
  note nx = luaH_next_spec [OF assms Suc.prems(1)]
  show ?case
  proof (cases "n < length (entries t)")
    case True
    obtain k v where e: "entries t ! n = (k, v)" by fastforce
    have "drop n (entries t) = (k, v) # drop (Suc n) (entries t)" using Cons_nth_drop_Suc [OF True] e by simp
    moreover have "key_before t (Suc n) = k" using e by (simp add: key_before_def)
    ultimately show ?thesis
      using nx True e Suc.IH [of "Suc n"] Suc.prems by (simp add: max_key_def split: tvalue.split)
  qed (use nx Suc.prems in simp)
qed simp

lemma entries_le: "table_ok t \<Longrightarrow> length (entries t) \<le> length (array t) + length (node t)"
proof -
  assume "table_ok t"
  then have "sizearray t = length (array t)" by (simp add: table_ok_def)
  moreover have "length (array_pairs a is) \<le> length is" for a "is" by (simp add: array_pairs_def)
  moreover have "length (node_pairs ns) \<le> length ns" for ns by (simp add: node_pairs_def)
  note this [of "node t"]
  moreover note calculation(2) [of "array t" "[0..<sizearray t]"]
  ultimately show ?thesis by (simp add: entries_def array_entries_def node_entries_def)
qed

lemma fold_max_key:
  assumes "\<not> is_nan mx"
  shows "\<not> is_nan (fold max_key es mx) \<and> num_key mx \<le> num_key (fold max_key es mx)
    \<and> (\<forall>v. TNumber v \<in> fst ` set es \<longrightarrow> \<not> luai_numlt (fold max_key es mx) v)
    \<and> (fold max_key es mx = mx \<or> TNumber (fold max_key es mx) \<in> fst ` set es)"
  using assms
proof (induction es arbitrary: mx)
  case (Cons e es)
  have m: "\<not> is_nan (max_key e mx)" "num_key mx \<le> num_key (max_key e mx)"
    "TNumber v = fst e \<Longrightarrow> is_nan v \<or> num_key v \<le> num_key (max_key e mx)" "max_key e mx = mx \<or> fst e = TNumber (max_key e mx)" for v
    using Cons.prems by (auto simp: max_key_def luai_numlt_def split: tvalue.splits)
  from Cons.IH [OF m(1)] m(2,4) show ?case by (auto simp: luai_numlt_def dest!: m(3))
qed (simp add: luai_numlt_def)

text \<open>\<open>table.maxn\<close> visits every entry of a table and ends. Its result is 0 or a number key of the table,
and no number key of the table is greater.\<close>

theorem maxn_greatest:
  assumes "table_ok t" "dead_apart t" "lua_type args 1 = 5"
  shows "\<exists>m. maxn ar args t = Inr [TNumber m]
    \<and> (m = cast_num 0 \<or> TNumber m \<in> fst ` set (entries t))
    \<and> (\<forall>v. TNumber v \<in> fst ` set (entries t) \<longrightarrow> \<not> luai_numlt m v)"
proof -
  have "maxn_loop (Suc (length (array t) + length (node t))) t (key_before t 0) (cast_num 0)
      = Inr (fold max_key (drop 0 (entries t)) (cast_num 0))"
    by (rule maxn_loop_entries [OF assms(1,2)]) (use entries_le [OF assms(1)] in simp_all)
  then have "maxn ar args t = Inr [TNumber (fold max_key (entries t) (cast_num 0))]"
    using assms(3) by (simp add: maxn_def luaL_checktype_def key_before_def del: maxn_loop.simps)
  moreover have "\<not> is_nan (cast_num 0)" using luai_numeq_cast [of 0] by (simp add: luai_numeq_refl)
  ultimately show ?thesis using fold_max_key [of "cast_num 0" "entries t"] by auto
qed

lemma maxn_greatest_witness:
  "\<exists>m. maxn noar [TTable 0] sample = Inr [TNumber m] \<and> \<not> luai_numlt m (cast_num 1)"
proof -
  have "lua_type [TTable 0] 1 = 5" by (simp add: lua_type_def index2adr_def)
  from maxn_greatest [OF sample_ok sample_apart this, of noar]
  obtain m where m: "maxn noar [TTable 0] sample = Inr [TNumber m]"
    "TNumber (cast_num 1) \<in> fst ` set (entries sample) \<longrightarrow> \<not> luai_numlt m (cast_num 1)" by blast
  have "TNumber (cast_num 1) \<in> fst ` set (entries sample)"
    by (simp add: entries_def array_entries_def node_entries_def array_pairs_def node_pairs_def sample_def)
  with m show ?thesis by blast
qed

end
