(* ===== verification/LuaStream.thy ===== *)
theory LuaStream
  imports LuaAux
begin

text \<open>
  lmem.c: the growth of arrays and the accounting of the allocator; lzio.c: buffered input.

  The blocks that the reader function of the host returns, in the order of its calls, are part of the
  state of a stream: when there is none left the reader returns \<open>NULL\<close>. The allocator of the host is
  the argument \<open>frealloc\<close>, which says whether it can give a block of the new size.
\<close>

section \<open>Memory (lmem)\<close>

abbreviation MINSIZEARRAY :: int where "MINSIZEARRAY \<equiv> 4"

definition luaM_toobig :: "'a res" where
  "luaM_toobig = Inl (LUA_ERRRUN ''memory allocation error: block too big'')"

text \<open>\<open>luaM_realloc_\<close>: the new \<open>totalbytes\<close>.\<close>

definition luaM_realloc :: "(int \<Rightarrow> int \<Rightarrow> bool) \<Rightarrow> int \<Rightarrow> int \<Rightarrow> int \<Rightarrow> int res" where
  "luaM_realloc frealloc totalbytes osize nsize =
     (if \<not> frealloc osize nsize \<and> 0 < nsize then Inl LUA_ERRMEM
      else Inr (uint64 (uint64 (totalbytes - osize) + nsize)))"

definition luaM_reallocv :: "(int \<Rightarrow> int \<Rightarrow> bool) \<Rightarrow> int \<Rightarrow> int \<Rightarrow> int \<Rightarrow> int \<Rightarrow> int res" where
  "luaM_reallocv frealloc totalbytes on n e =
     (if uint64 (n + 1) \<le> MAX_SIZET div e then luaM_realloc frealloc totalbytes (uint64 (on * e)) (uint64 (n * e))
      else luaM_toobig)"

text \<open>\<open>luaM_growaux_\<close>: the new size of the array and the new \<open>totalbytes\<close>.\<close>

definition luaM_growaux :: "(int \<Rightarrow> int \<Rightarrow> bool) \<Rightarrow> int \<Rightarrow> int \<Rightarrow> int \<Rightarrow> int \<Rightarrow> string \<Rightarrow> (int \<times> int) res" where
  "luaM_growaux frealloc totalbytes size' size_elems limit errormsg =
     bindE (if limit div 2 \<le> size' then
              (if limit \<le> size' then Inl (LUA_ERRRUN errormsg) else Inr limit)
            else Inr (if size' * 2 < MINSIZEARRAY then MINSIZEARRAY else size' * 2)) (\<lambda>newsize.
     bindE (luaM_reallocv frealloc totalbytes size' newsize size_elems) (\<lambda>total.
       Inr (newsize, total)))"

definition luaM_growvector :: "(int \<Rightarrow> int \<Rightarrow> bool) \<Rightarrow> int \<Rightarrow> int \<Rightarrow> int \<Rightarrow> int \<Rightarrow> int \<Rightarrow> string \<Rightarrow> (int \<times> int) res" where
  "luaM_growvector frealloc totalbytes nelems size' size_elems limit e =
     (if size' < nelems + 1 then luaM_growaux frealloc totalbytes size' size_elems limit e
      else Inr (size', totalbytes))"

lemma uint64_size: "0 \<le> n \<Longrightarrow> n < 18446744073709551616 \<Longrightarrow> uint64 n = n"
  by (simp add: uint64_def)

text \<open>Growing an array makes room for one more element and never exceeds the limit of the array;
once the array has the limit as its size, the error of the caller is raised; and the count of the
allocated bytes moves by exactly the bytes that the array gained.\<close>

theorem growvector_room:
  assumes "0 \<le> nelems" "nelems \<le> size'" "size' \<le> limit" "4 \<le> limit" "limit < 2147483647"
    and "0 < size_elems" "size_elems \<le> 1048576" "0 \<le> totalbytes" "size' * size_elems \<le> totalbytes"
    and "totalbytes < 1152921504606846976" "\<And>osize nsize. frealloc osize nsize"
  shows "if nelems = limit then luaM_growvector frealloc totalbytes nelems size' size_elems limit e = Inl (LUA_ERRRUN e)
    else \<exists>n. luaM_growvector frealloc totalbytes nelems size' size_elems limit e
               = Inr (n, totalbytes + (n - size') * size_elems)
           \<and> nelems < n \<and> size' \<le> n \<and> n \<le> limit \<and> (size' < n \<longrightarrow> n = limit \<or> 2 * size' \<le> n)"
proof -
  have r: "luaM_reallocv frealloc totalbytes size' n size_elems = Inr (totalbytes + (n - size') * size_elems)"
    if "size' \<le> n" "n \<le> limit" for n
  proof -
    have "MAX_SIZET div 1048576 \<le> MAX_SIZET div size_elems"
      using assms(6,7) by (intro zdiv_mono2) (simp_all add: MAX_SIZET_def)
    then have le: "uint64 (n + 1) \<le> MAX_SIZET div size_elems"
      using that assms by (simp add: uint64_def MAX_SIZET_def)
    have "n * size_elems \<le> 2147483647 * 1048576" using that assms by (intro mult_mono) simp_all
    moreover have "0 \<le> size' * size_elems" "0 \<le> n * size_elems"
      using that assms by (simp_all add: mult_nonneg_nonneg)
    ultimately have b: "0 \<le> size' * size_elems" "0 \<le> n * size_elems" "n * size_elems \<le> 2251799812636672" by simp_all
    have u: "uint64 (size' * size_elems) = size' * size_elems" "uint64 (n * size_elems) = n * size_elems"
      "uint64 (totalbytes - size' * size_elems) = totalbytes - size' * size_elems"
      "uint64 (totalbytes - size' * size_elems + n * size_elems) = totalbytes - size' * size_elems + n * size_elems"
      using b assms(8-10) by (auto intro!: uint64_size)
    show ?thesis
      unfolding luaM_reallocv_def luaM_realloc_def using le assms(11) by (simp add: u left_diff_distrib)
  qed
  show ?thesis
  proof (cases "nelems < size'")
    case True
    then show ?thesis using assms by (simp add: luaM_growvector_def)
  next
    case False
    then have n: "nelems = size'" using assms by simp
    define new where "new = (if limit div 2 \<le> size' then limit else if size' * 2 < 4 then 4 else size' * 2)"
    have new: "size' < limit \<Longrightarrow> size' < new \<and> new \<le> limit \<and> (new = limit \<or> 2 * size' \<le> new)"
      using assms by (auto simp: new_def)
    have "luaM_growvector frealloc totalbytes nelems size' size_elems limit e
        = (if limit \<le> size' then Inl (LUA_ERRRUN e)
           else bindE (luaM_reallocv frealloc totalbytes size' new size_elems) (\<lambda>t. Inr (new, t)))"
      using n assms by (auto simp: luaM_growvector_def luaM_growaux_def new_def)
    with n new r [of new] assms(3) show ?thesis by (cases "size' < limit") auto
  qed
qed

theorem growvector_room_witness:
  "luaM_growvector (\<lambda>_ _. True) 4000 100 100 16 262143 ''constant table overflow'' = Inr (200, 5600)"
proof -
  have "\<exists>n. luaM_growvector (\<lambda>_ _. True) 4000 100 100 16 262143 ''constant table overflow''
          = Inr (n, 4000 + (n - 100) * 16) \<and> 100 < n"
    using growvector_room [of 100 100 262143 16 4000 "\<lambda>_ _. True" "''constant table overflow''"] by auto
  then obtain n where n: "luaM_growvector (\<lambda>_ _. True) 4000 100 100 16 262143 ''constant table overflow''
          = Inr (n, 4000 + (n - 100) * 16)" by blast
  have "luaM_growvector (\<lambda>_ _. True) 4000 100 100 16 262143 ''constant table overflow'' = Inr (200, 5600)"
    by code_simp
  with n show ?thesis by simp
qed

section \<open>Streams (lzio)\<close>

abbreviation EOZ :: int where "EOZ \<equiv> - 1"
abbreviation LUA_MINBUFFER :: int where "LUA_MINBUFFER \<equiv> 32"

text \<open>\<open>p\<close> is the rest of the block from the current position.\<close>

record Zio =
  zn :: int
  zp :: string
  blocks :: "string list"

definition luaZ_fill :: "Zio \<Rightarrow> Zio \<times> int" where
  "luaZ_fill z =
     (case blocks z of
        [] \<Rightarrow> (z, EOZ)
      | b # bs \<Rightarrow>
          (case b of
             [] \<Rightarrow> (z\<lparr>blocks := bs\<rparr>, EOZ)
           | c # cs \<Rightarrow> (z\<lparr>zn := int (length b) - 1, zp := cs, blocks := bs\<rparr>, uchar c)))"

text \<open>\<open>zgetc\<close>; \<open>n\<close> is a \<open>size_t\<close> and wraps when there is nothing left. It does not recover from that
when the reader has no block: a further \<open>zgetc\<close> reads behind the last block.\<close>

definition zgetc :: "Zio \<Rightarrow> (Zio \<times> int) res" where
  "zgetc z =
     (let z' = z\<lparr>zn := uint64 (zn z - 1)\<rparr>
      in if 0 < zn z then
           (case zp z of [] \<Rightarrow> Inl UNDEFINED | c # cs \<Rightarrow> Inr (z'\<lparr>zp := cs\<rparr>, uchar c))
         else Inr (luaZ_fill z'))"

text \<open>\<open>luaZ_lookahead\<close> puts the byte back that \<open>luaZ_fill\<close> removed.\<close>

definition luaZ_lookahead :: "Zio \<Rightarrow> (Zio \<times> int) res" where
  "luaZ_lookahead z =
     (if zn z = 0 then
        (let (z', c) = luaZ_fill z
         in if c = EOZ then Inr (z', EOZ) else Inr (z'\<lparr>zn := zn z' + 1, zp := char_of c # zp z'\<rparr>, c))
      else case zp z of [] \<Rightarrow> Inl UNDEFINED | c # cs \<Rightarrow> Inr (z, uchar c))"

definition luaZ_init :: "string list \<Rightarrow> Zio" where
  "luaZ_init reader = \<lparr>zn = 0, zp = [], blocks = reader\<rparr>"

text \<open>
  \<open>luaZ_read\<close>: the bytes it copies and the number of bytes that are missing. The loop takes at least
  one byte each time, so \<open>n\<close> turns are enough.
\<close>

lemma uchar_not_EOZ [simp]: "uchar c \<noteq> EOZ"
  using uchar_range(1) [of c] by simp

lemma char_of_uchar [simp]: "char_of (uchar c) = c"
  by (simp add: uchar_def)

lemma lookahead_some:
  assumes "luaZ_lookahead z = Inr (z', c)" "c \<noteq> EOZ" "0 \<le> zn z"
  shows "0 < zn z'"
  using assms by (auto simp: luaZ_lookahead_def luaZ_fill_def Let_def split: list.splits if_splits)

function luaZ_read :: "Zio \<Rightarrow> nat \<Rightarrow> (Zio \<times> string \<times> nat) res" where
  "luaZ_read z n =
     (if n = 0 then Inr (z, [], 0)
      else bindE (luaZ_lookahead z) (\<lambda>(z1, c).
        if c = EOZ then Inr (z1, [], n)
        else let m = min n (nat (zn z1))
             in if m = 0 \<or> length (zp z1) < m then Inl UNDEFINED
                else bindE (luaZ_read (z1\<lparr>zn := zn z1 - int m, zp := drop m (zp z1)\<rparr>) (n - m)) (\<lambda>(z2, b, k).
                  Inr (z2, take m (zp z1) @ b, k))))"
  by pat_completeness auto
termination by (relation "measure snd") auto

declare luaZ_read.simps [simp del]

section \<open>The contract of an input\<close>

text \<open>
  What the readers of the input rely on: each call takes one byte, and the end is reported when no
  byte is left.
\<close>

locale byte_input =
  fixes ok :: "'s \<Rightarrow> bool" and rest :: "'s \<Rightarrow> string" and get :: "'s \<Rightarrow> ('s \<times> int) res"
  assumes get_byte: "ok st \<Longrightarrow> rest st = c # cs \<Longrightarrow> \<exists>st'. get st = Inr (st', uchar c) \<and> ok st' \<and> rest st' = cs"
    and get_end: "ok st \<Longrightarrow> rest st = [] \<Longrightarrow> \<exists>st'. get st = Inr (st', EOZ) \<and> rest st' = []"
begin

lemma get_total:
  assumes "ok st"
  obtains st' where "get st = Inr (st', case rest st of [] \<Rightarrow> EOZ | c # cs \<Rightarrow> uchar c)"
    "rest st' = tl (rest st)" "rest st \<noteq> [] \<Longrightarrow> ok st'"
proof (cases "rest st")
  case Nil
  with get_end [OF assms] that show ?thesis by auto
next
  case (Cons c cs)
  with get_byte [OF assms Cons] that show ?thesis by auto
qed

text \<open>Two inputs with the same bytes cannot be told apart.\<close>

lemma get_same:
  assumes "ok s" "ok t" "rest s = rest t"
  obtains s' t' c where "get s = Inr (s', c)" "get t = Inr (t', c)" "rest s' = rest t'"
    "c \<noteq> EOZ \<Longrightarrow> ok s' \<and> ok t'" "c = EOZ \<longleftrightarrow> rest s = []"
proof -
  obtain s' where s: "get s = Inr (s', case rest s of [] \<Rightarrow> EOZ | c # cs \<Rightarrow> uchar c)"
    "rest s' = tl (rest s)" "rest s \<noteq> [] \<Longrightarrow> ok s'" using get_total [OF assms(1)] by blast
  obtain t' where t: "get t = Inr (t', case rest t of [] \<Rightarrow> EOZ | c # cs \<Rightarrow> uchar c)"
    "rest t' = tl (rest t)" "rest t \<noteq> [] \<Longrightarrow> ok t'" using get_total [OF assms(2)] by blast
  show thesis by (rule that [OF s(1) t(1) [folded assms(3)]]) (use s t assms(3) in \<open>auto split: list.splits\<close>)
qed

end

text \<open>A stream before its end: the bytes it counts are there. A block of the reader is never empty,
because an empty one means the end.\<close>

definition zio_ok :: "Zio \<Rightarrow> bool" where
  "zio_ok z \<longleftrightarrow> zn z = int (length (zp z)) \<and> zn z < 18446744073709551616 \<and> [] \<notin> set (blocks z)
     \<and> (\<forall>b \<in> set (blocks z). int (length b) < 18446744073709551616)"

definition zio_rest :: "Zio \<Rightarrow> string" where
  "zio_rest z = zp z @ concat (blocks z)"

interpretation zio: byte_input zio_ok zio_rest zgetc
proof unfold_locales
  fix z c cs
  assume ok: "zio_ok z" and r: "zio_rest z = c # cs"
  show "\<exists>z'. zgetc z = Inr (z', uchar c) \<and> zio_ok z' \<and> zio_rest z' = cs"
  proof (cases "zp z")
    case Nil
    with r ok obtain b bs where b: "blocks z = b # bs" "b \<noteq> []" by (cases "blocks z") (auto simp: zio_rest_def zio_ok_def)
    then obtain d ds where "b = d # ds" by (cases b) auto
    with b Nil r ok show ?thesis by (auto simp: zgetc_def luaZ_fill_def zio_ok_def zio_rest_def)
  next
    case (Cons d ds)
    with r ok show ?thesis by (auto simp: zgetc_def zio_ok_def zio_rest_def uint64_def)
  qed
next
  fix z
  assume ok: "zio_ok z" and r: "zio_rest z = []"
  then have "zp z = []" "blocks z = []" by (auto simp: zio_rest_def zio_ok_def) (metis list.set_intros(1) neq_Nil_conv)
  with ok show "\<exists>z'. zgetc z = Inr (z', EOZ) \<and> zio_rest z' = []"
    by (auto simp: zgetc_def luaZ_fill_def zio_ok_def zio_rest_def)
qed

lemma zio_init: 
  assumes "\<And>b. b \<in> set bs \<Longrightarrow> b \<noteq> [] \<and> int (length b) < 18446744073709551616"
  shows "zio_ok (luaZ_init bs)" "zio_rest (luaZ_init bs) = concat bs"
  using assms by (auto simp: luaZ_init_def zio_ok_def zio_rest_def)

lemma lookahead_ok:
  assumes "zio_ok z" "luaZ_lookahead z = Inr (z', c)"
  shows "zio_ok z' \<and> zio_rest z' = zio_rest z \<and> (c = EOZ \<longleftrightarrow> zio_rest z = []) \<and> (c \<noteq> EOZ \<longrightarrow> zp z' \<noteq> [])"
proof (cases "zp z")
  case Nil
  show ?thesis
  proof (cases "blocks z")
    case Nil
    with assms \<open>zp z = []\<close> show ?thesis by (auto simp: luaZ_lookahead_def luaZ_fill_def zio_ok_def zio_rest_def)
  next
    case (Cons b bs)
    with assms(1) obtain d ds where "b = d # ds" by (cases b) (auto simp: zio_ok_def)
    with assms Cons \<open>zp z = []\<close> show ?thesis
      by (auto simp: luaZ_lookahead_def luaZ_fill_def zio_ok_def zio_rest_def)
  qed
next
  case (Cons d ds)
  with assms show ?thesis by (auto simp: luaZ_lookahead_def zio_ok_def zio_rest_def)
qed

lemma lookahead_total: "zio_ok z \<Longrightarrow> \<exists>r. luaZ_lookahead z = Inr r"
  by (cases "luaZ_fill z") (auto simp: luaZ_lookahead_def zio_ok_def split: list.splits)

lemma luaZ_read_spec:
  assumes "zio_ok z"
  shows "\<exists>z'. luaZ_read z n = Inr (z', take n (zio_rest z), n - length (zio_rest z))
    \<and> zio_ok z' \<and> zio_rest z' = drop n (zio_rest z)"
  using assms
proof (induction z n rule: luaZ_read.induct)
  case (1 z n)
  show ?case
  proof (cases "n = 0")
    case True
    then have "luaZ_read z n = Inr (z, [], 0)" by (simp add: luaZ_read.simps [of z 0])
    with True "1.prems" show ?thesis by simp
  next
    case False
    obtain z1 c where l: "luaZ_lookahead z = Inr (z1, c)" using lookahead_total [OF "1.prems"] by auto
    note ok = lookahead_ok [OF "1.prems" l]
    show ?thesis
    proof (cases "c = EOZ")
      case True
      with l ok False show ?thesis by (auto simp: luaZ_read.simps [of z n])
    next
      case c: False
      let ?m = "min n (nat (zn z1))"
      let ?z = "z1\<lparr>zn := zn z1 - int ?m, zp := drop ?m (zp z1)\<rparr>"
      have m: "?m \<noteq> 0" "\<not> length (zp z1) < ?m" using ok c False by (auto simp: zio_ok_def)
      have z: "zio_ok ?z" "zio_rest ?z = drop ?m (zp z1 @ concat (blocks z1))"
        using ok [THEN conjunct1] by (auto simp: zio_ok_def zio_rest_def)
      have zr: "zp z1 @ concat (blocks z1) = zio_rest z" using ok by (simp add: zio_rest_def)
      have t: "take ?m (zp z1) = take ?m (zio_rest z)"
        unfolding zr [symmetric] using ok [THEN conjunct1] by (simp add: zio_ok_def)
      have a: "\<not> (?m = 0 \<or> length (zp z1) < ?m)" using m by simp
      from "1.IH" [OF False l refl c refl a z(1)] obtain z' where
        r: "luaZ_read ?z (n - ?m) = Inr (z', take (n - ?m) (zio_rest ?z), n - ?m - length (zio_rest ?z))"
           "zio_ok z'" "zio_rest z' = drop (n - ?m) (zio_rest ?z)" by blast
      have "luaZ_read z n = Inr (z', take ?m (zp z1) @ take (n - ?m) (zio_rest ?z), n - ?m - length (zio_rest ?z))"
        using False l c m r(1) by (simp add: luaZ_read.simps [of z n] Let_def)
      moreover have "take ?m (zp z1) @ take (n - ?m) (zio_rest ?z) = take n (zio_rest z)"
        unfolding t z(2) zr using take_add [of ?m "n - ?m" "zio_rest z"] by simp
      moreover have "n - ?m - length (zio_rest ?z) = n - length (zio_rest z)"
        unfolding z(2) zr [symmetric] using ok [THEN conjunct1] by (simp add: zio_ok_def)
      moreover have "drop (n - ?m) (zio_rest ?z) = drop n (zio_rest z)"
        unfolding z(2) zr by simp
      ultimately show ?thesis using r by auto
    qed
  qed
qed

text \<open>C38: \<open>luaZ_read\<close> returns the next \<open>n\<close> bytes of the input, however the reader cuts the input into
blocks, and the number of bytes that are missing when the input ends before.\<close>

theorem luaZ_read_bytes:
  assumes "zio_ok z"
  shows "\<exists>z'. luaZ_read z n = Inr (z', take n (zio_rest z), n - length (zio_rest z))
    \<and> zio_ok z' \<and> zio_rest z' = drop n (zio_rest z)"
  by (rule luaZ_read_spec [OF assms])

theorem luaZ_read_bytes_witness:
  "\<exists>z'. luaZ_read (luaZ_init [''ab'', ''cde'']) 4 = Inr (z', ''abcd'', 0)"
proof -
  have "zio_ok (luaZ_init [''ab'', ''cde''])" "zio_rest (luaZ_init [''ab'', ''cde'']) = ''abcde''"
    by (simp_all add: zio_ok_def zio_rest_def luaZ_init_def)
  with luaZ_read_bytes [of "luaZ_init [''ab'', ''cde'']" 4] show ?thesis by auto
qed

end
