(* ===== verification/LuaLex.thy ===== *)
theory LuaLex
  imports LuaStream LuaTableApi
begin

text \<open>
  llex.c: the lexical analyzer. The state is the record \<open>LexState\<close>; \<open>ls_h\<close> is the table of the function
  that is being compiled (\<open>ls->fs->h\<close>), where the strings of the source are anchored. A loop of the
  code is a function that consumes input: each turn takes at least one byte, so every loop ends.

  The locale is the C locale, whose decimal point is a point. Configuration: \<open>LUA_COMPAT_LSTR\<close> is 1.
\<close>

section \<open>Tokens\<close>

abbreviation FIRST_RESERVED :: int where "FIRST_RESERVED \<equiv> 257"

definition luaX_tokens :: "string list" where
  "luaX_tokens = [''and'', ''break'', ''do'', ''else'', ''elseif'', ''end'', ''false'', ''for'', ''function'',
     ''if'', ''in'', ''local'', ''nil'', ''not'', ''or'', ''repeat'', ''return'', ''then'', ''true'', ''until'',
     ''while'', ''..'', ''...'', ''=='', ''>='', ''<='', ''~='', ''<number>'', ''<name>'', ''<string>'', ''<eof>'']"

text \<open>The terminal symbols of \<open>enum RESERVED\<close>, in its order.\<close>

abbreviation TK_AND :: int where "TK_AND \<equiv> 257"
abbreviation TK_BREAK :: int where "TK_BREAK \<equiv> 258"
abbreviation TK_DO :: int where "TK_DO \<equiv> 259"
abbreviation TK_ELSE :: int where "TK_ELSE \<equiv> 260"
abbreviation TK_ELSEIF :: int where "TK_ELSEIF \<equiv> 261"
abbreviation TK_END :: int where "TK_END \<equiv> 262"
abbreviation TK_FALSE :: int where "TK_FALSE \<equiv> 263"
abbreviation TK_FOR :: int where "TK_FOR \<equiv> 264"
abbreviation TK_FUNCTION :: int where "TK_FUNCTION \<equiv> 265"
abbreviation TK_IF :: int where "TK_IF \<equiv> 266"
abbreviation TK_IN :: int where "TK_IN \<equiv> 267"
abbreviation TK_LOCAL :: int where "TK_LOCAL \<equiv> 268"
abbreviation TK_NIL :: int where "TK_NIL \<equiv> 269"
abbreviation TK_NOT :: int where "TK_NOT \<equiv> 270"
abbreviation TK_OR :: int where "TK_OR \<equiv> 271"
abbreviation TK_REPEAT :: int where "TK_REPEAT \<equiv> 272"
abbreviation TK_RETURN :: int where "TK_RETURN \<equiv> 273"
abbreviation TK_THEN :: int where "TK_THEN \<equiv> 274"
abbreviation TK_TRUE :: int where "TK_TRUE \<equiv> 275"
abbreviation TK_UNTIL :: int where "TK_UNTIL \<equiv> 276"
abbreviation TK_WHILE :: int where "TK_WHILE \<equiv> 277"
abbreviation TK_CONCAT :: int where "TK_CONCAT \<equiv> 278"
abbreviation TK_DOTS :: int where "TK_DOTS \<equiv> 279"
abbreviation TK_EQ :: int where "TK_EQ \<equiv> 280"
abbreviation TK_GE :: int where "TK_GE \<equiv> 281"
abbreviation TK_LE :: int where "TK_LE \<equiv> 282"
abbreviation TK_NE :: int where "TK_NE \<equiv> 283"
abbreviation TK_NUMBER :: int where "TK_NUMBER \<equiv> 284"
abbreviation TK_NAME :: int where "TK_NAME \<equiv> 285"
abbreviation TK_STRING :: int where "TK_STRING \<equiv> 286"
abbreviation TK_EOS :: int where "TK_EOS \<equiv> 287"

abbreviation NUM_RESERVED :: nat where "NUM_RESERVED \<equiv> 21"

text \<open>The union \<open>SemInfo\<close>; \<open>SemNone\<close> before anything is stored in it.\<close>

datatype SemInfo = SemNone | SemNum lua_Number | SemStr string

record Token =
  t_token :: int
  t_seminfo :: SemInfo

record LexState =
  ls_current :: int
  ls_linenumber :: int
  ls_lastline :: int
  ls_t :: Token
  ls_lookahead :: Token
  ls_h :: lua_table
  ls_z :: Zio
  ls_buff :: string
  ls_buffsize :: int
  ls_source :: string
  ls_decpoint :: char

section \<open>Errors\<close>

abbreviation MAXSRC :: int where "MAXSRC \<equiv> 80"

text \<open>\<open>luaX_lexerror\<close> with token 0, which the other parts of it need.\<close>

definition lex_message :: "LexState \<Rightarrow> string \<Rightarrow> string" where
  "lex_message ls msg =
     luaO_pushvfstring ''%s:%d: %s'' [FStr (Some (luaO_chunkid (ls_source ls) MAXSRC)), FInt (ls_linenumber ls), FStr (Some msg)]"

text \<open>\<open>save\<close> writes at \<open>n\<close>; the model checks that the place is inside the buffer.\<close>

definition save :: "LexState \<Rightarrow> char \<Rightarrow> LexState res" where
  "save ls c =
     (let n = int (length (ls_buff ls))
      in bindE (if ls_buffsize ls < n + 1 then
                  (if MAX_SIZET div 2 \<le> ls_buffsize ls
                   then Inl (LUA_ERRSYNTAX (lex_message ls ''lexical element too long''))
                   else Inr (ls_buffsize ls * 2))
                else Inr (ls_buffsize ls)) (\<lambda>size'.
         if size' < n + 1 then Inl UNDEFINED
         else Inr (ls\<lparr>ls_buff := ls_buff ls @ [c], ls_buffsize := size'\<rparr>)))"

definition luaX_token2str :: "int \<Rightarrow> string" where
  "luaX_token2str token =
     (if token < FIRST_RESERVED then
        (if iscntrl token then luaO_pushvfstring ''char(%d)'' [FInt token] else luaO_pushvfstring ''%c'' [FInt token])
      else luaX_tokens ! nat (token - FIRST_RESERVED))"

definition txtToken :: "LexState \<Rightarrow> int \<Rightarrow> (LexState \<times> string) res" where
  "txtToken ls token =
     (if token = TK_NAME \<or> token = TK_STRING \<or> token = TK_NUMBER then
        bindE (save ls NUL) (\<lambda>ls'. Inr (ls', ls_buff ls'))
      else Inr (ls, luaX_token2str token))"

definition luaX_lexerror :: "LexState \<Rightarrow> string \<Rightarrow> int \<Rightarrow> 'a res" where
  "luaX_lexerror ls msg token =
     (if token = 0 then Inl (LUA_ERRSYNTAX (lex_message ls msg))
      else bindE (txtToken ls token) (\<lambda>(ls', txt).
        Inl (LUA_ERRSYNTAX (luaO_pushvfstring (''%s near '' @ LUA_QL ''%s'')
               [FStr (Some (lex_message ls msg)), FStr (Some txt)]))))"

definition luaX_syntaxerror :: "LexState \<Rightarrow> string \<Rightarrow> 'a res" where
  "luaX_syntaxerror ls msg = luaX_lexerror ls msg (t_token (ls_t ls))"

section \<open>Characters and strings\<close>

definition next_char :: "LexState \<Rightarrow> LexState res" where
  "next_char ls = bindE (zgetc (ls_z ls)) (\<lambda>(z, c). Inr (ls\<lparr>ls_z := z, ls_current := c\<rparr>))"

definition save_and_next :: "LexState \<Rightarrow> LexState res" where
  "save_and_next ls = bindE (save ls (char_of (ls_current ls mod 256))) next_char"

definition currIsNewline :: "LexState \<Rightarrow> bool" where
  "currIsNewline ls = (ls_current ls = 10 \<or> ls_current ls = 13)"

text \<open>The reserved words keep their number in their string object; a string of the model is its bytes.\<close>

definition reserved :: "string \<Rightarrow> nat" where
  "reserved s =
     (case List.find (\<lambda>i. luaX_tokens ! i = s) [0..<NUM_RESERVED] of None \<Rightarrow> 0 | Some i \<Rightarrow> i + 1)"

definition luaX_newstring :: "LexState \<Rightarrow> string \<Rightarrow> (LexState \<times> string) res" where
  "luaX_newstring ls s =
     bindE (luaH_setstr (ls_h ls) s) (\<lambda>(h, p).
       Inr (ls\<lparr>ls_h := if ttisnil (slot_val h p) then slot_set h p (TBoolean 1) else h\<rparr>, s))"

definition inclinenumber :: "LexState \<Rightarrow> LexState res" where
  "inclinenumber ls =
     (let old = ls_current ls
      in bindE (next_char ls) (\<lambda>ls1.
         bindE (if currIsNewline ls1 \<and> ls_current ls1 \<noteq> old then next_char ls1 else Inr ls1) (\<lambda>ls2.
           let ls3 = ls2\<lparr>ls_linenumber := ls_linenumber ls2 + 1\<rparr>
           in if MAX_INT \<le> ls_linenumber ls3 then luaX_syntaxerror ls3 ''chunk has too many lines'' else Inr ls3)))"

text \<open>\<open>luaX_setinput\<close>; the table is set by the parser before the first token is read.\<close>

definition luaX_setinput :: "Zio \<Rightarrow> string \<Rightarrow> lua_table \<Rightarrow> LexState res" where
  "luaX_setinput z source h =
     next_char \<lparr>ls_current = 0, ls_linenumber = 1, ls_lastline = 1,
        ls_t = \<lparr>t_token = 0, t_seminfo = SemNone\<rparr>, ls_lookahead = \<lparr>t_token = TK_EOS, t_seminfo = SemNone\<rparr>,
        ls_h = h, ls_z = z, ls_buff = [], ls_buffsize = LUA_MINBUFFER, ls_source = source, ls_decpoint = CHR ''.''\<rparr>"

text \<open>\<open>strchr(set, ls->current)\<close>: its argument is converted to \<open>char\<close>, and it finds the terminator.\<close>

definition check_next :: "LexState \<Rightarrow> string \<Rightarrow> (LexState \<times> bool) res" where
  "check_next ls cs =
     (if \<not> strchr cs (char_of (ls_current ls mod 256)) then Inr (ls, False)
      else bindE (save_and_next ls) (\<lambda>ls'. Inr (ls', True)))"

section \<open>Consumption of the input\<close>

text \<open>What a turn of a loop makes smaller.\<close>

definition input_left :: "LexState \<Rightarrow> nat" where
  "input_left ls = length (zio_rest (ls_z ls)) + (if ls_current ls = EOZ then 0 else 1)"

lemma next_char_left:
  assumes "next_char ls = Inr ls'"
  shows "input_left ls' \<le> input_left ls" "ls_current ls \<noteq> EOZ \<Longrightarrow> input_left ls' < input_left ls"
  using assms
  by (auto simp: next_char_def zgetc_def luaZ_fill_def input_left_def zio_rest_def bindE_Inr_iff Let_def
      split: list.splits if_splits)

lemma save_left: "save ls c = Inr ls' \<Longrightarrow> input_left ls' = input_left ls \<and> ls_current ls' = ls_current ls"
  by (auto simp: save_def input_left_def bindE_Inr_iff Let_def split: if_splits)

lemma save_and_next_left:
  assumes "save_and_next ls = Inr ls'"
  shows "input_left ls' \<le> input_left ls" "ls_current ls \<noteq> EOZ \<Longrightarrow> input_left ls' < input_left ls"
  using assms by (auto simp: save_and_next_def bindE_Inr_iff dest!: save_left dest: next_char_left)

text \<open>\<open>while (P(ls->current)) save_and_next(ls)\<close>: no \<open>P\<close> of the code holds of \<open>EOZ\<close>.\<close>

function save_while :: "(int \<Rightarrow> bool) \<Rightarrow> LexState \<Rightarrow> LexState res" where
  "save_while P ls =
     (if ls_current ls \<noteq> EOZ \<and> P (ls_current ls) then bindE (save_and_next ls) (save_while P) else Inr ls)"
  by pat_completeness auto
termination by (relation "measure (\<lambda>(P, ls). input_left ls)") (auto dest: save_and_next_left)

declare save_while.simps [simp del]

lemma save_while_left: "save_while P ls = Inr ls' \<Longrightarrow> input_left ls' \<le> input_left ls"
proof (induction P ls rule: save_while.induct)
  case (1 P ls)
  show ?case
  proof (cases "ls_current ls \<noteq> EOZ \<and> P (ls_current ls)")
    case True
    with "1.prems" obtain ls1 where s: "save_and_next ls = Inr ls1" "save_while P ls1 = Inr ls'"
      by (auto simp: save_while.simps [of P ls] bindE_Inr_iff)
    from "1.IH" [OF True s] save_and_next_left(1) [OF s(1)] show ?thesis by simp
  next
    case False
    with "1.prems" show ?thesis by (simp add: save_while.simps [of P ls])
  qed
qed


section \<open>Numerals\<close>

definition buffreplace :: "LexState \<Rightarrow> char \<Rightarrow> char \<Rightarrow> LexState" where
  "buffreplace ls from to = ls\<lparr>ls_buff := map (\<lambda>c. if c = from then to else c) (ls_buff ls)\<rparr>"

definition trydecpoint :: "LexState \<Rightarrow> (LexState \<times> SemInfo) res" where
  "trydecpoint ls =
     (let ls1 = ls\<lparr>ls_decpoint := CHR ''.''\<rparr>;
          ls2 = buffreplace ls1 (ls_decpoint ls) (ls_decpoint ls1)
      in case luaO_str2d (ls_buff ls2) of
           Some r \<Rightarrow> Inr (ls2, SemNum r)
         | None \<Rightarrow> luaX_lexerror (buffreplace ls2 (ls_decpoint ls2) (CHR ''.'')) ''malformed number'' TK_NUMBER)"

definition numeral_char :: "int \<Rightarrow> bool" where "numeral_char c = (isdigit c \<or> c = 46)"
definition name_char :: "int \<Rightarrow> bool" where "name_char c = (isalnum c \<or> c = 95)"

definition read_numeral :: "LexState \<Rightarrow> (LexState \<times> SemInfo) res" where
  "read_numeral ls =
     bindE (save_and_next ls) (\<lambda>ls.
     bindE (save_while numeral_char ls) (\<lambda>ls.
     bindE (check_next ls ''Ee'') (\<lambda>(ls, e).
     bindE (if e then check_next ls ''+-'' else Inr (ls, False)) (\<lambda>(ls, _).
     bindE (save_while name_char ls) (\<lambda>ls.
     bindE (save ls NUL) (\<lambda>ls.
       let ls1 = buffreplace ls (CHR ''.'') (ls_decpoint ls)
       in case luaO_str2d (ls_buff ls1) of
            Some r \<Rightarrow> Inr (ls1, SemNum r)
          | None \<Rightarrow> trydecpoint ls1))))))"

section \<open>Strings\<close>

text \<open>\<open>skip_sep\<close>: the number of equal signs between two brackets, or a negative number.\<close>

definition skip_sep :: "LexState \<Rightarrow> (LexState \<times> int) res" where
  "skip_sep ls =
     bindE (save_and_next ls) (\<lambda>ls1.
     bindE (save_while (\<lambda>c. c = 61) ls1) (\<lambda>ls2.
       let count = int (length (ls_buff ls2)) - int (length (ls_buff ls1))
       in Inr (ls2, if ls_current ls2 = ls_current ls then count else - count - 1)))"

text \<open>The loop of \<open>read_long_string\<close>; \<open>keep\<close> says that \<open>seminfo\<close> is not \<open>NULL\<close>: the text is kept.\<close>

lemma skip_sep_left:
  "skip_sep ls = Inr (ls', n) \<Longrightarrow> input_left ls' \<le> input_left ls \<and> (ls_current ls \<noteq> EOZ \<longrightarrow> input_left ls' < input_left ls)"
  by (auto simp: skip_sep_def bindE_Inr_iff Let_def dest!: save_while_left dest: save_and_next_left
      intro: le_trans le_less_trans)

lemma lexerror_not_Inr [simp]: "luaX_lexerror ls msg token \<noteq> Inr x"
  by (auto simp: luaX_lexerror_def bindE_Inr_iff)

lemma inclinenumber_left:
  assumes "inclinenumber ls = Inr ls'"
  shows "input_left ls' \<le> input_left ls" "ls_current ls \<noteq> EOZ \<Longrightarrow> input_left ls' < input_left ls"
proof -
  from assms obtain ls1 where s1: "next_char ls = Inr ls1" by (auto simp: inclinenumber_def bindE_Inr_iff)
  from assms obtain ls2 where s2:
    "(if currIsNewline ls1 \<and> ls_current ls1 \<noteq> ls_current ls then next_char ls1 else Inr ls1) = Inr ls2"
    unfolding inclinenumber_def Let_def s1 bindE_simps bindE_Inr_iff by blast
  have s3: "ls' = ls2\<lparr>ls_linenumber := ls_linenumber ls2 + 1\<rparr>"
    using assms unfolding inclinenumber_def Let_def s1 bindE_simps s2
    by (simp add: luaX_syntaxerror_def split: if_splits)
  note s = s1 s2 s3
  have "input_left ls2 \<le> input_left ls1" using s(2) next_char_left(1) by (auto split: if_splits)
  moreover have "input_left ls' = input_left ls2" by (simp add: s(3) input_left_def)
  ultimately show "input_left ls' \<le> input_left ls" "ls_current ls \<noteq> EOZ \<Longrightarrow> input_left ls' < input_left ls"
    using next_char_left [OF s(1)] by auto
qed

function long_string_loop :: "LexState \<Rightarrow> int \<Rightarrow> bool \<Rightarrow> LexState res" where
  "long_string_loop ls sep keep =
     (if ls_current ls = EOZ then
        luaX_lexerror ls (if keep then ''unfinished long string'' else ''unfinished long comment'') TK_EOS
      else if ls_current ls = 91 then
        bindE (skip_sep ls) (\<lambda>(ls1, n).
          if n = sep then
            bindE (save_and_next ls1) (\<lambda>ls2.
              if sep = 0 then luaX_lexerror ls2 ''nesting of [[...]] is deprecated'' 91
              else long_string_loop ls2 sep keep)
          else long_string_loop ls1 sep keep)
      else if ls_current ls = 93 then
        bindE (skip_sep ls) (\<lambda>(ls1, n).
          if n = sep then save_and_next ls1 else long_string_loop ls1 sep keep)
      else if currIsNewline ls then
        bindE (save ls (CHR 0x0A)) (\<lambda>ls1.
        bindE (inclinenumber ls1) (\<lambda>ls2.
          long_string_loop (if keep then ls2 else ls2\<lparr>ls_buff := []\<rparr>) sep keep))
      else bindE (if keep then save_and_next ls else next_char ls) (\<lambda>ls1. long_string_loop ls1 sep keep))"
  by pat_completeness auto
termination
proof (relation "measure (\<lambda>(ls, sep, keep). input_left ls)", goal_cases)
  case (2 ls sep keep x ls1 n ls2)
  then show ?case using skip_sep_left [of ls ls1 n] save_and_next_left(1) [of ls1 ls2] by auto
next
  case (5 ls sep keep ls1 ls2)
  then have "input_left ls1 = input_left ls" "ls_current ls1 = ls_current ls" using save_left by auto
  moreover have "input_left (if keep then ls2 else ls2\<lparr>ls_buff := []\<rparr>) = input_left ls2" by (simp add: input_left_def)
  ultimately show ?case using inclinenumber_left(2) [of ls1 ls2] 5 by auto
next
  case (6 ls sep keep ls1)
  then show ?case using save_and_next_left(2) [of ls ls1] next_char_left(2) [of ls ls1] by (auto split: if_splits)
qed (auto dest!: skip_sep_left)

declare long_string_loop.simps [simp del]

definition read_long_string :: "LexState \<Rightarrow> bool \<Rightarrow> int \<Rightarrow> (LexState \<times> string) res" where
  "read_long_string ls keep sep =
     bindE (save_and_next ls) (\<lambda>ls1.
     bindE (if currIsNewline ls1 then inclinenumber ls1 else Inr ls1) (\<lambda>ls2.
     bindE (long_string_loop ls2 sep keep) (\<lambda>ls3.
       if keep then
         (let n = nat (2 + sep); s = ls_buff ls3
          in luaX_newstring ls3 (take (length s - 2 * n) (drop n s)))
       else Inr (ls3, []))))"

text \<open>An escape sequence, from the character after the backslash on.\<close>

definition escape_char :: "int \<Rightarrow> char option" where
  "escape_char c =
     (if c = 97 then Some (CHR 0x07) else if c = 98 then Some (CHR 0x08) else if c = 102 then Some (CHR 0x0C)
      else if c = 110 then Some (CHR 0x0A) else if c = 114 then Some (CHR 0x0D) else if c = 116 then Some (CHR 0x09)
      else if c = 118 then Some (CHR 0x0B) else None)"

text \<open>\<open>do { c = 10*c + (current-'0'); next } while (++i<3 && isdigit(current))\<close> with \<open>n\<close> turns left.\<close>

fun decimal_loop :: "nat \<Rightarrow> LexState \<Rightarrow> int \<Rightarrow> (LexState \<times> int) res" where
  "decimal_loop 0 ls c = Inr (ls, c)"
| "decimal_loop (Suc n) ls c =
     (let c' = 10 * c + (ls_current ls - 48)
      in bindE (next_char ls) (\<lambda>ls1.
           if isdigit (ls_current ls1) then decimal_loop n ls1 c' else Inr (ls1, c')))"

definition escape_sequence :: "LexState \<Rightarrow> LexState res" where
  "escape_sequence ls =
     (case escape_char (ls_current ls) of
        Some c \<Rightarrow> bindE (save ls c) next_char
      | None \<Rightarrow>
          if currIsNewline ls then bindE (save ls (CHR 0x0A)) inclinenumber
          else if ls_current ls = EOZ then Inr ls
          else if \<not> isdigit (ls_current ls) then save_and_next ls
          else bindE (decimal_loop 3 ls 0) (\<lambda>(ls1, c).
                 if 255 < c then luaX_lexerror ls1 ''escape sequence too large'' TK_STRING
                 else save ls1 (char_of c)))"

lemma decimal_loop_left: "decimal_loop n ls c = Inr (ls', d) \<Longrightarrow> input_left ls' \<le> input_left ls"
proof (induction n ls c rule: decimal_loop.induct)
  case (2 n ls c)
  from "2.prems" obtain ls1 where s: "next_char ls = Inr ls1" by (auto simp: bindE_Inr_iff Let_def)
  show ?case
  proof (cases "isdigit (ls_current ls1)")
    case True
    with "2.prems" s have "decimal_loop n ls1 (10 * c + (ls_current ls - 48)) = Inr (ls', d)" by simp
    from "2.IH" [OF refl s True this] next_char_left(1) [OF s] show ?thesis by simp
  next
    case False
    with "2.prems" s next_char_left(1) [OF s] show ?thesis by simp
  qed
qed simp

lemma escape_sequence_left:
  assumes "escape_sequence ls = Inr ls'"
  shows "input_left ls' \<le> input_left ls"
proof (cases "escape_char (ls_current ls)")
  case (Some c)
  with assms show ?thesis
    by (auto simp: escape_sequence_def bindE_Inr_iff dest!: save_left next_char_left(1))
next
  case None
  with assms show ?thesis
    by (auto simp: escape_sequence_def bindE_Inr_iff split: if_splits
        dest!: save_left inclinenumber_left(1) save_and_next_left(1) decimal_loop_left)
qed

function string_loop :: "LexState \<Rightarrow> int \<Rightarrow> LexState res" where
  "string_loop ls del =
     (if ls_current ls = del then Inr ls
      else if ls_current ls = EOZ then luaX_lexerror ls ''unfinished string'' TK_EOS
      else if currIsNewline ls then luaX_lexerror ls ''unfinished string'' TK_STRING
      else if ls_current ls = 92 then
        bindE (next_char ls) (\<lambda>ls1. bindE (escape_sequence ls1) (\<lambda>ls2. string_loop ls2 del))
      else bindE (save_and_next ls) (\<lambda>ls1. string_loop ls1 del))"
  by pat_completeness auto
termination
proof (relation "measure (\<lambda>(ls, del). input_left ls)", goal_cases)
  case (2 ls del ls1 ls2)
  then show ?case using next_char_left(2) [of ls ls1] escape_sequence_left [of ls1 ls2] by auto
qed (auto dest: save_and_next_left)

declare string_loop.simps [simp del]

definition read_string :: "LexState \<Rightarrow> int \<Rightarrow> (LexState \<times> string) res" where
  "read_string ls del =
     bindE (save_and_next ls) (\<lambda>ls1.
     bindE (string_loop ls1 del) (\<lambda>ls2.
     bindE (save_and_next ls2) (\<lambda>ls3.
       let s = ls_buff ls3 in luaX_newstring ls3 (take (length s - 2) (drop 1 s)))))"


section \<open>The analyzer\<close>

text \<open>The tokens that start with a character and may go on with \<open>=\<close>.\<close>

definition maybe_eq :: "LexState \<Rightarrow> int \<Rightarrow> (LexState \<times> int) res" where
  "maybe_eq ls tk =
     bindE (next_char ls) (\<lambda>ls1.
       if ls_current ls1 \<noteq> 61 then Inr (ls1, ls_current ls)
       else bindE (next_char ls1) (\<lambda>ls2. Inr (ls2, tk)))"

text \<open>\<open>while (!currIsNewline(ls) && ls->current != EOZ) next(ls)\<close>\<close>

function skip_line :: "LexState \<Rightarrow> LexState res" where
  "skip_line ls =
     (if \<not> currIsNewline ls \<and> ls_current ls \<noteq> EOZ then bindE (next_char ls) skip_line else Inr ls)"
  by pat_completeness auto
termination by (relation "measure input_left") (auto dest: next_char_left)

declare skip_line.simps [simp del]

text \<open>A comment, from the second minus sign on.\<close>

definition skip_comment :: "LexState \<Rightarrow> LexState res" where
  "skip_comment ls =
     bindE (next_char ls) (\<lambda>ls1.
       if ls_current ls1 = 91 then
         bindE (skip_sep ls1) (\<lambda>(ls2, sep).
           let ls3 = ls2\<lparr>ls_buff := []\<rparr>
           in if 0 \<le> sep then
                bindE (read_long_string ls3 False sep) (\<lambda>(ls4, _). Inr (ls4\<lparr>ls_buff := []\<rparr>))
              else skip_line ls3)
       else skip_line ls1)"

definition read_name :: "LexState \<Rightarrow> SemInfo \<Rightarrow> (LexState \<times> int \<times> SemInfo) res" where
  "read_name ls sem =
     bindE (save_and_next ls) (\<lambda>ls1.
     bindE (save_while name_char ls1) (\<lambda>ls2.
     bindE (luaX_newstring ls2 (ls_buff ls2)) (\<lambda>(ls3, ts).
       if 0 < reserved ts then Inr (ls3, int (reserved ts) - 1 + FIRST_RESERVED, sem)
       else Inr (ls3, TK_NAME, SemStr ts))))"

lemma long_string_loop_left: "long_string_loop ls sep keep = Inr ls' \<Longrightarrow> input_left ls' \<le> input_left ls"
proof (induction ls sep keep rule: long_string_loop.induct)
  case (1 ls sep keep)
  consider (eoz) "ls_current ls = EOZ" | (lbr) "ls_current ls \<noteq> EOZ" "ls_current ls = 91"
    | (rbr) "ls_current ls \<noteq> EOZ" "ls_current ls \<noteq> 91" "ls_current ls = 93"
    | (nl) "ls_current ls \<noteq> EOZ" "ls_current ls \<noteq> 91" "ls_current ls \<noteq> 93" "currIsNewline ls"
    | (oth) "ls_current ls \<noteq> EOZ" "ls_current ls \<noteq> 91" "ls_current ls \<noteq> 93" "\<not> currIsNewline ls" by blast
  then show ?case
  proof cases
    case eoz
    with "1.prems" show ?thesis by (simp add: long_string_loop.simps [of ls])
  next
    case lbr
    then obtain ls1 n where s: "skip_sep ls = Inr (ls1, n)"
      using "1.prems" by (auto simp: long_string_loop.simps [of ls] bindE_Inr_iff)
    show ?thesis
    proof (cases "n = sep")
      case True
      with lbr s "1.prems" obtain ls2 where s2: "save_and_next ls1 = Inr ls2" "sep \<noteq> 0" "long_string_loop ls2 sep keep = Inr ls'"
        by (auto simp: long_string_loop.simps [of ls] bindE_Inr_iff split: if_splits)
      from "1.IH"(1) [OF lbr s refl True s2] skip_sep_left [OF s] save_and_next_left(1) [OF s2(1)]
      show ?thesis by simp
    next
      case False
      with lbr s "1.prems" have "long_string_loop ls1 sep keep = Inr ls'"
        by (simp add: long_string_loop.simps [of ls])
      from "1.IH"(2) [OF lbr s refl False this] skip_sep_left [OF s] show ?thesis by simp
    qed
  next
    case rbr
    then obtain ls1 n where s: "skip_sep ls = Inr (ls1, n)"
      using "1.prems" by (auto simp: long_string_loop.simps [of ls] bindE_Inr_iff)
    show ?thesis
    proof (cases "n = sep")
      case True
      with rbr s "1.prems" have "save_and_next ls1 = Inr ls'" by (simp add: long_string_loop.simps [of ls])
      from save_and_next_left(1) [OF this] skip_sep_left [OF s] show ?thesis by simp
    next
      case False
      with rbr s "1.prems" have "long_string_loop ls1 sep keep = Inr ls'"
        by (simp add: long_string_loop.simps [of ls])
      from "1.IH"(3) [OF rbr s refl False this] skip_sep_left [OF s] show ?thesis by simp
    qed
  next
    case nl
    with "1.prems" obtain ls1 ls2 where s: "save ls (CHR 0x0A) = Inr ls1" "inclinenumber ls1 = Inr ls2"
      "long_string_loop (if keep then ls2 else ls2\<lparr>ls_buff := []\<rparr>) sep keep = Inr ls'"
      by (auto simp: long_string_loop.simps [of ls] bindE_Inr_iff)
    have "input_left (if keep then ls2 else ls2\<lparr>ls_buff := []\<rparr>) = input_left ls2" by (simp add: input_left_def)
    with "1.IH"(4) [OF nl s] inclinenumber_left(1) [OF s(2)] save_left [OF s(1)] show ?thesis by simp
  next
    case oth
    with "1.prems" obtain ls1 where s: "(if keep then save_and_next ls else next_char ls) = Inr ls1"
      "long_string_loop ls1 sep keep = Inr ls'"
      by (auto simp: long_string_loop.simps [of ls] bindE_Inr_iff)
    have "input_left ls1 \<le> input_left ls" using s(1) save_and_next_left(1) next_char_left(1) by (auto split: if_splits)
    with "1.IH"(5) [OF oth s] show ?thesis by simp
  qed
qed

lemma read_long_comment_left:
  "read_long_string ls False sep = Inr (ls', s) \<Longrightarrow> input_left ls' \<le> input_left ls"
  by (auto simp: read_long_string_def bindE_Inr_iff split: if_splits
      dest!: save_and_next_left(1) inclinenumber_left(1) long_string_loop_left)

lemma skip_line_left: "skip_line ls = Inr ls' \<Longrightarrow> input_left ls' \<le> input_left ls"
proof (induction ls rule: skip_line.induct)
  case (1 ls)
  show ?case
  proof (cases "\<not> currIsNewline ls \<and> ls_current ls \<noteq> EOZ")
    case True
    with "1.prems" obtain ls1 where s: "next_char ls = Inr ls1" "skip_line ls1 = Inr ls'"
      by (auto simp: skip_line.simps [of ls] bindE_Inr_iff)
    from "1.IH" [OF True s] next_char_left(1) [OF s(1)] show ?thesis by simp
  next
    case False
    with "1.prems" show ?thesis by (simp add: skip_line.simps [of ls])
  qed
qed

lemma skip_comment_left: "skip_comment ls = Inr ls' \<Longrightarrow> input_left ls' \<le> input_left ls"
proof -
  have b: "input_left (ls\<lparr>ls_buff := s\<rparr>) = input_left ls" for ls s by (simp add: input_left_def)
  show "skip_comment ls = Inr ls' \<Longrightarrow> input_left ls' \<le> input_left ls"
    by (auto simp: skip_comment_def bindE_Inr_iff Let_def b split: if_splits
        dest!: next_char_left(1) skip_sep_left read_long_comment_left skip_line_left)
qed

function llex_loop :: "LexState \<Rightarrow> SemInfo \<Rightarrow> (LexState \<times> int \<times> SemInfo) res" where
  "llex_loop ls sem =
     (let c = ls_current ls
      in if currIsNewline ls then bindE (inclinenumber ls) (\<lambda>ls1. llex_loop ls1 sem)
         else if c = 45 then
           bindE (next_char ls) (\<lambda>ls1.
             if ls_current ls1 \<noteq> 45 then Inr (ls1, 45, sem)
             else bindE (skip_comment ls1) (\<lambda>ls2. llex_loop ls2 sem))
         else if c = 91 then
           bindE (skip_sep ls) (\<lambda>(ls1, sep).
             if 0 \<le> sep then
               bindE (read_long_string ls1 True sep) (\<lambda>(ls2, s). Inr (ls2, TK_STRING, SemStr s))
             else if sep = - 1 then Inr (ls1, 91, sem)
             else luaX_lexerror ls1 ''invalid long string delimiter'' TK_STRING)
         else if c = 61 then bindE (maybe_eq ls TK_EQ) (\<lambda>(ls1, tk). Inr (ls1, tk, sem))
         else if c = 60 then bindE (maybe_eq ls TK_LE) (\<lambda>(ls1, tk). Inr (ls1, tk, sem))
         else if c = 62 then bindE (maybe_eq ls TK_GE) (\<lambda>(ls1, tk). Inr (ls1, tk, sem))
         else if c = 126 then bindE (maybe_eq ls TK_NE) (\<lambda>(ls1, tk). Inr (ls1, tk, sem))
         else if c = 34 \<or> c = 39 then
           bindE (read_string ls c) (\<lambda>(ls1, s). Inr (ls1, TK_STRING, SemStr s))
         else if c = 46 then
           bindE (save_and_next ls) (\<lambda>ls1.
           bindE (check_next ls1 ''.'') (\<lambda>(ls2, b).
             if b then
               bindE (check_next ls2 ''.'') (\<lambda>(ls3, b').
                 Inr (ls3, if b' then TK_DOTS else TK_CONCAT, sem))
             else if \<not> isdigit (ls_current ls2) then Inr (ls2, 46, sem)
             else bindE (read_numeral ls2) (\<lambda>(ls3, r). Inr (ls3, TK_NUMBER, r))))
         else if c = EOZ then Inr (ls, TK_EOS, sem)
         else if isspace c then bindE (next_char ls) (\<lambda>ls1. llex_loop ls1 sem)
         else if isdigit c then bindE (read_numeral ls) (\<lambda>(ls1, r). Inr (ls1, TK_NUMBER, r))
         else if isalpha c \<or> c = 95 then read_name ls sem
         else bindE (next_char ls) (\<lambda>ls1. Inr (ls1, c, sem)))"
  by pat_completeness auto
termination
proof (relation "measure (\<lambda>(ls, sem). input_left ls)", goal_cases)
  case (2 ls sem c ls1)
  then show ?case using inclinenumber_left(2) [of ls ls1] by (auto simp: currIsNewline_def)
next
  case (3 ls sem c ls1 ls2)
  then show ?case using next_char_left(2) [of ls ls1] skip_comment_left [of ls1 ls2] by auto
next
  case (4 ls sem c ls1)
  then show ?case using next_char_left(2) [of ls ls1] by auto
qed auto

declare llex_loop.simps [simp del]

definition llex :: "LexState \<Rightarrow> SemInfo \<Rightarrow> (LexState \<times> int \<times> SemInfo) res" where
  "llex ls sem = llex_loop (ls\<lparr>ls_buff := []\<rparr>) sem"

definition luaX_next :: "LexState \<Rightarrow> LexState res" where
  "luaX_next ls =
     (let ls1 = ls\<lparr>ls_lastline := ls_linenumber ls\<rparr>
      in if t_token (ls_lookahead ls1) \<noteq> TK_EOS then
           Inr (ls1\<lparr>ls_t := ls_lookahead ls1, ls_lookahead := (ls_lookahead ls1)\<lparr>t_token := TK_EOS\<rparr>\<rparr>)
         else bindE (llex ls1 (t_seminfo (ls_t ls1))) (\<lambda>(ls2, tk, sem).
                Inr (ls2\<lparr>ls_t := \<lparr>t_token = tk, t_seminfo = sem\<rparr>\<rparr>)))"

definition luaX_lookahead :: "LexState \<Rightarrow> LexState res" where
  "luaX_lookahead ls =
     bindE (llex ls (t_seminfo (ls_lookahead ls))) (\<lambda>(ls1, tk, sem).
       Inr (ls1\<lparr>ls_lookahead := \<lparr>t_token = tk, t_seminfo = sem\<rparr>\<rparr>))"

section \<open>Reserved words\<close>

text \<open>\<open>luaX_init\<close>: the words are interned, fixed (bit 5 of \<open>marked\<close>) and numbered.\<close>

definition init_word :: "stringtable \<Rightarrow> nat \<Rightarrow> stringtable res" where
  "init_word tb i =
     bindE (luaS_newlstr tb (luaX_tokens ! i)) (\<lambda>(tb', a).
       Inr (tb'\<lparr>strs := (strs tb')(a := map_option (\<lambda>ts. ts\<lparr>ts_marked := ts_marked ts OR 32,
                                          ts_reserved := (int i + 1) mod 256\<rparr>) (strs tb' a))\<rparr>))"

definition luaX_init :: "stringtable \<Rightarrow> stringtable res" where
  "luaX_init tb = foldE init_word tb [0..<NUM_RESERVED]"


section \<open>The analyzer on two cuttings of an input\<close>

text \<open>
  The state between two steps: the buffer has room for what it holds, the table of the function keeps its
  invariant, and the input has not been read behind its end.
\<close>

definition lex_ok :: "LexState \<Rightarrow> bool" where
  "lex_ok ls \<longleftrightarrow> int (length (ls_buff ls)) \<le> ls_buffsize ls \<and> LUA_MINBUFFER \<le> ls_buffsize ls
     \<and> table_ok (ls_h ls) \<and> (ls_current ls \<noteq> EOZ \<longrightarrow> zio_ok (ls_z ls))"

text \<open>Two states that differ in how the rest of their input is cut into blocks, and have \<open>la\<close> as their
look-ahead token.\<close>

definition lex_rel :: "Token \<Rightarrow> LexState \<Rightarrow> LexState \<Rightarrow> bool" where
  "lex_rel la a b \<longleftrightarrow> lex_ok a \<and> lex_ok b \<and> zio_rest (ls_z b) = zio_rest (ls_z a)
     \<and> ls_current b = ls_current a \<and> ls_linenumber b = ls_linenumber a \<and> ls_lastline b = ls_lastline a
     \<and> ls_t b = ls_t a \<and> ls_lookahead a = la \<and> ls_lookahead b = la \<and> ls_h b = ls_h a \<and> ls_buff b = ls_buff a
     \<and> ls_buffsize b = ls_buffsize a \<and> ls_source b = ls_source a \<and> ls_decpoint b = ls_decpoint a"

text \<open>Two results that agree, and are not caused by an access outside of the memory.\<close>

definition res_rel :: "('a \<Rightarrow> 'b \<Rightarrow> bool) \<Rightarrow> 'a res \<Rightarrow> 'b res \<Rightarrow> bool" where
  "res_rel R r r' =
     (case r of
        Inl e \<Rightarrow> r' = Inl e \<and> e \<noteq> UNDEFINED \<and> e \<noteq> NO_FUEL
      | Inr x \<Rightarrow> (case r' of Inl e \<Rightarrow> False | Inr y \<Rightarrow> R x y))"

definition with_value :: "('a \<Rightarrow> 'a \<Rightarrow> bool) \<Rightarrow> 'a \<times> 'v \<Rightarrow> 'a \<times> 'v \<Rightarrow> bool" where
  "with_value R x y \<longleftrightarrow> R (fst x) (fst y) \<and> snd x = snd y"

lemma with_value_pair [simp]: "with_value R (a, v) (b, w) \<longleftrightarrow> R a b \<and> v = w"
  by (simp add: with_value_def)

lemma res_rel_Inr [simp]: "res_rel R (Inr x) (Inr y) = R x y"
  by (simp add: res_rel_def)

lemma res_rel_Inl [simp]: "res_rel R (Inl e) (Inl d) \<longleftrightarrow> e = d \<and> e \<noteq> UNDEFINED \<and> e \<noteq> NO_FUEL"
  by (auto simp: res_rel_def)

lemma res_rel_bind:
  assumes "res_rel R m m'" "\<And>x y. R x y \<Longrightarrow> m = Inr x \<Longrightarrow> res_rel S (f x) (g y)"
  shows "res_rel S (bindE m f) (bindE m' g)"
  using assms by (cases m; cases m') (auto simp: res_rel_def)

lemma res_rel_bind_value:
  assumes "res_rel (with_value R) m m'" "\<And>a b v. R a b \<Longrightarrow> m = Inr (a, v) \<Longrightarrow> res_rel S (f a v) (g b v)"
  shows "res_rel S (bindE m (\<lambda>(a, v). f a v)) (bindE m' (\<lambda>(b, v). g b v))"
  by (rule res_rel_bind [OF assms(1)]) (use assms(2) in auto)

lemma lex_rel_fields:
  assumes "lex_rel la a b"
  shows "ls_current b = ls_current a" "ls_linenumber b = ls_linenumber a" "ls_t b = ls_t a"
    "ls_lookahead b = la" "ls_h b = ls_h a" "ls_buff b = ls_buff a" "ls_buffsize b = ls_buffsize a"
    "ls_source b = ls_source a" "ls_decpoint b = ls_decpoint a" "ls_lastline b = ls_lastline a"
    "currIsNewline b = currIsNewline a" "lex_message b msg = lex_message a msg"
  using assms by (auto simp: lex_rel_def currIsNewline_def lex_message_def)

lemma lex_rel_line: "lex_rel la a b \<Longrightarrow> lex_rel la (a\<lparr>ls_linenumber := n\<rparr>) (b\<lparr>ls_linenumber := n\<rparr>)"
  by (auto simp: lex_rel_def lex_ok_def)

lemma lex_rel_buff:
  "lex_rel la a b \<Longrightarrow> int (length s) \<le> ls_buffsize a \<Longrightarrow> lex_rel la (a\<lparr>ls_buff := s\<rparr>) (b\<lparr>ls_buff := s\<rparr>)"
  by (auto simp: lex_rel_def lex_ok_def)

lemma lex_rel_reset: "lex_rel la a b \<Longrightarrow> lex_rel la (a\<lparr>ls_buff := []\<rparr>) (b\<lparr>ls_buff := []\<rparr>)"
  by (auto simp: lex_rel_def lex_ok_def)

lemma lex_rel_size: "lex_rel la a b \<Longrightarrow> int (length (ls_buff a)) \<le> ls_buffsize a"
  by (simp add: lex_rel_def lex_ok_def)

named_theorems lex_rels \<open>the operations on two related states\<close>

lemma next_char_rel [lex_rels]:
  assumes "lex_rel la a b" "ls_current a \<noteq> EOZ"
  shows "res_rel (lex_rel la) (next_char a) (next_char b)"
proof -
  have "zio_ok (ls_z a)" "zio_ok (ls_z b)" "zio_rest (ls_z a) = zio_rest (ls_z b)"
    using assms by (auto simp: lex_rel_def lex_ok_def)
  from zio.get_same [OF this] obtain s t c where
    g: "zgetc (ls_z a) = Inr (s, c)" "zgetc (ls_z b) = Inr (t, c)" "zio_rest s = zio_rest t" "c \<noteq> EOZ \<Longrightarrow> zio_ok s \<and> zio_ok t"
    by metis
  with assms(1) show ?thesis by (auto simp: next_char_def lex_rel_def lex_ok_def)
qed

lemma save_rel [lex_rels]:
  assumes "lex_rel la a b"
  shows "res_rel (lex_rel la) (save a c) (save b c)"
  using assms by (auto simp: save_def Let_def lex_rel_def lex_ok_def lex_message_def MAX_SIZET_def)

lemma txtToken_rel:
  assumes "lex_rel la a b"
  shows "res_rel (with_value (lex_rel la)) (txtToken a tk) (txtToken b tk)"
proof (cases "tk = TK_NAME \<or> tk = TK_STRING \<or> tk = TK_NUMBER")
  case True
  then show ?thesis unfolding txtToken_def
    by (simp only: if_True) (rule res_rel_bind [OF save_rel [OF assms]]; simp add: lex_rel_fields)
next
  case False
  then show ?thesis using assms by (simp add: txtToken_def)
qed

lemma lexerror_rel [lex_rels]:
  assumes "lex_rel la a b"
  shows "res_rel R (luaX_lexerror a msg tk) (luaX_lexerror b msg tk)"
proof (cases "tk = 0")
  case True
  then show ?thesis using assms by (simp add: luaX_lexerror_def lex_rel_fields)
next
  case False
  then show ?thesis unfolding luaX_lexerror_def lex_rel_fields(12) [OF assms]
    by (simp only: if_False) (rule res_rel_bind_value [OF txtToken_rel [OF assms]], simp)
qed

lemma syntaxerror_rel [lex_rels]: "lex_rel la a b \<Longrightarrow> res_rel R (luaX_syntaxerror a msg) (luaX_syntaxerror b msg)"
  by (simp add: luaX_syntaxerror_def lex_rel_fields lexerror_rel)

lemma save_current: "save ls c = Inr ls' \<Longrightarrow> ls_current ls' = ls_current ls \<and> ls_buff ls' = ls_buff ls @ [c]"
  by (auto simp: save_def bindE_Inr_iff Let_def split: if_splits)

lemma save_and_next_rel [lex_rels]:
  assumes "lex_rel la a b" "ls_current a \<noteq> EOZ"
  shows "res_rel (lex_rel la) (save_and_next a) (save_and_next b)"
  unfolding save_and_next_def lex_rel_fields [OF assms(1)]
  by (rule res_rel_bind [OF save_rel [OF assms(1)]]) (use assms(2) save_current next_char_rel in metis)

lemma setstr_cases:
  assumes "table_ok h"
  shows "luaH_setstr h s = Inl (LUA_ERRRUN ''table overflow'') \<and> 67108864 \<le> num_keys h
     \<or> (\<exists>h' p. luaH_setstr h s = Inr (h', p) \<and> table_ok h' \<and> table_ok (slot_set h' p (TBoolean 1)))"
proof (cases "luaH_getstr h s")
  case None
  then have g: "luaH_get h (TString s) = None" by (simp add: luaH_get_def)
  have a: "table_ok t" if "wf_table t" "table_ok (slot_set t p TNil)" for t p
    using that by (cases p) (simp_all add: table_ok_def slot_set_def)
  have e: "luaH_setstr h s = newkey (Suc 0) h (TString s)"
    using None by (simp add: luaH_setstr_def luaH_setstr_with_def)
  from newkey_spec [OF assms, of "TString s" 0] g
  have "overflow h (newkey (Suc 0) h (TString s)) \<or> (\<exists>r. newkey (Suc 0) h (TString s) = Inr r \<and> set_ok h (TString s) r)"
    by simp
  then show ?thesis
  proof
    assume "overflow h (newkey (Suc 0) h (TString s))"
    then show ?thesis unfolding e by (simp add: overflow_def)
  next
    assume "\<exists>r. newkey (Suc 0) h (TString s) = Inr r \<and> set_ok h (TString s) r"
    then obtain h' p where r: "newkey (Suc 0) h (TString s) = Inr (h', p)" "set_ok h (TString s) (h', p)" by auto
    then have "wf_table h'" "\<And>v. table_ok (slot_set h' p v)" by (simp_all add: set_ok_def slot_of_def)
    with a have "table_ok h'" by blast
    with \<open>\<And>v. table_ok (slot_set h' p v)\<close> r(1) show ?thesis unfolding e by simp
  qed
next
  case (Some p)
  then have g: "luaH_get h (TString s) = Some p" by (simp add: luaH_get_def)
  have "luaH_set h (TString s) = Inr (h\<lparr>flags := 0\<rparr>, p)"
    by (simp add: luaH_set_def luaH_set_with_def g Let_def)
  from luaH_set_Inr [OF assms _ this] have "table_ok (slot_set (h\<lparr>flags := 0\<rparr>) p (TBoolean 1))"
    by (simp add: set_ok_def )
  moreover have "slot_set (h\<lparr>flags := 0\<rparr>) p v = (slot_set h p v)\<lparr>flags := 0\<rparr>" for v
    by (cases p) (simp_all add: slot_set_def)
  ultimately have "table_ok (slot_set h p (TBoolean 1))" by (simp add: table_ok_def)
  with Some assms show ?thesis by (simp add: luaH_setstr_def luaH_setstr_with_def)
qed

lemma newstring_rel [lex_rels]:
  assumes "lex_rel la a b"
  shows "res_rel (with_value (lex_rel la)) (luaX_newstring a s) (luaX_newstring b s)"
proof -
  have t: "table_ok (ls_h a)" using assms by (simp add: lex_rel_def lex_ok_def)
  have h: "ls_h b = ls_h a" by (rule lex_rel_fields [OF assms])
  from setstr_cases [OF t, of s] assms show ?thesis
    by (auto simp: luaX_newstring_def h) (auto simp: lex_rel_def lex_ok_def)
qed


lemma inclinenumber_rel [lex_rels]:
  assumes "lex_rel la a b" "ls_current a \<noteq> EOZ"
  shows "res_rel (lex_rel la) (inclinenumber a) (inclinenumber b)"
  unfolding inclinenumber_def Let_def lex_rel_fields [OF assms(1)]
proof (rule res_rel_bind [OF next_char_rel [OF assms]])
  fix x y assume xy: "lex_rel la x y"
  show "res_rel (lex_rel la)
     (bindE (if currIsNewline x \<and> ls_current x \<noteq> ls_current a then next_char x else Inr x) (\<lambda>ls2.
        if MAX_INT \<le> ls_linenumber (ls2\<lparr>ls_linenumber := ls_linenumber ls2 + 1\<rparr>)
        then luaX_syntaxerror (ls2\<lparr>ls_linenumber := ls_linenumber ls2 + 1\<rparr>) ''chunk has too many lines''
        else Inr (ls2\<lparr>ls_linenumber := ls_linenumber ls2 + 1\<rparr>)))
     (bindE (if currIsNewline y \<and> ls_current y \<noteq> ls_current a then next_char y else Inr y) (\<lambda>ls2.
        if MAX_INT \<le> ls_linenumber (ls2\<lparr>ls_linenumber := ls_linenumber ls2 + 1\<rparr>)
        then luaX_syntaxerror (ls2\<lparr>ls_linenumber := ls_linenumber ls2 + 1\<rparr>) ''chunk has too many lines''
        else Inr (ls2\<lparr>ls_linenumber := ls_linenumber ls2 + 1\<rparr>)))"
  proof (rule res_rel_bind)
    show "res_rel (lex_rel la) (if currIsNewline x \<and> ls_current x \<noteq> ls_current a then next_char x else Inr x)
       (if currIsNewline y \<and> ls_current y \<noteq> ls_current a then next_char y else Inr y)"
      using xy next_char_rel [OF xy] by (auto simp: lex_rel_fields [OF xy] currIsNewline_def)
  next
    fix u v assume uv: "lex_rel la u v"
    show "res_rel (lex_rel la)
      (if MAX_INT \<le> ls_linenumber (u\<lparr>ls_linenumber := ls_linenumber u + 1\<rparr>)
        then luaX_syntaxerror (u\<lparr>ls_linenumber := ls_linenumber u + 1\<rparr>) ''chunk has too many lines''
        else Inr (u\<lparr>ls_linenumber := ls_linenumber u + 1\<rparr>))
      (if MAX_INT \<le> ls_linenumber (v\<lparr>ls_linenumber := ls_linenumber v + 1\<rparr>)
        then luaX_syntaxerror (v\<lparr>ls_linenumber := ls_linenumber v + 1\<rparr>) ''chunk has too many lines''
        else Inr (v\<lparr>ls_linenumber := ls_linenumber v + 1\<rparr>))"
      by (simp add: lex_rel_fields [OF uv] lex_rel_line [OF uv] syntaxerror_rel [OF lex_rel_line [OF uv]])
  qed
qed

lemma check_next_EOZ: "cs \<in> {''Ee'', ''+-'', ''.''} \<Longrightarrow> strchr cs (char_of (c mod 256)) \<Longrightarrow> c \<noteq> EOZ"
  by (auto simp: strchr_def cstr_def char_of_def)

lemma check_next_rel:
  assumes "lex_rel la a b" "cs \<in> {''Ee'', ''+-'', ''.''}"
  shows "res_rel (with_value (lex_rel la)) (check_next a cs) (check_next b cs)"
proof (cases "strchr cs (char_of (ls_current a mod 256))")
  case True
  with check_next_EOZ [OF assms(2)] have "ls_current a \<noteq> EOZ" by blast
  note s = save_and_next_rel [OF assms(1) this]
  show ?thesis unfolding check_next_def lex_rel_fields [OF assms(1)] using True
    by (simp only: not_True_eq_False if_False) (rule res_rel_bind [OF s], simp)
next
  case False
  with assms(1) show ?thesis unfolding check_next_def lex_rel_fields [OF assms(1)]
    by (simp only: not_False_eq_True if_True) simp
qed

lemma save_while_rel [lex_rels]:
  assumes "lex_rel la a b"
  shows "res_rel (lex_rel la) (save_while P a) (save_while P b)"
  using assms
proof (induction P a arbitrary: b rule: save_while.induct)
  case (1 P a)
  note f = lex_rel_fields [OF "1.prems"]
  show ?case
  proof (cases "ls_current a \<noteq> EOZ \<and> P (ls_current a)")
    case True
    then have "res_rel (lex_rel la) (save_and_next a) (save_and_next b)" using save_and_next_rel [OF "1.prems"] by simp
    from res_rel_bind [OF this, of "lex_rel la" "save_while P" "save_while P"] show ?thesis
      using True "1.IH" by (simp add: save_while.simps [of P a] save_while.simps [of P b] f)
  next
    case False
    have "save_while P a = Inr a" "save_while P b = Inr b"
      by (simp_all only: save_while.simps [of P a] save_while.simps [of P b] f False if_False)
    with "1.prems" show ?thesis by simp
  qed
qed

lemma skip_sep_rel [lex_rels]:
  assumes "lex_rel la a b" "ls_current a \<noteq> EOZ"
  shows "res_rel (with_value (lex_rel la)) (skip_sep a) (skip_sep b)"
  unfolding skip_sep_def lex_rel_fields [OF assms(1)]
proof (rule res_rel_bind [OF save_and_next_rel [OF assms]])
  fix x y assume xy: "lex_rel la x y"
  show "res_rel (with_value (lex_rel la))
     (bindE (save_while (\<lambda>c. c = 61) x) (\<lambda>ls2. let count = int (length (ls_buff ls2)) - int (length (ls_buff x))
        in Inr (ls2, if ls_current ls2 = ls_current a then count else - count - 1)))
     (bindE (save_while (\<lambda>c. c = 61) y) (\<lambda>ls2. let count = int (length (ls_buff ls2)) - int (length (ls_buff y))
        in Inr (ls2, if ls_current ls2 = ls_current a then count else - count - 1)))"
    by (rule res_rel_bind [OF save_while_rel [OF xy]]) (simp add: Let_def lex_rel_fields [OF xy] lex_rel_fields)
qed

lemma save_while_buff: "save_while P ls = Inr ls' \<Longrightarrow> length (ls_buff ls) \<le> length (ls_buff ls')"
proof (induction P ls rule: save_while.induct)
  case (1 P ls)
  show ?case
  proof (cases "ls_current ls \<noteq> EOZ \<and> P (ls_current ls)")
    case True
    with "1.prems" obtain ls1 where s: "save_and_next ls = Inr ls1" "save_while P ls1 = Inr ls'"
      by (auto simp: save_while.simps [of P ls] bindE_Inr_iff)
    then have "length (ls_buff ls) \<le> length (ls_buff ls1)"
      by (auto simp: save_and_next_def next_char_def bindE_Inr_iff dest!: save_current)
    with "1.IH" [OF True s] show ?thesis by simp
  next
    case False
    with "1.prems" show ?thesis by (simp add: save_while.simps [of P ls])
  qed
qed

lemma skip_sep_bracket:
  assumes "skip_sep ls = Inr (ls', n)" "0 \<le> n"
  shows "ls_current ls' = ls_current ls"
proof (rule ccontr)
  assume c: "ls_current ls' \<noteq> ls_current ls"
  from assms(1) obtain ls1 where "save_while (\<lambda>c. c = 61) ls1 = Inr ls'"
    "n = (if ls_current ls' = ls_current ls then int (length (ls_buff ls')) - int (length (ls_buff ls1))
          else - (int (length (ls_buff ls')) - int (length (ls_buff ls1))) - 1)"
    by (auto simp: skip_sep_def bindE_Inr_iff Let_def)
  with c save_while_buff [of "\<lambda>c. c = 61" ls1 ls'] assms(2) show False by simp
qed

lemma long_string_loop_rel:
  assumes "lex_rel la a b" "0 \<le> sep"
  shows "res_rel (lex_rel la) (long_string_loop a sep keep) (long_string_loop b sep keep)"
  using assms
proof (induction a sep keep arbitrary: b rule: long_string_loop.induct)
  case (1 a sep keep)
  note f = lex_rel_fields [OF "1.prems"(1)] and e = long_string_loop.simps [of a sep keep] long_string_loop.simps [of b sep keep]
  consider (eoz) "ls_current a = EOZ" | (lbr) "ls_current a \<noteq> EOZ" "ls_current a = 91"
    | (rbr) "ls_current a \<noteq> EOZ" "ls_current a \<noteq> 91" "ls_current a = 93"
    | (nl) "ls_current a \<noteq> EOZ" "ls_current a \<noteq> 91" "ls_current a \<noteq> 93" "currIsNewline a"
    | (oth) "ls_current a \<noteq> EOZ" "ls_current a \<noteq> 91" "ls_current a \<noteq> 93" "\<not> currIsNewline a" by blast
  then show ?case
  proof cases
    case eoz
    then show ?thesis by (simp add: e f lexerror_rel [OF "1.prems"(1)])
  next
    case lbr
    show ?thesis unfolding e f using lbr
    proof (simp only: if_False if_True simp_thms, intro res_rel_bind_value [OF skip_sep_rel [OF "1.prems"(1) lbr(1)]])
      fix x y n assume xy: "lex_rel la x y" and s: "skip_sep a = Inr (x, n)"
      show "res_rel (lex_rel la)
         (if n = sep then bindE (save_and_next x) (\<lambda>ls2. if sep = 0 then luaX_lexerror ls2 ''nesting of [[...]] is deprecated'' 91
             else long_string_loop ls2 sep keep) else long_string_loop x sep keep)
         (if n = sep then bindE (save_and_next y) (\<lambda>ls2. if sep = 0 then luaX_lexerror ls2 ''nesting of [[...]] is deprecated'' 91
             else long_string_loop ls2 sep keep) else long_string_loop y sep keep)"
      proof (cases "n = sep")
        case True
        then have "ls_current x \<noteq> EOZ" using skip_sep_bracket [OF s] lbr "1.prems"(2) by simp
        from save_and_next_rel [OF xy this] show ?thesis using True lbr s "1.IH"(1) "1.prems"(2)
          by (auto intro!: res_rel_bind lexerror_rel)
      next
        case False
        with lbr s xy "1.IH"(2) "1.prems"(2) show ?thesis by auto
      qed
    qed
  next
    case rbr
    show ?thesis unfolding e f using rbr
    proof (simp only: if_False if_True simp_thms, intro res_rel_bind_value [OF skip_sep_rel [OF "1.prems"(1) rbr(1)]])
      fix x y n assume xy: "lex_rel la x y" and s: "skip_sep a = Inr (x, n)"
      show "res_rel (lex_rel la) (if n = sep then save_and_next x else long_string_loop x sep keep)
         (if n = sep then save_and_next y else long_string_loop y sep keep)"
      proof (cases "n = sep")
        case True
        then have "ls_current x \<noteq> EOZ" using skip_sep_bracket [OF s] rbr "1.prems"(2) by simp
        from save_and_next_rel [OF xy this] show ?thesis using True by simp
      next
        case False
        with rbr s xy "1.IH"(3) "1.prems"(2) show ?thesis by auto
      qed
    qed
  next
    case nl
    show ?thesis unfolding e f using nl
    proof (simp only: if_False if_True simp_thms, intro res_rel_bind [OF save_rel [OF "1.prems"(1)]])
      fix x y assume xy: "lex_rel la x y" and s: "save a (CHR 0x0A) = Inr x"
      have "ls_current x \<noteq> EOZ" using save_current [OF s] nl by simp
      from inclinenumber_rel [OF xy this]
      show "res_rel (lex_rel la)
         (bindE (inclinenumber x) (\<lambda>ls2. long_string_loop (if keep then ls2 else ls2\<lparr>ls_buff := []\<rparr>) sep keep))
         (bindE (inclinenumber y) (\<lambda>ls2. long_string_loop (if keep then ls2 else ls2\<lparr>ls_buff := []\<rparr>) sep keep))"
      proof (rule res_rel_bind)
        fix u v assume uv: "lex_rel la u v" and i: "inclinenumber x = Inr u"
        have "lex_rel la (if keep then u else u\<lparr>ls_buff := []\<rparr>) (if keep then v else v\<lparr>ls_buff := []\<rparr>)"
          using uv lex_rel_reset by simp
        from "1.IH"(4) [OF nl s i this "1.prems"(2)]
        show "res_rel (lex_rel la) (long_string_loop (if keep then u else u\<lparr>ls_buff := []\<rparr>) sep keep)
           (long_string_loop (if keep then v else v\<lparr>ls_buff := []\<rparr>) sep keep)" .
      qed
    qed
  next
    case oth
    have "res_rel (lex_rel la) (if keep then save_and_next a else next_char a) (if keep then save_and_next b else next_char b)"
      using save_and_next_rel [OF "1.prems"(1) oth(1)] next_char_rel [OF "1.prems"(1) oth(1)] by simp
    from res_rel_bind [OF this "1.IH"(5) [OF oth _ _ "1.prems"(2)]] show ?thesis
      unfolding e f using oth by simp
  qed
qed


lemma read_long_string_rel:
  assumes "lex_rel la a b" "ls_current a \<noteq> EOZ" "0 \<le> sep"
  shows "res_rel (with_value (lex_rel la)) (read_long_string a keep sep) (read_long_string b keep sep)"
  unfolding read_long_string_def
proof (rule res_rel_bind [OF save_and_next_rel [OF assms(1,2)]])
  fix x y assume xy: "lex_rel la x y"
  have "res_rel (lex_rel la) (if currIsNewline x then inclinenumber x else Inr x) (if currIsNewline y then inclinenumber y else Inr y)"
    using xy inclinenumber_rel [OF xy] by (auto simp: lex_rel_fields [OF xy] currIsNewline_def)
  then show "res_rel (with_value (lex_rel la))
     (bindE (if currIsNewline x then inclinenumber x else Inr x) (\<lambda>ls2. bindE (long_string_loop ls2 sep keep) (\<lambda>ls3.
       if keep then (let n = nat (2 + sep); s = ls_buff ls3 in luaX_newstring ls3 (take (length s - 2 * n) (drop n s)))
       else Inr (ls3, []))))
     (bindE (if currIsNewline y then inclinenumber y else Inr y) (\<lambda>ls2. bindE (long_string_loop ls2 sep keep) (\<lambda>ls3.
       if keep then (let n = nat (2 + sep); s = ls_buff ls3 in luaX_newstring ls3 (take (length s - 2 * n) (drop n s)))
       else Inr (ls3, []))))"
  proof (rule res_rel_bind)
    fix x y assume "lex_rel la x y"
    from long_string_loop_rel [OF this assms(3)]
    show "res_rel (with_value (lex_rel la))
      (bindE (long_string_loop x sep keep) (\<lambda>ls3. if keep then
         (let n = nat (2 + sep); s = ls_buff ls3 in luaX_newstring ls3 (take (length s - 2 * n) (drop n s)))
         else Inr (ls3, [])))
      (bindE (long_string_loop y sep keep) (\<lambda>ls3. if keep then
         (let n = nat (2 + sep); s = ls_buff ls3 in luaX_newstring ls3 (take (length s - 2 * n) (drop n s)))
         else Inr (ls3, [])))"
      by (rule res_rel_bind) (simp add: Let_def lex_rel_fields newstring_rel)
  qed
qed

lemma decimal_loop_rel:
  assumes "lex_rel la a b" "isdigit (ls_current a)"
  shows "res_rel (with_value (lex_rel la)) (decimal_loop n a c) (decimal_loop n b c)"
  using assms
proof (induction n arbitrary: a b c)
  case (Suc n)
  have "ls_current a \<noteq> EOZ" using Suc.prems(2) by (auto simp: isdigit_def)
  note s = next_char_rel [OF Suc.prems(1) this]
  show ?case unfolding decimal_loop.simps Let_def lex_rel_fields [OF Suc.prems(1)]
    by (rule res_rel_bind [OF s]) (simp add: lex_rel_fields Suc.IH)
qed simp

lemma escape_sequence_rel:
  assumes "lex_rel la a b"
  shows "res_rel (lex_rel la) (escape_sequence a) (escape_sequence b)"
proof (cases "escape_char (ls_current a)")
  case (Some c)
  then have c: "ls_current a \<noteq> EOZ" by (auto simp: escape_char_def)
  have "res_rel (lex_rel la) (bindE (save a c) next_char) (bindE (save b c) next_char)"
    by (rule res_rel_bind [OF save_rel [OF assms]]) (use c save_current next_char_rel in metis)
  with Some show ?thesis by (simp add: escape_sequence_def lex_rel_fields [OF assms])
next
  case None
  note f = lex_rel_fields [OF assms]
  consider (nl) "currIsNewline a" | (eoz) "\<not> currIsNewline a" "ls_current a = EOZ"
    | (oth) "\<not> currIsNewline a" "ls_current a \<noteq> EOZ" "\<not> isdigit (ls_current a)"
    | (dig) "\<not> currIsNewline a" "ls_current a \<noteq> EOZ" "isdigit (ls_current a)" by blast
  then show ?thesis
  proof cases
    case nl
    have "res_rel (lex_rel la) (bindE (save a (CHR 0x0A)) inclinenumber) (bindE (save b (CHR 0x0A)) inclinenumber)"
      by (rule res_rel_bind [OF save_rel [OF assms]])
        (use nl save_current inclinenumber_rel in \<open>auto simp: currIsNewline_def\<close>)
    with nl None show ?thesis by (simp add: escape_sequence_def f)
  next
    case eoz
    with None assms show ?thesis by (simp add: escape_sequence_def f)
  next
    case oth
    with None save_and_next_rel [OF assms] show ?thesis by (simp add: escape_sequence_def f)
  next
    case dig
    have "res_rel (lex_rel la)
       (bindE (decimal_loop 3 a 0) (\<lambda>(ls1, c). if 255 < c then luaX_lexerror ls1 ''escape sequence too large'' TK_STRING
          else save ls1 (char_of c)))
       (bindE (decimal_loop 3 b 0) (\<lambda>(ls1, c). if 255 < c then luaX_lexerror ls1 ''escape sequence too large'' TK_STRING
          else save ls1 (char_of c)))"
      by (rule res_rel_bind_value [OF decimal_loop_rel [OF assms dig(3)]]) (simp add: lexerror_rel save_rel)
    with dig None show ?thesis by (simp add: escape_sequence_def f)
  qed
qed

lemma string_loop_rel:
  assumes "lex_rel la a b"
  shows "res_rel (lex_rel la) (string_loop a del) (string_loop b del)"
  using assms
proof (induction a del arbitrary: b rule: string_loop.induct)
  case (1 a del)
  note f = lex_rel_fields [OF "1.prems"] and e = string_loop.simps [of a del] string_loop.simps [of b del]
  consider (fin) "ls_current a = del" | (eoz) "ls_current a \<noteq> del" "ls_current a = EOZ"
    | (nl) "ls_current a \<noteq> del" "ls_current a \<noteq> EOZ" "currIsNewline a"
    | (esc) "ls_current a \<noteq> del" "ls_current a \<noteq> EOZ" "\<not> currIsNewline a" "ls_current a = 92"
    | (oth) "ls_current a \<noteq> del" "ls_current a \<noteq> EOZ" "\<not> currIsNewline a" "ls_current a \<noteq> 92" by blast
  then show ?case
  proof cases
    case fin
    with "1.prems" show ?thesis by (simp add: e f)
  next
    case eoz
    then show ?thesis by (simp add: e f lexerror_rel [OF "1.prems"])
  next
    case nl
    then show ?thesis by (simp add: e f lexerror_rel [OF "1.prems"])
  next
    case esc
    have "res_rel (lex_rel la)
      (bindE (next_char a) (\<lambda>ls1. bindE (escape_sequence ls1) (\<lambda>ls2. string_loop ls2 del)))
      (bindE (next_char b) (\<lambda>ls1. bindE (escape_sequence ls1) (\<lambda>ls2. string_loop ls2 del)))"
    proof (rule res_rel_bind [OF next_char_rel [OF "1.prems" esc(2)]])
      fix x y assume xy: "lex_rel la x y" and s: "next_char a = Inr x"
      show "res_rel (lex_rel la) (bindE (escape_sequence x) (\<lambda>ls2. string_loop ls2 del))
          (bindE (escape_sequence y) (\<lambda>ls2. string_loop ls2 del))"
        by (rule res_rel_bind [OF escape_sequence_rel [OF xy]]) (rule "1.IH"(1) [OF esc s])
    qed
    with esc show ?thesis by (simp add: e f)
  next
    case oth
    have "res_rel (lex_rel la) (bindE (save_and_next a) (\<lambda>ls1. string_loop ls1 del))
      (bindE (save_and_next b) (\<lambda>ls1. string_loop ls1 del))"
      by (rule res_rel_bind [OF save_and_next_rel [OF "1.prems" oth(2)]]) (rule "1.IH"(2) [OF oth])
    with oth show ?thesis by (simp add: e f)
  qed
qed

lemma string_loop_end: "string_loop ls del = Inr ls' \<Longrightarrow> ls_current ls' = del"
proof (induction ls del rule: string_loop.induct)
  case (1 ls del)
  note e = string_loop.simps [of ls del]
  consider (fin) "ls_current ls = del" | (err) "ls_current ls \<noteq> del" "ls_current ls = EOZ \<or> currIsNewline ls"
    | (esc) "ls_current ls \<noteq> del" "ls_current ls \<noteq> EOZ" "\<not> currIsNewline ls" "ls_current ls = 92"
    | (oth) "ls_current ls \<noteq> del" "ls_current ls \<noteq> EOZ" "\<not> currIsNewline ls" "ls_current ls \<noteq> 92" by blast
  then show ?case
  proof cases
    case fin
    with "1.prems" show ?thesis by (simp add: e)
  next
    case err
    with "1.prems" show ?thesis by (auto simp: e split: if_splits)
  next
    case esc
    with "1.prems" obtain ls1 ls2 where s: "next_char ls = Inr ls1" "escape_sequence ls1 = Inr ls2" "string_loop ls2 del = Inr ls'"
      by (auto simp: e bindE_Inr_iff)
    from "1.IH"(1) [OF esc s] show ?thesis .
  next
    case oth
    with "1.prems" obtain ls1 where s: "save_and_next ls = Inr ls1" "string_loop ls1 del = Inr ls'"
      by (auto simp: e bindE_Inr_iff)
    from "1.IH"(2) [OF oth s] show ?thesis .
  qed
qed

lemma read_string_rel:
  assumes "lex_rel la a b" "ls_current a = del" "del \<noteq> EOZ"
  shows "res_rel (with_value (lex_rel la)) (read_string a del) (read_string b del)"
proof -
  have "ls_current a \<noteq> EOZ" using assms by simp
  note s = save_and_next_rel [OF assms(1) this]
  show ?thesis unfolding read_string_def
  proof (rule res_rel_bind [OF s], rule res_rel_bind [OF string_loop_rel], assumption)
    fix x y u v assume uv: "lex_rel la u v" and l: "string_loop x del = Inr u"
    have "ls_current u \<noteq> EOZ" using string_loop_end [OF l] assms(3) by simp
    from save_and_next_rel [OF uv this]
    show "res_rel (with_value (lex_rel la))
       (bindE (save_and_next u) (\<lambda>ls3. let s = ls_buff ls3 in luaX_newstring ls3 (take (length s - 2) (drop 1 s))))
       (bindE (save_and_next v) (\<lambda>ls3. let s = ls_buff ls3 in luaX_newstring ls3 (take (length s - 2) (drop 1 s))))"
      by (rule res_rel_bind) (simp add: Let_def lex_rel_fields newstring_rel)
  qed
qed


lemma buffreplace_rel: "lex_rel la a b \<Longrightarrow> lex_rel la (buffreplace a c d) (buffreplace b c d)"
  unfolding buffreplace_def by (simp add: lex_rel_buff lex_rel_size lex_rel_fields)

lemma decpoint_rel: "lex_rel la a b \<Longrightarrow> lex_rel la (a\<lparr>ls_decpoint := c\<rparr>) (b\<lparr>ls_decpoint := c\<rparr>)"
  by (auto simp: lex_rel_def lex_ok_def)

lemma trydecpoint_rel:
  assumes "lex_rel la a b"
  shows "res_rel (with_value (lex_rel la)) (trydecpoint a) (trydecpoint b)"
proof -
  note r = buffreplace_rel [OF decpoint_rel [OF assms]] and f = lex_rel_fields [OF assms]
  show ?thesis unfolding trydecpoint_def Let_def
    using r buffreplace_rel [OF r] lexerror_rel [OF buffreplace_rel [OF r]]
    by (auto simp: f lex_rel_fields [OF r] split: option.split)
qed

lemma read_numeral_rel:
  assumes "lex_rel la a b" "ls_current a \<noteq> EOZ"
  shows "res_rel (with_value (lex_rel la)) (read_numeral a) (read_numeral b)"
  unfolding read_numeral_def
proof (rule res_rel_bind [OF save_and_next_rel [OF assms]], rule res_rel_bind [OF save_while_rel], assumption,
    rule res_rel_bind_value [OF check_next_rel], assumption, simp)
  fix a b e assume "lex_rel la a b"
  then have "res_rel (with_value (lex_rel la)) (if e then check_next a ''+-'' else Inr (a, False))
      (if e then check_next b ''+-'' else Inr (b, False))" using check_next_rel by simp
  then show "res_rel (with_value (lex_rel la))
     (bindE (if e then check_next a ''+-'' else Inr (a, False)) (\<lambda>(ls, _). bindE (save_while name_char ls) (\<lambda>ls.
        bindE (save ls NUL) (\<lambda>ls. let ls1 = buffreplace ls (CHR ''.'') (ls_decpoint ls)
          in case luaO_str2d (ls_buff ls1) of Some r \<Rightarrow> Inr (ls1, SemNum r) | None \<Rightarrow> trydecpoint ls1))))
     (bindE (if e then check_next b ''+-'' else Inr (b, False)) (\<lambda>(ls, _). bindE (save_while name_char ls) (\<lambda>ls.
        bindE (save ls NUL) (\<lambda>ls. let ls1 = buffreplace ls (CHR ''.'') (ls_decpoint ls)
          in case luaO_str2d (ls_buff ls1) of Some r \<Rightarrow> Inr (ls1, SemNum r) | None \<Rightarrow> trydecpoint ls1))))"
  proof (rule res_rel_bind_value, intro res_rel_bind [OF save_while_rel] res_rel_bind [OF save_rel])
    fix a b assume ab: "lex_rel la a b"
    note r = buffreplace_rel [OF ab, of "CHR ''.''" "ls_decpoint a"]
    show "res_rel (with_value (lex_rel la))
       (let ls1 = buffreplace a (CHR ''.'') (ls_decpoint a) in case luaO_str2d (ls_buff ls1) of
          Some r \<Rightarrow> Inr (ls1, SemNum r) | None \<Rightarrow> trydecpoint ls1)
       (let ls1 = buffreplace b (CHR ''.'') (ls_decpoint b) in case luaO_str2d (ls_buff ls1) of
          Some r \<Rightarrow> Inr (ls1, SemNum r) | None \<Rightarrow> trydecpoint ls1)"
      using r trydecpoint_rel [OF r] by (simp add: Let_def lex_rel_fields [OF ab] lex_rel_fields [OF r] split: option.split)
  qed assumption+
qed

lemma maybe_eq_rel:
  assumes "lex_rel la a b" "ls_current a \<noteq> EOZ"
  shows "res_rel (with_value (lex_rel la)) (maybe_eq a tk) (maybe_eq b tk)"
  unfolding maybe_eq_def lex_rel_fields [OF assms(1)]
proof (rule res_rel_bind [OF next_char_rel [OF assms]])
  fix x y assume xy: "lex_rel la x y"
  have "res_rel (with_value (lex_rel la)) (bindE (next_char x) (\<lambda>ls2. Inr (ls2, tk))) (bindE (next_char y) (\<lambda>ls2. Inr (ls2, tk)))"
    if "ls_current x = 61" by (rule res_rel_bind [OF next_char_rel [OF xy]]) (use that in simp_all)
  with xy show "res_rel (with_value (lex_rel la))
     (if ls_current x \<noteq> 61 then Inr (x, ls_current a) else bindE (next_char x) (\<lambda>ls2. Inr (ls2, tk)))
     (if ls_current y \<noteq> 61 then Inr (y, ls_current a) else bindE (next_char y) (\<lambda>ls2. Inr (ls2, tk)))"
    by (simp add: lex_rel_fields [OF xy])
qed

lemma skip_line_rel:
  assumes "lex_rel la a b"
  shows "res_rel (lex_rel la) (skip_line a) (skip_line b)"
  using assms
proof (induction a arbitrary: b rule: skip_line.induct)
  case (1 a)
  note f = lex_rel_fields [OF "1.prems"]
  show ?case
  proof (cases "\<not> currIsNewline a \<and> ls_current a \<noteq> EOZ")
    case True
    then have "res_rel (lex_rel la) (next_char a) (next_char b)" using next_char_rel [OF "1.prems"] by simp
    from res_rel_bind [OF this "1.IH" [OF True]] True show ?thesis
      by (simp add: skip_line.simps [of a] skip_line.simps [of b] f)
  next
    case False
    have "skip_line a = Inr a" "skip_line b = Inr b"
      by (simp_all only: skip_line.simps [of a] skip_line.simps [of b] f False if_False)
    with "1.prems" show ?thesis by simp
  qed
qed

lemma skip_comment_rel:
  assumes "lex_rel la a b" "ls_current a \<noteq> EOZ"
  shows "res_rel (lex_rel la) (skip_comment a) (skip_comment b)"
  unfolding skip_comment_def
proof (rule res_rel_bind [OF next_char_rel [OF assms]])
  fix x y assume xy: "lex_rel la x y"
  note f = lex_rel_fields [OF xy]
  have "res_rel (lex_rel la)
     (bindE (skip_sep x) (\<lambda>(ls2, sep). let ls3 = ls2\<lparr>ls_buff := []\<rparr> in if 0 \<le> sep
        then bindE (read_long_string ls3 False sep) (\<lambda>(ls4, _). Inr (ls4\<lparr>ls_buff := []\<rparr>)) else skip_line ls3))
     (bindE (skip_sep y) (\<lambda>(ls2, sep). let ls3 = ls2\<lparr>ls_buff := []\<rparr> in if 0 \<le> sep
        then bindE (read_long_string ls3 False sep) (\<lambda>(ls4, _). Inr (ls4\<lparr>ls_buff := []\<rparr>)) else skip_line ls3))"
    if c: "ls_current x = 91"
  proof (rule res_rel_bind_value [OF skip_sep_rel [OF xy]])
    show "ls_current x \<noteq> EOZ" using c by simp
    fix u v sep assume "lex_rel la u v" and s: "skip_sep x = Inr (u, sep)"
    then have uv: "lex_rel la (u\<lparr>ls_buff := []\<rparr>) (v\<lparr>ls_buff := []\<rparr>)" by (rule_tac lex_rel_reset)
    have "res_rel (lex_rel la)
        (bindE (read_long_string (u\<lparr>ls_buff := []\<rparr>) False sep) (\<lambda>(ls4, _). Inr (ls4\<lparr>ls_buff := []\<rparr>)))
        (bindE (read_long_string (v\<lparr>ls_buff := []\<rparr>) False sep) (\<lambda>(ls4, _). Inr (ls4\<lparr>ls_buff := []\<rparr>)))" if "0 \<le> sep"
      by (rule res_rel_bind_value [OF read_long_string_rel [OF uv]])
         (use c that skip_sep_bracket [OF s] lex_rel_reset in simp_all)
    with skip_line_rel [OF uv] show "res_rel (lex_rel la)
       (let ls3 = u\<lparr>ls_buff := []\<rparr> in if 0 \<le> sep
          then bindE (read_long_string ls3 False sep) (\<lambda>(ls4, _). Inr (ls4\<lparr>ls_buff := []\<rparr>)) else skip_line ls3)
       (let ls3 = v\<lparr>ls_buff := []\<rparr> in if 0 \<le> sep
          then bindE (read_long_string ls3 False sep) (\<lambda>(ls4, _). Inr (ls4\<lparr>ls_buff := []\<rparr>)) else skip_line ls3)"
      by (simp add: Let_def)
  qed
  with skip_line_rel [OF xy] show "res_rel (lex_rel la)
     (if ls_current x = 91 then (bindE (skip_sep x) (\<lambda>(ls2, sep). let ls3 = ls2\<lparr>ls_buff := []\<rparr> in if 0 \<le> sep
        then bindE (read_long_string ls3 False sep) (\<lambda>(ls4, _). Inr (ls4\<lparr>ls_buff := []\<rparr>)) else skip_line ls3)) else skip_line x)
     (if ls_current y = 91 then (bindE (skip_sep y) (\<lambda>(ls2, sep). let ls3 = ls2\<lparr>ls_buff := []\<rparr> in if 0 \<le> sep
        then bindE (read_long_string ls3 False sep) (\<lambda>(ls4, _). Inr (ls4\<lparr>ls_buff := []\<rparr>)) else skip_line ls3)) else skip_line y)"
    by (simp add: f)
qed

lemma read_name_rel:
  assumes "lex_rel la a b" "ls_current a \<noteq> EOZ"
  shows "res_rel (with_value (lex_rel la)) (read_name a sem) (read_name b sem)"
  unfolding read_name_def
proof (rule res_rel_bind [OF save_and_next_rel [OF assms]], rule res_rel_bind [OF save_while_rel], assumption)
  fix x y assume xy: "lex_rel la x y"
  show "res_rel (with_value (lex_rel la))
    (bindE (luaX_newstring x (ls_buff x)) (\<lambda>(ls3, ts). if 0 < reserved ts
        then Inr (ls3, int (reserved ts) - 1 + FIRST_RESERVED, sem) else Inr (ls3, TK_NAME, SemStr ts)))
    (bindE (luaX_newstring y (ls_buff y)) (\<lambda>(ls3, ts). if 0 < reserved ts
        then Inr (ls3, int (reserved ts) - 1 + FIRST_RESERVED, sem) else Inr (ls3, TK_NAME, SemStr ts)))"
    unfolding lex_rel_fields [OF xy] by (rule res_rel_bind_value [OF newstring_rel [OF xy]]) simp
qed

lemma dot_rel:
  assumes "lex_rel la a b" "ls_current a \<noteq> EOZ"
  shows "res_rel (with_value (lex_rel la))
     (bindE (save_and_next a) (\<lambda>ls1. bindE (check_next ls1 ''.'') (\<lambda>(ls2, b).
        if b then bindE (check_next ls2 ''.'') (\<lambda>(ls3, b'). Inr (ls3, if b' then TK_DOTS else TK_CONCAT, sem))
        else if \<not> isdigit (ls_current ls2) then Inr (ls2, 46, sem)
        else bindE (read_numeral ls2) (\<lambda>(ls3, r). Inr (ls3, TK_NUMBER, r)))))
     (bindE (save_and_next b) (\<lambda>ls1. bindE (check_next ls1 ''.'') (\<lambda>(ls2, b).
        if b then bindE (check_next ls2 ''.'') (\<lambda>(ls3, b'). Inr (ls3, if b' then TK_DOTS else TK_CONCAT, sem))
        else if \<not> isdigit (ls_current ls2) then Inr (ls2, 46, sem)
        else bindE (read_numeral ls2) (\<lambda>(ls3, r). Inr (ls3, TK_NUMBER, r)))))"
proof (rule res_rel_bind [OF save_and_next_rel [OF assms]], rule res_rel_bind_value [OF check_next_rel], assumption, simp)
  fix x y e assume xy: "lex_rel la x y"
  have 1: "res_rel (with_value (lex_rel la)) (bindE (check_next x ''.'') (\<lambda>(ls3, b'). Inr (ls3, if b' then TK_DOTS else TK_CONCAT, sem)))
     (bindE (check_next y ''.'') (\<lambda>(ls3, b'). Inr (ls3, if b' then TK_DOTS else TK_CONCAT, sem)))"
    by (rule res_rel_bind_value [OF check_next_rel [OF xy]]) simp_all
  have 2: "res_rel (with_value (lex_rel la)) (bindE (read_numeral x) (\<lambda>(ls3, r). Inr (ls3, TK_NUMBER, r)))
     (bindE (read_numeral y) (\<lambda>(ls3, r). Inr (ls3, TK_NUMBER, r)))" if "isdigit (ls_current x)"
    by (rule res_rel_bind_value [OF read_numeral_rel [OF xy]]) (use that in \<open>auto simp: isdigit_def\<close>)
  show "res_rel (with_value (lex_rel la))
     (if e then bindE (check_next x ''.'') (\<lambda>(ls3, b'). Inr (ls3, if b' then TK_DOTS else TK_CONCAT, sem))
        else if \<not> isdigit (ls_current x) then Inr (x, 46, sem)
        else bindE (read_numeral x) (\<lambda>(ls3, r). Inr (ls3, TK_NUMBER, r)))
     (if e then bindE (check_next y ''.'') (\<lambda>(ls3, b'). Inr (ls3, if b' then TK_DOTS else TK_CONCAT, sem))
        else if \<not> isdigit (ls_current y) then Inr (y, 46, sem)
        else bindE (read_numeral y) (\<lambda>(ls3, r). Inr (ls3, TK_NUMBER, r)))"
    using 1 2 xy unfolding lex_rel_fields [OF xy] by (cases e) simp_all
qed


text \<open>The tokens that are read without going round the loop again.\<close>

definition llex_token :: "LexState \<Rightarrow> SemInfo \<Rightarrow> (LexState \<times> int \<times> SemInfo) res" where
  "llex_token ls sem =
     (let c = ls_current ls
      in if c = 91 then
           bindE (skip_sep ls) (\<lambda>(ls1, sep).
             if 0 \<le> sep then
               bindE (read_long_string ls1 True sep) (\<lambda>(ls2, s). Inr (ls2, TK_STRING, SemStr s))
             else if sep = - 1 then Inr (ls1, 91, sem)
             else luaX_lexerror ls1 ''invalid long string delimiter'' TK_STRING)
         else if c = 61 then bindE (maybe_eq ls TK_EQ) (\<lambda>(ls1, tk). Inr (ls1, tk, sem))
         else if c = 60 then bindE (maybe_eq ls TK_LE) (\<lambda>(ls1, tk). Inr (ls1, tk, sem))
         else if c = 62 then bindE (maybe_eq ls TK_GE) (\<lambda>(ls1, tk). Inr (ls1, tk, sem))
         else if c = 126 then bindE (maybe_eq ls TK_NE) (\<lambda>(ls1, tk). Inr (ls1, tk, sem))
         else if c = 34 \<or> c = 39 then
           bindE (read_string ls c) (\<lambda>(ls1, s). Inr (ls1, TK_STRING, SemStr s))
         else if c = 46 then
           bindE (save_and_next ls) (\<lambda>ls1.
           bindE (check_next ls1 ''.'') (\<lambda>(ls2, b).
             if b then
               bindE (check_next ls2 ''.'') (\<lambda>(ls3, b').
                 Inr (ls3, if b' then TK_DOTS else TK_CONCAT, sem))
             else if \<not> isdigit (ls_current ls2) then Inr (ls2, 46, sem)
             else bindE (read_numeral ls2) (\<lambda>(ls3, r). Inr (ls3, TK_NUMBER, r))))
         else if c = EOZ then Inr (ls, TK_EOS, sem)
         else if isdigit c then bindE (read_numeral ls) (\<lambda>(ls1, r). Inr (ls1, TK_NUMBER, r))
         else if isalpha c \<or> c = 95 then read_name ls sem
         else bindE (next_char ls) (\<lambda>ls1. Inr (ls1, c, sem)))"

lemma llex_loop_cases:
  "llex_loop ls sem =
     (if currIsNewline ls then bindE (inclinenumber ls) (\<lambda>ls1. llex_loop ls1 sem)
      else if ls_current ls = 45 then
        bindE (next_char ls) (\<lambda>ls1.
          if ls_current ls1 \<noteq> 45 then Inr (ls1, 45, sem)
          else bindE (skip_comment ls1) (\<lambda>ls2. llex_loop ls2 sem))
      else if isspace (ls_current ls) then bindE (next_char ls) (\<lambda>ls1. llex_loop ls1 sem)
      else llex_token ls sem)"
proof -
  have "isspace c \<Longrightarrow> c \<notin> {91, 61, 60, 62, 126, 34, 39, 46, EOZ}" for c by (auto simp: isspace_def)
  then show ?thesis
    by (subst llex_loop.simps) (auto simp: Let_def llex_token_def)
qed

lemma llex_token_rel:
  assumes "lex_rel la a b"
  shows "res_rel (with_value (lex_rel la)) (llex_token a sem) (llex_token b sem)"
proof -
  let ?c = "ls_current a"
  note f = lex_rel_fields [OF assms]
  have meq: "res_rel (with_value (lex_rel la)) (bindE (maybe_eq a tk) (\<lambda>(ls1, tk). Inr (ls1, tk, sem)))
      (bindE (maybe_eq b tk) (\<lambda>(ls1, tk). Inr (ls1, tk, sem)))" if "?c \<noteq> EOZ" for tk
    by (rule res_rel_bind_value [OF maybe_eq_rel [OF assms that]]) simp
  have lstr: "res_rel (with_value (lex_rel la))
     (bindE (skip_sep a) (\<lambda>(ls1, sep). if 0 \<le> sep then bindE (read_long_string ls1 True sep) (\<lambda>(ls2, s). Inr (ls2, TK_STRING, SemStr s))
        else if sep = - 1 then Inr (ls1, 91, sem) else luaX_lexerror ls1 ''invalid long string delimiter'' TK_STRING))
     (bindE (skip_sep b) (\<lambda>(ls1, sep). if 0 \<le> sep then bindE (read_long_string ls1 True sep) (\<lambda>(ls2, s). Inr (ls2, TK_STRING, SemStr s))
        else if sep = - 1 then Inr (ls1, 91, sem) else luaX_lexerror ls1 ''invalid long string delimiter'' TK_STRING))"
    if c: "?c = 91"
  proof (rule res_rel_bind_value [OF skip_sep_rel [OF assms]])
    show "?c \<noteq> EOZ" using c by simp
    fix x y sep assume xy: "lex_rel la x y" and s: "skip_sep a = Inr (x, sep)"
    have "res_rel (with_value (lex_rel la)) (bindE (read_long_string x True sep) (\<lambda>(ls2, s). Inr (ls2, TK_STRING, SemStr s)))
        (bindE (read_long_string y True sep) (\<lambda>(ls2, s). Inr (ls2, TK_STRING, SemStr s)))" if "0 \<le> sep"
      by (rule res_rel_bind_value [OF read_long_string_rel [OF xy]]) (use c that skip_sep_bracket [OF s] in simp_all)
    with xy show "res_rel (with_value (lex_rel la))
       (if 0 \<le> sep then bindE (read_long_string x True sep) (\<lambda>(ls2, s). Inr (ls2, TK_STRING, SemStr s))
        else if sep = - 1 then Inr (x, 91, sem) else luaX_lexerror x ''invalid long string delimiter'' TK_STRING)
       (if 0 \<le> sep then bindE (read_long_string y True sep) (\<lambda>(ls2, s). Inr (ls2, TK_STRING, SemStr s))
        else if sep = - 1 then Inr (y, 91, sem) else luaX_lexerror y ''invalid long string delimiter'' TK_STRING)"
      by (simp add: lexerror_rel [OF xy])
  qed
  have str: "res_rel (with_value (lex_rel la)) (bindE (read_string a ?c) (\<lambda>(ls1, s). Inr (ls1, TK_STRING, SemStr s)))
      (bindE (read_string b ?c) (\<lambda>(ls1, s). Inr (ls1, TK_STRING, SemStr s)))" if "?c \<noteq> EOZ"
    by (rule res_rel_bind_value [OF read_string_rel [OF assms refl that]]) simp
  have num: "res_rel (with_value (lex_rel la)) (bindE (read_numeral a) (\<lambda>(ls1, r). Inr (ls1, TK_NUMBER, r)))
      (bindE (read_numeral b) (\<lambda>(ls1, r). Inr (ls1, TK_NUMBER, r)))" if "?c \<noteq> EOZ"
    by (rule res_rel_bind_value [OF read_numeral_rel [OF assms that]]) simp
  have one: "res_rel (with_value (lex_rel la)) (bindE (next_char a) (\<lambda>ls1. Inr (ls1, ?c, sem)))
      (bindE (next_char b) (\<lambda>ls1. Inr (ls1, ?c, sem)))" if "?c \<noteq> EOZ"
    by (rule res_rel_bind [OF next_char_rel [OF assms that]]) simp
  show ?thesis
    unfolding llex_token_def Let_def f
    by (use assms lstr meq str num one dot_rel [OF assms, of sem] read_name_rel [OF assms, of sem] in auto)
qed


lemma llex_loop_rel:
  assumes "lex_rel la a b"
  shows "res_rel (with_value (lex_rel la)) (llex_loop a sem) (llex_loop b sem)"
  using assms
proof (induction "input_left a" arbitrary: a b rule: less_induct)
  case less
  note f = lex_rel_fields [OF less.prems] and e = llex_loop_cases [of a sem] llex_loop_cases [of b sem]
  consider (nl) "currIsNewline a" | (minus) "\<not> currIsNewline a" "ls_current a = 45"
    | (space) "\<not> currIsNewline a" "ls_current a \<noteq> 45" "isspace (ls_current a)"
    | (tok) "\<not> currIsNewline a" "ls_current a \<noteq> 45" "\<not> isspace (ls_current a)" by blast
  then show ?case
  proof cases
    case nl
    then have c: "ls_current a \<noteq> EOZ" by (auto simp: currIsNewline_def)
    have "res_rel (with_value (lex_rel la)) (bindE (inclinenumber a) (\<lambda>ls1. llex_loop ls1 sem))
        (bindE (inclinenumber b) (\<lambda>ls1. llex_loop ls1 sem))"
      by (rule res_rel_bind [OF inclinenumber_rel [OF less.prems c]]) (use less.hyps inclinenumber_left(2) c in blast)
    with nl show ?thesis by (simp add: e f)
  next
    case minus
    have "res_rel (with_value (lex_rel la))
       (bindE (next_char a) (\<lambda>ls1. if ls_current ls1 \<noteq> 45 then Inr (ls1, 45, sem)
          else bindE (skip_comment ls1) (\<lambda>ls2. llex_loop ls2 sem)))
       (bindE (next_char b) (\<lambda>ls1. if ls_current ls1 \<noteq> 45 then Inr (ls1, 45, sem)
          else bindE (skip_comment ls1) (\<lambda>ls2. llex_loop ls2 sem)))"
    proof (rule res_rel_bind [OF next_char_rel [OF less.prems]])
      show "ls_current a \<noteq> EOZ" using minus by simp
      fix x y assume xy: "lex_rel la x y" and s: "next_char a = Inr x"
      have l: "input_left x < input_left a" using next_char_left(2) [OF s] minus by simp
      have "res_rel (with_value (lex_rel la)) (bindE (skip_comment x) (\<lambda>ls2. llex_loop ls2 sem))
          (bindE (skip_comment y) (\<lambda>ls2. llex_loop ls2 sem))" if "ls_current x = 45"
      proof (rule res_rel_bind [OF skip_comment_rel [OF xy]])
        fix u v assume uv: "lex_rel la u v" and s2: "skip_comment x = Inr u"
        show "res_rel (with_value (lex_rel la)) (llex_loop u sem) (llex_loop v sem)"
          by (rule less.hyps [OF le_less_trans [OF skip_comment_left [OF s2] l] uv])
      qed (use that in simp)
      with xy show "res_rel (with_value (lex_rel la))
         (if ls_current x \<noteq> 45 then Inr (x, 45, sem) else bindE (skip_comment x) (\<lambda>ls2. llex_loop ls2 sem))
         (if ls_current y \<noteq> 45 then Inr (y, 45, sem) else bindE (skip_comment y) (\<lambda>ls2. llex_loop ls2 sem))"
        by (simp add: lex_rel_fields [OF xy])
    qed
    with minus show ?thesis by (simp add: e f)
  next
    case space
    then have c: "ls_current a \<noteq> EOZ" by (auto simp: isspace_def)
    have "res_rel (with_value (lex_rel la)) (bindE (next_char a) (\<lambda>ls1. llex_loop ls1 sem))
        (bindE (next_char b) (\<lambda>ls1. llex_loop ls1 sem))"
      by (rule res_rel_bind [OF next_char_rel [OF less.prems c]]) (use less.hyps next_char_left(2) c in blast)
    with space show ?thesis by (simp add: e f)
  next
    case tok
    with llex_token_rel [OF less.prems] show ?thesis by (simp add: e f)
  qed
qed

lemma lex_rel_t: "lex_rel la a b \<Longrightarrow> lex_rel la (a\<lparr>ls_t := t\<rparr>) (b\<lparr>ls_t := t\<rparr>)"
  by (auto simp: lex_rel_def lex_ok_def)


lemma lex_rel_next:
  assumes "lex_rel la a b" "t_token la = TK_EOS"
  shows "res_rel (lex_rel la) (luaX_next a) (luaX_next b)"
proof -
  define a1 b1 where "a1 = a\<lparr>ls_lastline := ls_linenumber a\<rparr>" and "b1 = b\<lparr>ls_lastline := ls_linenumber b\<rparr>"
  have r: "lex_rel la a1 b1" using assms by (auto simp: a1_def b1_def lex_rel_def lex_ok_def)
  then have l: "ls_lookahead a1 = la" by (simp add: lex_rel_def)
  have "res_rel (lex_rel la)
     (bindE (llex_loop (a1\<lparr>ls_buff := []\<rparr>) (t_seminfo (ls_t a1))) (\<lambda>(ls2, tk, sem). Inr (ls2\<lparr>ls_t := \<lparr>t_token = tk, t_seminfo = sem\<rparr>\<rparr>)))
     (bindE (llex_loop (b1\<lparr>ls_buff := []\<rparr>) (t_seminfo (ls_t a1))) (\<lambda>(ls2, tk, sem). Inr (ls2\<lparr>ls_t := \<lparr>t_token = tk, t_seminfo = sem\<rparr>\<rparr>)))"
    by (rule res_rel_bind_value [OF llex_loop_rel [OF lex_rel_reset [OF r]]]) (auto simp: lex_rel_t)
  then show ?thesis
    using lex_rel_fields [OF r] l assms(2) by (simp add: luaX_next_def Let_def llex_def flip: a1_def b1_def)
qed

subsection \<open>Progress\<close>

lemma string_loop_left: "string_loop ls del = Inr ls' \<Longrightarrow> input_left ls' \<le> input_left ls"
proof (induction ls del rule: string_loop.induct)
  case (1 ls del)
  note e = string_loop.simps [of ls del]
  consider (fin) "ls_current ls = del" | (err) "ls_current ls \<noteq> del" "ls_current ls = EOZ \<or> currIsNewline ls"
    | (esc) "ls_current ls \<noteq> del" "ls_current ls \<noteq> EOZ" "\<not> currIsNewline ls" "ls_current ls = 92"
    | (oth) "ls_current ls \<noteq> del" "ls_current ls \<noteq> EOZ" "\<not> currIsNewline ls" "ls_current ls \<noteq> 92" by blast
  then show ?case
  proof cases
    case fin
    with "1.prems" show ?thesis by (simp add: e)
  next
    case err
    with "1.prems" show ?thesis by (auto simp: e split: if_splits)
  next
    case esc
    with "1.prems" obtain ls1 ls2 where s: "next_char ls = Inr ls1" "escape_sequence ls1 = Inr ls2" "string_loop ls2 del = Inr ls'"
      by (auto simp: e bindE_Inr_iff)
    from "1.IH"(1) [OF esc s] next_char_left(1) [OF s(1)] escape_sequence_left [OF s(2)] show ?thesis by simp
  next
    case oth
    with "1.prems" obtain ls1 where s: "save_and_next ls = Inr ls1" "string_loop ls1 del = Inr ls'"
      by (auto simp: e bindE_Inr_iff)
    from "1.IH"(2) [OF oth s] save_and_next_left(1) [OF s(1)] show ?thesis by simp
  qed
qed

lemma newstring_left: "luaX_newstring ls s = Inr (ls', s') \<Longrightarrow> input_left ls' = input_left ls"
  by (auto simp: luaX_newstring_def bindE_Inr_iff input_left_def)

lemma read_long_string_left:
  assumes "read_long_string ls keep sep = Inr (ls', s)"
  shows "input_left ls' \<le> input_left ls"
proof -
  from assms obtain l1 l2 l3 where s: "save_and_next ls = Inr l1"
    "(if currIsNewline l1 then inclinenumber l1 else Inr l1) = Inr l2" "long_string_loop l2 sep keep = Inr l3"
    "(if keep then (let n = nat (2 + sep); s = ls_buff l3 in luaX_newstring l3 (take (length s - 2 * n) (drop n s)))
      else Inr (l3, [])) = Inr (ls', s)"
    unfolding read_long_string_def bindE_Inr_iff by blast
  have "input_left l2 \<le> input_left l1" using s(2) inclinenumber_left(1) by (auto split: if_splits)
  moreover have "input_left ls' = input_left l3" using s(4) newstring_left by (auto simp: Let_def split: if_splits)
  ultimately show ?thesis using save_and_next_left(1) [OF s(1)] long_string_loop_left [OF s(3)] by simp
qed

lemma read_string_left:
  "read_string ls del = Inr (ls', s) \<Longrightarrow> ls_current ls \<noteq> EOZ \<Longrightarrow> input_left ls' < input_left ls"
  by (fastforce simp: read_string_def bindE_Inr_iff Let_def dest!: newstring_left string_loop_left
      dest: save_and_next_left)

lemma check_next_left: "check_next ls cs = Inr (ls', b) \<Longrightarrow> input_left ls' \<le> input_left ls"
  by (auto simp: check_next_def bindE_Inr_iff dest: save_and_next_left(1) split: if_splits)

lemma trydecpoint_left: "trydecpoint ls = Inr (ls', r) \<Longrightarrow> input_left ls' = input_left ls"
  by (auto simp: trydecpoint_def Let_def buffreplace_def input_left_def split: option.splits)

lemma read_numeral_left:
  assumes "read_numeral ls = Inr (ls', r)" "ls_current ls \<noteq> EOZ"
  shows "input_left ls' < input_left ls"
proof -
  have b: "input_left (buffreplace ls c d) = input_left ls" for ls c d by (simp add: buffreplace_def input_left_def)
  from assms(1) obtain l1 l2 l3 e l4 e' l5 l6 where s: "save_and_next ls = Inr l1" "save_while numeral_char l1 = Inr l2"
    "check_next l2 ''Ee'' = Inr (l3, e)" "(if e then check_next l3 ''+-'' else Inr (l3, False)) = Inr (l4, e')"
    "save_while name_char l4 = Inr l5" "save l5 NUL = Inr l6"
    "(let ls1 = buffreplace l6 (CHR ''.'') (ls_decpoint l6) in case luaO_str2d (ls_buff ls1) of
        Some r \<Rightarrow> Inr (ls1, SemNum r) | None \<Rightarrow> trydecpoint ls1) = Inr (ls', r)"
    unfolding read_numeral_def bindE_Inr_iff by (fastforce simp: bindE_Inr_iff)
  have "input_left ls' = input_left l6" using s(7) trydecpoint_left by (fastforce simp: Let_def b split: option.splits)
  moreover have "input_left l4 \<le> input_left l3" using s(4) check_next_left by (auto split: if_splits)
  ultimately show ?thesis
    using save_and_next_left(2) [OF s(1) assms(2)] save_while_left [OF s(2)] check_next_left [OF s(3)]
      save_while_left [OF s(5)] save_left [OF s(6)] by linarith
qed

lemma maybe_eq_left:
  "maybe_eq ls tk = Inr (ls', tk') \<Longrightarrow> ls_current ls \<noteq> EOZ \<Longrightarrow> input_left ls' < input_left ls"
  by (auto simp: maybe_eq_def bindE_Inr_iff split: if_splits dest: next_char_left intro: le_less_trans)

lemma read_name_left:
  "read_name ls sem = Inr (ls', tk) \<Longrightarrow> ls_current ls \<noteq> EOZ \<Longrightarrow> input_left ls' < input_left ls"
  by (fastforce simp: read_name_def bindE_Inr_iff dest!: newstring_left save_while_left dest: save_and_next_left
      split: if_splits)


lemma llex_token_eats:
  assumes "llex_token ls sem = Inr (ls', tk, sem')" and c: "ls_current ls \<noteq> EOZ"
  shows "input_left ls' < input_left ls"
proof -
  let ?c = "ls_current ls"
  consider (br) "?c = 91" | (dot) "?c = 46" | (oth) "?c \<noteq> 91" "?c \<noteq> 46" by blast
  then show ?thesis
  proof cases
    case br
    with assms obtain ls1 sep where s: "skip_sep ls = Inr (ls1, sep)"
      "(if 0 \<le> sep then bindE (read_long_string ls1 True sep) (\<lambda>(ls2, s). Inr (ls2, TK_STRING, SemStr s))
        else if sep = - 1 then Inr (ls1, 91, sem)
        else luaX_lexerror ls1 ''invalid long string delimiter'' TK_STRING) = Inr (ls', tk, sem')"
      by (auto simp: llex_token_def bindE_Inr_iff)
    then have "input_left ls' \<le> input_left ls1"
      by (auto simp: bindE_Inr_iff dest: read_long_string_left split: if_splits)
    with skip_sep_left [OF s(1)] c show ?thesis by simp
  next
    case dot
    with assms obtain l1 l2 b where s: "save_and_next ls = Inr l1" "check_next l1 ''.'' = Inr (l2, b)"
      "(if b then bindE (check_next l2 ''.'') (\<lambda>(ls3, b'). Inr (ls3, if b' then TK_DOTS else TK_CONCAT, sem))
        else if \<not> isdigit (ls_current l2) then Inr (l2, 46, sem)
        else bindE (read_numeral l2) (\<lambda>(ls3, r). Inr (ls3, TK_NUMBER, r))) = Inr (ls', tk, sem')"
      by (auto simp: llex_token_def bindE_Inr_iff)
    have "isdigit (ls_current l2) \<Longrightarrow> ls_current l2 \<noteq> EOZ" by (auto simp: isdigit_def)
    with s(3) have "input_left ls' \<le> input_left l2"
      by (auto simp: bindE_Inr_iff dest: check_next_left split: if_splits dest!: read_numeral_left)
    with check_next_left [OF s(2)] save_and_next_left(2) [OF s(1) c] show ?thesis by simp
  next
    case oth
    note l = maybe_eq_left read_string_left read_numeral_left next_char_left(2)
    from assms(1) c oth show ?thesis
      by (auto simp: llex_token_def bindE_Inr_iff Let_def split: if_splits
          dest: maybe_eq_left read_string_left read_numeral_left next_char_left(2) read_name_left)
  qed
qed

lemma llex_token_end: "ls_current ls = EOZ \<Longrightarrow> llex_token ls sem = Inr (ls, TK_EOS, sem)"
  by (simp add: llex_token_def isdigit_def isalpha_def isupper_def islower_def)

lemma llex_token_left: "llex_token ls sem = Inr (ls', tk, sem') \<Longrightarrow> tk \<noteq> TK_EOS \<Longrightarrow> input_left ls' < input_left ls"
  using llex_token_eats llex_token_end by (cases "ls_current ls = EOZ") auto

lemma llex_token_le: "llex_token ls sem = Inr (ls', tk, sem') \<Longrightarrow> input_left ls' \<le> input_left ls"
  using llex_token_eats [of ls sem ls' tk sem'] llex_token_end [of ls sem] by (cases "ls_current ls = EOZ") auto

lemma llex_loop_left:
  "llex_loop ls sem = Inr (ls', tk, sem') \<Longrightarrow> tk \<noteq> TK_EOS \<Longrightarrow> input_left ls' < input_left ls"
proof (induction "input_left ls" arbitrary: ls rule: less_induct)
  case less
  note e = llex_loop_cases [of ls sem]
  consider (nl) "currIsNewline ls" | (minus) "\<not> currIsNewline ls" "ls_current ls = 45"
    | (space) "\<not> currIsNewline ls" "ls_current ls \<noteq> 45" "isspace (ls_current ls)"
    | (tok) "\<not> currIsNewline ls" "ls_current ls \<noteq> 45" "\<not> isspace (ls_current ls)" by blast
  then show ?case
  proof cases
    case nl
    with less.prems obtain ls1 where s: "inclinenumber ls = Inr ls1" "llex_loop ls1 sem = Inr (ls', tk, sem')"
      by (auto simp: e bindE_Inr_iff)
    have "input_left ls1 < input_left ls" using inclinenumber_left(2) [OF s(1)] nl by (auto simp: currIsNewline_def)
    with less.hyps [OF _ s(2) less.prems(2)] show ?thesis by simp
  next
    case minus
    with less.prems obtain ls1 where s: "next_char ls = Inr ls1"
      "(if ls_current ls1 \<noteq> 45 then Inr (ls1, 45, sem)
        else bindE (skip_comment ls1) (\<lambda>ls2. llex_loop ls2 sem)) = Inr (ls', tk, sem')"
      by (auto simp: e bindE_Inr_iff)
    have l: "input_left ls1 < input_left ls" using next_char_left(2) [OF s(1)] minus by simp
    show ?thesis
    proof (cases "ls_current ls1 \<noteq> 45")
      case True
      with s(2) l show ?thesis by simp
    next
      case False
      with s(2) obtain ls2 where s2: "skip_comment ls1 = Inr ls2" "llex_loop ls2 sem = Inr (ls', tk, sem')"
        by (auto simp: bindE_Inr_iff)
      have "input_left ls2 < input_left ls" using skip_comment_left [OF s2(1)] l by simp
      with less.hyps [OF _ s2(2) less.prems(2)] show ?thesis by simp
    qed
  next
    case space
    with less.prems obtain ls1 where s: "next_char ls = Inr ls1" "llex_loop ls1 sem = Inr (ls', tk, sem')"
      by (auto simp: e bindE_Inr_iff)
    have "input_left ls1 < input_left ls" using next_char_left(2) [OF s(1)] space by (auto simp: isspace_def)
    with less.hyps [OF _ s(2) less.prems(2)] show ?thesis by simp
  next
    case tok
    with less.prems llex_token_left show ?thesis by (simp add: e)
  qed
qed

lemma luaX_next_left:
  assumes "luaX_next ls = Inr ls'" "t_token (ls_lookahead ls) = TK_EOS" "t_token (ls_t ls') \<noteq> TK_EOS"
  shows "input_left ls' < input_left ls"
proof -
  have b: "input_left (ls\<lparr>ls_lastline := n, ls_buff := s\<rparr>) = input_left ls"
    "input_left (ls\<lparr>ls_t := x\<rparr>) = input_left ls" for ls n s x
    by (simp_all add: input_left_def)
  from assms obtain ls2 tk sem where
    "llex_loop (ls\<lparr>ls_lastline := ls_linenumber ls, ls_buff := []\<rparr>) (t_seminfo (ls_t ls)) = Inr (ls2, tk, sem)"
    "ls' = ls2\<lparr>ls_t := \<lparr>t_token = tk, t_seminfo = sem\<rparr>\<rparr>"
    by (auto simp: luaX_next_def Let_def llex_def bindE_Inr_iff)
  with llex_loop_left [of "ls\<lparr>ls_lastline := ls_linenumber ls, ls_buff := []\<rparr>"] assms(3) show ?thesis
    by (simp add: b)
qed

subsection \<open>The tokens of a source\<close>

text \<open>Reading on until the end of the source: the tokens, each with the line on which it ends. \<open>n\<close>
bounds the number of tokens.\<close>

fun read_tokens :: "nat \<Rightarrow> LexState \<Rightarrow> (Token \<times> int) list res" where
  "read_tokens 0 ls = Inl NO_FUEL"
| "read_tokens (Suc n) ls =
     bindE (luaX_next ls) (\<lambda>ls1.
       if t_token (ls_t ls1) = TK_EOS then Inr []
       else bindE (read_tokens n ls1) (\<lambda>ts. Inr ((ls_t ls1, ls_linenumber ls1) # ts)))"

definition source_tokens :: "string list \<Rightarrow> string \<Rightarrow> lua_table \<Rightarrow> nat \<Rightarrow> (Token \<times> int) list res" where
  "source_tokens bs source h n =
     bindE (luaX_setinput (luaZ_init bs) source h) (read_tokens n)"


lemma read_tokens_rel:
  assumes "lex_rel la a b" "t_token la = TK_EOS" "input_left a < n"
  shows "res_rel (=) (read_tokens n a) (read_tokens n b)"
  using assms(1,3)
proof (induction n arbitrary: a b)
  case (Suc n)
  show ?case unfolding read_tokens.simps
  proof (rule res_rel_bind [OF lex_rel_next [OF Suc.prems(1) assms(2)]])
    fix x y assume xy: "lex_rel la x y" and s: "luaX_next a = Inr x"
    have "res_rel (=) (bindE (read_tokens n x) (\<lambda>ts. Inr ((ls_t x, ls_linenumber x) # ts)))
        (bindE (read_tokens n y) (\<lambda>ts. Inr ((ls_t x, ls_linenumber x) # ts)))" if "t_token (ls_t x) \<noteq> TK_EOS"
    proof (rule res_rel_bind [OF Suc.IH [OF xy]])
      have "ls_lookahead a = la" using Suc.prems(1) by (simp add: lex_rel_def)
      with luaX_next_left [OF s] assms(2) that Suc.prems(2) show "input_left x < n" by simp
    qed simp
    then show "res_rel (=)
       (if t_token (ls_t x) = TK_EOS then Inr [] else bindE (read_tokens n x) (\<lambda>ts. Inr ((ls_t x, ls_linenumber x) # ts)))
       (if t_token (ls_t y) = TK_EOS then Inr [] else bindE (read_tokens n y) (\<lambda>ts. Inr ((ls_t y, ls_linenumber y) # ts)))"
      by (simp add: lex_rel_fields [OF xy])
  qed
qed simp

text \<open>C11: The tokens of a source, and the error that reading them raises, do not depend on how the reader
cuts the source into blocks. Reading always ends, after at most one token for each byte, and never
accesses memory outside of the buffers.\<close>

theorem tokens_of_source:
  assumes "concat bs = concat bs'" "[] \<notin> set bs" "[] \<notin> set bs'" "length (concat bs) < 18446744073709551616"
    and "table_ok h" "length (concat bs) + 2 \<le> n"
  shows "source_tokens bs source h n = source_tokens bs' source h n
    \<and> source_tokens bs source h n \<notin> {Inl UNDEFINED, Inl NO_FUEL}"
proof -
  have len: "length b \<le> length (concat xs)" if "b \<in> set xs" for b :: string and xs
    using that by (induction xs) auto
  have init: "zio_ok (luaZ_init xs)" "zio_rest (luaZ_init xs) = concat xs"
    if "[] \<notin> set xs" "length (concat xs) < 18446744073709551616" for xs
  proof -
    have "b \<noteq> [] \<and> int (length b) < 18446744073709551616" if "b \<in> set xs" for b
      using len [OF that] \<open>[] \<notin> set xs\<close> \<open>length (concat xs) < _\<close> that by auto
    from zio_init [of xs, OF this] show "zio_ok (luaZ_init xs)" "zio_rest (luaZ_init xs) = concat xs" by simp_all
  qed
  let ?la = "\<lparr>t_token = TK_EOS, t_seminfo = SemNone\<rparr>"
  let ?st = "\<lambda>z. \<lparr>ls_current = 0, ls_linenumber = 1, ls_lastline = 1,
        ls_t = \<lparr>t_token = 0, t_seminfo = SemNone\<rparr>, ls_lookahead = ?la,
        ls_h = h, ls_z = z, ls_buff = [], ls_buffsize = LUA_MINBUFFER, ls_source = source, ls_decpoint = CHR ''.''\<rparr>"
  have l: "length (concat bs') < 18446744073709551616" using assms(1,4) by simp
  have r: "lex_rel ?la (?st (luaZ_init bs)) (?st (luaZ_init bs'))"
    using init [OF assms(2,4)] init [OF assms(3) l] assms(1,5) by (simp add: lex_rel_def lex_ok_def)
  have "res_rel (=) (source_tokens bs source h n) (source_tokens bs' source h n)"
    unfolding source_tokens_def luaX_setinput_def
  proof (rule res_rel_bind [OF next_char_rel [OF r]])
    fix x y assume xy: "lex_rel ?la x y" and s: "next_char (?st (luaZ_init bs)) = Inr x"
    have "input_left x < input_left (?st (luaZ_init bs))" by (rule next_char_left(2) [OF s]) simp
    then have "input_left x < n" using assms(6) init(2) [OF assms(2,4)] by (simp add: input_left_def)
    with read_tokens_rel [OF xy] show "res_rel (=) (read_tokens n x) (read_tokens n y)" by simp
  qed simp
  then show ?thesis by (auto simp: res_rel_def split: sum.splits)
qed

theorem tokens_of_source_witness:
  "source_tokens [''x = '', ''1''] ''@f'' sample 9 = source_tokens [''x '', ''= 1''] ''@f'' sample 9
   \<and> source_tokens [''x = '', ''1''] ''@f'' sample 9 \<notin> {Inl UNDEFINED, Inl NO_FUEL}"
  by (rule tokens_of_source) (simp_all add: sample_ok)

end
