(* ===== verification/LuaTokens.thy ===== *)
theory LuaTokens
  imports LuaLex LuaFormat
begin

text \<open>
  What the analyzer makes of known text: quoted strings as string.format writes them, numerals as
  tostring writes them, and the reserved words.
\<close>

section \<open>Reading known text\<close>

text \<open>
  The state before the text \<open>cs\<close>, with the contents \<open>b\<close> of the buffer, the table \<open>h\<close> and the line \<open>k\<close>.
\<close>

definition reading :: "LexState \<Rightarrow> string \<Rightarrow> lua_table \<Rightarrow> int \<Rightarrow> string \<Rightarrow> bool" where
  "reading ls b h k cs \<longleftrightarrow> lex_ok ls \<and> ls_buffsize ls \<le> 4611686018427387904 \<and> ls_buff ls = b \<and> ls_h ls = h
     \<and> ls_linenumber ls = k \<and> ls_decpoint ls = CHR ''.''
     \<and> (case cs of [] \<Rightarrow> ls_current ls = EOZ | c # cs' \<Rightarrow> ls_current ls = uchar c \<and> zio_rest (ls_z ls) = cs')"

abbreviation MAXLEN :: nat where "MAXLEN \<equiv> 2305843009213693952"

lemma reading_Cons: "reading ls b h k (c # cs) \<Longrightarrow> ls_current ls = uchar c"
  by (simp add: reading_def)

lemma reading_buff: "reading ls b h k cs \<Longrightarrow> ls_buff ls = b"
  by (simp add: reading_def)

lemma next_reading:
  assumes "reading ls b h k (c # cs)"
  obtains ls' where "next_char ls = Inr ls'" "reading ls' b h k cs"
proof -
  have r: "ls_current ls = uchar c" "zio_rest (ls_z ls) = cs" "zio_ok (ls_z ls)" "lex_ok ls"
    using assms by (auto simp: reading_def lex_ok_def)
  from zio.get_total [OF r(3)] obtain z where
    z: "zgetc (ls_z ls) = Inr (z, case cs of [] \<Rightarrow> EOZ | c # cs \<Rightarrow> uchar c)" "zio_rest z = tl cs" "cs \<noteq> [] \<Longrightarrow> zio_ok z"
    by (auto simp: r(2))
  show thesis
  proof (rule that)
    show "next_char ls = Inr (ls\<lparr>ls_z := z, ls_current := case cs of [] \<Rightarrow> EOZ | c # cs \<Rightarrow> uchar c\<rparr>)"
      by (simp add: next_char_def z(1))
    show "reading (ls\<lparr>ls_z := z, ls_current := case cs of [] \<Rightarrow> EOZ | c # cs \<Rightarrow> uchar c\<rparr>) b h k cs"
      using assms z by (auto simp: reading_def lex_ok_def split: list.splits)
  qed
qed

lemma save_reading:
  assumes "reading ls b h k cs" "length b < MAXLEN"
  obtains ls' where "save ls c = Inr ls'" "reading ls' (b @ [c]) h k cs"
proof -
  define size' where "size' = (if ls_buffsize ls < int (length b) + 1 then ls_buffsize ls * 2 else ls_buffsize ls)"
  have s: "int (length b) \<le> ls_buffsize ls" "32 \<le> ls_buffsize ls" "ls_buffsize ls \<le> 4611686018427387904" "ls_buff ls = b"
    using assms by (auto simp: reading_def lex_ok_def)
  have "save ls c = Inr (ls\<lparr>ls_buff := b @ [c], ls_buffsize := size'\<rparr>)"
    using s by (auto simp: save_def Let_def size'_def MAX_SIZET_def)
  moreover have "reading (ls\<lparr>ls_buff := b @ [c], ls_buffsize := size'\<rparr>) (b @ [c]) h k cs"
    using assms s by (auto simp: reading_def lex_ok_def size'_def split: list.splits)
  ultimately show thesis by (rule that)
qed

lemma save_and_next_reading:
  assumes "reading ls b h k (c # cs)" "length b < MAXLEN"
  obtains ls' where "save_and_next ls = Inr ls'" "reading ls' (b @ [c]) h k cs"
proof -
  have c: "char_of (ls_current ls mod 256) = c" using reading_Cons [OF assms(1)] by simp
  obtain ls1 where s: "save ls c = Inr ls1" "reading ls1 (b @ [c]) h k (c # cs)"
    by (rule save_reading [OF assms])
  obtain ls2 where n: "next_char ls1 = Inr ls2" "reading ls2 (b @ [c]) h k cs"
    by (rule next_reading [OF s(2)])
  show thesis by (rule that [of ls2]) (use s n c in \<open>simp_all add: save_and_next_def\<close>)
qed

lemma uchar_eq: "uchar c = uchar d \<longleftrightarrow> c = d"
  by (metis char_of_uchar)

lemma uchar_numeral:
  "uchar c = 34 \<longleftrightarrow> c = CHR 0x22" "uchar c = 92 \<longleftrightarrow> c = CHR 0x5C" "uchar c = 10 \<longleftrightarrow> c = CHR 0x0A"
  "uchar c = 13 \<longleftrightarrow> c = CHR 0x0D" "uchar c = 46 \<longleftrightarrow> c = CHR ''.''" "uchar c = 95 \<longleftrightarrow> c = CHR ''_''"
  using uchar_eq [of c "CHR 0x22"] uchar_eq [of c "CHR 0x5C"] uchar_eq [of c "CHR 0x0A"] uchar_eq [of c "CHR 0x0D"]
    uchar_eq [of c "CHR ''.''"] uchar_eq [of c "CHR ''_''"] by (simp_all add: uchar_def)

lemma newline_reading:
  assumes "reading ls b h k (CHR 0x0A # cs)" "\<And>c cs'. cs = c # cs' \<Longrightarrow> c \<noteq> CHR 0x0D" "k + 1 < MAX_INT"
  obtains ls' where "inclinenumber ls = Inr ls'" "reading ls' b h (k + 1) cs"
proof -
  obtain ls1 where n: "next_char ls = Inr ls1" "reading ls1 b h k cs" by (rule next_reading [OF assms(1)])
  have c: "ls_current ls = 10" using reading_Cons [OF assms(1)] by (simp add: uchar_def)
  have "\<not> (currIsNewline ls1 \<and> ls_current ls1 \<noteq> 10)"
    using n(2) assms(2) by (cases cs) (auto simp: currIsNewline_def reading_def uchar_numeral)
  moreover have "ls_linenumber ls1 = k" using n(2) by (simp add: reading_def)
  ultimately have "inclinenumber ls = Inr (ls1\<lparr>ls_linenumber := k + 1\<rparr>)"
    using assms(3) by (auto simp: inclinenumber_def n(1) c Let_def)
  moreover have "reading (ls1\<lparr>ls_linenumber := k + 1\<rparr>) b h (k + 1) cs"
    using n(2) by (auto simp: reading_def lex_ok_def split: list.splits)
  ultimately show thesis by (rule that)
qed

section \<open>Quoted strings\<close>

lemma nul_reading:
  assumes "reading ls b h k (''000'' @ cs)" "length b < MAXLEN"
  obtains ls' where "escape_sequence ls = Inr ls'" "reading ls' (b @ [NUL]) h k cs"
proof -
  have d: "uchar (CHR ''0'') = 48" by (simp add: uchar_def)
  from assms(1) have r: "reading ls b h k (CHR ''0'' # CHR ''0'' # CHR ''0'' # cs)" by simp
  obtain l1 where l1: "next_char ls = Inr l1" "reading l1 b h k (CHR ''0'' # CHR ''0'' # cs)" by (rule next_reading [OF r])
  obtain l2 where l2: "next_char l1 = Inr l2" "reading l2 b h k (CHR ''0'' # cs)" by (rule next_reading [OF l1(2)])
  obtain l3 where l3: "next_char l2 = Inr l3" "reading l3 b h k cs" by (rule next_reading [OF l2(2)])
  obtain l4 where l4: "save l3 NUL = Inr l4" "reading l4 (b @ [NUL]) h k cs" by (rule save_reading [OF l3(2) assms(2)])
  have c: "ls_current ls = 48" "ls_current l1 = 48" "ls_current l2 = 48"
    using reading_Cons [OF r] reading_Cons [OF l1(2)] reading_Cons [OF l2(2)] d by simp_all
  have "decimal_loop 3 ls 0 = Inr (l3, 0)"
    using c l1(1) l2(1) l3(1) by (simp add: numeral_3_eq_3 Let_def isdigit_def)
  then have "escape_sequence ls = Inr l4"
    using c(1) l4(1) by (simp add: escape_sequence_def escape_char_def currIsNewline_def isdigit_def char_of_def)
  with l4(2) show thesis by (rule that [rotated])
qed

lemma quote_chars:
  "quote_char (CHR 0x0A) = [CHR 0x5C, CHR 0x0A]" "quote_char NUL = CHR 0x5C # ''000''"
  "quote_char (CHR 0x22) = [CHR 0x5C, CHR 0x22]" "quote_char (CHR 0x5C) = [CHR 0x5C, CHR 0x5C]"
  "c \<noteq> CHR 0x0A \<Longrightarrow> c \<noteq> NUL \<Longrightarrow> c \<noteq> CHR 0x22 \<Longrightarrow> c \<noteq> CHR 0x5C \<Longrightarrow> quote_char c = [c]"
  by (simp_all add: quote_char_def)

text \<open>The loop goes on behind the quoted characters; a carriage return behind a newline would be taken with it.\<close>

lemma string_loop_quoted:
  assumes "reading ls b h k (concat (map quote_char s) @ cs)" "CHR 0x0D \<notin> set s"
    and "length b + length s < MAXLEN" "k + int (count (mset s) (CHR 0x0A)) < MAX_INT"
    and "\<And>d ds. cs = d # ds \<Longrightarrow> s \<noteq> [] \<Longrightarrow> last s = CHR 0x0A \<Longrightarrow> d \<noteq> CHR 0x0D"
  shows "\<exists>ls'. string_loop ls 34 = string_loop ls' 34 \<and> reading ls' (b @ s) h (k + int (count (mset s) (CHR 0x0A))) cs"
  using assms
proof (induction s arbitrary: ls b k)
  case Nil
  then show ?case by auto
next
  case (Cons c s)
  let ?r = "concat (map quote_char s) @ cs"
  let ?n = "\<lambda>s. int (count (mset s) (CHR 0x0A))"
  note e = string_loop.simps [of ls 34]
  have b: "length b < MAXLEN" "length (b @ [c]) + length s < MAXLEN" using Cons.prems(3) by simp_all
  have cr: "CHR 0x0D \<notin> set s" "c \<noteq> CHR 0x0D" using Cons.prems(2) by auto
  have ih: "\<exists>ls'. string_loop l 34 = string_loop ls' 34 \<and> reading ls' (b @ c # s) h (j + ?n s) cs"
    if "reading l (b @ [c]) h j ?r" "j + ?n s < MAX_INT" for l j
    using Cons.IH [OF that(1) cr(1) b(2) that(2)] Cons.prems(5) by fastforce
  consider (nl) "c = CHR 0x0A" | (nul) "c = NUL" | (esc) "c = CHR 0x22 \<or> c = CHR 0x5C"
    | (oth) "c \<noteq> CHR 0x0A" "c \<noteq> NUL" "c \<noteq> CHR 0x22" "c \<noteq> CHR 0x5C" by blast
  then show ?case
  proof cases
    case nl
    with Cons.prems(1) have r: "reading ls b h k (CHR 0x5C # CHR 0x0A # ?r)" by (simp add: quote_chars)
    obtain l1 where l1: "next_char ls = Inr l1" "reading l1 b h k (CHR 0x0A # ?r)" by (rule next_reading [OF r])
    obtain l2 where l2: "save l1 (CHR 0x0A) = Inr l2" "reading l2 (b @ [CHR 0x0A]) h k (CHR 0x0A # ?r)"
      by (rule save_reading [OF l1(2) b(1)])
    have hd: "d \<noteq> CHR 0x0D" if "?r = d # ds" for d ds
    proof (cases s)
      case Nil
      with that have "cs = d # ds" by simp
      from Cons.prems(5) [OF this] nl Nil show ?thesis by simp
    next
      case (Cons e es)
      with that cr(1) show ?thesis by (auto simp: quote_char_def split: if_splits)
    qed
    have k: "k + 1 < MAX_INT" using Cons.prems(4) nl by simp
    obtain l3 where l3: "inclinenumber l2 = Inr l3" "reading l3 (b @ [CHR 0x0A]) h (k + 1) ?r"
      by (rule newline_reading [OF l2(2) hd k])
    have c: "ls_current ls = 92" "ls_current l1 = 10"
      using reading_Cons [OF r] reading_Cons [OF l1(2)] by (simp_all add: uchar_def)
    have "escape_sequence l1 = Inr l3"
      using c(2) l2(1) l3(1) by (simp add: escape_sequence_def escape_char_def currIsNewline_def)
    with c(1) l1(1) have "string_loop ls 34 = string_loop l3 34" by (simp add: e currIsNewline_def)
    with ih [of l3 "k + 1"] l3(2) Cons.prems(4) nl show ?thesis by (simp add: add.assoc)
  next
    case nul
    with Cons.prems(1) have r: "reading ls b h k (CHR 0x5C # ''000'' @ ?r)" by (simp add: quote_chars)
    obtain l1 where l1: "next_char ls = Inr l1" "reading l1 b h k (''000'' @ ?r)" by (rule next_reading [OF r])
    obtain l2 where l2: "escape_sequence l1 = Inr l2" "reading l2 (b @ [NUL]) h k ?r" by (rule nul_reading [OF l1(2) b(1)])
    have c: "ls_current ls = 92" using reading_Cons [OF r] by (simp add: uchar_def)
    with l1(1) l2(1) have "string_loop ls 34 = string_loop l2 34" by (simp add: e currIsNewline_def)
    with ih [of l2 k] l2(2) Cons.prems(4) nul show ?thesis by simp
  next
    case esc
    with Cons.prems(1) have r: "reading ls b h k (CHR 0x5C # c # ?r)" by (auto simp: quote_chars)
    obtain l1 where l1: "next_char ls = Inr l1" "reading l1 b h k (c # ?r)" by (rule next_reading [OF r])
    obtain l2 where l2: "save_and_next l1 = Inr l2" "reading l2 (b @ [c]) h k ?r" by (rule save_and_next_reading [OF l1(2) b(1)])
    have c: "ls_current ls = 92" "ls_current l1 = 34 \<or> ls_current l1 = 92"
      using reading_Cons [OF r] reading_Cons [OF l1(2)] esc by (auto simp: uchar_def)
    then have "escape_sequence l1 = Inr l2"
      using l2(1) by (auto simp: escape_sequence_def escape_char_def currIsNewline_def isdigit_def)
    with c(1) l1(1) have "string_loop ls 34 = string_loop l2 34" by (simp add: e currIsNewline_def)
    with ih [of l2 k] l2(2) Cons.prems(4) esc show ?thesis by auto
  next
    case oth
    with Cons.prems(1) have r: "reading ls b h k (c # ?r)" by (simp add: quote_chars)
    obtain l1 where l1: "save_and_next ls = Inr l1" "reading l1 (b @ [c]) h k ?r" by (rule save_and_next_reading [OF r b(1)])
    have "ls_current ls \<noteq> 34" "ls_current ls \<noteq> EOZ" "\<not> currIsNewline ls" "ls_current ls \<noteq> 92"
      using reading_Cons [OF r] oth cr(2) by (simp_all add: currIsNewline_def uchar_numeral)
    with l1(1) have "string_loop ls 34 = string_loop l1 34" by (simp add: e)
    with ih [of l1 k] l1(2) Cons.prems(4) oth show ?thesis by simp
  qed
qed


lemma newstring_reading:
  assumes "reading ls b h k cs" "num_keys h < 67108864"
  obtains ls' h' where "luaX_newstring ls s = Inr (ls', s)" "reading ls' b h' k cs"
proof -
  have h: "ls_h ls = h" "table_ok h" using assms(1) by (auto simp: reading_def lex_ok_def)
  from setstr_cases [OF h(2), of s] assms(2) obtain h1 p where
    p: "luaH_setstr h s = Inr (h1, p)" "table_ok h1" "table_ok (slot_set h1 p (TBoolean 1))" by auto
  let ?h = "if ttisnil (slot_val h1 p) then slot_set h1 p (TBoolean 1) else h1"
  show thesis
  proof (rule that)
    show "luaX_newstring ls s = Inr (ls\<lparr>ls_h := ?h\<rparr>, s)" by (simp add: luaX_newstring_def h(1) p(1))
    show "reading (ls\<lparr>ls_h := ?h\<rparr>) b ?h k cs"
      using assms(1) p by (auto simp: reading_def lex_ok_def split: list.splits)
  qed
qed

text \<open>\<open>llex\<close> at a quotation mark.\<close>

lemma llex_quote:
  assumes "reading ls b h k (CHR 0x22 # cs)"
  shows "llex ls sem = bindE (read_string (ls\<lparr>ls_buff := []\<rparr>) 34) (\<lambda>(ls1, s). Inr (ls1, TK_STRING, SemStr s))"
    and "reading (ls\<lparr>ls_buff := []\<rparr>) [] h k (CHR 0x22 # cs)"
proof -
  have c: "ls_current ls = 34" using reading_Cons [OF assms] by (simp add: uchar_def)
  then show "llex ls sem = bindE (read_string (ls\<lparr>ls_buff := []\<rparr>) 34) (\<lambda>(ls1, s). Inr (ls1, TK_STRING, SemStr s))"
    by (simp add: llex_def llex_loop_cases [of "ls\<lparr>ls_buff := []\<rparr>"] llex_token_def currIsNewline_def isspace_def Let_def)
  show "reading (ls\<lparr>ls_buff := []\<rparr>) [] h k (CHR 0x22 # cs)"
    using assms by (auto simp: reading_def lex_ok_def)
qed

text \<open>A string without carriage returns is read back from what \<open>addquoted\<close> makes of it.\<close>

lemma llex_quoted:
  assumes "reading ls b h k (CHR 0x22 # concat (map quote_char s) @ CHR 0x22 # cs)" "CHR 0x0D \<notin> set s"
    and "length s + 2 < MAXLEN" "k + int (count (mset s) (CHR 0x0A)) < MAX_INT" "num_keys h < 67108864"
  shows "\<exists>ls' b' h'. llex ls sem = Inr (ls', TK_STRING, SemStr s)
    \<and> reading ls' b' h' (k + int (count (mset s) (CHR 0x0A))) cs"
proof -
  let ?q = "CHR 0x22" and ?k = "k + int (count (mset s) (CHR 0x0A))"
  note l = llex_quote [OF assms(1)]
  obtain l1 where l1: "save_and_next (ls\<lparr>ls_buff := []\<rparr>) = Inr l1"
    "reading l1 [?q] h k (concat (map quote_char s) @ ?q # cs)"
    using save_and_next_reading [OF l(2)] by auto
  from string_loop_quoted [OF l1(2) assms(2) _ assms(4)] assms(3) obtain l2 where
    l2: "string_loop l1 34 = string_loop l2 34" "reading l2 (?q # s) h ?k (?q # cs)" by auto
  have "string_loop l2 34 = Inr l2"
    using reading_Cons [OF l2(2)] by (simp add: string_loop.simps [of l2] uchar_def)
  note l2 = l2 this
  obtain l3 where l3: "save_and_next l2 = Inr l3" "reading l3 (?q # s @ [?q]) h ?k cs"
    using save_and_next_reading [OF l2(2)] assms(3) by auto
  have b: "ls_buff l3 = ?q # s @ [?q]" using l3(2) by (rule reading_buff)
  obtain l4 h' where l4: "luaX_newstring l3 s = Inr (l4, s)" "reading l4 (?q # s @ [?q]) h' ?k cs"
    by (rule newstring_reading [OF l3(2) assms(5)])
  have "read_string (ls\<lparr>ls_buff := []\<rparr>) 34 = Inr (l4, s)"
    by (simp add: read_string_def l1(1) l2(1,3) l3(1) b l4(1))
  with l(1) l4(2) show ?thesis by auto
qed

text \<open>A carriage return is copied as it is, and ends the string for the analyzer.\<close>

lemma llex_quoted_return:
  assumes "reading ls b h k (CHR 0x22 # concat (map quote_char (s @ CHR 0x0D # s')) @ CHR 0x22 # cs)"
    and "CHR 0x0D \<notin> set s" "s = [] \<or> last s \<noteq> CHR 0x0A"
    and "length s + 3 < MAXLEN" "k + int (count (mset s) (CHR 0x0A)) < MAX_INT"
  shows "\<exists>msg. llex ls sem = Inl (LUA_ERRSYNTAX msg)"
proof -
  let ?q = "CHR 0x22" and ?r = "concat (map quote_char s') @ CHR 0x22 # cs"
  have "quote_char (CHR 0x0D) = [CHR 0x0D]" by (simp add: quote_chars)
  with assms(1) have r: "reading ls b h k (?q # concat (map quote_char s) @ CHR 0x0D # ?r)" by simp
  note l = llex_quote [OF r]
  obtain l1 where l1: "save_and_next (ls\<lparr>ls_buff := []\<rparr>) = Inr l1"
    "reading l1 [?q] h k (concat (map quote_char s) @ CHR 0x0D # ?r)"
    using save_and_next_reading [OF l(2)] by auto
  have "\<exists>ls'. string_loop l1 34 = string_loop ls' 34
      \<and> reading ls' ([?q] @ s) h (k + int (count (mset s) (CHR 0x0A))) (CHR 0x0D # ?r)"
    by (rule string_loop_quoted [OF l1(2) assms(2) _ assms(5)]) (use assms(3,4) in auto)
  then obtain l2 where l2: "string_loop l1 34 = string_loop l2 34"
    "reading l2 (?q # s) h (k + int (count (mset s) (CHR 0x0A))) (CHR 0x0D # ?r)" by auto
  have "ls_current l2 = 13" using reading_Cons [OF l2(2)] by (simp add: uchar_def)
  then have "string_loop l2 34 = luaX_lexerror l2 ''unfinished string'' TK_STRING"
    by (simp add: string_loop.simps [of l2] currIsNewline_def)
  moreover obtain l3 where "save l2 NUL = Inr l3"
    using save_reading [OF l2(2)] assms(4) by auto
  ultimately show ?thesis by (simp add: l(1) read_string_def l1(1) l2(1) luaX_lexerror_def txtToken_def)
qed

section \<open>Numerals\<close>

lemma save_while_reading:
  assumes "reading ls b h k (xs @ cs)" "\<And>c. c \<in> set xs \<Longrightarrow> P (uchar c)" "\<And>c cs'. cs = c # cs' \<Longrightarrow> \<not> P (uchar c)"
    and "length b + length xs < MAXLEN"
  shows "\<exists>ls'. save_while P ls = Inr ls' \<and> reading ls' (b @ xs) h k cs"
  using assms(1,2,4)
proof (induction xs arbitrary: ls b)
  case Nil
  have "ls_current ls = EOZ \<or> \<not> P (ls_current ls)"
    using Nil(1) assms(3) by (cases cs) (auto simp: reading_def)
  then have "save_while P ls = Inr ls" by (subst save_while.simps) auto
  with Nil show ?case by simp
next
  case (Cons c xs)
  then have r: "reading ls b h k (c # xs @ cs)" by simp
  obtain l1 where l1: "save_and_next ls = Inr l1" "reading l1 (b @ [c]) h k (xs @ cs)"
    using save_and_next_reading [OF r] Cons.prems(3) by auto
  have "ls_current ls \<noteq> EOZ \<and> P (ls_current ls)" using reading_Cons [OF r] Cons.prems(2) by simp
  then have "save_while P ls = save_while P l1" by (subst save_while.simps) (simp add: l1(1))
  with Cons.IH [OF l1(2)] Cons.prems(2,3) show ?case by simp
qed

lemma check_next_reading:
  assumes "reading ls b h k (c # cs)" "strchr xs c" "length b < MAXLEN"
  obtains ls' where "check_next ls xs = Inr (ls', True)" "reading ls' (b @ [c]) h k cs"
proof -
  obtain l1 where "save_and_next ls = Inr l1" "reading l1 (b @ [c]) h k cs"
    by (rule save_and_next_reading [OF assms(1,3)])
  with assms(2) that show thesis by (auto simp: check_next_def reading_Cons [OF assms(1)])
qed

lemma check_next_reading_not:
  assumes "reading ls b h k cs" "case cs of [] \<Rightarrow> xs \<in> {''Ee'', ''+-''} | c # cs' \<Rightarrow> \<not> strchr xs c"
  shows "check_next ls xs = Inr (ls, False)"
proof (cases cs)
  case Nil
  with assms have "ls_current ls = EOZ" "xs \<in> {''Ee'', ''+-''}" by (auto simp: reading_def)
  then show ?thesis using check_next_EOZ [of xs EOZ] by (auto simp: check_next_def)
next
  case (Cons c cs')
  with assms show ?thesis by (simp add: check_next_def reading_Cons)
qed


text \<open>
  A numeral of digits, and what follows it: the end of the token, or a zero byte, which \<open>check_next\<close>
  takes for an exponent mark, and with it letters and digits that the conversion never sees.
\<close>

definition numeral_end :: "string \<Rightarrow> bool" where
  "numeral_end cs \<longleftrightarrow> (case cs of [] \<Rightarrow> True | c # cs' \<Rightarrow> \<not> name_char (uchar c) \<and> c \<noteq> CHR ''.'' \<and> c \<noteq> NUL)"

lemma digit_chars:
  assumes "is_dig c"
  shows "numeral_char (uchar c)" "c \<noteq> NUL" "c \<noteq> CHR ''.''"
  using assms by (auto simp: is_dig_def numeral_char_def isdigit_def uchar_def)

lemma exponent_mark: "strchr ''Ee'' c \<longleftrightarrow> c = CHR ''e'' \<or> c = CHR ''E'' \<or> c = NUL"
  "strchr ''+-'' c \<longleftrightarrow> c = CHR ''+'' \<or> c = CHR ''-'' \<or> c = NUL"
  by (auto simp: strchr_def cstr_def)

lemma cstr_NUL: "NUL \<notin> set s \<Longrightarrow> cstr (s @ NUL # t) = s"
  unfolding cstr_def by (induction s) auto

lemma read_numeral_digits:
  assumes "reading ls [] h k (ds @ xs @ cs)" "ds \<noteq> []" "\<forall>c \<in> set ds. is_dig c" "length ds + length xs + 1 < MAXLEN"
    and "luaO_str2d ds = Some r" "numeral_end cs"
    and "xs = [] \<or> (\<exists>ys. xs = NUL # ys \<and> ys \<noteq> [] \<and> (\<forall>c \<in> set ys. name_char (uchar c)))"
  shows "\<exists>ls' b. read_numeral ls = Inr (ls', SemNum r) \<and> reading ls' b h k cs"
proof -
  obtain d ds' where d: "ds = d # ds'" using assms(2) by (cases ds) auto
  obtain l1 where l1: "save_and_next ls = Inr l1" "reading l1 [d] h k (ds' @ xs @ cs)"
    using save_and_next_reading [of ls "[]" h k d "ds' @ xs @ cs"] assms(1) d by auto
  have n: "\<not> numeral_char (uchar c)" if "xs @ cs = c # cs'" for c cs'
    using assms(6,7) that
    by (auto simp: numeral_end_def numeral_char_def name_char_def isalnum_def uchar_numeral isdigit_def Cons_eq_append_conv)
      (auto simp: uchar_def)
  have "\<exists>ls'. save_while numeral_char l1 = Inr ls' \<and> reading ls' ([d] @ ds') h k (xs @ cs)"
    by (rule save_while_reading [OF l1(2)]) (use assms(3,4) d digit_chars n in auto)
  then obtain l2 where l2: "save_while numeral_char l1 = Inr l2" "reading l2 ds h k (xs @ cs)" by (auto simp: d)
  have len: "length ds < MAXLEN" "length (ds @ xs) < MAXLEN" using assms(4) by simp_all
  have end': "\<not> name_char (uchar c)" if "cs = c # cs'" for c cs' using assms(6) that by (simp add: numeral_end_def)
  have marks: "\<not> strchr ''Ee'' c" if "cs = c # cs'" for c cs'
    using assms(6) that by (auto simp: numeral_end_def exponent_mark name_char_def isalnum_def isalpha_def isupper_def islower_def uchar_def)
  have "\<exists>l3 e l4 e' l5. check_next l2 ''Ee'' = Inr (l3, e) \<and> (if e then check_next l3 ''+-'' else Inr (l3, False)) = Inr (l4, e')
      \<and> save_while name_char l4 = Inr l5 \<and> reading l5 (ds @ xs) h k cs"
  proof (cases "xs = []")
    case True
    have "check_next l2 ''Ee'' = Inr (l2, False)"
      by (rule check_next_reading_not [OF l2(2)]) (use True marks in \<open>auto split: list.splits\<close>)
    moreover have "\<exists>ls'. save_while name_char l2 = Inr ls' \<and> reading ls' (ds @ []) h k cs"
      by (rule save_while_reading) (use l2(2) True end' len in auto)
    ultimately show ?thesis using True by auto
  next
    case False
    with assms(7) obtain y ys where xs: "xs = NUL # y # ys" "\<forall>c \<in> set (y # ys). name_char (uchar c)"
      by (metis list.exhaust)
    obtain l3 where l3: "check_next l2 ''Ee'' = Inr (l3, True)" "reading l3 (ds @ [NUL]) h k (y # ys @ cs)"
      using check_next_reading [of l2 ds h k NUL "y # ys @ cs" "''Ee''"] l2(2) len xs(1) by (auto simp: exponent_mark)
    have "\<not> strchr ''+-'' y"
      using xs(2) by (auto simp: exponent_mark name_char_def isalnum_def isalpha_def isupper_def islower_def isdigit_def uchar_def)
    then have "check_next l3 ''+-'' = Inr (l3, False)" by (rule_tac check_next_reading_not [OF l3(2)]) simp
    moreover have "\<exists>ls'. save_while name_char l3 = Inr ls' \<and> reading ls' ((ds @ [NUL]) @ y # ys) h k cs"
      by (rule save_while_reading) (use l3(2) xs end' len in auto)
    ultimately show ?thesis using l3(1) xs(1) by auto
  qed
  then obtain l3 e l4 e' l5 where s: "check_next l2 ''Ee'' = Inr (l3, e)"
    "(if e then check_next l3 ''+-'' else Inr (l3, False)) = Inr (l4, e')" "save_while name_char l4 = Inr l5"
    "reading l5 (ds @ xs) h k cs" by blast
  obtain l6 where l6: "save l5 NUL = Inr l6" "reading l6 (ds @ xs @ [NUL]) h k cs"
    using save_reading [OF s(4) len(2)] by auto
  have b: "buffreplace l6 (CHR ''.'') (ls_decpoint l6) = l6" "ls_buff l6 = ds @ xs @ [NUL]"
    using l6(2) by (simp_all add: reading_def buffreplace_def if_distrib cong: if_cong)
  have ds: "NUL \<notin> set ds" using assms(3) digit_chars(2) by blast
  have "\<exists>zs. xs @ [NUL] = NUL # zs" using assms(7) by (elim disjE exE conjE) simp_all
  then have "cstr (ds @ xs @ [NUL]) = cstr ds" using cstr_NUL [OF ds] cstr_id [OF ds] by auto
  then have "luaO_str2d (ds @ xs @ [NUL]) = Some r" using assms(5) by (simp add: luaO_str2d_def)
  then have "read_numeral ls = Inr (l6, SemNum r)"
    by (simp add: read_numeral_def l1(1) l2(1) s(1) s(2) s(3) l6(1) b)
  with l6(2) show ?thesis by blast
qed

lemma llex_digits:
  assumes "reading ls b h k (ds @ xs @ cs)" "ds \<noteq> []" "\<forall>c \<in> set ds. is_dig c" "length ds + length xs + 1 < MAXLEN"
    and "luaO_str2d ds = Some r" "numeral_end cs"
    and "xs = [] \<or> (\<exists>ys. xs = NUL # ys \<and> ys \<noteq> [] \<and> (\<forall>c \<in> set ys. name_char (uchar c)))"
  shows "\<exists>ls' b'. llex ls sem = Inr (ls', TK_NUMBER, SemNum r) \<and> reading ls' b' h k cs"
proof -
  obtain d ds' where d: "ds = d # ds'" using assms(2) by (cases ds) auto
  then have "isdigit (ls_current ls)" using assms(1,3) reading_Cons [of ls b h k d] by (auto simp: is_dig_def)
  then have "llex ls sem = bindE (read_numeral (ls\<lparr>ls_buff := []\<rparr>)) (\<lambda>(ls1, r). Inr (ls1, TK_NUMBER, r))"
    by (auto simp: llex_def llex_loop_cases [of "ls\<lparr>ls_buff := []\<rparr>"] llex_token_def currIsNewline_def isspace_def isdigit_def Let_def)
  moreover have "reading (ls\<lparr>ls_buff := []\<rparr>) [] h k (ds @ xs @ cs)"
    using assms(1) by (auto simp: reading_def lex_ok_def d)
  from read_numeral_digits [OF this assms(2-7)] obtain ls' b' where
    "read_numeral (ls\<lparr>ls_buff := []\<rparr>) = Inr (ls', SemNum r)" "reading ls' b' h k cs" by blast
  ultimately show ?thesis by auto
qed


section \<open>The tokens of a text\<close>

lemma llex_lookahead:
  assumes "lex_ok ls" "llex ls sem = Inr (ls', x)"
  shows "ls_lookahead ls' = ls_lookahead ls"
proof -
  have "lex_rel (ls_lookahead ls) ls ls" using assms(1) by (simp add: lex_rel_def)
  from llex_loop_rel [OF lex_rel_reset [OF this], of sem] assms(2) show ?thesis
    by (cases x) (auto simp: llex_def lex_rel_def)
qed

lemma llex_end:
  assumes "reading ls b h k []"
  shows "llex ls sem = Inr (ls\<lparr>ls_buff := []\<rparr>, TK_EOS, sem)"
  using assms by (auto simp: llex_def llex_loop_cases [of "ls\<lparr>ls_buff := []\<rparr>"] llex_token_def reading_def
      currIsNewline_def isspace_def isdigit_def isalpha_def isupper_def islower_def Let_def)

lemma setinput_reading:
  assumes "zio_ok z" "table_ok h"
  obtains ls where "luaX_setinput z src h = Inr ls" "reading ls [] h 1 (zio_rest z)"
    "ls_lookahead ls = \<lparr>t_token = TK_EOS, t_seminfo = SemNone\<rparr>"
proof -
  let ?st = "\<lparr>ls_current = 0, ls_linenumber = 1, ls_lastline = 1,
        ls_t = \<lparr>t_token = 0, t_seminfo = SemNone\<rparr>, ls_lookahead = \<lparr>t_token = TK_EOS, t_seminfo = SemNone\<rparr>,
        ls_h = h, ls_z = z, ls_buff = [], ls_buffsize = LUA_MINBUFFER, ls_source = src, ls_decpoint = CHR ''.''\<rparr>"
  have "reading ?st [] h 1 (NUL # zio_rest z)"
    using assms by (simp add: reading_def lex_ok_def uchar_def)
  from next_reading [OF this] obtain ls where ls: "next_char ?st = Inr ls" "reading ls [] h 1 (zio_rest z)" by blast
  moreover have "ls_lookahead ls = \<lparr>t_token = TK_EOS, t_seminfo = SemNone\<rparr>"
    using ls(1) by (auto simp: next_char_def bindE_Inr_iff)
  ultimately show thesis using that by (simp add: luaX_setinput_def)
qed

lemma one_token:
  assumes "reading ls b h k cs" "t_token (ls_lookahead ls) = TK_EOS" "tk \<noteq> TK_EOS"
    and "\<And>ls sem. reading ls b h k cs \<Longrightarrow> \<exists>ls' b' h'. llex ls sem = Inr (ls', tk, sem') \<and> reading ls' b' h' k' []"
  shows "read_tokens (Suc (Suc n)) ls = Inr [(\<lparr>t_token = tk, t_seminfo = sem'\<rparr>, k')]"
proof -
  define ls1 where "ls1 = ls\<lparr>ls_lastline := ls_linenumber ls\<rparr>"
  have r: "reading ls1 b h k cs" "t_token (ls_lookahead ls1) = TK_EOS" "ls_t ls1 = ls_t ls"
    using assms(1,2) by (auto simp: reading_def lex_ok_def ls1_def split: list.splits)
  from assms(4) [OF r(1), of "t_seminfo (ls_t ls)"] obtain ls2 b' h' where
    l: "llex ls1 (t_seminfo (ls_t ls)) = Inr (ls2, tk, sem')" "reading ls2 b' h' k' []" by blast
  have "lex_ok ls1" using r(1) by (simp add: reading_def)
  from llex_lookahead [OF this l(1)] have la: "ls_lookahead ls2 = ls_lookahead ls1" .
  let ?t = "\<lparr>t_token = tk, t_seminfo = sem'\<rparr>"
  have n1: "luaX_next ls = Inr (ls2\<lparr>ls_t := ?t\<rparr>)"
    using r(2) l(1) by (simp add: luaX_next_def Let_def r(3) flip: ls1_def)
  define ls3 where "ls3 = ls2\<lparr>ls_t := ?t, ls_lastline := ls_linenumber ls2\<rparr>"
  have "reading ls3 b' h' k' []" using l(2) by (auto simp: reading_def lex_ok_def ls3_def)
  note e = llex_end [OF this]
  have l3: "ls_lookahead ls3 = ls_lookahead ls2" "ls_t ls3 = ?t" by (simp_all add: ls3_def)
  from e have n2: "luaX_next (ls2\<lparr>ls_t := ?t\<rparr>)
      = Inr (ls3\<lparr>ls_buff := [], ls_t := \<lparr>t_token = TK_EOS, t_seminfo = sem'\<rparr>\<rparr>)"
    using r(2) la l3 by (simp add: luaX_next_def Let_def flip: ls3_def)
  show ?thesis using n1 n2 assms(3) l(2) by (simp add: reading_def)
qed

lemma source_one_token:
  assumes "cs \<noteq> []" "length cs < 18446744073709551616" "table_ok h" "tk \<noteq> TK_EOS"
    and "\<And>ls sem. reading ls [] h 1 cs \<Longrightarrow> \<exists>ls' b' h'. llex ls sem = Inr (ls', tk, sem') \<and> reading ls' b' h' k' []"
  shows "source_tokens [cs] src h (Suc (Suc n)) = Inr [(\<lparr>t_token = tk, t_seminfo = sem'\<rparr>, k')]"
proof -
  have z: "zio_ok (luaZ_init [cs])" "zio_rest (luaZ_init [cs]) = cs"
    using assms(1,2) by (simp_all add: zio_ok_def zio_rest_def luaZ_init_def)
  obtain ls where ls: "luaX_setinput (luaZ_init [cs]) src h = Inr ls" "reading ls [] h 1 cs"
    "ls_lookahead ls = \<lparr>t_token = TK_EOS, t_seminfo = SemNone\<rparr>"
    using setinput_reading [OF z(1) assms(3)] z(2) by auto
  have "t_token (ls_lookahead ls) = TK_EOS" by (simp add: ls(3))
  from one_token [OF ls(2) this assms(4,5)] show ?thesis by (simp add: source_tokens_def ls(1))
qed

subsection \<open>Properties\<close>

lemma addquoted_eq: "addquoted ar [TString s] 1 = Inr (CHR 0x22 # concat (map quote_char s) @ [CHR 0x22])"
  by (simp add: addquoted_def luaL_checklstring_def lua_tolstring_def tolstring_def arg_value_def index2adr_def)

lemma quote_length: "length (concat (map quote_char s)) \<le> 4 * length s"
  by (induction s) (auto simp: quote_char_def)

text \<open>C37: What string.format writes for a string with \<open>%q\<close> is read back by the analyzer as one string token
with the same bytes, zeros, quotes, backslashes and newlines included; the token ends one line lower for
each newline. Carriage returns are excluded.\<close>

theorem quoted_roundtrip:
  assumes "addquoted ar [TString s] 1 = Inr q" "CHR 0x0D \<notin> set s" "length s < 1000000000"
    and "table_ok h" "num_keys h < 67108864"
  shows "source_tokens [q] src h (Suc (Suc n))
    = Inr [(\<lparr>t_token = TK_STRING, t_seminfo = SemStr s\<rparr>, 1 + int (count (mset s) (CHR 0x0A)))]"
proof -
  let ?q = "CHR 0x22 # concat (map quote_char s) @ [CHR 0x22]"
  have q: "q = ?q" using assms(1) by (simp only: addquoted_eq sum.inject)
  have "count (mset s) (CHR 0x0A) \<le> length s" using count_le_size [of "mset s"] by simp
  then have "1 + int (count (mset s) (CHR 0x0A)) < MAX_INT" using assms(3) by (simp add: MAX_INT_def)
  note lq = llex_quoted [OF _ assms(2) _ this assms(5), where cs = "[]"]
  have len: "length s + 2 < MAXLEN" "length ?q < 18446744073709551616" "TK_STRING \<noteq> TK_EOS"
    using assms(3) quote_length [of s] by simp_all
  show ?thesis unfolding q
    by (rule source_one_token [OF _ len(2) assms(4) len(3)]) (simp, use lq [OF _ len(1)] in blast)
qed

theorem quoted_roundtrip_witness:
  "source_tokens [[CHR 0x22, CHR 0x5C, CHR 0x22, CHR ''x'', CHR 0x5C, CHR 0x0A, CHR 0x22]] ''=stdin'' sample (Suc (Suc 3))
   = Inr [(\<lparr>t_token = TK_STRING, t_seminfo = SemStr [CHR 0x22, CHR ''x'', CHR 0x0A]\<rparr>, 2)]"
proof -
  have k: "num_keys sample < 67108864"
    by (simp add: entries_def array_entries_def node_entries_def array_pairs_def node_pairs_def sample_def flip: entries_num_keys)
  have q: "addquoted (\<lparr>has_frame = True, ar_name = None, namewhat = []\<rparr>) [TString [CHR 0x22, CHR ''x'', CHR 0x0A]] 1
      = Inr [CHR 0x22, CHR 0x5C, CHR 0x22, CHR ''x'', CHR 0x5C, CHR 0x0A, CHR 0x22]" by code_simp
  from quoted_roundtrip [OF q _ _ sample_ok k, where n = 3] show ?thesis by simp
qed

text \<open>A carriage return is copied unchanged by \<open>%q\<close>, and the analyzer refuses the string it is in:
the text that \<open>%q\<close> makes for it does not read back.\<close>

theorem quoted_return_fails:
  assumes "addquoted ar [TString (s @ CHR 0x0D # s')] 1 = Inr q" "CHR 0x0D \<notin> set s" "s = [] \<or> last s \<noteq> CHR 0x0A"
    and "length s + length s' < 1000000000" "table_ok h"
  shows "\<exists>msg. source_tokens [q] src h (Suc n) = Inl (LUA_ERRSYNTAX msg)"
proof -
  let ?q = "CHR 0x22 # concat (map quote_char (s @ CHR 0x0D # s')) @ [CHR 0x22]"
  have q: "q = ?q" using assms(1) by (simp only: addquoted_eq sum.inject)
  have "length ?q < 18446744073709551616"
    using assms(4) quote_length [of "s @ CHR 0x0D # s'"] by simp
  then have z: "zio_ok (luaZ_init [q])" "zio_rest (luaZ_init [q]) = ?q"
    unfolding q by (simp_all add: zio_ok_def zio_rest_def luaZ_init_def)
  obtain ls where ls: "luaX_setinput (luaZ_init [q]) src h = Inr ls" "reading ls [] h 1 ?q"
    "ls_lookahead ls = \<lparr>t_token = TK_EOS, t_seminfo = SemNone\<rparr>"
    using setinput_reading [OF z(1) assms(5)] z(2) by auto
  define ls1 where "ls1 = ls\<lparr>ls_lastline := ls_linenumber ls\<rparr>"
  have r: "reading ls1 [] h 1 ?q" using ls(2) by (auto simp: reading_def lex_ok_def ls1_def split: list.splits)
  have "count (mset s) (CHR 0x0A) \<le> length s" using count_le_size [of "mset s"] by simp
  then have "1 + int (count (mset s) (CHR 0x0A)) < MAX_INT" using assms(4) by (simp add: MAX_INT_def)
  from llex_quoted_return [OF r assms(2,3) _ this, of "t_seminfo (ls_t ls)"] assms(4)
  obtain msg where "llex ls1 (t_seminfo (ls_t ls)) = Inl (LUA_ERRSYNTAX msg)" by auto
  then have "luaX_next ls = Inl (LUA_ERRSYNTAX msg)"
    using ls(3) by (simp add: luaX_next_def Let_def ls1_def)
  then show ?thesis by (simp add: source_tokens_def ls(1))
qed

theorem quoted_return_fails_witness:
  "\<exists>msg. source_tokens [[CHR 0x22, CHR 0x0D, CHR 0x22]] ''=stdin'' sample 1 = Inl (LUA_ERRSYNTAX msg)"
proof -
  have "addquoted (\<lparr>has_frame = True, ar_name = None, namewhat = []\<rparr>) [TString ([] @ CHR 0x0D # [])] 1
      = Inr [CHR 0x22, CHR 0x0D, CHR 0x22]" by code_simp
  from quoted_return_fails [OF this _ _ _ sample_ok, where n = 0] show ?thesis by simp
qed

lemma int2str_digits: "0 \<le> k \<Longrightarrow> int2str k \<noteq> [] \<and> (\<forall>c \<in> set (int2str k). is_dig c)"
  using dec_digits_spec [of k] by (simp add: int2str_def)

lemma int2str_length: "0 \<le> k \<Longrightarrow> k < 9007199254740992 \<Longrightarrow> length (int2str k) \<le> 16"
proof -
  assume k: "0 \<le> k" "k < 9007199254740992"
  show ?thesis
  proof (cases "k = 0")
    case True
    have "length (int2str 0) \<le> 16" by code_simp
    with True show ?thesis by simp
  next
    case False
    let ?l = "length (dec_digits k)"
    have "10 ^ (?l - 1) \<le> k" using dec_digits_length [of k] False k by simp
    then have "(10::int) ^ (?l - 1) < 10 ^ 16" using k by simp
    then have "?l - 1 < 16" by (rule power_less_imp_less_exp [rotated]) simp
    then show ?thesis using k by (simp add: int2str_def)
  qed
qed

text \<open>What tostring writes for a natural number below 10^14 is read back as one number token with
that value.\<close>

theorem numeral_roundtrip:
  assumes "0 \<le> k" "k < 100000000000000" "table_ok h"
  shows "source_tokens [lua_number2str (cast_num k)] src h (Suc (Suc n))
    = Inr [(\<lparr>t_token = TK_NUMBER, t_seminfo = SemNum (cast_num k)\<rparr>, 1)]"
proof -
  have e: "lua_number2str (cast_num k) = int2str k" using assms by (simp add: lua_number2str_int)
  have v: "luaO_str2d (int2str k) = Some (cast_num k)" using assms by (simp add: str2d_int2str)
  note d = int2str_digits [OF assms(1)] and l = int2str_length [OF assms(1)]
  have c: "length (int2str k) < 18446744073709551616" "TK_NUMBER \<noteq> TK_EOS" using l assms by simp_all
  have "\<exists>ls' b'. llex ls sem = Inr (ls', TK_NUMBER, SemNum (cast_num k)) \<and> reading ls' b' h 1 []"
    if "reading ls [] h 1 (int2str k)" for ls sem
    by (rule llex_digits [where xs = "[]" and cs = "[]", OF _ _ _ _ v]) (use that d l assms in \<open>simp_all add: numeral_end_def\<close>)
  then show ?thesis unfolding e
    by (rule_tac source_one_token [OF _ c(1) assms(3) c(2)]) (simp add: d, blast)
qed

theorem numeral_roundtrip_witness:
  "source_tokens [lua_number2str (cast_num 42)] ''=stdin'' sample (Suc (Suc 0))
    = Inr [(\<lparr>t_token = TK_NUMBER, t_seminfo = SemNum (cast_num 42)\<rparr>, 1)]"
  by (rule numeral_roundtrip) (simp_all add: sample_ok)

text \<open>A zero byte after a numeral is taken for an exponent mark, because \<open>strchr\<close> finds the terminator
of the set: the letters and digits behind it belong to the numeral and are ignored by the conversion, so
that a malformed source is accepted.\<close>

theorem numeral_swallows_zero:
  assumes "0 \<le> k" "k < 100000000000000" "table_ok h" "ys \<noteq> []" "\<forall>c \<in> set ys. name_char (uchar c)"
    and "length ys < 1000000000"
  shows "source_tokens [int2str k @ NUL # ys] src h (Suc (Suc n))
    = Inr [(\<lparr>t_token = TK_NUMBER, t_seminfo = SemNum (cast_num k)\<rparr>, 1)]"
proof -
  have v: "luaO_str2d (int2str k) = Some (cast_num k)" using assms by (simp add: str2d_int2str)
  note d = int2str_digits [OF assms(1)] and l = int2str_length [OF assms(1)]
  let ?s = "int2str k @ NUL # ys"
  have c: "length ?s < 18446744073709551616" "TK_NUMBER \<noteq> TK_EOS" using l assms by simp_all
  have "\<exists>ls' b'. llex ls sem = Inr (ls', TK_NUMBER, SemNum (cast_num k)) \<and> reading ls' b' h 1 []"
    if "reading ls [] h 1 ?s" for ls sem
    by (rule llex_digits [where xs = "NUL # ys" and cs = "[]", OF _ _ _ _ v])
      (use that d l assms in \<open>simp_all add: numeral_end_def\<close>)
  then show ?thesis
    by (rule_tac source_one_token [OF _ c(1) assms(3) c(2)]) (simp, blast)
qed

theorem numeral_swallows_zero_witness:
  "source_tokens [''12'' @ NUL # ''end'' ] ''=stdin'' sample (Suc (Suc 0))
    = Inr [(\<lparr>t_token = TK_NUMBER, t_seminfo = SemNum (cast_num 12)\<rparr>, 1)]"
proof -
  have i: "int2str 12 = ''12''" "\<forall>c \<in> set ''end''. name_char (uchar c)" by code_simp+
  from numeral_swallows_zero [of 12 sample "''end''"] i show ?thesis by (simp add: sample_ok)
qed


section \<open>Reserved words\<close>

definition res_of :: "stringtable \<Rightarrow> addr \<Rightarrow> int option" where
  "res_of tb a = map_option ts_reserved (strs tb a)"

lemma newlstr_reserved:
  assumes "newlstr tb str h = Inr (tb', a)"
  shows "res_of tb' a = Some 0" "b \<noteq> a \<Longrightarrow> res_of tb' b = res_of tb b"
proof -
  have rs: "strs (luaS_resize tb n) = strs tb" for tb n by (simp add: luaS_resize_def)
  define ts where "ts = \<lparr>ts_marked = luaC_white (currentwhite tb), ts_reserved = 0, ts_hash = h,
      ts_len = int (length str), ts_chars = str\<rparr>"
  have "a = next_addr tb \<and> strs tb' = (strs tb)(next_addr tb \<mapsto> ts)"
    using assms unfolding newlstr_def Let_def ts_def [symmetric] by (auto simp: rs split: if_splits)
  then show "res_of tb' a = Some 0" "b \<noteq> a \<Longrightarrow> res_of tb' b = res_of tb b"
    by (simp_all add: res_of_def ts_def)
qed

text \<open>Interning keeps the numbers of the objects there are, and gives 0 to a new one.\<close>

lemma luaS_newlstr_reserved:
  assumes wf: "wf_strt tb" and r: "luaS_newlstr tb str = Inr (tb', a)"
  shows "members tb' = insert a (members tb)"
    and "b \<in> members tb \<Longrightarrow> res_of tb' b = res_of tb b"
    and "a \<notin> members tb \<Longrightarrow> res_of tb' a = Some 0"
proof -
  note w = wf [unfolded wf_strt_iff]
  let ?i = "nat (lmod (luaS_hash str) (strt_size tb))"
  have i: "?i < length (strt_hash tb)"
    using w lmod_range [of "strt_size tb" "luaS_hash str"] by (auto simp: chained_def nat_less_iff)
  have all: "members tb' = insert a (members tb) \<and> (b \<in> members tb \<longrightarrow> res_of tb' b = res_of tb b)
      \<and> (a \<notin> members tb \<longrightarrow> res_of tb' a = Some 0)"
  proof (cases "List.find (same_string tb str) (strt_hash tb ! ?i)")
    case None
    with r have n: "newlstr tb str (luaS_hash str) = Inr (tb', a)" by (simp add: luaS_newlstr_def Let_def)
    have new: "Some str \<notin> chars_of tb ` members tb"
    proof
      assume "Some str \<in> chars_of tb ` members tb"
      then obtain b where b: "b \<in> members tb" "chars_of tb b = Some str" by auto
      from w b(1) have "obj_good tb b" by blast
      then obtain ts where g: "strs tb b = Some ts" "ts_hash ts = luaS_hash (ts_chars ts)"
        "ts_len ts = int (length (ts_chars ts))" unfolding obj_good_def by blast
      have ch: "ts_chars ts = str" using b(2) by (simp add: chars_of_def g(1))
      note ts = g [unfolded ch] ch
      from b(1) obtain k where k: "k < length (strt_hash tb)" "b \<in> set (strt_hash tb ! k)"
        unfolding members_def set_concat_nth by blast
      with w have "lmod (hash_of (strs tb) b) (strt_size tb) = int k" by (simp add: chained_def)
      then have "k = ?i" by (simp add: hash_of_def ts(1,2))
      with None k ts show False by (auto simp: find_None_iff same_string_def)
    qed
    from newlstr_spec [OF wf refl new n] have "members tb' = insert a (members tb)" "a \<notin> members tb" by simp_all
    moreover from this have "b \<in> members tb \<Longrightarrow> b \<noteq> a" by blast
    ultimately show ?thesis using newlstr_reserved(1) [OF n] newlstr_reserved(2) [OF n, of b] by blast
  next
    case (Some o')
    then have o': "o' \<in> set (strt_hash tb ! ?i)" by (auto simp: find_Some_iff)
    then have mem: "o' \<in> members tb" using i unfolding members_def set_concat_nth by blast
    with r Some show ?thesis
      by (auto simp: luaS_newlstr_def Let_def res_of_def members_def insert_absorb split: option.splits if_splits)
  qed
  show "members tb' = insert a (members tb)" using all by blast
  show "b \<in> members tb \<Longrightarrow> res_of tb' b = res_of tb b" using all by blast
  show "a \<notin> members tb \<Longrightarrow> res_of tb' a = Some 0" using all by blast
qed

text \<open>After the first \<open>i\<close> words: an object has the number of its word among them.\<close>

definition word_number :: "nat \<Rightarrow> string \<Rightarrow> nat" where
  "word_number i s = (case List.find (\<lambda>j. luaX_tokens ! j = s) [0..<i] of None \<Rightarrow> 0 | Some j \<Rightarrow> j + 1)"

definition numbered :: "stringtable \<Rightarrow> nat \<Rightarrow> bool" where
  "numbered tb i \<longleftrightarrow> wf_strt tb \<and>
     (\<forall>a \<in> members tb. \<forall>s. chars_of tb a = Some s \<longrightarrow> res_of tb a = Some (int (word_number i s)))
     \<and> (\<forall>j < i. \<exists>a \<in> members tb. chars_of tb a = Some (luaX_tokens ! j))"

lemma words_distinct: "distinct (take NUM_RESERVED luaX_tokens)"
  by code_simp

lemma find_append: "List.find P (xs @ ys) = (case List.find P xs of None \<Rightarrow> List.find P ys | Some x \<Rightarrow> Some x)"
  by (induction xs) auto

lemma word_number_Suc:
  assumes "i < NUM_RESERVED"
  shows "word_number (Suc i) s = (if s = luaX_tokens ! i then i + 1 else word_number i s)"
proof -
  have d: "luaX_tokens ! j \<noteq> luaX_tokens ! i" if "j < i" for j
  proof -
    have "length (take NUM_RESERVED luaX_tokens) = NUM_RESERVED" by code_simp
    with nth_eq_iff_index_eq [OF words_distinct, of j i] that assms show ?thesis by simp
  qed
  have "List.find (\<lambda>j. luaX_tokens ! j = luaX_tokens ! i) [0..<i] = None"
    using d by (auto simp: find_None_iff)
  then show ?thesis by (auto simp: word_number_def find_append split: option.split)
qed

lemma init_word_numbered:
  assumes n: "numbered tb i" and i: "i < NUM_RESERVED" and r: "init_word tb i = Inr tb'"
  shows "numbered tb' (Suc i)"
proof -
  let ?w = "luaX_tokens ! i"
  have wf: "wf_strt tb" using n by (simp add: numbered_def)
  from r obtain tb1 a where new: "luaS_newlstr tb ?w = Inr (tb1, a)"
    and tb': "tb' = tb1\<lparr>strs := (strs tb1)(a := map_option (\<lambda>ts. ts\<lparr>ts_marked := ts_marked ts OR 32,
                                          ts_reserved := (int i + 1) mod 256\<rparr>) (strs tb1 a))\<rparr>"
    by (auto simp: init_word_def bindE_Inr_iff)
  note sp = luaS_newlstr_spec [OF wf new] and rs = luaS_newlstr_reserved [OF wf new]
  have w1: "wf_strt tb1" using sp by simp
  have m: "members tb' = members tb1" by (simp add: tb' members_def)
  have c: "chars_of tb' = chars_of tb1" by (auto simp: tb' chars_of_def fun_eq_iff option.map_comp comp_def)
  have ho: "hash_of (strs tb') = hash_of (strs tb1)" by (auto simp: tb' hash_of_def fun_eq_iff split: option.split)
  have "obj_good tb' b" if "obj_good tb1 b" for b using that by (auto simp: obj_good_def tb')
  then have w': "wf_strt tb'"
    using w1 unfolding wf_strt_iff m c chained_def ho by (simp add: tb')
  have res: "res_of tb' b = (if b = a then Some (int i + 1) else res_of tb1 b)" if "b \<in> members tb1" for b
  proof -
    have "\<exists>ts. strs tb1 a = Some ts" using sp by (auto simp: chars_of_def)
    then show ?thesis using i by (auto simp: tb' res_of_def)
  qed
  have "res_of tb' b = Some (int (word_number (Suc i) s))" if b: "b \<in> members tb1" "chars_of tb1 b = Some s" for b s
  proof (cases "b = a")
    case True
    with b sp have "s = ?w" by simp
    with True res [OF b(1)] show ?thesis by (simp add: word_number_Suc [OF i])
  next
    case False
    with b(1) rs(1) have b': "b \<in> members tb" by simp
    have "inj_on (chars_of tb1) (members tb1)" using w1 by (simp add: wf_strt_iff)
    with False b sp have "s \<noteq> ?w" by (metis inj_onD)
    moreover have "chars_of tb b = Some s" using sp b' b(2) by simp
    with n b' have "res_of tb b = Some (int (word_number i s))" by (simp add: numbered_def)
    ultimately show ?thesis using res [OF b(1)] False rs(2) [OF b'] by (simp add: word_number_Suc [OF i])
  qed
  moreover have "\<exists>b \<in> members tb1. chars_of tb1 b = Some (luaX_tokens ! j)" if "j < Suc i" for j
  proof (cases "j = i")
    case True
    with sp show ?thesis by blast
  next
    case False
    with that have "j < i" by simp
    with n obtain b where "b \<in> members tb" "chars_of tb b = Some (luaX_tokens ! j)" unfolding numbered_def by blast
    with sp show ?thesis by metis
  qed
  ultimately show ?thesis using w' by (simp add: numbered_def m c)
qed

text \<open>After \<open>luaX_init\<close> the object that is interned for a name carries the number of the reserved word
the name is, and 0 if it is none: the field that \<open>llex\<close> tests is the function \<open>reserved\<close> of the bytes.\<close>

theorem luaX_init_reserved:
  assumes "wf_strt tb" "\<forall>a \<in> members tb. res_of tb a = Some 0" "luaX_init tb = Inr tb1"
    and "luaS_newlstr tb1 s = Inr (tb2, a)"
  shows "res_of tb2 a = Some (int (reserved s))"
proof -
  have "numbered tb 0" using assms(1,2) by (simp add: numbered_def word_number_def)
  have fold: "numbered tb1 21" if "foldE init_word tb' [j..<21] = Inr tb1" "numbered tb' j" "j \<le> 21" for j tb'
    using that
  proof (induction "21 - j" arbitrary: j tb')
    case (Suc d)
    then have j: "j < 21" by simp
    then have e: "[j..<21] = j # [Suc j..<21]" by (rule upt_conv_Cons)
    from Suc.prems(1) obtain tb2 where s: "init_word tb' j = Inr tb2" "foldE init_word tb2 [Suc j..<21] = Inr tb1"
      unfolding e by (auto simp: bindE_Inr_iff)
    from Suc.hyps(1) [OF _ s(2) init_word_numbered [OF Suc.prems(2) j s(1)]] Suc.hyps(2) j show ?case by simp
  qed simp
  from fold [of tb 0] assms(3) \<open>numbered tb 0\<close> have n: "numbered tb1 21" by (simp add: luaX_init_def)
  then have wf: "wf_strt tb1" by (simp add: numbered_def)
  note sp = luaS_newlstr_spec [OF wf assms(4)] and rs = luaS_newlstr_reserved [OF wf assms(4)]
  show ?thesis
  proof (cases "a \<in> members tb1")
    case True
    with sp n have "res_of tb1 a = Some (int (word_number 21 s))" by (auto simp: numbered_def)
    with rs(2) [OF True] show ?thesis by (simp add: word_number_def reserved_def)
  next
    case False
    have "reserved s = 0"
    proof (rule ccontr)
      assume "reserved s \<noteq> 0"
      then obtain j where j: "j < NUM_RESERVED" "luaX_tokens ! j = s"
        by (auto simp: reserved_def find_Some_iff split: option.splits)
      with n obtain b where b: "b \<in> members tb1" "chars_of tb1 b = Some s" by (auto simp: numbered_def)
      with sp have "b \<in> members tb2" "chars_of tb2 b = Some s" by auto
      moreover have "inj_on (chars_of tb2) (members tb2)" using sp by (simp add: wf_strt_iff)
      ultimately have "a = b" using sp by (metis inj_onD)
      with b False show False by simp
    qed
    with rs(3) [OF False] show ?thesis by simp
  qed
qed


lemma luaX_init_total: "\<exists>tb'. luaX_init tb = Inr tb'"
proof -
  have len: "\<forall>j \<in> set [0..<21]. length (luaX_tokens ! j) < 9" by code_simp
  have "\<exists>tb'. foldE init_word tb [0..<21] = Inr tb' \<and> set ([] :: nat list) \<subseteq> set [0..<21]"
  proof (rule foldE_total [where I = "\<lambda>s xs. set xs \<subseteq> set [0..<21]"])
    fix tb :: stringtable and j xs assume "set (j # xs) \<subseteq> set [0..<21]"
    then have j: "j \<in> set [0..<21]" "set xs \<subseteq> set [0..<21]" by (simp_all only: set_simps insert_subset)
    have "int (length (luaX_tokens ! j)) < MAX_SIZET - sizeof_TString"
      using bspec [OF len j(1)] by (simp add: MAX_SIZET_def)
    from luaS_newlstr_total [OF this, of tb] obtain t a where "luaS_newlstr tb (luaX_tokens ! j) = Inr (t, a)" by blast
    with j(2) show "\<exists>s'. init_word tb j = Inr s' \<and> set xs \<subseteq> set [0..<21]" by (simp add: init_word_def)
  qed simp
  then show ?thesis by (auto simp: luaX_init_def)
qed

theorem luaX_init_reserved_witness:
  "\<exists>tb1 tb2 a. luaX_init \<lparr>strt_hash = replicate 32 [], strt_nuse = 0, strt_size = 32, strs = (\<lambda>_. None),
       next_addr = 0, currentwhite = 1, gcstate = 0\<rparr> = Inr tb1
     \<and> luaS_newlstr tb1 ''while'' = Inr (tb2, a) \<and> res_of tb2 a = Some 21"
proof -
  define tb where "tb = \<lparr>strt_hash = replicate 32 [], strt_nuse = 0, strt_size = 32, strs = (\<lambda>_. None),
       next_addr = 0, currentwhite = 1, gcstate = 0\<rparr>"
  have "pow2_size 32" using pow2_sizeI [of 5] by simp
  then have wf: "wf_strt tb" by (simp add: wf_strt_def tb_def concat_replicate_Nil)
  have m: "members tb = {}" by (simp add: members_def tb_def concat_replicate_Nil)
  obtain tb1 where r1: "luaX_init tb = Inr tb1" using luaX_init_total by blast
  obtain tb2 a where "luaS_newlstr tb1 ''while'' = Inr (tb2, a)"
    using luaS_newlstr_total [of "''while''" tb1] by (auto simp: MAX_SIZET_def)
  note r = r1 this
  have "reserved ''while'' = 21" by code_simp
  with luaX_init_reserved [OF wf _ r] m have "res_of tb2 a = Some 21" by simp
  with r show ?thesis unfolding tb_def by blast
qed

end
