(* ===== verification/LuaFunc.thy ===== *)
theory LuaFunc
  imports LuaOpcodes LuaString
begin

text \<open>
  lfunc.c: function prototypes, closures and upvalues. An upvalue is open while its variable is in
  the stack, and shared by all the closures that refer to the variable; it is closed when the variable
  goes out of scope, and keeps the value then.

  The state has the part of the thread and of the collector that the functions touch: the stack, the list
  \<open>openupval\<close> (along the \<open>next\<close> fields), the ring of \<open>uvhead\<close>, the list \<open>rootgc\<close> and the colours of the
  upvalues. A value that is passed to \<open>luaC_barrier\<close> is recorded in \<open>barriered\<close>. Releasing memory is
  forgetting the object.
\<close>

section \<open>Prototypes and closures\<close>

record LocVar =
  varname :: "string option"
  startpc :: int
  endpc :: int

datatype Proto = Proto
  (pt_k: "tvalue list")
  (pt_code: "Instruction list")
  (pt_p: "Proto list")
  (pt_lineinfo: "int list")
  (pt_locvars: "LocVar list")
  (pt_upvalues: "string option list")
  (pt_source: "string option")
  (pt_linedefined: int)
  (pt_lastlinedefined: int)
  (pt_nups: int)
  (pt_numparams: int)
  (pt_is_vararg: int)
  (pt_maxstacksize: int)

definition luaF_newproto :: Proto where
  "luaF_newproto = Proto [] [] [] [] [] [] None 0 0 0 0 0 0"

text \<open>\<open>cast_byte(nelems)\<close>; the upvalues of a C closure are filled in by its creator.\<close>

record CClosure =
  cc_env :: addr
  cc_nupvalues :: int
  cc_upvalue :: "tvalue list"

record LClosure =
  lc_env :: addr
  lc_nupvalues :: int
  lc_upvals :: "addr option list"

definition luaF_newCclosure :: "int \<Rightarrow> addr \<Rightarrow> CClosure" where
  "luaF_newCclosure nelems e = \<lparr>cc_env = e, cc_nupvalues = nelems mod 256, cc_upvalue = replicate (nat nelems) TNil\<rparr>"

definition luaF_newLclosure :: "int \<Rightarrow> addr \<Rightarrow> LClosure" where
  "luaF_newLclosure nelems e = \<lparr>lc_env = e, lc_nupvalues = nelems mod 256, lc_upvals = replicate (nat nelems) None\<rparr>"

text \<open>\<open>luaF_getlocalname\<close>: the loop over the variables, in the order of their \<open>startpc\<close>. A variable whose \<open>varname\<close> is
\<open>NULL\<close> is found too: its result \<open>Some None\<close> is \<open>getstr(NULL)\<close>, a pointer that is not \<open>NULL\<close> and to no string.\<close>

fun getlocalname_loop :: "LocVar list \<Rightarrow> int \<Rightarrow> int \<Rightarrow> string option option" where
  "getlocalname_loop [] local_number pc = None"
| "getlocalname_loop (v # vs) local_number pc =
     (if startpc v \<le> pc then
        (if pc < endpc v then
           (if local_number - 1 = 0 then Some (varname v) else getlocalname_loop vs (local_number - 1) pc)
         else getlocalname_loop vs local_number pc)
      else None)"

definition luaF_getlocalname :: "Proto \<Rightarrow> int \<Rightarrow> int \<Rightarrow> string option option" where
  "luaF_getlocalname f local_number pc = getlocalname_loop (pt_locvars f) local_number pc"

section \<open>Upvalues\<close>

text \<open>What \<open>uv->v\<close> points to: a stack level, or the value in the upvalue itself.\<close>

datatype uv_place = Open nat | Closed tvalue

record UpVal =
  uv_marked :: int
  uv_v :: uv_place

record uv_state =
  stk :: "tvalue list"
  openupval :: "addr list"
  uvhead :: "addr list"
  uvs :: "addr \<Rightarrow> UpVal option"
  uv_next :: addr
  uv_currentwhite :: int
  uv_gcstate :: int
  rootgc :: "addr list"
  barriered :: "tvalue list"

abbreviation (input) GCSpropagate :: int where "GCSpropagate \<equiv> 1"

definition iswhite :: "int \<Rightarrow> bool" where "iswhite marked = (marked AND WHITEBITS \<noteq> 0)"
definition isblack :: "int \<Rightarrow> bool" where "isblack marked = bit marked 2"
definition isgray :: "int \<Rightarrow> bool" where "isgray marked = (\<not> isblack marked \<and> \<not> iswhite marked)"
definition gray2black :: "int \<Rightarrow> int" where "gray2black marked = marked OR 4"

text \<open>\<open>makewhite\<close> of lgc.c: \<open>maskmarks\<close> clears the three colour bits of the byte.\<close>

definition makewhite :: "int \<Rightarrow> int \<Rightarrow> int" where
  "makewhite cw marked = (marked AND 248) OR luaC_white cw"

definition uv_get :: "uv_state \<Rightarrow> addr \<Rightarrow> UpVal" where
  "uv_get st a = (case uvs st a of Some uv \<Rightarrow> uv | None \<Rightarrow> \<lparr>uv_marked = 0, uv_v = Closed TNil\<rparr>)"

definition uv_level :: "uv_state \<Rightarrow> addr \<Rightarrow> nat" where
  "uv_level st a = (case uv_v (uv_get st a) of Open l \<Rightarrow> l | Closed v \<Rightarrow> 0)"

text \<open>\<open>*uv->v\<close>\<close>

definition uv_value :: "uv_state \<Rightarrow> addr \<Rightarrow> tvalue" where
  "uv_value st a = (case uv_v (uv_get st a) of Open l \<Rightarrow> stk st ! l | Closed v \<Rightarrow> v)"

definition luaF_newupval :: "uv_state \<Rightarrow> uv_state \<times> addr" where
  "luaF_newupval st =
     (let a = uv_next st
      in (st\<lparr>uvs := (uvs st)(a \<mapsto> \<lparr>uv_marked = luaC_white (uv_currentwhite st), uv_v = Closed TNil\<rparr>),
             uv_next := Suc a, rootgc := a # rootgc st\<rparr>, a))"

text \<open>The search of \<open>luaF_findupval\<close>: the upvalue, or the two parts between which the new one goes.\<close>

fun find_open :: "uv_state \<Rightarrow> nat \<Rightarrow> addr list \<Rightarrow> addr + addr list \<times> addr list" where
  "find_open st level [] = Inr ([], [])"
| "find_open st level (p # ps) =
     (if level \<le> uv_level st p then
        (if uv_level st p = level then Inl p
         else case find_open st level ps of Inl q \<Rightarrow> Inl q | Inr (pre, post) \<Rightarrow> Inr (p # pre, post))
      else Inr ([], p # ps))"

definition luaF_findupval :: "uv_state \<Rightarrow> nat \<Rightarrow> uv_state \<times> addr" where
  "luaF_findupval st level =
     (case find_open st level (openupval st) of
        Inl p \<Rightarrow>
          (if isdead (uv_currentwhite st) (uv_marked (uv_get st p))
           then st\<lparr>uvs := (uvs st)(p \<mapsto> (uv_get st p)\<lparr>uv_marked := changewhite (uv_marked (uv_get st p))\<rparr>)\<rparr>
           else st, p)
      | Inr (pre, post) \<Rightarrow>
          let a = uv_next st
          in (st\<lparr>uvs := (uvs st)(a \<mapsto> \<lparr>uv_marked = luaC_white (uv_currentwhite st), uv_v = Open level\<rparr>),
                 uv_next := Suc a, openupval := pre @ a # post, uvhead := a # uvhead st\<rparr>, a))"

definition unlinkupval :: "uv_state \<Rightarrow> addr \<Rightarrow> uv_state" where
  "unlinkupval st a = st\<lparr>uvhead := remove1 a (uvhead st)\<rparr>"

definition luaF_freeupval :: "uv_state \<Rightarrow> addr \<Rightarrow> uv_state" where
  "luaF_freeupval st a =
     (let st1 = (case uv_v (uv_get st a) of Open l \<Rightarrow> unlinkupval st a | Closed v \<Rightarrow> st)
      in st1\<lparr>uvs := (uvs st1)(a := None)\<rparr>)"

definition luaC_linkupval :: "uv_state \<Rightarrow> addr \<Rightarrow> uv_state" where
  "luaC_linkupval st a =
     (let uv = uv_get st a; st1 = st\<lparr>rootgc := a # rootgc st\<rparr>
      in if isgray (uv_marked uv) then
           (if uv_gcstate st = GCSpropagate
            then st1\<lparr>uvs := (uvs st)(a \<mapsto> uv\<lparr>uv_marked := gray2black (uv_marked uv)\<rparr>),
                     barriered := uv_value st a # barriered st\<rparr>
            else st1\<lparr>uvs := (uvs st)(a \<mapsto> uv\<lparr>uv_marked := makewhite (uv_currentwhite st) (uv_marked uv)\<rparr>)\<rparr>)
         else st1)"

text \<open>The body of the loop of \<open>luaF_close\<close>, for the first upvalue \<open>a\<close> of the list.\<close>

definition close_one :: "uv_state \<Rightarrow> addr \<Rightarrow> addr list \<Rightarrow> uv_state" where
  "close_one st a rest =
     (let st1 = st\<lparr>openupval := rest\<rparr>
      in if isdead (uv_currentwhite st) (uv_marked (uv_get st a)) then luaF_freeupval st1 a
         else let st2 = unlinkupval st1 a;
                  st3 = st2\<lparr>uvs := (uvs st2)(a \<mapsto> (uv_get st2 a)\<lparr>uv_v := Closed (uv_value st2 a)\<rparr>)\<rparr>
              in luaC_linkupval st3 a)"

fun close_loop :: "nat \<Rightarrow> addr list \<Rightarrow> uv_state \<Rightarrow> uv_state" where
  "close_loop level [] st = st"
| "close_loop level (a # rest) st =
     (if level \<le> uv_level st a then close_loop level rest (close_one st a rest) else st)"

definition luaF_close :: "uv_state \<Rightarrow> nat \<Rightarrow> uv_state" where
  "luaF_close st level = close_loop level (openupval st) st"

section \<open>The invariant of the open upvalues\<close>

text \<open>
  The list goes down the stack, one upvalue for each level; its members are the open upvalues and the
  members of the ring.
\<close>

definition uv_ok :: "uv_state \<Rightarrow> bool" where
  "uv_ok st \<longleftrightarrow>
     sorted_wrt (\<lambda>a b. uv_level st b < uv_level st a) (openupval st)
     \<and> (\<forall>a. a \<in> set (openupval st) \<longleftrightarrow> (\<exists>uv l. uvs st a = Some uv \<and> uv_v uv = Open l))
     \<and> (\<forall>a \<in> set (openupval st). uv_level st a < length (stk st))
     \<and> mset (uvhead st) = mset (openupval st)
     \<and> (\<forall>a. uvs st a \<noteq> None \<longrightarrow> a < uv_next st)"

lemma sorted_levels_distinct:
  "sorted_wrt (\<lambda>a b. f b < (f a :: nat)) xs \<Longrightarrow> distinct xs"
  by (induction xs) auto

lemma sorted_levels_inj:
  "sorted_wrt (\<lambda>a b. f b < (f a :: nat)) xs \<Longrightarrow> a \<in> set xs \<Longrightarrow> b \<in> set xs \<Longrightarrow> f a = f b \<Longrightarrow> a = b"
  by (induction xs) auto

lemma uv_okD:
  assumes "uv_ok st"
  shows "sorted_wrt (\<lambda>a b. uv_level st b < uv_level st a) (openupval st)"
    "a \<in> set (openupval st) \<longleftrightarrow> (\<exists>uv l. uvs st a = Some uv \<and> uv_v uv = Open l)"
    "a \<in> set (openupval st) \<Longrightarrow> uv_level st a < length (stk st)"
    "mset (uvhead st) = mset (openupval st)" "uvs st a \<noteq> None \<Longrightarrow> a < uv_next st"
  using assms by (auto simp: uv_ok_def)

lemma find_open_Inl:
  "find_open st level xs = Inl p \<Longrightarrow> p \<in> set xs \<and> uv_level st p = level"
  by (induction xs) (auto split: if_splits sum.splits prod.splits)

lemma find_open_Inr:
  assumes "find_open st level xs = Inr (pre, post)" "sorted_wrt (\<lambda>a b. uv_level st b < uv_level st a) xs"
  shows "xs = pre @ post \<and> (\<forall>a \<in> set pre. level < uv_level st a) \<and> (\<forall>a \<in> set post. uv_level st a < level)"
  using assms
proof (induction xs arbitrary: pre)
  case (Cons p ps)
  show ?case
  proof (cases "level \<le> uv_level st p")
    case True
    with Cons.prems obtain pre' where p: "find_open st level ps = Inr (pre', post)" "pre = p # pre'" "level < uv_level st p"
      by (auto split: if_splits sum.splits prod.splits)
    from Cons.IH [OF p(1)] Cons.prems(2) p(2,3) show ?thesis by auto
  next
    case False
    with Cons.prems show ?thesis by force
  qed
qed simp

lemma uv_ok_open:
  assumes "uv_ok st" "a \<in> set (openupval st)"
  obtains uv where "uvs st a = Some uv" "uv_v uv = Open (uv_level st a)" "uv_get st a = uv" "a < uv_next st"
proof -
  obtain uv l where "uvs st a = Some uv" "uv_v uv = Open l" using uv_okD(2) [OF assms(1)] assms(2) by auto
  moreover have "a < uv_next st" by (rule uv_okD(5) [OF assms(1)]) (simp add: calculation)
  ultimately show thesis using that by (simp add: uv_level_def uv_get_def)
qed

lemma find_open_self:
  assumes "sorted_wrt (\<lambda>a b. uv_level st b < uv_level st a) xs" "a \<in> set xs" "uv_level st a = level"
  shows "find_open st level xs = Inl a"
  using assms by (induction xs) (auto split: sum.splits prod.splits)

text \<open>What two states have in common for their open upvalues.\<close>

lemma find_open_cong:
  "(\<And>a. a \<in> set xs \<Longrightarrow> uv_level st' a = uv_level st a) \<Longrightarrow> find_open st' level xs = find_open st level xs"
  by (induction xs) auto

section \<open>Properties\<close>

lemma findupval_ok:
  assumes ok: "uv_ok st" and l: "level < length (stk st)" and r: "luaF_findupval st level = (st', a)"
  shows "uv_ok st' \<and> a \<in> set (openupval st') \<and> uv_level st' a = level \<and> stk st' = stk st
    \<and> (\<forall>b. uvs st b \<noteq> None \<longrightarrow> uvs st' b \<noteq> None \<and> uv_v (uv_get st' b) = uv_v (uv_get st b))
    \<and> (\<forall>b. uvs st' b \<noteq> None \<longrightarrow> b = a \<or> uvs st b \<noteq> None)"
proof (cases "find_open st level (openupval st)")
  case (Inl p)
  from find_open_Inl [OF Inl] have p: "p \<in> set (openupval st)" "uv_level st p = level" by simp_all
  obtain uv where uv: "uvs st p = Some uv" "uv_v uv = Open level" "uv_get st p = uv"
    using uv_ok_open [OF ok p(1)] p(2) by metis
  define m where "m = (if isdead (uv_currentwhite st) (uv_marked uv) then changewhite (uv_marked uv) else uv_marked uv)"
  have st': "st' = st\<lparr>uvs := (uvs st)(p \<mapsto> uv\<lparr>uv_marked := m\<rparr>)\<rparr>" and a: "a = p"
    using r uv by (auto simp: luaF_findupval_def Inl m_def fun_upd_idem)
  have g: "uv_v (uv_get st' b) = uv_v (uv_get st b)" for b using uv by (simp add: st' uv_get_def)
  then have lv: "uv_level st' = uv_level st" by (simp add: uv_level_def fun_eq_iff)
  have o: "(\<exists>uv l. uvs st' b = Some uv \<and> uv_v uv = Open l) \<longleftrightarrow> (\<exists>uv l. uvs st b = Some uv \<and> uv_v uv = Open l)" for b
    using uv by (simp add: st')
  have "uv_ok st'"
    using ok unfolding uv_ok_def lv o using uv by (simp add: st')
  with p uv g lv show ?thesis by (auto simp: st' a)
next
  case (Inr pp)
  obtain pre post where pp: "pp = (pre, post)" by fastforce
  note s = uv_okD(1) [OF ok]
  from find_open_Inr [OF Inr [unfolded pp] s]
  have x: "openupval st = pre @ post" "\<forall>b \<in> set pre. level < uv_level st b" "\<forall>b \<in> set post. uv_level st b < level" by auto
  define new where "new = \<lparr>uv_marked = luaC_white (uv_currentwhite st), uv_v = Open level\<rparr>"
  have a: "a = uv_next st" and st': "st' = st\<lparr>uvs := (uvs st)(a \<mapsto> new), uv_next := Suc a,
      openupval := pre @ a # post, uvhead := a # uvhead st\<rparr>"
    using r by (auto simp: luaF_findupval_def Inr pp Let_def new_def)
  have fresh: "uvs st a = None" using uv_okD(5) [OF ok, of a] by (cases "uvs st a") (auto simp: a)
  have na: "a \<notin> set (openupval st)" using uv_okD(2) [OF ok, of a] fresh by simp
  have g: "uv_get st' b = (if b = a then new else uv_get st b)" for b by (simp add: st' uv_get_def)
  have lv: "uv_level st' b = (if b = a then level else uv_level st b)" for b by (simp add: uv_level_def g new_def)
  have "sorted_wrt (\<lambda>a b. uv_level st' b < uv_level st' a) (pre @ a # post)"
    using s x na unfolding x(1) by (auto simp: lv sorted_wrt_append intro: sorted_wrt_mono_rel [rotated])
  moreover have "b \<in> set (openupval st') \<longleftrightarrow> (\<exists>uv l. uvs st' b = Some uv \<and> uv_v uv = Open l)" for b
    using uv_okD(2) [OF ok, of b] by (auto simp: st' x(1) new_def)
  moreover have "uv_level st' b < length (stk st')" if "b \<in> set (openupval st')" for b
    using that uv_okD(3) [OF ok, of b] l x(1) by (auto simp: lv) (auto simp: st')
  moreover have "mset (uvhead st') = mset (openupval st')"
    using uv_okD(4) [OF ok] by (simp add: st' x(1))
  moreover have "b < uv_next st'" if "uvs st' b \<noteq> None" for b
    using that uv_okD(5) [OF ok, of b] by (auto simp: st' a split: if_splits)
  ultimately have "uv_ok st'" by (simp add: uv_ok_def st')
  moreover have "uvs st' b \<noteq> None \<and> uv_v (uv_get st' b) = uv_v (uv_get st b)" if "uvs st b \<noteq> None" for b
  proof -
    have "b \<noteq> a" using that fresh by auto
    with that show ?thesis by (simp add: g) (simp add: st')
  qed
  moreover have "b = a \<or> uvs st b \<noteq> None" if "uvs st' b \<noteq> None" for b
    using that by (simp add: st' split: if_splits)
  moreover have "a \<in> set (openupval st')" "stk st' = stk st" by (simp_all add: st')
  ultimately show ?thesis by (simp add: lv)
qed

text \<open>C19: Closures share a variable: \<open>luaF_findupval\<close> returns an open upvalue for the stack level, leaves every
other upvalue as it was, keeps the list of the open upvalues in order, and returns the same upvalue when
it is asked again, for the same level and for no other one.\<close>

theorem findupval_shares:
  assumes "uv_ok st" "level < length (stk st)" "luaF_findupval st level = (st1, a)"
    and "level' < length (stk st)" "luaF_findupval st1 level' = (st2, b)"
  shows "uv_ok st1 \<and> uv_value st1 a = stk st ! level \<and> (\<forall>c. uvs st c \<noteq> None \<longrightarrow> uv_value st1 c = uv_value st c)
    \<and> (a = b \<longleftrightarrow> level = level')"
proof -
  note f1 = findupval_ok [OF assms(1-3)]
  then have ok1: "uv_ok st1" and stk1: "stk st1 = stk st" by simp_all
  have l': "level' < length (stk st1)" using assms(4) stk1 by simp
  note f2 = findupval_ok [OF ok1 l' assms(5)]
  obtain uv where uv: "uv_v uv = Open level" "uv_get st1 a = uv" "uvs st1 a = Some uv"
    using uv_ok_open [OF ok1, of a] f1 by metis
  have va: "uv_value st1 a = stk st ! level" by (simp add: uv_value_def uv stk1)
  have vc: "uv_value st1 c = uv_value st c" if "uvs st c \<noteq> None" for c
  proof -
    have "uv_v (uv_get st1 c) = uv_v (uv_get st c)" using f1 that by blast
    then show ?thesis by (simp add: uv_value_def stk1 split: uv_place.split)
  qed
  have "uv_v (uv_get st2 a) = Open level" using f2 uv by simp
  then have "uv_level st2 a = level" by (simp add: uv_level_def)
  moreover have "uv_level st2 b = level'" using f2 by simp
  moreover have "a = b" if "level = level'"
  proof -
    have "find_open st1 level' (openupval st1) = Inl a"
      by (rule find_open_self [OF uv_okD(1) [OF ok1]]) (use f1 that in auto)
    with assms(5) show ?thesis by (simp add: luaF_findupval_def)
  qed
  ultimately show ?thesis using ok1 va vc by auto
qed


lemma remove1_front_mset: "mset xs = add_mset a M \<Longrightarrow> mset (remove1 a xs) = M"
  by (simp add: mset_remove1)

text \<open>One turn of the loop of \<open>luaF_close\<close>.\<close>

lemma close_one_ok:
  assumes ok: "uv_ok st" and o: "openupval st = a # rest" and r: "st' = close_one st a rest"
  shows "uv_ok st' \<and> openupval st' = rest \<and> stk st' = stk st \<and> uv_currentwhite st' = uv_currentwhite st
    \<and> (\<forall>b. b \<noteq> a \<longrightarrow> uvs st' b = uvs st b)
    \<and> (if isdead (uv_currentwhite st) (uv_marked (uv_get st a)) then uvs st' a = None
       else uvs st' a \<noteq> None \<and> uv_v (uv_get st' a) = Closed (uv_value st a))"
proof -
  have am: "a \<in> set (openupval st)" by (simp add: o)
  obtain uv where uv: "uvs st a = Some uv" "uv_v uv = Open (uv_level st a)" "uv_get st a = uv" "a < uv_next st"
    by (rule uv_ok_open [OF ok am])
  have s: "sorted_wrt (\<lambda>a b. uv_level st b < uv_level st a) (a # rest)" using uv_okD(1) [OF ok] o by simp
  have na: "a \<notin> set rest" using sorted_levels_distinct [OF s] by simp
  have ring: "mset (remove1 a (uvhead st)) = mset rest"
    by (rule remove1_front_mset) (simp add: uv_okD(4) [OF ok] o)
  have fields: "openupval st' = rest \<and> stk st' = stk st \<and> uv_currentwhite st' = uv_currentwhite st
      \<and> uv_next st' = uv_next st \<and> uvhead st' = remove1 a (uvhead st) \<and> (\<forall>b. b \<noteq> a \<longrightarrow> uvs st' b = uvs st b)
      \<and> (if isdead (uv_currentwhite st) (uv_marked uv) then uvs st' a = None
         else \<exists>u. uvs st' a = Some u \<and> uv_v u = Closed (uv_value st a))"
  proof (cases "isdead (uv_currentwhite st) (uv_marked uv)")
    case True
    have "uv_get (st\<lparr>openupval := rest\<rparr>) a = uv" using uv(1) by (simp add: uv_get_def)
    with True uv(2,3) show ?thesis by (simp add: r close_one_def luaF_freeupval_def unlinkupval_def Let_def)
  next
    case False
    define st2 where "st2 = unlinkupval (st\<lparr>openupval := rest\<rparr>) a"
    define v where "v = uv_value st a"
    define st3 where "st3 = st2\<lparr>uvs := (uvs st)(a \<mapsto> uv\<lparr>uv_v := Closed v\<rparr>)\<rparr>"
    have g2: "uv_get st2 a = uv" using uv(1) by (simp add: uv_get_def st2_def unlinkupval_def)
    have v2: "uv_value st2 a = v" by (simp add: v_def uv_value_def g2 uv(3) split: uv_place.split) (simp add: st2_def unlinkupval_def)
    have u2: "uvs st2 = uvs st" by (simp add: st2_def unlinkupval_def)
    have "st' = luaC_linkupval st3 a"
      using False by (simp add: r close_one_def Let_def uv(3) st3_def g2 v2 u2 flip: st2_def)
    moreover have "uv_get st3 a = uv\<lparr>uv_v := Closed v\<rparr>" by (simp add: uv_get_def st3_def)
    ultimately show ?thesis using False
      by (auto simp: luaC_linkupval_def Let_def v_def) (simp_all add: st3_def st2_def unlinkupval_def v_def)
  qed
  have g: "uv_get st' b = uv_get st b" if "b \<noteq> a" for b using fields that by (simp add: uv_get_def)
  then have lv: "uv_level st' b = uv_level st b" if "b \<noteq> a" for b using that by (simp add: uv_level_def)
  have "sorted_wrt (\<lambda>a b. uv_level st' b < uv_level st' a) rest"
  proof (rule sorted_wrt_mono_rel [of rest "\<lambda>a b. uv_level st b < uv_level st a"])
    fix x y
    assume xy: "x \<in> set rest" "y \<in> set rest" "uv_level st y < uv_level st x"
    have "x \<noteq> a" "y \<noteq> a" using xy na by auto
    with lv xy(3) show "uv_level st' y < uv_level st' x" by simp
  qed (use s in simp)
  moreover have "b \<in> set rest \<longleftrightarrow> (\<exists>uv l. uvs st' b = Some uv \<and> uv_v uv = Open l)" for b
  proof (cases "b = a")
    case True
    with na fields show ?thesis by (auto split: if_splits)
  next
    case False
    with fields uv_okD(2) [OF ok, of b] show ?thesis by (simp add: o)
  qed
  moreover have "uv_level st' b < length (stk st')" if "b \<in> set rest" for b
  proof -
    have "b \<noteq> a" using that na by auto
    with uv_okD(3) [OF ok, of b] that show ?thesis by (simp add: lv fields o)
  qed
  moreover have "b < uv_next st'" if "uvs st' b \<noteq> None" for b
    using uv_okD(5) [OF ok, of b] that fields uv(4) by (cases "b = a") auto
  ultimately have "uv_ok st'" using fields ring by (simp add: uv_ok_def)
  moreover have "uv_v (uv_get st' a) = uv_v u" if "uvs st' a = Some u" for u using that by (simp add: uv_get_def)
  ultimately show ?thesis using fields by (auto simp: uv(3))
qed

lemma uv_value_cong:
  "uvs st' b = uvs st b \<Longrightarrow> stk st' = stk st \<Longrightarrow> uv_value st' b = uv_value st b \<and> uv_level st' b = uv_level st b
     \<and> uv_get st' b = uv_get st b"
  by (simp add: uv_value_def uv_level_def uv_get_def split: uv_place.split)

lemma close_loop_ok:
  assumes "uv_ok st" "openupval st = xs" "st' = close_loop level xs st"
  shows "uv_ok st' \<and> openupval st' = filter (\<lambda>a. uv_level st a < level) xs \<and> stk st' = stk st
    \<and> (\<forall>b. uvs st' b \<noteq> None \<longrightarrow> uvs st b \<noteq> None \<and> uv_value st' b = uv_value st b)
    \<and> (\<forall>b. uvs st b \<noteq> None \<and> uvs st' b = None \<longleftrightarrow>
          b \<in> set xs \<and> level \<le> uv_level st b \<and> isdead (uv_currentwhite st) (uv_marked (uv_get st b)))"
  using assms
proof (induction xs arbitrary: st)
  case (Cons a rest)
  have s: "sorted_wrt (\<lambda>a b. uv_level st b < uv_level st a) (a # rest)" using uv_okD(1) [OF Cons.prems(1)] Cons.prems(2) by simp
  show ?case
  proof (cases "level \<le> uv_level st a")
    case False
    with s have lt: "\<forall>b \<in> set (a # rest). uv_level st b < level" by auto
    then have "filter (\<lambda>a. uv_level st a < level) (a # rest) = a # rest" by (rule filter_True)
    moreover have "\<forall>b \<in> set (a # rest). \<not> level \<le> uv_level st b" using lt by auto
    moreover have "st' = st" using Cons.prems(3) False by simp
    ultimately show ?thesis using Cons.prems(1,2) by auto
  next
    case True
    define st1 where "st1 = close_one st a rest"
    note c = close_one_ok [OF Cons.prems(1,2) st1_def]
    have na: "a \<notin> set rest" using sorted_levels_distinct [OF s] by simp
    obtain uv where uv: "uvs st a = Some uv" using uv_ok_open [OF Cons.prems(1), of a] Cons.prems(2) by auto
    have "st' = close_loop level rest st1" using Cons.prems(3) True by (simp add: st1_def)
    from Cons.IH [OF _ _ this] c have ih: "uv_ok st'" "openupval st' = filter (\<lambda>a. uv_level st1 a < level) rest"
      "stk st' = stk st" "\<And>b. uvs st' b \<noteq> None \<Longrightarrow> uvs st1 b \<noteq> None \<and> uv_value st' b = uv_value st1 b"
      "\<And>b. uvs st1 b \<noteq> None \<and> uvs st' b = None \<longleftrightarrow>
          b \<in> set rest \<and> level \<le> uv_level st1 b \<and> isdead (uv_currentwhite st) (uv_marked (uv_get st1 b))"
      by auto
    have same: "uv_value st1 b = uv_value st b \<and> uv_level st1 b = uv_level st b \<and> uv_get st1 b = uv_get st b" if "b \<noteq> a" for b
      by (rule uv_value_cong) (use c that in auto)
    have va: "uv_value st1 a = uv_value st a" if "uvs st1 a \<noteq> None"
      using c that by (auto simp: uv_value_def [of st1] split: if_splits)
    have "filter (\<lambda>a. uv_level st1 a < level) rest = filter (\<lambda>a. uv_level st a < level) (a # rest)"
      proof -
      have "uv_level st1 x = uv_level st x" if "x \<in> set rest" for x using that na same [of x] by auto
      with True show ?thesis by (auto intro!: filter_cong)
    qed
    moreover have "uvs st b \<noteq> None \<and> uv_value st' b = uv_value st b" if b: "uvs st' b \<noteq> None" for b
    proof (cases "b = a")
      case True
      with ih(4) [OF b] va uv show ?thesis by simp
    next
      case False
      with ih(4) [OF b] same [OF False] c show ?thesis by auto
    qed
    moreover have "uvs st b \<noteq> None \<and> uvs st' b = None \<longleftrightarrow>
          b \<in> set (a # rest) \<and> level \<le> uv_level st b \<and> isdead (uv_currentwhite st) (uv_marked (uv_get st b))" for b
    proof (cases "b = a")
      case True
      have "uvs st' a = None" if "uvs st1 a = None" using that ih(4) [of a] by (cases "uvs st' a") auto
      with True ih(5) [of a] na uv c \<open>level \<le> uv_level st a\<close> show ?thesis by (auto split: if_splits)
    next
      case False
      with ih(5) [of b] same [OF False] c show ?thesis by auto
    qed
    ultimately show ?thesis using ih(1-3) by simp
  qed
qed auto

text \<open>C18: \<open>luaF_close\<close> closes exactly the upvalues at the level and above it: those below stay open, every
upvalue that survives has the value it had, the list of the open upvalues keeps its order, and only dead
upvalues are released.\<close>

theorem close_keeps_values:
  assumes "uv_ok st"
  shows "uv_ok (luaF_close st level)
    \<and> openupval (luaF_close st level) = filter (\<lambda>a. uv_level st a < level) (openupval st)
    \<and> (\<forall>a. uvs (luaF_close st level) a \<noteq> None \<longrightarrow> uv_value (luaF_close st level) a = uv_value st a)
    \<and> (\<forall>a. uvs st a \<noteq> None \<and> uvs (luaF_close st level) a = None \<longrightarrow>
         level \<le> uv_level st a \<and> isdead (uv_currentwhite st) (uv_marked (uv_get st a)))"
  using close_loop_ok [OF assms refl, of "luaF_close st level" level] by (auto simp: luaF_close_def)

definition uv_start :: "tvalue list \<Rightarrow> uv_state" where
  "uv_start vs = \<lparr>stk = vs, openupval = [], uvhead = [], uvs = (\<lambda>_. None), uv_next = 0, uv_currentwhite = 1,
     uv_gcstate = 0, rootgc = [], barriered = []\<rparr>"

lemma uv_start_ok: "uv_ok (uv_start vs)"
  by (simp add: uv_ok_def uv_start_def)

theorem findupval_shares_witness:
  "(case luaF_findupval (uv_start [TNil, TBoolean 1]) 1 of (st1, a) \<Rightarrow> case luaF_findupval st1 0 of (st2, b) \<Rightarrow>
      uv_value st1 a = TBoolean 1 \<and> a \<noteq> b)"
proof -
  obtain st1 a where 1: "luaF_findupval (uv_start [TNil, TBoolean 1]) 1 = (st1, a)" by fastforce
  obtain st2 b where 2: "luaF_findupval st1 0 = (st2, b)" by fastforce
  have "length (stk (uv_start [TNil, TBoolean 1])) = 2" "stk (uv_start [TNil, TBoolean 1]) ! 1 = TBoolean 1"
    by (simp_all add: uv_start_def)
  with findupval_shares [OF uv_start_ok _ 1 _ 2] show ?thesis by (simp only: 1 2 prod.case) simp
qed

theorem close_keeps_values_witness:
  "openupval (luaF_close (fst (luaF_findupval (uv_start [TNil, TBoolean 1]) 1)) 0) = []"
proof -
  obtain st1 a where 1: "luaF_findupval (uv_start [TNil, TBoolean 1]) 1 = (st1, a)" by fastforce
  have "uv_ok st1" using findupval_ok [OF uv_start_ok _ 1] by (simp add: uv_start_def)
  from close_keeps_values [OF this, of 0] 1 show ?thesis by simp
qed

end
