(* ===== verification/LuaChecker.thy ===== *)
theory LuaChecker
  imports LuaFunc LuaAux
begin

text \<open>
  ldebug.c: the symbolic execution of the instructions. It checks the function prototypes of every
  precompiled chunk, and it finds the instruction that loaded a register, for the error messages.

  A position is the index of an instruction in \<open>code\<close>.
\<close>

section \<open>The checker\<close>

text \<open>
  \<open>Fail\<close> is the \<open>return 0\<close> of a failed \<open>check\<close>; \<open>Undef\<close> a read outside an array.
\<close>

datatype 'a symb = Fail | Undef | Ok 'a

fun symb_bind :: "'a symb \<Rightarrow> ('a \<Rightarrow> 'b symb) \<Rightarrow> 'b symb" where
  "symb_bind Fail f = Fail"
| "symb_bind Undef f = Undef"
| "symb_bind (Ok x) f = f x"

definition check :: "bool \<Rightarrow> 'a symb \<Rightarrow> 'a symb" where
  "check b m = (if b then m else Fail)"

definition read_at :: "'a list \<Rightarrow> int \<Rightarrow> 'a symb" where
  "read_at xs n = (if 0 \<le> n \<and> n < int (length xs) then Ok (xs ! nat n) else Undef)"

abbreviation (input) MAXSTACK :: int where "MAXSTACK \<equiv> 250"
abbreviation (input) LUA_MULTRET :: int where "LUA_MULTRET \<equiv> - 1"
abbreviation (input) VARARG_ISVARARG :: int where "VARARG_ISVARARG \<equiv> 2"
abbreviation (input) VARARG_NEEDSARG :: int where "VARARG_NEEDSARG \<equiv> 4"

abbreviation sizecode :: "Proto \<Rightarrow> int" where "sizecode pt \<equiv> int (length (pt_code pt))"
abbreviation sizek :: "Proto \<Rightarrow> int" where "sizek pt \<equiv> int (length (pt_k pt))"
abbreviation sizep :: "Proto \<Rightarrow> int" where "sizep pt \<equiv> int (length (pt_p pt))"

definition ttisstring :: "tvalue \<Rightarrow> bool" where
  "ttisstring v = (ttype v = 4)"

definition is_op :: "Instruction \<Rightarrow> OpCode \<Rightarrow> bool" where
  "is_op i o' = (GET_OPCODE i = op_num o')"

definition checkreg :: "Proto \<Rightarrow> int \<Rightarrow> 'a symb \<Rightarrow> 'a symb" where
  "checkreg pt r m = check (r < pt_maxstacksize pt) m"

definition precheck :: "Proto \<Rightarrow> unit symb" where
  "precheck pt =
     check (pt_maxstacksize pt \<le> MAXSTACK)
       (check (int (length (pt_upvalues pt)) \<le> pt_nups pt)
         (check (length (pt_lineinfo pt) = length (pt_code pt) \<or> length (pt_lineinfo pt) = 0)
           (symb_bind (read_at (pt_code pt) (sizecode pt - 1)) (\<lambda>i. check (is_op i OP_RETURN) (Ok ())))))"

definition luaG_checkopenop :: "Instruction \<Rightarrow> bool" where
  "luaG_checkopenop i =
     ((is_op i OP_CALL \<or> is_op i OP_TAILCALL \<or> is_op i OP_RETURN \<or> is_op i OP_SETLIST) \<and> GETARG_B i = 0)"

definition checkopenop :: "Proto \<Rightarrow> int \<Rightarrow> 'a symb \<Rightarrow> 'a symb" where
  "checkopenop pt pc m = symb_bind (read_at (pt_code pt) (pc + 1)) (\<lambda>i. check (luaG_checkopenop i) m)"

definition checkArgMode :: "Proto \<Rightarrow> int \<Rightarrow> OpArgMask \<Rightarrow> bool" where
  "checkArgMode pt r mode =
     (case mode of
        OpArgN \<Rightarrow> r = 0
      | OpArgU \<Rightarrow> True
      | OpArgR \<Rightarrow> r < pt_maxstacksize pt
      | OpArgK \<Rightarrow> (if ISK r then INDEXK r < sizek pt else r < pt_maxstacksize pt))"

text \<open>The operands \<open>b\<close> and \<open>c\<close>, read and checked as the mode of the opcode says.\<close>

definition symb_operands :: "Proto \<Rightarrow> int \<Rightarrow> Instruction \<Rightarrow> OpCode \<Rightarrow> (int \<times> int) symb" where
  "symb_operands pt pc i o' =
     (case getOpMode o' of
        iABC \<Rightarrow>
          let b = GETARG_B i; c = GETARG_C i
          in check (checkArgMode pt b (getBMode o')) (check (checkArgMode pt c (getCMode o')) (Ok (b, c)))
      | iABx \<Rightarrow>
          let b = GETARG_Bx i
          in check (getBMode o' = OpArgK \<longrightarrow> b < sizek pt) (Ok (b, 0))
      | iAsBx \<Rightarrow>
          let b = GETARG_sBx i; dest = pc + 1 + b
          in if getBMode o' = OpArgR then
               check (0 \<le> dest \<and> dest < sizecode pt)
                 (if 0 < dest then
                    symb_bind (read_at (pt_code pt) (dest - 1))
                      (\<lambda>d. check (\<not> (is_op d OP_SETLIST \<and> GETARG_C d = 0)) (Ok (b, 0)))
                  else Ok (b, 0))
             else Ok (b, 0))"

text \<open>The check that a test is followed by a jump.\<close>

definition symb_skip :: "Proto \<Rightarrow> int \<Rightarrow> OpCode \<Rightarrow> 'a symb \<Rightarrow> 'a symb" where
  "symb_skip pt pc o' m =
     (if testTMode o' then
        check (pc + 2 < sizecode pt)
          (symb_bind (read_at (pt_code pt) (pc + 1)) (\<lambda>j. check (is_op j OP_JMP) m))
      else m)"

text \<open>A jump that is followed, when a register is looked for.\<close>

definition symb_jump :: "int \<Rightarrow> int \<Rightarrow> int \<Rightarrow> int \<Rightarrow> int" where
  "symb_jump lastpc reg pc b =
     (let dest = pc + 1 + b in if reg \<noteq> NO_REG \<and> pc < dest \<and> dest \<le> lastpc then pc + b else pc)"

text \<open>The words after \<open>OP_CLOSURE\<close>, from the last one.\<close>

fun closure_words :: "Proto \<Rightarrow> int \<Rightarrow> nat \<Rightarrow> unit symb" where
  "closure_words pt pc 0 = Ok ()"
| "closure_words pt pc (Suc n) =
     symb_bind (read_at (pt_code pt) (pc + int (Suc n)))
       (\<lambda>i. check (is_op i OP_GETUPVAL \<or> is_op i OP_MOVE) (closure_words pt pc n))"

text \<open>The case of \<open>OP_CALL\<close> and \<open>OP_TAILCALL\<close>.\<close>

definition symb_call :: "Proto \<Rightarrow> int \<Rightarrow> int \<Rightarrow> int \<Rightarrow> int \<Rightarrow> int \<Rightarrow> int \<Rightarrow> (int \<times> int) symb" where
  "symb_call pt reg pc a b c last_pc =
     (let c' = c - 1;
          r = Ok (pc, if a \<le> reg then pc else last_pc);
          returns = (if c' = LUA_MULTRET then checkopenop pt pc r
                     else if c' \<noteq> 0 then checkreg pt (a + c' - 1) r else r)
      in if b \<noteq> 0 then checkreg pt (a + b - 1) returns else returns)"

text \<open>The checks of the opcodes; the result is the new \<open>pc\<close> and \<open>last_pc\<close>.\<close>

definition symb_op :: "Proto \<Rightarrow> int \<Rightarrow> int \<Rightarrow> int \<Rightarrow> OpCode \<Rightarrow> int \<Rightarrow> int \<Rightarrow> int \<Rightarrow> int \<Rightarrow> (int \<times> int) symb" where
  "symb_op pt lastpc reg pc o' a b c last_pc =
     (case o' of
        OP_LOADBOOL \<Rightarrow> check (c = 0 \<or> pc + 2 < sizecode pt) (Ok (pc, last_pc))
      | OP_LOADNIL \<Rightarrow> Ok (pc, if a \<le> reg \<and> reg \<le> b then pc else last_pc)
      | OP_GETUPVAL \<Rightarrow> check (b < pt_nups pt) (Ok (pc, last_pc))
      | OP_SETUPVAL \<Rightarrow> check (b < pt_nups pt) (Ok (pc, last_pc))
      | OP_GETGLOBAL \<Rightarrow> symb_bind (read_at (pt_k pt) b) (\<lambda>k. check (ttisstring k) (Ok (pc, last_pc)))
      | OP_SETGLOBAL \<Rightarrow> symb_bind (read_at (pt_k pt) b) (\<lambda>k. check (ttisstring k) (Ok (pc, last_pc)))
      | OP_SELF \<Rightarrow> checkreg pt (a + 1) (Ok (pc, if reg = a + 1 then pc else last_pc))
      | OP_CONCAT \<Rightarrow> check (b < c) (Ok (pc, last_pc))
      | OP_TFORLOOP \<Rightarrow> check (1 \<le> c) (checkreg pt (a + 2 + c) (Ok (pc, if a + 2 \<le> reg then pc else last_pc)))
      | OP_FORLOOP \<Rightarrow> checkreg pt (a + 3) (Ok (symb_jump lastpc reg pc b, last_pc))
      | OP_FORPREP \<Rightarrow> checkreg pt (a + 3) (Ok (symb_jump lastpc reg pc b, last_pc))
      | OP_JMP \<Rightarrow> Ok (symb_jump lastpc reg pc b, last_pc)
      | OP_CALL \<Rightarrow> symb_call pt reg pc a b c last_pc
      | OP_TAILCALL \<Rightarrow> symb_call pt reg pc a b c last_pc
      | OP_RETURN \<Rightarrow>
          let b' = b - 1 in if 0 < b' then checkreg pt (a + b' - 1) (Ok (pc, last_pc)) else Ok (pc, last_pc)
      | OP_SETLIST \<Rightarrow>
          let r = Ok (if c = 0 then pc + 1 else pc, last_pc)
          in if 0 < b then checkreg pt (a + b) r else r
      | OP_CLOSURE \<Rightarrow>
          check (b < sizep pt)
            (symb_bind (read_at (pt_p pt) b) (\<lambda>p.
               check (pc + pt_nups p < sizecode pt)
                 (symb_bind (closure_words pt pc (nat (pt_nups p))) (\<lambda>_. Ok (pc, last_pc)))))
      | OP_VARARG \<Rightarrow>
          check (pt_is_vararg pt AND VARARG_ISVARARG \<noteq> 0 \<and> pt_is_vararg pt AND VARARG_NEEDSARG = 0)
            (let b' = b - 1; r = checkreg pt (a + b' - 1) (Ok (pc, last_pc))
             in if b' = LUA_MULTRET then checkopenop pt pc r else r)
      | _ \<Rightarrow> Ok (pc, last_pc))"

text \<open>One turn of the loop of \<open>symbexec\<close>.\<close>

definition symb_step :: "Proto \<Rightarrow> int \<Rightarrow> int \<Rightarrow> int \<Rightarrow> int \<Rightarrow> (int \<times> int) symb" where
  "symb_step pt lastpc reg pc last_pc =
     symb_bind (read_at (pt_code pt) pc) (\<lambda>i.
       case op_of_num (GET_OPCODE i) of
         None \<Rightarrow> Fail
       | Some o' \<Rightarrow>
           let a = GETARG_A i
           in checkreg pt a
                (symb_bind (symb_operands pt pc i o') (\<lambda>(b, c).
                   let last_pc' = (if testAMode o' \<and> a = reg then pc else last_pc)
                   in symb_skip pt pc o' (symb_op pt lastpc reg pc o' a b c last_pc'))))"

lemma check_Ok [simp]: "check b m = Ok x \<longleftrightarrow> b \<and> m = Ok x"
  by (simp add: check_def)

lemma checkreg_Ok [simp]: "checkreg pt r m = Ok x \<longleftrightarrow> r < pt_maxstacksize pt \<and> m = Ok x"
  by (simp add: checkreg_def)

lemma symb_bind_Ok [simp]: "symb_bind m f = Ok y \<longleftrightarrow> (\<exists>x. m = Ok x \<and> f x = Ok y)"
  by (cases m) auto

lemma read_at_Ok [simp]: "read_at xs n = Ok x \<longleftrightarrow> 0 \<le> n \<and> n < int (length xs) \<and> x = xs ! nat n"
  by (auto simp: read_at_def)

lemma checkopenop_Ok [simp]:
  "checkopenop pt pc m = Ok x \<longleftrightarrow>
     0 \<le> pc + 1 \<and> pc + 1 < sizecode pt \<and> luaG_checkopenop (pt_code pt ! nat (pc + 1)) \<and> m = Ok x"
  by (auto simp: checkopenop_def)

lemma symb_skip_Ok [simp]:
  "symb_skip pt pc o' m = Ok x \<longleftrightarrow>
     (testTMode o' \<longrightarrow> pc + 2 < sizecode pt \<and> 0 \<le> pc + 1 \<and> is_op (pt_code pt ! nat (pc + 1)) OP_JMP) \<and> m = Ok x"
  by (auto simp: symb_skip_def)

lemma symb_call_pc: "symb_call pt reg pc a b c last_pc = Ok (pc', last_pc') \<Longrightarrow> pc' = pc"
  by (auto simp: symb_call_def Let_def split: if_splits)

lemma symb_op_pc: "symb_op pt lastpc reg pc o' a b c last_pc = Ok (pc', last_pc') \<Longrightarrow> pc \<le> pc'"
  by (cases o') (auto simp: symb_op_def symb_jump_def Let_def dest: symb_call_pc split: if_splits)

lemma symb_step_pc: "symb_step pt lastpc reg pc last_pc = Ok (pc', last_pc') \<Longrightarrow> pc \<le> pc'"
  by (auto simp: symb_step_def Let_def dest: symb_op_pc split: option.splits)

function symb_loop :: "Proto \<Rightarrow> int \<Rightarrow> int \<Rightarrow> int \<Rightarrow> int \<Rightarrow> int symb" where
  "symb_loop pt lastpc reg pc last_pc =
     (if pc < lastpc then
        (case symb_step pt lastpc reg pc last_pc of
           Fail \<Rightarrow> Fail
         | Undef \<Rightarrow> Undef
         | Ok r \<Rightarrow> symb_loop pt lastpc reg (fst r + 1) (snd r))
      else Ok last_pc)"
  by pat_completeness auto
termination
proof (relation "measure (\<lambda>(pt, lastpc, reg, pc, last_pc). nat (lastpc - pc))", goal_cases)
  case (2 pt lastpc reg pc last_pc r)
  from 2(2) have "pc \<le> fst r" by (cases r) (auto dest: symb_step_pc)
  with 2(1) show ?case by simp
qed simp

definition symbexec :: "Proto \<Rightarrow> int \<Rightarrow> int \<Rightarrow> Instruction symb" where
  "symbexec pt lastpc reg =
     symb_bind (precheck pt) (\<lambda>_.
       symb_bind (symb_loop pt lastpc reg 0 (sizecode pt - 1)) (\<lambda>last_pc. read_at (pt_code pt) last_pc))"

text \<open>The function returns 0 when a check fails.\<close>

definition symb_word :: "Instruction symb \<Rightarrow> Instruction symb" where
  "symb_word m = (case m of Fail \<Rightarrow> Ok 0 | _ \<Rightarrow> m)"

definition luaG_checkcode :: "Proto \<Rightarrow> bool symb" where
  "luaG_checkcode pt = symb_bind (symb_word (symbexec pt (sizecode pt) NO_REG)) (\<lambda>i. Ok (i \<noteq> 0))"

section \<open>What the checker promises\<close>

abbreviation instr :: "Proto \<Rightarrow> int \<Rightarrow> Instruction" where "instr pt pc \<equiv> pt_code pt ! nat pc"

text \<open>The instructions that the symbolic execution takes for changes of register \<open>reg\<close>. (It leaves out the copy of the
index that \<open>OP_FORLOOP\<close> makes and what \<open>OP_VARARG\<close> puts above its first register.)\<close>

definition changes_reg :: "Proto \<Rightarrow> int \<Rightarrow> int \<Rightarrow> bool" where
  "changes_reg pt reg pc =
     (let i = instr pt pc; a = GETARG_A i
      in case op_of_num (GET_OPCODE i) of
           None \<Rightarrow> False
         | Some o' \<Rightarrow>
             testAMode o' \<and> a = reg
             \<or> o' = OP_LOADNIL \<and> a \<le> reg \<and> reg \<le> GETARG_B i
             \<or> o' = OP_SELF \<and> reg = a + 1
             \<or> o' = OP_TFORLOOP \<and> a + 2 \<le> reg
             \<or> (o' = OP_CALL \<or> o' = OP_TAILCALL) \<and> a \<le> reg)"

text \<open>The position the symbolic execution goes to.\<close>

definition next_pos :: "Proto \<Rightarrow> int \<Rightarrow> int \<Rightarrow> int \<Rightarrow> int" where
  "next_pos pt lastpc reg pc =
     (let i = instr pt pc
      in if is_op i OP_JMP \<or> is_op i OP_FORLOOP \<or> is_op i OP_FORPREP
         then symb_jump lastpc reg pc (GETARG_sBx i) + 1
         else if is_op i OP_SETLIST \<and> GETARG_C i = 0 then pc + 2 else pc + 1)"

text \<open>
  What the interpreter needs of the instruction at \<open>pc\<close>: the registers, constants, upvalues and
  prototypes it uses exist.
\<close>

definition closure_word :: "Proto \<Rightarrow> int \<Rightarrow> bool" where
  "closure_word pt q = (is_op (instr pt q) OP_GETUPVAL \<or> is_op (instr pt q) OP_MOVE)"

definition reg_ok :: "Proto \<Rightarrow> int \<Rightarrow> bool" where
  "reg_ok pt r = (0 \<le> r \<and> r < pt_maxstacksize pt)"

definition rk_ok :: "Proto \<Rightarrow> int \<Rightarrow> bool" where
  "rk_ok pt r = (if ISK r then 0 \<le> INDEXK r \<and> INDEXK r < sizek pt else reg_ok pt r)"

definition operands_safe :: "Proto \<Rightarrow> int \<Rightarrow> OpCode \<Rightarrow> int \<Rightarrow> int \<Rightarrow> int \<Rightarrow> int \<Rightarrow> bool" where
  "operands_safe pt pc o' a b c bx =
     (case o' of
        OP_MOVE \<Rightarrow> reg_ok pt b | OP_UNM \<Rightarrow> reg_ok pt b | OP_NOT \<Rightarrow> reg_ok pt b | OP_LEN \<Rightarrow> reg_ok pt b
      | OP_LOADNIL \<Rightarrow> reg_ok pt b | OP_TESTSET \<Rightarrow> reg_ok pt b
      | OP_LOADK \<Rightarrow> 0 \<le> bx \<and> bx < sizek pt
      | OP_GETUPVAL \<Rightarrow> 0 \<le> b \<and> b < pt_nups pt
      | OP_SETUPVAL \<Rightarrow> 0 \<le> b \<and> b < pt_nups pt
      | OP_GETGLOBAL \<Rightarrow> 0 \<le> bx \<and> bx < sizek pt \<and> ttisstring (pt_k pt ! nat bx)
      | OP_SETGLOBAL \<Rightarrow> 0 \<le> bx \<and> bx < sizek pt \<and> ttisstring (pt_k pt ! nat bx)
      | OP_GETTABLE \<Rightarrow> reg_ok pt b \<and> rk_ok pt c
      | OP_SETTABLE \<Rightarrow> rk_ok pt b \<and> rk_ok pt c
      | OP_SELF \<Rightarrow> reg_ok pt b \<and> rk_ok pt c \<and> reg_ok pt (a + 1)
      | OP_ADD \<Rightarrow> rk_ok pt b \<and> rk_ok pt c | OP_SUB \<Rightarrow> rk_ok pt b \<and> rk_ok pt c
      | OP_MUL \<Rightarrow> rk_ok pt b \<and> rk_ok pt c | OP_DIV \<Rightarrow> rk_ok pt b \<and> rk_ok pt c
      | OP_MOD \<Rightarrow> rk_ok pt b \<and> rk_ok pt c | OP_POW \<Rightarrow> rk_ok pt b \<and> rk_ok pt c
      | OP_EQ \<Rightarrow> rk_ok pt b \<and> rk_ok pt c | OP_LT \<Rightarrow> rk_ok pt b \<and> rk_ok pt c | OP_LE \<Rightarrow> rk_ok pt b \<and> rk_ok pt c
      | OP_CONCAT \<Rightarrow> b < c \<and> reg_ok pt b \<and> reg_ok pt c
      | OP_CALL \<Rightarrow> (b \<noteq> 0 \<longrightarrow> a + b - 1 < pt_maxstacksize pt) \<and> (1 < c \<longrightarrow> a + c - 2 < pt_maxstacksize pt)
      | OP_TAILCALL \<Rightarrow> (b \<noteq> 0 \<longrightarrow> a + b - 1 < pt_maxstacksize pt) \<and> (1 < c \<longrightarrow> a + c - 2 < pt_maxstacksize pt)
      | OP_RETURN \<Rightarrow> 1 < b \<longrightarrow> a + b - 2 < pt_maxstacksize pt
      | OP_FORLOOP \<Rightarrow> reg_ok pt (a + 3)
      | OP_FORPREP \<Rightarrow> reg_ok pt (a + 3)
      | OP_TFORLOOP \<Rightarrow> 1 \<le> c \<and> reg_ok pt (a + 2 + c)
      | OP_SETLIST \<Rightarrow> a + b < pt_maxstacksize pt
      | OP_CLOSURE \<Rightarrow>
          0 \<le> bx \<and> bx < sizep pt
          \<and> list_all (\<lambda>j. pc + 1 + int j < sizecode pt \<and> closure_word pt (pc + 1 + int j))
             [0..<nat (pt_nups (pt_p pt ! nat bx))]
      | OP_VARARG \<Rightarrow> 1 < b \<longrightarrow> a + b - 2 < pt_maxstacksize pt
      | _ \<Rightarrow> True)"

definition instr_safe :: "Proto \<Rightarrow> int \<Rightarrow> bool" where
  "instr_safe pt pc =
     (let i = instr pt pc
      in 0 \<le> pc \<and> pc < sizecode pt
         \<and> (case op_of_num (GET_OPCODE i) of
              None \<Rightarrow> False
            | Some o' \<Rightarrow> reg_ok pt (GETARG_A i)
                \<and> operands_safe pt pc o' (GETARG_A i) (GETARG_B i) (GETARG_C i) (GETARG_Bx i)))"

text \<open>The positions where the interpreter may go on after the instruction at \<open>pc\<close>, in this function.\<close>

definition vm_next :: "Proto \<Rightarrow> int \<Rightarrow> int list" where
  "vm_next pt pc =
     (let i = instr pt pc
      in case op_of_num (GET_OPCODE i) of
           None \<Rightarrow> []
         | Some o' \<Rightarrow>
             (case o' of
                OP_RETURN \<Rightarrow> []
              | OP_JMP \<Rightarrow> [pc + 1 + GETARG_sBx i]
              | OP_FORPREP \<Rightarrow> [pc + 1 + GETARG_sBx i]
              | OP_FORLOOP \<Rightarrow> [pc + 1, pc + 1 + GETARG_sBx i]
              | OP_LOADBOOL \<Rightarrow> [if GETARG_C i \<noteq> 0 then pc + 2 else pc + 1]
              | OP_SETLIST \<Rightarrow> [if GETARG_C i = 0 then pc + 2 else pc + 1]
              | OP_CLOSURE \<Rightarrow> [pc + 1 + int (nat (pt_nups (pt_p pt ! nat (GETARG_Bx i))))]
              | _ \<Rightarrow> if testTMode o' then [pc + 2, pc + 2 + GETARG_sBx (instr pt (pc + 1))] else [pc + 1]))"

inductive code_reach :: "Proto \<Rightarrow> int \<Rightarrow> bool" for pt where
  start: "code_reach pt 0"
| step: "code_reach pt pc \<Longrightarrow> pc' \<in> set (vm_next pt pc) \<Longrightarrow> code_reach pt pc'"

lemma arg_nonneg [simp]: "0 \<le> GETARG_A i" "0 \<le> GETARG_B i" "0 \<le> GETARG_C i" "0 \<le> GETARG_Bx i"
  by (simp_all add: LuaOpcodes.arg_defs get_field_range)

lemma INDEXK_nonneg [simp]: "0 \<le> r \<Longrightarrow> 0 \<le> INDEXK r"
  by (simp add: INDEXK_def)

lemma is_op_iff: "is_op i o' \<longleftrightarrow> op_of_num (GET_OPCODE i) = Some o'"
  unfolding is_op_def using op_of_num_Some by fastforce

lemma bind_read_Ok: "symb_bind (read_at xs q) f = Ok y \<longleftrightarrow> 0 \<le> q \<and> q < int (length xs) \<and> f (xs ! nat q) = Ok y"
  by auto

lemma closure_words_Ok [simp]:
  "closure_words pt pc n = Ok x \<longleftrightarrow>
     (\<forall>j < n. 0 \<le> pc + 1 + int j \<and> pc + 1 + int j < sizecode pt \<and> closure_word pt (pc + 1 + int j))"
proof (induction n)
  case (Suc n)
  have "pc + int (Suc n) = pc + 1 + int n" by simp
  then have "closure_words pt pc (Suc n) = Ok x \<longleftrightarrow>
      0 \<le> pc + 1 + int n \<and> pc + 1 + int n < sizecode pt \<and> closure_word pt (pc + 1 + int n) \<and> closure_words pt pc n = Ok x"
    by (simp only: closure_words.simps bind_read_Ok check_Ok closure_word_def)
  then show ?case by (simp only: Suc All_less_Suc) blast
qed simp

text \<open>The table of the modes, opcode by opcode.\<close>

lemma mode_rows:
  "map (\<lambda>o'. (getOpMode o', getBMode o', getCMode o', testAMode o', testTMode o')) opcodes =
     [(iABC, OpArgR, OpArgN, True, False), (iABx, OpArgK, OpArgN, True, False), (iABC, OpArgU, OpArgU, True, False),
       (iABC, OpArgR, OpArgN, True, False), (iABC, OpArgU, OpArgN, True, False), (iABx, OpArgK, OpArgN, True, False),
       (iABC, OpArgR, OpArgK, True, False), (iABx, OpArgK, OpArgN, False, False), (iABC, OpArgU, OpArgN, False, False),
       (iABC, OpArgK, OpArgK, False, False), (iABC, OpArgU, OpArgU, True, False), (iABC, OpArgR, OpArgK, True, False),
       (iABC, OpArgK, OpArgK, True, False), (iABC, OpArgK, OpArgK, True, False), (iABC, OpArgK, OpArgK, True, False),
       (iABC, OpArgK, OpArgK, True, False), (iABC, OpArgK, OpArgK, True, False), (iABC, OpArgK, OpArgK, True, False),
       (iABC, OpArgR, OpArgN, True, False), (iABC, OpArgR, OpArgN, True, False), (iABC, OpArgR, OpArgN, True, False),
       (iABC, OpArgR, OpArgR, True, False), (iAsBx, OpArgR, OpArgN, False, False), (iABC, OpArgK, OpArgK, False, True),
       (iABC, OpArgK, OpArgK, False, True), (iABC, OpArgK, OpArgK, False, True), (iABC, OpArgR, OpArgU, True, True),
       (iABC, OpArgR, OpArgU, True, True), (iABC, OpArgU, OpArgU, True, False), (iABC, OpArgU, OpArgU, True, False),
       (iABC, OpArgU, OpArgN, False, False), (iAsBx, OpArgR, OpArgN, True, False), (iAsBx, OpArgR, OpArgN, True, False),
       (iABC, OpArgN, OpArgU, False, True), (iABC, OpArgU, OpArgU, False, False), (iABC, OpArgN, OpArgN, False, False),
       (iABx, OpArgU, OpArgN, True, False), (iABC, OpArgU, OpArgN, True, False)]"
  by code_simp

lemmas mode_simps [simp] = mode_rows [unfolded opcodes_def list.map list.inject prod.inject]

lemma checkArgMode_rk: "checkArgMode pt r OpArgK \<Longrightarrow> 0 \<le> r \<Longrightarrow> rk_ok pt r"
  by (simp add: checkArgMode_def rk_ok_def reg_ok_def)

text \<open>The word after such an instruction is a count, no instruction.\<close>

definition count_follows :: "Proto \<Rightarrow> int \<Rightarrow> bool" where
  "count_follows pt pc = (is_op (instr pt pc) OP_SETLIST \<and> GETARG_C (instr pt pc) = 0)"

definition skips_word :: "Proto \<Rightarrow> int \<Rightarrow> bool" where
  "skips_word pt pc = (is_op (instr pt pc) OP_LOADBOOL \<and> GETARG_C (instr pt pc) \<noteq> 0)"

definition jumps :: "Instruction \<Rightarrow> bool" where
  "jumps i = (is_op i OP_JMP \<or> is_op i OP_FORLOOP \<or> is_op i OP_FORPREP)"

text \<open>The targets of the jumps and the skips are in the code.\<close>

definition flow_ok :: "Proto \<Rightarrow> int \<Rightarrow> bool" where
  "flow_ok pt pc \<longleftrightarrow>
     (jumps (instr pt pc) \<longrightarrow>
        (let dest = pc + 1 + GETARG_sBx (instr pt pc)
         in 0 \<le> dest \<and> dest < sizecode pt \<and> (0 < dest \<longrightarrow> \<not> count_follows pt (dest - 1))))
     \<and> (skips_word pt pc \<longrightarrow> pc + 2 < sizecode pt)
     \<and> (\<forall>o'. op_of_num (GET_OPCODE (instr pt pc)) = Some o' \<and> testTMode o' \<longrightarrow>
           pc + 2 < sizecode pt \<and> is_op (instr pt (pc + 1)) OP_JMP)"

lemma symb_step_result:
  assumes "symb_step pt lastpc reg pc last_pc = Ok (pc', last_pc')"
  shows "instr_safe pt pc \<and> flow_ok pt pc \<and> pc' + 1 = next_pos pt lastpc reg pc
    \<and> last_pc' = (if changes_reg pt reg pc then pc else last_pc)"
proof -
  obtain o' b c where o: "0 \<le> pc" "pc < sizecode pt" "op_of_num (GET_OPCODE (instr pt pc)) = Some o'"
      "GETARG_A (instr pt pc) < pt_maxstacksize pt"
    and bc: "symb_operands pt pc (instr pt pc) o' = Ok (b, c)"
    and s: "symb_skip pt pc o' (symb_op pt lastpc reg pc o' (GETARG_A (instr pt pc)) b c
      (if testAMode o' \<and> GETARG_A (instr pt pc) = reg then pc else last_pc)) = Ok (pc', last_pc')"
    using assms by (auto simp: symb_step_def Let_def split: option.splits)
  from s have r: "symb_op pt lastpc reg pc o' (GETARG_A (instr pt pc)) b c
      (if testAMode o' \<and> GETARG_A (instr pt pc) = reg then pc else last_pc) = Ok (pc', last_pc')" by simp
  have nn: "\<not> 0 < GETARG_B (instr pt pc) \<Longrightarrow> GETARG_B (instr pt pc) = 0" using arg_nonneg(2) [of "instr pt pc"] by linarith
  have "operands_safe pt pc o' (GETARG_A (instr pt pc)) (GETARG_B (instr pt pc)) (GETARG_C (instr pt pc)) (GETARG_Bx (instr pt pc))"
    using bc r o(4)
    by (cases o') (auto simp: symb_operands_def symb_op_def symb_call_def operands_safe_def Let_def checkArgMode_def reg_ok_def
        rk_ok_def list_all_iff dest!: nn split: if_splits)
  moreover have "pc' + 1 = next_pos pt lastpc reg pc"
    using bc r o(3)
    by (cases o') (auto simp: symb_operands_def symb_op_def symb_call_def next_pos_def is_op_iff Let_def split: if_splits)
  moreover have "last_pc' = (if changes_reg pt reg pc then pc else last_pc)"
    using bc r o(3)
    by (cases o') (auto simp: symb_operands_def symb_op_def symb_call_def changes_reg_def Let_def split: if_splits)
  moreover have "flow_ok pt pc"
    using bc r s o(3)
    by (cases o') (auto simp: symb_operands_def symb_op_def symb_call_def flow_ok_def jumps_def skips_word_def count_follows_def
        is_op_iff Let_def split: if_splits)
  ultimately show ?thesis using o by (simp add: instr_safe_def Let_def reg_ok_def)
qed

section \<open>The positions the checker visits\<close>

inductive visits :: "Proto \<Rightarrow> int \<Rightarrow> int \<Rightarrow> int \<Rightarrow> int \<Rightarrow> bool" for pt lastpc reg where
  here: "visits pt lastpc reg pc pc"
| on: "pc < lastpc \<Longrightarrow> visits pt lastpc reg (next_pos pt lastpc reg pc) q \<Longrightarrow> visits pt lastpc reg pc q"

lemma next_pos_gt: "pc < next_pos pt lastpc reg pc"
  by (simp add: next_pos_def symb_jump_def Let_def)

lemma visits_ge: "visits pt lastpc reg pc q \<Longrightarrow> pc \<le> q"
proof (induction rule: visits.induct)
  case (on pc q)
  with next_pos_gt [of pc pt lastpc reg] show ?case by simp
qed simp

lemma visits_step: "visits pt lastpc reg pc q \<Longrightarrow> q < lastpc \<Longrightarrow> visits pt lastpc reg pc (next_pos pt lastpc reg q)"
  by (induction rule: visits.induct) (auto intro: visits.intros)

lemma symb_loop_result:
  "symb_loop pt lastpc reg pc l = Ok r \<Longrightarrow>
     (\<forall>q. visits pt lastpc reg pc q \<and> q < lastpc \<longrightarrow> instr_safe pt q \<and> flow_ok pt q)
     \<and> (r = l \<and> (\<forall>q. visits pt lastpc reg pc q \<and> q < lastpc \<longrightarrow> \<not> changes_reg pt reg q)
        \<or> visits pt lastpc reg pc r \<and> r < lastpc \<and> changes_reg pt reg r
          \<and> (\<forall>q. visits pt lastpc reg pc q \<and> q < lastpc \<and> r < q \<longrightarrow> \<not> changes_reg pt reg q))"
proof (induction pt lastpc reg pc l arbitrary: r rule: symb_loop.induct)
  case (1 pt lastpc reg pc l)
  show ?case
  proof (cases "pc < lastpc")
    case False
    have "\<not> (visits pt lastpc reg pc q \<and> q < lastpc)" for q using False visits_ge [of pt lastpc reg pc q] by auto
    moreover have "r = l" using 1(2) False by simp
    ultimately show ?thesis by blast
  next
    case True
    have "(case symb_step pt lastpc reg pc l of Fail \<Rightarrow> Fail | Undef \<Rightarrow> Undef
        | Ok x \<Rightarrow> symb_loop pt lastpc reg (fst x + 1) (snd x)) = Ok r"
      using 1(2) True by (subst (asm) symb_loop.simps) simp
    then obtain x where x: "symb_step pt lastpc reg pc l = Ok x" "symb_loop pt lastpc reg (fst x + 1) (snd x) = Ok r"
      by (cases "symb_step pt lastpc reg pc l") auto
    obtain pc' l' where pl: "x = (pc', l')" by (cases x)
    with x have s: "symb_step pt lastpc reg pc l = Ok (pc', l')"
      and r: "symb_loop pt lastpc reg (pc' + 1) l' = Ok r" by simp_all
    from symb_step_result [OF s] have res: "instr_safe pt pc" "flow_ok pt pc" "pc' + 1 = next_pos pt lastpc reg pc"
      "l' = (if changes_reg pt reg pc then pc else l)" by simp_all
    let ?n = "next_pos pt lastpc reg pc"
    have v: "visits pt lastpc reg pc q \<longleftrightarrow> q = pc \<or> visits pt lastpc reg ?n q" for q
      using True by (auto intro: visits.intros elim: visits.cases)
    have gt: "pc < q" if "visits pt lastpc reg ?n q" for q
      using visits_ge [OF that] next_pos_gt [of pc pt lastpc reg] by simp
    from 1(1) [OF True x] res(3)
    have ih: "\<forall>q. visits pt lastpc reg ?n q \<and> q < lastpc \<longrightarrow> instr_safe pt q \<and> flow_ok pt q"
      "r = l' \<and> (\<forall>q. visits pt lastpc reg ?n q \<and> q < lastpc \<longrightarrow> \<not> changes_reg pt reg q)
        \<or> visits pt lastpc reg ?n r \<and> r < lastpc \<and> changes_reg pt reg r
          \<and> (\<forall>q. visits pt lastpc reg ?n q \<and> q < lastpc \<and> r < q \<longrightarrow> \<not> changes_reg pt reg q)"
      unfolding pl by simp_all
    have "r = l \<and> (\<forall>q. (q = pc \<or> visits pt lastpc reg ?n q) \<and> q < lastpc \<longrightarrow> \<not> changes_reg pt reg q)
        \<or> (r = pc \<or> visits pt lastpc reg ?n r) \<and> r < lastpc \<and> changes_reg pt reg r
          \<and> (\<forall>q. (q = pc \<or> visits pt lastpc reg ?n q) \<and> q < lastpc \<and> r < q \<longrightarrow> \<not> changes_reg pt reg q)"
      using ih(2)
    proof
      assume "r = l' \<and> (\<forall>q. visits pt lastpc reg ?n q \<and> q < lastpc \<longrightarrow> \<not> changes_reg pt reg q)"
      with res(4) True show ?thesis by (cases "changes_reg pt reg pc") (simp_all, blast+)
    next
      assume later: "visits pt lastpc reg ?n r \<and> r < lastpc \<and> changes_reg pt reg r
          \<and> (\<forall>q. visits pt lastpc reg ?n q \<and> q < lastpc \<and> r < q \<longrightarrow> \<not> changes_reg pt reg q)"
      then have "\<not> r < pc" using gt by force
      with later show ?thesis by blast
    qed
    moreover have "\<forall>q. (q = pc \<or> visits pt lastpc reg ?n q) \<and> q < lastpc \<longrightarrow> instr_safe pt q \<and> flow_ok pt q"
      using ih(1) res(1,2) by blast
    ultimately show ?thesis unfolding v by (rule conjI [rotated])
  qed
qed

lemma precheck_Ok:
  "precheck pt = Ok x \<Longrightarrow> pt_code pt \<noteq> [] \<and> is_op (instr pt (sizecode pt - 1)) OP_RETURN \<and> pt_maxstacksize pt \<le> MAXSTACK"
  by (auto simp: precheck_def)

lemma checkcode_visits:
  assumes "luaG_checkcode pt = Ok True"
  shows "pt_code pt \<noteq> []" "is_op (instr pt (sizecode pt - 1)) OP_RETURN"
    "visits pt (sizecode pt) NO_REG 0 q \<Longrightarrow> q < sizecode pt \<Longrightarrow> instr_safe pt q \<and> flow_ok pt q"
proof -
  obtain i where "symbexec pt (sizecode pt) NO_REG = Ok i"
    using assms by (auto simp: luaG_checkcode_def symb_word_def split: symb.splits)
  then obtain x r where p: "precheck pt = Ok x" and l: "symb_loop pt (sizecode pt) NO_REG 0 (sizecode pt - 1) = Ok r"
    by (auto simp: symbexec_def)
  from precheck_Ok [OF p] show "pt_code pt \<noteq> []" "is_op (instr pt (sizecode pt - 1)) OP_RETURN" by simp_all
  show "visits pt (sizecode pt) NO_REG 0 q \<Longrightarrow> q < sizecode pt \<Longrightarrow> instr_safe pt q \<and> flow_ok pt q"
    using symb_loop_result [OF l] by blast
qed

lemma next_pos_NO_REG: "next_pos pt lastpc NO_REG pc = (if count_follows pt pc then pc + 2 else pc + 1)"
proof -
  have "is_op i OP_JMP \<or> is_op i OP_FORLOOP \<or> is_op i OP_FORPREP \<Longrightarrow> \<not> is_op i OP_SETLIST" for i
    by (auto simp: is_op_iff)
  then show ?thesis by (auto simp: next_pos_def symb_jump_def count_follows_def Let_def)
qed

text \<open>
  Every position is visited by the checker, except the counts. A count that is not skipped is executed
  as an instruction: the checker lets that happen after a skip of \<open>OP_LOADBOOL\<close>, and a count in the last place
  is left out of the code.
\<close>

definition counts_ok :: "Proto \<Rightarrow> bool" where
  "counts_ok pt =
     list_all (\<lambda>n. count_follows pt (int n) \<longrightarrow>
         int n + 2 < sizecode pt \<and> (0 < n \<longrightarrow> \<not> skips_word pt (int n - 1))) [0..<length (pt_code pt)]"

lemma counts_okD:
  assumes "counts_ok pt" "count_follows pt q" "0 \<le> q" "q < sizecode pt"
  shows "q + 2 < sizecode pt" "0 < q \<Longrightarrow> \<not> skips_word pt (q - 1)"
  using assms(1) [unfolded counts_ok_def list_all_iff, rule_format, of "nat q"] assms(2-4) by simp_all

lemma visited_or_count:
  assumes "0 \<le> d" "d < n"
  shows "visits pt n NO_REG 0 d \<or> (0 < d \<and> visits pt n NO_REG 0 (d - 1) \<and> count_follows pt (d - 1))"
  using assms
proof (induction d rule: int_ge_induct)
  case base
  show ?case by (simp add: visits.here)
next
  case (step d)
  have "d < n" using step.prems by simp
  with step.IH consider "visits pt n NO_REG 0 d" | "0 < d" "visits pt n NO_REG 0 (d - 1)" "count_follows pt (d - 1)" by blast
  then show ?case
  proof cases
    case 1
    with visits_step [OF 1 \<open>d < n\<close>] step.hyps show ?thesis by (auto simp: next_pos_NO_REG split: if_splits)
  next
    case 2
    with visits_step [OF 2(2)] \<open>d < n\<close> show ?thesis by (simp add: next_pos_NO_REG add.commute)
  qed
qed

lemma vm_next_cases:
  assumes "q \<in> set (vm_next pt pc)"
  obtains "q = pc + 1" "\<not> is_op (instr pt pc) OP_RETURN" "\<not> count_follows pt pc"
  | "q = pc + 2" "count_follows pt pc"
  | "q = pc + 2" "skips_word pt pc"
  | "q = pc + 1 + GETARG_sBx (instr pt pc)" "jumps (instr pt pc)"
  | o' where "op_of_num (GET_OPCODE (instr pt pc)) = Some o'" "testTMode o'"
      "q = pc + 2 \<or> q = pc + 2 + GETARG_sBx (instr pt (pc + 1))"
  | "is_op (instr pt pc) OP_CLOSURE" "q = pc + 1 + int (nat (pt_nups (pt_p pt ! nat (GETARG_Bx (instr pt pc)))))"
proof (cases "op_of_num (GET_OPCODE (instr pt pc))")
  case None
  with assms show thesis by (simp add: vm_next_def)
next
  case (Some o')
  with assms that show thesis
    by (cases o') (auto simp: vm_next_def is_op_iff count_follows_def skips_word_def jumps_def Let_def split: if_splits)
qed

text \<open>The code that the checker accepts is safe to run: wherever the interpreter can get in the function, the
position is inside the code, the opcode exists, and the registers, constants, upvalues and prototypes of its
operands exist. The counts after \<open>OP_SETLIST\<close> are the exception, which \<open>counts_ok\<close> leaves out.\<close>

theorem checked_code_safe:
  assumes ok: "luaG_checkcode pt = Ok True" and counts: "counts_ok pt" and reach: "code_reach pt pc"
  shows "instr_safe pt pc"
proof -
  let ?n = "sizecode pt"
  define at where "at q \<longleftrightarrow> visits pt ?n NO_REG 0 q \<and> q < ?n" for q
  note return = checkcode_visits(2) [OF ok]
  have at: "instr_safe pt q \<and> flow_ok pt q \<and> 0 \<le> q" if "at q" for q
    using checkcode_visits(3) [OF ok] visits_ge that unfolding at_def by blast
  have on: "at (if count_follows pt q then q + 2 else q + 1)"
    if "at q" "\<not> is_op (instr pt q) OP_RETURN \<or> (if count_follows pt q then q + 2 else q + 1) < ?n" for q
  proof -
    have v: "visits pt ?n NO_REG 0 (if count_follows pt q then q + 2 else q + 1)"
      using visits_step [of pt ?n NO_REG 0 q] that(1) by (simp add: at_def next_pos_NO_REG)
    have "q < ?n" "0 \<le> q" using that(1) at unfolding at_def by blast+
    moreover have "q \<noteq> ?n - 1" if "\<not> is_op (instr pt q) OP_RETURN" using that return by auto
    ultimately have "(if count_follows pt q then q + 2 else q + 1) < ?n" using that(2) counts_okD(1) [OF counts, of q] by auto
    with v show ?thesis by (simp add: at_def)
  qed
  have jump: "at (q + 1 + GETARG_sBx (instr pt q))" if "at q" "jumps (instr pt q)" for q
  proof -
    let ?d = "q + 1 + GETARG_sBx (instr pt q)"
    have f: "0 \<le> ?d" "?d < ?n" "0 < ?d \<longrightarrow> \<not> count_follows pt (?d - 1)"
      using at [OF that(1)] that(2) by (simp_all add: flow_ok_def Let_def)
    from visited_or_count [OF f(1,2)] f show ?thesis unfolding at_def by blast
  qed
  have "at pc"
    using reach
  proof induction
    case start
    show ?case using checkcode_visits(1) [OF ok] by (simp add: at_def visits.here)
  next
    case (step pc q)
    note here = at [OF step.IH]
    from step.hyps(2) show ?case
    proof (cases rule: vm_next_cases)
      case 1
      with on [OF step.IH] show ?thesis by simp
    next
      case 2
      then have "\<not> is_op (instr pt pc) OP_RETURN" by (auto simp: count_follows_def is_op_iff)
      with on [OF step.IH] 2 show ?thesis by simp
    next
      case 3
      then have no: "\<not> count_follows pt pc" "\<not> is_op (instr pt pc) OP_RETURN"
        by (auto simp: skips_word_def count_follows_def is_op_iff)
      have "pc + 2 < ?n" using here 3(2) by (simp add: flow_ok_def)
      moreover have "\<not> count_follows pt (pc + 1)"
        using counts_okD(2) [OF counts, of "pc + 1"] here 3(2) \<open>pc + 2 < ?n\<close> by auto
      moreover have "at (pc + 1)" using on [OF step.IH] no by simp
      ultimately show ?thesis using on [of "pc + 1"] 3(1) by (simp add: add.commute)
    next
      case 4
      with jump [OF step.IH] show ?thesis by simp
    next
      case (5 o')
      then have no: "\<not> count_follows pt pc" "\<not> is_op (instr pt pc) OP_RETURN"
        by (auto simp: count_follows_def is_op_iff)
      have j: "pc + 2 < ?n" "is_op (instr pt (pc + 1)) OP_JMP" using here 5(1,2) by (auto simp: flow_ok_def)
      then have "\<not> count_follows pt (pc + 1)" by (auto simp: count_follows_def is_op_iff)
      moreover have a: "at (pc + 1)" using on [OF step.IH] no by simp
      ultimately have "at (pc + 2)" using on [of "pc + 1"] j(1) by (simp add: add.commute)
      moreover have "at (pc + 2 + GETARG_sBx (instr pt (pc + 1)))" using jump [OF a] j(2) by (simp add: jumps_def algebra_simps)
      ultimately show ?thesis using 5(3) by auto
    next
      case 6
      let ?m = "nat (pt_nups (pt_p pt ! nat (GETARG_Bx (instr pt pc))))"
      have words: "closure_word pt (pc + 1 + int j)" if "j < ?m" for j
        using here 6(1) that by (auto simp: instr_safe_def operands_safe_def list_all_iff is_op_iff Let_def)
      have words_at: "at (pc + 1 + int j)" if "j \<le> ?m" for j
        using that
      proof (induction j)
        case 0
        have "\<not> count_follows pt pc" "\<not> is_op (instr pt pc) OP_RETURN" using 6(1) by (auto simp: count_follows_def is_op_iff)
        with on [OF step.IH] show ?case by simp
      next
        case (Suc j)
        have "\<not> count_follows pt (pc + 1 + int j)" "\<not> is_op (instr pt (pc + 1 + int j)) OP_RETURN"
          using words [of j] Suc.prems by (auto simp: closure_word_def count_follows_def is_op_iff)
        with on [of "pc + 1 + int j"] Suc show ?case by (simp add: algebra_simps)
      qed
      show ?thesis unfolding 6(2) by (rule words_at) simp
    qed
  qed
  with at show ?thesis by blast
qed

definition small_code :: Proto where
  "small_code = Proto [TString ''print''] [CREATE_ABx OP_GETGLOBAL 0 0, CREATE_ABC OP_CALL 0 1 1, CREATE_ABC OP_RETURN 0 1 0]
     [] [] [] [] None 0 0 0 0 2 2"

theorem checked_code_safe_witness: "instr_safe small_code 1"
proof (rule checked_code_safe)
  show "luaG_checkcode small_code = Ok True" by code_simp
  show "counts_ok small_code" by code_simp
  have "1 \<in> set (vm_next small_code 0)" by code_simp
  then show "code_reach small_code 1" by (rule code_reach.step [OF code_reach.start])
qed

definition overrun_code :: Proto where
  "overrun_code = Proto [] [CREATE_ABC OP_SETLIST 0 1 0, CREATE_ABC OP_RETURN 0 1 0] [] [] [] [] None 0 0 0 0 2 2"

text \<open>The checker does not see that a count is missing: it accepts code that ends in an \<open>OP_SETLIST\<close> whose count
is the final \<open>OP_RETURN\<close>, and the interpreter runs out of the code after it.\<close>

theorem checkcode_misses_count:
  "luaG_checkcode overrun_code = Ok True \<and> vm_next overrun_code 0 = [sizecode overrun_code]"
proof
  show "luaG_checkcode overrun_code = Ok True" by code_simp
  show "vm_next overrun_code 0 = [sizecode overrun_code]" by code_simp
qed

section \<open>The checker itself\<close>

lemma symb_bind_Undef [simp]: "symb_bind m f = Undef \<longleftrightarrow> m = Undef \<or> (\<exists>x. m = Ok x \<and> f x = Undef)"
  by (cases m) auto

lemma check_Undef [simp]: "check b m = Undef \<longleftrightarrow> b \<and> m = Undef"
  by (simp add: check_def)

lemma checkreg_Undef [simp]: "checkreg pt r m = Undef \<longleftrightarrow> r < pt_maxstacksize pt \<and> m = Undef"
  by (simp add: checkreg_def)

lemma read_at_Undef [simp]: "read_at xs n = Undef \<longleftrightarrow> \<not> (0 \<le> n \<and> n < int (length xs))"
  by (simp add: read_at_def)

lemma closure_words_defined: "0 \<le> pc \<Longrightarrow> pc + int n < sizecode pt \<Longrightarrow> closure_words pt pc n \<noteq> Undef"
  by (induction n) auto

lemma symb_step_defined:
  assumes "0 \<le> pc" "pc < sizecode pt" and ret: "is_op (instr pt (sizecode pt - 1)) OP_RETURN"
  shows "symb_step pt lastpc reg pc l \<noteq> Undef"
proof -
  have inner: "pc + 1 < sizecode pt" if "op_of_num (GET_OPCODE (instr pt pc)) = Some o'" "o' \<noteq> OP_RETURN" for o'
  proof -
    have "pc \<noteq> sizecode pt - 1" using that ret by (auto simp: is_op_iff)
    with assms(2) show ?thesis by simp
  qed
  have op: "symb_op pt lastpc reg pc o' (GETARG_A (instr pt pc)) b c l' \<noteq> Undef"
    if "op_of_num (GET_OPCODE (instr pt pc)) = Some o'" "symb_operands pt pc (instr pt pc) o' = Ok (b, c)" for o' b c l'
    using that assms(1,2) inner [OF that(1)]
    by (cases o') (auto simp: symb_op_def symb_call_def symb_operands_def checkopenop_def Let_def
        closure_words_defined split: if_splits)
  have operands: "symb_operands pt pc (instr pt pc) o' \<noteq> Undef" for o'
    by (auto simp: symb_operands_def Let_def split: OpMode.split)
  show ?thesis
    using assms(1,2) op operands by (auto simp: symb_step_def symb_skip_def Let_def split: option.splits)
qed

lemma symb_loop_defined:
  "0 \<le> pc \<Longrightarrow> lastpc \<le> sizecode pt \<Longrightarrow> is_op (instr pt (sizecode pt - 1)) OP_RETURN \<Longrightarrow>
     symb_loop pt lastpc reg pc l \<noteq> Undef"
proof (induction pt lastpc reg pc l rule: symb_loop.induct)
  case (1 pt lastpc reg pc l)
  show ?case
  proof (cases "pc < lastpc")
    case True
    then have "symb_step pt lastpc reg pc l \<noteq> Undef" using symb_step_defined 1(2-4) by simp
    moreover have "symb_loop pt lastpc reg (fst r + 1) (snd r) \<noteq> Undef" if r: "symb_step pt lastpc reg pc l = Ok r" for r
    proof -
      have "pc \<le> fst r" using r by (cases r) (auto dest: symb_step_pc)
      then show ?thesis using 1(1) [OF True r] 1(2-4) by simp
    qed
    ultimately show ?thesis
      by (subst symb_loop.simps) (auto split: symb.split)
  qed simp
qed

lemma symbexec_inside:
  assumes ne: "pt_code pt \<noteq> []" and "lastpc \<le> sizecode pt"
  shows "symbexec pt lastpc reg \<noteq> Undef"
proof -
  have pre: "precheck pt \<noteq> Undef" using ne by (auto simp: precheck_def Suc_le_eq)
  show ?thesis
  proof (cases "precheck pt")
    case (Ok x)
    note ret = precheck_Ok [OF Ok]
    have "symb_loop pt lastpc reg 0 (sizecode pt - 1) \<noteq> Undef" using symb_loop_defined assms(2) ret by simp
    moreover have "0 \<le> r \<and> r < sizecode pt" if "symb_loop pt lastpc reg 0 (sizecode pt - 1) = Ok r" for r
      using symb_loop_result [OF that] visits_ge [of pt lastpc reg 0 r] assms by (auto simp: Suc_le_eq)
    ultimately show ?thesis using Ok by (auto simp: symbexec_def)
  qed (use pre in \<open>simp_all add: symbexec_def\<close>)
qed

text \<open>C32: The symbolic execution of a function with at least one instruction ends, and reads no constant, prototype
or instruction outside the arrays of the function; a function with no instruction makes it read the word before the code.\<close>

theorem symbexec_reads_inside:
  assumes "lastpc \<le> sizecode pt"
  shows "(pt_code pt \<noteq> [] \<longrightarrow> symbexec pt lastpc reg \<noteq> Undef)
    \<and> (pt_code pt = [] \<and> pt_maxstacksize pt \<le> MAXSTACK \<and> pt_upvalues pt = [] \<and> 0 \<le> pt_nups pt \<and> pt_lineinfo pt = [] \<longrightarrow>
         symbexec pt lastpc reg = Undef)"
  using symbexec_inside [OF _ assms] by (auto simp: symbexec_def precheck_def)

theorem symbexec_reads_inside_witness:
  "symbexec small_code 3 NO_REG \<noteq> Undef"
proof -
  have "3 \<le> sizecode small_code" "pt_code small_code \<noteq> []" by (simp_all add: small_code_def)
  with symbexec_reads_inside [of 3 small_code NO_REG] show ?thesis by blast
qed

text \<open>The symbolic execution up to a position finds the last visited instruction that it takes for a change of the
register, or the final \<open>OP_RETURN\<close> when there is none.\<close>

lemma symbexec_last_change:
  assumes "symbexec pt lastpc reg = Ok i"
  shows "(i = instr pt (sizecode pt - 1) \<and> is_op i OP_RETURN
        \<and> (\<forall>q. visits pt lastpc reg 0 q \<and> q < lastpc \<longrightarrow> \<not> changes_reg pt reg q))
    \<or> (\<exists>q. i = instr pt q \<and> visits pt lastpc reg 0 q \<and> q < lastpc \<and> changes_reg pt reg q \<and> instr_safe pt q
        \<and> (\<forall>q'. visits pt lastpc reg 0 q' \<and> q' < lastpc \<and> q < q' \<longrightarrow> \<not> changes_reg pt reg q'))"
proof -
  obtain x r where p: "precheck pt = Ok x" and l: "symb_loop pt lastpc reg 0 (sizecode pt - 1) = Ok r"
    and i: "i = instr pt r" using assms by (auto simp: symbexec_def)
  from symb_loop_result [OF l] precheck_Ok [OF p] show ?thesis unfolding i by blast
qed

lemma symbexec_last_change_example:
  "\<exists>q < 2. CREATE_ABC OP_CALL 0 1 1 = instr small_code q \<and> changes_reg small_code 0 q"
proof -
  have i: "symbexec small_code 2 0 = Ok (CREATE_ABC OP_CALL 0 1 1)" by code_simp
  have "\<not> is_op (CREATE_ABC OP_CALL 0 1 1) OP_RETURN" by code_simp
  with symbexec_last_change [OF i] show ?thesis by blast
qed

end
