(* ===== verification/LuaDebug.thy ===== *)
theory LuaDebug
  imports LuaChecker
begin

text \<open>
  ldebug.c: what the debug interface finds out about the active functions, and the messages of the
  run-time errors, with the names of the operands.

  The calls are a list from \<open>base_ci\<close> to the running function; a frame is named by its index, which is
  \<open>i_ci\<close> of \<open>lua_Debug\<close>. The stack levels are indices of the stack. \<open>currentpc\<close> copies \<open>L->savedpc\<close> to
  the running frame before it reads it; the copy is left out.
\<close>

section \<open>The active functions\<close>

datatype frame_fun = LuaFun Proto nat | CFun nat | NoFun

record CallInfo =
  ci_fun :: frame_fun
  ci_func :: nat
  ci_base :: nat
  ci_top :: nat
  ci_savedpc :: int
  ci_tailcalls :: int

record call_state =
  base_ci :: "CallInfo list"
  cs_savedpc :: int
  cs_top :: nat
  cs_base :: nat

definition getluaproto :: "CallInfo \<Rightarrow> Proto option" where
  "getluaproto ci = (case ci_fun ci of LuaFun p n \<Rightarrow> Some p | _ \<Rightarrow> None)"

definition isLua :: "CallInfo \<Rightarrow> bool" where
  "isLua ci = (getluaproto ci \<noteq> None)"

text \<open>\<open>pcRel\<close>: the instruction before the saved one.\<close>

definition pcRel :: "int \<Rightarrow> int" where
  "pcRel pc = pc - 1"

definition currentpc :: "call_state \<Rightarrow> nat \<Rightarrow> int" where
  "currentpc L n =
     (let ci = base_ci L ! n
      in if \<not> isLua ci then - 1
         else pcRel (if n + 1 = length (base_ci L) then cs_savedpc L else ci_savedpc ci))"

definition getline :: "Proto \<Rightarrow> int \<Rightarrow> int symb" where
  "getline p pc = (if pt_lineinfo p = [] then Ok 0 else read_at (pt_lineinfo p) pc)"

definition currentline :: "call_state \<Rightarrow> nat \<Rightarrow> int symb" where
  "currentline L n =
     (let pc = currentpc L n
      in if pc < 0 then Ok (- 1)
         else case getluaproto (base_ci L ! n) of Some p \<Rightarrow> getline p pc | None \<Rightarrow> Ok (- 1))"

text \<open>The loop of \<open>lua_getstack\<close>, from the running function down; the result is the \<open>level\<close> and the \<open>ci\<close> it ends with.\<close>

fun getstack_loop :: "CallInfo list \<Rightarrow> nat \<Rightarrow> int \<Rightarrow> int \<times> nat" where
  "getstack_loop cis 0 level = (level, 0)"
| "getstack_loop cis (Suc n) level =
     (if 0 < level then
        (let ci = cis ! Suc n; level1 = level - 1
         in getstack_loop cis n (if isLua ci then level1 - ci_tailcalls ci else level1))
      else (level, Suc n))"

definition lua_getstack :: "call_state \<Rightarrow> int \<Rightarrow> nat option" where
  "lua_getstack L level =
     (let (level', n) = getstack_loop (base_ci L) (length (base_ci L) - 1) level
      in if level' = 0 \<and> 0 < n then Some n
         else if level' < 0 then Some 0
         else None)"

text \<open>The result of \<open>findlocal\<close> is undefined where it is \<open>getstr(NULL)\<close>.\<close>

definition findlocal :: "call_state \<Rightarrow> nat \<Rightarrow> int \<Rightarrow> string option symb" where
  "findlocal L m n =
     (let ci = base_ci L ! m
      in case (case getluaproto ci of None \<Rightarrow> None | Some fp \<Rightarrow> luaF_getlocalname fp n (currentpc L m)) of
           Some (Some name) \<Rightarrow> Ok (Some name)
         | Some None \<Rightarrow> Undef
         | None \<Rightarrow>
             let limit = (if m + 1 = length (base_ci L) then cs_top L else ci_func (base_ci L ! (m + 1)))
             in Ok (if n \<le> int limit - int (ci_base ci) \<and> 0 < n then Some ''(*temporary)'' else None))"

text \<open>\<open>lua_getlocal\<close> and \<open>lua_setlocal\<close>: the stack level of the variable.\<close>

definition local_level :: "call_state \<Rightarrow> nat \<Rightarrow> int \<Rightarrow> (string \<times> nat) option symb" where
  "local_level L m n =
     symb_bind (findlocal L m n) (\<lambda>r.
       Ok (map_option (\<lambda>name. (name, nat (int (ci_base (base_ci L ! m)) + (n - 1)))) r))"

definition lua_getlocal :: "call_state \<Rightarrow> tvalue list \<Rightarrow> nat \<Rightarrow> int \<Rightarrow> (string \<times> tvalue) option symb" where
  "lua_getlocal L stack m n =
     symb_bind (local_level L m n) (\<lambda>r. Ok (map_option (\<lambda>(name, k). (name, stack ! k)) r))"

definition lua_setlocal :: "call_state \<Rightarrow> tvalue list \<Rightarrow> nat \<Rightarrow> int \<Rightarrow> (call_state \<times> tvalue list \<times> string option) symb" where
  "lua_setlocal L stack m n =
     symb_bind (local_level L m n) (\<lambda>r.
       Ok (L\<lparr>cs_top := cs_top L - 1\<rparr>,
           (case r of None \<Rightarrow> stack | Some (name, k) \<Rightarrow> stack[k := stack ! (cs_top L - 1)]),
           map_option fst r))"

section \<open>The names of operands\<close>

definition svalue_at :: "tvalue list \<Rightarrow> int \<Rightarrow> string symb" where
  "svalue_at k n = symb_bind (read_at k n) (\<lambda>v. case v of TString s \<Rightarrow> Ok s | _ \<Rightarrow> Undef)"

definition kname :: "Proto \<Rightarrow> int \<Rightarrow> string symb" where
  "kname p c =
     (if ISK c then symb_bind (read_at (pt_k p) (INDEXK c)) (\<lambda>v. case v of TString s \<Rightarrow> Ok s | _ \<Rightarrow> Ok ''?'')
      else Ok ''?'')"

definition upvalue_name :: "Proto \<Rightarrow> int \<Rightarrow> string symb" where
  "upvalue_name p u =
     (if pt_upvalues p = [] then Ok ''?''
      else symb_bind (read_at (pt_upvalues p) u) (\<lambda>s. case s of Some n \<Rightarrow> Ok n | None \<Rightarrow> Undef))"

lemma symbexec_move:
  assumes "symb_word (symbexec p pc stackpos) = Ok i" "is_op i OP_MOVE" "GETARG_B i < GETARG_A i"
  shows "GETARG_A i = stackpos"
proof (cases "symbexec p pc stackpos")
  case Fail
  with assms(1) have "i = 0" by (simp add: symb_word_def)
  have "GETARG_A 0 = 0" "GETARG_B 0 = 0" by code_simp+
  with assms(3) \<open>i = 0\<close> show ?thesis by simp
next
  case Undef
  with assms(1) show ?thesis by (simp add: symb_word_def)
next
  case (Ok j)
  with assms(1) have "symbexec p pc stackpos = Ok i" by (simp add: symb_word_def)
  from symbexec_last_change [OF this] assms(2) show ?thesis by (auto simp: is_op_iff changes_reg_def Let_def)
qed

text \<open>\<open>getobjname\<close> of a Lua function \<open>p\<close> that runs at \<open>pc\<close>: the kind of the name and the name.\<close>

function getobjname :: "Proto \<Rightarrow> int \<Rightarrow> int \<Rightarrow> (string \<times> string) option symb" where
  "getobjname p pc stackpos =
     (case luaF_getlocalname p (stackpos + 1) pc of
        Some (Some name) \<Rightarrow> Ok (Some (''local'', name))
      | Some None \<Rightarrow> Undef
      | None \<Rightarrow>
          (case symb_word (symbexec p pc stackpos) of
             Ok i \<Rightarrow>
               if is_op i OP_GETGLOBAL then
                 symb_bind (svalue_at (pt_k p) (GETARG_Bx i)) (\<lambda>name. Ok (Some (''global'', name)))
               else if is_op i OP_MOVE then
                 (if GETARG_B i < GETARG_A i then getobjname p pc (GETARG_B i) else Ok None)
               else if is_op i OP_GETTABLE then
                 symb_bind (kname p (GETARG_C i)) (\<lambda>name. Ok (Some (''field'', name)))
               else if is_op i OP_GETUPVAL then
                 symb_bind (upvalue_name p (GETARG_B i)) (\<lambda>name. Ok (Some (''upvalue'', name)))
               else if is_op i OP_SELF then
                 symb_bind (kname p (GETARG_C i)) (\<lambda>name. Ok (Some (''method'', name)))
               else Ok None
           | Undef \<Rightarrow> Undef
           | Fail \<Rightarrow> Fail))"
  by pat_completeness auto
termination
proof (relation "measure (\<lambda>(p, pc, stackpos). nat stackpos)", goal_cases)
  case (2 p pc stackpos i)
  from symbexec_move [OF 2(2)] 2 have "GETARG_A i = stackpos" by simp
  moreover have "0 < GETARG_A i" using arg_nonneg(2) [of i] 2(5) by linarith
  ultimately show ?case using 2(5) by simp
qed simp

declare getobjname.simps [simp del]

definition frame_objname :: "call_state \<Rightarrow> nat \<Rightarrow> int \<Rightarrow> (string \<times> string) option symb" where
  "frame_objname L n stackpos =
     (case getluaproto (base_ci L ! n) of
        None \<Rightarrow> Ok None
      | Some p \<Rightarrow> getobjname p (currentpc L n) stackpos)"

definition getfuncname :: "call_state \<Rightarrow> nat \<Rightarrow> (string \<times> string) option symb" where
  "getfuncname L n =
     (if isLua (base_ci L ! n) \<and> 0 < ci_tailcalls (base_ci L ! n) then Ok None
      else case getluaproto (base_ci L ! (n - 1)) of
             None \<Rightarrow> Ok None
           | Some p \<Rightarrow>
               symb_bind (read_at (pt_code p) (currentpc L (n - 1))) (\<lambda>i.
                 if is_op i OP_CALL \<or> is_op i OP_TAILCALL \<or> is_op i OP_TFORLOOP
                 then frame_objname L (n - 1) (GETARG_A i)
                 else Ok None))"

section \<open>lua_getinfo\<close>

abbreviation LUA_IDSIZE :: int where "LUA_IDSIZE \<equiv> 60"

record DebugInfo =
  d_name :: "string option"
  d_namewhat :: string
  d_what :: string
  d_source :: string
  d_currentline :: int
  d_nups :: int
  d_linedefined :: int
  d_lastlinedefined :: int
  d_short_src :: string

definition funcinfo :: "DebugInfo \<Rightarrow> frame_fun \<Rightarrow> DebugInfo symb" where
  "funcinfo ar cl =
     (case cl of
        LuaFun p n \<Rightarrow>
          (case pt_source p of
             None \<Rightarrow> Undef
           | Some src \<Rightarrow> Ok (ar\<lparr>d_source := src, d_linedefined := pt_linedefined p, d_lastlinedefined := pt_lastlinedefined p,
                              d_what := if pt_linedefined p = 0 then ''main'' else ''Lua'',
                              d_short_src := luaO_chunkid src LUA_IDSIZE\<rparr>))
      | _ \<Rightarrow> Ok (ar\<lparr>d_source := ''=[C]'', d_linedefined := - 1, d_lastlinedefined := - 1, d_what := ''C'',
                   d_short_src := luaO_chunkid ''=[C]'' LUA_IDSIZE\<rparr>))"

definition info_tailcall :: "DebugInfo \<Rightarrow> DebugInfo" where
  "info_tailcall ar =
     ar\<lparr>d_name := Some [], d_namewhat := [], d_what := ''tail'', d_lastlinedefined := - 1, d_linedefined := - 1,
        d_currentline := - 1, d_source := ''=(tail call)'', d_short_src := luaO_chunkid ''=(tail call)'' LUA_IDSIZE, d_nups := 0\<rparr>"

fun nupvalues :: "frame_fun \<Rightarrow> int" where
  "nupvalues (LuaFun p n) = int n"
| "nupvalues (CFun n) = int n"
| "nupvalues NoFun = 0"

text \<open>One option of \<open>auxgetinfo\<close>; the result tells whether the option is valid.\<close>

definition getinfo_option :: "call_state \<Rightarrow> char \<Rightarrow> frame_fun \<Rightarrow> nat option \<Rightarrow> DebugInfo \<Rightarrow> (bool \<times> DebugInfo) symb" where
  "getinfo_option L c f ci ar =
     (if c = CHR ''S'' then symb_bind (funcinfo ar f) (\<lambda>ar. Ok (True, ar))
      else if c = CHR ''l'' then
        symb_bind (case ci of Some n \<Rightarrow> currentline L n | None \<Rightarrow> Ok (- 1)) (\<lambda>l. Ok (True, ar\<lparr>d_currentline := l\<rparr>))
      else if c = CHR ''u'' then Ok (True, ar\<lparr>d_nups := nupvalues f\<rparr>)
      else if c = CHR ''n'' then
        symb_bind (case ci of Some n \<Rightarrow> getfuncname L n | None \<Rightarrow> Ok None) (\<lambda>r.
          Ok (True, case r of Some (kind, name) \<Rightarrow> ar\<lparr>d_namewhat := kind, d_name := Some name\<rparr>
                            | None \<Rightarrow> ar\<lparr>d_namewhat := [], d_name := None\<rparr>))
      else Ok (c = CHR ''L'' \<or> c = CHR ''f'', ar))"

fun auxgetinfo_loop :: "call_state \<Rightarrow> string \<Rightarrow> frame_fun \<Rightarrow> nat option \<Rightarrow> bool \<Rightarrow> DebugInfo \<Rightarrow> (bool \<times> DebugInfo) symb" where
  "auxgetinfo_loop L [] f ci status ar = Ok (status, ar)"
| "auxgetinfo_loop L (c # what) f ci status ar =
     symb_bind (getinfo_option L c f ci ar) (\<lambda>(valid, ar). auxgetinfo_loop L what f ci (status \<and> valid) ar)"

definition auxgetinfo :: "call_state \<Rightarrow> string \<Rightarrow> DebugInfo \<Rightarrow> frame_fun option \<Rightarrow> nat option \<Rightarrow> (bool \<times> DebugInfo) symb" where
  "auxgetinfo L what ar f ci =
     (case f of None \<Rightarrow> Ok (True, info_tailcall ar) | Some f \<Rightarrow> auxgetinfo_loop L what f ci True ar)"

section \<open>The messages of run-time errors\<close>

text \<open>An operand is a value with its place in the stack, when it is there.\<close>

type_synonym operand = "tvalue \<times> nat option"

definition isinstack :: "CallInfo \<Rightarrow> nat option \<Rightarrow> bool" where
  "isinstack ci p = (case p of None \<Rightarrow> False | Some k \<Rightarrow> ci_base ci \<le> k \<and> k < ci_top ci)"

definition addinfo :: "call_state \<Rightarrow> string \<Rightarrow> string symb" where
  "addinfo L msg =
     (let n = length (base_ci L) - 1
      in case getluaproto (base_ci L ! n) of
           None \<Rightarrow> Ok msg
         | Some p \<Rightarrow>
             symb_bind (currentline L n) (\<lambda>line.
               case pt_source p of
                 None \<Rightarrow> Undef
               | Some src \<Rightarrow> Ok (luaO_pushvfstring ''%s:%d: %s'' [FStr (Some (luaO_chunkid src LUA_IDSIZE)), FInt line, FStr (Some msg)])))"

text \<open>The message that is thrown; an error handler may replace it.\<close>

definition luaG_runerror :: "call_state \<Rightarrow> string \<Rightarrow> farg list \<Rightarrow> lua_error symb" where
  "luaG_runerror L fmt args = symb_bind (addinfo L (luaO_pushvfstring fmt args)) (\<lambda>msg. Ok (LUA_ERRRUN msg))"

definition luaG_typeerror :: "call_state \<Rightarrow> operand \<Rightarrow> string \<Rightarrow> lua_error symb" where
  "luaG_typeerror L o' opn =
     (let t = luaT_typenames ! nat (ttype (fst o')); n = length (base_ci L) - 1
      in symb_bind (case snd o' of
                      Some k \<Rightarrow> if isinstack (base_ci L ! n) (Some k) then frame_objname L n (int k - int (cs_base L)) else Ok None
                    | None \<Rightarrow> Ok None) (\<lambda>r.
           case r of
             Some (kind, name) \<Rightarrow>
               luaG_runerror L (''attempt to %s %s '' @ LUA_QL ''%s'' @ '' (a %s value)'')
                 [FStr (Some opn), FStr (Some kind), FStr (Some name), FStr (Some t)]
           | None \<Rightarrow> luaG_runerror L ''attempt to %s a %s value'' [FStr (Some opn), FStr (Some t)]))"

definition luaG_concaterror :: "call_state \<Rightarrow> operand \<Rightarrow> operand \<Rightarrow> lua_error symb" where
  "luaG_concaterror L p1 p2 = luaG_typeerror L (if ttisstring (fst p1) then p2 else p1) ''concatenate''"

definition luaG_aritherror :: "call_state \<Rightarrow> operand \<Rightarrow> operand \<Rightarrow> lua_error symb" where
  "luaG_aritherror L p1 p2 =
     luaG_typeerror L (if luaV_tonumber (fst p1) = None then p1 else p2) ''perform arithmetic on''"

definition luaG_ordererror :: "call_state \<Rightarrow> tvalue \<Rightarrow> tvalue \<Rightarrow> lua_error symb" where
  "luaG_ordererror L p1 p2 =
     (let t1 = luaT_typenames ! nat (ttype p1); t2 = luaT_typenames ! nat (ttype p2)
      in if t1 ! 2 = t2 ! 2 then luaG_runerror L ''attempt to compare two %s values'' [FStr (Some t1)]
         else luaG_runerror L ''attempt to compare %s with %s'' [FStr (Some t1), FStr (Some t2)])"

section \<open>Properties\<close>

lemma op_of_zero: "is_op 0 OP_MOVE" "GETARG_A 0 = 0" "GETARG_B 0 = 0"
  by code_simp+

text \<open>A variable that is found has a name, unless the names were loaded without one.\<close>

lemma getlocalname_loop_named:
  "\<forall>v \<in> set vs. varname v \<noteq> None \<Longrightarrow> getlocalname_loop vs n pc \<noteq> Some None"
  by (induction vs n pc rule: getlocalname_loop.induct) auto

text \<open>C33: In a function whose local variables all have names, and whose upvalues all have names or none has, the name of
an operand is found for every register and every position: the search ends and reads neither outside the
constants and the upvalue names nor through a null pointer. (The compiler makes such functions; loaded ones may
lack names.)\<close>

theorem getobjname_defined:
  assumes "pt_code p \<noteq> []" "pc \<le> sizecode p"
    and "pt_upvalues p = [] \<or> int (length (pt_upvalues p)) = pt_nups p \<and> None \<notin> set (pt_upvalues p)"
    and "\<forall>v \<in> set (pt_locvars p). varname v \<noteq> None"
  shows "\<exists>r. getobjname p pc stackpos = Ok r"
  using assms
proof (induction p pc stackpos rule: getobjname.induct)
  case (1 p pc stackpos)
  show ?case
  proof (cases "luaF_getlocalname p (stackpos + 1) pc")
    case (Some name)
    then show ?thesis
      using getlocalname_loop_named [OF 1(5), of "stackpos + 1" pc] by (cases name) (auto simp: getobjname.simps luaF_getlocalname_def)
  next
    case none: None
    have "symbexec p pc stackpos \<noteq> Undef" using symbexec_inside [OF 1(2,3)] .
    then obtain i where i: "symb_word (symbexec p pc stackpos) = Ok i"
      and cases: "i = 0 \<or> symbexec p pc stackpos = Ok i"
      by (cases "symbexec p pc stackpos") (auto simp: symb_word_def)
    have other: "is_op i OP_RETURN \<or> is_op i OP_MOVE \<or> (\<exists>q. i = instr p q \<and> instr_safe p q)"
      using cases symbexec_last_change op_of_zero(1) by blast
    have global: "\<exists>s. svalue_at (pt_k p) (GETARG_Bx i) = Ok s" if op: "is_op i OP_GETGLOBAL"
    proof -
      obtain q where "i = instr p q" "instr_safe p q" using other op by (auto simp: is_op_iff)
      with op have "GETARG_Bx i < sizek p" "ttisstring (pt_k p ! nat (GETARG_Bx i))"
        by (auto simp: instr_safe_def operands_safe_def is_op_iff Let_def)
      then show ?thesis by (cases "pt_k p ! nat (GETARG_Bx i)") (auto simp: svalue_at_def ttisstring_def)
    qed
    have field: "\<exists>s. kname p (GETARG_C i) = Ok s" if op: "is_op i OP_GETTABLE \<or> is_op i OP_SELF"
    proof -
      obtain q where "i = instr p q" "instr_safe p q" using other op by (auto simp: is_op_iff)
      with op have "rk_ok p (GETARG_C i)" by (auto simp: instr_safe_def operands_safe_def is_op_iff Let_def)
      then show ?thesis
        by (cases "pt_k p ! nat (INDEXK (GETARG_C i))") (auto simp: kname_def rk_ok_def)
    qed
    have upvalue: "\<exists>s. upvalue_name p (GETARG_B i) = Ok s" if op: "is_op i OP_GETUPVAL"
    proof -
      obtain q where "i = instr p q" "instr_safe p q" using other op by (auto simp: is_op_iff)
      with op have "GETARG_B i < pt_nups p" by (auto simp: instr_safe_def operands_safe_def is_op_iff Let_def)
      moreover have "pt_upvalues p ! nat (GETARG_B i) \<in> set (pt_upvalues p)" if "GETARG_B i < int (length (pt_upvalues p))"
        using that by (intro nth_mem) (simp add: nat_less_iff)
      ultimately show ?thesis using 1(4)
        by (cases "pt_upvalues p ! nat (GETARG_B i)") (auto simp: upvalue_name_def)
    qed
    have move: "\<exists>r. getobjname p pc (GETARG_B i) = Ok r"
      if "\<not> is_op i OP_GETGLOBAL" "is_op i OP_MOVE" "GETARG_B i < GETARG_A i"
      using 1(1) [OF none i that 1(2-5)] .
    show ?thesis
      using global field upvalue move by (subst getobjname.simps) (auto simp: none i)
  qed
qed

text \<open>A loaded function may have a local variable without a name, and the name of its register is then read through
\<open>NULL\<close>.\<close>

lemma getobjname_nameless:
  "getobjname (Proto [] [CREATE_ABC OP_RETURN 0 1 0] [] [] [\<lparr>varname = None, startpc = 0, endpc = 1\<rparr>] [] None 0 0 0 0 0 2) 0 0 = Undef"
  by (simp add: getobjname.simps luaF_getlocalname_def)

theorem getobjname_defined_witness: "\<exists>r. getobjname small_code 1 0 = Ok r"
  by (rule getobjname_defined) (simp_all add: small_code_def)

text \<open>What the levels of \<open>lua_getstack\<close> are: the functions from the running one down, and after each Lua function
one level for each of the tail calls it replaced.\<close>

fun call_levels :: "CallInfo list \<Rightarrow> nat \<Rightarrow> nat list" where
  "call_levels cis 0 = []"
| "call_levels cis (Suc n) =
     Suc n # (if isLua (cis ! Suc n) then replicate (nat (ci_tailcalls (cis ! Suc n))) 0 else []) @ call_levels cis n"

definition getstack_result :: "int \<times> nat \<Rightarrow> nat option" where
  "getstack_result r = (let (level', n) = r in if level' = 0 \<and> 0 < n then Some n else if level' < 0 then Some 0 else None)"

lemma getstack_loop_levels:
  assumes "0 \<le> level" "\<forall>ci \<in> set cis. 0 \<le> ci_tailcalls ci" "n < length cis"
  shows "getstack_result (getstack_loop cis n level) =
    (if nat level < length (call_levels cis n) then Some (call_levels cis n ! nat level) else None)"
  using assms
proof (induction n arbitrary: level)
  case 0
  then show ?case by (simp add: getstack_result_def)
next
  case (Suc n)
  define t where "t = (if isLua (cis ! Suc n) then ci_tailcalls (cis ! Suc n) else 0)"
  have t: "0 \<le> t" using Suc.prems(2,3) by (simp add: t_def)
  have lv: "call_levels cis (Suc n) = Suc n # replicate (nat t) 0 @ call_levels cis n" by (simp add: t_def)
  show ?case
  proof (cases "0 < level")
    case False
    with Suc.prems(1) show ?thesis by (simp add: getstack_result_def)
  next
    case True
    define m where "m = nat (level - 1)"
    have m: "nat level = Suc m" "int m = level - 1" using True by (simp_all add: m_def)
    have loop: "getstack_loop cis (Suc n) level = getstack_loop cis n (level - 1 - t)" using True by (simp add: t_def Let_def)
    show ?thesis
    proof (cases "level - 1 - t < 0")
      case neg: True
      then have "getstack_loop cis n (level - 1 - t) = (level - 1 - t, n)" by (cases n) simp_all
      moreover have "m < nat t" using neg m t by linarith
      ultimately show ?thesis using neg by (simp only: loop lv m) (simp add: getstack_result_def nth_append)
    next
      case False
      then have "nat (level - 1 - t) = m - nat t" "\<not> m < nat t" using m t by linarith+
      with Suc.IH [of "level - 1 - t"] False Suc.prems(2,3) show ?thesis
        by (simp only: loop lv m) (auto simp: nth_append)
    qed
  qed
qed

text \<open>\<open>lua_getstack\<close> enumerates the active functions: level 0 is the running function, each function is one level
followed by the levels of its lost tail calls, and beyond them there is none.\<close>

theorem getstack_levels:
  assumes "base_ci L \<noteq> []" "\<forall>ci \<in> set (base_ci L). 0 \<le> ci_tailcalls ci" "0 \<le> level"
  shows "lua_getstack L level =
    (let levels = call_levels (base_ci L) (length (base_ci L) - 1)
     in if nat level < length levels then Some (levels ! nat level) else None)"
  using getstack_loop_levels [OF assms(3,2), of "length (base_ci L) - 1"] assms(1)
  by (simp add: lua_getstack_def getstack_result_def Let_def)

definition three_calls :: call_state where
  "three_calls = (let ci = (\<lambda>f t. \<lparr>ci_fun = f, ci_func = 0, ci_base = 1, ci_top = 3, ci_savedpc = 1, ci_tailcalls = t\<rparr>)
     in \<lparr>base_ci = [ci NoFun 0, ci (LuaFun small_code 0) 1, ci (CFun 0) 0], cs_savedpc = 1, cs_top = 3, cs_base = 1\<rparr>)"

theorem getstack_levels_witness: "lua_getstack three_calls 2 = Some 0 \<and> lua_getstack three_calls 3 = None"
proof -
  have b: "base_ci three_calls \<noteq> []" "\<forall>ci \<in> set (base_ci three_calls). 0 \<le> ci_tailcalls ci"
    by (simp_all add: three_calls_def Let_def)
  have "call_levels (base_ci three_calls) (length (base_ci three_calls) - 1) = [2, 1, 0]" by code_simp
  with getstack_levels [OF b, of 2] getstack_levels [OF b, of 3] show ?thesis by simp
qed

text \<open>The names of the types are told apart by their third letter, which a string and a thread have in
common: the message of their comparison names one type only.\<close>

lemma ordererror_string_thread:
  assumes "addinfo L ''attempt to compare two string values'' = Ok msg"
  shows "luaG_ordererror L (TString s) (TThread a) = Ok (LUA_ERRRUN msg)"
proof -
  have "luaO_pushvfstring ''attempt to compare two %s values'' [FStr (Some ''string'')] = ''attempt to compare two string values''"
    by code_simp
  with assms show ?thesis by (simp add: luaG_ordererror_def luaG_runerror_def luaT_typenames_def Let_def)
qed

end
