(* ===== verification/LuaDump.thy ===== *)
theory LuaDump
  imports LuaChecker LuaStream
begin

text \<open>
  ldump.c and lundump.c: precompiled chunks. The machine is a little-endian one with a 32-bit \<open>int\<close> and a
  64-bit \<open>size_t\<close>, as in the rest of the development.

  The writer of the host is a function of its data and a block. A loader is a function of the input
  stream. Memory for the arrays is taken to be there: \<open>luaM_newvector\<close> fails only when \<open>malloc\<close> does.
\<close>

section \<open>Bytes\<close>

text \<open>A number in memory, the lowest byte first.\<close>

fun le_bytes :: "nat \<Rightarrow> int \<Rightarrow> string" where
  "le_bytes 0 v = []"
| "le_bytes (Suc n) v = char_of (v mod 256) # le_bytes n (v div 256)"

fun le_value :: "string \<Rightarrow> int" where
  "le_value [] = 0"
| "le_value (c # cs) = uchar c + 256 * le_value cs"

definition schar :: "int \<Rightarrow> int" where
  "schar v = (v + 128) mod 256 - 128"

section \<open>The header\<close>

abbreviation LUAC_HEADERSIZE :: nat where "LUAC_HEADERSIZE \<equiv> 12"

definition LUA_SIGNATURE :: string where
  "LUA_SIGNATURE = [CHR 0x1B, CHR 0x4C, CHR 0x75, CHR 0x61]"

text \<open>Version 0x51 and format 0; then the byte order, the sizes of \<open>int\<close>, \<open>size_t\<close>, \<open>Instruction\<close> and \<open>lua_Number\<close>,
and whether numbers are integral.\<close>

definition luaU_header :: string where
  "luaU_header = LUA_SIGNATURE @ [CHR 0x51, CHR 0x00, hd (le_bytes 4 1), CHR 0x04, CHR 0x08, CHR 0x04, CHR 0x08, CHR 0x00]"

section \<open>Saving (ldump)\<close>

record 'd DumpState =
  ds_data :: 'd
  ds_strip :: bool
  ds_status :: int

type_synonym 'd lua_Writer = "'d \<Rightarrow> string \<Rightarrow> 'd \<times> int"

definition DumpBlock :: "'d lua_Writer \<Rightarrow> string \<Rightarrow> 'd DumpState \<Rightarrow> 'd DumpState" where
  "DumpBlock w b D =
     (if ds_status D = 0 then (let (d, st) = w (ds_data D) b in D\<lparr>ds_data := d, ds_status := st\<rparr>) else D)"

definition DumpChar :: "'d lua_Writer \<Rightarrow> int \<Rightarrow> 'd DumpState \<Rightarrow> 'd DumpState" where
  "DumpChar w y D = DumpBlock w (le_bytes 1 y) D"

definition DumpInt :: "'d lua_Writer \<Rightarrow> int \<Rightarrow> 'd DumpState \<Rightarrow> 'd DumpState" where
  "DumpInt w x D = DumpBlock w (le_bytes 4 x) D"

definition DumpNumber :: "'d lua_Writer \<Rightarrow> lua_Number \<Rightarrow> 'd DumpState \<Rightarrow> 'd DumpState" where
  "DumpNumber w x D = DumpBlock w (le_bytes 8 (uint x)) D"

text \<open>The elements of a vector come as their bytes.\<close>

definition DumpVector :: "'d lua_Writer \<Rightarrow> string list \<Rightarrow> 'd DumpState \<Rightarrow> 'd DumpState" where
  "DumpVector w b D = DumpBlock w (concat b) (DumpInt w (int (length b)) D)"

definition DumpString :: "'d lua_Writer \<Rightarrow> string option \<Rightarrow> 'd DumpState \<Rightarrow> 'd DumpState" where
  "DumpString w s D =
     (case s of
        None \<Rightarrow> DumpBlock w (le_bytes 8 0) D
      | Some str \<Rightarrow> DumpBlock w (str @ [NUL]) (DumpBlock w (le_bytes 8 (int (length str) + 1)) D))"

definition DumpConstant :: "'d lua_Writer \<Rightarrow> 'd DumpState \<Rightarrow> tvalue \<Rightarrow> 'd DumpState" where
  "DumpConstant w D o' =
     (let D = DumpChar w (ttype o') D
      in case o' of
           TBoolean b \<Rightarrow> DumpChar w b D
         | TNumber n \<Rightarrow> DumpNumber w n D
         | TString s \<Rightarrow> DumpString w (Some s) D
         | _ \<Rightarrow> D)"

definition DumpLocVar :: "'d lua_Writer \<Rightarrow> 'd DumpState \<Rightarrow> LocVar \<Rightarrow> 'd DumpState" where
  "DumpLocVar w D v = DumpInt w (endpc v) (DumpInt w (startpc v) (DumpString w (varname v) D))"

definition DumpDebug :: "'d lua_Writer \<Rightarrow> Proto \<Rightarrow> 'd DumpState \<Rightarrow> 'd DumpState" where
  "DumpDebug w f D =
     (let lineinfo = (if ds_strip D then [] else pt_lineinfo f);
          D = DumpVector w (map (le_bytes 4) lineinfo) D;
          locvars = (if ds_strip D then [] else pt_locvars f);
          D = foldl (DumpLocVar w) (DumpInt w (int (length locvars)) D) locvars;
          upvalues = (if ds_strip D then [] else pt_upvalues f)
      in foldl (\<lambda>D s. DumpString w s D) (DumpInt w (int (length upvalues)) D) upvalues)"

fun DumpFunction :: "'d lua_Writer \<Rightarrow> Proto \<Rightarrow> string option \<Rightarrow> 'd DumpState \<Rightarrow> 'd DumpState" where
  "DumpFunction w (Proto k code ps lineinfo locvars upvals source linedefined lastlinedefined nups numparams is_vararg maxstacksize) p D =
     (let f = Proto k code ps lineinfo locvars upvals source linedefined lastlinedefined nups numparams is_vararg maxstacksize;
          D = DumpString w (if source = p \<or> ds_strip D then None else source) D;
          D = DumpInt w linedefined D;
          D = DumpInt w lastlinedefined D;
          D = DumpChar w nups D;
          D = DumpChar w numparams D;
          D = DumpChar w is_vararg D;
          D = DumpChar w maxstacksize D;
          D = DumpVector w (map (\<lambda>i. le_bytes 4 (uint i)) code) D;
          D = foldl (DumpConstant w) (DumpInt w (int (length k)) D) k;
          D = foldl (\<lambda>D g. DumpFunction w g source D) (DumpInt w (int (length ps)) D) ps
      in DumpDebug w f D)"

definition DumpHeader :: "'d lua_Writer \<Rightarrow> 'd DumpState \<Rightarrow> 'd DumpState" where
  "DumpHeader w D = DumpBlock w luaU_header D"

definition luaU_dump :: "Proto \<Rightarrow> 'd lua_Writer \<Rightarrow> 'd \<Rightarrow> bool \<Rightarrow> 'd \<times> int" where
  "luaU_dump f w data strip =
     (let D = DumpFunction w f None (DumpHeader w \<lparr>ds_data = data, ds_strip = strip, ds_status = 0\<rparr>)
      in (ds_data D, ds_status D))"

section \<open>Loading (lundump)\<close>

type_synonym 'a loader = "Zio \<Rightarrow> (Zio \<times> 'a) res"

definition bindL :: "'a loader \<Rightarrow> ('a \<Rightarrow> 'b loader) \<Rightarrow> 'b loader" where
  "bindL f g z = bindE (f z) (\<lambda>(z', x). g x z')"

definition returnL :: "'a \<Rightarrow> 'a loader" where
  "returnL x z = Inr (z, x)"

text \<open>\<open>error\<close> of lundump.c, with the name of the chunk.\<close>

definition load_error :: "string \<Rightarrow> string \<Rightarrow> 'a loader" where
  "load_error name why z =
     Inl (LUA_ERRSYNTAX (luaO_pushvfstring ''%s: %s in precompiled chunk'' [FStr (Some name), FStr (Some why)]))"

definition LoadBlock :: "string \<Rightarrow> nat \<Rightarrow> string loader" where
  "LoadBlock name size' z =
     bindE (luaZ_read z size') (\<lambda>(z', b, r). if r \<noteq> 0 then load_error name ''unexpected end'' z' else Inr (z', b))"

definition LoadChar :: "string \<Rightarrow> int loader" where
  "LoadChar name = bindL (LoadBlock name 1) (\<lambda>b. returnL (schar (le_value b)))"

definition LoadByte :: "string \<Rightarrow> int loader" where
  "LoadByte name = bindL (LoadChar name) (\<lambda>c. returnL (c mod 256))"

definition LoadInt :: "string \<Rightarrow> int loader" where
  "LoadInt name =
     bindL (LoadBlock name 4) (\<lambda>b.
       let x = int32 (le_value b) in if x < 0 then load_error name ''bad integer'' else returnL x)"

definition LoadNumber :: "string \<Rightarrow> lua_Number loader" where
  "LoadNumber name = bindL (LoadBlock name 8) (\<lambda>b. returnL (word_of_int (le_value b)))"

definition LoadString :: "string \<Rightarrow> string option loader" where
  "LoadString name =
     bindL (LoadBlock name 8) (\<lambda>b.
       let size' = nat (le_value b)
       in if size' = 0 then returnL None
          else bindL (LoadBlock name size') (\<lambda>s. returnL (Some (take (size' - 1) s))))"

text \<open>The elements of a vector, and a loop that loads elements.\<close>

fun chunks :: "nat \<Rightarrow> nat \<Rightarrow> string \<Rightarrow> string list" where
  "chunks n 0 b = []"
| "chunks n (Suc k) b = take n b # chunks n k (drop n b)"

definition LoadVector :: "string \<Rightarrow> nat \<Rightarrow> nat \<Rightarrow> string list loader" where
  "LoadVector name n size' = bindL (LoadBlock name (n * size')) (\<lambda>b. returnL (chunks size' n b))"

fun load_loop :: "nat \<Rightarrow> 'a loader \<Rightarrow> 'a list loader" where
  "load_loop 0 f = returnL []"
| "load_loop (Suc n) f = bindL f (\<lambda>x. bindL (load_loop n f) (\<lambda>xs. returnL (x # xs)))"

definition LoadCode :: "string \<Rightarrow> Instruction list loader" where
  "LoadCode name =
     bindL (LoadInt name) (\<lambda>n.
     bindL (LoadVector name (nat n) 4) (\<lambda>v. returnL (map (\<lambda>b. word_of_int (le_value b)) v)))"

text \<open>A string constant with no string is a null pointer, which the first use of the constant follows.\<close>

definition load_constant :: "string \<Rightarrow> tvalue loader" where
  "load_constant name =
     bindL (LoadChar name) (\<lambda>t.
       if t = 0 then returnL TNil
       else if t = 1 then bindL (LoadChar name) (\<lambda>b. returnL (TBoolean b))
       else if t = 3 then bindL (LoadNumber name) (\<lambda>n. returnL (TNumber n))
       else if t = 4 then bindL (LoadString name) (\<lambda>s. case s of Some str \<Rightarrow> returnL (TString str) | None \<Rightarrow> (\<lambda>z. Inl UNDEFINED))
       else load_error name ''bad constant'')"

text \<open>\<open>LoadConstants\<close>; \<open>fun\<close> loads a nested function.\<close>

definition LoadConstants :: "string \<Rightarrow> Proto loader \<Rightarrow> (tvalue list \<times> Proto list) loader" where
  "LoadConstants name lf =
     bindL (LoadInt name) (\<lambda>n.
     bindL (load_loop (nat n) (load_constant name)) (\<lambda>k.
     bindL (LoadInt name) (\<lambda>n.
     bindL (load_loop (nat n) lf) (\<lambda>ps. returnL (k, ps)))))"

definition load_locvar :: "string \<Rightarrow> LocVar loader" where
  "load_locvar name =
     bindL (LoadString name) (\<lambda>s.
     bindL (LoadInt name) (\<lambda>a.
     bindL (LoadInt name) (\<lambda>b. returnL \<lparr>varname = s, startpc = a, endpc = b\<rparr>)))"

definition LoadDebug :: "string \<Rightarrow> (int list \<times> LocVar list \<times> string option list) loader" where
  "LoadDebug name =
     bindL (LoadInt name) (\<lambda>n.
     bindL (LoadVector name (nat n) 4) (\<lambda>lines.
     bindL (LoadInt name) (\<lambda>n.
     bindL (load_loop (nat n) (load_locvar name)) (\<lambda>locvars.
     bindL (LoadInt name) (\<lambda>n.
     bindL (load_loop (nat n) (LoadString name)) (\<lambda>upvals.
       returnL (map (\<lambda>b. int32 (le_value b)) lines, locvars, upvals)))))))"

text \<open>\<open>LoadFunction\<close>: first what comes after the source, where \<open>lf\<close> loads a nested function; the depth of the functions
is bounded by the first argument.\<close>

definition load_body :: "string \<Rightarrow> Proto loader \<Rightarrow> string option \<Rightarrow> Proto loader" where
  "load_body name lf source =
     bindL (LoadInt name) (\<lambda>linedefined.
     bindL (LoadInt name) (\<lambda>lastlinedefined.
     bindL (LoadByte name) (\<lambda>nups.
     bindL (LoadByte name) (\<lambda>numparams.
     bindL (LoadByte name) (\<lambda>is_vararg.
     bindL (LoadByte name) (\<lambda>maxstacksize.
     bindL (LoadCode name) (\<lambda>code.
     bindL (LoadConstants name lf) (\<lambda>(k, ps).
     bindL (LoadDebug name) (\<lambda>(lineinfo, locvars, upvals).
       let f = Proto k code ps lineinfo locvars upvals source linedefined lastlinedefined nups numparams is_vararg maxstacksize
       in case luaG_checkcode f of
            Ok True \<Rightarrow> returnL f
          | Undef \<Rightarrow> (\<lambda>z. Inl UNDEFINED)
          | _ \<Rightarrow> load_error name ''bad code'')))))))))"

fun LoadFunction :: "nat \<Rightarrow> string \<Rightarrow> string option \<Rightarrow> Proto loader" where
  "LoadFunction 0 name p = (\<lambda>z. Inl NO_FUEL)"
| "LoadFunction (Suc n) name p =
     bindL (LoadString name) (\<lambda>s.
       let source = (case s of None \<Rightarrow> p | Some str \<Rightarrow> Some str)
       in load_body name (LoadFunction n name source) source)"

definition LoadHeader :: "string \<Rightarrow> unit loader" where
  "LoadHeader name =
     bindL (LoadBlock name LUAC_HEADERSIZE) (\<lambda>s. if s \<noteq> luaU_header then load_error name ''bad header'' else returnL ())"

definition chunk_name :: "string \<Rightarrow> string" where
  "chunk_name name =
     (case name of
        [] \<Rightarrow> name
      | c # cs \<Rightarrow> if c = CHR ''@'' \<or> c = CHR ''='' then cs
                  else if c = hd LUA_SIGNATURE then ''binary string'' else name)"

definition luaU_undump :: "string \<Rightarrow> Proto loader" where
  "luaU_undump name z =
     bindL (LoadHeader (chunk_name name))
       (\<lambda>_. LoadFunction (length (zio_rest z)) (chunk_name name) (Some ''=?'')) z"

section \<open>The bytes of a function\<close>

lemma length_le_bytes [simp]: "length (le_bytes n v) = n"
  by (induction n arbitrary: v) simp_all

lemma le_value_bytes: "le_value (le_bytes n v) = v mod 256 ^ n"
proof (induction n arbitrary: v)
  case (Suc n)
  have "v mod 256 + 256 * (v div 256 mod 256 ^ n) = v mod (256 * 256 ^ n)"
    using zmod_zmult2_eq [of "256 ^ n" v 256] by simp
  with Suc show ?case by (simp add: uchar_def)
qed simp

declare le_bytes.simps [simp del]

definition enc_string :: "string option \<Rightarrow> string" where
  "enc_string s = (case s of None \<Rightarrow> le_bytes 8 0 | Some str \<Rightarrow> le_bytes 8 (int (length str) + 1) @ str @ [NUL])"

definition enc_vector :: "string list \<Rightarrow> string" where
  "enc_vector v = le_bytes 4 (int (length v)) @ concat v"

definition enc_constant :: "tvalue \<Rightarrow> string" where
  "enc_constant v = le_bytes 1 (ttype v) @
     (case v of TBoolean b \<Rightarrow> le_bytes 1 b | TNumber n \<Rightarrow> le_bytes 8 (uint n) | TString s \<Rightarrow> enc_string (Some s) | _ \<Rightarrow> [])"

definition enc_locvar :: "LocVar \<Rightarrow> string" where
  "enc_locvar v = enc_string (varname v) @ le_bytes 4 (startpc v) @ le_bytes 4 (endpc v)"

definition enc_debug :: "int list \<Rightarrow> LocVar list \<Rightarrow> string option list \<Rightarrow> string" where
  "enc_debug lines vars ups = enc_vector (map (le_bytes 4) lines) @ enc_vector (map enc_locvar vars) @ enc_vector (map enc_string ups)"

fun enc_function :: "bool \<Rightarrow> Proto \<Rightarrow> string option \<Rightarrow> string" where
  "enc_function strip (Proto k code ps lineinfo locvars upvals source linedefined lastlinedefined nups numparams is_vararg maxstacksize) p =
     enc_string (if source = p \<or> strip then None else source)
     @ le_bytes 4 linedefined @ le_bytes 4 lastlinedefined
     @ le_bytes 1 nups @ le_bytes 1 numparams @ le_bytes 1 is_vararg @ le_bytes 1 maxstacksize
     @ enc_vector (map (\<lambda>i. le_bytes 4 (uint i)) code)
     @ enc_vector (map enc_constant k)
     @ enc_vector (map (\<lambda>g. enc_function strip g source) ps)
     @ enc_debug (if strip then [] else lineinfo) (if strip then [] else locvars) (if strip then [] else upvals)"

text \<open>The writer that keeps all the blocks.\<close>

definition append_writer :: "string lua_Writer" where
  "append_writer d b = (d @ b, 0)"

definition appends :: "(string DumpState \<Rightarrow> string DumpState) \<Rightarrow> string \<Rightarrow> bool" where
  "appends f b \<longleftrightarrow> (\<forall>D. ds_status D = 0 \<longrightarrow> f D = D\<lparr>ds_data := ds_data D @ b\<rparr>)"

lemma appendsD: "appends f b \<Longrightarrow> ds_status D = 0 \<Longrightarrow> f D = D\<lparr>ds_data := ds_data D @ b\<rparr>"
  by (simp add: appends_def)

lemma appends_block: "appends (DumpBlock append_writer b) b"
  by (simp add: appends_def DumpBlock_def append_writer_def)

lemma appends_foldl:
  assumes "\<And>x. x \<in> set xs \<Longrightarrow> appends (\<lambda>D. f D x) (e x)"
  shows "appends (\<lambda>D. foldl f D xs) (concat (map e xs))"
  using assms
proof (induction xs)
  case (Cons x xs)
  have "foldl f D (x # xs) = D\<lparr>ds_data := ds_data D @ concat (map e (x # xs))\<rparr>" if "ds_status D = 0" for D
    using appendsD [OF Cons.prems [of x], of D] appendsD [OF Cons.IH, of "f D x"] Cons.prems that by simp
  then show ?case by (simp add: appends_def)
qed (simp add: appends_def)

lemma appends_string: "appends (DumpString append_writer s) (enc_string s)"
  by (simp add: appends_def DumpString_def enc_string_def appendsD [OF appends_block] split: option.split)

lemma appends_constant: "appends (\<lambda>D. DumpConstant append_writer D v) (enc_constant v)"
  by (cases v) (simp_all add: appends_def DumpConstant_def enc_constant_def DumpChar_def DumpNumber_def
      appendsD [OF appends_block] appendsD [OF appends_string] Let_def)

lemma appends_locvar: "appends (\<lambda>D. DumpLocVar append_writer D v) (enc_locvar v)"
  by (simp add: appends_def DumpLocVar_def enc_locvar_def DumpInt_def appendsD [OF appends_block] appendsD [OF appends_string])

lemma appends_comp: "appends f a \<Longrightarrow> appends g b \<Longrightarrow> appends (\<lambda>D. g (f D)) (a @ b)"
  by (simp add: appends_def)

lemma appends_int: "appends (DumpInt append_writer n) (le_bytes 4 n)"
  by (simp add: appends_def DumpInt_def appendsD [OF appends_block])

lemma appends_char: "appends (DumpChar append_writer n) (le_bytes 1 n)"
  by (simp add: appends_def DumpChar_def appendsD [OF appends_block])

lemma appends_count_foldl:
  assumes "\<And>x. x \<in> set xs \<Longrightarrow> appends (\<lambda>D. f D x) (e x)"
  shows "appends (\<lambda>D. foldl f (DumpInt append_writer (int (length xs)) D) xs) (enc_vector (map e xs))"
  using appends_comp [OF appends_int appends_foldl [of xs f e], OF assms] by (simp add: enc_vector_def)

lemma appends_vector: "appends (DumpVector append_writer v) (enc_vector v)"
  by (simp add: appends_def DumpVector_def enc_vector_def DumpInt_def appendsD [OF appends_block])

lemma appends_debug:
  assumes "ds_strip D = strip" "ds_status D = 0"
  shows "DumpDebug append_writer f D = D\<lparr>ds_data := ds_data D @
    enc_debug (if strip then [] else pt_lineinfo f) (if strip then [] else pt_locvars f) (if strip then [] else pt_upvalues f)\<rparr>"
proof -
  note counted = appendsD [OF appends_count_foldl]
  define D1 where "D1 = DumpVector append_writer (map (le_bytes 4) (if strip then [] else pt_lineinfo f)) D"
  define D2 where "D2 = foldl (DumpLocVar append_writer) (DumpInt append_writer (int (length (if strip then [] else pt_locvars f))) D1)
    (if strip then [] else pt_locvars f)"
  define D3 where "D3 = foldl (\<lambda>D s. DumpString append_writer s D)
    (DumpInt append_writer (int (length (if strip then [] else pt_upvalues f))) D2) (if strip then [] else pt_upvalues f)"
  have 1: "D1 = D\<lparr>ds_data := ds_data D @ enc_vector (map (le_bytes 4) (if strip then [] else pt_lineinfo f))\<rparr>"
    unfolding D1_def by (rule appendsD [OF appends_vector assms(2)])
  have 2: "D2 = D1\<lparr>ds_data := ds_data D1 @ enc_vector (map enc_locvar (if strip then [] else pt_locvars f))\<rparr>"
    unfolding D2_def by (rule counted [OF appends_locvar]) (simp add: 1 assms(2))
  have 3: "D3 = D2\<lparr>ds_data := ds_data D2 @ enc_vector (map enc_string (if strip then [] else pt_upvalues f))\<rparr>"
    unfolding D3_def by (rule counted [OF appends_string]) (simp add: 1 2 assms(2))
  have st: "ds_strip D1 = strip" "ds_strip D2 = strip" by (simp_all add: 1 2 assms(1))
  have "DumpDebug append_writer f D = D3"
    unfolding DumpDebug_def Let_def assms(1) D1_def [symmetric] st D2_def [symmetric] D3_def [symmetric] by (rule refl)
  then show ?thesis by (simp add: 1 2 3 enc_debug_def)
qed

lemma appends_function:
  "ds_strip D = strip \<Longrightarrow> ds_status D = 0 \<Longrightarrow>
     DumpFunction append_writer f p D = D\<lparr>ds_data := ds_data D @ enc_function strip f p\<rparr>"
proof (induction strip f p arbitrary: D rule: enc_function.induct)
  case (1 strip k code ps lineinfo locvars upvals source linedefined lastlinedefined nups numparams is_vararg maxstacksize p)
  have inner: "foldl (\<lambda>D g. DumpFunction append_writer g source D) D xs
      = D\<lparr>ds_data := ds_data D @ concat (map (\<lambda>g. enc_function strip g source) xs)\<rparr>"
    if "set xs \<subseteq> set ps" "ds_strip D = strip" "ds_status D = 0" for xs D
    using that by (induction xs arbitrary: D) (simp_all add: "1.IH")
  note steps = appendsD [OF appends_string] appendsD [OF appends_int] appendsD [OF appends_char]
    appendsD [OF appends_vector] appendsD [OF appends_foldl [OF appends_constant]] inner [OF subset_refl] appends_debug
  show ?case using "1.prems"
    by (simp only: DumpFunction.simps Let_def) (simp add: steps enc_vector_def cong: if_cong)
qed

section \<open>Reading back\<close>

text \<open>
  A loader reads \<open>x\<close> from the bytes \<open>bs\<close>: it takes them from the front of any input, and reports an unexpected end
  when some of them are missing.
\<close>

definition reads :: "string \<Rightarrow> 'a loader \<Rightarrow> string \<Rightarrow> 'a \<Rightarrow> bool" where
  "reads name f bs x \<longleftrightarrow>
     (\<forall>z. zio_ok z \<longrightarrow>
        (\<forall>rest. zio_rest z = bs @ rest \<longrightarrow> (\<exists>z'. f z = Inr (z', x) \<and> zio_ok z' \<and> zio_rest z' = rest))
        \<and> (\<forall>m < length bs. zio_rest z = take m bs \<longrightarrow> f z = load_error name ''unexpected end'' z))"

lemma load_error_any: "load_error name why z = load_error name why z'"
  by (simp add: load_error_def)

lemma reads_return: "reads name (returnL x) [] x"
  by (simp add: reads_def returnL_def)

lemma reads_bind:
  assumes f: "reads name f bs x" and g: "reads name (g x) cs y"
  shows "reads name (bindL f g) (bs @ cs) y"
  unfolding reads_def
proof (intro allI impI conjI)
  fix z rest
  assume ok: "zio_ok z" and "zio_rest z = (bs @ cs) @ rest"
  then obtain z1 where 1: "f z = Inr (z1, x)" "zio_ok z1" "zio_rest z1 = cs @ rest"
    using f unfolding reads_def by (metis append.assoc)
  then obtain z2 where "g x z1 = Inr (z2, y)" "zio_ok z2" "zio_rest z2 = rest" using g unfolding reads_def by blast
  with 1 show "\<exists>z'. bindL f g z = Inr (z', y) \<and> zio_ok z' \<and> zio_rest z' = rest" by (simp add: bindL_def)
next
  fix z m
  assume ok: "zio_ok z" and m: "m < length (bs @ cs)" and z: "zio_rest z = take m (bs @ cs)"
  show "bindL f g z = load_error name ''unexpected end'' z"
  proof (cases "m < length bs")
    case True
    with z have "f z = load_error name ''unexpected end'' z" using f ok unfolding reads_def by simp
    then show ?thesis by (simp add: bindL_def load_error_def)
  next
    case False
    with z have "zio_rest z = bs @ take (m - length bs) cs" by simp
    then obtain z1 where 1: "f z = Inr (z1, x)" "zio_ok z1" "zio_rest z1 = take (m - length bs) cs"
      using f ok unfolding reads_def by blast
    moreover have "m - length bs < length cs" using m False by simp
    ultimately have "g x z1 = load_error name ''unexpected end'' z1" using g unfolding reads_def by blast
    with 1 show ?thesis by (simp add: bindL_def load_error_def)
  qed
qed

lemma reads_eq: "reads name f bs x \<Longrightarrow> bs = bs' \<Longrightarrow> x = x' \<Longrightarrow> reads name f bs' x'"
  by simp

lemma reads_block: "length bs = n \<Longrightarrow> reads name (LoadBlock name n) bs bs"
  unfolding reads_def
proof (intro allI impI conjI)
  fix z rest
  assume n: "length bs = n" and ok: "zio_ok z" and r: "zio_rest z = bs @ rest"
  from luaZ_read_spec [OF ok, of n] r n obtain z' where
    "luaZ_read z n = Inr (z', bs, 0)" "zio_ok z'" "zio_rest z' = rest" by auto
  then show "\<exists>z'. LoadBlock name n z = Inr (z', bs) \<and> zio_ok z' \<and> zio_rest z' = rest" by (simp add: LoadBlock_def)
next
  fix z m
  assume n: "length bs = n" and ok: "zio_ok z" and m: "m < length bs" and r: "zio_rest z = take m bs"
  from luaZ_read_spec [OF ok, of n] r n m obtain z' b where "luaZ_read z n = Inr (z', b, n - m)" by auto
  with n m show "LoadBlock name n z = load_error name ''unexpected end'' z" by (simp add: LoadBlock_def load_error_def)
qed

lemma reads_block_bind:
  "length b = n \<Longrightarrow> reads name (g b) cs y \<Longrightarrow> reads name (bindL (LoadBlock name n) g) (b @ cs) y"
  by (rule reads_bind [OF reads_block])

lemma reads_block_return:
  "length b = n \<Longrightarrow> h b = x \<Longrightarrow> reads name (bindL (LoadBlock name n) (\<lambda>b. returnL (h b))) b x"
  using reads_block_bind [of b n name "\<lambda>b. returnL (h b)" "[]" x] by (simp add: reads_return)

lemma reads_map: "reads name f bs x \<Longrightarrow> h x = y \<Longrightarrow> reads name (bindL f (\<lambda>x. returnL (h x))) bs y"
  using reads_bind [of name f bs x "\<lambda>x. returnL (h x)" "[]" y] by (simp add: reads_return)

lemma schar_mod: "schar (c mod 256) = schar c"
  by (simp add: schar_def mod_simps)

lemma reads_char:
  assumes "- 128 \<le> c" "c < 128"
  shows "reads name (LoadChar name) (le_bytes 1 c) c"
  unfolding LoadChar_def using assms
  by (intro reads_block_return) (simp_all add: le_value_bytes schar_mod, simp add: schar_def)

lemma reads_byte:
  assumes "0 \<le> c" "c < 256"
  shows "reads name (LoadByte name) (le_bytes 1 c) c"
proof -
  have "reads name (LoadChar name) (le_bytes 1 c) (schar c)"
    unfolding LoadChar_def by (intro reads_block_return) (simp_all add: le_value_bytes schar_mod)
  then show ?thesis unfolding LoadByte_def by (rule reads_map) (use assms in \<open>simp add: schar_def mod_simps\<close>)
qed

lemma reads_int:
  assumes "0 \<le> x" "x \<le> INT_MAX"
  shows "reads name (LoadInt name) (le_bytes 4 x) x"
proof -
  have "int32 (le_value (le_bytes 4 x)) = x"
    using assms by (simp add: le_value_bytes int32_id mod_pos_pos_trivial)
  then have "reads name (let x = int32 (le_value (le_bytes 4 x)) in if x < 0 then load_error name ''bad integer'' else returnL x) [] x"
    using assms by (simp add: reads_return)
  then have "reads name (LoadInt name) (le_bytes 4 x @ []) x"
    unfolding LoadInt_def by (intro reads_block_bind) simp_all
  then show ?thesis by simp
qed

lemma reads_number: "reads name (LoadNumber name) (le_bytes 8 (uint n)) n"
proof -
  have "uint n mod 18446744073709551616 = uint n"
    using uint_bounded [of n] by (simp add: mod_pos_pos_trivial)
  then show ?thesis unfolding LoadNumber_def by (intro reads_block_return) (simp_all add: le_value_bytes)
qed

definition string_fits :: "string option \<Rightarrow> bool" where
  "string_fits s = (case s of None \<Rightarrow> True | Some str \<Rightarrow> int (length str) + 1 < 18446744073709551616)"

lemma reads_string:
  assumes "string_fits s"
  shows "reads name (LoadString name) (enc_string s) s"
proof (cases s)
  case None
  have "reads name (LoadString name) (le_bytes 8 0 @ []) None"
    unfolding LoadString_def by (intro reads_block_bind) (simp_all add: le_value_bytes reads_return)
  then show ?thesis by (simp add: None enc_string_def)
next
  case (Some str)
  let ?b = "le_bytes 8 (int (length str) + 1)"
  have n: "nat (le_value ?b) = Suc (length str)" using assms Some by (simp add: le_value_bytes string_fits_def mod_pos_pos_trivial)
  have "reads name (bindL (LoadBlock name (Suc (length str))) (\<lambda>s. returnL (Some (take (Suc (length str) - 1) s)))) (str @ [NUL]) (Some str)"
    by (rule reads_block_return) simp_all
  then have "reads name (LoadString name) (?b @ str @ [NUL]) (Some str)"
    unfolding LoadString_def by (intro reads_block_bind) (simp_all add: n)
  then show ?thesis by (simp add: enc_string_def Some)
qed

lemma reads_loop:
  assumes "\<And>x. x \<in> set xs \<Longrightarrow> reads name f (e x) (h x)"
  shows "reads name (load_loop (length xs) f) (concat (map e xs)) (map h xs)"
  using assms
proof (induction xs)
  case (Cons x xs)
  then have "reads name (bindL (load_loop (length xs) f) (\<lambda>ys. returnL (h x # ys))) (concat (map e xs)) (map h (x # xs))"
    by (intro reads_map) simp_all
  with Cons.prems have "reads name (bindL f (\<lambda>x. bindL (load_loop (length xs) f) (\<lambda>ys. returnL (x # ys))))
      (e x @ concat (map e xs)) (map h (x # xs))"
    by (intro reads_bind) simp_all
  then show ?case by simp
qed (simp add: reads_return)

lemma chunks_concat: "(\<And>b. b \<in> set v \<Longrightarrow> length b = n) \<Longrightarrow> chunks n (length v) (concat v) = v"
  by (induction v) simp_all

lemma reads_vector:
  assumes "\<And>b. b \<in> set v \<Longrightarrow> length b = n"
  shows "reads name (LoadVector name (length v) n) (concat v) v"
proof -
  have "length (concat v) = length v * n" using assms by (induction v) simp_all
  then show ?thesis unfolding LoadVector_def using chunks_concat [OF assms] by (intro reads_block_return) simp_all
qed

abbreviation int_length :: "'a list \<Rightarrow> bool" where "int_length xs \<equiv> int (length xs) \<le> INT_MAX"

lemma reads_code:
  assumes "int_length code"
  shows "reads name (LoadCode name) (enc_vector (map (\<lambda>i. le_bytes 4 (uint i)) code)) code"
proof -
  have v: "uint i mod 4294967296 = uint i" for i :: Instruction
    using uint_bounded [of i] by (simp add: mod_pos_pos_trivial)
  have len: "length (map (\<lambda>i. le_bytes 4 (uint i)) code) = length code" by simp
  have "reads name (LoadVector name (length code) 4) (concat (map (\<lambda>i. le_bytes 4 (uint i)) code)) (map (\<lambda>i. le_bytes 4 (uint i)) code)"
    using reads_vector [of "map (\<lambda>i. le_bytes 4 (uint i)) code" 4 name, unfolded len] by fastforce
  moreover have "map (\<lambda>b. word_of_int (le_value b)) (map (\<lambda>i. le_bytes 4 (uint i)) code) = code"
    by (simp add: le_value_bytes v comp_def)
  ultimately have "reads name (bindL (LoadVector name (nat (int (length code))) 4) (\<lambda>v. returnL (map (\<lambda>b. word_of_int (le_value b)) v)))
      (concat (map (\<lambda>i. le_bytes 4 (uint i)) code)) code"
    unfolding nat_int by (rule reads_map)
  then show ?thesis unfolding LoadCode_def enc_vector_def len by (intro reads_bind [OF reads_int]) (use assms in simp_all)
qed

lemma reads_count_map:
  assumes "int_length xs" "\<And>x. x \<in> set xs \<Longrightarrow> reads name f (e x) (h x)" "reads name (g (map h xs)) bs y"
  shows "reads name (bindL (LoadInt name) (\<lambda>n. bindL (load_loop (nat n) f) g)) (enc_vector (map e xs) @ bs) y"
proof -
  have "reads name (bindL (load_loop (nat (int (length xs))) f) g) (concat (map e xs) @ bs) y"
    unfolding nat_int by (rule reads_bind [OF reads_loop]) (use assms(2,3) in simp_all)
  then show ?thesis unfolding enc_vector_def append_assoc length_map
    by (intro reads_bind [OF reads_int]) (use assms(1) in simp_all)
qed

lemma reads_count_loop:
  assumes "int_length xs" "\<And>x. x \<in> set xs \<Longrightarrow> reads name f (e x) x" "reads name (g xs) bs y"
  shows "reads name (bindL (LoadInt name) (\<lambda>n. bindL (load_loop (nat n) f) g)) (enc_vector (map e xs) @ bs) y"
  by (rule reads_count_map [where h = "\<lambda>x. x"]) (use assms in simp_all)

definition constant_fits :: "tvalue \<Rightarrow> bool" where
  "constant_fits v =
     (case v of TNil \<Rightarrow> True | TBoolean b \<Rightarrow> - 128 \<le> b \<and> b < 128 | TNumber n \<Rightarrow> True
      | TString s \<Rightarrow> string_fits (Some s) | _ \<Rightarrow> False)"

lemma reads_constant:
  assumes "constant_fits v"
  shows "reads name (load_constant name) (enc_constant v) v"
proof -
  have t: "reads name (LoadChar name) (le_bytes 1 (ttype v)) (ttype v)" by (rule reads_char) (cases v; simp)+
  have b: "reads name (bindL (LoadChar name) (\<lambda>b. returnL (TBoolean b))) (le_bytes 1 b) v" if "v = TBoolean b" for b
    by (rule reads_map [OF reads_char]) (use that assms in \<open>simp_all add: constant_fits_def\<close>)
  have str: "reads name (bindL (LoadString name) (\<lambda>s. case s of Some str \<Rightarrow> returnL (TString str) | None \<Rightarrow> (\<lambda>z. Inl UNDEFINED)))
      (enc_string (Some s) @ []) v" if "v = TString s" for s
    by (rule reads_bind [OF reads_string]) (use that assms in \<open>simp_all add: constant_fits_def reads_return\<close>)
  show ?thesis
    unfolding load_constant_def enc_constant_def
    by (rule reads_bind [OF t])
       (use assms b str in \<open>cases v; simp add: constant_fits_def reads_return reads_map [OF reads_number]\<close>)
qed

definition locvar_fits :: "LocVar \<Rightarrow> bool" where
  "locvar_fits v \<longleftrightarrow> string_fits (varname v) \<and> 0 \<le> startpc v \<and> startpc v \<le> INT_MAX \<and> 0 \<le> endpc v \<and> endpc v \<le> INT_MAX"

lemma reads_locvar:
  assumes "locvar_fits v"
  shows "reads name (load_locvar name) (enc_locvar v) v"
proof -
  have e: "enc_locvar v = enc_string (varname v) @ le_bytes 4 (startpc v) @ le_bytes 4 (endpc v) @ []"
    by (simp add: enc_locvar_def)
  show ?thesis unfolding load_locvar_def e
    by (intro reads_bind [OF reads_string] reads_bind [OF reads_int] reads_eq [OF reads_return])
       (use assms in \<open>simp_all add: locvar_fits_def\<close>)
qed

definition debug_fits :: "int list \<Rightarrow> LocVar list \<Rightarrow> string option list \<Rightarrow> bool" where
  "debug_fits lines vars ups \<longleftrightarrow>
     int_length lines \<and> int_length vars \<and> int_length ups
     \<and> list_all (\<lambda>l. INT_MIN \<le> l \<and> l \<le> INT_MAX) lines \<and> list_all locvar_fits vars \<and> list_all string_fits ups"

lemma int32_mod: "int32 (n mod 4294967296) = int32 n"
  by (simp add: int32_def mod_simps)

lemma reads_debug:
  assumes "debug_fits lines vars ups"
  shows "reads name (LoadDebug name) (enc_debug lines vars ups) (lines, vars, ups)"
proof -
  let ?v = "map (le_bytes 4) lines"
  have len: "length ?v = length lines" by simp
  have lines: "map (\<lambda>b. int32 (le_value b)) ?v = lines"
    using assms by (auto simp: debug_fits_def list_all_iff le_value_bytes int32_mod int32_id intro!: map_idI)
  have vec: "reads name (LoadVector name (nat (int (length lines))) 4) (concat ?v) ?v"
    using reads_vector [of ?v 4 name, unfolded len] by fastforce
  have ups: "reads name (bindL (LoadInt name) (\<lambda>n. bindL (load_loop (nat n) (LoadString name)) (\<lambda>upvals.
       returnL (map (\<lambda>b. int32 (le_value b)) ?v, vars, upvals)))) (enc_vector (map enc_string ups) @ []) (lines, vars, ups)"
    by (rule reads_count_loop) (use assms lines in \<open>auto simp: debug_fits_def list_all_iff reads_string reads_return\<close>)
  have vars: "reads name (bindL (LoadInt name) (\<lambda>n. bindL (load_loop (nat n) (load_locvar name)) (\<lambda>locvars.
       bindL (LoadInt name) (\<lambda>n. bindL (load_loop (nat n) (LoadString name)) (\<lambda>upvals.
       returnL (map (\<lambda>b. int32 (le_value b)) ?v, locvars, upvals))))))
       (enc_vector (map enc_locvar vars) @ enc_vector (map enc_string ups) @ []) (lines, vars, ups)"
    by (rule reads_count_loop) (use assms ups in \<open>auto simp: debug_fits_def list_all_iff reads_locvar\<close>)
  have e: "enc_debug lines vars ups = le_bytes 4 (int (length lines)) @ concat ?v @ enc_vector (map enc_locvar vars)
      @ enc_vector (map enc_string ups) @ []"
    by (simp add: enc_debug_def enc_vector_def)
  show ?thesis unfolding LoadDebug_def e
    by (intro reads_bind [OF reads_int] reads_bind [OF vec] vars) (use assms in \<open>simp_all add: debug_fits_def\<close>)
qed

text \<open>What is left of a function when its debug information is stripped: the source of all functions becomes \<open>=?\<close>.\<close>

fun stripped :: "bool \<Rightarrow> Proto \<Rightarrow> Proto" where
  "stripped strip (Proto k code ps lineinfo locvars upvals source linedefined lastlinedefined nups numparams is_vararg maxstacksize) =
     Proto k code (map (stripped strip) ps) (if strip then [] else lineinfo) (if strip then [] else locvars) (if strip then [] else upvals)
       (if strip then Some ''=?'' else source) linedefined lastlinedefined nups numparams is_vararg maxstacksize"

text \<open>The functions that can be saved: the numbers fit the bytes they are saved in, the constants are of the four types
that are saved, every function has a source, and what is saved passes the checker.\<close>

fun dump_ok :: "bool \<Rightarrow> Proto \<Rightarrow> bool" where
  "dump_ok strip (Proto k code ps lineinfo locvars upvals source linedefined lastlinedefined nups numparams is_vararg maxstacksize) \<longleftrightarrow>
     luaG_checkcode (stripped strip
       (Proto k code ps lineinfo locvars upvals source linedefined lastlinedefined nups numparams is_vararg maxstacksize)) = Ok True
     \<and> int_length k \<and> list_all constant_fits k \<and> int_length code \<and> int_length ps \<and> list_all (dump_ok strip) ps
     \<and> (strip \<or> debug_fits lineinfo locvars upvals) \<and> string_fits source \<and> source \<noteq> None
     \<and> 0 \<le> linedefined \<and> linedefined \<le> INT_MAX \<and> 0 \<le> lastlinedefined \<and> lastlinedefined \<le> INT_MAX
     \<and> 0 \<le> nups \<and> nups < 256 \<and> 0 \<le> numparams \<and> numparams < 256 \<and> 0 \<le> is_vararg \<and> is_vararg < 256
     \<and> 0 \<le> maxstacksize \<and> maxstacksize < 256"

lemma concat_length_member: "x \<in> set xs \<Longrightarrow> length (e x) \<le> length (concat (map e xs))"
  by (induction xs) auto

lemma reads_function:
  assumes "dump_ok strip f" "if strip then p = Some ''=?'' else q \<noteq> None \<longrightarrow> p = q" "length (enc_function strip f q) \<le> n"
  shows "reads name (LoadFunction n name p) (enc_function strip f q) (stripped strip f)"
  using assms
proof (induction strip f q arbitrary: p n rule: enc_function.induct)
  case (1 strip k code ps lineinfo locvars upvals source linedefined lastlinedefined nups numparams is_vararg maxstacksize q)
  let ?src = "if source = q \<or> strip then None else source"
  let ?source = "if strip then Some ''=?'' else source"
  obtain m where n: "n = Suc m" using "1.prems"(3) by (cases n) (auto simp: enc_string_def le_bytes.simps split: option.splits if_splits)
  have ok: "string_fits ?src" "list_all (dump_ok strip) ps" "int_length ps" "int_length k" "list_all constant_fits k" "int_length code"
    "debug_fits (if strip then [] else lineinfo) (if strip then [] else locvars) (if strip then [] else upvals)"
    using "1.prems"(1) by (auto simp: string_fits_def debug_fits_def)
  have source: "(case ?src of None \<Rightarrow> p | Some str \<Rightarrow> Some str) = ?source"
    using "1.prems"(1,2) by (auto split: option.split if_splits)
  have inner: "reads name (LoadFunction m name ?source) (enc_function strip g source) (stripped strip g)" if g: "g \<in> set ps" for g
  proof (rule "1.IH" [OF g])
    show "dump_ok strip g" using ok(2) g by (simp add: list_all_iff)
    show "if strip then ?source = Some ''=?'' else source \<noteq> None \<longrightarrow> ?source = source" by simp
    have "length (enc_function strip g source) \<le> length (concat (map (\<lambda>g. enc_function strip g source) ps))"
      by (rule concat_length_member [OF g])
    then show "length (enc_function strip g source) \<le> m" using "1.prems"(3) n by (simp add: enc_vector_def)
  qed
  let ?L = "if strip then [] else lineinfo" and ?V = "if strip then [] else locvars" and ?U = "if strip then [] else upvals"
  let ?F = "Proto k code (map (stripped strip) ps) ?L ?V ?U ?source linedefined lastlinedefined nups numparams is_vararg maxstacksize"
  have check: "luaG_checkcode ?F = Ok True" using "1.prems"(1) by simp
  have debug: "reads name (bindL (LoadDebug name) (\<lambda>(lineinfo, locvars, upvals).
       let f = Proto k code (map (stripped strip) ps) lineinfo locvars upvals ?source linedefined lastlinedefined nups numparams
         is_vararg maxstacksize
       in case luaG_checkcode f of Ok True \<Rightarrow> returnL f | Undef \<Rightarrow> (\<lambda>z. Inl UNDEFINED) | _ \<Rightarrow> load_error name ''bad code''))
     (enc_debug ?L ?V ?U @ []) ?F"
    by (rule reads_bind [OF reads_debug [OF ok(7)]]) (simp add: Let_def check reads_return)
  have protos: "reads name (bindL (LoadInt name) (\<lambda>n. bindL (load_loop (nat n) (LoadFunction m name ?source)) (\<lambda>ps. returnL (k, ps))))
      (enc_vector (map (\<lambda>g. enc_function strip g source) ps) @ []) (k, map (stripped strip) ps)"
    by (rule reads_count_map [where h = "stripped strip"]) (use ok(3) inner in \<open>simp_all add: reads_return\<close>)
  have consts_ps: "reads name (LoadConstants name (LoadFunction m name ?source))
      (enc_vector (map enc_constant k) @ enc_vector (map (\<lambda>g. enc_function strip g source) ps) @ []) (k, map (stripped strip) ps)"
    unfolding LoadConstants_def
    by (rule reads_count_loop) (use ok(4,5) protos in \<open>auto simp: list_all_iff reads_constant\<close>)
  let ?rest = "le_bytes 4 linedefined @ le_bytes 4 lastlinedefined @ le_bytes 1 nups @ le_bytes 1 numparams
      @ le_bytes 1 is_vararg @ le_bytes 1 maxstacksize @ enc_vector (map (\<lambda>i. le_bytes 4 (uint i)) code)
      @ (enc_vector (map enc_constant k) @ enc_vector (map (\<lambda>g. enc_function strip g source) ps) @ []) @ enc_debug ?L ?V ?U @ []"
  have "reads name (load_body name (LoadFunction m name ?source) ?source) ?rest ?F"
    unfolding load_body_def
    by (rule reads_bind [OF reads_int] reads_bind [OF reads_byte] reads_bind [OF reads_code] reads_bind [OF consts_ps]
        | use "1.prems"(1) debug in \<open>simp; fail\<close>)+
  then have "reads name (LoadFunction (Suc m) name p) (enc_string ?src @ ?rest) ?F"
    unfolding LoadFunction.simps by (intro reads_bind [OF reads_string [OF ok(1)]]) (simp only: source Let_def)
  then show ?case by (simp add: n)
qed

section \<open>Loading any input\<close>

text \<open>What a loader does with an input of less than \<open>k\<close> bytes: it does not run out of fuel, it does not put
bytes back, and its result has a property. Two loaders that agree on such inputs.\<close>

definition loads :: "nat \<Rightarrow> 'a loader \<Rightarrow> ('a \<Rightarrow> bool) \<Rightarrow> bool" where
  "loads k f P \<longleftrightarrow>
     (\<forall>z. zio_ok z \<and> length (zio_rest z) < k \<longrightarrow>
        (case f z of Inl e \<Rightarrow> e \<noteq> NO_FUEL
         | Inr (z', x) \<Rightarrow> zio_ok z' \<and> length (zio_rest z') \<le> length (zio_rest z) \<and> P x))"

definition takes_some :: "'a loader \<Rightarrow> bool" where
  "takes_some f \<longleftrightarrow> (\<forall>z z' x. zio_ok z \<and> f z = Inr (z', x) \<longrightarrow> length (zio_rest z') < length (zio_rest z))"

definition agree :: "nat \<Rightarrow> 'a loader \<Rightarrow> 'a loader \<Rightarrow> bool" where
  "agree k f g \<longleftrightarrow> (\<forall>z. zio_ok z \<and> length (zio_rest z) < k \<longrightarrow> f z = g z)"

lemma loadsD:
  assumes "loads k f P" "zio_ok z" "length (zio_rest z) < k"
  obtains (error) e where "f z = Inl e" "e \<noteq> NO_FUEL"
  | (result) z' x where "f z = Inr (z', x)" "zio_ok z'" "length (zio_rest z') \<le> length (zio_rest z)" "P x"
  using assms unfolding loads_def by (cases "f z") fastforce+

lemma loads_bind:
  assumes f: "loads k f P" and g: "\<And>x. P x \<Longrightarrow> loads k (g x) Q"
  shows "loads k (bindL f g) Q"
  unfolding loads_def
proof (intro allI impI)
  fix z
  assume z: "zio_ok z \<and> length (zio_rest z) < k"
  from f z [THEN conjunct1] z [THEN conjunct2] show "case bindL f g z of Inl e \<Rightarrow> e \<noteq> NO_FUEL
      | Inr (z', x) \<Rightarrow> zio_ok z' \<and> length (zio_rest z') \<le> length (zio_rest z) \<and> Q x"
  proof (cases rule: loadsD)
    case (result z1 x)
    have "length (zio_rest z1) < k" using result z by simp
    from g [OF result(4)] result(2) this show ?thesis by (cases rule: loadsD) (use result in \<open>auto simp: bindL_def\<close>)
  qed (use z in \<open>auto simp: bindL_def\<close>)
qed

lemma loads_bind_some:
  assumes f: "loads (Suc k) f P" and s: "takes_some f" and g: "\<And>x. P x \<Longrightarrow> loads k (g x) Q"
  shows "loads (Suc k) (bindL f g) Q"
  unfolding loads_def
proof (intro allI impI)
  fix z
  assume z: "zio_ok z \<and> length (zio_rest z) < Suc k"
  from f z [THEN conjunct1] z [THEN conjunct2] show "case bindL f g z of Inl e \<Rightarrow> e \<noteq> NO_FUEL
      | Inr (z', x) \<Rightarrow> zio_ok z' \<and> length (zio_rest z') \<le> length (zio_rest z) \<and> Q x"
  proof (cases rule: loadsD)
    case (result z1 x)
    have "length (zio_rest z1) < k" using result z s unfolding takes_some_def by fastforce
    from g [OF result(4)] result(2) this show ?thesis by (cases rule: loadsD) (use result in \<open>auto simp: bindL_def\<close>)
  qed (use z in \<open>auto simp: bindL_def\<close>)
qed

lemma loads_return: "P x \<Longrightarrow> loads k (returnL x) P"
  by (simp add: loads_def returnL_def)

lemma loads_error: "loads k (load_error name why) P"
  by (simp add: loads_def load_error_def)

lemma loads_block: "loads k (LoadBlock name n) (\<lambda>b. True)"
  unfolding loads_def
proof (intro allI impI)
  fix z
  assume "zio_ok z \<and> length (zio_rest z) < k"
  then obtain z' where "luaZ_read z n = Inr (z', take n (zio_rest z), n - length (zio_rest z))" "zio_ok z'" "zio_rest z' = drop n (zio_rest z)"
    using luaZ_read_spec [of z n] by blast
  then show "case LoadBlock name n z of Inl e \<Rightarrow> e \<noteq> NO_FUEL
      | Inr (z', x) \<Rightarrow> zio_ok z' \<and> length (zio_rest z') \<le> length (zio_rest z) \<and> True"
    by (simp add: LoadBlock_def load_error_def)
qed

lemma takes_block: "0 < n \<Longrightarrow> takes_some (LoadBlock name n)"
  unfolding takes_some_def
proof (intro allI impI)
  fix z z' x
  assume n: "0 < n" and z: "zio_ok z \<and> LoadBlock name n z = Inr (z', x)"
  then obtain z1 where r: "luaZ_read z n = Inr (z1, take n (zio_rest z), n - length (zio_rest z))" "zio_rest z1 = drop n (zio_rest z)"
    using luaZ_read_spec [of z n] by blast
  with z n show "length (zio_rest z') < length (zio_rest z)"
    by (auto simp: LoadBlock_def load_error_def split: if_splits)
qed

lemma loads_char: "loads k (LoadChar name) (\<lambda>c. True)"
  unfolding LoadChar_def by (intro loads_bind [OF loads_block] loads_return) simp

lemma loads_byte: "loads k (LoadByte name) (\<lambda>c. True)"
  unfolding LoadByte_def by (intro loads_bind [OF loads_char] loads_return) simp

lemma loads_int: "loads k (LoadInt name) (\<lambda>c. True)"
  unfolding LoadInt_def Let_def by (rule loads_bind [OF loads_block]) (simp add: loads_error loads_return)

lemma loads_number: "loads k (LoadNumber name) (\<lambda>c. True)"
  unfolding LoadNumber_def by (intro loads_bind [OF loads_block] loads_return) simp

lemma string_rest: "loads k (if n = 0 then returnL None else bindL (LoadBlock name n) (\<lambda>s. returnL (Some (take (n - 1) s)))) (\<lambda>c. True)"
  by (auto intro: loads_bind [OF loads_block] loads_return)

lemma loads_string: "loads k (LoadString name) (\<lambda>c. True)"
  unfolding LoadString_def Let_def by (rule loads_bind [OF loads_block]) (rule string_rest)

lemma takes_bind:
  assumes f: "takes_some f" "\<And>k. loads k f (\<lambda>x. True)" and g: "\<And>x k. loads k (g x) (\<lambda>x. True)"
  shows "takes_some (bindL f g)"
  unfolding takes_some_def
proof (intro allI impI)
  fix z z' x
  assume z: "zio_ok z \<and> bindL f g z = Inr (z', x)"
  then obtain z1 y where 1: "f z = Inr (z1, y)" "g y z1 = Inr (z', x)" by (auto simp: bindL_def bindE_Inr_iff)
  from f(2) [of "Suc (length (zio_rest z))"] z 1(1) have "zio_ok z1" by (auto simp: loads_def)
  with g [of "Suc (length (zio_rest z1))" y] 1(2) have "length (zio_rest z') \<le> length (zio_rest z1)" by (auto simp: loads_def)
  moreover have "length (zio_rest z1) < length (zio_rest z)" using f(1) z 1(1) unfolding takes_some_def by blast
  ultimately show "length (zio_rest z') < length (zio_rest z)" by simp
qed

lemma takes_string: "takes_some (LoadString name)"
  unfolding LoadString_def Let_def by (intro takes_bind takes_block loads_block string_rest) simp

lemma loads_loop: "loads k f P \<Longrightarrow> loads k (load_loop n f) (list_all P)"
proof (induction n)
  case (Suc n)
  then show ?case by (auto intro!: loads_bind loads_return)
qed (simp add: loads_return)

lemma loads_vector: "loads k (LoadVector name n m) (\<lambda>v. True)"
  unfolding LoadVector_def by (intro loads_bind [OF loads_block] loads_return) simp

lemma loads_code: "loads k (LoadCode name) (\<lambda>c. True)"
  unfolding LoadCode_def by (intro loads_bind [OF loads_int] loads_bind [OF loads_vector] loads_return) simp

lemma loads_constant: "loads k (load_constant name) (\<lambda>v. True)"
  unfolding load_constant_def
  by (rule loads_bind [OF loads_char])
     (auto intro!: loads_bind [OF loads_char] loads_bind [OF loads_number] loads_bind [OF loads_string] loads_return loads_error
       simp: loads_def [of _ "\<lambda>z. Inl UNDEFINED"] split: option.split)

lemma loads_constants: "loads k lf P \<Longrightarrow> loads k (LoadConstants name lf) (\<lambda>(c, ps). list_all P ps)"
  unfolding LoadConstants_def
  by (intro loads_bind [OF loads_int] loads_bind [OF loads_loop [OF loads_constant]] loads_bind [OF loads_loop [of k lf P]] loads_return) simp_all

lemma loads_locvar: "loads k (load_locvar name) (\<lambda>v. True)"
  unfolding load_locvar_def by (intro loads_bind [OF loads_string] loads_bind [OF loads_int] loads_return) simp

lemma loads_debug: "loads k (LoadDebug name) (\<lambda>v. True)"
  unfolding LoadDebug_def
  by (intro loads_bind [OF loads_int] loads_bind [OF loads_vector] loads_bind [OF loads_loop [OF loads_locvar]]
      loads_bind [OF loads_loop [OF loads_string]] loads_return) simp

text \<open>Every function in a function has passed the checker.\<close>

fun all_checked :: "Proto \<Rightarrow> bool" where
  "all_checked (Proto k code ps lineinfo locvars upvals source linedefined lastlinedefined nups numparams is_vararg maxstacksize) \<longleftrightarrow>
     luaG_checkcode (Proto k code ps lineinfo locvars upvals source linedefined lastlinedefined nups numparams is_vararg maxstacksize) = Ok True
     \<and> list_all all_checked ps"

lemma loads_body:
  assumes "loads k lf all_checked"
  shows "loads k (load_body name lf source) all_checked"
proof -
  have fin: "loads k (case luaG_checkcode f of Ok True \<Rightarrow> returnL f | Undef \<Rightarrow> (\<lambda>z. Inl UNDEFINED) | _ \<Rightarrow> load_error name ''bad code'') all_checked"
    if "f = Proto c code ps lineinfo locvars upvals source linedefined lastlinedefined nups numparams is_vararg maxstacksize" "list_all all_checked ps"
    for f c code ps lineinfo locvars upvals source linedefined lastlinedefined nups numparams is_vararg maxstacksize
    using that
    by (auto intro!: loads_return loads_error simp: loads_def [of _ "\<lambda>z. Inl UNDEFINED"] split: symb.split bool.split)
  show ?thesis
    unfolding load_body_def Let_def
    by (rule loads_bind [OF loads_int] loads_bind [OF loads_byte] loads_bind [OF loads_code] loads_bind [OF loads_constants [OF assms]]
        loads_bind [OF loads_debug] | clarsimp; rule loads_bind [OF loads_debug] | clarsimp; rule fin [OF refl]; simp)+
qed

lemma loads_function: "loads k (LoadFunction k name p) all_checked"
proof (induction k arbitrary: p)
  case 0
  show ?case by (simp add: loads_def)
next
  case (Suc k)
  show ?case unfolding LoadFunction.simps Let_def
    by (rule loads_bind_some [OF loads_string takes_string]) (rule loads_body [OF Suc])
qed

lemma loads_header: "loads k (LoadHeader name) (\<lambda>u. True)"
  unfolding LoadHeader_def by (rule loads_bind [OF loads_block]) (simp add: loads_error loads_return)

lemma takes_header: "takes_some (LoadHeader name)"
  unfolding LoadHeader_def by (intro takes_bind takes_block loads_block) (simp_all add: loads_error loads_return)

text \<open>The fuel does not matter as long as it is not less than the input.\<close>

lemma agree_refl: "agree k f f"
  by (simp add: agree_def)

lemma agreeD: "agree k f g \<Longrightarrow> zio_ok z \<Longrightarrow> length (zio_rest z) < k \<Longrightarrow> f z = g z"
  by (simp add: agree_def)

lemma agree_bind:
  assumes "agree k f f'" "loads k f P" "\<And>x. agree k (g x) (g' x)"
  shows "agree k (bindL f g) (bindL f' g')"
  unfolding agree_def
proof (intro allI impI)
  fix z
  assume z: "zio_ok z \<and> length (zio_rest z) < k"
  have "f z = f' z" using assms(1) z unfolding agree_def by blast
  from assms(2) z [THEN conjunct1] z [THEN conjunct2] show "bindL f g z = bindL f' g' z"
  proof (cases rule: loadsD)
    case (result z1 x)
    then have "g x z1 = g' x z1" using assms(3) [of x] z unfolding agree_def by auto
    with result \<open>f z = f' z\<close> show ?thesis by (simp add: bindL_def)
  qed (simp add: bindL_def flip: \<open>f z = f' z\<close>)
qed

lemma agree_bind_some:
  assumes "takes_some f" "loads (Suc k) f P" "\<And>x. agree k (g x) (g' x)"
  shows "agree (Suc k) (bindL f g) (bindL f g')"
  unfolding agree_def
proof (intro allI impI)
  fix z
  assume z: "zio_ok z \<and> length (zio_rest z) < Suc k"
  from assms(2) z [THEN conjunct1] z [THEN conjunct2] show "bindL f g z = bindL f g' z"
  proof (cases rule: loadsD)
    case (result z1 x)
    then have "length (zio_rest z1) < k" using z assms(1) unfolding takes_some_def by fastforce
    then have "g x z1 = g' x z1" using assms(3) [of x] result unfolding agree_def by blast
    with result show ?thesis by (simp add: bindL_def)
  qed (simp add: bindL_def)
qed

lemma agree_loop: "agree k f g \<Longrightarrow> loads k f P \<Longrightarrow> agree k (load_loop n f) (load_loop n g)"
proof (induction n)
  case (Suc n)
  show ?case unfolding load_loop.simps
    by (rule agree_bind [OF Suc.prems]) (rule agree_bind [OF Suc.IH [OF Suc.prems] loads_loop [OF Suc.prems(2)] agree_refl])
qed (simp add: agree_refl)

lemma agree_body:
  assumes "agree k f g" "loads k f all_checked"
  shows "agree k (load_body name f source) (load_body name g source)"
proof -
  have "agree k (LoadConstants name f) (LoadConstants name g)"
    unfolding LoadConstants_def
    by (intro agree_bind [OF agree_refl loads_int] agree_bind [OF agree_refl loads_loop [OF loads_constant]]
        agree_bind [OF agree_loop [OF assms] loads_loop [OF assms(2)]] agree_refl)
  from agree_bind [OF this loads_constants [OF assms(2)] agree_refl] show ?thesis
    unfolding load_body_def
    by (intro agree_bind [OF agree_refl loads_int] agree_bind [OF agree_refl loads_byte] agree_bind [OF agree_refl loads_code])
qed

lemma agree_function: "n \<le> m \<Longrightarrow> agree n (LoadFunction n name p) (LoadFunction m name p)"
proof (induction n arbitrary: m p)
  case 0
  show ?case by (simp add: agree_def)
next
  case (Suc n)
  then obtain m' where m: "m = Suc m'" "n \<le> m'" by (cases m) simp_all
  show ?case unfolding m LoadFunction.simps Let_def
    by (rule agree_bind_some [OF takes_string loads_string]) (rule agree_body [OF Suc.IH [OF m(2)] loads_function])
qed

section \<open>Properties\<close>

lemma reads_header: "reads name (LoadHeader name) luaU_header ()"
proof -
  have "reads name (LoadHeader name) (luaU_header @ []) ()"
    unfolding LoadHeader_def by (rule reads_block_bind) (simp_all add: reads_return luaU_header_def LUA_SIGNATURE_def)
  then show ?thesis by simp
qed

lemma dump_bytes: "luaU_dump f append_writer [] strip = (luaU_header @ enc_function strip f None, 0)"
  by (simp add: luaU_dump_def DumpHeader_def appendsD [OF appends_block] appends_function Let_def)

lemma reads_chunk:
  assumes "dump_ok strip f" "length (enc_function strip f None) \<le> n"
  shows "reads name (bindL (LoadHeader name) (\<lambda>u. LoadFunction n name (Some ''=?'')))
    (luaU_header @ enc_function strip f None) (stripped strip f)"
  by (rule reads_bind [OF reads_header]) (rule reads_function; use assms in simp)

text \<open>C17: A function that is saved, with or without its debug information, is loaded back as it was, whatever
blocks the reader delivers it in.\<close>

theorem undump_dump:
  assumes "dump_ok strip f" "zio_ok z" "zio_rest z = fst (luaU_dump f append_writer [] strip) @ rest"
  shows "snd (luaU_dump f append_writer [] strip) = 0
    \<and> (\<exists>z'. luaU_undump name z = Inr (z', stripped strip f) \<and> zio_rest z' = rest)"
proof -
  have z: "zio_rest z = (luaU_header @ enc_function strip f None) @ rest" using assms(3) by (simp add: dump_bytes)
  then have "length (enc_function strip f None) \<le> length (zio_rest z)" by simp
  from reads_chunk [OF assms(1) this, of "chunk_name name"] assms(2) z
  have "\<exists>z'. luaU_undump name z = Inr (z', stripped strip f) \<and> zio_ok z' \<and> zio_rest z' = rest"
    unfolding reads_def luaU_undump_def by blast
  then show ?thesis by (auto simp: dump_bytes)
qed

text \<open>C31: A saved function that is cut short, at any byte, is refused as an unexpected end.\<close>

theorem undump_truncated:
  assumes "dump_ok strip f" "zio_ok z" "zio_rest z = take m (fst (luaU_dump f append_writer [] strip))"
    and "m < length (fst (luaU_dump f append_writer [] strip))"
  shows "luaU_undump name z = load_error (chunk_name name) ''unexpected end'' z"
proof -
  let ?bs = "luaU_header @ enc_function strip f None" and ?n = "chunk_name name"
  have z: "zio_rest z = take m ?bs" "m < length ?bs" using assms(3,4) by (simp_all add: dump_bytes)
  have same: "agree (Suc m) (bindL (LoadHeader ?n) (\<lambda>u. LoadFunction m ?n (Some ''=?'')))
      (bindL (LoadHeader ?n) (\<lambda>u. LoadFunction (length ?bs) ?n (Some ''=?'')))"
    by (rule agree_bind_some [OF takes_header loads_header]) (rule agree_function; use z in simp)
  have len: "length (zio_rest z) = m" using z by simp
  have "luaU_undump name z = bindL (LoadHeader ?n) (\<lambda>u. LoadFunction (length ?bs) ?n (Some ''=?'')) z"
    unfolding luaU_undump_def len by (rule agreeD [OF same assms(2)]) (simp add: len)
  moreover have "length (enc_function strip f None) \<le> length ?bs" by simp
  ultimately show ?thesis using reads_chunk [OF assms(1), of "length ?bs" ?n] assms(2) z unfolding reads_def by simp
qed

text \<open>C20: Loading ends on every input, and every function it returns, and every function in it, has passed
the checker.\<close>

theorem undump_checked:
  assumes "zio_ok z"
  shows "case luaU_undump name z of Inl e \<Rightarrow> e \<noteq> NO_FUEL | Inr (z', f) \<Rightarrow> all_checked f"
proof -
  have "loads (Suc (length (zio_rest z))) (bindL (LoadHeader (chunk_name name))
      (\<lambda>_. LoadFunction (length (zio_rest z)) (chunk_name name) (Some ''=?''))) all_checked"
    by (rule loads_bind_some [OF loads_header takes_header loads_function])
  with assms show ?thesis unfolding luaU_undump_def loads_def by (auto split: sum.splits)
qed

lemma stripped_False: "stripped False f = f"
  by (induction f) (simp add: map_idI)

definition sample_chunk :: Proto where
  "sample_chunk = Proto [TString ''print'', TNumber 1, TBoolean 1, TNil]
     [CREATE_ABx OP_GETGLOBAL 0 0, CREATE_ABC OP_CALL 0 1 1, CREATE_ABC OP_RETURN 0 1 0]
     [Proto [] [CREATE_ABC OP_RETURN 0 1 0] [] [4] [] [] (Some ''@a'') 3 5 0 0 0 2]
     [1, 2, 2] [\<lparr>varname = Some ''v'', startpc = 1, endpc = 2\<rparr>] [] (Some ''@a'') 0 0 0 0 2 2"

abbreviation sample_bytes :: string where
  "sample_bytes \<equiv> fst (luaU_dump sample_chunk append_writer [] False)"

lemma sample_dump_ok: "dump_ok False sample_chunk"
  by code_simp

lemma sample_length: "length sample_bytes = 180"
  by code_simp

theorem undump_dump_witness:
  "\<exists>z'. luaU_undump ''@b'' (luaZ_init [take 100 sample_bytes, drop 100 sample_bytes]) = Inr (z', sample_chunk)"
proof -
  have "zio_ok (luaZ_init [take 100 sample_bytes, drop 100 sample_bytes])"
    and "zio_rest (luaZ_init [take 100 sample_bytes, drop 100 sample_bytes]) = sample_bytes @ []"
    using sample_length by (auto simp: zio_ok_def zio_rest_def luaZ_init_def)
  from undump_dump [OF sample_dump_ok this, of "''@b''"] show ?thesis by (auto simp: stripped_False)
qed

theorem undump_truncated_witness:
  "\<exists>e. luaU_undump ''@b'' (luaZ_init [take 150 sample_bytes]) = Inl (LUA_ERRSYNTAX e)"
proof -
  have "zio_ok (luaZ_init [take 150 sample_bytes])" "zio_rest (luaZ_init [take 150 sample_bytes]) = take 150 sample_bytes"
    and "150 < length sample_bytes"
    using sample_length by (auto simp: zio_ok_def zio_rest_def luaZ_init_def)
  from undump_truncated [OF sample_dump_ok this, of "''@b''"] show ?thesis by (auto simp: load_error_def)
qed

theorem undump_checked_witness:
  "case luaU_undump ''@b'' (luaZ_init [take 150 sample_bytes]) of Inl e \<Rightarrow> e \<noteq> NO_FUEL | Inr (z', f) \<Rightarrow> all_checked f"
proof (rule undump_checked)
  show "zio_ok (luaZ_init [take 150 sample_bytes])"
    using sample_length by (auto simp: zio_ok_def luaZ_init_def)
qed

end
