(* ===== verification/LuaCode.thy ===== *)
theory LuaCode
  imports LuaChecker LuaLex
begin

text \<open>
  lcode.c: the code generator. The parser describes an expression that is not yet in a register by an
  \<open>expdesc\<close>; its jumps for short-circuit evaluation are linked through the instructions themselves, each
  jump of a list holding the offset of the next one until the target is known.

  The state of a function has the first \<open>pc\<close> instructions of its code, so \<open>pc\<close> is the length of \<open>code\<close>, and the
  constants in use. The lexical state has the table \<open>h\<close> that finds a constant again. The functions return the new
  state and the new descriptor. The lists are walked with a bound on the number of steps, which is the number of
  instructions. \<open>pow\<close> of the C library is a parameter. Barriers of the collector are left out.
\<close>

section \<open>State\<close>

abbreviation (input) NO_JUMP :: int where "NO_JUMP \<equiv> - 1"

datatype expkind =
    VVOID | VNIL | VTRUE | VFALSE | VK | VKNUM | VLOCAL | VUPVAL | VGLOBAL | VINDEXED | VJMP | VRELOCABLE
  | VNONRELOC | VCALL | VVARARG

text \<open>\<open>info\<close>, \<open>aux\<close> and \<open>nval\<close> are a union in the source; \<open>nval\<close> is in use for \<open>VKNUM\<close> only.\<close>

record expdesc =
  ek :: expkind
  info :: int
  aux :: int
  nval :: lua_Number
  jt :: int
  jf :: int

record FuncState =
  fs_code :: "Instruction list"
  fs_lineinfo :: "int list"
  fs_k :: "tvalue list"
  fs_maxstacksize :: int
  fs_ls :: LexState
  fs_haddr :: addr
  fs_lasttarget :: int
  fs_jpc :: int
  fs_freereg :: int
  fs_nactvar :: int

abbreviation fs_pc :: "FuncState \<Rightarrow> int" where "fs_pc fs \<equiv> int (length (fs_code fs))"
abbreviation fs_nk :: "FuncState \<Rightarrow> int" where "fs_nk fs \<equiv> int (length (fs_k fs))"

definition get_code :: "FuncState \<Rightarrow> int \<Rightarrow> Instruction res" where
  "get_code fs pc = (if 0 \<le> pc \<and> pc < fs_pc fs then Inr (fs_code fs ! nat pc) else Inl UNDEFINED)"

definition set_code :: "FuncState \<Rightarrow> int \<Rightarrow> Instruction \<Rightarrow> FuncState" where
  "set_code fs pc i = fs\<lparr>fs_code := (fs_code fs)[nat pc := i]\<rparr>"

definition hasjumps :: "expdesc \<Rightarrow> bool" where
  "hasjumps e = (jt e \<noteq> jf e)"

definition isnumeral :: "expdesc \<Rightarrow> bool" where
  "isnumeral e = (ek e = VKNUM \<and> jt e = NO_JUMP \<and> jf e = NO_JUMP)"

section \<open>Lists of jumps\<close>

definition fixjump :: "FuncState \<Rightarrow> int \<Rightarrow> int \<Rightarrow> FuncState res" where
  "fixjump fs pc dest =
     bindE (get_code fs pc) (\<lambda>jmp.
       let offset = dest - (pc + 1)
       in if MAXARG_sBx < \<bar>offset\<bar> then luaX_syntaxerror (fs_ls fs) ''control structure too long''
          else Inr (set_code fs pc (SETARG_sBx jmp offset)))"

definition luaK_getlabel :: "FuncState \<Rightarrow> FuncState \<times> int" where
  "luaK_getlabel fs = (fs\<lparr>fs_lasttarget := fs_pc fs\<rparr>, fs_pc fs)"

definition getjump :: "FuncState \<Rightarrow> int \<Rightarrow> int res" where
  "getjump fs pc =
     bindE (get_code fs pc) (\<lambda>i.
       let offset = GETARG_sBx i in if offset = NO_JUMP then Inr NO_JUMP else Inr (pc + 1 + offset))"

text \<open>The position of the instruction that controls a jump.\<close>

definition getjumpcontrol :: "FuncState \<Rightarrow> int \<Rightarrow> int res" where
  "getjumpcontrol fs pc =
     (if 1 \<le> pc then
        bindE (get_code fs (pc - 1)) (\<lambda>i.
          case op_of_num (GET_OPCODE i) of
            None \<Rightarrow> Inl UNDEFINED
          | Some o' \<Rightarrow> Inr (if testTMode o' then pc - 1 else pc))
      else Inr pc)"

fun need_value_loop :: "nat \<Rightarrow> FuncState \<Rightarrow> int \<Rightarrow> bool res" where
  "need_value_loop 0 fs list = Inl NO_FUEL"
| "need_value_loop (Suc n) fs list =
     (if list = NO_JUMP then Inr False
      else bindE (getjumpcontrol fs list) (\<lambda>c.
           bindE (get_code fs c) (\<lambda>i.
             if \<not> is_op i OP_TESTSET then Inr True
             else bindE (getjump fs list) (need_value_loop n fs))))"

definition need_value :: "FuncState \<Rightarrow> int \<Rightarrow> bool res" where
  "need_value fs list = need_value_loop (Suc (length (fs_code fs))) fs list"

definition patchtestreg :: "FuncState \<Rightarrow> int \<Rightarrow> int \<Rightarrow> (FuncState \<times> bool) res" where
  "patchtestreg fs node' reg =
     bindE (getjumpcontrol fs node') (\<lambda>c.
     bindE (get_code fs c) (\<lambda>i.
       if \<not> is_op i OP_TESTSET then Inr (fs, False)
       else if reg \<noteq> NO_REG \<and> reg \<noteq> GETARG_B i then Inr (set_code fs c (SETARG_A i reg), True)
       else Inr (set_code fs c (CREATE_ABC OP_TEST (GETARG_B i) 0 (GETARG_C i)), True)))"

fun removevalues_loop :: "nat \<Rightarrow> FuncState \<Rightarrow> int \<Rightarrow> FuncState res" where
  "removevalues_loop 0 fs list = Inl NO_FUEL"
| "removevalues_loop (Suc n) fs list =
     (if list = NO_JUMP then Inr fs
      else bindE (patchtestreg fs list NO_REG) (\<lambda>(fs', _).
           bindE (getjump fs' list) (removevalues_loop n fs')))"

definition removevalues :: "FuncState \<Rightarrow> int \<Rightarrow> FuncState res" where
  "removevalues fs list = removevalues_loop (Suc (length (fs_code fs))) fs list"

fun patchlist_loop :: "nat \<Rightarrow> FuncState \<Rightarrow> int \<Rightarrow> int \<Rightarrow> int \<Rightarrow> int \<Rightarrow> FuncState res" where
  "patchlist_loop 0 fs list vtarget reg dtarget = Inl NO_FUEL"
| "patchlist_loop (Suc n) fs list vtarget reg dtarget =
     (if list = NO_JUMP then Inr fs
      else bindE (getjump fs list) (\<lambda>next.
           bindE (patchtestreg fs list reg) (\<lambda>(fs1, patched).
           bindE (fixjump fs1 list (if patched then vtarget else dtarget)) (\<lambda>fs2.
             patchlist_loop n fs2 next vtarget reg dtarget))))"

definition patchlistaux :: "FuncState \<Rightarrow> int \<Rightarrow> int \<Rightarrow> int \<Rightarrow> int \<Rightarrow> FuncState res" where
  "patchlistaux fs list vtarget reg dtarget = patchlist_loop (Suc (length (fs_code fs))) fs list vtarget reg dtarget"

definition dischargejpc :: "FuncState \<Rightarrow> FuncState res" where
  "dischargejpc fs =
     bindE (patchlistaux fs (fs_jpc fs) (fs_pc fs) NO_REG (fs_pc fs)) (\<lambda>fs'. Inr (fs'\<lparr>fs_jpc := NO_JUMP\<rparr>))"

text \<open>The search of \<open>luaK_concat\<close> for the last jump of a list.\<close>

fun last_jump :: "nat \<Rightarrow> FuncState \<Rightarrow> int \<Rightarrow> int res" where
  "last_jump 0 fs list = Inl NO_FUEL"
| "last_jump (Suc n) fs list =
     bindE (getjump fs list) (\<lambda>next. if next \<noteq> NO_JUMP then last_jump n fs next else Inr list)"

definition luaK_concat :: "FuncState \<Rightarrow> int \<Rightarrow> int \<Rightarrow> (FuncState \<times> int) res" where
  "luaK_concat fs l1 l2 =
     (if l2 = NO_JUMP then Inr (fs, l1)
      else if l1 = NO_JUMP then Inr (fs, l2)
      else bindE (last_jump (Suc (length (fs_code fs))) fs l1) (\<lambda>list.
           bindE (fixjump fs list l2) (\<lambda>fs'. Inr (fs', l1))))"

definition luaK_patchtohere :: "FuncState \<Rightarrow> int \<Rightarrow> FuncState res" where
  "luaK_patchtohere fs list =
     (let fs1 = fst (luaK_getlabel fs)
      in bindE (luaK_concat fs1 (fs_jpc fs1) list) (\<lambda>(fs2, l). Inr (fs2\<lparr>fs_jpc := l\<rparr>)))"

definition luaK_patchlist :: "FuncState \<Rightarrow> int \<Rightarrow> int \<Rightarrow> FuncState res" where
  "luaK_patchlist fs list target =
     (if target = fs_pc fs then luaK_patchtohere fs list else patchlistaux fs list target NO_REG target)"

section \<open>Instructions\<close>

text \<open>\<open>luaK_code\<close>; a vector that grows has an error when it has as many elements as its limit.\<close>

definition luaK_code :: "FuncState \<Rightarrow> Instruction \<Rightarrow> int \<Rightarrow> (FuncState \<times> int) res" where
  "luaK_code fs i line =
     bindE (dischargejpc fs) (\<lambda>fs1.
       if MAX_INT \<le> fs_pc fs1 then Inl (LUA_ERRRUN ''code size overflow'')
       else Inr (fs1\<lparr>fs_code := fs_code fs1 @ [i], fs_lineinfo := fs_lineinfo fs1 @ [line]\<rparr>, fs_pc fs1))"

definition luaK_codeABC :: "FuncState \<Rightarrow> OpCode \<Rightarrow> int \<Rightarrow> int \<Rightarrow> int \<Rightarrow> (FuncState \<times> int) res" where
  "luaK_codeABC fs o' a b c = luaK_code fs (CREATE_ABC o' a b c) (ls_lastline (fs_ls fs))"

definition luaK_codeABx :: "FuncState \<Rightarrow> OpCode \<Rightarrow> int \<Rightarrow> int \<Rightarrow> (FuncState \<times> int) res" where
  "luaK_codeABx fs o' a bc = luaK_code fs (CREATE_ABx o' a bc) (ls_lastline (fs_ls fs))"

definition luaK_codeAsBx :: "FuncState \<Rightarrow> OpCode \<Rightarrow> int \<Rightarrow> int \<Rightarrow> (FuncState \<times> int) res" where
  "luaK_codeAsBx fs o' a sbx = luaK_codeABx fs o' a (sbx + MAXARG_sBx)"

definition luaK_fixline :: "FuncState \<Rightarrow> int \<Rightarrow> FuncState" where
  "luaK_fixline fs line = fs\<lparr>fs_lineinfo := (fs_lineinfo fs)[length (fs_code fs) - 1 := line]\<rparr>"

definition luaK_nil :: "FuncState \<Rightarrow> int \<Rightarrow> int \<Rightarrow> FuncState res" where
  "luaK_nil fs from' n =
     (let emit = bindE (luaK_codeABC fs OP_LOADNIL from' (from' + n - 1) 0) (\<lambda>(fs', _). Inr fs')
      in if fs_lasttarget fs < fs_pc fs then
           (if fs_pc fs = 0 then Inr fs
            else bindE (get_code fs (fs_pc fs - 1)) (\<lambda>previous.
              if is_op previous OP_LOADNIL \<and> GETARG_A previous \<le> from' \<and> from' \<le> GETARG_B previous + 1 then
                Inr (if GETARG_B previous < from' + n - 1
                     then set_code fs (fs_pc fs - 1) (SETARG_B previous (from' + n - 1)) else fs)
              else emit))
         else emit)"

definition luaK_jump :: "FuncState \<Rightarrow> (FuncState \<times> int) res" where
  "luaK_jump fs =
     (let jpc = fs_jpc fs
      in bindE (luaK_codeAsBx (fs\<lparr>fs_jpc := NO_JUMP\<rparr>) OP_JMP 0 NO_JUMP) (\<lambda>(fs1, j). luaK_concat fs1 j jpc))"

definition luaK_ret :: "FuncState \<Rightarrow> int \<Rightarrow> int \<Rightarrow> FuncState res" where
  "luaK_ret fs first nret = bindE (luaK_codeABC fs OP_RETURN first (nret + 1) 0) (\<lambda>(fs', _). Inr fs')"

definition condjump :: "FuncState \<Rightarrow> OpCode \<Rightarrow> int \<Rightarrow> int \<Rightarrow> int \<Rightarrow> (FuncState \<times> int) res" where
  "condjump fs o' a b c = bindE (luaK_codeABC fs o' a b c) (\<lambda>(fs', _). luaK_jump fs')"

definition code_label :: "FuncState \<Rightarrow> int \<Rightarrow> int \<Rightarrow> int \<Rightarrow> (FuncState \<times> int) res" where
  "code_label fs a b jump = luaK_codeABC (fst (luaK_getlabel fs)) OP_LOADBOOL a b jump"

section \<open>Registers\<close>

definition luaK_checkstack :: "FuncState \<Rightarrow> int \<Rightarrow> FuncState res" where
  "luaK_checkstack fs n =
     (let newstack = fs_freereg fs + n
      in if fs_maxstacksize fs < newstack then
           (if MAXSTACK \<le> newstack then luaX_syntaxerror (fs_ls fs) ''function or expression too complex''
            else Inr (fs\<lparr>fs_maxstacksize := newstack mod 256\<rparr>))
         else Inr fs)"

definition luaK_reserveregs :: "FuncState \<Rightarrow> int \<Rightarrow> FuncState res" where
  "luaK_reserveregs fs n = bindE (luaK_checkstack fs n) (\<lambda>fs'. Inr (fs'\<lparr>fs_freereg := fs_freereg fs' + n\<rparr>))"

definition freereg :: "FuncState \<Rightarrow> int \<Rightarrow> FuncState" where
  "freereg fs reg = (if \<not> ISK reg \<and> fs_nactvar fs \<le> reg then fs\<lparr>fs_freereg := fs_freereg fs - 1\<rparr> else fs)"

definition freeexp :: "FuncState \<Rightarrow> expdesc \<Rightarrow> FuncState" where
  "freeexp fs e = (if ek e = VNONRELOC then freereg fs (info e) else fs)"

section \<open>Constants\<close>

definition addk :: "FuncState \<Rightarrow> tvalue \<Rightarrow> tvalue \<Rightarrow> (FuncState \<times> int) res" where
  "addk fs k v =
     bindE (luaH_set (ls_h (fs_ls fs)) k) (\<lambda>(h, idx).
       case slot_val h idx of
         TNumber n \<Rightarrow> Inr (fs\<lparr>fs_ls := (fs_ls fs)\<lparr>ls_h := h\<rparr>\<rparr>, lua_number2int n)
       | _ \<Rightarrow>
           let h' = slot_set h idx (TNumber (cast_num (fs_nk fs)));
               fs' = fs\<lparr>fs_ls := (fs_ls fs)\<lparr>ls_h := h'\<rparr>\<rparr>
           in if MAXARG_Bx \<le> fs_nk fs then Inl (LUA_ERRRUN ''constant table overflow'')
              else Inr (fs'\<lparr>fs_k := fs_k fs @ [v]\<rparr>, fs_nk fs))"

definition luaK_stringK :: "FuncState \<Rightarrow> string \<Rightarrow> (FuncState \<times> int) res" where
  "luaK_stringK fs s = addk fs (TString s) (TString s)"

definition luaK_numberK :: "FuncState \<Rightarrow> lua_Number \<Rightarrow> (FuncState \<times> int) res" where
  "luaK_numberK fs r = addk fs (TNumber r) (TNumber r)"

definition boolK :: "FuncState \<Rightarrow> int \<Rightarrow> (FuncState \<times> int) res" where
  "boolK fs b = addk fs (TBoolean b) (TBoolean b)"

definition nilK :: "FuncState \<Rightarrow> (FuncState \<times> int) res" where
  "nilK fs = addk fs (TTable (fs_haddr fs)) TNil"

section \<open>Expressions\<close>

definition update_code :: "FuncState \<Rightarrow> int \<Rightarrow> (Instruction \<Rightarrow> Instruction) \<Rightarrow> FuncState res" where
  "update_code fs pc f = bindE (get_code fs pc) (\<lambda>i. Inr (set_code fs pc (f i)))"

definition luaK_setreturns :: "FuncState \<Rightarrow> expdesc \<Rightarrow> int \<Rightarrow> FuncState res" where
  "luaK_setreturns fs e nresults =
     (if ek e = VCALL then update_code fs (info e) (\<lambda>i. SETARG_C i (nresults + 1))
      else if ek e = VVARARG then
        bindE (update_code fs (info e) (\<lambda>i. SETARG_A (SETARG_B i (nresults + 1)) (fs_freereg fs))) (\<lambda>fs'.
          luaK_reserveregs fs' 1)
      else Inr fs)"

definition luaK_setoneret :: "FuncState \<Rightarrow> expdesc \<Rightarrow> (FuncState \<times> expdesc) res" where
  "luaK_setoneret fs e =
     (if ek e = VCALL then
        bindE (get_code fs (info e)) (\<lambda>i. Inr (fs, e\<lparr>ek := VNONRELOC, info := GETARG_A i\<rparr>))
      else if ek e = VVARARG then
        bindE (update_code fs (info e) (\<lambda>i. SETARG_B i 2)) (\<lambda>fs'. Inr (fs', e\<lparr>ek := VRELOCABLE\<rparr>))
      else Inr (fs, e))"

definition luaK_dischargevars :: "FuncState \<Rightarrow> expdesc \<Rightarrow> (FuncState \<times> expdesc) res" where
  "luaK_dischargevars fs e =
     (case ek e of
        VLOCAL \<Rightarrow> Inr (fs, e\<lparr>ek := VNONRELOC\<rparr>)
      | VUPVAL \<Rightarrow>
          bindE (luaK_codeABC fs OP_GETUPVAL 0 (info e) 0) (\<lambda>(fs', pc). Inr (fs', e\<lparr>info := pc, ek := VRELOCABLE\<rparr>))
      | VGLOBAL \<Rightarrow>
          bindE (luaK_codeABx fs OP_GETGLOBAL 0 (info e)) (\<lambda>(fs', pc). Inr (fs', e\<lparr>info := pc, ek := VRELOCABLE\<rparr>))
      | VINDEXED \<Rightarrow>
          bindE (luaK_codeABC (freereg (freereg fs (aux e)) (info e)) OP_GETTABLE 0 (info e) (aux e)) (\<lambda>(fs', pc).
            Inr (fs', e\<lparr>info := pc, ek := VRELOCABLE\<rparr>))
      | VVARARG \<Rightarrow> luaK_setoneret fs e
      | VCALL \<Rightarrow> luaK_setoneret fs e
      | _ \<Rightarrow> Inr (fs, e))"

text \<open>The end of \<open>discharge2reg\<close>, and its cases after the variables.\<close>

definition in_reg :: "expdesc \<Rightarrow> int \<Rightarrow> expdesc" where
  "in_reg e reg = e\<lparr>info := reg, ek := VNONRELOC\<rparr>"

definition discharge_value :: "FuncState \<Rightarrow> expdesc \<Rightarrow> int \<Rightarrow> (FuncState \<times> expdesc) res" where
  "discharge_value fs e reg =
     (case ek e of
        VNIL \<Rightarrow> bindE (luaK_nil fs reg 1) (\<lambda>fs'. Inr (fs', in_reg e reg))
      | VFALSE \<Rightarrow> bindE (luaK_codeABC fs OP_LOADBOOL reg 0 0) (\<lambda>(fs', _). Inr (fs', in_reg e reg))
      | VTRUE \<Rightarrow> bindE (luaK_codeABC fs OP_LOADBOOL reg 1 0) (\<lambda>(fs', _). Inr (fs', in_reg e reg))
      | VK \<Rightarrow> bindE (luaK_codeABx fs OP_LOADK reg (info e)) (\<lambda>(fs', _). Inr (fs', in_reg e reg))
      | VKNUM \<Rightarrow>
          bindE (luaK_numberK fs (nval e)) (\<lambda>(fs1, k).
          bindE (luaK_codeABx fs1 OP_LOADK reg k) (\<lambda>(fs', _). Inr (fs', in_reg e reg)))
      | VRELOCABLE \<Rightarrow> bindE (update_code fs (info e) (\<lambda>i. SETARG_A i reg)) (\<lambda>fs'. Inr (fs', in_reg e reg))
      | VNONRELOC \<Rightarrow>
          (if reg \<noteq> info e then bindE (luaK_codeABC fs OP_MOVE reg (info e) 0) (\<lambda>(fs', _). Inr (fs', in_reg e reg))
           else Inr (fs, in_reg e reg))
      | _ \<Rightarrow> Inr (fs, e))"

definition discharge2reg :: "FuncState \<Rightarrow> expdesc \<Rightarrow> int \<Rightarrow> (FuncState \<times> expdesc) res" where
  "discharge2reg fs e reg = bindE (luaK_dischargevars fs e) (\<lambda>(fs', e'). discharge_value fs' e' reg)"

definition discharge2anyreg :: "FuncState \<Rightarrow> expdesc \<Rightarrow> (FuncState \<times> expdesc) res" where
  "discharge2anyreg fs e =
     (if ek e \<noteq> VNONRELOC then
        bindE (luaK_reserveregs fs 1) (\<lambda>fs'. discharge2reg fs' e (fs_freereg fs' - 1))
      else Inr (fs, e))"

text \<open>The part of \<open>exp2reg\<close> for an expression with jumps.\<close>

definition close_jumps :: "FuncState \<Rightarrow> expdesc \<Rightarrow> int \<Rightarrow> FuncState res" where
  "close_jumps fs e reg =
     bindE (need_value fs (jt e)) (\<lambda>nt.
     bindE (if nt then Inr True else need_value fs (jf e)) (\<lambda>need.
     bindE (if need then
              bindE (if ek e = VJMP then Inr (fs, NO_JUMP) else luaK_jump fs) (\<lambda>(fs1, fj).
              bindE (code_label fs1 reg 0 1) (\<lambda>(fs2, p_f).
              bindE (code_label fs2 reg 1 0) (\<lambda>(fs3, p_t).
              bindE (luaK_patchtohere fs3 fj) (\<lambda>fs4. Inr (fs4, p_f, p_t)))))
            else Inr (fs, NO_JUMP, NO_JUMP)) (\<lambda>(fs5, p_f, p_t).
     let (fs6, final) = luaK_getlabel fs5
     in bindE (patchlistaux fs6 (jf e) final reg p_f) (\<lambda>fs7. patchlistaux fs7 (jt e) final reg p_t))))"

definition exp2reg :: "FuncState \<Rightarrow> expdesc \<Rightarrow> int \<Rightarrow> (FuncState \<times> expdesc) res" where
  "exp2reg fs e reg =
     bindE (discharge2reg fs e reg) (\<lambda>(fs1, e1).
     bindE (if ek e1 = VJMP then luaK_concat fs1 (jt e1) (info e1) else Inr (fs1, jt e1)) (\<lambda>(fs2, t).
     let e2 = e1\<lparr>jt := t\<rparr>
     in bindE (if hasjumps e2 then close_jumps fs2 e2 reg else Inr fs2) (\<lambda>fs3.
          Inr (fs3, e2\<lparr>jf := NO_JUMP, jt := NO_JUMP, info := reg, ek := VNONRELOC\<rparr>))))"

definition luaK_exp2nextreg :: "FuncState \<Rightarrow> expdesc \<Rightarrow> (FuncState \<times> expdesc) res" where
  "luaK_exp2nextreg fs e =
     bindE (luaK_dischargevars fs e) (\<lambda>(fs1, e1).
     bindE (luaK_reserveregs (freeexp fs1 e1) 1) (\<lambda>fs2. exp2reg fs2 e1 (fs_freereg fs2 - 1)))"

definition luaK_exp2anyreg :: "FuncState \<Rightarrow> expdesc \<Rightarrow> (FuncState \<times> expdesc) res" where
  "luaK_exp2anyreg fs e =
     bindE (luaK_dischargevars fs e) (\<lambda>(fs1, e1).
       if ek e1 = VNONRELOC \<and> \<not> hasjumps e1 then Inr (fs1, e1)
       else if ek e1 = VNONRELOC \<and> fs_nactvar fs1 \<le> info e1 then exp2reg fs1 e1 (info e1)
       else luaK_exp2nextreg fs1 e1)"

definition luaK_exp2val :: "FuncState \<Rightarrow> expdesc \<Rightarrow> (FuncState \<times> expdesc) res" where
  "luaK_exp2val fs e = (if hasjumps e then luaK_exp2anyreg fs e else luaK_dischargevars fs e)"

text \<open>\<open>luaK_exp2RK\<close>; the third result is the operand.\<close>

definition luaK_exp2RK :: "FuncState \<Rightarrow> expdesc \<Rightarrow> (FuncState \<times> expdesc \<times> int) res" where
  "luaK_exp2RK fs e =
     bindE (luaK_exp2val fs e) (\<lambda>(fs1, e1).
       let in_register = bindE (luaK_exp2anyreg fs1 e1) (\<lambda>(fs2, e2). Inr (fs2, e2, info e2))
       in if ek e1 \<in> {VKNUM, VTRUE, VFALSE, VNIL} then
            (if fs_nk fs1 \<le> MAXINDEXRK then
               bindE (if ek e1 = VNIL then nilK fs1
                      else if ek e1 = VKNUM then luaK_numberK fs1 (nval e1)
                      else boolK fs1 (if ek e1 = VTRUE then 1 else 0)) (\<lambda>(fs2, k).
                 Inr (fs2, e1\<lparr>info := k, ek := VK\<rparr>, RKASK k))
             else in_register)
          else if ek e1 = VK then
            (if info e1 \<le> MAXINDEXRK then Inr (fs1, e1, RKASK (info e1)) else in_register)
          else in_register)"

text \<open>\<open>luaK_storevar\<close>; the third case cannot occur.\<close>

definition luaK_storevar :: "FuncState \<Rightarrow> expdesc \<Rightarrow> expdesc \<Rightarrow> (FuncState \<times> expdesc) res" where
  "luaK_storevar fs var ex =
     (case ek var of
        VLOCAL \<Rightarrow> exp2reg (freeexp fs ex) ex (info var)
      | VUPVAL \<Rightarrow>
          bindE (luaK_exp2anyreg fs ex) (\<lambda>(fs1, ex1).
          bindE (luaK_codeABC fs1 OP_SETUPVAL (info ex1) (info var) 0) (\<lambda>(fs2, _). Inr (freeexp fs2 ex1, ex1)))
      | VGLOBAL \<Rightarrow>
          bindE (luaK_exp2anyreg fs ex) (\<lambda>(fs1, ex1).
          bindE (luaK_codeABx fs1 OP_SETGLOBAL (info ex1) (info var)) (\<lambda>(fs2, _). Inr (freeexp fs2 ex1, ex1)))
      | VINDEXED \<Rightarrow>
          bindE (luaK_exp2RK fs ex) (\<lambda>(fs1, ex1, e).
          bindE (luaK_codeABC fs1 OP_SETTABLE (info var) (aux var) e) (\<lambda>(fs2, _). Inr (freeexp fs2 ex1, ex1)))
      | _ \<Rightarrow> Inr (freeexp fs ex, ex))"

definition luaK_self :: "FuncState \<Rightarrow> expdesc \<Rightarrow> expdesc \<Rightarrow> (FuncState \<times> expdesc) res" where
  "luaK_self fs e key =
     bindE (luaK_exp2anyreg fs e) (\<lambda>(fs1, e1).
     let fs2 = freeexp fs1 e1; func = fs_freereg fs2
     in bindE (luaK_reserveregs fs2 2) (\<lambda>fs3.
        bindE (luaK_exp2RK fs3 key) (\<lambda>(fs4, key', k).
        bindE (luaK_codeABC fs4 OP_SELF func (info e1) k) (\<lambda>(fs5, _).
          Inr (freeexp fs5 key', e1\<lparr>info := func, ek := VNONRELOC\<rparr>)))))"

section \<open>Conditions\<close>

definition invertjump :: "FuncState \<Rightarrow> expdesc \<Rightarrow> FuncState res" where
  "invertjump fs e =
     bindE (getjumpcontrol fs (info e)) (\<lambda>c. update_code fs c (\<lambda>i. SETARG_A i (if GETARG_A i = 0 then 1 else 0)))"

text \<open>\<open>fs->pc--\<close>: the last instruction is removed.\<close>

definition remove_last :: "FuncState \<Rightarrow> FuncState" where
  "remove_last fs = fs\<lparr>fs_code := butlast (fs_code fs), fs_lineinfo := butlast (fs_lineinfo fs)\<rparr>"

definition jumponcond :: "FuncState \<Rightarrow> expdesc \<Rightarrow> bool \<Rightarrow> (FuncState \<times> expdesc \<times> int) res" where
  "jumponcond fs e cond =
     (let general = bindE (discharge2anyreg fs e) (\<lambda>(fs1, e1).
        bindE (condjump (freeexp fs1 e1) OP_TESTSET NO_REG (info e1) (if cond then 1 else 0)) (\<lambda>(fs2, pc).
          Inr (fs2, e1, pc)))
      in if ek e = VRELOCABLE then
           bindE (get_code fs (info e)) (\<lambda>ie.
             if is_op ie OP_NOT then
               bindE (condjump (remove_last fs) OP_TEST (GETARG_B ie) 0 (if cond then 0 else 1)) (\<lambda>(fs1, pc). Inr (fs1, e, pc))
             else general)
         else general)"

definition luaK_goiftrue :: "FuncState \<Rightarrow> expdesc \<Rightarrow> (FuncState \<times> expdesc) res" where
  "luaK_goiftrue fs e =
     bindE (luaK_dischargevars fs e) (\<lambda>(fs1, e1).
     bindE (if ek e1 \<in> {VK, VKNUM, VTRUE} then Inr (fs1, e1, NO_JUMP)
            else if ek e1 = VFALSE then bindE (luaK_jump fs1) (\<lambda>(fs2, pc). Inr (fs2, e1, pc))
            else if ek e1 = VJMP then bindE (invertjump fs1 e1) (\<lambda>fs2. Inr (fs2, e1, info e1))
            else jumponcond fs1 e1 False) (\<lambda>(fs2, e2, pc).
     bindE (luaK_concat fs2 (jf e2) pc) (\<lambda>(fs3, f).
     bindE (luaK_patchtohere fs3 (jt e2)) (\<lambda>fs4. Inr (fs4, e2\<lparr>jf := f, jt := NO_JUMP\<rparr>)))))"

definition luaK_goiffalse :: "FuncState \<Rightarrow> expdesc \<Rightarrow> (FuncState \<times> expdesc) res" where
  "luaK_goiffalse fs e =
     bindE (luaK_dischargevars fs e) (\<lambda>(fs1, e1).
     bindE (if ek e1 \<in> {VNIL, VFALSE} then Inr (fs1, e1, NO_JUMP)
            else if ek e1 = VTRUE then bindE (luaK_jump fs1) (\<lambda>(fs2, pc). Inr (fs2, e1, pc))
            else if ek e1 = VJMP then Inr (fs1, e1, info e1)
            else jumponcond fs1 e1 True) (\<lambda>(fs2, e2, pc).
     bindE (luaK_concat fs2 (jt e2) pc) (\<lambda>(fs3, t).
     bindE (luaK_patchtohere fs3 (jf e2)) (\<lambda>fs4. Inr (fs4, e2\<lparr>jt := t, jf := NO_JUMP\<rparr>)))))"

definition codenot :: "FuncState \<Rightarrow> expdesc \<Rightarrow> (FuncState \<times> expdesc) res" where
  "codenot fs e =
     bindE (luaK_dischargevars fs e) (\<lambda>(fs1, e1).
     bindE (if ek e1 \<in> {VNIL, VFALSE} then Inr (fs1, e1\<lparr>ek := VTRUE\<rparr>)
            else if ek e1 \<in> {VK, VKNUM, VTRUE} then Inr (fs1, e1\<lparr>ek := VFALSE\<rparr>)
            else if ek e1 = VJMP then bindE (invertjump fs1 e1) (\<lambda>fs2. Inr (fs2, e1))
            else if ek e1 \<in> {VRELOCABLE, VNONRELOC} then
              bindE (discharge2anyreg fs1 e1) (\<lambda>(fs2, e2).
              bindE (luaK_codeABC (freeexp fs2 e2) OP_NOT 0 (info e2) 0) (\<lambda>(fs3, pc).
                Inr (fs3, e2\<lparr>info := pc, ek := VRELOCABLE\<rparr>)))
            else Inr (fs1, e1)) (\<lambda>(fs4, e4).
     let e5 = e4\<lparr>jf := jt e4, jt := jf e4\<rparr>
     in bindE (removevalues fs4 (jf e5)) (\<lambda>fs5.
        bindE (removevalues fs5 (jt e5)) (\<lambda>fs6. Inr (fs6, e5)))))"

definition luaK_indexed :: "FuncState \<Rightarrow> expdesc \<Rightarrow> expdesc \<Rightarrow> (FuncState \<times> expdesc) res" where
  "luaK_indexed fs t k =
     bindE (luaK_exp2RK fs k) (\<lambda>(fs', k', r). Inr (fs', t\<lparr>aux := r, ek := VINDEXED\<rparr>))"

section \<open>Operators\<close>

datatype BinOpr =
    OPR_ADD | OPR_SUB | OPR_MUL | OPR_DIV | OPR_MOD | OPR_POW | OPR_CONCAT | OPR_NE | OPR_EQ
  | OPR_LT | OPR_LE | OPR_GT | OPR_GE | OPR_AND | OPR_OR | OPR_NOBINOPR

datatype UnOpr = OPR_MINUS | OPR_NOT | OPR_LEN | OPR_NOUNOPR

type_synonym pow_fun = "lua_Number \<Rightarrow> lua_Number \<Rightarrow> lua_Number"

text \<open>The number that is folded, if there is one.\<close>

definition constfolding :: "pow_fun \<Rightarrow> OpCode \<Rightarrow> expdesc \<Rightarrow> expdesc \<Rightarrow> lua_Number option" where
  "constfolding pow o' e1 e2 =
     (if \<not> isnumeral e1 \<or> \<not> isnumeral e2 then None
      else let v1 = nval e1; v2 = nval e2;
               checked = (\<lambda>r. if luai_numisnan r then None else Some r)
           in case o' of
                OP_ADD \<Rightarrow> checked (luai_numadd v1 v2)
              | OP_SUB \<Rightarrow> checked (luai_numsub v1 v2)
              | OP_MUL \<Rightarrow> checked (luai_nummul v1 v2)
              | OP_DIV \<Rightarrow> if luai_numeq v2 0 then None else checked (luai_numdiv v1 v2)
              | OP_MOD \<Rightarrow> if luai_numeq v2 0 then None else checked (luai_nummod v1 v2)
              | OP_POW \<Rightarrow> checked (pow v1 v2)
              | OP_UNM \<Rightarrow> checked (luai_numunm v1)
              | OP_LEN \<Rightarrow> None
              | _ \<Rightarrow> Some 0)"

text \<open>The descriptors of both operands come back, for the second one may have got a register.\<close>

definition codearith :: "pow_fun \<Rightarrow> FuncState \<Rightarrow> OpCode \<Rightarrow> expdesc \<Rightarrow> expdesc \<Rightarrow> (FuncState \<times> expdesc) res" where
  "codearith pow fs o' e1 e2 =
     (case constfolding pow o' e1 e2 of
        Some r \<Rightarrow> Inr (fs, e1\<lparr>nval := r\<rparr>)
      | None \<Rightarrow>
          bindE (luaK_exp2RK fs e1) (\<lambda>(fs1, e1', o1).
          bindE (if o' \<noteq> OP_UNM \<and> o' \<noteq> OP_LEN then luaK_exp2RK fs1 e2 else Inr (fs1, e2, 0)) (\<lambda>(fs2, e2', o2).
          bindE (luaK_codeABC (freeexp (freeexp fs2 e2') e1') o' 0 o1 o2) (\<lambda>(fs3, pc).
            Inr (fs3, e1'\<lparr>info := pc, ek := VRELOCABLE\<rparr>)))))"

definition codecomp :: "FuncState \<Rightarrow> OpCode \<Rightarrow> int \<Rightarrow> expdesc \<Rightarrow> expdesc \<Rightarrow> (FuncState \<times> expdesc) res" where
  "codecomp fs o' cond e1 e2 =
     bindE (luaK_exp2RK fs e1) (\<lambda>(fs1, e1', o1).
     bindE (luaK_exp2RK fs1 e2) (\<lambda>(fs2, e2', o2).
     let fs3 = freeexp (freeexp fs2 e2') e1';
         (cond', b, c) = (if cond = 0 \<and> o' \<noteq> OP_EQ then (1, o2, o1) else (cond, o1, o2))
     in bindE (condjump fs3 o' cond' b c) (\<lambda>(fs4, pc). Inr (fs4, e1'\<lparr>info := pc, ek := VJMP\<rparr>))))"

definition luaK_prefix :: "pow_fun \<Rightarrow> FuncState \<Rightarrow> UnOpr \<Rightarrow> expdesc \<Rightarrow> (FuncState \<times> expdesc) res" where
  "luaK_prefix pow fs o' e =
     (let e2 = \<lparr>ek = VKNUM, info = 0, aux = 0, nval = 0, jt = NO_JUMP, jf = NO_JUMP\<rparr>
      in case o' of
           OPR_MINUS \<Rightarrow>
             bindE (if ek e = VK then luaK_exp2anyreg fs e else Inr (fs, e)) (\<lambda>(fs1, e1). codearith pow fs1 OP_UNM e1 e2)
         | OPR_NOT \<Rightarrow> codenot fs e
         | OPR_LEN \<Rightarrow> bindE (luaK_exp2anyreg fs e) (\<lambda>(fs1, e1). codearith pow fs1 OP_LEN e1 e2)
         | OPR_NOUNOPR \<Rightarrow> Inr (fs, e))"

definition luaK_infix :: "FuncState \<Rightarrow> BinOpr \<Rightarrow> expdesc \<Rightarrow> (FuncState \<times> expdesc) res" where
  "luaK_infix fs o' v =
     (if o' = OPR_AND then luaK_goiftrue fs v
      else if o' = OPR_OR then luaK_goiffalse fs v
      else if o' = OPR_CONCAT then luaK_exp2nextreg fs v
      else if \<not> isnumeral v then bindE (luaK_exp2RK fs v) (\<lambda>(fs', v', _). Inr (fs', v'))
      else Inr (fs, v))"

text \<open>In the cases of \<open>and\<close> and \<open>or\<close> the copies of \<open>info\<close> and \<open>aux\<close> are the copy of the whole union.\<close>

definition luaK_posfix :: "pow_fun \<Rightarrow> FuncState \<Rightarrow> BinOpr \<Rightarrow> expdesc \<Rightarrow> expdesc \<Rightarrow> (FuncState \<times> expdesc) res" where
  "luaK_posfix pow fs o' e1 e2 =
     (case o' of
        OPR_AND \<Rightarrow>
          bindE (luaK_dischargevars fs e2) (\<lambda>(fs1, e2').
          bindE (luaK_concat fs1 (jf e1) (jf e2')) (\<lambda>(fs2, f).
            Inr (fs2, e1\<lparr>ek := ek e2', info := info e2', aux := aux e2', nval := nval e2', jt := jt e2', jf := f\<rparr>)))
      | OPR_OR \<Rightarrow>
          bindE (luaK_dischargevars fs e2) (\<lambda>(fs1, e2').
          bindE (luaK_concat fs1 (jt e1) (jt e2')) (\<lambda>(fs2, t).
            Inr (fs2, e1\<lparr>ek := ek e2', info := info e2', aux := aux e2', nval := nval e2', jf := jf e2', jt := t\<rparr>)))
      | OPR_CONCAT \<Rightarrow>
          bindE (luaK_exp2val fs e2) (\<lambda>(fs1, e2').
          bindE (if ek e2' = VRELOCABLE then bindE (get_code fs1 (info e2')) (\<lambda>i. Inr (is_op i OP_CONCAT)) else Inr False) (\<lambda>cat.
            if cat then
              bindE (update_code (freeexp fs1 e1) (info e2') (\<lambda>i. SETARG_B i (info e1))) (\<lambda>fs2.
                Inr (fs2, e1\<lparr>ek := ek e2', info := info e2'\<rparr>))
            else bindE (luaK_exp2nextreg fs1 e2') (\<lambda>(fs2, e2''). codearith pow fs2 OP_CONCAT e1 e2'')))
      | OPR_ADD \<Rightarrow> codearith pow fs OP_ADD e1 e2
      | OPR_SUB \<Rightarrow> codearith pow fs OP_SUB e1 e2
      | OPR_MUL \<Rightarrow> codearith pow fs OP_MUL e1 e2
      | OPR_DIV \<Rightarrow> codearith pow fs OP_DIV e1 e2
      | OPR_MOD \<Rightarrow> codearith pow fs OP_MOD e1 e2
      | OPR_POW \<Rightarrow> codearith pow fs OP_POW e1 e2
      | OPR_EQ \<Rightarrow> codecomp fs OP_EQ 1 e1 e2
      | OPR_NE \<Rightarrow> codecomp fs OP_EQ 0 e1 e2
      | OPR_LT \<Rightarrow> codecomp fs OP_LT 1 e1 e2
      | OPR_LE \<Rightarrow> codecomp fs OP_LE 1 e1 e2
      | OPR_GT \<Rightarrow> codecomp fs OP_LT 0 e1 e2
      | OPR_GE \<Rightarrow> codecomp fs OP_LE 0 e1 e2
      | OPR_NOBINOPR \<Rightarrow> Inr (fs, e1))"

text \<open>The division of C truncates to zero.\<close>

definition luaK_setlist :: "FuncState \<Rightarrow> int \<Rightarrow> int \<Rightarrow> int \<Rightarrow> FuncState res" where
  "luaK_setlist fs base nelems tostore =
     (let c = (if nelems < 1 then - ((1 - nelems) div LFIELDS_PER_FLUSH) else (nelems - 1) div LFIELDS_PER_FLUSH) + 1;
          b = (if tostore = LUA_MULTRET then 0 else tostore)
      in bindE (if c \<le> MAXARG_C then luaK_codeABC fs OP_SETLIST base b c
                else bindE (luaK_codeABC fs OP_SETLIST base b 0) (\<lambda>(fs1, _).
                       luaK_code fs1 (word_of_int c) (ls_lastline (fs_ls fs1)))) (\<lambda>(fs2, _).
           Inr (fs2\<lparr>fs_freereg := base + 1\<rparr>)))"

end
