(* ===== verification/LuaJumps.thy ===== *)
theory LuaJumps
  imports LuaCode
begin

text \<open>
  The lists of jumps of the code generator: what a list is, what \<open>luaK_concat\<close> and \<open>patchlistaux\<close> do to it.
\<close>

section \<open>Lists of jumps\<close>

abbreviation code_at :: "Instruction list \<Rightarrow> int \<Rightarrow> Instruction" where "code_at code p \<equiv> code ! nat p"

definition jump_next :: "Instruction list \<Rightarrow> int \<Rightarrow> int" where
  "jump_next code p = (let offset = GETARG_sBx (code_at code p) in if offset = NO_JUMP then NO_JUMP else p + 1 + offset)"

definition jump_target :: "Instruction list \<Rightarrow> int \<Rightarrow> int" where
  "jump_target code p = p + 1 + GETARG_sBx (code_at code p)"

text \<open>The list that starts at \<open>l\<close> links the jumps at the positions \<open>ps\<close>.\<close>

fun jump_list :: "Instruction list \<Rightarrow> int \<Rightarrow> int list \<Rightarrow> bool" where
  "jump_list code l [] \<longleftrightarrow> l = NO_JUMP"
| "jump_list code l (p # ps) \<longleftrightarrow>
     l = p \<and> 0 \<le> p \<and> p < int (length code) \<and> jumps (code_at code p) \<and> jump_list code (jump_next code p) ps"

definition in_reach :: "int \<Rightarrow> int \<Rightarrow> bool" where
  "in_reach p dest \<longleftrightarrow> \<bar>dest - (p + 1)\<bar> \<le> MAXARG_sBx"

lemma get_code_at: "0 \<le> p \<Longrightarrow> p < fs_pc fs \<Longrightarrow> get_code fs p = Inr (code_at (fs_code fs) p)"
  by (simp add: get_code_def)

lemma getjump_next: "0 \<le> p \<Longrightarrow> p < fs_pc fs \<Longrightarrow> getjump fs p = Inr (jump_next (fs_code fs) p)"
  by (simp add: getjump_def get_code_at jump_next_def Let_def)

lemma fixjump_reach:
  "0 \<le> p \<Longrightarrow> p < fs_pc fs \<Longrightarrow> in_reach p dest \<Longrightarrow>
     fixjump fs p dest = Inr (set_code fs p (SETARG_sBx (code_at (fs_code fs) p) (dest - (p + 1))))"
  by (simp add: fixjump_def get_code_at in_reach_def Let_def)

lemma jump_list_positions: "jump_list code l ps \<Longrightarrow> p \<in> set ps \<Longrightarrow> 0 \<le> p \<and> p < int (length code) \<and> jumps (code_at code p)"
  by (induction ps arbitrary: l) auto

lemma jump_list_length:
  assumes "jump_list code l ps" "distinct ps"
  shows "length ps \<le> length code"
proof -
  have "set ps \<subseteq> {0..<int (length code)}" using jump_list_positions [OF assms(1)] by auto
  then have "card (set ps) \<le> card {0..<int (length code)}" by (intro card_mono) auto
  with assms(2) show ?thesis by (simp add: distinct_card)
qed

lemma jump_list_cong:
  assumes "jump_list code l ps" "length code' = length code" "\<And>p. p \<in> set ps \<Longrightarrow> code_at code' p = code_at code p"
  shows "jump_list code' l ps"
  using assms by (induction ps arbitrary: l) (auto simp: jump_next_def)

lemma jump_list_unique: "jump_list code l ps \<Longrightarrow> jump_list code l qs \<Longrightarrow> ps = qs"
proof (induction ps arbitrary: l qs)
  case Nil
  then show ?case by (cases qs) auto
next
  case (Cons p ps)
  then show ?case by (cases qs) auto
qed

lemma last_jump_last:
  assumes "jump_list (fs_code fs) l (p # ps)" "length ps < n"
  shows "last_jump n fs l = Inr (last (p # ps))"
  using assms
proof (induction ps arbitrary: p l n)
  case Nil
  then obtain m where "n = Suc m" by (cases n) auto
  with Nil show ?case by (simp add: getjump_next)
next
  case (Cons q ps)
  then obtain m where n: "n = Suc m" by (cases n) auto
  have "jump_list (fs_code fs) (jump_next (fs_code fs) p) (q # ps)" "l = p" "jump_next (fs_code fs) p \<noteq> NO_JUMP"
    using Cons.prems(1) by auto
  with Cons.IH [of "jump_next (fs_code fs) p" q m] Cons.prems n show ?case by (auto simp: getjump_next)
qed

text \<open>The list without its end: the last jump links to \<open>l2\<close>.\<close>

lemma jump_list_append:
  "jump_list code l (ps @ [p]) \<Longrightarrow> distinct (ps @ [p]) \<Longrightarrow> length code' = length code \<Longrightarrow>
     (\<And>q. q \<in> set ps \<Longrightarrow> code_at code' q = code_at code q) \<Longrightarrow> jumps (code_at code' p) \<Longrightarrow>
     jump_list code' (jump_next code' p) qs \<Longrightarrow> jump_list code' l (ps @ p # qs)"
  by (induction ps arbitrary: l) (auto simp: jump_next_def)

lemma op_sBx [simp]: "is_op (SETARG_sBx i b) o' = is_op i o'"
  by (simp add: is_op_def sBx_other)

lemma jumps_sBx [simp]: "jumps (SETARG_sBx i b) = jumps i"
  by (simp add: jumps_def)

lemma sBx_reach: "in_reach p dest \<Longrightarrow> GETARG_sBx (SETARG_sBx i (dest - (p + 1))) = dest - (p + 1)"
  by (rule GETARG_sBx_set) (auto simp: in_reach_def)

text \<open>C30: \<open>luaK_concat\<close> joins two lists of jumps, none of which is in both and the second of which is within the reach
of a jump from the end of the first: it ends without an error, the new list has the jumps of the first one and
then those of the second one, and only the link of the last jump of the first one is changed.\<close>

theorem concat_joins:
  assumes "jump_list (fs_code fs) l1 ps1" "jump_list (fs_code fs) l2 ps2" "distinct (ps1 @ ps2)"
    and "ps1 \<noteq> [] \<Longrightarrow> ps2 \<noteq> [] \<Longrightarrow> in_reach (last ps1) l2"
  shows "\<exists>fs' l. luaK_concat fs l1 l2 = Inr (fs', l) \<and> jump_list (fs_code fs') l (ps1 @ ps2)
    \<and> length (fs_code fs') = length (fs_code fs)
    \<and> (\<forall>q < length (fs_code fs). (ps1 = [] \<or> int q \<noteq> last ps1) \<longrightarrow> fs_code fs' ! q = fs_code fs ! q)"
proof (cases "ps1 = [] \<or> ps2 = []")
  case True
  with assms(1,2) show ?thesis by (cases ps1; cases ps2) (auto simp: luaK_concat_def)
next
  case False
  obtain qs p where ps1: "ps1 = qs @ [p]" using False by (cases ps1 rule: rev_cases) auto
  obtain p1 rest where ps1': "ps1 = p1 # rest" using False by (cases ps1) auto
  obtain p2 ps2' where ps2: "ps2 = p2 # ps2'" using False by (cases ps2) auto
  have "length ps1 \<le> length (fs_code fs)" using jump_list_length [OF assms(1)] assms(3) by simp
  then have "length rest < Suc (length (fs_code fs))" unfolding ps1' by simp
  moreover have "last (p1 # rest) = p" using ps1 unfolding ps1' by (metis last_snoc)
  ultimately
  have last: "last_jump (Suc (length (fs_code fs))) fs l1 = Inr p"
    using last_jump_last [of fs l1 p1 rest] assms(1) unfolding ps1' by metis
  have p: "0 \<le> p" "p < fs_pc fs" "jumps (code_at (fs_code fs) p)" using jump_list_positions [OF assms(1), of p] ps1 by auto
  have reach: "in_reach p l2" using assms(4) ps1 False by simp
  let ?fs = "set_code fs p (SETARG_sBx (code_at (fs_code fs) p) (l2 - (p + 1)))"
  have at: "code_at (fs_code ?fs) q = code_at (fs_code fs) q" if "0 \<le> q" "q \<noteq> p" for q
    using that p(1) by (simp add: set_code_def nth_list_update nat_eq_iff)
  have here: "code_at (fs_code ?fs) p = SETARG_sBx (code_at (fs_code fs) p) (l2 - (p + 1))"
    using p by (simp add: set_code_def nat_less_iff)
  have "l1 \<noteq> NO_JUMP" "l2 \<noteq> NO_JUMP" using assms(1,2) ps1' ps2 by auto
  with last p reach have "luaK_concat fs l1 l2 = Inr (?fs, l1)" by (simp add: luaK_concat_def fixjump_reach)
  moreover have "jump_list (fs_code ?fs) l1 (ps1 @ ps2)"
  proof -
    have len: "length (fs_code ?fs) = length (fs_code fs)" by (simp add: set_code_def)
    have same: "code_at (fs_code ?fs) q = code_at (fs_code fs) q" if "q \<in> set qs \<or> q \<in> set ps2" for q
      using that assms(3) ps1 jump_list_positions [OF assms(1), of q] jump_list_positions [OF assms(2), of q] at [of q] by auto
    have l2: "l2 \<noteq> p" using assms(2,3) ps1 ps2 by auto
    have "jump_list (fs_code ?fs) l2 ps2" by (rule jump_list_cong [OF assms(2) len]) (use same in blast)
    moreover have "jump_next (fs_code ?fs) p = l2" using l2 by (simp add: jump_next_def here sBx_reach [OF reach] Let_def)
    ultimately have "jump_list (fs_code ?fs) l1 (qs @ p # ps2)"
      using jump_list_append [of "fs_code fs" l1 qs p "fs_code ?fs" ps2] assms(1,3) len same p(3) here unfolding ps1 by simp
    then show ?thesis by (simp add: ps1)
  qed
  moreover have "fs_code ?fs ! q = fs_code fs ! q" if "int q \<noteq> p" for q
    using at [of "int q"] that by simp
  moreover have "length (fs_code ?fs) = length (fs_code fs)" by (simp add: set_code_def)
  ultimately show ?thesis using ps1 by (intro exI [of _ ?fs] exI [of _ l1] conjI allI impI) simp_all
qed

section \<open>Patching a list\<close>

definition tests :: "Instruction \<Rightarrow> bool" where
  "tests i = (case op_of_num (GET_OPCODE i) of None \<Rightarrow> False | Some o' \<Rightarrow> testTMode o')"

definition control :: "Instruction list \<Rightarrow> int \<Rightarrow> int" where
  "control code p = (if 1 \<le> p \<and> tests (code_at code (p - 1)) then p - 1 else p)"

text \<open>A test that copies a value into a register gets the register, or becomes a plain test.\<close>

definition patched_test :: "int \<Rightarrow> Instruction \<Rightarrow> Instruction" where
  "patched_test reg i =
     (if \<not> is_op i OP_TESTSET then i
      else if reg \<noteq> NO_REG \<and> reg \<noteq> GETARG_B i then SETARG_A i reg
      else CREATE_ABC OP_TEST (GETARG_B i) 0 (GETARG_C i))"

definition patch_step :: "int \<Rightarrow> int \<Rightarrow> int \<Rightarrow> int \<Rightarrow> Instruction list \<Rightarrow> Instruction list" where
  "patch_step vtarget reg dtarget p code =
     (let c = control code p;
          code1 = code[nat c := patched_test reg (code_at code c)]
      in code1[nat p := SETARG_sBx (code_at code1 p) ((if is_op (code_at code c) OP_TESTSET then vtarget else dtarget) - (p + 1))])"

lemma opcode_created: "GET_OPCODE (CREATE_ABC o' a b c) = op_num o'"
proof (rule bit_eqI)
  fix n
  have o': "0 \<le> op_num o'" "op_num o' < 2 ^ 6" using op_num_range [of o'] by simp_all
  have "bit (GET_OPCODE (CREATE_ABC o' a b c)) n \<longleftrightarrow> n < 6 \<and> bit (op_num o') n"
    by (auto simp: GET_OPCODE_def get_field_bits CREATE_ABC_def bit_simps)
  also have "\<dots> \<longleftrightarrow> bit (op_num o') n" using bit_small [OF o'] by blast
  finally show "bit (GET_OPCODE (CREATE_ABC o' a b c)) n \<longleftrightarrow> bit (op_num o') n" .
qed

lemma op_patched:
  "op_of_num (GET_OPCODE (patched_test reg i)) =
     (if is_op i OP_TESTSET \<and> \<not> (reg \<noteq> NO_REG \<and> reg \<noteq> GETARG_B i) then Some OP_TEST else op_of_num (GET_OPCODE i))"
  by (simp add: patched_test_def opcode_other opcode_created)

lemma tests_patched [simp]: "tests (patched_test reg i) = tests i"
  by (auto simp: tests_def op_patched is_op_iff)

lemma tests_sBx [simp]: "tests (SETARG_sBx i b) = tests i"
  by (simp add: tests_def sBx_other)

lemma jumps_not_tests: "jumps i \<Longrightarrow> \<not> tests i"
  by (auto simp: jumps_def tests_def is_op_iff)

lemma jumps_not_testset: "jumps i \<Longrightarrow> \<not> is_op i OP_TESTSET"
  by (auto simp: jumps_def is_op_iff)

text \<open>The positions a step may change are the jump and its control; a control is no jump, and two jumps have
different controls.\<close>

lemma control_cases:
  assumes "jumps (code_at code p)" "0 \<le> p"
  obtains (self) "control code p = p" "\<not> is_op (code_at code p) OP_TESTSET" "\<not> (1 \<le> p \<and> tests (code_at code (p - 1)))"
  | (test) "control code p = p - 1" "1 \<le> p" "tests (code_at code (p - 1))"
  using assms jumps_not_testset by (auto simp: control_def split: if_splits)

lemma step_length [simp]: "length (patch_step vt reg dt p code) = length code"
  by (simp add: patch_step_def Let_def)

lemma step_other:
  "0 \<le> p \<Longrightarrow> 0 \<le> q \<Longrightarrow> q \<noteq> p \<Longrightarrow> q \<noteq> control code p \<Longrightarrow> code_at (patch_step vt reg dt p code) q = code_at code q"
  by (auto simp: patch_step_def Let_def nth_list_update control_def nat_eq_iff split: if_splits)

lemma step_jump:
  assumes "jumps (code_at code p)" "0 \<le> p" "p < int (length code)"
  shows "code_at (patch_step vt reg dt p code) p = SETARG_sBx (code_at code p)
     ((if is_op (code_at code (control code p)) OP_TESTSET then vt else dt) - (p + 1))"
  using assms(1,2)
proof (cases rule: control_cases)
  case self
  with assms show ?thesis by (simp add: patch_step_def Let_def patched_test_def nat_less_iff)
next
  case test
  then have "nat (p - 1) \<noteq> nat p" by simp
  with test assms show ?thesis by (simp add: patch_step_def Let_def nat_less_iff)
qed

lemma step_control:
  assumes "control code p \<noteq> p" "p < int (length code)"
  shows "code_at (patch_step vt reg dt p code) (control code p) = patched_test reg (code_at code (control code p))"
proof -
  have "control code p = p - 1" "1 \<le> p" using assms(1) by (auto simp: control_def split: if_splits)
  moreover from this have "nat (p - 1) \<noteq> nat p" "nat (p - 1) < length code" using assms(2) by simp_all
  ultimately show ?thesis by (simp add: patch_step_def Let_def)
qed

lemma step_tests:
  assumes "jumps (code_at code p)" "0 \<le> p" "p < int (length code)" "0 \<le> q"
  shows "tests (code_at (patch_step vt reg dt p code) q) = tests (code_at code q)"
proof (cases "q = p")
  case True
  then show ?thesis by (simp only: step_jump [OF assms(1-3)] tests_sBx)
next
  case False
  then show ?thesis
    using step_control [of code p vt reg dt] step_other [OF assms(2,4) False, of code vt reg dt] assms(3) by (cases "q = control code p") simp_all
qed

lemma control_step:
  "jumps (code_at code p) \<Longrightarrow> 0 \<le> p \<Longrightarrow> p < int (length code) \<Longrightarrow>
     control (patch_step vt reg dt p code) q = control code q"
  by (auto simp: control_def step_tests)

text \<open>The control of another jump is not touched.\<close>

lemma control_apart:
  assumes "jumps (code_at code p)" "0 \<le> p" "jumps (code_at code q)" "0 \<le> q" "p \<noteq> q"
  shows "control code q \<noteq> p" "control code q \<noteq> control code p" "0 \<le> control code q"
  using assms jumps_not_tests by (auto simp: control_def split: if_splits)

definition known_control :: "Instruction list \<Rightarrow> int \<Rightarrow> bool" where
  "known_control code p \<longleftrightarrow> (1 \<le> p \<longrightarrow> op_of_num (GET_OPCODE (code_at code (p - 1))) \<noteq> None)"

lemma getjumpcontrol_eq:
  assumes "0 \<le> p" "p < fs_pc fs" "known_control (fs_code fs) p"
  shows "getjumpcontrol fs p = Inr (control (fs_code fs) p)"
  using assms by (auto simp: getjumpcontrol_def get_code_at known_control_def control_def tests_def split: option.split)

lemma known_control_step:
  assumes "jumps (code_at code p)" "0 \<le> p" "p < int (length code)" "known_control code q" "known_control code p"
  shows "known_control (patch_step vt reg dt p code) q"
proof (cases "q - 1 = p \<or> q - 1 = control code p")
  case True
  have "op_of_num (GET_OPCODE (code_at (patch_step vt reg dt p code) p)) \<noteq> None"
    using assms(1) unfolding step_jump [OF assms(1-3)] by (auto simp: jumps_def is_op_iff sBx_other)
  moreover have "op_of_num (GET_OPCODE (code_at (patch_step vt reg dt p code) (control code p))) \<noteq> None" if "control code p \<noteq> p"
    using step_control [OF that assms(3), of vt reg dt] that assms(5)
    by (auto simp: op_patched known_control_def control_def split: if_splits)
  ultimately show ?thesis using True by (cases "control code p = p") (auto simp: known_control_def)
next
  case False
  then show ?thesis using assms(2,4) step_other [OF assms(2), of "q - 1" code vt reg dt] by (auto simp: known_control_def)
qed

text \<open>One round of the loop.\<close>

lemma patchtestreg_eq:
  assumes "jumps (code_at (fs_code fs) p)" "0 \<le> p" "p < fs_pc fs" "known_control (fs_code fs) p"
  shows "patchtestreg fs p reg =
    Inr (set_code fs (control (fs_code fs) p) (patched_test reg (code_at (fs_code fs) (control (fs_code fs) p))),
         is_op (code_at (fs_code fs) (control (fs_code fs) p)) OP_TESTSET)"
proof -
  have c: "0 \<le> control (fs_code fs) p" "control (fs_code fs) p < fs_pc fs" using assms by (auto simp: control_def)
  then have "(fs_code fs)[nat (control (fs_code fs) p) := code_at (fs_code fs) (control (fs_code fs) p)] = fs_code fs" by simp
  then show ?thesis
    using c by (simp add: patchtestreg_def getjumpcontrol_eq [OF assms(2-4)] get_code_at patched_test_def set_code_def)
qed

lemma patch_round:
  assumes "jumps (code_at (fs_code fs) p)" "0 \<le> p" "p < fs_pc fs" "known_control (fs_code fs) p"
    and "in_reach p vt" "in_reach p dt"
  shows "patchlist_loop (Suc n) fs p vt reg dt =
    patchlist_loop n (fs\<lparr>fs_code := patch_step vt reg dt p (fs_code fs)\<rparr>) (jump_next (fs_code fs) p) vt reg dt"
proof -
  let ?b = "is_op (code_at (fs_code fs) (control (fs_code fs) p)) OP_TESTSET"
  have "in_reach p (if ?b then vt else dt)" using assms(5,6) by simp
  then show ?thesis
    using assms(2,3) by (simp add: getjump_next patchtestreg_eq [OF assms(1-4)] fixjump_reach set_code_def patch_step_def Let_def)
qed

definition patch_all :: "int \<Rightarrow> int \<Rightarrow> int \<Rightarrow> int list \<Rightarrow> Instruction list \<Rightarrow> Instruction list" where
  "patch_all vt reg dt ps code = fold (patch_step vt reg dt) ps code"

lemma patch_loop_all:
  assumes "jump_list (fs_code fs) l ps" "distinct ps" "length ps < n"
    and "\<And>p. p \<in> set ps \<Longrightarrow> known_control (fs_code fs) p \<and> in_reach p vt \<and> in_reach p dt"
  shows "patchlist_loop n fs l vt reg dt = Inr (fs\<lparr>fs_code := patch_all vt reg dt ps (fs_code fs)\<rparr>)"
  using assms
proof (induction ps arbitrary: fs l n)
  case Nil
  then show ?case by (cases n) (auto simp: patch_all_def)
next
  case (Cons p ps)
  let ?code = "fs_code fs" and ?code' = "patch_step vt reg dt p (fs_code fs)"
  obtain m where n: "n = Suc m" using Cons.prems(3) by (cases n) auto
  have p: "jumps (code_at ?code p)" "0 \<le> p" "p < fs_pc fs" "l = p" "jump_list ?code (jump_next ?code p) ps"
    using Cons.prems(1) by auto
  have here: "known_control ?code p" "in_reach p vt" "in_reach p dt" using Cons.prems(4) by auto
  have "code_at ?code' q = code_at ?code q" if "q \<in> set ps" for q
  proof -
    have q: "0 \<le> q" "jumps (code_at ?code q)" "q \<noteq> p" using jump_list_positions [OF p(5) that] Cons.prems(2) that by auto
    then have "q \<noteq> control ?code p" using control_apart(1) [OF q(2,1) p(1,2)] by simp
    with q p(2) show ?thesis by (simp add: step_other)
  qed
  then have "jump_list ?code' (jump_next ?code p) ps" by (intro jump_list_cong [OF p(5)]) simp_all
  moreover have "known_control ?code' q \<and> in_reach q vt \<and> in_reach q dt" if "q \<in> set ps" for q
    using Cons.prems(4) [of q] that known_control_step [OF p(1-3), of q] here(1) by simp
  ultimately have "patchlist_loop m (fs\<lparr>fs_code := ?code'\<rparr>) (jump_next ?code p) vt reg dt =
      Inr (fs\<lparr>fs_code := patch_all vt reg dt ps ?code'\<rparr>)"
    using Cons.IH [of "fs\<lparr>fs_code := ?code'\<rparr>" "jump_next ?code p" m] Cons.prems(2,3) n by simp
  then show ?case unfolding n p(4) patch_round [OF p(1-3) here] by (simp add: patch_all_def)
qed

definition jumps_at :: "Instruction list \<Rightarrow> int list \<Rightarrow> bool" where
  "jumps_at code ps \<longleftrightarrow> (\<forall>p \<in> set ps. 0 \<le> p \<and> p < int (length code) \<and> jumps (code_at code p))"

lemma jumps_at_step:
  assumes "jumps_at code (p # ps)" "distinct (p # ps)"
  shows "jumps_at (patch_step vt reg dt p code) ps"
  unfolding jumps_at_def
proof
  fix q assume q: "q \<in> set ps"
  have a: "jumps (code_at code p)" "0 \<le> p" "jumps (code_at code q)" "0 \<le> q" "p \<noteq> q" "q < int (length code)"
    using assms q by (auto simp: jumps_at_def)
  then have "code_at (patch_step vt reg dt p code) q = code_at code q"
    using control_apart(1) [OF a(3,4,1,2)] by (intro step_other) auto
  with a show "0 \<le> q \<and> q < int (length (patch_step vt reg dt p code)) \<and> jumps (code_at (patch_step vt reg dt p code) q)" by simp
qed

lemma patch_all_other:
  assumes "jumps_at code ps" "distinct ps" "0 \<le> q" "q \<notin> set ps" "q \<notin> control code ` set ps"
  shows "code_at (patch_all vt reg dt ps code) q = code_at code q"
  using assms
proof (induction ps arbitrary: code)
  case (Cons p ps)
  have p: "jumps (code_at code p)" "0 \<le> p" "p < int (length code)" using Cons.prems(1) by (auto simp: jumps_at_def)
  have "code_at (patch_all vt reg dt ps (patch_step vt reg dt p code)) q = code_at (patch_step vt reg dt p code) q"
    using Cons.prems by (intro Cons.IH jumps_at_step) (auto simp: control_step [OF p])
  also have "\<dots> = code_at code q" using Cons.prems(3-5) p(2) by (intro step_other) auto
  finally show ?case by (simp add: patch_all_def)
qed (simp add: patch_all_def)

text \<open>A step does at its own positions what it would do in any code that has the same instructions there.\<close>

lemma step_local:
  assumes "jumps (code_at code q)" "0 \<le> q" "q < int (length code)" "length code' = length code"
    and "code_at code' q = code_at code q" "code_at code' (control code q) = code_at code (control code q)"
    and "control code' q = control code q" "q' = q \<or> q' = control code q"
  shows "code_at (patch_step vt reg dt q code') q' = code_at (patch_step vt reg dt q code) q'"
proof (cases "q' = q")
  case True
  with assms show ?thesis by (simp add: step_jump)
next
  case False
  with assms show ?thesis using step_control [of code q vt reg dt] step_control [of code' q vt reg dt] by auto
qed

lemma patch_all_at:
  assumes "jumps_at code ps" "distinct ps" "q \<in> set ps" "q' = q \<or> q' = control code q"
  shows "code_at (patch_all vt reg dt ps code) q' = code_at (patch_step vt reg dt q code) q'"
  using assms
proof (induction ps arbitrary: code)
  case (Cons p ps)
  let ?code' = "patch_step vt reg dt p code"
  have p: "jumps (code_at code p)" "0 \<le> p" "p < int (length code)" using Cons.prems(1) by (auto simp: jumps_at_def)
  have q: "jumps (code_at code q)" "0 \<le> q" "q < int (length code)" using Cons.prems(1,3) by (auto simp: jumps_at_def)
  note at' = jumps_at_step [OF Cons.prems(1,2), of vt reg dt]
  have apart: "q' \<noteq> r" "q' \<noteq> control code r" if "r \<in> set (p # ps)" "r \<noteq> q" for r
  proof -
    have r: "jumps (code_at code r)" "0 \<le> r" using that(1) Cons.prems(1) by (auto simp: jumps_at_def)
    show "q' \<noteq> r" "q' \<noteq> control code r"
      using Cons.prems(4) control_apart [OF r q(1,2)] control_apart [OF q(1,2) r] that(2) by auto
  qed
  have pos: "0 \<le> q'" using Cons.prems(4) q(2) by (auto simp: control_def)
  show ?case
  proof (cases "q = p")
    case True
    then have "q' \<notin> set ps" "q' \<notin> control ?code' ` set ps" using apart Cons.prems(2) by (auto simp: control_step [OF p])
    with True show ?thesis using patch_all_other [OF at' _ pos] Cons.prems(2) by (simp add: patch_all_def)
  next
    case False
    then have "code_at (patch_all vt reg dt ps ?code') q' = code_at (patch_step vt reg dt q ?code') q'"
      using Cons.prems by (intro Cons.IH at') (auto simp: control_step [OF p])
    also have "\<dots> = code_at (patch_step vt reg dt q code) q'"
    proof (rule step_local [OF q])
      have a: "control code p \<noteq> q" "control code q \<noteq> p" "control code p \<noteq> control code q" "0 \<le> control code q"
        using control_apart [OF p(1,2) q(1,2)] control_apart [OF q(1,2) p(1,2)] False by auto
      show "code_at ?code' q = code_at code q" using a(1) False p(2) q(2) by (intro step_other) auto
      show "code_at ?code' (control code q) = code_at code (control code q)" using a p(2) by (intro step_other) auto
    qed (use Cons.prems(4) in \<open>simp_all add: control_step [OF p]\<close>)
    finally show ?thesis by (simp add: patch_all_def)
  qed
qed simp

lemma patch_all_length [simp]: "length (patch_all vt reg dt ps code) = length code"
  unfolding patch_all_def by (induction ps arbitrary: code) auto

lemma jump_list_jumps_at: "jump_list code l ps \<Longrightarrow> jumps_at code ps"
  using jump_list_positions unfolding jumps_at_def by blast

text \<open>C4: \<open>patchlistaux\<close> gives every jump of a list its target: the ones controlled by an \<open>OP_TESTSET\<close> get
\<open>vtarget\<close> and the others \<open>dtarget\<close>; such a control writes to the register or becomes an \<open>OP_TEST\<close>, and no other
instruction changes.\<close>

theorem patchlistaux_patches:
  assumes "jump_list (fs_code fs) l ps" "distinct ps"
    and "\<And>p. p \<in> set ps \<Longrightarrow> known_control (fs_code fs) p \<and> in_reach p vtarget \<and> in_reach p dtarget"
  shows "\<exists>code'. patchlistaux fs l vtarget reg dtarget = Inr (fs\<lparr>fs_code := code'\<rparr>) \<and> length code' = length (fs_code fs)
    \<and> (\<forall>p \<in> set ps. let c = control (fs_code fs) p; i = code_at (fs_code fs) c
         in jump_target code' p = (if is_op i OP_TESTSET then vtarget else dtarget) \<and> jumps (code_at code' p)
            \<and> (c \<noteq> p \<longrightarrow> code_at code' c = patched_test reg i))
    \<and> (\<forall>q \<ge> 0. q \<notin> set ps \<and> q \<notin> control (fs_code fs) ` set ps \<longrightarrow> code_at code' q = code_at (fs_code fs) q)"
proof (intro exI conjI)
  let ?code = "fs_code fs"
  let ?code' = "patch_all vtarget reg dtarget ps ?code"
  note at = jump_list_jumps_at [OF assms(1)]
  have "length ps < Suc (length ?code)" using jump_list_length [OF assms(1,2)] by simp
  then show "patchlistaux fs l vtarget reg dtarget = Inr (fs\<lparr>fs_code := ?code'\<rparr>)"
    unfolding patchlistaux_def by (intro patch_loop_all assms)
  show "length ?code' = length ?code" by simp
  show "\<forall>q \<ge> 0. q \<notin> set ps \<and> q \<notin> control ?code ` set ps \<longrightarrow> code_at ?code' q = code_at ?code q"
    using patch_all_other [OF at assms(2)] by blast
  show "\<forall>p \<in> set ps. let c = control ?code p; i = code_at ?code c
         in jump_target ?code' p = (if is_op i OP_TESTSET then vtarget else dtarget) \<and> jumps (code_at ?code' p)
            \<and> (c \<noteq> p \<longrightarrow> code_at ?code' c = patched_test reg i)"
  proof
    fix p assume p: "p \<in> set ps"
    have j: "jumps (code_at ?code p)" "0 \<le> p" "p < fs_pc fs" using at p by (auto simp: jumps_at_def)
    note local = patch_all_at [OF at assms(2) p]
    have "code_at ?code' p = SETARG_sBx (code_at ?code p)
        ((if is_op (code_at ?code (control ?code p)) OP_TESTSET then vtarget else dtarget) - (p + 1))"
      using local step_jump [OF j] by simp
    moreover have "control ?code p \<noteq> p \<longrightarrow> code_at ?code' (control ?code p) = patched_test reg (code_at ?code (control ?code p))"
      using local step_control [OF _ j(3)] by simp
    ultimately show "let c = control ?code p; i = code_at ?code c
         in jump_target ?code' p = (if is_op i OP_TESTSET then vtarget else dtarget) \<and> jumps (code_at ?code' p)
            \<and> (c \<noteq> p \<longrightarrow> code_at ?code' c = patched_test reg i)"
      using assms(3) [OF p] j(1) by (simp add: Let_def jump_target_def sBx_reach)
  qed
qed

section \<open>The lists of a small function\<close>

text \<open>The code of \<open>a and x < y\<close> so far: the second jump is the first one of its list.\<close>

definition and_code :: "Instruction list" where
  "and_code = [CREATE_ABC OP_TESTSET 255 0 0, CREATE_ABx OP_JMP 0 131070, CREATE_ABC OP_LT 0 1 2, CREATE_ABx OP_JMP 0 131068]"

lemma and_code_list: "jump_list and_code 3 [3, 1]"
  by code_simp

theorem patchlistaux_patches_witness:
  "\<forall>fs. \<exists>code'. patchlistaux (fs\<lparr>fs_code := and_code\<rparr>) 3 4 5 0 = Inr (fs\<lparr>fs_code := code'\<rparr>)
     \<and> jump_target code' 1 = 4 \<and> jump_target code' 3 = 0 \<and> GETARG_A (code_at code' 0) = 5"
proof
  fix fs :: FuncState
  let ?fs = "fs\<lparr>fs_code := and_code\<rparr>"
  have h: "jump_list (fs_code ?fs) 3 [3, 1]" "distinct [3, 1::int]" using and_code_list by simp_all
  have k: "known_control (fs_code ?fs) p \<and> in_reach p 4 \<and> in_reach p 0" if "p \<in> set [3, 1]" for p
  proof -
    have "known_control and_code 3 \<and> in_reach 3 4 \<and> in_reach 3 0 \<and> known_control and_code 1 \<and> in_reach 1 4 \<and> in_reach 1 0" by code_simp
    with that show ?thesis by auto
  qed
  have c: "control and_code 1 = 0 \<and> is_op (code_at and_code 0) OP_TESTSET" "\<not> is_op (code_at and_code (control and_code 3)) OP_TESTSET"
    "GETARG_A (patched_test 5 (code_at and_code 0)) = 5" by code_simp+
  obtain code' where code': "patchlistaux ?fs 3 4 5 0 = Inr (?fs\<lparr>fs_code := code'\<rparr>)"
    "\<forall>p \<in> set [3, 1]. let c = control and_code p; i = code_at and_code c
       in jump_target code' p = (if is_op i OP_TESTSET then 4 else 0) \<and> jumps (code_at code' p)
          \<and> (c \<noteq> p \<longrightarrow> code_at code' c = patched_test 5 i)"
    using patchlistaux_patches [OF h k, of 5] by auto
  then show "\<exists>code'. patchlistaux ?fs 3 4 5 0 = Inr (fs\<lparr>fs_code := code'\<rparr>)
     \<and> jump_target code' 1 = 4 \<and> jump_target code' 3 = 0 \<and> GETARG_A (code_at code' 0) = 5"
    using c by (intro exI [of _ code']) (simp add: Let_def)
qed

text \<open>The list of a jump alone is joined to it.\<close>

definition two_jumps :: "Instruction list" where
  "two_jumps = [CREATE_ABx OP_JMP 0 131070, CREATE_ABx OP_JMP 0 131070]"

theorem concat_joins_witness:
  "\<forall>fs. \<exists>fs' l. luaK_concat (fs\<lparr>fs_code := two_jumps\<rparr>) 1 0 = Inr (fs', l) \<and> jump_list (fs_code fs') l [1, 0]"
proof
  fix fs :: FuncState
  have "jump_list two_jumps 1 [1] \<and> jump_list two_jumps 0 [0] \<and> in_reach 1 0" by code_simp
  then have "jump_list (fs_code (fs\<lparr>fs_code := two_jumps\<rparr>)) 1 [1]" "jump_list (fs_code (fs\<lparr>fs_code := two_jumps\<rparr>)) 0 [0]"
    "distinct ([1] @ [0::int])" "[1] \<noteq> [] \<Longrightarrow> [0::int] \<noteq> [] \<Longrightarrow> in_reach (last [1]) 0" by simp_all
  from concat_joins [OF this]
  show "\<exists>fs' l. luaK_concat (fs\<lparr>fs_code := two_jumps\<rparr>) 1 0 = Inr (fs', l) \<and> jump_list (fs_code fs') l [1, 0]" by auto
qed

end
