(* ===== verification/LuaConsts.thy ===== *)
theory LuaConsts
  imports LuaCode
begin

text \<open>
  The constants and the registers of the code generator: the table of constants finds each constant again,
  \<open>luaK_nil\<close> joins assignments of nil, and the stack size bounds the registers.
\<close>

section \<open>The table of constants\<close>

text \<open>The constant that \<open>addk\<close> keeps for a key: nil for the table itself, the key for any other one.\<close>

definition const_for :: "addr \<Rightarrow> tvalue \<Rightarrow> tvalue \<Rightarrow> bool" where
  "const_for a k v \<longleftrightarrow> (if k = TTable a then v = TNil else luaO_rawequalObj k v)"

definition consts_ok :: "FuncState \<Rightarrow> bool" where
  "consts_ok fs \<longleftrightarrow> table_ok (ls_h (fs_ls fs)) \<and> fs_nk fs \<le> MAXARG_Bx
     \<and> (\<forall>k n. valid_key k \<longrightarrow> tget (ls_h (fs_ls fs)) k = TNumber n \<longrightarrow>
          (\<exists>i < length (fs_k fs). n = cast_num (int i) \<and> const_for (fs_haddr fs) k (fs_k fs ! i)))"

lemma const_for_equal:
  assumes "const_for a k v" "luaO_rawequalObj k k'"
  shows "const_for a k' v"
proof -
  have "k = TTable a \<longleftrightarrow> k' = TTable a" using assms(2) by (auto simp: rawequal_cases split: tvalue.splits)
  moreover have "luaO_rawequalObj k v \<Longrightarrow> luaO_rawequalObj k' v"
    using assms(2) rawequal_sym rawequal_trans by blast
  ultimately show ?thesis using assms(1) by (simp add: const_for_def)
qed

lemma slot_val_tget: "set_ok t k r \<Longrightarrow> valid_key k \<Longrightarrow> slot_val (fst r) (snd r) = tget t k"
  by (metis set_ok_def slot_of_def tget_def read_slot_def option.simps(5))

lemma slot_set_id: "slot_set t s (slot_val t s) = t"
  by (cases s) (simp_all add: slot_set_def slot_val_def)

lemma set_ok_table: "set_ok t k r \<Longrightarrow> table_ok (fst r)"
  by (metis set_ok_def slot_set_id)

lemma consts_ok_same:
  assumes "consts_ok fs" "table_ok h" "\<And>k. valid_key k \<Longrightarrow> tget h k = tget (ls_h (fs_ls fs)) k"
  shows "consts_ok (fs\<lparr>fs_ls := (fs_ls fs)\<lparr>ls_h := h\<rparr>\<rparr>)"
  using assms by (auto simp: consts_ok_def)

lemma nth_old: "i < length xs \<Longrightarrow> (xs @ ys) ! i = xs ! i"
  by (simp add: nth_append)

lemma consts_ok_new:
  assumes ok: "consts_ok fs" and r: "set_ok (ls_h (fs_ls fs)) k r" and k: "valid_key k" "const_for (fs_haddr fs) k v"
    and room: "fs_nk fs < MAXARG_Bx"
  shows "consts_ok (fs\<lparr>fs_ls := (fs_ls fs)\<lparr>ls_h := slot_set (fst r) (snd r) (TNumber (cast_num (fs_nk fs)))\<rparr>,
    fs_k := fs_k fs @ [v]\<rparr>)" (is "consts_ok ?fs")
proof -
  let ?h = "slot_set (fst r) (snd r) (TNumber (cast_num (fs_nk fs)))"
  have h: "table_ok ?h" "\<And>k'. valid_key k' \<Longrightarrow> tget ?h k' = (if luaO_rawequalObj k k' then TNumber (cast_num (fs_nk fs))
      else tget (ls_h (fs_ls fs)) k')"
    using r by (auto simp: set_ok_def)
  have "\<exists>i < length (fs_k ?fs). n = cast_num (int i) \<and> const_for (fs_haddr fs) k' (fs_k ?fs ! i)"
    if k': "valid_key k'" "tget ?h k' = TNumber n" for k' n
  proof (cases "luaO_rawequalObj k k'")
    case True
    then have "n = cast_num (fs_nk fs)" "const_for (fs_haddr fs) k' v" using h(2) [OF k'(1)] k' const_for_equal [OF k(2)] by auto
    then show ?thesis by (intro exI [of _ "length (fs_k fs)"]) simp
  next
    case False
    then have "tget (ls_h (fs_ls fs)) k' = TNumber n" using h(2) [OF k'(1)] k' by simp
    then obtain i where "i < length (fs_k fs)" "n = cast_num (int i)" "const_for (fs_haddr fs) k' (fs_k fs ! i)"
      using ok k'(1) unfolding consts_ok_def by blast
    then show ?thesis by (intro exI [of _ i]) (simp add: nth_old)
  qed
  then show ?thesis using h(1) room by (simp add: consts_ok_def)
qed

text \<open>The outcomes of \<open>addk\<close>: the constant of the key is found, or it is new and goes to the end.\<close>

lemma addk_cases:
  assumes ok: "consts_ok fs" and k: "valid_key k" "const_for (fs_haddr fs) k v"
  obtains (error) e where "addk fs k v = Inl (LUA_ERRRUN e)" "e \<in> {''table overflow'', ''constant table overflow''}"
  | (found) fs' i where "addk fs k v = Inr (fs', int i)" "consts_ok fs'" "fs_k fs' = fs_k fs" "i < length (fs_k fs)"
      "const_for (fs_haddr fs) k (fs_k fs ! i)" "tget (ls_h (fs_ls fs)) k = TNumber (cast_num (int i))"
      "\<And>k'. valid_key k' \<Longrightarrow> tget (ls_h (fs_ls fs')) k' = tget (ls_h (fs_ls fs)) k'" "fs_haddr fs' = fs_haddr fs"
  | (new) fs' where "addk fs k v = Inr (fs', fs_nk fs)" "consts_ok fs'" "fs_k fs' = fs_k fs @ [v]"
      "\<And>n. tget (ls_h (fs_ls fs)) k \<noteq> TNumber n"
      "tget (ls_h (fs_ls fs')) k = TNumber (cast_num (fs_nk fs))" "fs_haddr fs' = fs_haddr fs"
proof -
  have t: "table_ok (ls_h (fs_ls fs))" "fs_nk fs \<le> MAXARG_Bx" using ok by (auto simp: consts_ok_def)
  from luaH_set_cases [OF t(1) k(1)] consider "luaH_set (ls_h (fs_ls fs)) k = Inl (LUA_ERRRUN ''table overflow'')"
    | r where "luaH_set (ls_h (fs_ls fs)) k = Inr r" "set_ok (ls_h (fs_ls fs)) k r" by (auto simp: overflow_def)
  then show thesis
  proof cases
    case 1
    then show ?thesis by (intro error [of "''table overflow''"]) (simp_all add: addk_def)
  next
    case (2 r)
    obtain h s where r: "r = (h, s)" by fastforce
    have same: "tget h k' = tget (ls_h (fs_ls fs)) k'" if "valid_key k'" for k'
      using 2(2) that by (simp add: set_ok_def r)
    have h: "table_ok h" using set_ok_table [OF 2(2)] by (simp add: r)
    have val: "slot_val h s = tget (ls_h (fs_ls fs)) k" using slot_val_tget [OF 2(2) k(1)] by (simp add: r)
    show ?thesis
    proof (cases "\<exists>n. tget (ls_h (fs_ls fs)) k = TNumber n")
      case True
      then obtain i where i: "i < length (fs_k fs)" "tget (ls_h (fs_ls fs)) k = TNumber (cast_num (int i))"
        "const_for (fs_haddr fs) k (fs_k fs ! i)" using ok k(1) unfolding consts_ok_def by blast
      have "lua_number2int (cast_num (int i)) = int i"
        using i(1) t(2) by (intro lua_number2int_cast_num) simp_all
      then have a: "addk fs k v = Inr (fs\<lparr>fs_ls := (fs_ls fs)\<lparr>ls_h := h\<rparr>\<rparr>, int i)" using 2(1) val i(2) by (simp add: addk_def r)
      show ?thesis by (rule found [OF a consts_ok_same [OF ok h same]]) (use i same in simp_all)
    next
      case False
      show ?thesis
      proof (cases "fs_nk fs < MAXARG_Bx")
        case True
        have a: "addk fs k v = Inr (fs\<lparr>fs_ls := (fs_ls fs)\<lparr>ls_h := slot_set h s (TNumber (cast_num (fs_nk fs)))\<rparr>,
            fs_k := fs_k fs @ [v]\<rparr>, fs_nk fs)"
          using 2(1) val False True by (auto simp: addk_def r split: tvalue.splits)
        have "tget (slot_set h s (TNumber (cast_num (fs_nk fs)))) k = TNumber (cast_num (fs_nk fs))"
          using 2(2) k(1) valid_rawequal_refl by (simp add: r set_ok_def)
        then show ?thesis by (intro new [OF a consts_ok_new [OF ok 2(2) k True, unfolded r fst_conv snd_conv]]) (use False in simp_all)
      next
        case no: False
        then show ?thesis using 2(1) val False
          by (intro error [of "''constant table overflow''"]) (auto simp: addk_def r split: tvalue.splits)
      qed
    qed
  qed
qed

lemma luaH_set_found:
  assumes "table_ok t" "valid_key k" "tget t k \<noteq> TNil"
  shows "\<exists>r. luaH_set t k = Inr r"
proof -
  obtain s where "luaH_get t k = Some s" using assms(3) by (cases "luaH_get t k") (auto simp: tget_def read_slot_def)
  then show ?thesis using assms(2) by (simp add: luaH_set_def luaH_set_with_eq)
qed

lemma addk_found:
  assumes "consts_ok fs" "valid_key k" "const_for (fs_haddr fs) k v" "tget (ls_h (fs_ls fs)) k = TNumber n"
  shows "\<exists>fs' i. addk fs k v = Inr (fs', int i) \<and> n = cast_num (int i) \<and> i < length (fs_k fs) \<and> fs_k fs' = fs_k fs"
proof -
  obtain r where r: "luaH_set (ls_h (fs_ls fs)) k = Inr r"
    using luaH_set_found [of "ls_h (fs_ls fs)" k] assms by (auto simp: consts_ok_def)
  have "slot_val (fst r) (snd r) = TNumber n"
    using slot_val_tget [OF luaH_set_Inr [OF _ assms(2) r] assms(2)] assms(1,4) by (simp add: consts_ok_def)
  then have "\<exists>x. addk fs k v = Inr x" using r by (simp add: addk_def case_prod_beta)
  then obtain x where x: "addk fs k v = Inr x" ..
  from assms(1-3) show ?thesis
  proof (cases rule: addk_cases)
    case (found fs' i)
    with assms(4) show ?thesis by (intro exI [of _ fs'] exI [of _ i]) simp
  next
    case (new fs')
    with assms(4) show ?thesis by blast
  qed (simp add: x)
qed

lemma addk_kept:
  assumes "consts_ok fs" "valid_key k" "const_for (fs_haddr fs) k v" "addk fs k v = Inr (fs', i)"
  shows "consts_ok fs' \<and> 0 \<le> i \<and> i < fs_nk fs' \<and> const_for (fs_haddr fs) k (fs_k fs' ! nat i)
    \<and> (fs_k fs' = fs_k fs \<or> fs_k fs' = fs_k fs @ [v]) \<and> tget (ls_h (fs_ls fs')) k = TNumber (cast_num i)
    \<and> fs_haddr fs' = fs_haddr fs"
  using assms(1-3)
proof (cases rule: addk_cases)
  case (found fs1 j)
  then show ?thesis using assms(2,4) by auto
next
  case (new fs1)
  then show ?thesis using assms(3,4) by auto
qed (simp add: assms(4))

lemma addk_again:
  assumes "consts_ok fs" "valid_key k" "const_for (fs_haddr fs) k v" "addk fs k v = Inr (fs', i)"
    and "luaO_rawequalObj k k'" "valid_key k'" "const_for (fs_haddr fs) k' v'"
  shows "\<exists>fs2. addk fs' k' v' = Inr (fs2, i) \<and> fs_k fs2 = fs_k fs'"
proof -
  note main = addk_kept [OF assms(1-4)]
  have "wf_table (ls_h (fs_ls fs'))" using main by (simp add: consts_ok_def table_ok_def)
  then have "tget (ls_h (fs_ls fs')) k' = TNumber (cast_num i)"
    using main luaH_get_rawequal [OF _ assms(2,5)] by (simp add: tget_def)
  then obtain fs2 j where j: "addk fs' k' v' = Inr (fs2, int j)" "cast_num i = cast_num (int j)" "j < length (fs_k fs')" "fs_k fs2 = fs_k fs'"
    using addk_found [of fs' k' v' "cast_num i"] main assms(6,7) by auto
  have "fs_nk fs' \<le> 262143" "0 \<le> i" "i < fs_nk fs'" using main by (simp_all add: consts_ok_def)
  with j(3) have "lua_number2int (cast_num (int j)) = int j" "lua_number2int (cast_num i) = i"
    by (intro lua_number2int_cast_num; linarith)+
  with j(2) have "int j = i" by metis
  with j show ?thesis by blast
qed

text \<open>C10: \<open>addk\<close> keeps the table of constants: the index it returns holds the constant of the key, the other
constants stay where they are, and an equal key gets the same index later without a new constant.\<close>

theorem addk_shares:
  assumes "consts_ok fs" "valid_key k" "const_for (fs_haddr fs) k v" "addk fs k v = Inr (fs', i)"
  shows "consts_ok fs' \<and> 0 \<le> i \<and> i < fs_nk fs' \<and> const_for (fs_haddr fs) k (fs_k fs' ! nat i)
    \<and> (fs_k fs' = fs_k fs \<or> fs_k fs' = fs_k fs @ [v])
    \<and> (\<forall>k' v'. luaO_rawequalObj k k' \<and> valid_key k' \<and> const_for (fs_haddr fs) k' v' \<longrightarrow>
         (\<exists>fs2. addk fs' k' v' = Inr (fs2, i) \<and> fs_k fs2 = fs_k fs'))"
  using addk_kept [OF assms] addk_again [OF assms] by simp

text \<open>A table of constants that is empty.\<close>

definition no_entries :: lua_table where
  "no_entries = \<lparr>flags = 255, lsizenode = 0, metatable = None, array = [], node = [empty_node],
     is_dummy = True, lastfree = 0, sizearray = 0\<rparr>"

lemma no_entries_ok: "table_ok no_entries" "valid_key k \<Longrightarrow> tget no_entries k = TNil"
proof -
  have "luaH_new 0 0 = Inr no_entries" by code_simp
  then show "table_ok no_entries" "valid_key k \<Longrightarrow> tget no_entries k = TNil" using luaH_new_ok [of 0 0] by auto
qed

definition with_no_constants :: "FuncState \<Rightarrow> FuncState" where
  "with_no_constants fs = fs\<lparr>fs_k := [], fs_ls := (fs_ls fs)\<lparr>ls_h := no_entries\<rparr>\<rparr>"

lemma no_constants_ok: "consts_ok (with_no_constants fs)"
  using no_entries_ok by (auto simp: consts_ok_def with_no_constants_def)

lemma no_constants_add:
  assumes "case luaH_set no_entries k of Inl e \<Rightarrow> False | Inr r \<Rightarrow> True" "valid_key k"
  obtains fs' where "addk (with_no_constants fs) k v = Inr (fs', 0)"
proof -
  obtain r where r: "luaH_set no_entries k = Inr r" using assms(1) by (auto split: sum.splits)
  have "slot_val (fst r) (snd r) = TNil"
    using slot_val_tget [OF luaH_set_Inr [OF no_entries_ok(1) assms(2) r] assms(2)] no_entries_ok(2) [OF assms(2)] by simp
  then show thesis using r by (intro that) (simp add: addk_def with_no_constants_def case_prod_beta)
qed

theorem addk_shares_witness:
  "\<forall>fs. \<exists>fs'. addk (with_no_constants fs) (TNumber 0) (TNumber 0) = Inr (fs', 0)
     \<and> (\<exists>fs2. addk fs' (TNumber 0) (TNumber 0) = Inr (fs2, 0) \<and> fs_k fs2 = fs_k fs')"
proof
  fix fs
  have v: "valid_key (TNumber 0)" by code_simp
  have c: "const_for a (TNumber 0) (TNumber 0)" "luaO_rawequalObj (TNumber 0) (TNumber 0)" for a
    using valid_rawequal_refl [OF v] by (simp_all add: const_for_def)
  have "case luaH_set no_entries (TNumber 0) of Inl e \<Rightarrow> False | Inr r \<Rightarrow> True" by code_simp
  then obtain fs' where a: "addk (with_no_constants fs) (TNumber 0) (TNumber 0) = Inr (fs', 0)" using no_constants_add v by blast
  from addk_shares [OF no_constants_ok v c(1) a] v c a
  show "\<exists>fs'. addk (with_no_constants fs) (TNumber 0) (TNumber 0) = Inr (fs', 0)
     \<and> (\<exists>fs2. addk fs' (TNumber 0) (TNumber 0) = Inr (fs2, 0) \<and> fs_k fs2 = fs_k fs')" by blast
qed

text \<open>The constants 0 and -0 are equal keys, so the one that comes second is the first one, although they differ
in division.\<close>

lemma minus_zero_const:
  "luai_numunm 0 \<noteq> 0 \<and> luai_numeq 0 (luai_numunm 0)
   \<and> luai_numdiv (cast_num 1) 0 \<noteq> luai_numdiv (cast_num 1) (luai_numunm 0)
   \<and> (\<forall>fs. \<exists>fs1 fs2. luaK_numberK (with_no_constants fs) 0 = Inr (fs1, 0) \<and> luaK_numberK fs1 (luai_numunm 0) = Inr (fs2, 0))"
proof (intro conjI allI)
  show "luai_numunm 0 \<noteq> 0" "luai_numeq 0 (luai_numunm 0)"
    "luai_numdiv (cast_num 1) 0 \<noteq> luai_numdiv (cast_num 1) (luai_numunm 0)" by code_simp+
  fix fs
  have v: "valid_key (TNumber 0)" "valid_key (TNumber (luai_numunm 0))"
    "luaO_rawequalObj (TNumber 0) (TNumber (luai_numunm 0))" by code_simp+
  then have c: "const_for a (TNumber 0) (TNumber 0)" "const_for a (TNumber (luai_numunm 0)) (TNumber (luai_numunm 0))" for a
    using valid_rawequal_refl by (auto simp: const_for_def)
  have "case luaH_set no_entries (TNumber 0) of Inl e \<Rightarrow> False | Inr r \<Rightarrow> True" by code_simp
  then obtain fs1 where a: "addk (with_no_constants fs) (TNumber 0) (TNumber 0) = Inr (fs1, 0)" using no_constants_add v by blast
  from addk_again [OF no_constants_ok v(1) c(1) a v(3,2) c(2)] a
  show "\<exists>fs1 fs2. luaK_numberK (with_no_constants fs) 0 = Inr (fs1, 0) \<and> luaK_numberK fs1 (luai_numunm 0) = Inr (fs2, 0)"
    by (auto simp: luaK_numberK_def)
qed

section \<open>Joining assignments of nil\<close>

text \<open>The registers an \<open>OP_LOADNIL\<close> clears.\<close>

definition nil_regs :: "Instruction \<Rightarrow> int set" where
  "nil_regs i = {GETARG_A i..GETARG_B i}"

text \<open>An \<open>OP_LOADNIL\<close> that follows another one in the same basic block, with registers that overlap or extend the
ones of the first, is joined to it: the one instruction clears exactly the registers of both.\<close>

theorem luaK_nil_joins:
  assumes "fs_code fs = code @ [prev]" "is_op prev OP_LOADNIL" "fs_lasttarget fs < fs_pc fs"
    and "GETARG_A prev \<le> from'" "from' \<le> GETARG_B prev + 1" "1 \<le> n" "from' + n - 1 \<le> MAXARG_B"
  shows "\<exists>i. luaK_nil fs from' n = Inr (fs\<lparr>fs_code := code @ [i]\<rparr>) \<and> is_op i OP_LOADNIL
    \<and> nil_regs i = nil_regs prev \<union> {from'..from' + n - 1}"
proof -
  have A: "GETARG_A (SETARG_B prev x) = GETARG_A prev" for x by (simp add: AB.get_other)
  have at: "get_code fs (fs_pc fs - 1) = Inr prev" using assms(1) by (simp add: get_code_def)
  have g: "0 \<le> GETARG_A prev" using AB.f.get_range by blast
  show ?thesis
  proof (cases "GETARG_B prev < from' + n - 1")
    case True
    then have B: "GETARG_B (SETARG_B prev (from' + n - 1)) = from' + n - 1"
      using assms(4,6,7) g by (intro AB.g.get_set) linarith+
    have "luaK_nil fs from' n = Inr (fs\<lparr>fs_code := code @ [SETARG_B prev (from' + n - 1)]\<rparr>)"
      using True assms(1-5) at by (simp add: luaK_nil_def set_code_def)
    moreover have "is_op (SETARG_B prev (from' + n - 1)) OP_LOADNIL" using assms(2) by (simp add: is_op_def opcode_other)
    moreover have "nil_regs (SETARG_B prev (from' + n - 1)) = nil_regs prev \<union> {from'..from' + n - 1}"
      using True assms(4,5) by (auto simp: nil_regs_def A B)
    ultimately show ?thesis by blast
  next
    case False
    then have "luaK_nil fs from' n = Inr (fs\<lparr>fs_code := code @ [prev]\<rparr>)"
      using assms(1-5) at by (simp add: luaK_nil_def flip: assms(1))
    moreover have "nil_regs prev = nil_regs prev \<union> {from'..from' + n - 1}"
      using False assms(4) by (auto simp: nil_regs_def)
    ultimately show ?thesis using assms(2) by blast
  qed
qed

theorem luaK_nil_joins_witness:
  "\<forall>fs. \<exists>i. luaK_nil (fs\<lparr>fs_lasttarget := 0, fs_code := [CREATE_ABC OP_LOADNIL 0 1 0]\<rparr>) 2 1
       = Inr (fs\<lparr>fs_lasttarget := 0, fs_code := [i]\<rparr>)
     \<and> nil_regs i = {0..2}"
proof
  fix fs :: FuncState
  let ?fs = "fs\<lparr>fs_lasttarget := 0, fs_code := [CREATE_ABC OP_LOADNIL 0 1 0]\<rparr>"
  have c: "is_op (CREATE_ABC OP_LOADNIL 0 1 0) OP_LOADNIL" "GETARG_A (CREATE_ABC OP_LOADNIL 0 1 0) = 0"
    "GETARG_B (CREATE_ABC OP_LOADNIL 0 1 0) = 1" by code_simp+
  have "nil_regs (CREATE_ABC OP_LOADNIL 0 1 0) \<union> {2..2} = {0..2}" by (auto simp: nil_regs_def c)
  then show "\<exists>i. luaK_nil ?fs 2 1 = Inr (fs\<lparr>fs_lasttarget := 0, fs_code := [i]\<rparr>) \<and> nil_regs i = {0..2}"
    using luaK_nil_joins [of ?fs "[]" "CREATE_ABC OP_LOADNIL 0 1 0" 2 1] c by auto
qed

text \<open>C39: at the start of a function the registers count as clean, so the assignment of nil to a parameter, whose
register holds an argument, makes no code.\<close>

theorem luaK_storevar_nil_lost:
  assumes "fs_code fs = []" "fs_lasttarget fs < 0" "ek var = VLOCAL" "ek e = VNIL" "jt e = NO_JUMP" "jf e = NO_JUMP"
  shows "\<exists>e'. luaK_storevar fs var e = Inr (fs, e')"
  using assms
  by (simp add: luaK_storevar_def freeexp_def exp2reg_def discharge2reg_def luaK_dischargevars_def discharge_value_def
      luaK_nil_def in_reg_def hasjumps_def)

theorem luaK_storevar_nil_lost_witness:
  "\<forall>fs. \<exists>e'. luaK_storevar (fs\<lparr>fs_code := [], fs_lasttarget := - 1, fs_nactvar := 1\<rparr>)
      \<lparr>ek = VLOCAL, info = 0, aux = 0, nval = 0, jt = - 1, jf = - 1\<rparr>
      \<lparr>ek = VNIL, info = 0, aux = 0, nval = 0, jt = - 1, jf = - 1\<rparr>
    = Inr (fs\<lparr>fs_code := [], fs_lasttarget := - 1, fs_nactvar := 1\<rparr>, e')"
  by (intro allI luaK_storevar_nil_lost) simp_all

section \<open>Registers\<close>

definition regs_ok :: "FuncState \<Rightarrow> bool" where
  "regs_ok fs \<longleftrightarrow> 0 \<le> fs_freereg fs \<and> fs_freereg fs \<le> fs_maxstacksize fs \<and> fs_maxstacksize fs < MAXSTACK"

lemma syntaxerror_bind: "bindE (luaX_syntaxerror ls msg) f = luaX_syntaxerror ls msg"
  by (cases "txtToken ls (t_token (ls_t ls))") (auto simp: luaX_syntaxerror_def luaX_lexerror_def case_prod_beta)

text \<open>Registers are reserved within the limit of the stack, and one more than that is a syntax error: the size
of the frame never wraps in its byte.\<close>

theorem luaK_reserveregs_ok:
  assumes "regs_ok fs" "0 \<le> n"
  shows "(fs_freereg fs + n < MAXSTACK \<and> (\<exists>fs'. luaK_reserveregs fs n = Inr fs' \<and> regs_ok fs'
      \<and> fs_freereg fs' = fs_freereg fs + n \<and> fs_maxstacksize fs' = max (fs_maxstacksize fs) (fs_freereg fs + n)))
    \<or> (MAXSTACK \<le> fs_freereg fs + n
      \<and> luaK_reserveregs fs n = luaX_syntaxerror (fs_ls fs) ''function or expression too complex'')"
  using assms by (auto simp: luaK_reserveregs_def luaK_checkstack_def syntaxerror_bind regs_ok_def Let_def max_def)

theorem luaK_reserveregs_ok_witness:
  "\<forall>fs. \<exists>fs'. luaK_reserveregs (fs\<lparr>fs_maxstacksize := 2, fs_freereg := 1\<rparr>) 3 = Inr fs' \<and> fs_freereg fs' = 4 \<and> fs_maxstacksize fs' = 4"
proof
  fix fs :: FuncState
  have "regs_ok (fs\<lparr>fs_maxstacksize := 2, fs_freereg := 1\<rparr>)" by (simp add: regs_ok_def)
  from luaK_reserveregs_ok [OF this, of 3]
  show "\<exists>fs'. luaK_reserveregs (fs\<lparr>fs_maxstacksize := 2, fs_freereg := 1\<rparr>) 3 = Inr fs' \<and> fs_freereg fs' = 4 \<and> fs_maxstacksize fs' = 4"
    by auto
qed

text \<open>Emitting code leaves the registers alone.\<close>

definition same_regs :: "FuncState \<Rightarrow> FuncState \<Rightarrow> bool" where
  "same_regs fs fs' \<longleftrightarrow> fs_freereg fs' = fs_freereg fs \<and> fs_maxstacksize fs' = fs_maxstacksize fs
     \<and> fs_nactvar fs' = fs_nactvar fs"

named_theorems frame

lemma same_regs_refl [simp]: "same_regs fs fs"
  by (simp add: same_regs_def)

lemma same_regs_trans: "same_regs a b \<Longrightarrow> same_regs b c \<Longrightarrow> same_regs a c"
  by (simp add: same_regs_def)

lemma same_regs_fields [simp]:
  "same_regs fs (fs'\<lparr>fs_code := c\<rparr>) = same_regs fs fs'" "same_regs fs (fs'\<lparr>fs_lineinfo := li\<rparr>) = same_regs fs fs'"
  "same_regs fs (fs'\<lparr>fs_k := k\<rparr>) = same_regs fs fs'" "same_regs fs (fs'\<lparr>fs_ls := ls\<rparr>) = same_regs fs fs'"
  "same_regs fs (fs'\<lparr>fs_jpc := j\<rparr>) = same_regs fs fs'" "same_regs fs (fs'\<lparr>fs_lasttarget := t\<rparr>) = same_regs fs fs'"
  "same_regs (fs\<lparr>fs_jpc := j\<rparr>) fs' = same_regs fs fs'" "same_regs (fs\<lparr>fs_lasttarget := t\<rparr>) fs' = same_regs fs fs'"
  "same_regs fs (set_code fs' pc i) = same_regs fs fs'"
  by (simp_all add: same_regs_def set_code_def)

lemma fixjump_frame [frame]: "fixjump fs pc dest = Inr fs' \<Longrightarrow> same_regs fs fs'"
  by (auto simp: fixjump_def bindE_Inr_iff Let_def luaX_syntaxerror_def split: if_splits)

lemma patchtestreg_frame [frame]: "patchtestreg fs p reg = Inr (fs', b) \<Longrightarrow> same_regs fs fs'"
  by (auto simp: patchtestreg_def bindE_Inr_iff split: if_splits)

lemma patchlist_loop_frame: "patchlist_loop n fs l vt reg dt = Inr fs' \<Longrightarrow> same_regs fs fs'"
proof (induction n arbitrary: fs l)
  case (Suc n)
  show ?case
  proof (cases "l = NO_JUMP")
    case False
    then obtain nx fs1 b fs2 where "patchtestreg fs l reg = Inr (fs1, b)" "fixjump fs1 l (if b then vt else dt) = Inr fs2"
      "patchlist_loop n fs2 nx vt reg dt = Inr fs'"
      using Suc.prems by (auto simp: bindE_Inr_iff)
    then have "same_regs fs fs1" "same_regs fs1 fs2" "same_regs fs2 fs'"
      by (blast intro: patchtestreg_frame fixjump_frame Suc.IH)+
    then show ?thesis by (blast intro: same_regs_trans)
  qed (use Suc.prems in simp)
qed simp

lemma patchlistaux_frame [frame]: "patchlistaux fs l vt reg dt = Inr fs' \<Longrightarrow> same_regs fs fs'"
  unfolding patchlistaux_def by (rule patchlist_loop_frame)

lemma dischargejpc_frame [frame]: "dischargejpc fs = Inr fs' \<Longrightarrow> same_regs fs fs'"
  by (auto simp: dischargejpc_def bindE_Inr_iff dest: frame)

lemma luaK_concat_frame [frame]: "luaK_concat fs l1 l2 = Inr (fs', l) \<Longrightarrow> same_regs fs fs'"
  by (auto simp: luaK_concat_def bindE_Inr_iff dest: frame split: if_splits)

lemma luaK_patchtohere_frame [frame]: "luaK_patchtohere fs l = Inr fs' \<Longrightarrow> same_regs fs fs'"
  by (fastforce simp: luaK_patchtohere_def luaK_getlabel_def bindE_Inr_iff dest: frame)

lemma luaK_code_frame [frame]: "luaK_code fs i line = Inr (fs', pc) \<Longrightarrow> same_regs fs fs'"
  by (auto simp: luaK_code_def bindE_Inr_iff dest!: frame split: if_splits)

lemma codeABC_frame [frame]: "luaK_codeABC fs o' a b c = Inr (fs', pc) \<Longrightarrow> same_regs fs fs'"
  unfolding luaK_codeABC_def by (rule frame)

lemma codeABx_frame [frame]: "luaK_codeABx fs o' a bc = Inr (fs', pc) \<Longrightarrow> same_regs fs fs'"
  unfolding luaK_codeABx_def by (rule frame)

lemma luaK_nil_frame [frame]: "luaK_nil fs from' n = Inr fs' \<Longrightarrow> same_regs fs fs'"
  by (auto simp: luaK_nil_def bindE_Inr_iff Let_def dest: frame split: if_splits)

lemma luaK_jump_frame [frame]: "luaK_jump fs = Inr (fs', j) \<Longrightarrow> same_regs fs fs'"
  by (auto simp: luaK_jump_def luaK_codeAsBx_def bindE_Inr_iff dest!: frame intro: same_regs_trans)

lemma code_label_frame [frame]: "code_label fs a b j = Inr (fs', pc) \<Longrightarrow> same_regs fs fs'"
  by (auto simp: code_label_def luaK_getlabel_def dest: frame)

lemma addk_frame [frame]:
  assumes "addk fs k v = Inr (fs', i)"
  shows "same_regs fs fs'"
proof -
  obtain r where "luaH_set (ls_h (fs_ls fs)) k = Inr r" using assms by (auto simp: addk_def bindE_Inr_iff)
  with assms show ?thesis by (cases "slot_val (fst r) (snd r)") (auto simp: addk_def case_prod_beta Let_def split: if_splits)
qed

lemma numberK_frame [frame]: "luaK_numberK fs r = Inr (fs', i) \<Longrightarrow> same_regs fs fs'"
  unfolding luaK_numberK_def by (rule frame)

lemma update_code_frame [frame]: "update_code fs pc f = Inr fs' \<Longrightarrow> same_regs fs fs'"
  by (auto simp: update_code_def bindE_Inr_iff)

lemma discharge_value_frame [frame]: "discharge_value fs e reg = Inr (fs', e') \<Longrightarrow> same_regs fs fs'"
  by (auto simp: discharge_value_def bindE_Inr_iff dest: frame intro: same_regs_trans split: expkind.splits if_splits)

lemma reserveregs_fits:
  assumes "luaK_reserveregs fs n = Inr fs'" "0 \<le> fs_maxstacksize fs" "fs_maxstacksize fs < MAXSTACK"
  shows "fs_freereg fs' = fs_freereg fs + n \<and> fs_freereg fs' \<le> fs_maxstacksize fs' \<and> fs_maxstacksize fs' < MAXSTACK
    \<and> fs_nactvar fs' = fs_nactvar fs"
proof (cases "fs_maxstacksize fs < fs_freereg fs + n")
  case True
  with assms have "fs_freereg fs + n < MAXSTACK" by (auto simp: luaK_reserveregs_def luaK_checkstack_def luaX_syntaxerror_def bindE_Inr_iff Let_def split: if_splits)
  moreover from this True assms(2) have "(fs_freereg fs + n) mod 256 = fs_freereg fs + n" by (intro mod_pos_pos_trivial) linarith+
  ultimately show ?thesis using assms True by (auto simp: luaK_reserveregs_def luaK_checkstack_def bindE_Inr_iff)
next
  case False
  with assms show ?thesis by (auto simp: luaK_reserveregs_def luaK_checkstack_def bindE_Inr_iff)
qed

lemma close_jumps_frame [frame]:
  assumes "close_jumps fs e reg = Inr fs'"
  shows "same_regs fs fs'"
proof -
  let ?mid = "\<lambda>need. if need then
      bindE (if ek e = VJMP then Inr (fs, NO_JUMP) else luaK_jump fs) (\<lambda>(fs1, fj).
      bindE (code_label fs1 reg 0 1) (\<lambda>(fs2, p_f).
      bindE (code_label fs2 reg 1 0) (\<lambda>(fs3, p_t).
      bindE (luaK_patchtohere fs3 fj) (\<lambda>fs4. Inr (fs4, p_f, p_t)))))
    else Inr (fs, NO_JUMP, NO_JUMP)"
  obtain need fs5 p_f p_t fs7 where mid: "?mid need = Inr (fs5, p_f, p_t)"
    and rest: "patchlistaux (fst (luaK_getlabel fs5)) (jf e) (snd (luaK_getlabel fs5)) reg p_f = Inr fs7"
      "patchlistaux fs7 (jt e) (snd (luaK_getlabel fs5)) reg p_t = Inr fs'"
    using assms unfolding close_jumps_def by (fastforce simp: bindE_Inr_iff luaK_getlabel_def Let_def)
  have "same_regs fs fs5"
  proof (cases need)
    case True
    then obtain fs1 fj fs2 fs3 where s: "(if ek e = VJMP then Inr (fs, NO_JUMP) else luaK_jump fs) = Inr (fs1, fj)"
      "code_label fs1 reg 0 1 = Inr (fs2, p_f)" "code_label fs2 reg 1 0 = Inr (fs3, p_t)" "luaK_patchtohere fs3 fj = Inr fs5"
      using mid by (auto simp: bindE_Inr_iff)
    have "same_regs fs fs1" using s(1) by (auto dest: frame split: if_splits)
    moreover have "same_regs fs1 fs2" "same_regs fs2 fs3" "same_regs fs3 fs5" using s(2-4) by (blast dest: frame)+
    ultimately show ?thesis by (blast intro: same_regs_trans)
  qed (use mid in simp)
  moreover have "same_regs fs5 fs7" "same_regs fs7 fs'" using rest by (auto dest: frame simp: luaK_getlabel_def)
  ultimately show ?thesis by (blast intro: same_regs_trans)
qed

lemma dischargevars_frame: "luaK_dischargevars fs e = Inr (fs', e') \<Longrightarrow>
   fs_freereg fs' \<le> fs_freereg fs \<and> fs_maxstacksize fs' = fs_maxstacksize fs \<and> fs_nactvar fs' = fs_nactvar fs"
  by (auto simp: luaK_dischargevars_def luaK_setoneret_def bindE_Inr_iff freereg_def same_regs_def dest!: frame split: expkind.splits if_splits)

text \<open>The variables are gone after \<open>luaK_dischargevars\<close>, so a second call changes nothing.\<close>

lemma dischargevars_again: "luaK_dischargevars fs e = Inr (fs', e') \<Longrightarrow> luaK_dischargevars fs2 e' = Inr (fs2, e')"
  by (auto simp: luaK_dischargevars_def luaK_setoneret_def bindE_Inr_iff split: expkind.splits if_splits)

lemma exp2reg_result:
  assumes "exp2reg fs e reg = Inr (fs', e')"
  shows "ek e' = VNONRELOC \<and> info e' = reg \<and> jt e' = NO_JUMP \<and> jf e' = NO_JUMP"
  using assms by (auto simp: exp2reg_def bindE_Inr_iff Let_def)

lemma exp2reg_frame:
  assumes "exp2reg fs e reg = Inr (fs', e')" "luaK_dischargevars fs e = Inr (fs, e)"
  shows "same_regs fs fs'"
proof -
  obtain fs1 e1 fs2 t where s: "discharge_value fs e reg = Inr (fs1, e1)"
    "(if ek e1 = VJMP then luaK_concat fs1 (jt e1) (info e1) else Inr (fs1, jt e1)) = Inr (fs2, t)"
    "(if hasjumps (e1\<lparr>jt := t\<rparr>) then close_jumps fs2 (e1\<lparr>jt := t\<rparr>) reg else Inr fs2) = Inr fs'"
    using assms by (auto simp: exp2reg_def discharge2reg_def bindE_Inr_iff Let_def)
  have "same_regs fs fs1" "same_regs fs1 fs2" "same_regs fs2 fs'"
    using s by (auto dest: frame split: if_splits)
  then show ?thesis by (blast intro: same_regs_trans)
qed

text \<open>\<open>luaK_exp2nextreg\<close> leaves the value of an expression without pending jumps in the highest register in use; it
takes at most one register more than before, and the frame still has room for all of them.\<close>

theorem luaK_exp2nextreg_next:
  assumes "luaK_exp2nextreg fs e = Inr (fs', e')" "0 \<le> fs_maxstacksize fs" "fs_maxstacksize fs < MAXSTACK"
  shows "ek e' = VNONRELOC \<and> info e' = fs_freereg fs' - 1 \<and> \<not> hasjumps e'
    \<and> fs_freereg fs' \<le> fs_freereg fs + 1 \<and> fs_freereg fs' \<le> fs_maxstacksize fs' \<and> fs_maxstacksize fs' < MAXSTACK
    \<and> fs_nactvar fs' = fs_nactvar fs"
proof -
  obtain fs1 e1 fs2 where s: "luaK_dischargevars fs e = Inr (fs1, e1)" "luaK_reserveregs (freeexp fs1 e1) 1 = Inr fs2"
    "exp2reg fs2 e1 (fs_freereg fs2 - 1) = Inr (fs', e')"
    using assms(1) by (auto simp: luaK_exp2nextreg_def bindE_Inr_iff)
  note d = dischargevars_frame [OF s(1)]
  have "fs_freereg (freeexp fs1 e1) \<le> fs_freereg fs1" "fs_maxstacksize (freeexp fs1 e1) = fs_maxstacksize fs1"
    "fs_nactvar (freeexp fs1 e1) = fs_nactvar fs1" by (auto simp: freeexp_def freereg_def)
  with reserveregs_fits [OF s(2)] d assms(2,3)
  have "fs_freereg fs2 \<le> fs_freereg fs1 + 1" "fs_freereg fs2 \<le> fs_maxstacksize fs2" "fs_maxstacksize fs2 < MAXSTACK"
    "fs_nactvar fs2 = fs_nactvar fs1" by auto
  with d exp2reg_frame [OF s(3) dischargevars_again [OF s(1)]] exp2reg_result [OF s(3)] show ?thesis
    by (auto simp: same_regs_def hasjumps_def)
qed

theorem luaK_exp2nextreg_next_witness:
  "\<forall>fs. \<exists>fs' e'. luaK_exp2nextreg (fs\<lparr>fs_code := [], fs_lasttarget := 0, fs_maxstacksize := 2, fs_jpc := - 1, fs_freereg := 1, fs_nactvar := 1\<rparr>)
      \<lparr>ek = VTRUE, info = 0, aux = 0, nval = 0, jt = - 1, jf = - 1\<rparr> = Inr (fs', e') \<and> ek e' = VNONRELOC
    \<and> info e' = fs_freereg fs' - 1 \<and> fs_freereg fs' \<le> 2"
proof
  fix fs :: FuncState
  let ?fs = "fs\<lparr>fs_code := [], fs_lasttarget := 0, fs_maxstacksize := 2, fs_jpc := - 1, fs_freereg := 1, fs_nactvar := 1\<rparr>"
  let ?e = "\<lparr>ek = VTRUE, info = 0, aux = 0, nval = 0, jt = - 1, jf = - 1\<rparr>"
  have "\<exists>x. luaK_exp2nextreg ?fs ?e = Inr x"
    by (simp add: luaK_exp2nextreg_def luaK_dischargevars_def freeexp_def luaK_reserveregs_def luaK_checkstack_def exp2reg_def
        discharge2reg_def discharge_value_def luaK_codeABC_def luaK_code_def dischargejpc_def patchlistaux_def in_reg_def hasjumps_def MAX_INT_def)
  then obtain fs' e' where r: "luaK_exp2nextreg ?fs ?e = Inr (fs', e')" by force
  from luaK_exp2nextreg_next [OF r] r
  show "\<exists>fs' e'. luaK_exp2nextreg ?fs ?e = Inr (fs', e') \<and> ek e' = VNONRELOC \<and> info e' = fs_freereg fs' - 1 \<and> fs_freereg fs' \<le> 2"
    by auto
qed

end
