(* ===== verification/LuaParser.thy ===== *)
theory LuaParser
  imports LuaCode LuaDump
begin

text \<open>
  lparser.c: the parser. It reads the tokens and calls the code generator as it goes, so its state is the lexical
  state, the function that is compiled and the chain of the functions around it.

  A parsing function takes the state and returns a value and the new state, or an error. Its loops are bounded by the
  number of tokens that are left and its recursion by the limit on syntactic levels; the result is \<open>None\<close> if such a
  bound is reached, which the theory LuaParserEnds excludes. A pointer to an \<open>expdesc\<close> is an argument and a result.
  What luaX and luaK do to the registry, the stack and the collector is left out.
\<close>

section \<open>State\<close>

text \<open>The blocks are a list, the innermost one first.\<close>

record BlockCnt =
  breaklist :: int
  bl_nactvar :: int
  bl_upval :: bool
  isbreakable :: bool

record upvaldesc =
  ud_name :: string
  ud_k :: expkind
  ud_info :: int

text \<open>A function that is compiled: the fields of \<open>FuncState\<close> that the code generator does not use, and those of its
prototype. \<open>fn_actvar\<close> has \<open>LUAI_MAXVARS\<close> elements.\<close>

record Func =
  fn_fs :: FuncState
  fn_bl :: "BlockCnt list"
  fn_p :: "Proto list"
  fn_locvars :: "LocVar list"
  fn_actvar :: "int list"
  fn_upvalues :: "upvaldesc list"
  fn_linedefined :: int
  fn_lastlinedefined :: int
  fn_is_vararg :: int
  fn_numparams :: int

record Parser =
  ps_fn :: Func
  ps_prev :: "Func list"
  ps_nCcalls :: int

abbreviation (input) LUAI_MAXCCALLS :: int where "LUAI_MAXCCALLS \<equiv> 200"
abbreviation (input) LUAI_MAXVARS :: int where "LUAI_MAXVARS \<equiv> 200"
abbreviation (input) LUAI_MAXUPVALUES :: int where "LUAI_MAXUPVALUES \<equiv> 60"
abbreviation (input) SHRT_MAX :: int where "SHRT_MAX \<equiv> 32767"
abbreviation (input) VARARG_HASARG :: int where "VARARG_HASARG \<equiv> 1"

abbreviation ps_fs :: "Parser \<Rightarrow> FuncState" where "ps_fs s \<equiv> fn_fs (ps_fn s)"
abbreviation ps_ls :: "Parser \<Rightarrow> LexState" where "ps_ls s \<equiv> fs_ls (ps_fs s)"
abbreviation token :: "Parser \<Rightarrow> int" where "token s \<equiv> t_token (ls_t (ps_ls s))"

definition set_fn :: "(Func \<Rightarrow> Func) \<Rightarrow> Parser \<Rightarrow> Parser" where
  "set_fn f s = s\<lparr>ps_fn := f (ps_fn s)\<rparr>"

definition set_fs :: "(FuncState \<Rightarrow> FuncState) \<Rightarrow> Parser \<Rightarrow> Parser" where
  "set_fs f s = set_fn (\<lambda>fn. fn\<lparr>fn_fs := f (fn_fs fn)\<rparr>) s"

definition set_ls :: "LexState \<Rightarrow> Parser \<Rightarrow> Parser" where
  "set_ls ls s = set_fs (\<lambda>fs. fs\<lparr>fs_ls := ls\<rparr>) s"

section \<open>Parsing functions\<close>

type_synonym 'a P = "Parser \<Rightarrow> ('a \<times> Parser) res option"

definition returnP :: "'a \<Rightarrow> 'a P" where
  "returnP x s = Some (Inr (x, s))"

definition bindP :: "'a P \<Rightarrow> ('a \<Rightarrow> 'b P) \<Rightarrow> 'b P" where
  "bindP m f s = (case m s of
     None \<Rightarrow> None
   | Some (Inl e) \<Rightarrow> Some (Inl e)
   | Some (Inr (x, s')) \<Rightarrow> f x s')"

definition thenP :: "'a P \<Rightarrow> 'b P \<Rightarrow> 'b P" where
  "thenP m k = bindP m (\<lambda>_. k)"

text \<open>Reading the state, changing it, and a call that may fail without changing it.\<close>

definition readP :: "(Parser \<Rightarrow> 'a) \<Rightarrow> ('a \<Rightarrow> 'b P) \<Rightarrow> 'b P" where
  "readP g f s = f (g s) s"

definition doP :: "(Parser \<Rightarrow> Parser) \<Rightarrow> unit P" where
  "doP f s = Some (Inr ((), f s))"

definition tryP :: "(Parser \<Rightarrow> 'a res) \<Rightarrow> 'a P" where
  "tryP g s = (case g s of Inl e \<Rightarrow> Some (Inl e) | Inr x \<Rightarrow> Some (Inr (x, s)))"

text \<open>A call of the lexical analyzer, and one of the code generator, which changes nothing of the lexical state but the
table of constants.\<close>

definition lexP :: "(LexState \<Rightarrow> LexState res) \<Rightarrow> unit P" where
  "lexP f s = (case f (ps_ls s) of Inl e \<Rightarrow> Some (Inl e) | Inr ls \<Rightarrow> Some (Inr ((), set_ls ls s)))"

definition genP :: "(FuncState \<Rightarrow> (FuncState \<times> 'a) res) \<Rightarrow> 'a P" where
  "genP f s = (case f (ps_fs s) of
     Inl e \<Rightarrow> Some (Inl e)
   | Inr (fs, x) \<Rightarrow> Some (Inr (x, set_fs (\<lambda>_. fs\<lparr>fs_ls := (ps_ls s)\<lparr>ls_h := ls_h (fs_ls fs)\<rparr>\<rparr>) s)))"

definition gen0P :: "(FuncState \<Rightarrow> FuncState res) \<Rightarrow> unit P" where
  "gen0P f = genP (\<lambda>fs. bindE (f fs) (\<lambda>fs'. Inr (fs', ())))"

text \<open>A loop: the body goes on with \<open>Inl\<close> and leaves with \<open>Inr\<close>. The bound is the number of tokens that may be left:
the characters that are not read yet, the current token and the lookahead.\<close>

definition tokens_left :: "Parser \<Rightarrow> nat" where
  "tokens_left s = input_left (ps_ls s) + (if token s = TK_EOS then 0 else 1)
     + (if t_token (ls_lookahead (ps_ls s)) = TK_EOS then 0 else 1)"

fun loopP :: "nat \<Rightarrow> ('a \<Rightarrow> ('a + 'b) P) \<Rightarrow> 'a \<Rightarrow> 'b P" where
  "loopP 0 body a s = None"
| "loopP (Suc n) body a s =
     bindP (body a) (\<lambda>r. case r of Inl a' \<Rightarrow> loopP n body a' | Inr b \<Rightarrow> returnP b) s"

definition repeatP :: "('a \<Rightarrow> ('a + 'b) P) \<Rightarrow> 'a \<Rightarrow> 'b P" where
  "repeatP body a s = loopP (Suc (tokens_left s)) body a s"

section \<open>Tokens\<close>

definition nextP :: "unit P" where "nextP = lexP luaX_next"

definition syntaxP :: "string \<Rightarrow> 'a P" where
  "syntaxP msg = tryP (\<lambda>s. luaX_syntaxerror (ps_ls s) msg)"

definition newstringP :: "string \<Rightarrow> unit P" where
  "newstringP str = lexP (\<lambda>ls. bindE (luaX_newstring ls str) (\<lambda>(ls', _). Inr ls'))"

definition anchor_token :: "unit P" where
  "anchor_token = readP (\<lambda>s. ls_t (ps_ls s)) (\<lambda>t.
     if t_token t = TK_NAME \<or> t_token t = TK_STRING then
       (case t_seminfo t of SemStr str \<Rightarrow> newstringP str | _ \<Rightarrow> tryP (\<lambda>s. Inl UNDEFINED))
     else returnP ())"

definition error_expected :: "int \<Rightarrow> 'a P" where
  "error_expected tk = syntaxP (luaO_pushvfstring (LUA_QL ''%s'' @ '' expected'') [FStr (Some (luaX_token2str tk))])"

definition errorlimit :: "LexState \<Rightarrow> Func \<Rightarrow> int \<Rightarrow> string \<Rightarrow> 'a res" where
  "errorlimit ls fn limit what =
     (let msg = (if fn_linedefined fn = 0 then
                   luaO_pushvfstring ''main function has more than %d %s'' [FInt limit, FStr (Some what)]
                 else luaO_pushvfstring ''function at line %d has more than %d %s''
                        [FInt (fn_linedefined fn), FInt limit, FStr (Some what)])
      in luaX_lexerror ls msg 0)"

definition luaY_checklimit :: "LexState \<Rightarrow> Func \<Rightarrow> int \<Rightarrow> int \<Rightarrow> string \<Rightarrow> unit res" where
  "luaY_checklimit ls fn v l m = (if l < v then errorlimit ls fn l m else Inr ())"

definition testnext :: "int \<Rightarrow> bool P" where
  "testnext c = readP token (\<lambda>t. if t = c then thenP nextP (returnP True) else returnP False)"

definition checkP :: "int \<Rightarrow> unit P" where
  "checkP c = readP token (\<lambda>t. if t \<noteq> c then error_expected c else returnP ())"

definition checknext :: "int \<Rightarrow> unit P" where
  "checknext c = thenP (checkP c) nextP"

definition check_match :: "int \<Rightarrow> int \<Rightarrow> int \<Rightarrow> unit P" where
  "check_match what who where' =
     bindP (testnext what) (\<lambda>b.
       if b then returnP ()
       else readP (\<lambda>s. ls_linenumber (ps_ls s)) (\<lambda>line.
         if where' = line then error_expected what
         else syntaxP (luaO_pushvfstring (LUA_QL ''%s'' @ '' expected (to close '' @ LUA_QL ''%s'' @ '' at line %d)'')
                [FStr (Some (luaX_token2str what)), FStr (Some (luaX_token2str who)), FInt where'])))"

definition str_checkname :: "string P" where
  "str_checkname =
     thenP (checkP TK_NAME) (readP (\<lambda>s. t_seminfo (ls_t (ps_ls s))) (\<lambda>sem.
       case sem of SemStr ts \<Rightarrow> thenP nextP (returnP ts) | _ \<Rightarrow> tryP (\<lambda>s. Inl UNDEFINED)))"

definition init_exp :: "expkind \<Rightarrow> int \<Rightarrow> expdesc" where
  "init_exp k i = \<lparr>ek = k, info = i, aux = 0, nval = 0, jt = NO_JUMP, jf = NO_JUMP\<rparr>"

definition codestring :: "string \<Rightarrow> expdesc P" where
  "codestring ts = bindP (genP (\<lambda>fs. luaK_stringK fs ts)) (\<lambda>k. returnP (init_exp VK k))"

definition checkname :: "expdesc P" where
  "checkname = bindP str_checkname codestring"

section \<open>Variables\<close>

definition locvar :: "Func \<Rightarrow> int \<Rightarrow> LocVar" where
  "locvar fn i = fn_locvars fn ! nat (fn_actvar fn ! nat i)"

definition set_locvar :: "int \<Rightarrow> (LocVar \<Rightarrow> LocVar) \<Rightarrow> Func \<Rightarrow> Func" where
  "set_locvar i f fn = fn\<lparr>fn_locvars := (fn_locvars fn)[nat (fn_actvar fn ! nat i) := f (locvar fn i)]\<rparr>"

definition registerlocalvar :: "Func \<Rightarrow> string \<Rightarrow> (Func \<times> int) res" where
  "registerlocalvar fn vname =
     (let n = int (length (fn_locvars fn))
      in if SHRT_MAX \<le> n then Inl (LUA_ERRRUN ''too many local variables'')
         else Inr (fn\<lparr>fn_locvars := fn_locvars fn @ [\<lparr>varname = Some vname, startpc = 0, endpc = 0\<rparr>]\<rparr>, n))"

definition new_localvar_in :: "LexState \<Rightarrow> Func \<Rightarrow> string \<Rightarrow> int \<Rightarrow> Func res" where
  "new_localvar_in ls fn name n =
     bindE (luaY_checklimit ls fn (fs_nactvar (fn_fs fn) + n + 1) LUAI_MAXVARS ''local variables'') (\<lambda>_.
     bindE (registerlocalvar fn name) (\<lambda>(fn', i).
       Inr (fn'\<lparr>fn_actvar := (fn_actvar fn')[nat (fs_nactvar (fn_fs fn) + n) := i mod 65536]\<rparr>)))"

definition new_localvar :: "string \<Rightarrow> int \<Rightarrow> unit P" where
  "new_localvar name n =
     bindP (tryP (\<lambda>s. new_localvar_in (ps_ls s) (ps_fn s) name n)) (\<lambda>fn. doP (set_fn (\<lambda>_. fn)))"

definition new_localvarliteral :: "string \<Rightarrow> int \<Rightarrow> unit P" where
  "new_localvarliteral v n = thenP (newstringP v) (new_localvar v n)"

text \<open>The loop of \<open>adjustlocalvars\<close> counts down to zero; the positions are the last \<open>nvars\<close> active variables.\<close>

fun start_vars :: "nat \<Rightarrow> Func \<Rightarrow> Func" where
  "start_vars 0 fn = fn"
| "start_vars (Suc n) fn =
     start_vars n (set_locvar (fs_nactvar (fn_fs fn) - int (Suc n)) (\<lambda>v. v\<lparr>startpc := fs_pc (fn_fs fn)\<rparr>) fn)"

definition adjust_vars :: "int \<Rightarrow> Func \<Rightarrow> Func" where
  "adjust_vars nvars fn =
     start_vars (nat nvars) (fn\<lparr>fn_fs := (fn_fs fn)\<lparr>fs_nactvar := (fs_nactvar (fn_fs fn) + nvars) mod 256\<rparr>\<rparr>)"

definition adjustlocalvars :: "int \<Rightarrow> unit P" where
  "adjustlocalvars nvars = doP (set_fn (adjust_vars nvars))"

fun remove_vars :: "nat \<Rightarrow> Func \<Rightarrow> Func" where
  "remove_vars 0 fn = fn"
| "remove_vars (Suc n) fn =
     (let fn1 = fn\<lparr>fn_fs := (fn_fs fn)\<lparr>fs_nactvar := fs_nactvar (fn_fs fn) - 1\<rparr>\<rparr>
      in remove_vars n (set_locvar (fs_nactvar (fn_fs fn1)) (\<lambda>v. v\<lparr>endpc := fs_pc (fn_fs fn1)\<rparr>) fn1))"

definition removevars :: "int \<Rightarrow> unit P" where
  "removevars tolevel = doP (set_fn (\<lambda>fn. remove_vars (nat (fs_nactvar (fn_fs fn) - tolevel)) fn))"

text \<open>The search of \<open>indexupvalue\<close> from index \<open>i\<close> on.\<close>

fun find_upvalue :: "upvaldesc list \<Rightarrow> expdesc \<Rightarrow> int \<Rightarrow> int option" where
  "find_upvalue [] v i = None"
| "find_upvalue (u # us) v i = (if ud_k u = ek v \<and> ud_info u = info v then Some i else find_upvalue us v (i + 1))"

definition indexupvalue :: "LexState \<Rightarrow> Func \<Rightarrow> string \<Rightarrow> expdesc \<Rightarrow> (Func \<times> int) res" where
  "indexupvalue ls fn name v =
     (case find_upvalue (fn_upvalues fn) v 0 of
        Some i \<Rightarrow> Inr (fn, i)
      | None \<Rightarrow>
          let nups = int (length (fn_upvalues fn))
          in bindE (luaY_checklimit ls fn (nups + 1) LUAI_MAXUPVALUES ''upvalues'') (\<lambda>_.
               Inr (fn\<lparr>fn_upvalues := fn_upvalues fn @ [\<lparr>ud_name = name, ud_k = ek v, ud_info = info v mod 256\<rparr>]\<rparr>, nups)))"

text \<open>The search for a variable from the active variable \<open>i - 1\<close> down.\<close>

fun searchvar_loop :: "Func \<Rightarrow> string \<Rightarrow> nat \<Rightarrow> int" where
  "searchvar_loop fn n 0 = - 1"
| "searchvar_loop fn n (Suc i) = (if varname (locvar fn (int i)) = Some n then int i else searchvar_loop fn n i)"

definition searchvar :: "Func \<Rightarrow> string \<Rightarrow> int" where
  "searchvar fn n = searchvar_loop fn n (nat (fs_nactvar (fn_fs fn)))"

fun mark_block :: "BlockCnt list \<Rightarrow> int \<Rightarrow> BlockCnt list" where
  "mark_block [] level = []"
| "mark_block (bl # bls) level =
     (if level < bl_nactvar bl then bl # mark_block bls level else bl\<lparr>bl_upval := True\<rparr> # bls)"

definition markupval :: "Func \<Rightarrow> int \<Rightarrow> Func" where
  "markupval fn level = fn\<lparr>fn_bl := mark_block (fn_bl fn) level\<rparr>"

text \<open>The first function of the list is the one the variable is used in. The kind of the variable is in the descriptor.\<close>

fun singlevaraux :: "LexState \<Rightarrow> Func list \<Rightarrow> string \<Rightarrow> bool \<Rightarrow> (Func list \<times> expdesc) res" where
  "singlevaraux ls [] n base = Inr ([], init_exp VGLOBAL NO_REG)"
| "singlevaraux ls (fn # prev) n base =
     (let v = searchvar fn n
      in if 0 \<le> v then Inr ((if base then fn else markupval fn v) # prev, init_exp VLOCAL v)
         else bindE (singlevaraux ls prev n False) (\<lambda>(prev', var).
                if ek var = VGLOBAL then Inr (fn # prev', var)
                else bindE (indexupvalue ls fn n var) (\<lambda>(fn', i).
                       Inr (fn' # prev', var\<lparr>info := i, ek := VUPVAL\<rparr>))))"

definition resolve :: "string \<Rightarrow> expdesc P" where
  "resolve name =
     bindP (tryP (\<lambda>s. singlevaraux (ps_ls s) (ps_fn s # ps_prev s) name True)) (\<lambda>(fns, var).
       thenP (doP (\<lambda>s. s\<lparr>ps_fn := hd fns, ps_prev := tl fns\<rparr>)) (returnP var))"

definition singlevar :: "expdesc P" where
  "singlevar =
     bindP str_checkname (\<lambda>name.
     bindP (resolve name) (\<lambda>var.
       if ek var = VGLOBAL then
         bindP (genP (\<lambda>fs. luaK_stringK fs name)) (\<lambda>k. returnP (var\<lparr>info := k\<rparr>))
       else returnP var))"

definition hasmultret :: "expkind \<Rightarrow> bool" where
  "hasmultret k \<longleftrightarrow> k = VCALL \<or> k = VVARARG"

definition luaK_setmultret :: "FuncState \<Rightarrow> expdesc \<Rightarrow> FuncState res" where
  "luaK_setmultret fs e = luaK_setreturns fs e LUA_MULTRET"

definition adjust_assign :: "int \<Rightarrow> int \<Rightarrow> expdesc \<Rightarrow> FuncState \<Rightarrow> FuncState res" where
  "adjust_assign nvars nexps e fs =
     (let extra = nvars - nexps
      in if hasmultret (ek e) then
           let extra' = max (extra + 1) 0
           in bindE (luaK_setreturns fs e extra') (\<lambda>fs1.
                if 1 < extra' then luaK_reserveregs fs1 (extra' - 1) else Inr fs1)
         else
           bindE (if ek e \<noteq> VVOID then bindE (luaK_exp2nextreg fs e) (\<lambda>(fs1, _). Inr fs1) else Inr fs) (\<lambda>fs1.
             if 0 < extra then
               bindE (luaK_reserveregs fs1 extra) (\<lambda>fs2. luaK_nil fs2 (fs_freereg fs1) extra)
             else Inr fs1))"

section \<open>Levels, blocks and functions\<close>

definition enterlevel :: "unit P" where
  "enterlevel =
     thenP (doP (\<lambda>s. s\<lparr>ps_nCcalls := ps_nCcalls s + 1\<rparr>))
       (tryP (\<lambda>s. if LUAI_MAXCCALLS < ps_nCcalls s then luaX_lexerror (ps_ls s) ''chunk has too many syntax levels'' 0
                  else Inr ()))"

definition leavelevel :: "unit P" where
  "leavelevel = doP (\<lambda>s. s\<lparr>ps_nCcalls := ps_nCcalls s - 1\<rparr>)"

definition enterblock :: "bool \<Rightarrow> unit P" where
  "enterblock isbreakable' =
     doP (set_fn (\<lambda>fn. fn\<lparr>fn_bl := \<lparr>breaklist = NO_JUMP, bl_nactvar = fs_nactvar (fn_fs fn), bl_upval = False,
       isbreakable = isbreakable'\<rparr> # fn_bl fn\<rparr>))"

definition leaveblock :: "unit P" where
  "leaveblock =
     readP (\<lambda>s. fn_bl (ps_fn s)) (\<lambda>bls.
       case bls of
         [] \<Rightarrow> tryP (\<lambda>s. Inl UNDEFINED)
       | bl # previous \<Rightarrow>
           thenP (doP (set_fn (\<lambda>fn. fn\<lparr>fn_bl := previous\<rparr>)))
           (thenP (removevars (bl_nactvar bl))
           (thenP (if bl_upval bl then thenP (genP (\<lambda>fs. luaK_codeABC fs OP_CLOSE (bl_nactvar bl) 0 0)) (returnP ())
                   else returnP ())
           (thenP (doP (set_fs (\<lambda>fs. fs\<lparr>fs_freereg := fs_nactvar fs\<rparr>)))
             (gen0P (\<lambda>fs. luaK_patchtohere fs (breaklist bl)))))))"

fun code_upvalues :: "upvaldesc list \<Rightarrow> FuncState \<Rightarrow> FuncState res" where
  "code_upvalues [] fs = Inr fs"
| "code_upvalues (u # us) fs =
     bindE (luaK_codeABC fs (if ud_k u = VLOCAL then OP_MOVE else OP_GETUPVAL) 0 (ud_info u) 0) (\<lambda>(fs', _).
       code_upvalues us fs')"

definition to_proto :: "Func \<Rightarrow> Proto" where
  "to_proto fn =
     (let fs = fn_fs fn
      in Proto (fs_k fs) (fs_code fs) (fn_p fn) (fs_lineinfo fs) (fn_locvars fn)
           (map (\<lambda>u. Some (ud_name u)) (fn_upvalues fn)) (Some (ls_source (fs_ls fs))) (fn_linedefined fn)
           (fn_lastlinedefined fn) (int (length (fn_upvalues fn))) (fn_numparams fn) (fn_is_vararg fn) (fs_maxstacksize fs))"

definition pushclosure :: "Func \<Rightarrow> expdesc P" where
  "pushclosure func =
     bindP (tryP (\<lambda>s. let np = int (length (fn_p (ps_fn s)))
                     in if MAXARG_Bx \<le> np then Inl (LUA_ERRRUN ''constant table overflow'') else Inr np)) (\<lambda>np.
     thenP (doP (set_fn (\<lambda>fn. fn\<lparr>fn_p := fn_p fn @ [to_proto func]\<rparr>)))
     (bindP (genP (\<lambda>fs. luaK_codeABx fs OP_CLOSURE 0 np)) (\<lambda>pc.
      thenP (gen0P (code_upvalues (fn_upvalues func))) (returnP (init_exp VRELOCABLE pc)))))"

text \<open>No other table is a key of the table of constants, so its address does not matter.\<close>

definition new_func :: "LexState \<Rightarrow> Func res" where
  "new_func ls =
     bindE (luaH_new 0 0) (\<lambda>h.
       Inr \<lparr>fn_fs = \<lparr>fs_code = [], fs_lineinfo = [], fs_k = [], fs_maxstacksize = 2, fs_ls = ls\<lparr>ls_h := h\<rparr>, fs_haddr = 0,
              fs_lasttarget = - 1, fs_jpc = NO_JUMP, fs_freereg = 0, fs_nactvar = 0\<rparr>,
            fn_bl = [], fn_p = [], fn_locvars = [], fn_actvar = replicate (nat LUAI_MAXVARS) 0, fn_upvalues = [],
            fn_linedefined = 0, fn_lastlinedefined = 0, fn_is_vararg = 0, fn_numparams = 0\<rparr>)"

definition open_func :: "unit P" where
  "open_func =
     bindP (tryP (\<lambda>s. new_func (ps_ls s))) (\<lambda>fn. doP (\<lambda>s. s\<lparr>ps_fn := fn, ps_prev := ps_fn s # ps_prev s\<rparr>))"

text \<open>The lexical state moves back to the enclosing function, which has its own table of constants.\<close>

definition finish_func :: "unit P" where
  "finish_func = thenP (removevars 0) (gen0P (\<lambda>fs. luaK_ret fs 0 0))"

definition close_func :: "Func P" where
  "close_func =
     thenP finish_func
     (readP ps_fn (\<lambda>fn.
      readP ps_prev (\<lambda>prev.
        case prev of
          [] \<Rightarrow> tryP (\<lambda>s. Inl UNDEFINED)
        | p # ps \<Rightarrow>
            thenP (doP (\<lambda>s. set_ls ((ps_ls s)\<lparr>ls_h := ls_h (fs_ls (fn_fs p))\<rparr>) (s\<lparr>ps_fn := p, ps_prev := ps\<rparr>)))
            (thenP anchor_token (returnP fn)))))"

section \<open>Expressions\<close>

text \<open>The rules take the functions they call in a recursion as arguments: \<open>sub\<close> is \<open>subexpr\<close> and \<open>chk\<close> is \<open>chunk\<close>, one
syntactic level deeper.\<close>

type_synonym subexpr_fun = "int \<Rightarrow> (expdesc \<times> BinOpr) P"

definition expr :: "subexpr_fun \<Rightarrow> expdesc P" where
  "expr sub = bindP (sub 0) (\<lambda>(v, _). returnP v)"

definition field :: "expdesc \<Rightarrow> expdesc P" where
  "field v =
     bindP (genP (\<lambda>fs. luaK_exp2anyreg fs v)) (\<lambda>v1.
     thenP nextP
     (bindP checkname (\<lambda>key. genP (\<lambda>fs. luaK_indexed fs v1 key))))"

definition yindex :: "subexpr_fun \<Rightarrow> expdesc P" where
  "yindex sub =
     thenP nextP
     (bindP (expr sub) (\<lambda>v.
      bindP (genP (\<lambda>fs. luaK_exp2val fs v)) (\<lambda>v1.
      thenP (checknext 93) (returnP v1))))"

record ConsControl =
  cc_v :: expdesc
  cc_t :: expdesc
  cc_nh :: int
  cc_na :: int
  cc_tostore :: int

definition set_freereg :: "int \<Rightarrow> unit P" where
  "set_freereg r = doP (set_fs (\<lambda>fs. fs\<lparr>fs_freereg := r\<rparr>))"

definition recfield :: "subexpr_fun \<Rightarrow> ConsControl \<Rightarrow> ConsControl P" where
  "recfield sub cc =
     readP (\<lambda>s. fs_freereg (ps_fs s)) (\<lambda>reg.
     readP token (\<lambda>t.
     bindP (if t = TK_NAME then
              thenP (tryP (\<lambda>s. luaY_checklimit (ps_ls s) (ps_fn s) (cc_nh cc) MAX_INT ''items in a constructor'')) checkname
            else yindex sub) (\<lambda>key.
     thenP (checknext 61)
     (bindP (genP (\<lambda>fs. luaK_exp2RK fs key)) (\<lambda>(key1, _).
      bindP (expr sub) (\<lambda>val.
      bindP (genP (\<lambda>fs. luaK_exp2RK fs key1)) (\<lambda>(_, rk).
      bindP (genP (\<lambda>fs. luaK_exp2RK fs val)) (\<lambda>(_, rv).
      thenP (genP (\<lambda>fs. luaK_codeABC fs OP_SETTABLE (info (cc_t cc)) rk rv))
      (thenP (set_freereg reg) (returnP (cc\<lparr>cc_nh := cc_nh cc + 1\<rparr>)))))))))))"

definition closelistfield :: "ConsControl \<Rightarrow> ConsControl P" where
  "closelistfield cc =
     (if ek (cc_v cc) = VVOID then returnP cc
      else
        bindP (genP (\<lambda>fs. luaK_exp2nextreg fs (cc_v cc))) (\<lambda>v.
        let cc1 = cc\<lparr>cc_v := v\<lparr>ek := VVOID\<rparr>\<rparr>
        in if cc_tostore cc1 = LFIELDS_PER_FLUSH then
             thenP (gen0P (\<lambda>fs. luaK_setlist fs (info (cc_t cc1)) (cc_na cc1) (cc_tostore cc1)))
               (returnP (cc1\<lparr>cc_tostore := 0\<rparr>))
           else returnP cc1))"

text \<open>The number of elements is the result.\<close>

definition lastlistfield :: "ConsControl \<Rightarrow> int P" where
  "lastlistfield cc =
     (if cc_tostore cc = 0 then returnP (cc_na cc)
      else if hasmultret (ek (cc_v cc)) then
        thenP (gen0P (\<lambda>fs. luaK_setmultret fs (cc_v cc)))
        (thenP (gen0P (\<lambda>fs. luaK_setlist fs (info (cc_t cc)) (cc_na cc) LUA_MULTRET))
          (returnP (cc_na cc - 1)))
      else
        thenP (if ek (cc_v cc) \<noteq> VVOID then thenP (genP (\<lambda>fs. luaK_exp2nextreg fs (cc_v cc))) (returnP ()) else returnP ())
        (thenP (gen0P (\<lambda>fs. luaK_setlist fs (info (cc_t cc)) (cc_na cc) (cc_tostore cc)))
          (returnP (cc_na cc))))"

definition listfield :: "subexpr_fun \<Rightarrow> ConsControl \<Rightarrow> ConsControl P" where
  "listfield sub cc =
     bindP (expr sub) (\<lambda>v.
     thenP (tryP (\<lambda>s. luaY_checklimit (ps_ls s) (ps_fn s) (cc_na cc) MAXARG_Bx ''items in a constructor''))
       (returnP (cc\<lparr>cc_v := v, cc_na := cc_na cc + 1, cc_tostore := cc_tostore cc + 1\<rparr>)))"

definition constructor_item :: "subexpr_fun \<Rightarrow> ConsControl \<Rightarrow> (ConsControl + ConsControl) P" where
  "constructor_item sub cc =
     readP token (\<lambda>t.
       if t = 125 then returnP (Inr cc)
       else
         bindP (closelistfield cc) (\<lambda>cc1.
         bindP (if t = TK_NAME then
                  thenP (lexP luaX_lookahead)
                  (readP (\<lambda>s. t_token (ls_lookahead (ps_ls s))) (\<lambda>la. if la \<noteq> 61 then listfield sub cc1 else recfield sub cc1))
                else if t = 91 then recfield sub cc1
                else listfield sub cc1) (\<lambda>cc2.
         bindP (testnext 44) (\<lambda>b.
         bindP (if b then returnP True else testnext 59) (\<lambda>more.
           returnP (if more then Inl cc2 else Inr cc2))))))"

definition constructor :: "subexpr_fun \<Rightarrow> expdesc P" where
  "constructor sub =
     readP (\<lambda>s. ls_linenumber (ps_ls s)) (\<lambda>line.
     bindP (genP (\<lambda>fs. luaK_codeABC fs OP_NEWTABLE 0 0 0)) (\<lambda>pc.
     bindP (genP (\<lambda>fs. luaK_exp2nextreg fs (init_exp VRELOCABLE pc))) (\<lambda>t.
     thenP (checknext 123)
     (bindP (repeatP (constructor_item sub)
               \<lparr>cc_v = init_exp VVOID 0, cc_t = t, cc_nh = 0, cc_na = 0, cc_tostore = 0\<rparr>) (\<lambda>cc.
      thenP (check_match 125 123 line)
      (bindP (lastlistfield cc) (\<lambda>na.
       thenP (gen0P (\<lambda>fs. update_code fs pc (\<lambda>i. SETARG_C (SETARG_B i (luaO_int2fb na)) (luaO_int2fb (cc_nh cc)))))
         (returnP t))))))))"

definition set_vararg :: "(int \<Rightarrow> int) \<Rightarrow> unit P" where
  "set_vararg f = doP (set_fn (\<lambda>fn. fn\<lparr>fn_is_vararg := f (fn_is_vararg fn)\<rparr>))"

definition parlist_item :: "int \<Rightarrow> (int + int) P" where
  "parlist_item nparams =
     readP token (\<lambda>t.
     bindP (if t = TK_NAME then thenP (bindP str_checkname (\<lambda>name. new_localvar name nparams)) (returnP (nparams + 1))
            else if t = TK_DOTS then
              thenP nextP
              (thenP (new_localvarliteral ''arg'' nparams)
              (thenP (set_vararg (\<lambda>_. VARARG_HASARG OR VARARG_NEEDSARG))
              (thenP (set_vararg (\<lambda>f. f OR VARARG_ISVARARG)) (returnP (nparams + 1)))))
            else syntaxP (''<name> or '' @ LUA_QL ''...'' @ '' expected'')) (\<lambda>n.
     readP (\<lambda>s. fn_is_vararg (ps_fn s)) (\<lambda>f.
     bindP (if f = 0 then testnext 44 else returnP False) (\<lambda>more. returnP (if more then Inl n else Inr n)))))"

definition parlist :: "unit P" where
  "parlist =
     thenP (set_vararg (\<lambda>_. 0))
     (readP token (\<lambda>t.
      bindP (if t \<noteq> 41 then repeatP parlist_item 0 else returnP 0) (\<lambda>nparams.
      thenP (adjustlocalvars nparams)
      (thenP (doP (set_fn (\<lambda>fn. fn\<lparr>fn_numparams :=
                (fs_nactvar (fn_fs fn) - (fn_is_vararg fn AND VARARG_HASARG)) mod 256\<rparr>)))
        (gen0P (\<lambda>fs. luaK_reserveregs fs (fs_nactvar fs)))))))"

definition body :: "unit P \<Rightarrow> bool \<Rightarrow> int \<Rightarrow> expdesc P" where
  "body chk needself line =
     thenP open_func
     (thenP (doP (set_fn (\<lambda>fn. fn\<lparr>fn_linedefined := line\<rparr>)))
     (thenP (checknext 40)
     (thenP (if needself then thenP (new_localvarliteral ''self'' 0) (adjustlocalvars 1) else returnP ())
     (thenP parlist
     (thenP (checknext 41)
     (thenP chk
     (thenP (doP (\<lambda>s. set_fn (\<lambda>fn. fn\<lparr>fn_lastlinedefined := ls_linenumber (ps_ls s)\<rparr>) s))
     (thenP (check_match TK_END TK_FUNCTION line)
       (bindP close_func pushclosure)))))))))"

definition explist1_item :: "subexpr_fun \<Rightarrow> int \<times> expdesc \<Rightarrow> (int \<times> expdesc + int \<times> expdesc) P" where
  "explist1_item sub = (\<lambda>(n, v).
     bindP (testnext 44) (\<lambda>b.
       if b then
         thenP (genP (\<lambda>fs. luaK_exp2nextreg fs v)) (bindP (expr sub) (\<lambda>v'. returnP (Inl (n + 1, v'))))
       else returnP (Inr (n, v))))"

definition explist1 :: "subexpr_fun \<Rightarrow> (int \<times> expdesc) P" where
  "explist1 sub = bindP (expr sub) (\<lambda>v. repeatP (explist1_item sub) (1, v))"

definition call_args :: "subexpr_fun \<Rightarrow> int \<Rightarrow> expdesc P" where
  "call_args sub line =
     readP token (\<lambda>t.
       if t = 40 then
         readP (\<lambda>s. ls_lastline (ps_ls s)) (\<lambda>last'.
         thenP (if line \<noteq> last' then syntaxP ''ambiguous syntax (function call x new statement)'' else returnP ())
         (thenP nextP
         (readP token (\<lambda>t'.
          bindP (if t' = 41 then returnP (init_exp VVOID 0)
                 else bindP (explist1 sub) (\<lambda>(_, args). thenP (gen0P (\<lambda>fs. luaK_setmultret fs args)) (returnP args))) (\<lambda>args.
          thenP (check_match 41 40 line) (returnP args))))))
       else if t = 123 then constructor sub
       else if t = TK_STRING then
         readP (\<lambda>s. t_seminfo (ls_t (ps_ls s))) (\<lambda>sem.
           case sem of
             SemStr ts \<Rightarrow> bindP (codestring ts) (\<lambda>args. thenP nextP (returnP args))
           | _ \<Rightarrow> tryP (\<lambda>s. Inl UNDEFINED))
       else syntaxP ''function arguments expected'')"

definition funcargs :: "subexpr_fun \<Rightarrow> expdesc \<Rightarrow> expdesc P" where
  "funcargs sub f =
     readP (\<lambda>s. ls_linenumber (ps_ls s)) (\<lambda>line.
     bindP (call_args sub line) (\<lambda>args.
     let base = info f
     in bindP (if hasmultret (ek args) then returnP LUA_MULTRET
               else
                 thenP (if ek args \<noteq> VVOID then thenP (genP (\<lambda>fs. luaK_exp2nextreg fs args)) (returnP ()) else returnP ())
                   (readP (\<lambda>s. fs_freereg (ps_fs s)) (\<lambda>free. returnP (free - (base + 1))))) (\<lambda>nparams.
        bindP (genP (\<lambda>fs. luaK_codeABC fs OP_CALL base (nparams + 1) 2)) (\<lambda>pc.
        thenP (doP (set_fs (\<lambda>fs. luaK_fixline fs line)))
        (thenP (set_freereg (base + 1)) (returnP (init_exp VCALL pc)))))))"

definition prefixexp :: "subexpr_fun \<Rightarrow> expdesc P" where
  "prefixexp sub =
     readP token (\<lambda>t.
       if t = 40 then
         readP (\<lambda>s. ls_linenumber (ps_ls s)) (\<lambda>line.
         thenP nextP
         (bindP (expr sub) (\<lambda>v.
          thenP (check_match 41 40 line) (genP (\<lambda>fs. luaK_dischargevars fs v)))))
       else if t = TK_NAME then singlevar
       else syntaxP ''unexpected symbol'')"

definition primaryexp_item :: "subexpr_fun \<Rightarrow> expdesc \<Rightarrow> (expdesc + expdesc) P" where
  "primaryexp_item sub v =
     readP token (\<lambda>t.
       if t = 46 then bindP (field v) (\<lambda>v'. returnP (Inl v'))
       else if t = 91 then
         bindP (genP (\<lambda>fs. luaK_exp2anyreg fs v)) (\<lambda>v1.
         bindP (yindex sub) (\<lambda>key.
         bindP (genP (\<lambda>fs. luaK_indexed fs v1 key)) (\<lambda>v'. returnP (Inl v'))))
       else if t = 58 then
         thenP nextP
         (bindP checkname (\<lambda>key.
          bindP (genP (\<lambda>fs. luaK_self fs v key)) (\<lambda>v1.
          bindP (funcargs sub v1) (\<lambda>v'. returnP (Inl v')))))
       else if t = 40 \<or> t = TK_STRING \<or> t = 123 then
         bindP (genP (\<lambda>fs. luaK_exp2nextreg fs v)) (\<lambda>v1.
         bindP (funcargs sub v1) (\<lambda>v'. returnP (Inl v')))
       else returnP (Inr v))"

definition primaryexp :: "subexpr_fun \<Rightarrow> expdesc P" where
  "primaryexp sub = bindP (prefixexp sub) (repeatP (primaryexp_item sub))"

definition skip_with :: "expdesc \<Rightarrow> expdesc P" where
  "skip_with v = thenP nextP (returnP v)"

definition simpleexp :: "subexpr_fun \<Rightarrow> unit P \<Rightarrow> expdesc P" where
  "simpleexp sub chk =
     readP (\<lambda>s. ls_t (ps_ls s)) (\<lambda>tk.
     let t = t_token tk
     in if t = TK_NUMBER then
          (case t_seminfo tk of
             SemNum r \<Rightarrow> skip_with ((init_exp VKNUM 0)\<lparr>nval := r\<rparr>)
           | _ \<Rightarrow> tryP (\<lambda>s. Inl UNDEFINED))
        else if t = TK_STRING then
          (case t_seminfo tk of
             SemStr ts \<Rightarrow> bindP (codestring ts) skip_with
           | _ \<Rightarrow> tryP (\<lambda>s. Inl UNDEFINED))
        else if t = TK_NIL then skip_with (init_exp VNIL 0)
        else if t = TK_TRUE then skip_with (init_exp VTRUE 0)
        else if t = TK_FALSE then skip_with (init_exp VFALSE 0)
        else if t = TK_DOTS then
          readP (\<lambda>s. fn_is_vararg (ps_fn s)) (\<lambda>f.
          thenP (if f = 0 then syntaxP (''cannot use '' @ LUA_QL ''...'' @ '' outside a vararg function'') else returnP ())
          (thenP (set_vararg (\<lambda>f. f AND NOT VARARG_NEEDSARG))
          (bindP (genP (\<lambda>fs. luaK_codeABC fs OP_VARARG 0 1 0)) (\<lambda>pc. skip_with (init_exp VVARARG pc)))))
        else if t = 123 then constructor sub
        else if t = TK_FUNCTION then
          thenP nextP (readP (\<lambda>s. ls_linenumber (ps_ls s)) (\<lambda>line. body chk False line))
        else primaryexp sub)"

definition getunopr :: "int \<Rightarrow> UnOpr" where
  "getunopr op =
     (if op = TK_NOT then OPR_NOT else if op = 45 then OPR_MINUS else if op = 35 then OPR_LEN else OPR_NOUNOPR)"

definition getbinopr :: "int \<Rightarrow> BinOpr" where
  "getbinopr op =
     (if op = 43 then OPR_ADD else if op = 45 then OPR_SUB else if op = 42 then OPR_MUL else if op = 47 then OPR_DIV
      else if op = 37 then OPR_MOD else if op = 94 then OPR_POW else if op = TK_CONCAT then OPR_CONCAT
      else if op = TK_NE then OPR_NE else if op = TK_EQ then OPR_EQ else if op = 60 then OPR_LT
      else if op = TK_LE then OPR_LE else if op = 62 then OPR_GT else if op = TK_GE then OPR_GE
      else if op = TK_AND then OPR_AND else if op = TK_OR then OPR_OR else OPR_NOBINOPR)"

text \<open>The left and the right priority of the operators.\<close>

fun priority :: "BinOpr \<Rightarrow> int \<times> int" where
  "priority OPR_ADD = (6, 6)" | "priority OPR_SUB = (6, 6)" | "priority OPR_MUL = (7, 7)" | "priority OPR_DIV = (7, 7)"
| "priority OPR_MOD = (7, 7)" | "priority OPR_POW = (10, 9)" | "priority OPR_CONCAT = (5, 4)" | "priority OPR_NE = (3, 3)"
| "priority OPR_EQ = (3, 3)" | "priority OPR_LT = (3, 3)" | "priority OPR_LE = (3, 3)" | "priority OPR_GT = (3, 3)"
| "priority OPR_GE = (3, 3)" | "priority OPR_AND = (2, 2)" | "priority OPR_OR = (1, 1)" | "priority OPR_NOBINOPR = (0, 0)"

abbreviation (input) UNARY_PRIORITY :: int where "UNARY_PRIORITY \<equiv> 8"

definition subexpr_item ::
    "pow_fun \<Rightarrow> subexpr_fun \<Rightarrow> int \<Rightarrow> expdesc \<times> BinOpr \<Rightarrow> (expdesc \<times> BinOpr + expdesc \<times> BinOpr) P" where
  "subexpr_item pow sub limit = (\<lambda>(v, op).
     if op \<noteq> OPR_NOBINOPR \<and> limit < fst (priority op) then
       thenP nextP
       (bindP (genP (\<lambda>fs. luaK_infix fs op v)) (\<lambda>v1.
        bindP (sub (snd (priority op))) (\<lambda>(v2, nextop).
        bindP (genP (\<lambda>fs. luaK_posfix pow fs op v1 v2)) (\<lambda>v3. returnP (Inl (v3, nextop))))))
     else returnP (Inr (v, op)))"

definition subexpr_body :: "pow_fun \<Rightarrow> subexpr_fun \<Rightarrow> unit P \<Rightarrow> subexpr_fun" where
  "subexpr_body pow sub chk limit =
     thenP enterlevel
     (readP token (\<lambda>t.
      let uop = getunopr t
      in bindP (if uop \<noteq> OPR_NOUNOPR then
                  thenP nextP
                  (bindP (sub UNARY_PRIORITY) (\<lambda>(v, _). genP (\<lambda>fs. luaK_prefix pow fs uop v)))
                else simpleexp sub chk) (\<lambda>v.
         readP token (\<lambda>t'.
         bindP (repeatP (subexpr_item pow sub limit) (v, getbinopr t')) (\<lambda>r.
         thenP leavelevel (returnP r))))))"

section \<open>Statements\<close>

definition block_follow :: "int \<Rightarrow> bool" where
  "block_follow tk \<longleftrightarrow> tk = TK_ELSE \<or> tk = TK_ELSEIF \<or> tk = TK_END \<or> tk = TK_UNTIL \<or> tk = TK_EOS"

definition block :: "unit P \<Rightarrow> unit P" where
  "block chk = thenP (enterblock False) (thenP chk leaveblock)"

text \<open>The chain of the variables on the left side of an assignment is a list, the last variable first. The indices of
the earlier ones that use the local variable are moved to the register \<open>extra\<close>.\<close>

definition conflicts :: "expdesc \<Rightarrow> expdesc \<Rightarrow> bool" where
  "conflicts v lh \<longleftrightarrow> ek lh = VINDEXED \<and> (info lh = info v \<or> aux lh = info v)"

definition move_index :: "int \<Rightarrow> expdesc \<Rightarrow> expdesc \<Rightarrow> expdesc" where
  "move_index extra v lh =
     (if ek lh = VINDEXED then
        lh\<lparr>info := if info lh = info v then extra else info lh, aux := if aux lh = info v then extra else aux lh\<rparr>
      else lh)"

definition check_conflict :: "expdesc list \<Rightarrow> expdesc \<Rightarrow> expdesc list P" where
  "check_conflict lhs v =
     readP (\<lambda>s. fs_freereg (ps_fs s)) (\<lambda>extra.
     thenP (if \<exists>lh \<in> set lhs. conflicts v lh then
              thenP (genP (\<lambda>fs. luaK_codeABC fs OP_MOVE (fs_freereg fs) (info v) 0)) (gen0P (\<lambda>fs. luaK_reserveregs fs 1))
            else returnP ())
       (returnP (map (move_index extra v) lhs)))"

definition is_variable :: "expdesc \<Rightarrow> bool" where
  "is_variable v \<longleftrightarrow> ek v \<in> {VLOCAL, VUPVAL, VGLOBAL, VINDEXED}"

definition store_top :: "expdesc \<Rightarrow> unit P" where
  "store_top var =
     thenP (genP (\<lambda>fs. luaK_storevar fs var (init_exp VNONRELOC (fs_freereg fs - 1)))) (returnP ())"

text \<open>\<open>assignment\<close> for the variables \<open>lh # lhs\<close>; it returns the variables \<open>lhs\<close>, which it may have changed.\<close>

fun assignment_loop :: "nat \<Rightarrow> subexpr_fun \<Rightarrow> expdesc \<Rightarrow> expdesc list \<Rightarrow> int \<Rightarrow> expdesc list P" where
  "assignment_loop 0 sub lh lhs nvars s = None"
| "assignment_loop (Suc n) sub lh lhs nvars s =
     thenP (if \<not> is_variable lh then syntaxP ''syntax error'' else returnP ())
     (bindP (testnext 44) (\<lambda>b.
        if b then
          bindP (primaryexp sub) (\<lambda>nv.
          bindP (if ek nv = VLOCAL then check_conflict (lh # lhs) nv else returnP (lh # lhs)) (\<lambda>lhs1.
          bindP (assignment_loop n sub nv lhs1 (nvars + 1)) (\<lambda>lhs2.
            case lhs2 of
              [] \<Rightarrow> tryP (\<lambda>s. Inl UNDEFINED)
            | lh' # lhs' \<Rightarrow> thenP (store_top lh') (returnP lhs'))))
        else
          thenP (checknext 61)
          (bindP (explist1 sub) (\<lambda>(nexps, e).
             if nexps \<noteq> nvars then
               thenP (gen0P (adjust_assign nvars nexps e))
               (thenP (if nvars < nexps then doP (set_fs (\<lambda>fs. fs\<lparr>fs_freereg := fs_freereg fs - (nexps - nvars)\<rparr>))
                       else returnP ())
               (thenP (store_top lh) (returnP lhs)))
             else
               bindP (genP (\<lambda>fs. luaK_setoneret fs e)) (\<lambda>e1.
               thenP (genP (\<lambda>fs. luaK_storevar fs lh e1)) (returnP lhs)))))) s"

definition assignment :: "subexpr_fun \<Rightarrow> expdesc \<Rightarrow> unit P" where
  "assignment sub v s = thenP (assignment_loop (Suc (tokens_left s)) sub v [] 1) (returnP ()) s"

definition cond :: "subexpr_fun \<Rightarrow> int P" where
  "cond sub =
     bindP (expr sub) (\<lambda>v.
     bindP (genP (\<lambda>fs. luaK_goiftrue fs (if ek v = VNIL then v\<lparr>ek := VFALSE\<rparr> else v))) (\<lambda>v1. returnP (jf v1)))"

text \<open>The innermost loop around a break: its place in the list and whether a block inside it has an upvalue.\<close>

fun find_loop_block :: "BlockCnt list \<Rightarrow> nat \<Rightarrow> bool \<Rightarrow> (nat \<times> bool) option" where
  "find_loop_block [] i upval = None"
| "find_loop_block (bl # bls) i upval =
     (if isbreakable bl then Some (i, upval) else find_loop_block bls (Suc i) (upval \<or> bl_upval bl))"

definition breakstat :: "unit P" where
  "breakstat =
     readP (\<lambda>s. fn_bl (ps_fn s)) (\<lambda>bls.
       case find_loop_block bls 0 False of
         None \<Rightarrow> syntaxP ''no loop to break''
       | Some (i, upval) \<Rightarrow>
           thenP (if upval then thenP (genP (\<lambda>fs. luaK_codeABC fs OP_CLOSE (bl_nactvar (bls ! i)) 0 0)) (returnP ())
                  else returnP ())
           (bindP (genP luaK_jump) (\<lambda>j.
            bindP (genP (\<lambda>fs. luaK_concat fs (breaklist (bls ! i)) j)) (\<lambda>l.
              doP (set_fn (\<lambda>fn. fn\<lparr>fn_bl := (fn_bl fn)[i := (fn_bl fn ! i)\<lparr>breaklist := l\<rparr>]\<rparr>))))))"

definition getlabelP :: "int P" where
  "getlabelP = genP (\<lambda>fs. Inr (luaK_getlabel fs))"

definition whilestat :: "subexpr_fun \<Rightarrow> unit P \<Rightarrow> int \<Rightarrow> unit P" where
  "whilestat sub chk line =
     thenP nextP
     (bindP getlabelP (\<lambda>whileinit.
      bindP (cond sub) (\<lambda>condexit.
      thenP (enterblock True)
      (thenP (checknext TK_DO)
      (thenP (block chk)
      (bindP (genP luaK_jump) (\<lambda>j.
       thenP (gen0P (\<lambda>fs. luaK_patchlist fs j whileinit))
       (thenP (check_match TK_END TK_WHILE line)
       (thenP leaveblock
         (gen0P (\<lambda>fs. luaK_patchtohere fs condexit)))))))))))"

definition repeatstat :: "subexpr_fun \<Rightarrow> unit P \<Rightarrow> int \<Rightarrow> unit P" where
  "repeatstat sub chk line =
     bindP getlabelP (\<lambda>repeat_init.
     thenP (enterblock True)
     (thenP (enterblock False)
     (thenP nextP
     (thenP chk
     (thenP (check_match TK_UNTIL TK_REPEAT line)
     (bindP (cond sub) (\<lambda>condexit.
      readP (\<lambda>s. fn_bl (ps_fn s)) (\<lambda>bls.
      thenP (case bls of
               [] \<Rightarrow> tryP (\<lambda>s. Inl UNDEFINED)
             | bl2 # _ \<Rightarrow>
                 if \<not> bl_upval bl2 then
                   thenP leaveblock (gen0P (\<lambda>fs. luaK_patchlist fs condexit repeat_init))
                 else
                   thenP breakstat
                   (thenP (gen0P (\<lambda>fs. luaK_patchtohere fs condexit))
                   (thenP leaveblock
                   (bindP (genP luaK_jump) (\<lambda>j. gen0P (\<lambda>fs. luaK_patchlist fs j repeat_init))))))
        leaveblock))))))))"

definition exp1 :: "subexpr_fun \<Rightarrow> unit P" where
  "exp1 sub = bindP (expr sub) (\<lambda>e. thenP (genP (\<lambda>fs. luaK_exp2nextreg fs e)) (returnP ()))"

definition forbody :: "unit P \<Rightarrow> int \<Rightarrow> int \<Rightarrow> int \<Rightarrow> bool \<Rightarrow> unit P" where
  "forbody chk base line nvars isnum =
     thenP (adjustlocalvars 3)
     (thenP (checknext TK_DO)
     (bindP (if isnum then genP (\<lambda>fs. luaK_codeAsBx fs OP_FORPREP base NO_JUMP) else genP luaK_jump) (\<lambda>prep.
      thenP (enterblock False)
      (thenP (adjustlocalvars nvars)
      (thenP (gen0P (\<lambda>fs. luaK_reserveregs fs nvars))
      (thenP (block chk)
      (thenP leaveblock
      (thenP (gen0P (\<lambda>fs. luaK_patchtohere fs prep))
      (bindP (if isnum then genP (\<lambda>fs. luaK_codeAsBx fs OP_FORLOOP base NO_JUMP)
              else genP (\<lambda>fs. luaK_codeABC fs OP_TFORLOOP base 0 nvars)) (\<lambda>endfor.
       thenP (doP (set_fs (\<lambda>fs. luaK_fixline fs line)))
       (bindP (if isnum then returnP endfor else genP luaK_jump) (\<lambda>j.
          gen0P (\<lambda>fs. luaK_patchlist fs j (prep + 1))))))))))))))"

definition fornum :: "subexpr_fun \<Rightarrow> unit P \<Rightarrow> string \<Rightarrow> int \<Rightarrow> unit P" where
  "fornum sub chk name line =
     readP (\<lambda>s. fs_freereg (ps_fs s)) (\<lambda>base.
     thenP (new_localvarliteral ''(for index)'' 0)
     (thenP (new_localvarliteral ''(for limit)'' 1)
     (thenP (new_localvarliteral ''(for step)'' 2)
     (thenP (new_localvar name 3)
     (thenP (checknext 61)
     (thenP (exp1 sub)
     (thenP (checknext 44)
     (thenP (exp1 sub)
     (bindP (testnext 44) (\<lambda>b.
      thenP (if b then exp1 sub
             else
               bindP (genP (\<lambda>fs. luaK_numberK fs (cast_num 1))) (\<lambda>k.
               thenP (genP (\<lambda>fs. luaK_codeABx fs OP_LOADK (fs_freereg fs) k))
                 (gen0P (\<lambda>fs. luaK_reserveregs fs 1))))
        (forbody chk base line 1 True)))))))))))"

definition forlist_item :: "int \<Rightarrow> (int + int) P" where
  "forlist_item nvars =
     bindP (testnext 44) (\<lambda>b.
       if b then thenP (bindP str_checkname (\<lambda>name. new_localvar name nvars)) (returnP (Inl (nvars + 1)))
       else returnP (Inr nvars))"

definition forlist :: "subexpr_fun \<Rightarrow> unit P \<Rightarrow> string \<Rightarrow> unit P" where
  "forlist sub chk indexname =
     readP (\<lambda>s. fs_freereg (ps_fs s)) (\<lambda>base.
     thenP (new_localvarliteral ''(for generator)'' 0)
     (thenP (new_localvarliteral ''(for state)'' 1)
     (thenP (new_localvarliteral ''(for control)'' 2)
     (thenP (new_localvar indexname 3)
     (bindP (repeatP forlist_item 4) (\<lambda>nvars.
      thenP (checknext TK_IN)
      (readP (\<lambda>s. ls_linenumber (ps_ls s)) (\<lambda>line.
      (bindP (explist1 sub) (\<lambda>(nexps, e).
       thenP (gen0P (adjust_assign 3 nexps e))
       (thenP (gen0P (\<lambda>fs. luaK_checkstack fs 3))
         (forbody chk base line (nvars - 3) False))))))))))))"

definition forstat :: "subexpr_fun \<Rightarrow> unit P \<Rightarrow> int \<Rightarrow> unit P" where
  "forstat sub chk line =
     thenP (enterblock True)
     (thenP nextP
     (bindP str_checkname (\<lambda>name.
      readP token (\<lambda>t.
      thenP (if t = 61 then fornum sub chk name line
             else if t = 44 \<or> t = TK_IN then forlist sub chk name
             else syntaxP (LUA_QL ''='' @ '' or '' @ LUA_QL ''in'' @ '' expected''))
      (thenP (check_match TK_END TK_FOR line) leaveblock)))))"

definition test_then_block :: "subexpr_fun \<Rightarrow> unit P \<Rightarrow> int P" where
  "test_then_block sub chk =
     thenP nextP
     (bindP (cond sub) (\<lambda>condexit.
      thenP (checknext TK_THEN) (thenP (block chk) (returnP condexit))))"

definition ifstat_item :: "subexpr_fun \<Rightarrow> unit P \<Rightarrow> int \<times> int \<Rightarrow> (int \<times> int + int \<times> int) P" where
  "ifstat_item sub chk = (\<lambda>(escapelist, flist).
     readP token (\<lambda>t.
       if t = TK_ELSEIF then
         bindP (genP luaK_jump) (\<lambda>j.
         bindP (genP (\<lambda>fs. luaK_concat fs escapelist j)) (\<lambda>esc.
         thenP (gen0P (\<lambda>fs. luaK_patchtohere fs flist))
         (bindP (test_then_block sub chk) (\<lambda>flist'. returnP (Inl (esc, flist'))))))
       else returnP (Inr (escapelist, flist))))"

definition ifstat :: "subexpr_fun \<Rightarrow> unit P \<Rightarrow> int \<Rightarrow> unit P" where
  "ifstat sub chk line =
     bindP (test_then_block sub chk) (\<lambda>flist0.
     bindP (repeatP (ifstat_item sub chk) (NO_JUMP, flist0)) (\<lambda>(escapelist, flist).
     readP token (\<lambda>t.
     bindP (if t = TK_ELSE then
              bindP (genP luaK_jump) (\<lambda>j.
              bindP (genP (\<lambda>fs. luaK_concat fs escapelist j)) (\<lambda>esc.
              thenP (gen0P (\<lambda>fs. luaK_patchtohere fs flist))
              (thenP nextP (thenP (block chk) (returnP esc)))))
            else genP (\<lambda>fs. luaK_concat fs escapelist flist)) (\<lambda>esc.
     thenP (gen0P (\<lambda>fs. luaK_patchtohere fs esc)) (check_match TK_END TK_IF line)))))"

definition localfunc :: "unit P \<Rightarrow> unit P" where
  "localfunc chk =
     thenP (bindP str_checkname (\<lambda>name. new_localvar name 0))
     (readP (\<lambda>s. init_exp VLOCAL (fs_freereg (ps_fs s))) (\<lambda>v.
      thenP (gen0P (\<lambda>fs. luaK_reserveregs fs 1))
      (thenP (adjustlocalvars 1)
      (readP (\<lambda>s. ls_linenumber (ps_ls s)) (\<lambda>line.
       bindP (body chk False line) (\<lambda>b.
       thenP (genP (\<lambda>fs. luaK_storevar fs v b))
         (doP (set_fn (\<lambda>fn. set_locvar (fs_nactvar (fn_fs fn) - 1) (\<lambda>x. x\<lparr>startpc := fs_pc (fn_fs fn)\<rparr>) fn)))))))))"

definition localstat_item :: "int \<Rightarrow> (int + int) P" where
  "localstat_item nvars =
     thenP (bindP str_checkname (\<lambda>name. new_localvar name nvars))
     (bindP (testnext 44) (\<lambda>b. returnP (if b then Inl (nvars + 1) else Inr (nvars + 1))))"

definition localstat :: "subexpr_fun \<Rightarrow> unit P" where
  "localstat sub =
     bindP (repeatP localstat_item 0) (\<lambda>nvars.
     bindP (testnext 61) (\<lambda>b.
     bindP (if b then explist1 sub else returnP (0, init_exp VVOID 0)) (\<lambda>(nexps, e).
     thenP (gen0P (adjust_assign nvars nexps e)) (adjustlocalvars nvars))))"

definition funcname_item :: "expdesc \<Rightarrow> (expdesc + expdesc) P" where
  "funcname_item v =
     readP token (\<lambda>t. if t = 46 then bindP (field v) (\<lambda>v'. returnP (Inl v')) else returnP (Inr v))"

definition funcname :: "(expdesc \<times> bool) P" where
  "funcname =
     bindP singlevar (\<lambda>v0.
     bindP (repeatP funcname_item v0) (\<lambda>v.
     readP token (\<lambda>t.
       if t = 58 then bindP (field v) (\<lambda>v'. returnP (v', True)) else returnP (v, False))))"

definition funcstat :: "unit P \<Rightarrow> int \<Rightarrow> unit P" where
  "funcstat chk line =
     thenP nextP
     (bindP funcname (\<lambda>(v, needself).
      bindP (body chk needself line) (\<lambda>b.
      thenP (genP (\<lambda>fs. luaK_storevar fs v b))
        (doP (set_fs (\<lambda>fs. luaK_fixline fs line))))))"

definition exprstat :: "subexpr_fun \<Rightarrow> unit P" where
  "exprstat sub =
     bindP (primaryexp sub) (\<lambda>v.
       if ek v = VCALL then gen0P (\<lambda>fs. update_code fs (info v) (\<lambda>i. SETARG_C i 1))
       else assignment sub v)"

text \<open>The registers a return statement uses: the first one and the number of values.\<close>

definition return_values :: "int \<Rightarrow> expdesc \<Rightarrow> FuncState \<Rightarrow> (FuncState \<times> int \<times> int) res" where
  "return_values nret e fs =
     (if hasmultret (ek e) then
        bindE (luaK_setmultret fs e) (\<lambda>fs1.
        bindE (if ek e = VCALL \<and> nret = 1 then update_code fs1 (info e) (\<lambda>i. SET_OPCODE i OP_TAILCALL) else Inr fs1) (\<lambda>fs2.
          Inr (fs2, fs_nactvar fs2, LUA_MULTRET)))
      else if nret = 1 then
        bindE (luaK_exp2anyreg fs e) (\<lambda>(fs1, e1). Inr (fs1, info e1, nret))
      else bindE (luaK_exp2nextreg fs e) (\<lambda>(fs1, _). Inr (fs1, fs_nactvar fs1, nret)))"

definition retstat :: "subexpr_fun \<Rightarrow> unit P" where
  "retstat sub =
     thenP nextP
     (readP token (\<lambda>t.
      bindP (if block_follow t \<or> t = 59 then returnP (0, 0)
             else bindP (explist1 sub) (\<lambda>(nret, e). genP (return_values nret e))) (\<lambda>(first, nret).
        gen0P (\<lambda>fs. luaK_ret fs first nret))))"

text \<open>\<open>statement\<close> tells whether it was the last one of its block.\<close>

definition statement :: "subexpr_fun \<Rightarrow> unit P \<Rightarrow> bool P" where
  "statement sub chk =
     readP (\<lambda>s. ls_linenumber (ps_ls s)) (\<lambda>line.
     readP token (\<lambda>t.
       if t = TK_IF then thenP (ifstat sub chk line) (returnP False)
       else if t = TK_WHILE then thenP (whilestat sub chk line) (returnP False)
       else if t = TK_DO then
         thenP nextP (thenP (block chk) (thenP (check_match TK_END TK_DO line) (returnP False)))
       else if t = TK_FOR then thenP (forstat sub chk line) (returnP False)
       else if t = TK_REPEAT then thenP (repeatstat sub chk line) (returnP False)
       else if t = TK_FUNCTION then thenP (funcstat chk line) (returnP False)
       else if t = TK_LOCAL then
         thenP nextP
         (bindP (testnext TK_FUNCTION) (\<lambda>b. thenP (if b then localfunc chk else localstat sub) (returnP False)))
       else if t = TK_RETURN then thenP (retstat sub) (returnP True)
       else if t = TK_BREAK then thenP nextP (thenP breakstat (returnP True))
       else thenP (exprstat sub) (returnP False)))"

definition chunk_item :: "subexpr_fun \<Rightarrow> unit P \<Rightarrow> bool \<Rightarrow> (bool + unit) P" where
  "chunk_item sub chk islast =
     readP token (\<lambda>t.
       if \<not> islast \<and> \<not> block_follow t then
         bindP (statement sub chk) (\<lambda>islast'.
         thenP (testnext 59)
         (thenP (doP (set_fs (\<lambda>fs. fs\<lparr>fs_freereg := fs_nactvar fs\<rparr>))) (returnP (Inl islast'))))
       else returnP (Inr ()))"

definition chunk_body :: "subexpr_fun \<Rightarrow> unit P \<Rightarrow> unit P" where
  "chunk_body sub chk = thenP enterlevel (thenP (repeatP (chunk_item sub chk) False) leavelevel)"

section \<open>The parser\<close>

text \<open>The recursion: \<open>n\<close> is the number of syntactic levels that are left.\<close>

fun subexpr :: "pow_fun \<Rightarrow> nat \<Rightarrow> subexpr_fun" and chunk :: "pow_fun \<Rightarrow> nat \<Rightarrow> unit P" where
  "subexpr pow 0 limit s = None"
| "subexpr pow (Suc n) limit s = subexpr_body pow (subexpr pow n) (chunk pow n) limit s"
| "chunk pow 0 s = None"
| "chunk pow (Suc n) s = chunk_body (subexpr pow n) (chunk pow n) s"

definition levels_left :: "int \<Rightarrow> nat" where
  "levels_left nCcalls = Suc (nat (LUAI_MAXCCALLS - nCcalls))"

definition main_func :: "pow_fun \<Rightarrow> int \<Rightarrow> Proto P" where
  "main_func pow nCcalls =
     thenP (set_vararg (\<lambda>_. VARARG_ISVARARG))
     (thenP nextP
     (thenP (chunk pow (levels_left nCcalls))
     (thenP (checkP TK_EOS)
     (thenP finish_func (readP ps_fn (\<lambda>fn. returnP (to_proto fn)))))))"

text \<open>\<open>nCcalls\<close> is the number of C calls that are active. The table in the input state is not used.\<close>

definition luaY_parser :: "pow_fun \<Rightarrow> int \<Rightarrow> Zio \<Rightarrow> string \<Rightarrow> lua_table \<Rightarrow> Proto res option" where
  "luaY_parser pow nCcalls z name h =
     (case bindE (luaX_setinput z name h) new_func of
        Inl e \<Rightarrow> Some (Inl e)
      | Inr fn \<Rightarrow>
          (case main_func pow nCcalls \<lparr>ps_fn = fn, ps_prev = [], ps_nCcalls = nCcalls\<rparr> of
             None \<Rightarrow> None
           | Some (Inl e) \<Rightarrow> Some (Inl e)
           | Some (Inr (f, _)) \<Rightarrow> Some (Inr f)))"

end
