(* ===== verification/LuaParserEnds.thy ===== *)
theory LuaParserEnds
  imports LuaParser
begin

text \<open>
  Parsing ends: every loop of the parser reads tokens, and the recursion is bounded by the limit on syntactic levels.
\<close>

section \<open>The lexical analyzer keeps the current token and the lookahead\<close>

definition kept :: "LexState \<Rightarrow> LexState \<Rightarrow> bool" where
  "kept ls ls' \<longleftrightarrow> ls_t ls' = ls_t ls \<and> ls_lookahead ls' = ls_lookahead ls"

named_theorems kepts

lemma kept_refl [simp]: "kept ls ls" by (simp add: kept_def)

lemma kept_trans: "kept a b \<Longrightarrow> kept b c \<Longrightarrow> kept a c" by (simp add: kept_def)

lemma kept_fields [simp]:
  "kept ls (ls'\<lparr>ls_buff := b\<rparr>) = kept ls ls'" "kept (ls\<lparr>ls_buff := b\<rparr>) ls' = kept ls ls'"
  "kept ls (ls'\<lparr>ls_linenumber := n\<rparr>) = kept ls ls'" "kept ls (ls'\<lparr>ls_h := h\<rparr>) = kept ls ls'"
  "kept (ls\<lparr>ls_lastline := n\<rparr>) ls' = kept ls ls'" "kept ls (ls'\<lparr>ls_decpoint := d\<rparr>) = kept ls ls'"
  "kept ls (buffreplace ls' x y) = kept ls ls'"
  by (simp_all add: kept_def buffreplace_def)

lemma next_char_kept [kepts]: "next_char ls = Inr ls' \<Longrightarrow> kept ls ls'"
  by (auto simp: next_char_def bindE_Inr_iff kept_def)

lemma save_kept [kepts]: "save ls c = Inr ls' \<Longrightarrow> kept ls ls'"
  by (auto simp: save_def bindE_Inr_iff kept_def Let_def split: if_splits)

lemma save_and_next_kept [kepts]: "save_and_next ls = Inr ls' \<Longrightarrow> kept ls ls'"
  by (auto simp: save_and_next_def bindE_Inr_iff dest: kepts intro: kept_trans)

lemma newstring_kept [kepts]: "luaX_newstring ls s = Inr (ls', s') \<Longrightarrow> kept ls ls'"
  by (auto simp: luaX_newstring_def bindE_Inr_iff)

lemma inclinenumber_kept [kepts]: "inclinenumber ls = Inr ls' \<Longrightarrow> kept ls ls'"
  by (auto simp: inclinenumber_def luaX_syntaxerror_def bindE_Inr_iff Let_def dest!: kepts intro: kept_trans split: if_splits)

lemma check_next_kept [kepts]: "check_next ls cs = Inr (ls', b) \<Longrightarrow> kept ls ls'"
  by (auto simp: check_next_def bindE_Inr_iff dest: kepts split: if_splits)

lemma save_while_kept [kepts]: "save_while P ls = Inr ls' \<Longrightarrow> kept ls ls'"
proof (induction P ls rule: save_while.induct)
  case (1 P ls)
  then show ?case
    by (cases "ls_current ls \<noteq> EOZ \<and> P (ls_current ls)")
      (auto simp: save_while.simps [of P ls] bindE_Inr_iff dest: kepts intro: kept_trans)
qed

lemma trydecpoint_kept [kepts]: "trydecpoint ls = Inr (ls', sem) \<Longrightarrow> kept ls ls'"
  by (auto simp: trydecpoint_def Let_def split: option.splits)

lemma read_numeral_kept [kepts]: "read_numeral ls = Inr (ls', sem) \<Longrightarrow> kept ls ls'"
  by (auto simp: read_numeral_def kept_def buffreplace_def bindE_Inr_iff Let_def dest!: kepts split: option.splits if_splits)

lemma skip_sep_kept [kepts]: "skip_sep ls = Inr (ls', n) \<Longrightarrow> kept ls ls'"
  by (auto simp: skip_sep_def kept_def bindE_Inr_iff Let_def dest!: kepts)

lemma long_string_loop_kept [kepts]: "long_string_loop ls sep keep = Inr ls' \<Longrightarrow> kept ls ls'"
proof (induction "input_left ls" arbitrary: ls rule: less_induct)
  case less
  note e = long_string_loop.simps [of ls sep keep]
  have again: "kept ls ls'" if "kept ls a" "input_left a < input_left ls" "long_string_loop a sep keep = Inr ls'" for a
    using kept_trans [OF that(1) less.hyps [OF that(2,3)]] .
  consider "ls_current ls = EOZ" | "ls_current ls \<noteq> EOZ" "ls_current ls = 91"
    | "ls_current ls \<noteq> EOZ" "ls_current ls \<noteq> 91" "ls_current ls = 93"
    | "ls_current ls \<noteq> EOZ" "ls_current ls \<noteq> 91" "ls_current ls \<noteq> 93" "currIsNewline ls"
    | "ls_current ls \<noteq> EOZ" "ls_current ls \<noteq> 91" "ls_current ls \<noteq> 93" "\<not> currIsNewline ls" by blast
  then show ?case
  proof cases
    case 2
    with less.prems obtain ls1 n where s: "skip_sep ls = Inr (ls1, n)" by (auto simp: e bindE_Inr_iff)
    show ?thesis
    proof (cases "n = sep")
      case True
      with 2 s less.prems obtain ls2 where s2: "save_and_next ls1 = Inr ls2" "long_string_loop ls2 sep keep = Inr ls'"
        by (auto simp: e bindE_Inr_iff split: if_splits)
      show ?thesis
        using kept_trans [OF skip_sep_kept [OF s] save_and_next_kept [OF s2(1)]] skip_sep_left [OF s] save_and_next_left(1) [OF s2(1)] 2
        by (intro again [OF _ _ s2(2)]) simp_all
    next
      case False
      with 2 s less.prems have "long_string_loop ls1 sep keep = Inr ls'" by (simp add: e)
      then show ?thesis using skip_sep_kept [OF s] skip_sep_left [OF s] 2 by (intro again) simp_all
    qed
  next
    case 3
    with less.prems obtain ls1 n where s: "skip_sep ls = Inr (ls1, n)" by (auto simp: e bindE_Inr_iff)
    show ?thesis
    proof (cases "n = sep")
      case True
      with 3 s less.prems have "save_and_next ls1 = Inr ls'" by (simp add: e)
      then show ?thesis using skip_sep_kept [OF s] save_and_next_kept kept_trans by blast
    next
      case False
      with 3 s less.prems have "long_string_loop ls1 sep keep = Inr ls'" by (simp add: e)
      then show ?thesis using skip_sep_kept [OF s] skip_sep_left [OF s] 3 by (intro again) simp_all
    qed
  next
    case 4
    with less.prems obtain ls1 ls2 where s: "save ls (CHR 0x0A) = Inr ls1" "inclinenumber ls1 = Inr ls2"
      "long_string_loop (if keep then ls2 else ls2\<lparr>ls_buff := []\<rparr>) sep keep = Inr ls'"
      by (auto simp: e bindE_Inr_iff)
    have "kept ls ls2" by (rule kept_trans [OF save_kept [OF s(1)] inclinenumber_kept [OF s(2)]])
    moreover have "input_left (if keep then ls2 else ls2\<lparr>ls_buff := []\<rparr>) = input_left ls2" by (simp add: input_left_def)
    ultimately show ?thesis
      using inclinenumber_left(2) [OF s(2)] save_left [OF s(1)] 4 by (intro again [OF _ _ s(3)]) (auto simp: kept_def)
  next
    case 5
    with less.prems obtain ls1 where s: "(if keep then save_and_next ls else next_char ls) = Inr ls1"
      "long_string_loop ls1 sep keep = Inr ls'"
      by (auto simp: e bindE_Inr_iff)
    then show ?thesis using 5 save_and_next_left(2) next_char_left(2)
      by (intro again [OF _ _ s(2)]) (auto dest: kepts split: if_splits)
  qed (use less.prems in \<open>simp add: e\<close>)
qed

lemma read_long_string_kept [kepts]: "read_long_string ls keep sep = Inr (ls', s) \<Longrightarrow> kept ls ls'"
  by (auto simp: read_long_string_def kept_def bindE_Inr_iff Let_def dest!: kepts split: if_splits)

lemma decimal_loop_kept [kepts]: "decimal_loop n ls c = Inr (ls', d) \<Longrightarrow> kept ls ls'"
  by (induction n ls c rule: decimal_loop.induct)
    (auto simp: bindE_Inr_iff Let_def dest: next_char_kept intro: kept_trans split: if_splits)

lemma escape_sequence_kept [kepts]: "escape_sequence ls = Inr ls' \<Longrightarrow> kept ls ls'"
  by (auto simp: escape_sequence_def kept_def bindE_Inr_iff dest!: kepts split: if_splits option.splits)

lemma string_loop_kept [kepts]: "string_loop ls del = Inr ls' \<Longrightarrow> kept ls ls'"
proof (induction ls del rule: string_loop.induct)
  case (1 ls del)
  then show ?case
    by (auto simp: string_loop.simps [of ls] bindE_Inr_iff split: if_splits; meson kept_trans kepts)+
qed

lemma read_string_kept [kepts]: "read_string ls del = Inr (ls', s) \<Longrightarrow> kept ls ls'"
  by (auto simp: read_string_def kept_def bindE_Inr_iff Let_def dest!: kepts)

lemma maybe_eq_kept [kepts]: "maybe_eq ls tk = Inr (ls', tk') \<Longrightarrow> kept ls ls'"
  by (auto simp: maybe_eq_def kept_def bindE_Inr_iff dest!: kepts split: if_splits)

lemma skip_line_kept [kepts]: "skip_line ls = Inr ls' \<Longrightarrow> kept ls ls'"
proof (induction ls rule: skip_line.induct)
  case (1 ls)
  then show ?case by (auto simp: skip_line.simps [of ls] bindE_Inr_iff dest: next_char_kept intro: kept_trans split: if_splits)
qed

lemma skip_comment_kept [kepts]: "skip_comment ls = Inr ls' \<Longrightarrow> kept ls ls'"
  by (auto simp: skip_comment_def kept_def bindE_Inr_iff Let_def dest!: kepts split: if_splits)

lemma read_name_kept [kepts]: "read_name ls sem = Inr (ls', tk, sem') \<Longrightarrow> kept ls ls'"
  by (auto simp: read_name_def kept_def bindE_Inr_iff dest!: kepts split: if_splits)

lemma llex_token_kept [kepts]: "llex_token ls sem = Inr (ls', tk, sem') \<Longrightarrow> kept ls ls'"
  by (auto simp: llex_token_def kept_def bindE_Inr_iff Let_def dest!: kepts split: if_splits)

lemma llex_loop_kept [kepts]: "llex_loop ls sem = Inr (ls', tk, sem') \<Longrightarrow> kept ls ls'"
  and llex_loop_le: "llex_loop ls sem = Inr (ls', tk, sem') \<Longrightarrow> input_left ls' \<le> input_left ls"
proof -
  have "kept ls ls' \<and> input_left ls' \<le> input_left ls" if "llex_loop ls sem = Inr (ls', tk, sem')"
    using that
  proof (induction "input_left ls" arbitrary: ls rule: less_induct)
    case less
    note e = llex_loop_cases [of ls sem]
    have again: "kept ls ls' \<and> input_left ls' \<le> input_left ls"
      if "kept ls a" "input_left a < input_left ls" "llex_loop a sem = Inr (ls', tk, sem')" for a
      using less.hyps [OF that(2,3)] kept_trans [OF that(1)] that(2) by auto
    consider "currIsNewline ls" | "\<not> currIsNewline ls" "ls_current ls = 45"
      | "\<not> currIsNewline ls" "ls_current ls \<noteq> 45" "isspace (ls_current ls)"
      | "\<not> currIsNewline ls" "ls_current ls \<noteq> 45" "\<not> isspace (ls_current ls)" by blast
    then show ?case
    proof cases
      case 1
      with less.prems obtain a where s: "inclinenumber ls = Inr a" "llex_loop a sem = Inr (ls', tk, sem')"
        by (auto simp: e bindE_Inr_iff)
      have "input_left a < input_left ls" using inclinenumber_left(2) [OF s(1)] 1 by (auto simp: currIsNewline_def)
      with again inclinenumber_kept [OF s(1)] s(2) show ?thesis by blast
    next
      case 2
      with less.prems obtain a where s: "next_char ls = Inr a"
        "(if ls_current a \<noteq> 45 then Inr (a, 45, sem) else bindE (skip_comment a) (\<lambda>ls2. llex_loop ls2 sem)) = Inr (ls', tk, sem')"
        by (auto simp: e bindE_Inr_iff)
      have l: "input_left a < input_left ls" using next_char_left(2) [OF s(1)] 2 by simp
      show ?thesis
      proof (cases "ls_current a \<noteq> 45")
        case True
        with s(2) l next_char_kept [OF s(1)] show ?thesis by simp
      next
        case False
        with s(2) obtain b where s2: "skip_comment a = Inr b" "llex_loop b sem = Inr (ls', tk, sem')" by (auto simp: bindE_Inr_iff)
        have "input_left b < input_left ls" using skip_comment_left [OF s2(1)] l by simp
        with again kept_trans [OF next_char_kept [OF s(1)] skip_comment_kept [OF s2(1)]] s2(2) show ?thesis by blast
      qed
    next
      case 3
      with less.prems obtain a where s: "next_char ls = Inr a" "llex_loop a sem = Inr (ls', tk, sem')"
        by (auto simp: e bindE_Inr_iff)
      have "input_left a < input_left ls" using next_char_left(2) [OF s(1)] 3 by (auto simp: isspace_def)
      with again next_char_kept [OF s(1)] s(2) show ?thesis by blast
    next
      case 4
      with less.prems have s: "llex_token ls sem = Inr (ls', tk, sem')" by (simp add: e)
      with llex_token_le [OF s] llex_token_kept [OF s] show ?thesis by simp
    qed
  qed
  then show "llex_loop ls sem = Inr (ls', tk, sem') \<Longrightarrow> kept ls ls'"
    "llex_loop ls sem = Inr (ls', tk, sem') \<Longrightarrow> input_left ls' \<le> input_left ls" by blast+
qed

section \<open>A judgement of progress\<close>

text \<open>In the state \<open>s\<close> the function \<open>m\<close> does not reach a bound; if it returns a value \<open>x\<close>, then at most \<open>b - k x\<close> tokens are
left and the level is \<open>c\<close>.\<close>

definition within :: "int \<Rightarrow> nat \<Rightarrow> ('a \<Rightarrow> nat) \<Rightarrow> 'a P \<Rightarrow> Parser \<Rightarrow> bool" where
  "within c b k m s \<longleftrightarrow> m s \<noteq> None
     \<and> (\<forall>x s'. m s = Some (Inr (x, s')) \<longrightarrow> tokens_left s' + k x \<le> b \<and> ps_nCcalls s' = c)"

named_theorems runs

lemma within_bind:
  assumes "within c0 b0 k0 m s"
    and "\<And>x s'. tokens_left s' + k0 x \<le> b0 \<Longrightarrow> ps_nCcalls s' = c0 \<Longrightarrow> within c b k (f x) s'"
  shows "within c b k (bindP m f) s"
proof (cases "m s")
  case None
  with assms(1) show ?thesis by (simp add: within_def)
next
  case (Some r)
  show ?thesis
  proof (cases r)
    case (Inl e)
    with Some show ?thesis by (simp add: within_def bindP_def)
  next
    case (Inr xs)
    obtain x s' where x: "xs = (x, s')" by fastforce
    with Some Inr assms(1) have "within c b k (f x) s'" by (intro assms(2)) (simp_all add: within_def)
    with Some Inr x show ?thesis by (simp add: within_def bindP_def)
  qed
qed

lemma within_tail:
  assumes "within c0 b0 k0 m s" "c0 = c" "\<And>t x. t + k0 x \<le> b0 \<Longrightarrow> t + k x \<le> b"
  shows "within c b k m s"
  using assms by (fastforce simp: within_def)

lemma within_return [runs]: "tokens_left s + k x \<le> b \<Longrightarrow> ps_nCcalls s = c \<Longrightarrow> within c b k (returnP x) s"
  by (simp add: within_def returnP_def)

lemma within_return_bind [runs]: "within c b k (f x) s \<Longrightarrow> within c b k (bindP (returnP x) f) s"
  by (simp add: within_def returnP_def bindP_def)

lemma within_read [runs]: "within c b k (f (g s)) s \<Longrightarrow> within c b k (readP g f) s"
  by (simp add: within_def readP_def)

lemma within_then [runs]: "within c b k (bindP m (\<lambda>_. m')) s \<Longrightarrow> within c b k (thenP m m') s"
  by (simp add: thenP_def)

text \<open>Sequences are read from the left.\<close>

lemma bindP_assoc: "bindP (bindP m f) g = bindP m (\<lambda>x. bindP (f x) g)"
  by (rule ext) (simp add: bindP_def split: option.split sum.split prod.split)

lemma bindP_read: "bindP (readP h f) g = readP h (\<lambda>x. bindP (f x) g)"
  by (rule ext) (simp add: bindP_def readP_def)

lemma bindP_if: "bindP (if p then m else m') f = (if p then bindP m f else bindP m' f)"
  by simp

lemma within_bind_assoc [runs]: "within c b k (bindP m (\<lambda>x. bindP (f x) g)) s \<Longrightarrow> within c b k (bindP (bindP m f) g) s"
  by (simp add: bindP_assoc)

lemma within_bind_then [runs]: "within c b k (bindP m (\<lambda>_. bindP m' g)) s \<Longrightarrow> within c b k (bindP (thenP m m') g) s"
  by (simp add: bindP_assoc thenP_def)

lemma within_bind_read [runs]: "within c b k (bindP (f (h s)) g) s \<Longrightarrow> within c b k (bindP (readP h f) g) s"
  by (simp add: within_def bindP_def readP_def)

lemma within_if [runs]:
  "(p \<Longrightarrow> within c b k m s) \<Longrightarrow> (\<not> p \<Longrightarrow> within c b k m' s) \<Longrightarrow> within c b k (if p then m else m') s"
  by simp

lemma within_bind_if [runs]:
  "(p \<Longrightarrow> within c b k (bindP m f) s) \<Longrightarrow> (\<not> p \<Longrightarrow> within c b k (bindP m' f) s) \<Longrightarrow>
     within c b k (bindP (if p then m else m') f) s"
  by simp

lemma within_try [runs]: "(\<And>x. g s = Inr x \<Longrightarrow> tokens_left s + k x \<le> b) \<Longrightarrow> ps_nCcalls s = c \<Longrightarrow> within c b k (tryP g) s"
  by (auto simp: within_def tryP_def split: sum.splits)

lemma within_try_bind [runs]: "(\<And>x. g s = Inr x \<Longrightarrow> within c b k (f x) s) \<Longrightarrow> within c b k (bindP (tryP g) f) s"
  by (auto simp: within_def tryP_def bindP_def split: sum.splits)

text \<open>Calls of the code generator and changes of the state that leave the tokens alone.\<close>

lemma set_fs_state [simp]:
  "ps_fs (set_fs f s) = f (ps_fs s)" "ps_nCcalls (set_fs f s) = ps_nCcalls s" "ps_nCcalls (set_fn g s) = ps_nCcalls s"
  "ps_fn (set_fn g s) = g (ps_fn s)"
  by (simp_all add: set_fs_def set_fn_def)

definition same_tokens :: "Parser \<Rightarrow> Parser \<Rightarrow> bool" where
  "same_tokens s s' \<longleftrightarrow> ls_t (ps_ls s') = ls_t (ps_ls s) \<and> tokens_left s' = tokens_left s \<and> ps_nCcalls s' = ps_nCcalls s"

lemma same_tokensI: "ps_ls s' = (ps_ls s)\<lparr>ls_h := h\<rparr> \<Longrightarrow> ps_nCcalls s' = ps_nCcalls s \<Longrightarrow> same_tokens s s'"
  by (simp add: same_tokens_def tokens_left_def input_left_def)

lemma genP_same: "genP g s = Some (Inr (x, s')) \<Longrightarrow> same_tokens s s'"
  by (auto simp: genP_def intro: same_tokensI split: sum.splits)

lemma within_gen_bind [runs]:
  "(\<And>x s'. same_tokens s s' \<Longrightarrow> within c b k (f x) s') \<Longrightarrow> within c b k (bindP (genP g) f) s"
  by (auto simp: within_def bindP_def dest!: genP_same split: option.splits sum.splits) (auto simp: genP_def split: sum.splits)

lemma within_gen [runs]:
  "(\<And>x s'. same_tokens s s' \<Longrightarrow> tokens_left s' + k x \<le> b \<and> ps_nCcalls s' = c) \<Longrightarrow> within c b k (genP g) s"
  by (auto simp: within_def dest!: genP_same) (auto simp: genP_def split: sum.splits)

lemma within_gen0_bind [runs]:
  "(\<And>x s'. same_tokens s s' \<Longrightarrow> within c b k (f x) s') \<Longrightarrow> within c b k (bindP (gen0P g) f) s"
  unfolding gen0P_def by (rule within_gen_bind)

lemma within_gen0 [runs]:
  "(\<And>x s'. same_tokens s s' \<Longrightarrow> tokens_left s' + k x \<le> b \<and> ps_nCcalls s' = c) \<Longrightarrow> within c b k (gen0P g) s"
  unfolding gen0P_def by (rule within_gen)

lemma within_do_bind [runs]:
  "same_tokens s (g s) \<Longrightarrow> (\<And>s'. same_tokens s s' \<Longrightarrow> within c b k (f ()) s') \<Longrightarrow> within c b k (bindP (doP g) f) s"
  by (simp add: within_def bindP_def doP_def)

lemma within_do [runs]: "same_tokens s (g s) \<Longrightarrow> tokens_left s + k () \<le> b \<Longrightarrow> ps_nCcalls s = c \<Longrightarrow> within c b k (doP g) s"
  by (simp add: within_def doP_def same_tokens_def)

text \<open>The lexical analyzer: the current token is passed unless it is the end.\<close>

lemma left_fields [simp]:
  "input_left (ls\<lparr>ls_buff := x\<rparr>) = input_left ls" "input_left (ls\<lparr>ls_lastline := n\<rparr>) = input_left ls"
  "input_left (ls\<lparr>ls_t := t\<rparr>) = input_left ls" "input_left (ls\<lparr>ls_lookahead := t\<rparr>) = input_left ls"
  by (simp_all add: input_left_def)

lemma llex_facts:
  assumes "llex ls sem = Inr (ls', tk, sem')"
  shows "kept ls ls'" "input_left ls' \<le> input_left ls" "tk \<noteq> TK_EOS \<Longrightarrow> input_left ls' < input_left ls"
  using assms llex_loop_kept [of "ls\<lparr>ls_buff := []\<rparr>"] llex_loop_le [of "ls\<lparr>ls_buff := []\<rparr>"] llex_loop_left [of "ls\<lparr>ls_buff := []\<rparr>"]
  by (auto simp: llex_def)

lemma set_ls_tokens:
  "tokens_left (set_ls ls s) = input_left ls + (if t_token (ls_t ls) = TK_EOS then 0 else 1)
     + (if t_token (ls_lookahead ls) = TK_EOS then 0 else 1)"
  "ps_nCcalls (set_ls ls s) = ps_nCcalls s" "ps_ls (set_ls ls s) = ls"
  by (simp_all add: tokens_left_def set_ls_def)

lemma nextP_within: "within (ps_nCcalls s) (tokens_left s) (\<lambda>_. if token s = TK_EOS then 0 else 1) nextP s"
proof -
  have "tokens_left (set_ls ls s) + (if token s = TK_EOS then 0 else 1) \<le> tokens_left s" if "luaX_next (ps_ls s) = Inr ls" for ls
  proof (cases "t_token (ls_lookahead (ps_ls s)) = TK_EOS")
    case False
    with that show ?thesis by (auto simp: luaX_next_def Let_def set_ls_tokens tokens_left_def input_left_def)
  next
    case True
    with that obtain ls2 tk sem where
      s: "llex ((ps_ls s)\<lparr>ls_lastline := ls_linenumber (ps_ls s)\<rparr>) (t_seminfo (ls_t (ps_ls s))) = Inr (ls2, tk, sem)"
        "ls = ls2\<lparr>ls_t := \<lparr>t_token = tk, t_seminfo = sem\<rparr>\<rparr>"
      by (auto simp: luaX_next_def Let_def bindE_Inr_iff)
    have "t_token (ls_lookahead ls2) = TK_EOS" using llex_facts(1) [OF s(1)] True by (simp add: kept_def)
    then show ?thesis using llex_facts(2,3) [OF s(1)] s(2) True
      by (cases "tk = TK_EOS") (auto simp: set_ls_tokens tokens_left_def)
  qed
  then show ?thesis by (auto simp: within_def nextP_def lexP_def set_ls_tokens split: sum.splits)
qed

lemma lookaheadP_within: "within (ps_nCcalls s) (tokens_left s) (\<lambda>_. 0) (lexP luaX_lookahead) s"
proof -
  have "tokens_left (set_ls ls s) \<le> tokens_left s" if "luaX_lookahead (ps_ls s) = Inr ls" for ls
  proof -
    from that obtain ls2 tk sem where
      s: "llex (ps_ls s) (t_seminfo (ls_lookahead (ps_ls s))) = Inr (ls2, tk, sem)"
        "ls = ls2\<lparr>ls_lookahead := \<lparr>t_token = tk, t_seminfo = sem\<rparr>\<rparr>"
      by (auto simp: luaX_lookahead_def bindE_Inr_iff)
    then show ?thesis using llex_facts [OF s(1)]
      by (cases "tk = TK_EOS") (auto simp: set_ls_tokens tokens_left_def kept_def)
  qed
  then show ?thesis by (auto simp: within_def lexP_def set_ls_tokens split: sum.splits)
qed

lemma newstring_same: "luaX_newstring ls str = Inr (ls', x) \<Longrightarrow> \<exists>h. ls' = ls\<lparr>ls_h := h\<rparr>"
  by (auto simp: luaX_newstring_def bindE_Inr_iff)

lemma newstringP_within: "within (ps_nCcalls s) (tokens_left s) (\<lambda>_. 0) (newstringP str) s"
  by (auto simp: within_def newstringP_def lexP_def set_ls_tokens bindE_Inr_iff tokens_left_def input_left_def
      dest!: newstring_same split: sum.splits)

lemmas lex_runs [runs] = nextP_within [THEN within_bind] nextP_within [THEN within_tail]
  lookaheadP_within [THEN within_bind] lookaheadP_within [THEN within_tail]
  newstringP_within [THEN within_bind] newstringP_within [THEN within_tail]

section \<open>Tokens\<close>

lemma syntaxP_within [runs]: "within c b k (syntaxP msg) s" "within c b k (bindP (syntaxP msg) f) s"
  by (auto simp: within_def bindP_def syntaxP_def tryP_def luaX_syntaxerror_def split: sum.splits)

lemma error_expected_within [runs]: "within c b k (error_expected tk) s" "within c b k (bindP (error_expected tk) f) s"
  by (simp_all add: error_expected_def syntaxP_within)

lemma within_testnext [runs]:
  assumes "c0 \<noteq> TK_EOS"
    and "\<And>s'. token s = c0 \<Longrightarrow> tokens_left s' < tokens_left s \<Longrightarrow> ps_nCcalls s' = ps_nCcalls s \<Longrightarrow> within c b k (f True) s'"
    and "token s \<noteq> c0 \<Longrightarrow> within c b k (f False) s"
  shows "within c b k (bindP (testnext c0) f) s"
  unfolding testnext_def using assms by (auto intro!: runs)

lemma checkP_within [runs]: "(token s = c0 \<Longrightarrow> within c b k (f ()) s) \<Longrightarrow> within c b k (bindP (checkP c0) f) s"
  unfolding checkP_def by (auto intro!: runs)

lemma checknext_within [runs]:
  assumes "c0 \<noteq> TK_EOS"
    and "\<And>s'. tokens_left s' < tokens_left s \<Longrightarrow> ps_nCcalls s' = ps_nCcalls s \<Longrightarrow> within c b k (f ()) s'"
  shows "within c b k (bindP (checknext c0) f) s"
  unfolding checknext_def using assms by (auto intro!: runs)

lemma check_match_within:
  "what \<noteq> TK_EOS \<Longrightarrow> within (ps_nCcalls s) (tokens_left s) (\<lambda>_. 0) (check_match what who line) s"
  unfolding check_match_def by (auto intro!: runs)

lemma str_checkname_within: "within (ps_nCcalls s) (tokens_left s) (\<lambda>_. 1) str_checkname s"
  unfolding str_checkname_def by (auto intro!: runs split: SemInfo.split)

lemmas token_runs [runs] = check_match_within [THEN within_bind] check_match_within [THEN within_tail]
  str_checkname_within [THEN within_bind] str_checkname_within [THEN within_tail]

lemma codestring_within: "within (ps_nCcalls s) (tokens_left s) (\<lambda>_. 0) (codestring ts) s"
  unfolding codestring_def by (auto simp: same_tokens_def intro!: runs)

lemma checkname_within: "within (ps_nCcalls s) (tokens_left s) (\<lambda>_. 1) checkname s"
  unfolding checkname_def by (auto intro!: runs codestring_within [THEN within_tail])

lemma codestring_runs [runs]:
  "(\<And>x s'. same_tokens s s' \<Longrightarrow> within c b k (f x) s') \<Longrightarrow> within c b k (bindP (codestring ts) f) s"
  unfolding codestring_def by (auto intro!: runs)

lemmas name_runs [runs] = codestring_within [THEN within_tail]
  checkname_within [THEN within_bind] checkname_within [THEN within_tail]

section \<open>Variables, blocks and functions\<close>

lemma set_locvar_fs [simp]: "fn_fs (set_locvar i f fn) = fn_fs fn"
  by (simp add: set_locvar_def)

lemma start_vars_fs [simp]: "fn_fs (start_vars n fn) = fn_fs fn"
  by (induction n fn rule: start_vars.induct) simp_all

lemma adjust_vars_ls [simp]: "fs_ls (fn_fs (adjust_vars n fn)) = fs_ls (fn_fs fn)"
  by (simp add: adjust_vars_def)

lemma remove_vars_ls [simp]: "fs_ls (fn_fs (remove_vars n fn)) = fs_ls (fn_fs fn)"
  by (induction n fn rule: remove_vars.induct) (simp_all add: Let_def)

lemma same_tokens_fn: "fs_ls (fn_fs (g (ps_fn s))) = fs_ls (fn_fs (ps_fn s)) \<Longrightarrow> same_tokens s (set_fn g s)"
  by (rule same_tokensI [where h = "ls_h (ps_ls s)"]) simp_all

lemma same_tokens_fs: "fs_ls (g (ps_fs s)) = fs_ls (ps_fs s) \<Longrightarrow> same_tokens s (set_fs g s)"
  by (rule same_tokensI [where h = "ls_h (ps_ls s)"]) simp_all

lemmas same_rules = same_tokens_fn same_tokens_fs

lemma new_localvar_ls: "new_localvar_in ls fn name n = Inr fn' \<Longrightarrow> fs_ls (fn_fs fn') = fs_ls (fn_fs fn)"
  by (auto simp: new_localvar_in_def registerlocalvar_def bindE_Inr_iff Let_def split: if_splits)

lemma new_localvar_within: "within (ps_nCcalls s) (tokens_left s) (\<lambda>_. 0) (new_localvar name n) s"
  unfolding new_localvar_def by (auto intro!: runs same_rules dest: new_localvar_ls)

lemma adjustlocalvars_within: "within (ps_nCcalls s) (tokens_left s) (\<lambda>_. 0) (adjustlocalvars n) s"
  unfolding adjustlocalvars_def by (auto intro!: runs same_rules)

lemma removevars_within: "within (ps_nCcalls s) (tokens_left s) (\<lambda>_. 0) (removevars n) s"
  unfolding removevars_def by (auto intro!: runs same_rules)

lemmas var_runs [runs] = new_localvar_within [THEN within_bind] new_localvar_within [THEN within_tail]
  adjustlocalvars_within [THEN within_bind] adjustlocalvars_within [THEN within_tail]
  removevars_within [THEN within_bind] removevars_within [THEN within_tail]

lemma new_localvarliteral_within: "within (ps_nCcalls s) (tokens_left s) (\<lambda>_. 0) (new_localvarliteral v n) s"
  unfolding new_localvarliteral_def by (auto intro!: runs)

lemma indexupvalue_fs: "indexupvalue ls fn name v = Inr (fn', i) \<Longrightarrow> fn_fs fn' = fn_fs fn"
  by (auto simp: indexupvalue_def bindE_Inr_iff Let_def split: option.splits)

lemma markupval_fs [simp]: "fn_fs (markupval fn v) = fn_fs fn"
  by (simp add: markupval_def)

lemma singlevaraux_fs: "singlevaraux ls fns n base = Inr (fns', var) \<Longrightarrow> map fn_fs fns' = map fn_fs fns"
  by (induction ls fns n base arbitrary: fns' var rule: singlevaraux.induct)
    (auto simp: bindE_Inr_iff Let_def split: if_splits dest!: indexupvalue_fs)

lemma resolve_within: "within (ps_nCcalls s) (tokens_left s) (\<lambda>_. 0) (resolve name) s"
proof -
  have "same_tokens s (s\<lparr>ps_fn := hd fns, ps_prev := tl fns\<rparr>)"
    if "singlevaraux (ps_ls s) (ps_fn s # ps_prev s) name True = Inr (fns, var)" for fns var
    using singlevaraux_fs [OF that] by (cases fns) (auto intro: same_tokensI [where h = "ls_h (ps_ls s)"])
  then show ?thesis unfolding resolve_def by (auto simp: same_tokens_def intro!: runs)
qed

lemmas local_runs [runs] = new_localvarliteral_within [THEN within_bind] new_localvarliteral_within [THEN within_tail]
  resolve_within [THEN within_bind] resolve_within [THEN within_tail]

lemma singlevar_within: "within (ps_nCcalls s) (tokens_left s) (\<lambda>_. 1) singlevar s"
  unfolding singlevar_def by (auto simp: same_tokens_def intro!: runs)

lemma leavelevel_within: "within (ps_nCcalls s - 1) (tokens_left s) (\<lambda>_. 0) leavelevel s"
  by (simp add: within_def leavelevel_def doP_def tokens_left_def)

lemma enterlevel_within: "within (ps_nCcalls s + 1) (tokens_left s) (\<lambda>_. 0) enterlevel s"
  by (auto simp: within_def enterlevel_def thenP_def bindP_def doP_def tryP_def tokens_left_def split: sum.split)

lemma enterlevel_limit: "enterlevel s = Some (Inr (x, s')) \<Longrightarrow> ps_nCcalls s < LUAI_MAXCCALLS"
  by (auto simp: enterlevel_def thenP_def bindP_def doP_def tryP_def split: sum.splits if_splits)

lemma leaveblock_within: "within (ps_nCcalls s) (tokens_left s) (\<lambda>_. 0) leaveblock s"
  unfolding leaveblock_def by (auto simp: same_tokens_def intro!: runs same_rules split: list.split)

lemma pushclosure_within: "within (ps_nCcalls s) (tokens_left s) (\<lambda>_. 0) (pushclosure func) s"
  unfolding pushclosure_def by (auto simp: same_tokens_def intro!: runs same_rules)

lemma open_func_within: "within (ps_nCcalls s) (tokens_left s) (\<lambda>_. 0) open_func s"
  unfolding open_func_def
  by (auto simp: new_func_def bindE_Inr_iff same_tokens_def tokens_left_def input_left_def intro!: runs)

lemma finish_func_within: "within (ps_nCcalls s) (tokens_left s) (\<lambda>_. 0) finish_func s"
  unfolding finish_func_def by (auto simp: same_tokens_def intro!: runs)

lemma anchor_token_within: "within (ps_nCcalls s) (tokens_left s) (\<lambda>_. 0) anchor_token s"
  unfolding anchor_token_def by (auto intro!: runs split: SemInfo.split)

lemmas func_runs [runs] = singlevar_within [THEN within_bind] singlevar_within [THEN within_tail]
  leaveblock_within [THEN within_bind] leaveblock_within [THEN within_tail]
  pushclosure_within [THEN within_bind] pushclosure_within [THEN within_tail]
  open_func_within [THEN within_bind] open_func_within [THEN within_tail]
  finish_func_within [THEN within_bind] finish_func_within [THEN within_tail]
  anchor_token_within [THEN within_bind] anchor_token_within [THEN within_tail]

lemma close_func_within: "within (ps_nCcalls s) (tokens_left s) (\<lambda>_. 0) close_func s"
  unfolding close_func_def
  by (auto simp: same_tokens_def intro!: runs split: list.split)
    (auto simp: set_ls_tokens tokens_left_def input_left_def)

lemmas close_runs [runs] = close_func_within [THEN within_bind] close_func_within [THEN within_tail]

section \<open>Loops\<close>

text \<open>The turns of a loop that goes on read a token.\<close>

definition again :: "('a + 'b) \<Rightarrow> nat" where
  "again r = (case r of Inl _ \<Rightarrow> 1 | Inr _ \<Rightarrow> 0)"

lemma again_simps [simp]: "again (Inl a) = 1" "again (Inr b) = 0"
  by (simp_all add: again_def)

lemma loopP_within:
  fixes turn :: "'a \<Rightarrow> ('a + 'b) P"
  assumes "\<And>a s. ps_nCcalls s = c \<Longrightarrow> within c (tokens_left s) again (turn a) s"
  shows "ps_nCcalls s = c \<Longrightarrow> tokens_left s < n \<Longrightarrow> within c (tokens_left s) (\<lambda>_. 0) (loopP n turn a) s"
proof (induction n arbitrary: a s)
  case (Suc n)
  have "within c (tokens_left s) (\<lambda>_. 0) (bindP (turn a) (\<lambda>r. case r of Inl a' \<Rightarrow> loopP n turn a' | Inr b \<Rightarrow> returnP b)) s"
  proof (rule within_bind [OF assms [OF Suc.prems(1)]])
    fix x :: "'a + 'b" and s' assume s': "tokens_left s' + again x \<le> tokens_left s" "ps_nCcalls s' = c"
    show "within c (tokens_left s) (\<lambda>_. 0) (case x of Inl a' \<Rightarrow> loopP n turn a' | Inr b \<Rightarrow> returnP b) s'"
    proof (cases x)
      case (Inl a')
      with s' Suc.prems(2) have "within c (tokens_left s') (\<lambda>_. 0) (loopP n turn a') s'" by (intro Suc.IH) simp_all
      then show ?thesis using Inl s' by (auto intro: within_tail)
    next
      case (Inr b)
      with s' show ?thesis by (auto intro: within_return)
    qed
  qed
  then show ?case by (simp add: within_def)
qed simp

lemma repeatP_within:
  fixes turn :: "'a \<Rightarrow> ('a + 'b) P"
  assumes "\<And>a s'. ps_nCcalls s' = ps_nCcalls s \<Longrightarrow> within (ps_nCcalls s) (tokens_left s') again (turn a) s'"
  shows "within (ps_nCcalls s) (tokens_left s) (\<lambda>_. 0) (repeatP turn a) s"
proof -
  have "within (ps_nCcalls s) (tokens_left s) (\<lambda>_. 0) (loopP (Suc (tokens_left s)) turn a) s"
    by (rule loopP_within) (simp_all add: assms)
  then show ?thesis by (simp add: within_def repeatP_def del: loopP.simps)
qed

section \<open>Expressions\<close>

definition sub_ok :: "int \<Rightarrow> subexpr_fun \<Rightarrow> bool" where
  "sub_ok c sub \<longleftrightarrow> (\<forall>l s. ps_nCcalls s = c \<longrightarrow> within c (tokens_left s) (\<lambda>_. 1) (sub l) s)"

definition chk_ok :: "int \<Rightarrow> unit P \<Rightarrow> bool" where
  "chk_ok c chk \<longleftrightarrow> (\<forall>s. ps_nCcalls s = c \<longrightarrow> within c (tokens_left s) (\<lambda>_. 0) chk s)"

lemma sub_within: "sub_ok (ps_nCcalls s) sub \<Longrightarrow> within (ps_nCcalls s) (tokens_left s) (\<lambda>_. 1) (sub l) s"
  by (simp add: sub_ok_def)

lemma chk_within: "chk_ok (ps_nCcalls s) chk \<Longrightarrow> within (ps_nCcalls s) (tokens_left s) (\<lambda>_. 0) chk s"
  by (simp add: chk_ok_def)

lemma expr_within: "sub_ok (ps_nCcalls s) sub \<Longrightarrow> within (ps_nCcalls s) (tokens_left s) (\<lambda>_. 1) (expr sub) s"
  unfolding expr_def by (auto intro!: runs sub_within [where sub = sub, THEN within_bind])

lemma field_within: "token s \<noteq> TK_EOS \<Longrightarrow> within (ps_nCcalls s) (tokens_left s) (\<lambda>_. 1) (field v) s"
  unfolding field_def by (auto simp: same_tokens_def intro!: runs)

lemmas expr_runs [runs] = expr_within [THEN within_bind] expr_within [THEN within_tail]
  field_within [THEN within_bind] field_within [THEN within_tail]

lemma yindex_within: "sub_ok (ps_nCcalls s) sub \<Longrightarrow> within (ps_nCcalls s) (tokens_left s) (\<lambda>_. 1) (yindex sub) s"
  unfolding yindex_def by (auto simp: same_tokens_def intro!: runs)

lemma set_freereg_within [runs]:
  "(\<And>s'. same_tokens s s' \<Longrightarrow> within c b k (f ()) s') \<Longrightarrow> within c b k (bindP (set_freereg r) f) s"
  unfolding set_freereg_def by (auto intro!: runs same_rules)

lemmas index_runs [runs] = yindex_within [THEN within_bind] yindex_within [THEN within_tail]

lemma recfield_within: "sub_ok (ps_nCcalls s) sub \<Longrightarrow> within (ps_nCcalls s) (tokens_left s) (\<lambda>_. 1) (recfield sub cc) s"
  unfolding recfield_def by (auto simp: same_tokens_def split_beta intro!: runs)

lemma closelistfield_within: "within (ps_nCcalls s) (tokens_left s) (\<lambda>_. 0) (closelistfield cc) s"
  unfolding closelistfield_def by (auto simp: same_tokens_def Let_def intro!: runs)

lemma lastlistfield_within: "within (ps_nCcalls s) (tokens_left s) (\<lambda>_. 0) (lastlistfield cc) s"
  unfolding lastlistfield_def by (auto simp: same_tokens_def intro!: runs)

lemma listfield_within: "sub_ok (ps_nCcalls s) sub \<Longrightarrow> within (ps_nCcalls s) (tokens_left s) (\<lambda>_. 1) (listfield sub cc) s"
  unfolding listfield_def by (auto simp: same_tokens_def intro!: runs)

lemmas field_runs [runs] = recfield_within [THEN within_bind] recfield_within [THEN within_tail]
  closelistfield_within [THEN within_bind] closelistfield_within [THEN within_tail]
  lastlistfield_within [THEN within_bind] lastlistfield_within [THEN within_tail]
  listfield_within [THEN within_bind] listfield_within [THEN within_tail]

lemma constructor_item_within:
  "ps_nCcalls s = c \<Longrightarrow> sub_ok c sub \<Longrightarrow> within c (tokens_left s) again (constructor_item sub cc) s"
  unfolding constructor_item_def by (auto simp: same_tokens_def intro!: runs)

lemma constructor_within: "sub_ok (ps_nCcalls s) sub \<Longrightarrow> within (ps_nCcalls s) (tokens_left s) (\<lambda>_. 1) (constructor sub) s"
  unfolding constructor_def
  by (auto simp: same_tokens_def intro!: runs repeatP_within [THEN within_bind] constructor_item_within)

lemma set_vararg_within [runs]:
  "(\<And>s'. same_tokens s s' \<Longrightarrow> within c b k (f ()) s') \<Longrightarrow> within c b k (bindP (set_vararg r) f) s"
  unfolding set_vararg_def by (auto intro!: runs same_rules)

lemma parlist_item_within: "ps_nCcalls s = c \<Longrightarrow> within c (tokens_left s) again (parlist_item n) s"
  unfolding parlist_item_def by (auto simp: same_tokens_def intro!: runs)

lemma parlist_within: "within (ps_nCcalls s) (tokens_left s) (\<lambda>_. 0) parlist s"
  unfolding parlist_def
  by (auto simp: same_tokens_def intro!: runs same_rules repeatP_within [THEN within_bind] parlist_item_within)

lemmas list_runs [runs] = constructor_within [THEN within_bind] constructor_within [THEN within_tail]
  parlist_within [THEN within_bind] parlist_within [THEN within_tail]

lemma body_within: "chk_ok (ps_nCcalls s) chk \<Longrightarrow> within (ps_nCcalls s) (tokens_left s) (\<lambda>_. 1) (body chk needself line) s"
  unfolding body_def by (auto simp: same_tokens_def intro!: runs same_rules chk_within [where chk = chk, THEN within_bind])

lemma explist1_item_within: "ps_nCcalls s = c \<Longrightarrow> sub_ok c sub \<Longrightarrow> within c (tokens_left s) again (explist1_item sub nv) s"
  unfolding explist1_item_def by (auto simp: same_tokens_def split_beta intro!: runs)

lemma explist1_within: "sub_ok (ps_nCcalls s) sub \<Longrightarrow> within (ps_nCcalls s) (tokens_left s) (\<lambda>_. 1) (explist1 sub) s"
  unfolding explist1_def by (auto intro!: runs repeatP_within [THEN within_tail] explist1_item_within)

lemmas args_runs [runs] = body_within [THEN within_bind] body_within [THEN within_tail]
  explist1_within [THEN within_bind] explist1_within [THEN within_tail]

lemma call_args_within: "sub_ok (ps_nCcalls s) sub \<Longrightarrow> within (ps_nCcalls s) (tokens_left s) (\<lambda>_. 1) (call_args sub line) s"
  unfolding call_args_def by (auto simp: same_tokens_def split_beta intro!: runs split: SemInfo.split)

lemmas call_runs [runs] = call_args_within [THEN within_bind]

lemma funcargs_within: "sub_ok (ps_nCcalls s) sub \<Longrightarrow> within (ps_nCcalls s) (tokens_left s) (\<lambda>_. 1) (funcargs sub f) s"
  unfolding funcargs_def by (auto simp: same_tokens_def luaK_fixline_def Let_def intro!: runs same_rules)

lemma prefixexp_within: "sub_ok (ps_nCcalls s) sub \<Longrightarrow> within (ps_nCcalls s) (tokens_left s) (\<lambda>_. 1) (prefixexp sub) s"
  unfolding prefixexp_def by (auto simp: same_tokens_def intro!: runs)

lemmas prefix_runs [runs] = funcargs_within [THEN within_bind] prefixexp_within [THEN within_bind]

lemma primaryexp_item_within:
  "ps_nCcalls s = c \<Longrightarrow> sub_ok c sub \<Longrightarrow> within c (tokens_left s) again (primaryexp_item sub v) s"
  unfolding primaryexp_item_def by (auto simp: same_tokens_def intro!: runs)

lemma primaryexp_within: "sub_ok (ps_nCcalls s) sub \<Longrightarrow> within (ps_nCcalls s) (tokens_left s) (\<lambda>_. 1) (primaryexp sub) s"
  unfolding primaryexp_def by (auto intro!: runs repeatP_within [THEN within_tail] primaryexp_item_within)

lemma skip_with_within: "within (ps_nCcalls s) (tokens_left s) (\<lambda>_. if token s = TK_EOS then 0 else 1) (skip_with v) s"
  unfolding skip_with_def by (auto intro!: runs)

lemmas primary_runs [runs] = primaryexp_within [THEN within_bind] primaryexp_within [THEN within_tail]
  skip_with_within [THEN within_tail]

lemma simpleexp_within:
  "sub_ok (ps_nCcalls s) sub \<Longrightarrow> chk_ok (ps_nCcalls s) chk \<Longrightarrow>
     within (ps_nCcalls s) (tokens_left s) (\<lambda>_. 1) (simpleexp sub chk) s"
  unfolding simpleexp_def by (auto simp: same_tokens_def Let_def intro!: runs split: SemInfo.split)

lemma subexpr_item_within:
  "ps_nCcalls s = c \<Longrightarrow> sub_ok c sub \<Longrightarrow> within c (tokens_left s) again (subexpr_item pow sub limit vo) s"
  unfolding subexpr_item_def by (auto simp: same_tokens_def split_beta intro!: runs sub_within [where sub = sub, THEN within_bind])

lemma enterlevel_runs [runs]:
  assumes "\<And>s'. ps_nCcalls s < LUAI_MAXCCALLS \<Longrightarrow> token s' = token s \<Longrightarrow> tokens_left s' = tokens_left s \<Longrightarrow>
    ps_nCcalls s' = ps_nCcalls s + 1 \<Longrightarrow> within c b k (f ()) s'"
  shows "within c b k (bindP enterlevel f) s"
proof (cases "ps_nCcalls s < LUAI_MAXCCALLS")
  case True
  let ?s = "s\<lparr>ps_nCcalls := ps_nCcalls s + 1\<rparr>"
  have "within c b k (f ()) ?s" using True by (intro assms) (simp_all add: tokens_left_def)
  moreover have "enterlevel s = Some (Inr ((), ?s))" using True by (simp add: enterlevel_def thenP_def bindP_def doP_def tryP_def)
  ultimately show ?thesis by (simp add: within_def bindP_def)
next
  case False
  then show ?thesis by (simp add: within_def enterlevel_def thenP_def bindP_def doP_def tryP_def luaX_lexerror_def)
qed

lemmas leave_runs [runs] = leavelevel_within [THEN within_bind] leavelevel_within [THEN within_tail]
  simpleexp_within [THEN within_bind]

lemma subexpr_body_within:
  assumes "ps_nCcalls s < LUAI_MAXCCALLS \<Longrightarrow> sub_ok (ps_nCcalls s + 1) sub"
    and "ps_nCcalls s < LUAI_MAXCCALLS \<Longrightarrow> chk_ok (ps_nCcalls s + 1) chk"
  shows "within (ps_nCcalls s) (tokens_left s) (\<lambda>_. 1) (subexpr_body pow sub chk limit) s"
  unfolding subexpr_body_def using assms
  by (auto simp: same_tokens_def split_beta Let_def intro!: runs sub_within [where sub = sub, THEN within_bind]
      repeatP_within [THEN within_bind] subexpr_item_within)

section \<open>Statements\<close>

lemma block_within: "chk_ok (ps_nCcalls s) chk \<Longrightarrow> within (ps_nCcalls s) (tokens_left s) (\<lambda>_. 0) (block chk) s"
  unfolding block_def enterblock_def
  by (auto simp: same_tokens_def intro!: runs same_rules chk_within [where chk = chk, THEN within_bind])

lemmas block_runs [runs] = block_within [THEN within_bind] block_within [THEN within_tail]

lemma check_conflict_within: "within (ps_nCcalls s) (tokens_left s) (\<lambda>_. 0) (check_conflict lhs v) s"
  unfolding check_conflict_def by (auto simp: same_tokens_def intro!: runs)

lemma store_top_within: "within (ps_nCcalls s) (tokens_left s) (\<lambda>_. 0) (store_top v) s"
  unfolding store_top_def by (auto simp: same_tokens_def intro!: runs)

lemmas store_runs [runs] = check_conflict_within [THEN within_bind] check_conflict_within [THEN within_tail]
  store_top_within [THEN within_bind] store_top_within [THEN within_tail]

lemma assignment_loop_within:
  "ps_nCcalls s = c \<Longrightarrow> sub_ok c sub \<Longrightarrow> tokens_left s < n \<Longrightarrow>
     within c (tokens_left s) (\<lambda>_. 0) (assignment_loop n sub lh lhs nvars) s"
proof (induction n arbitrary: lh lhs nvars s)
  case (Suc n)
  have ih: "tokens_left s' < n \<Longrightarrow> ps_nCcalls s' = c \<Longrightarrow>
      within (ps_nCcalls s') (tokens_left s') (\<lambda>_. 0) (assignment_loop n sub lh' lhs' nvars') s'" for lh' lhs' nvars' s'
    using Suc.IH [of s'] Suc.prems(2) by simp
  have "within c (tokens_left s) (\<lambda>_. 0) (\<lambda>s. assignment_loop (Suc n) sub lh lhs nvars s) s"
    unfolding assignment_loop.simps using Suc.prems
    by (auto simp: same_tokens_def intro!: runs same_rules ih [THEN within_bind] split: list.split)
  then show ?case by simp
qed simp

lemma assignment_within: "sub_ok (ps_nCcalls s) sub \<Longrightarrow> within (ps_nCcalls s) (tokens_left s) (\<lambda>_. 0) (assignment sub v) s"
proof -
  assume "sub_ok (ps_nCcalls s) sub"
  then have "within (ps_nCcalls s) (tokens_left s) (\<lambda>_. 0)
      (thenP (assignment_loop (Suc (tokens_left s)) sub v [] 1) (returnP ())) s"
    by (intro within_then within_bind [OF assignment_loop_within]) (auto intro: runs)
  then show ?thesis by (simp add: within_def assignment_def del: assignment_loop.simps)
qed

lemma cond_within: "sub_ok (ps_nCcalls s) sub \<Longrightarrow> within (ps_nCcalls s) (tokens_left s) (\<lambda>_. 1) (cond sub) s"
  unfolding cond_def by (auto simp: same_tokens_def intro!: runs)

lemma breakstat_within: "within (ps_nCcalls s) (tokens_left s) (\<lambda>_. 0) breakstat s"
  unfolding breakstat_def by (auto simp: same_tokens_def intro!: runs same_rules split: option.split)

lemma getlabelP_runs [runs]: "(\<And>x s'. same_tokens s s' \<Longrightarrow> within c b k (f x) s') \<Longrightarrow> within c b k (bindP getlabelP f) s"
  unfolding getlabelP_def by (rule within_gen_bind)

lemma enterblock_runs [runs]: "(\<And>s'. same_tokens s s' \<Longrightarrow> within c b k (f ()) s') \<Longrightarrow> within c b k (bindP (enterblock l) f) s"
  unfolding enterblock_def by (auto intro!: runs same_rules)

lemmas stat_runs [runs] = assignment_within [THEN within_tail] cond_within [THEN within_bind]
  breakstat_within [THEN within_bind] breakstat_within [THEN within_tail]

lemma whilestat_within:
  "sub_ok (ps_nCcalls s) sub \<Longrightarrow> chk_ok (ps_nCcalls s) chk \<Longrightarrow> within (ps_nCcalls s) (tokens_left s) (\<lambda>_. 1) (whilestat sub chk line) s"
  unfolding whilestat_def by (auto simp: same_tokens_def intro!: runs)

lemma repeatstat_within:
  "sub_ok (ps_nCcalls s) sub \<Longrightarrow> chk_ok (ps_nCcalls s) chk \<Longrightarrow> within (ps_nCcalls s) (tokens_left s) (\<lambda>_. 1) (repeatstat sub chk line) s"
  unfolding repeatstat_def
  by (auto simp: same_tokens_def intro!: runs chk_within [where chk = chk, THEN within_bind] split: list.split)

lemma exp1_within: "sub_ok (ps_nCcalls s) sub \<Longrightarrow> within (ps_nCcalls s) (tokens_left s) (\<lambda>_. 1) (exp1 sub) s"
  unfolding exp1_def by (auto simp: same_tokens_def intro!: runs)

lemma forbody_within: "chk_ok (ps_nCcalls s) chk \<Longrightarrow> within (ps_nCcalls s) (tokens_left s) (\<lambda>_. 0) (forbody chk base line nvars isnum) s"
  unfolding forbody_def by (auto simp: same_tokens_def luaK_fixline_def intro!: runs same_rules)

lemmas for_runs [runs] = exp1_within [THEN within_bind] exp1_within [THEN within_tail]
  forbody_within [THEN within_bind] forbody_within [THEN within_tail]

lemma fornum_within:
  "sub_ok (ps_nCcalls s) sub \<Longrightarrow> chk_ok (ps_nCcalls s) chk \<Longrightarrow> within (ps_nCcalls s) (tokens_left s) (\<lambda>_. 1) (fornum sub chk name line) s"
  unfolding fornum_def by (auto simp: same_tokens_def intro!: runs)

lemma forlist_item_within: "ps_nCcalls s = c \<Longrightarrow> within c (tokens_left s) again (forlist_item n) s"
  unfolding forlist_item_def by (auto intro!: runs)

lemma forlist_within:
  "sub_ok (ps_nCcalls s) sub \<Longrightarrow> chk_ok (ps_nCcalls s) chk \<Longrightarrow> within (ps_nCcalls s) (tokens_left s) (\<lambda>_. 1) (forlist sub chk name) s"
  unfolding forlist_def
  by (auto simp: same_tokens_def intro!: runs repeatP_within [THEN within_bind] forlist_item_within)

lemmas loop_runs [runs] = fornum_within [THEN within_bind] forlist_within [THEN within_bind]

lemma forstat_within:
  "sub_ok (ps_nCcalls s) sub \<Longrightarrow> chk_ok (ps_nCcalls s) chk \<Longrightarrow> within (ps_nCcalls s) (tokens_left s) (\<lambda>_. 1) (forstat sub chk line) s"
  unfolding forstat_def by (auto simp: same_tokens_def intro!: runs)

lemma test_then_block_within:
  "sub_ok (ps_nCcalls s) sub \<Longrightarrow> chk_ok (ps_nCcalls s) chk \<Longrightarrow> within (ps_nCcalls s) (tokens_left s) (\<lambda>_. 1) (test_then_block sub chk) s"
  unfolding test_then_block_def by (auto simp: same_tokens_def intro!: runs)

lemmas then_runs [runs] = test_then_block_within [THEN within_bind]

lemma ifstat_item_within:
  "ps_nCcalls s = c \<Longrightarrow> sub_ok c sub \<Longrightarrow> chk_ok c chk \<Longrightarrow> within c (tokens_left s) again (ifstat_item sub chk ef) s"
  unfolding ifstat_item_def by (auto simp: same_tokens_def split_beta intro!: runs)

lemma ifstat_within:
  "sub_ok (ps_nCcalls s) sub \<Longrightarrow> chk_ok (ps_nCcalls s) chk \<Longrightarrow> within (ps_nCcalls s) (tokens_left s) (\<lambda>_. 1) (ifstat sub chk line) s"
  unfolding ifstat_def
  by (auto simp: same_tokens_def split_beta intro!: runs repeatP_within [THEN within_bind] ifstat_item_within)

lemma localfunc_within: "chk_ok (ps_nCcalls s) chk \<Longrightarrow> within (ps_nCcalls s) (tokens_left s) (\<lambda>_. 1) (localfunc chk) s"
  unfolding localfunc_def by (auto simp: same_tokens_def intro!: runs same_rules)

lemma localstat_item_within: "ps_nCcalls s = c \<Longrightarrow> within c (tokens_left s) again (localstat_item n) s"
  unfolding localstat_item_def by (auto intro!: runs)

lemma localstat_within: "sub_ok (ps_nCcalls s) sub \<Longrightarrow> within (ps_nCcalls s) (tokens_left s) (\<lambda>_. 0) (localstat sub) s"
  unfolding localstat_def
  by (auto simp: same_tokens_def split_beta intro!: runs repeatP_within [THEN within_bind] localstat_item_within)

lemma funcname_item_within: "ps_nCcalls s = c \<Longrightarrow> within c (tokens_left s) again (funcname_item v) s"
  unfolding funcname_item_def by (auto intro!: runs)

lemma funcname_within: "within (ps_nCcalls s) (tokens_left s) (\<lambda>_. 1) funcname s"
  unfolding funcname_def by (auto intro!: runs repeatP_within [THEN within_bind] funcname_item_within)

lemmas funcname_runs [runs] = funcname_within [THEN within_bind]

lemma funcstat_within: "chk_ok (ps_nCcalls s) chk \<Longrightarrow> within (ps_nCcalls s) (tokens_left s) (\<lambda>_. 1) (funcstat chk line) s"
  unfolding funcstat_def by (auto simp: same_tokens_def split_beta luaK_fixline_def intro!: runs same_rules)

lemma exprstat_within: "sub_ok (ps_nCcalls s) sub \<Longrightarrow> within (ps_nCcalls s) (tokens_left s) (\<lambda>_. 1) (exprstat sub) s"
  unfolding exprstat_def by (auto simp: same_tokens_def intro!: runs)

lemma retstat_within:
  "token s \<noteq> TK_EOS \<Longrightarrow> sub_ok (ps_nCcalls s) sub \<Longrightarrow> within (ps_nCcalls s) (tokens_left s) (\<lambda>_. 1) (retstat sub) s"
  unfolding retstat_def by (auto simp: same_tokens_def split_beta intro!: runs)

lemmas statement_runs [runs] = whilestat_within [THEN within_bind] repeatstat_within [THEN within_bind]
  forstat_within [THEN within_bind] ifstat_within [THEN within_bind] localfunc_within [THEN within_bind]
  localstat_within [THEN within_bind] funcstat_within [THEN within_bind] exprstat_within [THEN within_bind]
  retstat_within [THEN within_bind]

lemma statement_within:
  "sub_ok (ps_nCcalls s) sub \<Longrightarrow> chk_ok (ps_nCcalls s) chk \<Longrightarrow> within (ps_nCcalls s) (tokens_left s) (\<lambda>_. 1) (statement sub chk) s"
  unfolding statement_def by (auto intro!: runs)

lemmas chunk_runs [runs] = statement_within [THEN within_bind]

lemma chunk_item_within:
  "ps_nCcalls s = c \<Longrightarrow> sub_ok c sub \<Longrightarrow> chk_ok c chk \<Longrightarrow> within c (tokens_left s) again (chunk_item sub chk islast) s"
  unfolding chunk_item_def by (auto simp: same_tokens_def intro!: runs same_rules)

lemma chunk_body_within:
  assumes "ps_nCcalls s < LUAI_MAXCCALLS \<Longrightarrow> sub_ok (ps_nCcalls s + 1) sub"
    and "ps_nCcalls s < LUAI_MAXCCALLS \<Longrightarrow> chk_ok (ps_nCcalls s + 1) chk"
  shows "within (ps_nCcalls s) (tokens_left s) (\<lambda>_. 0) (chunk_body sub chk) s"
  unfolding chunk_body_def using assms
  by (auto intro!: runs repeatP_within [THEN within_bind] chunk_item_within)

section \<open>The parser\<close>

text \<open>With as many levels as the limit allows, the recursion reaches the limit before the bound.\<close>

lemma levels_ok: "LUAI_MAXCCALLS < c + int n \<Longrightarrow> 1 \<le> n \<Longrightarrow> sub_ok c (subexpr pow n) \<and> chk_ok c (chunk pow n)"
proof (induction n arbitrary: c)
  case (Suc n)
  have ih: "sub_ok (c + 1) (subexpr pow n) \<and> chk_ok (c + 1) (chunk pow n)" if "c < LUAI_MAXCCALLS"
    using that Suc.prems by (intro Suc.IH) auto
  have "within c (tokens_left s) (\<lambda>_. 1) (subexpr pow (Suc n) l) s" "within c (tokens_left s) (\<lambda>_. 0) (chunk pow (Suc n)) s"
    if "ps_nCcalls s = c" for l s
    using subexpr_body_within [of s "subexpr pow n" "chunk pow n" pow l] chunk_body_within [of s "subexpr pow n" "chunk pow n"] ih that
    by (simp_all add: within_def)
  then show ?case unfolding sub_ok_def chk_ok_def by blast
qed simp

lemma main_func_within: "within (ps_nCcalls s) (tokens_left s) (\<lambda>_. 0) (main_func pow (ps_nCcalls s)) s"
proof -
  have "chk_ok (ps_nCcalls s) (chunk pow (levels_left (ps_nCcalls s)))"
    using levels_ok [of "ps_nCcalls s" "levels_left (ps_nCcalls s)"] by (simp add: levels_left_def)
  then show ?thesis
    unfolding main_func_def
    by (auto simp: same_tokens_def intro!: runs chk_within [where chk = "chunk pow (levels_left (ps_nCcalls s))", THEN within_bind])
qed

text \<open>C2: parsing ends: on every source, in whatever blocks it is read, \<open>luaY_parser\<close> returns a function or an error and
never reaches a bound of the model.\<close>

theorem luaY_parser_ends: "luaY_parser pow nCcalls z name h \<noteq> None"
proof (cases "bindE (luaX_setinput z name h) new_func")
  case (Inr fn)
  have "main_func pow nCcalls \<lparr>ps_fn = fn, ps_prev = [], ps_nCcalls = nCcalls\<rparr> \<noteq> None"
    using main_func_within [of "\<lparr>ps_fn = fn, ps_prev = [], ps_nCcalls = nCcalls\<rparr>" pow] by (simp add: within_def)
  with Inr show ?thesis by (auto simp: luaY_parser_def split: sum.split)
qed (simp add: luaY_parser_def)

end
