(* ===== verification/LuaScope.thy ===== *)
theory LuaScope
  imports LuaParser
begin

text \<open>
  The names of a source and the variables they stand for: the search of the parser against lexical scoping.
\<close>

section \<open>Lexical scoping\<close>

text \<open>The active variables of a function with a name; the innermost one is the one declared last.\<close>

definition declared :: "Func \<Rightarrow> string \<Rightarrow> int set" where
  "declared fn n = {i. 0 \<le> i \<and> i < fs_nactvar (fn_fs fn) \<and> varname (locvar fn i) = Some n}"

text \<open>The variable a name stands for in the first function of a chain: how many functions further out it is, and its
place among the variables there.\<close>

fun lexical :: "Func list \<Rightarrow> string \<Rightarrow> (nat \<times> int) option" where
  "lexical [] n = None"
| "lexical (fn # fns) n =
     (if declared fn n = {} then map_option (\<lambda>(d, i). (Suc d, i)) (lexical fns n) else Some (0, Max (declared fn n)))"

text \<open>The variable a descriptor stands for.\<close>

fun denotes :: "Func list \<Rightarrow> expkind \<Rightarrow> int \<Rightarrow> (nat \<times> int) option" where
  "denotes [] k i = None"
| "denotes (fn # fns) k i =
     (if k = VLOCAL then Some (0, i)
      else if k = VUPVAL \<and> 0 \<le> i \<and> i < int (length (fn_upvalues fn)) then
        map_option (\<lambda>(d, j). (Suc d, j)) (denotes fns (ud_k (fn_upvalues fn ! nat i)) (ud_info (fn_upvalues fn ! nat i)))
      else None)"

definition scope_ok :: "Func \<Rightarrow> bool" where
  "scope_ok fn \<longleftrightarrow> fs_nactvar (fn_fs fn) \<le> LUAI_MAXVARS \<and> int (length (fn_upvalues fn)) \<le> LUAI_MAXUPVALUES
     \<and> distinct (map (\<lambda>u. (ud_k u, ud_info u)) (fn_upvalues fn))"

section \<open>The search in one function\<close>

lemma finite_declared [simp]: "finite (declared fn n)"
  by (rule finite_subset [of _ "{0..fs_nactvar (fn_fs fn)}"]) (auto simp: declared_def)

lemma searchvar_loop_spec:
  "searchvar_loop fn n m = (let D = {i. 0 \<le> i \<and> i < int m \<and> varname (locvar fn i) = Some n} in if D = {} then - 1 else Max D)"
proof (induction m)
  case (Suc m)
  let ?D = "\<lambda>m. {i. 0 \<le> i \<and> i < int m \<and> varname (locvar fn i) = Some n}"
  have fin: "finite (?D m)" for m by (rule finite_subset [of _ "{0..int m}"]) auto
  have less: "i < int (Suc m) \<longleftrightarrow> i < int m \<or> i = int m" for i by linarith
  show ?case
  proof (cases "varname (locvar fn (int m)) = Some n")
    case True
    have "Max (?D (Suc m)) = int m"
    proof (rule Max_eqI [OF fin])
      show "int m \<in> ?D (Suc m)" using True by simp
    qed auto
    moreover have "int m \<in> ?D (Suc m)" using True by simp
    then have "?D (Suc m) \<noteq> {}" by blast
    ultimately show ?thesis using True by (simp add: Let_def del: of_nat_Suc)
  next
    case False
    then have "?D (Suc m) = ?D m" unfolding less by auto
    with False Suc show ?thesis by (simp del: of_nat_Suc)
  qed
qed simp

lemma searchvar_spec: "searchvar fn n = (if declared fn n = {} then - 1 else Max (declared fn n))"
proof -
  have "{i. 0 \<le> i \<and> i < int (nat (fs_nactvar (fn_fs fn))) \<and> varname (locvar fn i) = Some n} = declared fn n"
    by (auto simp: declared_def)
  then show ?thesis by (simp add: searchvar_def searchvar_loop_spec Let_def)
qed

lemma searchvar_declared: "declared fn n \<noteq> {} \<Longrightarrow> 0 \<le> searchvar fn n \<and> searchvar fn n < fs_nactvar (fn_fs fn)"
  using Max_in [OF finite_declared, of fn n] by (auto simp: searchvar_spec declared_def)

lemma searchvar_neg: "0 \<le> searchvar fn n \<longleftrightarrow> declared fn n \<noteq> {}"
  using searchvar_declared [of fn n] by (auto simp: searchvar_spec)

section \<open>Upvalues\<close>

lemma find_upvalue_Some:
  "find_upvalue us v i = Some j \<Longrightarrow> i \<le> j \<and> j < i + int (length us) \<and> ud_k (us ! nat (j - i)) = ek v \<and> ud_info (us ! nat (j - i)) = info v"
proof (induction us v i rule: find_upvalue.induct)
  case (2 u us v i)
  show ?case
  proof (cases "ud_k u = ek v \<and> ud_info u = info v")
    case False
    with 2 have "i + 1 \<le> j" "j < i + 1 + int (length us)" "ud_k (us ! nat (j - (i + 1))) = ek v" "ud_info (us ! nat (j - (i + 1))) = info v" by auto
    moreover from this(1) have "nat (j - i) = Suc (nat (j - (i + 1)))" by linarith
    ultimately show ?thesis by simp
  qed (use 2 in auto)
qed simp

lemma find_upvalue_None: "find_upvalue us v i = None \<Longrightarrow> u \<in> set us \<Longrightarrow> \<not> (ud_k u = ek v \<and> ud_info u = info v)"
  by (induction us v i rule: find_upvalue.induct) (auto split: if_splits)

text \<open>The upvalue of a variable is found, or it is new and goes to the end.\<close>

lemma indexupvalue_spec:
  assumes "indexupvalue ls fn name v = Inr (fn', i)" "scope_ok fn" "0 \<le> info v" "info v < 256"
  shows "scope_ok fn' \<and> 0 \<le> i \<and> i < int (length (fn_upvalues fn')) \<and> fn_fs fn' = fn_fs fn \<and> fn_locvars fn' = fn_locvars fn
    \<and> fn_actvar fn' = fn_actvar fn \<and> take (length (fn_upvalues fn)) (fn_upvalues fn') = fn_upvalues fn
    \<and> ud_k (fn_upvalues fn' ! nat i) = ek v \<and> ud_info (fn_upvalues fn' ! nat i) = info v"
proof (cases "find_upvalue (fn_upvalues fn) v 0")
  case (Some j)
  with assms(1) have "fn' = fn" "i = j" by (auto simp: indexupvalue_def)
  with find_upvalue_Some [OF Some] assms(2) show ?thesis by simp
next
  case None
  let ?u = "\<lparr>ud_name = name, ud_k = ek v, ud_info = info v mod 256\<rparr>"
  have "int (length (fn_upvalues fn)) + 1 \<le> LUAI_MAXUPVALUES"
    and r: "fn' = fn\<lparr>fn_upvalues := fn_upvalues fn @ [?u]\<rparr>" "i = int (length (fn_upvalues fn))"
    using assms(1) None by (auto simp: indexupvalue_def luaY_checklimit_def errorlimit_def bindE_Inr_iff Let_def split: if_splits)
  moreover have "info v mod 256 = info v" using assms(3,4) by simp
  moreover have "(ek v, info v) \<notin> (\<lambda>u. (ud_k u, ud_info u)) ` set (fn_upvalues fn)"
    using find_upvalue_None [OF None] by force
  ultimately show ?thesis using assms(2) by (auto simp: scope_ok_def)
qed

section \<open>The search in a chain of functions\<close>

lemma markupval_same [simp]:
  "fn_upvalues (markupval fn v) = fn_upvalues fn" "fn_fs (markupval fn v) = fn_fs fn"
  "declared (markupval fn v) n = declared fn n" "scope_ok (markupval fn v) = scope_ok fn"
  by (simp_all add: markupval_def declared_def scope_ok_def locvar_def)

lemma denotes_extend:
  assumes "take (length (fn_upvalues fn)) (fn_upvalues fn') = fn_upvalues fn"
    and "\<And>k i d. denotes fns k i = Some d \<Longrightarrow> denotes fns' k i = Some d" "denotes (fn # fns) k i = Some d"
  shows "denotes (fn' # fns') k i = Some d"
proof (cases "k = VUPVAL")
  case True
  with assms(3) have i: "0 \<le> i" "i < int (length (fn_upvalues fn))" by (auto split: if_splits)
  have len: "length (fn_upvalues fn) \<le> length (fn_upvalues fn')" using arg_cong [OF assms(1), of length] by simp
  have "fn_upvalues fn' ! nat i = fn_upvalues fn ! nat i" using i nth_take [of "nat i" "length (fn_upvalues fn)" "fn_upvalues fn'"] assms(1) by simp
  with True assms(2,3) i len show ?thesis by (auto split: if_splits)
qed (use assms(3) in \<open>auto split: if_splits\<close>)

lemma singlevaraux_spec:
  assumes "singlevaraux ls fns n base = Inr (fns', var)" "\<forall>fn \<in> set fns. scope_ok fn"
  shows "(\<forall>fn \<in> set fns'. scope_ok fn)
    \<and> (case lexical fns n of None \<Rightarrow> ek var = VGLOBAL
       | Some d \<Rightarrow> ek var \<in> {VLOCAL, VUPVAL} \<and> 0 \<le> info var \<and> info var < 256 \<and> denotes fns' (ek var) (info var) = Some d)
    \<and> (\<forall>k i d. denotes fns k i = Some d \<longrightarrow> denotes fns' k i = Some d)"
  using assms
proof (induction ls fns n base arbitrary: fns' var rule: singlevaraux.induct)
  case (1 ls n base)
  then show ?case by (auto simp: init_exp_def)
next
  case (2 ls fn prev n base)
  have ok: "scope_ok fn" "\<forall>fn \<in> set prev. scope_ok fn" using "2.prems"(2) by auto
  show ?case
  proof (cases "declared fn n = {}")
    case False
    then have v: "0 \<le> searchvar fn n" "searchvar fn n < fs_nactvar (fn_fs fn)" using searchvar_declared by auto
    then have r: "fns' = (if base then fn else markupval fn (searchvar fn n)) # prev" "var = init_exp VLOCAL (searchvar fn n)"
      using "2.prems"(1) by (auto simp: Let_def)
    have "lexical (fn # prev) n = Some (0, searchvar fn n)" using False by (simp add: searchvar_spec)
    moreover have "searchvar fn n < 256" using v(2) ok(1) by (simp add: scope_ok_def)
    moreover have "denotes fns' k i = denotes (fn # prev) k i" for k i by (simp add: r)
    ultimately show ?thesis using ok v(1) by (auto simp: r init_exp_def)
  next
    case True
    then have neg: "\<not> 0 \<le> searchvar fn n" using searchvar_neg by blast
    then obtain prev' var1 where s: "singlevaraux ls prev n False = Inr (prev', var1)"
      "(if ek var1 = VGLOBAL then Inr (fn # prev', var1)
        else bindE (indexupvalue ls fn n var1) (\<lambda>(fn', i). Inr (fn' # prev', var1\<lparr>info := i, ek := VUPVAL\<rparr>))) = Inr (fns', var)"
      using "2.prems"(1) by (auto simp: Let_def bindE_Inr_iff)
    note ih = "2.IH" [OF refl neg s(1) ok(2)]
    show ?thesis
    proof (cases "lexical prev n")
      case None
      with ih s(2) have "fns' = fn # prev'" "var = var1" "ek var1 = VGLOBAL" by auto
      with None True ih ok(1) show ?thesis by (auto intro: denotes_extend)
    next
      case (Some d)
      with ih have v: "ek var1 \<noteq> VGLOBAL" "0 \<le> info var1" "info var1 < 256" "denotes prev' (ek var1) (info var1) = Some d" by auto
      with s(2) obtain fn' i where f: "indexupvalue ls fn n var1 = Inr (fn', i)" "fns' = fn' # prev'" "var = var1\<lparr>info := i, ek := VUPVAL\<rparr>"
        by (auto simp: bindE_Inr_iff)
      note ix = indexupvalue_spec [OF f(1) ok(1) v(2,3)]
      have "denotes fns' VUPVAL i = Some (Suc (fst d), snd d)" using ix v(4) by (simp add: f(2) case_prod_beta)
      moreover have "lexical (fn # prev) n = Some (Suc (fst d), snd d)" using Some True by (simp add: case_prod_beta)
      moreover have "i < 256" using ix by (simp add: scope_ok_def)
      moreover have "\<forall>k j e. denotes (fn # prev) k j = Some e \<longrightarrow> denotes fns' k j = Some e"
        unfolding f(2) using ix ih by (blast intro: denotes_extend [of fn fn' prev])
      moreover have "\<forall>fn \<in> set fns'. scope_ok fn" using ih ix by (simp add: f(2))
      ultimately show ?thesis using ix by (simp add: f(3) del: denotes.simps lexical.simps)
    qed
  qed
qed

text \<open>C3: a name stands for the variable that lexical scoping gives it: \<open>singlevaraux\<close> finds a global variable exactly if no
function around the use declares the name, and otherwise a local variable or an upvalue that leads, from closure to
closure, to the last declaration in the nearest function. The upvalues that exist keep their meaning, and no function
has two upvalues for one variable.\<close>

theorem singlevaraux_lexical:
  assumes "singlevaraux ls fns n base = Inr (fns', var)" "\<forall>fn \<in> set fns. scope_ok fn"
  shows "(\<forall>fn \<in> set fns'. scope_ok fn) \<and> (ek var = VGLOBAL \<longleftrightarrow> lexical fns n = None)
    \<and> (ek var \<noteq> VGLOBAL \<longrightarrow> denotes fns' (ek var) (info var) = lexical fns n)
    \<and> (\<forall>k i d. denotes fns k i = Some d \<longrightarrow> denotes fns' k i = Some d)"
  using singlevaraux_spec [OF assms] by (auto split: option.splits)

text \<open>A function with a variable \<open>x\<close>, and one in it.\<close>

definition outer_fn :: "FuncState \<Rightarrow> Func" where
  "outer_fn fs = \<lparr>fn_fs = fs\<lparr>fs_nactvar := 1\<rparr>, fn_bl = [], fn_p = [], fn_locvars = [\<lparr>varname = Some ''x'', startpc = 0, endpc = 0\<rparr>],
     fn_actvar = [0], fn_upvalues = [], fn_linedefined = 0, fn_lastlinedefined = 0, fn_is_vararg = 0, fn_numparams = 0\<rparr>"

definition inner_fn :: "FuncState \<Rightarrow> Func" where
  "inner_fn fs = (outer_fn fs)\<lparr>fn_fs := fs\<lparr>fs_nactvar := 0\<rparr>, fn_locvars := []\<rparr>"

theorem singlevaraux_lexical_witness:
  "\<forall>ls fs. \<exists>fns' var. singlevaraux ls [inner_fn fs, outer_fn fs] ''x'' True = Inr (fns', var)
     \<and> denotes fns' (ek var) (info var) = Some (1, 0)"
proof (intro allI)
  fix ls fs
  have i: "declared (inner_fn fs) ''x'' = {}" by (auto simp: declared_def inner_fn_def)
  have o: "declared (outer_fn fs) ''x'' = {0}" by (auto simp: declared_def outer_fn_def locvar_def)
  have u: "fn_upvalues (inner_fn fs) = []" by (simp add: inner_fn_def outer_fn_def)
  have ok: "\<forall>fn \<in> set [inner_fn fs, outer_fn fs]. scope_ok fn" by (simp add: scope_ok_def inner_fn_def outer_fn_def)
  have "\<exists>r. singlevaraux ls [inner_fn fs, outer_fn fs] ''x'' True = Inr r"
    by (simp add: searchvar_spec i o u init_exp_def indexupvalue_def luaY_checklimit_def Let_def)
  then obtain fns' var where r: "singlevaraux ls [inner_fn fs, outer_fn fs] ''x'' True = Inr (fns', var)" by force
  have "lexical [inner_fn fs, outer_fn fs] ''x'' = Some (1, 0)" by (simp add: i o)
  with singlevaraux_lexical [OF r ok] r show "\<exists>fns' var. singlevaraux ls [inner_fn fs, outer_fn fs] ''x'' True = Inr (fns', var)
     \<and> denotes fns' (ek var) (info var) = Some (1, 0)" by auto
qed

end
