(* ===== verification/LuaState.thy ===== *)
theory LuaState
  imports LuaDebug LuaTableApi
begin

text \<open>
  lstate.h, ltm.c and the stack of ldo.c: the state of a thread, the objects it reaches, and the access to
  metamethods.

  A stack level is an index of the stack, so that \<open>correctstack\<close> has nothing to do when the stack moves. The
  call frames are a list whose head is \<open>L->ci\<close>. Tables, closures and userdata are found by their address; the
  upvalues and the counter of addresses are those of LuaFunc. The slots that a larger stack has gained hold nil
  (in C they hold whatever was there). Hooks are off, and the collector does not run: neither changes a value.
\<close>

section \<open>The state\<close>

record frame =
  fr_func :: nat
  fr_base :: nat
  fr_top :: nat
  fr_savedpc :: int
  fr_nresults :: int
  fr_tailcalls :: int

text \<open>A C function is a number, which stands for the pointer \<open>f\<close>.\<close>

datatype closure = CFunction CClosure nat | LFunction LClosure Proto

record userdata =
  u_metatable :: "addr option"
  u_env :: addr
  u_len :: int

record lua_State =
  L_uv :: uv_state
  L_top :: nat
  L_base :: nat
  L_ci :: "frame list"
  L_savedpc :: int
  L_size_ci :: int
  L_nCcalls :: int
  L_status :: int
  L_errfunc :: nat
  L_gt :: tvalue
  L_registry :: tvalue
  L_tables :: "addr \<Rightarrow> lua_table option"
  L_closures :: "addr \<Rightarrow> closure option"
  L_udata :: "addr \<Rightarrow> userdata option"
  L_mt :: "int \<Rightarrow> addr option"

abbreviation L_stack :: "lua_State \<Rightarrow> tvalue list" where
  "L_stack L \<equiv> stk (L_uv L)"

abbreviation L_stacksize :: "lua_State \<Rightarrow> nat" where
  "L_stacksize L \<equiv> length (L_stack L)"

abbreviation (input) EXTRA_STACK :: int where "EXTRA_STACK \<equiv> 5"
abbreviation (input) LUA_MINSTACK :: int where "LUA_MINSTACK \<equiv> 20"
abbreviation (input) LUAI_MAXCALLS :: int where "LUAI_MAXCALLS \<equiv> 20000"

section \<open>Computations\<close>

text \<open>
  A function of the interpreter returns a value, or is left: by \<open>luaD_throw\<close> with a status code (what it throws
  is on the top of the stack), because it reads or writes outside the objects of the program, or because the
  bound on the steps is used up. The state at that point comes along, for \<open>luaD_pcall\<close> goes on from it.
\<close>

datatype vstop = Throw int | Undefined | OutOfFuel

type_synonym 'a V = "lua_State \<Rightarrow> (vstop \<times> lua_State) + ('a \<times> lua_State)"

abbreviation (input) ERRRUN :: int where "ERRRUN \<equiv> 2"
abbreviation (input) ERRSYNTAX :: int where "ERRSYNTAX \<equiv> 3"
abbreviation (input) ERRMEM :: int where "ERRMEM \<equiv> 4"
abbreviation (input) ERRERR :: int where "ERRERR \<equiv> 5"

definition returnV :: "'a \<Rightarrow> 'a V" where
  "returnV x L = Inr (x, L)"

definition stopV :: "vstop \<Rightarrow> 'a V" where
  "stopV e L = Inl (e, L)"

definition bindV :: "'a V \<Rightarrow> ('a \<Rightarrow> 'b V) \<Rightarrow> 'b V" where
  "bindV m f L = (case m L of Inl e \<Rightarrow> Inl e | Inr (x, L1) \<Rightarrow> f x L1)"

definition thenV :: "'a V \<Rightarrow> 'b V \<Rightarrow> 'b V" where
  "thenV m k = bindV m (\<lambda>_. k)"

definition readV :: "(lua_State \<Rightarrow> 'a) \<Rightarrow> ('a \<Rightarrow> 'b V) \<Rightarrow> 'b V" where
  "readV r k L = k (r L) L"

definition doV :: "(lua_State \<Rightarrow> lua_State) \<Rightarrow> unit V" where
  "doV g L = Inr ((), g L)"

definition someV :: "'a option \<Rightarrow> 'a V" where
  "someV x = (case x of Some y \<Rightarrow> returnV y | None \<Rightarrow> stopV Undefined)"

lemma V_simps [simp]:
  "returnV x L = Inr (x, L)"
  "stopV e L = Inl (e, L)"
  "doV g L = Inr ((), g L)"
  "readV r k L = k (r L) L"
  by (simp_all add: returnV_def stopV_def doV_def readV_def)

lemma bindV_Inr [simp]: "m L = Inr (x, L1) \<Longrightarrow> bindV m f L = f x L1"
  by (simp add: bindV_def)

lemma bindV_Inl [simp]: "m L = Inl e \<Longrightarrow> bindV m f L = Inl e"
  by (simp add: bindV_def)

lemma thenV_Inr [simp]: "m L = Inr (x, L1) \<Longrightarrow> thenV m k L = k L1"
  by (simp add: thenV_def)

lemma thenV_Inl [simp]: "m L = Inl e \<Longrightarrow> thenV m k L = Inl e"
  by (simp add: thenV_def)

lemma someV_simps [simp]: "someV (Some y) = returnV y" "someV None = stopV Undefined"
  by (simp_all add: someV_def)

text \<open>The body of a loop for every element of a list.\<close>

fun eachV :: "('a \<Rightarrow> unit V) \<Rightarrow> 'a list \<Rightarrow> unit V" where
  "eachV f [] = returnV ()"
| "eachV f (x # xs) = thenV (f x) (eachV f xs)"

section \<open>Stack levels and objects\<close>

definition getobj :: "nat \<Rightarrow> tvalue V" where
  "getobj k L = (if k < L_stacksize L then Inr (L_stack L ! k, L) else Inl (Undefined, L))"

definition setobj :: "nat \<Rightarrow> tvalue \<Rightarrow> unit V" where
  "setobj k v L =
     (if k < L_stacksize L then Inr ((), L\<lparr>L_uv := (L_uv L)\<lparr>stk := (L_stack L)[k := v]\<rparr>\<rparr>) else Inl (Undefined, L))"

text \<open>\<open>setobjs2s\<close>: a move between two levels.\<close>

definition moveobj :: "nat \<Rightarrow> nat \<Rightarrow> unit V" where
  "moveobj k j = bindV (getobj j) (setobj k)"

definition hvalue :: "addr \<Rightarrow> lua_table V" where
  "hvalue a = readV L_tables (\<lambda>ts. someV (ts a))"

definition put_table :: "addr \<Rightarrow> lua_table \<Rightarrow> unit V" where
  "put_table a t = doV (\<lambda>L. L\<lparr>L_tables := (L_tables L)(a \<mapsto> t)\<rparr>)"

definition uvalue :: "addr \<Rightarrow> userdata V" where
  "uvalue a = readV L_udata (\<lambda>us. someV (us a))"

definition clvalue :: "addr \<Rightarrow> closure V" where
  "clvalue a = readV L_closures (\<lambda>cs. someV (cs a))"

text \<open>A new address; \<open>luaC_link\<close> of the object that gets it.\<close>

definition new_addr :: "addr V" where
  "new_addr L = Inr (uv_next (L_uv L), L\<lparr>L_uv := (L_uv L)\<lparr>uv_next := Suc (uv_next (L_uv L))\<rparr>\<rparr>)"

definition new_table :: "lua_table \<Rightarrow> addr V" where
  "new_table t = bindV new_addr (\<lambda>a. thenV (put_table a t) (returnV a))"

definition new_closure :: "closure \<Rightarrow> addr V" where
  "new_closure c = bindV new_addr (\<lambda>a. thenV (doV (\<lambda>L. L\<lparr>L_closures := (L_closures L)(a \<mapsto> c)\<rparr>)) (returnV a))"

definition ttisfunction :: "tvalue \<Rightarrow> bool" where "ttisfunction v = (ttype v = 6)"
definition ttistable :: "tvalue \<Rightarrow> bool" where "ttistable v = (ttype v = 5)"
definition ttisnumber :: "tvalue \<Rightarrow> bool" where "ttisnumber v = (ttype v = 3)"

section \<open>The size of the stack (ldo.c)\<close>

definition luaD_reallocstack :: "int \<Rightarrow> unit V" where
  "luaD_reallocstack newsize =
     (let realsize = nat (newsize + 1 + EXTRA_STACK)
      in doV (\<lambda>L. L\<lparr>L_uv := (L_uv L)\<lparr>stk := take realsize (L_stack L) @ replicate (realsize - L_stacksize L) TNil\<rparr>\<rparr>))"

definition luaD_growstack :: "int \<Rightarrow> unit V" where
  "luaD_growstack n =
     readV L_stacksize (\<lambda>size.
       if n \<le> int size then luaD_reallocstack (2 * int size) else luaD_reallocstack (int size + n))"

text \<open>\<open>stack_last\<close> is \<open>stacksize - EXTRA_STACK - 1\<close>.\<close>

definition luaD_checkstack :: "int \<Rightarrow> unit V" where
  "luaD_checkstack n =
     readV (\<lambda>L. (int (L_stacksize L) - EXTRA_STACK - 1, int (L_top L))) (\<lambda>(last, top').
       if last - top' \<le> n then luaD_growstack n else returnV ())"

definition set_top :: "nat \<Rightarrow> unit V" where
  "set_top k = doV (\<lambda>L. L\<lparr>L_top := k\<rparr>)"

definition incr_top :: "unit V" where
  "incr_top = thenV (luaD_checkstack 1) (doV (\<lambda>L. L\<lparr>L_top := L_top L + 1\<rparr>))"

text \<open>A value pushed, as the API and the error functions do.\<close>

definition pushobj :: "tvalue \<Rightarrow> unit V" where
  "pushobj v = readV L_top (\<lambda>top'. thenV (setobj top' v) incr_top)"

section \<open>Errors\<close>

text \<open>What ldebug.c sees of the state.\<close>

definition debug_fun :: "lua_State \<Rightarrow> nat \<Rightarrow> frame_fun" where
  "debug_fun L k =
     (if k < L_stacksize L then
        (case L_stack L ! k of
           TFunction a \<Rightarrow>
             (case L_closures L a of
                Some (LFunction c p) \<Rightarrow> LuaFun p (nat (lc_nupvalues c))
              | Some (CFunction c f) \<Rightarrow> CFun (nat (cc_nupvalues c))
              | None \<Rightarrow> NoFun)
         | _ \<Rightarrow> NoFun)
      else NoFun)"

definition debug_view :: "lua_State \<Rightarrow> call_state" where
  "debug_view L =
     \<lparr>base_ci = rev (map (\<lambda>f. \<lparr>ci_fun = debug_fun L (fr_func f), ci_func = fr_func f, ci_base = fr_base f, ci_top = fr_top f,
                              ci_savedpc = fr_savedpc f, ci_tailcalls = fr_tailcalls f\<rparr>) (L_ci L)),
      cs_savedpc = L_savedpc L, cs_top = L_top L, cs_base = L_base L\<rparr>"

text \<open>\<open>luaD_call\<close> of a function at a level, with a number of results, is a parameter here.\<close>

type_synonym vcaller = "nat \<Rightarrow> int \<Rightarrow> unit V"

definition luaD_throw :: "int \<Rightarrow> 'a V" where
  "luaD_throw errcode = stopV (Throw errcode)"

definition luaG_errormsg :: "vcaller \<Rightarrow> 'a V" where
  "luaG_errormsg call =
     readV L_errfunc (\<lambda>errfunc.
       if errfunc \<noteq> 0 then
         bindV (getobj errfunc) (\<lambda>f.
           if \<not> ttisfunction f then luaD_throw ERRERR
           else readV L_top (\<lambda>top'.
             thenV (moveobj top' (top' - 1))
             (thenV (setobj (top' - 1) f)
             (thenV incr_top
             (thenV (call (top' - 1) 1)
             (luaD_throw ERRRUN))))))
       else luaD_throw ERRRUN)"

text \<open>
  The message that LuaDebug builds is pushed and thrown. (\<open>luaO_pushvfstring\<close> leaves the message without the
  position below it on the stack; nothing reads it there.)
\<close>

definition throw_message :: "vcaller \<Rightarrow> lua_error symb \<Rightarrow> 'a V" where
  "throw_message call m =
     (case m of
        Ok (LUA_ERRRUN msg) \<Rightarrow> thenV (pushobj (TString msg)) (luaG_errormsg call)
      | _ \<Rightarrow> stopV Undefined)"

definition runerror :: "vcaller \<Rightarrow> string \<Rightarrow> 'a V" where
  "runerror call msg = readV debug_view (\<lambda>D. throw_message call (luaG_runerror D ''%s'' [FStr (Some msg)]))"

definition typeerror :: "vcaller \<Rightarrow> operand \<Rightarrow> string \<Rightarrow> 'a V" where
  "typeerror call o' opn = readV debug_view (\<lambda>D. throw_message call (luaG_typeerror D o' opn))"

text \<open>An operation of LuaTable in the state; its errors are raised by \<open>luaG_runerror\<close>.\<close>

definition resV :: "vcaller \<Rightarrow> 'a res \<Rightarrow> 'a V" where
  "resV call r =
     (case r of
        Inr x \<Rightarrow> returnV x
      | Inl (LUA_ERRRUN msg) \<Rightarrow> runerror call msg
      | Inl LUA_ERRMEM \<Rightarrow> luaD_throw ERRMEM
      | Inl NO_FUEL \<Rightarrow> stopV OutOfFuel
      | Inl _ \<Rightarrow> stopV Undefined)"

section \<open>Tag methods (ltm.c)\<close>

datatype TMS =
    TM_INDEX | TM_NEWINDEX | TM_GC | TM_MODE | TM_EQ | TM_ADD | TM_SUB | TM_MUL | TM_DIV | TM_MOD | TM_POW | TM_UNM
  | TM_LEN | TM_LT | TM_LE | TM_CONCAT | TM_CALL

definition luaT_eventname :: "string list" where
  "luaT_eventname =
     [''__index'', ''__newindex'', ''__gc'', ''__mode'', ''__eq'', ''__add'', ''__sub'', ''__mul'', ''__div'', ''__mod'',
      ''__pow'', ''__unm'', ''__len'', ''__lt'', ''__le'', ''__concat'', ''__call'']"

fun tms_num :: "TMS \<Rightarrow> nat" where
  "tms_num TM_INDEX = 0" | "tms_num TM_NEWINDEX = 1" | "tms_num TM_GC = 2" | "tms_num TM_MODE = 3"
| "tms_num TM_EQ = 4" | "tms_num TM_ADD = 5" | "tms_num TM_SUB = 6" | "tms_num TM_MUL = 7" | "tms_num TM_DIV = 8"
| "tms_num TM_MOD = 9" | "tms_num TM_POW = 10" | "tms_num TM_UNM = 11" | "tms_num TM_LEN = 12" | "tms_num TM_LT = 13"
| "tms_num TM_LE = 14" | "tms_num TM_CONCAT = 15" | "tms_num TM_CALL = 16"

definition tmname :: "TMS \<Rightarrow> string" where
  "tmname e = luaT_eventname ! tms_num e"

text \<open>\<open>luaT_gettm\<close>: \<open>NULL\<close> is \<open>None\<close>, and the absence of the method is noted in \<open>flags\<close>.\<close>

definition luaT_gettm :: "addr \<Rightarrow> TMS \<Rightarrow> tvalue option V" where
  "luaT_gettm events event =
     bindV (hvalue events) (\<lambda>t.
       let tm = read_slot t (luaH_getstr t (tmname event))
       in if ttisnil tm
          then thenV (put_table events (t\<lparr>flags := flags t OR push_bit (tms_num event) 1\<rparr>)) (returnV None)
          else returnV (Some tm))"

definition fasttm :: "addr option \<Rightarrow> TMS \<Rightarrow> tvalue option V" where
  "fasttm et e =
     (case et of
        None \<Rightarrow> returnV None
      | Some a \<Rightarrow> bindV (hvalue a) (\<lambda>t. if bit (flags t) (tms_num e) then returnV None else luaT_gettm a e))"

definition metatable_of :: "tvalue \<Rightarrow> addr option V" where
  "metatable_of o' =
     (case o' of
        TTable a \<Rightarrow> bindV (hvalue a) (\<lambda>t. returnV (metatable t))
      | TUserData u \<Rightarrow> bindV (uvalue u) (\<lambda>d. returnV (u_metatable d))
      | TDeadKey _ \<Rightarrow> stopV Undefined
      | _ \<Rightarrow> readV L_mt (\<lambda>mt. returnV (mt (ttype o'))))"

definition luaT_gettmbyobj :: "tvalue \<Rightarrow> TMS \<Rightarrow> tvalue V" where
  "luaT_gettmbyobj o' event =
     bindV (metatable_of o') (\<lambda>mt.
       case mt of
         None \<Rightarrow> returnV TNil
       | Some a \<Rightarrow> bindV (hvalue a) (\<lambda>t. returnV (read_slot t (luaH_getstr t (tmname event)))))"

section \<open>An example\<close>

text \<open>A state in which a function runs, without upvalues, on a stack of 45 levels.\<close>

definition one_frame :: "Proto \<Rightarrow> lua_State" where
  "one_frame p =
     \<lparr>L_uv = \<lparr>stk = [TNil, TFunction 1] @ replicate 43 TNil, openupval = [], uvhead = [], uvs = (\<lambda>a. None), uv_next = 2,
              uv_currentwhite = 33, uv_gcstate = 0, rootgc = [], barriered = []\<rparr>,
      L_top = 2 + nat (pt_maxstacksize p), L_base = 2,
      L_ci = [\<lparr>fr_func = 1, fr_base = 2, fr_top = 2 + nat (pt_maxstacksize p), fr_savedpc = 0, fr_nresults = - 1, fr_tailcalls = 0\<rparr>,
              \<lparr>fr_func = 0, fr_base = 1, fr_top = 21, fr_savedpc = 0, fr_nresults = 0, fr_tailcalls = 0\<rparr>],
      L_savedpc = 0, L_size_ci = 8, L_nCcalls = 1, L_status = 0, L_errfunc = 0, L_gt = TTable 0, L_registry = TNil,
      L_tables = (\<lambda>a. None), L_closures = (\<lambda>a. None)(1 := Some (LFunction (luaF_newLclosure 0 0) p)), L_udata = (\<lambda>a. None),
      L_mt = (\<lambda>n. None)\<rparr>"

end
