(* ===== verification/LuaVM.thy ===== *)
theory LuaVM
  imports LuaState
begin

text \<open>
  lvm.c, without the main loop: access to tables through metamethods, comparison, concatenation and arithmetic.

  A value that is passed by its address is an \<open>operand\<close>: the value with its stack level, which the error messages
  need. The functions that may call a metamethod take \<open>luaD_call\<close> as the parameter \<open>call\<close>. \<open>strcoll\<close> and \<open>pow\<close> are
  those of the C library.
\<close>

abbreviation (input) MAXTAGLOOP :: nat where "MAXTAGLOOP \<equiv> 100"

section \<open>Calling metamethods\<close>

definition callTMres :: "vcaller \<Rightarrow> nat \<Rightarrow> tvalue \<Rightarrow> tvalue \<Rightarrow> tvalue \<Rightarrow> unit V" where
  "callTMres call res f p1 p2 =
     readV L_top (\<lambda>top'.
       thenV (setobj top' f)
       (thenV (setobj (top' + 1) p1)
       (thenV (setobj (top' + 2) p2)
       (thenV (luaD_checkstack 3)
       (thenV (set_top (top' + 3))
       (thenV (call top' 1)
       (thenV (doV (\<lambda>L. L\<lparr>L_top := L_top L - 1\<rparr>))
       (readV L_top (\<lambda>t. moveobj res t)))))))))"

definition callTM :: "vcaller \<Rightarrow> tvalue \<Rightarrow> tvalue \<Rightarrow> tvalue \<Rightarrow> tvalue \<Rightarrow> unit V" where
  "callTM call f p1 p2 p3 =
     readV L_top (\<lambda>top'.
       thenV (setobj top' f)
       (thenV (setobj (top' + 1) p1)
       (thenV (setobj (top' + 2) p2)
       (thenV (setobj (top' + 3) p3)
       (thenV (luaD_checkstack 4)
       (thenV (set_top (top' + 4))
       (call top' 0)))))))"

definition call_binTM :: "vcaller \<Rightarrow> tvalue \<Rightarrow> tvalue \<Rightarrow> nat \<Rightarrow> TMS \<Rightarrow> bool V" where
  "call_binTM call p1 p2 res event =
     bindV (luaT_gettmbyobj p1 event) (\<lambda>tm1.
     bindV (if ttisnil tm1 then luaT_gettmbyobj p2 event else returnV tm1) (\<lambda>tm.
       if \<not> ttisfunction tm then returnV False
       else thenV (callTMres call res tm p1 p2) (returnV True)))"

definition get_compTM :: "addr option \<Rightarrow> addr option \<Rightarrow> TMS \<Rightarrow> tvalue option V" where
  "get_compTM mt1 mt2 event =
     bindV (fasttm mt1 event) (\<lambda>tm1.
       case tm1 of
         None \<Rightarrow> returnV None
       | Some f1 \<Rightarrow>
           if mt1 = mt2 then returnV (Some f1)
           else bindV (fasttm mt2 event) (\<lambda>tm2.
                  case tm2 of
                    None \<Rightarrow> returnV None
                  | Some f2 \<Rightarrow> returnV (if luaO_rawequalObj f1 f2 then Some f1 else None)))"

text \<open>The result of a metamethod that is called for its truth value, at the top of the stack.\<close>

definition truth_at_top :: "bool V" where
  "truth_at_top = readV L_top (\<lambda>top'. bindV (getobj top') (\<lambda>v. returnV (\<not> l_isfalse v)))"

text \<open>\<open>call_orderTM\<close>: -1 if there is no metamethod, otherwise its answer.\<close>

definition call_orderTM :: "vcaller \<Rightarrow> tvalue \<Rightarrow> tvalue \<Rightarrow> TMS \<Rightarrow> int V" where
  "call_orderTM call p1 p2 event =
     bindV (luaT_gettmbyobj p1 event) (\<lambda>tm1.
       if ttisnil tm1 then returnV (- 1)
       else bindV (luaT_gettmbyobj p2 event) (\<lambda>tm2.
              if \<not> luaO_rawequalObj tm1 tm2 then returnV (- 1)
              else readV L_top (\<lambda>top'.
                thenV (callTMres call top' tm1 p1 p2)
                  (bindV truth_at_top (\<lambda>b. returnV (of_bool b))))))"

section \<open>Indexing\<close>

text \<open>
  The loops of \<open>luaV_gettable\<close> and \<open>luaV_settable\<close>: \<open>n\<close> is \<open>MAXTAGLOOP - loop\<close>. In a step, a table either has
  its answer (\<open>Inl\<close>) or a metamethod to go on with (\<open>Inr\<close>).
\<close>

definition gettable_step :: "vcaller \<Rightarrow> operand \<Rightarrow> tvalue \<Rightarrow> (tvalue + tvalue) V" where
  "gettable_step call t key =
     (case fst t of
        TTable h \<Rightarrow>
          bindV (hvalue h) (\<lambda>tb.
            let res = read_slot tb (luaH_get tb key)
            in if \<not> ttisnil res then returnV (Inl res)
               else bindV (fasttm (metatable tb) TM_INDEX) (\<lambda>tm.
                      case tm of None \<Rightarrow> returnV (Inl res) | Some f \<Rightarrow> returnV (Inr f)))
      | _ \<Rightarrow>
          bindV (luaT_gettmbyobj (fst t) TM_INDEX) (\<lambda>tm.
            if ttisnil tm then typeerror call t ''index'' else returnV (Inr tm)))"

primrec gettable_loop :: "vcaller \<Rightarrow> nat \<Rightarrow> operand \<Rightarrow> tvalue \<Rightarrow> nat \<Rightarrow> unit V" where
  "gettable_loop call 0 t key val = runerror call ''loop in gettable''"
| "gettable_loop call (Suc n) t key val =
     bindV (gettable_step call t key) (\<lambda>r.
       case r of
         Inl res \<Rightarrow> setobj val res
       | Inr tm \<Rightarrow>
           if ttisfunction tm then callTMres call val tm (fst t) key
           else gettable_loop call n (tm, None) key val)"

definition luaV_gettable :: "vcaller \<Rightarrow> operand \<Rightarrow> tvalue \<Rightarrow> nat \<Rightarrow> unit V" where
  "luaV_gettable call t key val = gettable_loop call MAXTAGLOOP t key val"

text \<open>
  \<open>luaH_set\<close> makes room for the key before the metamethod is looked for; the slot it returns is written after
  that. (\<open>luaC_barriert\<close> is a matter of the collector.)
\<close>

definition write_slot :: "addr \<Rightarrow> slot \<Rightarrow> tvalue \<Rightarrow> unit V" where
  "write_slot h s v = bindV (hvalue h) (\<lambda>tb. put_table h (slot_set tb s v))"

definition settable_step :: "vcaller \<Rightarrow> operand \<Rightarrow> tvalue \<Rightarrow> tvalue \<Rightarrow> (unit + tvalue) V" where
  "settable_step call t key val =
     (case fst t of
        TTable h \<Rightarrow>
          bindV (hvalue h) (\<lambda>tb.
          bindV (resV call (luaH_set tb key)) (\<lambda>(tb1, oldval).
          thenV (put_table h tb1)
            (if \<not> ttisnil (slot_val tb1 oldval) then thenV (write_slot h oldval val) (returnV (Inl ()))
             else bindV (fasttm (metatable tb1) TM_NEWINDEX) (\<lambda>tm.
                    case tm of
                      None \<Rightarrow> thenV (write_slot h oldval val) (returnV (Inl ()))
                    | Some f \<Rightarrow> returnV (Inr f)))))
      | _ \<Rightarrow>
          bindV (luaT_gettmbyobj (fst t) TM_NEWINDEX) (\<lambda>tm.
            if ttisnil tm then typeerror call t ''index'' else returnV (Inr tm)))"

primrec settable_loop :: "vcaller \<Rightarrow> nat \<Rightarrow> operand \<Rightarrow> tvalue \<Rightarrow> tvalue \<Rightarrow> unit V" where
  "settable_loop call 0 t key val = runerror call ''loop in settable''"
| "settable_loop call (Suc n) t key val =
     bindV (settable_step call t key val) (\<lambda>r.
       case r of
         Inl _ \<Rightarrow> returnV ()
       | Inr tm \<Rightarrow>
           if ttisfunction tm then callTM call tm (fst t) key val
           else settable_loop call n (tm, None) key val)"

definition luaV_settable :: "vcaller \<Rightarrow> operand \<Rightarrow> tvalue \<Rightarrow> tvalue \<Rightarrow> unit V" where
  "luaV_settable call t key val = settable_loop call MAXTAGLOOP t key val"

section \<open>Comparison\<close>

type_synonym collation = "string \<Rightarrow> string \<Rightarrow> int"

text \<open>
  Strings are compared piece by piece, a piece ending at a zero byte. \<open>len\<close> is the length of the piece of \<open>l\<close>; if
  \<open>strcoll\<close> holds two pieces of different length for equal, the next piece of \<open>r\<close> may start behind its end.
\<close>

function l_strcmp :: "collation \<Rightarrow> string \<Rightarrow> string \<Rightarrow> int res" where
  "l_strcmp coll l r =
     (let temp = coll (cstr l) (cstr r)
      in if temp \<noteq> 0 then Inr temp
         else let len = length (cstr l)
              in if len = length r then Inr (if len = length l then 0 else 1)
                 else if len = length l then Inr (- 1)
                 else if length r < len then Inl UNDEFINED
                 else l_strcmp coll (drop (len + 1) l) (drop (len + 1) r))"
  by pat_completeness auto
termination
proof (relation "measure (\<lambda>(coll, l, r). length l)", goal_cases)
  case (2 coll l r temp len)
  then have "l \<noteq> []" by (auto simp: cstr_def)
  then show ?case by (cases l) auto
qed simp

declare l_strcmp.simps [simp del]

definition compareV :: "'a res \<Rightarrow> 'a V" where
  "compareV r = (case r of Inr x \<Rightarrow> returnV x | Inl _ \<Rightarrow> stopV Undefined)"

definition ordererror :: "vcaller \<Rightarrow> tvalue \<Rightarrow> tvalue \<Rightarrow> 'a V" where
  "ordererror call l r = readV debug_view (\<lambda>D. throw_message call (luaG_ordererror D l r))"

definition luaV_lessthan :: "collation \<Rightarrow> vcaller \<Rightarrow> tvalue \<Rightarrow> tvalue \<Rightarrow> bool V" where
  "luaV_lessthan coll call l r =
     (if ttype l \<noteq> ttype r then ordererror call l r
      else case (l, r) of
             (TNumber a, TNumber b) \<Rightarrow> returnV (luai_numlt a b)
           | (TString a, TString b) \<Rightarrow> bindV (compareV (l_strcmp coll a b)) (\<lambda>c. returnV (c < 0))
           | _ \<Rightarrow>
               bindV (call_orderTM call l r TM_LT) (\<lambda>res.
                 if res \<noteq> - 1 then returnV (res \<noteq> 0) else ordererror call l r))"

definition lessequal :: "collation \<Rightarrow> vcaller \<Rightarrow> tvalue \<Rightarrow> tvalue \<Rightarrow> bool V" where
  "lessequal coll call l r =
     (if ttype l \<noteq> ttype r then ordererror call l r
      else case (l, r) of
             (TNumber a, TNumber b) \<Rightarrow> returnV (luai_numle a b)
           | (TString a, TString b) \<Rightarrow> bindV (compareV (l_strcmp coll a b)) (\<lambda>c. returnV (c \<le> 0))
           | _ \<Rightarrow>
               bindV (call_orderTM call l r TM_LE) (\<lambda>res.
                 if res \<noteq> - 1 then returnV (res \<noteq> 0)
                 else bindV (call_orderTM call r l TM_LT) (\<lambda>res.
                        if res \<noteq> - 1 then returnV (\<not> res \<noteq> 0) else ordererror call l r)))"

text \<open>\<open>luaV_equalval\<close>, for two values of the same type: the metamethod that decides, if the values do not.\<close>

definition equal_method :: "tvalue \<Rightarrow> tvalue \<Rightarrow> (bool + tvalue option) V" where
  "equal_method t1 t2 =
     (case (t1, t2) of
        (TNil, _) \<Rightarrow> returnV (Inl True)
      | (TNumber a, TNumber b) \<Rightarrow> returnV (Inl (luai_numeq a b))
      | (TBoolean a, TBoolean b) \<Rightarrow> returnV (Inl (a = b))
      | (TLightUserData a, TLightUserData b) \<Rightarrow> returnV (Inl (a = b))
      | (TUserData a, TUserData b) \<Rightarrow>
          if a = b then returnV (Inl True)
          else bindV (uvalue a) (\<lambda>u1. bindV (uvalue b) (\<lambda>u2.
                 bindV (get_compTM (u_metatable u1) (u_metatable u2) TM_EQ) (\<lambda>tm. returnV (Inr tm))))
      | (TTable a, TTable b) \<Rightarrow>
          if a = b then returnV (Inl True)
          else bindV (hvalue a) (\<lambda>h1. bindV (hvalue b) (\<lambda>h2.
                 bindV (get_compTM (metatable h1) (metatable h2) TM_EQ) (\<lambda>tm. returnV (Inr tm))))
      | _ \<Rightarrow> returnV (Inl (gcvalue t1 = gcvalue t2)))"

definition luaV_equalval :: "vcaller \<Rightarrow> tvalue \<Rightarrow> tvalue \<Rightarrow> bool V" where
  "luaV_equalval call t1 t2 =
     bindV (equal_method t1 t2) (\<lambda>r.
       case r of
         Inl b \<Rightarrow> returnV b
       | Inr None \<Rightarrow> returnV False
       | Inr (Some tm) \<Rightarrow> readV L_top (\<lambda>top'. thenV (callTMres call top' tm t1 t2) truth_at_top))"

definition equalobj :: "vcaller \<Rightarrow> tvalue \<Rightarrow> tvalue \<Rightarrow> bool V" where
  "equalobj call o1 o2 = (if ttype o1 = ttype o2 then luaV_equalval call o1 o2 else returnV False)"

section \<open>Concatenation\<close>

text \<open>\<open>tostring\<close>: a number at a level is replaced by its string.\<close>

definition tostring_at :: "nat \<Rightarrow> bool V" where
  "tostring_at k =
     bindV (getobj k) (\<lambda>v.
       if ttisstring v then returnV True
       else case luaV_tostring v of
              None \<Rightarrow> returnV False
            | Some s \<Rightarrow> thenV (setobj k (TString s)) (returnV True))"

definition svalue :: "nat \<Rightarrow> string V" where
  "svalue k = bindV (getobj k) (\<lambda>v. case v of TString s \<Rightarrow> returnV s | _ \<Rightarrow> stopV Undefined)"

text \<open>The loop that counts the strings below \<open>top'\<close> and their length: \<open>m\<close> is \<open>total - n\<close>.\<close>

primrec collect :: "vcaller \<Rightarrow> nat \<Rightarrow> nat \<Rightarrow> nat \<Rightarrow> int \<Rightarrow> (nat \<times> int) V" where
  "collect call top' 0 n tlen = returnV (n, tlen)"
| "collect call top' (Suc m) n tlen =
     bindV (tostring_at (top' - n - 1)) (\<lambda>b.
       if \<not> b then returnV (n, tlen)
       else bindV (svalue (top' - n - 1)) (\<lambda>s.
              if MAX_SIZET - tlen \<le> int (length s) then runerror call ''string length overflow''
              else collect call top' m (n + 1) (tlen + int (length s))))"

text \<open>The strings at the levels \<open>top' - n .. top' - 1\<close>, one after the other: the loop that fills the buffer.\<close>

primrec copy_strings :: "nat \<Rightarrow> nat \<Rightarrow> string \<Rightarrow> string V" where
  "copy_strings top' 0 buffer = returnV buffer"
| "copy_strings top' (Suc i) buffer =
     bindV (svalue (top' - Suc i)) (\<lambda>s. copy_strings top' i (buffer @ s))"

definition tostring_two :: "nat \<Rightarrow> bool V" where
  "tostring_two top' =
     bindV (tostring_at (top' - 2)) (\<lambda>b. if \<not> b then returnV False else tostring_at (top' - 1))"

text \<open>One pass of the loop; the result is the number of elements it has handled.\<close>

definition concat_pass :: "vcaller \<Rightarrow> nat \<Rightarrow> nat \<Rightarrow> nat V" where
  "concat_pass call tot top' =
     bindV (tostring_two top') (\<lambda>strings.
       if \<not> strings then
         bindV (getobj (top' - 2)) (\<lambda>p1. bindV (getobj (top' - 1)) (\<lambda>p2.
           bindV (call_binTM call p1 p2 (top' - 2) TM_CONCAT) (\<lambda>called.
             if called then returnV 2
             else readV debug_view (\<lambda>D.
               throw_message call (luaG_concaterror D (p1, Some (top' - 2)) (p2, Some (top' - 1)))))))
       else
         bindV (svalue (top' - 1)) (\<lambda>s.
           if 0 < length s then
             bindV (collect call top' (tot - 1) 1 (int (length s))) (\<lambda>(n, tlen).
             bindV (copy_strings top' n []) (\<lambda>buffer.
             thenV (setobj (top' - n) (TString buffer)) (returnV n)))
           else returnV 2))"

text \<open>The passes; every one joins at least two elements, so that \<open>total\<close> of them are enough.\<close>

primrec concat_passes :: "vcaller \<Rightarrow> nat \<Rightarrow> nat \<Rightarrow> nat \<Rightarrow> unit V" where
  "concat_passes call 0 tot last' = stopV OutOfFuel"
| "concat_passes call (Suc fuel) tot last' =
     readV L_base (\<lambda>base'.
     bindV (concat_pass call tot (base' + last' + 1)) (\<lambda>n.
       let tot' = tot - (n - 1); last'' = last' - (n - 1)
       in if 1 < tot' then concat_passes call fuel tot' last'' else returnV ()))"

definition luaV_concat :: "vcaller \<Rightarrow> nat \<Rightarrow> nat \<Rightarrow> unit V" where
  "luaV_concat call tot last' = concat_passes call (Suc tot) tot last'"

section \<open>Arithmetic\<close>

text \<open>\<open>luai_numpow\<close> is \<open>pow\<close> of the C library.\<close>

definition arith_num :: "(lua_Number \<Rightarrow> lua_Number \<Rightarrow> lua_Number) \<Rightarrow> TMS \<Rightarrow> lua_Number \<Rightarrow> lua_Number \<Rightarrow> lua_Number option" where
  "arith_num pow op nb nc =
     (case op of
        TM_ADD \<Rightarrow> Some (luai_numadd nb nc)
      | TM_SUB \<Rightarrow> Some (luai_numsub nb nc)
      | TM_MUL \<Rightarrow> Some (luai_nummul nb nc)
      | TM_DIV \<Rightarrow> Some (luai_numdiv nb nc)
      | TM_MOD \<Rightarrow> Some (luai_nummod nb nc)
      | TM_POW \<Rightarrow> Some (pow nb nc)
      | TM_UNM \<Rightarrow> Some (luai_numunm nb)
      | _ \<Rightarrow> None)"

definition Arith :: "(lua_Number \<Rightarrow> lua_Number \<Rightarrow> lua_Number) \<Rightarrow> vcaller \<Rightarrow> nat \<Rightarrow> operand \<Rightarrow> operand \<Rightarrow> TMS \<Rightarrow> unit V" where
  "Arith pow call ra rb rc op =
     (case (luaV_tonumber (fst rb), luaV_tonumber (fst rc)) of
        (Some nb, Some nc) \<Rightarrow> (case arith_num pow op nb nc of Some r \<Rightarrow> setobj ra (TNumber r) | None \<Rightarrow> returnV ())
      | _ \<Rightarrow>
          bindV (call_binTM call (fst rb) (fst rc) ra op) (\<lambda>called.
            if called then returnV ()
            else readV debug_view (\<lambda>D. throw_message call (luaG_aritherror D rb rc))))"

end
