(* ===== verification/LuaCall.thy ===== *)
theory LuaCall
  imports LuaVM
begin

text \<open>
  The calls of ldo.c: the frame of a function is set up by \<open>luaD_precall\<close> and given up by \<open>luaD_poscall\<close>. A C
  function is what \<open>h_cfun\<close> gives for it; it gets \<open>luaD_call\<close> as \<open>call\<close>, works on the state, and returns the number of
  its results, or -1 to yield.
\<close>

record host =
  h_cfun :: "nat \<Rightarrow> vcaller \<Rightarrow> int V"
  h_pow :: "lua_Number \<Rightarrow> lua_Number \<Rightarrow> lua_Number"
  h_strcoll :: collation

section \<open>Frames\<close>

text \<open>\<open>inc_ci\<close> with \<open>growCI\<close>; the new frame gets its fields at once.\<close>

definition growCI :: "vcaller \<Rightarrow> unit V" where
  "growCI call =
     readV L_size_ci (\<lambda>size.
       if LUAI_MAXCALLS < size then luaD_throw ERRERR
       else thenV (doV (\<lambda>L. L\<lparr>L_size_ci := 2 * size\<rparr>))
              (if LUAI_MAXCALLS < 2 * size then runerror call ''stack overflow'' else returnV ()))"

definition inc_ci :: "vcaller \<Rightarrow> frame \<Rightarrow> unit V" where
  "inc_ci call f =
     readV (\<lambda>L. int (length (L_ci L)) = L_size_ci L) (\<lambda>full.
       thenV (if full then growCI call else returnV ()) (doV (\<lambda>L. L\<lparr>L_ci := f # L_ci L\<rparr>)))"

definition mod_ci :: "(frame \<Rightarrow> frame) \<Rightarrow> unit V" where
  "mod_ci g = doV (\<lambda>L. L\<lparr>L_ci := (case L_ci L of [] \<Rightarrow> [] | f # fs \<Rightarrow> g f # fs)\<rparr>)"

text \<open>The running frame.\<close>

definition this_ci :: "(frame \<Rightarrow> 'a V) \<Rightarrow> 'a V" where
  "this_ci k = readV L_ci (\<lambda>cis. case cis of [] \<Rightarrow> stopV Undefined | f # _ \<Rightarrow> k f)"

section \<open>Arguments\<close>

definition setnum :: "vcaller \<Rightarrow> lua_table \<Rightarrow> int \<Rightarrow> tvalue \<Rightarrow> lua_table V" where
  "setnum call t k v = bindV (resV call (luaH_setnum t k)) (\<lambda>(t1, s). returnV (slot_set t1 s v))"

text \<open>The table \<open>arg\<close> of an old-style vararg function, with the extra arguments from the level \<open>from\<close> on.\<close>

primrec fill_arg :: "vcaller \<Rightarrow> nat \<Rightarrow> nat \<Rightarrow> lua_table \<Rightarrow> lua_table V" where
  "fill_arg call from' 0 t = returnV t"
| "fill_arg call from' (Suc i) t =
     bindV (fill_arg call from' i t) (\<lambda>t1. bindV (getobj (from' + i)) (\<lambda>v. setnum call t1 (int i + 1) v))"

definition arg_table :: "vcaller \<Rightarrow> nat \<Rightarrow> addr V" where
  "arg_table call nvar =
     bindV (resV call (luaH_new nvar 1)) (\<lambda>t0.
     readV L_top (\<lambda>top'.
     bindV (fill_arg call (top' - nvar) nvar t0) (\<lambda>t1.
     bindV (resV call (luaH_setstr t1 ''n'')) (\<lambda>(t2, s).
     new_table (slot_set t2 s (TNumber (cast_num (int nvar))))))))"

text \<open>\<open>adjust_varargs\<close>: the fixed parameters are copied above the arguments; the result is the new base.\<close>

definition adjust_varargs :: "vcaller \<Rightarrow> Proto \<Rightarrow> nat \<Rightarrow> nat V" where
  "adjust_varargs call p actual =
     (let nfixargs = nat (pt_numparams p); actual' = max actual nfixargs
      in readV L_top (\<lambda>top0.
         thenV (eachV (\<lambda>k. setobj k TNil) [top0..<top0 + (nfixargs - actual)])
         (thenV (set_top (top0 + (nfixargs - actual)))
         (bindV (if pt_is_vararg p AND VARARG_NEEDSARG \<noteq> 0
                 then bindV (arg_table call (actual' - nfixargs)) (\<lambda>a. returnV (Some a)) else returnV None) (\<lambda>htab.
         readV L_top (\<lambda>base'.
           let fixed = base' - actual'
           in thenV (eachV (\<lambda>i. thenV (moveobj (base' + i) (fixed + i)) (setobj (fixed + i) TNil)) [0..<nfixargs])
              (thenV (set_top (base' + nfixargs))
              (thenV (case htab of None \<Rightarrow> returnV ()
                                 | Some a \<Rightarrow> thenV (setobj (base' + nfixargs) (TTable a)) (set_top (base' + nfixargs + 1)))
              (returnV base')))))))))"

definition tryfuncTM :: "vcaller \<Rightarrow> nat \<Rightarrow> unit V" where
  "tryfuncTM call func =
     bindV (getobj func) (\<lambda>f.
     bindV (luaT_gettmbyobj f TM_CALL) (\<lambda>tm.
       if \<not> ttisfunction tm then typeerror call (f, Some func) ''call''
       else readV L_top (\<lambda>top'.
         thenV (eachV (\<lambda>p. moveobj p (p - 1)) (rev [func + 1..<top' + 1]))
         (thenV incr_top
         (setobj func tm)))))"

section \<open>Results\<close>

text \<open>\<open>m\<close> results are there, \<open>i\<close> more are wanted (a negative number wants all).\<close>

fun move_results :: "nat \<Rightarrow> int \<Rightarrow> nat \<Rightarrow> nat \<Rightarrow> (int \<times> nat) V" where
  "move_results 0 i res firstResult = returnV (i, res)"
| "move_results (Suc m) i res firstResult =
     (if i = 0 then returnV (i, res)
      else thenV (moveobj res firstResult) (move_results m (i - 1) (res + 1) (firstResult + 1)))"

text \<open>The result tells whether the number of results was fixed.\<close>

definition luaD_poscall :: "nat \<Rightarrow> bool V" where
  "luaD_poscall firstResult =
     readV L_ci (\<lambda>cis.
       case cis of
         ci # prev # rest \<Rightarrow>
           let wanted = fr_nresults ci
           in thenV (doV (\<lambda>L. L\<lparr>L_ci := prev # rest, L_base := fr_base prev, L_savedpc := fr_savedpc prev\<rparr>))
              (readV L_top (\<lambda>top'.
              bindV (move_results (top' - firstResult) wanted (fr_func ci) firstResult) (\<lambda>(i, res).
              thenV (eachV (\<lambda>k. setobj k TNil) [res..<res + nat i])
              (thenV (set_top (res + nat i))
              (returnV (wanted \<noteq> LUA_MULTRET))))))
       | _ \<Rightarrow> stopV Undefined)"

section \<open>Entering a function\<close>

datatype precall_result = PCRLUA | PCRC | PCRYIELD

definition precall_lua :: "vcaller \<Rightarrow> Proto \<Rightarrow> nat \<Rightarrow> int \<Rightarrow> precall_result V" where
  "precall_lua call p func nresults =
     thenV (luaD_checkstack (pt_maxstacksize p))
     (bindV (if pt_is_vararg p = 0 then
               readV L_top (\<lambda>top'.
                 thenV (if func + 1 + nat (pt_numparams p) < top' then set_top (func + 1 + nat (pt_numparams p)) else returnV ())
                   (returnV (func + 1)))
             else readV L_top (\<lambda>top'. adjust_varargs call p (top' - func - 1))) (\<lambda>base'.
     let citop = base' + nat (pt_maxstacksize p)
     in thenV (inc_ci call \<lparr>fr_func = func, fr_base = base', fr_top = citop, fr_savedpc = 0, fr_nresults = nresults, fr_tailcalls = 0\<rparr>)
        (thenV (doV (\<lambda>L. L\<lparr>L_base := base', L_savedpc := 0\<rparr>))
        (readV L_top (\<lambda>top'.
        thenV (eachV (\<lambda>st. setobj st TNil) [top'..<citop])
        (thenV (set_top citop)
        (returnV PCRLUA)))))))"

definition precall_c :: "host \<Rightarrow> vcaller \<Rightarrow> nat \<Rightarrow> nat \<Rightarrow> int \<Rightarrow> precall_result V" where
  "precall_c H call f func nresults =
     thenV (luaD_checkstack LUA_MINSTACK)
     (readV L_top (\<lambda>top'.
     thenV (inc_ci call \<lparr>fr_func = func, fr_base = func + 1, fr_top = top' + nat LUA_MINSTACK, fr_savedpc = 0,
                         fr_nresults = nresults, fr_tailcalls = 0\<rparr>)
     (thenV (doV (\<lambda>L. L\<lparr>L_base := func + 1\<rparr>))
     (bindV (h_cfun H f call) (\<lambda>n.
       if n < 0 then returnV PCRYIELD
       else readV L_top (\<lambda>top''. thenV (luaD_poscall (top'' - nat n)) (returnV PCRC)))))))"

definition luaD_precall :: "host \<Rightarrow> vcaller \<Rightarrow> nat \<Rightarrow> int \<Rightarrow> precall_result V" where
  "luaD_precall H call func nresults =
     bindV (getobj func) (\<lambda>f0.
     thenV (if \<not> ttisfunction f0 then tryfuncTM call func else returnV ())
     (bindV (getobj func) (\<lambda>f.
       case f of
         TFunction a \<Rightarrow>
           bindV (clvalue a) (\<lambda>cl.
           thenV (readV L_savedpc (\<lambda>pc. mod_ci (\<lambda>ci. ci\<lparr>fr_savedpc := pc\<rparr>)))
             (case cl of
                LFunction c p \<Rightarrow> precall_lua call p func nresults
              | CFunction c g \<Rightarrow> precall_c H call g func nresults))
       | _ \<Rightarrow> stopV Undefined)))"

end
