(* ===== verification/LuaExec.thy ===== *)
theory LuaExec
  imports LuaCall
begin

text \<open>
  The main loop of lvm.c, one definition for the execution of one instruction. \<open>pc\<close> is the position after the
  instruction, as in the code. The closure, its constants and \<open>base\<close> are read from the frame; the code keeps
  copies of them in local variables.
\<close>

section \<open>Operands\<close>

definition symbV :: "'a symb \<Rightarrow> 'a V" where
  "symbV r = (case r of Ok x \<Rightarrow> returnV x | _ \<Rightarrow> stopV Undefined)"

definition fetch :: "Proto \<Rightarrow> int \<Rightarrow> Instruction V" where
  "fetch p pc = symbV (read_at (pt_code p) pc)"

text \<open>\<open>KBx\<close>, \<open>RKB\<close> and \<open>RKC\<close>\<close>

definition konst :: "Proto \<Rightarrow> int \<Rightarrow> tvalue V" where
  "konst p n = symbV (read_at (pt_k p) n)"

definition RK :: "Proto \<Rightarrow> nat \<Rightarrow> int \<Rightarrow> operand V" where
  "RK p base' x =
     (if ISK x then bindV (konst p (INDEXK x)) (\<lambda>v. returnV (v, None))
      else bindV (getobj (base' + nat x)) (\<lambda>v. returnV (v, Some (base' + nat x))))"

definition nvalue :: "nat \<Rightarrow> lua_Number V" where
  "nvalue k = bindV (getobj k) (\<lambda>v. case v of TNumber n \<Rightarrow> returnV n | _ \<Rightarrow> stopV Undefined)"

text \<open>\<open>tonumber\<close>: a string at a level is replaced by its number.\<close>

definition tonumber_at :: "nat \<Rightarrow> bool V" where
  "tonumber_at k =
     bindV (getobj k) (\<lambda>v.
       if ttisnumber v then returnV True
       else case luaV_tonumber v of
              None \<Rightarrow> returnV False
            | Some n \<Rightarrow> thenV (setobj k (TNumber n)) (returnV True))"

definition Protect :: "int \<Rightarrow> 'a V \<Rightarrow> 'a V" where
  "Protect pc m = thenV (doV (\<lambda>L. L\<lparr>L_savedpc := pc\<rparr>)) m"

section \<open>Upvalues\<close>

definition upval_at :: "LClosure \<Rightarrow> int \<Rightarrow> addr V" where
  "upval_at c b = bindV (symbV (read_at (lc_upvals c) b)) someV"

definition upval_get :: "addr \<Rightarrow> tvalue V" where
  "upval_get a =
     readV (\<lambda>L. uvs (L_uv L) a) (\<lambda>uv.
       case uv of
         None \<Rightarrow> stopV Undefined
       | Some u \<Rightarrow> (case uv_v u of Open l \<Rightarrow> getobj l | Closed v \<Rightarrow> returnV v))"

definition upval_set :: "addr \<Rightarrow> tvalue \<Rightarrow> unit V" where
  "upval_set a v =
     readV (\<lambda>L. uvs (L_uv L) a) (\<lambda>uv.
       case uv of
         None \<Rightarrow> stopV Undefined
       | Some u \<Rightarrow>
           (case uv_v u of
              Open l \<Rightarrow> setobj l v
            | Closed _ \<Rightarrow> doV (\<lambda>L. L\<lparr>L_uv := (L_uv L)\<lparr>uvs := (uvs (L_uv L))(a \<mapsto> u\<lparr>uv_v := Closed v\<rparr>)\<rparr>\<rparr>)))"

definition findupval :: "nat \<Rightarrow> addr V" where
  "findupval level L = (let (st, a) = luaF_findupval (L_uv L) level in Inr (a, L\<lparr>L_uv := st\<rparr>))"

definition close_upvals :: "nat \<Rightarrow> unit V" where
  "close_upvals level = doV (\<lambda>L. L\<lparr>L_uv := luaF_close (L_uv L) level\<rparr>)"

text \<open>The upvalues of a new closure, described by the instructions at \<open>pc\<close>.\<close>

fun closure_upvals :: "LClosure \<Rightarrow> Proto \<Rightarrow> nat \<Rightarrow> int \<Rightarrow> nat \<Rightarrow> addr option list V" where
  "closure_upvals c p base' pc 0 = returnV []"
| "closure_upvals c p base' pc (Suc n) =
     bindV (fetch p pc) (\<lambda>i.
     bindV (if is_op i OP_GETUPVAL then upval_at c (GETARG_B i) else findupval (base' + nat (GETARG_B i))) (\<lambda>a.
     bindV (closure_upvals c p base' (pc + 1) n) (\<lambda>us. returnV (Some a # us))))"

section \<open>Instructions\<close>

text \<open>What the loop does next: go on at a position, enter the function of \<open>L->ci\<close> (\<open>goto reentry\<close>), or return.\<close>

datatype vnext = Continue int | Reentry int | Exit

text \<open>The jump after a test, which is taken if \<open>b\<close>.\<close>

definition cond_jump :: "Proto \<Rightarrow> int \<Rightarrow> bool \<Rightarrow> vnext V" where
  "cond_jump p pc b =
     (if b then bindV (fetch p pc) (\<lambda>j. returnV (Continue (pc + GETARG_sBx j + 1))) else returnV (Continue (pc + 1)))"

text \<open>\<open>arith_op\<close>\<close>

definition arith_op :: "host \<Rightarrow> vcaller \<Rightarrow> int \<Rightarrow> nat \<Rightarrow> operand \<Rightarrow> operand \<Rightarrow> TMS \<Rightarrow> unit V" where
  "arith_op H call pc ra rb rc tm =
     (case (fst rb, fst rc) of
        (TNumber nb, TNumber nc) \<Rightarrow>
          (case arith_num (h_pow H) tm nb nc of Some r \<Rightarrow> setobj ra (TNumber r) | None \<Rightarrow> returnV ())
      | _ \<Rightarrow> Protect pc (Arith (h_pow H) call ra rb rc tm))"

definition arith_tm :: "OpCode \<Rightarrow> TMS" where
  "arith_tm o' =
     (case o' of
        OP_ADD \<Rightarrow> TM_ADD | OP_SUB \<Rightarrow> TM_SUB | OP_MUL \<Rightarrow> TM_MUL | OP_DIV \<Rightarrow> TM_DIV | OP_MOD \<Rightarrow> TM_MOD
      | OP_POW \<Rightarrow> TM_POW | _ \<Rightarrow> TM_UNM)"

text \<open>\<open>OP_LOADNIL\<close>: from the last register down, at least one.\<close>

definition load_nil :: "nat \<Rightarrow> nat \<Rightarrow> unit V" where
  "load_nil ra rb = thenV (setobj rb TNil) (eachV (\<lambda>k. setobj k TNil) (rev [ra..<rb]))"

definition len_op :: "vcaller \<Rightarrow> int \<Rightarrow> nat \<Rightarrow> nat \<Rightarrow> unit V" where
  "len_op call pc ra rb =
     bindV (getobj rb) (\<lambda>v.
       case v of
         TTable h \<Rightarrow> bindV (hvalue h) (\<lambda>t. bindV (someV (luaH_getn t)) (\<lambda>n. setobj ra (TNumber (cast_num n))))
       | TString s \<Rightarrow> setobj ra (TNumber (cast_num (int (length s))))
       | _ \<Rightarrow>
           Protect pc (bindV (call_binTM call v TNil ra TM_LEN) (\<lambda>called.
             if called then returnV () else typeerror call (v, Some rb) ''get length of'')))"

text \<open>\<open>OP_CALL\<close> and \<open>OP_TAILCALL\<close>; \<open>b\<close> is the operand B.\<close>

definition call_top :: "nat \<Rightarrow> int \<Rightarrow> unit V" where
  "call_top ra b = (if b \<noteq> 0 then set_top (ra + nat b) else returnV ())"

definition call_op :: "host \<Rightarrow> vcaller \<Rightarrow> int \<Rightarrow> int \<Rightarrow> nat \<Rightarrow> int \<Rightarrow> int \<Rightarrow> vnext V" where
  "call_op H call nexeccalls pc ra b nresults =
     thenV (call_top ra b)
     (Protect pc (bindV (luaD_precall H call ra nresults) (\<lambda>r.
       case r of
         PCRLUA \<Rightarrow> returnV (Reentry (nexeccalls + 1))
       | PCRC \<Rightarrow>
           thenV (if 0 \<le> nresults then this_ci (\<lambda>ci. set_top (fr_top ci)) else returnV ()) (returnV (Continue pc))
       | PCRYIELD \<Rightarrow> returnV Exit)))"

text \<open>The new frame takes the place of the previous one.\<close>

definition move_frame_down :: "unit V" where
  "move_frame_down =
     readV L_ci (\<lambda>cis.
       case cis of
         new # old # rest \<Rightarrow>
           let func = fr_func old; pfunc = fr_func new
           in thenV (readV (\<lambda>L. openupval (L_uv L)) (\<lambda>us. if us \<noteq> [] then close_upvals (fr_base old) else returnV ()))
              (readV L_top (\<lambda>top'.
              thenV (eachV (\<lambda>k. moveobj (func + k) (pfunc + k)) [0..<top' - pfunc])
              (doV (\<lambda>L.
                let b = func + (fr_base new - pfunc); t = func + (top' - pfunc)
                in L\<lparr>L_base := b, L_top := t,
                     L_ci := old\<lparr>fr_base := b, fr_top := t, fr_savedpc := L_savedpc L, fr_tailcalls := fr_tailcalls old + 1\<rparr> # rest\<rparr>))))
       | _ \<Rightarrow> stopV Undefined)"

definition tailcall_op :: "host \<Rightarrow> vcaller \<Rightarrow> int \<Rightarrow> int \<Rightarrow> nat \<Rightarrow> int \<Rightarrow> vnext V" where
  "tailcall_op H call nexeccalls pc ra b =
     thenV (call_top ra b)
     (Protect pc (bindV (luaD_precall H call ra LUA_MULTRET) (\<lambda>r.
       case r of
         PCRLUA \<Rightarrow> thenV move_frame_down (returnV (Reentry nexeccalls))
       | PCRC \<Rightarrow> returnV (Continue pc)
       | PCRYIELD \<Rightarrow> returnV Exit)))"

definition return_op :: "int \<Rightarrow> int \<Rightarrow> nat \<Rightarrow> nat \<Rightarrow> int \<Rightarrow> vnext V" where
  "return_op nexeccalls pc base' ra b =
     thenV (if b \<noteq> 0 then set_top (ra + nat b - 1) else returnV ())
     (thenV (readV (\<lambda>L. openupval (L_uv L)) (\<lambda>us. if us \<noteq> [] then close_upvals base' else returnV ()))
     (Protect pc (bindV (luaD_poscall ra) (\<lambda>fixed.
       if nexeccalls - 1 = 0 then returnV Exit
       else thenV (if fixed then this_ci (\<lambda>ci. set_top (fr_top ci)) else returnV ())
              (returnV (Reentry (nexeccalls - 1)))))))"

definition forloop_op :: "int \<Rightarrow> nat \<Rightarrow> int \<Rightarrow> vnext V" where
  "forloop_op pc ra sbx =
     bindV (nvalue (ra + 2)) (\<lambda>step.
     bindV (nvalue ra) (\<lambda>init.
     bindV (nvalue (ra + 1)) (\<lambda>limit.
       let idx = luai_numadd init step
       in if (if luai_numlt 0 step then luai_numle idx limit else luai_numle limit idx)
          then thenV (setobj ra (TNumber idx)) (thenV (setobj (ra + 3) (TNumber idx)) (returnV (Continue (pc + sbx))))
          else returnV (Continue pc))))"

definition for_error :: "vcaller \<Rightarrow> string \<Rightarrow> 'a V" where
  "for_error call what = runerror call (LUA_QL ''for'' @ '' '' @ what @ '' must be a number'')"

definition forprep_op :: "vcaller \<Rightarrow> int \<Rightarrow> nat \<Rightarrow> int \<Rightarrow> vnext V" where
  "forprep_op call pc ra sbx =
     Protect pc (bindV (tonumber_at ra) (\<lambda>ok. if \<not> ok then for_error call ''initial value''
     else bindV (tonumber_at (ra + 1)) (\<lambda>ok. if \<not> ok then for_error call ''limit''
     else bindV (tonumber_at (ra + 2)) (\<lambda>ok. if \<not> ok then for_error call ''step''
     else bindV (nvalue ra) (\<lambda>init. bindV (nvalue (ra + 2)) (\<lambda>step.
       thenV (setobj ra (TNumber (luai_numsub init step))) (returnV (Continue (pc + sbx)))))))))"

definition tforloop_op :: "vcaller \<Rightarrow> Proto \<Rightarrow> int \<Rightarrow> nat \<Rightarrow> int \<Rightarrow> vnext V" where
  "tforloop_op call p pc a c =
     readV L_base (\<lambda>base'.
       let ra = base' + a; cb = ra + 3
       in thenV (moveobj (cb + 2) (ra + 2))
          (thenV (moveobj (cb + 1) (ra + 1))
          (thenV (moveobj cb ra)
          (thenV (set_top (cb + 3))
          (thenV (Protect pc (call cb c))
          (thenV (this_ci (\<lambda>ci. set_top (fr_top ci)))
          (readV L_base (\<lambda>base''.
            bindV (getobj (base'' + a + 3)) (\<lambda>v.
              if \<not> ttisnil v then thenV (setobj (base'' + a + 2) v) (cond_jump p pc True)
              else cond_jump p pc False)))))))))"

text \<open>\<open>OP_SETLIST\<close>: the values from the last one down.\<close>

primrec setlist_loop :: "vcaller \<Rightarrow> addr \<Rightarrow> nat \<Rightarrow> int \<Rightarrow> nat \<Rightarrow> unit V" where
  "setlist_loop call h ra last' 0 = returnV ()"
| "setlist_loop call h ra last' (Suc n) =
     bindV (getobj (ra + Suc n)) (\<lambda>v.
     bindV (hvalue h) (\<lambda>t.
     bindV (setnum call t last' v) (\<lambda>t1.
     thenV (put_table h t1) (setlist_loop call h ra (last' - 1) n))))"

definition setlist_op :: "vcaller \<Rightarrow> Proto \<Rightarrow> int \<Rightarrow> nat \<Rightarrow> int \<Rightarrow> int \<Rightarrow> vnext V" where
  "setlist_op call p pc ra b c =
     readV L_top (\<lambda>top'.
       let n = (if b = 0 then int top' - int ra - 1 else b)
       in thenV (if b = 0 then this_ci (\<lambda>ci. set_top (fr_top ci)) else returnV ())
          (bindV (if c = 0 then bindV (fetch p pc) (\<lambda>w. returnV (sint w, pc + 1)) else returnV (c, pc)) (\<lambda>(c', pc').
          bindV (getobj ra) (\<lambda>v.
            case v of
              TTable h \<Rightarrow>
                (let last' = int32 ((c' - 1) * LFIELDS_PER_FLUSH + n)
                 in bindV (hvalue h) (\<lambda>t.
                    thenV (if int (sizearray t) < last'
                           then bindV (resV call (luaH_resizearray t (nat last'))) (\<lambda>t1. put_table h t1) else returnV ())
                    (thenV (setlist_loop call h ra last' (nat n)) (returnV (Continue pc')))))
            | _ \<Rightarrow> returnV (Continue pc')))))"

definition closure_op :: "LClosure \<Rightarrow> Proto \<Rightarrow> int \<Rightarrow> nat \<Rightarrow> nat \<Rightarrow> int \<Rightarrow> vnext V" where
  "closure_op c p pc base' ra bx =
     bindV (symbV (read_at (pt_p p) bx)) (\<lambda>p'.
     let nup = nat (pt_nups p'); ncl = luaF_newLclosure (pt_nups p') (lc_env c)
     in bindV (new_closure (LFunction ncl p')) (\<lambda>a.
        bindV (closure_upvals c p base' pc nup) (\<lambda>us.
        thenV (doV (\<lambda>L. L\<lparr>L_closures := (L_closures L)(a \<mapsto> LFunction (ncl\<lparr>lc_upvals := us\<rparr>) p')\<rparr>))
        (thenV (setobj ra (TFunction a)) (returnV (Continue (pc + int nup)))))))"

definition vararg_op :: "Proto \<Rightarrow> int \<Rightarrow> nat \<Rightarrow> int \<Rightarrow> vnext V" where
  "vararg_op p pc a b0 =
     this_ci (\<lambda>ci.
       let n = int (fr_base ci) - int (fr_func ci) - pt_numparams p - 1; b = b0 - 1
       in thenV (if b = LUA_MULTRET then
                   Protect pc (thenV (luaD_checkstack n) (readV L_base (\<lambda>base'. set_top (nat (int (base' + a) + n)))))
                 else returnV ())
          (readV L_base (\<lambda>base'.
          thenV (eachV (\<lambda>j. if int j < n then moveobj (base' + a + j) (nat (int (fr_base ci) - n + int j))
                            else setobj (base' + a + j) TNil)
                  [0..<nat (if b = LUA_MULTRET then n else b)])
          (returnV (Continue pc)))))"

text \<open>Then the loop goes on after the instruction.\<close>

definition on :: "int \<Rightarrow> 'a V \<Rightarrow> vnext V" where
  "on pc m = thenV m (returnV (Continue pc))"

definition vm_op :: "host \<Rightarrow> vcaller \<Rightarrow> LClosure \<Rightarrow> Proto \<Rightarrow> int \<Rightarrow> int \<Rightarrow> nat \<Rightarrow> Instruction \<Rightarrow> OpCode \<Rightarrow> vnext V" where
  "vm_op H call cl p nexeccalls pc base' i o' =
     (let a = nat (GETARG_A i); b = GETARG_B i; c = GETARG_C i; ra = base' + a; rb = base' + nat b;
          rkb = RK p base' b; rkc = RK p base' c
      in case o' of
           OP_MOVE \<Rightarrow> on pc (moveobj ra rb)
         | OP_LOADK \<Rightarrow> on pc (bindV (konst p (GETARG_Bx i)) (setobj ra))
         | OP_LOADBOOL \<Rightarrow> on (if c \<noteq> 0 then pc + 1 else pc) (setobj ra (TBoolean b))
         | OP_LOADNIL \<Rightarrow> on pc (load_nil ra rb)
         | OP_GETUPVAL \<Rightarrow> on pc (bindV (upval_at cl b) (\<lambda>u. bindV (upval_get u) (setobj ra)))
         | OP_GETGLOBAL \<Rightarrow>
             on pc (bindV (konst p (GETARG_Bx i)) (\<lambda>k. Protect pc (luaV_gettable call (TTable (lc_env cl), None) k ra)))
         | OP_GETTABLE \<Rightarrow>
             on pc (bindV (getobj rb) (\<lambda>t. bindV rkc (\<lambda>k. Protect pc (luaV_gettable call (t, Some rb) (fst k) ra))))
         | OP_SETGLOBAL \<Rightarrow>
             on pc (bindV (konst p (GETARG_Bx i)) (\<lambda>k. bindV (getobj ra) (\<lambda>v.
               Protect pc (luaV_settable call (TTable (lc_env cl), None) k v))))
         | OP_SETUPVAL \<Rightarrow> on pc (bindV (upval_at cl b) (\<lambda>u. bindV (getobj ra) (upval_set u)))
         | OP_SETTABLE \<Rightarrow>
             on pc (bindV (getobj ra) (\<lambda>t. bindV rkb (\<lambda>k. bindV rkc (\<lambda>v.
               Protect pc (luaV_settable call (t, Some ra) (fst k) (fst v))))))
         | OP_NEWTABLE \<Rightarrow>
             on pc (bindV (resV call (luaH_new (nat (luaO_fb2int b)) (nat (luaO_fb2int c)))) (\<lambda>t.
               bindV (new_table t) (\<lambda>h. setobj ra (TTable h))))
         | OP_SELF \<Rightarrow>
             on pc (bindV (getobj rb) (\<lambda>t. thenV (setobj (ra + 1) t) (bindV (getobj rb) (\<lambda>t. bindV rkc (\<lambda>k.
               Protect pc (luaV_gettable call (t, Some rb) (fst k) ra))))))
         | OP_UNM \<Rightarrow> on pc (bindV (getobj rb) (\<lambda>v. arith_op H call pc ra (v, Some rb) (v, Some rb) TM_UNM))
         | OP_NOT \<Rightarrow> on pc (bindV (getobj rb) (\<lambda>v. setobj ra (TBoolean (of_bool (l_isfalse v)))))
         | OP_LEN \<Rightarrow> on pc (len_op call pc ra rb)
         | OP_CONCAT \<Rightarrow>
             on pc (thenV (Protect pc (luaV_concat call (nat (c - b + 1)) (nat c)))
               (readV L_base (\<lambda>base''. moveobj (base'' + a) (base'' + nat b))))
         | OP_JMP \<Rightarrow> returnV (Continue (pc + GETARG_sBx i))
         | OP_EQ \<Rightarrow>
             bindV rkb (\<lambda>v. bindV rkc (\<lambda>w. Protect pc (bindV (equalobj call (fst v) (fst w)) (\<lambda>r.
               cond_jump p pc (of_bool r = GETARG_A i)))))
         | OP_LT \<Rightarrow>
             Protect pc (bindV rkb (\<lambda>v. bindV rkc (\<lambda>w. bindV (luaV_lessthan (h_strcoll H) call (fst v) (fst w)) (\<lambda>r.
               cond_jump p pc (of_bool r = GETARG_A i)))))
         | OP_LE \<Rightarrow>
             Protect pc (bindV rkb (\<lambda>v. bindV rkc (\<lambda>w. bindV (lessequal (h_strcoll H) call (fst v) (fst w)) (\<lambda>r.
               cond_jump p pc (of_bool r = GETARG_A i)))))
         | OP_TEST \<Rightarrow> bindV (getobj ra) (\<lambda>v. cond_jump p pc (of_bool (l_isfalse v) \<noteq> c))
         | OP_TESTSET \<Rightarrow>
             bindV (getobj rb) (\<lambda>v.
               if of_bool (l_isfalse v) \<noteq> c then thenV (setobj ra v) (cond_jump p pc True) else cond_jump p pc False)
         | OP_CALL \<Rightarrow> call_op H call nexeccalls pc ra b (c - 1)
         | OP_TAILCALL \<Rightarrow> tailcall_op H call nexeccalls pc ra b
         | OP_RETURN \<Rightarrow> return_op nexeccalls pc base' ra b
         | OP_FORLOOP \<Rightarrow> forloop_op pc ra (GETARG_sBx i)
         | OP_FORPREP \<Rightarrow> forprep_op call pc ra (GETARG_sBx i)
         | OP_TFORLOOP \<Rightarrow> tforloop_op call p pc a c
         | OP_SETLIST \<Rightarrow> setlist_op call p pc ra b c
         | OP_CLOSE \<Rightarrow> on pc (close_upvals ra)
         | OP_CLOSURE \<Rightarrow> closure_op cl p pc base' ra (GETARG_Bx i)
         | OP_VARARG \<Rightarrow> vararg_op p pc a b
         | _ \<Rightarrow> on pc (bindV rkb (\<lambda>v. bindV rkc (\<lambda>w. arith_op H call pc ra v w (arith_tm o')))))"

section \<open>The loop\<close>

text \<open>The function of the running frame.\<close>

definition running :: "(LClosure \<times> Proto) V" where
  "running =
     this_ci (\<lambda>ci. bindV (getobj (fr_func ci)) (\<lambda>f.
       case f of
         TFunction a \<Rightarrow> bindV (clvalue a) (\<lambda>cl. case cl of LFunction c p \<Rightarrow> returnV (c, p) | _ \<Rightarrow> stopV Undefined)
       | _ \<Rightarrow> stopV Undefined))"

text \<open>A number that is no opcode falls through the \<open>switch\<close>.\<close>

definition vm_step :: "host \<Rightarrow> vcaller \<Rightarrow> int \<Rightarrow> int \<Rightarrow> vnext V" where
  "vm_step H call nexeccalls pc =
     bindV running (\<lambda>(c, p).
     bindV (fetch p pc) (\<lambda>i.
     readV L_base (\<lambda>base'.
       case op_of_num (GET_OPCODE i) of
         None \<Rightarrow> returnV (Continue (pc + 1))
       | Some o' \<Rightarrow> vm_op H call c p nexeccalls (pc + 1) base' i o')))"

primrec vm_loop :: "host \<Rightarrow> vcaller \<Rightarrow> nat \<Rightarrow> int \<Rightarrow> int \<Rightarrow> unit V" where
  "vm_loop H call 0 nexeccalls pc = stopV OutOfFuel"
| "vm_loop H call (Suc fuel) nexeccalls pc =
     bindV (vm_step H call nexeccalls pc) (\<lambda>r.
       case r of
         Continue pc' \<Rightarrow> vm_loop H call fuel nexeccalls pc'
       | Reentry n \<Rightarrow> readV L_savedpc (\<lambda>pc'. vm_loop H call fuel n pc')
       | Exit \<Rightarrow> returnV ())"

definition luaV_execute :: "host \<Rightarrow> vcaller \<Rightarrow> nat \<Rightarrow> int \<Rightarrow> unit V" where
  "luaV_execute H call fuel nexeccalls = readV L_savedpc (\<lambda>pc. vm_loop H call fuel nexeccalls pc)"

text \<open>
  \<open>luaD_call\<close> closes the circle. The bound limits both the nesting of \<open>luaD_call\<close>, of which no more than
  \<open>LUAI_MAXCCALLS + LUAI_MAXCCALLS/8\<close> levels are possible, and the instructions that a level executes.
\<close>

abbreviation (input) LUAI_MAXCCALLS :: int where "LUAI_MAXCCALLS \<equiv> 200"

definition check_ccalls :: "vcaller \<Rightarrow> unit V" where
  "check_ccalls call =
     readV L_nCcalls (\<lambda>n.
       if LUAI_MAXCCALLS \<le> n then
         (if n = LUAI_MAXCCALLS then runerror call ''C stack overflow''
          else if LUAI_MAXCCALLS + LUAI_MAXCCALLS div 8 \<le> n then luaD_throw ERRERR
          else returnV ())
       else returnV ())"

primrec luaD_call :: "host \<Rightarrow> nat \<Rightarrow> vcaller" where
  "luaD_call H 0 func nResults = stopV OutOfFuel"
| "luaD_call H (Suc fuel) func nResults =
     thenV (doV (\<lambda>L. L\<lparr>L_nCcalls := L_nCcalls L + 1\<rparr>))
     (thenV (check_ccalls (luaD_call H fuel))
     (bindV (luaD_precall H (luaD_call H fuel) func nResults) (\<lambda>r.
     thenV (if r = PCRLUA then luaV_execute H (luaD_call H fuel) fuel 1 else returnV ())
       (doV (\<lambda>L. L\<lparr>L_nCcalls := L_nCcalls L - 1\<rparr>)))))"

end
