(* ===== verification/LuaFlow.thy ===== *)
theory LuaFlow
  imports LuaExec
begin

text \<open>
  Where the main loop goes on: the positions that LuaChecker takes for the successors of an instruction are those
  of the interpreter.
\<close>

section \<open>What a computation returns\<close>

definition gives :: "'a V \<Rightarrow> ('a \<Rightarrow> bool) \<Rightarrow> bool" where
  "gives m Q \<longleftrightarrow> (\<forall>L x L'. m L = Inr (x, L') \<longrightarrow> Q x)"

named_theorems gives_intro

lemma gives_return [gives_intro]: "Q x \<Longrightarrow> gives (returnV x) Q"
  by (simp add: gives_def)

lemma gives_stop [gives_intro]: "gives (stopV e) Q"
  by (simp add: gives_def)

lemma gives_bind:
  assumes "gives m P" "\<And>x. P x \<Longrightarrow> gives (f x) Q"
  shows "gives (bindV m f) Q"
  using assms unfolding gives_def bindV_def by (fastforce split: sum.splits)

lemma gives_bind_any [gives_intro]: "(\<And>x. gives (f x) Q) \<Longrightarrow> gives (bindV m f) Q"
  by (rule gives_bind [where P = "\<lambda>x. True"]) (simp_all add: gives_def)

lemma gives_then [gives_intro]: "gives k Q \<Longrightarrow> gives (thenV m k) Q"
  unfolding thenV_def by (rule gives_bind_any)

lemma gives_read [gives_intro]: "(\<And>x. gives (f x) Q) \<Longrightarrow> gives (readV g f) Q"
  unfolding gives_def readV_def by blast

lemma gives_if [gives_intro]: "(b \<Longrightarrow> gives m Q) \<Longrightarrow> (\<not> b \<Longrightarrow> gives k Q) \<Longrightarrow> gives (if b then m else k) Q"
  by simp

lemma gives_this [gives_intro]: "(\<And>ci. gives (k ci) Q) \<Longrightarrow> gives (this_ci k) Q"
  unfolding this_ci_def by (intro gives_intro) (simp add: gives_intro split: list.splits)

lemma gives_Protect [gives_intro]: "gives m Q \<Longrightarrow> gives (Protect pc m) Q"
  unfolding Protect_def by (rule gives_then)

lemma gives_error [gives_intro]:
  "gives (luaD_throw e) Q" "gives (luaG_errormsg call) Q"
  by (auto simp: luaD_throw_def luaG_errormsg_def intro!: gives_intro)

lemma gives_message [gives_intro]: "gives (throw_message call m) Q"
  unfolding throw_message_def
  by (cases m; simp add: gives_intro; rename_tac e; case_tac e; simp add: gives_intro)

lemma gives_runerror [gives_intro]: "gives (runerror call msg) Q" "gives (for_error call msg) Q"
  by (auto simp: runerror_def for_error_def intro!: gives_intro)

lemma gives_on [gives_intro]: "Q (Continue pc) \<Longrightarrow> gives (on pc m) Q"
  unfolding on_def by (intro gives_intro)

lemma gives_fetch: "gives (fetch p pc) (\<lambda>i. i = instr p pc)"
  by (auto simp: gives_def fetch_def symbV_def read_at_def)

lemma gives_cond_jump [gives_intro]:
  "Q (Continue (pc + 1)) \<Longrightarrow> Q (Continue (pc + 1 + GETARG_sBx (instr p pc))) \<Longrightarrow> gives (cond_jump p pc b) Q"
  unfolding cond_jump_def
  by (intro gives_if gives_bind [OF gives_fetch] gives_return) (simp_all add: algebra_simps)

section \<open>The positions after an instruction\<close>

definition follows :: "Proto \<Rightarrow> int \<Rightarrow> vnext \<Rightarrow> bool" where
  "follows p pc r \<longleftrightarrow> (\<forall>pc'. r = Continue pc' \<longrightarrow> pc' \<in> set (vm_next p pc))"

lemma follows_simps [simp]:
  "follows p pc (Continue q) \<longleftrightarrow> q \<in> set (vm_next p pc)" "follows p pc (Reentry n)" "follows p pc Exit"
  by (simp_all add: follows_def)

lemma gives_call_op [gives_intro]: "follows p pc (Continue q) \<Longrightarrow> gives (call_op H call n q ra b m) (follows p pc)"
  unfolding call_op_def
  by (intro gives_intro) (auto intro!: gives_intro split: precall_result.splits)

lemma gives_tailcall_op [gives_intro]: "follows p pc (Continue q) \<Longrightarrow> gives (tailcall_op H call n q ra b) (follows p pc)"
  unfolding tailcall_op_def
  by (intro gives_intro) (auto intro!: gives_intro split: precall_result.splits)

lemma gives_return_op [gives_intro]: "gives (return_op n q base' ra b) (follows p pc)"
  unfolding return_op_def by (intro gives_intro) auto

lemma gives_loops [gives_intro]:
  "Q (Continue q) \<Longrightarrow> Q (Continue (q + d)) \<Longrightarrow> gives (forloop_op q ra d) Q"
  "Q (Continue (q + d)) \<Longrightarrow> gives (forprep_op call q ra d) Q"
  "Q (Continue (q + 1)) \<Longrightarrow> Q (Continue (q + 1 + GETARG_sBx (instr p q))) \<Longrightarrow> gives (tforloop_op call p q a c) Q"
  unfolding forloop_op_def forprep_op_def tforloop_op_def Let_def by (intro gives_intro; simp)+

lemma gives_setlist [gives_intro]:
  assumes "Q (Continue (if c = 0 then q + 1 else q))"
  shows "gives (setlist_op call p q ra b c) Q"
  unfolding setlist_op_def Let_def
proof (rule gives_read, rule gives_then, rule gives_bind [where P = "\<lambda>x. snd x = (if c = 0 then q + 1 else q)"])
  show "gives (if c = 0 then bindV (fetch p q) (\<lambda>w. returnV (sint w, q + 1)) else returnV (c, q))
      (\<lambda>x. snd x = (if c = 0 then q + 1 else q))"
    by (intro gives_intro) simp_all
qed (use assms in \<open>auto intro!: gives_intro split: prod.splits tvalue.splits\<close>)

lemma gives_closure [gives_intro]:
  assumes "Q (Continue (q + int (nat (pt_nups (pt_p p ! nat bx)))))"
  shows "gives (closure_op cl p q base' ra bx) Q"
  unfolding closure_op_def Let_def
proof (rule gives_bind [where P = "\<lambda>x. x = pt_p p ! nat bx"])
  show "gives (symbV (read_at (pt_p p) bx)) (\<lambda>x. x = pt_p p ! nat bx)"
    by (auto simp: gives_def symbV_def read_at_def)
qed (use assms in \<open>auto intro!: gives_intro\<close>)

lemma gives_vararg [gives_intro]: "Q (Continue q) \<Longrightarrow> gives (vararg_op p q a b) Q"
  unfolding vararg_op_def Let_def by (intro gives_intro)

lemma vm_op_follows:
  assumes "i = instr p pc" "op_of_num (GET_OPCODE i) = Some o'"
  shows "gives (vm_op H call c p n (pc + 1) base' i o') (follows p pc)"
  using assms
  by (cases o'; simp only: vm_op_def Let_def OpCode.case)
     (intro gives_intro; simp add: vm_next_def Let_def algebra_simps)+

lemma vm_step_next:
  assumes run: "running L = Inr ((c, p), L)" and op: "op_of_num (GET_OPCODE (instr p pc)) \<noteq> None"
    and step: "vm_step H call n pc L = Inr (r, L')"
  shows "follows p pc r"
proof -
  from op obtain o' where o': "op_of_num (GET_OPCODE (instr p pc)) = Some o'" by auto
  have "gives (bindV (fetch p pc) (\<lambda>i. readV L_base (\<lambda>base'.
      case op_of_num (GET_OPCODE i) of None \<Rightarrow> returnV (Continue (pc + 1))
      | Some o' \<Rightarrow> vm_op H call c p n (pc + 1) base' i o'))) (follows p pc)"
    using o' by (intro gives_bind [OF gives_fetch] gives_read) (auto intro: vm_op_follows)
  then show ?thesis
    using step unfolding gives_def vm_step_def bindV_Inr [where m = running, OF run] by auto
qed

section \<open>The activation of a function\<close>

text \<open>
  The positions that one activation of a function gets to. It begins at the first instruction (\<open>luaD_precall\<close> sets
  \<open>savedpc\<close> to it), goes on where the loop says, and after a call of a Lua function, whatever that does to the
  state, behind the instruction that called.
\<close>

inductive activation :: "host \<Rightarrow> vcaller \<Rightarrow> Proto \<Rightarrow> int \<Rightarrow> lua_State \<Rightarrow> bool" for H call p where
  entered: "activation H call p 0 L"
| goes_on: "activation H call p pc L \<Longrightarrow> running L = Inr ((c, p), L) \<Longrightarrow>
    vm_step H call n pc L = Inr (Continue pc', L') \<Longrightarrow> activation H call p pc' L'"
| returned: "activation H call p pc L \<Longrightarrow> running L = Inr ((c, p), L) \<Longrightarrow>
    vm_step H call n pc L = Inr (Reentry m, L') \<Longrightarrow> is_op (instr p pc) OP_CALL \<Longrightarrow> activation H call p (pc + 1) L''"

lemma activation_reach:
  assumes "activation H call p pc L" and safe: "\<And>pc. code_reach p pc \<Longrightarrow> instr_safe p pc"
  shows "code_reach p pc"
  using assms(1)
proof induction
  case (entered L)
  show ?case by (rule code_reach.start)
next
  case (goes_on pc L c n pc' L')
  from safe [OF goes_on.IH] have "op_of_num (GET_OPCODE (instr p pc)) \<noteq> None"
    by (auto simp: instr_safe_def Let_def split: option.splits)
  from vm_step_next [OF goes_on(2) this goes_on(3)] show ?case
    by (auto intro: code_reach.step [OF goes_on.IH])
next
  case (returned pc L c n m L' L'')
  then have "pc + 1 \<in> set (vm_next p pc)" by (simp add: vm_next_def is_op_iff)
  then show ?case by (rule code_reach.step [OF returned.IH])
qed

text \<open>C1: A function that the checker has accepted, and whose counts are in their places (\<open>counts_ok\<close>), is run within its
code: wherever the interpreter gets in an activation of it, by its own jumps or after a call, the position is
inside the code, the opcode exists, and the registers, constants, upvalues and prototypes of its operands exist.
\<open>counts_ok\<close> says of every \<open>OP_SETLIST\<close> whose C is 0 that the word behind it, which is its count, is not the last one
of the code, and that no \<open>OP_LOADBOOL\<close> in front skips to it. It is needed: the checker does not see to it, and
\<open>checkcode_misses_count\<close> shows code that it accepts and that runs off its end.\<close>

theorem checked_activation_safe:
  assumes "luaG_checkcode p = Ok True" "counts_ok p" "activation H call p pc L"
  shows "instr_safe p pc"
  using activation_reach [OF assms(3)] checked_code_safe [OF assms(1,2)] by blast

lemma running_one_frame: "running (one_frame p) = Inr ((luaF_newLclosure 0 0, p), one_frame p)"
  by (simp add: running_def this_ci_def getobj_def clvalue_def one_frame_def bindV_def)

text \<open>A host without C functions, for the examples.\<close>

definition no_host :: host where
  "no_host = \<lparr>h_cfun = (\<lambda>f call. returnV 0), h_pow = (\<lambda>a b. a), h_strcoll = (\<lambda>a b. 0)\<rparr>"

definition const_code :: Proto where
  "const_code = Proto [TNumber 0] [CREATE_ABx OP_LOADK 0 0, CREATE_ABC OP_RETURN 0 2 0] [] [] [] [] None 0 0 0 0 0 2"

theorem checked_activation_safe_witness: "instr_safe const_code 1"
proof -
  let ?r = "vm_step no_host (\<lambda>f n. returnV ()) 1 0 (one_frame const_code)"
  have "(case ?r of Inr (Continue q, _) \<Rightarrow> q | _ \<Rightarrow> - 1) = 1"
    by code_simp
  then obtain L' where "?r = Inr (Continue 1, L')"
    by (auto split: sum.splits prod.splits vnext.splits)
  with activation.goes_on [OF activation.entered running_one_frame]
  have "activation no_host (\<lambda>f n. returnV ()) const_code 1 L'" by blast
  moreover have "luaG_checkcode const_code = Ok True" "counts_ok const_code" by code_simp+
  ultimately show ?thesis using checked_activation_safe [of const_code] by blast
qed

end
