(* ===== verification/LuaOrder.thy ===== *)
theory LuaOrder
  imports LuaVM
begin

text \<open>
  The order of strings: \<open>l_strcmp\<close>, which compares the pieces between zero bytes by \<open>strcoll\<close>, is the lexicographic
  order of the whole byte strings when \<open>strcoll\<close> is the one of the C locale.
\<close>

definition byte_less :: "(char \<times> char) set" where
  "byte_less = {(a, b). uchar a < uchar b}"

text \<open>What the C standard says of \<open>strcoll\<close> in the C locale: it is \<open>strcmp\<close>.\<close>

definition byte_order :: "collation \<Rightarrow> bool" where
  "byte_order coll \<longleftrightarrow>
     (\<forall>a b. CHR 0x00 \<notin> set a \<and> CHR 0x00 \<notin> set b \<longrightarrow>
        (coll a b < 0 \<longleftrightarrow> (a, b) \<in> lexord byte_less) \<and> (coll a b = 0 \<longleftrightarrow> a = b))"

lemma byte_less_iff [simp]: "(a, b) \<in> byte_less \<longleftrightarrow> uchar a < uchar b"
  by (simp add: byte_less_def)

lemma uchar_inj [simp]: "uchar a = uchar b \<longleftrightarrow> a = b"
  by (simp add: uchar_def)

lemma uchar_zero_less [simp]: "uchar (CHR 0x00) < uchar b \<longleftrightarrow> b \<noteq> CHR 0x00" "\<not> uchar b < uchar (CHR 0x00)"
proof -
  have "uchar (CHR 0x00) = 0" by (simp add: uchar_def)
  moreover have "0 \<le> uchar b" unfolding uchar_def by (metis of_nat_of_char of_nat_0_le_iff)
  ultimately show "uchar (CHR 0x00) < uchar b \<longleftrightarrow> b \<noteq> CHR 0x00" "\<not> uchar b < uchar (CHR 0x00)"
    using uchar_inj [of b "CHR 0x00"] by linarith+
qed

lemma cstr_simps [simp]:
  "cstr [] = []" "cstr (c # s) = (if c = CHR 0x00 then [] else c # cstr s)"
  by (simp_all add: cstr_def)

lemma zero_notin_cstr [simp]: "CHR 0x00 \<notin> set (cstr s)"
  by (auto simp: cstr_def dest: set_takeWhileD)

text \<open>Where the first pieces differ, they decide.\<close>

lemma lexord_pieces: "cstr l \<noteq> cstr r \<Longrightarrow> (l, r) \<in> lexord byte_less \<longleftrightarrow> (cstr l, cstr r) \<in> lexord byte_less"
proof (induction l arbitrary: r)
  case Nil
  then show ?case by (cases r) auto
next
  case (Cons a l)
  then show ?case by (cases r) (auto split: if_splits)
qed

text \<open>A string is its first piece, or goes on after a zero byte.\<close>

lemma pieces: "s = cstr s \<or> s = cstr s @ CHR 0x00 # drop (length (cstr s) + 1) s"
  by (induction s) auto

lemma lexord_same_piece:
  "(p @ l, p @ r) \<in> lexord byte_less \<longleftrightarrow> (l, r) \<in> lexord byte_less"
  by (induction p) auto

text \<open>C25: Strings are ordered by their bytes, also behind embedded zeros: when \<open>strcoll\<close> compares zero-terminated
strings by their bytes, as it does in the C locale, \<open>l_strcmp\<close> returns a negative number exactly when the first
string comes lexicographically before the second one, and zero exactly when they are equal.\<close>

theorem l_strcmp_lexicographic:
  assumes "byte_order coll"
  shows "\<exists>c. l_strcmp coll l r = Inr c \<and> (c < 0 \<longleftrightarrow> (l, r) \<in> lexord byte_less) \<and> (c = 0 \<longleftrightarrow> l = r)"
  using assms
proof (induction coll l r rule: l_strcmp.induct)
  case (1 coll l r)
  let ?p = "cstr l" and ?q = "cstr r"
  let ?l = "drop (length ?p + 1) l" and ?r = "drop (length ?p + 1) r"
  have c: "coll ?p ?q < 0 \<longleftrightarrow> (?p, ?q) \<in> lexord byte_less" "coll ?p ?q = 0 \<longleftrightarrow> ?p = ?q"
    using 1(2) by (simp_all add: byte_order_def)
  show ?case
  proof (cases "?p = ?q")
    case False
    then show ?thesis using c lexord_pieces [OF False] by (auto simp: l_strcmp.simps [of coll l r])
  next
    case True
    note same = True
    consider (both) "l = ?p" "r = ?p" | (left) "l = ?p" "r = ?p @ CHR 0x00 # ?r"
      | (right) "l = ?p @ CHR 0x00 # ?l" "r = ?p" | (on) "l = ?p @ CHR 0x00 # ?l" "r = ?p @ CHR 0x00 # ?r"
      using pieces [of l] pieces [of r] unfolding True by auto
    then show ?thesis
    proof cases
      case both
      then have "length ?p = length r" "length ?p = length l" "l = r" by (metis, metis, metis)
      moreover from this have "l_strcmp coll l r = Inr 0" using c same by (subst l_strcmp.simps) (simp add: Let_def)
      moreover have "(l, l) \<notin> lexord byte_less" by (rule lexord_irreflexive) simp
      ultimately show ?thesis by simp
    next
      case left
      then have len: "length ?p = length l" "length ?p \<noteq> length r" by (metis, metis append_self_conv length_append list.size(3) nat_neq_iff list.distinct(1) append_eq_conv_conj take_all_iff order_refl)
      have "l \<noteq> r" using len by metis
      moreover have "(l, r) \<in> lexord byte_less" by (subst left(1), subst left(2)) (metis append.right_neutral lexord_same_piece lexord_Nil_left)
      ultimately show ?thesis using c same len by (simp add: l_strcmp.simps [of coll l r])
    next
      case right
      then have len: "length ?p = length r" "length ?p \<noteq> length l" by (metis, metis append_eq_conv_conj list.distinct(1) append_self_conv take_all_iff order_refl)
      have "(l, r) \<notin> lexord byte_less" by (subst right(1), subst right(2)) (metis append.right_neutral lexord_same_piece lexord_Nil_right)
      moreover have "l \<noteq> r" using len by metis
      ultimately show ?thesis using c same len by (simp add: l_strcmp.simps [of coll l r])
    next
      case on
      then have len: "length ?p < length l" "length ?p < length r"
        by (metis length_append length_Cons less_add_Suc1 add_Suc_right)+
      have "coll ?p ?q = 0" using c same by simp
      with 1(1) [OF refl _ refl] 1(2) len
      obtain c' where c': "l_strcmp coll ?l ?r = Inr c'" "c' < 0 \<longleftrightarrow> (?l, ?r) \<in> lexord byte_less" "c' = 0 \<longleftrightarrow> ?l = ?r"
        by auto
      have "(l, r) \<in> lexord byte_less \<longleftrightarrow> (?l, ?r) \<in> lexord byte_less"
        by (subst on(1), subst on(2)) (simp add: lexord_same_piece)
      moreover have "l = r \<longleftrightarrow> ?l = ?r" using on by metis
      moreover have "l_strcmp coll l r = l_strcmp coll ?l ?r"
        using \<open>coll ?p ?q = 0\<close> len by (subst l_strcmp.simps) (simp add: Let_def)
      ultimately show ?thesis using c' by simp
    qed
  qed
qed

definition strcmp :: collation where
  "strcmp a b = (if a = b then 0 else if (a, b) \<in> lexord byte_less then - 1 else 1)"

theorem l_strcmp_lexicographic_witness:
  "\<exists>c. l_strcmp strcmp [CHR ''a'', CHR 0x00, CHR ''b''] [CHR ''a'', CHR 0x00, CHR ''c''] = Inr c \<and> c < 0"
proof -
  have "byte_order strcmp"
    by (auto simp: byte_order_def strcmp_def lexord_irreflexive)
  from l_strcmp_lexicographic [OF this, of "[CHR ''a'', CHR 0x00, CHR ''b'']" "[CHR ''a'', CHR 0x00, CHR ''c'']"]
  obtain c where c: "l_strcmp strcmp [CHR ''a'', CHR 0x00, CHR ''b''] [CHR ''a'', CHR 0x00, CHR ''c''] = Inr c"
    "c < 0 \<longleftrightarrow> ([CHR ''a'', CHR 0x00, CHR ''b''], [CHR ''a'', CHR 0x00, CHR ''c'']) \<in> lexord byte_less" by blast
  have "uchar (CHR ''b'') < uchar (CHR ''c'')" by (simp add: uchar_def)
  then have "([CHR ''a'', CHR 0x00, CHR ''b''], [CHR ''a'', CHR 0x00, CHR ''c'']) \<in> lexord byte_less" by simp
  with c show ?thesis by blast
qed

text \<open>In a locale that holds strings of different lengths for equal, \<open>l_strcmp\<close> leaves the second string.\<close>

lemma l_strcmp_outside: "l_strcmp (\<lambda>a b. 0) (''ab'' @ [CHR 0x00]) ''a'' = Inl UNDEFINED"
  by (simp add: l_strcmp.simps)

end
