(* ===== verification/LuaVLemmas.thy ===== *)
theory LuaVLemmas
  imports LuaVM
begin

text \<open>
  Lemmas on computations that the proofs about the interpreter share: the moves on the stack, as functions on the
  list of its levels, and the functions that end in an error.
\<close>

section \<open>States that differ in the stack\<close>

definition put_stack :: "tvalue list \<Rightarrow> lua_State \<Rightarrow> lua_State" where
  "put_stack xs L = L\<lparr>L_uv := (L_uv L)\<lparr>stk := xs\<rparr>\<rparr>"

lemma put_stack_simps [simp]:
  "L_stack (put_stack xs L) = xs" "put_stack ys (put_stack xs L) = put_stack ys L" "L_base (put_stack xs L) = L_base L"
  "put_stack (L_stack L) L = L" "L_top (put_stack xs L) = L_top L"
  by (simp_all add: put_stack_def)

lemma getobj_put [simp]: "k < length xs \<Longrightarrow> getobj k (put_stack xs L) = Inr (xs ! k, put_stack xs L)"
  by (simp add: getobj_def)

lemma setobj_put [simp]: "k < length xs \<Longrightarrow> setobj k v (put_stack xs L) = Inr ((), put_stack (xs[k := v]) L)"
  by (simp add: setobj_def put_stack_def)

lemma moveobj_put [simp]:
  "k < length xs \<Longrightarrow> j < length xs \<Longrightarrow> moveobj k j (put_stack xs L) = Inr ((), put_stack (xs[k := xs ! j]) L)"
  by (simp add: moveobj_def)

lemma set_top_put [simp]: "set_top k (put_stack xs L) = Inr ((), put_stack xs (L\<lparr>L_top := k\<rparr>))"
  by (simp add: set_top_def put_stack_def)

text \<open>The levels \<open>a ..< b\<close> set to nil.\<close>

lemma each_nil:
  "a + n \<le> length xs \<Longrightarrow>
    eachV (\<lambda>k. setobj k TNil) [a..<a + n] (put_stack xs L) = Inr ((), put_stack (take a xs @ replicate n TNil @ drop (a + n) xs) L)"
proof (induction n arbitrary: a xs)
  case (Suc n)
  have "[a..<a + Suc n] = a # [Suc a..<Suc a + n]" by (simp add: upt_conv_Cons)
  moreover have "eachV (\<lambda>k. setobj k TNil) [Suc a..<Suc a + n] (put_stack (xs[a := TNil]) L)
      = Inr ((), put_stack (take (Suc a) (xs[a := TNil]) @ replicate n TNil @ drop (Suc a + n) (xs[a := TNil])) L)"
    using Suc.prems by (intro Suc.IH) simp
  moreover have "take (Suc a) (xs[a := TNil]) = take a xs @ [TNil]" using Suc.prems by (simp add: take_Suc_conv_app_nth)
  ultimately show ?case using Suc.prems by (simp add: thenV_def bindV_def)
qed simp

lemma eachV_append: "eachV f (xs @ ys) = thenV (eachV f xs) (eachV f ys)"
  by (induction xs) (auto simp: thenV_def bindV_def fun_eq_iff split: sum.splits)

lemma eachV_snoc: "eachV f xs M = Inr ((), M1) \<Longrightarrow> f y M1 = Inr ((), M2) \<Longrightarrow> eachV f (xs @ [y]) M = Inr ((), M2)"
  by (simp add: eachV_append thenV_def bindV_def)

section \<open>Errors\<close>

text \<open>An error leaves the function: what comes after it is not executed.\<close>

lemma bind_errormsg: "bindV (luaG_errormsg call) f L = luaG_errormsg call L"
  by (auto simp: luaG_errormsg_def luaD_throw_def bindV_def thenV_def split: sum.splits prod.splits)

lemma bind_message:
  fixes f :: "'a \<Rightarrow> 'b V"
  shows "bindV (throw_message call m) f L = throw_message call m L"
proof -
  have "bindV (thenV (pushobj v) (luaG_errormsg call)) f L = thenV (pushobj v) (luaG_errormsg call :: 'b V) L" for v
  proof (cases "pushobj v L")
    case (Inr p)
    then obtain L1 where "pushobj v L = Inr ((), L1)" by (cases p) auto
    then have "bindV (thenV (pushobj v) (luaG_errormsg call)) f L = bindV (luaG_errormsg call) f L1"
      "thenV (pushobj v) (luaG_errormsg call :: 'b V) L = luaG_errormsg call L1" by (simp_all add: bindV_def thenV_def)
    then show ?thesis using bind_errormsg [of call f L1] by simp
  qed (simp add: bindV_def thenV_def)
  moreover have "bindV (stopV Undefined) f L = stopV Undefined L" by (simp add: bindV_def)
  ultimately show ?thesis unfolding throw_message_def by (auto split: symb.split lua_error.split)
qed

lemma errormsg_stops: "\<exists>e s. luaG_errormsg call L = Inl (e, s)"
  by (auto simp: luaG_errormsg_def luaD_throw_def bindV_def thenV_def split: sum.splits prod.splits)

lemma message_stops: "\<exists>e s. throw_message call m L = Inl (e, s)"
  unfolding throw_message_def
  by (auto simp: thenV_def bindV_def errormsg_stops split: symb.split lua_error.split sum.split)

lemma bind_typeerror: "bindV (typeerror call o' opn) f L = typeerror call o' opn L"
  using bind_message by (simp add: typeerror_def bindV_def)

end
