(* ===== verification/LuaConcat.thy ===== *)
theory LuaConcat
  imports LuaVLemmas
begin

text \<open>
  \<open>luaV_concat\<close> on strings and numbers: however it groups them into passes, and although it converts the numbers
  in place, the result is the concatenation of the strings of all operands.
\<close>

section \<open>Conversions in place\<close>

lemma tostring_put:
  assumes "k < length xs" "tolstring (xs ! k) = Some s"
  shows "tostring_at k (put_stack xs L) = Inr (True, put_stack (xs[k := TString s]) L)"
proof (cases "xs ! k")
  case (TString t)
  then have "xs[k := TString t] = xs" by (metis list_update_id)
  with TString show ?thesis using assms by (auto simp: tostring_at_def ttisstring_def tolstring_def)
next
  case (TNumber n)
  then show ?thesis using assms by (simp add: tostring_at_def ttisstring_def tolstring_def luaV_tostring_def)
qed (use assms in \<open>simp_all add: tolstring_def luaV_tostring_def\<close>)

lemma svalue_put: "k < length xs \<Longrightarrow> xs ! k = TString s \<Longrightarrow> svalue k (put_stack xs L) = Inr (s, put_stack xs L)"
  by (simp add: svalue_def)

section \<open>One pass\<close>

definition string_of :: "tvalue \<Rightarrow> string" where
  "string_of v = (case tolstring v of Some s \<Rightarrow> s | None \<Rightarrow> [])"

abbreviation stringy :: "tvalue \<Rightarrow> bool" where
  "stringy v \<equiv> tolstring v \<noteq> None"

lemma tolstring_stringy: "stringy v \<Longrightarrow> tolstring v = Some (string_of v)"
  by (auto simp: string_of_def)

lemma string_of_TString [simp]: "string_of (TString s) = s"
  by (simp add: string_of_def tolstring_def)

abbreviation bytes :: "tvalue list \<Rightarrow> int" where
  "bytes vs \<equiv> int (length (concat (map string_of vs)))"

text \<open>The operands that are left go down to level \<open>length pre\<close>; \<open>ws\<close> are the strings above them.\<close>

lemma collect_all:
  assumes "\<forall>v \<in> set us. stringy v" "bytes us + sz < MAX_SIZET" "0 \<le> sz"
  shows "collect call (length pre + length us + length ws) (length us) (length ws) sz (put_stack (pre @ us @ map TString ws @ post) L)
    = Inr ((length us + length ws, sz + bytes us), put_stack (pre @ map (TString \<circ> string_of) us @ map TString ws @ post) L)"
  using assms
proof (induction us arbitrary: ws sz rule: rev_induct)
  case (snoc u us)
  let ?k = "length pre + length us"
  let ?xs = "pre @ (us @ [u]) @ map TString ws @ post"
  let ?ys = "pre @ us @ map TString (string_of u # ws) @ post"
  have k: "length pre + length (us @ [u]) + length ws - length ws - 1 = ?k" by simp
  have u: "?xs ! ?k = u" "?xs[?k := TString (string_of u)] = ?ys"
    by (simp_all add: nth_append list_update_append)
  have "tostring_at ?k (put_stack ?xs L) = Inr (True, put_stack ?ys L)"
    using tostring_put [of ?k ?xs "string_of u" L] snoc.prems(1) u tolstring_stringy [of u] by simp
  moreover have "svalue ?k (put_stack ?ys L) = Inr (string_of u, put_stack ?ys L)"
    by (rule svalue_put) (simp_all add: nth_append)
  moreover have "\<not> MAX_SIZET - sz \<le> int (length (string_of u))" using snoc.prems(2) by simp
  ultimately have "collect call (length pre + length (us @ [u]) + length ws) (length (us @ [u])) (length ws) sz (put_stack ?xs L)
      = collect call (length pre + length us + length (string_of u # ws)) (length us) (length (string_of u # ws))
          (sz + int (length (string_of u))) (put_stack ?ys L)"
    using k by simp
  also have "\<dots> = Inr ((length us + length (string_of u # ws), sz + int (length (string_of u)) + bytes us),
      put_stack (pre @ map (TString \<circ> string_of) us @ map TString (string_of u # ws) @ post) L)"
    using snoc.prems by (intro snoc.IH) auto
  also have "\<dots> = Inr ((length (us @ [u]) + length ws, sz + bytes (us @ [u])),
      put_stack (pre @ map (TString \<circ> string_of) (us @ [u]) @ map TString ws @ post) L)"
    by simp
  finally show ?case .
qed simp

lemma copy_all:
  "copy_strings (length pre + length ws) (length ws) buffer (put_stack (pre @ map TString ws @ post) L)
    = Inr (buffer @ concat ws, put_stack (pre @ map TString ws @ post) L)"
proof (induction ws arbitrary: pre buffer)
  case (Cons w ws)
  let ?xs = "pre @ map TString (w # ws) @ post"
  have "svalue (length pre) (put_stack ?xs L) = Inr (w, put_stack ?xs L)"
    by (rule svalue_put) (simp_all add: nth_append)
  with Cons.IH [of "pre @ [TString w]" "buffer @ w"] show ?case by simp
qed simp

text \<open>Two operands or more: the pass joins all of them, unless the last one is the empty string.\<close>

lemma pass_strings:
  assumes s: "\<forall>v \<in> set (us @ [u, v]). stringy v" and size: "bytes (us @ [u, v]) < MAX_SIZET"
    and top: "top' = length pre + length us + 2"
  shows "concat_pass call (length us + 2) top' (put_stack (pre @ us @ [u, v] @ post) L) =
        (if string_of v = [] then Inr (2, put_stack (pre @ us @ TString (string_of u) # TString [] # post) L)
         else Inr (length us + 2, put_stack (pre @ TString (concat (map string_of (us @ [u, v]))) #
           tl (map (TString \<circ> string_of) (us @ [u, v])) @ post) L))"
proof -
  let ?k = "length pre + length us"
  let ?xs = "pre @ us @ [u, v] @ post"
  let ?ys = "pre @ us @ [TString (string_of u), TString (string_of v)] @ post"
  have t: "tostring_at ?k (put_stack ?xs L) = Inr (True, put_stack (pre @ us @ [TString (string_of u), v] @ post) L)"
    using tostring_put [of ?k ?xs "string_of u" L] s tolstring_stringy [of u] by (simp add: nth_append list_update_append)
  have "tostring_at (?k + 1) (put_stack (pre @ us @ [TString (string_of u), v] @ post) L) = Inr (True, put_stack ?ys L)"
    using tostring_put [of "?k + 1" "pre @ us @ [TString (string_of u), v] @ post" "string_of v" L] s tolstring_stringy [of v]
    by (simp add: nth_append list_update_append)
  with t have both: "tostring_two top' (put_stack ?xs L) = Inr (True, put_stack ?ys L)"
    by (simp add: top tostring_two_def)
  have v: "svalue (top' - 1) (put_stack ?ys L) = Inr (string_of v, put_stack ?ys L)"
    by (rule svalue_put) (simp_all add: top nth_append)
  show ?thesis
  proof (cases "string_of v = []")
    case True
    then have "concat_pass call (length us + 2) top' (put_stack ?xs L) = Inr (2, put_stack ?ys L)"
      using both v by (simp add: concat_pass_def)
    with True show ?thesis by simp
  next
    case False
    let ?us = "us @ [TString (string_of u)]"
    have "collect call (length pre + length ?us + length [string_of v]) (length ?us) (length [string_of v]) (int (length (string_of v)))
        (put_stack (pre @ ?us @ map TString [string_of v] @ post) L)
      = Inr ((length ?us + length [string_of v], int (length (string_of v)) + bytes ?us),
          put_stack (pre @ map (TString \<circ> string_of) ?us @ map TString [string_of v] @ post) L)"
      using s size by (intro collect_all) (auto simp: tolstring_def)
    then have c: "collect call top' (length us + 1) 1 (int (length (string_of v))) (put_stack ?ys L) =
        Inr ((length us + 2, int (length (string_of v)) + bytes ?us),
          put_stack (pre @ map TString (map string_of (us @ [u, v])) @ post) L)"
      by (simp add: top)
    have w: "copy_strings top' (length us + 2) [] (put_stack (pre @ map TString (map string_of (us @ [u, v])) @ post) L) =
        Inr (concat (map string_of (us @ [u, v])), put_stack (pre @ map TString (map string_of (us @ [u, v])) @ post) L)"
      using copy_all [of pre "map string_of (us @ [u, v])" "[]" post L] by (simp add: top)
    have "concat_pass call (length us + 2) top' (put_stack ?xs L) =
        Inr (length us + 2, put_stack ((pre @ map TString (map string_of (us @ [u, v])) @ post)
          [length pre := TString (concat (map string_of (us @ [u, v])))]) L)"
      using both v False c w by (simp add: concat_pass_def top)
    then show ?thesis using False by (cases us) (simp_all add: list_update_append)
  qed
qed

section \<open>All passes\<close>

lemma passes_strings:
  assumes "\<forall>v \<in> set vs. stringy v" "bytes vs < MAX_SIZET" "length vs = n + 2" "n < fuel"
    "L_base L + last' + 1 = length pre + length vs" "L_base L \<le> length pre"
  shows "\<exists>rest. length rest + 1 = length vs + length post \<and> drop (length vs - 1) rest = post
     \<and> concat_passes call fuel (length vs) last' (put_stack (pre @ vs @ post) L) =
        Inr ((), put_stack (pre @ TString (concat (map string_of vs)) # rest) L)"
  using assms
proof (induction n arbitrary: fuel vs last' post)
  case 0
  then obtain u v where vs: "vs = [u, v]" by (auto simp: length_Suc_conv numeral_2_eq_2)
  obtain f where f: "fuel = Suc f" using 0 by (cases fuel) auto
  from 0 vs have t: "Suc (L_base L + last') = length pre + 2" by simp
  note pass = pass_strings [of "[]" u v "length pre + 2" pre call post L]
  have ok: "\<forall>w \<in> set ([] @ [u, v]). stringy w" "bytes ([] @ [u, v]) < MAX_SIZET" using 0(1,2) vs by simp_all
  show ?case
  proof (cases "string_of v = []")
    case True
    with pass [OF ok] t show ?thesis unfolding f vs by (intro exI [of _ "TString [] # post"]) simp
  next
    case False
    with pass [OF ok] t show ?thesis unfolding f vs by (intro exI [of _ "TString (string_of v) # post"]) simp
  qed
next
  case (Suc n)
  then obtain vs1 v where vs1: "vs = vs1 @ [v]" by (cases vs rule: rev_cases) auto
  with Suc.prems(3) obtain us u where "vs1 = us @ [u]" by (cases vs1 rule: rev_cases) auto
  with vs1 Suc.prems(3) have vs: "vs = us @ [u, v]" and us: "length us = n + 1" by simp_all
  obtain f where f: "fuel = Suc f" "n < f" using Suc.prems(4) by (cases fuel) auto
  let ?t = "length pre + length us + 2"
  have ok: "\<forall>w \<in> set (us @ [u, v]). stringy w" "bytes (us @ [u, v]) < MAX_SIZET" using Suc.prems(1,2) vs by simp_all
  note pass = pass_strings [OF ok refl, where pre = pre and call = call and post = post and L = L]
  have t: "Suc (L_base L + last') = ?t" using Suc.prems(5) vs by simp
  show ?case
  proof (cases "string_of v = []")
    case False
    let ?rest = "tl (map (TString \<circ> string_of) (us @ [u, v])) @ post"
    have "length ?rest + 1 = length vs + length post" "drop (length vs - 1) ?rest = post" using vs by (cases us; simp)+
    moreover have "concat_passes call fuel (length vs) last' (put_stack (pre @ vs @ post) L)
        = Inr ((), put_stack (pre @ TString (concat (map string_of vs)) # ?rest) L)"
      using pass False t f vs by simp
    ultimately show ?thesis by blast
  next
    case True
    let ?vs = "us @ [TString (string_of u)]"
    have "\<exists>rest'. length rest' + 1 = length ?vs + length (TString [] # post) \<and> drop (length ?vs - 1) rest' = TString [] # post
      \<and> concat_passes call f (length ?vs) (last' - 1) (put_stack (pre @ ?vs @ TString [] # post) L)
        = Inr ((), put_stack (pre @ TString (concat (map string_of ?vs)) # rest') L)"
      using Suc.prems(1,2,5,6) vs us f(2) by (intro Suc.IH) (auto simp: tolstring_def)
    then obtain rest' where r: "length rest' = length us + (length post + 1)" "drop (length us) rest' = TString [] # post"
      and go: "concat_passes call f (length us + 1) (last' - 1) (put_stack (pre @ ?vs @ TString [] # post) L)
        = Inr ((), put_stack (pre @ TString (concat (map string_of ?vs)) # rest') L)" by auto
    have "drop (Suc (length us)) rest' = post" using r(2) by (metis drop_Suc list.sel(3) tl_drop)
    moreover have "concat_passes call fuel (length vs) last' (put_stack (pre @ vs @ post) L)
        = Inr ((), put_stack (pre @ TString (concat (map string_of vs)) # rest') L)"
      using pass True go t vs f us by simp
    ultimately show ?thesis using r vs by (intro exI [of _ rest']) simp
  qed
qed

text \<open>C22: The concatenation of two or more strings and numbers gives the concatenation of their strings, at the level
of the first operand; the levels below it and above the operands keep their values, and nothing else in the state
changes. (The strings together have to be shorter than the largest size.)\<close>

theorem luaV_concat_strings:
  assumes "L_stack L = pre @ vs @ post" "2 \<le> length vs" "\<forall>v \<in> set vs. tolstring v \<noteq> None"
    and "int (length (concat (map string_of vs))) < MAX_SIZET"
    and "L_base L \<le> length pre" "L_base L + last' + 1 = length pre + length vs"
  shows "\<exists>rest. luaV_concat call (length vs) last' L =
      Inr ((), put_stack (pre @ TString (concat (map string_of vs)) # rest) L)
    \<and> length rest + 1 = length vs + length post \<and> drop (length vs - 1) rest = post"
proof -
  obtain n where "length vs = n + 2" using assms(2) by (metis add.commute le_Suc_ex)
  from passes_strings [OF assms(3,4) this, of "Suc (length vs)" L last' pre post call] assms(5,6) this
    assms(1) [symmetric] show ?thesis
    unfolding luaV_concat_def by (auto simp: put_stack_simps(4))
qed

theorem luaV_concat_strings_witness:
  "\<exists>rest. luaV_concat (\<lambda>f n. returnV ()) 3 2
       (put_stack [TNil, TFunction 1, TString ''a'', TNumber (cast_num 7), TString ''b'', TNil] (one_frame luaF_newproto)) =
     Inr ((), put_stack ([TNil, TFunction 1] @ TString ''a7b'' # rest) (one_frame luaF_newproto))"
proof -
  let ?vs = "[TString ''a'', TNumber (cast_num 7), TString ''b'']"
  have n: "lua_number2str (cast_num 7) = ''7''" by code_simp
  then have s: "\<forall>v \<in> set ?vs. tolstring v \<noteq> None" "concat (map string_of ?vs) = ''a7b''"
    by (simp_all add: tolstring_def string_of_def luaV_tostring_def)
  have b: "L_base (one_frame luaF_newproto) = 2" by (simp add: one_frame_def)
  have "MAX_SIZET > 3" by (simp add: MAX_SIZET_def)
  with luaV_concat_strings [of "put_stack ([TNil, TFunction 1] @ ?vs @ [TNil]) (one_frame luaF_newproto)" "[TNil, TFunction 1]" ?vs "[TNil]" 2]
  show ?thesis using s b by (auto simp: numeral_3_eq_3)
qed

end
