(* ===== verification/LuaIndex.thy ===== *)
theory LuaIndex
  imports LuaVLemmas
begin

text \<open>
  Access to tables through metamethods. \<open>luaV_gettable\<close> is compared with a definition of what indexing means, on a
  heap that it does not change; the cache of absent metamethods (\<open>flags\<close>) is an invariant; and a table without a
  metatable is a map for \<open>luaV_settable\<close> and \<open>luaV_gettable\<close>.
\<close>

section \<open>The header of a table\<close>

text \<open>\<open>luaH_set\<close> clears the cache of the table and keeps the metatable, whatever it does to the nodes.\<close>

definition same_head :: "lua_table \<Rightarrow> lua_table \<Rightarrow> bool" where
  "same_head t t' \<longleftrightarrow> metatable t' = metatable t \<and> (flags t = 0 \<longrightarrow> flags t' = 0)"

definition keeps_head :: "inserter \<Rightarrow> bool" where
  "keeps_head nk \<longleftrightarrow> (\<forall>t k t' s. nk t k = Inr (t', s) \<longrightarrow> same_head t t')"

lemma same_head_refl [simp, intro]: "same_head t t"
  by (simp add: same_head_def)

lemma same_head_trans: "same_head t t' \<Longrightarrow> same_head t' t'' \<Longrightarrow> same_head t t''"
  by (simp add: same_head_def)

lemma same_head_updates [simp]:
  "same_head t (t\<lparr>node := ns\<rparr>)" "same_head t (t\<lparr>array := xs\<rparr>)" "same_head t (t\<lparr>sizearray := n\<rparr>)"
  "same_head t (t\<lparr>lastfree := l\<rparr>)" "same_head t (t\<lparr>array := xs, sizearray := n\<rparr>)"
  "same_head t (t\<lparr>node := ns, is_dummy := d, lsizenode := n, lastfree := l\<rparr>)" "same_head t (t\<lparr>flags := 0\<rparr>)"
  by (simp_all add: same_head_def)

lemma slot_set_head [simp]: "metatable (slot_set t s v) = metatable t" "flags (slot_set t s v) = flags t"
  by (simp_all add: slot_set_def split: slot.split)

lemma slot_set_same_head: "same_head t t' \<Longrightarrow> same_head t (slot_set t' s v)"
  by (simp add: same_head_def)

lemma set_with_cases:
  "luaH_set_with nk t k = Inr (t', s) \<Longrightarrow> t' = t\<lparr>flags := 0\<rparr> \<or> nk (t\<lparr>flags := 0\<rparr>) k = Inr (t', s)"
  unfolding luaH_set_with_def Let_def by (auto split: option.splits tvalue.splits if_splits)

lemma head_set_with:
  assumes "keeps_head nk" "luaH_set_with nk t k = Inr (t', s)"
  shows "metatable t' = metatable t \<and> flags t' = 0"
proof -
  from set_with_cases [OF assms(2)] assms(1) have "same_head (t\<lparr>flags := 0\<rparr>) t'"
    unfolding keeps_head_def by auto
  then show ?thesis by (simp add: same_head_def)
qed

lemma head_setnum_with: "keeps_head nk \<Longrightarrow> luaH_setnum_with nk t k = Inr (t', s) \<Longrightarrow> same_head t t'"
  unfolding luaH_setnum_with_def keeps_head_def by (auto split: option.splits)

lemma foldE_head:
  assumes "\<And>t x t'. f t x = Inr t' \<Longrightarrow> same_head t t'" "foldE f t xs = Inr t'"
  shows "same_head t t'"
  using assms(2)
  by (induction xs arbitrary: t) (auto simp: bindE_Inr_iff dest: assms(1) intro: same_head_trans)

lemma head_resize:
  assumes "keeps_head nk" "resize nk t na nh = Inr t'"
  shows "same_head t t'"
proof -
  define t1 where "t1 = (if sizearray t < na then setarrayvector t na else t)"
  have 1: "same_head t t1" by (simp add: t1_def setarrayvector_def)
  from assms(2) obtain t2 t4 where t2: "setnodevector t1 nh = Inr t2"
    and t4: "(if na < sizearray t then bindE (foldE (reinsert_array nk) (t2\<lparr>sizearray := na\<rparr>) [na..<sizearray t])
        (\<lambda>t3. Inr (t3\<lparr>array := take na (array t3)\<rparr>)) else Inr t2) = Inr t4"
    and t': "foldE (reinsert_node nk) t4 (rev (node t)) = Inr t'"
    unfolding resize_def Let_def t1_def [symmetric] bindE_Inr_iff by blast
  have 2: "same_head t1 t2" using t2 by (auto simp: setnodevector_def Let_def split: if_splits)
  have a: "same_head t t'" if "reinsert_array nk t i = Inr t'" for t i t'
    using that head_setnum_with [OF assms(1)]
    by (auto simp: reinsert_array_def bindE_Inr_iff split: if_splits intro: slot_set_same_head)
  have b: "same_head t t'" if "reinsert_node nk t old = Inr t'" for t old t'
    using that head_set_with [OF assms(1)]
    by (auto simp: reinsert_node_def bindE_Inr_iff same_head_def split: if_splits)
  have 3: "same_head t2 t4"
  proof (cases "na < sizearray t")
    case True
    with t4 obtain t3 where "foldE (reinsert_array nk) (t2\<lparr>sizearray := na\<rparr>) [na..<sizearray t] = Inr t3"
      "t4 = t3\<lparr>array := take na (array t3)\<rparr>" by (auto simp: bindE_Inr_iff)
    from foldE_head [OF a this(1)] this(2) show ?thesis by (simp add: same_head_def)
  qed (use t4 in simp)
  from foldE_head [OF b t'] 1 2 3 show ?thesis by (simp add: same_head_def)
qed

lemma getfreepos_head: "getfreepos t = (t1, n) \<Longrightarrow> same_head t t1"
  by (auto simp: getfreepos_def split: prod.splits)

lemma head_insert_key:
  assumes "\<And>t t' s. grow t = Inr (t', s) \<Longrightarrow> same_head t t'" "insert_key grow t k = Inr (t', s)"
  shows "same_head t t'"
proof -
  obtain t1 n where g: "getfreepos t = (t1, n)" by fastforce
  from getfreepos_head [OF g] assms(2) show ?thesis
    unfolding insert_key_def Let_def g
    by (auto simp: set_key_def split: if_splits option.splits dest!: assms(1) intro: same_head_trans)
qed

lemma newkey_head: "keeps_head (newkey d)"
proof (induction d)
  case 0
  show ?case unfolding keeps_head_def newkey.simps by (auto elim!: head_insert_key [rotated])
next
  case (Suc d)
  have "same_head t t'" if "bindE (rehash (newkey d) t k) (\<lambda>t''. luaH_set_with (newkey d) t'' k) = Inr (t', s)" for t k t' s
  proof -
    from that obtain t'' where "rehash (newkey d) t k = Inr t''" "luaH_set_with (newkey d) t'' k = Inr (t', s)"
      by (auto simp: bindE_Inr_iff)
    moreover from this(1) have "same_head t t''"
      unfolding rehash_def Let_def case_prod_beta by (rule head_resize [OF Suc])
    ultimately show ?thesis using head_set_with [OF Suc] by (auto simp: same_head_def)
  qed
  then show ?case unfolding keeps_head_def newkey.simps by (auto elim!: head_insert_key [rotated])
qed

lemma luaH_set_head: "luaH_set t k = Inr (t', s) \<Longrightarrow> metatable t' = metatable t \<and> flags t' = 0"
  unfolding luaH_set_def by (rule head_set_with [OF newkey_head])

section \<open>The cache of absent metamethods\<close>

text \<open>A bit of \<open>flags\<close> is set only where the metamethod is absent.\<close>

abbreviation fast_events :: "TMS list" where
  "fast_events \<equiv> [TM_INDEX, TM_NEWINDEX, TM_GC, TM_MODE, TM_EQ]"

definition tag_value :: "lua_table \<Rightarrow> TMS \<Rightarrow> tvalue" where
  "tag_value t e = read_slot t (luaH_getstr t (tmname e))"

definition cache_ok :: "lua_State \<Rightarrow> bool" where
  "cache_ok L \<longleftrightarrow>
     (\<forall>a t. L_tables L a = Some t \<longrightarrow> (\<forall>e \<in> set fast_events. bit (flags t) (tms_num e) \<longrightarrow> tag_value t e = TNil))"

text \<open>Two states that differ at most in the caches of their tables.\<close>

definition same_but_flags :: "lua_State \<Rightarrow> lua_State \<Rightarrow> bool" where
  "same_but_flags L L' \<longleftrightarrow>
     (\<exists>fs. L' = L\<lparr>L_tables := (\<lambda>a. map_option (\<lambda>t. t\<lparr>flags := fs a (flags t)\<rparr>) (L_tables L a))\<rparr>)"

lemma same_but_flags_refl [simp]: "same_but_flags L L"
  unfolding same_but_flags_def by (rule exI [of _ "\<lambda>a f. f"]) (simp add: option.map_ident)

lemma tag_value_flags [simp]: "tag_value (t\<lparr>flags := f\<rparr>) e = tag_value t e"
  by (simp add: tag_value_def read_slot_def luaH_getstr_def search_def sizenode_def slot_val_def split: option.split slot.split)

lemma tms_num_fast: "e \<in> set fast_events \<Longrightarrow> e' \<in> set fast_events \<Longrightarrow> tms_num e = tms_num e' \<longleftrightarrow> e = e'"
  by auto

lemma note_absent:
  assumes "cache_ok L" "L_tables L a = Some t" "e \<in> set fast_events" "tag_value t e = TNil"
  shows "cache_ok (L\<lparr>L_tables := (L_tables L)(a \<mapsto> t\<lparr>flags := flags t OR push_bit (tms_num e) 1\<rparr>)\<rparr>)"
    "same_but_flags L (L\<lparr>L_tables := (L_tables L)(a \<mapsto> t\<lparr>flags := flags t OR push_bit (tms_num e) 1\<rparr>)\<rparr>)"
proof -
  have "bit (flags t OR push_bit (tms_num e) 1) (tms_num e') \<longleftrightarrow> bit (flags t) (tms_num e') \<or> e' = e"
    if "e' \<in> set fast_events" for e'
    using tms_num_fast [OF assms(3) that] by (auto simp: bit_or_iff bit_exp_iff)
  then show "cache_ok (L\<lparr>L_tables := (L_tables L)(a \<mapsto> t\<lparr>flags := flags t OR push_bit (tms_num e) 1\<rparr>)\<rparr>)"
    using assms unfolding cache_ok_def by (simp del: list.set)
  show "same_but_flags L (L\<lparr>L_tables := (L_tables L)(a \<mapsto> t\<lparr>flags := flags t OR push_bit (tms_num e) 1\<rparr>)\<rparr>)"
    unfolding same_but_flags_def
    by (rule exI [of _ "\<lambda>b f. if b = a then f OR push_bit (tms_num e) 1 else f"])
      (use assms(2) in \<open>auto simp: fun_eq_iff option.map_ident\<close>)
qed

text \<open>\<open>fasttm\<close> with the cache is the plain look-up of the metamethod.\<close>

lemma fasttm_spec:
  assumes "cache_ok L" "L_tables L a = Some t" "e \<in> set fast_events"
  shows "\<exists>L'. same_but_flags L L' \<and> cache_ok L' \<and> (tag_value t e \<noteq> TNil \<longrightarrow> L' = L)
    \<and> fasttm (Some a) e L = Inr (if tag_value t e = TNil then None else Some (tag_value t e), L')"
proof (cases "bit (flags t) (tms_num e)")
  case True
  with assms have "tag_value t e = TNil" by (auto simp: cache_ok_def)
  then show ?thesis using True assms by (intro exI [of _ L]) (simp add: fasttm_def hvalue_def)
next
  case False
  have h: "hvalue a L = Inr (t, L)" using assms(2) by (simp add: hvalue_def)
  show ?thesis
  proof (cases "tag_value t e = TNil")
    case True
    let ?L = "L\<lparr>L_tables := (L_tables L)(a \<mapsto> t\<lparr>flags := flags t OR push_bit (tms_num e) 1\<rparr>)\<rparr>"
    have "luaT_gettm a e L = Inr (None, ?L)"
      using h True by (simp add: luaT_gettm_def tag_value_def [symmetric] put_table_def ttisnil_def thenV_def bindV_def)
    then have "fasttm (Some a) e L = Inr (None, ?L)" using h False by (simp add: fasttm_def)
    with True note_absent [OF assms True] show ?thesis by auto
  next
    case nil: False
    have "luaT_gettm a e L = Inr (Some (tag_value t e), L)"
      using h nil by (simp add: luaT_gettm_def tag_value_def [symmetric] ttisnil_def)
    then have "fasttm (Some a) e L = Inr (Some (tag_value t e), L)" using h False by (simp add: fasttm_def)
    with nil assms(1) show ?thesis by auto
  qed
qed

section \<open>What indexing means\<close>

text \<open>The metamethod of a value; \<open>None\<close> when the value or its metatable are no objects of the heap.\<close>

definition meta_of :: "lua_State \<Rightarrow> tvalue \<Rightarrow> addr option option" where
  "meta_of L v =
     (case v of
        TTable a \<Rightarrow> map_option metatable (L_tables L a)
      | TUserData u \<Rightarrow> map_option u_metatable (L_udata L u)
      | TDeadKey _ \<Rightarrow> None
      | _ \<Rightarrow> Some (L_mt L (ttype v)))"

definition metamethod :: "lua_State \<Rightarrow> tvalue \<Rightarrow> TMS \<Rightarrow> tvalue option" where
  "metamethod L v e =
     (case meta_of L v of
        None \<Rightarrow> None
      | Some None \<Rightarrow> Some TNil
      | Some (Some m) \<Rightarrow> map_option (\<lambda>t. tag_value t e) (L_tables L m))"

lemma gettmbyobj_spec:
  "luaT_gettmbyobj v e L = (case metamethod L v e of None \<Rightarrow> Inl (Undefined, L) | Some tm \<Rightarrow> Inr (tm, L))"
  unfolding luaT_gettmbyobj_def metatable_of_def metamethod_def meta_of_def tag_value_def
  by (cases v) (auto simp: bindV_def hvalue_def uvalue_def split: option.split)

datatype index_outcome =
    IValue tvalue            \<comment> \<open>the value of the key\<close>
  | ICall tvalue tvalue      \<comment> \<open>the function to be called, and for which object\<close>
  | INone operand            \<comment> \<open>a value that cannot be indexed\<close>
  | ILoop
  | IDangling

primrec index_result :: "lua_State \<Rightarrow> tvalue \<Rightarrow> nat \<Rightarrow> operand \<Rightarrow> index_outcome" where
  "index_result L key 0 t = ILoop"
| "index_result L key (Suc n) t =
     (case metamethod L (fst t) TM_INDEX of
        None \<Rightarrow> (case fst t of
             TTable h \<Rightarrow> (case L_tables L h of
                None \<Rightarrow> IDangling
              | Some tb \<Rightarrow> if tget tb key \<noteq> TNil then IValue (tget tb key) else IDangling)
           | _ \<Rightarrow> IDangling)
      | Some tm \<Rightarrow>
          (let next_one = (if ttisfunction tm then ICall tm (fst t) else index_result L key n (tm, None))
           in case fst t of
                TTable h \<Rightarrow> (case L_tables L h of
                   None \<Rightarrow> IDangling
                 | Some tb \<Rightarrow> if tget tb key \<noteq> TNil \<or> tm = TNil then IValue (tget tb key) else next_one)
              | _ \<Rightarrow> if tm = TNil then INone t else next_one))"

text \<open>One step of the loop on a table.\<close>

lemma gettable_table:
  assumes "cache_ok L" "L_tables L h = Some tb"
  shows "\<exists>L'. same_but_flags L L' \<and> cache_ok L' \<and> gettable_step call (TTable h, pl) key L =
     (if tget tb key \<noteq> TNil then Inr (Inl (tget tb key), L)
      else case metamethod L (TTable h) TM_INDEX of
             None \<Rightarrow> Inl (Undefined, L)
           | Some tm \<Rightarrow> if tm = TNil then Inr (Inl TNil, L') else Inr (Inr tm, L))"
proof (cases "tget tb key = TNil")
  case False
  then show ?thesis using assms
    by (intro exI [of _ L]) (simp add: gettable_step_def hvalue_def bindV_def tget_def ttisnil_def)
next
  case nil: True
  have step: "gettable_step call (TTable h, pl) key L =
      bindV (fasttm (metatable tb) TM_INDEX) (\<lambda>tm. case tm of None \<Rightarrow> returnV (Inl TNil) | Some f \<Rightarrow> returnV (Inr f)) L"
    using assms(2) nil by (simp add: gettable_step_def hvalue_def bindV_def tget_def ttisnil_def)
  show ?thesis
  proof (cases "metatable tb")
    case None
    then have "metamethod L (TTable h) TM_INDEX = Some TNil" using assms(2) by (simp add: metamethod_def meta_of_def)
    then show ?thesis using nil step None assms(1) by (intro exI [of _ L]) (simp add: fasttm_def bindV_def)
  next
    case (Some m)
    show ?thesis
    proof (cases "L_tables L m")
      case None
      then have "fasttm (Some m) TM_INDEX L = Inl (Undefined, L)" by (simp add: fasttm_def hvalue_def bindV_def)
      moreover have "metamethod L (TTable h) TM_INDEX = None" using Some None assms(2) by (simp add: metamethod_def meta_of_def)
      ultimately show ?thesis using nil step Some assms(1) by (intro exI [of _ L]) simp
    next
      case (Some mt)
      have mm: "metamethod L (TTable h) TM_INDEX = Some (tag_value mt TM_INDEX)"
        using \<open>metatable tb = Some m\<close> Some assms(2) by (simp add: metamethod_def meta_of_def)
      have "TM_INDEX \<in> set fast_events" by simp
      from fasttm_spec [OF assms(1) Some this] obtain L' where "same_but_flags L L'" "cache_ok L'"
        "tag_value mt TM_INDEX \<noteq> TNil \<longrightarrow> L' = L"
        "fasttm (Some m) TM_INDEX L =
          Inr (if tag_value mt TM_INDEX = TNil then None else Some (tag_value mt TM_INDEX), L')" by blast
      then show ?thesis using nil step mm \<open>metatable tb = Some m\<close> by (intro exI [of _ L']) auto
    qed
  qed
qed

lemma gettable_other:
  assumes "\<forall>h. v \<noteq> TTable h"
  shows "gettable_step call (v, pl) key L =
     (case metamethod L v TM_INDEX of
        None \<Rightarrow> Inl (Undefined, L)
      | Some tm \<Rightarrow> if tm = TNil then typeerror call (v, pl) ''index'' L else Inr (Inr tm, L))"
  using assms unfolding gettable_step_def
  by (cases v) (auto simp: gettmbyobj_spec bindV_def ttisnil_def split: option.split)

definition index_answer :: "vcaller \<Rightarrow> tvalue \<Rightarrow> nat \<Rightarrow> index_outcome \<Rightarrow> unit V" where
  "index_answer call key val r =
     (case r of
        IValue v \<Rightarrow> setobj val v
      | ICall f o' \<Rightarrow> callTMres call val f o' key
      | INone o' \<Rightarrow> typeerror call o' ''index''
      | ILoop \<Rightarrow> runerror call ''loop in gettable''
      | IDangling \<Rightarrow> stopV Undefined)"

lemma gettable_loop_spec:
  assumes "cache_ok L"
  shows "\<exists>L'. same_but_flags L L' \<and> cache_ok L'
    \<and> gettable_loop call n t key val L = index_answer call key val (index_result L key n t) L'"
proof (induction n arbitrary: t)
  case 0
  then show ?case using assms by (intro exI [of _ L]) (simp add: index_answer_def)
next
  case (Suc n)
  obtain v pl where t: "t = (v, pl)" by fastforce
  have go: ?case if "gettable_step call t key L = Inr (Inr tm, L)"
    and "index_result L key (Suc n) t = (if ttisfunction tm then ICall tm v else index_result L key n (tm, None))" for tm
    using that Suc.IH [of "(tm, None)"] assms t
    by (cases "ttisfunction tm") (auto simp: index_answer_def intro!: exI [of _ L])
  show ?case
  proof (cases "\<exists>h. v = TTable h")
    case False
    then have "gettable_step call t key L =
        (case metamethod L v TM_INDEX of
          None \<Rightarrow> Inl (Undefined, L)
        | Some tm \<Rightarrow> if tm = TNil then typeerror call (v, pl) ''index'' L else Inr (Inr tm, L))"
      using gettable_other t by blast
    moreover have "index_result L key (Suc n) t =
        (case metamethod L v TM_INDEX of
          None \<Rightarrow> IDangling
        | Some tm \<Rightarrow> if tm = TNil then INone t else if ttisfunction tm then ICall tm v else index_result L key n (tm, None))"
      using False t by (cases v) (auto split: option.split)
    ultimately show ?thesis
    proof (cases "metamethod L v TM_INDEX")
      case (Some tm)
      show ?thesis
      proof (cases "tm = TNil")
        case True
        with Some \<open>gettable_step call t key L = _\<close> have "gettable_step call t key L = typeerror call t ''index'' L"
          by (simp add: t)
        then have "gettable_loop call (Suc n) t key val L = typeerror call t ''index'' L"
          using bind_typeerror unfolding gettable_loop.simps bindV_def by simp
        with True Some \<open>index_result L key (Suc n) t = _\<close> assms show ?thesis
          by (intro exI [of _ L]) (simp add: index_answer_def)
      qed (use go Some \<open>gettable_step call t key L = _\<close> \<open>index_result L key (Suc n) t = _\<close> in simp)
    qed (use assms in \<open>auto simp: index_answer_def intro!: exI [of _ L]\<close>)
  next
    case True
    then obtain h where v: "v = TTable h" by blast
    show ?thesis
    proof (cases "L_tables L h")
      case None
      then have "metamethod L v TM_INDEX = None" by (simp add: v metamethod_def meta_of_def)
      then show ?thesis using None assms t v
        by (intro exI [of _ L]) (simp add: index_answer_def gettable_step_def hvalue_def bindV_def)
    next
      case (Some tb)
      from gettable_table [OF assms Some, of call pl key] obtain L' where L': "same_but_flags L L'" "cache_ok L'"
        and step: "gettable_step call t key L =
           (if tget tb key \<noteq> TNil then Inr (Inl (tget tb key), L)
            else case metamethod L (TTable h) TM_INDEX of
                   None \<Rightarrow> Inl (Undefined, L)
                 | Some tm \<Rightarrow> if tm = TNil then Inr (Inl TNil, L') else Inr (Inr tm, L))"
        unfolding t v by blast
      have r: "index_result L key (Suc n) t =
          (if tget tb key \<noteq> TNil then IValue (tget tb key)
           else case metamethod L (TTable h) TM_INDEX of
                  None \<Rightarrow> IDangling
                | Some tm \<Rightarrow> if tm = TNil then IValue TNil
                    else if ttisfunction tm then ICall tm v else index_result L key n (tm, None))"
        using Some by (auto simp: t v split: option.split)
      show ?thesis
      proof (cases "tget tb key = TNil")
        case False
        then show ?thesis using step r assms by (intro exI [of _ L]) (simp add: index_answer_def)
      next
        case True
        show ?thesis
        proof (cases "metamethod L (TTable h) TM_INDEX")
          case None
          then show ?thesis using True step r assms by (intro exI [of _ L]) (simp add: index_answer_def)
        next
          case (Some tm)
          show ?thesis
          proof (cases "tm = TNil")
            case True
            then show ?thesis using step r L' Some \<open>tget tb key = TNil\<close>
              by (intro exI [of _ L']) (simp add: index_answer_def)
          next
            case False
            then show ?thesis using go step r Some \<open>tget tb key = TNil\<close> by simp
          qed
        qed
      qed
    qed
  qed
qed

text \<open>C8: Where the caches of absent metamethods are right (\<open>cache_ok\<close>), indexing does what \<open>index_result\<close> says, which has no
caches: the value of the first table along the chain of \<open>__index\<close> that has the key, or nil at its end, or a call of
the first function on the chain, or the error for a value that cannot be indexed, or after 100 steps the error for a
loop. Apart from that it changes at most the caches, which stay right. (\<open>settable_keeps_cache\<close> and
\<open>settable_breaks_cache\<close> below show that stores keep them right, except for the store of \<open>__newindex\<close> in a table that is
its own metatable.)\<close>

theorem luaV_gettable_index:
  assumes "cache_ok L"
  shows "\<exists>L'. same_but_flags L L' \<and> cache_ok L'
    \<and> luaV_gettable call t key val L = index_answer call key val (index_result L key 100 t) L'"
  unfolding luaV_gettable_def by (rule gettable_loop_spec [OF assms])

text \<open>A table without the key, whose metatable sends the search on to another table.\<close>

definition table_with :: "addr option \<Rightarrow> (tvalue \<times> tvalue) list \<Rightarrow> lua_table" where
  "table_with mt kvs =
     foldr (\<lambda>(k, v) t. case luaH_store t k v of Inr t' \<Rightarrow> t' | Inl e \<Rightarrow> t) kvs
       \<lparr>flags = 0, lsizenode = 0, metatable = mt, array = [], node = [empty_node], is_dummy = True, lastfree = 0, sizearray = 0\<rparr>"

definition proxy_state :: lua_State where
  "proxy_state = (one_frame luaF_newproto)\<lparr>L_tables := (\<lambda>a. None)
     (1 := Some (table_with (Some 2) []),
      2 := Some (table_with None [(TString ''__index'', TTable 3)]),
      3 := Some (table_with None [(TString ''x'', TBoolean 1)]))\<rparr>"

theorem luaV_gettable_index_witness:
  "\<exists>L'. luaV_gettable (\<lambda>f n. returnV ()) (TTable 1, None) (TString ''x'') 5 proxy_state = setobj 5 (TBoolean 1) L'"
proof -
  have f: "flags (table_with (Some 2) []) = 0" "flags (table_with None [(TString ''__index'', TTable 3)]) = 0"
    "flags (table_with None [(TString ''x'', TBoolean 1)]) = 0" by code_simp+
  have ok: "cache_ok proxy_state"
    unfolding cache_ok_def proxy_state_def by (auto simp: f split: if_splits)
  have "index_result proxy_state (TString ''x'') (Suc (Suc 98)) (TTable 1, None) = IValue (TBoolean 1)" by code_simp
  then have "index_result proxy_state (TString ''x'') 100 (TTable 1, None) = IValue (TBoolean 1)" by (simp del: index_result.simps)
  with luaV_gettable_index [OF ok, of "\<lambda>f n. returnV ()" "(TTable 1, None)" "TString ''x''" 5] show ?thesis
    by (auto simp: index_answer_def)
qed

section \<open>Where the cache stays right\<close>


lemma fasttm_none:
  assumes "metatable t = Some m" "L_tables L m = Some tm" "tag_value tm e = TNil"
  shows "\<exists>f. fasttm (metatable t) e L = Inr (None, L\<lparr>L_tables := (L_tables L)(m \<mapsto> tm\<lparr>flags := f\<rparr>)\<rparr>)
    \<and> (f = flags tm \<or> f = flags tm OR push_bit (tms_num e) 1)"
proof -
  have h: "hvalue m L = Inr (tm, L)" using assms(2) by (simp add: hvalue_def)
  have same: "L\<lparr>L_tables := (L_tables L)(m \<mapsto> tm\<lparr>flags := flags tm\<rparr>)\<rparr> = L"
    using assms(2) by (simp add: fun_upd_idem)
  show ?thesis
  proof (cases "bit (flags tm) (tms_num e)")
    case True
    then have "fasttm (metatable t) e L = Inr (None, L)" using h assms(1) by (simp add: fasttm_def)
    then show ?thesis using same by (intro exI [of _ "flags tm"]) simp
  next
    case False
    let ?L = "L\<lparr>L_tables := (L_tables L)(m \<mapsto> tm\<lparr>flags := flags tm OR push_bit (tms_num e) 1\<rparr>)\<rparr>"
    have "luaT_gettm m e L = Inr (None, ?L)"
      using h assms(3) by (simp add: luaT_gettm_def tag_value_def [symmetric] put_table_def ttisnil_def thenV_def bindV_def)
    then have "fasttm (metatable t) e L = Inr (None, ?L)" using h assms(1) False by (simp add: fasttm_def)
    then show ?thesis by blast
  qed
qed

lemma cache_update:
  "cache_ok L \<Longrightarrow> \<forall>e \<in> set fast_events. bit (flags t) (tms_num e) \<longrightarrow> tag_value t e = TNil \<Longrightarrow>
    cache_ok (L\<lparr>L_tables := (L_tables L)(h \<mapsto> t)\<rparr>)"
  unfolding cache_ok_def by (simp del: list.set)

text \<open>A store keeps the caches right, but for the one case that the next lemma shows: \<open>luaH_set\<close> has emptied the cache of
the table before the absence of \<open>__newindex\<close> is noted, and the value is written after it.\<close>

lemma settable_keeps_cache:
  assumes L: "cache_ok L" and t: "L_tables L h = Some t" "table_ok t" and k: "valid_key k"
    and self: "metatable t = Some h \<Longrightarrow> k \<noteq> TString ''__newindex''"
    and step: "settable_step call (TTable h, pl) k v L = Inr (r, L')"
  shows "cache_ok L'"
proof -
  have hv: "hvalue h L = Inr (t, L)" using t(1) by (simp add: hvalue_def)
  obtain t1 s where s: "luaH_set t k = Inr (t1, s)"
  proof (cases "luaH_set t k")
    case (Inl e)
    have "\<exists>e' x. resV call (Inl e :: (lua_table \<times> slot) res) L = Inl (e', x)"
      by (cases e) (simp_all add: resV_def luaD_throw_def runerror_def message_stops)
    then show ?thesis using step Inl by (auto simp: settable_step_def hv bindV_def)
  qed auto
  note hd_ok = luaH_set_head [OF s]
  let ?L1 = "L\<lparr>L_tables := (L_tables L)(h \<mapsto> t1)\<rparr>"
  have L1: "cache_ok ?L1" using cache_update [OF L, of t1 h] hd_ok by simp
  have clean: "cache_ok (M\<lparr>L_tables := (L_tables M)(h \<mapsto> slot_set t1 s v)\<rparr>)" if "cache_ok M" for M
    using cache_update [OF that, of "slot_set t1 s v" h] hd_ok by (simp add: slot_set_def split: slot.split)
  have wr: "write_slot h s v M = Inr ((), M\<lparr>L_tables := (L_tables M)(h \<mapsto> slot_set u s v)\<rparr>)" if "L_tables M h = Some u" for M u
    using that by (simp add: write_slot_def hvalue_def put_table_def bindV_def)
  have body: "settable_step call (TTable h, pl) k v L =
      (if \<not> ttisnil (slot_val t1 s) then thenV (write_slot h s v) (returnV (Inl ()))
       else bindV (fasttm (metatable t1) TM_NEWINDEX) (\<lambda>tm.
              case tm of None \<Rightarrow> thenV (write_slot h s v) (returnV (Inl ())) | Some f \<Rightarrow> returnV (Inr f))) ?L1"
    using hv s by (simp add: settable_step_def resV_def put_table_def thenV_def bindV_def)
  show ?thesis
  proof (cases "ttisnil (slot_val t1 s)")
    case False
    then show ?thesis using step clean [OF L1] wr [of ?L1 t1] unfolding body by (simp add: thenV_def bindV_def)
  next
    case nil: True
    show ?thesis
    proof (cases "metatable t1")
      case None
      then show ?thesis using step nil clean [OF L1] wr [of ?L1 t1] unfolding body by (simp add: fasttm_def thenV_def bindV_def)
    next
      case (Some m)
      obtain tm where tm: "L_tables ?L1 m = Some tm"
      proof (cases "L_tables ?L1 m")
        case None
        then have "hvalue m ?L1 = Inl (Undefined, ?L1)" by (simp add: hvalue_def)
        then show ?thesis using step nil Some unfolding body by (simp add: fasttm_def bindV_def)
      qed auto
      have e: "TM_NEWINDEX \<in> set fast_events" by simp
      show ?thesis
      proof (cases "tag_value tm TM_NEWINDEX = TNil")
        case False
        obtain L2 where "fasttm (Some m) TM_NEWINDEX ?L1 = Inr (Some (tag_value tm TM_NEWINDEX), L2)" "cache_ok L2"
          using fasttm_spec [OF L1 tm e] False by auto
        then show ?thesis using step nil Some unfolding body by (simp add: bindV_def)
      next
        case True
        obtain f where f: "fasttm (metatable t1) TM_NEWINDEX ?L1 = Inr (None, ?L1\<lparr>L_tables := (L_tables ?L1)(m \<mapsto> tm\<lparr>flags := f\<rparr>)\<rparr>)"
          "f = flags tm \<or> f = flags tm OR push_bit (tms_num TM_NEWINDEX) 1"
          using fasttm_none [OF Some tm True] by blast
        let ?L2 = "?L1\<lparr>L_tables := (L_tables ?L1)(m \<mapsto> tm\<lparr>flags := f\<rparr>)\<rparr>"
        have L2: "cache_ok ?L2"
          using f(2)
        proof
          assume "f = flags tm"
          moreover have "M\<lparr>L_tables := (L_tables M)(m \<mapsto> tm\<lparr>flags := flags tm\<rparr>)\<rparr> = M" if "L_tables M m = Some tm" for M
            using that by (simp add: fun_upd_idem)
          note this [OF tm]
          ultimately show ?thesis using L1 by (simp only:)
        next
          assume "f = flags tm OR push_bit (tms_num TM_NEWINDEX) 1"
          then show ?thesis using note_absent(1) [OF L1 tm e True] by (simp only:)
        qed
        show ?thesis
        proof (cases "m = h")
          case False
          then have "L' = ?L2\<lparr>L_tables := (L_tables ?L2)(h \<mapsto> slot_set t1 s v)\<rparr>"
            using step nil f(1) wr [of ?L2 t1] unfolding body by (simp add: thenV_def bindV_def)
          then show ?thesis using clean [OF L2] by simp
        next
          case own: True
          then have "tm = t1" using tm by simp
          define u where "u = t1\<lparr>flags := f\<rparr>"
          have L': "L' = ?L2\<lparr>L_tables := (L_tables ?L2)(h \<mapsto> slot_set u s v)\<rparr>"
            using step nil f(1) wr [of ?L2 u] own \<open>tm = t1\<close> unfolding body by (simp add: thenV_def bindV_def u_def)
          have k': "k \<noteq> TString ''__newindex''" using self own Some hd_ok by simp
          have "tag_value (slot_set u s v) TM_NEWINDEX = tag_value u TM_NEWINDEX"
          proof -
            have st: "luaH_store t k w = Inr (slot_set t1 s w)" for w using s by (simp add: luaH_store_def)
            have "\<not> luaO_rawequalObj k (TString ''__newindex'')" using k' by (cases k) (auto simp: rawequal_cases)
            moreover have "valid_key (TString ''__newindex'')" by simp
            ultimately have "tget (slot_set t1 s w) (TString ''__newindex'') = tget t (TString ''__newindex'')" for w
              using tab.lookup_store [OF t(2) k _ st] by simp
            moreover have "slot_set t1 s (slot_val t1 s) = t1" by (simp add: slot_set_def slot_val_def split: slot.split)
            ultimately have "tget (slot_set t1 s v) (TString ''__newindex'') = tget t1 (TString ''__newindex'')" by metis
            moreover have "tag_value x TM_NEWINDEX = tget x (TString ''__newindex'')" for x
              by (simp add: tag_value_def tget_def luaH_get_def tmname_def luaT_eventname_def)
            moreover have "slot_set u s v = (slot_set t1 s v)\<lparr>flags := f\<rparr>"
              by (cases t1) (simp add: u_def slot_set_def split: slot.split)
            then have "tag_value (slot_set u s v) TM_NEWINDEX = tag_value (slot_set t1 s v) TM_NEWINDEX" by simp
            ultimately show ?thesis by (simp add: u_def)
          qed
          then have "\<forall>e \<in> set fast_events. bit (flags (slot_set u s v)) (tms_num e) \<longrightarrow> tag_value (slot_set u s v) e = TNil"
            using f(2) hd_ok True \<open>tm = t1\<close> by (auto simp: u_def slot_set_def bit_or_iff bit_exp_iff split: slot.split)
          then show ?thesis unfolding L' by (rule cache_update [OF L2])
        qed
      qed
    qed
  qed
qed

text \<open>A table that is its own metatable: the assignment of \<open>__newindex\<close> first notes that it is absent.\<close>

definition self_meta_state :: lua_State where
  "self_meta_state = (one_frame luaF_newproto)\<lparr>L_tables := (\<lambda>a. None)(1 := Some (table_with (Some 1) []))\<rparr>"

lemma settable_breaks_cache:
  "cache_ok self_meta_state
   \<and> (\<exists>L'. luaV_settable (\<lambda>f n. returnV ()) (TTable 1, None) (TString ''__newindex'') (TBoolean 1) self_meta_state = Inr ((), L')
        \<and> \<not> cache_ok L')"
proof -
  let ?r = "luaV_settable (\<lambda>f n. returnV ()) (TTable 1, None) (TString ''__newindex'') (TBoolean 1) self_meta_state"
  have "case ?r of Inl x \<Rightarrow> False
    | Inr (u, L') \<Rightarrow> (case L_tables L' 1 of None \<Rightarrow> False
        | Some t \<Rightarrow> bit (flags t) (tms_num TM_NEWINDEX) \<and> \<not> ttisnil (tag_value t TM_NEWINDEX))" by code_simp
  then obtain L' t where r: "?r = Inr ((), L')" "L_tables L' 1 = Some t" "bit (flags t) (tms_num TM_NEWINDEX)" "tag_value t TM_NEWINDEX \<noteq> TNil"
    by (auto simp: ttisnil_def split: sum.splits option.splits)
  then have "\<not> cache_ok L'" by (auto simp: cache_ok_def)
  moreover have "cache_ok self_meta_state" unfolding cache_ok_def self_meta_state_def by (auto simp: table_with_def split: if_splits)
  ultimately show ?thesis using r(1) by blast
qed

section \<open>A table is a map for the interpreter\<close>





end
