(* ===== verification/LuaCalls.thy ===== *)
theory LuaCalls
  imports LuaVLemmas LuaExec
begin

text \<open>
  How calls pass values: the results of a function are adjusted to the number that is wanted, the arguments to the
  parameters, and \<open>OP_VARARG\<close> finds the arguments that have no parameter.
\<close>

section \<open>Results\<close>

text \<open>The number of results that are moved: all of them when \<open>i\<close> is negative.\<close>

definition moved :: "nat \<Rightarrow> int \<Rightarrow> nat" where
  "moved m i = (if i < 0 then m else min m (nat i))"

lemma move_results_spec:
  assumes "res \<le> firstResult" "firstResult + m \<le> length xs"
  shows "move_results m i res firstResult (put_stack xs L) =
    Inr ((i - int (moved m i), res + moved m i),
      put_stack (take res xs @ take (moved m i) (drop firstResult xs) @ drop (res + moved m i) xs) L)"
  using assms
proof (induction m i res firstResult arbitrary: xs rule: move_results.induct)
  case (2 m i res firstResult)
  show ?case
  proof (cases "i = 0")
    case False
    let ?xs = "xs[res := xs ! firstResult]"
    have m: "moved (Suc m) i = Suc (moved m (i - 1))" using False by (auto simp: moved_def nat_diff_distrib)
    have "move_results m (i - 1) (res + 1) (firstResult + 1) (put_stack ?xs L) =
      Inr ((i - 1 - int (moved m (i - 1)), res + 1 + moved m (i - 1)),
        put_stack (take (res + 1) ?xs @ take (moved m (i - 1)) (drop (firstResult + 1) ?xs) @ drop (res + 1 + moved m (i - 1)) ?xs) L)"
      using 2(2,3) by (intro 2(1) False) auto
    moreover have "take (res + 1) ?xs = take res xs @ [xs ! firstResult]"
      using 2(2,3) by (simp add: take_Suc_conv_app_nth)
    moreover have "take (Suc n) (drop firstResult xs) = xs ! firstResult # take n (drop (Suc firstResult) xs)" for n
      using 2(3) by (simp add: Cons_nth_drop_Suc [symmetric])
    ultimately show ?thesis using False 2(2,3) m by simp
  qed (simp add: moved_def)
qed (simp add: moved_def)

definition adjusted :: "int \<Rightarrow> tvalue list \<Rightarrow> tvalue list" where
  "adjusted wanted vs =
     (if wanted = LUA_MULTRET then vs else take (nat wanted) (vs @ replicate (nat wanted) TNil))"

lemma adjusted_moved:
  assumes "- 1 \<le> w"
  shows "adjusted w vs = take (moved (length vs) w) vs @ replicate (nat (w - int (moved (length vs) w))) TNil"
proof (cases "w = - 1")
  case True
  then show ?thesis by (simp add: adjusted_def moved_def)
next
  case False
  with assms have "0 \<le> w" by simp
  then obtain n where n: "w = int n" by (rule nonneg_int_cases)
  have "nat (int n - int (min (length vs) n)) = n - length vs" by auto
  moreover have "take (min (length vs) n) vs = take n vs" by (simp add: min_def)
  ultimately show ?thesis unfolding n by (simp add: adjusted_def moved_def)
qed

text \<open>A state about to call a vararg function with two parameters, with \<open>n\<close> arguments.\<close>

definition vararg_proto :: Proto where
  "vararg_proto = Proto [] [] [] [] [] [] None 0 0 0 2 2 4"

definition called :: "nat \<Rightarrow> lua_State" where
  "called n = put_stack ([TNil, TFunction 1] @ [TBoolean 1, TBoolean 0, TNumber 1] @ replicate 40 TNil)
     ((one_frame vararg_proto)\<lparr>L_top := 2 + n\<rparr>)"

text \<open>C24: When a function returns, its results are at the level of the function, as many as the caller wants, with nil
for the missing ones (or all of them), the top is behind them, the levels below and above keep their values, and
the frame of the caller is in force again with its position and base.\<close>

theorem luaD_poscall_results:
  assumes ci: "L_ci L = ci # prev # rest" "- 1 \<le> fr_nresults ci" "fr_func ci \<le> firstResult"
    and top: "firstResult \<le> L_top L" "L_top L \<le> L_stacksize L"
    and vs: "vs = adjusted (fr_nresults ci) (drop firstResult (take (L_top L) (L_stack L)))"
      "fr_func ci + length vs \<le> L_stacksize L"
  shows "luaD_poscall firstResult L = Inr (fr_nresults ci \<noteq> - 1,
    put_stack (take (fr_func ci) (L_stack L) @ vs @ drop (fr_func ci + length vs) (L_stack L))
      (L\<lparr>L_ci := prev # rest, L_base := fr_base prev, L_savedpc := fr_savedpc prev, L_top := fr_func ci + length vs\<rparr>))"
proof -
  define w f xs m where "w = fr_nresults ci" and "f = fr_func ci" and "xs = L_stack L" and "m = L_top L - firstResult"
  note defs = w_def f_def xs_def m_def
  define k n where "k = moved m w" and "n = nat (w - int k)"
  define M where "M = L\<lparr>L_ci := prev # rest, L_base := fr_base prev, L_savedpc := fr_savedpc prev\<rparr>"
  let ?ys = "take f xs @ take k (drop firstResult xs) @ drop (f + k) xs"
  have M: "M = put_stack xs M" by (simp add: put_stack_def M_def xs_def)
  have k: "k \<le> m" by (simp add: k_def moved_def)
  have "length (drop firstResult (take (L_top L) xs)) = m" using top by (simp add: defs)
  with adjusted_moved [OF ci(2), of "drop firstResult (take (L_top L) xs)"]
  have v: "vs = take k (drop firstResult xs) @ replicate n TNil"
    using k unfolding vs(1) defs(1,3) [symmetric] k_def n_def by (simp add: drop_take m_def min_absorb1)
  have lk: "length (take k (drop firstResult xs)) = k" using top k by (simp add: defs)
  have lf: "length (take f xs) = f" using top ci(3) by (simp add: defs)
  have lv: "length vs = k + n" using v lk by simp
  have mv: "move_results m w f firstResult (put_stack xs M) = Inr ((w - int k, f + k), put_stack ?ys M)"
    using ci(3) top unfolding k_def by (intro move_results_spec) (auto simp: defs)
  have fk: "f + k \<le> L_top L" using k ci(3) top(1) by (simp add: defs)
  then have ly: "length ?ys = length xs" using lk lf top(2) by (simp add: xs_def)
  have fits: "f + k + n \<le> length xs" using vs(2) lv by (simp add: defs)
  have split: "take (f + k) ?ys = take f xs @ take k (drop firstResult xs)" "drop (f + k + n) ?ys = drop (f + k + n) xs"
    using lk lf by (simp_all add: add.commute)
  have "eachV (\<lambda>k. setobj k TNil) [f + k..<f + k + n] (put_stack ?ys M) =
      Inr ((), put_stack (take (f + k) ?ys @ replicate n TNil @ drop (f + k + n) ?ys) M)"
    using fits ly by (intro each_nil) simp
  also have "take (f + k) ?ys @ replicate n TNil @ drop (f + k + n) ?ys = take f xs @ vs @ drop (f + length vs) xs"
    unfolding split lv by (simp add: v add.assoc)
  finally have nils: "eachV (\<lambda>k. setobj k TNil) [f + k..<f + k + n] (put_stack ?ys M) =
      Inr ((), put_stack (take f xs @ vs @ drop (f + length vs) xs) M)" .
  have "luaD_poscall firstResult L = bindV (move_results m w f firstResult) (\<lambda>(i, res).
      thenV (eachV (\<lambda>k. setobj k TNil) [res..<res + nat i])
        (thenV (set_top (res + nat i)) (returnV (w \<noteq> LUA_MULTRET)))) M"
    by (simp add: luaD_poscall_def ci(1) thenV_def bindV_def M_def defs Let_def)
  also have "\<dots> = thenV (set_top (f + k + n)) (returnV (w \<noteq> LUA_MULTRET)) (put_stack (take f xs @ vs @ drop (f + length vs) xs) M)"
    using mv nils by (subst M) (simp add: bindV_def thenV_def n_def)
  finally show ?thesis
    by (simp add: lv M_def defs add.assoc bindV_def thenV_def)
qed

theorem luaD_poscall_results_witness:
  "luaD_poscall 4 (called 3) = Inr (False,
    put_stack ([TNil, TNumber 1] @ [TBoolean 1, TBoolean 0, TNumber 1] @ replicate 40 TNil)
      (called 3\<lparr>L_ci := drop 1 (L_ci (called 3)), L_base := 1, L_savedpc := 0, L_top := 2\<rparr>))"
proof -
  have ci: "L_ci (called 3) =
      \<lparr>fr_func = 1, fr_base = 2, fr_top = 6, fr_savedpc = 0, fr_nresults = - 1, fr_tailcalls = 0\<rparr> #
      \<lparr>fr_func = 0, fr_base = 1, fr_top = 21, fr_savedpc = 0, fr_nresults = 0, fr_tailcalls = 0\<rparr> # []"
    by (simp add: called_def one_frame_def vararg_proto_def put_stack_def)
  have st: "L_top (called 3) = 5" "L_stack (called 3) = [TNil, TFunction 1, TBoolean 1, TBoolean 0, TNumber 1] @ replicate 40 TNil"
    by (simp_all add: called_def)
  have vs: "drop 4 (take 5 ([TNil, TFunction 1, TBoolean 1, TBoolean 0, TNumber 1] @ replicate 40 TNil)) = [TNumber 1]"
    by (simp add: eval_nat_numeral)
  show ?thesis
    using luaD_poscall_results [OF ci, of 4 "[TNumber 1]"] vs unfolding st by (simp add: ci adjusted_def numeral_2_eq_2)
qed

section \<open>Arguments\<close>

lemma each_move:
  assumes "length p = F" "length us = n" "length ws = n" "B = F + n + length mid"
  shows "eachV (\<lambda>i. thenV (moveobj (B + i) (F + i)) (setobj (F + i) TNil)) [0..<n] (put_stack (p @ us @ mid @ ws @ q) L)
    = Inr ((), put_stack (p @ replicate n TNil @ mid @ us @ q) L)"
  using assms
proof (induction n arbitrary: us ws mid q B)
  case (Suc n)
  obtain us' u where us: "us = us' @ [u]" "length us' = n" using Suc.prems(2) by (cases us rule: rev_cases) auto
  obtain ws' w where ws: "ws = ws' @ [w]" "length ws' = n" using Suc.prems(3) by (cases ws rule: rev_cases) auto
  let ?xs = "p @ replicate n TNil @ (u # mid) @ us' @ (w # q)"
  have B: "B = F + n + length (u # mid)" using Suc.prems(4) by simp
  have 1: "eachV (\<lambda>i. thenV (moveobj (B + i) (F + i)) (setobj (F + i) TNil)) [0..<n] (put_stack (p @ us @ mid @ ws @ q) L)
      = Inr ((), put_stack ?xs L)"
    using Suc.IH [OF Suc.prems(1) us(2) ws(2) B, of "w # q"] us ws by simp
  have at: "?xs ! (F + n) = u" "?xs[B + n := u] = p @ replicate n TNil @ (u # mid) @ us' @ (u # q)"
    using Suc.prems(1) us(2) B by (simp_all add: nth_append list_update_append)
  have len: "B + n < length ?xs" "F + n < length ?xs" using Suc.prems(1) us(2) B by simp_all
  have "(p @ replicate n TNil @ (u # mid) @ us' @ (u # q))[F + n := TNil] = p @ replicate (Suc n) TNil @ mid @ us @ q"
    using Suc.prems(1) us(1) by (simp add: list_update_append replicate_append_same flip: replicate_app_Cons_same)
  then have "thenV (moveobj (B + n) (F + n)) (setobj (F + n) TNil) (put_stack ?xs L)
      = Inr ((), put_stack (p @ replicate (Suc n) TNil @ mid @ us @ q) L)"
    using len at by simp
  from eachV_snoc [OF 1 this] show ?case by simp
qed simp

lemma each_copy:
  assumes "S + n \<le> D" "D + n \<le> length xs"
  shows "eachV (\<lambda>j. moveobj (D + j) (S + j)) [0..<n] (put_stack xs L)
    = Inr ((), put_stack (take D xs @ take n (drop S xs) @ drop (D + n) xs) L)"
  using assms
proof (induction n)
  case (Suc n)
  let ?ys = "take D xs @ take n (drop S xs) @ drop (D + n) xs"
  have "?ys ! (S + n) = xs ! (S + n)" using Suc.prems by (simp add: nth_append)
  moreover have "?ys[D + n := xs ! (S + n)] = take D xs @ take (Suc n) (drop S xs) @ drop (D + Suc n) xs"
  proof -
    have "drop (D + n) xs = xs ! (D + n) # drop (D + Suc n) xs"
      using Suc.prems(2) by (simp add: Cons_nth_drop_Suc)
    then show ?thesis using Suc.prems by (simp add: list_update_append take_Suc_conv_app_nth min_absorb1)
  qed
  ultimately have "moveobj (D + n) (S + n) (put_stack ?ys L) = Inr ((), put_stack (take D xs @ take (Suc n) (drop S xs) @ drop (D + Suc n) xs) L)"
    using Suc.prems by simp
  moreover have "eachV (\<lambda>j. moveobj (D + j) (S + j)) [0..<n] (put_stack xs L) = Inr ((), put_stack ?ys L)"
    using Suc by simp
  ultimately show ?case using eachV_snoc by simp
qed simp

text \<open>The loops of \<open>adjust_varargs\<close>, given what each of them does.\<close>

lemma adjust_varargs_steps:
  assumes "L_top L = t" "B = t + n" "n = nf - a" "B - max a nf = F"
    and "pt_is_vararg p AND VARARG_NEEDSARG = 0" "nf = nat (pt_numparams p)"
    and "eachV (\<lambda>k. setobj k TNil) [t..<B] (put_stack xs L) = Inr ((), put_stack ys L)"
    and "\<And>M. eachV (\<lambda>i. thenV (moveobj (B + i) (F + i)) (setobj (F + i) TNil)) [0..<nf] (put_stack ys M) = Inr ((), put_stack zs M)"
  shows "adjust_varargs call p a (put_stack xs L) = Inr (B, put_stack zs (L\<lparr>L_top := B + nf\<rparr>))"
  using assms unfolding adjust_varargs_def Let_def assms(6) [symmetric] assms(3) [symmetric]
  by (simp add: assms(2) [symmetric])

lemma adjust_varargs_spec:
  assumes xs: "xs = pre @ f # args @ post" "L_top L = length pre + 1 + length args"
    and p: "pt_is_vararg p AND VARARG_NEEDSARG = 0" "nf = nat (pt_numparams p)"
    and room: "nf - length args + nf \<le> length post"
  shows "adjust_varargs call p (length args) (put_stack xs L) = Inr (length pre + 1 + max (length args) nf,
    put_stack (pre @ f # replicate nf TNil @ drop nf args @ take nf (args @ replicate nf TNil) @ drop (nf - length args + nf) post)
      (L\<lparr>L_top := length pre + 1 + max (length args) nf + nf\<rparr>))"
proof -
  define n t B where "n = nf - length args" and "t = length pre + 1 + length args" and "B = length pre + 1 + max (length args) nf"
  define us where "us = take nf (args @ replicate nf TNil)"
  define ys where "ys = (pre @ [f]) @ us @ drop nf args @ take nf (drop n post) @ drop (n + nf) post"
  define zs where "zs = (pre @ [f]) @ replicate nf TNil @ drop nf args @ us @ drop (n + nf) post"
  have "eachV (\<lambda>k. setobj k TNil) [t..<t + n] (put_stack xs L) =
      Inr ((), put_stack (take t xs @ replicate n TNil @ drop (t + n) xs) L)"
    using xs room by (intro each_nil) (simp add: t_def n_def)
  moreover have d: "drop n post = take nf (drop n post) @ drop (n + nf) post"
    by (metis append_take_drop_id drop_drop add.commute)
  have u: "args @ replicate n TNil = us @ drop nf args"
    by (cases "nf \<le> length args") (simp_all add: us_def n_def)
  have "take t xs @ replicate n TNil @ drop (t + n) xs = (pre @ [f]) @ (args @ replicate n TNil) @ drop n post"
    using xs(1) by (simp add: t_def)
  then have "take t xs @ replicate n TNil @ drop (t + n) xs = ys"
    unfolding ys_def d [symmetric] u by simp
  ultimately have pad: "eachV (\<lambda>k. setobj k TNil) [t..<t + n] (put_stack xs L) = Inr ((), put_stack ys L)" by simp
  have "length us = nf" "length (take nf (drop n post)) = nf" "length (pre @ [f]) = length pre + 1"
    using room by (simp_all add: us_def n_def)
  moreover have "B = length pre + 1 + nf + length (drop nf args)" by (simp add: B_def)
  ultimately have mv: "eachV (\<lambda>i. thenV (moveobj (B + i) (length pre + 1 + i)) (setobj (length pre + 1 + i) TNil)) [0..<nf]
      (put_stack ys M) = Inr ((), put_stack zs M)" for M
    unfolding ys_def zs_def by (intro each_move)
  have b: "B = t + n" "B - max (length args) nf = length pre + 1" by (simp_all add: t_def n_def B_def)
  have "adjust_varargs call p (length args) (put_stack xs L) = Inr (B, put_stack zs (L\<lparr>L_top := B + nf\<rparr>))"
    using xs(2) unfolding t_def [symmetric]
    by (rule adjust_varargs_steps [OF _ b(1) n_def b(2) p pad [folded b(1)] mv])
  then show ?thesis by (simp add: zs_def B_def us_def n_def)
qed

text \<open>What is between the function and its base: the room of the fixed parameters, and the extra arguments.\<close>

definition below_base :: "Proto \<Rightarrow> tvalue list \<Rightarrow> tvalue list" where
  "below_base p args =
     (if pt_is_vararg p = 0 then []
      else replicate (nat (pt_numparams p)) TNil @ drop (nat (pt_numparams p)) args)"

definition parameters :: "Proto \<Rightarrow> tvalue list \<Rightarrow> tvalue list" where
  "parameters p args =
     (let ms = nat (pt_maxstacksize p) in take ms (take (nat (pt_numparams p)) args @ replicate ms TNil))"

lemma length_below_base:
  "pt_is_vararg p \<noteq> 0 \<Longrightarrow> length (below_base p args) = max (length args) (nat (pt_numparams p))"
  by (simp add: below_base_def max_def)

lemma call_frame:
  assumes "int (length (L_ci M)) \<noteq> L_size_ci M" "L_top M = t" "citop = t + n" "citop \<le> length ys"
  shows "thenV (inc_ci call f)
      (thenV (doV (\<lambda>L. L\<lparr>L_base := b, L_savedpc := 0\<rparr>))
      (readV L_top (\<lambda>top'. thenV (eachV (\<lambda>st. setobj st TNil) [top'..<citop]) (thenV (set_top citop) (returnV r)))))
      (put_stack ys M) = Inr (r, put_stack (take t ys @ replicate n TNil @ drop citop ys)
        (M\<lparr>L_ci := f # L_ci M, L_base := b, L_savedpc := 0, L_top := citop\<rparr>))"
proof -
  define N where "N = M\<lparr>L_ci := f # L_ci M, L_base := b, L_savedpc := 0\<rparr>"
  have "eachV (\<lambda>st. setobj st TNil) [t..<t + n] (put_stack ys N) =
      Inr ((), put_stack (take t ys @ replicate n TNil @ drop (t + n) ys) N)"
    using assms(3,4) by (intro each_nil) simp
  moreover have "inc_ci call f (put_stack ys M) = Inr ((), put_stack ys (M\<lparr>L_ci := f # L_ci M\<rparr>))"
    using assms(1) by (simp add: inc_ci_def put_stack_def)
  moreover have "put_stack ys (M\<lparr>L_ci := f # L_ci M\<rparr>)\<lparr>L_base := b, L_savedpc := 0\<rparr> = put_stack ys N" "L_top N = t"
    using assms(2) by (simp_all add: put_stack_def N_def)
  ultimately show ?thesis unfolding assms(3) by (simp add: N_def)
qed

lemma params_nil:
  assumes "nf \<le> ms"
  shows "take nf args @ replicate (ms - min nf (length args)) TNil = take ms (take nf args @ replicate ms TNil)"
    "take nf (args @ replicate nf TNil) @ replicate (ms - nf) TNil = take ms (take nf args @ replicate ms TNil)"
proof -
  have "min nf (length args) \<le> ms" using assms by simp
  then show 1: "take nf args @ replicate (ms - min nf (length args)) TNil = take ms (take nf args @ replicate ms TNil)"
    using assms by (simp add: min.commute min_absorb2)
  have "nf - length args + (ms - nf) = ms - min nf (length args)" using assms by (simp add: min_def)
  then show "take nf (args @ replicate nf TNil) @ replicate (ms - nf) TNil = take ms (take nf args @ replicate ms TNil)"
    unfolding 1 [symmetric] by (simp flip: replicate_add)
qed

lemma checkstack_room: "pt + int (L_top L) + 6 < int (L_stacksize L) \<Longrightarrow> luaD_checkstack pt L = Inr ((), L)"
  by (simp add: luaD_checkstack_def)

text \<open>C9: A called Lua function that does not need the table \<open>arg\<close> (\<open>VARARG_NEEDSARG\<close> is not set; where it is, the register
behind the parameters gets that table) finds the first arguments in its first registers, as many as it has
parameters, and nil in every other register up to its stack size. The arguments without a parameter stand below
its base in order when it is a vararg function, and are dropped when it is not. Its frame is the running one, at
its first instruction. The stack has room for the function and the array of frames has room for its frame, so
neither of them grows; there are not more parameters than registers.\<close>

theorem precall_lua_arguments:
  assumes stack: "L_stack L = pre @ f # args @ post" "L_top L = length pre + 1 + length args"
    and p: "0 \<le> pt_numparams p" "pt_numparams p \<le> pt_maxstacksize p" "pt_is_vararg p AND VARARG_NEEDSARG = 0"
    and room: "pt_maxstacksize p + int (L_top L) + 6 < int (L_stacksize L)"
      "b = length pre + 1 + length (below_base p args)" "b + nat (pt_maxstacksize p) \<le> L_stacksize L"
    and ci: "int (length (L_ci L)) \<noteq> L_size_ci L"
  shows "precall_lua call p (length pre) n L = Inr (PCRLUA,
    put_stack (pre @ f # below_base p args @ parameters p args @ drop (b + nat (pt_maxstacksize p)) (L_stack L))
      (L\<lparr>L_ci := \<lparr>fr_func = length pre, fr_base = b, fr_top = b + nat (pt_maxstacksize p), fr_savedpc = 0,
                  fr_nresults = n, fr_tailcalls = 0\<rparr> # L_ci L,
         L_base := b, L_savedpc := 0, L_top := b + nat (pt_maxstacksize p)\<rparr>))"
proof -
  define nf ms F where "nf = nat (pt_numparams p)" and "ms = nat (pt_maxstacksize p)" and "F = length pre + 1"
  have nfms: "nf \<le> ms" using p(2) by (simp add: nf_def ms_def)
  define fr where "fr = \<lparr>fr_func = length pre, fr_base = b, fr_top = b + ms, fr_savedpc = 0, fr_nresults = n, fr_tailcalls = 0\<rparr>"
  define rest where "rest = thenV (inc_ci call fr)
      (thenV (doV (\<lambda>L. L\<lparr>L_base := b, L_savedpc := 0\<rparr>))
      (readV L_top (\<lambda>top'. thenV (eachV (\<lambda>st. setobj st TNil) [top'..<b + ms]) (thenV (set_top (b + ms)) (returnV PCRLUA)))))"
  have check: "luaD_checkstack (pt_maxstacksize p) L = Inr ((), L)" using room(1) by (rule checkstack_room)
  show ?thesis
  proof (cases "pt_is_vararg p = 0")
    case True
    define k where "k = min nf (length args)"
    have b: "b = F" using room(2) True by (simp add: below_base_def F_def)
    have k: "b + ms = F + k + (ms - k)" using nfms b by (simp add: k_def)
    let ?M = "L\<lparr>L_top := F + k\<rparr>"
    have M: "?M = put_stack (L_stack L) ?M" by (simp add: put_stack_def)
    have "(if length pre + 1 + nat (pt_numparams p) < L_top L then set_top (length pre + 1 + nat (pt_numparams p)) else returnV ()) L
        = Inr ((), ?M)"
      using stack(2) by (auto simp: k_def F_def nf_def set_top_def min_def)
    then have "precall_lua call p (length pre) n L = rest ?M"
      using check True
      by (simp add: precall_lua_def ms_def rest_def fr_def b F_def Let_def del: upt_Suc upt_Suc_append)
    also have "\<dots> = Inr (PCRLUA, put_stack ((take (F + k) (L_stack L) @ replicate (ms - k) TNil) @ drop (b + ms) (L_stack L))
        (?M\<lparr>L_ci := fr # L_ci ?M, L_base := b, L_savedpc := 0, L_top := b + ms\<rparr>))"
      unfolding rest_def append_assoc using ci k room(3) by (subst M) (intro call_frame, simp_all add: ms_def)
    also have "take (F + k) (L_stack L) = pre @ f # take nf args"
      using stack(1) by (simp add: F_def k_def min_def)
    also have "(pre @ f # take nf args) @ replicate (ms - k) TNil = pre @ f # below_base p args @ parameters p args"
      using params_nil(1) [OF nfms, of args] True
      unfolding parameters_def Let_def nf_def [symmetric] ms_def [symmetric] k_def
      by (simp only: below_base_def append.simps append_assoc refl if_True)
    finally show ?thesis using True by (simp add: fr_def ms_def)
  next
    case False
    define B ys where "B = F + max (length args) nf" and "ys = pre @ f # replicate nf TNil @ drop nf args @
      take nf (args @ replicate nf TNil) @ drop (nf - length args + nf) post"
    have b: "b = B" using room(2) False length_below_base [OF False, of args] by (simp add: B_def F_def nf_def)
    have lx: "L_stacksize L = F + length args + length post" using stack(1) by (simp add: F_def)
    have fit: "nf - length args + nf \<le> length post" "b + ms \<le> L_stacksize L"
      using room(3) nfms lx b by (simp_all add: B_def ms_def)
    let ?M = "L\<lparr>L_top := B + nf\<rparr>"
    have "adjust_varargs call p (length args) L = Inr (B, put_stack ys ?M)"
      using adjust_varargs_spec [OF stack p(3) nf_def fit(1), of call] by (simp add: ys_def B_def F_def)
    then have "precall_lua call p (length pre) n L = rest (put_stack ys ?M)"
      using check False stack(2) by (simp add: precall_lua_def ms_def rest_def fr_def b Let_def)
    also have "\<dots> = Inr (PCRLUA, put_stack ((take (B + nf) ys @ replicate (ms - nf) TNil) @ drop (b + ms) ys)
        (?M\<lparr>L_ci := fr # L_ci ?M, L_base := b, L_savedpc := 0, L_top := b + ms\<rparr>))"
    proof -
      have "length ys = L_stacksize L" using fit(1) lx by (simp add: ys_def F_def max_def)
      then show ?thesis unfolding rest_def append_assoc using ci fit(2) nfms b by (intro call_frame) simp_all
    qed
    also have "take (B + nf) ys = pre @ f # replicate nf TNil @ drop nf args @ take nf (args @ replicate nf TNil)"
      by (simp add: ys_def B_def F_def max_def)
    also have "(pre @ f # replicate nf TNil @ drop nf args @ take nf (args @ replicate nf TNil)) @ replicate (ms - nf) TNil
        = pre @ f # below_base p args @ parameters p args"
      using params_nil(2) [OF nfms, of args] False
      unfolding parameters_def Let_def nf_def [symmetric] ms_def [symmetric]
      by (simp only: below_base_def nf_def append.simps append_assoc if_False)
    also have "drop (b + ms) ys = drop (b + ms) (L_stack L)"
      using stack(1) nfms by (simp add: ys_def b B_def F_def max_def)
    finally show ?thesis by (simp add: fr_def ms_def)
  qed
qed

theorem precall_lua_arguments_witness:
  "precall_lua (\<lambda>f n. returnV ()) vararg_proto 1 7 (called 3) = Inr (PCRLUA,
    put_stack ([TNil, TFunction 1] @ [TNil, TNil, TNumber 1] @ [TBoolean 1, TBoolean 0, TNil, TNil] @ replicate 36 TNil)
      (called 3\<lparr>L_ci := \<lparr>fr_func = 1, fr_base = 5, fr_top = 9, fr_savedpc = 0, fr_nresults = 7, fr_tailcalls = 0\<rparr> # L_ci (called 3),
         L_base := 5, L_savedpc := 0, L_top := 9\<rparr>))"
proof -
  have "L_stack (called 3) = [TNil] @ TFunction 1 # [TBoolean 1, TBoolean 0, TNumber 1] @ replicate 40 TNil"
    by (simp add: called_def)
  moreover have "b = 5 \<Longrightarrow> b = length [TNil] + 1 + length (below_base vararg_proto [TBoolean 1, TBoolean 0, TNumber 1])" for b
    by (simp add: below_base_def vararg_proto_def)
  ultimately show ?thesis
    using precall_lua_arguments [of "called 3" "[TNil]" "TFunction 1" "[TBoolean 1, TBoolean 0, TNumber 1]"
      "replicate 40 TNil" vararg_proto 5 "\<lambda>f n. returnV ()" 7]
    by (simp add: called_def one_frame_def vararg_proto_def below_base_def parameters_def put_stack_def
        numeral_eq_Suc)
qed

end
