(* ===== verification/LuaVararg.thy ===== *)
theory LuaVararg
  imports LuaCalls
begin

text \<open>
  \<open>OP_VARARG\<close>: a vararg function reads its extra arguments, where the call put them.
\<close>

lemma eachV_append_Inr: "eachV f xs M = Inr ((), M1) \<Longrightarrow> eachV f ys M1 = Inr ((), M2) \<Longrightarrow> eachV f (xs @ ys) M = Inr ((), M2)"
  by (simp add: eachV_append)

lemma eachV_cong: "(\<And>x. x \<in> set xs \<Longrightarrow> f x = g x) \<Longrightarrow> eachV f xs M = eachV g xs M"
proof (induction xs arbitrary: M)
  case (Cons x xs)
  then have "eachV f xs = eachV g xs" by (intro ext) simp
  then show ?case using Cons.prems by simp
qed simp

lemma eachV_shift: "eachV f [a..<a + n] = eachV (\<lambda>j. f (a + j)) [0..<n]"
proof (induction n)
  case (Suc n)
  then show ?case by (simp add: eachV_append)
qed simp

text \<open>The loop of the instruction: first the arguments that are there, then nil.\<close>

lemma each_vararg:
  assumes "S + n \<le> D" "D + w \<le> length xs" "extra = take n (drop S xs)"
  shows "eachV (\<lambda>j. if int j < int n then moveobj (D + j) (S + j) else setobj (D + j) TNil) [0..<w] (put_stack xs L) =
    Inr ((), put_stack (take D xs @ take w (extra @ replicate w TNil) @ drop (D + w) xs) L)"
proof -
  let ?f = "\<lambda>j. if int j < int n then moveobj (D + j) (S + j) else setobj (D + j) TNil"
  define k where "k = min n w"
  let ?ys = "take D xs @ take k (drop S xs) @ drop (D + k) xs"
  have len: "length (take k (drop S xs)) = k" using assms by (simp add: k_def)
  have "eachV ?f [0..<k] (put_stack xs L) = eachV (\<lambda>j. moveobj (D + j) (S + j)) [0..<k] (put_stack xs L)"
    by (intro eachV_cong) (auto simp: k_def)
  also have "\<dots> = Inr ((), put_stack ?ys L)" using assms by (intro each_copy) (auto simp: k_def)
  finally have 1: "eachV ?f [0..<k] (put_stack xs L) = Inr ((), put_stack ?ys L)" .
  have "eachV ?f [k..<k + (w - k)] (put_stack ?ys L) = eachV (\<lambda>j. setobj j TNil) [D + k..<D + k + (w - k)] (put_stack ?ys L)"
    unfolding eachV_shift by (intro eachV_cong) (auto simp: k_def add.assoc)
  also have "\<dots> = Inr ((), put_stack (take (D + k) ?ys @ replicate (w - k) TNil @ drop (D + k + (w - k)) ?ys) L)"
    using assms len by (intro each_nil) simp
  also have "take (D + k) ?ys @ replicate (w - k) TNil @ drop (D + k + (w - k)) ?ys
      = take D xs @ take w (extra @ replicate w TNil) @ drop (D + w) xs"
    using assms len by (auto simp: k_def min_def add.commute)
  finally have "eachV ?f [k..<k + (w - k)] (put_stack ?ys L) =
      Inr ((), put_stack (take D xs @ take w (extra @ replicate w TNil) @ drop (D + w) xs) L)" .
  from eachV_append_Inr [OF 1 this] show ?thesis
    using upt_add_eq_append [of 0 k "w - k"] by (simp add: k_def)
qed

lemma vararg_op_steps:
  assumes "L_ci L = ci # rest" "int (fr_base ci) - int (fr_func ci) - pt_numparams p - 1 = N" "fr_base ci = B" "L_base L = B"
    and "w = nat (if b = 0 then N else b - 1)" "L_base M = B" "b \<noteq> 0 \<Longrightarrow> M = L"
    and "b = 0 \<Longrightarrow> Protect pc (thenV (luaD_checkstack N) (readV L_base (\<lambda>base'. set_top (nat (int (base' + a) + N))))) L = Inr ((), M)"
  shows "vararg_op p pc a b L =
    thenV (eachV (\<lambda>j. if int j < N then moveobj (B + a + j) (nat (int B - N + int j)) else setobj (B + a + j) TNil) [0..<w])
      (returnV (Continue pc)) M"
proof -
  have "vararg_op p pc a b L = thenV (if b - 1 = LUA_MULTRET then
      Protect pc (thenV (luaD_checkstack N) (readV L_base (\<lambda>base'. set_top (nat (int (base' + a) + N))))) else returnV ())
    (readV L_base (\<lambda>base'. thenV (eachV (\<lambda>j. if int j < N then moveobj (base' + a + j) (nat (int B - N + int j))
        else setobj (base' + a + j) TNil) [0..<nat (if b - 1 = LUA_MULTRET then N else b - 1)]) (returnV (Continue pc)))) L"
    unfolding vararg_op_def this_ci_def Let_def V_simps assms(1) list.case unfolding assms(2) unfolding assms(3) ..
  then show ?thesis using assms(4-8) by (cases "b = 0") (simp_all del: of_nat_add cong: if_cong)
qed

text \<open>C23: In a running vararg function, \<open>...\<close> is its arguments without a parameter: the instruction puts as many as are
wanted into its registers, with nil for the missing ones; when all are wanted, the top is behind the last one.
No other level changes.\<close>

theorem vararg_op_extra:
  assumes stack: "L_stack L = pre @ f # below_base p args @ regs" "pt_is_vararg p \<noteq> 0" "0 \<le> pt_numparams p"
    and ci: "L_ci L = ci # rest" "fr_func ci = length pre" "fr_base ci = length pre + 1 + length (below_base p args)"
      "L_base L = fr_base ci"
    and b: "0 \<le> b" "b = 0 \<Longrightarrow> int (length vs) + int (L_top L) + 6 < int (L_stacksize L)"
    and vs: "vs = adjusted (b - 1) (drop (nat (pt_numparams p)) args)" "a + length vs \<le> length regs"
  shows "vararg_op p pc a b L = Inr (Continue pc,
    put_stack (pre @ f # below_base p args @ take a regs @ vs @ drop (a + length vs) regs)
      (if b = 0 then L\<lparr>L_savedpc := pc, L_top := L_base L + a + length vs\<rparr> else L))"
proof -
  define nf extra where "nf = nat (pt_numparams p)" and "extra = drop nf args"
  define B n xs where "B = L_base L" and "n = length extra" and "xs = L_stack L"
  define w where "w = length vs"
  have lb: "length (below_base p args) = nf + n"
    using length_below_base [OF stack(2), of args] by (simp add: n_def extra_def nf_def)
  have B: "B = length pre + 1 + nf + n" using ci(3,4) lb by (simp add: B_def)
  have count: "int (fr_base ci) - int (fr_func ci) - pt_numparams p - 1 = int n"
    using ci(2,3) lb stack(3) by (simp add: nf_def)
  have ex: "extra = take n (drop (B - n) xs)"
    using stack(1,2) lb B by (simp add: xs_def below_base_def extra_def nf_def n_def)
  have w: "vs = take w (extra @ replicate w TNil)" "w = nat (if b = 0 then int n else b - 1)"
    using vs(1) b(1) by (auto simp: w_def adjusted_def extra_def nf_def n_def min_def)
  have lx: "length xs = B + length regs" using stack(1) lb B by (simp add: xs_def)
  let ?ys = "take (B + a) xs @ vs @ drop (B + a + w) xs"
  have "eachV (\<lambda>j. if int j < int n then moveobj (B + a + j) (B - n + j) else setobj (B + a + j) TNil) [0..<w] (put_stack xs M)
      = Inr ((), put_stack (take (B + a) xs @ take w (extra @ replicate w TNil) @ drop (B + a + w) xs) M)" for M
    using B lx vs(2) by (intro each_vararg ex) (auto simp: w_def)
  moreover have "nat (int B - int n + int j) = B - n + j" for j using B by simp
  ultimately have loop: "eachV (\<lambda>j. if int j < int n then moveobj (B + a + j) (nat (int B - int n + int j)) else setobj (B + a + j) TNil)
      [0..<w] (put_stack xs M) = Inr ((), put_stack ?ys M)" for M
    unfolding w(1) [symmetric] by (simp only:)
  have ys: "?ys = pre @ f # below_base p args @ take a regs @ vs @ drop (a + length vs) regs"
    using stack(1) lb B by (simp add: xs_def w_def)
  have L: "L = put_stack xs L" by (simp add: xs_def)
  let ?M = "L\<lparr>L_savedpc := pc, L_top := L_base L + a + length vs\<rparr>"
  have M: "?M = put_stack xs ?M" by (simp add: put_stack_def xs_def)
  show ?thesis
  proof (cases "b = 0")
    case True
    then have wn: "w = n" using w(2) by simp
    have "luaD_checkstack (int n) (L\<lparr>L_savedpc := pc\<rparr>) = Inr ((), L\<lparr>L_savedpc := pc\<rparr>)"
      using b(2) [OF True] wn by (intro checkstack_room) (simp add: w_def)
    moreover have "nat (int (B + a) + int n) = B + a + length vs" using wn by (simp add: w_def)
    ultimately have prot: "Protect pc (thenV (luaD_checkstack (int n)) (readV L_base (\<lambda>base'. set_top (nat (int (base' + a) + int n))))) L
        = Inr ((), ?M)" by (simp add: Protect_def set_top_def B_def)
    have "vararg_op p pc a b L = thenV (eachV (\<lambda>j. if int j < int n then moveobj (B + a + j) (nat (int B - int n + int j))
        else setobj (B + a + j) TNil) [0..<w]) (returnV (Continue pc)) ?M"
      using prot True ci(4) w(2) by (intro vararg_op_steps [OF ci(1) count]) (simp_all add: B_def)
    then show ?thesis using loop [of ?M] True by (simp add: ys flip: M)
  next
    case False
    then have "vararg_op p pc a b L = thenV (eachV (\<lambda>j. if int j < int n then moveobj (B + a + j) (nat (int B - int n + int j))
        else setobj (B + a + j) TNil) [0..<w]) (returnV (Continue pc)) L"
      using ci(4) w(2) by (intro vararg_op_steps [OF ci(1) count]) (simp_all add: B_def)
    then show ?thesis using loop [of L] False by (simp add: ys flip: L)
  qed
qed

text \<open>The state of \<open>precall_lua_arguments_witness\<close>, in the function.\<close>

definition in_vararg :: lua_State where
  "in_vararg = put_stack ([TNil, TFunction 1] @ [TNil, TNil, TNumber 1] @ [TBoolean 1, TBoolean 0, TNil, TNil] @ replicate 36 TNil)
     (called 3\<lparr>L_ci := \<lparr>fr_func = 1, fr_base = 5, fr_top = 9, fr_savedpc = 0, fr_nresults = 7, fr_tailcalls = 0\<rparr> # L_ci (called 3),
        L_base := 5, L_savedpc := 0, L_top := 9\<rparr>)"

theorem vararg_op_extra_witness:
  "vararg_op vararg_proto 1 1 3 in_vararg = Inr (Continue 1,
    put_stack ([TNil] @ TFunction 1 # [TNil, TNil, TNumber 1] @ [TBoolean 1] @ [TNumber 1, TNil] @ [TNil] @ replicate 36 TNil) in_vararg)"
proof -
  let ?args = "[TBoolean 1, TBoolean 0, TNumber 1]" and ?regs = "[TBoolean 1, TBoolean 0, TNil, TNil] @ replicate 36 TNil"
  let ?ci = "\<lparr>fr_func = 1, fr_base = 5, fr_top = 9, fr_savedpc = 0, fr_nresults = 7, fr_tailcalls = 0\<rparr>"
  have below: "below_base vararg_proto ?args = [TNil, TNil, TNumber 1]"
    by (simp add: below_base_def vararg_proto_def numeral_2_eq_2)
  have stack: "L_stack in_vararg = [TNil] @ TFunction 1 # below_base vararg_proto ?args @ ?regs"
    unfolding below by (simp add: in_vararg_def)
  have ci: "L_ci in_vararg = ?ci # L_ci (called 3)" "L_base in_vararg = 5"
    by (simp_all add: in_vararg_def put_stack_def)
  have vs: "[TNumber 1, TNil] = adjusted (3 - 1) (drop (nat (pt_numparams vararg_proto)) ?args)"
    by (simp add: adjusted_def vararg_proto_def numeral_2_eq_2)
  have regs: "take 1 ?regs = [TBoolean 1]" "drop (1 + length [TNumber 1, TNil]) ?regs = [TNil] @ replicate 36 TNil" by simp_all
  have "vararg_op vararg_proto 1 1 3 in_vararg = Inr (Continue 1,
      put_stack ([TNil] @ TFunction 1 # below_base vararg_proto ?args @ take 1 ?regs @ [TNumber 1, TNil]
          @ drop (1 + length [TNumber 1, TNil]) ?regs)
        (if (3::int) = 0 then in_vararg\<lparr>L_savedpc := 1, L_top := L_base in_vararg + 1 + length [TNumber 1, TNil]\<rparr> else in_vararg))"
    by (rule vararg_op_extra [OF stack _ _ ci(1) _ _ _ _ _ vs]) (simp_all add: below [unfolded vararg_proto_def] ci(2) vararg_proto_def)
  then show ?thesis unfolding regs below by simp
qed

section \<open>Parameters that do not fit\<close>

lemma eachV_stops: "eachV f xs M = Inr ((), M1) \<Longrightarrow> f y M1 = Inl e \<Longrightarrow> eachV f (xs @ y # ys) M = Inl e"
  by (simp add: eachV_append)

lemma adjust_varargs_stops:
  assumes "L_top L = t" "B = t + n" "n = nf - a" "B - max a nf = F"
    and "pt_is_vararg p AND VARARG_NEEDSARG = 0" "nf = nat (pt_numparams p)"
    and "eachV (\<lambda>k. setobj k TNil) [t..<B] (put_stack xs L) = Inr ((), put_stack ys L)"
    and "eachV (\<lambda>i. thenV (moveobj (B + i) (F + i)) (setobj (F + i) TNil)) [0..<nf] (put_stack ys (L\<lparr>L_top := B\<rparr>)) = Inl e"
  shows "adjust_varargs call p a (put_stack xs L) = Inl e"
  using assms unfolding adjust_varargs_def Let_def assms(6) [symmetric] assms(3) [symmetric]
  by (simp add: assms(2) [symmetric])

text \<open>The copies of the fixed parameters end behind the stack when it has no room for all of them.\<close>

lemma adjust_varargs_overflow:
  assumes xs: "xs = pre @ f # args @ post" "L_top L = length pre + 1 + length args"
    and p: "pt_is_vararg p AND VARARG_NEEDSARG = 0" "nf = nat (pt_numparams p)"
    and short: "n = nf - length args" "length args \<le> nf" "n \<le> length post" "length post < n + nf"
  shows "\<exists>s. adjust_varargs call p (length args) (put_stack xs L) = Inl (Undefined, s)"
proof -
  define t F B i where "t = length pre + 1 + length args" and "F = length pre + 1" and "B = F + nf" and "i = length post - n"
  define u ys where "u = args @ replicate n TNil" and "ys = (pre @ [f]) @ u @ drop n post"
  let ?f = "\<lambda>i. thenV (moveobj (B + i) (F + i)) (setobj (F + i) TNil)"
  have lu: "length u = nf" and i: "i < nf" "length ys = B + i"
    using short by (simp_all add: u_def i_def ys_def B_def F_def)
  have "eachV (\<lambda>k. setobj k TNil) [t..<t + n] (put_stack xs L) =
      Inr ((), put_stack (take t xs @ replicate n TNil @ drop (t + n) xs) L)"
    using xs short by (intro each_nil) (simp add: t_def)
  moreover have "take t xs @ replicate n TNil @ drop (t + n) xs = ys" using xs(1) by (simp add: t_def ys_def u_def)
  moreover have b: "t + n = B" "B - max (length args) nf = F" using short(1,2) by (simp_all add: t_def B_def F_def)
  ultimately have pad: "eachV (\<lambda>k. setobj k TNil) [t..<B] (put_stack xs L) = Inr ((), put_stack ys L)" by simp
  let ?zs = "(pre @ [f]) @ replicate i TNil @ drop i u @ take i u @ []"
  have mv: "\<exists>s. eachV ?f [0..<nf] (put_stack ys M) = Inl (Undefined, s)" for M
  proof -
    have "put_stack ((pre @ [f]) @ take i u @ drop i u @ drop n post @ []) M = put_stack ys M"
      by (simp add: ys_def flip: append_assoc)
    moreover have "eachV ?f [0..<i] (put_stack ((pre @ [f]) @ take i u @ drop i u @ drop n post @ []) M) = Inr ((), put_stack ?zs M)"
      using lu i(1) by (intro each_move) (simp_all add: F_def B_def i_def)
    ultimately have 1: "eachV ?f [0..<i] (put_stack ys M) = Inr ((), put_stack ?zs M)" by simp
    have "length ?zs = B + i" using lu i(1) by (simp add: F_def B_def)
    then have 2: "?f i (put_stack ?zs M) = Inl (Undefined, put_stack ?zs M)"
      using i(1) by (simp add: moveobj_def getobj_def setobj_def B_def)
    have 3: "[0..<nf] = [0..<i] @ i # [Suc i..<nf]" using upt_add_eq_append [of 0 i "nf - i"] i(1) by (simp add: upt_conv_Cons)
    show ?thesis unfolding 3 using eachV_stops [OF 1 2] by blast
  qed
  obtain s where stop: "eachV ?f [0..<nf] (put_stack ys (L\<lparr>L_top := B\<rparr>)) = Inl (Undefined, s)" using mv by blast
  have "adjust_varargs call p (length args) (put_stack xs L) = Inl (Undefined, s)"
    by (rule adjust_varargs_stops [OF xs(2) [folded t_def] b(1) [symmetric] short(1) b(2) p pad stop])
  then show ?thesis by blast
qed

text \<open>C26: The room that is made for a called function is its stack size above the arguments, but the parameters of a
vararg function are copied above the arguments that are there or are filled in: called with fewer arguments than
it has parameters, it writes behind the stack when the stack is nearly full.\<close>

theorem precall_lua_overflow:
  assumes stack: "L_stack L = pre @ f # args @ post" "L_top L = length pre + 1 + length args"
    and p: "pt_is_vararg p \<noteq> 0" "pt_is_vararg p AND VARARG_NEEDSARG = 0" "length args \<le> nat (pt_numparams p)"
    and room: "pt_maxstacksize p + int (L_top L) + 6 < int (L_stacksize L)" "nat (pt_numparams p) - length args \<le> length post"
      "length post < nat (pt_numparams p) - length args + nat (pt_numparams p)"
  shows "\<exists>s. precall_lua call p (length pre) n L = Inl (Undefined, s)"
proof -
  obtain s where "adjust_varargs call p (length args) (put_stack (L_stack L) L) = Inl (Undefined, s)"
    using adjust_varargs_overflow [OF stack p(2) refl refl p(3) room(2,3)] by blast
  moreover have "luaD_checkstack (pt_maxstacksize p) L = Inr ((), L)" using room(1) by (rule checkstack_room)
  ultimately show ?thesis using p(1) stack(2) by (simp add: precall_lua_def)
qed

text \<open>A function with 25 parameters, called without an argument on a new stack.\<close>

theorem precall_lua_overflow_witness:
  "\<exists>s. precall_lua (\<lambda>f n. returnV ()) (Proto [] [] [] [] [] [] None 0 0 0 25 2 30) 1 0
     ((one_frame vararg_proto)\<lparr>L_top := 2\<rparr>) = Inl (Undefined, s)"
  using precall_lua_overflow [of "(one_frame vararg_proto)\<lparr>L_top := 2\<rparr>" "[TNil]" "TFunction 1" "[]" "replicate 43 TNil"
    "Proto [] [] [] [] [] [] None 0 0 0 25 2 30" "\<lambda>f n. returnV ()" 0]
  by (simp add: one_frame_def)

end
