(* ===== verification/LuaDo.thy ===== *)
theory LuaDo
  imports LuaExec LuaDump LuaParser
begin

text \<open>
  The rest of ldo.c: protected calls, coroutines and the protected parser; and the creation of a state (lstate.c).

  A protected computation is run on the state; when it throws, the state at the throw is repaired. The chain
  \<open>errorJmp\<close> is the nesting of the computations.
\<close>

section \<open>Protected calls\<close>

definition luaD_seterrorobj :: "int \<Rightarrow> nat \<Rightarrow> unit V" where
  "luaD_seterrorobj errcode oldtop =
     thenV (if errcode = ERRMEM then setobj oldtop (TString ''not enough memory'')
            else if errcode = ERRERR then setobj oldtop (TString ''error in error handling'')
            else if errcode = ERRSYNTAX \<or> errcode = ERRRUN then readV L_top (\<lambda>top'. moveobj oldtop (top' - 1))
            else returnV ())
       (set_top (oldtop + 1))"

definition restore_stack_limit :: "unit V" where
  "restore_stack_limit =
     doV (\<lambda>L. if LUAI_MAXCALLS < L_size_ci L \<and> int (length (L_ci L)) < LUAI_MAXCALLS
               then L\<lparr>L_size_ci := LUAI_MAXCALLS\<rparr> else L)"

definition luaD_rawrunprotected :: "unit V \<Rightarrow> int V" where
  "luaD_rawrunprotected f L =
     (case f L of
        Inr (_, L1) \<Rightarrow> Inr (0, L1)
      | Inl (Throw status, L1) \<Rightarrow> Inr (status, L1)
      | Inl (e, L1) \<Rightarrow> Inl (e, L1))"

text \<open>The frames that were there before, and what is cached from the innermost of them.\<close>

definition restore_ci :: "nat \<Rightarrow> unit V" where
  "restore_ci n =
     thenV (doV (\<lambda>L. L\<lparr>L_ci := drop (length (L_ci L) - n) (L_ci L)\<rparr>))
       (this_ci (\<lambda>ci. doV (\<lambda>L. L\<lparr>L_base := fr_base ci, L_savedpc := fr_savedpc ci\<rparr>)))"

definition luaD_pcall :: "unit V \<Rightarrow> nat \<Rightarrow> nat \<Rightarrow> int V" where
  "luaD_pcall func oldtop ef =
     readV (\<lambda>L. (L_nCcalls L, length (L_ci L), L_errfunc L)) (\<lambda>(oldnCcalls, old_ci, old_errfunc).
       thenV (doV (\<lambda>L. L\<lparr>L_errfunc := ef\<rparr>))
       (bindV (luaD_rawrunprotected func) (\<lambda>status.
       thenV (if status \<noteq> 0 then
                thenV (close_upvals oldtop)
                (thenV (luaD_seterrorobj status oldtop)
                (thenV (doV (\<lambda>L. L\<lparr>L_nCcalls := oldnCcalls\<rparr>))
                (thenV (restore_ci old_ci)
                restore_stack_limit)))
              else returnV ())
       (thenV (doV (\<lambda>L. L\<lparr>L_errfunc := old_errfunc\<rparr>))
       (returnV status)))))"

section \<open>Coroutines\<close>

abbreviation (input) LUA_YIELD :: int where "LUA_YIELD \<equiv> 1"

definition is_lua_frame :: "frame \<Rightarrow> bool V" where
  "is_lua_frame ci =
     bindV (getobj (fr_func ci)) (\<lambda>f.
       case f of
         TFunction a \<Rightarrow> bindV (clvalue a) (\<lambda>cl. returnV (case cl of LFunction c p \<Rightarrow> True | CFunction c g \<Rightarrow> False))
       | _ \<Rightarrow> stopV Undefined)"

definition set_status :: "int \<Rightarrow> unit V" where
  "set_status s = doV (\<lambda>L. L\<lparr>L_status := s\<rparr>)"

text \<open>\<open>resume\<close>: what is run starts in a new function, behind a finished call, or in the middle of a function.\<close>

definition resume_entry :: "host \<Rightarrow> vcaller \<Rightarrow> nat \<Rightarrow> bool V" where
  "resume_entry H call firstArg =
     readV L_status (\<lambda>status.
       if status \<noteq> LUA_YIELD then
         bindV (luaD_precall H call (firstArg - 1) LUA_MULTRET) (\<lambda>r. returnV (r = PCRLUA))
       else this_ci (\<lambda>ci.
         bindV (is_lua_frame ci) (\<lambda>lua.
           thenV (if \<not> lua then
                    bindV (luaD_poscall firstArg) (\<lambda>fixed. if fixed then this_ci (\<lambda>ci. set_top (fr_top ci)) else returnV ())
                  else doV (\<lambda>L. L\<lparr>L_base := fr_base ci\<rparr>))
             (returnV True))))"

definition resume :: "host \<Rightarrow> nat \<Rightarrow> nat \<Rightarrow> unit V" where
  "resume H fuel firstArg =
     bindV (resume_entry H (luaD_call H fuel) firstArg) (\<lambda>go.
       if \<not> go then returnV ()
       else thenV (set_status 0)
              (readV (\<lambda>L. int (length (L_ci L)) - 1) (\<lambda>n. luaV_execute H (luaD_call H fuel) fuel n)))"

definition resume_error :: "string \<Rightarrow> int V" where
  "resume_error msg =
     this_ci (\<lambda>ci.
       thenV (set_top (fr_base ci))
       (thenV (pushobj (TString msg))
       (returnV ERRRUN)))"

definition lua_resume :: "host \<Rightarrow> nat \<Rightarrow> nat \<Rightarrow> int V" where
  "lua_resume H fuel nargs =
     readV (\<lambda>L. (L_status L, length (L_ci L), L_top L)) (\<lambda>(status, nci, top').
       if status \<noteq> LUA_YIELD \<and> status \<noteq> 0 then resume_error ''cannot resume dead coroutine''
       else if status \<noteq> LUA_YIELD \<and> nci \<noteq> 1 then resume_error ''cannot resume non-suspended coroutine''
       else bindV (luaD_rawrunprotected (resume H fuel (top' - nargs))) (\<lambda>status'.
              if status' \<noteq> 0 then
                thenV (set_status status')
                (readV L_top (\<lambda>t. thenV (luaD_seterrorobj status' t)
                (readV L_top (\<lambda>t. thenV (mod_ci (\<lambda>ci. ci\<lparr>fr_top := t\<rparr>)) (returnV status')))))
              else readV L_status returnV))"

definition lua_yield :: "vcaller \<Rightarrow> nat \<Rightarrow> int V" where
  "lua_yield call nresults =
     readV L_nCcalls (\<lambda>n.
       thenV (if 0 < n then runerror call ''attempt to yield across metamethod/C-call boundary'' else returnV ())
       (thenV (doV (\<lambda>L. L\<lparr>L_base := L_top L - nresults, L_status := LUA_YIELD\<rparr>))
       (returnV (- 1))))"

section \<open>The protected parser\<close>

text \<open>A syntax error is thrown with its message; the error function does not see it.\<close>

definition syntaxV :: "vcaller \<Rightarrow> 'a res \<Rightarrow> 'a V" where
  "syntaxV call r =
     (case r of
        Inl (LUA_ERRSYNTAX msg) \<Rightarrow> thenV (pushobj (TString msg)) (luaD_throw ERRSYNTAX)
      | _ \<Rightarrow> resV call r)"

text \<open>New closed upvalues for a main function; it has none unless it was precompiled.\<close>

primrec new_upvals :: "nat \<Rightarrow> addr option list V" where
  "new_upvals 0 = returnV []"
| "new_upvals (Suc n) =
     (\<lambda>L. let (st, a) = luaF_newupval (L_uv L)
          in bindV (new_upvals n) (\<lambda>us. returnV (Some a # us)) (L\<lparr>L_uv := st\<rparr>))"

definition load_proto :: "(lua_Number \<Rightarrow> lua_Number \<Rightarrow> lua_Number) \<Rightarrow> vcaller \<Rightarrow> Zio \<Rightarrow> string \<Rightarrow> Proto V" where
  "load_proto pow call z name =
     bindV (resV call (luaZ_lookahead z)) (\<lambda>(z1, c).
       if c = uchar (CHR 0x1B) then bindV (syntaxV call (luaU_undump name z1)) (\<lambda>(z2, f). returnV f)
       else bindV (resV call (luaH_new 0 0)) (\<lambda>h.
              readV L_nCcalls (\<lambda>n.
                case luaY_parser pow n z1 name h of
                  None \<Rightarrow> stopV OutOfFuel
                | Some r \<Rightarrow> syntaxV call r)))"

definition f_parser :: "(lua_Number \<Rightarrow> lua_Number \<Rightarrow> lua_Number) \<Rightarrow> vcaller \<Rightarrow> Zio \<Rightarrow> string \<Rightarrow> unit V" where
  "f_parser pow call z name =
     bindV (load_proto pow call z name) (\<lambda>tf.
     readV L_gt (\<lambda>gt.
       case gt of
         TTable g \<Rightarrow>
           (let cl = luaF_newLclosure (pt_nups tf) g
            in bindV (new_closure (LFunction cl tf)) (\<lambda>a.
               bindV (new_upvals (nat (pt_nups tf))) (\<lambda>us.
               thenV (doV (\<lambda>L. L\<lparr>L_closures := (L_closures L)(a \<mapsto> LFunction (cl\<lparr>lc_upvals := us\<rparr>) tf)\<rparr>))
               (pushobj (TFunction a)))))
       | _ \<Rightarrow> stopV Undefined))"

definition luaD_protectedparser :: "(lua_Number \<Rightarrow> lua_Number \<Rightarrow> lua_Number) \<Rightarrow> vcaller \<Rightarrow> Zio \<Rightarrow> string \<Rightarrow> int V" where
  "luaD_protectedparser pow call z name =
     readV (\<lambda>L. (L_top L, L_errfunc L)) (\<lambda>(top', ef). luaD_pcall (f_parser pow call z name) top' ef)"

section \<open>A new state (lstate.c)\<close>

abbreviation (input) BASIC_CI_SIZE :: int where "BASIC_CI_SIZE \<equiv> 8"
abbreviation (input) BASIC_STACK_SIZE :: int where "BASIC_STACK_SIZE \<equiv> 2 * LUA_MINSTACK"

text \<open>\<open>preinit_state\<close>; the main thread is the only object. The first white is bit 0.\<close>

definition preinit_state :: lua_State where
  "preinit_state =
     \<lparr>L_uv = \<lparr>stk = [], openupval = [], uvhead = [], uvs = (\<lambda>a. None), uv_next = 1, uv_currentwhite = 33, uv_gcstate = 0,
              rootgc = [], barriered = []\<rparr>,
      L_top = 0, L_base = 0, L_ci = [], L_savedpc = 0, L_size_ci = 0, L_nCcalls = 0, L_status = 0, L_errfunc = 0,
      L_gt = TNil, L_registry = TNil, L_tables = (\<lambda>a. None), L_closures = (\<lambda>a. None), L_udata = (\<lambda>a. None),
      L_mt = (\<lambda>n. None)\<rparr>"

definition stack_init :: "unit V" where
  "stack_init =
     doV (\<lambda>L. L\<lparr>L_uv := (L_uv L)\<lparr>stk := replicate (nat (BASIC_STACK_SIZE + EXTRA_STACK)) TNil\<rparr>,
               L_size_ci := BASIC_CI_SIZE, L_top := 1, L_base := 1,
               L_ci := [\<lparr>fr_func = 0, fr_base = 1, fr_top = 1 + nat LUA_MINSTACK, fr_savedpc = 0, fr_nresults = 0, fr_tailcalls = 0\<rparr>]\<rparr>)"

text \<open>\<open>f_luaopen\<close>: the string table, the names of the metamethods and the reserved words are in LuaTokens.\<close>

definition f_luaopen :: "vcaller \<Rightarrow> unit V" where
  "f_luaopen call =
     thenV stack_init
     (bindV (resV call (luaH_new 0 2)) (\<lambda>t.
     bindV (new_table t) (\<lambda>g.
     thenV (doV (\<lambda>L. L\<lparr>L_gt := TTable g\<rparr>))
     (bindV (resV call (luaH_new 0 2)) (\<lambda>t.
     bindV (new_table t) (\<lambda>r.
     doV (\<lambda>L. L\<lparr>L_registry := TTable r\<rparr>)))))))"

definition lua_newstate :: "(vstop \<times> lua_State) + (int \<times> lua_State)" where
  "lua_newstate = luaD_rawrunprotected (f_luaopen (\<lambda>func n. stopV Undefined)) preinit_state"

end
