(* ===== verification/LuaPcall.thy ===== *)
theory LuaPcall
  imports LuaVLemmas LuaDo
begin

text \<open>
  What a protected call leaves behind when the function throws.
\<close>

text \<open>What \<open>luaD_seterrorobj\<close> puts in the place of the function.\<close>

definition error_value :: "int \<Rightarrow> lua_State \<Rightarrow> tvalue" where
  "error_value status M =
     (if status = ERRMEM then TString ''not enough memory''
      else if status = ERRERR then TString ''error in error handling''
      else L_stack M ! (L_top M - 1))"

lemma uv_stk_indep:
  "uv_value (st\<lparr>stk := xs\<rparr>) a = (case uv_v (uv_get st a) of Open l \<Rightarrow> xs ! l | Closed v \<Rightarrow> v)"
  by (simp add: uv_value_def uv_get_def split: uv_place.split)

lemma close_loop_below:
  "uv_ok st \<Longrightarrow> openupval st = xs \<Longrightarrow> uv_level st b < level \<Longrightarrow> uvs (close_loop level xs st) b = uvs st b"
proof (induction xs arbitrary: st)
  case (Cons a rest)
  note c = close_one_ok [OF Cons.prems(1,2) refl]
  show ?case
  proof (cases "level \<le> uv_level st a")
    case True
    then have "b \<noteq> a" using Cons.prems(3) by auto
    then have same: "uvs (close_one st a rest) b = uvs st b" using c by blast
    then have "uv_level (close_one st a rest) b = uv_level st b" by (simp add: uv_level_def uv_get_def)
    then show ?thesis using True Cons.IH [of "close_one st a rest"] c Cons.prems(3) same by simp
  qed simp
qed simp

lemma seterrorobj_put:
  assumes "status \<in> {ERRMEM, ERRERR, ERRSYNTAX, ERRRUN}" "oldtop < length xs" "0 < L_top M" "L_top M \<le> length xs" "xs = L_stack M"
  shows "luaD_seterrorobj status oldtop (put_stack xs M) =
    Inr ((), put_stack (xs[oldtop := error_value status M]) (M\<lparr>L_top := oldtop + 1\<rparr>))"
proof -
  have "oldtop < length xs" "L_top M - 1 < length xs" using assms by auto
  then show ?thesis
    using assms(1) unfolding assms(5) error_value_def by (elim insertE emptyE) (simp_all add: luaD_seterrorobj_def flip: assms(5))
qed

lemma pcall_error:
  assumes throw: "func (L\<lparr>L_errfunc := ef\<rparr>) = Inl (Throw status, M)" "status \<in> {ERRMEM, ERRERR, ERRSYNTAX, ERRRUN}"
    and frames: "L_ci L = ci # rest" "L_ci M = inner @ ci' # rest"
    and top: "0 < L_top M" "L_top M \<le> L_stacksize M" "oldtop < L_stacksize M"
    and uv: "uv_ok (L_uv M)"
  shows "\<exists>N. luaD_pcall func oldtop ef L = Inr (status, N)
    \<and> L_ci N = ci' # rest \<and> L_nCcalls N = L_nCcalls L \<and> L_errfunc N = L_errfunc L
    \<and> L_base N = fr_base ci' \<and> L_savedpc N = fr_savedpc ci'
    \<and> L_top N = oldtop + 1 \<and> L_stack N = (L_stack M)[oldtop := error_value status M]
    \<and> openupval (L_uv N) = filter (\<lambda>a. uv_level (L_uv M) a < oldtop) (openupval (L_uv M))
    \<and> (\<forall>a. uvs (L_uv N) a \<noteq> None \<longrightarrow> uv_value (L_uv N) a = uv_value (L_uv M) a)
    \<and> L_tables N = L_tables M \<and> L_closures N = L_closures M \<and> L_udata N = L_udata M \<and> L_gt N = L_gt M \<and> L_registry N = L_registry M"
proof -
  define U where "U = luaF_close (L_uv M) oldtop"
  define xs where "xs = (L_stack M)[oldtop := error_value status M]"
  note c = close_loop_ok [OF uv refl, of U oldtop, folded luaF_close_def, OF U_def]
  have stk: "stk U = L_stack M" using c by simp
  have M1: "M\<lparr>L_uv := U\<rparr> = put_stack (L_stack M) (M\<lparr>L_uv := U\<rparr>)" by (simp add: put_stack_def stk)
  have "luaD_seterrorobj status oldtop (M\<lparr>L_uv := U\<rparr>) = Inr ((), put_stack xs (M\<lparr>L_uv := U, L_top := oldtop + 1\<rparr>))"
    using throw(2) top by (subst M1, subst seterrorobj_put) (simp_all add: stk xs_def error_value_def put_stack_def)
  moreover define M2 where "M2 = put_stack xs (M\<lparr>L_uv := U, L_top := oldtop + 1\<rparr>)"
  ultimately have err: "luaD_seterrorobj status oldtop (M\<lparr>L_uv := U\<rparr>) = Inr ((), M2)" by simp
  define N where "N = M2\<lparr>L_nCcalls := L_nCcalls L, L_ci := ci' # rest, L_base := fr_base ci', L_savedpc := fr_savedpc ci'\<rparr>"
  have ci: "L_ci M2 = inner @ ci' # rest" using frames by (simp add: M2_def put_stack_def)
  have "restore_ci (length (L_ci L)) (M2\<lparr>L_nCcalls := L_nCcalls L\<rparr>) = Inr ((), N)"
    using frames(1) ci by (simp add: restore_ci_def this_ci_def N_def)
  moreover obtain k where "restore_stack_limit N = Inr ((), N\<lparr>L_size_ci := k\<rparr>)"
    by (cases "LUAI_MAXCALLS < L_size_ci N \<and> int (length (L_ci N)) < LUAI_MAXCALLS")
      (auto simp: restore_stack_limit_def intro: that [of "L_size_ci N"])
  moreover have "luaD_rawrunprotected func (L\<lparr>L_errfunc := ef\<rparr>) = Inr (status, M)"
    using throw(1) by (simp add: luaD_rawrunprotected_def)
  moreover have "close_upvals oldtop M = Inr ((), M\<lparr>L_uv := U\<rparr>)" by (simp add: close_upvals_def U_def)
  ultimately have "luaD_pcall func oldtop ef L = Inr (status, N\<lparr>L_size_ci := k, L_errfunc := L_errfunc L\<rparr>)"
    using err throw(2) by (auto simp: luaD_pcall_def)
  moreover have "uv_value (L_uv M2) a = uv_value (L_uv M) a" if "uvs (L_uv M2) a \<noteq> None" for a
  proof -
    have U: "uvs U a \<noteq> None" "uv_value U a = uv_value (L_uv M) a" using that c by (auto simp: M2_def put_stack_def)
    have "uv_value (U\<lparr>stk := xs\<rparr>) a = uv_value U a"
    proof (cases "uv_v (uv_get U a)")
      case (Open l)
      obtain u where "uvs U a = Some u" using U(1) by auto
      with Open c have "a \<in> set (openupval U)" by (auto simp: uv_ok_def uv_get_def)
      then have "uv_level (L_uv M) a < oldtop" using c by simp
      moreover from this have "uvs U a = uvs (L_uv M) a"
        using close_loop_below [OF uv refl] by (simp add: U_def luaF_close_def)
      then have "uv_level U a = uv_level (L_uv M) a" by (simp add: uv_level_def uv_get_def)
      ultimately have "l < oldtop" using Open by (simp add: uv_level_def)
      then show ?thesis using Open by (simp add: uv_stk_indep stk xs_def) (simp add: uv_value_def stk)
    next
      case (Closed v)
      then show ?thesis by (simp add: uv_stk_indep) (simp add: uv_value_def)
    qed
    with U(2) show ?thesis by (simp add: M2_def put_stack_def)
  qed
  ultimately show ?thesis using c by (intro exI) (auto simp: N_def M2_def put_stack_def xs_def)
qed

text \<open>C6: When the function that is called throws, the protected call returns the status: the frames are the one of the
caller, as the call left it (\<open>luaD_precall\<close> has stored the position in it), and those below it, unchanged; the
number of C calls and the error function are those before the call, the base and the position those of the
caller's frame, the error value has replaced the function and the top is behind it, the other levels are as they
were at the throw, and no upvalue at the level of the function or above it is open any more; every upvalue that is
still there has the value it had. It is required that the call has not removed the caller's frame, and that the
stack and the open upvalues are well-formed at the throw.\<close>

theorem luaD_pcall_restores:
  assumes throw: "func (L\<lparr>L_errfunc := ef\<rparr>) = Inl (Throw status, M)" "status \<in> {ERRMEM, ERRERR, ERRSYNTAX, ERRRUN}"
    and frames: "L_ci L = ci # rest" "L_ci M = inner @ ci' # rest"
    and top: "0 < L_top M" "L_top M \<le> L_stacksize M" "oldtop < L_stacksize M"
    and uv: "uv_ok (L_uv M)"
  shows "\<exists>N. luaD_pcall func oldtop ef L = Inr (status, N)
    \<and> L_ci N = ci' # rest \<and> L_nCcalls N = L_nCcalls L \<and> L_errfunc N = L_errfunc L
    \<and> L_base N = fr_base ci' \<and> L_savedpc N = fr_savedpc ci'
    \<and> L_top N = oldtop + 1 \<and> L_stack N = (L_stack M)[oldtop := error_value status M]
    \<and> openupval (L_uv N) = filter (\<lambda>a. uv_level (L_uv M) a < oldtop) (openupval (L_uv M))
    \<and> (\<forall>a. uvs (L_uv N) a \<noteq> None \<longrightarrow> uv_value (L_uv N) a = uv_value (L_uv M) a)
    \<and> L_tables N = L_tables M \<and> L_closures N = L_closures M \<and> L_udata N = L_udata M \<and> L_gt N = L_gt M \<and> L_registry N = L_registry M"
  using assms by (rule pcall_error)

definition empty_proto :: Proto where
  "empty_proto = Proto [] [] [] [] [] [] None 0 0 0 0 0 2"

text \<open>\<open>luaD_call\<close> of a C function \<open>g\<close> at level 2: one raises an error, the other returns a string.\<close>

definition sample_host :: host where
  "sample_host =
     \<lparr>h_cfun = (\<lambda>g call. if g = 0 then thenV (pushobj (TString ''boom'')) (luaG_errormsg call)
                       else thenV (pushobj (TString ''ok'')) (returnV 1)),
      h_pow = (\<lambda>a b. a), h_strcoll = (\<lambda>a b. 0)\<rparr>"

definition c_stack :: "tvalue list" where
  "c_stack = [TNil, TFunction 1, TFunction 5] @ replicate 42 TNil"

definition c_function_state :: "nat \<Rightarrow> lua_State" where
  "c_function_state g = put_stack c_stack
     ((one_frame empty_proto)\<lparr>L_top := 3, L_savedpc := 7,
        L_closures := (L_closures (one_frame empty_proto))(5 \<mapsto> CFunction (luaF_newCclosure 0 0) g)\<rparr>)"

definition caller_frame :: frame where
  "caller_frame = \<lparr>fr_func = 1, fr_base = 2, fr_top = 4, fr_savedpc = 0, fr_nresults = - 1, fr_tailcalls = 0\<rparr>"

definition callee_frame :: frame where
  "callee_frame = \<lparr>fr_func = 2, fr_base = 3, fr_top = 23, fr_savedpc = 0, fr_nresults = - 1, fr_tailcalls = 0\<rparr>"

definition lower_frames :: "frame list" where
  "lower_frames = tl (L_ci (one_frame empty_proto))"

text \<open>The state in which the C function starts.\<close>

definition c_entered :: "nat \<Rightarrow> lua_State" where
  "c_entered g = (c_function_state g)\<lparr>L_errfunc := 0, L_nCcalls := 2, L_base := 3,
     L_ci := callee_frame # caller_frame\<lparr>fr_savedpc := 7\<rparr> # lower_frames\<rparr>"

lemma c_function_state_simps [simp]:
  "L_ci (c_function_state g) = caller_frame # lower_frames" "L_base (c_function_state g) = 2" "L_top (c_function_state g) = 3"
  "L_stack (c_function_state g) = c_stack" "L_errfunc (c_function_state g) = 0" "uv_ok (L_uv (c_function_state g))"
  by (simp_all add: c_function_state_def put_stack_def one_frame_def caller_frame_def lower_frames_def empty_proto_def uv_ok_def)

lemma c_stack_simps [simp]: "length c_stack = 45" "c_stack ! 2 = TFunction 5" "length lower_frames = 1"
  by (simp_all add: c_stack_def lower_frames_def one_frame_def)

lemma c_entered_simps [simp]:
  "L_ci (c_entered g) = callee_frame # caller_frame\<lparr>fr_savedpc := 7\<rparr> # lower_frames" "L_top (c_entered g) = 3" "L_errfunc (c_entered g) = 0"
  "L_stack (c_entered g) = c_stack" "uv_ok (L_uv (c_entered g))"
  by (simp_all add: c_entered_def)

text \<open>The real way through \<open>luaD_call\<close>, \<open>luaD_precall\<close> and \<open>inc_ci\<close>.\<close>

lemma call_enters:
  "luaD_call sample_host 1 2 (- 1) ((c_function_state g)\<lparr>L_errfunc := 0\<rparr>) =
     bindV (h_cfun sample_host g (luaD_call sample_host 0)) (\<lambda>n.
       thenV (if n < 0 then returnV () else readV L_top (\<lambda>top'. bindV (luaD_poscall (top' - nat n)) (\<lambda>b. returnV ())))
         (doV (\<lambda>L. L\<lparr>L_nCcalls := L_nCcalls L - 1\<rparr>))) (c_entered g)"
proof -
  define L where "L = (c_function_state g)\<lparr>L_errfunc := 0, L_nCcalls := 2\<rparr>"
  have n: "L_nCcalls (c_function_state g) = 1" by (simp add: c_function_state_def put_stack_def one_frame_def)
  have top: "L_top L = 3" "L_size_ci L = 8" "L_savedpc L = 7" "L_ci L = caller_frame # lower_frames" "L_stack L = c_stack" "L_nCcalls L = 2"
    by (simp_all add: L_def) (simp_all add: c_function_state_def put_stack_def one_frame_def)
  have f: "getobj 2 L = Inr (TFunction 5, L)" using top by (simp add: getobj_def)
  have cl: "clvalue 5 L = Inr (CFunction (luaF_newCclosure 0 0) g, L)"
    by (simp add: clvalue_def L_def c_function_state_def put_stack_def)
  have check: "check_ccalls call L = Inr ((), L)" for call using top by (simp add: check_ccalls_def)
  let ?L = "L\<lparr>L_ci := caller_frame\<lparr>fr_savedpc := 7\<rparr> # lower_frames\<rparr>"
  have mod: "readV L_savedpc (\<lambda>pc. mod_ci (\<lambda>ci. ci\<lparr>fr_savedpc := pc\<rparr>)) L = Inr ((), ?L)" using top by (simp add: mod_ci_def)
  have room: "luaD_checkstack LUA_MINSTACK ?L = Inr ((), ?L)" using top by (simp add: luaD_checkstack_def)
  have "L\<lparr>L_ci := callee_frame # caller_frame\<lparr>fr_savedpc := 7\<rparr> # lower_frames, L_base := 3\<rparr> = c_entered g"
    by (simp add: c_entered_def L_def)
  then have c: "precall_c sample_host call g 2 (- 1) ?L = bindV (h_cfun sample_host g call) (\<lambda>n.
       if n < 0 then returnV PCRYIELD else readV L_top (\<lambda>top''. thenV (luaD_poscall (top'' - nat n)) (returnV PCRC))) (c_entered g)" for call
    using top room by (simp add: precall_c_def inc_ci_def callee_frame_def)
  have pre: "luaD_precall sample_host call 2 (- 1) L = bindV (h_cfun sample_host g call) (\<lambda>n.
       if n < 0 then returnV PCRYIELD else readV L_top (\<lambda>top''. thenV (luaD_poscall (top'' - nat n)) (returnV PCRC))) (c_entered g)" for call
    using f cl mod c [of call] by (simp add: luaD_precall_def ttisfunction_def)
  have "luaD_call sample_host 1 2 (- 1) ((c_function_state g)\<lparr>L_errfunc := 0\<rparr>) =
      bindV (luaD_precall sample_host (luaD_call sample_host 0) 2 (- 1)) (\<lambda>r.
        thenV (if r = PCRLUA then luaV_execute sample_host (luaD_call sample_host 0) 0 1 else returnV ())
          (doV (\<lambda>L. L\<lparr>L_nCcalls := L_nCcalls L - 1\<rparr>))) L"
    using n check by (simp add: L_def)
  also have "\<dots> = bindV (h_cfun sample_host g (luaD_call sample_host 0)) (\<lambda>n.
       thenV (if n < 0 then returnV () else readV L_top (\<lambda>top'. bindV (luaD_poscall (top' - nat n)) (\<lambda>b. returnV ())))
         (doV (\<lambda>L. L\<lparr>L_nCcalls := L_nCcalls L - 1\<rparr>))) (c_entered g)"
    unfolding bindV_def pre by (auto simp: bindV_def thenV_def split: sum.split)
  finally show ?thesis .
qed

lemma push_entered:
  "pushobj v (c_entered g) = Inr ((), put_stack (c_stack[3 := v]) ((c_entered g)\<lparr>L_top := 4\<rparr>))"
proof -
  have "c_entered g = put_stack c_stack (c_entered g)" using put_stack_simps(4) [of "c_entered g"] by simp
  then have "setobj 3 v (c_entered g) = Inr ((), put_stack (c_stack[3 := v]) (c_entered g))" using setobj_put [of 3 c_stack v "c_entered g"] by simp
  then show ?thesis by (simp add: pushobj_def incr_top_def luaD_checkstack_def) (simp add: put_stack_def)
qed

lemma failing_call:
  "luaD_call sample_host 1 2 (- 1) ((c_function_state 0)\<lparr>L_errfunc := 0\<rparr>) =
     Inl (Throw ERRRUN, put_stack (c_stack[3 := TString ''boom'']) ((c_entered 0)\<lparr>L_top := 4\<rparr>))"
proof -
  let ?M = "put_stack (c_stack[3 := TString ''boom'']) ((c_entered 0)\<lparr>L_top := 4\<rparr>)"
  have "(luaG_errormsg call :: int V) ?M = Inl (Throw ERRRUN, ?M)" for call
    by (simp add: luaG_errormsg_def luaD_throw_def put_stack_def)
  then have "h_cfun sample_host 0 call (c_entered 0) = Inl (Throw ERRRUN, ?M)" for call
    using push_entered [of "TString ''boom''" 0] by (simp add: sample_host_def)
  then show ?thesis unfolding call_enters by simp
qed

theorem luaD_pcall_restores_witness:
  "\<exists>N. luaD_pcall (luaD_call sample_host 1 2 (- 1)) 2 0 (c_function_state 0) = Inr (ERRRUN, N)
    \<and> L_top N = 3 \<and> L_stack N ! 2 = TString ''boom'' \<and> L_base N = 2 \<and> L_savedpc N = 7
    \<and> L_ci N = caller_frame\<lparr>fr_savedpc := 7\<rparr> # lower_frames"
proof -
  define M where "M = put_stack (c_stack[3 := TString ''boom'']) ((c_entered 0)\<lparr>L_top := 4\<rparr>)"
  have M: "L_ci M = [callee_frame] @ caller_frame\<lparr>fr_savedpc := 7\<rparr> # lower_frames" "L_top M = 4" "L_stack M = c_stack[3 := TString ''boom'']"
    by (simp_all add: M_def put_stack_def)
  have "uv_ok (L_uv M)"
    by (simp add: M_def put_stack_def c_entered_def c_function_state_def one_frame_def uv_ok_def)
  moreover have "ERRRUN \<in> {ERRMEM, ERRERR, ERRSYNTAX, ERRRUN}" "0 < L_top M" "L_top M \<le> L_stacksize M" "2 < L_stacksize M"
    using M(2,3) by simp_all
  moreover have "luaD_call sample_host 1 2 (- 1) ((c_function_state 0)\<lparr>L_errfunc := 0\<rparr>) = Inl (Throw ERRRUN, M)"
    unfolding M_def by (rule failing_call)
  ultimately obtain N where
    "luaD_pcall (luaD_call sample_host 1 2 (- 1)) 2 0 (c_function_state 0) = Inr (ERRRUN, N)"
    "L_ci N = caller_frame\<lparr>fr_savedpc := 7\<rparr> # lower_frames" "L_base N = 2" "L_savedpc N = 7" "L_top N = 3"
    "L_stack N = (L_stack M)[2 := error_value ERRRUN M]"
    using luaD_pcall_restores [where func = "luaD_call sample_host 1 2 (- 1)" and ef = 0 and L = "c_function_state 0" and M = M
        and status = ERRRUN and oldtop = 2, OF _ _ c_function_state_simps(1) M(1)]
    by (auto simp: caller_frame_def)
  then show ?thesis using M by (intro exI [of _ N]) (simp add: error_value_def)
qed

end
