(* ===== verification/LuaArith.thy ===== *)
theory LuaArith
  imports LuaNumber
begin

text \<open>
  Subtraction of integers that a double holds.
\<close>

abbreviation exact_int :: "int \<Rightarrow> bool" where
  "exact_int k \<equiv> \<bar>k\<bar> < 9007199254740992"

lemma luai_numunm_cast_num:
  assumes "b \<noteq> 0" "exact_int b"
  shows "luai_numunm (cast_num b) = cast_num (- b)"
  using assms by (cases "b < 0") (simp_all add: luai_numunm_def cast_num_decode cast_num_eq [of "- b"])

lemma luai_numsub_cast_num:
  assumes "b \<noteq> 0" "exact_int a" "exact_int b" "exact_int (a - b)"
  shows "luai_numsub (cast_num a) (cast_num b) = cast_num (a - b)"
  using luai_numadd_cast_num [of a "- b"] assms by (simp add: luai_numsub_def luai_numunm_cast_num)

end
