(* ===== verification/LuaForLoop.thy ===== *)
theory LuaForLoop
  imports LuaVLemmas LuaArith LuaExec
begin

text \<open>
  The numerical \<open>for\<close>: with integers that a double holds, \<open>OP_FORPREP\<close> and \<open>OP_FORLOOP\<close> execute the body exactly as
  often as the bounds say, with the index of each turn, and then leave the loop.
\<close>

section \<open>Running a stretch of the code\<close>

text \<open>The instructions from \<open>pc\<close> lead to \<open>pc'\<close>, in a number of steps that does not depend on the bound.\<close>

definition reaches :: "host \<Rightarrow> vcaller \<Rightarrow> int \<Rightarrow> int \<times> lua_State \<Rightarrow> int \<times> lua_State \<Rightarrow> bool" where
  "reaches H call n = (\<lambda>(pc, L) (pc', L'). \<exists>k. \<forall>fuel. vm_loop H call (k + fuel) n pc L = vm_loop H call fuel n pc' L')"

lemma reaches_refl: "reaches H call n s s"
  by (auto simp: reaches_def intro: exI [of _ 0])

lemma reaches_trans:
  assumes "reaches H call n s t" "reaches H call n t u"
  shows "reaches H call n s u"
proof -
  obtain k where "\<And>fuel. vm_loop H call (k + fuel) n (fst s) (snd s) = vm_loop H call fuel n (fst t) (snd t)"
    using assms(1) by (auto simp: reaches_def split: prod.splits)
  moreover obtain m where "\<And>fuel. vm_loop H call (m + fuel) n (fst t) (snd t) = vm_loop H call fuel n (fst u) (snd u)"
    using assms(2) by (auto simp: reaches_def split: prod.splits)
  ultimately have "vm_loop H call (k + m + fuel) n (fst s) (snd s) = vm_loop H call fuel n (fst u) (snd u)" for fuel
    by (simp add: add.assoc)
  then show ?thesis unfolding reaches_def by (auto split: prod.splits intro!: exI [of _ "k + m"])
qed

lemma reaches_step: "vm_step H call n pc L = Inr (Continue pc', L') \<Longrightarrow> reaches H call n (pc, L) (pc', L')"
  by (auto simp: reaches_def intro!: exI [of _ 1])

text \<open>A Lua function runs in the innermost frame.\<close>

definition runs :: "LClosure \<Rightarrow> Proto \<Rightarrow> nat \<Rightarrow> lua_State \<Rightarrow> bool" where
  "runs c p b L \<longleftrightarrow>
     (case L_ci L of
        [] \<Rightarrow> False
      | ci # _ \<Rightarrow> fr_func ci < b \<and> L_base L = b \<and> fr_func ci < L_stacksize L
          \<and> (case L_stack L ! fr_func ci of
               TFunction a \<Rightarrow> L_closures L a = Some (LFunction c p)
             | _ \<Rightarrow> False))"

lemma runs_running: "runs c p b L \<Longrightarrow> running L = Inr ((c, p), L)"
  by (auto simp: runs_def running_def this_ci_def getobj_def clvalue_def split: list.splits tvalue.splits)

lemma runs_base: "runs c p b L \<Longrightarrow> L_base L = b"
  by (auto simp: runs_def split: list.splits)

text \<open>It goes on running when registers and the saved position change.\<close>

lemma runs_update:
  "runs c p b L \<Longrightarrow> b \<le> k \<Longrightarrow> runs c p b (put_stack ((L_stack L)[k := v]) L)"
  "runs c p b (L\<lparr>L_savedpc := q\<rparr>) = runs c p b L"
  by (auto simp: runs_def put_stack_def split: list.splits tvalue.splits)

text \<open>The instruction at a position, with its operands A and sBx.\<close>

definition instr_at :: "Proto \<Rightarrow> int \<Rightarrow> OpCode \<Rightarrow> nat \<Rightarrow> int \<Rightarrow> bool" where
  "instr_at p pc o' a sbx \<longleftrightarrow>
     0 \<le> pc \<and> pc < int (length (pt_code p)) \<and> op_of_num (GET_OPCODE (pt_code p ! nat pc)) = Some o'
     \<and> GETARG_A (pt_code p ! nat pc) = int a \<and> GETARG_sBx (pt_code p ! nat pc) = sbx"

lemma step_for:
  assumes "runs c p b L" "instr_at p pc o' a sbx"
  shows "o' = OP_FORLOOP \<Longrightarrow> vm_step H call n pc L = forloop_op (pc + 1) (b + a) sbx L"
    and "o' = OP_FORPREP \<Longrightarrow> vm_step H call n pc L = forprep_op call (pc + 1) (b + a) sbx L"
  using assms runs_running [OF assms(1)] runs_base [OF assms(1)]
  by (simp_all add: vm_step_def fetch_def instr_at_def read_at_def symbV_def vm_op_def Let_def)

section \<open>How often\<close>

definition for_count :: "int \<Rightarrow> int \<Rightarrow> int \<Rightarrow> nat" where
  "for_count i j s = (if 0 < s then nat ((j - i) div s + 1) else nat ((i - j) div (- s) + 1))"

lemma for_count_iff:
  assumes "s \<noteq> 0"
  shows "k < for_count i j s \<longleftrightarrow> (if 0 < s then i + int k * s \<le> j else j \<le> i + int k * s)"
proof -
  have "int k < d div t + 1 \<longleftrightarrow> int k * t \<le> d" if "0 < t" for d t :: int
  proof
    assume "int k < d div t + 1"
    then have "int k * t \<le> d div t * t" using that by simp
    also have "\<dots> \<le> d" using that by (simp add: minus_mod_eq_div_mult [symmetric])
    finally show "int k * t \<le> d" .
  next
    assume "int k * t \<le> d"
    then have "int k * t div t \<le> d div t" using that by (rule zdiv_mono1)
    then show "int k < d div t + 1" using that by simp
  qed
  from this [of s "j - i"] this [of "- s" "i - j"] show ?thesis
    using assms by (auto simp: for_count_def zless_nat_eq_int_zless)
qed

lemma for_index_exact:
  assumes "s \<noteq> 0" "\<bar>i\<bar> \<le> 4503599627370495" "\<bar>j\<bar> \<le> 4503599627370495" "\<bar>s\<bar> \<le> 4503599627370495" "k \<le> for_count i j s"
  shows "exact_int (i + int k * s)"
proof (cases k)
  case (Suc m)
  then have "m < for_count i j s" using assms(5) by simp
  then have m: "if 0 < s then i + int m * s \<le> j else j \<le> i + int m * s" using for_count_iff [OF assms(1)] by blast
  have k: "i + int k * s = i + int m * s + s" by (simp add: Suc algebra_simps)
  show ?thesis
  proof (cases "0 < s")
    case True
    then have "0 \<le> int m * s" "i + int m * s \<le> j" using m by simp_all
    then show ?thesis using assms(2-4) True unfolding k by linarith
  next
    case False
    then have "int m * s \<le> 0" "j \<le> i + int m * s" using m by (simp_all add: mult_nonneg_nonpos)
    then show ?thesis using assms(2-4) False unfolding k by linarith
  qed
qed (use assms in simp)

section \<open>The loop\<close>

text \<open>The control registers from the level \<open>ra\<close> on, when the index is \<open>x\<close>.\<close>

definition for_regs :: "nat \<Rightarrow> int \<Rightarrow> int \<Rightarrow> int \<Rightarrow> lua_State \<Rightarrow> bool" where
  "for_regs ra x j s L \<longleftrightarrow>
     ra + 3 < L_stacksize L \<and> L_stack L ! ra = TNumber (cast_num x) \<and> L_stack L ! (ra + 1) = TNumber (cast_num j)
     \<and> L_stack L ! (ra + 2) = TNumber (cast_num s)"

abbreviation set_index :: "nat \<Rightarrow> lua_Number \<Rightarrow> lua_State \<Rightarrow> lua_State" where
  "set_index ra x M \<equiv> put_stack ((L_stack M)[ra := TNumber x, ra + 3 := TNumber x]) M"

lemma nvalue_at: "k < L_stacksize L \<Longrightarrow> L_stack L ! k = TNumber x \<Longrightarrow> nvalue k L = Inr (x, L)"
  by (simp add: nvalue_def getobj_def)

lemma setobj_is_put: "k < L_stacksize L \<Longrightarrow> setobj k v L = Inr ((), put_stack ((L_stack L)[k := v]) L)"
  by (simp add: setobj_def put_stack_def)

lemma forloop_cases:
  assumes "for_regs ra x j s L" "s \<noteq> 0" "exact_int s" "exact_int x" "exact_int j" "exact_int (x + s)"
  shows "forloop_op pc ra sbx L =
    (if (if 0 < s then x + s \<le> j else j \<le> x + s) then Inr (Continue (pc + sbx), set_index ra (cast_num (x + s)) L)
     else Inr (Continue pc, L))"
proof -
  have "nvalue (ra + 2) L = Inr (cast_num s, L)" "nvalue ra L = Inr (cast_num x, L)" "nvalue (ra + 1) L = Inr (cast_num j, L)"
    using assms(1) by (simp_all add: for_regs_def nvalue_at)
  moreover have "luai_numadd (cast_num x) (cast_num s) = cast_num (x + s)" using assms by (intro luai_numadd_cast_num)
  moreover have "luai_numlt 0 (cast_num s) = (0 < s)" using luai_num_cast_num(1) [of 0 s] assms(3) by (simp add: cast_num_0)
  moreover have "luai_numle (cast_num (x + s)) (cast_num j) = (x + s \<le> j)" "luai_numle (cast_num j) (cast_num (x + s)) = (j \<le> x + s)"
    using luai_num_cast_num(2) assms by simp_all
  ultimately show ?thesis
    using assms(1) by (simp add: forloop_op_def for_regs_def setobj_is_put Let_def)
qed

lemma forprep_numbers:
  assumes "for_regs ra x j s L" "s \<noteq> 0" "exact_int s" "exact_int x" "exact_int (x - s)"
  shows "forprep_op call pc ra sbx L = Inr (Continue (pc + sbx),
    put_stack ((L_stack L)[ra := TNumber (cast_num (x - s))]) (L\<lparr>L_savedpc := pc\<rparr>))"
proof -
  let ?M = "L\<lparr>L_savedpc := pc\<rparr>"
  have "tonumber_at k ?M = Inr (True, ?M)" if "k \<in> {ra, ra + 1, ra + 2}" for k
    using assms(1) that by (auto simp: for_regs_def tonumber_at_def getobj_def ttisnumber_def)
  moreover have "nvalue (ra + 2) ?M = Inr (cast_num s, ?M)" "nvalue ra ?M = Inr (cast_num x, ?M)"
    using assms(1) by (simp_all add: for_regs_def nvalue_at)
  moreover have "luai_numsub (cast_num x) (cast_num s) = cast_num (x - s)" using assms by (intro luai_numsub_cast_num)
  moreover have "setobj ra v ?M = Inr ((), put_stack ((L_stack L)[ra := v]) ?M)" for v
    using assms(1) by (simp add: for_regs_def setobj_is_put)
  ultimately show ?thesis by (simp add: forprep_op_def Protect_def)
qed

lemma for_regs_update:
  "for_regs ra x j s M \<Longrightarrow> for_regs ra y j s (put_stack ((L_stack M)[ra := TNumber (cast_num y)]) M)"
  "for_regs ra x j s M \<Longrightarrow> for_regs ra y j s (set_index ra (cast_num y) M)"
  "for_regs ra x j s (M\<lparr>L_savedpc := q\<rparr>) = for_regs ra x j s M"
  by (simp_all add: for_regs_def)

text \<open>C5: A numerical \<open>for\<close> over integers below \<open>2 ^ 52\<close> with a step other than 0 ends. Its body is executed as often as
there are indices \<open>i + k * s\<close> up to the limit, in this order, with the index in its register; what the body keeps,
from one turn to the next, holds behind the loop for that number of turns.\<close>

theorem for_loop_counts:
  assumes run: "runs c p b L"
    and code: "instr_at p pc OP_FORPREP a d" "instr_at p (pc + 1 + d) OP_FORLOOP a (- d - 1)"
    and regs: "for_regs (b + a) i j s L" "s \<noteq> 0"
      "\<bar>i\<bar> \<le> 4503599627370495" "\<bar>j\<bar> \<le> 4503599627370495" "\<bar>s\<bar> \<le> 4503599627370495"
    and inv: "I 0 L"
      "\<And>k M v w q. I k M \<Longrightarrow> I k (put_stack ((L_stack M)[b + a := v, b + a + 3 := w]) (M\<lparr>L_savedpc := q\<rparr>))"
    and body: "\<And>k M. k < for_count i j s \<Longrightarrow> runs c p b M \<Longrightarrow> for_regs (b + a) (i + int k * s) j s M
        \<Longrightarrow> L_stack M ! (b + a + 3) = TNumber (cast_num (i + int k * s)) \<Longrightarrow> I k M
        \<Longrightarrow> \<exists>M'. reaches H call n (pc + 1, M) (pc + 1 + d, M') \<and> runs c p b M'
              \<and> for_regs (b + a) (i + int k * s) j s M' \<and> I (Suc k) M'"
  shows "\<exists>M. reaches H call n (pc, L) (pc + 1 + d + 1, M) \<and> runs c p b M \<and> I (for_count i j s) M"
proof -
  define ra q where "ra = b + a" and "q = pc + 1 + d"
  have small: "exact_int s" "exact_int i" "exact_int j" "exact_int (i - s)" using regs(3-5) by linarith+
  have exact: "exact_int (i + (int k - 1) * s)" if "k \<le> for_count i j s" for k
  proof (cases k)
    case (Suc m)
    then show ?thesis using for_index_exact [OF regs(2-5), of m] that by simp
  qed (use small(4) in simp)
  have turns: "\<exists>M. reaches H call n (pc, L) (q, M) \<and> runs c p b M \<and> for_regs ra (i + (int k - 1) * s) j s M \<and> I k M"
    if "k \<le> for_count i j s" for k
    using that
  proof (induction k)
    case 0
    define M where "M = put_stack ((L_stack L)[ra := TNumber (cast_num (i - s))]) (L\<lparr>L_savedpc := pc + 1\<rparr>)"
    have "vm_step H call n pc L = Inr (Continue q, M)"
      using forprep_numbers [OF regs(1,2) small(1,2,4)] unfolding step_for(2) [OF run code(1) refl] q_def M_def ra_def .
    then have "reaches H call n (pc, L) (q, M)" by (rule reaches_step)
    moreover have "runs c p b M"
      using runs_update(1) [of c p b "L\<lparr>L_savedpc := pc + 1\<rparr>" ra] run by (simp add: M_def runs_update(2) ra_def)
    moreover have "for_regs ra (i - s) j s M"
      using for_regs_update(1) [of ra i j s "L\<lparr>L_savedpc := pc + 1\<rparr>" "i - s"] regs(1) by (simp add: M_def for_regs_update(3) ra_def)
    moreover have "I 0 M"
      using inv(2) [OF inv(1), of "TNumber (cast_num (i - s))" "L_stack L ! (ra + 3)" "pc + 1"]
      by (simp add: M_def ra_def list_update_swap [of "b + a" "b + a + 3"])
    ultimately show ?case by auto
  next
    case (Suc k)
    then obtain M where M: "reaches H call n (pc, L) (q, M)" "runs c p b M" "for_regs ra (i + (int k - 1) * s) j s M" "I k M"
      by auto
    define x where "x = i + int k * s"
    have next': "i + (int k - 1) * s + s = x" by (simp add: x_def algebra_simps)
    let ?N = "set_index ra (cast_num x) M"
    have "exact_int x" using exact [OF Suc.prems] by (simp add: x_def)
    moreover have "if 0 < s then x \<le> j else j \<le> x" using for_count_iff [OF regs(2)] Suc.prems by (auto simp: x_def Suc_le_eq)
    moreover have "exact_int (i + (int k - 1) * s)" using Suc.prems by (intro exact) simp
    ultimately have "forloop_op (q + 1) ra (- d - 1) M = Inr (Continue (pc + 1), ?N)"
      using forloop_cases [OF M(3) regs(2) small(1) _ small(3), of "q + 1" "- d - 1"] unfolding next' by (simp add: q_def)
    then have step: "reaches H call n (q, M) (pc + 1, ?N)"
      using step_for(1) [OF M(2) code(2) refl] by (intro reaches_step) (simp add: q_def ra_def)
    have "runs c p b ?N" using runs_update(1) [OF runs_update(1) [OF M(2)], of ra "ra + 3"] by (simp add: ra_def)
    moreover have "for_regs ra x j s ?N" by (rule for_regs_update(2) [OF M(3)])
    moreover have "L_stack ?N ! (ra + 3) = TNumber (cast_num x)" using M(3) by (simp add: for_regs_def)
    moreover have "I k ?N" using inv(2) [OF M(4), of _ _ "L_savedpc M"] by (simp add: ra_def)
    ultimately obtain M' where "reaches H call n (pc + 1, ?N) (q, M')" "runs c p b M'" "for_regs ra x j s M'" "I (Suc k) M'"
      using body [of k ?N] Suc.prems unfolding x_def ra_def q_def by auto
    moreover from this(1) have "reaches H call n (pc, L) (q, M')" by (rule reaches_trans [OF M(1) reaches_trans [OF step]])
    ultimately show ?case by (auto simp: x_def)
  qed
  obtain M where M: "reaches H call n (pc, L) (q, M)" "runs c p b M" "for_regs ra (i + (int (for_count i j s) - 1) * s) j s M"
    "I (for_count i j s) M" using turns by blast
  define x where "x = i + int (for_count i j s) * s"
  have next': "i + (int (for_count i j s) - 1) * s + s = x" by (simp add: x_def algebra_simps)
  have "\<not> for_count i j s < for_count i j s" by simp
  then have "\<not> (if 0 < s then x \<le> j else j \<le> x)" using for_count_iff [OF regs(2), of "for_count i j s" i j] unfolding x_def by blast
  moreover have "exact_int x" using for_index_exact [OF regs(2-5) order_refl] by (simp add: x_def)
  ultimately have "forloop_op (q + 1) ra (- d - 1) M = Inr (Continue (q + 1), M)"
    using forloop_cases [OF M(3) regs(2) small(1) exact [OF order_refl] small(3), of "q + 1" "- d - 1"] unfolding next' by simp
  then have "reaches H call n (q, M) (q + 1, M)"
    using step_for(1) [OF M(2) code(2) refl] by (intro reaches_step) (simp add: q_def ra_def)
  then have "reaches H call n (pc, L) (q + 1, M)" by (rule reaches_trans [OF M(1)])
  then show ?thesis using M(2,4) by (auto simp: q_def)
qed

text \<open>The sum of the numbers from 1 to 10.\<close>

definition sum_proto :: Proto where
  "sum_proto = Proto [] [CREATE_ABx OP_FORPREP 0 (1 + MAXARG_sBx), CREATE_ABC OP_ADD 4 4 3,
     CREATE_ABx OP_FORLOOP 0 (MAXARG_sBx - 2)] [] [] [] [] None 0 0 0 0 0 5"

definition sum_start :: lua_State where
  "sum_start = put_stack ([TNil, TFunction 1, TNumber (cast_num 1), TNumber (cast_num 10), TNumber (cast_num 1), TNil,
     TNumber (cast_num 0)] @ replicate 38 TNil) (one_frame sum_proto)"

lemma sum_body:
  assumes "runs c sum_proto 2 M" "L_stacksize M = 45" "L_stack M ! 6 = TNumber (cast_num y)" "L_stack M ! 5 = TNumber (cast_num x)"
    and "exact_int x" "exact_int y" "exact_int (y + x)"
  shows "vm_step H call n 1 M = Inr (Continue 2, put_stack ((L_stack M)[6 := TNumber (cast_num (y + x))]) M)"
proof -
  have i: "fetch sum_proto 1 M = Inr (CREATE_ABC OP_ADD 4 4 3, M)" by (simp add: fetch_def sum_proto_def read_at_def symbV_def)
  have "RK sum_proto 2 4 M = Inr ((TNumber (cast_num y), Some 6), M)" "RK sum_proto 2 3 M = Inr ((TNumber (cast_num x), Some 5), M)"
    using assms(2-4) by (simp_all add: RK_def ISK_def getobj_def)
  moreover have "arith_num (h_pow H) TM_ADD (cast_num y) (cast_num x) = Some (cast_num (y + x))"
    using luai_numadd_cast_num [of y x] assms(5-7) by (simp add: arith_num_def)
  ultimately show ?thesis
    using runs_running [OF assms(1)] runs_base [OF assms(1)] i assms(2)
    by (simp add: vm_step_def CREATE_ABC_fields vm_op_def Let_def on_def arith_op_def arith_tm_def setobj_is_put)
qed

theorem for_loop_counts_witness:
  "\<forall>H call n. \<exists>M. reaches H call n (0, sum_start) (3, M) \<and> L_stack M ! 6 = TNumber (cast_num 55)"
proof (intro allI)
  fix H call n
  define I where "I = (\<lambda>k M. L_stacksize M = 45 \<and> L_stack M ! 6 = TNumber (cast_num (int k * (int k + 1) div 2)))"
  define c where "c = luaF_newLclosure 0 0"
  have run: "runs c sum_proto 2 sum_start" by (simp add: runs_def sum_start_def one_frame_def c_def put_stack_def)
  have code: "instr_at sum_proto 0 OP_FORPREP 0 1" "instr_at sum_proto (0 + 1 + 1) OP_FORLOOP 0 (- 1 - 1)"
    by (simp_all add: instr_at_def sum_proto_def GETARG_sBx_def CREATE_ABx_fields)
  have regs: "for_regs (2 + 0) 1 10 1 sum_start" by (simp add: for_regs_def sum_start_def)
  have cnt: "for_count 1 10 1 = 10" by (simp add: for_count_def)
  have i0: "I 0 sum_start" by (simp add: I_def sum_start_def)
  have upd: "I k (put_stack ((L_stack M)[2 + 0 := v, 2 + 0 + 3 := w]) (M\<lparr>L_savedpc := q\<rparr>))" if "I k M" for k M v w q
    using that by (simp add: I_def)
  have body: "\<exists>M'. reaches H call n (0 + 1, M) (0 + 1 + 1, M') \<and> runs c sum_proto 2 M' \<and> for_regs (2 + 0) (1 + int k * 1) 10 1 M' \<and> I (Suc k) M'"
    if k: "k < for_count 1 10 1" and M: "runs c sum_proto 2 M" "for_regs (2 + 0) (1 + int k * 1) 10 1 M"
      "L_stack M ! (2 + 0 + 3) = TNumber (cast_num (1 + int k * 1))" "I k M" for k M
  proof -
    define y where "y = int k * (int k + 1) div 2"
    have "int k * (int k + 1) \<le> 9 * 10" using k unfolding cnt by (intro mult_mono) auto
    then have y: "0 \<le> y" "y \<le> 45" by (auto simp: y_def)
    have next': "y + (1 + int k) = int (Suc k) * (int (Suc k) + 1) div 2"
    proof -
      have "int (Suc k) * (int (Suc k) + 1) = int k * (int k + 1) + (1 + int k) * 2" by (simp add: algebra_simps)
      then show ?thesis by (simp add: y_def)
    qed
    let ?M = "put_stack ((L_stack M)[6 := TNumber (cast_num (y + (1 + int k)))]) M"
    have "vm_step H call n 1 M = Inr (Continue 2, ?M)"
      using M k y unfolding cnt by (intro sum_body [OF M(1)]) (simp_all add: I_def y_def)
    then have "reaches H call n (1, M) (2, ?M)" by (rule reaches_step)
    moreover have "runs c sum_proto 2 ?M" using runs_update(1) [OF M(1), of 6] by simp
    moreover have "I (Suc k) ?M" using M(4) unfolding next' by (simp add: I_def)
    ultimately show ?thesis using M(2) by (intro exI [of _ ?M]) (simp add: for_regs_def)
  qed
  have "\<exists>M. reaches H call n (0, sum_start) (0 + 1 + 1 + 1, M) \<and> runs c sum_proto 2 M \<and> I (for_count 1 10 1) M"
    by (rule for_loop_counts [OF run code regs _ _ _ _ i0 upd body]) simp_all
  then show "\<exists>M. reaches H call n (0, sum_start) (3, M) \<and> L_stack M ! 6 = TNumber (cast_num 55)"
    by (auto simp: cnt I_def)
qed

end
