(* ===== verification/LuaApi.thy ===== *)
theory LuaApi
  imports LuaDo
begin

text \<open>
  lapi.c: the interface that C functions use. A function gets the state and, where it may call Lua functions or raise
  errors, \<open>luaD_call\<close> as \<open>call\<close>. The names of the functions that LuaAux defines on a list of arguments end in \<open>_api\<close> here.

  There is one thread: \<open>lua_newthread\<close>, \<open>lua_xmove\<close> and \<open>lua_tothread\<close> are left out, and so are the functions that only
  set what the host gave (\<open>lua_atpanic\<close>, \<open>lua_setallocf\<close>), and \<open>lua_gc\<close>. The checks of \<open>api_check\<close> are off in the
  program, as in the source; where the C code would then leave its objects the computation is undefined.
\<close>

abbreviation (input) LUA_REGISTRYINDEX :: int where "LUA_REGISTRYINDEX \<equiv> - 10000"
abbreviation (input) LUA_ENVIRONINDEX :: int where "LUA_ENVIRONINDEX \<equiv> - 10001"
abbreviation (input) LUA_GLOBALSINDEX :: int where "LUA_GLOBALSINDEX \<equiv> - 10002"

definition lua_upvalueindex :: "int \<Rightarrow> int" where
  "lua_upvalueindex i = LUA_GLOBALSINDEX - i"

section \<open>Indices\<close>

text \<open>What \<open>index2adr\<close> points to. \<open>L->env\<close> is a copy of the environment of the running function.\<close>

datatype location = NilObject | Level nat | Registry | Globals | Environ addr | CUpvalue addr nat

definition closure_env :: "closure \<Rightarrow> addr" where
  "closure_env cl = (case cl of CFunction c g \<Rightarrow> cc_env c | LFunction c p \<Rightarrow> lc_env c)"

definition curr_func :: "addr V" where
  "curr_func =
     this_ci (\<lambda>ci. bindV (getobj (fr_func ci)) (\<lambda>f. case f of TFunction a \<Rightarrow> returnV a | _ \<Rightarrow> stopV Undefined))"

definition index2adr_api :: "int \<Rightarrow> location V" where
  "index2adr_api idx =
     (if 0 < idx then
        readV (\<lambda>L. (L_base L + nat (idx - 1), L_top L)) (\<lambda>(o', top'). returnV (if top' \<le> o' then NilObject else Level o'))
      else if LUA_REGISTRYINDEX < idx then
        readV (\<lambda>L. int (L_top L) + idx) (\<lambda>k. if k < 0 then stopV Undefined else returnV (Level (nat k)))
      else if idx = LUA_REGISTRYINDEX then returnV Registry
      else if idx = LUA_ENVIRONINDEX then
        bindV curr_func (\<lambda>a. bindV (clvalue a) (\<lambda>func. returnV (Environ (closure_env func))))
      else if idx = LUA_GLOBALSINDEX then returnV Globals
      else
        bindV curr_func (\<lambda>a. bindV (clvalue a) (\<lambda>func.
          let n = LUA_GLOBALSINDEX - idx
          in case func of
               CFunction c g \<Rightarrow> returnV (if n \<le> cc_nupvalues c then CUpvalue a (nat (n - 1)) else NilObject)
             | LFunction c p \<Rightarrow> stopV Undefined)))"

definition read_location :: "location \<Rightarrow> tvalue V" where
  "read_location l =
     (case l of
        NilObject \<Rightarrow> returnV TNil
      | Level k \<Rightarrow> getobj k
      | Registry \<Rightarrow> readV L_registry returnV
      | Globals \<Rightarrow> readV L_gt returnV
      | Environ a \<Rightarrow> returnV (TTable a)
      | CUpvalue a n \<Rightarrow>
          bindV (clvalue a) (\<lambda>func.
            case func of
              CFunction c g \<Rightarrow> if n < length (cc_upvalue c) then returnV (cc_upvalue c ! n) else stopV Undefined
            | LFunction c p \<Rightarrow> stopV Undefined))"

definition put_closure :: "addr \<Rightarrow> closure \<Rightarrow> unit V" where
  "put_closure a cl = doV (\<lambda>L. L\<lparr>L_closures := (L_closures L)(a \<mapsto> cl)\<rparr>)"

text \<open>\<open>luaO_nilobject\<close> is constant.\<close>

definition write_location :: "location \<Rightarrow> tvalue \<Rightarrow> unit V" where
  "write_location l v =
     (case l of
        NilObject \<Rightarrow> stopV Undefined
      | Level k \<Rightarrow> setobj k v
      | Registry \<Rightarrow> doV (\<lambda>L. L\<lparr>L_registry := v\<rparr>)
      | Globals \<Rightarrow> doV (\<lambda>L. L\<lparr>L_gt := v\<rparr>)
      | Environ a \<Rightarrow> returnV ()
      | CUpvalue a n \<Rightarrow>
          bindV (clvalue a) (\<lambda>func.
            case func of
              CFunction c g \<Rightarrow>
                if n < length (cc_upvalue c) then put_closure a (CFunction (c\<lparr>cc_upvalue := (cc_upvalue c)[n := v]\<rparr>) g)
                else stopV Undefined
            | LFunction c p \<Rightarrow> stopV Undefined))"

definition value_at :: "int \<Rightarrow> tvalue V" where
  "value_at idx = bindV (index2adr_api idx) read_location"

text \<open>The value with its level, for the messages.\<close>

definition operand_at :: "int \<Rightarrow> operand V" where
  "operand_at idx =
     bindV (index2adr_api idx) (\<lambda>l. bindV (read_location l) (\<lambda>v.
       returnV (v, case l of Level k \<Rightarrow> Some k | _ \<Rightarrow> None)))"

text \<open>A value at the top, and \<open>api_incr_top\<close>.\<close>

definition api_push :: "tvalue \<Rightarrow> unit V" where
  "api_push v = readV L_top (\<lambda>top'. thenV (setobj top' v) (set_top (top' + 1)))"

definition drop_top :: "nat \<Rightarrow> unit V" where
  "drop_top n = readV L_top (\<lambda>top'. if top' < n then stopV Undefined else set_top (top' - n))"

definition top_value :: "nat \<Rightarrow> tvalue V" where
  "top_value n = readV L_top (\<lambda>top'. if top' < n then stopV Undefined else getobj (top' - n))"

definition getcurrenv :: "addr V" where
  "getcurrenv =
     readV (\<lambda>L. length (L_ci L)) (\<lambda>n.
       if n = 1 then readV L_gt (\<lambda>gt. case gt of TTable g \<Rightarrow> returnV g | _ \<Rightarrow> stopV Undefined)
       else bindV curr_func (\<lambda>a. bindV (clvalue a) (\<lambda>func. returnV (closure_env func))))"

definition luaA_pushobject :: "tvalue \<Rightarrow> unit V" where
  "luaA_pushobject o' = api_push o'"

section \<open>The stack\<close>

definition lua_checkstack :: "int \<Rightarrow> bool V" where
  "lua_checkstack size' =
     readV (\<lambda>L. int (L_top L) - int (L_base L) + size') (\<lambda>n.
       if LUAI_MAXCSTACK < n then returnV False
       else thenV (luaD_checkstack size')
              (readV (\<lambda>L. int (L_top L) + size') (\<lambda>need.
               thenV (mod_ci (\<lambda>ci. if int (fr_top ci) < need then ci\<lparr>fr_top := nat need\<rparr> else ci))
               (returnV True))))"

definition lua_gettop :: "int V" where
  "lua_gettop = readV (\<lambda>L. int (L_top L) - int (L_base L)) returnV"

definition lua_settop :: "int \<Rightarrow> unit V" where
  "lua_settop idx =
     readV (\<lambda>L. (L_base L, L_top L)) (\<lambda>(base', top').
       if 0 \<le> idx then
         thenV (eachV (\<lambda>k. setobj k TNil) [top'..<base' + nat idx]) (set_top (base' + nat idx))
       else drop_top (nat (- (idx + 1))))"

abbreviation (input) lua_pop :: "int \<Rightarrow> unit V" where "lua_pop n \<equiv> lua_settop (- n - 1)"

text \<open>A pointer that goes along the stack starts at a level of it.\<close>

definition stack_level :: "int \<Rightarrow> nat V" where
  "stack_level idx = bindV (index2adr_api idx) (\<lambda>l. case l of Level p \<Rightarrow> returnV p | _ \<Rightarrow> stopV Undefined)"

definition lua_remove :: "int \<Rightarrow> unit V" where
  "lua_remove idx =
     bindV (stack_level idx) (\<lambda>p0.
     readV L_top (\<lambda>top'.
     thenV (eachV (\<lambda>p. moveobj (p - 1) p) [p0 + 1..<top'])
     (drop_top 1)))"

definition lua_insert :: "int \<Rightarrow> unit V" where
  "lua_insert idx =
     bindV (stack_level idx) (\<lambda>p.
     readV L_top (\<lambda>top'.
     thenV (eachV (\<lambda>q. moveobj q (q - 1)) (rev [p + 1..<top' + 1]))
     (moveobj p top')))"

definition lua_replace :: "int \<Rightarrow> unit V" where
  "lua_replace idx =
     bindV (index2adr_api idx) (\<lambda>o'.
     bindV (top_value 1) (\<lambda>v.
     thenV (if idx = LUA_ENVIRONINDEX then
              (case v of
                 TTable e \<Rightarrow>
                   bindV curr_func (\<lambda>a. bindV (clvalue a) (\<lambda>func.
                     put_closure a (case func of CFunction c g \<Rightarrow> CFunction (c\<lparr>cc_env := e\<rparr>) g
                                               | LFunction c p \<Rightarrow> LFunction (c\<lparr>lc_env := e\<rparr>) p)))
               | _ \<Rightarrow> stopV Undefined)
            else write_location o' v)
     (drop_top 1)))"

definition lua_pushvalue :: "int \<Rightarrow> unit V" where
  "lua_pushvalue idx = bindV (value_at idx) api_push"

section \<open>Access to values\<close>

definition lua_type_api :: "int \<Rightarrow> int V" where
  "lua_type_api idx =
     bindV (index2adr_api idx) (\<lambda>l.
       if l = NilObject then returnV (- 1) else bindV (read_location l) (\<lambda>v. returnV (ttype v)))"

definition iscfunction :: "tvalue \<Rightarrow> bool V" where
  "iscfunction v =
     (case v of
        TFunction a \<Rightarrow> bindV (clvalue a) (\<lambda>cl. returnV (case cl of CFunction c g \<Rightarrow> True | LFunction c p \<Rightarrow> False))
      | _ \<Rightarrow> returnV False)"

definition lua_iscfunction :: "int \<Rightarrow> bool V" where
  "lua_iscfunction idx = bindV (value_at idx) iscfunction"

definition lua_isnumber_api :: "int \<Rightarrow> bool V" where
  "lua_isnumber_api idx = bindV (value_at idx) (\<lambda>v. returnV (luaV_tonumber v \<noteq> None))"

definition lua_isstring_api :: "int \<Rightarrow> bool V" where
  "lua_isstring_api idx = bindV (lua_type_api idx) (\<lambda>t. returnV (t = 4 \<or> t = 3))"

definition lua_isuserdata :: "int \<Rightarrow> bool V" where
  "lua_isuserdata idx = bindV (value_at idx) (\<lambda>v. returnV (ttype v = 7 \<or> ttype v = 2))"

definition lua_rawequal_api :: "int \<Rightarrow> int \<Rightarrow> bool V" where
  "lua_rawequal_api index1 index2 =
     bindV (index2adr_api index1) (\<lambda>l1. bindV (index2adr_api index2) (\<lambda>l2.
       if l1 = NilObject \<or> l2 = NilObject then returnV False
       else bindV (read_location l1) (\<lambda>o1. bindV (read_location l2) (\<lambda>o2. returnV (luaO_rawequalObj o1 o2)))))"

definition lua_equal :: "vcaller \<Rightarrow> int \<Rightarrow> int \<Rightarrow> bool V" where
  "lua_equal call index1 index2 =
     bindV (index2adr_api index1) (\<lambda>l1. bindV (index2adr_api index2) (\<lambda>l2.
       if l1 = NilObject \<or> l2 = NilObject then returnV False
       else bindV (read_location l1) (\<lambda>o1. bindV (read_location l2) (\<lambda>o2. equalobj call o1 o2))))"

definition lua_lessthan :: "collation \<Rightarrow> vcaller \<Rightarrow> int \<Rightarrow> int \<Rightarrow> bool V" where
  "lua_lessthan coll call index1 index2 =
     bindV (index2adr_api index1) (\<lambda>l1. bindV (index2adr_api index2) (\<lambda>l2.
       if l1 = NilObject \<or> l2 = NilObject then returnV False
       else bindV (read_location l1) (\<lambda>o1. bindV (read_location l2) (\<lambda>o2. luaV_lessthan coll call o1 o2))))"

definition lua_tonumber_api :: "int \<Rightarrow> lua_Number V" where
  "lua_tonumber_api idx =
     bindV (value_at idx) (\<lambda>v. returnV (case luaV_tonumber v of Some n \<Rightarrow> n | None \<Rightarrow> 0))"

definition lua_tointeger_api :: "int \<Rightarrow> int V" where
  "lua_tointeger_api idx =
     bindV (value_at idx) (\<lambda>v. returnV (case luaV_tonumber v of Some n \<Rightarrow> lua_number2integer n | None \<Rightarrow> 0))"

definition lua_toboolean_api :: "int \<Rightarrow> bool V" where
  "lua_toboolean_api idx = bindV (value_at idx) (\<lambda>v. returnV (\<not> l_isfalse v))"

text \<open>\<open>luaV_tostring\<close> replaces a number by its string where it is.\<close>

definition tostring_location :: "location \<Rightarrow> tvalue \<Rightarrow> string option V" where
  "tostring_location l v =
     (case luaV_tostring v of
        None \<Rightarrow> returnV None
      | Some s \<Rightarrow> thenV (write_location l (TString s)) (returnV (Some s)))"

definition lua_tolstring_api :: "int \<Rightarrow> string option V" where
  "lua_tolstring_api idx =
     bindV (index2adr_api idx) (\<lambda>l. bindV (read_location l) (\<lambda>v.
       case v of TString s \<Rightarrow> returnV (Some s) | _ \<Rightarrow> tostring_location l v))"

definition lua_objlen_api :: "int \<Rightarrow> int V" where
  "lua_objlen_api idx =
     bindV (index2adr_api idx) (\<lambda>l. bindV (read_location l) (\<lambda>v.
       case v of
         TString s \<Rightarrow> returnV (int (length s))
       | TUserData u \<Rightarrow> bindV (uvalue u) (\<lambda>d. returnV (u_len d))
       | TTable h \<Rightarrow> bindV (hvalue h) (\<lambda>t. case luaH_getn t of Some n \<Rightarrow> returnV n | None \<Rightarrow> stopV OutOfFuel)
       | TNumber n \<Rightarrow> bindV (tostring_location l v) (\<lambda>r. returnV (case r of Some s \<Rightarrow> int (length s) | None \<Rightarrow> 0))
       | _ \<Rightarrow> returnV 0))"

definition lua_tocfunction :: "int \<Rightarrow> nat option V" where
  "lua_tocfunction idx =
     bindV (value_at idx) (\<lambda>v.
       case v of
         TFunction a \<Rightarrow> bindV (clvalue a) (\<lambda>cl. returnV (case cl of CFunction c g \<Rightarrow> Some g | LFunction c p \<Rightarrow> None))
       | _ \<Rightarrow> returnV None)"

text \<open>The block of a userdata stands for its header.\<close>

definition lua_touserdata :: "int \<Rightarrow> addr option V" where
  "lua_touserdata idx =
     bindV (value_at idx) (\<lambda>v. returnV (case v of TUserData u \<Rightarrow> Some u | TLightUserData p \<Rightarrow> Some p | _ \<Rightarrow> None))"

definition lua_topointer :: "int \<Rightarrow> addr option V" where
  "lua_topointer idx =
     bindV (value_at idx) (\<lambda>v.
       case v of
         TTable a \<Rightarrow> returnV (Some a)
       | TFunction a \<Rightarrow> returnV (Some a)
       | TThread a \<Rightarrow> returnV (Some a)
       | TUserData a \<Rightarrow> lua_touserdata idx
       | TLightUserData a \<Rightarrow> lua_touserdata idx
       | _ \<Rightarrow> returnV None)"

section \<open>Pushing values\<close>

definition lua_pushnil :: "unit V" where "lua_pushnil = api_push TNil"

definition lua_pushnumber :: "lua_Number \<Rightarrow> unit V" where "lua_pushnumber n = api_push (TNumber n)"

definition lua_pushinteger :: "int \<Rightarrow> unit V" where "lua_pushinteger n = api_push (TNumber (cast_num n))"

definition lua_pushlstring :: "string \<Rightarrow> unit V" where "lua_pushlstring s = api_push (TString s)"

text \<open>A C string ends at its first zero; \<open>NULL\<close> is \<open>None\<close>.\<close>

definition lua_pushstring :: "string option \<Rightarrow> unit V" where
  "lua_pushstring s = (case s of None \<Rightarrow> lua_pushnil | Some s \<Rightarrow> lua_pushlstring (cstr s))"

text \<open>\<open>luaO_pushvfstring\<close> pushes with \<open>incr_top\<close>.\<close>

definition lua_pushfstring :: "string \<Rightarrow> farg list \<Rightarrow> string V" where
  "lua_pushfstring fmt args =
     (let ret = luaO_pushvfstring fmt args in thenV (pushobj (TString ret)) (returnV ret))"

definition lua_pushcclosure :: "nat \<Rightarrow> nat \<Rightarrow> unit V" where
  "lua_pushcclosure fn n =
     bindV getcurrenv (\<lambda>e.
     readV (\<lambda>L. (L_top L, L_stack L)) (\<lambda>(top', st).
     thenV (drop_top n)
     (bindV (new_closure (CFunction ((luaF_newCclosure (int n) e)\<lparr>cc_upvalue := take n (drop (top' - n) st)\<rparr>) fn)) (\<lambda>a.
      api_push (TFunction a)))))"

abbreviation (input) lua_pushcfunction :: "nat \<Rightarrow> unit V" where "lua_pushcfunction f \<equiv> lua_pushcclosure f 0"

definition lua_pushboolean :: "bool \<Rightarrow> unit V" where
  "lua_pushboolean b = api_push (TBoolean (if b then 1 else 0))"

definition lua_pushlightuserdata :: "addr \<Rightarrow> unit V" where
  "lua_pushlightuserdata p = api_push (TLightUserData p)"

text \<open>The address 0 is that of the main thread.\<close>

definition lua_pushthread :: "bool V" where
  "lua_pushthread = thenV (api_push (TThread 0)) (returnV True)"

section \<open>Tables and environments\<close>

definition lua_gettable :: "vcaller \<Rightarrow> int \<Rightarrow> unit V" where
  "lua_gettable call idx =
     bindV (operand_at idx) (\<lambda>t. bindV (top_value 1) (\<lambda>key. readV L_top (\<lambda>top'. luaV_gettable call t key (top' - 1))))"

definition lua_getfield :: "vcaller \<Rightarrow> int \<Rightarrow> string \<Rightarrow> unit V" where
  "lua_getfield call idx k =
     bindV (operand_at idx) (\<lambda>t.
     readV L_top (\<lambda>top'.
     thenV (luaV_gettable call t (TString k) top')
     (readV L_top (\<lambda>top'. set_top (top' + 1)))))"

definition table_at :: "int \<Rightarrow> addr V" where
  "table_at idx = bindV (value_at idx) (\<lambda>v. case v of TTable h \<Rightarrow> returnV h | _ \<Rightarrow> stopV Undefined)"

definition lua_rawget :: "int \<Rightarrow> unit V" where
  "lua_rawget idx =
     bindV (table_at idx) (\<lambda>h. bindV (hvalue h) (\<lambda>t. bindV (top_value 1) (\<lambda>key.
     readV L_top (\<lambda>top'. setobj (top' - 1) (read_slot t (luaH_get t key))))))"

definition lua_rawgeti_api :: "int \<Rightarrow> int \<Rightarrow> unit V" where
  "lua_rawgeti_api idx n =
     bindV (table_at idx) (\<lambda>h. bindV (hvalue h) (\<lambda>t. api_push (read_slot t (luaH_getnum t n))))"

definition lua_createtable :: "vcaller \<Rightarrow> nat \<Rightarrow> nat \<Rightarrow> unit V" where
  "lua_createtable call narray nrec =
     bindV (resV call (luaH_new narray nrec)) (\<lambda>t. bindV (new_table t) (\<lambda>a. api_push (TTable a)))"

definition lua_getmetatable :: "int \<Rightarrow> bool V" where
  "lua_getmetatable objindex =
     bindV (value_at objindex) (\<lambda>obj. bindV (metatable_of obj) (\<lambda>mt.
       case mt of None \<Rightarrow> returnV False | Some a \<Rightarrow> thenV (api_push (TTable a)) (returnV True)))"

definition lua_getfenv :: "int \<Rightarrow> unit V" where
  "lua_getfenv idx =
     bindV (value_at idx) (\<lambda>o'.
       case o' of
         TFunction a \<Rightarrow> bindV (clvalue a) (\<lambda>cl. api_push (TTable (closure_env cl)))
       | TUserData u \<Rightarrow> bindV (uvalue u) (\<lambda>d. api_push (TTable (u_env d)))
       | TThread a \<Rightarrow> readV L_gt api_push
       | _ \<Rightarrow> api_push TNil)"

definition lua_settable :: "vcaller \<Rightarrow> int \<Rightarrow> unit V" where
  "lua_settable call idx =
     bindV (operand_at idx) (\<lambda>t. bindV (top_value 2) (\<lambda>key. bindV (top_value 1) (\<lambda>val.
     thenV (luaV_settable call t key val) (drop_top 2))))"

definition lua_setfield :: "vcaller \<Rightarrow> int \<Rightarrow> string \<Rightarrow> unit V" where
  "lua_setfield call idx k =
     bindV (operand_at idx) (\<lambda>t. bindV (top_value 1) (\<lambda>val.
     thenV (luaV_settable call t (TString k) val) (drop_top 1)))"

definition lua_rawset :: "vcaller \<Rightarrow> int \<Rightarrow> unit V" where
  "lua_rawset call idx =
     bindV (table_at idx) (\<lambda>h. bindV (hvalue h) (\<lambda>t. bindV (top_value 2) (\<lambda>key. bindV (top_value 1) (\<lambda>val.
     bindV (resV call (luaH_set t key)) (\<lambda>(t1, s).
     thenV (put_table h (slot_set t1 s val)) (drop_top 2))))))"

definition lua_rawseti_api :: "vcaller \<Rightarrow> int \<Rightarrow> int \<Rightarrow> unit V" where
  "lua_rawseti_api call idx n =
     bindV (table_at idx) (\<lambda>h. bindV (hvalue h) (\<lambda>t. bindV (top_value 1) (\<lambda>val.
     bindV (resV call (luaH_setnum t n)) (\<lambda>(t1, s).
     thenV (put_table h (slot_set t1 s val)) (drop_top 1)))))"

definition put_udata :: "addr \<Rightarrow> userdata \<Rightarrow> unit V" where
  "put_udata a u = doV (\<lambda>L. L\<lparr>L_udata := (L_udata L)(a \<mapsto> u)\<rparr>)"

definition lua_setmetatable :: "int \<Rightarrow> unit V" where
  "lua_setmetatable objindex =
     bindV (value_at objindex) (\<lambda>obj. bindV (top_value 1) (\<lambda>v.
     bindV (case v of TNil \<Rightarrow> returnV None | TTable m \<Rightarrow> returnV (Some m) | _ \<Rightarrow> stopV Undefined) (\<lambda>mt.
     thenV (case obj of
              TTable h \<Rightarrow> bindV (hvalue h) (\<lambda>t. put_table h (t\<lparr>metatable := mt\<rparr>))
            | TUserData u \<Rightarrow> bindV (uvalue u) (\<lambda>d. put_udata u (d\<lparr>u_metatable := mt\<rparr>))
            | _ \<Rightarrow> doV (\<lambda>L. L\<lparr>L_mt := (L_mt L)(ttype obj := mt)\<rparr>))
     (drop_top 1))))"

text \<open>\<open>luaC_objbarrier\<close> reads the mark of the object, even if the value has none.\<close>

definition lua_setfenv :: "int \<Rightarrow> bool V" where
  "lua_setfenv idx =
     bindV (value_at idx) (\<lambda>o'. bindV (top_value 1) (\<lambda>v.
     bindV (case v of TTable e \<Rightarrow> returnV e | _ \<Rightarrow> stopV Undefined) (\<lambda>e.
     bindV (case o' of
              TFunction a \<Rightarrow>
                bindV (clvalue a) (\<lambda>cl.
                  thenV (put_closure a (case cl of CFunction c g \<Rightarrow> CFunction (c\<lparr>cc_env := e\<rparr>) g
                                                 | LFunction c p \<Rightarrow> LFunction (c\<lparr>lc_env := e\<rparr>) p)) (returnV True))
            | TUserData u \<Rightarrow> bindV (uvalue u) (\<lambda>d. thenV (put_udata u (d\<lparr>u_env := e\<rparr>)) (returnV True))
            | TThread a \<Rightarrow> thenV (doV (\<lambda>L. L\<lparr>L_gt := TTable e\<rparr>)) (returnV True)
            | _ \<Rightarrow> returnV False) (\<lambda>res.
     thenV (if iscollectable o' then returnV () else stopV Undefined)
     (thenV (drop_top 1) (returnV res))))))"

section \<open>Running code\<close>

definition adjustresults :: "int \<Rightarrow> unit V" where
  "adjustresults nres =
     readV L_top (\<lambda>top'. if nres = LUA_MULTRET then mod_ci (\<lambda>ci. if fr_top ci \<le> top' then ci\<lparr>fr_top := top'\<rparr> else ci) else returnV ())"

text \<open>The level of the function below its arguments.\<close>

definition func_below :: "int \<Rightarrow> nat V" where
  "func_below nargs = readV L_top (\<lambda>top'. if int top' < nargs + 1 then stopV Undefined else returnV (nat (int top' - (nargs + 1))))"

definition lua_call :: "vcaller \<Rightarrow> int \<Rightarrow> int \<Rightarrow> unit V" where
  "lua_call call nargs nresults =
     bindV (func_below nargs) (\<lambda>func. thenV (call func nresults) (adjustresults nresults))"

definition lua_pcall :: "vcaller \<Rightarrow> int \<Rightarrow> int \<Rightarrow> int \<Rightarrow> int V" where
  "lua_pcall call nargs nresults errfunc =
     bindV (if errfunc = 0 then returnV 0 else stack_level errfunc) (\<lambda>ef.
     bindV (func_below nargs) (\<lambda>func.
     bindV (luaD_pcall (call func nresults) func ef) (\<lambda>status.
     thenV (adjustresults nresults) (returnV status))))"

definition f_Ccall :: "vcaller \<Rightarrow> nat \<Rightarrow> addr \<Rightarrow> unit V" where
  "f_Ccall call func ud =
     bindV getcurrenv (\<lambda>e.
     bindV (new_closure (CFunction (luaF_newCclosure 0 e) func)) (\<lambda>a.
     thenV (api_push (TFunction a))
     (thenV (api_push (TLightUserData ud))
     (readV L_top (\<lambda>top'. call (top' - 2) 0)))))"

definition lua_cpcall :: "vcaller \<Rightarrow> nat \<Rightarrow> addr \<Rightarrow> int V" where
  "lua_cpcall call func ud = readV L_top (\<lambda>top'. luaD_pcall (f_Ccall call func ud) top' 0)"

text \<open>The reader is the list of the blocks that it delivers.\<close>

definition lua_load :: "(lua_Number \<Rightarrow> lua_Number \<Rightarrow> lua_Number) \<Rightarrow> vcaller \<Rightarrow> string list \<Rightarrow> string option \<Rightarrow> int V" where
  "lua_load pow call reader chunkname =
     luaD_protectedparser pow call (luaZ_init reader) (case chunkname of None \<Rightarrow> ''?'' | Some s \<Rightarrow> s)"

definition lua_dump :: "'d lua_Writer \<Rightarrow> 'd \<Rightarrow> ('d \<times> int) V" where
  "lua_dump writer data =
     bindV (top_value 1) (\<lambda>o'.
       case o' of
         TFunction a \<Rightarrow>
           bindV (clvalue a) (\<lambda>cl. returnV (case cl of LFunction c p \<Rightarrow> luaU_dump p writer data False | CFunction c g \<Rightarrow> (data, 1)))
       | _ \<Rightarrow> returnV (data, 1))"

definition lua_status :: "int V" where
  "lua_status = readV L_status returnV"

definition lua_error_api :: "vcaller \<Rightarrow> 'a V" where
  "lua_error_api call = luaG_errormsg call"

definition lua_next :: "vcaller \<Rightarrow> int \<Rightarrow> bool V" where
  "lua_next call idx =
     bindV (table_at idx) (\<lambda>h. bindV (hvalue h) (\<lambda>t. bindV (top_value 1) (\<lambda>key.
     bindV (resV call (luaH_next t key)) (\<lambda>r.
     readV L_top (\<lambda>top'.
       case r of
         Some (k, v) \<Rightarrow> thenV (setobj (top' - 1) k) (thenV (setobj top' v) (thenV (set_top (top' + 1)) (returnV True)))
       | None \<Rightarrow> thenV (drop_top 1) (returnV False))))))"

definition lua_concat :: "vcaller \<Rightarrow> nat \<Rightarrow> unit V" where
  "lua_concat call n =
     (if 2 \<le> n then
        readV (\<lambda>L. L_top L - L_base L - 1) (\<lambda>last'.
        thenV (luaV_concat call n last') (drop_top (n - 1)))
      else if n = 0 then api_push (TString [])
      else returnV ())"

definition lua_newuserdata :: "int \<Rightarrow> addr V" where
  "lua_newuserdata size' =
     bindV getcurrenv (\<lambda>e.
     bindV new_addr (\<lambda>u.
     thenV (put_udata u \<lparr>u_metatable = None, u_env = e, u_len = size'\<rparr>)
     (thenV (api_push (TUserData u)) (returnV u))))"

section \<open>Upvalues of a function\<close>

text \<open>The value is in a C closure, or it is that of an upvalue.\<close>

datatype upvalue_place = InClosure location | InUpVal addr

definition aux_upvalue :: "tvalue \<Rightarrow> int \<Rightarrow> (string \<times> upvalue_place) option V" where
  "aux_upvalue fi n =
     (case fi of
        TFunction a \<Rightarrow>
          bindV (clvalue a) (\<lambda>f.
            case f of
              CFunction c g \<Rightarrow>
                returnV (if \<not> (1 \<le> n \<and> n \<le> cc_nupvalues c) then None else Some ([], InClosure (CUpvalue a (nat (n - 1)))))
            | LFunction c p \<Rightarrow>
                if \<not> (1 \<le> n \<and> n \<le> int (length (pt_upvalues p))) then returnV None
                else bindV (upval_at c (n - 1)) (\<lambda>u.
                     bindV (someV (pt_upvalues p ! nat (n - 1))) (\<lambda>name.
                       returnV (Some (name, InUpVal u)))))
      | _ \<Rightarrow> returnV None)"

definition read_upvalue :: "upvalue_place \<Rightarrow> tvalue V" where
  "read_upvalue p = (case p of InClosure l \<Rightarrow> read_location l | InUpVal u \<Rightarrow> upval_get u)"

definition write_upvalue :: "upvalue_place \<Rightarrow> tvalue \<Rightarrow> unit V" where
  "write_upvalue p v = (case p of InClosure l \<Rightarrow> write_location l v | InUpVal u \<Rightarrow> upval_set u v)"

definition lua_getupvalue :: "int \<Rightarrow> int \<Rightarrow> string option V" where
  "lua_getupvalue funcindex n =
     bindV (value_at funcindex) (\<lambda>fi. bindV (aux_upvalue fi n) (\<lambda>r.
       case r of
         None \<Rightarrow> returnV None
       | Some (name, val) \<Rightarrow> bindV (read_upvalue val) (\<lambda>v. thenV (api_push v) (returnV (Some name)))))"

definition lua_setupvalue :: "int \<Rightarrow> int \<Rightarrow> string option V" where
  "lua_setupvalue funcindex n =
     bindV (value_at funcindex) (\<lambda>fi. bindV (aux_upvalue fi n) (\<lambda>r.
       case r of
         None \<Rightarrow> returnV None
       | Some (name, val) \<Rightarrow>
           bindV (top_value 1) (\<lambda>v. thenV (drop_top 1) (thenV (write_upvalue val v) (returnV (Some name))))))"

end
