(* ===== verification/LuaApiStack.thy ===== *)
theory LuaApiStack
  imports LuaApi LuaVLemmas
begin

text \<open>
  The stack of a C function as a list of values: what the operations of lapi.c on indices do to it. The contract is a
  locale; the access functions are those that LuaAux defines on lists of arguments.
\<close>

section \<open>States by their values\<close>

text \<open>The frame_values of the running function, between what is below its base and what is above the top.\<close>

definition with_values :: "tvalue list \<Rightarrow> tvalue list \<Rightarrow> tvalue list \<Rightarrow> lua_State \<Rightarrow> lua_State" where
  "with_values pre vs post L = put_stack (pre @ vs @ post) (L\<lparr>L_base := length pre, L_top := length pre + length vs\<rparr>)"

definition frame_values :: "lua_State \<Rightarrow> tvalue list" where
  "frame_values L = drop (L_base L) (take (L_top L) (L_stack L))"

text \<open>The levels above the top.\<close>

definition room :: "lua_State \<Rightarrow> nat" where
  "room L = L_stacksize L - L_top L"

definition frame_ok :: "lua_State \<Rightarrow> bool" where
  "frame_ok L \<longleftrightarrow> L_base L \<le> L_top L \<and> L_top L \<le> L_stacksize L"

text \<open>Everything but the values and the levels above them.\<close>

definition frame_rest :: "lua_State \<Rightarrow> tvalue list \<times> nat \<times> lua_State" where
  "frame_rest L = (take (L_base L) (L_stack L), L_stacksize L, put_stack [] (L\<lparr>L_top := 0\<rparr>))"

lemma with_values_simps [simp]:
  "L_base (with_values pre vs post L) = length pre" "L_top (with_values pre vs post L) = length pre + length vs"
  "L_stack (with_values pre vs post L) = pre @ vs @ post" "frame_values (with_values pre vs post L) = vs"
  "frame_ok (with_values pre vs post L)" "room (with_values pre vs post L) = length post"
  by (simp_all add: with_values_def frame_values_def frame_ok_def room_def)

lemma as_values:
  assumes "frame_ok L"
  obtains pre post where "L = with_values pre (frame_values L) post L" "length post = room L" "pre = take (L_base L) (L_stack L)"
proof -
  define pre post where "pre = take (L_base L) (L_stack L)" and "post = drop (L_top L) (L_stack L)"
  have le: "L_base L \<le> L_top L" "L_top L \<le> L_stacksize L" using assms by (simp_all add: frame_ok_def)
  have "take (L_top L) (L_stack L) = pre @ frame_values L"
    using append_take_drop_id [of "L_base L" "take (L_top L) (L_stack L)"] le by (simp add: pre_def frame_values_def min_absorb1)
  then have "L_stack L = pre @ frame_values L @ post"
    using append_take_drop_id [of "L_top L" "L_stack L"] by (simp add: post_def)
  moreover have "length pre = L_base L" "length (frame_values L) = L_top L - L_base L" using le by (simp_all add: pre_def frame_values_def)
  ultimately have "L = with_values pre (frame_values L) post L" using le(1) by (simp add: with_values_def put_stack_def)
  then show ?thesis using that [of pre post] le by (simp add: post_def room_def pre_def)
qed

lemma frame_cases:
  assumes "frame_ok s" obtains pre vs post L where "s = with_values pre vs post L"
  using as_values [OF assms] by metis

lemma frame_room:
  assumes "frame_ok s" "0 < room s" obtains pre vs x post L where "s = with_values pre vs (x # post) L"
proof -
  obtain pre post where "s = with_values pre (frame_values s) post s" "length post = room s" using as_values [OF assms(1)] by metis
  with assms(2) that show ?thesis by (cases post) auto
qed

lemma frame_rest_with_values: "frame_rest (with_values pre vs post L) = (pre, length pre + length vs + length post, put_stack [] (L\<lparr>L_base := length pre, L_top := 0\<rparr>))"
  by (simp add: frame_rest_def) (simp add: with_values_def put_stack_def)

section \<open>The operations\<close>

lemma set_top_values:
  "k \<le> length (vs @ post) \<Longrightarrow> set_top (length pre + k) (with_values pre vs post L) =
    Inr ((), with_values pre (take k (vs @ post)) (drop k (vs @ post)) L)"
  by (simp add: set_top_def with_values_def put_stack_def min_def del: append_assoc) simp

lemma api_push_values: "api_push v (with_values pre vs (x # post) L) = Inr ((), with_values pre (vs @ [v]) post L)"
proof -
  have "setobj (length pre + length vs) v (with_values pre vs (x # post) L) = Inr ((), with_values pre vs (v # post) L)"
    by (simp add: setobj_def) (simp add: with_values_def put_stack_def list_update_append)
  moreover have "set_top (length pre + length vs + 1) (with_values pre vs (v # post) L) = Inr ((), with_values pre (vs @ [v]) post L)"
    by (simp add: set_top_def with_values_def put_stack_def)
  ultimately show ?thesis by (simp add: api_push_def)
qed

text \<open>An index, positive or negative, of one of the values.\<close>

definition index_of :: "int \<Rightarrow> nat \<Rightarrow> nat \<Rightarrow> bool" where
  "index_of idx n i \<longleftrightarrow> i < n \<and> (idx = int i + 1 \<or> idx = int i - int n \<and> LUA_REGISTRYINDEX < idx)"

lemma index2adr_values:
  assumes "index_of idx (length vs) i"
  shows "index2adr_api idx (with_values pre vs post L) = Inr (Level (length pre + i), with_values pre vs post L)"
  using assms by (auto simp: index_of_def index2adr_api_def)

lemma value_at_values:
  assumes "index_of idx (length vs) i"
  shows "value_at idx (with_values pre vs post L) = Inr (vs ! i, with_values pre vs post L)"
proof -
  have "i < length vs" using assms by (simp add: index_of_def)
  then show ?thesis
    by (simp add: value_at_def index2adr_values [OF assms] read_location_def getobj_def nth_append)
qed

lemma stack_level_values:
  assumes "index_of idx (length vs) i"
  shows "stack_level idx (with_values pre vs post L) = Inr (length pre + i, with_values pre vs post L)"
  by (simp add: stack_level_def index2adr_values [OF assms])

lemma drop_top_values:
  "drop_top 1 (with_values pre (vs @ [v]) post L) = Inr ((), with_values pre vs (v # post) L)"
  by (simp add: drop_top_def set_top_def) (simp add: with_values_def put_stack_def)

text \<open>The levels from \<open>a\<close> to \<open>b\<close> moved down by one, and up by one.\<close>

lemma each_down:
  "a + n < length xs \<Longrightarrow> eachV (\<lambda>p. moveobj (p - 1) p) [a + 1..<a + 1 + n] (put_stack xs L) =
    Inr ((), put_stack (take a xs @ take n (drop (a + 1) xs) @ drop (a + n) xs) L)"
proof (induction n)
  case (Suc n)
  let ?ys = "take a xs @ take n (drop (a + 1) xs) @ drop (a + n) xs"
  have "drop (a + n) xs = xs ! (a + n) # drop (a + Suc n) xs"
    using Suc.prems by (simp add: Cons_nth_drop_Suc)
  then have u: "(drop (a + n) xs)[0 := v] = v # drop (a + Suc n) xs" for v by simp
  have "?ys ! (a + 1 + n) = xs ! (a + 1 + n)" using Suc.prems by (simp add: nth_append)
  moreover have "take (Suc n) (drop (a + 1) xs) = take n (drop (a + 1) xs) @ [xs ! (a + 1 + n)]"
    using Suc.prems by (simp add: take_Suc_conv_app_nth)
  ultimately have "?ys[a + n := ?ys ! (a + 1 + n)] = take a xs @ take (Suc n) (drop (a + 1) xs) @ drop (a + Suc n) xs"
    using Suc.prems u by (simp add: list_update_append)
  then have mv: "moveobj (a + 1 + n - 1) (a + 1 + n) (put_stack ?ys L) =
      Inr ((), put_stack (take a xs @ take (Suc n) (drop (a + 1) xs) @ drop (a + Suc n) xs) L)"
    using Suc.prems by simp
  have "eachV (\<lambda>p. moveobj (p - 1) p) [a + 1..<a + 1 + n] (put_stack xs L) = Inr ((), put_stack ?ys L)"
    using Suc.prems by (intro Suc.IH) simp
  from eachV_snoc [OF this mv] show ?case by simp
qed simp

lemma each_up:
  "a + n < length xs \<Longrightarrow> eachV (\<lambda>q. moveobj q (q - 1)) (rev [a + 1..<a + 1 + n]) (put_stack xs L) =
    Inr ((), put_stack (take (a + 1) xs @ take n (drop a xs) @ drop (a + 1 + n) xs) L)"
proof (induction n arbitrary: xs)
  case (Suc n)
  let ?xs = "xs[a + 1 + n := xs ! (a + n)]"
  have "eachV (\<lambda>q. moveobj q (q - 1)) (rev [a + 1..<a + 1 + n]) (put_stack ?xs L) =
      Inr ((), put_stack (take (a + 1) ?xs @ take n (drop a ?xs) @ drop (a + 1 + n) ?xs) L)"
    using Suc.prems by (intro Suc.IH) simp
  moreover have "take (a + 1) ?xs = take (a + 1) xs" "take n (drop a ?xs) = take n (drop a xs)" by (simp_all add: drop_update_swap)
  moreover have "drop (a + 1 + n) ?xs = xs ! (a + n) # drop (a + 1 + Suc n) xs"
    using Suc.prems by (simp add: drop_update_swap Cons_nth_drop_Suc [symmetric])
  moreover have "take (Suc n) (drop a xs) = take n (drop a xs) @ [xs ! (a + n)]" using Suc.prems by (simp add: take_Suc_conv_app_nth)
  ultimately show ?case using Suc.prems by simp
qed simp

lemma lua_pushvalue_values:
  assumes "index_of idx (length vs) i"
  shows "lua_pushvalue idx (with_values pre vs (x # post) L) = Inr ((), with_values pre (vs @ [vs ! i]) post L)"
  by (simp add: lua_pushvalue_def value_at_values [OF assms] api_push_values)

lemma lua_remove_values:
  assumes "index_of idx (length vs) i"
  shows "lua_remove idx (with_values pre vs post L) =
    Inr ((), with_values pre (take i vs @ drop (Suc i) vs) (last vs # post) L)"
proof -
  have i: "i < length vs" using assms by (simp add: index_of_def)
  define M where "M = L\<lparr>L_base := length pre, L_top := length pre + length vs\<rparr>"
  let ?xs = "pre @ vs @ post" and ?n = "length vs - Suc i" and ?us = "take i vs @ drop (Suc i) vs"
  have last': "drop (length vs - 1) vs = [last vs]" using i by (cases vs rule: rev_cases) auto
  have ab: "length pre + i + 1 + ?n = length pre + length vs" using i by simp
  have "eachV (\<lambda>p. moveobj (p - 1) p) [length pre + i + 1..<length pre + i + 1 + ?n] (put_stack ?xs M) =
      Inr ((), put_stack (take (length pre + i) ?xs @ take ?n (drop (length pre + i + 1) ?xs) @ drop (length pre + i + ?n) ?xs) M)"
    using i by (intro each_down) simp
  also have "take (length pre + i) ?xs @ take ?n (drop (length pre + i + 1) ?xs) @ drop (length pre + i + ?n) ?xs
      = pre @ (?us @ [last vs]) @ post"
    using i last' by (simp add: min_def)
  also have "put_stack (pre @ (?us @ [last vs]) @ post) M = with_values pre (?us @ [last vs]) post L"
  proof -
    have "length (?us @ [last vs]) = length vs" using i by simp
    then show ?thesis by (simp only: with_values_def M_def)
  qed
  finally have "eachV (\<lambda>p. moveobj (p - 1) p) [length pre + i + 1..<length pre + length vs] (with_values pre vs post L) =
      Inr ((), with_values pre (?us @ [last vs]) post L)" unfolding ab by (simp add: M_def with_values_def)
  then show ?thesis
    using drop_top_values [of pre ?us "last vs" post L] by (simp add: lua_remove_def stack_level_values [OF assms])
qed

lemma lua_insert_values:
  assumes "index_of idx (length vs + 1) i"
  shows "lua_insert idx (with_values pre (vs @ [v]) (x # post) L) =
    Inr ((), with_values pre (take i vs @ v # drop i vs) (v # post) L)"
proof -
  have i: "i \<le> length vs" using assms by (simp add: index_of_def)
  define M where "M = L\<lparr>L_base := length pre, L_top := length pre + Suc (length vs)\<rparr>"
  let ?xs = "pre @ (vs @ [v]) @ x # post" and ?n = "Suc (length vs) - i"
  let ?ys = "pre @ take i vs @ (vs @ [v]) ! i # drop i (vs @ [v]) @ post"
  have s: "with_values pre (vs @ [v]) (x # post) L = put_stack ?xs M" by (simp add: M_def with_values_def)
  have split: "drop (length pre + i) ?xs = drop i (vs @ [v]) @ x # post" using i by simp
  have ab: "length pre + i + 1 + ?n = length pre + Suc (length vs) + 1" using i by simp
  have "eachV (\<lambda>q. moveobj q (q - 1)) (rev [length pre + i + 1..<length pre + i + 1 + ?n]) (put_stack ?xs M) =
      Inr ((), put_stack (take (length pre + i + 1) ?xs @ take ?n (drop (length pre + i) ?xs) @ drop (length pre + i + 1 + ?n) ?xs) M)"
    using i by (intro each_up) simp
  also have "take (length pre + i + 1) ?xs = pre @ take i vs @ [(vs @ [v]) ! i]"
    using i by (simp add: take_Suc_conv_app_nth nth_append)
  also have "take ?n (drop (length pre + i) ?xs) = drop i (vs @ [v])" unfolding split using i by simp
  also have "drop (length pre + i + 1 + ?n) ?xs = post" using i unfolding ab by simp
  finally have up: "eachV (\<lambda>q. moveobj q (q - 1)) (rev [length pre + i + 1..<length pre + Suc (length vs) + 1]) (put_stack ?xs M) =
      Inr ((), put_stack ?ys M)" unfolding ab by simp
  have len: "length ?ys = length pre + Suc (Suc (length vs)) + length post" using i by simp
  have "?ys ! (length pre + Suc (length vs)) = v" "?ys[length pre + i := v] = pre @ (take i vs @ v # drop i vs) @ v # post"
    using i by (simp_all add: nth_append list_update_append nth_Cons' min_def)
  then have "moveobj (length pre + i) (length pre + Suc (length vs)) (put_stack ?ys M) =
      Inr ((), put_stack (pre @ (take i vs @ v # drop i vs) @ v # post) M)"
    using len i by simp
  moreover have "put_stack (pre @ (take i vs @ v # drop i vs) @ v # post) M = with_values pre (take i vs @ v # drop i vs) (v # post) L"
    using i by (simp add: M_def with_values_def)
  moreover have "stack_level idx (put_stack ?xs M) = Inr (length pre + i, put_stack ?xs M)"
    using stack_level_values [of idx "vs @ [v]" i pre "x # post" L] assms s by simp
  moreover have "L_top M = length pre + Suc (length vs)" by (simp add: M_def)
  ultimately show ?thesis using up unfolding s by (simp add: lua_insert_def del: upt_Suc)
qed

lemma lua_settop_values:
  assumes "n \<le> length vs + length post"
  shows "lua_settop (int n) (with_values pre vs post L) =
    Inr ((), with_values pre (take n (vs @ replicate (n - length vs) TNil)) (drop n (vs @ post)) L)"
proof (cases "n \<le> length vs")
  case True
  then show ?thesis using set_top_values [of n vs post pre L] by (simp add: lua_settop_def)
next
  case False
  define k where "k = n - length vs"
  then have n: "n = length vs + k" "take n (vs @ replicate (n - length vs) TNil) = vs @ replicate k TNil" "drop n (vs @ post) = drop k post"
    using False by simp_all
  define M where "M = L\<lparr>L_base := length pre, L_top := length pre + length vs\<rparr>"
  have "eachV (\<lambda>k. setobj k TNil) [length pre + length vs..<length pre + length vs + k] (put_stack (pre @ vs @ post) M) =
      Inr ((), put_stack (take (length pre + length vs) (pre @ vs @ post) @ replicate k TNil @ drop (length pre + length vs + k) (pre @ vs @ post)) M)"
    using assms n(1) by (intro each_nil) simp
  also have "\<dots> = Inr ((), put_stack (pre @ vs @ replicate k TNil @ drop k post) M)" by simp
  finally have "eachV (\<lambda>k. setobj k TNil) [length pre + length vs..<length pre + n] (with_values pre vs post L) =
      Inr ((), with_values pre vs (replicate k TNil @ drop k post) L)" by (simp add: M_def with_values_def n(1) add.assoc)
  moreover have "set_top (length pre + n) (with_values pre vs (replicate k TNil @ drop k post) L) =
      Inr ((), with_values pre (vs @ replicate k TNil) (drop k post) L)"
    using set_top_values [of n vs "replicate k TNil @ drop k post" pre L] assms n(1) by simp
  ultimately show ?thesis unfolding n(2,3) by (simp add: lua_settop_def)
qed

lemma lua_settop_negative:
  assumes "k \<le> length vs"
  shows "lua_settop (- int k - 1) (with_values pre vs post L) =
    Inr ((), with_values pre (take (length vs - k) vs) (drop (length vs - k) vs @ post) L)"
  using set_top_values [of "length vs - k" vs post pre L] assms
  by (simp add: lua_settop_def drop_top_def)

lemma lua_replace_values:
  assumes "index_of idx (length vs + 1) i"
  shows "lua_replace idx (with_values pre (vs @ [v]) post L) = Inr ((), with_values pre (vs[i := v]) (v # post) L)"
proof -
  have i: "i < length vs + 1" "idx \<noteq> LUA_ENVIRONINDEX" using assms by (auto simp: index_of_def)
  have "top_value 1 (with_values pre (vs @ [v]) post L) = Inr (v, with_values pre (vs @ [v]) post L)"
    by (simp add: top_value_def getobj_def nth_append)
  moreover have "write_location (Level (length pre + i)) v (with_values pre (vs @ [v]) post L) =
      Inr ((), with_values pre (vs[i := v] @ [v]) post L)"
    using i(1) by (simp add: write_location_def setobj_def) (auto simp: with_values_def put_stack_def list_update_append less_Suc_eq list_update_beyond)
  moreover have "index2adr_api idx (with_values pre (vs @ [v]) post L) = Inr (Level (length pre + i), with_values pre (vs @ [v]) post L)"
    using assms by (intro index2adr_values) simp
  ultimately show ?thesis using i(2) drop_top_values [of pre "vs[i := v]" v post L] by (simp add: lua_replace_def)
qed

section \<open>The contract\<close>

text \<open>
  What C functions rely on: the operations act on the list of their values, need a free level above the top where
  they push or insert, and leave everything else alone.
\<close>

locale value_stack =
  fixes valid :: "'s \<Rightarrow> bool" and view :: "'s \<Rightarrow> 'v list" and space :: "'s \<Rightarrow> nat" and outside :: "'s \<Rightarrow> 'r"
    and push :: "'v \<Rightarrow> 's \<Rightarrow> 's option" and copy :: "int \<Rightarrow> 's \<Rightarrow> 's option" and remove :: "int \<Rightarrow> 's \<Rightarrow> 's option"
    and insert_at :: "int \<Rightarrow> 's \<Rightarrow> 's option" and replace :: "int \<Rightarrow> 's \<Rightarrow> 's option"
  assumes push_law: "valid s \<Longrightarrow> 0 < space s \<Longrightarrow>
      \<exists>s'. push v s = Some s' \<and> valid s' \<and> view s' = view s @ [v] \<and> space s' = space s - 1 \<and> outside s' = outside s"
    and copy_law: "valid s \<Longrightarrow> 0 < space s \<Longrightarrow> index_of idx (length (view s)) i \<Longrightarrow>
      \<exists>s'. copy idx s = Some s' \<and> valid s' \<and> view s' = view s @ [view s ! i] \<and> space s' = space s - 1 \<and> outside s' = outside s"
    and remove_law: "valid s \<Longrightarrow> index_of idx (length (view s)) i \<Longrightarrow>
      \<exists>s'. remove idx s = Some s' \<and> valid s' \<and> view s' = take i (view s) @ drop (Suc i) (view s) \<and> space s' = space s + 1
        \<and> outside s' = outside s"
    and insert_law: "valid s \<Longrightarrow> 0 < space s \<Longrightarrow> view s = vs @ [v] \<Longrightarrow> index_of idx (length vs + 1) i \<Longrightarrow>
      \<exists>s'. insert_at idx s = Some s' \<and> valid s' \<and> view s' = take i vs @ v # drop i vs \<and> space s' = space s \<and> outside s' = outside s"
    and replace_law: "valid s \<Longrightarrow> view s = vs @ [v] \<Longrightarrow> index_of idx (length vs + 1) i \<Longrightarrow>
      \<exists>s'. replace idx s = Some s' \<and> valid s' \<and> view s' = vs[i := v] \<and> space s' = space s + 1 \<and> outside s' = outside s"
begin

text \<open>A value put before all others, as \<open>pcall\<close> does with its status.\<close>

lemma push_first:
  assumes "valid s" "2 \<le> space s"
  shows "\<exists>s1 s'. push v s = Some s1 \<and> insert_at 1 s1 = Some s' \<and> valid s' \<and> view s' = v # view s \<and> space s' = space s - 1
    \<and> outside s' = outside s"
proof -
  obtain s1 where s1: "push v s = Some s1" "valid s1" "view s1 = view s @ [v]" "space s1 = space s - 1" "outside s1 = outside s"
    using push_law [of s v] assms by auto
  then have "0 < space s1" using assms(2) by simp
  from insert_law [OF s1(2) this s1(3), of 1 0] s1 show ?thesis by (auto simp: index_of_def)
qed

text \<open>A value put below the last one, as \<open>load_aux\<close> does with nil.\<close>

lemma push_below_top:
  assumes "valid s" "2 \<le> space s" "view s = vs @ [w]"
  shows "\<exists>s1 s'. push v s = Some s1 \<and> insert_at (- 2) s1 = Some s' \<and> valid s' \<and> view s' = vs @ [v, w]
    \<and> outside s' = outside s"
proof -
  obtain s1 where s1: "push v s = Some s1" "valid s1" "view s1 = (vs @ [w]) @ [v]" "space s1 = space s - 1" "outside s1 = outside s"
    using push_law [of s v] assms by auto
  then have "0 < space s1" using assms(2) by simp
  from insert_law [OF s1(2) this s1(3), of "- 2" "length vs"] s1 show ?thesis by (auto simp: index_of_def)
qed

text \<open>A value copied and put in the place of another one.\<close>

lemma copy_to:
  assumes "valid s" "0 < space s" "index_of i (length (view s)) m" "index_of j (length (view s) + 1) n" "n < length (view s)"
  shows "\<exists>s1 s'. copy i s = Some s1 \<and> replace j s1 = Some s' \<and> valid s' \<and> view s' = (view s)[n := view s ! m] \<and> outside s' = outside s"
proof -
  obtain s1 where s1: "copy i s = Some s1" "valid s1" "view s1 = view s @ [view s ! m]" "outside s1 = outside s"
    using copy_law [OF assms(1-3)] by auto
  from replace_law [OF s1(2,3) assms(4)] s1 show ?thesis by auto
qed

end

definition run :: "'a V \<Rightarrow> lua_State \<Rightarrow> lua_State option" where
  "run m L = (case m L of Inr (x, L') \<Rightarrow> Some L' | Inl e \<Rightarrow> None)"

lemma run_Inr [simp]: "m L = Inr (x, L') \<Longrightarrow> run m L = Some L'"
  by (simp add: run_def)

lemma run_unit: "run m L = Some L' \<Longrightarrow> m L = Inr ((), L')" for m :: "unit V"
  by (simp add: run_def split: sum.splits prod.splits)

interpretation api: value_stack frame_ok frame_values room frame_rest
  "\<lambda>v. run (api_push v)" "\<lambda>i. run (lua_pushvalue i)" "\<lambda>i. run (lua_remove i)" "\<lambda>i. run (lua_insert i)" "\<lambda>i. run (lua_replace i)"
proof
  fix s v assume s: "frame_ok s" "0 < room s"
  then obtain pre vs x post L where "s = with_values pre vs (x # post) L" by (rule frame_room)
  then show "\<exists>s'. run (api_push v) s = Some s' \<and> frame_ok s' \<and> frame_values s' = frame_values s @ [v] \<and> room s' = room s - 1
      \<and> frame_rest s' = frame_rest s"
    by (simp add: api_push_values frame_rest_with_values)
next
  fix s idx i assume s: "frame_ok s" "0 < room s" "index_of idx (length (frame_values s)) i"
  from s(1,2) obtain pre vs x post L where "s = with_values pre vs (x # post) L" by (rule frame_room)
  then show "\<exists>s'. run (lua_pushvalue idx) s = Some s' \<and> frame_ok s' \<and> frame_values s' = frame_values s @ [frame_values s ! i]
      \<and> room s' = room s - 1 \<and> frame_rest s' = frame_rest s"
    using s(3) by (simp add: lua_pushvalue_values frame_rest_with_values)
next
  fix s idx i assume s: "frame_ok s" "index_of idx (length (frame_values s)) i"
  from s(1) obtain pre vs post L where "s = with_values pre vs post L" by (rule frame_cases)
  then show "\<exists>s'. run (lua_remove idx) s = Some s' \<and> frame_ok s'
      \<and> frame_values s' = take i (frame_values s) @ drop (Suc i) (frame_values s) \<and> room s' = room s + 1 \<and> frame_rest s' = frame_rest s"
    using s(2) by (auto simp: lua_remove_values frame_rest_with_values index_of_def)
next
  fix s ws w idx i assume s: "frame_ok s" "0 < room s" "frame_values s = ws @ [w]" "index_of idx (length ws + 1) i"
  from s(1,2) obtain pre vs x post L where "s = with_values pre vs (x # post) L" by (rule frame_room)
  moreover from this s(3) have "vs = ws @ [w]" by simp
  ultimately show "\<exists>s'. run (lua_insert idx) s = Some s' \<and> frame_ok s' \<and> frame_values s' = take i ws @ w # drop i ws \<and> room s' = room s
      \<and> frame_rest s' = frame_rest s"
    using s(4) by (auto simp: lua_insert_values frame_rest_with_values index_of_def)
next
  fix s ws w idx i assume s: "frame_ok s" "frame_values s = ws @ [w]" "index_of idx (length ws + 1) i"
  from s(1) obtain pre vs post L where "s = with_values pre vs post L" by (rule frame_cases)
  moreover from this s(2) have "vs = ws @ [w]" by simp
  ultimately show "\<exists>s'. run (lua_replace idx) s = Some s' \<and> frame_ok s' \<and> frame_values s' = ws[i := w] \<and> room s' = room s + 1
      \<and> frame_rest s' = frame_rest s"
    using s(3) by (simp add: lua_replace_values frame_rest_with_values)
qed

section \<open>Properties\<close>

text \<open>C16: The operations on the stack are operations on the list of values of the running function: a valid index, from the
base or from the top, selects a value, which is copied, removed, exchanged for the last one or put before it; where
a value is pushed or inserted one more level must be free. What is below the base, the size of the stack and the
rest of the state do not change.\<close>

theorem api_stack_operations:
  assumes "frame_ok L" "0 < room L" "frame_values L = vs @ [v]" "index_of idx (length vs + 1) i"
  shows "\<exists>A B C D. lua_pushvalue idx L = Inr ((), A) \<and> frame_values A = vs @ [v, (vs @ [v]) ! i]
    \<and> lua_remove idx L = Inr ((), B) \<and> frame_values B = take i (vs @ [v]) @ drop (Suc i) (vs @ [v])
    \<and> lua_insert idx L = Inr ((), C) \<and> frame_values C = take i vs @ v # drop i vs
    \<and> lua_replace idx L = Inr ((), D) \<and> frame_values D = vs[i := v]
    \<and> (\<forall>M \<in> {A, B, C, D}. frame_ok M \<and> frame_rest M = frame_rest L)"
proof -
  have idx: "index_of idx (length (frame_values L)) i" using assms(3,4) by simp
  from api.copy_law [OF assms(1,2) idx] obtain A
    where A: "run (lua_pushvalue idx) L = Some A" "frame_values A = frame_values L @ [frame_values L ! i]" "frame_ok A" "frame_rest A = frame_rest L"
    by blast
  from api.remove_law [OF assms(1) idx] obtain B
    where B: "run (lua_remove idx) L = Some B" "frame_values B = take i (frame_values L) @ drop (Suc i) (frame_values L)" "frame_ok B"
      "frame_rest B = frame_rest L" by blast
  from api.insert_law [OF assms] obtain C
    where C: "run (lua_insert idx) L = Some C" "frame_values C = take i vs @ v # drop i vs" "frame_ok C" "frame_rest C = frame_rest L" by blast
  from api.replace_law [OF assms(1,3,4)] obtain D
    where D: "run (lua_replace idx) L = Some D" "frame_values D = vs[i := v]" "frame_ok D" "frame_rest D = frame_rest L" by blast
  show ?thesis
    using run_unit [OF A(1)] run_unit [OF B(1)] run_unit [OF C(1)] run_unit [OF D(1)] A(2-4) B(2-4) C(2-4) D(2-4) assms(3)
    by (intro exI [of _ A] exI [of _ B] exI [of _ C] exI [of _ D]) simp
qed

theorem api_stack_operations_witness:
  "\<exists>A. lua_insert (- 2) (with_values [TNil] [TBoolean 0, TBoolean 1] [TNil, TNil] (one_frame luaF_newproto)) = Inr ((), A)
     \<and> frame_values A = [TBoolean 1, TBoolean 0]"
  using api_stack_operations [of "with_values [TNil] [TBoolean 0, TBoolean 1] [TNil, TNil] (one_frame luaF_newproto)"
    "[TBoolean 0]" "TBoolean 1" "- 2" 0]
  by (auto simp: index_of_def)

text \<open>C40: What a C function sees through its positive indices is the list of its arguments that LuaAux takes for it: the access
functions have the values they have on the list, also for an index behind the last argument.\<close>

theorem api_arguments:
  assumes "frame_ok L" "0 < n" "0 < m"
  shows "lua_type_api (int n) L = Inr (lua_type (frame_values L) n, L)
    \<and> lua_isnumber_api (int n) L = Inr (lua_isnumber (frame_values L) n, L)
    \<and> lua_isstring_api (int n) L = Inr (lua_isstring (frame_values L) n, L)
    \<and> lua_tonumber_api (int n) L = Inr (lua_tonumber (frame_values L) n, L)
    \<and> lua_tointeger_api (int n) L = Inr (lua_tointeger (frame_values L) n, L)
    \<and> lua_toboolean_api (int n) L = Inr (lua_toboolean (frame_values L) n, L)
    \<and> lua_rawequal_api (int n) (int m) L = Inr (lua_rawequal (frame_values L) n m, L)"
proof -
  obtain pre vs post M where L: "L = with_values pre vs post M" using assms(1) by (rule frame_cases)
  have loc: "index2adr_api (int k) L = Inr (if k \<le> length vs then Level (length pre + (k - 1)) else NilObject, L)" if "0 < k" for k
    using that by (auto simp: index2adr_api_def L nat_diff_distrib)
  have rd: "read_location (if k \<le> length vs then Level (length pre + (k - 1)) else NilObject) L = Inr (arg_value vs k, L)"
    if "0 < k" for k
    using that by (auto simp: read_location_def L getobj_def nth_append arg_value_def index2adr_def)
  have val: "value_at (int k) L = Inr (arg_value vs k, L)" if "0 < k" for k
    using loc [OF that] rd [OF that] by (simp add: value_at_def)
  have vs: "frame_values L = vs" by (simp add: L)
  have type: "lua_type_api (int n) L = Inr (lua_type vs n, L)"
    using loc [OF assms(2)] rd [OF assms(2)] assms(2) by (auto simp: lua_type_api_def lua_type_def index2adr_def arg_value_def)
  have "lua_rawequal_api (int n) (int m) L = Inr (lua_rawequal vs n m, L)"
    using loc [OF assms(2)] rd [OF assms(2)] loc [OF assms(3)] rd [OF assms(3)] assms(2,3)
    by (auto simp: lua_rawequal_api_def lua_rawequal_def index2adr_def arg_value_def)
  with type show ?thesis
    unfolding vs using val [OF assms(2)]
    by (simp add: lua_isnumber_api_def lua_isnumber_def lua_isstring_api_def lua_isstring_def lua_tonumber_api_def lua_tonumber_def
        lua_tointeger_api_def lua_tointeger_def lua_toboolean_api_def lua_toboolean_def Let_def)
qed

theorem api_arguments_witness:
  "lua_type_api 3 (with_values [TNil] [TBoolean 0, TBoolean 1] [TNil, TNil] (one_frame luaF_newproto)) =
    Inr (- 1, with_values [TNil] [TBoolean 0, TBoolean 1] [TNil, TNil] (one_frame luaF_newproto))"
  using api_arguments [of "with_values [TNil] [TBoolean 0, TBoolean 1] [TNil, TNil] (one_frame luaF_newproto)" 3 1]
  by (simp add: lua_type_def index2adr_def)

end
