(* ===== verification/LuaLaux.thy ===== *)
theory LuaLaux
  imports LuaApi
begin

text \<open>
  lauxlib.c on the state: error messages with their position, metatables, the registration of libraries, the string
  buffer and references. The checks of arguments are those of LuaAux, on the list of the arguments; what they raise is
  raised here by \<open>luaL_error_api\<close>. Files (\<open>luaL_loadfile\<close>) are left out.
\<close>

section \<open>Errors\<close>

definition empty_info :: DebugInfo where
  "empty_info =
     \<lparr>d_name = None, d_namewhat = [], d_what = [], d_source = [], d_currentline = 0, d_nups = 0, d_linedefined = 0,
      d_lastlinedefined = 0, d_short_src = []\<rparr>"

text \<open>\<open>lua_getinfo\<close> of the frame that \<open>lua_getstack\<close> found; frame 0 stands for a lost tail call.\<close>

definition lua_getinfo :: "string \<Rightarrow> nat \<Rightarrow> DebugInfo V" where
  "lua_getinfo what i_ci =
     bindV (readV debug_view (\<lambda>D.
              symbV (if i_ci \<noteq> 0 then auxgetinfo D what empty_info (Some (ci_fun (base_ci D ! i_ci))) (Some i_ci)
                     else auxgetinfo D what empty_info None None))) (\<lambda>(status, ar).
     thenV (if CHR ''f'' \<in> set what then
              (if i_ci = 0 then thenV (readV L_top (\<lambda>top'. setobj top' TNil)) incr_top
               else bindV (readV debug_view (\<lambda>D. getobj (ci_func (base_ci D ! i_ci)))) (\<lambda>f.
                      thenV (readV L_top (\<lambda>top'. setobj top' f)) incr_top))
            else returnV ())
     (returnV ar))"

definition luaL_where :: "int \<Rightarrow> unit V" where
  "luaL_where level =
     readV debug_view (\<lambda>D.
       case lua_getstack D level of
         None \<Rightarrow> lua_pushlstring []
       | Some n \<Rightarrow>
           bindV (lua_getinfo ''Sl'' n) (\<lambda>ar.
             if 0 < d_currentline ar then
               bindV (lua_pushfstring ''%s:%d: '' [FStr (Some (d_short_src ar)), FInt (d_currentline ar)]) (\<lambda>s. returnV ())
             else lua_pushlstring []))"

definition luaL_error_api :: "vcaller \<Rightarrow> string \<Rightarrow> 'a V" where
  "luaL_error_api call msg =
     thenV (luaL_where 1)
     (thenV (pushobj (TString msg))
     (thenV (lua_concat call 2)
     (lua_error_api call)))"

text \<open>The arguments of the running function, and what \<open>luaL_argerror\<close> finds out about its name; it is asked for the name when
the check of an argument fails.\<close>

definition arguments :: "tvalue list V" where
  "arguments = readV (\<lambda>L. drop (L_base L) (take (L_top L) (L_stack L))) returnV"

definition no_info :: lua_Debug where
  "no_info = \<lparr>has_frame = False, ar_name = None, namewhat = []\<rparr>"

definition argument_info :: "lua_Debug V" where
  "argument_info =
     readV debug_view (\<lambda>D.
       case lua_getstack D 0 of
         None \<Rightarrow> returnV no_info
       | Some n \<Rightarrow>
           bindV (lua_getinfo ''n'' n) (\<lambda>ar. returnV \<lparr>has_frame = True, ar_name = d_name ar, namewhat = d_namewhat ar\<rparr>))"

definition with_args :: "vcaller \<Rightarrow> (lua_Debug \<Rightarrow> tvalue list \<Rightarrow> 'a res) \<Rightarrow> 'a V" where
  "with_args call f =
     bindV arguments (\<lambda>args.
       case f no_info args of
         Inr x \<Rightarrow> returnV x
       | Inl e \<Rightarrow>
           bindV argument_info (\<lambda>ar.
             case f ar args of
               Inl (LUA_ERRRUN msg) \<Rightarrow> luaL_error_api call msg
             | _ \<Rightarrow> stopV Undefined))"

definition luaL_argerror_api :: "vcaller \<Rightarrow> nat \<Rightarrow> string \<Rightarrow> 'a V" where
  "luaL_argerror_api call narg extramsg = with_args call (\<lambda>ar args. luaL_argerror ar narg extramsg)"

fun find_option :: "string list \<Rightarrow> string \<Rightarrow> nat option" where
  "find_option [] name = None"
| "find_option (o' # lst) name =
     (if cstr o' = cstr name then Some 0 else map_option Suc (find_option lst name))"

definition luaL_checkoption :: "lua_Debug \<Rightarrow> tvalue list \<Rightarrow> nat \<Rightarrow> string option \<Rightarrow> string list \<Rightarrow> nat res" where
  "luaL_checkoption ar args narg def lst =
     bindE (case def of Some d \<Rightarrow> luaL_optlstring ar args narg d | None \<Rightarrow> luaL_checklstring ar args narg) (\<lambda>name.
       case find_option lst name of
         Some i \<Rightarrow> Inr i
       | None \<Rightarrow> luaL_argerror ar narg (luaO_pushvfstring (''invalid option '' @ LUA_QL ''%s'') [FStr (Some name)]))"

section \<open>Metatables\<close>

definition luaL_newmetatable :: "vcaller \<Rightarrow> string \<Rightarrow> bool V" where
  "luaL_newmetatable call tname =
     thenV (lua_getfield call LUA_REGISTRYINDEX tname)
     (bindV (lua_type_api (- 1)) (\<lambda>t.
       if t \<noteq> 0 then returnV False
       else thenV (lua_pop 1)
            (thenV (lua_createtable call 0 0)
            (thenV (lua_pushvalue (- 1))
            (thenV (lua_setfield call LUA_REGISTRYINDEX tname)
            (returnV True))))))"

definition luaL_checkudata :: "vcaller \<Rightarrow> nat \<Rightarrow> string \<Rightarrow> addr option V" where
  "luaL_checkudata call ud tname =
     bindV (lua_touserdata (int ud)) (\<lambda>p.
     thenV (lua_getfield call LUA_REGISTRYINDEX tname)
     (bindV (if p = None then returnV False else lua_getmetatable (int ud)) (\<lambda>has.
     bindV (if has then lua_rawequal_api (- 1) (- 2) else returnV False) (\<lambda>same.
     thenV (if same then returnV () else with_args call (\<lambda>ar args. luaL_typerror ar args ud tname))
     (thenV (lua_pop 2) (returnV p))))))"

definition luaL_checkstack_api :: "vcaller \<Rightarrow> int \<Rightarrow> string \<Rightarrow> unit V" where
  "luaL_checkstack_api call space' mes =
     bindV (lua_checkstack space') (\<lambda>ok. if ok then returnV () else luaL_error_api call (''stack overflow ('' @ mes @ '')''))"

definition luaL_getmetafield :: "int \<Rightarrow> string \<Rightarrow> bool V" where
  "luaL_getmetafield obj event =
     bindV (lua_getmetatable obj) (\<lambda>has.
       if \<not> has then returnV False
       else thenV (lua_pushlstring event)
            (thenV (lua_rawget (- 2))
            (bindV (lua_type_api (- 1)) (\<lambda>t.
              if t = 0 then thenV (lua_pop 2) (returnV False)
              else thenV (lua_remove (- 2)) (returnV True)))))"

definition abs_index :: "int \<Rightarrow> int V" where
  "abs_index i =
     (if 0 < i \<or> i \<le> LUA_REGISTRYINDEX then returnV i else bindV lua_gettop (\<lambda>n. returnV (n + i + 1)))"

definition luaL_callmeta :: "vcaller \<Rightarrow> int \<Rightarrow> string \<Rightarrow> bool V" where
  "luaL_callmeta call obj0 event =
     bindV (abs_index obj0) (\<lambda>obj.
     bindV (luaL_getmetafield obj event) (\<lambda>has.
       if \<not> has then returnV False
       else thenV (lua_pushvalue obj) (thenV (lua_call call 1 1) (returnV True))))"

section \<open>Libraries\<close>

text \<open>\<open>luaL_findtable\<close>: the tables along a dotted name; the result is the part of the name that is no table.\<close>

function findtable_loop :: "vcaller \<Rightarrow> nat \<Rightarrow> string \<Rightarrow> string option V" where
  "findtable_loop call szhint fname =
     (let e = takeWhile (\<lambda>c. c \<noteq> CHR ''.'') fname; more = (length e < length fname)
      in thenV (lua_pushlstring e)
         (thenV (lua_rawget (- 2))
         (bindV (lua_type_api (- 1)) (\<lambda>t.
           if t \<noteq> 0 \<and> t \<noteq> 5 then thenV (lua_pop 2) (returnV (Some fname))
           else thenV (if t = 0 then
                         thenV (lua_pop 1)
                         (thenV (lua_createtable call 0 (if more then 1 else szhint))
                         (thenV (lua_pushlstring e)
                         (thenV (lua_pushvalue (- 2))
                         (lua_settable call (- 4)))))
                       else returnV ())
                (thenV (lua_remove (- 2))
                (if more then findtable_loop call szhint (drop (length e + 1) fname) else returnV None))))))"
  by pat_completeness auto
termination by (relation "measure (\<lambda>(call, szhint, fname). length fname)") auto

definition luaL_findtable :: "vcaller \<Rightarrow> int \<Rightarrow> string \<Rightarrow> nat \<Rightarrow> string option V" where
  "luaL_findtable call idx fname szhint = thenV (lua_pushvalue idx) (findtable_loop call szhint fname)"

fun openlib_loop :: "vcaller \<Rightarrow> nat \<Rightarrow> (string \<times> nat) list \<Rightarrow> unit V" where
  "openlib_loop call nup [] = returnV ()"
| "openlib_loop call nup ((name, f) # l) =
     thenV (eachV (\<lambda>i. lua_pushvalue (- int nup)) [0..<nup])
     (thenV (lua_pushcclosure f nup)
     (thenV (lua_setfield call (- (int nup + 2)) name)
     (openlib_loop call nup l)))"

definition luaI_openlib :: "vcaller \<Rightarrow> string option \<Rightarrow> (string \<times> nat) list \<Rightarrow> nat \<Rightarrow> unit V" where
  "luaI_openlib call libname l nup =
     thenV (case libname of
              None \<Rightarrow> returnV ()
            | Some name \<Rightarrow>
                bindV (luaL_findtable call LUA_REGISTRYINDEX ''_LOADED'' (length l)) (\<lambda>ignored.
                thenV (lua_getfield call (- 1) name)
                (bindV (lua_type_api (- 1)) (\<lambda>t.
                thenV (if t \<noteq> 5 then
                         thenV (lua_pop 1)
                         (bindV (luaL_findtable call LUA_GLOBALSINDEX name (length l)) (\<lambda>r.
                         thenV (if r \<noteq> None then luaL_error_api call (''name conflict for module '' @ LUA_QL name) else returnV ())
                         (thenV (lua_pushvalue (- 1))
                         (lua_setfield call (- 3) name))))
                       else returnV ())
                (thenV (lua_remove (- 2))
                (lua_insert (- (int nup + 1))))))))
     (thenV (openlib_loop call nup l)
     (lua_pop (int nup)))"

section \<open>The string buffer\<close>

text \<open>
  \<open>buffer\<close> has the characters up to \<open>p\<close>; \<open>lvl\<close> pieces are on the stack. \<open>BUFSIZ\<close> of the GNU C library.
\<close>

definition LUAL_BUFFERSIZE :: nat where "LUAL_BUFFERSIZE = 8192"

abbreviation (input) BUFFER_LIMIT :: nat where "BUFFER_LIMIT \<equiv> 10"

record luaL_Buffer =
  b_buffer :: string
  b_lvl :: nat

definition luaL_buffinit :: luaL_Buffer where
  "luaL_buffinit = \<lparr>b_buffer = [], b_lvl = 0\<rparr>"

definition emptybuffer :: "luaL_Buffer \<Rightarrow> (luaL_Buffer \<times> bool) V" where
  "emptybuffer B =
     (if b_buffer B = [] then returnV (B, False)
      else thenV (lua_pushlstring (b_buffer B)) (returnV (B\<lparr>b_buffer := [], b_lvl := b_lvl B + 1\<rparr>, True)))"

text \<open>The number of levels to concatenate; the first argument is how many more there are.\<close>

primrec toget_loop :: "nat \<Rightarrow> nat \<Rightarrow> nat \<Rightarrow> int \<Rightarrow> nat V" where
  "toget_loop 0 lvl toget toplen = returnV toget"
| "toget_loop (Suc left) lvl toget toplen =
     bindV (lua_objlen_api (- (int toget + 1))) (\<lambda>l.
       if BUFFER_LIMIT + toget \<le> lvl + 1 \<or> l < toplen then toget_loop left lvl (toget + 1) (toplen + l)
       else returnV toget)"

definition adjuststack :: "vcaller \<Rightarrow> luaL_Buffer \<Rightarrow> luaL_Buffer V" where
  "adjuststack call B =
     (if 1 < b_lvl B then
        bindV (lua_objlen_api (- 1)) (\<lambda>toplen.
        bindV (toget_loop (b_lvl B - 1) (b_lvl B) 1 toplen) (\<lambda>toget.
        thenV (lua_concat call toget) (returnV (B\<lparr>b_lvl := b_lvl B - toget + 1\<rparr>))))
      else returnV B)"

definition luaL_prepbuffer :: "vcaller \<Rightarrow> luaL_Buffer \<Rightarrow> luaL_Buffer V" where
  "luaL_prepbuffer call B =
     bindV (emptybuffer B) (\<lambda>(B1, emptied). if emptied then adjuststack call B1 else returnV B1)"

definition luaL_addchar :: "vcaller \<Rightarrow> luaL_Buffer \<Rightarrow> char \<Rightarrow> luaL_Buffer V" where
  "luaL_addchar call B c =
     bindV (if length (b_buffer B) < LUAL_BUFFERSIZE then returnV B else luaL_prepbuffer call B) (\<lambda>B1.
       returnV (B1\<lparr>b_buffer := b_buffer B1 @ [c]\<rparr>))"

primrec luaL_addlstring :: "vcaller \<Rightarrow> luaL_Buffer \<Rightarrow> string \<Rightarrow> luaL_Buffer V" where
  "luaL_addlstring call B [] = returnV B"
| "luaL_addlstring call B (c # s) = bindV (luaL_addchar call B c) (\<lambda>B1. luaL_addlstring call B1 s)"

definition luaL_addstring :: "vcaller \<Rightarrow> luaL_Buffer \<Rightarrow> string \<Rightarrow> luaL_Buffer V" where
  "luaL_addstring call B s = luaL_addlstring call B (cstr s)"

definition luaL_pushresult :: "vcaller \<Rightarrow> luaL_Buffer \<Rightarrow> luaL_Buffer V" where
  "luaL_pushresult call B =
     bindV (emptybuffer B) (\<lambda>(B1, emptied). thenV (lua_concat call (b_lvl B1)) (returnV (B1\<lparr>b_lvl := 1\<rparr>)))"

definition luaL_addvalue :: "vcaller \<Rightarrow> luaL_Buffer \<Rightarrow> luaL_Buffer V" where
  "luaL_addvalue call B =
     bindV (lua_tolstring_api (- 1)) (\<lambda>r. bindV (someV r) (\<lambda>s.
       if length s \<le> LUAL_BUFFERSIZE - length (b_buffer B) then
         thenV (lua_pop 1) (returnV (B\<lparr>b_buffer := b_buffer B @ s\<rparr>))
       else
         bindV (emptybuffer B) (\<lambda>(B1, emptied).
         thenV (if emptied then lua_insert (- 2) else returnV ())
         (adjuststack call (B1\<lparr>b_lvl := b_lvl B1 + 1\<rparr>)))))"

section \<open>References\<close>

abbreviation (input) FREELIST_REF :: int where "FREELIST_REF \<equiv> 0"
abbreviation (input) LUA_REFNIL :: int where "LUA_REFNIL \<equiv> - 1"

definition luaL_ref :: "vcaller \<Rightarrow> int \<Rightarrow> int V" where
  "luaL_ref call t0 =
     bindV (abs_index t0) (\<lambda>t.
     bindV (lua_type_api (- 1)) (\<lambda>ty.
       if ty = 0 then thenV (lua_pop 1) (returnV LUA_REFNIL)
       else
         thenV (lua_rawgeti_api t FREELIST_REF)
         (bindV (lua_tointeger_api (- 1)) (\<lambda>r.
         thenV (lua_pop 1)
         (bindV (if int32 r \<noteq> 0 then
                   thenV (lua_rawgeti_api t (int32 r)) (thenV (lua_rawseti_api call t FREELIST_REF) (returnV (int32 r)))
                 else bindV (lua_objlen_api t) (\<lambda>n. returnV (int32 n + 1))) (\<lambda>ref.
         thenV (lua_rawseti_api call t ref) (returnV ref)))))))"

definition luaL_unref :: "vcaller \<Rightarrow> int \<Rightarrow> int \<Rightarrow> unit V" where
  "luaL_unref call t0 ref =
     (if 0 \<le> ref then
        bindV (abs_index t0) (\<lambda>t.
        thenV (lua_rawgeti_api t FREELIST_REF)
        (thenV (lua_rawseti_api call t ref)
        (thenV (lua_pushinteger ref)
        (lua_rawseti_api call t FREELIST_REF))))
      else returnV ())"

section \<open>Loading a string\<close>

text \<open>\<open>getS\<close> delivers the string as one block.\<close>

definition getS :: "string \<Rightarrow> string list" where
  "getS s = (if s = [] then [] else [s])"

definition luaL_loadbuffer :: "(lua_Number \<Rightarrow> lua_Number \<Rightarrow> lua_Number) \<Rightarrow> vcaller \<Rightarrow> string \<Rightarrow> string \<Rightarrow> int V" where
  "luaL_loadbuffer pow call buff name = lua_load pow call (getS buff) (Some name)"

definition luaL_loadstring :: "(lua_Number \<Rightarrow> lua_Number \<Rightarrow> lua_Number) \<Rightarrow> vcaller \<Rightarrow> string \<Rightarrow> int V" where
  "luaL_loadstring pow call s = luaL_loadbuffer pow call (cstr s) s"

end
