(* ===== verification/LuaBaselib.thy ===== *)
theory LuaBaselib
  imports LuaLaux
begin

text \<open>
  lbaselib.c: the basic functions. Each gets \<open>luaD_call\<close>, works on the stack of its frame and returns the number of its
  results, which are on the top. The functions that need files, the collector or other threads are left out: \<open>print\<close>,
  \<open>dofile\<close>, \<open>loadfile\<close>, \<open>load\<close> (its reader runs while the parser does), \<open>collectgarbage\<close>, \<open>gcinfo\<close> and \<open>coroutine\<close> but
  for \<open>yield\<close>. The text that \<open>sprintf\<close> gives for a pointer is the parameter \<open>ptr\<close>.
\<close>

section \<open>Numbers and errors\<close>

text \<open>\<open>strtoul(s, &endptr, base)\<close> with a 64-bit \<open>unsigned long\<close>; \<open>None\<close> when there is no digit.\<close>

definition digit_value :: "char \<Rightarrow> int" where
  "digit_value c =
     (let u = tolower (uchar c) in if isdigit u then u - 48 else if 97 \<le> u \<and> u \<le> 122 then u - 87 else 36)"

definition strtoul :: "string \<Rightarrow> int \<Rightarrow> (int \<times> string) option" where
  "strtoul s b =
     (let (neg, s2) = scan_sign (skip_space s);
          ok = (\<lambda>c. digit_value c < b);
          s3 = (case s2 of c # x # d # t \<Rightarrow>
                  if b = 16 \<and> c = CHR ''0'' \<and> (x = CHR ''x'' \<or> x = CHR ''X'') \<and> ok d then d # t else s2
                | _ \<Rightarrow> s2);
          ds = takeWhile ok s3;
          v = foldl (\<lambda>v c. v * b + digit_value c) 0 ds
      in if ds = [] then None
         else Some (if 18446744073709551616 \<le> v then 18446744073709551615
                    else if neg then (- v) mod 18446744073709551616 else v,
                    dropWhile ok s3))"

definition luaB_tonumber :: "vcaller \<Rightarrow> int V" where
  "luaB_tonumber call =
     bindV (with_args call (\<lambda>ar args. luaL_optint ar args 2 10)) (\<lambda>b.
       if b = 10 then
         thenV (with_args call (\<lambda>ar args. luaL_checkany ar args 1))
         (bindV (lua_isnumber_api 1) (\<lambda>ok.
           if ok then bindV (lua_tonumber_api 1) (\<lambda>n. thenV (lua_pushnumber n) (returnV 1))
           else thenV lua_pushnil (returnV 1)))
       else
         bindV (with_args call (\<lambda>ar args. luaL_checklstring ar args 1)) (\<lambda>s1.
         thenV (with_args call (\<lambda>ar args. luaL_argcheck ar (2 \<le> b \<and> b \<le> 36) 2 ''base out of range''))
         (case strtoul (cstr s1) b of
            Some (n, s2) \<Rightarrow>
              if skip_space s2 = [] then thenV (lua_pushnumber (cast_num n)) (returnV 1) else thenV lua_pushnil (returnV 1)
          | None \<Rightarrow> thenV lua_pushnil (returnV 1))))"

definition luaB_error :: "vcaller \<Rightarrow> int V" where
  "luaB_error call =
     bindV (with_args call (\<lambda>ar args. luaL_optint ar args 2 1)) (\<lambda>level.
     thenV (lua_settop 1)
     (bindV (lua_isstring_api 1) (\<lambda>str.
     thenV (if str \<and> 0 < level then
              thenV (luaL_where level) (thenV (lua_pushvalue 1) (lua_concat call 2))
            else returnV ())
     (lua_error_api call))))"

section \<open>Metatables and environments\<close>

definition luaB_getmetatable :: "vcaller \<Rightarrow> int V" where
  "luaB_getmetatable call =
     thenV (with_args call (\<lambda>ar args. luaL_checkany ar args 1))
     (bindV (lua_getmetatable 1) (\<lambda>has.
       if \<not> has then thenV lua_pushnil (returnV 1)
       else bindV (luaL_getmetafield 1 ''__metatable'') (\<lambda>protected. returnV 1)))"

definition luaB_setmetatable :: "vcaller \<Rightarrow> int V" where
  "luaB_setmetatable call =
     bindV (lua_type_api 2) (\<lambda>t.
     thenV (with_args call (\<lambda>ar args. luaL_checktype ar args 1 5))
     (thenV (with_args call (\<lambda>ar args. luaL_argcheck ar (t = 0 \<or> t = 5) 2 ''nil or table expected''))
     (bindV (luaL_getmetafield 1 ''__metatable'') (\<lambda>protected.
     thenV (if protected then luaL_error_api call ''cannot change a protected metatable'' else returnV ())
     (thenV (lua_settop 2)
     (thenV (lua_setmetatable 1)
     (returnV 1)))))))"

definition getfunc :: "vcaller \<Rightarrow> unit V" where
  "getfunc call =
     bindV (lua_type_api 1) (\<lambda>t.
       if t = 6 then lua_pushvalue 1
       else
         bindV (with_args call (\<lambda>ar args. luaL_optint ar args 1 1)) (\<lambda>level.
         thenV (with_args call (\<lambda>ar args. luaL_argcheck ar (0 \<le> level) 1 ''level must be non-negative''))
         (bindV (readV debug_view (\<lambda>D. returnV (lua_getstack D level))) (\<lambda>r.
         bindV (case r of None \<Rightarrow> luaL_argerror_api call 1 ''invalid level'' | Some i \<Rightarrow> returnV i) (\<lambda>i_ci.
         bindV (lua_getinfo ''f'' i_ci) (\<lambda>ar.
         bindV (lua_type_api (- 1)) (\<lambda>ty.
           if ty = 0 then luaL_error_api call (luaO_pushvfstring ''no function environment for tail call at level %d'' [FInt level])
           else returnV ())))))))"

definition luaB_getfenv :: "vcaller \<Rightarrow> int V" where
  "luaB_getfenv call =
     thenV (getfunc call)
     (bindV (lua_iscfunction (- 1)) (\<lambda>c.
     thenV (if c then lua_pushvalue LUA_GLOBALSINDEX else lua_getfenv (- 1))
     (returnV 1)))"

definition luaB_setfenv :: "vcaller \<Rightarrow> int V" where
  "luaB_setfenv call =
     thenV (with_args call (\<lambda>ar args. luaL_checktype ar args 2 5))
     (thenV (getfunc call)
     (thenV (lua_pushvalue 2)
     (bindV (lua_isnumber_api 1) (\<lambda>isnum. bindV (lua_tonumber_api 1) (\<lambda>n.
       if isnum \<and> luai_numeq n 0 then
         bindV lua_pushthread (\<lambda>main.
         thenV (lua_insert (- 2))
         (bindV (lua_setfenv (- 2)) (\<lambda>r. returnV 0)))
       else
         bindV (lua_iscfunction (- 2)) (\<lambda>c.
         bindV (if c then returnV False else lua_setfenv (- 2)) (\<lambda>done'.
           if \<not> done' then luaL_error_api call (LUA_QL ''setfenv'' @ '' cannot change environment of given object'')
           else returnV 1)))))))"

section \<open>Raw access and traversal\<close>

definition luaB_rawequal :: "vcaller \<Rightarrow> int V" where
  "luaB_rawequal call =
     thenV (with_args call (\<lambda>ar args. luaL_checkany ar args 1))
     (thenV (with_args call (\<lambda>ar args. luaL_checkany ar args 2))
     (bindV (lua_rawequal_api 1 2) (\<lambda>eq. thenV (lua_pushboolean eq) (returnV 1))))"

definition luaB_rawget :: "vcaller \<Rightarrow> int V" where
  "luaB_rawget call =
     thenV (with_args call (\<lambda>ar args. luaL_checktype ar args 1 5))
     (thenV (with_args call (\<lambda>ar args. luaL_checkany ar args 2))
     (thenV (lua_settop 2)
     (thenV (lua_rawget 1)
     (returnV 1))))"

definition luaB_rawset :: "vcaller \<Rightarrow> int V" where
  "luaB_rawset call =
     thenV (with_args call (\<lambda>ar args. luaL_checktype ar args 1 5))
     (thenV (with_args call (\<lambda>ar args. luaL_checkany ar args 2))
     (thenV (with_args call (\<lambda>ar args. luaL_checkany ar args 3))
     (thenV (lua_settop 3)
     (thenV (lua_rawset call 1)
     (returnV 1)))))"

definition luaB_type :: "vcaller \<Rightarrow> int V" where
  "luaB_type call =
     thenV (with_args call (\<lambda>ar args. luaL_checkany ar args 1))
     (bindV (lua_type_api 1) (\<lambda>t. thenV (lua_pushstring (Some (lua_typename t))) (returnV 1)))"

definition luaB_next :: "vcaller \<Rightarrow> int V" where
  "luaB_next call =
     thenV (with_args call (\<lambda>ar args. luaL_checktype ar args 1 5))
     (thenV (lua_settop 2)
     (bindV (lua_next call 1) (\<lambda>more'.
       if more' then returnV 2 else thenV lua_pushnil (returnV 1))))"

definition luaB_pairs :: "vcaller \<Rightarrow> int V" where
  "luaB_pairs call =
     thenV (with_args call (\<lambda>ar args. luaL_checktype ar args 1 5))
     (thenV (lua_pushvalue (lua_upvalueindex 1))
     (thenV (lua_pushvalue 1)
     (thenV lua_pushnil
     (returnV 3))))"

text \<open>\<open>i++\<close> on an \<open>int\<close>.\<close>

definition ipairsaux :: "vcaller \<Rightarrow> int V" where
  "ipairsaux call =
     bindV (with_args call (\<lambda>ar args. luaL_checkint ar args 2)) (\<lambda>i.
     thenV (with_args call (\<lambda>ar args. luaL_checktype ar args 1 5))
     (if i = INT_MAX then stopV Undefined
      else
        thenV (lua_pushinteger (i + 1))
        (thenV (lua_rawgeti_api 1 (i + 1))
        (bindV (lua_type_api (- 1)) (\<lambda>t. returnV (if t = 0 then 0 else 2))))))"

definition luaB_ipairs :: "vcaller \<Rightarrow> int V" where
  "luaB_ipairs call =
     thenV (with_args call (\<lambda>ar args. luaL_checktype ar args 1 5))
     (thenV (lua_pushvalue (lua_upvalueindex 1))
     (thenV (lua_pushvalue 1)
     (thenV (lua_pushinteger 0)
     (returnV 3))))"

section \<open>Loading and calling\<close>

definition load_aux :: "int \<Rightarrow> int V" where
  "load_aux status =
     (if status = 0 then returnV 1 else thenV lua_pushnil (thenV (lua_insert (- 2)) (returnV 2)))"

definition luaB_loadstring :: "(lua_Number \<Rightarrow> lua_Number \<Rightarrow> lua_Number) \<Rightarrow> vcaller \<Rightarrow> int V" where
  "luaB_loadstring pow call =
     bindV (with_args call (\<lambda>ar args. luaL_checklstring ar args 1)) (\<lambda>s.
     bindV (with_args call (\<lambda>ar args. luaL_optlstring ar args 2 s)) (\<lambda>chunkname.
     bindV (luaL_loadbuffer pow call s (cstr chunkname)) load_aux))"

definition luaB_assert :: "vcaller \<Rightarrow> int V" where
  "luaB_assert call =
     thenV (with_args call (\<lambda>ar args. luaL_checkany ar args 1))
     (bindV (lua_toboolean_api 1) (\<lambda>b.
       if \<not> b then
         bindV (with_args call (\<lambda>ar args. luaL_optlstring ar args 2 ''assertion failed!'')) (\<lambda>msg. luaL_error_api call (cstr msg))
       else lua_gettop))"

text \<open>\<open>n\<close> and \<open>i\<close> are of the type \<open>int\<close>, whose overflow is undefined; \<open>i++\<close> follows the last element too.\<close>

definition luaB_unpack :: "vcaller \<Rightarrow> int V" where
  "luaB_unpack call =
     thenV (with_args call (\<lambda>ar args. luaL_checktype ar args 1 5))
     (bindV (with_args call (\<lambda>ar args. luaL_optint ar args 2 1)) (\<lambda>i.
     bindV (lua_objlen_api 1) (\<lambda>len.
     bindV (with_args call (\<lambda>ar args. luaL_optint ar args 3 (int32 len))) (\<lambda>e.
       let n = e - i + 1
       in if n < INT_MIN \<or> INT_MAX < n \<or> e - i < INT_MIN \<or> INT_MAX < e - i then stopV Undefined
          else if n \<le> 0 then returnV 0
          else thenV (luaL_checkstack_api call n ''table too big to unpack'')
               (thenV (eachV (\<lambda>k. lua_rawgeti_api 1 (i + int k)) [0..<nat n])
               (if e = INT_MAX then stopV Undefined else returnV n))))))"

definition select_from :: "vcaller \<Rightarrow> int \<Rightarrow> int V" where
  "select_from call n =
     bindV (with_args call (\<lambda>ar args. luaL_checkint ar args 1)) (\<lambda>i0.
       let i = (if i0 < 0 then n + i0 else if n < i0 then n else i0)
       in thenV (with_args call (\<lambda>ar args. luaL_argcheck ar (1 \<le> i) 1 ''index out of range'')) (returnV (n - i)))"

definition luaB_select :: "vcaller \<Rightarrow> int V" where
  "luaB_select call =
     bindV lua_gettop (\<lambda>n.
     bindV (value_at 1) (\<lambda>v.
       case v of
         TString (c # s) \<Rightarrow>
           if c = CHR ''#'' then thenV (lua_pushinteger (n - 1)) (returnV 1)
           else select_from call n
       | _ \<Rightarrow> select_from call n))"

definition luaB_pcall :: "vcaller \<Rightarrow> int V" where
  "luaB_pcall call =
     thenV (with_args call (\<lambda>ar args. luaL_checkany ar args 1))
     (bindV lua_gettop (\<lambda>n.
     bindV (lua_pcall call (n - 1) LUA_MULTRET 0) (\<lambda>status.
     thenV (lua_pushboolean (status = 0))
     (thenV (lua_insert 1)
     lua_gettop))))"

definition luaB_xpcall :: "vcaller \<Rightarrow> int V" where
  "luaB_xpcall call =
     thenV (with_args call (\<lambda>ar args. luaL_checkany ar args 2))
     (thenV (lua_settop 2)
     (thenV (lua_insert 1)
     (bindV (lua_pcall call 0 LUA_MULTRET 1) (\<lambda>status.
     thenV (lua_pushboolean (status = 0))
     (thenV (lua_replace 1)
     lua_gettop)))))"

definition luaB_tostring :: "(addr option \<Rightarrow> string) \<Rightarrow> vcaller \<Rightarrow> int V" where
  "luaB_tostring ptr call =
     thenV (with_args call (\<lambda>ar args. luaL_checkany ar args 1))
     (bindV (luaL_callmeta call 1 ''__tostring'') (\<lambda>called.
       if called then returnV 1
       else
         bindV (lua_type_api 1) (\<lambda>t.
         thenV (if t = 3 then bindV (lua_tolstring_api 1) (\<lambda>s. lua_pushstring s)
                else if t = 4 then lua_pushvalue 1
                else if t = 1 then bindV (lua_toboolean_api 1) (\<lambda>b. lua_pushstring (Some (if b then ''true'' else ''false'')))
                else if t = 0 then lua_pushlstring ''nil''
                else bindV (lua_topointer 1) (\<lambda>p.
                       bindV (lua_pushfstring ''%s: %p'' [FStr (Some (lua_typename t)), FPtr (ptr p)]) (\<lambda>s. returnV ())))
         (returnV 1))))"

definition luaB_newproxy :: "vcaller \<Rightarrow> int V" where
  "luaB_newproxy call =
     thenV (lua_settop 1)
     (bindV (lua_newuserdata 0) (\<lambda>u.
     bindV (lua_toboolean_api 1) (\<lambda>b.
     bindV (lua_type_api 1) (\<lambda>t.
       if \<not> b then returnV 1
       else
         thenV (if t = 1 then
                  thenV (lua_createtable call 0 0)
                  (thenV (lua_pushvalue (- 1))
                  (thenV (lua_pushboolean True)
                  (lua_rawset call (lua_upvalueindex 1))))
                else
                  bindV (lua_getmetatable 1) (\<lambda>has.
                  bindV (if has then
                           thenV (lua_rawget (lua_upvalueindex 1))
                           (bindV (lua_toboolean_api (- 1)) (\<lambda>v. thenV (lua_pop 1) (returnV v)))
                         else returnV False) (\<lambda>validproxy.
                  thenV (with_args call (\<lambda>ar args. luaL_argcheck ar validproxy 1 ''boolean or proxy expected''))
                  (bindV (lua_getmetatable 1) (\<lambda>r. returnV ())))))
         (thenV (lua_setmetatable 2)
         (returnV 1))))))"

definition luaB_yield :: "vcaller \<Rightarrow> int V" where
  "luaB_yield call = bindV lua_gettop (\<lambda>n. lua_yield call (nat n))"

section \<open>Opening the library\<close>

text \<open>The number that stands for each function; those from 20 on are not modelled.\<close>

definition base_funcs :: "(string \<times> nat) list" where
  "base_funcs =
     [(''assert'', 0), (''collectgarbage'', 20), (''dofile'', 21), (''error'', 1), (''gcinfo'', 22), (''getfenv'', 2),
      (''getmetatable'', 3), (''loadfile'', 23), (''load'', 24), (''loadstring'', 4), (''next'', 5), (''pcall'', 6), (''print'', 25),
      (''rawequal'', 7), (''rawget'', 8), (''rawset'', 9), (''select'', 10), (''setfenv'', 11), (''setmetatable'', 12),
      (''tonumber'', 13), (''tostring'', 14), (''type'', 15), (''unpack'', 16), (''xpcall'', 17)]"

definition co_funcs :: "(string \<times> nat) list" where
  "co_funcs = [(''create'', 30), (''resume'', 31), (''running'', 32), (''status'', 33), (''wrap'', 34), (''yield'', 35)]"

text \<open>\<open>other\<close> are the functions that are not modelled.\<close>

definition base_cfun ::
    "(lua_Number \<Rightarrow> lua_Number \<Rightarrow> lua_Number) \<Rightarrow> (addr option \<Rightarrow> string) \<Rightarrow> (nat \<Rightarrow> vcaller \<Rightarrow> int V) \<Rightarrow> nat \<Rightarrow> vcaller \<Rightarrow> int V" where
  "base_cfun pow ptr other f =
     (if f = 0 then luaB_assert else if f = 1 then luaB_error else if f = 2 then luaB_getfenv
      else if f = 3 then luaB_getmetatable else if f = 4 then luaB_loadstring pow else if f = 5 then luaB_next
      else if f = 6 then luaB_pcall else if f = 7 then luaB_rawequal else if f = 8 then luaB_rawget
      else if f = 9 then luaB_rawset else if f = 10 then luaB_select else if f = 11 then luaB_setfenv
      else if f = 12 then luaB_setmetatable else if f = 13 then luaB_tonumber else if f = 14 then luaB_tostring ptr
      else if f = 15 then luaB_type else if f = 16 then luaB_unpack else if f = 17 then luaB_xpcall
      else if f = 18 then luaB_ipairs else if f = 19 then ipairsaux else if f = 26 then luaB_pairs
      else if f = 27 then luaB_newproxy else if f = 35 then luaB_yield else other f)"

definition auxopen :: "vcaller \<Rightarrow> string \<Rightarrow> nat \<Rightarrow> nat \<Rightarrow> unit V" where
  "auxopen call name f u =
     thenV (lua_pushcclosure u 0) (thenV (lua_pushcclosure f 1) (lua_setfield call (- 2) name))"

definition base_open :: "vcaller \<Rightarrow> unit V" where
  "base_open call =
     thenV (lua_pushvalue LUA_GLOBALSINDEX)
     (thenV (lua_setfield call LUA_GLOBALSINDEX ''_G'')
     (thenV (luaI_openlib call (Some ''_G'') base_funcs 0)
     (thenV (lua_pushlstring ''Lua 5.1'')
     (thenV (lua_setfield call LUA_GLOBALSINDEX ''_VERSION'')
     (thenV (auxopen call ''ipairs'' 18 19)
     (thenV (auxopen call ''pairs'' 26 5)
     (thenV (lua_createtable call 0 1)
     (thenV (lua_pushvalue (- 1))
     (thenV (lua_setmetatable (- 2))
     (thenV (lua_pushlstring ''kv'')
     (thenV (lua_setfield call (- 2) ''__mode'')
     (thenV (lua_pushcclosure 27 1)
     (lua_setfield call LUA_GLOBALSINDEX ''newproxy'')))))))))))))"

definition luaopen_base :: "vcaller \<Rightarrow> int V" where
  "luaopen_base call =
     thenV (base_open call) (thenV (luaI_openlib call (Some ''coroutine'') co_funcs 0) (returnV 2))"

end
