(* ===== verification/LuaBuffer.thy ===== *)
theory LuaBuffer
  imports LuaApiStack LuaLaux LuaConcat
begin

text \<open>
  The string buffer of lauxlib.c: whatever pieces it puts on the stack and however it joins them, it collects the
  concatenation of what is added, and it never has more than a few pieces on the stack.
\<close>

text \<open>The buffer with its pieces \<open>ps\<close> above the other values \<open>us\<close>; \<open>n\<close> levels are for the buffer.\<close>

definition buffer_at :: "tvalue list \<Rightarrow> tvalue list \<Rightarrow> lua_State \<Rightarrow> nat \<Rightarrow> luaL_Buffer \<Rightarrow> string list \<Rightarrow> lua_State \<Rightarrow> bool" where
  "buffer_at pre us L n B ps M \<longleftrightarrow>
     (\<exists>post. M = with_values pre (us @ map TString ps) post L \<and> length ps + length post = n) \<and> b_lvl B = length ps"

definition contents :: "luaL_Buffer \<Rightarrow> string list \<Rightarrow> string" where
  "contents B ps = concat ps @ b_buffer B"

lemma objlen_values:
  assumes "index_of idx (length vs) i" "vs ! i = TString s"
  shows "lua_objlen_api idx (with_values pre vs post L) = Inr (int (length s), with_values pre vs post L)"
proof -
  have "i < length vs" using assms(1) by (simp add: index_of_def)
  then have "read_location (Level (length pre + i)) (with_values pre vs post L) = Inr (TString s, with_values pre vs post L)"
    using assms(2) by (simp add: read_location_def getobj_def nth_append)
  then show ?thesis by (simp add: lua_objlen_api_def index2adr_values [OF assms(1)])
qed

text \<open>How many pieces are joined: enough that fewer than ten are left.\<close>

lemma toget_loop_bounds:
  assumes "length ps < 9999" "1 \<le> t" "t + k = length ps"
  shows "\<exists>t'. toget_loop k (length ps) t l (with_values pre (us @ map TString ps) post L)
      = Inr (t', with_values pre (us @ map TString ps) post L)
    \<and> t \<le> t' \<and> t' \<le> length ps \<and> (length ps + 1 < 10 + t' \<or> t' = length ps)"
  using assms
proof (induction k arbitrary: t l)
  case (Suc k)
  let ?M = "with_values pre (us @ map TString ps) post L" and ?i = "length us + k"
  have "index_of (- (int t + 1)) (length (us @ map TString ps)) ?i" using Suc.prems by (auto simp: index_of_def)
  moreover have "(us @ map TString ps) ! ?i = TString (ps ! k)" using Suc.prems by (simp add: nth_append)
  ultimately have "lua_objlen_api (- (int t + 1)) ?M = Inr (int (length (ps ! k)), ?M)" by (rule objlen_values)
  then have step: "toget_loop (Suc k) (length ps) t l ?M =
      (if 10 + t \<le> length ps + 1 \<or> int (length (ps ! k)) < l then toget_loop k (length ps) (t + 1) (l + int (length (ps ! k))) ?M
       else Inr (t, ?M))" by simp
  show ?case
  proof (cases "10 + t \<le> length ps + 1 \<or> int (length (ps ! k)) < l")
    case True
    then have go: "toget_loop (Suc k) (length ps) t l ?M = toget_loop k (length ps) (t + 1) (l + int (length (ps ! k))) ?M"
      unfolding step by (rule if_P)
    obtain t' where "toget_loop k (length ps) (t + 1) (l + int (length (ps ! k))) ?M = Inr (t', ?M)" "t + 1 \<le> t'" "t' \<le> length ps"
      "length ps + 1 < 10 + t' \<or> t' = length ps"
      using Suc.IH [of "t + 1" "l + int (length (ps ! k))"] Suc.prems by auto
    then show ?thesis unfolding go by (intro exI [of _ t']) simp
  next
    case False
    then have "toget_loop (Suc k) (length ps) t l ?M = Inr (t, ?M)" unfolding step by (rule if_not_P)
    then show ?thesis using False Suc.prems by (intro exI [of _ t]) simp
  qed
qed simp

text \<open>\<open>lua_concat\<close> of the last pieces.\<close>

lemma lua_concat_pieces:
  assumes "ps = qs @ rs" "rs \<noteq> []" "int (length (concat rs)) < MAX_SIZET"
  shows "\<exists>post'. lua_concat call (length rs) (with_values pre (us @ map TString ps) post L) =
      Inr ((), with_values pre (us @ map TString (qs @ [concat rs])) post' L) \<and> length post' + 1 = length rs + length post"
proof (cases "length rs = 1")
  case True
  then obtain r where "rs = [r]" by (cases rs) auto
  then show ?thesis using assms(1) by (auto simp: lua_concat_def)
next
  case False
  then obtain n where n: "length (map TString rs) = n + 2" using assms(2) by (metis One_nat_def Suc_eq_plus1 add_2_eq_Suc' length_0_conv length_map not0_implies_Suc)
  define M where "M = L\<lparr>L_base := length pre, L_top := length pre + length (us @ map TString ps)\<rparr>"
  let ?pre = "pre @ us @ map TString qs"
  have s: "with_values pre (us @ map TString ps) post L = put_stack (?pre @ map TString rs @ post) M"
    by (simp add: M_def with_values_def assms(1))
  have str: "map string_of (map TString rs) = rs" by (induction rs) auto
  have "\<exists>rest. length rest + 1 = length (map TString rs) + length post \<and> drop (length (map TString rs) - 1) rest = post
     \<and> concat_passes call (Suc (length (map TString rs))) (length (map TString rs)) (length us + length ps - 1) (put_stack (?pre @ map TString rs @ post) M) =
        Inr ((), put_stack (?pre @ TString (concat (map string_of (map TString rs))) # rest) M)"
    using n assms by (intro passes_strings [OF _ _ n]) (auto simp: M_def tolstring_def comp_def)
  then obtain rest where rest: "length rest + 1 = length rs + length post"
    and c: "luaV_concat call (length rs) (length us + length ps - 1) (put_stack (?pre @ map TString rs @ post) M) =
      Inr ((), put_stack (?pre @ TString (concat rs) # rest) M)"
    unfolding str luaV_concat_def length_map by blast
  have "drop_top (length rs - 1) (put_stack (?pre @ TString (concat rs) # rest) M) =
      Inr ((), with_values pre (us @ map TString (qs @ [concat rs])) rest L)"
    using n by (simp add: drop_top_def set_top_def M_def assms(1)) (simp add: with_values_def put_stack_def)
  moreover have "L_top M - L_base M - 1 = length us + length ps - 1" by (simp add: M_def)
  ultimately have "lua_concat call (length rs) (put_stack (?pre @ map TString rs @ post) M) =
      Inr ((), with_values pre (us @ map TString (qs @ [concat rs])) rest L)"
    using c n by (simp add: lua_concat_def)
  then show ?thesis unfolding s using rest by blast
qed

text \<open>\<open>adjuststack\<close> joins pieces until fewer than ten are left.\<close>

lemma adjuststack_joins:
  assumes B: "buffer_at pre us L n B ps M" and "length ps < 9999" "int (length (concat ps)) < MAX_SIZET"
  shows "\<exists>ps' M'. adjuststack call B M = Inr (B\<lparr>b_lvl := length ps'\<rparr>, M') \<and> buffer_at pre us L n (B\<lparr>b_lvl := length ps'\<rparr>) ps' M'
    \<and> concat ps' = concat ps \<and> length ps' \<le> length ps \<and> length ps' < 10"
proof -
  obtain post where M: "M = with_values pre (us @ map TString ps) post L" "length ps + length post = n" "b_lvl B = length ps"
    using B by (auto simp: buffer_at_def)
  show ?thesis
  proof (cases "1 < length ps")
    case False
    have "B\<lparr>b_lvl := length ps\<rparr> = B" using M(3) by (cases B) simp
    then show ?thesis
      using M False by (intro exI [of _ ps] exI [of _ M]) (auto simp: adjuststack_def buffer_at_def)
  next
    case True
    then obtain qs0 p where "ps = qs0 @ [p]" by (cases ps rule: rev_cases) auto
    then have last': "lua_objlen_api (- 1) M = Inr (int (length p), M)"
      unfolding M(1) by (intro objlen_values [where i = "length us + length qs0"]) (auto simp: index_of_def nth_append)
    have "1 + (length ps - 1) = length ps" using True by simp
    from toget_loop_bounds [OF assms(2) order_refl this, of "int (length p)" pre us post L]
    obtain t where t: "toget_loop (length ps - 1) (length ps) 1 (int (length p)) M = Inr (t, M)" "1 \<le> t" "t \<le> length ps"
      "length ps + 1 < 10 + t \<or> t = length ps"
      unfolding M(1) by blast
    define qs rs where "qs = take (length ps - t) ps" and "rs = drop (length ps - t) ps"
    have ps: "ps = qs @ rs" "length rs = t" "rs \<noteq> []" using t(2,3) True by (auto simp: qs_def rs_def)
    have "length (concat ps) = length (concat qs) + length (concat rs)" unfolding ps(1) by simp
    then have "int (length (concat rs)) < MAX_SIZET" using assms(3) by simp
    then obtain post' where c: "lua_concat call t M = Inr ((), with_values pre (us @ map TString (qs @ [concat rs])) post' L)"
      "length post' + 1 = t + length post"
      using lua_concat_pieces [OF ps(1,3), of call pre us post L] unfolding M(1) ps(2) by blast
    let ?ps = "qs @ [concat rs]" and ?M = "with_values pre (us @ map TString (qs @ [concat rs])) post' L"
    have len: "length ?ps = length ps - t + 1" using ps t(3) by simp
    then have "adjuststack call B M = Inr (B\<lparr>b_lvl := length ?ps\<rparr>, ?M)"
      using M(3) True last' t(1) c(1) by (simp add: adjuststack_def)
    moreover have "buffer_at pre us L n (B\<lparr>b_lvl := length ?ps\<rparr>) ?ps ?M"
      using M(2) c(2) t(3) len by (auto simp: buffer_at_def)
    moreover have "concat ?ps = concat ps" using ps(1) by simp
    moreover have "length ?ps \<le> length ps" "length ?ps < 10" using len t(2-4) by auto
    ultimately show ?thesis by blast
  qed
qed

lemma push_piece:
  assumes "buffer_at pre us L n B ps M" "length ps < n"
  shows "\<exists>M'. lua_pushlstring s M = Inr ((), M') \<and> buffer_at pre us L n (B\<lparr>b_lvl := b_lvl B + 1\<rparr>) (ps @ [s]) M'"
proof -
  obtain post where M: "M = with_values pre (us @ map TString ps) post L" "length ps + length post = n" "b_lvl B = length ps"
    using assms(1) by (auto simp: buffer_at_def)
  obtain x post1 where "post = x # post1" using M(2) assms(2) by (cases post) auto
  then show ?thesis
    using M api_push_values [of "TString s" pre "us @ map TString ps" x post1 L]
    by (auto simp: lua_pushlstring_def buffer_at_def)
qed

text \<open>The buffer is full at \<open>LUAL_BUFFERSIZE\<close>; between the operations fewer than ten pieces are on the stack.\<close>

definition buffer_ok :: "tvalue list \<Rightarrow> tvalue list \<Rightarrow> lua_State \<Rightarrow> nat \<Rightarrow> luaL_Buffer \<Rightarrow> string \<Rightarrow> lua_State \<Rightarrow> bool" where
  "buffer_ok pre us L n B s M \<longleftrightarrow>
     (\<exists>ps. buffer_at pre us L n B ps M \<and> contents B ps = s \<and> length ps < 10) \<and> length (b_buffer B) \<le> LUAL_BUFFERSIZE"

lemma emptybuffer_ok:
  assumes "buffer_at pre us L n B ps M" "length ps < n"
  shows "\<exists>M' ps' b. emptybuffer B M = Inr ((\<lparr>b_buffer = [], b_lvl = length ps'\<rparr>, b), M')
    \<and> buffer_at pre us L n \<lparr>b_buffer = [], b_lvl = length ps'\<rparr> ps' M' \<and> concat ps' = contents B ps
    \<and> length ps' \<le> length ps + 1 \<and> (b \<longleftrightarrow> b_buffer B \<noteq> []) \<and> (b \<longrightarrow> ps' = ps @ [b_buffer B]) \<and> (\<not> b \<longrightarrow> ps' = ps \<and> M' = M)"
proof (cases "b_buffer B = []")
  case True
  then have "B = \<lparr>b_buffer = [], b_lvl = length ps\<rparr>" using assms(1) by (simp add: buffer_at_def)
  then show ?thesis using assms(1) by (intro exI [of _ M] exI [of _ ps] exI [of _ False]) (simp add: emptybuffer_def contents_def)
next
  case False
  obtain M' where "lua_pushlstring (b_buffer B) M = Inr ((), M')" "buffer_at pre us L n (B\<lparr>b_lvl := b_lvl B + 1\<rparr>) (ps @ [b_buffer B]) M'"
    using push_piece [OF assms] by blast
  then show ?thesis
    using False assms(1)
    by (intro exI [of _ M'] exI [of _ "ps @ [b_buffer B]"] exI [of _ True]) (auto simp: emptybuffer_def contents_def buffer_at_def)
qed

lemma addchar_ok:
  assumes "buffer_ok pre us L n B s M" "10 \<le> n" "int (length s) < MAX_SIZET"
  shows "\<exists>B' M'. luaL_addchar call B c M = Inr (B', M') \<and> buffer_ok pre us L n B' (s @ [c]) M'"
proof (cases "length (b_buffer B) < LUAL_BUFFERSIZE")
  case True
  then show ?thesis
    using assms(1) by (auto simp: luaL_addchar_def buffer_ok_def buffer_at_def contents_def)
next
  case False
  obtain ps where ps: "buffer_at pre us L n B ps M" "contents B ps = s" "length ps < 10" using assms(1) by (auto simp: buffer_ok_def)
  have "b_buffer B \<noteq> []" using False by (auto simp: LUAL_BUFFERSIZE_def)
  moreover have "length ps < n" using ps(3) assms(2) by simp
  ultimately obtain M1 ps1 b where e: "emptybuffer B M = Inr ((\<lparr>b_buffer = [], b_lvl = length ps1\<rparr>, b), M1)" "b"
    "buffer_at pre us L n \<lparr>b_buffer = [], b_lvl = length ps1\<rparr> ps1 M1" "concat ps1 = s" "length ps1 \<le> length ps + 1"
    using emptybuffer_ok [OF ps(1), unfolded ps(2)] by metis
  then have 1: "emptybuffer B M = Inr ((\<lparr>b_buffer = [], b_lvl = length ps1\<rparr>, True), M1)"
    "buffer_at pre us L n \<lparr>b_buffer = [], b_lvl = length ps1\<rparr> ps1 M1" "concat ps1 = s" "length ps1 \<le> length ps + 1" by simp_all
  obtain ps2 M2 where 2: "adjuststack call \<lparr>b_buffer = [], b_lvl = length ps1\<rparr> M1 = Inr (\<lparr>b_buffer = [], b_lvl = length ps2\<rparr>, M2)"
    "buffer_at pre us L n \<lparr>b_buffer = [], b_lvl = length ps2\<rparr> ps2 M2" "concat ps2 = s" "length ps2 < 10"
    using adjuststack_joins [OF 1(2), of call] 1(3,4) ps(3) assms(3) by auto
  have "luaL_addchar call B c M = Inr (\<lparr>b_buffer = [c], b_lvl = length ps2\<rparr>, M2)"
    using False 1(1) 2(1) by (simp add: luaL_addchar_def luaL_prepbuffer_def)
  moreover have "buffer_ok pre us L n \<lparr>b_buffer = [c], b_lvl = length ps2\<rparr> (s @ [c]) M2"
    using 2 by (auto simp: buffer_ok_def buffer_at_def contents_def LUAL_BUFFERSIZE_def)
  ultimately show ?thesis by blast
qed

lemma addlstring_ok:
  assumes "buffer_ok pre us L n B s M" "10 \<le> n" "int (length (s @ t)) < MAX_SIZET"
  shows "\<exists>B' M'. luaL_addlstring call B t M = Inr (B', M') \<and> buffer_ok pre us L n B' (s @ t) M'"
  using assms
proof (induction t arbitrary: B s M)
  case (Cons c t)
  then obtain B1 M1 where 1: "luaL_addchar call B c M = Inr (B1, M1)" "buffer_ok pre us L n B1 (s @ [c]) M1"
    using addchar_ok [of pre us L n B s M call c] by auto
  from Cons.IH [OF 1(2)] Cons.prems 1(1) show ?case by auto
qed auto

lemma tolstring_top:
  assumes "tolstring v = Some s"
  shows "lua_tolstring_api (- 1) (with_values pre (vs @ [v]) post L) = Inr (Some s, with_values pre (vs @ [TString s]) post L)"
proof -
  let ?M = "with_values pre (vs @ [v]) post L"
  have l: "index2adr_api (- 1) ?M = Inr (Level (length pre + length vs), ?M)"
    by (rule index2adr_values) (simp add: index_of_def)
  have r: "read_location (Level (length pre + length vs)) ?M = Inr (v, ?M)" by (simp add: read_location_def getobj_def nth_append)
  have w: "write_location (Level (length pre + length vs)) x ?M = Inr ((), with_values pre (vs @ [x]) post L)" for x
    by (simp add: write_location_def setobj_def) (simp add: with_values_def put_stack_def list_update_append)
  show ?thesis
    using assms l r w
    by (cases v) (auto simp: lua_tolstring_api_def tolstring_def tostring_location_def luaV_tostring_def)
qed

lemma addvalue_ok:
  assumes M: "M = with_values pre (us @ map TString ps @ [v]) post L" "b_lvl B = length ps" "length ps + 1 + length post = n"
    and B: "length ps < 10" "length (b_buffer B) \<le> LUAL_BUFFERSIZE" "12 \<le> n"
    and v: "tolstring v = Some s" "int (length (contents B ps @ s)) < MAX_SIZET"
  shows "\<exists>B' M'. luaL_addvalue call B M = Inr (B', M') \<and> buffer_ok pre us L n B' (contents B ps @ s) M'"
proof -
  let ?M = "with_values pre (us @ map TString ps @ [TString s]) post L"
  have t: "lua_tolstring_api (- 1) M = Inr (Some s, ?M)"
    using tolstring_top [OF v(1), of pre "us @ map TString ps" post L] by (simp add: M(1))
  show ?thesis
  proof (cases "length s \<le> LUAL_BUFFERSIZE - length (b_buffer B)")
    case True
    have "lua_pop 1 ?M = Inr ((), with_values pre (us @ map TString ps) (TString s # post) L)"
      using lua_settop_negative [of 1 "us @ map TString ps @ [TString s]" pre post L] by simp
    then have "luaL_addvalue call B M = Inr (B\<lparr>b_buffer := b_buffer B @ s\<rparr>, with_values pre (us @ map TString ps) (TString s # post) L)"
      using t True by (simp add: luaL_addvalue_def)
    moreover have "buffer_ok pre us L n (B\<lparr>b_buffer := b_buffer B @ s\<rparr>) (contents B ps @ s) (with_values pre (us @ map TString ps) (TString s # post) L)"
      unfolding buffer_ok_def buffer_at_def using M(2,3) B(1,2) True
      by (intro conjI exI [of _ ps] exI [of _ "TString s # post"]) (auto simp: contents_def)
    ultimately show ?thesis by blast
  next
    case False
    define bs where "bs = (if b_buffer B = [] then [] else [b_buffer B])"
    define qs where "qs = ps @ bs @ [s]"
    define B1 where "B1 = \<lparr>b_buffer = [], b_lvl = length qs\<rparr>"
    have "\<exists>post'. luaL_addvalue call B M = adjuststack call B1 (with_values pre (us @ map TString qs) post' L)
        \<and> length qs + length post' = n"
    proof (cases "b_buffer B = []")
      case True
      then have "B\<lparr>b_lvl := b_lvl B + 1\<rparr> = B1" using M(2) by (cases B) (simp add: B1_def qs_def bs_def)
      then show ?thesis using t True False M(3) by (intro exI [of _ post]) (simp add: luaL_addvalue_def emptybuffer_def qs_def bs_def)
    next
      case b: False
      obtain x y post1 where post: "post = x # y # post1" using M(3) B(1,3) by (cases post; cases "tl post") auto
      let ?us = "us @ map TString ps"
      have "lua_pushlstring (b_buffer B) ?M = Inr ((), with_values pre ((?us @ [TString s]) @ [TString (b_buffer B)]) (y # post1) L)"
        using api_push_values [of "TString (b_buffer B)" pre "?us @ [TString s]" x "y # post1" L] by (simp add: post lua_pushlstring_def)
      moreover have "lua_insert (- 2) (with_values pre ((?us @ [TString s]) @ [TString (b_buffer B)]) (y # post1) L)
          = Inr ((), with_values pre (us @ map TString qs) (TString (b_buffer B) # post1) L)"
        using lua_insert_values [of "- 2" "?us @ [TString s]" "length ?us" pre "TString (b_buffer B)" y post1 L] b
        by (simp add: index_of_def qs_def bs_def)
      moreover have "B\<lparr>b_buffer := [], b_lvl := Suc (Suc (b_lvl B))\<rparr> = B1"
        using M(2) b by (simp add: B1_def qs_def bs_def)
      ultimately show ?thesis
        using t b False M(3) post by (intro exI [of _ "TString (b_buffer B) # post1"]) (simp add: luaL_addvalue_def emptybuffer_def qs_def bs_def)
    qed
    then obtain post' where 1: "luaL_addvalue call B M = adjuststack call B1 (with_values pre (us @ map TString qs) post' L)"
      "length qs + length post' = n" by blast
    have "buffer_at pre us L n B1 qs (with_values pre (us @ map TString qs) post' L)" using 1(2) by (auto simp: buffer_at_def B1_def)
    moreover have "concat qs = contents B ps @ s" "length qs < 9999" using B(1) by (auto simp: qs_def bs_def contents_def)
    ultimately obtain qs' M' where 2: "luaL_addvalue call B M = Inr (B1\<lparr>b_lvl := length qs'\<rparr>, M')"
      "buffer_at pre us L n (B1\<lparr>b_lvl := length qs'\<rparr>) qs' M'" "concat qs' = contents B ps @ s" "length qs' < 10"
      using adjuststack_joins [of pre us L n B1 qs _ call] v(2) unfolding 1(1) by (metis length_append)
    then have "buffer_ok pre us L n (B1\<lparr>b_lvl := length qs'\<rparr>) (contents B ps @ s) M'"
      unfolding buffer_ok_def by (intro conjI exI [of _ qs']) (simp_all add: contents_def B1_def)
    with 2(1) show ?thesis by blast
  qed
qed

section \<open>Uses of a buffer\<close>

text \<open>What a C function adds: characters it has, or a value that it has pushed.\<close>

datatype piece = Chars string | Value tvalue

fun piece_string :: "piece \<Rightarrow> string option" where
  "piece_string (Chars s) = Some s"
| "piece_string (Value v) = tolstring v"

fun add_piece :: "vcaller \<Rightarrow> luaL_Buffer \<Rightarrow> piece \<Rightarrow> luaL_Buffer V" where
  "add_piece call B (Chars s) = luaL_addlstring call B s"
| "add_piece call B (Value v) = thenV (api_push v) (luaL_addvalue call B)"

primrec add_pieces :: "vcaller \<Rightarrow> luaL_Buffer \<Rightarrow> piece list \<Rightarrow> luaL_Buffer V" where
  "add_pieces call B [] = returnV B"
| "add_pieces call B (p # ps) = bindV (add_piece call B p) (\<lambda>B1. add_pieces call B1 ps)"

definition collect_pieces :: "vcaller \<Rightarrow> piece list \<Rightarrow> unit V" where
  "collect_pieces call ps =
     bindV (add_pieces call luaL_buffinit ps) (\<lambda>B. bindV (luaL_pushresult call B) (\<lambda>B1. returnV ()))"

definition pieces_string :: "piece list \<Rightarrow> string" where
  "pieces_string ps = concat (map (\<lambda>p. the (piece_string p)) ps)"

lemma add_piece_ok:
  assumes "buffer_ok pre us L n B s M" "12 \<le> n" "piece_string p = Some t" "int (length (s @ t)) < MAX_SIZET"
  shows "\<exists>B' M'. add_piece call B p M = Inr (B', M') \<and> buffer_ok pre us L n B' (s @ t) M'"
proof (cases p)
  case (Chars u)
  then show ?thesis using addlstring_ok [of pre us L n B s M t call] assms by simp
next
  case (Value v)
  obtain ps post where ps: "M = with_values pre (us @ map TString ps) post L" "length ps + length post = n" "b_lvl B = length ps"
    "contents B ps = s" "length ps < 10" "length (b_buffer B) \<le> LUAL_BUFFERSIZE"
    using assms(1) by (auto simp: buffer_ok_def buffer_at_def)
  obtain x post1 where post: "post = x # post1" using ps(2,5) assms(2) by (cases post) auto
  have "api_push v M = Inr ((), with_values pre (us @ map TString ps @ [v]) post1 L)"
    using api_push_values [of v pre "us @ map TString ps" x post1 L] by (simp add: ps(1) post)
  moreover have "\<exists>B' M'. luaL_addvalue call B (with_values pre (us @ map TString ps @ [v]) post1 L) = Inr (B', M')
      \<and> buffer_ok pre us L n B' (contents B ps @ t) M'"
    by (rule addvalue_ok [OF refl ps(3) _ ps(5,6) assms(2)]) (use assms(3,4) ps(2,4) post Value in auto)
  ultimately show ?thesis using Value ps(4) by (simp only: add_piece.simps) (auto simp: thenV_Inr)
qed

lemma add_pieces_ok:
  assumes "buffer_ok pre us L n B s M" "12 \<le> n" "\<forall>p \<in> set ps. piece_string p \<noteq> None" "int (length (s @ pieces_string ps)) < MAX_SIZET"
  shows "\<exists>B' M'. add_pieces call B ps M = Inr (B', M') \<and> buffer_ok pre us L n B' (s @ pieces_string ps) M'"
  using assms
proof (induction ps arbitrary: B s M)
  case (Cons p ps)
  from Cons.prems(3) obtain t where t: "piece_string p = Some t" by auto
  with Cons.prems(4) have len: "int (length (s @ t)) < MAX_SIZET" "int (length ((s @ t) @ pieces_string ps)) < MAX_SIZET"
    by (simp_all add: pieces_string_def)
  obtain B1 M1 where 1: "add_piece call B p M = Inr (B1, M1)" "buffer_ok pre us L n B1 (s @ t) M1"
    using add_piece_ok [OF Cons.prems(1,2) t len(1), of call] by blast
  obtain B2 M2 where "add_pieces call B1 ps M1 = Inr (B2, M2)" "buffer_ok pre us L n B2 ((s @ t) @ pieces_string ps) M2"
    using Cons.IH [OF 1(2) Cons.prems(2) _ len(2)] Cons.prems(3) by auto
  then show ?case using 1(1) t by (auto simp: pieces_string_def)
qed (auto simp: pieces_string_def)

lemma pushresult_ok:
  assumes "buffer_ok pre us L n B s M" "12 \<le> n" "int (length s) < MAX_SIZET"
  shows "\<exists>B' post. luaL_pushresult call B M = Inr (B', with_values pre (us @ [TString s]) post L) \<and> length post + 1 = n"
proof -
  obtain ps where ps: "buffer_at pre us L n B ps M" "contents B ps = s" "length ps < 10" using assms(1) by (auto simp: buffer_ok_def)
  have "length ps < n" using ps(3) assms(2) by simp
  from emptybuffer_ok [OF ps(1) this] ps(2) obtain M1 ps1 b where
    e: "emptybuffer B M = Inr ((\<lparr>b_buffer = [], b_lvl = length ps1\<rparr>, b), M1)"
    "buffer_at pre us L n \<lparr>b_buffer = [], b_lvl = length ps1\<rparr> ps1 M1" "concat ps1 = s" "length ps1 \<le> length ps + 1" by blast
  obtain post where M1: "M1 = with_values pre (us @ map TString ps1) post L" "length ps1 + length post = n"
    using e(2) by (auto simp: buffer_at_def)
  have "\<exists>post'. lua_concat call (length ps1) M1 = Inr ((), with_values pre (us @ [TString s]) post' L) \<and> length post' + 1 = n"
  proof (cases "ps1 = []")
    case True
    obtain x post1 where "post = x # post1" using M1(2) assms(2) True by (cases post) auto
    then show ?thesis
      using True M1 e(3) api_push_values [of "TString []" pre us x post1 L] by (auto simp: lua_concat_def)
  next
    case False
    have "ps1 = [] @ ps1" by simp
    from lua_concat_pieces [OF this False, of call pre us post L] e(3) assms(3) M1 show ?thesis by auto
  qed
  then show ?thesis using e(1) by (auto simp: luaL_pushresult_def)
qed

text \<open>C15: The string buffer of the auxiliary library collects what is put into it: whatever characters are added with
\<open>luaL_addlstring\<close> and whatever strings or numbers are pushed and added with \<open>luaL_addvalue\<close>, in any order and of
any length below the limit of a string, \<open>luaL_pushresult\<close> leaves exactly one new value on the stack, the
concatenation of the pieces. Twelve free levels are enough for any number of pieces, since the buffer joins the
shorter ones.\<close>

theorem buffer_collects:
  assumes "frame_ok L" "12 \<le> room L" "\<forall>p \<in> set ps. piece_string p \<noteq> None" "int (length (pieces_string ps)) < MAX_SIZET"
  shows "\<exists>L'. collect_pieces call ps L = Inr ((), L') \<and> frame_values L' = frame_values L @ [TString (pieces_string ps)]
    \<and> frame_ok L' \<and> frame_rest L' = frame_rest L"
proof -
  obtain pre post where L: "L = with_values pre (frame_values L) post L" "length post = room L" using as_values [OF assms(1)] by metis
  define us where "us = frame_values L"
  have "buffer_ok pre us L (room L) luaL_buffinit [] L"
    unfolding buffer_ok_def buffer_at_def using L
    by (intro conjI exI [of _ "[]"] exI [of _ post]) (simp_all add: us_def luaL_buffinit_def contents_def)
  then obtain B M where 1: "add_pieces call luaL_buffinit ps L = Inr (B, M)" "buffer_ok pre us L (room L) B (pieces_string ps) M"
    using add_pieces_ok [of pre us L "room L" luaL_buffinit "[]" L ps call] assms by auto
  obtain B' post' where 2: "luaL_pushresult call B M = Inr (B', with_values pre (us @ [TString (pieces_string ps)]) post' L)"
    "length post' + 1 = room L"
    using pushresult_ok [OF 1(2) assms(2,4)] by blast
  have "frame_rest L = (pre, length pre + length us + length post, put_stack [] (L\<lparr>L_base := length pre, L_top := 0\<rparr>))"
    unfolding us_def by (subst L(1)) (rule frame_rest_with_values)
  then have "frame_rest (with_values pre (us @ [TString (pieces_string ps)]) post' L) = frame_rest L"
    using 2(2) L(2) by (simp add: frame_rest_with_values)
  then show ?thesis using 1(1) 2(1) by (simp add: collect_pieces_def us_def)
qed

theorem buffer_collects_witness:
  "\<exists>L'. collect_pieces (\<lambda>f n. returnV ()) [Chars ''a'', Value (TString ''bc''), Chars []]
       (with_values [TNil] [TBoolean 0] (replicate 12 TNil) (one_frame luaF_newproto)) = Inr ((), L')
     \<and> frame_values L' = [TBoolean 0, TString ''abc'']"
  using buffer_collects [of "with_values [TNil] [TBoolean 0] (replicate 12 TNil) (one_frame luaF_newproto)"
    "[Chars ''a'', Value (TString ''bc''), Chars []]" "\<lambda>f n. returnV ()"]
  by (auto simp: pieces_string_def tolstring_def MAX_SIZET_def)

end
