(* ===== verification/LuaBaseProps.thy ===== *)
theory LuaBaseProps
  imports LuaApiStack LuaBaselib LuaPcall
begin

text \<open>
  The basic library over the interface to C: protected calls, and where the code leaves what C defines.
\<close>

section \<open>Protected calls\<close>

lemma argument_ok: "f no_info (frame_values L) = Inr x \<Longrightarrow> with_args call f L = Inr (x, L)"
  by (simp add: with_args_def arguments_def frame_values_def)

lemma frame_restD:
  assumes "frame_rest M = frame_rest N"
  shows "L_base M = L_base N" "L_ci M = L_ci N" "L_nCcalls M = L_nCcalls N" "L_errfunc M = L_errfunc N" "L_stacksize M = L_stacksize N"
    "take (L_base M) (L_stack M) = take (L_base N) (L_stack N)"
proof -
  have "put_stack [] (M\<lparr>L_top := 0\<rparr>) = put_stack [] (N\<lparr>L_top := 0\<rparr>)" using assms by (simp add: frame_rest_def)
  from arg_cong [OF this, of L_base] arg_cong [OF this, of L_ci] arg_cong [OF this, of L_nCcalls] arg_cong [OF this, of L_errfunc]
  show "L_base M = L_base N" "L_ci M = L_ci N" "L_nCcalls M = L_nCcalls N" "L_errfunc M = L_errfunc N" by (simp_all add: put_stack_def)
  show "L_stacksize M = L_stacksize N" "take (L_base M) (L_stack M) = take (L_base N) (L_stack N)" using assms by (simp_all add: frame_rest_def)
qed

text \<open>The status in front of the values that are in the frame.\<close>

lemma status_first:
  assumes "frame_ok N" "2 \<le> room N" "L_ci N = ci # rest"
  shows "\<exists>N1 N2 M. adjustresults LUA_MULTRET N = Inr ((), N1) \<and> lua_pushboolean b N1 = Inr ((), N2) \<and> lua_insert 1 N2 = Inr ((), M)
    \<and> frame_values M = TBoolean (if b then 1 else 0) # frame_values N \<and> frame_ok M \<and> L_base M = L_base N \<and> tl (L_ci M) = rest
    \<and> L_nCcalls M = L_nCcalls N \<and> L_errfunc M = L_errfunc N \<and> take (L_base N) (L_stack M) = take (L_base N) (L_stack N)"
proof -
  obtain c where c: "adjustresults LUA_MULTRET N = Inr ((), N\<lparr>L_ci := c # rest\<rparr>)"
    using assms(3) by (auto simp: adjustresults_def mod_ci_def)
  let ?N = "N\<lparr>L_ci := c # rest\<rparr>"
  have N: "frame_ok ?N" "2 \<le> room ?N" "frame_values ?N = frame_values N"
    using assms(1,2) by (simp_all add: frame_ok_def room_def frame_values_def)
  from api.push_first [OF N(1,2), of "TBoolean (if b then 1 else 0)"] obtain N2 M
    where M: "run (api_push (TBoolean (if b then 1 else 0))) ?N = Some N2" "run (lua_insert 1) N2 = Some M" "frame_ok M"
      "frame_values M = TBoolean (if b then 1 else 0) # frame_values N" "frame_rest M = frame_rest ?N"
    unfolding N(3) by blast
  from frame_restD [OF M(5)] c M(3,4) run_unit [OF M(1)] run_unit [OF M(2)] show ?thesis
    by (intro exI [of _ ?N] exI [of _ N2] exI [of _ M]) (simp add: lua_pushboolean_def)
qed

lemma frame_length: "frame_ok L \<Longrightarrow> length (frame_values L) = L_top L - L_base L"
  by (simp add: frame_ok_def frame_values_def)

lemma bindV_bindV: "bindV (bindV m f) g L = bindV m (\<lambda>x. bindV (f x) g) L"
  by (simp add: bindV_def split: sum.split)

lemma luaB_pcall_unfold:
  assumes "frame_ok L" "frame_values L = f # args"
  shows "luaB_pcall call L =
    bindV (luaD_pcall (call (L_base L) LUA_MULTRET) (L_base L) 0) (\<lambda>status.
      bindV (thenV (adjustresults LUA_MULTRET) (returnV status)) (\<lambda>status.
        thenV (lua_pushboolean (status = 0)) (thenV (lua_insert 1) lua_gettop))) L"
proof -
  have n: "L_top L = L_base L + Suc (length args)" "L_base L \<le> L_top L"
    using assms(1) frame_length [OF assms(1)] by (simp_all add: assms(2) frame_ok_def)
  have any: "with_args call (\<lambda>ar args. luaL_checkany ar args 1) L = Inr ((), L)"
    by (rule argument_ok) (cases f, simp_all add: assms(2) luaL_checkany_def lua_type_def index2adr_def)
  have top: "lua_gettop L = Inr (int (length args) + 1, L)" using n by (simp add: lua_gettop_def)
  have func: "func_below (int (length args)) L = Inr (L_base L, L)" using n by (simp add: func_below_def)
  show ?thesis
    by (simp add: luaB_pcall_def any top lua_pcall_def func bindV_bindV del: One_nat_def)
qed

text \<open>C7: \<open>pcall\<close> never lets an error through. When the call of its first argument returns, its results are true and
the values that the call left; when the call throws an error, whatever frames were entered, they are false and
the error value. In both cases the frames below that of \<open>pcall\<close> and the error function are what they were,
the frame of \<open>pcall\<close> has the same base, the levels below the base are as the call left them, and what is
returned is the number of the results. The call may change the frame of \<open>pcall\<close> (\<open>luaD_precall\<close> stores the
position in it) but not its base, and must not remove it. A call that returns has left a frame with two free
levels (they are those that \<open>pcall\<close> pushes to); at a throw the stack and the open upvalues are well-formed and
the stack has three levels from the base on.\<close>

theorem luaB_pcall_outcome:
  assumes L: "frame_ok L" "frame_values L = f # args" "L_ci L = ci # rest"
    and call: "call (L_base L) LUA_MULTRET (L\<lparr>L_errfunc := 0\<rparr>) = Inr ((), M)
        \<and> frame_ok M \<and> 2 \<le> room M \<and> L_base M = L_base L \<and> L_ci M = ci' # rest
        \<and> vs = TBoolean 1 # frame_values M
      \<or> call (L_base L) LUA_MULTRET (L\<lparr>L_errfunc := 0\<rparr>) = Inl (Throw status, M)
        \<and> status \<in> {ERRMEM, ERRERR, ERRSYNTAX, ERRRUN} \<and> L_ci M = inner @ ci' # rest \<and> fr_base ci' = L_base L
        \<and> uv_ok (L_uv M) \<and> 0 < L_top M \<and> L_top M \<le> L_stacksize M \<and> L_base L + 3 \<le> L_stacksize M
        \<and> vs = [TBoolean 0, error_value status M]"
  shows "\<exists>N. luaB_pcall call L = Inr (int (length vs), N) \<and> frame_ok N \<and> frame_values N = vs
    \<and> L_base N = L_base L \<and> tl (L_ci N) = rest \<and> L_errfunc N = L_errfunc L
    \<and> take (L_base L) (L_stack N) = take (L_base L) (L_stack M)"
proof -
  have "\<exists>N' st. luaD_pcall (call (L_base L) LUA_MULTRET) (L_base L) 0 L = Inr (st, N') \<and> frame_ok N' \<and> 2 \<le> room N'
      \<and> vs = TBoolean (if st = 0 then 1 else 0) # frame_values N' \<and> L_ci N' = ci' # rest \<and> L_base N' = L_base L
      \<and> L_errfunc N' = L_errfunc L \<and> take (L_base L) (L_stack N') = take (L_base L) (L_stack M)"
    using call
  proof
    assume r: "call (L_base L) LUA_MULTRET (L\<lparr>L_errfunc := 0\<rparr>) = Inr ((), M)
        \<and> frame_ok M \<and> 2 \<le> room M \<and> L_base M = L_base L \<and> L_ci M = ci' # rest \<and> vs = TBoolean 1 # frame_values M"
    then have "luaD_pcall (call (L_base L) LUA_MULTRET) (L_base L) 0 L = Inr (0, M\<lparr>L_errfunc := L_errfunc L\<rparr>)"
      by (simp add: luaD_pcall_def luaD_rawrunprotected_def)
    with r L show ?thesis by (simp add: frame_ok_def room_def frame_values_def)
  next
    assume t: "call (L_base L) LUA_MULTRET (L\<lparr>L_errfunc := 0\<rparr>) = Inl (Throw status, M)
        \<and> status \<in> {ERRMEM, ERRERR, ERRSYNTAX, ERRRUN} \<and> L_ci M = inner @ ci' # rest \<and> fr_base ci' = L_base L
        \<and> uv_ok (L_uv M) \<and> 0 < L_top M \<and> L_top M \<le> L_stacksize M \<and> L_base L + 3 \<le> L_stacksize M
        \<and> vs = [TBoolean 0, error_value status M]"
    then have t': "call (L_base L) LUA_MULTRET (L\<lparr>L_errfunc := 0\<rparr>) = Inl (Throw status, M)"
      "status \<in> {ERRMEM, ERRERR, ERRSYNTAX, ERRRUN}" "L_ci M = inner @ ci' # rest" "fr_base ci' = L_base L"
      "0 < L_top M" "L_top M \<le> L_stacksize M" "L_base L < L_stacksize M" "uv_ok (L_uv M)" by auto
    from pcall_error [where func = "call (L_base L) LUA_MULTRET" and ef = 0 and L = L and M = M and oldtop = "L_base L",
        OF t'(1,2) L(3) t'(3,5-8)]
    obtain N where N: "luaD_pcall (call (L_base L) LUA_MULTRET) (L_base L) 0 L = Inr (status, N)"
      "L_ci N = ci' # rest" "L_errfunc N = L_errfunc L" "L_base N = L_base L"
      "L_top N = L_base L + 1" "L_stack N = (L_stack M)[L_base L := error_value status M]"
      unfolding t'(4) by blast
    then have "frame_values N = [error_value status M]" using t by (simp add: frame_values_def take_Suc_conv_app_nth)
    moreover have "frame_ok N" "2 \<le> room N" using N(4-6) t by (auto simp: frame_ok_def room_def)
    ultimately show ?thesis using N t by auto
  qed
  then obtain N' st where N': "luaD_pcall (call (L_base L) LUA_MULTRET) (L_base L) 0 L = Inr (st, N')" "frame_ok N'" "2 \<le> room N'"
    "vs = TBoolean (if st = 0 then 1 else 0) # frame_values N'" "L_ci N' = ci' # rest" "L_base N' = L_base L"
    "L_errfunc N' = L_errfunc L" "take (L_base L) (L_stack N') = take (L_base L) (L_stack M)" by blast
  from status_first [OF N'(2,3,5), of "st = 0"] obtain N1 N2 N where
    N: "adjustresults LUA_MULTRET N' = Inr ((), N1)" "lua_pushboolean (st = 0) N1 = Inr ((), N2)" "lua_insert 1 N2 = Inr ((), N)"
      "frame_values N = vs" "frame_ok N" "L_base N = L_base L" "tl (L_ci N) = rest" "L_errfunc N = L_errfunc L"
      "take (L_base L) (L_stack N) = take (L_base L) (L_stack M)"
    using N'(4,6-8) by auto
  have "lua_gettop N = Inr (int (length vs), N)"
    using frame_length [OF N(5)] N(4,5) by (simp add: lua_gettop_def frame_ok_def)
  with N N'(1) have "luaB_pcall call L = Inr (int (length vs), N)"
    by (simp add: luaB_pcall_unfold [OF L(1,2)])
  with N(4-9) show ?thesis by blast
qed

text \<open>The C function of \<open>sample_host\<close> that returns: its result is moved to the level of the function.\<close>

definition call_returned :: lua_State where
  "call_returned = put_stack (c_stack[2 := TString ''ok'', 3 := TString ''ok''])
     ((c_entered 1)\<lparr>L_ci := caller_frame\<lparr>fr_savedpc := 7\<rparr> # lower_frames, L_base := 2, L_savedpc := 7, L_top := 3, L_nCcalls := 1\<rparr>)"

lemma returning_call:
  "luaD_call sample_host 1 2 (- 1) ((c_function_state 1)\<lparr>L_errfunc := 0\<rparr>) = Inr ((), call_returned)"
proof -
  define ys where "ys = c_stack[3 := TString ''ok'']"
  define M where "M = put_stack ys ((c_entered 1)\<lparr>L_top := 4\<rparr>)"
  have host: "h_cfun sample_host 1 call (c_entered 1) = Inr (1, M)" for call
    using push_entered [of "TString ''ok''" 1] by (simp add: sample_host_def M_def ys_def)
  define M1 where "M1 = M\<lparr>L_ci := caller_frame\<lparr>fr_savedpc := 7\<rparr> # lower_frames, L_base := 2, L_savedpc := 7\<rparr>"
  have M1: "M1 = put_stack ys M1" "L_top M1 = 4" by (simp_all add: M1_def M_def put_stack_def)
  have y: "length ys = 45" "ys ! 3 = TString ''ok''" by (simp_all add: ys_def)
  have mv: "moveobj 2 3 M1 = Inr ((), put_stack (ys[2 := TString ''ok'']) M1)"
    using y moveobj_put [of 2 ys 3 M1] M1(1) by simp
  define P where "P = put_stack (ys[2 := TString ''ok'']) (M1\<lparr>L_top := 3\<rparr>)"
  have post: "luaD_poscall 3 M = Inr (False, P)"
  proof -
    have "L_ci M = callee_frame # caller_frame\<lparr>fr_savedpc := 7\<rparr> # lower_frames" by (simp add: M_def put_stack_def)
    moreover have "fr_func callee_frame = 2" "fr_nresults callee_frame = - 1" "fr_base (caller_frame\<lparr>fr_savedpc := 7\<rparr>) = 2"
      by (simp_all add: callee_frame_def caller_frame_def)
    moreover have "L_top (put_stack zs M1) = 4" "put_stack zs M1\<lparr>L_top := 3\<rparr> = put_stack zs (M1\<lparr>L_top := 3\<rparr>)" for zs
      using M1(2) by (simp_all add: put_stack_def)
    ultimately show ?thesis
      using mv M1(2) by (simp add: luaD_poscall_def M1_def [symmetric] P_def)
  qed
  have "P\<lparr>L_nCcalls := L_nCcalls P - 1\<rparr> = call_returned"
    by (simp add: P_def call_returned_def M1_def M_def ys_def put_stack_def c_entered_def list_update_swap [of 2 3])
  moreover have "L_top M = 4" by (simp add: M_def put_stack_def)
  ultimately show ?thesis unfolding call_enters bindV_def host by (simp add: post)
qed

text \<open>Both outcomes of the real \<open>luaD_call\<close>: the C function raises an error, or returns a string.\<close>

theorem luaB_pcall_outcome_witness:
  "(\<exists>N. luaB_pcall (luaD_call sample_host 1) (c_function_state 0) = Inr (2, N)
      \<and> frame_values N = [TBoolean 0, TString ''boom''])
   \<and> (\<exists>N. luaB_pcall (luaD_call sample_host 1) (c_function_state 1) = Inr (2, N)
      \<and> frame_values N = [TBoolean 1, TString ''ok''])"
proof
  have L: "frame_ok (c_function_state g)" "frame_values (c_function_state g) = [TFunction 5]" for g
    by (simp_all add: frame_ok_def frame_values_def c_stack_def eval_nat_numeral)
  note use = luaB_pcall_outcome [OF L c_function_state_simps(1), unfolded c_function_state_simps(2)]
  define M where "M = put_stack (c_stack[3 := TString ''boom'']) ((c_entered 0)\<lparr>L_top := 4\<rparr>)"
  have M: "L_ci M = [callee_frame] @ caller_frame\<lparr>fr_savedpc := 7\<rparr> # lower_frames" "L_top M = 4" "L_stack M = c_stack[3 := TString ''boom'']"
    "uv_ok (L_uv M)"
    by (simp_all add: M_def put_stack_def) (simp add: c_entered_def c_function_state_def one_frame_def put_stack_def uv_ok_def)
  have "error_value ERRRUN M = TString ''boom''" using M by (simp add: error_value_def)
  then show "\<exists>N. luaB_pcall (luaD_call sample_host 1) (c_function_state 0) = Inr (2, N) \<and> frame_values N = [TBoolean 0, TString ''boom'']"
    using use [where call = "luaD_call sample_host 1" and status = ERRRUN and M = M and vs = "[TBoolean 0, TString ''boom'']"
        and ci' = "caller_frame\<lparr>fr_savedpc := 7\<rparr>" and inner = "[callee_frame]"] failing_call [folded M_def] M
    by (simp add: caller_frame_def) blast
  have R: "L_ci call_returned = caller_frame\<lparr>fr_savedpc := 7\<rparr> # lower_frames" "frame_values call_returned = [TString ''ok'']"
    "frame_ok call_returned" "2 \<le> room call_returned" "L_base call_returned = 2"
    by (simp_all add: call_returned_def put_stack_def frame_values_def frame_ok_def room_def c_stack_def eval_nat_numeral)
  then show "\<exists>N. luaB_pcall (luaD_call sample_host 1) (c_function_state 1) = Inr (2, N) \<and> frame_values N = [TBoolean 1, TString ''ok'']"
    using use [where call = "luaD_call sample_host 1" and M = call_returned and vs = "[TBoolean 1, TString ''ok'']"
        and ci' = "caller_frame\<lparr>fr_savedpc := 7\<rparr>"] returning_call
    by simp blast
qed

section \<open>Where the code leaves what C defines\<close>

text \<open>\<open>unpack\<close> computes the number of elements in an \<open>int\<close>.\<close>

lemma unpack_overflow:
  assumes v: "frame_values L = [TTable a, TNumber (cast_num i), TNumber (cast_num e)]"
    and "INT_MIN \<le> i" "i \<le> INT_MAX" "INT_MIN \<le> e" "e \<le> INT_MAX" "INT_MAX < e - i" "lua_objlen_api 1 L = Inr (n, L)"
  shows "luaB_unpack call L = Inl (Undefined, L)"
proof -
  have 1: "with_args call (\<lambda>ar args. luaL_checktype ar args 1 5) L = Inr ((), L)"
    by (rule argument_ok) (simp add: v luaL_checktype_def lua_type_def index2adr_def)
  have "luaL_optint ar args k d = Inr j"
    if "0 < k" "k \<le> length args" "args ! (k - 1) = TNumber (cast_num j)" "INT_MIN \<le> j" "j \<le> INT_MAX" for ar args k d j
    using that optinteger_int [of k args j ar d] by (simp add: luaL_optint_def int32_id)
  note int = this
  have 2: "with_args call (\<lambda>ar args. luaL_optint ar args 2 1) L = Inr (i, L)"
    using assms by (intro argument_ok int) (simp_all add: v)
  have 3: "with_args call (\<lambda>ar args. luaL_optint ar args 3 d) L = Inr (e, L)" for d
    using assms by (intro argument_ok int) (simp_all add: v)
  show ?thesis using assms by (simp add: luaB_unpack_def 1 2 3 Let_def del: One_nat_def)
qed

text \<open>\<open>lua_setfenv\<close> tells the collector about the object even where the value is none.\<close>

lemma setfenv_unmarked:
  assumes "value_at idx L = Inr (TNumber n, L)" "top_value 1 L = Inr (TTable e, L)"
  shows "lua_setfenv idx L = Inl (Undefined, L)"
  using assms by (simp add: lua_setfenv_def iscollectable_def bindV_def thenV_def del: One_nat_def)

end
