(* ===== verification/Spec2Isabelle.thy ===== *)
theory Spec2Isabelle
  imports LuaTableApi LuaOpcodes LuaStrlib LuaFormat LuaTablib LuaStream LuaLex LuaTokens LuaFunc LuaChecker LuaDebug LuaDump LuaJumps LuaConsts LuaParserEnds LuaScope LuaFlow LuaOrder LuaConcat LuaIndex LuaVararg LuaPcall LuaForLoop LuaApi LuaApiStack LuaLaux LuaBaselib LuaBuffer LuaBaseProps
begin

text \<open>
  The Lua 5.1 interpreter that the D web server embeds: the C files under src/http4d/src/luasp/lua-5.1/src.

  \<^bold>\<open>The program.\<close> A D program serves HTTP requests with pages that are Lua code. It creates a state (lstate.c), opens
  the libraries in it, loads a chunk and calls it. A chunk is source text, which goes through the input stream
  (lzio.c), the lexical analyzer (llex.c) and the parser (lparser.c), which calls the code generator (lcode.c) as it
  reads; or it is a saved function, which lundump.c loads and the code checker of ldebug.c accepts or refuses. Either
  way the result is a tree of prototypes (lobject.h, lfunc.c). ldo.c calls functions and throws errors, lvm.c executes
  instructions (lopcodes.h); both work on the stack of the state, on tables (ltable.c), strings (lstring.c), closures
  and upvalues (lfunc.c), and find metamethods with ltm.c. C functions see the state through lapi.c and lauxlib.c; the
  libraries lbaselib.c, lstrlib.c and ltablib.c are C functions.

  \<^bold>\<open>The theories.\<close> Each theory names its file in its first lines; the definitions have the names of the C functions,
  with a suffix where one name would stand for two things (\<open>_api\<close> for the functions of lapi.c whose result on a list of
  arguments LuaAux defines first). Parts of a C function, such as the body of a loop, have names of their own.

  LuaPrelude: errors as values (\<open>bindE\<close>), the 32-bit \<open>int\<close>, what the proofs share. LuaNumber: numbers as the
  64 bits of a double, with the arithmetic of the standard, and the conversions of luaconf.h and llimits.h. LuaObject:
  values and lobject.c. LuaOpcodes: instructions as 32-bit words. LuaString: the string table.

  LuaTable, LuaTableInv, LuaTableMap, LuaTableSet, LuaTableRehash, LuaTableApi: ltable.c, its invariant, the map that a
  table stands for, and the properties over the locale of a map.

  LuaAux: arguments of C functions. LuaPattern and LuaStrlib: pattern matching with its meaning as a relation, and
  lstrlib.c; LuaFormat: string.format. LuaTablib: ltablib.c.

  LuaStream, LuaLex, LuaTokens: lzio.c and lmem.c, llex.c, and the properties that join the lexical analyzer with what
  the libraries write. LuaFunc: lfunc.c. LuaChecker: precheck, symbexec and luaG_checkcode of ldebug.c; LuaDebug: the rest
  of that file. LuaDump: ldump.c and lundump.c. LuaCode, LuaJumps, LuaConsts: lcode.c, its jump lists and its table of
  constants. LuaParser, LuaParserEnds, LuaScope: lparser.c, its termination, and the scopes of variables.

  LuaState: the state of a thread, as a record with the stack, the frames (\<open>CallInfo\<close>) and the heap as one map per
  type of object; a computation takes a state and ends in a new one, or stops with an error, a yield, or because C leaves
  its behaviour undefined (\<open>Undefined\<close>) or the fuel is used up. LuaVM: lvm.c without its main loop, and ltm.c. LuaCall:
  the calls of ldo.c. LuaExec: the main loop, one operation per instruction. LuaDo: protected calls, coroutines and the
  parser's call. LuaVLemmas, LuaFlow, LuaOrder, LuaConcat, LuaIndex, LuaCalls, LuaVararg, LuaPcall, LuaArith and
  LuaForLoop: lemmas and properties of the machine.

  LuaApi, LuaApiStack: lapi.c, and the stack of a C function as a list of values. LuaLaux, LuaBuffer: lauxlib.c and its
  string buffer. LuaBaselib, LuaBaseProps: lbaselib.c.

  \<^bold>\<open>What is shown.\<close> Tables are finite maps whatever their array and hash parts hold: stores, traversal and length.
  Sorting sorts. Pattern matching finds the leftmost match of the declarative meaning. The tokens of a source do not
  depend on its blocks. Parsing ends, and variables are found as lexical scoping says. Jump lists are patched as their
  controls ask and constants are shared. Saved functions are read back, cut ones are refused, and what is loaded has
  passed the checker; code that has passed it, and whose counts behind \<open>OP_SETLIST\<close> are in their places (which the
  checker does not see to), is run within its bounds. Upvalues are shared while open and keep
  their values when closed. Calls place arguments and results, indexing follows the chain of metatables where
  the caches of absent metamethods are right, concatenation
  and comparison of strings are what they are on lists of characters, a numerical loop counts, and an error is caught
  with the state of the caller. The interface to C acts on a list of values, the string buffer collects what is added
  to it, and pcall reports what happened. The lemmas that are no properties of this list are the components'
  invariants and the steps of these proofs; some show where the code leaves C's defined behaviour.

  \<^bold>\<open>Bounds and fuel.\<close> Recursion that follows the data is structural or has a measure. Fuel is used by: the sort (the length
  of the range and 2 are enough, which is part of the property); \<open>luaH_set\<close> (a new key needs one rehash, which is proved
  to be enough); loading of saved functions (the length of the input, proved); the parser, whose loops are bounded by the
  tokens that are left and whose recursion by the limit on C levels (proved); jump lists (the length of the code,
  proved for lists that go back); \<open>luaD_call\<close> and \<open>vm_loop\<close>, which run programs that need not end: their properties
  say what a run does that the caller gives enough fuel, and for the numerical loop that a run of that length exists.

  \<^bold>\<open>Parameters.\<close> What is not in the repository is an argument: the C library's \<open>pow\<close> and \<open>strcoll\<close>, the C functions that a
  host registers (\<open>h_cfun\<close>), the text of a pointer, the allocator, and the reader of a chunk as the list of its
  blocks. Hypotheses on them are documented behaviour only.

  \<^bold>\<open>Not modelled.\<close> Hooks are off. The garbage collector (lgc.c) does not run, but for the colours
  that closing an upvalue touches: there are no weak tables and no finalizers. One thread: lua_newthread, lua_xmove and the functions of coroutines but yield and the
  resumption of the thread itself are left out. liolib.c, loslib.c, loadlib.c, lua.c, luac.c and print.c are input, output
  and calls of the operating system; lmathlib.c and ldblib.c wrap functions of the C library and of ldebug.c; linit.c is a
  table. The D files around the interpreter handle sockets and bindings and are not C.
\<close>

end
